(* ===== verification/Prelude.thy ===== *)
theory Prelude
  imports Main "HOL-Library.Word"
begin

text \<open>
  What every component of the development shares: names for the machine types of the source,
  the result of code that may abort, the error numbers of \<open>src/src/libs/errno.h\<close>, the
  arithmetic of 64-bit addresses stated on natural numbers, and ordered sequences of address
  intervals.
\<close>

unbundle bit_operations_syntax

type_synonym u8 = "8 word"
type_synonym u16 = "16 word"
type_synonym u32 = "32 word"
type_synonym u64 = "64 word"
type_synonym i32 = "32 word"


subsection \<open>64-bit addresses on natural numbers\<close>

text \<open>The values of an \<open>int\<close>.\<close>

definition i32_range :: "int \<Rightarrow> bool" where
  "i32_range n \<longleftrightarrow> -2147483648 \<le> n \<and> n \<le> 2147483647"

abbreviation u64_max :: u64 where
  "u64_max \<equiv> 18446744073709551615"

abbreviation u32_max :: u32 where
  "u32_max \<equiv> 4294967295"

lemma unat_u64_max [simp]: "unat u64_max = 18446744073709551615"
  by simp

lemma unat_u64_lt: "unat (a :: u64) < 18446744073709551616"
  by (rule order_less_le_trans [OF unsigned_less]) simp

lemma unat_u64_le: "unat (a :: u64) \<le> 18446744073709551615"
  using unat_u64_lt [of a] by linarith

lemma unat_plus_u64:
  "unat (a :: u64) + unat b < 18446744073709551616 \<Longrightarrow> unat (a + b) = unat a + unat b"
  by (simp add: unat_word_ariths)

lemma unat_minus_u64: "unat b \<le> unat a \<Longrightarrow> unat ((a :: u64) - b) = unat a - unat b"
  by (simp add: unat_sub word_le_nat_alt)

lemma unat_min_u64: "unat (min a (b :: u64)) = min (unat a) (unat b)"
  by (simp add: min_def word_le_nat_alt)

lemma unat_max_u64: "unat (max a (b :: u64)) = max (unat a) (unat b)"
  by (simp add: max_def word_le_nat_alt)

lemma less_u64: "(a :: u64) < b \<longleftrightarrow> unat a < unat b"
  by (simp add: word_less_nat_alt)

lemma le_u64: "(a :: u64) \<le> b \<longleftrightarrow> unat a \<le> unat b"
  by (simp add: word_le_nat_alt)

lemma eq_u64: "(a :: u64) = b \<longleftrightarrow> unat a = unat b"
  by (simp add: word_unat_eq_iff)

lemma neq0_u64: "(a :: u64) \<noteq> 0 \<longleftrightarrow> 0 < unat a"
  by (simp add: unat_gt_0)

lemmas u64_conv = less_u64 le_u64 unat_plus_u64 unat_minus_u64 unat_min_u64 unat_max_u64

text \<open>
  The saturating end of a range, written in several classes of the source as
  \<open>UINT64_MAX - start < size ? UINT64_MAX : start + size\<close>.
\<close>

definition sat_end :: "u64 \<Rightarrow> u64 \<Rightarrow> u64" where
  "sat_end s n = (if u64_max - s < n then u64_max else s + n)"

lemma unat_sat_end:
  "unat (sat_end s n) = min 18446744073709551615 (unat s + unat n)"
proof -
  have m: "unat (u64_max - s) = 18446744073709551615 - unat s"
    using unat_minus_u64 [of s u64_max] unat_u64_le [of s] by simp
  show ?thesis
  proof (cases "u64_max - s < n")
    case True
    then have "18446744073709551615 - unat s < unat n" by (simp add: less_u64 m)
    then show ?thesis using True by (simp add: sat_end_def)
  next
    case False
    then have "unat s + unat n \<le> 18446744073709551615"
      using unat_u64_le [of s] by (simp add: less_u64 m)
    then show ?thesis using False by (simp add: sat_end_def unat_plus_u64)
  qed
qed

lemma sat_end_exact: "unat s + unat n < 18446744073709551616 \<Longrightarrow> sat_end s n = s + n"
  by (simp add: eq_u64 unat_sat_end unat_plus_u64)

subsection \<open>Address spans\<close>

text \<open>
  The addresses of a range that starts at \<open>s\<close> and has \<open>n\<close> bytes. \<open>fits\<close> says the range
  ends at a representable address.
\<close>

definition fits :: "u64 \<Rightarrow> u64 \<Rightarrow> bool" where
  "fits s n \<longleftrightarrow> unat s + unat n < 18446744073709551616"

definition in_span :: "u64 \<Rightarrow> u64 \<Rightarrow> u64 \<Rightarrow> bool" where
  "in_span s n a \<longleftrightarrow> unat s \<le> unat a \<and> unat a < unat s + unat n"

definition span_of :: "u64 \<Rightarrow> u64 \<Rightarrow> nat set" where
  "span_of s n = {unat s ..< unat s + unat n}"

lemma in_span_of: "in_span s n a \<longleftrightarrow> unat a \<in> span_of s n"
  by (simp add: in_span_def span_of_def)

lemma in_span_start: "0 < unat n \<Longrightarrow> in_span s n s"
  by (simp add: in_span_def)

lemma span_of_zero [simp]: "span_of s 0 = {}"
  by (simp add: span_of_def)

lemma unat_end: "fits s n \<Longrightarrow> unat (s + n) = unat s + unat n"
  by (simp add: fits_def unat_plus_u64)

lemma fits_end: "fits s n \<Longrightarrow> unat (s + n) = unat s + unat n \<and> sat_end s n = s + n"
  by (simp add: fits_def unat_plus_u64 sat_end_exact)

lemma fits_0 [simp]: "fits s 0"
  using unat_u64_lt [of s] by (simp add: fits_def)

subsection \<open>Ordered sequences of intervals\<close>

text \<open>
  Every range container of the source (virtual ranges, free lists, blocks, backing views,
  dirty ranges) is a sequence of non-empty intervals in address order. \<open>lo\<close> and \<open>hi\<close> give
  the bounds of an element as natural numbers; the interval is \<open>[lo, hi)\<close>.
\<close>

definition iv_ok :: "('r \<Rightarrow> nat) \<Rightarrow> ('r \<Rightarrow> nat) \<Rightarrow> 'r list \<Rightarrow> bool" where
  "iv_ok lo hi rs \<longleftrightarrow> (\<forall>r\<in>set rs. lo r < hi r) \<and> sorted_wrt (\<lambda>a b. hi a \<le> lo b) rs"

definition iv_pts :: "('r \<Rightarrow> nat) \<Rightarrow> ('r \<Rightarrow> nat) \<Rightarrow> 'r list \<Rightarrow> nat set" where
  "iv_pts lo hi rs = (\<Union>r\<in>set rs. {lo r ..< hi r})"

lemma iv_ok_Nil [simp]: "iv_ok lo hi []"
  by (simp add: iv_ok_def)

lemma iv_ok_Cons: "iv_ok lo hi (r # rs) \<longleftrightarrow> lo r < hi r \<and> (\<forall>q\<in>set rs. hi r \<le> lo q) \<and> iv_ok lo hi rs"
  by (auto simp: iv_ok_def)

lemma iv_ok_append:
  "iv_ok lo hi (xs @ ys) \<longleftrightarrow> iv_ok lo hi xs \<and> iv_ok lo hi ys \<and> (\<forall>x\<in>set xs. \<forall>y\<in>set ys. hi x \<le> lo y)"
  by (auto simp: iv_ok_def sorted_wrt_append)

lemma iv_ok_lo_less: "iv_ok lo hi rs \<Longrightarrow> sorted_wrt (\<lambda>a b. lo a < lo b) rs"
  by (induction rs) (force simp: iv_ok_Cons iv_ok_def)+

lemma iv_ok_filter: "iv_ok lo hi rs \<Longrightarrow> iv_ok lo hi (filter P rs)"
  by (auto simp: iv_ok_def sorted_wrt_filter)

lemma iv_pts_simps [simp]:
  "iv_pts lo hi [] = {}"
  "iv_pts lo hi (r # rs) = {lo r ..< hi r} \<union> iv_pts lo hi rs"
  "iv_pts lo hi (xs @ ys) = iv_pts lo hi xs \<union> iv_pts lo hi ys"
  by (auto simp: iv_pts_def)

lemma iv_pts_bounds:
  "x \<in> iv_pts lo hi rs \<Longrightarrow> \<exists>r\<in>set rs. lo r \<le> x \<and> x < hi r"
  by (auto simp: iv_pts_def)

text \<open>
  \<open>std::lower_bound\<close> and \<open>std::upper_bound\<close> on a sorted sequence: the prefix of the elements
  that compare before the key, and the rest.
\<close>

lemma takeWhile_sorted_split:
  assumes "sorted_wrt (\<lambda>a b. (f a :: 'k :: linorder) < f b) rs"
  shows "\<forall>r\<in>set (dropWhile (\<lambda>r. f r \<le> k) rs). k < f r"
    and "\<forall>r\<in>set (dropWhile (\<lambda>r. f r < k) rs). k \<le> f r"
  using assms by (induction rs) (auto split: if_splits intro: less_trans order.trans)

lemma takeWhile_all: "r \<in> set (takeWhile P rs) \<Longrightarrow> P r"
  by (rule set_takeWhileD [THEN conjunct2])

end
