(* ===== verification/VirtualRanges.thy ===== *)
theory VirtualRanges
  imports Prelude
begin

text \<open>
  The guest's virtual ranges: \<open>class VirtualRanges\<close> of \<open>src/src/kernel/memory.cpp\<close>, with the
  helpers it shares with the other memory owners. A range has a start, a size, an offset into
  the backing (for direct memory), a protection, a memory type, a kind, a merge flag and a name;
  the class keeps them in a vector sorted by start. Every public operation takes the class's
  mutex, so an operation is one atomic step here. This theory holds the code;
  \<open>VirtualRangesProps\<close> proves it against the map from addresses to page attributes.
\<close>

subsection \<open>Protections, names and overlap\<close>

datatype vmode = NoAccess | Read | Write | ReadWrite | Execute | ExecuteRead | ExecuteWrite | ExecuteReadWrite

datatype gpu_access = GpuNoAccess | GpuRead | GpuWrite | GpuReadWrite

abbreviation PROT_CPU_READ :: i32 where "PROT_CPU_READ \<equiv> 1"
abbreviation PROT_CPU_WRITE :: i32 where "PROT_CPU_WRITE \<equiv> 2"
abbreviation PROT_CPU_EXEC :: i32 where "PROT_CPU_EXEC \<equiv> 4"
abbreviation PROT_GPU_READ :: i32 where "PROT_GPU_READ \<equiv> 16"
abbreviation PROT_GPU_WRITE :: i32 where "PROT_GPU_WRITE \<equiv> 32"

definition DecodeMemoryProtection :: "i32 \<Rightarrow> (vmode \<times> gpu_access) option" where
  "DecodeMemoryProtection prot =
    (let cpu_read = (prot AND PROT_CPU_READ \<noteq> 0);
         cpu_write = (prot AND PROT_CPU_WRITE \<noteq> 0);
         cpu_exec = (prot AND PROT_CPU_EXEC \<noteq> 0);
         gpu_read = (prot AND PROT_GPU_READ \<noteq> 0);
         gpu_write = (prot AND PROT_GPU_WRITE \<noteq> 0)
     in if prot AND (PROT_CPU_READ OR PROT_CPU_WRITE OR PROT_CPU_EXEC OR PROT_GPU_READ OR PROT_GPU_WRITE) = 0
           \<and> prot \<noteq> 0
        then None
        else
          let gpu_mode = (if gpu_read \<and> gpu_write then GpuReadWrite
                          else if gpu_read then GpuRead
                          else if gpu_write then GpuWrite
                          else GpuNoAccess);
              host_write = (cpu_write \<or> gpu_write);
              host_read = (cpu_read \<or> gpu_read \<or> host_write);
              mode = (if cpu_exec then (if host_write then ExecuteReadWrite
                                        else if host_read then ExecuteRead
                                        else Execute)
                      else if host_write then ReadWrite
                      else if host_read then Read
                      else NoAccess)
          in Some (mode, gpu_mode))"

text \<open>
  \<open>char name[KERNEL_MAXIMUM_NAME_LENGTH]\<close>, a zero-filled buffer of 32 bytes, as its C string.
  A null source pointer is \<open>None\<close>.
\<close>

definition KERNEL_MAXIMUM_NAME_LENGTH :: nat where
  "KERNEL_MAXIMUM_NAME_LENGTH = 32"

definition CopyVirtualRangeName :: "string option \<Rightarrow> string" where
  "CopyVirtualRangeName src =
     (case src of None \<Rightarrow> '''' | Some s \<Rightarrow> take (KERNEL_MAXIMUM_NAME_LENGTH - 1) s)"

definition VirtualRangesOverlap :: "u64 \<Rightarrow> u64 \<Rightarrow> u64 \<Rightarrow> u64 \<Rightarrow> bool" where
  "VirtualRangesOverlap left_start left_size right_start right_size =
     (if left_size = 0 \<or> right_size = 0 then False
      else
        let left_end = (if u64_max - left_start < left_size then u64_max else left_start + left_size);
            right_end = (if u64_max - right_start < right_size then u64_max else right_start + right_size)
        in left_start < right_end \<and> right_start < left_end)"

datatype vrange_type = Reserved | PoolReserved | Direct | Flexible | Pooled | Stack | Code | Runtime

definition IsReservedRangeType :: "vrange_type \<Rightarrow> bool" where
  "IsReservedRangeType t \<longleftrightarrow> t = Reserved \<or> t = PoolReserved"

definition IsPooledRangeType :: "vrange_type \<Rightarrow> bool" where
  "IsPooledRangeType t \<longleftrightarrow> t = Pooled \<or> t = PoolReserved"

definition IsCommittedRangeType :: "vrange_type \<Rightarrow> bool" where
  "IsCommittedRangeType t \<longleftrightarrow> \<not> IsReservedRangeType t"

definition IsPrivateCommittedRangeType :: "vrange_type \<Rightarrow> bool" where
  "IsPrivateCommittedRangeType t \<longleftrightarrow> t = Stack \<or> t = Code \<or> t = Runtime"

subsection \<open>State\<close>

record vrange =
  r_start :: u64
  r_size :: u64
  r_offset :: u64
  r_protection :: i32
  r_memory_type :: i32
  r_type :: vrange_type
  r_disallow_merge :: bool
  r_name :: string

text \<open>
  The epoch counts half-mutations: odd while a mutation is under way. It is a 64-bit counter in
  the source, unbounded here (it would take \<open>2 ^ 63\<close> mutations to wrap).
\<close>

record virtual_ranges =
  m_ranges :: "vrange list"
  m_identity :: u64
  m_epoch :: nat

definition Mutation_begin :: "virtual_ranges \<Rightarrow> virtual_ranges" where
  "Mutation_begin v = v\<lparr>m_epoch := m_epoch v + 1\<rparr>"

definition Mutation_end :: "virtual_ranges \<Rightarrow> virtual_ranges" where
  "Mutation_end v = v\<lparr>m_epoch := m_epoch v + 1\<rparr>"

text \<open>A public mutator: the epoch goes odd, the vector is edited, the epoch goes even.\<close>

definition mutate :: "(vrange list \<Rightarrow> 'a \<times> vrange list) \<Rightarrow> virtual_ranges \<Rightarrow> 'a \<times> virtual_ranges" where
  "mutate f v =
     (let v1 = Mutation_begin v; (x, rs) = f (m_ranges v1)
      in (x, Mutation_end (v1\<lparr>m_ranges := rs\<rparr>)))"

subsection \<open>Private helpers\<close>

abbreviation r_end :: "vrange \<Rightarrow> u64" where
  "r_end r \<equiv> sat_end (r_start r) (r_size r)"

definition SameMergeKey :: "vrange \<Rightarrow> vrange \<Rightarrow> bool" where
  "SameMergeKey left right =
     (if r_disallow_merge left \<or> r_disallow_merge right \<or> r_type left = Direct \<or> r_type right = Direct
      then False
      else r_type left = r_type right \<and> r_protection left = r_protection right \<and>
           r_memory_type left = r_memory_type right \<and> r_name left = r_name right)"

text \<open>The piece of a range between two addresses, none where it would be empty.\<close>

definition AddPiece :: "vrange list \<Rightarrow> vrange \<Rightarrow> u64 \<Rightarrow> u64 \<Rightarrow> vrange list" where
  "AddPiece rs src piece_start piece_end =
     (if piece_end \<le> piece_start then rs
      else
        let piece = src\<lparr>r_start := piece_start, r_size := piece_end - piece_start\<rparr>;
            piece = (if r_type piece = Direct
                     then piece\<lparr>r_offset := r_offset piece + (piece_start - r_start src)\<rparr> else piece)
        in rs @ [piece])"

definition LowerBound :: "vrange list \<Rightarrow> u64 \<Rightarrow> nat" where
  "LowerBound rs start = length (takeWhile (\<lambda>r. r_start r < start) rs)"

definition UpperBound :: "vrange list \<Rightarrow> u64 \<Rightarrow> nat" where
  "UpperBound rs addr = length (takeWhile (\<lambda>r. r_start r \<le> addr) rs)"

definition grow :: "vrange \<Rightarrow> vrange \<Rightarrow> vrange" where
  "grow current next_range = current\<lparr>r_size := r_size current + r_size next_range\<rparr>"

definition erase_at :: "nat \<Rightarrow> 'a list \<Rightarrow> 'a list" where
  "erase_at i xs = take i xs @ drop (Suc i) xs"

definition insert_at :: "nat \<Rightarrow> 'a \<Rightarrow> 'a list \<Rightarrow> 'a list" where
  "insert_at i x xs = take i xs @ x # drop i xs"

text \<open>The loop of \<open>MergeAroundUnlocked\<close> that absorbs the following ranges.\<close>

function merge_following :: "nat \<Rightarrow> vrange list \<Rightarrow> vrange list" where
  "merge_following index rs =
     (if index + 1 < length rs then
        let current = rs ! index; next_range = rs ! (index + 1)
        in if r_end current \<noteq> r_start next_range \<or> \<not> SameMergeKey current next_range then rs
           else merge_following index (erase_at (index + 1) (rs[index := grow current next_range]))
      else rs)"
  by pat_completeness auto
termination
  by (relation "measure (\<lambda>(i, rs). length rs)") (auto simp: erase_at_def)

definition MergeAroundUnlocked :: "nat \<Rightarrow> vrange list \<Rightarrow> vrange list" where
  "MergeAroundUnlocked index rs =
     (if length rs \<le> index then rs
      else if index \<noteq> 0 \<and> r_end (rs ! (index - 1)) = r_start (rs ! index) \<and>
              SameMergeKey (rs ! (index - 1)) (rs ! index)
      then merge_following (index - 1)
             (erase_at index (rs[index - 1 := grow (rs ! (index - 1)) (rs ! index)]))
      else merge_following index rs)"

definition OverlapSpan :: "vrange list \<Rightarrow> u64 \<Rightarrow> u64 \<Rightarrow> nat \<times> nat" where
  "OverlapSpan rs s n =
     (let e = sat_end s n;
          ub = UpperBound rs s;
          first_i = (if ub \<noteq> 0 \<and> s < r_end (rs ! (ub - 1)) then ub - 1 else ub);
          last_i = first_i + length (takeWhile (\<lambda>r. r_start r < e) (drop first_i rs))
      in (first_i, last_i))"

text \<open>The merge loop of \<open>SpliceUnlocked\<close> over the window \<open>[index, limit)\<close>.\<close>

function merge_window :: "nat \<Rightarrow> nat \<Rightarrow> vrange list \<Rightarrow> vrange list" where
  "merge_window index limit rs =
     (if index + 1 < limit then
        let current = rs ! index; next_range = rs ! (index + 1)
        in if r_end current = r_start next_range \<and> SameMergeKey current next_range
           then merge_window index (limit - 1) (erase_at (index + 1) (rs[index := grow current next_range]))
           else merge_window (index + 1) limit rs
      else rs)"
  by pat_completeness auto
termination
  by (relation "measure (\<lambda>(i, l, rs). l - i)") auto

declare merge_following.simps [simp del] merge_window.simps [simp del]

text \<open>
  \<open>SpliceUnlocked\<close> overwrites what both sequences have in common, then erases the rest of the
  replaced ranges or inserts the rest of the pieces, and merges around the change.
\<close>

definition SpliceUnlocked :: "nat \<Rightarrow> nat \<Rightarrow> vrange list \<Rightarrow> vrange list \<Rightarrow> vrange list" where
  "SpliceUnlocked first_i last_i pieces rs =
     (let replaced = last_i - first_i;
          common = min replaced (length pieces);
          rs1 = take first_i rs @ take common pieces @ drop (first_i + common) rs;
          rs2 = (if length pieces < replaced
                 then take (first_i + common) rs1 @ drop last_i rs1
                 else if replaced < length pieces
                 then take (first_i + common) rs1 @ drop common pieces @ drop (first_i + common) rs1
                 else rs1);
          index = (if first_i = 0 then 0 else first_i - 1);
          limit = min (length rs2) (first_i + length pieces + 1)
      in merge_window index limit rs2)"

text \<open>The body of the loop of \<open>EditUnlocked\<close>: the pieces one overlapped range is cut into.\<close>

definition edit_range :: "u64 \<Rightarrow> u64 \<Rightarrow> (vrange \<Rightarrow> vrange) \<Rightarrow> vrange list \<Rightarrow> vrange \<Rightarrow> vrange list" where
  "edit_range s edit_end edit pieces r =
     (let mid_start = max s (r_start r);
          mid_end = min edit_end (r_end r);
          pieces = AddPiece pieces r (r_start r) mid_start;
          mid = r\<lparr>r_start := mid_start, r_size := mid_end - mid_start\<rparr>;
          mid = (if r_type mid = Direct
                 then mid\<lparr>r_offset := r_offset mid + (mid_start - r_start r)\<rparr> else mid)
      in AddPiece (pieces @ [edit mid]) r mid_end (r_end r))"

definition EditUnlocked :: "u64 \<Rightarrow> u64 \<Rightarrow> (vrange \<Rightarrow> vrange) \<Rightarrow> vrange list \<Rightarrow> vrange list" where
  "EditUnlocked s n edit rs =
     (if n = 0 then rs
      else
        let (first_i, last_i) = OverlapSpan rs s n
        in if first_i = last_i then rs
           else
             let pieces = foldl (edit_range s (sat_end s n) edit) [] (drop first_i (take last_i rs))
             in SpliceUnlocked first_i last_i pieces rs)"

definition RemoveUnlocked :: "u64 \<Rightarrow> u64 \<Rightarrow> vrange list \<Rightarrow> bool \<times> vrange list" where
  "RemoveUnlocked s n rs =
     (if n = 0 then (False, rs)
      else
        let (first_i, last_i) = OverlapSpan rs s n
        in if first_i = last_i then (False, rs)
           else
             let rem_end = sat_end s n;
                 head = rs ! first_i;
                 tail = rs ! (last_i - 1);
                 pieces = AddPiece [] head (r_start head) (max s (r_start head));
                 pieces = AddPiece pieces tail (min rem_end (r_end tail)) (r_end tail)
             in (True, SpliceUnlocked first_i last_i pieces rs))"

definition FindContainingUnlocked :: "vrange list \<Rightarrow> u64 \<Rightarrow> vrange_type \<Rightarrow> vrange option" where
  "FindContainingUnlocked rs address t =
     (let (first_i, last_i) = OverlapSpan rs address 1
      in if first_i = last_i \<or> r_type (rs ! first_i) \<noteq> t \<or> address < r_start (rs ! first_i)
         then None else Some (rs ! first_i))"

definition FindOverlap :: "vrange list \<Rightarrow> u64 \<Rightarrow> u64 \<Rightarrow> vrange option" where
  "FindOverlap rs s n =
     (let position = LowerBound rs s
      in if position < length rs \<and> VirtualRangesOverlap s n (r_start (rs ! position)) (r_size (rs ! position))
         then Some (rs ! position)
         else if position \<noteq> 0 \<and>
                 VirtualRangesOverlap s n (r_start (rs ! (position - 1))) (r_size (rs ! (position - 1)))
         then Some (rs ! (position - 1))
         else None)"

subsection \<open>Public operations\<close>

definition VirtualRanges_Add ::
  "u64 \<Rightarrow> u64 \<Rightarrow> u64 \<Rightarrow> i32 \<Rightarrow> i32 \<Rightarrow> vrange_type \<Rightarrow> string option \<Rightarrow> bool \<Rightarrow> virtual_ranges \<Rightarrow> bool \<times> virtual_ranges" where
  "VirtualRanges_Add s n offset prot mtype t nm disallow_merge = mutate (\<lambda>rs.
     if s = 0 \<or> n = 0 then (False, rs)
     else
       let position = LowerBound rs s
       in if (position \<noteq> length rs \<and>
                VirtualRangesOverlap s n (r_start (rs ! position)) (r_size (rs ! position))) \<or>
             (position \<noteq> 0 \<and>
                VirtualRangesOverlap s n (r_start (rs ! (position - 1))) (r_size (rs ! (position - 1))))
          then (False, rs)
          else
            let r = \<lparr>r_start = s, r_size = n, r_offset = offset, r_protection = prot,
                     r_memory_type = mtype, r_type = t, r_disallow_merge = disallow_merge,
                     r_name = CopyVirtualRangeName nm\<rparr>
            in (True, MergeAroundUnlocked position (insert_at position r rs)))"

definition VirtualRanges_Remove :: "u64 \<Rightarrow> u64 \<Rightarrow> virtual_ranges \<Rightarrow> bool \<times> virtual_ranges" where
  "VirtualRanges_Remove s n = mutate (\<lambda>rs.
     let position = LowerBound rs s
     in if position \<noteq> length rs \<and> r_start (rs ! position) = s \<and> r_size (rs ! position) = n
        then (True, erase_at position rs)
        else RemoveUnlocked s n rs)"

definition VirtualRanges_HasOverlap :: "virtual_ranges \<Rightarrow> u64 \<Rightarrow> u64 \<Rightarrow> bool" where
  "VirtualRanges_HasOverlap v s n \<longleftrightarrow> FindOverlap (m_ranges v) s n \<noteq> None"

definition VirtualRanges_QueryOverlap :: "virtual_ranges \<Rightarrow> u64 \<Rightarrow> u64 \<Rightarrow> vrange option" where
  "VirtualRanges_QueryOverlap v s n = FindOverlap (m_ranges v) s n"

definition VirtualRanges_ReleaseReserved :: "u64 \<Rightarrow> u64 \<Rightarrow> virtual_ranges \<Rightarrow> bool \<times> virtual_ranges" where
  "VirtualRanges_ReleaseReserved s n = mutate (\<lambda>rs.
     let position = LowerBound rs s
     in if position \<noteq> length rs \<and> r_start (rs ! position) = s \<and> r_size (rs ! position) = n \<and>
           IsReservedRangeType (r_type (rs ! position))
        then (True, erase_at position rs)
        else (True, rs))"

definition VirtualRanges_ConsumeReserved ::
  "u64 \<Rightarrow> u64 \<Rightarrow> vrange_type \<Rightarrow> virtual_ranges \<Rightarrow> bool \<times> virtual_ranges" where
  "VirtualRanges_ConsumeReserved s n t = mutate (\<lambda>rs.
     case FindContainingUnlocked rs s t of
       None \<Rightarrow> (False, rs)
     | Some r \<Rightarrow> if sat_end s n \<le> r_end r then (True, snd (RemoveUnlocked s n rs)) else (False, rs))"

text \<open>
  The scan of \<open>ConsumeReservedSpan\<close>: every address up to the end lies in a range of the kind.
  The out parameter \<open>first_range\<close> is set by the first iteration. Each iteration moves past
  the range found, which contains the current address, so the loop ends.
\<close>

lemma FindContaining_advances:
  assumes "FindContainingUnlocked rs a t = Some r"
  shows "unat a < unat (r_end r)"
proof -
  let ?ub = "UpperBound rs a"
  obtain f l where fl: "OverlapSpan rs a 1 = (f, l)" by fastforce
  have ne: "f \<noteq> l" and le: "r_start (rs ! f) \<le> a" and r: "r = rs ! f"
    using assms fl by (auto simp: FindContainingUnlocked_def split: if_splits)
  have f: "f = (if ?ub \<noteq> 0 \<and> a < r_end (rs ! (?ub - 1)) then ?ub - 1 else ?ub)"
    and l: "l = f + length (takeWhile (\<lambda>r. r_start r < sat_end a 1) (drop f rs))"
    using fl by (auto simp: OverlapSpan_def Let_def split: if_splits)
  have "f < length rs" using ne l by (cases "f < length rs") auto
  moreover have "\<not> r_start (rs ! ?ub) \<le> a" if "?ub < length rs"
    using that nth_length_takeWhile [of "\<lambda>r. r_start r \<le> a" rs] by (simp add: UpperBound_def)
  ultimately have "f \<noteq> ?ub" using le by auto
  then show ?thesis using f r by (auto simp: less_u64 split: if_splits)
qed

function reserved_span_loop ::
  "vrange list \<Rightarrow> vrange_type \<Rightarrow> u64 \<Rightarrow> u64 \<Rightarrow> u64 \<Rightarrow> vrange option \<Rightarrow> bool \<times> vrange option" where
  "reserved_span_loop rs t s e current first_range =
     (if current < e then
        (case FindContainingUnlocked rs current t of
           None \<Rightarrow> (False, first_range)
         | Some candidate \<Rightarrow>
             reserved_span_loop rs t s e (min e (r_end candidate))
               (if current = s then Some candidate else first_range))
      else (True, first_range))"
  by pat_completeness auto
termination
  by (relation "measure (\<lambda>(rs, t, s, e, current, out). unat e - unat current)")
    (auto simp: less_u64 unat_min_u64 dest!: FindContaining_advances)

declare reserved_span_loop.simps [simp del]

definition VirtualRanges_ConsumeReservedSpan ::
  "u64 \<Rightarrow> u64 \<Rightarrow> vrange_type \<Rightarrow> virtual_ranges \<Rightarrow> (bool \<times> vrange option) \<times> virtual_ranges" where
  "VirtualRanges_ConsumeReservedSpan s n t = mutate (\<lambda>rs.
     if n = 0 then ((False, None), rs)
     else
       case reserved_span_loop rs t s (sat_end s n) s None of
         (False, first_range) \<Rightarrow> ((False, first_range), rs)
       | (True, first_range) \<Rightarrow> ((True, first_range), snd (RemoveUnlocked s n rs)))"

definition VirtualRanges_Rename :: "u64 \<Rightarrow> u64 \<Rightarrow> string option \<Rightarrow> virtual_ranges \<Rightarrow> virtual_ranges" where
  "VirtualRanges_Rename s n nm v = snd (mutate (\<lambda>rs.
     let position = LowerBound rs s
     in if position \<noteq> length rs \<and> r_start (rs ! position) = s \<and> r_size (rs ! position) = n
        then ((), MergeAroundUnlocked position
                    (rs[position := (rs ! position)\<lparr>r_name := CopyVirtualRangeName nm\<rparr>]))
        else ((), EditUnlocked s n (\<lambda>r. r\<lparr>r_name := CopyVirtualRangeName nm\<rparr>) rs)) v)"

definition VirtualRanges_Protect :: "u64 \<Rightarrow> u64 \<Rightarrow> i32 \<Rightarrow> virtual_ranges \<Rightarrow> virtual_ranges" where
  "VirtualRanges_Protect s n protection v =
     snd (mutate (\<lambda>rs. ((), EditUnlocked s n (\<lambda>r. r\<lparr>r_protection := protection\<rparr>) rs)) v)"

definition VirtualRanges_SetMemoryType :: "u64 \<Rightarrow> u64 \<Rightarrow> i32 \<Rightarrow> virtual_ranges \<Rightarrow> virtual_ranges" where
  "VirtualRanges_SetMemoryType s n memory_type v =
     snd (mutate (\<lambda>rs. ((), EditUnlocked s n (\<lambda>r. r\<lparr>r_memory_type := memory_type\<rparr>) rs)) v)"

subsection \<open>Queries\<close>

definition VirtualRanges_Query :: "virtual_ranges \<Rightarrow> u64 \<Rightarrow> i32 \<Rightarrow> vrange option" where
  "VirtualRanges_Query v addr flags =
     (let rs = m_ranges v; nxt = UpperBound rs addr
      in if nxt \<noteq> 0 \<and> addr < r_end (rs ! (nxt - 1)) then Some (rs ! (nxt - 1))
         else if flags \<noteq> 1 \<or> nxt = length rs then None
         else Some (rs ! nxt))"

text \<open>\<open>std::upper_bound\<close> and one step back: where the scans below start.\<close>

definition scan_from :: "vrange list \<Rightarrow> u64 \<Rightarrow> vrange list" where
  "scan_from rs a = (let ub = UpperBound rs a in drop (if ub \<noteq> 0 then ub - 1 else ub) rs)"

fun query_span_loop :: "u64 \<Rightarrow> u64 \<Rightarrow> vrange list \<Rightarrow> vrange list \<Rightarrow> vrange list option" where
  "query_span_loop e current out [] = None"
| "query_span_loop e current out (r # rs) =
     (let range_end = r_end r
      in if range_end \<le> current then query_span_loop e current out rs
         else if current < r_start r then None
         else
           let part = r\<lparr>r_start := current, r_size := min e range_end - current\<rparr>;
               part = (if r_type part = Direct
                       then part\<lparr>r_offset := r_offset part + (current - r_start r)\<rparr> else part);
               out = out @ [part];
               current = current + r_size part
           in if current = e then Some out else query_span_loop e current out rs)"

definition VirtualRanges_QuerySpan :: "virtual_ranges \<Rightarrow> u64 \<Rightarrow> u64 \<Rightarrow> vrange list option" where
  "VirtualRanges_QuerySpan v s n =
     (if s = 0 \<or> n = 0 \<or> u64_max - s < n then None
      else query_span_loop (s + n) s [] (scan_from (m_ranges v) s))"

text \<open>
  \<open>ClampRangeSize\<close> looks at a thread-local cache of 128 intervals first. An entry counts when it
  was filled from this object at the current, even epoch.
\<close>

record cached_range =
  c_identity :: u64
  c_epoch :: nat
  c_begin :: u64
  c_end :: u64

type_synonym range_cache = "u64 \<Rightarrow> cached_range"

definition empty_cache :: range_cache where
  "empty_cache = (\<lambda>_. \<lparr>c_identity = 0, c_epoch = 0, c_begin = 0, c_end = 0\<rparr>)"

definition cache_slot :: "u64 \<Rightarrow> u64" where
  "cache_slot a = (drop_bit 18 a XOR drop_bit 30 a) AND 127"

fun clamp_loop :: "u64 \<Rightarrow> u64 \<Rightarrow> u64 \<Rightarrow> u64 \<Rightarrow> vrange list \<Rightarrow> u64 \<times> u64" where
  "clamp_loop n cache_end clamped_size expected [] = (clamped_size, cache_end)"
| "clamp_loop n cache_end clamped_size expected (r # rs) =
     (if r_start r = expected \<and> IsCommittedRangeType (r_type r) \<and> clamped_size < n
      then let chunk = min (n - clamped_size) (r_size r)
           in clamp_loop n (r_end r) (clamped_size + chunk) (expected + chunk) rs
      else (clamped_size, cache_end))"

definition clamp_walk :: "vrange list \<Rightarrow> u64 \<Rightarrow> u64 \<Rightarrow> (u64 \<times> u64 \<times> u64) option" where
  "clamp_walk rs virtual_addr n =
     (let ub = UpperBound rs virtual_addr
      in if ub = 0 then None
         else
           let vma = rs ! (ub - 1); vma_end = r_end vma
           in if virtual_addr < r_start vma \<or> vma_end \<le> virtual_addr \<or>
                 \<not> IsCommittedRangeType (r_type vma)
              then None
              else
                let clamped_size = min n (vma_end - virtual_addr);
                    (clamped_size, cache_end) =
                      clamp_loop n vma_end clamped_size (virtual_addr + clamped_size) (drop ub rs)
                in Some (clamped_size, r_start vma, cache_end))"

definition VirtualRanges_ClampRangeSize ::
  "virtual_ranges \<Rightarrow> range_cache \<Rightarrow> u64 \<Rightarrow> u64 \<Rightarrow> u64 \<times> range_cache" where
  "VirtualRanges_ClampRangeSize v cache virtual_addr n =
     (if virtual_addr = 0 \<or> n = 0 \<or> u64_max - virtual_addr < n then (0, cache)
      else
        let entry = cache (cache_slot virtual_addr); epoch = m_epoch v
        in if even epoch \<and> c_identity entry = m_identity v \<and> c_epoch entry = epoch \<and>
              c_begin entry \<le> virtual_addr \<and> virtual_addr < c_end entry \<and>
              n \<le> c_end entry - virtual_addr
           then (n, cache)
           else
             case clamp_walk (m_ranges v) virtual_addr n of
               None \<Rightarrow> (0, cache)
             | Some (clamped_size, cache_begin, cache_end) \<Rightarrow>
                 (clamped_size,
                  cache(cache_slot virtual_addr :=
                    \<lparr>c_identity = m_identity v, c_epoch = m_epoch v, c_begin = cache_begin,
                     c_end = cache_end\<rparr>)))"

text \<open>The committed parts of a span, adjacent ones of a kind merged.\<close>

record part =
  p_address :: u64
  p_size :: u64
  p_private :: bool

fun committed_parts_loop :: "u64 \<Rightarrow> u64 \<Rightarrow> part list \<Rightarrow> vrange list \<Rightarrow> part list" where
  "committed_parts_loop virtual_addr e out [] = out"
| "committed_parts_loop virtual_addr e out (r # rs) =
     (if e \<le> r_start r then out
      else
        let range_end = r_end r
        in if range_end \<le> virtual_addr \<or> \<not> IsCommittedRangeType (r_type r)
           then committed_parts_loop virtual_addr e out rs
           else
             let begin_addr = max (r_start r) virtual_addr;
                 finish = min range_end e;
                 private_memory = IsPrivateCommittedRangeType (r_type r);
                 out = (if out \<noteq> [] \<and> p_address (last out) + p_size (last out) = begin_addr \<and>
                           p_private (last out) = private_memory
                        then butlast out @ [(last out)\<lparr>p_size := p_size (last out) + (finish - begin_addr)\<rparr>]
                        else out @ [\<lparr>p_address = begin_addr, p_size = finish - begin_addr,
                                     p_private = private_memory\<rparr>])
             in committed_parts_loop virtual_addr e out rs)"

definition VirtualRanges_CommittedParts :: "virtual_ranges \<Rightarrow> u64 \<Rightarrow> u64 \<Rightarrow> part list" where
  "VirtualRanges_CommittedParts v virtual_addr n =
     (if n = 0 \<or> u64_max - virtual_addr < n then []
      else committed_parts_loop virtual_addr (virtual_addr + n) [] (scan_from (m_ranges v) virtual_addr))"

abbreviation PAGE_TABLE_GRANULARITY :: u64 where
  "PAGE_TABLE_GRANULARITY \<equiv> 2097152"

definition VirtualRanges_CountPageTableEntries :: "virtual_ranges \<Rightarrow> bool \<Rightarrow> u64" where
  "VirtualRanges_CountPageTableEntries v gpu =
     foldl (\<lambda>used r.
       if \<not> IsCommittedRangeType (r_type r) \<or> r_size r = 0 then used
       else
         let has_cpu_access = (r_protection r AND (PROT_CPU_READ OR PROT_CPU_WRITE OR PROT_CPU_EXEC) \<noteq> 0);
             has_gpu_access = (r_protection r AND (PROT_GPU_READ OR PROT_GPU_WRITE) \<noteq> 0)
         in if (if gpu then \<not> has_gpu_access else \<not> has_cpu_access) then used
            else
              let first_entry = r_start r div PAGE_TABLE_GRANULARITY;
                  last_entry = (r_end r - 1) div PAGE_TABLE_GRANULARITY
              in used + (last_entry - first_entry + 1))
     0 (m_ranges v)"

end
