(* ===== verification/VirtualRangesMeaning.thy ===== *)
theory VirtualRangesMeaning
  imports VirtualRanges
begin

text \<open>
  What a sequence of virtual ranges means: the map from addresses to page attributes. The
  representation invariant \<open>vr_ok\<close> says the ranges are sorted, disjoint, non-empty and end at a
  representable address, \<open>vr_merged\<close> that no two neighbours are left to merge. The lemmas here
  show what merging, splicing and the search for the overlapped window do to both;
  \<open>VirtualRangesProps\<close> uses them for the operations.
\<close>

subsection \<open>Meaning and invariant\<close>

datatype page_view = PageView vrange_type i32 i32 bool string "u64 option"

definition covers :: "vrange \<Rightarrow> u64 \<Rightarrow> bool" where
  "covers r a \<longleftrightarrow> in_span (r_start r) (r_size r) a"

text \<open>
  What a range says of an address: its kind, protection, memory type, merge flag and name, and
  for direct memory the backing byte.
\<close>

definition view_at :: "vrange \<Rightarrow> u64 \<Rightarrow> page_view" where
  "view_at r a = PageView (r_type r) (r_protection r) (r_memory_type r) (r_disallow_merge r) (r_name r)
     (if r_type r = Direct then Some (r_offset r + (a - r_start r)) else None)"

definition vr_at :: "vrange list \<Rightarrow> u64 \<Rightarrow> page_view option" where
  "vr_at rs a = map_option (\<lambda>r. view_at r a) (find (\<lambda>r. covers r a) rs)"

abbreviation vlo :: "vrange \<Rightarrow> nat" where
  "vlo r \<equiv> unat (r_start r)"

abbreviation vhi :: "vrange \<Rightarrow> nat" where
  "vhi r \<equiv> unat (r_start r) + unat (r_size r)"

abbreviation r_fits :: "vrange \<Rightarrow> bool" where
  "r_fits r \<equiv> fits (r_start r) (r_size r)"

definition vr_ok :: "vrange list \<Rightarrow> bool" where
  "vr_ok rs \<longleftrightarrow> iv_ok vlo vhi rs \<and> (\<forall>r\<in>set rs. r_fits r)"

definition mergeable :: "vrange \<Rightarrow> vrange \<Rightarrow> bool" where
  "mergeable a b \<longleftrightarrow> r_end a = r_start b \<and> SameMergeKey a b"

definition vr_merged :: "vrange list \<Rightarrow> bool" where
  "vr_merged rs \<longleftrightarrow> successively (\<lambda>a b. \<not> mergeable a b) rs"

lemma vr_ok_Nil [simp]: "vr_ok []"
  by (simp add: vr_ok_def)

lemma vr_ok_Cons:
  "vr_ok (r # rs) \<longleftrightarrow> vlo r < vhi r \<and> r_fits r \<and> (\<forall>q\<in>set rs. vhi r \<le> vlo q) \<and> vr_ok rs"
  by (auto simp: vr_ok_def iv_ok_Cons)

lemma vr_ok_append:
  "vr_ok (xs @ ys) \<longleftrightarrow> vr_ok xs \<and> vr_ok ys \<and> (\<forall>x\<in>set xs. \<forall>y\<in>set ys. vhi x \<le> vlo y)"
  by (auto simp: vr_ok_def iv_ok_append)

lemma vr_ok_mem: "vr_ok rs \<Longrightarrow> r \<in> set rs \<Longrightarrow> vlo r < vhi r \<and> r_fits r"
  by (auto simp: vr_ok_def iv_ok_def)

lemma unat_r_end: "r_fits r \<Longrightarrow> unat (r_end r) = vhi r"
  by (simp add: unat_sat_end fits_def)

lemma covers_nat: "covers r a \<longleftrightarrow> vlo r \<le> unat a \<and> unat a < vhi r"
  by (simp add: covers_def in_span_def)

lemma vr_at_simps [simp]:
  "vr_at [] a = None"
  "vr_at (r # rs) a = (if covers r a then Some (view_at r a) else vr_at rs a)"
  by (simp_all add: vr_at_def)

lemma vr_at_append:
  "vr_at (xs @ ys) a = (case vr_at xs a of None \<Rightarrow> vr_at ys a | Some v \<Rightarrow> Some v)"
  by (induction xs) auto

lemma vr_at_None: "vr_at rs a = None \<longleftrightarrow> (\<forall>r\<in>set rs. \<not> covers r a)"
  by (induction rs) auto

lemma vr_at_Some_mem: "vr_at rs a = Some v \<Longrightarrow> \<exists>r\<in>set rs. covers r a \<and> view_at r a = v"
  by (induction rs) (auto split: if_splits)

lemma vr_at_Some:
  assumes "vr_ok rs"
  shows "vr_at rs a = Some v \<longleftrightarrow> (\<exists>r\<in>set rs. covers r a \<and> view_at r a = v)"
  using assms
proof (induction rs)
  case (Cons r rs)
  have "\<not> covers q a" if "covers r a" and "q \<in> set rs" for q
    using that Cons.prems by (force simp: vr_ok_Cons covers_nat)
  with Cons show ?case by (auto simp: vr_ok_Cons)
qed simp

lemma option_eqI: "(\<And>v. x = Some v \<longleftrightarrow> y = Some v) \<Longrightarrow> x = y"
  by (cases x; cases y) auto

subsection \<open>Merging\<close>

lemma SameMergeKey_iff:
  "SameMergeKey a b \<longleftrightarrow> \<not> r_disallow_merge a \<and> \<not> r_disallow_merge b \<and> r_type a \<noteq> Direct \<and>
     r_type b \<noteq> Direct \<and> r_type a = r_type b \<and> r_protection a = r_protection b \<and>
     r_memory_type a = r_memory_type b \<and> r_name a = r_name b"
  by (auto simp: SameMergeKey_def)

lemma grow_sel [simp]:
  "r_start (grow a b) = r_start a" "r_size (grow a b) = r_size a + r_size b"
  "r_type (grow a b) = r_type a" "r_protection (grow a b) = r_protection a"
  "r_memory_type (grow a b) = r_memory_type a" "r_name (grow a b) = r_name a"
  "r_disallow_merge (grow a b) = r_disallow_merge a" "r_offset (grow a b) = r_offset a"
  by (simp_all add: grow_def)

lemma grow_bounds:
  assumes "r_fits a" and "r_fits b" and "mergeable a b"
  shows "vhi (grow a b) = vhi b" and "r_fits (grow a b)" and "r_end (grow a b) = r_end b"
    and "vhi a = vlo b"
proof -
  have e: "vhi a = vlo b"
    using assms(1,3) unat_r_end [of a] by (simp add: mergeable_def)
  have "unat (r_size a) + unat (r_size b) < 18446744073709551616"
    using e assms(2) by (simp add: fits_def)
  then have sz: "unat (r_size a + r_size b) = unat (r_size a) + unat (r_size b)"
    by (rule unat_plus_u64)
  show "vhi (grow a b) = vhi b" using e sz by simp
  then show f: "r_fits (grow a b)" using assms(2) by (simp add: fits_def)
  show "r_end (grow a b) = r_end b"
    using unat_r_end [OF f] unat_r_end [OF assms(2)] \<open>vhi (grow a b) = vhi b\<close> by (simp add: eq_u64)
  show "vhi a = vlo b" by (rule e)
qed

lemma grow_ok: "vr_ok (a # b # rs) \<Longrightarrow> mergeable a b \<Longrightarrow> vr_ok (grow a b # rs)"
  using grow_bounds [of a b] by (auto simp: vr_ok_Cons)

lemma grow_at:
  assumes "vr_ok (a # b # rs)" and "mergeable a b"
  shows "vr_at (grow a b # rs) = vr_at (a # b # rs)"
proof
  fix x
  have v: "view_at (grow a b) x = view_at a x" "view_at b x = view_at a x"
    using assms(2) by (auto simp: view_at_def mergeable_def SameMergeKey_iff)
  have "covers (grow a b) x \<longleftrightarrow> covers a x \<or> covers b x"
    using grow_bounds [of a b] assms by (auto simp: covers_nat vr_ok_Cons)
  with v show "vr_at (grow a b # rs) x = vr_at (a # b # rs) x" by auto
qed

text \<open>The merge loops as a recursion on the list: \<open>mergeN k\<close> merges among the first \<open>k\<close> ranges.\<close>

fun mergeN :: "nat \<Rightarrow> vrange list \<Rightarrow> vrange list" where
  "mergeN (Suc (Suc k)) (a # b # rs) =
     (if mergeable a b then mergeN (Suc k) (grow a b # rs) else a # mergeN (Suc k) (b # rs))"
| "mergeN _ rs = rs"

lemma drop_two: "i + 1 < length rs \<Longrightarrow> drop i rs = rs ! i # rs ! (i + 1) # drop (i + 2) rs"
  by (simp add: Cons_nth_drop_Suc)

lemma erase_grow:
  assumes "i + 1 < length rs"
  shows "erase_at (i + 1) (rs[i := x]) = take i rs @ x # drop (i + 2) rs"
  using assms by (simp add: erase_at_def take_Suc_conv_app_nth upd_conv_take_nth_drop)

lemma merge_window_eq:
  "l \<le> length rs \<Longrightarrow> i \<le> length rs \<Longrightarrow> merge_window i l rs = take i rs @ mergeN (l - i) (drop i rs)"
proof (induction i l rs rule: merge_window.induct)
  case (1 i l rs)
  show ?case
  proof (cases "i + 1 < l")
    case False
    then have "l - i = 0 \<or> l - i = 1" by auto
    then have "mergeN (l - i) (drop i rs) = drop i rs" by (auto simp: numeral_2_eq_2)
    with False show ?thesis by (subst merge_window.simps) simp
  next
    case True
    then have len: "i + 1 < length rs" using "1.prems" by simp
    obtain k where k: "l - i = Suc (Suc k)" using True by (metis Suc_diff_Suc Suc_eq_plus1 Suc_lessD)
    have d: "drop i rs = rs ! i # rs ! (i + 1) # drop (i + 2) rs"
      by (rule drop_two [OF len])
    show ?thesis
    proof (cases "mergeable (rs ! i) (rs ! (i + 1))")
      case True
      let ?rs' = "erase_at (i + 1) (rs[i := grow (rs ! i) (rs ! (i + 1))])"
      have rs': "?rs' = take i rs @ grow (rs ! i) (rs ! (i + 1)) # drop (i + 2) rs"
        by (rule erase_grow [OF len])
      have "merge_window i l rs = merge_window i (l - 1) ?rs'"
        using True \<open>i + 1 < l\<close> by (subst merge_window.simps) (auto simp: mergeable_def Let_def)
      also have "\<dots> = take i ?rs' @ mergeN (l - 1 - i) (drop i ?rs')"
        using "1.IH"(1) [OF \<open>i + 1 < l\<close> refl refl] True "1.prems" len rs'
        by (simp add: mergeable_def)
      also have "\<dots> = take i rs @ mergeN (Suc k) (grow (rs ! i) (rs ! (i + 1)) # drop (i + 2) rs)"
      proof -
        have "l - 1 - i = Suc k" using k by simp
        moreover have "take i ?rs' = take i rs" and
          "drop i ?rs' = grow (rs ! i) (rs ! (i + 1)) # drop (i + 2) rs"
          unfolding rs' using len by simp_all
        ultimately show ?thesis by simp
      qed
      finally show ?thesis using d k True by simp
    next
      case False
      have "merge_window i l rs = merge_window (i + 1) l rs"
        using False \<open>i + 1 < l\<close> by (subst merge_window.simps) (auto simp: mergeable_def Let_def)
      also have "\<dots> = take (i + 1) rs @ mergeN (l - (i + 1)) (drop (i + 1) rs)"
        using "1.IH"(2) [OF \<open>i + 1 < l\<close> refl refl] False "1.prems" len by (simp add: mergeable_def)
      finally have "merge_window i l rs = take (i + 1) rs @ mergeN (l - (i + 1)) (drop (i + 1) rs)" .
      moreover have "drop (i + 1) rs = rs ! (i + 1) # drop (i + 2) rs"
        using len by (simp add: Cons_nth_drop_Suc)
      moreover have "l - (i + 1) = Suc k" using k by simp
      ultimately show ?thesis using d k False len by (simp add: take_Suc_conv_app_nth)
    qed
  qed
qed

lemma mergeN_starts: "\<forall>r\<in>set (mergeN k rs). \<exists>q\<in>set rs. r_start r = r_start q"
  by (induction k rs rule: mergeN.induct) (auto split: if_splits)

lemma mergeN_sem:
  "vr_ok rs \<Longrightarrow> vr_ok (mergeN k rs) \<and> vr_at (mergeN k rs) = vr_at rs"
proof (induction k rs rule: mergeN.induct)
  case (1 k a b rs)
  show ?case
  proof (cases "mergeable a b")
    case True
    then show ?thesis using "1.IH"(1) [OF True grow_ok [OF "1.prems" True]] grow_at [OF "1.prems" True] by simp
  next
    case False
    have ok: "vr_ok (b # rs)" and a: "\<forall>q\<in>set (b # rs). vhi a \<le> vlo q" "vlo a < vhi a" "r_fits a"
      using "1.prems" by (auto simp: vr_ok_Cons)
    note ih = "1.IH"(2) [OF False ok]
    have "\<forall>r\<in>set (mergeN (Suc k) (b # rs)). vhi a \<le> vlo r"
      using mergeN_starts [of "Suc k" "b # rs"] a(1) by metis
    with ih a have "vr_ok (a # mergeN (Suc k) (b # rs))" by (simp add: vr_ok_Cons)
    moreover have "vr_at (a # mergeN (Suc k) (b # rs)) = vr_at (a # b # rs)"
      using ih by (simp add: fun_eq_iff)
    ultimately show ?thesis using False by simp
  qed
qed simp_all

text \<open>The head of a merged list starts where the old head did and merges with the same ranges.\<close>

definition same_head :: "vrange \<Rightarrow> vrange \<Rightarrow> bool" where
  "same_head a b \<longleftrightarrow> r_start a = r_start b \<and> (\<forall>x. SameMergeKey x a = SameMergeKey x b)"

lemma mergeN_head: "\<exists>h t. mergeN k (a # rs) = h # t \<and> same_head h a"
proof (induction k "a # rs" arbitrary: a rs rule: mergeN.induct)
  case (1 k a b rs)
  have g: "same_head (grow a b) a" by (auto simp: same_head_def SameMergeKey_iff)
  show ?case
  proof (cases "mergeable a b")
    case True
    then show ?thesis using "1"(1) [OF True] g by (auto simp: same_head_def)
  next
    case False
    then show ?thesis by (auto simp: same_head_def)
  qed
qed (simp_all add: same_head_def)

lemma mergeable_same_head: "same_head h b \<Longrightarrow> mergeable a h = mergeable a b"
  by (auto simp: same_head_def mergeable_def)

lemma mergeable_grow:
  assumes "r_fits a" and "r_fits b" and "mergeable a b"
  shows "mergeable (grow a b) c \<longleftrightarrow> mergeable b c"
  using grow_bounds(3) [OF assms] assms(3) by (auto simp: mergeable_def SameMergeKey_iff)

lemma vr_merged_Nil [simp]: "vr_merged []"
  by (simp add: vr_merged_def)

lemma vr_merged_Cons: "vr_merged (a # rs) \<longleftrightarrow> (rs \<noteq> [] \<longrightarrow> \<not> mergeable a (hd rs)) \<and> vr_merged rs"
  by (cases rs) (auto simp: vr_merged_def)

lemma vr_merged_append:
  "vr_merged (xs @ ys) \<longleftrightarrow>
     vr_merged xs \<and> vr_merged ys \<and> (xs \<noteq> [] \<longrightarrow> ys \<noteq> [] \<longrightarrow> \<not> mergeable (last xs) (hd ys))"
  by (auto simp: vr_merged_def successively_append_iff)

text \<open>
  Merging a window of \<open>k\<close> ranges leaves nothing to merge, provided nothing was to merge from the
  window's last range on.
\<close>

lemma mergeN_merged:
  "vr_ok rs \<Longrightarrow> 0 < k \<Longrightarrow> vr_merged (drop (k - 1) rs) \<Longrightarrow> vr_merged (mergeN k rs)"
proof (induction k rs rule: mergeN.induct)
  case (1 k a b rs)
  show ?case
  proof (cases "mergeable a b")
    case True
    have fits: "r_fits a" "r_fits b" using "1.prems"(1) by (auto simp: vr_ok_Cons)
    have "vr_merged (drop k (grow a b # rs))"
      using "1.prems"(3) mergeable_grow [OF fits True]
      by (cases k) (auto simp: vr_merged_Cons)
    then show ?thesis using "1.IH"(1) [OF True grow_ok [OF "1.prems"(1) True]] True by simp
  next
    case False
    have "vr_merged (mergeN (Suc k) (b # rs))"
      using "1.IH"(2) [OF False] "1.prems" by (simp add: vr_ok_Cons)
    moreover obtain h t where "mergeN (Suc k) (b # rs) = h # t" "same_head h b"
      using mergeN_head by blast
    ultimately show ?thesis using False by (simp add: vr_merged_Cons mergeable_same_head)
  qed
qed (auto simp: vr_merged_def)

lemma mergeN_suffix_sem:
  assumes "vr_ok (xs @ ys)"
  shows "vr_ok (xs @ mergeN k ys) \<and> vr_at (xs @ mergeN k ys) = vr_at (xs @ ys)"
proof -
  have ys: "vr_ok ys" using assms by (simp add: vr_ok_append)
  have "\<forall>x\<in>set xs. \<forall>r\<in>set (mergeN k ys). vhi x \<le> vlo r"
    using assms mergeN_starts [of k ys] by (metis vr_ok_append)
  then show ?thesis
    using assms mergeN_sem [OF ys, of k] by (auto simp: vr_ok_append vr_at_append fun_eq_iff split: option.splits)
qed

lemma mergeN_suffix_merged:
  assumes "vr_merged xs" and "vr_merged (mergeN k ys)"
    and "xs \<noteq> [] \<Longrightarrow> ys \<noteq> [] \<Longrightarrow> \<not> mergeable (last xs) (hd ys)"
  shows "vr_merged (xs @ mergeN k ys)"
proof (cases ys)
  case Nil
  then show ?thesis using assms by (simp add: vr_merged_append)
next
  case (Cons y zs)
  obtain h t where "mergeN k ys = h # t" "same_head h y"
    using mergeN_head Cons by blast
  then show ?thesis using assms Cons by (auto simp: vr_merged_append mergeable_same_head)
qed

lemma splice_list:
  fixes A W B P :: "vrange list"
  defines "rs \<equiv> A @ W @ B" and "f \<equiv> length A" and "l \<equiv> length A + length W"
  defines "X \<equiv> A @ P @ B"
  shows "SpliceUnlocked f l P rs =
    (let i = (if f = 0 then 0 else f - 1)
     in take i X @ mergeN (min (length X) (f + length P + 1) - i) (drop i X))"
proof -
  let ?common = "min (l - f) (length P)"
  let ?rs1 = "take f rs @ take ?common P @ drop (f + ?common) rs"
  let ?rs2 = "if length P < l - f then take (f + ?common) ?rs1 @ drop l ?rs1
     else if l - f < length P then take (f + ?common) ?rs1 @ drop ?common P @ drop (f + ?common) ?rs1
     else ?rs1"
  have rs2: "?rs2 = X"
    by (auto simp: rs_def f_def l_def X_def min_def)
  show ?thesis
    unfolding SpliceUnlocked_def Let_def rs2
    by (rule merge_window_eq) (auto simp: X_def f_def)
qed

lemma splice_sem:
  assumes "vr_ok (A @ P @ B)"
  shows "vr_ok (SpliceUnlocked (length A) (length A + length W) P (A @ W @ B))"
    and "vr_at (SpliceUnlocked (length A) (length A + length W) P (A @ W @ B)) = vr_at (A @ P @ B)"
proof -
  have "vr_ok (take i (A @ P @ B) @ drop i (A @ P @ B))" for i
    using assms by (simp only: append_take_drop_id)
  from mergeN_suffix_sem [OF this]
  show "vr_ok (SpliceUnlocked (length A) (length A + length W) P (A @ W @ B))"
    and "vr_at (SpliceUnlocked (length A) (length A + length W) P (A @ W @ B)) = vr_at (A @ P @ B)"
    unfolding splice_list Let_def append_take_drop_id by blast+
qed

lemma drop_window: "B \<noteq> [] \<Longrightarrow> drop (min (length (P @ B)) (length P + 1) - 1) (P @ B) = B"
  by (cases B) auto

lemma vr_merged_singleton [simp]: "vr_merged [a]"
  by (simp add: vr_merged_def)

lemma window_suffix_merged:
  assumes "vr_merged B"
  shows "vr_merged (drop (min (length (P @ B)) (length P + 1) - 1) (P @ B))"
proof (cases "B = []")
  case True
  have "vr_merged (drop (length P - 1) P)"
    by (cases P rule: rev_cases) auto
  with True show ?thesis by simp
next
  case False
  from drop_window [OF this, of P] assms show ?thesis by (rule ssubst)
qed

lemma splice_merged:
  assumes ok: "vr_ok (A @ P @ B)" and m: "vr_merged (A @ W @ B)"
  shows "vr_merged (SpliceUnlocked (length A) (length A + length W) P (A @ W @ B))"
proof -
  have A: "vr_merged A" and B: "vr_merged B" using m by (auto simp: vr_merged_append)
  show ?thesis
  proof (cases A rule: rev_cases)
    case Nil
    let ?k = "min (length (P @ B)) (length P + 1)"
    have "vr_merged (mergeN ?k (P @ B))"
      using ok Nil B window_suffix_merged [OF B, of P]
      by (cases "?k = 0") (auto intro!: mergeN_merged)
    then show ?thesis unfolding splice_list Let_def using Nil by simp
  next
    case (snoc A' p)
    let ?Q = "p # P"
    let ?k = "min (length (?Q @ B)) (length ?Q + 1)"
    have okQ: "vr_ok (?Q @ B)" using ok snoc by (simp add: vr_ok_append)
    have "vr_merged (mergeN ?k (?Q @ B))"
      by (rule mergeN_merged [OF okQ]) (use window_suffix_merged [OF B, of ?Q] in auto)
    moreover have "vr_merged A'" and "A' \<noteq> [] \<Longrightarrow> \<not> mergeable (last A') p"
      using A snoc by (auto simp: vr_merged_append)
    ultimately have "vr_merged (A' @ mergeN ?k (?Q @ B))"
      by (intro mergeN_suffix_merged) auto
    moreover have "min (length (A @ P @ B)) (length A + length P + 1) - (length A - 1) = ?k"
      using snoc by auto
    ultimately show ?thesis
      unfolding splice_list Let_def using snoc by simp
  qed
qed

subsection \<open>The overlapped window\<close>

text \<open>
  \<open>OverlapSpan\<close> cuts the vector into the ranges that end at or before the start, the ranges that
  meet the request, and the ranges that begin at or after its end.
\<close>

lemma OverlapSpan_split:
  assumes ok: "vr_ok rs" and span: "OverlapSpan rs s n = (f, l)"
  obtains A W B where "rs = A @ W @ B" and "f = length A" and "l = length A + length W"
    and "\<forall>r\<in>set A. vhi r \<le> unat s"
    and "\<forall>r\<in>set W. unat s < vhi r \<and> vlo r < unat (sat_end s n)"
    and "\<forall>r\<in>set B. unat (sat_end s n) \<le> vlo r" and "\<forall>r\<in>set B. unat s < vhi r"
proof -
  let ?e = "sat_end s n"
  define before after where "before = takeWhile (\<lambda>r. r_start r \<le> s) rs"
    and "after = dropWhile (\<lambda>r. r_start r \<le> s) rs"
  have rs: "rs = before @ after" by (simp add: before_def after_def)
  have lt: "sorted_wrt (\<lambda>a b. r_start a < r_start b) rs"
    using iv_ok_lo_less [of vlo vhi rs] ok by (simp add: vr_ok_def less_u64)
  have bef: "\<forall>r\<in>set before. vlo r \<le> unat s"
    by (auto simp: before_def le_u64 dest: takeWhile_all)
  have aft: "\<forall>r\<in>set after. unat s < vlo r"
    using takeWhile_sorted_split(1) [OF lt, of s] by (simp add: after_def less_u64)
  have ub: "UpperBound rs s = length before" by (simp add: UpperBound_def before_def)
  obtain A R where rs': "rs = A @ R" and f: "f = length A"
    and l: "l = f + length (takeWhile (\<lambda>r. r_start r < ?e) R)"
    and A: "\<forall>r\<in>set A. vhi r \<le> unat s" and R: "\<forall>r\<in>set R. unat s < vhi r"
  proof (cases before rule: rev_cases)
    case Nil
    then show ?thesis using that [of "[]" rs] span rs aft ub by (force simp: OverlapSpan_def Let_def)
  next
    case (snoc bs p)
    have fit: "r_fits p" and bs: "\<forall>r\<in>set bs. vhi r \<le> vlo p" and okb: "vr_ok before"
      using ok rs snoc by (auto simp: vr_ok_append vr_ok_Cons)
    have prev: "rs ! (UpperBound rs s - 1) = p" using ub rs snoc by (simp add: nth_append)
    show ?thesis
    proof (cases "s < r_end p")
      case True
      then show ?thesis
        using that [of bs "p # after"] span rs aft ub snoc prev bs bef fit unat_r_end [OF fit]
        by (force simp: OverlapSpan_def Let_def less_u64)
    next
      case False
      then have "vhi p \<le> unat s" using unat_r_end [OF fit] by (simp add: less_u64)
      moreover have "\<forall>r\<in>set bs. vhi r \<le> unat s" using bs bef snoc by force
      ultimately show ?thesis
        using that [of before after] span rs aft ub snoc prev False
        by (force simp: OverlapSpan_def Let_def)
    qed
  qed
  let ?W = "takeWhile (\<lambda>r. r_start r < ?e) R" and ?B = "dropWhile (\<lambda>r. r_start r < ?e) R"
  have "sorted_wrt (\<lambda>a b. r_start a < r_start b) R" using lt rs' by (simp add: sorted_wrt_append)
  then have "\<forall>r\<in>set ?B. unat ?e \<le> vlo r"
    using takeWhile_sorted_split(2) [of r_start R ?e] by (simp add: le_u64)
  moreover have "\<forall>r\<in>set ?W. unat s < vhi r \<and> vlo r < unat ?e"
    using R by (auto simp: less_u64 dest!: set_takeWhileD)
  moreover have "\<forall>r\<in>set ?B. unat s < vhi r" using R by (auto dest!: set_dropWhileD)
  moreover have "rs = A @ ?W @ ?B" using rs' by simp
  ultimately show ?thesis using that [of A ?W ?B] f l A by blast
qed

end
