(* ===== verification/VirtualRangesEdits.thy ===== *)
theory VirtualRangesEdits
  imports VirtualRangesMeaning
begin

text \<open>
  The private helpers of \<open>VirtualRanges\<close> (\<open>RemoveUnlocked\<close>, \<open>EditUnlocked\<close> and
  \<open>MergeAroundUnlocked\<close>) keep the invariants, and what each does to the address map.
\<close>

subsection \<open>Pieces of a range\<close>

definition piece_of :: "vrange \<Rightarrow> u64 \<Rightarrow> u64 \<Rightarrow> vrange" where
  "piece_of r ps pe =
     r\<lparr>r_start := ps, r_size := pe - ps,
       r_offset := (if r_type r = Direct then r_offset r + (ps - r_start r) else r_offset r)\<rparr>"

lemma AddPiece_eq: "AddPiece rs r ps pe = rs @ (if pe \<le> ps then [] else [piece_of r ps pe])"
  by (simp add: AddPiece_def piece_of_def Let_def)

lemma piece_view [simp]: "view_at (piece_of r ps pe) a = view_at r a"
  by (auto simp: view_at_def piece_of_def)

lemma piece_sel [simp]: "r_start (piece_of r ps pe) = ps" "r_size (piece_of r ps pe) = pe - ps"
  by (simp_all add: piece_of_def)

lemma piece_bounds:
  assumes "unat ps \<le> unat pe"
  shows "vhi (piece_of r ps pe) = unat pe" and "r_fits (piece_of r ps pe)"
proof -
  show e: "vhi (piece_of r ps pe) = unat pe" using assms by (simp add: unat_minus_u64)
  then show "r_fits (piece_of r ps pe)" using unat_u64_lt [of pe] by (simp add: fits_def)
qed

lemma piece_covers:
  "unat ps \<le> unat pe \<Longrightarrow> covers (piece_of r ps pe) a \<longleftrightarrow> unat ps \<le> unat a \<and> unat a < unat pe"
  using piece_bounds(1) [of ps pe r] by (simp add: covers_nat)

text \<open>The addresses a request \<open>(s, n)\<close> is about, up to the saturated end.\<close>

definition in_request :: "u64 \<Rightarrow> u64 \<Rightarrow> u64 \<Rightarrow> bool" where
  "in_request s n a \<longleftrightarrow> unat s \<le> unat a \<and> unat a < unat (sat_end s n)"

lemma in_request_fits: "fits s n \<Longrightarrow> in_request s n a = in_span s n a"
  using fits_end [of s n] by (simp add: in_request_def in_span_def)

lemma in_request_0 [simp]: "\<not> in_request s 0 a"
  by (simp add: in_request_def unat_sat_end)

subsection \<open>Removal\<close>

lemma window_order:
  assumes "vr_ok (A @ W @ B)"
  shows "\<And>r. r \<in> set W \<Longrightarrow> r \<noteq> hd W \<Longrightarrow> vhi (hd W) \<le> vlo r"
    and "\<And>r. r \<in> set W \<Longrightarrow> r \<noteq> last W \<Longrightarrow> vhi r \<le> vlo (last W)"
proof -
  have W: "vr_ok W" using assms by (simp add: vr_ok_append)
  show "\<And>r. r \<in> set W \<Longrightarrow> r \<noteq> hd W \<Longrightarrow> vhi (hd W) \<le> vlo r"
    using W by (cases W) (auto simp: vr_ok_Cons)
  show "\<And>r. r \<in> set W \<Longrightarrow> r \<noteq> last W \<Longrightarrow> vhi r \<le> vlo (last W)"
    using W by (cases W rule: rev_cases) (auto simp: vr_ok_append)
qed

lemma remove_pieces:
  assumes ok: "vr_ok (A @ W @ B)" and W: "W \<noteq> []"
    and A: "\<forall>r\<in>set A. vhi r \<le> unat s" and B: "\<forall>r\<in>set B. unat e \<le> vlo r"
    and mid: "\<forall>r\<in>set W. unat s < vhi r \<and> vlo r < unat e" and se: "unat s \<le> unat e"
  defines "P \<equiv> AddPiece (AddPiece [] (hd W) (r_start (hd W)) (max s (r_start (hd W))))
      (last W) (min e (r_end (last W))) (r_end (last W))"
  shows "vr_ok (A @ P @ B)"
    and "vr_at (A @ P @ B) a = (if unat s \<le> unat a \<and> unat a < unat e then None else vr_at (A @ W @ B) a)"
proof -
  let ?h = "hd W" and ?t = "last W"
  have hW: "?h \<in> set W" and tW: "?t \<in> set W" using W by simp_all
  have okh: "vlo ?h < vhi ?h" "r_fits ?h" and okt: "vlo ?t < vhi ?t" "r_fits ?t"
    using ok hW tW by (auto simp: vr_ok_append dest: vr_ok_mem)
  have te: "unat (r_end ?t) = vhi ?t" by (rule unat_r_end [OF okt(2)])
  have hs: "unat s < vhi ?h" "vlo ?h < unat e" and ts: "unat s < vhi ?t" "vlo ?t < unat e"
    using mid hW tW by auto
  let ?L = "piece_of ?h (r_start ?h) s" and ?R = "piece_of ?t e (r_end ?t)"
  have P: "P = (if vlo ?h < unat s then [?L] else []) @ (if unat e < vhi ?t then [?R] else [])"
    using te by (auto simp: P_def AddPiece_eq le_u64 unat_max_u64 unat_min_u64 max_def min_def less_u64)
  have L: "vhi ?L = unat s" "r_fits ?L" if "vlo ?h < unat s"
    using that piece_bounds [of "r_start ?h" s ?h] by auto
  have R: "vhi ?R = vhi ?t" "r_fits ?R" if "unat e < vhi ?t"
    using that te piece_bounds [of e "r_end ?t" ?t] by auto
  have AW: "\<forall>x\<in>set A. vhi x \<le> vlo ?h" and WB: "\<forall>y\<in>set B. vhi ?t \<le> vlo y"
    using ok hW tW by (auto simp: vr_ok_append)
  have AB: "vr_ok A" "vr_ok B" "\<forall>x\<in>set A. \<forall>y\<in>set B. vhi x \<le> vlo y"
    using ok by (auto simp: vr_ok_append)
  have okP: "vr_ok P" using L R se okh okt by (auto simp: P vr_ok_Cons)
  have AP: "\<forall>x\<in>set A. \<forall>p\<in>set P. vhi x \<le> vlo p"
    using AW A se by (force simp: P)
  have PB: "\<forall>p\<in>set P. \<forall>y\<in>set B. vhi p \<le> vlo y"
    using L R WB B se by (force simp: P)
  show okX: "vr_ok (A @ P @ B)"
    using AB okP AP PB by (auto simp: vr_ok_append)
  have left: "covers r a \<longleftrightarrow> r = ?h \<and> covers ?h a" if "unat a < unat s" "r \<in> set W" for r
    using that window_order(1) [OF ok, of r] hs by (cases "r = ?h") (auto simp: covers_nat)
  have right: "covers r a \<longleftrightarrow> r = ?t \<and> covers ?t a" if "unat e \<le> unat a" "r \<in> set W" for r
    using that window_order(2) [OF ok, of r] ts by (cases "r = ?t") (auto simp: covers_nat)
  have cP: "(\<exists>p\<in>set P. covers p a \<and> view_at p a = v) \<longleftrightarrow>
      unat a < unat s \<and> covers ?h a \<and> view_at ?h a = v \<or>
      unat e \<le> unat a \<and> covers ?t a \<and> view_at ?t a = v" for v
    using piece_covers [of "r_start ?h" s ?h a] piece_covers [of e "r_end ?t" ?t a] te hs ts
    by (auto simp: P covers_nat)
  have cA: "covers r a \<Longrightarrow> unat a < unat s" if "r \<in> set A" for r
    using that A by (force simp: covers_nat)
  have cB: "covers r a \<Longrightarrow> unat e \<le> unat a" if "r \<in> set B" for r
    using that B by (force simp: covers_nat)
  have cW: "(\<exists>r\<in>set W. covers r a \<and> view_at r a = v) \<and> \<not> (unat s \<le> unat a \<and> unat a < unat e) \<longleftrightarrow>
      unat a < unat s \<and> covers ?h a \<and> view_at ?h a = v \<or>
      unat e \<le> unat a \<and> covers ?t a \<and> view_at ?t a = v" for v
    using left right hW tW se by (metis leD leI)
  show "vr_at (A @ P @ B) a = (if unat s \<le> unat a \<and> unat a < unat e then None else vr_at (A @ W @ B) a)"
  proof (rule option_eqI)
    fix v
    let ?Q = "\<lambda>r. covers r a \<and> view_at r a = v"
    have X: "vr_at (A @ P @ B) a = Some v \<longleftrightarrow> Bex (set A) ?Q \<or> Bex (set P) ?Q \<or> Bex (set B) ?Q"
      by (simp add: vr_at_Some [OF okX] bex_Un)
    have Y: "vr_at (A @ W @ B) a = Some v \<longleftrightarrow> Bex (set A) ?Q \<or> Bex (set W) ?Q \<or> Bex (set B) ?Q"
      by (simp add: vr_at_Some [OF ok] bex_Un)
    show "vr_at (A @ P @ B) a = Some v \<longleftrightarrow>
      (if unat s \<le> unat a \<and> unat a < unat e then None else vr_at (A @ W @ B) a) = Some v"
    proof (cases "unat s \<le> unat a \<and> unat a < unat e")
      case True
      then have "\<not> Bex (set A) ?Q" "\<not> Bex (set B) ?Q" "\<not> Bex (set P) ?Q"
        using cA cB cP [of v] by force+
      with True X show ?thesis by simp
    next
      case False
      then have "Bex (set P) ?Q = Bex (set W) ?Q" using cP [of v] cW [of v] by blast
      then show ?thesis unfolding if_not_P [OF False] X Y by simp
    qed
  qed
qed

lemma mutate_sel:
  "m_ranges (snd (mutate f v)) = snd (f (m_ranges v))" "fst (mutate f v) = fst (f (m_ranges v))"
  "m_epoch (snd (mutate f v)) = m_epoch v + 2" "m_identity (snd (mutate f v)) = m_identity v"
  by (simp_all add: mutate_def Mutation_begin_def Mutation_end_def Let_def split: prod.splits)

lemma sat_end_ge: "unat s \<le> unat (sat_end s n)"
  using unat_u64_le [of s] by (simp add: unat_sat_end)

text \<open>The specification of a removal: the request's addresses leave the map, nothing else changes.\<close>

lemma RemoveUnlocked_spec:
  assumes ok: "vr_ok rs" and run: "RemoveUnlocked s n rs = (b, rs')"
  shows "vr_ok rs'" and "vr_merged rs \<Longrightarrow> vr_merged rs'"
    and "vr_at rs' a = (if in_request s n a then None else vr_at rs a)"
    and "b \<longleftrightarrow> n \<noteq> 0 \<and> (\<exists>r\<in>set rs. unat s < vhi r \<and> vlo r < unat (sat_end s n))"
proof -
  let ?e = "sat_end s n"
  obtain f l where fl: "OverlapSpan rs s n = (f, l)" by fastforce
  obtain A W B where d: "rs = A @ W @ B" "f = length A" "l = length A + length W"
      "\<forall>r\<in>set A. vhi r \<le> unat s" "\<forall>r\<in>set W. unat s < vhi r \<and> vlo r < unat ?e"
      "\<forall>r\<in>set B. unat ?e \<le> vlo r" "\<forall>r\<in>set B. unat s < vhi r"
    using OverlapSpan_split [OF ok fl] by metis
  have meets: "(\<exists>r\<in>set rs. unat s < vhi r \<and> vlo r < unat ?e) \<longleftrightarrow> W \<noteq> []"
    using d(1,4,5,6) by (cases W) force+
  have none: "vr_at rs a = None" if "in_request s n a" "W = []"
    using that d(1,4,6) by (force simp: vr_at_None covers_nat in_request_def)
  show "b \<longleftrightarrow> n \<noteq> 0 \<and> (\<exists>r\<in>set rs. unat s < vhi r \<and> vlo r < unat ?e)"
    unfolding meets using run fl d(2,3) by (auto simp: RemoveUnlocked_def Let_def split: if_splits)
  show "vr_ok rs'" and "vr_merged rs \<Longrightarrow> vr_merged rs'"
    and "vr_at rs' a = (if in_request s n a then None else vr_at rs a)"
  proof -
    consider (same) "n = 0 \<or> W = []" "rs' = rs" |
      (cut) "n \<noteq> 0" "W \<noteq> []" "rs' = SpliceUnlocked (length A) (length A + length W)
        (AddPiece (AddPiece [] (hd W) (r_start (hd W)) (max s (r_start (hd W))))
          (last W) (min ?e (r_end (last W))) (r_end (last W))) (A @ W @ B)"
    proof (cases "n = 0 \<or> W = []")
      case True
      then have "rs' = rs" using run fl d(2,3) by (auto simp: RemoveUnlocked_def split: if_splits)
      then show ?thesis by (rule same [OF True])
    next
      case False
      then have "rs ! f = hd W" "rs ! (l - 1) = last W"
        using d(1,2,3) by (cases W rule: rev_cases; auto simp: nth_append hd_conv_nth)+
      then show ?thesis using cut False run fl d(1,2,3) by (auto simp: RemoveUnlocked_def Let_def)
    qed
    then have "vr_ok rs' \<and> (vr_merged rs \<longrightarrow> vr_merged rs') \<and>
      vr_at rs' a = (if in_request s n a then None else vr_at rs a)"
    proof cases
      case same
      then show ?thesis using ok none by auto
    next
      case cut
      note p = remove_pieces [OF ok [unfolded d(1)] cut(2) d(4,6,5) sat_end_ge]
      show ?thesis
        unfolding cut(3) d(1) in_request_def
        using splice_sem [OF p(1)] splice_merged [OF p(1)] p(2) by simp
    qed
    then show "vr_ok rs'" and "vr_merged rs \<Longrightarrow> vr_merged rs'"
      and "vr_at rs' a = (if in_request s n a then None else vr_at rs a)" by auto
  qed
qed

subsection \<open>Editing attributes\<close>

text \<open>
  \<open>Rename\<close>, \<open>Protect\<close> and \<open>SetMemoryType\<close> hand \<open>EditUnlocked\<close> a function that changes an
  attribute of a range and neither its place nor its kind; \<open>g\<close> is what it does to a page.
\<close>

definition attr_edit :: "(vrange \<Rightarrow> vrange) \<Rightarrow> (page_view \<Rightarrow> page_view) \<Rightarrow> bool" where
  "attr_edit edit g \<longleftrightarrow>
     (\<forall>r. r_start (edit r) = r_start r \<and> r_size (edit r) = r_size r) \<and>
     (\<forall>r a. view_at (edit r) a = g (view_at r a))"

definition cut_range :: "u64 \<Rightarrow> u64 \<Rightarrow> (vrange \<Rightarrow> vrange) \<Rightarrow> vrange \<Rightarrow> vrange list" where
  "cut_range s e edit r =
     (if r_start r < s then [piece_of r (r_start r) s] else []) @
     [edit (piece_of r (max s (r_start r)) (min e (r_end r)))] @
     (if e < r_end r then [piece_of r e (r_end r)] else [])"

lemma edit_range_eq: "edit_range s e edit ps r = ps @ cut_range s e edit r"
  by (auto simp: edit_range_def cut_range_def Let_def AddPiece_eq piece_of_def le_u64 less_u64
      unat_max_u64 unat_min_u64 max_def min_def)

lemma edit_fold_eq: "foldl (edit_range s e edit) ps W = ps @ concat (map (cut_range s e edit) W)"
  by (induction W arbitrary: ps) (simp_all add: edit_range_eq)

text \<open>What one overlapped range is cut into: the same span, with the middle edited.\<close>

lemma cut_range_spec:
  assumes "vlo r < vhi r" and "r_fits r" and "unat s < vhi r" and "vlo r < unat e"
    and "unat s < unat e" and "attr_edit edit g"
  shows "vr_ok (cut_range s e edit r)"
    and "\<forall>p\<in>set (cut_range s e edit r). vlo r \<le> vlo p \<and> vhi p \<le> vhi r"
    and "vr_at (cut_range s e edit r) a =
      (if covers r a then Some (if unat s \<le> unat a \<and> unat a < unat e then g (view_at r a) else view_at r a)
       else None)"
proof -
  have re: "unat (r_end r) = vhi r" by (rule unat_r_end [OF assms(2)])
  have se: "\<And>x. r_start (edit x) = r_start x" "\<And>x. r_size (edit x) = r_size x"
    "\<And>x a. view_at (edit x) a = g (view_at x a)"
    using assms(6) by (auto simp: attr_edit_def)
  define L M R where "L = piece_of r (r_start r) s"
    and "M = piece_of r (max s (r_start r)) (min e (r_end r))" and "R = piece_of r e (r_end r)"
  have cut: "cut_range s e edit r =
      (if vlo r < unat s then [L] else []) @ [edit M] @ (if unat e < vhi r then [R] else [])"
    by (simp add: cut_range_def less_u64 re L_def M_def R_def)
  have mm: "unat (max s (r_start r)) = max (unat s) (vlo r)" "unat (min e (r_end r)) = min (unat e) (vhi r)"
    by (simp_all add: unat_max_u64 unat_min_u64 re)
  have v: "view_at L a = view_at r a" "view_at M a = view_at r a" "view_at R a = view_at r a"
    by (simp_all add: L_def M_def R_def)
  have st: "vlo L = vlo r" "vlo M = max (unat s) (vlo r)" "vlo R = unat e"
    by (simp_all add: L_def M_def R_def unat_max_u64)
  have L: "vhi L = unat s" "r_fits L" if "vlo r < unat s"
    using that piece_bounds [of "r_start r" s r] by (auto simp: L_def)
  have R: "vhi R = vhi r" "r_fits R" if "unat e < vhi r"
    using that re piece_bounds [of e "r_end r" r] by (auto simp: R_def)
  have M: "vhi M = min (unat e) (vhi r)" "r_fits M"
    using piece_bounds [of "max s (r_start r)" "min e (r_end r)" r] mm assms by (auto simp: M_def)
  show "vr_ok (cut_range s e edit r)"
    using L M R st assms by (auto simp: cut vr_ok_Cons vr_ok_append se)
  show "\<forall>p\<in>set (cut_range s e edit r). vlo r \<le> vlo p \<and> vhi p \<le> vhi r"
    using L M R st assms by (auto simp: cut se)
  have cM: "covers (edit M) a \<longleftrightarrow> covers r a \<and> unat s \<le> unat a \<and> unat a < unat e"
    using M st by (auto simp: covers_nat se)
  have cL: "vlo r < unat s \<and> covers L a \<longleftrightarrow> covers r a \<and> unat a < unat s"
    using L st assms by (auto simp: covers_nat)
  have cR: "unat e < vhi r \<and> covers R a \<longleftrightarrow> covers r a \<and> unat e \<le> unat a"
    using R st assms by (auto simp: covers_nat)
  show "vr_at (cut_range s e edit r) a =
      (if covers r a then Some (if unat s \<le> unat a \<and> unat a < unat e then g (view_at r a) else view_at r a)
       else None)"
    using cL cR assms(5) by (auto simp: cut vr_at_append cM se(3) v)
qed

text \<open>Replacing every range by pieces of its own span.\<close>

lemma concat_pieces:
  assumes "vr_ok rs"
    and "\<And>r. r \<in> set rs \<Longrightarrow> vr_ok (f r) \<and> (\<forall>p\<in>set (f r). vlo r \<le> vlo p \<and> vhi p \<le> vhi r) \<and>
      vr_at (f r) a = (if covers r a then Some (h (view_at r a)) else None)"
  shows "vr_ok (concat (map f rs)) \<and>
    (\<forall>p\<in>set (concat (map f rs)). \<exists>r\<in>set rs. vlo r \<le> vlo p \<and> vhi p \<le> vhi r) \<and>
    vr_at (concat (map f rs)) a = map_option h (vr_at rs a)"
  using assms
proof (induction rs)
  case (Cons r rs)
  have r: "vr_ok (f r)" "\<forall>p\<in>set (f r). vlo r \<le> vlo p \<and> vhi p \<le> vhi r"
      "vr_at (f r) a = (if covers r a then Some (h (view_at r a)) else None)"
    using Cons.prems(2) [of r] by auto
  have ih: "vr_ok (concat (map f rs))"
      "\<forall>p\<in>set (concat (map f rs)). \<exists>q\<in>set rs. vlo q \<le> vlo p \<and> vhi p \<le> vhi q"
      "vr_at (concat (map f rs)) a = map_option h (vr_at rs a)"
    using Cons.IH Cons.prems by (auto simp: vr_ok_Cons)
  have sep: "\<forall>q\<in>set rs. vhi r \<le> vlo q" using Cons.prems(1) by (simp add: vr_ok_Cons)
  have "\<forall>x\<in>set (f r). \<forall>y\<in>set (concat (map f rs)). vhi x \<le> vlo y"
  proof (intro ballI)
    fix x y assume "x \<in> set (f r)" "y \<in> set (concat (map f rs))"
    then show "vhi x \<le> vlo y" using r(2) ih(2) sep by (meson le_trans)
  qed
  then have "vr_ok (f r @ concat (map f rs))" using r ih by (simp add: vr_ok_append)
  then show ?case using r ih by (auto simp: vr_at_append)
qed simp

lemma EditUnlocked_spec:
  assumes ok: "vr_ok rs" and ed: "attr_edit edit g" and run: "rs' = EditUnlocked s n edit rs"
  shows "vr_ok rs'" and "vr_merged rs \<Longrightarrow> vr_merged rs'"
    and "vr_at rs' a = (if in_request s n a then map_option g (vr_at rs a) else vr_at rs a)"
proof -
  let ?e = "sat_end s n"
  obtain f l where fl: "OverlapSpan rs s n = (f, l)" by fastforce
  obtain A W B where d: "rs = A @ W @ B" "f = length A" "l = length A + length W"
      "\<forall>r\<in>set A. vhi r \<le> unat s" "\<forall>r\<in>set W. unat s < vhi r \<and> vlo r < unat ?e"
      "\<forall>r\<in>set B. unat ?e \<le> vlo r" "\<forall>r\<in>set B. unat s < vhi r"
    using OverlapSpan_split [OF ok fl] by metis
  let ?P = "concat (map (cut_range s ?e edit) W)"
  let ?in = "unat s \<le> unat a \<and> unat a < unat ?e"
  let ?h = "\<lambda>v. if ?in then g v else v"
  have rs': "rs' = (if n = 0 \<or> W = [] then rs
      else SpliceUnlocked (length A) (length A + length W) ?P (A @ W @ B))"
    using fl d(1,2,3) by (auto simp: run EditUnlocked_def edit_fold_eq)
  have okW: "vr_ok A" "vr_ok W" "vr_ok B" and AW: "\<forall>x\<in>set A. \<forall>y\<in>set W. vhi x \<le> vlo y"
    and WB: "\<forall>x\<in>set W. \<forall>y\<in>set B. vhi x \<le> vlo y" and AB: "\<forall>x\<in>set A. \<forall>y\<in>set B. vhi x \<le> vlo y"
    using ok d(1) by (auto simp: vr_ok_append)
  have outA: "vr_at A a = None" and outB: "vr_at B a = None" if ?in
    using that d(4,6) by (force simp: vr_at_None covers_nat)+
  have P: "vr_ok ?P" "\<forall>p\<in>set ?P. \<exists>r\<in>set W. vlo r \<le> vlo p \<and> vhi p \<le> vhi r"
      "vr_at ?P a = map_option ?h (vr_at W a)" if "n \<noteq> 0"
  proof -
    have "vr_ok (cut_range s ?e edit r) \<and>
        (\<forall>p\<in>set (cut_range s ?e edit r). vlo r \<le> vlo p \<and> vhi p \<le> vhi r) \<and>
        vr_at (cut_range s ?e edit r) a = (if covers r a then Some (?h (view_at r a)) else None)"
      if "r \<in> set W" for r
    proof -
      have r: "vlo r < vhi r" "r_fits r" "unat s < vhi r" "vlo r < unat ?e"
        using okW that d(5) by (auto dest: vr_ok_mem)
      then have "unat s < 18446744073709551615" by (simp add: fits_def)
      then have "unat s < unat ?e" using r \<open>n \<noteq> 0\<close> by (auto simp: unat_sat_end neq0_u64)
      from cut_range_spec [OF r this ed] show ?thesis by simp
    qed
    from concat_pieces [OF okW(2) this]
    show "vr_ok ?P" "\<forall>p\<in>set ?P. \<exists>r\<in>set W. vlo r \<le> vlo p \<and> vhi p \<le> vhi r"
      "vr_at ?P a = map_option ?h (vr_at W a)" by blast+
  qed
  have okX: "vr_ok (A @ ?P @ B)" if "n \<noteq> 0"
  proof -
    have "\<forall>x\<in>set A. \<forall>y\<in>set ?P. vhi x \<le> vlo y" and "\<forall>x\<in>set ?P. \<forall>y\<in>set B. vhi x \<le> vlo y"
      using AW WB P(2) [OF that] by (meson le_trans)+
    then show ?thesis using okW P(1) [OF that] AB by (auto simp: vr_ok_append)
  qed
  have atX: "vr_at (A @ ?P @ B) a = (if ?in then map_option g (vr_at rs a) else vr_at rs a)" if "n \<noteq> 0"
    using outA outB P(3) [OF that] by (auto simp: vr_at_append d(1) split: option.splits)
  show "vr_ok rs'" using rs' splice_sem(1) [OF okX] ok by simp
  show "vr_merged rs'" if "vr_merged rs" using rs' splice_merged [OF okX] that d(1) by simp
  show "vr_at rs' a = (if in_request s n a then map_option g (vr_at rs a) else vr_at rs a)"
  proof (cases "n = 0 \<or> W = []")
    case True
    then have "in_request s n a \<Longrightarrow> vr_at rs a = None"
      using outA outB d(1) in_request_0 [of s a] by (auto simp: in_request_def vr_at_append)
    then show ?thesis using True rs' by auto
  next
    case False
    then show ?thesis using rs' splice_sem(2) [OF okX] atX by (simp add: in_request_def)
  qed
qed

subsection \<open>Insertion and overlap tests\<close>

fun merge_front :: "vrange list \<Rightarrow> vrange list" where
  "merge_front (a # b # rs) = (if mergeable a b then merge_front (grow a b # rs) else a # b # rs)"
| "merge_front rs = rs"

lemma merge_following_eq:
  "i \<le> length rs \<Longrightarrow> merge_following i rs = take i rs @ merge_front (drop i rs)"
proof (induction i rs rule: merge_following.induct)
  case (1 i rs)
  show ?case
  proof (cases "i + 1 < length rs")
    case False
    then have "length (drop i rs) \<le> 1" by simp
    then have "merge_front (drop i rs) = drop i rs"
      by (cases "drop i rs" rule: merge_front.cases) auto
    with False show ?thesis by (subst merge_following.simps) simp
  next
    case len: True
    have d: "drop i rs = rs ! i # rs ! (i + 1) # drop (i + 2) rs"
      by (rule drop_two [OF len])
    show ?thesis
    proof (cases "mergeable (rs ! i) (rs ! (i + 1))")
      case True
      let ?rs' = "erase_at (i + 1) (rs[i := grow (rs ! i) (rs ! (i + 1))])"
      have rs': "?rs' = take i rs @ grow (rs ! i) (rs ! (i + 1)) # drop (i + 2) rs"
        by (rule erase_grow [OF len])
      have "merge_following i rs = merge_following i ?rs'"
        using True len by (subst merge_following.simps) (auto simp: mergeable_def Let_def)
      also have "\<dots> = take i ?rs' @ merge_front (drop i ?rs')"
        using "1.IH" [OF len refl refl] True "1.prems" len rs' by (simp add: mergeable_def)
      also have "\<dots> = take i rs @ merge_front (grow (rs ! i) (rs ! (i + 1)) # drop (i + 2) rs)"
        unfolding rs' using len by simp
      finally show ?thesis using d True by simp
    next
      case False
      have "merge_following i rs = rs"
        using False len by (subst merge_following.simps) (auto simp: mergeable_def Let_def)
      then show ?thesis using d False by (metis append_take_drop_id merge_front.simps(1))
    qed
  qed
qed

lemma merge_front_head: "\<exists>h t. merge_front (a # rs) = h # t \<and> same_head h a"
proof (induction "a # rs" arbitrary: a rs rule: merge_front.induct)
  case (1 a b rs)
  have g: "same_head (grow a b) a" by (auto simp: same_head_def SameMergeKey_iff)
  show ?case using "1" g by (cases "mergeable a b") (auto simp: same_head_def)
qed (simp_all add: same_head_def)

lemma merge_front_sem: "vr_ok rs \<Longrightarrow> vr_ok (merge_front rs) \<and> vr_at (merge_front rs) = vr_at rs"
proof (induction rs rule: merge_front.induct)
  case (1 a b rs)
  then show ?case using grow_ok [of a b rs] grow_at [of a b rs] by auto
qed simp_all

lemma merge_front_starts: "\<forall>r\<in>set (merge_front rs). \<exists>q\<in>set rs. r_start r = r_start q"
  by (induction rs rule: merge_front.induct) auto

lemma merge_front_merged: "vr_ok (a # rs) \<Longrightarrow> vr_merged rs \<Longrightarrow> vr_merged (merge_front (a # rs))"
proof (induction "a # rs" arbitrary: a rs rule: merge_front.induct)
  case (1 a b rs)
  have fits: "r_fits a" "r_fits b" using "1.prems"(1) by (auto simp: vr_ok_Cons)
  show ?case
  proof (cases "mergeable a b")
    case True
    have "vr_merged rs" using "1.prems"(2) by (simp add: vr_merged_Cons)
    then show ?thesis using "1.hyps" [OF True] grow_ok [OF "1.prems"(1) True] True by simp
  next
    case False
    then show ?thesis using "1.prems"(2) by (simp add: vr_merged_Cons)
  qed
qed simp_all

lemma front_suffix_sem:
  assumes "vr_ok (xs @ ys)"
  shows "vr_ok (xs @ merge_front ys) \<and> vr_at (xs @ merge_front ys) = vr_at (xs @ ys)"
proof -
  have "\<forall>x\<in>set xs. \<forall>r\<in>set (merge_front ys). vhi x \<le> vlo r"
    using assms merge_front_starts [of ys] by (metis vr_ok_append)
  then show ?thesis
    using assms merge_front_sem [of ys]
    by (auto simp: vr_ok_append vr_at_append fun_eq_iff split: option.splits)
qed

lemma MergeAround_eq:
  "MergeAroundUnlocked (length A) (A @ r # B) =
     (if A \<noteq> [] \<and> mergeable (last A) r then butlast A @ merge_front (grow (last A) r # B)
      else A @ merge_front (r # B))"
proof (cases A rule: rev_cases)
  case Nil
  then show ?thesis using merge_following_eq [of 0 "r # B"] by (simp add: MergeAroundUnlocked_def)
next
  case (snoc A' p)
  have e: "erase_at (Suc (length A')) (A' @ grow p r # r # B) = A' @ grow p r # B"
    by (simp add: erase_at_def)
  have "merge_following (length A') (A' @ grow p r # B) = A' @ merge_front (grow p r # B)"
    by (simp add: merge_following_eq)
  moreover have "merge_following (Suc (length A')) (A' @ p # r # B) = A' @ p # merge_front (r # B)"
    by (simp add: merge_following_eq)
  ultimately show ?thesis
    using snoc e by (simp add: MergeAroundUnlocked_def nth_append mergeable_def list_update_append)
qed

lemma MergeAround_sem:
  assumes "vr_ok (A @ r # B)"
  shows "vr_ok (MergeAroundUnlocked (length A) (A @ r # B))"
    and "vr_at (MergeAroundUnlocked (length A) (A @ r # B)) = vr_at (A @ r # B)"
    and "vr_merged (A @ B) \<Longrightarrow> vr_merged (MergeAroundUnlocked (length A) (A @ r # B))"
proof -
  have both: "vr_ok (MergeAroundUnlocked (length A) (A @ r # B)) \<and>
      vr_at (MergeAroundUnlocked (length A) (A @ r # B)) = vr_at (A @ r # B)"
  proof (cases "A \<noteq> [] \<and> mergeable (last A) r")
    case True
    then obtain A' p where A: "A = A' @ [p]" by (metis append_butlast_last_id)
    with True have m: "mergeable p r" by simp
    have ok: "vr_ok (p # r # B)" using assms A by (simp add: vr_ok_append)
    have "vr_ok (A' @ grow p r # B)"
      using assms A grow_ok [OF ok m] grow_sel(1) [of p r] by (auto simp: vr_ok_append vr_ok_Cons)
    moreover have "vr_at (A' @ grow p r # B) = vr_at (A @ r # B)"
      using grow_at [OF ok m] by (auto simp: A vr_at_append fun_eq_iff split: option.splits)
    ultimately show ?thesis
      unfolding MergeAround_eq if_P [OF True]
      using front_suffix_sem [of A' "grow p r # B"] A by simp
  next
    case False
    then show ?thesis using front_suffix_sem [OF assms] by (simp only: MergeAround_eq if_False)
  qed
  then show "vr_ok (MergeAroundUnlocked (length A) (A @ r # B))"
    and "vr_at (MergeAroundUnlocked (length A) (A @ r # B)) = vr_at (A @ r # B)" by auto
  assume m: "vr_merged (A @ B)"
  show "vr_merged (MergeAroundUnlocked (length A) (A @ r # B))"
  proof (cases "A \<noteq> [] \<and> mergeable (last A) r")
    case True
    then obtain A' p where A: "A = A' @ [p]" by (metis append_butlast_last_id)
    with True have pr: "mergeable p r" by simp
    have ok: "vr_ok (grow p r # B)"
      using assms A grow_ok [OF _ pr] by (simp add: vr_ok_append)
    have "vr_merged (merge_front (grow p r # B))"
      using merge_front_merged [OF ok] m by (simp add: vr_merged_append)
    moreover obtain h t where "merge_front (grow p r # B) = h # t" "same_head h (grow p r)"
      using merge_front_head by blast
    moreover have "same_head (grow p r) p" by (auto simp: same_head_def SameMergeKey_iff)
    ultimately have "vr_merged (A' @ merge_front (grow p r # B))"
      using m A by (auto simp: vr_merged_append mergeable_same_head)
    then show ?thesis unfolding MergeAround_eq if_P [OF True] using A by simp
  next
    case False
    have ok: "vr_ok (r # B)" using assms by (simp add: vr_ok_append)
    obtain h t where ht: "merge_front (r # B) = h # t" "same_head h r"
      using merge_front_head by blast
    have "vr_merged (merge_front (r # B))"
      using merge_front_merged [OF ok] m by (simp add: vr_merged_append)
    then have "vr_merged (A @ merge_front (r # B))"
      using m False ht by (auto simp: vr_merged_append mergeable_same_head)
    then show ?thesis using False by (simp only: MergeAround_eq if_False)
  qed
qed

end
