(* ===== verification/VirtualRangesOps.thy ===== *)
theory VirtualRangesOps
  imports VirtualRangesEdits
begin

text \<open>
  The public operations of \<open>VirtualRanges\<close> against the map from addresses to page attributes:
  one specification lemma each. \<open>VirtualRangesProps\<close> states the properties.
\<close>

subsection \<open>Overlap tests\<close>

definition meets :: "u64 \<Rightarrow> u64 \<Rightarrow> vrange \<Rightarrow> bool" where
  "meets s n r \<longleftrightarrow> unat s < vhi r \<and> vlo r < unat (sat_end s n)"

lemma VirtualRangesOverlap_eq:
  "VirtualRangesOverlap a n b m \<longleftrightarrow> n \<noteq> 0 \<and> m \<noteq> 0 \<and> a < sat_end b m \<and> b < sat_end a n"
  by (simp add: VirtualRangesOverlap_def sat_end_def Let_def)

lemma VirtualRangesOverlap_meets:
  assumes "vlo r < vhi r" and "r_fits r" and "n \<noteq> 0"
  shows "VirtualRangesOverlap s n (r_start r) (r_size r) \<longleftrightarrow> meets s n r"
  using assms unat_r_end [OF assms(2)]
  by (auto simp: VirtualRangesOverlap_eq meets_def less_u64)

lemma meets_covers:
  assumes "vlo r < vhi r" and "r_fits r" and "n \<noteq> 0"
  shows "meets s n r \<longleftrightarrow> (\<exists>a. in_request s n a \<and> covers r a)"
proof
  assume m: "meets s n r"
  have "unat s < 18446744073709551615" using m assms by (auto simp: meets_def fits_def)
  then have "unat s < unat (sat_end s n)" using assms(3) by (auto simp: unat_sat_end neq0_u64)
  then have "in_request s n (max s (r_start r)) \<and> covers r (max s (r_start r))"
    using m assms by (auto simp: meets_def in_request_def covers_nat unat_max_u64)
  then show "\<exists>a. in_request s n a \<and> covers r a" by blast
qed (force simp: meets_def in_request_def covers_nat)

lemma meets_vr_at:
  assumes "vr_ok rs" and "n \<noteq> 0"
  shows "(\<exists>r\<in>set rs. meets s n r) \<longleftrightarrow> (\<exists>a. in_request s n a \<and> vr_at rs a \<noteq> None)"
proof -
  have "meets s n r \<longleftrightarrow> (\<exists>a. in_request s n a \<and> covers r a)" if "r \<in> set rs" for r
    using meets_covers [OF _ _ assms(2)] vr_ok_mem [OF assms(1) that] by blast
  then show ?thesis by (auto simp: vr_at_None)
qed

lemma LowerBound_split:
  assumes "vr_ok rs"
  obtains A B where "rs = A @ B" and "LowerBound rs s = length A"
    and "\<forall>r\<in>set A. vlo r < unat s" and "\<forall>r\<in>set B. unat s \<le> vlo r"
proof -
  have lt: "sorted_wrt (\<lambda>a b. r_start a < r_start b) rs"
    using iv_ok_lo_less [of vlo vhi rs] assms by (simp add: vr_ok_def less_u64)
  show ?thesis
    using that [of "takeWhile (\<lambda>r. r_start r < s) rs" "dropWhile (\<lambda>r. r_start r < s) rs"]
      takeWhile_sorted_split(2) [OF lt, of s]
    by (auto simp: LowerBound_def less_u64 le_u64 dest: takeWhile_all)
qed

text \<open>The two neighbours of the insertion point decide whether anything overlaps.\<close>

lemma neighbours_decide:
  assumes ok: "vr_ok (A @ B)" and A: "\<forall>r\<in>set A. vlo r < unat s" and B: "\<forall>r\<in>set B. unat s \<le> vlo r"
  shows "(\<exists>r\<in>set (A @ B). meets s n r) \<longleftrightarrow> B \<noteq> [] \<and> meets s n (hd B) \<or> A \<noteq> [] \<and> meets s n (last A)"
proof -
  have "(\<exists>r\<in>set A. meets s n r) \<longleftrightarrow> A \<noteq> [] \<and> meets s n (last A)"
  proof (cases A rule: rev_cases)
    case (snoc A' p)
    have sep: "\<forall>r\<in>set A'. vhi r \<le> vlo p" and "vlo p < vhi p" "vlo p < unat s"
      using ok A snoc by (auto simp: vr_ok_append vr_ok_Cons)
    then have "\<not> meets s n r" if "r \<in> set A'" for r
      using that A snoc by (force simp: meets_def)
    with snoc show ?thesis by auto
  qed simp
  moreover have "(\<exists>r\<in>set B. meets s n r) \<longleftrightarrow> B \<noteq> [] \<and> meets s n (hd B)"
  proof (cases B)
    case (Cons b B')
    have "vr_ok (b # B')" using ok Cons by (simp add: vr_ok_append)
    then have "meets s n b" if "r \<in> set B'" "meets s n r" for r
      using that B Cons by (force simp: meets_def vr_ok_Cons)
    with Cons show ?thesis by auto
  qed simp
  ultimately show ?thesis by auto
qed

lemma FindOverlap_spec:
  assumes ok: "vr_ok rs" and n: "n \<noteq> 0"
  shows "FindOverlap rs s n = Some r \<Longrightarrow> r \<in> set rs \<and> meets s n r"
    and "FindOverlap rs s n = None \<longleftrightarrow> (\<forall>r\<in>set rs. \<not> meets s n r)"
proof -
  obtain A B where d: "rs = A @ B" "LowerBound rs s = length A"
      "\<forall>r\<in>set A. vlo r < unat s" "\<forall>r\<in>set B. unat s \<le> vlo r"
    using LowerBound_split [OF ok] by metis
  have o: "VirtualRangesOverlap s n (r_start r) (r_size r) = meets s n r" if "r \<in> set rs" for r
    using VirtualRangesOverlap_meets [OF _ _ n] vr_ok_mem [OF ok that] by auto
  have hd: "B \<noteq> [] \<Longrightarrow> rs ! length A = hd B" and lst: "A \<noteq> [] \<Longrightarrow> rs ! (length A - 1) = last A"
    using d(1) by (cases B; auto simp: nth_append)
      (cases A rule: rev_cases; auto simp: d(1) nth_append)
  have oB: "VirtualRangesOverlap s n (r_start (hd B)) (r_size (hd B)) = meets s n (hd B)" if "B \<noteq> []"
    using o [of "hd B"] d(1) that by simp
  have oA: "VirtualRangesOverlap s n (r_start (last A)) (r_size (last A)) = meets s n (last A)" if "A \<noteq> []"
    using o [of "last A"] d(1) that by simp
  have len: "length A < length rs \<longleftrightarrow> B \<noteq> []" by (simp add: d(1))
  have f: "FindOverlap rs s n = (if B \<noteq> [] \<and> meets s n (hd B) then Some (hd B)
      else if A \<noteq> [] \<and> meets s n (last A) then Some (last A) else None)"
    unfolding FindOverlap_def d(2) Let_def len length_0_conv
    using hd lst oA oB by (simp cong: conj_cong)
  show "FindOverlap rs s n = Some r \<Longrightarrow> r \<in> set rs \<and> meets s n r"
    unfolding f using d(1) by (auto split: if_splits)
  show "FindOverlap rs s n = None \<longleftrightarrow> (\<forall>r\<in>set rs. \<not> meets s n r)"
    unfolding f using neighbours_decide [of A B s n] ok d by auto
qed

text \<open>The range an insertion asks for.\<close>

definition new_range ::
  "u64 \<Rightarrow> u64 \<Rightarrow> u64 \<Rightarrow> i32 \<Rightarrow> i32 \<Rightarrow> vrange_type \<Rightarrow> string option \<Rightarrow> bool \<Rightarrow> vrange" where
  "new_range s n off prot mt t nm dm =
     \<lparr>r_start = s, r_size = n, r_offset = off, r_protection = prot, r_memory_type = mt, r_type = t,
      r_disallow_merge = dm, r_name = CopyVirtualRangeName nm\<rparr>"

lemma new_range_sel [simp]:
  "r_start (new_range s n off prot mt t nm dm) = s" "r_size (new_range s n off prot mt t nm dm) = n"
  by (simp_all add: new_range_def)

lemma VirtualRanges_Add_cases:
  assumes ok: "vr_ok (m_ranges v)" and fit: "fits s n" and n: "s \<noteq> 0" "n \<noteq> 0"
    and free: "\<forall>r\<in>set (m_ranges v). \<not> meets s n r"
    and r: "r = new_range s n off prot mt t nm dm"
  obtains A B where "m_ranges v = A @ B" and "vr_ok (A @ r # B)"
    and "VirtualRanges_Add s n off prot mt t nm dm v =
      (True, Mutation_end ((Mutation_begin v)\<lparr>m_ranges := MergeAroundUnlocked (length A) (A @ r # B)\<rparr>))"
proof -
  obtain A B where d: "m_ranges v = A @ B" "LowerBound (m_ranges v) s = length A"
      "\<forall>r\<in>set A. vlo r < unat s" "\<forall>r\<in>set B. unat s \<le> vlo r"
    using LowerBound_split [OF ok] by metis
  have pos: "0 < unat n" using n(2) by (simp add: neq0_u64)
  have e: "unat (sat_end s n) = unat s + unat n" using fit by (simp add: fits_end)
  have "vhi x \<le> unat s" if "x \<in> set A" for x
    using that free d(1,3) e pos by (force simp: meets_def)
  moreover have "unat s + unat n \<le> vlo y" if "y \<in> set B" for y
    using that free d(1,4) e vr_ok_mem [OF ok, of y] by (force simp: meets_def)
  ultimately have okr: "vr_ok (A @ r # B)"
    using ok d(1) fit pos by (auto simp: vr_ok_append vr_ok_Cons r)
  have o: "\<not> VirtualRangesOverlap s n (r_start x) (r_size x)" if "x \<in> set (A @ B)" for x
    using VirtualRangesOverlap_meets [OF _ _ n(2)] vr_ok_mem [OF ok, of x] that free d(1) by auto
  have nth: "B \<noteq> [] \<Longrightarrow> (A @ B) ! length A \<in> set (A @ B)" "A \<noteq> [] \<Longrightarrow> (A @ B) ! (length A - 1) \<in> set (A @ B)"
    by (rule nth_mem, simp) (auto simp: nth_append)
  have "VirtualRanges_Add s n off prot mt t nm dm v =
      (True, Mutation_end ((Mutation_begin v)\<lparr>m_ranges := MergeAroundUnlocked (length A) (A @ r # B)\<rparr>))"
    using n d(1,2) o nth
    by (auto simp: VirtualRanges_Add_def mutate_def Mutation_begin_def Let_def insert_at_def r new_range_def)
  then show ?thesis using that d(1) okr by blast
qed

lemma VirtualRanges_Add_refused:
  assumes ok: "vr_ok (m_ranges v)" and bad: "s = 0 \<or> n = 0 \<or> (\<exists>r\<in>set (m_ranges v). meets s n r)"
  shows "fst (VirtualRanges_Add s n off prot mt t nm dm v) = False"
    and "m_ranges (snd (VirtualRanges_Add s n off prot mt t nm dm v)) = m_ranges v"
proof -
  obtain A B where d: "m_ranges v = A @ B" "LowerBound (m_ranges v) s = length A"
      "\<forall>r\<in>set A. vlo r < unat s" "\<forall>r\<in>set B. unat s \<le> vlo r"
    using LowerBound_split [OF ok] by metis
  have o: "VirtualRangesOverlap s n (r_start r) (r_size r) = meets s n r"
    if "n \<noteq> 0" "r \<in> set (m_ranges v)" for r
    using VirtualRangesOverlap_meets that vr_ok_mem [OF ok that(2)] by auto
  have hd: "B \<noteq> [] \<Longrightarrow> (A @ B) ! length A = hd B" and lst: "A \<noteq> [] \<Longrightarrow> (A @ B) ! (length A - 1) = last A"
    by (cases B; simp) (cases A rule: rev_cases; simp add: nth_append)
  have "s = 0 \<or> n = 0 \<or> B \<noteq> [] \<and> VirtualRangesOverlap s n (r_start (hd B)) (r_size (hd B)) \<or>
      A \<noteq> [] \<and> VirtualRangesOverlap s n (r_start (last A)) (r_size (last A))"
    using bad neighbours_decide [of A B s n] ok d o [of "hd B"] o [of "last A"] by auto
  then show "fst (VirtualRanges_Add s n off prot mt t nm dm v) = False"
    and "m_ranges (snd (VirtualRanges_Add s n off prot mt t nm dm v)) = m_ranges v"
    using hd lst
    by (auto simp: VirtualRanges_Add_def mutate_sel d(1) d(2) [unfolded d(1)] Let_def
        Mutation_begin_def)
qed

subsection \<open>Insertion, removal and attribute changes\<close>

text \<open>
  \<open>Add\<close> succeeds exactly on a non-null, non-empty request that meets no range. Then the
  requested addresses get the requested attributes, every other address keeps its own, and the
  vector stays sorted, disjoint and merged; otherwise nothing changes.
\<close>

lemma Add_spec:
  assumes ok: "vr_ok (m_ranges v)" and fit: "fits s n"
    and run: "VirtualRanges_Add s n off prot mt t nm dm v = (b, v')"
  shows "(b \<longleftrightarrow> s \<noteq> 0 \<and> n \<noteq> 0 \<and> (\<forall>a. in_span s n a \<longrightarrow> vr_at (m_ranges v) a = None)) \<and>
    vr_ok (m_ranges v') \<and> (vr_merged (m_ranges v) \<longrightarrow> vr_merged (m_ranges v')) \<and>
    (\<forall>a. vr_at (m_ranges v') a =
      (if b \<and> in_span s n a then Some (view_at (new_range s n off prot mt t nm dm) a)
       else vr_at (m_ranges v) a))"
proof -
  let ?r = "new_range s n off prot mt t nm dm"
  have meet: "(\<exists>r\<in>set (m_ranges v). meets s n r) \<longleftrightarrow> (\<exists>a. in_span s n a \<and> vr_at (m_ranges v) a \<noteq> None)"
    if "n \<noteq> 0" using meets_vr_at [OF ok that] in_request_fits [OF fit] by simp
  show ?thesis
  proof (cases "s = 0 \<or> n = 0 \<or> (\<exists>r\<in>set (m_ranges v). meets s n r)")
    case True
    then have "\<not> b" "m_ranges v' = m_ranges v"
      using VirtualRanges_Add_refused [OF ok True, of off prot mt t nm dm] run by auto
    then show ?thesis using True meet ok by auto
  next
    case False
    then have n: "s \<noteq> 0" "n \<noteq> 0" and free: "\<forall>r\<in>set (m_ranges v). \<not> meets s n r" by auto
    obtain A B where d: "m_ranges v = A @ B" "vr_ok (A @ ?r # B)" "b"
        "m_ranges v' = MergeAroundUnlocked (length A) (A @ ?r # B)"
      by (rule VirtualRanges_Add_cases [OF ok fit n free refl, of off prot mt t nm dm])
        (use run in \<open>auto simp: Mutation_end_def\<close>)
    note m = MergeAround_sem [OF d(2)]
    have none: "vr_at (m_ranges v) a = None" if "in_span s n a" for a
      using that False meet [OF n(2)] by auto
    have "vr_at (A @ ?r # B) a = (if in_span s n a then Some (view_at ?r a) else vr_at (m_ranges v) a)" for a
      using none [of a] d(1) by (auto simp: vr_at_append covers_def split: option.splits)
    then show ?thesis using n False meet [OF n(2)] d m by auto
  qed
qed

text \<open>Removing a whole range by position is the removal of its span.\<close>

lemma exact_erase:
  assumes ok: "vr_ok rs" and p: "LowerBound rs s \<noteq> length rs"
    and at: "r_start (rs ! LowerBound rs s) = s" "r_size (rs ! LowerBound rs s) = n"
  defines "rs' \<equiv> erase_at (LowerBound rs s) rs"
  shows "vr_ok rs'" and "vr_merged rs \<Longrightarrow> vr_merged rs'" and "n \<noteq> 0" and "fits s n"
    and "vr_at rs' a = (if in_request s n a then None else vr_at rs a)"
    and "vr_at rs a = (if in_request s n a then Some (view_at (rs ! LowerBound rs s) a) else vr_at rs a)"
proof -
  obtain A B where d: "rs = A @ B" "LowerBound rs s = length A"
    using LowerBound_split [OF ok] by metis
  obtain x C where B: "B = x # C" using p d by (cases B) auto
  have x: "rs ! LowerBound rs s = x" unfolding d(2) by (simp add: d(1) B)
  have rs': "rs' = A @ C" by (simp add: rs'_def d(2)) (simp add: erase_at_def d(1) B)
  have okx: "vlo x < vhi x" "r_fits x" using ok d(1) B by (auto simp: vr_ok_append vr_ok_Cons)
  show "vr_ok rs'" using ok rs' d(1) B by (auto simp: vr_ok_append vr_ok_Cons)
  have "\<not> mergeable (last A) (hd C)" if "A \<noteq> []" "C \<noteq> []"
  proof -
    have "vhi (last A) \<le> vlo x" "vhi x \<le> vlo (hd C)" "r_fits (last A)"
      using that ok d(1) B vr_ok_mem [of A "last A"] by (auto simp: vr_ok_append vr_ok_Cons)
    then show ?thesis using okx unat_r_end [of "last A"] by (auto simp: mergeable_def eq_u64)
  qed
  then show "vr_merged rs'" if "vr_merged rs"
    using that rs' d(1) B by (auto simp: vr_merged_append vr_merged_Cons)
  show n: "n \<noteq> 0" and fit: "fits s n" using okx at x by (auto simp: neq0_u64)
  have c: "in_request s n a = covers x a"
    using in_request_fits [OF fit] at x by (simp add: covers_def)
  have "\<not> covers y a" if "covers x a" "y \<in> set (A @ C)" for y
    using that ok d(1) B by (force simp: vr_ok_append vr_ok_Cons covers_nat)
  then have none: "covers x a \<Longrightarrow> vr_at (A @ C) a = None" by (simp add: vr_at_None)
  then show "vr_at rs' a = (if in_request s n a then None else vr_at rs a)"
    by (auto simp: rs' d(1) B c vr_at_append split: option.splits)
  show "vr_at rs a = (if in_request s n a then Some (view_at (rs ! LowerBound rs s) a) else vr_at rs a)"
    using none unfolding x by (auto simp: d(1) B c vr_at_append split: option.splits)
qed

text \<open>
  \<open>Remove\<close> takes exactly the requested addresses out of the map, cutting the ranges at the
  edges, and reports whether anything was there; both of its paths (a whole range by position,
  a general span) agree.
\<close>

lemma Remove_spec:
  assumes ok: "vr_ok (m_ranges v)" and run: "VirtualRanges_Remove s n v = (b, v')"
  shows "(b \<longleftrightarrow> (\<exists>a. in_request s n a \<and> vr_at (m_ranges v) a \<noteq> None)) \<and>
    vr_ok (m_ranges v') \<and> (vr_merged (m_ranges v) \<longrightarrow> vr_merged (m_ranges v')) \<and>
    (\<forall>a. vr_at (m_ranges v') a = (if in_request s n a then None else vr_at (m_ranges v) a))"
proof -
  let ?rs = "m_ranges v"
  let ?p = "LowerBound ?rs s"
  have r: "m_ranges v' = snd (if ?p \<noteq> length ?rs \<and> r_start (?rs ! ?p) = s \<and> r_size (?rs ! ?p) = n
      then (True, erase_at ?p ?rs) else RemoveUnlocked s n ?rs)"
    and b: "b = fst (if ?p \<noteq> length ?rs \<and> r_start (?rs ! ?p) = s \<and> r_size (?rs ! ?p) = n
      then (True, erase_at ?p ?rs) else RemoveUnlocked s n ?rs)"
    using arg_cong [OF run, of "\<lambda>p. m_ranges (snd p)"] arg_cong [OF run, of fst]
    by (simp_all only: VirtualRanges_Remove_def mutate_sel Let_def fst_conv snd_conv)
  show ?thesis
  proof (cases "?p \<noteq> length ?rs \<and> r_start (?rs ! ?p) = s \<and> r_size (?rs ! ?p) = n")
    case True
    then have e: "?p \<noteq> length ?rs" "r_start (?rs ! ?p) = s" "r_size (?rs ! ?p) = n" by auto
    note x = exact_erase [OF ok e]
    have "in_request s n s" using x(3) in_request_fits [OF x(4)] by (simp add: in_span_start neq0_u64)
    with x(6) [of s] have "\<exists>a. in_request s n a \<and> vr_at ?rs a \<noteq> None" by auto
    then show ?thesis using True r b x by simp
  next
    case False
    then have b': "RemoveUnlocked s n ?rs = (b, m_ranges v')" unfolding r b if_not_P [OF False] by simp
    have "(\<exists>a. in_request s n a \<and> vr_at ?rs a \<noteq> None) \<longleftrightarrow> b"
      using RemoveUnlocked_spec(4) [OF ok b'] meets_vr_at [OF ok, of n s]
      by (cases "n = 0") (auto simp: meets_def)
    then show ?thesis using RemoveUnlocked_spec [OF ok b'] by auto
  qed
qed

fun page_protect :: "i32 \<Rightarrow> page_view \<Rightarrow> page_view" where
  "page_protect p (PageView t _ m d n b) = PageView t p m d n b"

fun page_mtype :: "i32 \<Rightarrow> page_view \<Rightarrow> page_view" where
  "page_mtype m (PageView t p _ d n b) = PageView t p m d n b"

fun page_rename :: "string \<Rightarrow> page_view \<Rightarrow> page_view" where
  "page_rename n (PageView t p m d _ b) = PageView t p m d n b"

lemma attr_edits:
  "attr_edit (\<lambda>r. r\<lparr>r_protection := p\<rparr>) (page_protect p)"
  "attr_edit (\<lambda>r. r\<lparr>r_memory_type := m\<rparr>) (page_mtype m)"
  "attr_edit (\<lambda>r. r\<lparr>r_name := nm\<rparr>) (page_rename nm)"
  by (simp_all add: attr_edit_def view_at_def)

text \<open>
  \<open>Protect\<close> sets the protection of every mapped address of the request and changes nothing
  else, however the request cuts the ranges.
\<close>

lemma Protect_spec:
  assumes ok: "vr_ok (m_ranges v)" and run: "VirtualRanges_Protect s n p v = v'"
  shows "vr_ok (m_ranges v') \<and> (vr_merged (m_ranges v) \<longrightarrow> vr_merged (m_ranges v')) \<and>
    (\<forall>a. vr_at (m_ranges v') a =
      (if in_request s n a then map_option (page_protect p) (vr_at (m_ranges v) a)
       else vr_at (m_ranges v) a))"
  using EditUnlocked_spec [OF ok attr_edits(1) [of p] refl, of s n] run
  by (auto simp: VirtualRanges_Protect_def mutate_sel)

text \<open>
  \<open>SetMemoryType\<close> sets the memory type of every mapped address of the request and changes
  nothing else.
\<close>

lemma SetMemoryType_spec:
  assumes ok: "vr_ok (m_ranges v)" and run: "VirtualRanges_SetMemoryType s n m v = v'"
  shows "vr_ok (m_ranges v') \<and> (vr_merged (m_ranges v) \<longrightarrow> vr_merged (m_ranges v')) \<and>
    (\<forall>a. vr_at (m_ranges v') a =
      (if in_request s n a then map_option (page_mtype m) (vr_at (m_ranges v) a)
       else vr_at (m_ranges v) a))"
  using EditUnlocked_spec [OF ok attr_edits(2) [of m] refl, of s n] run
  by (auto simp: VirtualRanges_SetMemoryType_def mutate_sel)

text \<open>
  \<open>Rename\<close> names every mapped address of the request and changes nothing else; the path that
  renames one whole range in place agrees with the path that cuts ranges.
\<close>

lemma Rename_spec:
  assumes ok: "vr_ok (m_ranges v)" and run: "VirtualRanges_Rename s n nm v = v'"
  shows "vr_ok (m_ranges v') \<and> (vr_merged (m_ranges v) \<longrightarrow> vr_merged (m_ranges v')) \<and>
    (\<forall>a. vr_at (m_ranges v') a =
      (if in_request s n a then map_option (page_rename (CopyVirtualRangeName nm)) (vr_at (m_ranges v) a)
       else vr_at (m_ranges v) a))"
proof -
  let ?rs = "m_ranges v" and ?N = "CopyVirtualRangeName nm"
  let ?p = "LowerBound ?rs s"
  let ?c = "?p \<noteq> length ?rs \<and> r_start (?rs ! ?p) = s \<and> r_size (?rs ! ?p) = n"
  have r: "m_ranges v' = (if ?c then MergeAroundUnlocked ?p (?rs[?p := (?rs ! ?p)\<lparr>r_name := ?N\<rparr>])
      else EditUnlocked s n (\<lambda>r. r\<lparr>r_name := ?N\<rparr>) ?rs)"
    using arg_cong [OF run, of m_ranges]
    by (simp only: VirtualRanges_Rename_def mutate_sel Let_def if_distrib [of snd] snd_conv)
  show ?thesis
  proof (cases ?c)
    case True
    then have e: "?p \<noteq> length ?rs" "r_start (?rs ! ?p) = s" "r_size (?rs ! ?p) = n" by auto
    note x = exact_erase [OF ok e]
    obtain A B where d: "?rs = A @ B" "?p = length A" using LowerBound_split [OF ok] by metis
    obtain y C where B: "B = y # C" using e(1) d by (cases B) auto
    have y: "?rs ! ?p = y" unfolding d(2) by (simp add: d(1) B)
    let ?y = "y\<lparr>r_name := ?N\<rparr>"
    have v': "m_ranges v' = MergeAroundUnlocked (length A) (A @ ?y # C)"
      unfolding r if_P [OF True] unfolding y unfolding d(2) by (simp add: d(1) B)
    have erased: "erase_at ?p ?rs = A @ C" unfolding d(2) by (simp add: d(1) B erase_at_def)
    have ok': "vr_ok (A @ ?y # C)" using ok d(1) B by (simp add: vr_ok_append vr_ok_Cons)
    have cy: "covers ?y a = in_request s n a" for a
      using in_request_fits [OF x(4)] e y by (simp add: covers_def)
    have vy: "view_at ?y a = page_rename ?N (view_at y a)" for a by (simp add: view_at_def)
    have none: "vr_at A a = None" if "covers y a" for a
      using that ok d(1) B by (force simp: vr_at_None vr_ok_append vr_ok_Cons covers_nat)
    have "vr_at (A @ ?y # C) a = (if in_request s n a then map_option (page_rename ?N) (vr_at ?rs a)
        else vr_at ?rs a)" for a
      using cy [of a] none [of a] by (auto simp: d(1) B vr_at_append vy covers_def split: option.splits)
    then show ?thesis using MergeAround_sem [OF ok'] x(2) erased by (simp add: v')
  next
    case False
    show ?thesis
      unfolding r if_not_P [OF False]
      using EditUnlocked_spec [OF ok attr_edits(3) [of ?N] refl, of s n] by auto
  qed
qed

text \<open>
  \<open>ReleaseReserved\<close> releases a request that is exactly one reserved range, and otherwise
  leaves the map alone.
\<close>

lemma ReleaseReserved_spec:
  assumes ok: "vr_ok (m_ranges v)" and run: "VirtualRanges_ReleaseReserved s n v = (b, v')"
  defines "hit \<equiv> \<exists>r\<in>set (m_ranges v). r_start r = s \<and> r_size r = n \<and> IsReservedRangeType (r_type r)"
  shows "b \<and> vr_ok (m_ranges v') \<and> (vr_merged (m_ranges v) \<longrightarrow> vr_merged (m_ranges v')) \<and>
    (\<forall>a. vr_at (m_ranges v') a = (if hit \<and> in_request s n a then None else vr_at (m_ranges v) a))"
proof -
  let ?rs = "m_ranges v"
  let ?p = "LowerBound ?rs s"
  let ?c = "?p \<noteq> length ?rs \<and> r_start (?rs ! ?p) = s \<and> r_size (?rs ! ?p) = n \<and>
      IsReservedRangeType (r_type (?rs ! ?p))"
  have r: "m_ranges v' = (if ?c then erase_at ?p ?rs else ?rs)" and b: b
    using arg_cong [OF run, of "\<lambda>p. m_ranges (snd p)"] arg_cong [OF run, of fst]
    by (simp_all only: VirtualRanges_ReleaseReserved_def mutate_sel Let_def fst_conv snd_conv
        if_distrib [of snd] if_distrib [of fst] if_cancel simp_thms)
  obtain A B where d: "?rs = A @ B" "?p = length A" "\<forall>r\<in>set A. vlo r < unat s" "\<forall>r\<in>set B. unat s \<le> vlo r"
    using LowerBound_split [OF ok] by metis
  have "hit \<longleftrightarrow> ?c"
  proof
    assume hit
    then obtain r where q: "r \<in> set ?rs" "r_start r = s" "r_size r = n" "IsReservedRangeType (r_type r)"
      by (auto simp: hit_def)
    then have "r \<in> set B" using d(1,3) by auto
    then obtain y C where B: "B = y # C" and ry: "r = y \<or> r \<in> set C" by (cases B) auto
    have okB: "vr_ok (y # C)" using ok d(1) B by (simp add: vr_ok_append)
    have "unat s \<le> vlo y" using d(4) B by simp
    then have "r = y" using ry q(2) okB by (auto simp: vr_ok_Cons)
    then show ?c using q unfolding d(2) by (simp add: d(1) B)
  next
    assume c: ?c
    then have "?rs ! ?p \<in> set ?rs" by (intro nth_mem) (simp add: d(1) d(2) [unfolded d(1)])
    with c show hit by (auto simp: hit_def)
  qed
  then show ?thesis using exact_erase [OF ok] r b ok by auto
qed

subsection \<open>Consuming reservations\<close>

fun page_type :: "page_view \<Rightarrow> vrange_type" where
  "page_type (PageView t _ _ _ _ _) = t"

lemma page_type_view [simp]: "page_type (view_at r a) = r_type r"
  by (simp add: view_at_def)

lemma one_byte_end: "unat a < unat (sat_end a 1) \<longleftrightarrow> unat a < 18446744073709551615"
  by (auto simp: unat_sat_end)

lemma FindContaining_spec:
  assumes ok: "vr_ok rs"
  shows "FindContainingUnlocked rs a t = Some r \<longleftrightarrow> r \<in> set rs \<and> covers r a \<and> r_type r = t"
proof -
  obtain f l where fl: "OverlapSpan rs a 1 = (f, l)" by fastforce
  obtain A W B where d: "rs = A @ W @ B" "f = length A" "l = length A + length W"
      "\<forall>r\<in>set A. vhi r \<le> unat a" "\<forall>r\<in>set W. unat a < vhi r \<and> vlo r < unat (sat_end a 1)"
      "\<forall>r\<in>set B. unat (sat_end a 1) \<le> vlo r" "\<forall>r\<in>set B. unat a < vhi r"
    using OverlapSpan_split [OF ok fl] by metis
  have fc: "FindContainingUnlocked rs a t =
      (if W = [] \<or> r_type (hd W) \<noteq> t \<or> a < r_start (hd W) then None else Some (hd W))"
    using fl d(1,2,3) by (cases W) (auto simp: FindContainingUnlocked_def)
  have outA: "\<not> covers q a" if "q \<in> set A" for q using that d(4) by (force simp: covers_nat)
  have outB: "\<not> covers q a" if "q \<in> set B" for q
    using that d(6) vr_ok_mem [OF ok, of q] one_byte_end [of a] by (auto simp: covers_nat fits_def d(1) unat_sat_end)
  have W: "W \<noteq> [] \<Longrightarrow> covers (hd W) a \<longleftrightarrow> \<not> a < r_start (hd W)"
    using d(5) by (auto simp: covers_nat less_u64)
  have only: "q = hd W" if "q \<in> set W" "covers q a" for q
  proof (rule ccontr)
    assume ne: "q \<noteq> hd W"
    have "W \<noteq> []" using that by auto
    then have "unat a < vhi (hd W)" using d(5) by simp
    moreover have "vhi (hd W) \<le> vlo q" using window_order(1) [OF ok [unfolded d(1)] that(1) ne] .
    ultimately show False using that(2) by (simp add: covers_nat)
  qed
  have "(r \<in> set rs \<and> covers r a) \<longleftrightarrow> W \<noteq> [] \<and> r = hd W \<and> covers (hd W) a"
    using outA outB only [of r] hd_in_set [of W] by (auto simp: d(1))
  then show ?thesis
    unfolding fc using W by auto
qed

lemma covers_unique:
  "vr_ok rs \<Longrightarrow> q \<in> set rs \<Longrightarrow> r \<in> set rs \<Longrightarrow> covers q a \<Longrightarrow> covers r a \<Longrightarrow> q = r"
proof (induction rs)
  case (Cons x rs)
  have "\<not> covers y a" if "covers x a" "y \<in> set rs" for y
    using that Cons.prems(1) by (force simp: vr_ok_Cons covers_nat)
  then show ?case using Cons by (auto simp: vr_ok_Cons)
qed simp

definition kind_at :: "vrange list \<Rightarrow> u64 \<Rightarrow> vrange_type option" where
  "kind_at rs a = map_option page_type (vr_at rs a)"

lemma kind_at_Some:
  assumes "vr_ok rs"
  shows "kind_at rs a = Some t \<longleftrightarrow> (\<exists>r\<in>set rs. covers r a \<and> r_type r = t)"
proof
  assume "kind_at rs a = Some t"
  then obtain v where v: "vr_at rs a = Some v" "page_type v = t" by (auto simp: kind_at_def)
  obtain r where "r \<in> set rs" "covers r a" "view_at r a = v" using vr_at_Some_mem [OF v(1)] by blast
  then show "\<exists>r\<in>set rs. covers r a \<and> r_type r = t" using v(2) by (metis page_type_view)
next
  assume "\<exists>r\<in>set rs. covers r a \<and> r_type r = t"
  then obtain r where "r \<in> set rs" "covers r a" "r_type r = t" by blast
  then have "vr_at rs a = Some (view_at r a)" using vr_at_Some [OF assms] by blast
  then show "kind_at rs a = Some t" using \<open>r_type r = t\<close> by (simp add: kind_at_def)
qed

lemma reserved_span_loop_spec:
  assumes "vr_ok rs"
  shows "fst (reserved_span_loop rs t s e c out) \<longleftrightarrow>
    (\<forall>a. unat c \<le> unat a \<and> unat a < unat e \<longrightarrow> kind_at rs a = Some t)"
  using assms
proof (induction rs t s e c out rule: reserved_span_loop.induct)
  case (1 rs t s e c out)
  note ok = "1.prems"
  show ?case
  proof (cases "c < e")
    case False
    then show ?thesis by (subst reserved_span_loop.simps) (auto simp: less_u64)
  next
    case True
    show ?thesis
    proof (cases "FindContainingUnlocked rs c t")
      case None
      then have "kind_at rs c \<noteq> Some t"
        using FindContaining_spec [OF ok] kind_at_Some [OF ok] by (metis option.distinct(1))
      then show ?thesis using True None
        by (subst reserved_span_loop.simps) (auto simp: less_u64)
    next
      case (Some r)
      then have r: "r \<in> set rs" "covers r c" "r_type r = t" using FindContaining_spec [OF ok] by auto
      have e: "unat (r_end r) = vhi r" using vr_ok_mem [OF ok r(1)] unat_r_end by blast
      have in_r: "kind_at rs a = Some t" if "unat c \<le> unat a" "unat a < vhi r" for a
        unfolding kind_at_Some [OF ok] covers_nat using r that by (intro bexI [of _ r]) (auto simp: covers_nat)
      let ?K = "\<lambda>a. kind_at rs a = Some t"
      have "fst (reserved_span_loop rs t s e c out) \<longleftrightarrow>
          (\<forall>a. unat (min e (r_end r)) \<le> unat a \<and> unat a < unat e \<longrightarrow> ?K a)"
        using "1.IH" [OF True Some ok] True Some by (subst reserved_span_loop.simps) simp
      also have "\<dots> \<longleftrightarrow> (\<forall>a. unat c \<le> unat a \<and> unat a < unat e \<longrightarrow> ?K a)"
      proof
        assume rest: "\<forall>a. unat (min e (r_end r)) \<le> unat a \<and> unat a < unat e \<longrightarrow> ?K a"
        show "\<forall>a. unat c \<le> unat a \<and> unat a < unat e \<longrightarrow> ?K a"
        proof (intro allI impI)
          fix a :: u64 assume "unat c \<le> unat a \<and> unat a < unat e"
          then show "?K a" using rest in_r [of a] e by (cases "unat a < vhi r") (auto simp: unat_min_u64)
        qed
      qed (use True r(2) e in \<open>auto simp: unat_min_u64 less_u64 covers_nat\<close>)
      finally show ?thesis .
    qed
  qed
qed

text \<open>
  \<open>ConsumeReservedSpan\<close> succeeds exactly when every address of a non-empty request belongs
  to a range of the asked kind, over any number of ranges; it then removes the request, and
  leaves the map alone otherwise.
\<close>

lemma ConsumeReservedSpan_spec:
  assumes ok: "vr_ok (m_ranges v)" and run: "VirtualRanges_ConsumeReservedSpan s n t v = ((b, first), v')"
  shows "(b \<longleftrightarrow> n \<noteq> 0 \<and> (\<forall>a. in_request s n a \<longrightarrow> kind_at (m_ranges v) a = Some t)) \<and>
    vr_ok (m_ranges v') \<and> (vr_merged (m_ranges v) \<longrightarrow> vr_merged (m_ranges v')) \<and>
    (\<forall>a. vr_at (m_ranges v') a = (if b \<and> in_request s n a then None else vr_at (m_ranges v) a))"
proof (cases "n = 0")
  case True
  then have "\<not> b \<and> m_ranges v' = m_ranges v"
    using arg_cong [OF run, of "\<lambda>p. m_ranges (snd p)"] arg_cong [OF run, of "\<lambda>p. fst (fst p)"]
    by (simp add: VirtualRanges_ConsumeReservedSpan_def mutate_sel)
  then show ?thesis using True ok by simp
next
  case False
  obtain b1 f1 where l: "reserved_span_loop (m_ranges v) t s (sat_end s n) s None = (b1, f1)" by fastforce
  have b: "b = b1" and r: "m_ranges v' = (if b1 then snd (RemoveUnlocked s n (m_ranges v)) else m_ranges v)"
    using arg_cong [OF run, of "\<lambda>p. m_ranges (snd p)"] arg_cong [OF run, of "\<lambda>p. fst (fst p)"] False l
    by (cases b1; simp add: VirtualRanges_ConsumeReservedSpan_def mutate_sel)+
  have "b \<longleftrightarrow> (\<forall>a. in_request s n a \<longrightarrow> kind_at (m_ranges v) a = Some t)"
    using reserved_span_loop_spec [OF ok, of t s "sat_end s n" s None] l b by (simp add: in_request_def)
  moreover obtain b2 rs2 where rm: "RemoveUnlocked s n (m_ranges v) = (b2, rs2)" by fastforce
  ultimately show ?thesis using RemoveUnlocked_spec(1-3) [OF ok rm] r b False ok by auto
qed

text \<open>
  \<open>ConsumeReserved\<close> succeeds exactly when one range of the asked kind contains the whole
  request, and then removes the request.
\<close>

lemma ConsumeReserved_spec:
  assumes ok: "vr_ok (m_ranges v)" and run: "VirtualRanges_ConsumeReserved s n t v = (b, v')"
  shows "(b \<longleftrightarrow> (\<exists>r\<in>set (m_ranges v). r_type r = t \<and> covers r s \<and> (\<forall>a. in_request s n a \<longrightarrow> covers r a))) \<and>
    vr_ok (m_ranges v') \<and> (vr_merged (m_ranges v) \<longrightarrow> vr_merged (m_ranges v')) \<and>
    (\<forall>a. vr_at (m_ranges v') a = (if b \<and> in_request s n a then None else vr_at (m_ranges v) a))"
proof -
  let ?rs = "m_ranges v"
  have whole: "(\<forall>a. in_request s n a \<longrightarrow> covers r a) \<longleftrightarrow> sat_end s n \<le> r_end r"
    if "r \<in> set ?rs" "covers r s" for r
  proof -
    have e: "unat (r_end r) = vhi r" using vr_ok_mem [OF ok that(1)] unat_r_end by blast
    show ?thesis
    proof
      assume all: "\<forall>a. in_request s n a \<longrightarrow> covers r a"
      show "sat_end s n \<le> r_end r"
      proof (rule ccontr)
        assume "\<not> sat_end s n \<le> r_end r"
        then have "in_request s n (r_end r)" using that(2) e by (auto simp: in_request_def le_u64 covers_nat)
        then show False using all e by (auto simp: covers_nat)
      qed
    qed (use that(2) e in \<open>auto simp: in_request_def le_u64 covers_nat\<close>)
  qed
  note one = covers_unique [OF ok]
  show ?thesis
  proof (cases "FindContainingUnlocked ?rs s t")
    case None
    then have "\<not> b \<and> m_ranges v' = ?rs"
      using arg_cong [OF run, of "\<lambda>p. m_ranges (snd p)"] arg_cong [OF run, of fst]
      by (simp add: VirtualRanges_ConsumeReserved_def mutate_sel)
    moreover have "\<not> (\<exists>r\<in>set ?rs. r_type r = t \<and> covers r s)"
      using None FindContaining_spec [OF ok, of s t] by auto
    ultimately show ?thesis using ok by auto
  next
    case (Some r)
    then have r: "r \<in> set ?rs" "covers r s" "r_type r = t" using FindContaining_spec [OF ok] by auto
    have b: "b \<longleftrightarrow> sat_end s n \<le> r_end r"
      and v': "m_ranges v' = (if b then snd (RemoveUnlocked s n ?rs) else ?rs)"
      using arg_cong [OF run, of "\<lambda>p. m_ranges (snd p)"] arg_cong [OF run, of fst] Some
      by (auto simp: VirtualRanges_ConsumeReserved_def mutate_sel split: if_splits)
    obtain b2 rs2 where rm: "RemoveUnlocked s n ?rs = (b2, rs2)" by fastforce
    have "b \<longleftrightarrow> (\<exists>r\<in>set ?rs. r_type r = t \<and> covers r s \<and> (\<forall>a. in_request s n a \<longrightarrow> covers r a))"
      using b whole [OF r(1,2)] r one [OF _ r(1) _ r(2)] by blast
    then show ?thesis using RemoveUnlocked_spec(1-3) [OF ok rm] rm v' ok by auto
  qed
qed

end
