(* ===== verification/VirtualRangesQueries.thy ===== *)
theory VirtualRangesQueries
  imports VirtualRangesOps
begin

text \<open>
  The queries of \<open>VirtualRanges\<close>: containment, spans, and the committed parts of a span.
\<close>

subsection \<open>Where a scan starts\<close>

lemma UpperBound_split:
  assumes "vr_ok rs"
  obtains A B where "rs = A @ B" and "UpperBound rs a = length A"
    and "\<forall>r\<in>set A. vlo r \<le> unat a" and "\<forall>r\<in>set B. unat a < vlo r"
proof -
  have lt: "sorted_wrt (\<lambda>a b. r_start a < r_start b) rs"
    using iv_ok_lo_less [of vlo vhi rs] assms by (simp add: vr_ok_def less_u64)
  show ?thesis
    using that [of "takeWhile (\<lambda>r. r_start r \<le> a) rs" "dropWhile (\<lambda>r. r_start r \<le> a) rs"]
      takeWhile_sorted_split(1) [OF lt, of a]
    by (auto simp: UpperBound_def less_u64 le_u64 dest: takeWhile_all)
qed

lemma last_before:
  assumes "vr_ok (A @ B)" and "\<forall>r\<in>set A. vlo r \<le> unat a" and "r \<in> set (butlast A)"
  shows "vhi r \<le> unat a"
  using assms by (cases A rule: rev_cases) (force simp: vr_ok_append vr_ok_Cons)+

lemma scan_from_split:
  assumes "vr_ok rs"
  obtains A where "rs = A @ scan_from rs a" and "\<forall>r\<in>set A. vhi r \<le> unat a"
proof -
  obtain A B where d: "rs = A @ B" "UpperBound rs a = length A"
      "\<forall>r\<in>set A. vlo r \<le> unat a" "\<forall>r\<in>set B. unat a < vlo r"
    using UpperBound_split [OF assms] by metis
  show ?thesis
  proof (cases A rule: rev_cases)
    case Nil
    then show ?thesis using that [of "[]"] d by (simp add: scan_from_def)
  next
    case (snoc A' p)
    have "scan_from rs a = p # B" unfolding scan_from_def Let_def d(2) by (simp add: d(1) snoc)
    then show ?thesis
      using that [of A'] last_before [of A B a] d snoc assms by auto
  qed
qed

lemma scan_from_at:
  assumes "vr_ok rs" and "unat a \<le> unat x"
  shows "vr_at (scan_from rs a) x = vr_at rs x" and "vr_ok (scan_from rs a)"
proof -
  obtain A where A: "rs = A @ scan_from rs a" "\<forall>r\<in>set A. vhi r \<le> unat a"
    using scan_from_split [OF assms(1)] by metis
  have "vr_at A x = None" using A(2) assms(2) by (force simp: vr_at_None covers_nat)
  then show "vr_at (scan_from rs a) x = vr_at rs x" using A(1) by (metis option.simps(4) vr_at_append)
  show "vr_ok (scan_from rs a)" using assms(1) A(1) by (metis vr_ok_append)
qed

subsection \<open>Point and overlap queries\<close>

lemma HasOverlap_spec:
  assumes "vr_ok (m_ranges v)"
  shows "VirtualRanges_HasOverlap v s n \<longleftrightarrow> n \<noteq> 0 \<and> (\<exists>a. in_request s n a \<and> vr_at (m_ranges v) a \<noteq> None)"
proof (cases "n = 0")
  case True
  then show ?thesis by (simp add: VirtualRanges_HasOverlap_def FindOverlap_def VirtualRangesOverlap_eq Let_def)
next
  case False
  then show ?thesis
    using FindOverlap_spec(2) [OF assms False, of s] meets_vr_at [OF assms False, of s]
    by (auto simp: VirtualRanges_HasOverlap_def)
qed

text \<open>\<open>Query\<close> returns the range that contains the address, or with flag 1 the next one above it.\<close>

lemma Query_spec:
  assumes ok: "vr_ok (m_ranges v)"
  shows "VirtualRanges_Query v a flags =
    (case find (\<lambda>r. covers r a) (m_ranges v) of
       Some r \<Rightarrow> Some r
     | None \<Rightarrow> if flags = 1 then find (\<lambda>r. unat a < vlo r) (m_ranges v) else None)"
proof -
  obtain A B where d: "m_ranges v = A @ B" "UpperBound (m_ranges v) a = length A"
      "\<forall>r\<in>set A. vlo r \<le> unat a" "\<forall>r\<in>set B. unat a < vlo r"
    using UpperBound_split [OF ok] by metis
  have outB: "find (\<lambda>r. covers r a) B = None"
    using d(4) by (force simp: find_None_iff covers_nat)
  have f_app: "find P (xs @ ys) = (case find P xs of None \<Rightarrow> find P ys | Some x \<Rightarrow> Some x)" for P and xs ys :: "vrange list"
    by (induction xs) auto
  have nextB: "find (\<lambda>r. unat a < vlo r) B = (if B = [] then None else Some (hd B))"
    using d(4) by (cases B) auto
  show ?thesis
  proof (cases A rule: rev_cases)
    case Nil
    then show ?thesis unfolding VirtualRanges_Query_def Let_def d(2)
      using outB nextB by (auto simp: d(1) hd_conv_nth)
  next
    case (snoc A' p)
    have p: "r_fits p" using ok d(1) snoc by (simp add: vr_ok_append vr_ok_Cons)
    have "find (\<lambda>r. covers r a) A' = None"
      using last_before [of A B a] ok d(1,3) snoc by (force simp: find_None_iff covers_nat)
    moreover have "covers p a \<longleftrightarrow> a < r_end p"
      using d(3) snoc unat_r_end [OF p] by (auto simp: covers_nat less_u64)
    moreover have nextA': "find (\<lambda>r. unat a < vlo r) A' = None" "\<not> unat a < vlo p"
      using d(3) snoc by (force simp: find_None_iff)+
    ultimately show ?thesis unfolding VirtualRanges_Query_def Let_def d(2)
      using outB nextB nextA' snoc
      by (auto simp: d(1) f_app nth_append hd_conv_nth)
  qed
qed

subsection \<open>Span queries\<close>

lemma query_span_loop_spec:
  assumes "vr_ok rs" and "unat c < unat e"
  shows "case query_span_loop e c out rs of
      None \<Rightarrow> \<exists>a. unat c \<le> unat a \<and> unat a < unat e \<and> vr_at rs a = None
    | Some parts \<Rightarrow> \<exists>ps. parts = out @ ps \<and> vr_ok ps \<and>
        (\<forall>p\<in>set ps. unat c \<le> vlo p \<and> vhi p \<le> unat e) \<and>
        (\<forall>a. vr_at ps a = (if unat c \<le> unat a \<and> unat a < unat e then vr_at rs a else None)) \<and>
        (\<forall>a. unat c \<le> unat a \<and> unat a < unat e \<longrightarrow> vr_at rs a \<noteq> None)"
  using assms
proof (induction rs arbitrary: c out)
  case Nil
  then show ?case by auto
next
  case (Cons r rs)
  have r: "vlo r < vhi r" "r_fits r" "\<forall>q\<in>set rs. vhi r \<le> vlo q" "vr_ok rs"
    using Cons.prems(1) by (auto simp: vr_ok_Cons)
  have re: "unat (r_end r) = vhi r" by (rule unat_r_end [OF r(2)])
  consider (skip) "vhi r \<le> unat c" | (gap) "unat c < vlo r" | (hit) "vlo r \<le> unat c" "unat c < vhi r"
    by linarith
  then show ?case
  proof cases
    case skip
    have "vr_at (r # rs) a = vr_at rs a" if "unat c \<le> unat a" for a
      using that skip by (auto simp: covers_nat)
    then show ?thesis
      using Cons.IH [OF r(4) Cons.prems(2), of out] skip re
      by (auto simp: le_u64 Let_def simp del: vr_at_simps split: option.splits)
  next
    case gap
    have "vr_at (r # rs) c = None" using gap r by (force simp: vr_at_None covers_nat)
    then show ?thesis using gap Cons.prems(2) re r(1)
      by (auto simp: le_u64 less_u64 simp del: vr_at_simps intro!: exI [of _ c])
  next
    case hit
    let ?m = "min e (r_end r)"
    define p where "p = piece_of r c ?m"
    have m: "unat ?m = min (unat e) (vhi r)" by (simp add: unat_min_u64 re)
    have cm: "c + (?m - c) = ?m" by simp
    have step: "query_span_loop e c out (r # rs) =
        (if ?m = e then Some (out @ [p]) else query_span_loop e ?m (out @ [p]) rs)"
      using hit re by (simp add: Let_def le_u64 less_u64 piece_of_def p_def)
    have pb: "vhi p = unat ?m" "r_fits p" "vlo p = unat c"
      using piece_bounds [of c ?m r] m hit Cons.prems(2) by (auto simp: p_def)
    have pv: "view_at p a = view_at r a" for a by (simp add: p_def)
    have pc: "covers p a \<longleftrightarrow> unat c \<le> unat a \<and> unat a < unat ?m" for a
      using pb by (simp add: covers_nat)
    have in_r: "vr_at (r # rs) a = Some (view_at r a)" if "covers p a" for a
      using that pc [of a] m hit by (auto simp: covers_nat)
    show ?thesis
    proof (cases "?m = e")
      case True
      have one: "vr_at [p] a = (if covers p a then Some (view_at r a) else None)" for a
        by (simp add: pv)
      have "vr_ok [p]" using pb hit m Cons.prems(2) by (simp add: vr_ok_Cons)
      moreover have "vr_at [p] a = (if unat c \<le> unat a \<and> unat a < unat e then vr_at (r # rs) a else None)" for a
        using in_r [of a] pv [of a] unfolding one pc True by (simp del: vr_at_simps)
      moreover have "vr_at (r # rs) a \<noteq> None" if "unat c \<le> unat a \<and> unat a < unat e" for a
        using in_r [of a] pc [of a] True that by simp
      moreover have "query_span_loop e c out (r # rs) = Some (out @ [p])" by (rule step [unfolded if_P [OF True]])
      moreover have "\<forall>q\<in>set [p]. unat c \<le> vlo q \<and> vhi q \<le> unat e" using pb True by simp
      ultimately show ?thesis by (simp only: option.case) blast
    next
      case False
      then have ne: "\<not> e \<le> r_end r" by (auto simp: min_def)
      then have me: "?m = r_end r" "vhi r < unat e" using re by (simp_all add: min_def le_u64)
      have "unat ?m < unat e" using me re by simp
      note ih = Cons.IH [OF r(4) this, of "out @ [p]"]
      have rest: "vr_at (r # rs) a = vr_at rs a" if "unat ?m \<le> unat a" for a
        using that me re by (auto simp: covers_nat)
      show ?thesis
      proof (cases "query_span_loop e ?m (out @ [p]) rs")
        case None
        then obtain x where x: "unat ?m \<le> unat x" "unat x < unat e" "vr_at rs x = None"
          using ih by auto
        then have "vr_at (r # rs) x = None" and "unat c \<le> unat x" using rest [of x] m hit by simp_all
        moreover have "query_span_loop e c out (r # rs) = None"
          by (simp only: step if_not_P [OF False] None)
        ultimately show ?thesis using x(2) by (simp only: option.case) blast
      next
        case (Some parts)
        then obtain ps where ps: "parts = out @ p # ps" "vr_ok ps"
            "\<forall>p\<in>set ps. unat ?m \<le> vlo p \<and> vhi p \<le> unat e"
            "\<And>a. vr_at ps a = (if unat ?m \<le> unat a \<and> unat a < unat e then vr_at rs a else None)"
            "\<And>a. unat ?m \<le> unat a \<and> unat a < unat e \<Longrightarrow> vr_at rs a \<noteq> None"
          using ih by auto
        have mc: "unat c < unat ?m" using m hit Cons.prems(2) by simp
        have "vr_ok (p # ps)" using ps(2,3) pb mc by (auto simp: vr_ok_Cons)
        moreover have "\<forall>q\<in>set (p # ps). unat c \<le> vlo q \<and> vhi q \<le> unat e"
          using ps(3) pb mc \<open>unat ?m < unat e\<close> by auto
        moreover have "vr_at (p # ps) a = (if unat c \<le> unat a \<and> unat a < unat e then vr_at (r # rs) a else None)" for a
          using pc [of a] in_r [of a] ps(4) [of a] rest [of a] mc \<open>unat ?m < unat e\<close>
          by (cases "covers p a") (auto simp del: vr_at_simps simp: vr_at_simps(2) [of p] pv)
        moreover have "vr_at (r # rs) a \<noteq> None" if "unat c \<le> unat a \<and> unat a < unat e" for a
          using pc [of a] in_r [of a] ps(5) [of a] rest [of a] that by (cases "covers p a") (auto simp del: vr_at_simps)
        ultimately show ?thesis using Some step False ps(1) by (auto simp del: vr_at_simps)
      qed
    qed
  qed
qed

lemma QuerySpan_spec:
  assumes ok: "vr_ok (m_ranges v)"
  shows "(VirtualRanges_QuerySpan v s n \<noteq> None \<longleftrightarrow>
      s \<noteq> 0 \<and> n \<noteq> 0 \<and> fits s n \<and> (\<forall>a. in_span s n a \<longrightarrow> vr_at (m_ranges v) a \<noteq> None)) \<and>
    (\<forall>parts. VirtualRanges_QuerySpan v s n = Some parts \<longrightarrow> vr_ok parts \<and>
      (\<forall>a. vr_at parts a = (if in_span s n a then vr_at (m_ranges v) a else None)))"
proof (cases "s = 0 \<or> n = 0 \<or> u64_max - s < n")
  case True
  then have "s = 0 \<or> n = 0 \<or> \<not> fits s n"
    using unat_minus_u64 [of s u64_max] unat_u64_le [of s] by (auto simp: less_u64 fits_def)
  then show ?thesis using True by (auto simp: VirtualRanges_QuerySpan_def)
next
  case False
  then have fit: "fits s n" and pos: "0 < unat n"
    using unat_minus_u64 [of s u64_max] unat_u64_le [of s] by (auto simp: less_u64 fits_def neq0_u64)
  have e: "unat (s + n) = unat s + unat n" using fits_end [OF fit] by simp
  have span: "in_span s n a \<longleftrightarrow> unat s \<le> unat a \<and> unat a < unat (s + n)" for a
    by (simp add: in_span_def e)
  note at = scan_from_at(1) [OF ok, of s] scan_from_at(2) [OF ok order_refl, of s]
  have "unat s < unat (s + n)" using e pos by simp
  from query_span_loop_spec [OF at(2) this, of "[]"] at(1) False fit
  show ?thesis unfolding span
    by (auto simp: VirtualRanges_QuerySpan_def split: option.splits)
qed

subsection \<open>Committed parts\<close>

definition committed_at :: "vrange list \<Rightarrow> u64 \<Rightarrow> bool" where
  "committed_at rs a \<longleftrightarrow> (case kind_at rs a of Some t \<Rightarrow> IsCommittedRangeType t | None \<Rightarrow> False)"

lemma committed_at_simps [simp]:
  "\<not> committed_at [] a"
  "committed_at (r # rs) a \<longleftrightarrow> (if covers r a then IsCommittedRangeType (r_type r) else committed_at rs a)"
  by (simp_all add: committed_at_def kind_at_def)

definition private_at :: "vrange list \<Rightarrow> u64 \<Rightarrow> bool" where
  "private_at rs a \<longleftrightarrow> (case kind_at rs a of Some t \<Rightarrow> IsPrivateCommittedRangeType t | None \<Rightarrow> False)"

lemma private_at_simps [simp]:
  "\<not> private_at [] a"
  "private_at (r # rs) a \<longleftrightarrow> (if covers r a then IsPrivateCommittedRangeType (r_type r) else private_at rs a)"
  by (simp_all add: private_at_def kind_at_def)

lemma private_committed: "IsPrivateCommittedRangeType t \<Longrightarrow> IsCommittedRangeType t"
  by (auto simp: IsPrivateCommittedRangeType_def IsCommittedRangeType_def IsReservedRangeType_def)

abbreviation plo :: "part \<Rightarrow> nat" where "plo p \<equiv> unat (p_address p)"
abbreviation phi :: "part \<Rightarrow> nat" where "phi p \<equiv> unat (p_address p) + unat (p_size p)"

text \<open>The parts that hold an address, with their flag; and two adjacent parts of one flag merge.\<close>

definition part_at :: "part list \<Rightarrow> u64 \<Rightarrow> bool \<Rightarrow> bool" where
  "part_at ps a priv \<longleftrightarrow> (\<exists>p\<in>set ps. plo p \<le> unat a \<and> unat a < phi p \<and> p_private p = priv)"

definition parts_ok :: "part list \<Rightarrow> bool" where
  "parts_ok ps \<longleftrightarrow> iv_ok plo phi ps \<and> (\<forall>p\<in>set ps. fits (p_address p) (p_size p)) \<and>
     successively (\<lambda>p q. phi p = plo q \<longrightarrow> p_private p \<noteq> p_private q) ps"

lemma part_at_append: "part_at (ps @ qs) a b \<longleftrightarrow> part_at ps a b \<or> part_at qs a b"
  by (auto simp: part_at_def)

text \<open>Appending a part after the others, merged with the last one where they touch.\<close>

definition push_part :: "part list \<Rightarrow> u64 \<Rightarrow> u64 \<Rightarrow> bool \<Rightarrow> part list" where
  "push_part out begin_addr finish private_memory =
     (if out \<noteq> [] \<and> p_address (last out) + p_size (last out) = begin_addr \<and>
         p_private (last out) = private_memory
      then butlast out @ [(last out)\<lparr>p_size := p_size (last out) + (finish - begin_addr)\<rparr>]
      else out @ [\<lparr>p_address = begin_addr, p_size = finish - begin_addr, p_private = private_memory\<rparr>])"

lemma push_part_spec:
  assumes ok: "parts_ok out" and b: "\<forall>p\<in>set out. phi p \<le> unat b" and f: "unat b < unat f"
  shows "parts_ok (push_part out b f pr)" and "\<forall>p\<in>set (push_part out b f pr). phi p \<le> unat f"
    and "part_at (push_part out b f pr) a x \<longleftrightarrow>
      part_at out a x \<or> unat b \<le> unat a \<and> unat a < unat f \<and> x = pr"
proof -
  let ?R = "parts_ok (push_part out b f pr) \<and> (\<forall>p\<in>set (push_part out b f pr). phi p \<le> unat f) \<and>
    (part_at (push_part out b f pr) a x \<longleftrightarrow> part_at out a x \<or> unat b \<le> unat a \<and> unat a < unat f \<and> x = pr)"
  have sz: "unat (f - b) = unat f - unat b" using f by (simp add: unat_minus_u64)
  have fb: "fits b (f - b)" using sz f unat_u64_lt [of f] by (simp add: fits_def)
  have ?R
  proof (cases "out \<noteq> [] \<and> p_address (last out) + p_size (last out) = b \<and> p_private (last out) = pr")
    case False
    have "iv_ok plo phi out" using ok by (simp add: parts_ok_def)
    moreover have "phi (last out) = unat b \<Longrightarrow> out \<noteq> [] \<Longrightarrow> p_private (last out) \<noteq> pr"
    proof -
      assume e: "phi (last out) = unat b" and ne: "out \<noteq> []"
      then have "fits (p_address (last out)) (p_size (last out))" using ok by (simp add: parts_ok_def)
      then have "p_address (last out) + p_size (last out) = b" using e by (simp add: eq_u64 unat_end)
      then show ?thesis using False ne by simp
    qed
    ultimately have "parts_ok (push_part out b f pr)"
      using False ok b sz f fb
      by (auto simp: push_part_def parts_ok_def iv_ok_append iv_ok_Cons successively_append_iff)
    then show ?thesis using False b f sz by (auto simp: push_part_def part_at_def)
  next
    case True
    then obtain ps p where out: "out = ps @ [p]" by (metis append_butlast_last_id)
    let ?q = "p\<lparr>p_size := p_size p + (f - b)\<rparr>"
    have p: "fits (p_address p) (p_size p)" "p_address p + p_size p = b" "p_private p = pr" "plo p < phi p"
      using True ok out by (auto simp: parts_ok_def iv_ok_append iv_ok_Cons)
    then have e: "phi p = unat b" using fits_end by metis
    have "unat (p_size p) + unat (f - b) < 18446744073709551616"
      using e sz f unat_u64_lt [of f] by simp
    then have q: "phi ?q = unat f" using e sz f by (simp add: unat_plus_u64)
    have new: "push_part out b f pr = ps @ [?q]" using True out by (simp add: push_part_def)
    have "fits (p_address ?q) (p_size ?q)" using q unat_u64_lt [of f] by (simp add: fits_def)
    then have "parts_ok (ps @ [?q])"
      using ok out q p e f by (auto simp: parts_ok_def iv_ok_append iv_ok_Cons successively_append_iff)
    moreover have "part_at (ps @ [?q]) a x \<longleftrightarrow> part_at out a x \<or> unat b \<le> unat a \<and> unat a < unat f \<and> x = pr"
      unfolding out part_at_append using q p e f by (auto simp: part_at_def)
    ultimately show ?thesis using new q b out f by auto
  qed
  then show "parts_ok (push_part out b f pr)" and "\<forall>p\<in>set (push_part out b f pr). phi p \<le> unat f"
    and "part_at (push_part out b f pr) a x \<longleftrightarrow> part_at out a x \<or> unat b \<le> unat a \<and> unat a < unat f \<and> x = pr"
    by auto
qed

lemma committed_parts_loop_spec:
  assumes "vr_ok rs" and "parts_ok out" and "unat va < unat e"
    and "\<forall>p\<in>set out. \<forall>r\<in>set rs. phi p \<le> vlo r"
  shows "parts_ok (committed_parts_loop va e out rs) \<and>
    (part_at (committed_parts_loop va e out rs) a x \<longleftrightarrow>
      part_at out a x \<or> unat va \<le> unat a \<and> unat a < unat e \<and> committed_at rs a \<and> private_at rs a = x)"
  using assms
proof (induction rs arbitrary: out)
  case Nil
  then show ?case by simp
next
  case (Cons r rs)
  have r: "vlo r < vhi r" "r_fits r" "\<forall>q\<in>set rs. vhi r \<le> vlo q" "vr_ok rs"
    using Cons.prems(1) by (auto simp: vr_ok_Cons)
  have re: "unat (r_end r) = vhi r" by (rule unat_r_end [OF r(2)])
  consider (stop) "unat e \<le> vlo r"
    | (skip) "vlo r < unat e" "vhi r \<le> unat va \<or> \<not> IsCommittedRangeType (r_type r)"
    | (take) "vlo r < unat e" "unat va < vhi r" "IsCommittedRangeType (r_type r)" by linarith
  then show ?case
  proof cases
    case stop
    have "\<not> covers q a" if "unat a < unat e" "q \<in> set (r # rs)" for q
      using that stop r by (force simp: covers_nat)
    then have "\<not> committed_at (r # rs) a" if "unat a < unat e"
      using that vr_at_None [of "r # rs" a] by (simp add: committed_at_def kind_at_def del: vr_at_simps)
    then show ?thesis using stop Cons.prems(2) by (auto simp: le_u64)
  next
    case skip
    have "unat va \<le> unat a \<Longrightarrow> committed_at (r # rs) a \<and> private_at (r # rs) a = x \<longleftrightarrow>
        committed_at rs a \<and> private_at rs a = x"
    proof -
      have "\<not> committed_at rs a" if "covers r a"
      proof -
        have "\<forall>q\<in>set rs. \<not> covers q a" using that r by (force simp: covers_nat)
        then show ?thesis by (simp add: committed_at_def kind_at_def flip: vr_at_None)
      qed
      then show "unat va \<le> unat a \<Longrightarrow> ?thesis"
        using skip by (auto simp: covers_nat)
    qed
    moreover have "committed_parts_loop va e out (r # rs) = committed_parts_loop va e out rs"
      using skip re by (auto simp: le_u64 Let_def)
    ultimately show ?thesis using Cons.IH [OF r(4) Cons.prems(2,3)] Cons.prems(4) by auto
  next
    case take
    let ?b = "max (r_start r) va" and ?f = "min (r_end r) e"
    have bf: "unat ?b = max (vlo r) (unat va)" "unat ?f = min (vhi r) (unat e)"
      by (simp_all add: unat_max_u64 unat_min_u64 re)
    define out' where "out' = push_part out ?b ?f (IsPrivateCommittedRangeType (r_type r))"
    have step: "committed_parts_loop va e out (r # rs) = committed_parts_loop va e out' rs"
      using take re by (simp add: le_u64 Let_def push_part_def out'_def)
    have lt: "unat ?b < unat ?f" using take r(1) bf Cons.prems(3) by simp
    have "\<forall>p\<in>set out. phi p \<le> unat ?b" using Cons.prems(4) bf by auto
    note push = push_part_spec [OF Cons.prems(2) this lt, of "IsPrivateCommittedRangeType (r_type r)",
        folded out'_def]
    have "\<forall>p\<in>set out'. \<forall>q\<in>set rs. phi p \<le> vlo q"
    proof (intro ballI)
      fix p q assume "p \<in> set out'" "q \<in> set rs"
      then have "phi p \<le> unat ?f" "vhi r \<le> vlo q" using push(2) r(3) by blast+
      then show "phi p \<le> vlo q" using bf by linarith
    qed
    note ih = Cons.IH [OF r(4) push(1) Cons.prems(3) this]
    have "\<not> committed_at rs a" if "covers r a"
    proof -
      have "\<forall>q\<in>set rs. \<not> covers q a" using that r by (force simp: covers_nat)
      then show ?thesis by (simp add: committed_at_def kind_at_def flip: vr_at_None)
    qed
    then show ?thesis
      unfolding step using ih push(3) bf take(3) by (auto simp: covers_nat)
  qed
qed

lemma fits_u64: "\<not> u64_max - s < n \<longleftrightarrow> fits s n"
  using unat_minus_u64 [of s u64_max] unat_u64_le [of s] by (auto simp: less_u64 fits_def)

lemma CommittedParts_spec:
  assumes ok: "vr_ok (m_ranges v)"
  shows "parts_ok (VirtualRanges_CommittedParts v s n) \<and>
    (part_at (VirtualRanges_CommittedParts v s n) a x \<longleftrightarrow>
      fits s n \<and> in_span s n a \<and> committed_at (m_ranges v) a \<and> private_at (m_ranges v) a = x)"
proof (cases "n = 0 \<or> u64_max - s < n")
  case True
  then have "\<not> (fits s n \<and> in_span s n a)" using fits_u64 [of s n] by (auto simp: in_span_def)
  with True show ?thesis by (auto simp: VirtualRanges_CommittedParts_def part_at_def parts_ok_def)
next
  case False
  then have fit: "fits s n" and pos: "0 < unat n" using fits_u64 [of s n] by (auto simp: neq0_u64)
  have e: "unat (s + n) = unat s + unat n" using fits_end [OF fit] by simp
  have "unat s < unat (s + n)" using e pos by simp
  moreover have "parts_ok []" by (simp add: parts_ok_def)
  moreover note ok' = scan_from_at(2) [OF ok order_refl, of s]
  ultimately have "parts_ok (VirtualRanges_CommittedParts v s n) \<and>
    (part_at (VirtualRanges_CommittedParts v s n) a x \<longleftrightarrow>
      unat s \<le> unat a \<and> unat a < unat (s + n) \<and> committed_at (scan_from (m_ranges v) s) a \<and>
      private_at (scan_from (m_ranges v) s) a = x)"
    using committed_parts_loop_spec [OF ok', of "[]" s "s + n" a x] False
    by (simp add: VirtualRanges_CommittedParts_def part_at_def)
  moreover have "committed_at (scan_from (m_ranges v) s) a = committed_at (m_ranges v) a \<and>
      private_at (scan_from (m_ranges v) s) a = private_at (m_ranges v) a" if "unat s \<le> unat a"
    using scan_from_at(1) [OF ok that] by (simp add: committed_at_def private_at_def kind_at_def)
  ultimately show ?thesis using fit e by (auto simp: in_span_def)
qed

end
