(* ===== verification/VirtualRangesProps.thy ===== *)
theory VirtualRangesProps
  imports VirtualRangesQueries
begin

text \<open>
  The size clamp with its thread-local cache, the reachable states of a \<open>VirtualRanges\<close> object
  and its cache, and the properties of the component.
\<close>

subsection \<open>The size clamp\<close>

lemma committed_at_covers: "committed_at rs x \<Longrightarrow> \<exists>r\<in>set rs. covers r x"
  by (auto simp: committed_at_def kind_at_def split: option.splits dest: vr_at_Some_mem)

lemma committed_at_iff:
  "vr_ok rs \<Longrightarrow> committed_at rs x \<longleftrightarrow> (\<exists>r\<in>set rs. covers r x \<and> IsCommittedRangeType (r_type r))"
proof -
  assume ok: "vr_ok rs"
  have "committed_at rs x \<longleftrightarrow> (\<exists>t. kind_at rs x = Some t \<and> IsCommittedRangeType t)"
    by (auto simp: committed_at_def split: option.splits)
  then show ?thesis by (auto simp: kind_at_Some [OF ok])
qed

lemma clamp_loop_spec:
  assumes "vr_ok rs" and "unat cs \<le> unat n" and "unat va + unat n < 18446744073709551616"
    and "unat ex = unat va + unat cs" and "unat cs < unat n \<Longrightarrow> ex = ce" and "unat ex \<le> unat ce"
    and "\<forall>r\<in>set rs. unat ce \<le> vlo r" and "clamp_loop n ce cs ex rs = (cs', ce')"
  shows "unat cs \<le> unat cs' \<and> unat cs' \<le> unat n \<and> unat ce \<le> unat ce' \<and>
    unat va + unat cs' \<le> unat ce' \<and>
    (\<forall>x. unat ce \<le> unat x \<and> unat x < unat ce' \<longrightarrow> committed_at rs x) \<and>
    (cs' = n \<or> unat va + unat cs' = unat ce' \<and> \<not> committed_at rs ce')"
  using assms
proof (induction rs arbitrary: ce cs ex)
  case Nil
  then have "cs' = cs" "ce' = ce" by auto
  with Nil show ?case by (cases "unat cs < unat n") (auto simp: eq_u64)
next
  case (Cons r rs)
  have r: "vlo r < vhi r" "r_fits r" "\<forall>q\<in>set rs. vhi r \<le> vlo q" "vr_ok rs"
    using Cons.prems(1) by (auto simp: vr_ok_Cons)
  have re: "unat (r_end r) = vhi r" by (rule unat_r_end [OF r(2)])
  show ?case
  proof (cases "r_start r = ex \<and> IsCommittedRangeType (r_type r) \<and> cs < n")
    case False
    then have res: "cs' = cs" "ce' = ce" using Cons.prems(8) by (auto split: if_splits)
    have "\<not> committed_at (r # rs) ce" if "unat cs < unat n"
    proof -
      have "\<not> covers q ce" if "q \<in> set rs" for q using that r Cons.prems(7) by (force simp: covers_nat)
      then have "\<not> committed_at rs ce" using committed_at_covers by blast
      moreover have "covers r ce \<Longrightarrow> \<not> IsCommittedRangeType (r_type r)"
        using False that Cons.prems(5,7) by (auto simp: covers_nat eq_u64 less_u64)
      ultimately show ?thesis by simp
    qed
    then show ?thesis using res Cons.prems(2,4,5,6)
      by (cases "unat cs < unat n") (auto simp: eq_u64 [of cs n])
  next
    case True
    then have st: "r_start r = ex" "ex = ce" "unat cs < unat n" "IsCommittedRangeType (r_type r)"
      using Cons.prems(5) by (auto simp: less_u64)
    define chunk where "chunk = min (n - cs) (r_size r)"
    have ch: "unat chunk = min (unat n - unat cs) (unat (r_size r))"
      using st(3) by (simp add: chunk_def unat_min_u64 unat_minus_u64)
    have ncs: "unat (cs + chunk) = unat cs + unat chunk"
      using ch st(3) unat_u64_lt [of n] by (intro unat_plus_u64) linarith
    have nex: "unat (ex + chunk) = unat ex + unat chunk"
      using ch st(3) Cons.prems(3,4) by (intro unat_plus_u64) linarith
    have run: "clamp_loop n (r_end r) (cs + chunk) (ex + chunk) rs = (cs', ce')"
      using Cons.prems(8) True by (simp add: Let_def chunk_def)
    have "unat (cs + chunk) \<le> unat n" "unat (ex + chunk) = unat va + unat (cs + chunk)"
      "unat (ex + chunk) \<le> unat (r_end r)" "\<forall>q\<in>set rs. unat (r_end r) \<le> vlo q"
      using ncs nex ch st Cons.prems(4) re r(3) by auto
    moreover have "ex + chunk = r_end r" if "unat (cs + chunk) < unat n"
    proof -
      have "unat chunk = unat (r_size r)" using that ncs ch by linarith
      then have "unat (ex + chunk) = unat (r_end r)" using nex re by (simp flip: st(1))
      then show ?thesis by (simp add: eq_u64)
    qed
    ultimately have ih: "unat (cs + chunk) \<le> unat cs' \<and> unat cs' \<le> unat n \<and> unat (r_end r) \<le> unat ce' \<and>
        unat va + unat cs' \<le> unat ce' \<and>
        (\<forall>x. unat (r_end r) \<le> unat x \<and> unat x < unat ce' \<longrightarrow> committed_at rs x) \<and>
        (cs' = n \<or> unat va + unat cs' = unat ce' \<and> \<not> committed_at rs ce')"
      using Cons.IH [OF r(4) _ Cons.prems(3) _ _ _ _ run] by blast
    have cov: "covers r x \<longleftrightarrow> unat ce \<le> unat x \<and> unat x < unat (r_end r)" for x
      using st re by (simp add: covers_nat)
    have "committed_at (r # rs) x" if "unat ce \<le> unat x" "unat x < unat ce'" for x
      using that ih st(4) cov [of x] by (cases "covers r x") auto
    moreover have "committed_at (r # rs) ce' = committed_at rs ce'"
      using ih cov [of ce'] by simp
    ultimately show ?thesis using ih ncs re st r(1) by auto
  qed
qed

text \<open>How far a run of committed bytes from \<open>a\<close> goes within \<open>n\<close> bytes.\<close>

definition clamps_to :: "vrange list \<Rightarrow> u64 \<Rightarrow> u64 \<Rightarrow> u64 \<Rightarrow> bool" where
  "clamps_to rs a n c \<longleftrightarrow> unat c \<le> unat n \<and> (\<forall>x. in_span a c x \<longrightarrow> committed_at rs x) \<and>
     (c = n \<or> \<not> committed_at rs (a + c))"

lemma clamps_to_unique:
  assumes "fits a n" and "clamps_to rs a n c" and "clamps_to rs a n d"
  shows "c = d"
proof -
  have "\<not> unat c < unat d" if "clamps_to rs a n c" "clamps_to rs a n d" for c d
  proof
    assume less: "unat c < unat d"
    then have "c \<noteq> n" using that(2) by (auto simp: clamps_to_def)
    then have "\<not> committed_at rs (a + c)" using that(1) by (simp add: clamps_to_def)
    moreover have "unat (a + c) = unat a + unat c"
      using that(1) assms(1) by (intro unat_plus_u64) (simp add: clamps_to_def fits_def)
    then have "in_span a d (a + c)" using less by (simp add: in_span_def)
    ultimately show False using that(2) by (simp add: clamps_to_def)
  qed
  from this [OF assms(2,3)] this [OF assms(3,2)] show ?thesis by (simp add: eq_u64)
qed

lemma clamp_walk_spec:
  assumes ok: "vr_ok rs" and fit: "fits va n" and n: "n \<noteq> 0"
  shows "case clamp_walk rs va n of
      None \<Rightarrow> \<not> committed_at rs va
    | Some (c, b, e) \<Rightarrow> clamps_to rs va n c \<and>
        (\<forall>x. unat b \<le> unat x \<and> unat x < unat e \<longrightarrow> committed_at rs x)"
proof -
  obtain A B where d: "rs = A @ B" "UpperBound rs va = length A"
      "\<forall>r\<in>set A. vlo r \<le> unat va" "\<forall>r\<in>set B. unat va < vlo r"
    using UpperBound_split [OF ok] by metis
  have outB: "\<not> covers q va" if "q \<in> set B" for q using that d(4) by (force simp: covers_nat)
  show ?thesis
  proof (cases A rule: rev_cases)
    case Nil
    then have "\<not> committed_at rs va" using d(1) outB committed_at_covers [of rs va] by auto
    then show ?thesis unfolding clamp_walk_def Let_def d(2) using Nil by simp
  next
    case (snoc A' p)
    have okp: "vlo p < vhi p" "r_fits p" "vr_ok B" "\<forall>q\<in>set B. vhi p \<le> vlo q"
      using ok d(1) snoc by (auto simp: vr_ok_append vr_ok_Cons)
    have pe: "unat (r_end p) = vhi p" by (rule unat_r_end [OF okp(2)])
    have outA: "\<not> covers q va" if "q \<in> set A'" for q
      using that last_before [of A B va q] ok d(1,3) snoc by (auto simp: covers_nat)
    have nth: "rs ! (length A - 1) = p" and drp: "drop (length A) rs = B"
      using d(1) snoc by (simp_all add: nth_append)
    have cp: "covers p va \<longleftrightarrow> va < r_end p"
      using d(3) snoc pe by (auto simp: covers_nat less_u64)
    have com: "committed_at rs va \<longleftrightarrow> va < r_end p \<and> IsCommittedRangeType (r_type p)"
      using committed_at_iff [OF ok, of va] outA outB cp d(1) snoc by auto
    show ?thesis
    proof (cases "va < r_end p \<and> IsCommittedRangeType (r_type p)")
      case False
      then have "clamp_walk rs va n = None"
        unfolding clamp_walk_def Let_def d(2) nth using snoc by auto
      then show ?thesis using False com by simp
    next
      case True
      define c0 where "c0 = min n (r_end p - va)"
      have va: "unat va < vhi p" "vlo p \<le> unat va" using True pe d(3) snoc by (auto simp: less_u64)
      have c0: "unat c0 = min (unat n) (vhi p - unat va)"
        using va pe by (simp add: c0_def unat_min_u64 unat_minus_u64)
      have ex: "unat (va + c0) = unat va + unat c0"
        using c0 fit by (intro unat_plus_u64) (simp add: fits_def)
      obtain c e where loop: "clamp_loop n (r_end p) c0 (va + c0) B = (c, e)" by fastforce
      have walk: "clamp_walk rs va n = Some (c, r_start p, e)"
        unfolding clamp_walk_def Let_def d(2) nth drp
        using snoc True va loop by (auto simp: c0_def less_u64 le_u64)
      have pre: "unat c0 < unat n \<Longrightarrow> va + c0 = r_end p"
        using c0 ex pe va by (simp add: eq_u64)
      have fl: "unat va + unat n < 18446744073709551616" using fit by (simp add: fits_def)
      have loop_spec: "unat c \<le> unat n \<and> unat va + unat c \<le> unat e \<and> unat (r_end p) \<le> unat e \<and>
          (\<forall>x. unat (r_end p) \<le> unat x \<and> unat x < unat e \<longrightarrow> committed_at B x) \<and>
          (c = n \<or> unat va + unat c = unat e \<and> \<not> committed_at B e)"
        using clamp_loop_spec [OF okp(3) _ fl ex pre _ _ loop] c0 ex pe va okp(4) by auto
      have run: "committed_at rs x" if "vlo p \<le> unat x" "unat x < unat e" for x
      proof (cases "unat x < vhi p")
        case True
        then have "covers p x" using that by (simp add: covers_nat)
        then show ?thesis using committed_at_iff [OF ok] d(1) snoc \<open>va < r_end p \<and> _\<close> by auto
      next
        case False
        then have "committed_at B x" using loop_spec that pe by auto
        then show ?thesis using committed_at_iff [OF ok] committed_at_iff [OF okp(3)] d(1) by auto
      qed
      have stop: "\<not> committed_at rs (va + c)" if "c \<noteq> n"
      proof -
        have e: "unat va + unat c = unat e" "\<not> committed_at B e" using loop_spec that by auto
        then have ve: "va + c = e" using unat_u64_lt [of e] by (simp add: eq_u64 unat_plus_u64)
        have "\<not> covers q e" if "q \<in> set (A' @ [p])" for q
          using that ok d(1) snoc loop_spec pe
          by (force simp: covers_nat vr_ok_append vr_ok_Cons)
        then show ?thesis
          using e(2) committed_at_iff [OF ok] committed_at_iff [OF okp(3)] d(1) snoc ve by auto
      qed
      have "clamps_to rs va n c"
        using loop_spec run stop va by (auto simp: clamps_to_def in_span_def)
      then show ?thesis using walk run by simp
    qed
  qed
qed

subsection \<open>The thread-local cache\<close>

text \<open>
  A cache entry filled from this object at its present epoch describes committed addresses, and
  no entry is from a later epoch. Every mutation moves the epoch on by two, which makes the
  entries of the previous epochs unusable.
\<close>

definition cache_ok :: "virtual_ranges \<Rightarrow> range_cache \<Rightarrow> bool" where
  "cache_ok v cache \<longleftrightarrow> even (m_epoch v) \<and>
     (\<forall>i. c_identity (cache i) = m_identity v \<longrightarrow> c_epoch (cache i) \<le> m_epoch v \<and>
       (c_epoch (cache i) = m_epoch v \<longrightarrow>
         (\<forall>x. unat (c_begin (cache i)) \<le> unat x \<and> unat x < unat (c_end (cache i)) \<longrightarrow>
           committed_at (m_ranges v) x)))"

lemma cache_ok_mutate: "cache_ok v cache \<Longrightarrow> cache_ok (snd (mutate f v)) cache"
  by (auto simp: cache_ok_def mutate_sel)

lemma ClampRangeSize_spec:
  assumes ok: "vr_ok (m_ranges v)" and cok: "cache_ok v cache"
    and run: "VirtualRanges_ClampRangeSize v cache va n = (c, cache')"
  shows "cache_ok v cache' \<and>
    (if va = 0 \<or> n = 0 \<or> \<not> fits va n then c = 0 else clamps_to (m_ranges v) va n c)"
proof (cases "va = 0 \<or> n = 0 \<or> u64_max - va < n")
  case True
  then show ?thesis using run cok fits_u64 [of va n] by (auto simp: VirtualRanges_ClampRangeSize_def)
next
  case False
  then have fit: "fits va n" and n: "n \<noteq> 0" and guard: "\<not> (va = 0 \<or> n = 0 \<or> \<not> fits va n)"
    using fits_u64 [of va n] by auto
  let ?e = "cache (cache_slot va)"
  let ?hit = "even (m_epoch v) \<and> c_identity ?e = m_identity v \<and> c_epoch ?e = m_epoch v \<and>
      c_begin ?e \<le> va \<and> va < c_end ?e \<and> n \<le> c_end ?e - va"
  show ?thesis
  proof (cases ?hit)
    case True
    then have res: "c = n" "cache' = cache"
      using run False by (auto simp: VirtualRanges_ClampRangeSize_def Let_def)
    have "unat (c_end ?e - va) = unat (c_end ?e) - unat va"
      using True by (intro unat_minus_u64) (simp add: less_u64)
    then have "unat va + unat n \<le> unat (c_end ?e)"
      using True by (auto simp: le_u64 less_u64)
    then have "committed_at (m_ranges v) x" if "in_span va n x" for x
      using cok True that by (auto simp: cache_ok_def in_span_def le_u64)
    then show ?thesis using res guard cok by (simp add: clamps_to_def)
  next
    case miss: False
    note walk = clamp_walk_spec [OF ok fit n]
    show ?thesis
    proof (cases "clamp_walk (m_ranges v) va n")
      case None
      then have "c = 0 \<and> cache' = cache"
        using run False miss by (auto simp: VirtualRanges_ClampRangeSize_def Let_def)
      then show ?thesis using walk None guard cok by (auto simp: clamps_to_def in_span_def)
    next
      case (Some t)
      obtain c0 b e where t: "t = (c0, b, e)" by (metis prod_cases3)
      then have "c = c0" and c': "cache' = cache(cache_slot va := \<lparr>c_identity = m_identity v,
          c_epoch = m_epoch v, c_begin = b, c_end = e\<rparr>)"
        using run False miss Some by (auto simp: VirtualRanges_ClampRangeSize_def Let_def)
      moreover have "cache_ok v cache'" using cok walk Some t by (auto simp: c' cache_ok_def)
      ultimately show ?thesis using walk Some t guard by auto
    qed
  qed
qed

subsection \<open>Reachable states\<close>

text \<open>
  One object together with a thread's cache, under any sequence of its operations. \<open>Add\<close> is
  given ranges that end at a representable address.
\<close>

inductive vr_step :: "virtual_ranges \<times> range_cache \<Rightarrow> virtual_ranges \<times> range_cache \<Rightarrow> bool" where
  add: "fits s n \<Longrightarrow> vr_step (v, k) (snd (VirtualRanges_Add s n off prot mt t nm dm v), k)"
| remove: "vr_step (v, k) (snd (VirtualRanges_Remove s n v), k)"
| release: "vr_step (v, k) (snd (VirtualRanges_ReleaseReserved s n v), k)"
| consume: "vr_step (v, k) (snd (VirtualRanges_ConsumeReserved s n t v), k)"
| consume_span: "vr_step (v, k) (snd (VirtualRanges_ConsumeReservedSpan s n t v), k)"
| rename: "vr_step (v, k) (VirtualRanges_Rename s n nm v, k)"
| protect: "vr_step (v, k) (VirtualRanges_Protect s n p v, k)"
| mtype: "vr_step (v, k) (VirtualRanges_SetMemoryType s n m v, k)"
| clamp: "vr_step (v, k) (v, snd (VirtualRanges_ClampRangeSize v k va n))"

definition vr_init :: "u64 \<Rightarrow> virtual_ranges \<times> range_cache" where
  "vr_init identity = (\<lparr>m_ranges = [], m_identity = identity, m_epoch = 2\<rparr>, empty_cache)"

definition vr_inv :: "virtual_ranges \<times> range_cache \<Rightarrow> bool" where
  "vr_inv x \<longleftrightarrow> vr_ok (m_ranges (fst x)) \<and> vr_merged (m_ranges (fst x)) \<and> cache_ok (fst x) (snd x)"

lemmas vr_specs = Add_spec Remove_spec ReleaseReserved_spec ConsumeReserved_spec
  ConsumeReservedSpan_spec Rename_spec Protect_spec SetMemoryType_spec ClampRangeSize_spec

lemma mutator_is_mutate:
  "\<exists>f. VirtualRanges_Add s n off prot mt t nm dm v = mutate f v"
  "\<exists>f. VirtualRanges_Remove s n v = mutate f v"
  "\<exists>f. VirtualRanges_ReleaseReserved s n v = mutate f v"
  "\<exists>f. VirtualRanges_ConsumeReserved s n t v = mutate f v"
  "\<exists>f. VirtualRanges_ConsumeReservedSpan s n t v = mutate f v"
  unfolding VirtualRanges_Add_def VirtualRanges_Remove_def VirtualRanges_ReleaseReserved_def
    VirtualRanges_ConsumeReserved_def VirtualRanges_ConsumeReservedSpan_def
  by blast+

lemma vr_inv_step: "vr_step x y \<Longrightarrow> vr_inv x \<Longrightarrow> vr_inv y"
proof (induction rule: vr_step.induct)
  case (add s n v k off prot mt t nm dm)
  obtain f where "VirtualRanges_Add s n off prot mt t nm dm v = mutate f v"
    using mutator_is_mutate(1) by blast
  with add show ?case
    using Add_spec [OF _ add(1), of v off prot mt t nm dm] cache_ok_mutate [of v k f]
    by (cases "mutate f v") (auto simp: vr_inv_def)
next
  case (remove v k s n)
  obtain f where "VirtualRanges_Remove s n v = mutate f v" using mutator_is_mutate(2) by blast
  with remove show ?case
    using Remove_spec [of v s n] cache_ok_mutate [of v k f] by (cases "mutate f v") (auto simp: vr_inv_def)
next
  case (release v k s n)
  obtain f where "VirtualRanges_ReleaseReserved s n v = mutate f v" using mutator_is_mutate(3) by blast
  with release show ?case
    using ReleaseReserved_spec [of v s n] cache_ok_mutate [of v k f]
    by (cases "mutate f v") (auto simp: vr_inv_def)
next
  case (consume v k s n t)
  obtain f where "VirtualRanges_ConsumeReserved s n t v = mutate f v" using mutator_is_mutate(4) by blast
  with consume show ?case
    using ConsumeReserved_spec [of v s n t] cache_ok_mutate [of v k f]
    by (cases "mutate f v") (auto simp: vr_inv_def)
next
  case (consume_span v k s n t)
  obtain f where "VirtualRanges_ConsumeReservedSpan s n t v = mutate f v" using mutator_is_mutate(5) by blast
  with consume_span show ?case
    using ConsumeReservedSpan_spec [of v s n t] cache_ok_mutate [of v k f]
    by (cases "mutate f v") (auto simp: vr_inv_def)
next
  case (rename v k s n nm)
  then show ?case using Rename_spec [of v s n nm]
    by (simp add: vr_inv_def) (simp add: VirtualRanges_Rename_def cache_ok_mutate)
next
  case (protect v k s n p)
  then show ?case using Protect_spec [of v s n p]
    by (simp add: vr_inv_def) (simp add: VirtualRanges_Protect_def cache_ok_mutate)
next
  case (mtype v k s n m)
  then show ?case using SetMemoryType_spec [of v s n m]
    by (simp add: vr_inv_def) (simp add: VirtualRanges_SetMemoryType_def cache_ok_mutate)
next
  case (clamp v k va n)
  obtain c k' where "VirtualRanges_ClampRangeSize v k va n = (c, k')" by fastforce
  with clamp show ?case using ClampRangeSize_spec [of v k va n c k'] by (simp add: vr_inv_def)
qed

lemma vr_inv_init: "vr_inv (vr_init i)"
  by (simp add: vr_inv_def vr_init_def cache_ok_def empty_cache_def)

lemma vr_inv_reachable: "vr_step\<^sup>*\<^sup>* (vr_init i) x \<Longrightarrow> vr_inv x"
  by (induction rule: rtranclp_induct) (auto intro: vr_inv_init vr_inv_step)

subsection \<open>Properties\<close>

text \<open>A small address space for the witnesses: two flexible ranges around a reserved one.\<close>

definition demo_range :: "u64 \<Rightarrow> u64 \<Rightarrow> vrange_type \<Rightarrow> vrange" where
  "demo_range s n t = new_range s n 0 3 0 t (Some ''demo'') False"

definition demo_vr :: virtual_ranges where
  "demo_vr = \<lparr>m_ranges = [demo_range 65536 16384 Flexible, demo_range 81920 32768 Reserved,
     demo_range 114688 16384 Flexible], m_identity = 1, m_epoch = 6\<rparr>"

lemma demo_ok: "vr_ok (m_ranges demo_vr)"
  by (simp add: demo_vr_def demo_range_def vr_ok_Cons fits_def)

lemma demo_at: "vr_at (m_ranges demo_vr) a =
    (if covers (demo_range 65536 16384 Flexible) a then Some (PageView Flexible 3 0 False ''demo'' None)
     else if covers (demo_range 81920 32768 Reserved) a then Some (PageView Reserved 3 0 False ''demo'' None)
     else if covers (demo_range 114688 16384 Flexible) a then Some (PageView Flexible 3 0 False ''demo'' None)
     else None)"
  by (simp add: demo_vr_def view_at_def demo_range_def new_range_def CopyVirtualRangeName_def
      KERNEL_MAXIMUM_NAME_LENGTH_def)

lemma demo_covers: "covers (demo_range s n t) a \<longleftrightarrow> in_span s n a"
  by (simp add: covers_def demo_range_def)

text \<open>
  C1: Every state a \<open>VirtualRanges\<close> object reaches from the empty one, under any sequence of its
  operations, has its ranges sorted, non-empty and disjoint, with no two adjacent ranges left
  that could be merged.
\<close>

theorem VirtualRanges_invariant:
  assumes "vr_step\<^sup>*\<^sup>* (vr_init identity) (v, cache)"
  shows "vr_ok (m_ranges v) \<and> vr_merged (m_ranges v)"
  using vr_inv_reachable [OF assms] by (simp add: vr_inv_def)

theorem VirtualRanges_invariant_witness:
  "vr_ok (m_ranges (snd (VirtualRanges_Remove 4096 100 (fst (vr_init 1)))))"
proof -
  have "vr_step\<^sup>*\<^sup>* (vr_init 1) (snd (VirtualRanges_Remove 4096 100 (fst (vr_init 1))), empty_cache)"
    by (rule r_into_rtranclp) (simp add: vr_init_def vr_step.remove)
  from VirtualRanges_invariant [OF this] show ?thesis by simp
qed

text \<open>
  C2: \<open>Add\<close> succeeds exactly on a non-null, non-empty request that meets no range. Then the
  requested addresses get the requested attributes and every other address keeps its own;
  otherwise nothing changes.
\<close>

theorem Add_correct:
  assumes "vr_ok (m_ranges v)" and "fits s n"
    and "VirtualRanges_Add s n off prot mt t nm dm v = (b, v')"
  shows "(b \<longleftrightarrow> s \<noteq> 0 \<and> n \<noteq> 0 \<and> (\<forall>a. in_span s n a \<longrightarrow> vr_at (m_ranges v) a = None)) \<and>
    (\<forall>a. vr_at (m_ranges v') a =
      (if b \<and> in_span s n a then Some (view_at (new_range s n off prot mt t nm dm) a)
       else vr_at (m_ranges v) a))"
  using Add_spec [OF assms] by blast

theorem Add_correct_witness:
  "fst (VirtualRanges_Add 131072 4096 0 1 0 Flexible None False demo_vr) \<and>
   \<not> fst (VirtualRanges_Add 122880 16384 0 1 0 Flexible None False demo_vr)"
proof -
  have f: "fits 131072 4096" "fits 122880 16384" by (simp_all add: fits_def)
  have free: "in_span 131072 4096 a \<Longrightarrow> vr_at (m_ranges demo_vr) a = None" for a
    by (simp add: demo_at demo_covers in_span_def)
  have used: "in_span 122880 16384 122880" "vr_at (m_ranges demo_vr) 122880 \<noteq> None"
    by (simp_all add: demo_at demo_covers in_span_def)
  show ?thesis
    using Add_correct [OF demo_ok f(1) prod.collapse [symmetric]]
      Add_correct [OF demo_ok f(2) prod.collapse [symmetric]] free used by auto
qed

text \<open>
  C3: \<open>Remove\<close> takes exactly the requested addresses out of the map, cutting the ranges at the
  edges, and reports whether anything was there; its two paths (a whole range by position, a
  general span) agree.
\<close>

theorem Remove_correct:
  assumes "vr_ok (m_ranges v)" and "VirtualRanges_Remove s n v = (b, v')"
  shows "(b \<longleftrightarrow> (\<exists>a. in_request s n a \<and> vr_at (m_ranges v) a \<noteq> None)) \<and>
    (\<forall>a. vr_at (m_ranges v') a = (if in_request s n a then None else vr_at (m_ranges v) a))"
  using Remove_spec [OF assms] by blast

theorem Remove_correct_witness:
  "vr_at (m_ranges (snd (VirtualRanges_Remove 73728 16384 demo_vr))) 73727 \<noteq> None \<and>
   vr_at (m_ranges (snd (VirtualRanges_Remove 73728 16384 demo_vr))) 90111 = None"
  using Remove_correct [OF demo_ok prod.collapse [symmetric], of 73728 16384]
  by (simp add: in_request_def unat_sat_end demo_at demo_covers in_span_def)

text \<open>
  C4: \<open>Protect\<close> sets the protection of every mapped address of the request and changes nothing
  else, however the request cuts the ranges.
\<close>

theorem Protect_correct:
  assumes "vr_ok (m_ranges v)"
  shows "vr_at (m_ranges (VirtualRanges_Protect s n p v)) a =
      (if in_request s n a then map_option (page_protect p) (vr_at (m_ranges v) a)
       else vr_at (m_ranges v) a)"
  using Protect_spec [OF assms refl] by blast

theorem Protect_correct_witness:
  "vr_at (m_ranges (VirtualRanges_Protect 73728 16384 1 demo_vr)) 81919 =
     Some (PageView Flexible 1 0 False ''demo'' None)"
  using Protect_correct [OF demo_ok, of 73728 16384 1 81919]
  by (simp add: in_request_def unat_sat_end demo_at demo_covers in_span_def)

text \<open>
  \<open>ConsumeReservedSpan\<close> succeeds exactly when every address of a non-empty request belongs
  to a range of the asked kind, over any number of ranges; it then removes the request, and
  leaves the map alone otherwise.
\<close>

lemma ConsumeReservedSpan_correct:
  assumes "vr_ok (m_ranges v)" and "VirtualRanges_ConsumeReservedSpan s n t v = ((b, first), v')"
  shows "(b \<longleftrightarrow> n \<noteq> 0 \<and> (\<forall>a. in_request s n a \<longrightarrow> kind_at (m_ranges v) a = Some t)) \<and>
    (\<forall>a. vr_at (m_ranges v') a = (if b \<and> in_request s n a then None else vr_at (m_ranges v) a))"
  using ConsumeReservedSpan_spec [OF assms] by blast

text \<open>
  C5: \<open>QuerySpan\<close> answers exactly when the request is non-null, ends at a representable address
  and has every address mapped; the parts it returns are sorted and disjoint, cover exactly the
  request, and carry the attributes (and backing bytes) of the address map.
\<close>

theorem QuerySpan_correct:
  assumes "vr_ok (m_ranges v)"
  shows "case VirtualRanges_QuerySpan v s n of
      None \<Rightarrow> s = 0 \<or> n = 0 \<or> \<not> fits s n \<or> (\<exists>a. in_span s n a \<and> vr_at (m_ranges v) a = None)
    | Some parts \<Rightarrow> s \<noteq> 0 \<and> n \<noteq> 0 \<and> fits s n \<and> vr_ok parts \<and>
        (\<forall>a. vr_at parts a = (if in_span s n a then vr_at (m_ranges v) a else None)) \<and>
        (\<forall>a. in_span s n a \<longrightarrow> vr_at (m_ranges v) a \<noteq> None)"
  using QuerySpan_spec [OF assms, of s n] by (cases "VirtualRanges_QuerySpan v s n") auto

theorem QuerySpan_correct_witness:
  "case VirtualRanges_QuerySpan demo_vr 69632 16384 of None \<Rightarrow> False | Some parts \<Rightarrow> vr_ok parts"
proof -
  have "\<not> (\<exists>a. in_span 69632 16384 a \<and> vr_at (m_ranges demo_vr) a = None)"
    by (auto simp: demo_at demo_covers in_span_def)
  moreover have "fits 69632 16384" by (simp add: fits_def)
  moreover have "(69632 :: u64) \<noteq> 0 \<and> (16384 :: u64) \<noteq> 0" by simp
  ultimately show ?thesis
    using QuerySpan_correct [OF demo_ok, of 69632 16384]
    by (cases "VirtualRanges_QuerySpan demo_vr 69632 16384"; simp only: option.case) blast+
qed



text \<open>
  \<open>CommittedParts\<close> returns sorted, disjoint parts that hold exactly the committed addresses
  of the request, each with the flag of its kind of memory, and no two touching parts have the
  same flag.
\<close>

lemma CommittedParts_correct:
  assumes "vr_ok (m_ranges v)"
  shows "parts_ok (VirtualRanges_CommittedParts v s n) \<and>
    (part_at (VirtualRanges_CommittedParts v s n) a priv \<longleftrightarrow>
      fits s n \<and> in_span s n a \<and> committed_at (m_ranges v) a \<and> private_at (m_ranges v) a = priv)"
  by (rule CommittedParts_spec [OF assms])

end
