(* ===== verification/OrderedMap.thy ===== *)
theory OrderedMap
  imports Prelude
begin

text \<open>
  \<open>std::map\<close> with 64-bit keys: its entries in key order. \<open>lower_bound\<close> and \<open>upper_bound\<close>
  return an iterator, modelled by the entries before it and the entries from it on;
  \<open>emplace\<close> inserts a key only where it is absent.
\<close>

type_synonym 'v omap = "(u64 \<times> 'v) list"

definition om_ok :: "'v omap \<Rightarrow> bool" where
  "om_ok m \<longleftrightarrow> sorted_wrt (\<lambda>a b. unat (fst a) < unat (fst b)) m"

definition om_lower :: "u64 \<Rightarrow> 'v omap \<Rightarrow> 'v omap \<times> 'v omap" where
  "om_lower k m = (takeWhile (\<lambda>e. fst e < k) m, dropWhile (\<lambda>e. fst e < k) m)"

definition om_upper :: "u64 \<Rightarrow> 'v omap \<Rightarrow> 'v omap \<times> 'v omap" where
  "om_upper k m = (takeWhile (\<lambda>e. fst e \<le> k) m, dropWhile (\<lambda>e. fst e \<le> k) m)"

definition om_find :: "u64 \<Rightarrow> 'v omap \<Rightarrow> 'v option" where
  "om_find k m = map_of m k"

definition om_emplace :: "u64 \<Rightarrow> 'v \<Rightarrow> 'v omap \<Rightarrow> 'v omap" where
  "om_emplace k v m =
     (if om_find k m = None then fst (om_lower k m) @ (k, v) # snd (om_lower k m) else m)"

definition om_erase :: "u64 \<Rightarrow> 'v omap \<Rightarrow> 'v omap" where
  "om_erase k m = filter (\<lambda>e. fst e \<noteq> k) m"

definition om_assign :: "u64 \<Rightarrow> 'v \<Rightarrow> 'v omap \<Rightarrow> 'v omap" where
  "om_assign k v m = map (\<lambda>e. if fst e = k then (k, v) else e) m"

text \<open>\<open>upper_bound\<close> and, unless it is the first entry, one step back: where a scan for an overlap starts.\<close>

definition om_scan_from :: "u64 \<Rightarrow> 'v omap \<Rightarrow> 'v omap" where
  "om_scan_from k m =
     (let (before, after) = om_upper k m in if before \<noteq> [] then last before # after else after)"

lemma om_ok_Nil [simp]: "om_ok []"
  by (simp add: om_ok_def)

lemma om_ok_Cons: "om_ok (e # m) \<longleftrightarrow> (\<forall>q\<in>set m. unat (fst e) < unat (fst q)) \<and> om_ok m"
  by (simp add: om_ok_def)

lemma om_ok_append:
  "om_ok (m @ n) \<longleftrightarrow> om_ok m \<and> om_ok n \<and> (\<forall>a\<in>set m. \<forall>b\<in>set n. unat (fst a) < unat (fst b))"
  by (auto simp: om_ok_def sorted_wrt_append)

lemma om_ok_distinct: "om_ok m \<Longrightarrow> distinct (map fst m)"
  by (induction m) (auto simp: om_ok_Cons)

lemma om_find_iff: "om_ok m \<Longrightarrow> om_find k m = Some v \<longleftrightarrow> (k, v) \<in> set m"
  by (simp add: om_find_def om_ok_distinct)

lemma om_find_None: "om_find k m = None \<longleftrightarrow> k \<notin> fst ` set m"
  by (simp add: om_find_def map_of_eq_None_iff)

lemma om_lower_append: "fst (om_lower k m) @ snd (om_lower k m) = m"
  by (simp add: om_lower_def)

lemma om_upper_append: "fst (om_upper k m) @ snd (om_upper k m) = m"
  by (simp add: om_upper_def)

lemma om_sorted_fst: "om_ok m \<Longrightarrow> sorted_wrt (\<lambda>a b. fst a < fst b) m"
  by (simp add: om_ok_def less_u64)

lemma om_lower_before: "e \<in> set (fst (om_lower k m)) \<Longrightarrow> unat (fst e) < unat k"
  by (auto simp: om_lower_def less_u64 dest: takeWhile_all)

lemma om_upper_before: "e \<in> set (fst (om_upper k m)) \<Longrightarrow> unat (fst e) \<le> unat k"
  by (auto simp: om_upper_def le_u64 dest: takeWhile_all)

lemma om_lower_after:
  assumes "om_ok m" and "e \<in> set (snd (om_lower k m))"
  shows "unat k \<le> unat (fst e)"
  using takeWhile_sorted_split(2) [OF om_sorted_fst [OF assms(1)], of k] assms(2)
  by (auto simp: om_lower_def le_u64)

lemma om_upper_after:
  assumes "om_ok m" and "e \<in> set (snd (om_upper k m))"
  shows "unat k < unat (fst e)"
  using takeWhile_sorted_split(1) [OF om_sorted_fst [OF assms(1)], of k] assms(2)
  by (auto simp: om_upper_def less_u64)

lemma om_emplace_set:
  "om_ok m \<Longrightarrow> k \<notin> fst ` set m \<Longrightarrow> set (om_emplace k v m) = insert (k, v) (set m)"
proof -
  assume "k \<notin> fst ` set m"
  then have "set (om_emplace k v m) = set (fst (om_lower k m)) \<union> {(k, v)} \<union> set (snd (om_lower k m))"
    by (auto simp: om_emplace_def om_find_None)
  also have "\<dots> = insert (k, v) (set (fst (om_lower k m) @ snd (om_lower k m)))"
    by auto
  finally show ?thesis by (simp only: om_lower_append)
qed

lemma om_emplace_ok: "om_ok m \<Longrightarrow> om_ok (om_emplace k v m)"
proof -
  assume ok: "om_ok m"
  show ?thesis
  proof (cases "om_find k m = None")
    case True
    have split: "om_ok (fst (om_lower k m) @ snd (om_lower k m))"
      using ok by (simp only: om_lower_append)
    have after: "unat k < unat (fst e)" if e: "e \<in> set (snd (om_lower k m))" for e
    proof -
      have "e \<in> set (fst (om_lower k m) @ snd (om_lower k m))" using e by simp
      then have "e \<in> set m" by (simp only: om_lower_append)
      then have "fst e \<noteq> k" using True by (auto simp: om_find_None)
      then show ?thesis using om_lower_after [OF ok e] by (simp add: eq_u64)
    qed
    have "om_ok (fst (om_lower k m) @ (k, v) # snd (om_lower k m))"
      unfolding om_ok_append om_ok_Cons
      using split after om_lower_before [of _ k m] by (auto simp: om_ok_append)
    with True show ?thesis by (simp add: om_emplace_def)
  qed (auto simp: om_emplace_def ok)
qed

lemma om_erase_set [simp]: "set (om_erase k m) = {e \<in> set m. fst e \<noteq> k}"
  by (auto simp: om_erase_def)

lemma om_erase_ok: "om_ok m \<Longrightarrow> om_ok (om_erase k m)"
  by (simp add: om_erase_def om_ok_def sorted_wrt_filter)

lemma om_erase_absent: "k \<notin> fst ` set m \<Longrightarrow> om_erase k m = m"
  by (auto simp: om_erase_def intro!: filter_True)

lemma om_erase_middle:
  "om_ok (xs @ (k, v) # ys) \<Longrightarrow> om_erase k (xs @ (k, v) # ys) = xs @ ys"
  by (simp add: om_erase_def om_ok_append om_ok_Cons)
    (metis (mono_tags, lifting) filter_True nless_le)

lemma om_emplace_middle:
  assumes "\<forall>e\<in>set xs. unat (fst e) < unat k" and "\<forall>e\<in>set ys. unat k < unat (fst e)"
  shows "om_emplace k v (xs @ ys) = xs @ (k, v) # ys"
proof -
  have t: "takeWhile (\<lambda>e. fst e < k) (xs @ ys) = xs" "dropWhile (\<lambda>e. fst e < k) (xs @ ys) = ys"
    using assms by (cases ys; force simp: takeWhile_append dropWhile_append less_u64)+
  moreover have "om_find k (xs @ ys) = None"
    using assms by (auto simp: om_find_None)
  ultimately show ?thesis by (simp add: om_emplace_def om_lower_def)
qed

lemma om_scan_from_split:
  assumes "om_ok m"
  obtains c where "m = c @ om_scan_from k m"
    and "\<forall>e\<in>set c. \<exists>n. om_scan_from k m \<noteq> [] \<and> n = fst (hd (om_scan_from k m)) \<and> unat (fst e) < unat n \<and> unat n \<le> unat k"
    and "\<forall>e\<in>set (tl (om_scan_from k m)). unat k < unat (fst e)"
proof -
  obtain b a where ba: "om_upper k m = (b, a)" by fastforce
  have m: "m = b @ a" using om_upper_append [of k m] ba by simp
  have before: "\<forall>e\<in>set b. unat (fst e) \<le> unat k" using om_upper_before [of _ k m] ba by simp
  have after: "\<forall>e\<in>set a. unat k < unat (fst e)" using om_upper_after [OF assms, of _ k] ba by simp
  show thesis
  proof (cases b rule: rev_cases)
    case Nil
    then have "om_scan_from k m = a" using ba by (simp add: om_scan_from_def)
    moreover have "\<forall>e\<in>set (tl a). unat k < unat (fst e)" using after by (cases a) auto
    ultimately show thesis using that [of "[]"] m Nil by auto
  next
    case (snoc c e)
    then have s: "om_scan_from k m = e # a" using ba by (simp add: om_scan_from_def)
    have "\<forall>q\<in>set c. unat (fst q) < unat (fst e)" using assms m snoc by (auto simp: om_ok_append)
    then show thesis using that [of c] m snoc s before after by auto
  qed
qed

end
