(* ===== verification/FreeRanges.thy ===== *)
theory FreeRanges
  imports OrderedMap
begin

text \<open>
  The interface between the memory owners and their free lists. Four classes of the source keep
  a coalesced list of byte ranges (\<open>PhysicalMemory\<close>, \<open>FlexibleMemory\<close>, \<open>PooledMemory\<close> and
  \<open>RangeSet\<close>), each with its own code. The locale \<open>byte_store\<close> states what adding a range
  promises, \<open>byte_pool\<close> what taking one promises as well; the clients' conservation laws are
  proved once against them.
\<close>

subsection \<open>Coalesced range lists\<close>

type_synonym free_ranges = "u64 omap"

abbreviation flo :: "u64 \<times> u64 \<Rightarrow> nat" where
  "flo e \<equiv> unat (fst e)"

abbreviation fhi :: "u64 \<times> u64 \<Rightarrow> nat" where
  "fhi e \<equiv> unat (fst e) + unat (snd e)"

text \<open>
  Sizes are positive, no range wraps, and consecutive ranges are separated by at least one byte
  that is not free: touching ranges have been merged.
\<close>

definition fr_ok :: "free_ranges \<Rightarrow> bool" where
  "fr_ok fs \<longleftrightarrow> (\<forall>e\<in>set fs. 0 < unat (snd e) \<and> fits (fst e) (snd e)) \<and>
     sorted_wrt (\<lambda>a b. fhi a < flo b) fs"

definition fr_bytes :: "free_ranges \<Rightarrow> nat set" where
  "fr_bytes fs = iv_pts flo fhi fs"

lemma fr_ok_Nil [simp]: "fr_ok []"
  by (simp add: fr_ok_def)

lemma fr_ok_Cons:
  "fr_ok (e # fs) \<longleftrightarrow> 0 < unat (snd e) \<and> fits (fst e) (snd e) \<and> (\<forall>q\<in>set fs. fhi e < flo q) \<and> fr_ok fs"
  by (auto simp: fr_ok_def)

lemma fr_ok_append:
  "fr_ok (xs @ ys) \<longleftrightarrow> fr_ok xs \<and> fr_ok ys \<and> (\<forall>x\<in>set xs. \<forall>y\<in>set ys. fhi x < flo y)"
  by (auto simp: fr_ok_def sorted_wrt_append)

lemma fr_ok_om_ok: "fr_ok fs \<Longrightarrow> om_ok fs"
  by (induction fs) (force simp: fr_ok_Cons om_ok_Cons)+

lemma fr_ok_iv_ok: "fr_ok fs \<Longrightarrow> iv_ok flo fhi fs"
  by (induction fs) (force simp: fr_ok_Cons iv_ok_Cons)+

lemma fr_bytes_simps [simp]:
  "fr_bytes [] = {}"
  "fr_bytes (e # fs) = span_of (fst e) (snd e) \<union> fr_bytes fs"
  "fr_bytes (xs @ ys) = fr_bytes xs \<union> fr_bytes ys"
  by (simp_all add: fr_bytes_def span_of_def)

lemma fr_bytes_mem: "x \<in> fr_bytes fs \<longleftrightarrow> (\<exists>e\<in>set fs. flo e \<le> x \<and> x < fhi e)"
  by (auto simp: fr_bytes_def iv_pts_def)

text \<open>A range of consecutive free bytes lies in one entry, since entries do not touch.\<close>

lemma fr_run_in_entry:
  assumes "fr_ok fs" and "lo < hi" and "{lo ..< hi} \<subseteq> fr_bytes fs"
  shows "\<exists>e\<in>set fs. flo e \<le> lo \<and> hi \<le> fhi e"
  using assms
proof (induction fs)
  case Nil
  then show ?case by simp
next
  case (Cons e fs)
  have later: "fhi e < x" if "x \<in> fr_bytes fs" for x
    using that Cons.prems(1) by (fastforce simp: fr_bytes_mem fr_ok_Cons)
  have not_end: "\<not> (lo \<le> fhi e \<and> fhi e < hi)"
  proof
    assume "lo \<le> fhi e \<and> fhi e < hi"
    then have "fhi e \<in> fr_bytes (e # fs)" using Cons.prems(3) by auto
    then show False using later by (auto simp: span_of_def)
  qed
  show ?case
  proof (cases "fhi e < lo")
    case True
    then have "{lo ..< hi} \<subseteq> fr_bytes fs"
      using Cons.prems(3) by (fastforce simp: span_of_def)
    then show ?thesis using Cons.IH Cons.prems by (auto simp: fr_ok_Cons)
  next
    case False
    with not_end have "hi \<le> fhi e" by simp
    moreover have "lo \<in> fr_bytes (e # fs)" using Cons.prems by auto
    then have "flo e \<le> lo"
      using later [of lo] False by (auto simp: span_of_def)
    ultimately show ?thesis by auto
  qed
qed

subsection \<open>The interfaces\<close>

text \<open>\<open>splits pool a b\<close>: every byte of the pool is in exactly one of the two sets.\<close>

definition splits :: "nat set \<Rightarrow> nat set \<Rightarrow> nat set \<Rightarrow> bool" where
  "splits pool a b \<longleftrightarrow> a \<union> b = pool \<and> a \<inter> b = {}"

locale byte_store =
  fixes inv :: "'f \<Rightarrow> bool"
    and bytes :: "'f \<Rightarrow> nat set"
    and give :: "u64 \<Rightarrow> u64 \<Rightarrow> 'f \<Rightarrow> 'f"
  assumes give_inv: "inv f \<Longrightarrow> 0 < unat n \<Longrightarrow> fits s n \<Longrightarrow> inv (give s n f)"
    and give_bytes: "inv f \<Longrightarrow> 0 < unat n \<Longrightarrow> fits s n \<Longrightarrow> bytes (give s n f) = bytes f \<union> span_of s n"
begin

lemma give_splits:
  assumes "inv f" and "0 < unat n" and "fits s n"
    and "splits pool (bytes f) used" and "span_of s n \<subseteq> used"
  shows "splits pool (bytes (give s n f)) (used - span_of s n)"
  using assms by (auto simp: splits_def give_bytes)

text \<open>Giving back the ranges of a list, one after the other.\<close>

lemma fold_give:
  assumes "inv f" and "\<forall>(s, n)\<in>set rs. 0 < unat n \<and> fits s n"
  shows "inv (fold (\<lambda>(s, n). give s n) rs f) \<and>
    bytes (fold (\<lambda>(s, n). give s n) rs f) = bytes f \<union> (\<Union>(s, n)\<in>set rs. span_of s n)"
  using assms
proof (induction rs arbitrary: f)
  case Nil
  then show ?case by simp
next
  case (Cons r rs)
  obtain s n where r: "r = (s, n)" by (cases r)
  then have i: "inv (give s n f)" and b: "bytes (give s n f) = bytes f \<union> span_of s n"
    using Cons.prems by (auto intro: give_inv simp: give_bytes)
  show ?case using Cons.IH [OF i] Cons.prems b r by auto
qed

end

locale byte_pool = byte_store +
  fixes entries :: "'f \<Rightarrow> (u64 \<times> u64) set"
    and take :: "u64 \<times> u64 \<Rightarrow> u64 \<Rightarrow> u64 \<Rightarrow> 'f \<Rightarrow> 'f"
  assumes entry_bytes: "inv f \<Longrightarrow> e \<in> entries f \<Longrightarrow> span_of (fst e) (snd e) \<subseteq> bytes f"
    and take_inv: "inv f \<Longrightarrow> e \<in> entries f \<Longrightarrow> 0 < unat n \<Longrightarrow> fits s n \<Longrightarrow>
      span_of s n \<subseteq> span_of (fst e) (snd e) \<Longrightarrow> inv (take e s n f)"
    and take_bytes: "inv f \<Longrightarrow> e \<in> entries f \<Longrightarrow> 0 < unat n \<Longrightarrow> fits s n \<Longrightarrow>
      span_of s n \<subseteq> span_of (fst e) (snd e) \<Longrightarrow> bytes (take e s n f) = bytes f - span_of s n"
begin

lemma take_splits:
  assumes "inv f" and "e \<in> entries f" and "0 < unat n" and "fits s n"
    and "span_of s n \<subseteq> span_of (fst e) (snd e)" and "splits pool (bytes f) used"
  shows "splits pool (bytes (take e s n f)) (used \<union> span_of s n)"
  using assms entry_bytes [OF assms(1,2)] by (auto simp: splits_def take_bytes)

lemma give_take_bytes:
  assumes "inv f" and "e \<in> entries f" and "0 < unat n" and "fits s n"
    and "span_of s n \<subseteq> span_of (fst e) (snd e)"
  shows "bytes (give s n (take e s n f)) = bytes f"
  using assms entry_bytes [OF assms(1,2)] by (auto simp: take_inv give_bytes take_bytes)

end

end
