(* ===== verification/FreeList.thy ===== *)
theory FreeList
  imports FreeRanges
begin

text \<open>
  The free list of \<open>PhysicalMemory\<close> and \<open>FlexibleMemory\<close>
  (\<open>src/src/kernel/memory.cpp\<close>): a map from range start to range size. The two classes have
  the same two helpers, text for text; they are modelled once here and interpreted as the
  \<open>byte_pool\<close> interface.
\<close>

subsection \<open>The code\<close>

definition ConsumeFreeRange :: "u64 \<times> u64 \<Rightarrow> u64 \<Rightarrow> u64 \<Rightarrow> free_ranges \<Rightarrow> free_ranges" where
  "ConsumeFreeRange rng start n fs =
     (let range_start = fst rng;
          range_end = fst rng + snd rng;
          fs1 = om_erase range_start fs;
          fs2 = (if range_start < start then om_emplace range_start (start - range_start) fs1 else fs1)
      in if start + n < range_end then om_emplace (start + n) (range_end - start - n) fs2 else fs2)"

fun absorb_next :: "u64 \<Rightarrow> free_ranges \<Rightarrow> u64 \<times> free_ranges" where
  "absorb_next e [] = (e, [])"
| "absorb_next e ((a, n) # rs) =
     (if a \<le> e then absorb_next (max e (a + n)) rs else (e, (a, n) # rs))"

definition AddFreeRange :: "u64 \<Rightarrow> u64 \<Rightarrow> free_ranges \<Rightarrow> free_ranges" where
  "AddFreeRange start n fs =
     (let e = start + n;
          (before, after) = om_lower start fs;
          (start, e, before) =
            (if before \<noteq> [] \<and> start \<le> fst (last before) + snd (last before)
             then (fst (last before), max e (fst (last before) + snd (last before)), butlast before)
             else (start, e, before));
          (e, after) = absorb_next e after
      in om_emplace start (e - start) (before @ after))"

subsection \<open>What it does to the free bytes\<close>

lemma absorb_next_spec:
  assumes "fr_ok fs" and "unat s \<le> unat e" and "\<forall>r\<in>set fs. unat s \<le> flo r"
    and "absorb_next e fs = (e', rest)"
  shows "unat e \<le> unat e' \<and> fr_ok rest \<and> (\<forall>r\<in>set rest. unat e' < flo r) \<and>
    {unat s ..< unat e} \<union> fr_bytes fs = {unat s ..< unat e'} \<union> fr_bytes rest"
  using assms
proof (induction e fs rule: absorb_next.induct)
  case (1 e)
  then show ?case by simp
next
  case (2 e a n rs)
  have r: "0 < unat n" "fits a n" "\<forall>q\<in>set rs. unat a + unat n < flo q" "fr_ok rs"
    using "2.prems"(1) by (auto simp: fr_ok_Cons)
  have an: "unat (a + n) = unat a + unat n" by (rule unat_end [OF r(2)])
  show ?case
  proof (cases "a \<le> e")
    case True
    let ?m = "max e (a + n)"
    have m: "unat ?m = max (unat e) (unat a + unat n)" by (simp add: unat_max_u64 an)
    have ih: "unat ?m \<le> unat e' \<and> fr_ok rest \<and> (\<forall>r\<in>set rest. unat e' < flo r) \<and>
        {unat s ..< unat ?m} \<union> fr_bytes rs = {unat s ..< unat e'} \<union> fr_bytes rest"
      using "2.IH" [OF True r(4)] "2.prems" True m by auto
    have "{unat s ..< unat e} \<union> span_of a n = {unat s ..< unat ?m}"
      using True "2.prems"(2,3) m by (auto simp: span_of_def le_u64)
    then show ?thesis using ih m by (auto simp: Un_assoc [symmetric])
  next
    case False
    then have "e' = e" "rest = (a, n) # rs" using "2.prems"(4) by auto
    moreover have "\<forall>q\<in>set ((a, n) # rs). unat e < flo q"
      using False r by (force simp: le_u64)
    ultimately show ?thesis using "2.prems"(1) by auto
  qed
qed

lemma om_lower_fr:
  assumes "fr_ok fs" and "om_lower s fs = (b, a)"
  shows "fs = b @ a" and "\<forall>r\<in>set b. flo r < unat s" and "\<forall>r\<in>set a. unat s \<le> flo r"
  using om_lower_append [of s fs] om_lower_before [of _ s fs] om_lower_after [OF fr_ok_om_ok [OF assms(1)], of _ s]
    assms(2) by auto

lemma AddFreeRange_spec:
  assumes ok: "fr_ok fs" and n: "0 < unat n" and fit: "fits s n"
  shows "fr_ok (AddFreeRange s n fs) \<and> fr_bytes (AddFreeRange s n fs) = fr_bytes fs \<union> span_of s n"
proof -
  obtain b a where ba: "om_lower s fs = (b, a)" by fastforce
  note d = om_lower_fr [OF ok ba]
  have okb: "fr_ok b" and oka: "fr_ok a" and sep: "\<forall>x\<in>set b. \<forall>y\<in>set a. fhi x < flo y"
    using ok d(1) by (auto simp: fr_ok_append)
  have sn: "unat (s + n) = unat s + unat n" by (rule unat_end [OF fit])
  text \<open>Joining the new range, perhaps grown to the left, with what follows.\<close>
  have join: "fr_ok (om_emplace s' (e' - s') (b' @ rest)) \<and>
      fr_bytes (om_emplace s' (e' - s') (b' @ rest)) = fr_bytes b' \<union> {unat s' ..< unat e} \<union> fr_bytes a"
    if "absorb_next e a = (e', rest)" "unat s' < unat e" "fr_ok b'" "\<forall>r\<in>set b'. fhi r < unat s'"
      "unat s' \<le> unat s" "\<forall>r\<in>set b'. \<forall>q\<in>set a. fhi r < flo q" for s' e b' e' rest
  proof -
    have sp: "unat e \<le> unat e' \<and> fr_ok rest \<and> (\<forall>r\<in>set rest. unat e' < flo r) \<and>
        {unat s' ..< unat e} \<union> fr_bytes a = {unat s' ..< unat e'} \<union> fr_bytes rest"
      by (rule absorb_next_spec [OF oka]) (use that d(3) in force)+
    have sz: "unat (e' - s') = unat e' - unat s'"
      using sp that(2) by (simp add: unat_minus_u64)
    have em: "om_emplace s' (e' - s') (b' @ rest) = b' @ (s', e' - s') # rest"
      by (rule om_emplace_middle) (use that sp in force)+
    have f: "fits s' (e' - s')" using sz sp that(2) unat_u64_lt [of e'] by (simp add: fits_def)
    have "fr_ok (b' @ (s', e' - s') # rest)"
      using that sp sz f by (force simp: fr_ok_append fr_ok_Cons)
    moreover have "span_of s' (e' - s') = {unat s' ..< unat e'}"
      using sz sp that(2) by (simp add: span_of_def)
    ultimately show ?thesis using em sp by auto
  qed
  show ?thesis
  proof (cases "b \<noteq> [] \<and> s \<le> fst (last b) + snd (last b)")
    case False
    obtain e' rest where ab: "absorb_next (s + n) a = (e', rest)" by fastforce
    have add: "AddFreeRange s n fs = om_emplace s (e' - s) (b @ rest)"
      unfolding AddFreeRange_def ba by (simp only: Let_def split_beta if_not_P [OF False] ab fst_conv snd_conv)
    have "\<forall>r\<in>set b. fhi r < unat s"
    proof (cases b rule: rev_cases)
      case (snoc b' p)
      have "fits (fst p) (snd p)" using okb snoc by (simp add: fr_ok_append fr_ok_Cons)
      then have "fhi p < unat s" using False snoc by (simp add: le_u64 unat_end)
      moreover have "\<forall>r\<in>set b'. fhi r < flo p" using okb snoc by (auto simp: fr_ok_append)
      ultimately show ?thesis using snoc by force
    qed simp
    then have "fr_ok (AddFreeRange s n fs) \<and>
        fr_bytes (AddFreeRange s n fs) = fr_bytes b \<union> {unat s ..< unat (s + n)} \<union> fr_bytes a"
      unfolding add using join [OF ab _ okb] sn n sep by simp
    then show ?thesis using d(1) sn by (auto simp: span_of_def)
  next
    case True
    then obtain b' p where b: "b = b' @ [p]" by (metis append_butlast_last_id)
    have p: "0 < unat (snd p)" "fits (fst p) (snd p)" "fr_ok b'" "\<forall>r\<in>set b'. fhi r < flo p" "flo p < unat s"
      using okb b d(2) by (auto simp: fr_ok_append fr_ok_Cons)
    have pe: "unat (fst p + snd p) = fhi p" by (rule unat_end [OF p(2)])
    let ?m = "max (s + n) (fst p + snd p)"
    have m: "unat ?m = max (unat s + unat n) (fhi p)" by (simp add: unat_max_u64 sn pe)
    obtain e' rest where ab: "absorb_next ?m a = (e', rest)" by fastforce
    have add: "AddFreeRange s n fs = om_emplace (fst p) (e' - fst p) (b' @ rest)"
      unfolding AddFreeRange_def ba
      using True b ab by (simp add: Let_def split_beta)
    have "\<forall>r\<in>set b'. \<forall>q\<in>set a. fhi r < flo q" using sep b by simp
    then have "fr_ok (AddFreeRange s n fs) \<and>
        fr_bytes (AddFreeRange s n fs) = fr_bytes b' \<union> {flo p ..< unat ?m} \<union> fr_bytes a"
      unfolding add using join [OF ab _ p(3,4)] m p(5) n by simp
    moreover have "{flo p ..< unat ?m} = span_of (fst p) (snd p) \<union> span_of s n"
      using True b p(5) pe m n by (auto simp: span_of_def le_u64)
    ultimately show ?thesis using d(1) b by auto
  qed
qed

lemma ConsumeFreeRange_split:
  assumes ok: "fr_ok fs" and e: "(rs, rn) \<in> set fs" and sub: "unat rs \<le> unat s" "unat s + unat n \<le> unat rs + unat rn"
  obtains A B where "fs = A @ (rs, rn) # B" and "ConsumeFreeRange (rs, rn) s n fs =
      A @ (if unat rs < unat s then [(rs, s - rs)] else []) @
      (if unat s + unat n < unat rs + unat rn then [(s + n, rs + rn - s - n)] else []) @ B"
proof -
  obtain A B where fs: "fs = A @ (rs, rn) # B" using e by (meson split_list)
  have r: "fits rs rn" "\<forall>q\<in>set A. fhi q < unat rs" "\<forall>q\<in>set B. unat rs + unat rn < flo q" "fr_ok A" "fr_ok B"
    using ok fs by (auto simp: fr_ok_append fr_ok_Cons)
  have re: "unat (rs + rn) = unat rs + unat rn" by (rule unat_end [OF r(1)])
  have se: "unat (s + n) = unat s + unat n"
    using sub re unat_u64_lt [of "rs + rn"] by (intro unat_plus_u64) simp
  have er: "om_erase rs fs = A @ B"
    using om_erase_middle [of A rs rn B] fr_ok_om_ok [OF ok] fs by simp
  have A: "\<forall>q\<in>set A. flo q < unat rs" using r(2) by force
  have B: "\<forall>q\<in>set B. unat s + unat n < flo q \<and> unat rs < flo q" using r(3) sub by force
  have l: "om_emplace rs (s - rs) (A @ B) = A @ (rs, s - rs) # B"
    by (rule om_emplace_middle) (use A B in auto)
  have rt: "om_emplace (s + n) k (A @ B) = A @ (s + n, k) # B" for k
    by (rule om_emplace_middle) (use A B sub se in force)+
  have lr: "om_emplace (s + n) k ((A @ [(rs, s - rs)]) @ B) = (A @ [(rs, s - rs)]) @ (s + n, k) # B"
    if "unat rs < unat s" for k
    by (rule om_emplace_middle) (use A B sub se that in force)+
  show ?thesis
    by (rule that [OF fs])
      (use l rt lr in \<open>simp add: ConsumeFreeRange_def Let_def er less_u64 se re\<close>)
qed

lemma ConsumeFreeRange_spec:
  assumes ok: "fr_ok fs" and e: "e \<in> set fs" and n: "0 < unat n" and fit: "fits s n"
    and sub: "span_of s n \<subseteq> span_of (fst e) (snd e)"
  shows "fr_ok (ConsumeFreeRange e s n fs) \<and> fr_bytes (ConsumeFreeRange e s n fs) = fr_bytes fs - span_of s n"
proof -
  obtain rs rn where er: "e = (rs, rn)" by fastforce
  have b: "unat rs \<le> unat s" "unat s + unat n \<le> unat rs + unat rn"
    using sub n er by (auto simp: span_of_def)
  obtain A B where fs: "fs = A @ (rs, rn) # B" and c: "ConsumeFreeRange (rs, rn) s n fs =
      A @ (if unat rs < unat s then [(rs, s - rs)] else []) @
      (if unat s + unat n < unat rs + unat rn then [(s + n, rs + rn - s - n)] else []) @ B"
    using ConsumeFreeRange_split [OF ok e [unfolded er] b] by metis
  have r: "fits rs rn" "\<forall>q\<in>set A. fhi q < unat rs" "\<forall>q\<in>set B. unat rs + unat rn < flo q" "fr_ok A" "fr_ok B"
    using ok fs by (auto simp: fr_ok_append fr_ok_Cons)
  have AB: "\<forall>x\<in>set A. \<forall>y\<in>set B. fhi x < flo y" using ok fs by (auto simp: fr_ok_append)
  have re: "unat (rs + rn) = unat rs + unat rn" by (rule unat_end [OF r(1)])
  have se: "unat (s + n) = unat s + unat n" by (rule unat_end [OF fit])
  have l: "unat (s - rs) = unat s - unat rs" by (rule unat_minus_u64 [OF b(1)])
  have rt: "unat (rs + rn - s - n) = unat rs + unat rn - (unat s + unat n)"
    unfolding diff_diff_eq using unat_minus_u64 [of "s + n" "rs + rn"] b re se by simp
  have f1: "fits rs (s - rs)" using l b unat_u64_lt [of s] by (simp add: fits_def)
  have f2: "fits (s + n) (rs + rn - s - n)"
    using rt se re b unat_u64_lt [of "rs + rn"] by (simp add: fits_def)
  have "fr_ok (ConsumeFreeRange e s n fs)"
    unfolding er c using r AB b n l rt se f1 f2 by (auto simp: fr_ok_append fr_ok_Cons)
  moreover have "x \<in> fr_bytes (ConsumeFreeRange e s n fs) \<longleftrightarrow> x \<in> fr_bytes fs - span_of s n" for x
  proof -
    have "x \<in> fr_bytes A \<Longrightarrow> x < unat rs" using r(2) by (auto simp: fr_bytes_mem; force)
    moreover have "x \<in> fr_bytes B \<Longrightarrow> unat rs + unat rn < x" using r(3) by (auto simp: fr_bytes_mem; force)
    ultimately show ?thesis
      unfolding er c unfolding fs using b l rt se by (auto simp: span_of_def)
  qed
  ultimately show ?thesis by blast
qed

interpretation free_list: byte_pool fr_ok fr_bytes AddFreeRange set ConsumeFreeRange
proof
  fix e and f :: free_ranges
  assume "fr_ok f" "e \<in> set f"
  then show "span_of (fst e) (snd e) \<subseteq> fr_bytes f"
    by (auto simp: fr_bytes_mem span_of_def)
qed (auto simp: AddFreeRange_spec ConsumeFreeRange_spec)

end
