(* ===== verification/PhysicalMemory.thy ===== *)
theory PhysicalMemory
  imports FreeList VirtualRanges
begin

text \<open>
  Direct memory: \<open>class PhysicalMemory\<close> of \<open>src/src/kernel/memory.cpp\<close>. It keeps the physical
  blocks handed out (\<open>m_physical\<close>, a map by start), the free ranges (\<open>m_free\<close>) and the virtual
  mappings of the blocks (\<open>m_mappings\<close>, a vector). Every operation takes the class's mutex, so it
  is one step here. Results written through pointers are returned; \<open>EXIT_IF\<close> is the value
  \<open>None\<close> of the outer option.
\<close>

subsection \<open>State\<close>

record phys_block =
  pb_start_addr :: u64
  pb_size :: u64
  pb_map_vaddr :: u64
  pb_map_size :: u64
  pb_host_vaddr :: u64
  pb_host_size :: u64
  pb_prot :: i32
  pb_mode :: vmode
  pb_gpu_mode :: gpu_access
  pb_memory_type :: i32
  pb_pool_expansion :: bool
  pb_name :: string

record physical_memory =
  pm_physical :: "phys_block omap"
  pm_free :: free_ranges
  pm_mappings :: "phys_block list"

definition PhysicalMemory_TotalSize :: u64 where
  "PhysicalMemory_TotalSize = 13824 * 1024 * 1024"

text \<open>\<open>flex\<close> is the global \<open>g_flexible_memory_size\<close>; an oversized one aborts.\<close>

definition PhysicalMemory_Size :: "u64 \<Rightarrow> u64 option" where
  "PhysicalMemory_Size flex =
     (if PhysicalMemory_TotalSize \<le> flex then None else Some (PhysicalMemory_TotalSize - flex))"

definition PhysicalMemory_init :: "u64 \<Rightarrow> physical_memory option" where
  "PhysicalMemory_init flex =
     map_option (\<lambda>n. \<lparr>pm_physical = [], pm_free = om_emplace 0 n [], pm_mappings = []\<rparr>)
       (PhysicalMemory_Size flex)"

text \<open>\<open>AlignedPos\<close> is a value with a validity flag.\<close>

definition GetAlignedPos :: "u64 \<Rightarrow> u64 \<Rightarrow> u64 option" where
  "GetAlignedPos pos alignment =
     (if alignment = 0 then Some pos
      else
        let remainder = pos mod alignment;
            increment = (if remainder \<noteq> 0 then alignment - remainder else 0)
        in if u64_max - pos < increment then None else Some (pos + increment))"

subsection \<open>Allocation\<close>

definition alloc_fit :: "u64 \<Rightarrow> u64 \<Rightarrow> u64 \<Rightarrow> u64 \<Rightarrow> u64 \<times> u64 \<Rightarrow> u64 option" where
  "alloc_fit search_start search_end len alignment rng =
     (let range_end = min (fst rng + snd rng) search_end;
          lower = max (fst rng) search_start
      in case GetAlignedPos lower alignment of
           None \<Rightarrow> None
         | Some free_pos \<Rightarrow>
             if free_pos < lower \<or> range_end < free_pos \<or> range_end - free_pos < len then None
             else Some free_pos)"

fun alloc_loop :: "u64 \<Rightarrow> u64 \<Rightarrow> u64 \<Rightarrow> u64 \<Rightarrow> free_ranges \<Rightarrow> ((u64 \<times> u64) \<times> u64) option" where
  "alloc_loop search_start search_end len alignment [] = None"
| "alloc_loop search_start search_end len alignment (rng # rs) =
     (if fst rng < search_end then
        (case alloc_fit search_start search_end len alignment rng of
           Some free_pos \<Rightarrow> Some (rng, free_pos)
         | None \<Rightarrow> alloc_loop search_start search_end len alignment rs)
      else None)"

definition PhysicalMemory_Alloc ::
  "u64 \<Rightarrow> u64 \<Rightarrow> u64 \<Rightarrow> u64 \<Rightarrow> u64 \<Rightarrow> i32 \<Rightarrow> bool \<Rightarrow> physical_memory \<Rightarrow>
   (u64 option \<times> physical_memory) option" where
  "PhysicalMemory_Alloc flex search_start search_end len alignment memory_type pool_expansion pm =
     (case PhysicalMemory_Size flex of
        None \<Rightarrow> None
      | Some memory_size \<Rightarrow>
          let search_end = min search_end memory_size
          in if search_end \<le> search_start then Some (None, pm)
             else
               case alloc_loop search_start search_end len alignment (om_scan_from search_start (pm_free pm)) of
                 None \<Rightarrow> Some (None, pm)
               | Some (rng, free_pos) \<Rightarrow>
                   let b = \<lparr>pb_start_addr = free_pos, pb_size = len, pb_map_vaddr = 0, pb_map_size = 0,
                            pb_host_vaddr = 0, pb_host_size = 0, pb_prot = 0, pb_mode = NoAccess,
                            pb_gpu_mode = GpuNoAccess, pb_memory_type = memory_type,
                            pb_pool_expansion = pool_expansion, pb_name = ''''\<rparr>
                   in if om_find free_pos (pm_physical pm) \<noteq> None then None
                      else Some (Some free_pos,
                        pm\<lparr>pm_free := ConsumeFreeRange rng free_pos len (pm_free pm),
                           pm_physical := om_emplace free_pos b (pm_physical pm)\<rparr>))"

text \<open>The largest aligned free piece of the search window; the first one on a tie.\<close>

fun available_loop :: "u64 \<Rightarrow> u64 \<Rightarrow> u64 \<Rightarrow> u64 \<times> u64 \<Rightarrow> free_ranges \<Rightarrow> u64 \<times> u64" where
  "available_loop search_start search_end alignment best [] = best"
| "available_loop search_start search_end alignment best (rng # rs) =
     (if search_end \<le> fst rng then best
      else
        let range_end = min (fst rng + snd rng) search_end;
            lower = max (fst rng) search_start;
            best = (case GetAlignedPos lower alignment of
                      None \<Rightarrow> best
                    | Some free_pos \<Rightarrow>
                        if lower \<le> free_pos \<and> free_pos < range_end \<and> snd best < range_end - free_pos
                        then (free_pos, range_end - free_pos) else best)
        in available_loop search_start search_end alignment best rs)"

definition PhysicalMemory_Available ::
  "u64 \<Rightarrow> u64 \<Rightarrow> u64 \<Rightarrow> u64 \<Rightarrow> physical_memory \<Rightarrow> (u64 \<times> u64) option option" where
  "PhysicalMemory_Available flex search_start search_end alignment pm =
     (case PhysicalMemory_Size flex of
        None \<Rightarrow> None
      | Some memory_size \<Rightarrow>
          let search_end = min search_end memory_size
          in if search_end \<le> search_start then Some None
             else
               let best = available_loop search_start search_end alignment (0, 0) (pm_free pm)
               in if snd best = 0 then Some None else Some (Some best))"

subsection \<open>Release\<close>

text \<open>
  The result holds the virtual range and GPU mode the caller has to unmap. A block is kept, cut
  or split depending on where the released range lies in it.
\<close>

definition PhysicalMemory_Release ::
  "u64 \<Rightarrow> u64 \<Rightarrow> physical_memory \<Rightarrow> (u64 \<times> u64 \<times> gpu_access) option \<times> physical_memory" where
  "PhysicalMemory_Release start len pm =
     (let (before, after) = om_upper start (pm_physical pm)
      in if before = [] then (None, pm)
         else
           let key = fst (last before); b = snd (last before);
               b_end = pb_start_addr b + pb_size b
           in if pb_pool_expansion b \<or> start < pb_start_addr b \<or> b_end \<le> start \<or> b_end - start < len
              then (None, pm)
              else if start = pb_start_addr b \<and> len = pb_size b then
                (Some (pb_map_vaddr b, pb_map_size b, pb_gpu_mode b),
                 pm\<lparr>pm_physical := om_erase key (pm_physical pm),
                    pm_free := AddFreeRange start len (pm_free pm)\<rparr>)
              else if pb_start_addr b < start \<and> start + len < b_end then
                let old_start = pb_start_addr b;
                    right = b\<lparr>pb_start_addr := start + len, pb_size := b_end - (start + len)\<rparr>;
                    right = (if pb_map_vaddr right \<noteq> 0
                             then right\<lparr>pb_map_vaddr := pb_map_vaddr right + (pb_start_addr right - old_start),
                                        pb_map_size := pb_size right\<rparr>
                             else right);
                    left = b\<lparr>pb_size := start - old_start\<rparr>;
                    left = (if pb_map_vaddr left \<noteq> 0 then left\<lparr>pb_map_size := pb_size left\<rparr> else left)
                in (Some (if pb_map_vaddr b \<noteq> 0 then pb_map_vaddr b + (start - old_start) else 0,
                          if pb_map_vaddr b \<noteq> 0 then len else 0, pb_gpu_mode b),
                    pm\<lparr>pm_physical := om_emplace (pb_start_addr right) right
                          (om_assign key left (pm_physical pm)),
                       pm_free := AddFreeRange start len (pm_free pm)\<rparr>)
              else if start = pb_start_addr b \<and> len < pb_size b then
                let remaining = b\<lparr>pb_start_addr := pb_start_addr b + len, pb_size := pb_size b - len\<rparr>;
                    remaining = (if pb_map_vaddr remaining \<noteq> 0
                                 then remaining\<lparr>pb_map_vaddr := pb_map_vaddr remaining + len,
                                                pb_map_size := pb_map_size remaining - len\<rparr>
                                 else remaining)
                in (Some (pb_map_vaddr b, if pb_map_vaddr b \<noteq> 0 then len else 0, pb_gpu_mode b),
                    pm\<lparr>pm_physical := om_emplace (pb_start_addr remaining) remaining
                          (om_erase key (pm_physical pm)),
                       pm_free := AddFreeRange start len (pm_free pm)\<rparr>)
              else if pb_start_addr b < start \<and> start + len = b_end then
                let left = b\<lparr>pb_size := start - pb_start_addr b\<rparr>;
                    left = (if pb_map_vaddr left \<noteq> 0 then left\<lparr>pb_map_size := pb_size left\<rparr> else left)
                in (Some (if pb_map_vaddr b \<noteq> 0 then pb_map_vaddr b + (start - pb_start_addr b) else 0,
                          if pb_map_vaddr b \<noteq> 0 then len else 0, pb_gpu_mode b),
                    pm\<lparr>pm_physical := om_assign key left (pm_physical pm),
                       pm_free := AddFreeRange start len (pm_free pm)\<rparr>)
              else (None, pm))"

definition PhysicalMemory_ReleasePoolExpansion ::
  "u64 \<Rightarrow> u64 \<Rightarrow> physical_memory \<Rightarrow> bool \<times> physical_memory" where
  "PhysicalMemory_ReleasePoolExpansion phys_addr len pm =
     (case om_find phys_addr (pm_physical pm) of
        None \<Rightarrow> (False, pm)
      | Some b \<Rightarrow>
          if \<not> pb_pool_expansion b \<or> pb_size b \<noteq> len then (False, pm)
          else (True, pm\<lparr>pm_physical := om_erase phys_addr (pm_physical pm),
                         pm_free := AddFreeRange phys_addr len (pm_free pm)\<rparr>))"

subsection \<open>Spans of allocated blocks\<close>

text \<open>
  One step of the walk over blocks: the non-pool block at the address, cut at the end of the
  request; it must be followed without a gap unless the request ends in it.
\<close>

definition span_step :: "phys_block omap \<Rightarrow> u64 \<Rightarrow> u64 \<Rightarrow> (phys_block \<times> u64) option" where
  "span_step blocks finish current =
     (let (before, after) = om_upper current blocks
      in if before = [] then None
         else
           let b = snd (last before); block_end = pb_start_addr b + pb_size b
           in if pb_pool_expansion b \<or> current < pb_start_addr b \<or> block_end \<le> current then None
              else
                let nxt = min finish block_end
                in if nxt < finish \<and> (after = [] \<or> pb_start_addr (snd (hd after)) \<noteq> nxt) then None
                   else Some (b, nxt))"

lemma span_step_advances: "span_step blocks e c = Some (b, c') \<Longrightarrow> c < e \<Longrightarrow> unat c < unat c' \<and> unat c' \<le> unat e"
  by (auto simp: span_step_def Let_def less_u64 le_u64 unat_min_u64 split: if_splits prod.splits)

function direct_walk :: "phys_block omap \<Rightarrow> u64 \<Rightarrow> u64 \<Rightarrow> bool" where
  "direct_walk blocks finish current =
     (if current < finish then
        (case span_step blocks finish current of
           None \<Rightarrow> False
         | Some (b, nxt) \<Rightarrow> direct_walk blocks finish nxt)
      else True)"
  by pat_completeness auto
termination
  by (relation "measure (\<lambda>(b, e, c). unat e - unat c)") (auto dest!: span_step_advances simp: less_u64)

function span_walk :: "phys_block omap \<Rightarrow> u64 \<Rightarrow> u64 \<Rightarrow> phys_block list \<Rightarrow> phys_block list option" where
  "span_walk blocks finish current out =
     (if current < finish then
        (case span_step blocks finish current of
           None \<Rightarrow> None
         | Some (b, nxt) \<Rightarrow>
             span_walk blocks finish nxt (out @ [b\<lparr>pb_start_addr := current, pb_size := nxt - current\<rparr>]))
      else Some out)"
  by pat_completeness auto
termination
  by (relation "measure (\<lambda>(b, e, c, out). unat e - unat c)") (auto dest!: span_step_advances simp: less_u64)

declare direct_walk.simps [simp del] span_walk.simps [simp del]

definition PhysicalMemory_CanMapDirect :: "u64 \<Rightarrow> u64 \<Rightarrow> physical_memory \<Rightarrow> bool" where
  "PhysicalMemory_CanMapDirect phys_addr len pm =
     (if len = 0 \<or> u64_max - phys_addr < len then False
      else direct_walk (pm_physical pm) (phys_addr + len) phys_addr)"

definition PhysicalMemory_GetAllocatedSpan :: "u64 \<Rightarrow> u64 \<Rightarrow> physical_memory \<Rightarrow> phys_block list option" where
  "PhysicalMemory_GetAllocatedSpan phys_addr len pm =
     (if len = 0 \<or> u64_max - phys_addr < len then None
      else span_walk (pm_physical pm) (phys_addr + len) phys_addr [])"

subsection \<open>Mappings\<close>

definition PhysicalMemory_Map ::
  "u64 \<Rightarrow> u64 \<Rightarrow> u64 \<Rightarrow> i32 \<Rightarrow> vmode \<Rightarrow> gpu_access \<Rightarrow> physical_memory \<Rightarrow> bool \<times> physical_memory" where
  "PhysicalMemory_Map vaddr phys_addr len prot mode gpu_mode pm =
     (if len = 0 \<or> u64_max - phys_addr < len then (False, pm)
      else
        let (before, after) = om_upper phys_addr (pm_physical pm)
        in if before = [] then (False, pm)
           else if \<not> direct_walk (pm_physical pm) (phys_addr + len) phys_addr then (False, pm)
           else
             let mapping = (snd (last before))\<lparr>pb_start_addr := phys_addr, pb_size := len,
                   pb_map_vaddr := vaddr, pb_map_size := len, pb_host_vaddr := vaddr,
                   pb_host_size := len, pb_prot := prot, pb_mode := mode, pb_gpu_mode := gpu_mode\<rparr>
             in (True, pm\<lparr>pm_mappings := pm_mappings pm @ [mapping]\<rparr>))"

text \<open>
  The loop of \<open>Unmap\<close> over the mappings: the new vector, the GPU mode, and the host range that
  lost its last mapping (0 for none). A mapping split in two appends its right part.
\<close>

definition host_release :: "phys_block list \<Rightarrow> u64 \<Rightarrow> u64 \<Rightarrow> u64" where
  "host_release ms host_vaddr host_size =
     (if host_vaddr = 0 \<or> host_size = 0 then 0
      else if \<exists>b\<in>set ms. pb_host_vaddr b = host_vaddr \<and> pb_host_size b = host_size then 0
      else host_vaddr)"

fun unmap_loop :: "u64 \<Rightarrow> u64 \<Rightarrow> phys_block list \<Rightarrow> phys_block list \<Rightarrow>
   (gpu_access \<times> u64 \<times> phys_block list) option" where
  "unmap_loop vaddr n before [] = None"
| "unmap_loop vaddr n before (b # rest) =
     (if pb_map_vaddr b = vaddr \<and> pb_map_size b = n then
        Some (pb_gpu_mode b, host_release (before @ rest) (pb_host_vaddr b) (pb_host_size b), before @ rest)
      else if pb_map_vaddr b < vaddr \<and> vaddr + n < pb_map_vaddr b + pb_map_size b then
        let right_size = pb_map_vaddr b + pb_map_size b - (vaddr + n);
            right = b\<lparr>pb_start_addr := pb_start_addr b + ((vaddr + n) - pb_map_vaddr b),
                      pb_size := right_size, pb_map_size := right_size, pb_map_vaddr := vaddr + n\<rparr>;
            left = b\<lparr>pb_size := vaddr - pb_map_vaddr b, pb_map_size := vaddr - pb_map_vaddr b\<rparr>
        in Some (pb_gpu_mode b, 0, before @ left # rest @ [right])
      else if vaddr = pb_map_vaddr b \<and> n < pb_map_size b then
        Some (pb_gpu_mode b, 0,
          before @ b\<lparr>pb_start_addr := pb_start_addr b + n, pb_size := pb_size b - n,
                     pb_map_vaddr := pb_map_vaddr b + n, pb_map_size := pb_map_size b - n\<rparr> # rest)
      else if pb_map_vaddr b < vaddr \<and> vaddr + n = pb_map_vaddr b + pb_map_size b then
        Some (pb_gpu_mode b, 0,
          before @ b\<lparr>pb_size := vaddr - pb_map_vaddr b, pb_map_size := vaddr - pb_map_vaddr b\<rparr> # rest)
      else unmap_loop vaddr n (before @ [b]) rest)"

definition PhysicalMemory_Unmap ::
  "u64 \<Rightarrow> u64 \<Rightarrow> physical_memory \<Rightarrow> (gpu_access \<times> u64) option \<times> physical_memory" where
  "PhysicalMemory_Unmap vaddr n pm =
     (case unmap_loop vaddr n [] (pm_mappings pm) of
        None \<Rightarrow> (None, pm)
      | Some (gpu_mode, host, ms) \<Rightarrow> (Some (gpu_mode, host), pm\<lparr>pm_mappings := ms\<rparr>))"

definition protect_block :: "u64 \<Rightarrow> u64 \<Rightarrow> i32 \<Rightarrow> vmode \<Rightarrow> gpu_access \<Rightarrow> phys_block \<Rightarrow> phys_block list" where
  "protect_block vaddr n prot mode gpu_mode block =
     (let finish = vaddr + n; block_end = pb_map_vaddr block + pb_map_size block
      in if \<not> VirtualRangesOverlap vaddr n (pb_map_vaddr block) (pb_map_size block) then [block]
         else
           let overlap_start = max vaddr (pb_map_vaddr block);
               overlap_end = min finish block_end;
               left = block\<lparr>pb_size := overlap_start - pb_map_vaddr block,
                            pb_map_size := overlap_start - pb_map_vaddr block\<rparr>;
               middle = block\<lparr>pb_start_addr := pb_start_addr block + overlap_start - pb_map_vaddr block,
                              pb_size := overlap_end - overlap_start, pb_map_vaddr := overlap_start,
                              pb_map_size := overlap_end - overlap_start, pb_prot := prot,
                              pb_mode := mode, pb_gpu_mode := gpu_mode\<rparr>;
               right = block\<lparr>pb_start_addr := pb_start_addr block + overlap_end - pb_map_vaddr block,
                             pb_size := block_end - overlap_end, pb_map_vaddr := overlap_end,
                             pb_map_size := block_end - overlap_end\<rparr>
           in (if pb_map_vaddr block < overlap_start then [left] else []) @ [middle] @
              (if overlap_end < block_end then [right] else []))"

definition PhysicalMemory_ProtectMapping ::
  "u64 \<Rightarrow> u64 \<Rightarrow> i32 \<Rightarrow> vmode \<Rightarrow> gpu_access \<Rightarrow> physical_memory \<Rightarrow> physical_memory" where
  "PhysicalMemory_ProtectMapping vaddr n prot mode gpu_mode pm =
     (if n = 0 \<or> u64_max - vaddr < n then pm
      else pm\<lparr>pm_mappings := concat (map (protect_block vaddr n prot mode gpu_mode) (pm_mappings pm))\<rparr>)"

definition PhysicalMemory_FindPhysical :: "u64 \<Rightarrow> bool \<Rightarrow> physical_memory \<Rightarrow> phys_block option" where
  "PhysicalMemory_FindPhysical phys_addr want_next pm =
     (let (before, following) = om_upper phys_addr (pm_physical pm);
          at = (if before = [] then None else Some (snd (last before)))
      in case at of
           Some b \<Rightarrow>
             if phys_addr < pb_start_addr b + pb_size b then Some b
             else if want_next \<and> following \<noteq> [] then Some (snd (hd following)) else None
         | None \<Rightarrow> if want_next \<and> following \<noteq> [] then Some (snd (hd following)) else None)"

text \<open>\<open>std::sort\<close> is not stable; mappings have distinct addresses, so the order is the same.\<close>

definition mapping_part :: "u64 \<Rightarrow> u64 \<Rightarrow> phys_block \<Rightarrow> phys_block" where
  "mapping_part phys_addr len m =
     (let overlap_start = max phys_addr (pb_start_addr m);
          overlap_end = min (phys_addr + len) (pb_start_addr m + pb_size m)
      in m\<lparr>pb_start_addr := overlap_start, pb_size := overlap_end - overlap_start,
           pb_map_vaddr := pb_map_vaddr m + (overlap_start - pb_start_addr m),
           pb_map_size := overlap_end - overlap_start\<rparr>)"

definition PhysicalMemory_FindMappings :: "u64 \<Rightarrow> u64 \<Rightarrow> physical_memory \<Rightarrow> phys_block list" where
  "PhysicalMemory_FindMappings phys_addr len pm =
     sort_key pb_map_vaddr
       (map (mapping_part phys_addr len)
         (filter (\<lambda>m. VirtualRangesOverlap phys_addr len (pb_start_addr m) (pb_size m)) (pm_mappings pm)))"

definition PhysicalMemory_FindVirtual :: "u64 \<Rightarrow> physical_memory \<Rightarrow> phys_block option" where
  "PhysicalMemory_FindVirtual vaddr pm =
     find (\<lambda>b. pb_map_vaddr b \<le> vaddr \<and> vaddr < pb_map_vaddr b + pb_map_size b) (pm_mappings pm)"

definition PhysicalMemory_SetVirtualRangeName ::
  "u64 \<Rightarrow> u64 \<Rightarrow> string option \<Rightarrow> physical_memory \<Rightarrow> physical_memory" where
  "PhysicalMemory_SetVirtualRangeName vaddr len nm pm =
     pm\<lparr>pm_mappings := map (\<lambda>b. if VirtualRangesOverlap vaddr len (pb_map_vaddr b) (pb_map_size b)
          then b\<lparr>pb_name := CopyVirtualRangeName nm\<rparr> else b) (pm_mappings pm)\<rparr>"

definition PhysicalMemory_SetVirtualRangeMemoryType ::
  "u64 \<Rightarrow> u64 \<Rightarrow> i32 \<Rightarrow> physical_memory \<Rightarrow> physical_memory" where
  "PhysicalMemory_SetVirtualRangeMemoryType vaddr len memory_type pm =
     pm\<lparr>pm_mappings := map (\<lambda>b. if VirtualRangesOverlap vaddr len (pb_map_vaddr b) (pb_map_size b)
          then b\<lparr>pb_memory_type := memory_type\<rparr> else b) (pm_mappings pm)\<rparr>"

end
