(* ===== verification/PhysicalMemoryBlocks.thy ===== *)
theory PhysicalMemoryBlocks
  imports PhysicalMemory
begin

text \<open>
  \<open>PhysicalMemory\<close>: free ranges and allocated blocks split the direct memory at every moment,
  allocation is first fit and complete, and a release cuts one block.
\<close>

subsection \<open>Alignment\<close>

lemma GetAlignedPos_spec:
  assumes al: "al \<noteq> 0"
  shows "case GetAlignedPos pos al of
      None \<Rightarrow> \<forall>q. unat pos \<le> q \<longrightarrow> unat al dvd q \<longrightarrow> 18446744073709551616 \<le> q
    | Some p \<Rightarrow> unat pos \<le> unat p \<and> unat al dvd unat p \<and> (\<forall>q. unat pos \<le> q \<longrightarrow> unat al dvd q \<longrightarrow> unat p \<le> q)"
proof -
  let ?a = "unat al" and ?p = "unat pos"
  let ?inc = "if pos mod al \<noteq> 0 then al - pos mod al else 0"
  have a: "0 < ?a" using al by (simp add: neq0_u64)
  have md: "unat (pos mod al) = ?p mod ?a" by (simp add: unat_mod)
  have lt: "?p mod ?a < ?a" using a by simp
  have inc: "unat ?inc = (if ?p mod ?a = 0 then 0 else ?a - ?p mod ?a)"
    using md lt unat_minus_u64 [of "pos mod al" al] by (auto simp: eq_u64)
  have dv: "?a dvd ?p + unat ?inc"
    using inc lt by (auto simp: dvd_eq_mod_eq_0 mod_add_left_eq [symmetric, of ?p])
  have least: "?p + unat ?inc \<le> q" if q: "?p \<le> q" "?a dvd q" for q
  proof (rule ccontr)
    assume "\<not> ?p + unat ?inc \<le> q"
    then have "q < ?p + unat ?inc" by simp
    moreover have "unat ?inc < ?a" using inc lt a by auto
    ultimately have "0 < ?p + unat ?inc - q" "?p + unat ?inc - q < ?a" using q(1) by auto
    moreover have "?a dvd ?p + unat ?inc - q" using dv q(2) by (rule dvd_diff_nat)
    ultimately show False using nat_dvd_not_less by blast
  qed
  have g: "GetAlignedPos pos al = (if u64_max - pos < ?inc then None else Some (pos + ?inc))"
    using al by (simp add: GetAlignedPos_def Let_def)
  show ?thesis
  proof (cases "u64_max - pos < ?inc")
    case True
    then have "\<not> fits pos ?inc" using unat_minus_u64 [of pos u64_max] unat_u64_le [of pos]
      by (simp add: less_u64 fits_def)
    then have "18446744073709551616 \<le> ?p + unat ?inc" by (simp add: fits_def)
    then have "\<forall>q. ?p \<le> q \<longrightarrow> ?a dvd q \<longrightarrow> 18446744073709551616 \<le> q" using least by (meson le_trans)
    then show ?thesis by (simp only: g if_P [OF True] option.case)
  next
    case False
    then have "fits pos ?inc" using unat_minus_u64 [of pos u64_max] unat_u64_le [of pos]
      by (simp add: less_u64 fits_def)
    then have "unat (pos + ?inc) = ?p + unat ?inc" by (rule unat_end)
    then have "?p \<le> unat (pos + ?inc) \<and> ?a dvd unat (pos + ?inc) \<and>
        (\<forall>q. ?p \<le> q \<longrightarrow> ?a dvd q \<longrightarrow> unat (pos + ?inc) \<le> q)"
      using dv least by simp
    then show ?thesis unfolding g if_not_P [OF False] option.case .
  qed
qed

text \<open>An alignment of zero means none, the same as one.\<close>

definition align_of :: "u64 \<Rightarrow> nat" where
  "align_of al = (if al = 0 then 1 else unat al)"

lemma GetAlignedPos_cases:
  "case GetAlignedPos pos al of
      None \<Rightarrow> \<forall>q. unat pos \<le> q \<longrightarrow> align_of al dvd q \<longrightarrow> 18446744073709551616 \<le> q
    | Some p \<Rightarrow> unat pos \<le> unat p \<and> align_of al dvd unat p \<and>
        (\<forall>q. unat pos \<le> q \<longrightarrow> align_of al dvd q \<longrightarrow> unat p \<le> q)"
proof (cases "al = 0")
  case True
  then show ?thesis by (simp add: GetAlignedPos_def align_of_def)
next
  case False
  then have "align_of al = unat al" by (simp add: align_of_def)
  then show ?thesis using GetAlignedPos_spec [OF False, of pos] by (simp only:)
qed

subsection \<open>First fit\<close>

text \<open>Where a request may go: aligned, inside the search window, on free bytes.\<close>

definition fits_at :: "free_ranges \<Rightarrow> u64 \<Rightarrow> u64 \<Rightarrow> u64 \<Rightarrow> u64 \<Rightarrow> nat \<Rightarrow> bool" where
  "fits_at fs ss se len al q \<longleftrightarrow>
     unat ss \<le> q \<and> q + unat len \<le> unat se \<and> align_of al dvd q \<and> {q ..< q + unat len} \<subseteq> fr_bytes fs"

lemma alloc_fit_spec:
  assumes r: "fits (fst r) (snd r)"
  shows "case alloc_fit ss se len al r of
      None \<Rightarrow> \<not> (\<exists>q. unat ss \<le> q \<and> flo r \<le> q \<and> q + unat len \<le> fhi r \<and> q + unat len \<le> unat se \<and> align_of al dvd q)
    | Some p \<Rightarrow> unat ss \<le> unat p \<and> flo r \<le> unat p \<and> unat p + unat len \<le> fhi r \<and>
        unat p + unat len \<le> unat se \<and> align_of al dvd unat p \<and>
        (\<forall>q. unat ss \<le> q \<and> flo r \<le> q \<and> align_of al dvd q \<longrightarrow> unat p \<le> q)"
proof -
  let ?lower = "max (fst r) ss" and ?fin = "min (fst r + snd r) se"
  have e: "unat ?fin = min (fhi r) (unat se)" by (simp add: unat_min_u64 unat_end [OF r])
  have l: "unat ?lower = max (flo r) (unat ss)" by (simp add: unat_max_u64)
  note g = GetAlignedPos_cases [of ?lower al]
  show ?thesis
  proof (cases "GetAlignedPos ?lower al")
    case None
    then have "alloc_fit ss se len al r = None" by (simp add: alloc_fit_def Let_def)
    moreover have "\<not> (\<exists>q. unat ss \<le> q \<and> flo r \<le> q \<and> q + unat len \<le> fhi r \<and>
        q + unat len \<le> unat se \<and> align_of al dvd q)"
    proof
      assume "\<exists>q. unat ss \<le> q \<and> flo r \<le> q \<and> q + unat len \<le> fhi r \<and>
        q + unat len \<le> unat se \<and> align_of al dvd q"
      then obtain q where q: "unat ss \<le> q" "flo r \<le> q" "q + unat len \<le> unat se" "align_of al dvd q" by blast
      then have "18446744073709551616 \<le> q" using g None l by simp
      then show False using q(3) unat_u64_lt [of se] by simp
    qed
    ultimately show ?thesis by simp
  next
    case (Some p)
    then have gp: "unat ?lower \<le> unat p" "align_of al dvd unat p"
        "\<And>q. unat ?lower \<le> q \<Longrightarrow> align_of al dvd q \<Longrightarrow> unat p \<le> q"
      using g by auto
    have fit: "\<not> (p < ?lower \<or> ?fin < p \<or> ?fin - p < len) \<longleftrightarrow> unat p + unat len \<le> unat ?fin"
      using gp(1) unat_minus_u64 [of p ?fin] by (auto simp: less_u64 not_less)
    show ?thesis
    proof (cases "unat p + unat len \<le> unat ?fin")
      case True
      then have "alloc_fit ss se len al r = Some p"
        using Some fit by (simp add: alloc_fit_def Let_def)
      then show ?thesis using gp l e True by auto
    next
      case False
      then have "alloc_fit ss se len al r = None"
        using Some fit by (simp add: alloc_fit_def Let_def)
      moreover have "\<not> (\<exists>q. unat ss \<le> q \<and> flo r \<le> q \<and> q + unat len \<le> fhi r \<and>
          q + unat len \<le> unat se \<and> align_of al dvd q)"
      proof
        assume "\<exists>q. unat ss \<le> q \<and> flo r \<le> q \<and> q + unat len \<le> fhi r \<and>
          q + unat len \<le> unat se \<and> align_of al dvd q"
        then obtain q where q: "unat ss \<le> q" "flo r \<le> q" "q + unat len \<le> fhi r"
            "q + unat len \<le> unat se" "align_of al dvd q" by blast
        then have "unat p \<le> q" using gp(3) [of q] l by simp
        then show False using q(3,4) False e by simp
      qed
      ultimately show ?thesis by simp
    qed
  qed
qed

text \<open>On a sorted scan list: a hit is the least place, a miss means there is none.\<close>

lemma alloc_loop_spec:
  assumes "fr_ok rs" and "0 < unat len"
  shows "case alloc_loop ss se len al rs of
      None \<Rightarrow> \<not> (\<exists>q. fits_at rs ss se len al q)
    | Some (r, p) \<Rightarrow> r \<in> set rs \<and> fits_at rs ss se len al (unat p) \<and>
        span_of p len \<subseteq> span_of (fst r) (snd r) \<and> (\<forall>q. fits_at rs ss se len al q \<longrightarrow> unat p \<le> q)"
  using assms
proof (induction rs)
  case Nil
  then show ?case by (auto simp: fits_at_def)
next
  case (Cons r rs)
  have r: "0 < unat (snd r)" "fits (fst r) (snd r)" "\<forall>q\<in>set rs. fhi r < flo q" "fr_ok rs"
    using Cons.prems(1) by (auto simp: fr_ok_Cons)
  note fit = alloc_fit_spec [OF r(2), of ss len se al]
  have in_entry: "\<exists>e\<in>set (r # rs). flo e \<le> q \<and> q + unat len \<le> fhi e"
    if "fits_at (r # rs) ss se len al q" for q
    using fr_run_in_entry [OF Cons.prems(1), of q "q + unat len"] that Cons.prems(2)
    by (simp add: fits_at_def)
  have up: "fits_at (r # rs) ss se len al q" if "fits_at rs ss se len al q" for q
    using that by (auto simp: fits_at_def)
  have down: "fits_at rs ss se len al q"
    if f: "fits_at (r # rs) ss se len al q" and n: "\<not> (flo r \<le> q \<and> q + unat len \<le> fhi r)" for q
  proof -
    obtain e where "e \<in> set rs" "flo e \<le> q" "q + unat len \<le> fhi e"
      using in_entry [OF f] n by auto
    then have "{q ..< q + unat len} \<subseteq> fr_bytes rs"
      unfolding fr_bytes_mem subset_iff by (intro allI impI bexI [of _ e]) auto
    then show ?thesis using f by (auto simp: fits_at_def)
  qed
  show ?case
  proof (cases "fst r < se")
    case False
    have "\<not> fits_at (r # rs) ss se len al q" for q
    proof
      assume f: "fits_at (r # rs) ss se len al q"
      obtain e where "e \<in> set (r # rs)" "flo e \<le> q" using in_entry [OF f] by blast
      then have "flo r \<le> q" using r(1,3) by force
      then show False using f False Cons.prems(2) by (simp add: fits_at_def less_u64)
    qed
    then show ?thesis using False by simp
  next
    case True
    show ?thesis
    proof (cases "alloc_fit ss se len al r")
      case (Some p)
      then have p: "unat ss \<le> unat p" "flo r \<le> unat p" "unat p + unat len \<le> fhi r"
          "unat p + unat len \<le> unat se" "align_of al dvd unat p"
          "\<And>q. unat ss \<le> q \<and> flo r \<le> q \<and> align_of al dvd q \<Longrightarrow> unat p \<le> q"
        using fit by auto
      have "fits_at (r # rs) ss se len al (unat p)"
        using p by (auto simp: fits_at_def span_of_def)
      moreover have "unat p \<le> q" if f: "fits_at (r # rs) ss se len al q" for q
      proof -
        obtain e where "e \<in> set (r # rs)" "flo e \<le> q" using in_entry [OF f] by blast
        then have "flo r \<le> q" using r(1,3) by force
        then show ?thesis using p(6) f by (simp add: fits_at_def)
      qed
      moreover have "span_of p len \<subseteq> span_of (fst r) (snd r)" using p by (auto simp: span_of_def)
      ultimately show ?thesis using True Some by simp
    next
      case None
      have no: "\<not> (flo r \<le> q \<and> q + unat len \<le> fhi r)" if "fits_at (r # rs) ss se len al q" for q
        using None fit that by (auto simp: fits_at_def)
      have eq: "fits_at (r # rs) ss se len al q \<longleftrightarrow> fits_at rs ss se len al q" for q
        using up down no by blast
      show ?thesis using True None Cons.IH [OF r(4) Cons.prems(2)]
        by (auto simp: eq split: option.splits)
    qed
  qed
qed

text \<open>Starting at the last entry at or below the search start loses nothing.\<close>

lemma om_scan_from_fits:
  assumes ok: "fr_ok fs" and len: "0 < unat len"
  shows "fr_ok (om_scan_from ss fs)" and "set (om_scan_from ss fs) \<subseteq> set fs"
    and "fits_at (om_scan_from ss fs) ss se len al q \<longleftrightarrow> fits_at fs ss se len al q"
proof -
  obtain b a where ba: "om_upper ss fs = (b, a)" by fastforce
  have fs: "fs = b @ a" using om_upper_append [of ss fs] ba by simp
  obtain c where c: "fs = c @ om_scan_from ss fs" "\<forall>e\<in>set c. fhi e \<le> unat ss"
  proof (cases b rule: rev_cases)
    case Nil
    then show ?thesis using that [of "[]"] fs ba by (simp add: om_scan_from_def)
  next
    case (snoc b' p)
    have "flo p \<le> unat ss" using om_upper_before [of p ss fs] ba snoc by simp
    moreover have "\<forall>e\<in>set b'. fhi e < flo p" using ok fs snoc by (auto simp: fr_ok_append)
    ultimately have "\<forall>e\<in>set b'. fhi e \<le> unat ss" by force
    then show ?thesis using that [of b'] fs ba snoc by (simp add: om_scan_from_def)
  qed
  show "fr_ok (om_scan_from ss fs)" using ok c(1) by (metis fr_ok_append)
  show "set (om_scan_from ss fs) \<subseteq> set fs" using c(1) by (metis set_append Un_upper2)
  have "fr_bytes fs = fr_bytes c \<union> fr_bytes (om_scan_from ss fs)" using c(1) by (metis fr_bytes_simps(3))
  moreover have "x < unat ss" if x: "x \<in> fr_bytes c" for x
  proof -
    obtain e where "e \<in> set c" "x < fhi e" using x by (auto simp: fr_bytes_mem)
    then show ?thesis using c(2) by force
  qed
  ultimately show "fits_at (om_scan_from ss fs) ss se len al q \<longleftrightarrow> fits_at fs ss se len al q"
    by (fastforce simp: fits_at_def)
qed

subsection \<open>Blocks and the partition\<close>

abbreviation blo :: "u64 \<times> phys_block \<Rightarrow> nat" where
  "blo e \<equiv> unat (pb_start_addr (snd e))"

abbreviation bhi :: "u64 \<times> phys_block \<Rightarrow> nat" where
  "bhi e \<equiv> unat (pb_start_addr (snd e)) + unat (pb_size (snd e))"

definition blocks_ok :: "phys_block omap \<Rightarrow> bool" where
  "blocks_ok m \<longleftrightarrow> iv_ok blo bhi m \<and>
     (\<forall>e\<in>set m. pb_start_addr (snd e) = fst e \<and> fits (pb_start_addr (snd e)) (pb_size (snd e)))"

text \<open>\<open>owns m x t p\<close>: byte \<open>x\<close> belongs to a block of memory type \<open>t\<close>, a pool's when \<open>p\<close>.\<close>

definition owns :: "phys_block omap \<Rightarrow> nat \<Rightarrow> i32 \<Rightarrow> bool \<Rightarrow> bool" where
  "owns m x t p \<longleftrightarrow> (\<exists>e\<in>set m. blo e \<le> x \<and> x < bhi e \<and> pb_memory_type (snd e) = t \<and>
     pb_pool_expansion (snd e) = p)"

definition owned :: "phys_block omap \<Rightarrow> nat set" where
  "owned m = {x. \<exists>t p. owns m x t p}"

lemma blocks_ok_Nil [simp]: "blocks_ok []"
  by (simp add: blocks_ok_def)

lemma blocks_ok_Cons:
  "blocks_ok (e # m) \<longleftrightarrow> blo e < bhi e \<and> pb_start_addr (snd e) = fst e \<and>
     fits (pb_start_addr (snd e)) (pb_size (snd e)) \<and> (\<forall>q\<in>set m. bhi e \<le> blo q) \<and> blocks_ok m"
  by (auto simp: blocks_ok_def iv_ok_Cons)

lemma blocks_ok_append:
  "blocks_ok (m @ n) \<longleftrightarrow> blocks_ok m \<and> blocks_ok n \<and> (\<forall>x\<in>set m. \<forall>y\<in>set n. bhi x \<le> blo y)"
  by (auto simp: blocks_ok_def iv_ok_append)

lemma blocks_ok_mem:
  "blocks_ok m \<Longrightarrow> e \<in> set m \<Longrightarrow> blo e < bhi e \<and> pb_start_addr (snd e) = fst e \<and>
     fits (pb_start_addr (snd e)) (pb_size (snd e))"
  by (auto simp: blocks_ok_def iv_ok_def)

lemma blocks_ok_om_ok: "blocks_ok m \<Longrightarrow> om_ok m"
proof (induction m)
  case (Cons e m)
  have "unat (fst e) < unat (fst q)" if "q \<in> set m" for q
    using Cons.prems blocks_ok_mem [of m q] that by (auto simp: blocks_ok_Cons)
  then show ?case using Cons by (simp add: blocks_ok_Cons om_ok_Cons)
qed simp

lemma owns_append: "owns (m @ n) x t p \<longleftrightarrow> owns m x t p \<or> owns n x t p"
  by (auto simp: owns_def)

lemma owns_Cons: "owns (e # m) x t p \<longleftrightarrow>
    blo e \<le> x \<and> x < bhi e \<and> pb_memory_type (snd e) = t \<and> pb_pool_expansion (snd e) = p \<or> owns m x t p"
  by (auto simp: owns_def)

lemma owns_Nil [simp]: "\<not> owns [] x t p"
  by (simp add: owns_def)

lemma owned_mem: "x \<in> owned m \<longleftrightarrow> (\<exists>e\<in>set m. blo e \<le> x \<and> x < bhi e)"
  by (auto simp: owned_def owns_def)

text \<open>The upper bound of an address cuts the blocks at it.\<close>

lemma block_upper:
  assumes "blocks_ok m" and "om_upper k m = (b, a)"
  shows "m = b @ a" and "\<forall>e\<in>set b. blo e \<le> unat k" and "\<forall>e\<in>set a. unat k < blo e"
proof -
  show m: "m = b @ a" using om_upper_append [of k m] assms(2) by simp
  show "\<forall>e\<in>set b. blo e \<le> unat k"
    using om_upper_before [of _ k m] assms(2) blocks_ok_mem [OF assms(1)] m by auto
  show "\<forall>e\<in>set a. unat k < blo e"
    using om_upper_after [OF blocks_ok_om_ok [OF assms(1)], of _ k] assms(2) blocks_ok_mem [OF assms(1)] m
    by auto
qed

text \<open>A byte of a block belongs to no other block.\<close>

lemma block_alone:
  assumes "blocks_ok (A @ e # B)" and "blo e \<le> x" and "x < bhi e"
  shows "\<not> owns A x t p" and "\<not> owns B x t p"
  using assms by (fastforce simp: blocks_ok_append blocks_ok_Cons owns_def)+

text \<open>Replacing a block by pieces inside it.\<close>

lemma blocks_ok_replace:
  assumes "blocks_ok (A @ e # B)" and "blocks_ok P" and "\<forall>q\<in>set P. blo e \<le> blo q \<and> bhi q \<le> bhi e"
  shows "blocks_ok (A @ P @ B)"
proof -
  have "\<forall>x\<in>set A. \<forall>q\<in>set P. bhi x \<le> blo q" and "\<forall>q\<in>set P. \<forall>y\<in>set B. bhi q \<le> blo y"
  proof -
    have "\<forall>x\<in>set A. bhi x \<le> blo e" and "\<forall>y\<in>set B. bhi e \<le> blo y"
      using assms(1) by (auto simp: blocks_ok_append blocks_ok_Cons)
    then show "\<forall>x\<in>set A. \<forall>q\<in>set P. bhi x \<le> blo q" and "\<forall>q\<in>set P. \<forall>y\<in>set B. bhi q \<le> blo y"
      using assms(3) by (meson le_trans)+
  qed
  then show ?thesis using assms(1,2) by (auto simp: blocks_ok_append blocks_ok_Cons)
qed

definition pm_ok :: "u64 \<Rightarrow> physical_memory \<Rightarrow> bool" where
  "pm_ok pmsz pm \<longleftrightarrow> fr_ok (pm_free pm) \<and> blocks_ok (pm_physical pm) \<and>
     splits {0 ..< unat pmsz} (fr_bytes (pm_free pm)) (owned (pm_physical pm))"

subsection \<open>Allocation\<close>

lemma blocks_emplace:
  assumes ok: "blocks_ok m" and b: "pb_start_addr b = k" "0 < unat (pb_size b)" "fits k (pb_size b)"
    and free: "\<forall>e\<in>set m. bhi e \<le> unat k \<or> unat k + unat (pb_size b) \<le> blo e"
  shows "blocks_ok (om_emplace k b m)" and "k \<notin> fst ` set m"
    and "owns (om_emplace k b m) x t p \<longleftrightarrow> owns m x t p \<or>
      x \<in> span_of k (pb_size b) \<and> pb_memory_type b = t \<and> pb_pool_expansion b = p"
proof -
  obtain xs ys where l: "om_lower k m = (xs, ys)" by fastforce
  have m: "m = xs @ ys" using om_lower_append [of k m] l by simp
  have xs: "\<forall>e\<in>set xs. blo e < unat k" and ys: "\<forall>e\<in>set ys. unat k \<le> blo e"
    using om_lower_before [of _ k m] om_lower_after [OF blocks_ok_om_ok [OF ok], of _ k] l m
      blocks_ok_mem [OF ok] by auto
  show k: "k \<notin> fst ` set m"
  proof
    assume "k \<in> fst ` set m"
    then obtain e where "e \<in> set m" "fst e = k" by auto
    then show False using free b(2) blocks_ok_mem [OF ok, of e] by force
  qed
  have em: "om_emplace k b m = xs @ (k, b) # ys"
    using k l by (simp add: om_emplace_def om_find_None)
  have "\<forall>e\<in>set xs. bhi e \<le> unat k" using free xs m b(2) by force
  moreover have "\<forall>e\<in>set ys. unat k + unat (pb_size b) \<le> blo e"
  proof
    fix e assume e: "e \<in> set ys"
    then have "blo e < bhi e" "unat k \<le> blo e" using blocks_ok_mem [OF ok, of e] m ys by auto
    moreover have "bhi e \<le> unat k \<or> unat k + unat (pb_size b) \<le> blo e" using free e m by auto
    ultimately show "unat k + unat (pb_size b) \<le> blo e" by linarith
  qed
  ultimately show "blocks_ok (om_emplace k b m)"
    using ok b unfolding em unfolding m
    by (auto simp: blocks_ok_append blocks_ok_Cons; meson le_trans le_add1)
  show "owns (om_emplace k b m) x t p \<longleftrightarrow> owns m x t p \<or>
      x \<in> span_of k (pb_size b) \<and> pb_memory_type b = t \<and> pb_pool_expansion b = p"
    unfolding em unfolding m by (auto simp: owns_append owns_Cons span_of_def b(1))
qed

lemma Size_Some: "PhysicalMemory_Size flex = Some pmsz \<Longrightarrow> unat pmsz \<le> 14495514624"
  by (auto simp: PhysicalMemory_Size_def PhysicalMemory_TotalSize_def le_u64 unat_minus_u64 split: if_splits)

lemma Alloc_spec:
  fixes ss se al :: u64
  assumes ok: "pm_ok pmsz pm" and pmsz: "PhysicalMemory_Size flex = Some pmsz" and len: "len \<noteq> 0"
  defines "ok_at \<equiv> fits_at (pm_free pm) ss (min se pmsz) len al"
  shows "case PhysicalMemory_Alloc flex ss se len al mt pool pm of
      None \<Rightarrow> False
    | Some (None, pm') \<Rightarrow> pm' = pm \<and> \<not> (\<exists>q. ok_at q)
    | Some (Some p, pm') \<Rightarrow> ok_at (unat p) \<and> (\<forall>q. ok_at q \<longrightarrow> unat p \<le> q) \<and> pm_ok pmsz pm' \<and>
        pm_mappings pm' = pm_mappings pm \<and>
        fr_bytes (pm_free pm') = fr_bytes (pm_free pm) - span_of p len \<and>
        (\<forall>x t q. owns (pm_physical pm') x t q \<longleftrightarrow>
          owns (pm_physical pm) x t q \<or> x \<in> span_of p len \<and> t = mt \<and> q = pool)"
proof -
  have fr: "fr_ok (pm_free pm)" and bl: "blocks_ok (pm_physical pm)"
    and sp: "splits {0 ..< unat pmsz} (fr_bytes (pm_free pm)) (owned (pm_physical pm))"
    using ok by (auto simp: pm_ok_def)
  have pos: "0 < unat len" using len by (simp add: neq0_u64)
  let ?scan = "om_scan_from ss (pm_free pm)" and ?se = "min se pmsz"
  note sc = om_scan_from_fits [OF fr pos, of ss]
  note loop = alloc_loop_spec [OF sc(1) pos, of ss ?se al, unfolded sc(3), folded ok_at_def]
  show ?thesis
  proof (cases "?se \<le> ss")
    case True
    then have "\<not> ok_at q" for q using pos by (auto simp: ok_at_def fits_at_def le_u64)
    then show ?thesis using True pmsz by (simp add: PhysicalMemory_Alloc_def Let_def)
  next
    case in_range: False
    show ?thesis
    proof (cases "alloc_loop ss ?se len al ?scan")
      case None
      then show ?thesis using loop pmsz in_range by (simp add: PhysicalMemory_Alloc_def Let_def)
    next
      case (Some rp)
      obtain r p where rp: "rp = (r, p)" by fastforce
      then have r: "r \<in> set (pm_free pm)" "ok_at (unat p)" "span_of p len \<subseteq> span_of (fst r) (snd r)"
          "\<And>q. ok_at q \<Longrightarrow> unat p \<le> q"
        using loop Some sc(2) by auto
      define b where "b = \<lparr>pb_start_addr = p, pb_size = len, pb_map_vaddr = 0, pb_map_size = 0,
        pb_host_vaddr = 0, pb_host_size = 0, pb_prot = 0, pb_mode = NoAccess,
        pb_gpu_mode = GpuNoAccess, pb_memory_type = mt, pb_pool_expansion = pool, pb_name = ''''\<rparr>"
      have fit: "fits p len"
        using r(2) unat_u64_lt [of ?se] by (simp add: ok_at_def fits_at_def fits_def)
      have span: "span_of p len \<subseteq> fr_bytes (pm_free pm)"
        using r(2) by (simp add: ok_at_def fits_at_def span_of_def)
      have apart: "\<forall>e\<in>set (pm_physical pm). bhi e \<le> unat p \<or> unat p + unat len \<le> blo e"
      proof (rule ballI, rule ccontr)
        fix e assume e: "e \<in> set (pm_physical pm)" "\<not> (bhi e \<le> unat p \<or> unat p + unat len \<le> blo e)"
        then have "max (unat p) (blo e) \<in> owned (pm_physical pm)"
          using blocks_ok_mem [OF bl e(1)] by (auto simp: owned_mem intro!: bexI [of _ e])
        moreover have "max (unat p) (blo e) \<in> span_of p len" using e(2) pos by (auto simp: span_of_def)
        ultimately show False using span sp by (auto simp: splits_def)
      qed
      have bsel: "pb_start_addr b = p" "pb_size b = len" "pb_memory_type b = mt" "pb_pool_expansion b = pool"
        by (simp_all add: b_def)
      note em = blocks_emplace [OF bl, of b p, unfolded bsel, OF refl pos fit apart]
      have run: "PhysicalMemory_Alloc flex ss se len al mt pool pm =
          Some (Some p, pm\<lparr>pm_free := ConsumeFreeRange r p len (pm_free pm),
            pm_physical := om_emplace p b (pm_physical pm)\<rparr>)"
        using pmsz in_range Some rp em(2)
        by (simp add: PhysicalMemory_Alloc_def Let_def om_find_None b_def)
      have own: "owned (om_emplace p b (pm_physical pm)) = owned (pm_physical pm) \<union> span_of p len"
        by (auto simp: owned_def em(3))
      have "pm_ok pmsz (pm\<lparr>pm_free := ConsumeFreeRange r p len (pm_free pm),
            pm_physical := om_emplace p b (pm_physical pm)\<rparr>)"
        using free_list.take_splits [OF fr r(1) pos fit r(3) sp] free_list.take_inv [OF fr r(1) pos fit r(3)]
          em(1) by (simp add: pm_ok_def own)
      then show ?thesis
        using run r free_list.take_bytes [OF fr r(1) pos fit r(3)] em(3) by auto
    qed
  qed
qed

subsection \<open>Release\<close>

lemma om_assign_middle:
  assumes "om_ok (A @ (k, b) # B)"
  shows "om_assign k v (A @ (k, b) # B) = A @ (k, v) # B"
proof -
  have "map (\<lambda>e. if fst e = k then (k, v) else e) A = A" "map (\<lambda>e. if fst e = k then (k, v) else e) B = B"
    using assms by (auto simp: om_ok_append om_ok_Cons intro!: map_idI)
  then show ?thesis by (simp add: om_assign_def)
qed

text \<open>What is left of a block when a span is cut out of it.\<close>

definition left_piece :: "u64 \<Rightarrow> u64 \<times> phys_block \<Rightarrow> phys_block omap \<Rightarrow> bool" where
  "left_piece start e P \<longleftrightarrow> (if fst e = start then P = []
     else \<exists>l. P = [(fst e, l)] \<and> pb_start_addr l = fst e \<and> pb_size l = start - fst e \<and>
       pb_memory_type l = pb_memory_type (snd e) \<and> pb_pool_expansion l = pb_pool_expansion (snd e))"

definition right_piece :: "u64 \<Rightarrow> u64 \<Rightarrow> u64 \<times> phys_block \<Rightarrow> phys_block omap \<Rightarrow> bool" where
  "right_piece start len e P \<longleftrightarrow> (if unat start + unat len = bhi e then P = []
     else \<exists>r. P = [(start + len, r)] \<and> pb_start_addr r = start + len \<and>
       pb_size r = pb_start_addr (snd e) + pb_size (snd e) - (start + len) \<and>
       pb_memory_type r = pb_memory_type (snd e) \<and> pb_pool_expansion r = pb_pool_expansion (snd e))"

lemma pieces_spec:
  assumes ok: "blocks_ok (A @ e # B)" and sub: "blo e \<le> unat start" "unat start + unat len \<le> bhi e"
    and L: "left_piece start e L" and R: "right_piece start len e R" and len: "0 < unat len"
  shows "blocks_ok (A @ L @ R @ B)"
    and "owns (A @ L @ R @ B) x t p \<longleftrightarrow> owns (A @ e # B) x t p \<and> x \<notin> span_of start len"
proof -
  have e: "blo e < bhi e" "pb_start_addr (snd e) = fst e" "fits (pb_start_addr (snd e)) (pb_size (snd e))"
    using blocks_ok_mem [OF ok, of e] by auto
  have ee: "unat (pb_start_addr (snd e) + pb_size (snd e)) = bhi e" by (rule unat_end [OF e(3)])
  have se: "unat (start + len) = unat start + unat len"
    using sub ee unat_u64_lt [of "pb_start_addr (snd e) + pb_size (snd e)"] by (intro unat_plus_u64) simp
  have ls: "unat (start - fst e) = unat start - blo e" using sub(1) e(2) by (simp add: unat_minus_u64)
  have rs: "unat (pb_start_addr (snd e) + pb_size (snd e) - (start + len)) = bhi e - (unat start + unat len)"
    using sub(2) ee se by (subst unat_minus_u64) simp_all
  have Lx: "blocks_ok L \<and> (\<forall>q\<in>set L. blo e \<le> blo q \<and> bhi q \<le> unat start) \<and>
      (owns L x t p \<longleftrightarrow> blo e \<le> x \<and> x < unat start \<and> pb_memory_type (snd e) = t \<and> pb_pool_expansion (snd e) = p)"
    using L sub e ls unat_u64_lt [of start]
    by (auto simp: left_piece_def blocks_ok_Cons owns_Cons fits_def eq_u64 split: if_splits)
  have Rx: "blocks_ok R \<and> (\<forall>q\<in>set R. unat start + unat len \<le> blo q \<and> bhi q \<le> bhi e) \<and>
      (owns R x t p \<longleftrightarrow> unat start + unat len \<le> x \<and> x < bhi e \<and> pb_memory_type (snd e) = t \<and>
        pb_pool_expansion (snd e) = p)"
    using R sub e rs se ee unat_u64_lt [of "pb_start_addr (snd e) + pb_size (snd e)"]
    by (auto simp: right_piece_def blocks_ok_Cons owns_Cons fits_def split: if_splits)
  have LR: "\<forall>q\<in>set (L @ R). blo e \<le> blo q \<and> bhi q \<le> bhi e"
  proof
    fix q assume "q \<in> set (L @ R)"
    then consider "q \<in> set L" | "q \<in> set R" by auto
    then show "blo e \<le> blo q \<and> bhi q \<le> bhi e" using Lx Rx sub by cases fastforce+
  qed
  have "blocks_ok (L @ R)"
    unfolding blocks_ok_append using Lx Rx by (meson le_add1 le_trans)
  from blocks_ok_replace [OF ok this LR] show "blocks_ok (A @ L @ R @ B)" by simp
  show "owns (A @ L @ R @ B) x t p \<longleftrightarrow> owns (A @ e # B) x t p \<and> x \<notin> span_of start len"
  proof (cases "x \<in> span_of start len")
    case True
    then have "blo e \<le> x" "x < bhi e" using sub by (auto simp: span_of_def)
    then show ?thesis using True block_alone [OF ok] Lx Rx by (auto simp: owns_append span_of_def)
  next
    case False
    then show ?thesis using Lx Rx sub len by (auto simp: owns_append owns_Cons span_of_def)
  qed
qed

lemma Release_cases:
  assumes ok: "blocks_ok (pm_physical pm)" and len: "0 < unat len" and fit: "fits start len"
  defines "hit \<equiv> \<lambda>e. \<not> pb_pool_expansion (snd e) \<and> blo e \<le> unat start \<and> unat start + unat len \<le> bhi e"
  shows "case PhysicalMemory_Release start len pm of
      (None, pm') \<Rightarrow> pm' = pm \<and> (\<forall>e\<in>set (pm_physical pm). \<not> hit e)
    | (Some r, pm') \<Rightarrow> \<exists>A e B L R. pm_physical pm = A @ e # B \<and> hit e \<and> left_piece start e L \<and>
        right_piece start len e R \<and>
        pm' = pm\<lparr>pm_physical := A @ L @ R @ B, pm_free := AddFreeRange start len (pm_free pm)\<rparr>"
proof -
  obtain bef aft where ba: "om_upper start (pm_physical pm) = (bef, aft)" by fastforce
  note up = block_upper [OF ok ba]
  have sl: "unat (start + len) = unat start + unat len" by (rule unat_end [OF fit])
  show ?thesis
  proof (cases bef rule: rev_cases)
    case Nil
    then have "\<not> hit e" if "e \<in> set (pm_physical pm)" for e
      using that up by (force simp: hit_def)
    then show ?thesis using Nil ba by (simp add: PhysicalMemory_Release_def)
  next
    case (snoc A e)
    obtain k b where e: "e = (k, b)" by fastforce
    have phys: "pm_physical pm = A @ (k, b) # aft" using up(1) snoc e by simp
    have mem: "unat (pb_start_addr b) < unat (pb_start_addr b) + unat (pb_size b)" "pb_start_addr b = k"
        "fits (pb_start_addr b) (pb_size b)" "unat k \<le> unat start"
      using blocks_ok_mem [OF ok, of e] up(2) snoc phys e by auto
    have be: "unat (k + pb_size b) = unat k + unat (pb_size b)" using unat_end [OF mem(3)] mem(2) by simp
    have om: "om_ok (A @ (k, b) # aft)" using blocks_ok_om_ok [OF ok] phys by simp
    have A: "\<forall>q\<in>set A. unat (fst q) < unat k" and aft: "\<forall>q\<in>set aft. unat start < unat (fst q)"
      using om up(3) blocks_ok_mem [OF ok] phys by (auto simp: om_ok_append)
    have beyond: "\<forall>q\<in>set aft. unat k + unat (pb_size b) \<le> unat (fst q)"
      using ok phys blocks_ok_mem [OF ok] mem(2) by (fastforce simp: blocks_ok_append blocks_ok_Cons)
    have only: "hit q \<longleftrightarrow> q = e \<and> \<not> pb_pool_expansion b \<and> unat start + unat len \<le> unat k + unat (pb_size b)"
      if "q \<in> set (pm_physical pm)" for q
    proof -
      have "bhi x \<le> unat k" if "x \<in> set A" for x
        using that ok phys mem(2) by (auto simp: blocks_ok_append)
      then show ?thesis using that up(3) phys mem len e
        by (auto simp: hit_def blocks_ok_append blocks_ok_Cons; fastforce)
    qed
    have em: "om_emplace (start + len) r (A @ P @ aft) = A @ P @ (start + len, r) # aft"
      if "unat start + unat len < unat k + unat (pb_size b)" "P = [] \<or> (\<exists>x. P = [(k, x)])" for r P
      using om_emplace_middle [of "A @ P" "start + len" aft r] A mem(4) sl len that beyond by force
    let ?fin = "pb_start_addr b + pb_size b"
    have ee: "unat ?fin = unat k + unat (pb_size b)" using be mem(2) by simp
    let ?bad = "pb_pool_expansion b \<or> start < pb_start_addr b \<or> ?fin \<le> start \<or> ?fin - start < len"
    have bad: "?bad \<longleftrightarrow> pb_pool_expansion b \<or> \<not> unat start + unat len \<le> unat k + unat (pb_size b)"
    proof (cases "?fin \<le> start")
      case True
      then show ?thesis using ee len by (auto simp: le_u64)
    next
      case False
      then have "unat (?fin - start) = unat k + unat (pb_size b) - unat start" "unat start < unat ?fin"
        using ee unat_minus_u64 [of start ?fin] by (auto simp: le_u64)
      then show ?thesis using False ee mem(2,4) by (auto simp: less_u64)
    qed
    show ?thesis
    proof (cases ?bad)
      case True
      then have "PhysicalMemory_Release start len pm = (None, pm)"
        unfolding PhysicalMemory_Release_def ba snoc e by (simp add: Let_def)
      moreover have "\<forall>q\<in>set (pm_physical pm). \<not> hit q" using True bad only by blast
      ultimately show ?thesis by simp
    next
      case False
      then have np: "\<not> pb_pool_expansion b" and inside: "unat start + unat len \<le> unat k + unat (pb_size b)"
        using bad by auto
      then have hit: "hit (k, b)" using mem(2,4) by (simp add: hit_def)
      let ?left = "let l = b\<lparr>pb_size := start - pb_start_addr b\<rparr>
        in if pb_map_vaddr l \<noteq> 0 then l\<lparr>pb_map_size := pb_size l\<rparr> else l"
      let ?out = "\<lambda>L R. (\<exists>r. PhysicalMemory_Release start len pm = (Some r,
          pm\<lparr>pm_physical := A @ L @ R @ aft, pm_free := AddFreeRange start len (pm_free pm)\<rparr>)) \<and>
          left_piece start (k, b) L \<and> right_piece start len (k, b) R"
      have fin: "?thesis" if o: "?out L R" for L R
      proof -
        obtain r where "PhysicalMemory_Release start len pm = (Some r,
          pm\<lparr>pm_physical := A @ L @ R @ aft, pm_free := AddFreeRange start len (pm_free pm)\<rparr>)"
          using o by blast
        moreover have "left_piece start (k, b) L" "right_piece start len (k, b) R" using o by blast+
        ultimately show ?thesis using phys hit by (simp, blast)
      qed
      have sz: "len = pb_size b \<longleftrightarrow> unat len = unat (pb_size b)" by (rule eq_u64)
      consider (whole) "start = k" "len = pb_size b"
        | (middle) "unat k < unat start" "unat start + unat len < unat k + unat (pb_size b)"
        | (front) "start = k" "unat len < unat (pb_size b)"
        | (tail_end) "unat k < unat start" "unat start + unat len = unat k + unat (pb_size b)"
        using mem(4) inside by (fastforce simp: eq_u64)
      then show ?thesis
      proof cases
        case whole
        have "?out [] []"
          using whole False om_erase_middle [OF om] mem(2)
          unfolding PhysicalMemory_Release_def ba snoc e
          by (simp add: Let_def phys left_piece_def right_piece_def)
        then show ?thesis by (rule fin)
      next
        case middle
        let ?right = "let r = b\<lparr>pb_start_addr := start + len, pb_size := ?fin - (start + len)\<rparr>
          in if pb_map_vaddr r \<noteq> 0 then r\<lparr>pb_map_vaddr := pb_map_vaddr r + (pb_start_addr r - pb_start_addr b),
            pb_map_size := pb_size r\<rparr> else r"
        have ne: "start \<noteq> k" "k \<noteq> start" "start \<noteq> pb_start_addr b" "pb_start_addr b < start" "start + len < ?fin"
          using middle mem(2) ee sl by (auto simp: less_u64)
        have em2: "om_emplace (start + len) r (A @ (k, l) # aft) = A @ (k, l) # (start + len, r) # aft" for r l
          using em [of "[(k, l)]" r] middle(2) by simp
        have "?out [(k, ?left)] [(start + len, ?right)]"
          using middle False ne mem(2)
          unfolding PhysicalMemory_Release_def ba snoc e
          by (simp add: Let_def phys left_piece_def right_piece_def em2 om_assign_middle [OF om])
        then show ?thesis by (rule fin)
      next
        case front
        let ?rest = "let r = b\<lparr>pb_start_addr := pb_start_addr b + len, pb_size := pb_size b - len\<rparr>
          in if pb_map_vaddr r \<noteq> 0 then r\<lparr>pb_map_vaddr := pb_map_vaddr r + len,
            pb_map_size := pb_map_size r - len\<rparr> else r"
        have em0: "om_emplace (start + len) r (A @ aft) = A @ (start + len, r) # aft" for r
          using em [of "[]" r] front by simp
        have st: "start = pb_start_addr b" using front mem(2) by simp
        have "?out [] [(start + len, ?rest)]"
          using front False mem(2)
          unfolding PhysicalMemory_Release_def ba snoc e
          by (auto simp: Let_def phys left_piece_def right_piece_def less_u64 em0 [unfolded st] om_erase_middle [OF om])
        then show ?thesis by (rule fin)
      next
        case tail_end
        have ne: "start \<noteq> k" "k \<noteq> start" "start \<noteq> pb_start_addr b" "pb_start_addr b < start"
            "start + len = ?fin" "\<not> start + len < ?fin"
          using tail_end mem(2) ee sl by (auto simp: less_u64 eq_u64)
        have "?out [(k, ?left)] []"
          using tail_end False ne om_assign_middle [OF om] mem(2)
          unfolding PhysicalMemory_Release_def ba snoc e
          by (simp add: Let_def phys left_piece_def right_piece_def)
        then show ?thesis by (rule fin)
      qed
    qed
  qed
qed

end
