(* ===== verification/PhysicalMemoryProps.thy ===== *)
theory PhysicalMemoryProps
  imports PhysicalMemoryBlocks VirtualRangesQueries
begin

text \<open>
  Releases, spans of blocks and mappings of \<open>PhysicalMemory\<close>, the reachable states, and the
  properties of the component.
\<close>

subsection \<open>Releases\<close>

lemma splits_give:
  "splits P a b \<Longrightarrow> s \<subseteq> b \<Longrightarrow> splits P (a \<union> s) (b - s)"
  by (auto simp: splits_def)

lemma Release_spec:
  assumes ok: "pm_ok pmsz pm" and len: "len \<noteq> 0" and fit: "fits start len"
  defines "hit \<equiv> \<lambda>e. \<not> pb_pool_expansion (snd e) \<and> span_of start len \<subseteq> span_of (fst e) (pb_size (snd e))"
  shows "case PhysicalMemory_Release start len pm of
      (None, pm') \<Rightarrow> pm' = pm \<and> \<not> (\<exists>e\<in>set (pm_physical pm). hit e)
    | (Some r, pm') \<Rightarrow> (\<exists>e\<in>set (pm_physical pm). hit e) \<and> pm_ok pmsz pm' \<and>
        pm_mappings pm' = pm_mappings pm \<and>
        fr_bytes (pm_free pm') = fr_bytes (pm_free pm) \<union> span_of start len \<and>
        (\<forall>x t p. owns (pm_physical pm') x t p \<longleftrightarrow> owns (pm_physical pm) x t p \<and> x \<notin> span_of start len)"
proof -
  have fr: "fr_ok (pm_free pm)" and bl: "blocks_ok (pm_physical pm)"
    and sp: "splits {0 ..< unat pmsz} (fr_bytes (pm_free pm)) (owned (pm_physical pm))"
    using ok by (auto simp: pm_ok_def)
  have pos: "0 < unat len" using len by (simp add: neq0_u64)
  have hit: "hit e \<longleftrightarrow> \<not> pb_pool_expansion (snd e) \<and> blo e \<le> unat start \<and> unat start + unat len \<le> bhi e"
    if "e \<in> set (pm_physical pm)" for e
    using that blocks_ok_mem [OF bl that] pos by (auto simp: hit_def span_of_def)
  note rc = Release_cases [OF bl pos fit]
  obtain res pm' where run: "PhysicalMemory_Release start len pm = (res, pm')" by fastforce
  show ?thesis
  proof (cases res)
    case None
    then show ?thesis using rc run hit by auto
  next
    case (Some r)
    then obtain A e B L R where d: "pm_physical pm = A @ e # B"
        "\<not> pb_pool_expansion (snd e)" "blo e \<le> unat start" "unat start + unat len \<le> bhi e"
        "left_piece start e L" "right_piece start len e R"
        "pm' = pm\<lparr>pm_physical := A @ L @ R @ B, pm_free := AddFreeRange start len (pm_free pm)\<rparr>"
      using rc run by auto
    note p = pieces_spec [OF bl [unfolded d(1)] d(3,4,5,6) pos]
    have sub: "span_of start len \<subseteq> owned (pm_physical pm)"
      using d(3,4) by (auto simp: owned_mem d(1) span_of_def)
    have own: "owned (pm_physical pm') = owned (pm_physical pm) - span_of start len"
      using p(2) d(1,7) by (auto simp: owned_def)
    have "pm_ok pmsz pm'"
      using free_list.give_splits [OF fr pos fit sp sub] free_list.give_inv [OF fr pos fit] p(1) own d(7)
      by (simp add: pm_ok_def)
    moreover have "hit e" using hit [of e] d(1-4) by simp
    then have "\<exists>e\<in>set (pm_physical pm). hit e" using d(1) by auto
    ultimately show ?thesis
      using run Some p(2) d(1,7) free_list.give_bytes [OF fr pos fit] by simp
  qed
qed

lemma ReleasePoolExpansion_spec:
  fixes a len :: u64
  assumes ok: "pm_ok pmsz pm"
  defines "hit \<equiv> \<exists>b. (a, b) \<in> set (pm_physical pm) \<and> pb_pool_expansion b \<and> pb_size b = len"
  shows "case PhysicalMemory_ReleasePoolExpansion a len pm of
      (False, pm') \<Rightarrow> pm' = pm \<and> \<not> hit
    | (True, pm') \<Rightarrow> hit \<and> pm_ok pmsz pm' \<and> pm_mappings pm' = pm_mappings pm \<and>
        fr_bytes (pm_free pm') = fr_bytes (pm_free pm) \<union> span_of a len \<and>
        (\<forall>x t p. owns (pm_physical pm') x t p \<longleftrightarrow> owns (pm_physical pm) x t p \<and> x \<notin> span_of a len)"
proof -
  have fr: "fr_ok (pm_free pm)" and bl: "blocks_ok (pm_physical pm)"
    and sp: "splits {0 ..< unat pmsz} (fr_bytes (pm_free pm)) (owned (pm_physical pm))"
    using ok by (auto simp: pm_ok_def)
  note om = blocks_ok_om_ok [OF bl]
  show ?thesis
  proof (cases "om_find a (pm_physical pm)")
    case None
    then have "\<not> hit" by (force simp: hit_def om_find_None)
    then show ?thesis using None by (simp add: PhysicalMemory_ReleasePoolExpansion_def)
  next
    case (Some b)
    then have mem: "(a, b) \<in> set (pm_physical pm)" using om_find_iff [OF om] by blast
    have uniq: "c = b" if "(a, c) \<in> set (pm_physical pm)" for c
      using that Some om_find_iff [OF om, of a c] by simp
    have h: "hit \<longleftrightarrow> pb_pool_expansion b \<and> pb_size b = len" unfolding hit_def using mem uniq by blast
    show ?thesis
    proof (cases "pb_pool_expansion b \<and> pb_size b = len")
      case False
      then have "PhysicalMemory_ReleasePoolExpansion a len pm = (False, pm)"
        using Some by (auto simp: PhysicalMemory_ReleasePoolExpansion_def)
      then show ?thesis using h False by auto
    next
      case True
      obtain A B where ph: "pm_physical pm = A @ (a, b) # B" using mem by (meson split_list)
      have m: "unat (pb_start_addr b) < unat (pb_start_addr b) + unat (pb_size b)" "pb_start_addr b = a"
          "fits a len" "0 < unat len"
        using blocks_ok_mem [OF bl mem] True by auto
      have er: "om_erase a (pm_physical pm) = A @ B" using om_erase_middle [of A a b B] om ph by simp
      have run: "PhysicalMemory_ReleasePoolExpansion a len pm =
          (True, pm\<lparr>pm_physical := A @ B, pm_free := AddFreeRange a len (pm_free pm)\<rparr>)"
        using Some True er by (simp add: PhysicalMemory_ReleasePoolExpansion_def)
      have own: "owns (A @ B) x t p \<longleftrightarrow> owns (pm_physical pm) x t p \<and> x \<notin> span_of a len" for x t p
      proof (cases "x \<in> span_of a len")
        case in_span: True
        then show ?thesis
          using block_alone [OF bl [unfolded ph], of x] m(2) True by (auto simp: owns_append span_of_def)
      next
        case False
        then show ?thesis using m(2) True by (auto simp: ph owns_append owns_Cons span_of_def)
      qed
      have "blocks_ok (A @ B)" using bl ph by (simp add: blocks_ok_append blocks_ok_Cons)
      moreover have "owned (A @ B) = owned (pm_physical pm) - span_of a len" by (auto simp: owned_def own)
      moreover have "span_of a len \<subseteq> owned (pm_physical pm)"
        using m(2) True by (auto simp: owned_mem ph span_of_def)
      ultimately have "pm_ok pmsz (pm\<lparr>pm_physical := A @ B, pm_free := AddFreeRange a len (pm_free pm)\<rparr>)"
        using free_list.give_splits [OF fr m(4,3) sp] free_list.give_inv [OF fr m(4,3)]
        by (simp add: pm_ok_def)
      then show ?thesis using run own h True free_list.give_bytes [OF fr m(4,3)] by simp
    qed
  qed
qed

subsection \<open>Spans of blocks\<close>

lemma span_step_spec:
  assumes bl: "blocks_ok m" and lt: "unat c < unat e"
  shows "case span_step m e c of
      None \<Rightarrow> \<exists>x. unat c \<le> x \<and> x < unat e \<and> \<not> (\<exists>t. owns m x t False)
    | Some (b, c') \<Rightarrow> unat c < unat c' \<and> unat c' \<le> unat e \<and> (pb_start_addr b, b) \<in> set m \<and>
        \<not> pb_pool_expansion b \<and> unat (pb_start_addr b) \<le> unat c \<and>
        unat c' \<le> unat (pb_start_addr b) + unat (pb_size b)"
proof -
  obtain bef aft where ba: "om_upper c m = (bef, aft)" by fastforce
  note up = block_upper [OF bl ba]
  show ?thesis
  proof (cases bef rule: rev_cases)
    case Nil
    then have "\<not> owns m (unat c) t False" for t using up by (force simp: owns_def)
    then show ?thesis using Nil ba lt by (auto simp: span_step_def)
  next
    case (snoc A e')
    obtain k b where kb: "e' = (k, b)" by fastforce
    have m: "m = A @ (k, b) # aft" using up(1) snoc kb by simp
    have mem: "pb_start_addr b = k" "fits (pb_start_addr b) (pb_size b)" "unat k \<le> unat c"
        "0 < unat (pb_size b)"
      using blocks_ok_mem [OF bl, of "(k, b)"] up(2) m snoc kb by auto
    have be: "unat (pb_start_addr b + pb_size b) = unat k + unat (pb_size b)"
      using unat_end [OF mem(2)] mem(1) by simp
    have A: "\<not> owns A x t p" if "unat k \<le> x" for x t p
      using that bl m mem(1) by (fastforce simp: owns_def blocks_ok_append)
    have aft: "\<not> owns aft x t p" if "x < unat k + unat (pb_size b)" for x t p
      using that bl m mem(1) by (fastforce simp: owns_def blocks_ok_append blocks_ok_Cons)
    let ?bad = "pb_pool_expansion b \<or> c < pb_start_addr b \<or> pb_start_addr b + pb_size b \<le> c"
    let ?n = "min e (pb_start_addr b + pb_size b)"
    have n: "unat ?n = min (unat e) (unat k + unat (pb_size b))" by (simp add: unat_min_u64 be)
    have step: "span_step m e c = (if ?bad then None
        else if ?n < e \<and> (aft = [] \<or> pb_start_addr (snd (hd aft)) \<noteq> ?n) then None else Some (b, ?n))"
      unfolding span_step_def ba snoc kb by (simp add: Let_def)
    consider (bad) ?bad | (gap) "\<not> ?bad" "?n < e \<and> (aft = [] \<or> pb_start_addr (snd (hd aft)) \<noteq> ?n)"
      | (go) "\<not> ?bad" "\<not> (?n < e \<and> (aft = [] \<or> pb_start_addr (snd (hd aft)) \<noteq> ?n))" by blast
    then show ?thesis
    proof cases
      case bad
      have "\<not> owns aft (unat c) t False" for t using up(3) by (force simp: owns_def)
      then have "\<not> owns m (unat c) t False" for t
        using bad A [OF mem(3)] be mem(1,3) by (auto simp: m owns_append owns_Cons less_u64 le_u64)
      moreover have "span_step m e c = None" by (simp only: step if_P [OF bad])
      ultimately show ?thesis using lt by auto
    next
      case gap
      then have lim: "unat ?n = unat k + unat (pb_size b)" "unat ?n < unat e" using n by (auto simp: less_u64)
      have "\<not> owns aft (unat ?n) t False" for t
      proof (cases aft)
        case (Cons q rest)
        have q: "unat ?n \<le> blo q" using bl m Cons lim(1) mem(1) by (auto simp: blocks_ok_append blocks_ok_Cons)
        moreover have "blo q \<noteq> unat ?n" using gap Cons by (auto simp: eq_u64)
        moreover have "blo q < blo r" if "r \<in> set rest" for r
          using that bl m Cons by (fastforce simp: blocks_ok_append blocks_ok_Cons)
        ultimately show ?thesis using Cons by (force simp: owns_def)
      qed simp
      then have "\<not> owns m (unat ?n) t False" for t
        using A [of "unat ?n"] lim mem(1) by (auto simp: m owns_append owns_Cons)
      moreover have "unat c \<le> unat ?n" using gap(1) n lt be by (auto simp: le_u64)
      moreover have "span_step m e c = None" using gap by (simp only: step if_False if_True simp_thms)
      ultimately show ?thesis using lim(2) by (simp only: option.case) blast
    next
      case go
      then have "span_step m e c = Some (b, ?n)" by (simp only: step if_False)
      moreover have "unat c < unat ?n" using go(1) n lt be by (auto simp: le_u64 less_u64)
      ultimately show ?thesis using n mem go(1) m by auto
    qed
  qed
qed

lemma direct_walk_spec:
  "blocks_ok m \<Longrightarrow> direct_walk m e c \<longleftrightarrow> (\<forall>x. unat c \<le> x \<and> x < unat e \<longrightarrow> (\<exists>t. owns m x t False))"
proof (induction m e c rule: direct_walk.induct)
  case (1 m e c)
  note bl = "1.prems"
  show ?case
  proof (cases "c < e")
    case False
    then show ?thesis by (subst direct_walk.simps) (auto simp: less_u64)
  next
    case lt: True
    note st = span_step_spec [OF bl, of c e]
    show ?thesis
    proof (cases "span_step m e c")
      case None
      then show ?thesis using lt st by (subst direct_walk.simps) (auto simp: less_u64)
    next
      case (Some r)
      obtain b c' where r: "r = (b, c')" by fastforce
      have s: "unat c < unat c'" "unat c' \<le> unat e" "(pb_start_addr b, b) \<in> set m" "\<not> pb_pool_expansion b"
          "unat (pb_start_addr b) \<le> unat c" "unat c' \<le> unat (pb_start_addr b) + unat (pb_size b)"
        using st lt Some r by (auto simp: less_u64)
      have own: "owns m x (pb_memory_type b) False" if "unat c \<le> x" "x < unat c'" for x
        unfolding owns_def using s that by (intro bexI [of _ "(pb_start_addr b, b)"]) auto
      have "direct_walk m e c \<longleftrightarrow> direct_walk m e c'"
        using lt Some r by (subst direct_walk.simps) simp
      also have "\<dots> \<longleftrightarrow> (\<forall>x. unat c' \<le> x \<and> x < unat e \<longrightarrow> (\<exists>t. owns m x t False))"
        using "1.IH" [OF lt Some r [symmetric] bl] .
      also have "\<dots> \<longleftrightarrow> (\<forall>x. unat c \<le> x \<and> x < unat e \<longrightarrow> (\<exists>t. owns m x t False))"
        using own s(1) by (metis le_trans less_imp_le not_le)
      finally show ?thesis .
    qed
  qed
qed

lemma CanMapDirect_spec:
  assumes "blocks_ok (pm_physical pm)"
  shows "PhysicalMemory_CanMapDirect a len pm \<longleftrightarrow>
    len \<noteq> 0 \<and> fits a len \<and> (\<forall>x\<in>span_of a len. \<exists>t. owns (pm_physical pm) x t False)"
proof -
  have "fits a len \<Longrightarrow> unat (a + len) = unat a + unat len" by (rule unat_end)
  then show ?thesis
    using direct_walk_spec [OF assms, of "a + len" a] fits_u64 [of a len]
    by (auto simp: PhysicalMemory_CanMapDirect_def span_of_def)
qed

subsection \<open>Mappings\<close>

abbreviation mlo :: "phys_block \<Rightarrow> nat" where "mlo b \<equiv> unat (pb_map_vaddr b)"
abbreviation mhi :: "phys_block \<Rightarrow> nat" where "mhi b \<equiv> unat (pb_map_vaddr b) + unat (pb_map_size b)"

text \<open>
  What a mapping says of a virtual address: the physical byte behind it, the protection and the
  access modes. Mappings are non-empty, as long as their block part, and pairwise disjoint.
\<close>

definition m_view :: "phys_block \<Rightarrow> u64 \<Rightarrow> u64 \<times> i32 \<times> vmode \<times> gpu_access" where
  "m_view b a = (pb_start_addr b + (a - pb_map_vaddr b), pb_prot b, pb_mode b, pb_gpu_mode b)"

definition maps :: "phys_block list \<Rightarrow> u64 \<Rightarrow> u64 \<times> i32 \<times> vmode \<times> gpu_access \<Rightarrow> bool" where
  "maps ms a v \<longleftrightarrow> (\<exists>b\<in>set ms. mlo b \<le> unat a \<and> unat a < mhi b \<and> m_view b a = v)"

definition m_good :: "phys_block \<Rightarrow> bool" where
  "m_good b \<longleftrightarrow> pb_map_size b \<noteq> 0 \<and> fits (pb_map_vaddr b) (pb_map_size b) \<and> pb_size b = pb_map_size b"

definition m_apart :: "phys_block \<Rightarrow> phys_block \<Rightarrow> bool" where
  "m_apart a b \<longleftrightarrow> mhi a \<le> mlo b \<or> mhi b \<le> mlo a"

definition mp_ok :: "phys_block list \<Rightarrow> bool" where
  "mp_ok ms \<longleftrightarrow> (\<forall>b\<in>set ms. m_good b) \<and> sorted_wrt m_apart ms"

lemma mp_ok_append:
  "mp_ok (xs @ ys) \<longleftrightarrow> mp_ok xs \<and> mp_ok ys \<and> (\<forall>x\<in>set xs. \<forall>y\<in>set ys. m_apart x y)"
  by (auto simp: mp_ok_def sorted_wrt_append)

lemma mp_ok_Cons: "mp_ok (b # ms) \<longleftrightarrow> m_good b \<and> mp_ok ms \<and> (\<forall>y\<in>set ms. m_apart b y)"
  by (auto simp: mp_ok_def)

lemma mp_ok_Nil [simp]: "mp_ok []"
  by (simp add: mp_ok_def)

lemma m_apart_sym: "m_apart a b \<longleftrightarrow> m_apart b a"
  by (auto simp: m_apart_def)

lemma maps_append: "maps (xs @ ys) a v \<longleftrightarrow> maps xs a v \<or> maps ys a v"
  by (auto simp: maps_def)

lemma maps_Cons: "maps (b # ms) a v \<longleftrightarrow> mlo b \<le> unat a \<and> unat a < mhi b \<and> m_view b a = v \<or> maps ms a v"
  by (auto simp: maps_def)

lemma maps_Nil [simp]: "\<not> maps [] a v"
  by (simp add: maps_def)

lemma m_good_end: "m_good b \<Longrightarrow> unat (pb_map_vaddr b + pb_map_size b) = mhi b \<and> mlo b < mhi b"
  by (simp add: m_good_def unat_end neq0_u64)

text \<open>A piece of a mapping: a sub-span, with the physical start moved along.\<close>

definition m_piece :: "phys_block \<Rightarrow> nat \<Rightarrow> nat \<Rightarrow> phys_block \<Rightarrow> bool" where
  "m_piece b lo hi p \<longleftrightarrow> m_good p \<and> mlo p = lo \<and> mhi p = hi \<and>
     pb_start_addr p = pb_start_addr b + (pb_map_vaddr p - pb_map_vaddr b)"

lemma m_piece_start:
  "pb_start_addr p = pb_start_addr b + (pb_map_vaddr p - pb_map_vaddr b) \<Longrightarrow>
   pb_start_addr p + (a - pb_map_vaddr p) = pb_start_addr b + (a - pb_map_vaddr b)"
  by simp

lemma m_piece_view:
  assumes "m_piece b lo hi p" and "pb_prot p = pb_prot b" and "pb_mode p = pb_mode b"
    and "pb_gpu_mode p = pb_gpu_mode b"
  shows "m_view p a = m_view b a"
  using assms m_piece_start [of p b a] by (simp add: m_view_def m_piece_def)

text \<open>Replacing one mapping by pieces of it, wherever they go in the vector.\<close>

lemma mp_replace:
  assumes ok: "mp_ok (A @ b # C)" and P: "mp_ok (L @ R)" "\<forall>p\<in>set (L @ R). mlo b \<le> mlo p \<and> mhi p \<le> mhi b"
  shows "mp_ok (A @ L @ C @ R)"
proof -
  have "m_apart x p" if "x \<in> set (A @ C)" "p \<in> set (L @ R)" for x p
  proof -
    have "m_apart x b" using ok that(1) by (auto simp: mp_ok_append mp_ok_Cons m_apart_sym)
    moreover have "mlo b \<le> mlo p" "mhi p \<le> mhi b" using P(2) that(2) by auto
    ultimately show ?thesis by (auto simp: m_apart_def)
  qed
  note apart = this
  have parts: "mp_ok A" "mp_ok C" "mp_ok L" "mp_ok R" "\<forall>x\<in>set A. \<forall>y\<in>set C. m_apart x y"
      "\<forall>x\<in>set L. \<forall>y\<in>set R. m_apart x y"
    using ok P(1) by (auto simp: mp_ok_append mp_ok_Cons)
  have "\<forall>x\<in>set L. \<forall>y\<in>set C. m_apart x y" using apart by (metis Un_iff m_apart_sym set_append)
  then show ?thesis using parts apart by (auto simp: mp_ok_append)
qed

text \<open>The pieces left of a mapping when a request is cut out of it.\<close>

definition rest_pieces :: "u64 \<Rightarrow> u64 \<Rightarrow> phys_block \<Rightarrow> phys_block list \<Rightarrow> bool" where
  "rest_pieces va n b P \<longleftrightarrow> (\<exists>L R. P = L @ R \<and>
     (if mlo b = unat va then L = []
      else \<exists>p. L = [p] \<and> m_piece b (mlo b) (unat va) p \<and> m_view p = m_view b) \<and>
     (if unat va + unat n = mhi b then R = []
      else \<exists>p. R = [p] \<and> m_piece b (unat va + unat n) (mhi b) p \<and> m_view p = m_view b))"

lemma rest_pieces_spec:
  assumes "rest_pieces va n b P" and "m_good b" and "mlo b \<le> unat va" and "unat va + unat n \<le> mhi b"
  shows "mp_ok P" and "\<forall>p\<in>set P. mlo b \<le> mlo p \<and> mhi p \<le> mhi b"
    and "maps P a v \<longleftrightarrow> mlo b \<le> unat a \<and> unat a < mhi b \<and> m_view b a = v \<and> \<not> in_span va n a"
  using assms
  by (auto simp: rest_pieces_def m_piece_def mp_ok_append mp_ok_Cons maps_append maps_Cons in_span_def
      m_apart_def split: if_splits)

lemma unmap_loop_cases:
  assumes good: "\<forall>b\<in>set rest. m_good b" and n: "n \<noteq> 0" and fit: "fits va n"
  defines "hit \<equiv> \<lambda>b. mlo b \<le> unat va \<and> unat va + unat n \<le> mhi b"
  shows "case unmap_loop va n bef rest of
      None \<Rightarrow> \<forall>b\<in>set rest. \<not> hit b
    | Some (g, h, ms) \<Rightarrow> \<exists>A b C L R. rest = A @ b # C \<and> hit b \<and> g = pb_gpu_mode b \<and>
        ms = bef @ A @ L @ C @ R \<and> rest_pieces va n b (L @ R) \<and>
        h = (if L @ R = [] then host_release ms (pb_host_vaddr b) (pb_host_size b) else 0)"
  using good
proof (induction rest arbitrary: bef)
  case Nil
  then show ?case by simp
next
  case (Cons b rest)
  have g: "m_good b" using Cons.prems by simp
  have be: "unat (pb_map_vaddr b + pb_map_size b) = mhi b" "mlo b < mhi b" "pb_size b = pb_map_size b"
    using m_good_end [OF g] g by (auto simp: m_good_def)
  have ve: "unat (va + n) = unat va + unat n" by (rule unat_end [OF fit])
  have pos: "0 < unat n" using n by (simp add: neq0_u64)
  let ?fin = "\<lambda>L R. unmap_loop va n bef (b # rest) = Some (pb_gpu_mode b,
      if L @ R = [] then host_release (bef @ rest) (pb_host_vaddr b) (pb_host_size b) else 0,
      bef @ L @ rest @ R) \<and> rest_pieces va n b (L @ R)"
  have fin: "?case" if o: "?fin L R" and h: "hit b" for L R
  proof -
    have "unmap_loop va n bef (b # rest) = Some (pb_gpu_mode b,
      if L @ R = [] then host_release (bef @ rest) (pb_host_vaddr b) (pb_host_size b) else 0,
      bef @ [] @ L @ rest @ R)" using o by simp
    then show ?thesis using o h by (simp only: option.case prod.case)
      (intro exI [of _ "[]"] exI [of _ b] exI [of _ rest] exI [of _ L] exI [of _ R], auto)
  qed
  consider (whole) "mlo b = unat va" "mhi b = unat va + unat n"
    | (middle) "mlo b < unat va" "unat va + unat n < mhi b"
    | (front) "mlo b = unat va" "unat va + unat n < mhi b"
    | (tail) "mlo b < unat va" "unat va + unat n = mhi b"
    | (miss) "\<not> hit b"
    unfolding hit_def by linarith
  then show ?case
  proof cases
    case whole
    have "?fin [] []" using whole by (auto simp: eq_u64 rest_pieces_def)
    then show ?thesis by (rule fin) (use whole in \<open>simp add: hit_def\<close>)
  next
    case middle
    let ?l = "b\<lparr>pb_size := va - pb_map_vaddr b, pb_map_size := va - pb_map_vaddr b\<rparr>"
    let ?s = "pb_map_vaddr b + pb_map_size b - (va + n)"
    let ?r = "b\<lparr>pb_start_addr := pb_start_addr b + ((va + n) - pb_map_vaddr b),
                      pb_size := ?s, pb_map_size := ?s, pb_map_vaddr := va + n\<rparr>"
    have sl: "unat (va - pb_map_vaddr b) = unat va - mlo b" using middle by (simp add: unat_minus_u64)
    have sr: "unat ?s = mhi b - (unat va + unat n)" using middle be ve by (subst unat_minus_u64) simp_all
    have l: "m_piece b (mlo b) (unat va) ?l" using middle sl unat_u64_lt [of va]
      by (auto simp: m_piece_def m_good_def neq0_u64 fits_def)
    have r: "m_piece b (unat va + unat n) (mhi b) ?r"
      using middle sr ve be unat_u64_lt [of "pb_map_vaddr b + pb_map_size b"]
      by (auto simp: m_piece_def m_good_def neq0_u64 fits_def)
    have "m_view ?l = m_view b" "m_view ?r = m_view b"
      using m_piece_view [OF l] m_piece_view [OF r] by (auto simp: fun_eq_iff)
    then have "rest_pieces va n b ([?l] @ [?r])" unfolding rest_pieces_def using middle l r
      by (intro exI [of _ "[?l]"] exI [of _ "[?r]"]) auto
    moreover have "unmap_loop va n bef (b # rest) = Some (pb_gpu_mode b, 0, bef @ ?l # rest @ [?r])"
      using middle ve be by (auto simp: Let_def less_u64 eq_u64)
    ultimately have "?fin [?l] [?r]" by simp
    then show ?thesis by (rule fin) (use middle in \<open>simp add: hit_def\<close>)
  next
    case front
    let ?f = "b\<lparr>pb_start_addr := pb_start_addr b + n, pb_size := pb_size b - n,
                     pb_map_vaddr := pb_map_vaddr b + n, pb_map_size := pb_map_size b - n\<rparr>"
    have st: "pb_map_vaddr b = va" using front by (simp add: eq_u64)
    have "unat n \<le> unat (pb_map_size b)" using front by linarith
    then have sz: "unat (pb_map_size b - n) = unat (pb_map_size b) - unat n" by (rule unat_minus_u64)
    have f: "m_piece b (unat va + unat n) (mhi b) ?f"
      using front sz ve be st unat_u64_lt [of "pb_map_vaddr b + pb_map_size b"]
      by (auto simp: m_piece_def m_good_def neq0_u64 fits_def)
    have "m_view ?f = m_view b" using m_piece_view [OF f] by (auto simp: fun_eq_iff)
    then have "rest_pieces va n b ([?f] @ [])" unfolding rest_pieces_def using front f
      by (intro exI [of _ "[]"] exI [of _ "[?f]"]) auto
    moreover have "unmap_loop va n bef (b # rest) = Some (pb_gpu_mode b, 0, bef @ ?f # rest)"
      using front ve be st by (auto simp: less_u64 eq_u64)
    ultimately have "?fin [?f] []" by simp
    then show ?thesis by (rule fin) (use front in \<open>simp add: hit_def\<close>)
  next
    case tail
    let ?l = "b\<lparr>pb_size := va - pb_map_vaddr b, pb_map_size := va - pb_map_vaddr b\<rparr>"
    have sl: "unat (va - pb_map_vaddr b) = unat va - mlo b" using tail by (simp add: unat_minus_u64)
    have l: "m_piece b (mlo b) (unat va) ?l" using tail sl unat_u64_lt [of va]
      by (auto simp: m_piece_def m_good_def neq0_u64 fits_def)
    have "m_view ?l = m_view b" using m_piece_view [OF l] by (auto simp: fun_eq_iff)
    then have "rest_pieces va n b ([?l] @ [])" unfolding rest_pieces_def using tail l
      by (intro exI [of _ "[?l]"] exI [of _ "[]"]) auto
    moreover have "unmap_loop va n bef (b # rest) = Some (pb_gpu_mode b, 0, bef @ ?l # rest)"
      using tail ve be by (auto simp: less_u64 eq_u64)
    ultimately have "?fin [?l] []" by simp
    then show ?thesis by (rule fin) (use tail in \<open>simp add: hit_def\<close>)
  next
    case miss
    have skip: "unmap_loop va n bef (b # rest) = unmap_loop va n (bef @ [b]) rest"
      using miss ve be by (auto simp: hit_def less_u64 eq_u64)
    have ih: "case unmap_loop va n (bef @ [b]) rest of
      None \<Rightarrow> \<forall>b\<in>set rest. \<not> hit b
    | Some (g, h, ms) \<Rightarrow> \<exists>A b' C L R. rest = A @ b' # C \<and> hit b' \<and> g = pb_gpu_mode b' \<and>
        ms = (bef @ [b]) @ A @ L @ C @ R \<and> rest_pieces va n b' (L @ R) \<and>
        h = (if L @ R = [] then host_release ms (pb_host_vaddr b') (pb_host_size b') else 0)"
      using Cons.IH [of "bef @ [b]"] Cons.prems by simp
    show ?thesis
    proof (cases "unmap_loop va n (bef @ [b]) rest")
      case None
      then show ?thesis using ih skip miss by simp
    next
      case (Some t)
      obtain gm h ms where t: "t = (gm, h, ms)" by (metis prod_cases3)
      with ih Some obtain A b' C L R where "rest = A @ b' # C" "hit b'" "gm = pb_gpu_mode b'"
          "ms = (bef @ [b]) @ A @ L @ C @ R" "rest_pieces va n b' (L @ R)"
          "h = (if L @ R = [] then host_release ms (pb_host_vaddr b') (pb_host_size b') else 0)"
        by auto
      then have "b # rest = (b # A) @ b' # C \<and> hit b' \<and> gm = pb_gpu_mode b' \<and>
          ms = bef @ (b # A) @ L @ C @ R \<and> rest_pieces va n b' (L @ R) \<and>
          h = (if L @ R = [] then host_release ms (pb_host_vaddr b') (pb_host_size b') else 0)" by simp
      then show ?thesis unfolding skip Some t option.case prod.case by blast
    qed
  qed
qed

lemma Unmap_spec:
  assumes ok: "mp_ok (pm_mappings pm)" and n: "n \<noteq> 0" and fit: "fits va n"
  defines "hit \<equiv> \<lambda>b. mlo b \<le> unat va \<and> unat va + unat n \<le> mhi b"
  shows "case PhysicalMemory_Unmap va n pm of
      (None, pm') \<Rightarrow> pm' = pm \<and> \<not> (\<exists>b\<in>set (pm_mappings pm). hit b)
    | (Some (g, h), pm') \<Rightarrow> (\<exists>b\<in>set (pm_mappings pm). hit b \<and> g = pb_gpu_mode b) \<and>
        pm' = pm\<lparr>pm_mappings := pm_mappings pm'\<rparr> \<and> mp_ok (pm_mappings pm') \<and>
        (\<forall>a v. maps (pm_mappings pm') a v \<longleftrightarrow> maps (pm_mappings pm) a v \<and> \<not> in_span va n a)"
proof -
  have good: "\<forall>b\<in>set (pm_mappings pm). m_good b" using ok by (simp add: mp_ok_def)
  note cs = unmap_loop_cases [OF good n fit, of "[]"]
  show ?thesis
  proof (cases "unmap_loop va n [] (pm_mappings pm)")
    case None
    then show ?thesis using cs by (auto simp: PhysicalMemory_Unmap_def hit_def)
  next
    case (Some t)
    obtain g h ms where t: "t = (g, h, ms)" by (metis prod_cases3)
    from cs obtain A b C L R where d: "pm_mappings pm = A @ b # C"
        "mlo b \<le> unat va \<and> unat va + unat n \<le> mhi b" "g = pb_gpu_mode b"
        "ms = A @ L @ C @ R" "rest_pieces va n b (L @ R)"
      unfolding Some t option.case prod.case append_Nil by blast
    have gb: "m_good b" using good d(1) by simp
    have inside: "mlo b \<le> unat va" "unat va + unat n \<le> mhi b" using d(2) by blast+
    note rp = rest_pieces_spec [OF d(5) gb inside]
    have ok': "mp_ok ms" unfolding d(4) by (rule mp_replace [OF ok [unfolded d(1)] rp(1,2)])
    have others: "\<not> in_span va n a" if "x \<in> set (A @ C)" "mlo x \<le> unat a" "unat a < mhi x" for x a
    proof -
      have "m_apart x b" using ok d(1) that(1) by (auto simp: mp_ok_append mp_ok_Cons m_apart_sym)
      then show ?thesis using that inside by (auto simp: m_apart_def in_span_def)
    qed
    have out: "maps xs a v \<Longrightarrow> \<not> in_span va n a" if "set xs \<subseteq> set (A @ C)" for xs a v
      using that others unfolding maps_def by blast
    have "maps ms a v \<longleftrightarrow> maps (pm_mappings pm) a v \<and> \<not> in_span va n a" for a v
      using rp(3) [of a v] out [of A a v] out [of C a v]
      unfolding d(1,4) by (auto simp: maps_append maps_Cons)
    then show ?thesis using Some t d ok' by (auto simp: PhysicalMemory_Unmap_def hit_def)
  qed
qed

lemma protect_block_spec:
  assumes g: "m_good b" and n: "n \<noteq> 0" and fit: "fits va n"
  shows "mp_ok (protect_block va n prot mode gm b)"
    and "\<forall>p\<in>set (protect_block va n prot mode gm b). mlo b \<le> mlo p \<and> mhi p \<le> mhi b"
    and "maps (protect_block va n prot mode gm b) a v \<longleftrightarrow> mlo b \<le> unat a \<and> unat a < mhi b \<and>
      (if in_span va n a then (pb_start_addr b + (a - pb_map_vaddr b), prot, mode, gm) else m_view b a) = v"
proof -
  have be: "unat (pb_map_vaddr b + pb_map_size b) = mhi b" "mlo b < mhi b" using m_good_end [OF g] by auto
  have ve: "unat (va + n) = unat va + unat n" by (rule unat_end [OF fit])
  have pos: "0 < unat n" using n by (simp add: neq0_u64)
  have ends: "sat_end va n = va + n" "sat_end (pb_map_vaddr b) (pb_map_size b) = pb_map_vaddr b + pb_map_size b"
    using fits_end fit g by (auto simp: m_good_def)
  have ov: "VirtualRangesOverlap va n (pb_map_vaddr b) (pb_map_size b) \<longleftrightarrow>
      unat va < mhi b \<and> mlo b < unat va + unat n"
    using n g by (auto simp: VirtualRangesOverlap_eq ends less_u64 be ve m_good_def)
  let ?P = "protect_block va n prot mode gm b"
  have "mp_ok ?P \<and> (\<forall>p\<in>set ?P. mlo b \<le> mlo p \<and> mhi p \<le> mhi b) \<and>
    (maps ?P a v \<longleftrightarrow> mlo b \<le> unat a \<and> unat a < mhi b \<and>
      (if in_span va n a then (pb_start_addr b + (a - pb_map_vaddr b), prot, mode, gm) else m_view b a) = v)"
  proof (cases "unat va < mhi b \<and> mlo b < unat va + unat n")
    case False
    then have "?P = [b]" using ov by (simp add: protect_block_def)
    then show ?thesis using False g by (auto simp: mp_ok_Cons maps_Cons in_span_def)
  next
    case True
    define os oe where "os = max va (pb_map_vaddr b)" and "oe = min (va + n) (pb_map_vaddr b + pb_map_size b)"
    have os: "unat os = max (unat va) (mlo b)" and oe: "unat oe = min (unat va + unat n) (mhi b)"
      by (simp_all add: os_def oe_def unat_max_u64 unat_min_u64 be ve)
    define l m r where "l = b\<lparr>pb_size := os - pb_map_vaddr b, pb_map_size := os - pb_map_vaddr b\<rparr>"
      and "m = b\<lparr>pb_start_addr := pb_start_addr b + os - pb_map_vaddr b, pb_size := oe - os,
        pb_map_vaddr := os, pb_map_size := oe - os, pb_prot := prot, pb_mode := mode, pb_gpu_mode := gm\<rparr>"
      and "r = b\<lparr>pb_start_addr := pb_start_addr b + oe - pb_map_vaddr b,
        pb_size := pb_map_vaddr b + pb_map_size b - oe, pb_map_vaddr := oe,
        pb_map_size := pb_map_vaddr b + pb_map_size b - oe\<rparr>"
    have P: "?P = (if mlo b < unat os then [l] else []) @ [m] @ (if unat oe < mhi b then [r] else [])"
      using ov True by (simp add: protect_block_def Let_def os_def [symmetric] oe_def [symmetric]
          l_def m_def r_def less_u64 be)
    have lt: "unat os < unat oe" using True pos os oe be(2) by auto
    have sl: "unat (os - pb_map_vaddr b) = unat os - mlo b" using os by (simp add: unat_minus_u64)
    have sm: "unat (oe - os) = unat oe - unat os" using lt by (simp add: unat_minus_u64)
    have sr: "unat (pb_map_vaddr b + pb_map_size b - oe) = mhi b - unat oe"
      using oe be by (subst unat_minus_u64) simp_all
    have pl: "m_piece b (mlo b) (unat os) l" if "mlo b < unat os"
      using that sl unat_u64_lt [of os] by (auto simp: m_piece_def m_good_def neq0_u64 fits_def l_def)
    have pm: "m_piece b (unat os) (unat oe) m"
      using lt sm unat_u64_lt [of oe] by (auto simp: m_piece_def m_good_def neq0_u64 fits_def m_def)
    have pr: "m_piece b (unat oe) (mhi b) r" if "unat oe < mhi b"
      using that sr unat_u64_lt [of "pb_map_vaddr b + pb_map_size b"] be
      by (auto simp: m_piece_def m_good_def neq0_u64 fits_def r_def)
    have vl: "mlo b < unat os \<Longrightarrow> m_view l a = m_view b a"
      by (rule m_piece_view [OF pl]) (simp_all add: l_def)
    have vr: "unat oe < mhi b \<Longrightarrow> m_view r a = m_view b a"
      by (rule m_piece_view [OF pr]) (simp_all add: r_def)
    have vm: "m_view m a = (pb_start_addr b + (a - pb_map_vaddr b), prot, mode, gm)"
      by (simp add: m_view_def m_def)
    have c: "in_span va n a \<longleftrightarrow> unat os \<le> unat a \<and> unat a < unat oe" if "mlo b \<le> unat a" "unat a < mhi b"
      using that os oe by (auto simp: in_span_def)
    have in_b: "mlo b \<le> unat os" "unat oe \<le> mhi b" using os oe by auto
    have ok: "mp_ok ?P"
      unfolding P using pl pm pr lt in_b by (auto simp: mp_ok_append mp_ok_Cons m_piece_def m_apart_def)
    have within: "\<forall>p\<in>set ?P. mlo b \<le> mlo p \<and> mhi p \<le> mhi b"
      unfolding P using pl pm pr lt in_b by (auto simp: m_piece_def)
    have ml: "mlo b < unat os \<Longrightarrow> mlo l = mlo b \<and> mhi l = unat os"
      and mr: "unat oe < mhi b \<Longrightarrow> mlo r = unat oe \<and> mhi r = mhi b"
      and mm: "mlo m = unat os \<and> mhi m = unat oe"
      using pl pr pm by (auto simp: m_piece_def)
    have "maps ?P a v \<longleftrightarrow>
        unat a < unat os \<and> mlo b \<le> unat a \<and> m_view b a = v \<or>
        unat os \<le> unat a \<and> unat a < unat oe \<and> m_view m a = v \<or>
        unat oe \<le> unat a \<and> unat a < mhi b \<and> m_view b a = v"
      unfolding P using ml mr mm vl vr by (auto simp: maps_append maps_Cons)
    then show ?thesis using ok within c in_b lt vm by auto
  qed
  then show "mp_ok ?P" and "\<forall>p\<in>set ?P. mlo b \<le> mlo p \<and> mhi p \<le> mhi b"
    and "maps ?P a v \<longleftrightarrow> mlo b \<le> unat a \<and> unat a < mhi b \<and>
      (if in_span va n a then (pb_start_addr b + (a - pb_map_vaddr b), prot, mode, gm) else m_view b a) = v"
    by blast+
qed

fun protect_view :: "i32 \<Rightarrow> vmode \<Rightarrow> gpu_access \<Rightarrow> u64 \<times> i32 \<times> vmode \<times> gpu_access \<Rightarrow>
    u64 \<times> i32 \<times> vmode \<times> gpu_access" where
  "protect_view prot mode gm (x, _, _, _) = (x, prot, mode, gm)"

lemma protect_view_m:
  "protect_view prot mode gm (m_view b a) = (pb_start_addr b + (a - pb_map_vaddr b), prot, mode, gm)"
  by (simp add: m_view_def)

lemma ProtectMapping_spec:
  assumes ok: "mp_ok (pm_mappings pm)" and n: "n \<noteq> 0" and fit: "fits va n"
    and eq: "PhysicalMemory_ProtectMapping va n prot mode gm pm = pm'"
  shows "mp_ok (pm_mappings pm') \<and> pm' = pm\<lparr>pm_mappings := pm_mappings pm'\<rparr> \<and>
    (\<forall>a v. maps (pm_mappings pm') a v \<longleftrightarrow>
      (\<exists>w. maps (pm_mappings pm) a w \<and> v = (if in_span va n a then protect_view prot mode gm w else w)))"
proof -
  let ?f = "protect_block va n prot mode gm"
  have run: "pm' = pm\<lparr>pm_mappings := concat (map ?f (pm_mappings pm))\<rparr>"
    using n fit fits_u64 [of va n] eq by (simp add: PhysicalMemory_ProtectMapping_def)
  have "mp_ok (concat (map ?f ms)) \<and>
      (\<forall>p\<in>set (concat (map ?f ms)). \<exists>b\<in>set ms. mlo b \<le> mlo p \<and> mhi p \<le> mhi b) \<and>
      (\<forall>a v. maps (concat (map ?f ms)) a v \<longleftrightarrow>
        (\<exists>w. maps ms a w \<and> v = (if in_span va n a then protect_view prot mode gm w else w)))"
    if "mp_ok ms" for ms
    using that
  proof (induction ms)
    case Nil
    then show ?case by simp
  next
    case (Cons b ms)
    have g: "m_good b" using Cons.prems by (simp add: mp_ok_Cons)
    note p = protect_block_spec [OF g n fit, of prot mode gm]
    have ih: "mp_ok (concat (map ?f ms))"
        "\<And>q. q \<in> set (concat (map ?f ms)) \<Longrightarrow> \<exists>c\<in>set ms. mlo c \<le> mlo q \<and> mhi q \<le> mhi c"
        "\<And>a v. maps (concat (map ?f ms)) a v \<longleftrightarrow>
          (\<exists>w. maps ms a w \<and> v = (if in_span va n a then protect_view prot mode gm w else w))"
      using Cons.IH Cons.prems unfolding mp_ok_Cons by blast+
    have "m_apart x y" if x: "x \<in> set (?f b)" and y: "y \<in> set (concat (map ?f ms))" for x y
    proof -
      obtain c where "c \<in> set ms" "mlo c \<le> mlo y" "mhi y \<le> mhi c" using ih(2) [OF y] by blast
      moreover have "m_apart b c" using Cons.prems \<open>c \<in> set ms\<close> by (simp add: mp_ok_Cons)
      moreover have "mlo b \<le> mlo x" "mhi x \<le> mhi b" using p(2) x by auto
      ultimately show ?thesis by (auto simp: m_apart_def)
    qed
    then have "mp_ok (concat (map ?f (b # ms)))" using p(1) ih(1) by (simp add: mp_ok_append)
    moreover have "\<forall>q\<in>set (concat (map ?f (b # ms))). \<exists>c\<in>set (b # ms). mlo c \<le> mlo q \<and> mhi q \<le> mhi c"
      using p(2) ih(2) by (auto; blast)
    moreover have "maps (concat (map ?f (b # ms))) a v \<longleftrightarrow>
        (\<exists>w. maps (b # ms) a w \<and> v = (if in_span va n a then protect_view prot mode gm w else w))" for a v
    proof -
      define u where "u = (\<lambda>w. if in_span va n a then protect_view prot mode gm w else w)"
      have "maps (?f b) a v \<longleftrightarrow> mlo b \<le> unat a \<and> unat a < mhi b \<and> v = u (m_view b a)"
        unfolding p(3) u_def protect_view_m by blast
      moreover have "maps (concat (map ?f ms)) a v \<longleftrightarrow> (\<exists>w. maps ms a w \<and> v = u w)"
        using ih(3) [of a v] by (simp only: u_def)
      moreover have "maps (concat (map ?f (b # ms))) a v \<longleftrightarrow> maps (?f b) a v \<or> maps (concat (map ?f ms)) a v"
        by (simp add: maps_append)
      ultimately have "maps (concat (map ?f (b # ms))) a v \<longleftrightarrow> (\<exists>w. maps (b # ms) a w \<and> v = u w)"
        unfolding maps_Cons by blast
      then show ?thesis by (simp only: u_def)
    qed
    ultimately show ?case by blast
  qed
  from this [OF ok] show ?thesis unfolding run by simp
qed

subsection \<open>Reachable states\<close>

text \<open>
  The operations under their callers' discipline: sizes are positive, spans end at a representable
  address, and a new mapping is placed on virtual addresses no mapping uses. An allocation step
  is one that returns.
\<close>

inductive pm_step :: "u64 \<Rightarrow> physical_memory \<Rightarrow> physical_memory \<Rightarrow> bool" for flex where
  alloc: "len \<noteq> 0 \<Longrightarrow> PhysicalMemory_Alloc flex ss se len al mt pool pm = Some (r, pm') \<Longrightarrow> pm_step flex pm pm'"
| release: "len \<noteq> 0 \<Longrightarrow> fits start len \<Longrightarrow> pm_step flex pm (snd (PhysicalMemory_Release start len pm))"
| release_pool: "pm_step flex pm (snd (PhysicalMemory_ReleasePoolExpansion start len pm))"
| map_range: "fits va len \<Longrightarrow> (\<forall>b\<in>set (pm_mappings pm). mhi b \<le> unat va \<or> unat va + unat len \<le> mlo b) \<Longrightarrow>
    pm_step flex pm (snd (PhysicalMemory_Map va pa len prot mode gm pm))"
| unmap: "n \<noteq> 0 \<Longrightarrow> fits va n \<Longrightarrow> pm_step flex pm (snd (PhysicalMemory_Unmap va n pm))"
| protect: "pm_step flex pm (PhysicalMemory_ProtectMapping va n prot mode gm pm)"
| name: "pm_step flex pm (PhysicalMemory_SetVirtualRangeName va n nm pm)"
| mtype: "pm_step flex pm (PhysicalMemory_SetVirtualRangeMemoryType va n mt pm)"

definition pm_inv :: "u64 \<Rightarrow> physical_memory \<Rightarrow> bool" where
  "pm_inv pmsz pm \<longleftrightarrow> pm_ok pmsz pm \<and> mp_ok (pm_mappings pm)"

lemma pm_ok_mappings [simp]: "pm_ok pmsz (pm\<lparr>pm_mappings := ms\<rparr>) = pm_ok pmsz pm"
  by (simp add: pm_ok_def)

lemma mp_ok_map:
  assumes "mp_ok ms" and "\<And>b. pb_map_vaddr (f b) = pb_map_vaddr b \<and> pb_map_size (f b) = pb_map_size b \<and>
      (m_good b \<longrightarrow> m_good (f b))"
  shows "mp_ok (map f ms)"
proof -
  have "m_apart (f a) (f b) = m_apart a b" for a b using assms(2) by (simp add: m_apart_def)
  then show ?thesis using assms by (auto simp: mp_ok_def sorted_wrt_map)
qed

lemma Map_spec:
  assumes "mp_ok (pm_mappings pm)" and "fits va len"
    and "\<forall>b\<in>set (pm_mappings pm). mhi b \<le> unat va \<or> unat va + unat len \<le> mlo b"
  shows "\<exists>ms. snd (PhysicalMemory_Map va pa len prot mode gm pm) = pm\<lparr>pm_mappings := ms\<rparr> \<and> mp_ok ms"
proof (cases "PhysicalMemory_Map va pa len prot mode gm pm = (False, pm)")
  case True
  then show ?thesis using assms(1) by (intro exI [of _ "pm_mappings pm"]) simp
next
  case False
  then show ?thesis using assms
    by (auto simp: PhysicalMemory_Map_def mp_ok_append mp_ok_Cons m_good_def m_apart_def
        split: if_splits prod.splits)
qed

lemma pm_inv_step:
  assumes sz: "PhysicalMemory_Size flex = Some pmsz" and "pm_step flex pm pm'" and "pm_inv pmsz pm"
  shows "pm_inv pmsz pm'"
  using assms(2,3)
proof (induction rule: pm_step.induct)
  case (alloc len ss se al mt pool pm r pm')
  then show ?case
    using Alloc_spec [of pmsz pm flex len ss se al mt pool] sz by (auto simp: pm_inv_def split: option.splits)
next
  case (release len start pm)
  then show ?case
    using Release_spec [of pmsz pm len start]
    by (cases "PhysicalMemory_Release start len pm") (auto simp: pm_inv_def split: option.splits)
next
  case (release_pool pm start len)
  then show ?case
    using ReleasePoolExpansion_spec [of pmsz pm start len]
    by (cases "PhysicalMemory_ReleasePoolExpansion start len pm") (auto simp: pm_inv_def split: bool.splits)
next
  case (map_range va len pm pa prot mode gm)
  then show ?case using Map_spec [of pm va len pa prot mode gm] by (auto simp: pm_inv_def)
next
  case (unmap n va pm)
  obtain res pm1 where run: "PhysicalMemory_Unmap va n pm = (res, pm1)" by fastforce
  have "pm_ok pmsz pm1 = pm_ok pmsz pm"
    using run by (auto simp: PhysicalMemory_Unmap_def split: option.splits prod.splits)
  then show ?case
    using Unmap_spec [of pm n va] unmap run by (auto simp: pm_inv_def split: option.splits)
next
  case (protect pm va n prot mode gm)
  show ?case
  proof (cases "n = 0 \<or> u64_max - va < n")
    case True
    then show ?thesis using protect by (simp add: PhysicalMemory_ProtectMapping_def)
  next
    case False
    then show ?thesis
      using ProtectMapping_spec [of pm n va prot mode gm, OF _ _ _ refl] protect fits_u64 [of va n]
        pm_ok_mappings [of pmsz _ pm] by (metis pm_inv_def)
  qed
next
  case (name pm va n nm)
  then show ?case unfolding pm_inv_def PhysicalMemory_SetVirtualRangeName_def
    by (auto simp: m_good_def intro!: mp_ok_map)
next
  case (mtype pm va n mt)
  then show ?case unfolding pm_inv_def PhysicalMemory_SetVirtualRangeMemoryType_def
    by (auto simp: m_good_def intro!: mp_ok_map)
qed

lemma pm_inv_init:
  assumes "PhysicalMemory_Size flex = Some pmsz" and "PhysicalMemory_init flex = Some pm"
  shows "pm_inv pmsz pm"
proof -
  have pm: "pm = \<lparr>pm_physical = [], pm_free = [(0, pmsz)], pm_mappings = []\<rparr>"
    using assms by (auto simp: PhysicalMemory_init_def om_emplace_def om_find_def om_lower_def)
  have "pmsz \<noteq> 0" using assms(1)
    by (auto simp: PhysicalMemory_Size_def PhysicalMemory_TotalSize_def split: if_splits)
  then show ?thesis using Size_Some [OF assms(1)]
    by (simp add: pm pm_inv_def pm_ok_def fr_ok_Cons fits_def splits_def owned_def span_of_def neq0_u64)
qed

lemma pm_inv_reachable:
  assumes "PhysicalMemory_Size flex = Some pmsz" and "PhysicalMemory_init flex = Some pm0"
    and "(pm_step flex)\<^sup>*\<^sup>* pm0 pm"
  shows "pm_inv pmsz pm"
  using assms(3) by (induction rule: rtranclp_induct) (auto intro: pm_inv_init [OF assms(1,2)] pm_inv_step [OF assms(1)])

subsection \<open>Properties\<close>

text \<open>
  C7: In every reachable state the free list is sorted, coalesced and within the direct memory,
  the blocks are disjoint, every byte of the direct memory is either free or in exactly one
  block, and the virtual mappings are disjoint.
\<close>

theorem PhysicalMemory_partition:
  assumes "PhysicalMemory_Size flex = Some pmsz" and "PhysicalMemory_init flex = Some pm0"
    and "(pm_step flex)\<^sup>*\<^sup>* pm0 pm"
  shows "fr_ok (pm_free pm) \<and> blocks_ok (pm_physical pm) \<and>
    splits {0 ..< unat pmsz} (fr_bytes (pm_free pm)) (owned (pm_physical pm)) \<and> mp_ok (pm_mappings pm)"
  using pm_inv_reachable [OF assms] by (simp add: pm_inv_def pm_ok_def)

definition demo_pm0 :: physical_memory where
  "demo_pm0 = \<lparr>pm_physical = [], pm_free = [(0, 14495514624 - 469762048)], pm_mappings = []\<rparr>"

lemma demo_pm0_init: "PhysicalMemory_Size 469762048 = Some (14495514624 - 469762048) \<and>
    PhysicalMemory_init 469762048 = Some demo_pm0"
  by (simp add: PhysicalMemory_init_def PhysicalMemory_Size_def PhysicalMemory_TotalSize_def demo_pm0_def
      om_emplace_def om_find_def om_lower_def)

lemma demo_pm0_ok: "pm_ok (14495514624 - 469762048) demo_pm0"
  using pm_inv_init [OF conjunct1 [OF demo_pm0_init] conjunct2 [OF demo_pm0_init]] by (simp add: pm_inv_def)

theorem PhysicalMemory_partition_witness:
  "let pm = snd (PhysicalMemory_Release 65536 16384 (snd (the
      (PhysicalMemory_Alloc 469762048 0 14025752576 131072 65536 3 False demo_pm0))))
   in splits {0 ..< 14025752576} (fr_bytes (pm_free pm)) (owned (pm_physical pm))"
proof -
  let ?a = "PhysicalMemory_Alloc 469762048 0 14025752576 131072 65536 3 False demo_pm0"
  have "?a \<noteq> None"
    using Alloc_spec [OF demo_pm0_ok conjunct1 [OF demo_pm0_init], of 131072 0 14025752576 65536 3 False]
    by (auto split: option.splits)
  then have "pm_step 469762048 demo_pm0 (snd (the ?a))"
    by (intro pm_step.alloc [of 131072 469762048 0 14025752576 65536 3 False demo_pm0 "fst (the ?a)"]) auto
  moreover have "pm_step 469762048 (snd (the ?a)) (snd (PhysicalMemory_Release 65536 16384 (snd (the ?a))))"
    by (rule pm_step.release) (simp_all add: fits_def)
  ultimately have "(pm_step 469762048)\<^sup>*\<^sup>* demo_pm0 (snd (PhysicalMemory_Release 65536 16384 (snd (the ?a))))"
    by (meson r_into_rtranclp rtranclp_trans)
  from PhysicalMemory_partition [OF conjunct1 [OF demo_pm0_init] conjunct2 [OF demo_pm0_init] this]
  show ?thesis by simp
qed

text \<open>
  C8: \<open>Alloc\<close> is first fit and complete. It never aborts in a consistent state; it fails only when
  no aligned free place of the length exists in the search window; otherwise it returns the
  lowest such place, and exactly its bytes move from the free list to a new block of the
  requested memory type.
\<close>

theorem Alloc_correct:
  assumes "pm_ok pmsz pm" and "PhysicalMemory_Size flex = Some pmsz" and "len \<noteq> 0"
  shows "case PhysicalMemory_Alloc flex ss se len al mt pool pm of
      None \<Rightarrow> False
    | Some (None, pm') \<Rightarrow> pm' = pm \<and> \<not> (\<exists>q. fits_at (pm_free pm) ss (min se pmsz) len al q)
    | Some (Some p, pm') \<Rightarrow> fits_at (pm_free pm) ss (min se pmsz) len al (unat p) \<and>
        (\<forall>q. fits_at (pm_free pm) ss (min se pmsz) len al q \<longrightarrow> unat p \<le> q) \<and> pm_ok pmsz pm' \<and>
        fr_bytes (pm_free pm') = fr_bytes (pm_free pm) - span_of p len \<and>
        (\<forall>x t q. owns (pm_physical pm') x t q \<longleftrightarrow>
          owns (pm_physical pm) x t q \<or> x \<in> span_of p len \<and> t = mt \<and> q = pool)"
  using Alloc_spec [OF assms, of ss se al mt pool] by (auto split: option.splits)

theorem Alloc_correct_witness:
  "case PhysicalMemory_Alloc 469762048 5 14025752576 131072 65536 3 False demo_pm0 of
     Some (Some p, pm') \<Rightarrow> unat p \<le> 65536 | _ \<Rightarrow> False"
proof -
  have "fits_at (pm_free demo_pm0) 5 (min 14025752576 (14495514624 - 469762048)) 131072 65536 65536"
    by (simp add: fits_at_def demo_pm0_def align_of_def span_of_def)
  then show ?thesis
    using Alloc_correct [OF demo_pm0_ok conjunct1 [OF demo_pm0_init], of 131072 5 14025752576 65536 3 False]
    by (auto split: option.splits)
qed

text \<open>A state with one block of 128 KiB, mapped at a user address, for the witnesses.\<close>

definition demo_pm :: physical_memory where
  "demo_pm =
    (let b = \<lparr>pb_start_addr = 65536, pb_size = 131072, pb_map_vaddr = 0, pb_map_size = 0,
               pb_host_vaddr = 0, pb_host_size = 0, pb_prot = 0, pb_mode = NoAccess,
               pb_gpu_mode = GpuNoAccess, pb_memory_type = 3, pb_pool_expansion = False, pb_name = ''''\<rparr>;
         m = b\<lparr>pb_map_vaddr := 8589934592, pb_map_size := 131072, pb_host_vaddr := 8589934592,
               pb_host_size := 131072, pb_prot := 3, pb_mode := ReadWrite, pb_gpu_mode := GpuRead\<rparr>
     in \<lparr>pm_physical = [(65536, b)], pm_free = [(0, 65536), (196608, 14025752576 - 196608)],
         pm_mappings = [m]\<rparr>)"

lemma demo_pm_ok: "pm_ok 14025752576 demo_pm" and demo_mp_ok: "mp_ok (pm_mappings demo_pm)"
proof -
  show "mp_ok (pm_mappings demo_pm)"
    by (simp add: demo_pm_def Let_def mp_ok_Cons m_good_def fits_def)
  have "splits {0 ..< 14025752576} (fr_bytes (pm_free demo_pm)) (owned (pm_physical demo_pm))"
    by (auto simp: demo_pm_def Let_def splits_def owned_mem span_of_def)
  then show "pm_ok 14025752576 demo_pm"
    by (simp add: pm_ok_def demo_pm_def Let_def fr_ok_Cons blocks_ok_Cons fits_def)
qed

text \<open>
  \<open>Release\<close> succeeds exactly when the span lies in one block that is not a pool's, wherever
  in the block it lies; it then frees exactly the span's bytes and leaves every other byte with
  its block's attributes. Otherwise nothing changes.
\<close>

lemma Release_correct:
  assumes "pm_ok pmsz pm" and "len \<noteq> 0" and "fits start len"
  shows "case PhysicalMemory_Release start len pm of
      (None, pm') \<Rightarrow> pm' = pm \<and> \<not> (\<exists>e\<in>set (pm_physical pm). \<not> pb_pool_expansion (snd e) \<and>
        span_of start len \<subseteq> span_of (fst e) (pb_size (snd e)))
    | (Some r, pm') \<Rightarrow> (\<exists>e\<in>set (pm_physical pm). \<not> pb_pool_expansion (snd e) \<and>
        span_of start len \<subseteq> span_of (fst e) (pb_size (snd e))) \<and> pm_ok pmsz pm' \<and>
        fr_bytes (pm_free pm') = fr_bytes (pm_free pm) \<union> span_of start len \<and>
        (\<forall>x t p. owns (pm_physical pm') x t p \<longleftrightarrow> owns (pm_physical pm) x t p \<and> x \<notin> span_of start len)"
  using Release_spec [OF assms] by (auto split: prod.splits option.splits)

text \<open>
  \<open>CanMapDirect\<close> accepts a range exactly when it is non-empty, does not wrap and every byte
  of it is in an allocated block that is not a pool's, however many blocks that takes.
\<close>

lemma CanMapDirect_correct:
  assumes "pm_ok pmsz pm"
  shows "PhysicalMemory_CanMapDirect a len pm \<longleftrightarrow>
    len \<noteq> 0 \<and> fits a len \<and> (\<forall>x\<in>span_of a len. \<exists>t. owns (pm_physical pm) x t False)"
  using CanMapDirect_spec [of pm a len] assms by (simp add: pm_ok_def)

text \<open>
  C9: \<open>Unmap\<close> succeeds exactly when one mapping contains the request, and reports that mapping's
  GPU mode; it then removes exactly the requested virtual addresses, every other address keeping
  its physical byte, protection and modes. Otherwise nothing changes.
\<close>

theorem Unmap_correct:
  assumes "mp_ok (pm_mappings pm)" and "n \<noteq> 0" and "fits va n"
  shows "case PhysicalMemory_Unmap va n pm of
      (None, pm') \<Rightarrow> pm' = pm \<and>
        \<not> (\<exists>b\<in>set (pm_mappings pm). mlo b \<le> unat va \<and> unat va + unat n \<le> mhi b)
    | (Some (g, h), pm') \<Rightarrow>
        (\<exists>b\<in>set (pm_mappings pm). mlo b \<le> unat va \<and> unat va + unat n \<le> mhi b \<and> g = pb_gpu_mode b) \<and>
        mp_ok (pm_mappings pm') \<and>
        (\<forall>a v. maps (pm_mappings pm') a v \<longleftrightarrow> maps (pm_mappings pm) a v \<and> \<not> in_span va n a)"
  using Unmap_spec [OF assms] by (auto split: prod.splits option.splits)

theorem Unmap_correct_witness:
  "\<forall>v. \<not> maps (pm_mappings (snd (PhysicalMemory_Unmap 8589950976 16384 demo_pm))) 8589950976 v"
proof -
  have "\<exists>b\<in>set (pm_mappings demo_pm). mlo b \<le> unat (8589950976 :: u64) \<and>
      unat (8589950976 :: u64) + unat (16384 :: u64) \<le> mhi b"
    by (simp add: demo_pm_def Let_def)
  then show ?thesis
    using Unmap_correct [OF demo_mp_ok, of 16384 8589950976]
    by (auto simp: fits_def in_span_def split: prod.splits option.splits)
qed

end
