(* ===== verification/FlexibleMemory.thy ===== *)
theory FlexibleMemory
  imports PhysicalMemory
begin

text \<open>
  Flexible memory: \<open>class FlexibleMemory\<close> of \<open>src/src/kernel/memory.cpp\<close>. Virtual ranges are
  backed by pieces of the flexible part of the backing store, taken from a free list in address
  order. The guest address space is called to zero, map and unmap backing; those calls are the
  parameter \<open>ops\<close>, on an abstract state \<open>'b\<close>, and may fail. \<open>EXIT_IF\<close> is the value \<open>None\<close> of the
  outer option. Each operation takes the class's mutex and is one step.
\<close>

subsection \<open>State\<close>

record flex_block =
  fb_map_vaddr :: u64
  fb_map_size :: u64
  fb_backing_offset :: u64
  fb_host_vaddr :: u64
  fb_host_size :: u64
  fb_prot :: i32
  fb_mode :: vmode
  fb_gpu_mode :: gpu_access
  fb_name :: string

record flexible_memory =
  fm_allocated :: "flex_block list"
  fm_free :: free_ranges
  fm_allocated_total :: u64

text \<open>The calls to the guest address space: success, and its next state.\<close>

record 'b backing_ops =
  ZeroBacking :: "u64 \<Rightarrow> u64 \<Rightarrow> 'b \<Rightarrow> bool \<times> 'b"
  MapBacking :: "u64 \<Rightarrow> u64 \<Rightarrow> u64 \<Rightarrow> vmode \<Rightarrow> 'b \<Rightarrow> bool \<times> 'b"
  UnmapBacking :: "u64 \<Rightarrow> u64 \<Rightarrow> 'b \<Rightarrow> bool \<times> 'b"

text \<open>\<open>flex\<close> is \<open>g_flexible_memory_size\<close>; the flexible part begins where direct memory ends.\<close>

definition FlexibleMemory_init :: "u64 \<Rightarrow> flexible_memory option" where
  "FlexibleMemory_init flex =
     map_option (\<lambda>base. \<lparr>fm_allocated = [], fm_free = om_emplace base flex [], fm_allocated_total = 0\<rparr>)
       (PhysicalMemory_Size flex)"

definition FlexibleMemory_Available :: "u64 \<Rightarrow> flexible_memory \<Rightarrow> u64" where
  "FlexibleMemory_Available flex fm =
     (if fm_allocated_total fm \<le> flex then flex - fm_allocated_total fm else 0)"

text \<open>The free list helpers are those of \<open>PhysicalMemory\<close>, word for word.\<close>

definition FlexibleMemory_ConsumeFreeRange :: "u64 \<times> u64 \<Rightarrow> u64 \<Rightarrow> u64 \<Rightarrow> free_ranges \<Rightarrow> free_ranges" where
  "FlexibleMemory_ConsumeFreeRange = ConsumeFreeRange"

definition FlexibleMemory_AddFreeRange :: "u64 \<Rightarrow> u64 \<Rightarrow> free_ranges \<Rightarrow> free_ranges" where
  "FlexibleMemory_AddFreeRange = AddFreeRange"

subsection \<open>Mapping\<close>

text \<open>The blocks that would back a request, and what is left over.\<close>

fun plan_blocks :: "flex_block \<Rightarrow> u64 \<Rightarrow> u64 \<Rightarrow> free_ranges \<Rightarrow> flex_block list \<times> u64" where
  "plan_blocks proto current remaining [] = ([], remaining)"
| "plan_blocks proto current remaining ((backing_offset, free_size) # fs) =
     (if remaining = 0 then ([], remaining)
      else
        let chunk = min remaining free_size;
            block = proto\<lparr>fb_map_vaddr := current, fb_map_size := chunk, fb_backing_offset := backing_offset\<rparr>;
            (blocks, left) = plan_blocks proto (current + chunk) (remaining - chunk) fs
        in (block # blocks, left))"

text \<open>Undoing what was mapped, last first; a failure to unmap aborts.\<close>

fun unmap_all :: "'b backing_ops \<Rightarrow> flex_block list \<Rightarrow> 'b \<Rightarrow> 'b option" where
  "unmap_all ops [] s = Some s"
| "unmap_all ops (b # bs) s =
     (let (done_ok, s') = UnmapBacking ops (fb_map_vaddr b) (fb_map_size b) s
      in if done_ok then unmap_all ops bs s' else None)"

definition rollback :: "'b backing_ops \<Rightarrow> flex_block list \<Rightarrow> 'b \<Rightarrow> (bool \<times> 'b) option" where
  "rollback ops mapped s = map_option (Pair False) (unmap_all ops (rev mapped) s)"

fun map_all :: "'b backing_ops \<Rightarrow> bool \<Rightarrow> flex_block list \<Rightarrow> flex_block list \<Rightarrow> 'b \<Rightarrow> (bool \<times> 'b) option" where
  "map_all ops zero mapped [] s = Some (True, s)"
| "map_all ops zero mapped (b # bs) s =
     (let (zeroed, s1) = (if zero then ZeroBacking ops (fb_backing_offset b) (fb_map_size b) s else (True, s))
      in if \<not> zeroed then rollback ops mapped s1
         else
           let (placed, s2) = MapBacking ops (fb_map_vaddr b) (fb_map_size b) (fb_backing_offset b) (fb_mode b) s1
           in if \<not> placed then rollback ops mapped s2
              else map_all ops zero (mapped @ [b]) bs s2)"

text \<open>
  Taking the blocks' backing off the free list. \<open>check\<close> is the abort of \<open>Map\<close> when a block does
  not lie in the range found; \<open>Restore\<close> has checked before.
\<close>

fun consume_all :: "bool \<Rightarrow> flex_block list \<Rightarrow> free_ranges \<Rightarrow> free_ranges option" where
  "consume_all check [] fs = Some fs"
| "consume_all check (b # bs) fs =
     (let (before, after) = om_upper (fb_backing_offset b) fs
      in if before = [] then None
         else
           let rng = last before
           in if check \<and> (fb_backing_offset b < fst rng \<or>
                 fst rng + snd rng - fb_backing_offset b < fb_map_size b) then None
              else consume_all check bs
                     (FlexibleMemory_ConsumeFreeRange rng (fb_backing_offset b) (fb_map_size b) fs))"

definition FlexibleMemory_Map ::
  "'b backing_ops \<Rightarrow> u64 \<Rightarrow> u64 \<Rightarrow> u64 \<Rightarrow> i32 \<Rightarrow> vmode \<Rightarrow> gpu_access \<Rightarrow> string option \<Rightarrow>
   flexible_memory \<times> 'b \<Rightarrow> (bool \<times> flexible_memory \<times> 'b) option" where
  "FlexibleMemory_Map ops flex vaddr len prot mode gpu_mode nm st =
     (let (fm, s) = st; available = FlexibleMemory_Available flex fm
      in if len = 0 \<or> available < len then Some (False, fm, s)
         else
           let proto = \<lparr>fb_map_vaddr = 0, fb_map_size = 0, fb_backing_offset = 0, fb_host_vaddr = vaddr,
                        fb_host_size = len, fb_prot = prot, fb_mode = mode, fb_gpu_mode = gpu_mode,
                        fb_name = CopyVirtualRangeName nm\<rparr>;
               (blocks, remaining) = plan_blocks proto vaddr len (fm_free fm)
           in if remaining \<noteq> 0 then Some (False, fm, s)
              else
                case map_all ops True [] blocks s of
                  None \<Rightarrow> None
                | Some (False, s') \<Rightarrow> Some (False, fm, s')
                | Some (True, s') \<Rightarrow>
                    (case consume_all True blocks (fm_free fm) of
                       None \<Rightarrow> None
                     | Some free' \<Rightarrow>
                         Some (True,
                           fm\<lparr>fm_free := free',
                              fm_allocated := sort_key fb_map_vaddr (fm_allocated fm @ blocks),
                              fm_allocated_total := fm_allocated_total fm + len\<rparr>, s')))"

subsection \<open>Unmapping\<close>

text \<open>
  The scan that checks the request is covered without a gap: the GPU mode of the first block met
  and the end of the covered prefix.
\<close>

fun cover_scan :: "u64 \<Rightarrow> u64 \<Rightarrow> gpu_access option \<Rightarrow> flex_block list \<Rightarrow> gpu_access option \<times> u64" where
  "cover_scan finish current found [] = (found, current)"
| "cover_scan finish current found (b # bs) =
     (if fb_map_vaddr b + fb_map_size b \<le> current then cover_scan finish current found bs
      else if current < fb_map_vaddr b \<or> finish \<le> fb_map_vaddr b then (found, current)
      else
        let found = (case found of None \<Rightarrow> Some (fb_gpu_mode b) | Some g \<Rightarrow> Some g);
            current = min finish (fb_map_vaddr b + fb_map_size b)
        in if current = finish then (found, current) else cover_scan finish current found bs)"

text \<open>One block of the removal loop: what stays, the backing freed, and its size.\<close>

definition cut_block :: "u64 \<Rightarrow> u64 \<Rightarrow> flex_block \<Rightarrow> flex_block list \<times> (u64 \<times> u64) option" where
  "cut_block vaddr n b =
     (let finish = vaddr + n; block_end = fb_map_vaddr b + fb_map_size b
      in if \<not> VirtualRangesOverlap vaddr n (fb_map_vaddr b) (fb_map_size b) then ([b], None)
         else
           let overlap_start = max vaddr (fb_map_vaddr b);
               overlap_end = min finish block_end;
               left = b\<lparr>fb_map_size := overlap_start - fb_map_vaddr b\<rparr>;
               right = b\<lparr>fb_map_vaddr := overlap_end, fb_map_size := block_end - overlap_end,
                        fb_backing_offset := fb_backing_offset b + overlap_end - fb_map_vaddr b\<rparr>
           in ((if fb_map_vaddr b < overlap_start then [left] else []) @
               (if overlap_end < block_end then [right] else []),
               Some (fb_backing_offset b + overlap_start - fb_map_vaddr b, overlap_end - overlap_start)))"

fun remove_loop :: "u64 \<Rightarrow> u64 \<Rightarrow> flex_block list \<Rightarrow> flex_block list \<Rightarrow> free_ranges \<Rightarrow> u64 \<Rightarrow>
   flex_block list \<times> free_ranges \<times> u64" where
  "remove_loop vaddr n remaining [] fs removed = (remaining, fs, removed)"
| "remove_loop vaddr n remaining (b # bs) fs removed =
     (case cut_block vaddr n b of
        (kept, None) \<Rightarrow> remove_loop vaddr n (remaining @ kept) bs fs removed
      | (kept, Some (offset, freed)) \<Rightarrow>
          remove_loop vaddr n (remaining @ kept) bs (FlexibleMemory_AddFreeRange offset freed fs) (removed + freed))"

definition FlexibleMemory_Unmap ::
  "'b backing_ops \<Rightarrow> u64 \<Rightarrow> u64 \<Rightarrow> flexible_memory \<times> 'b \<Rightarrow> (gpu_access option \<times> flexible_memory \<times> 'b) option" where
  "FlexibleMemory_Unmap ops vaddr n st =
     (let (fm, s) = st
      in if n = 0 \<or> u64_max - vaddr < n then Some (None, fm, s)
         else
           let finish = vaddr + n;
               (found, current) = cover_scan finish vaddr None (fm_allocated fm)
           in if found = None \<or> current \<noteq> finish then Some (None, fm, s)
              else
                let (unmapped, s') = UnmapBacking ops vaddr n s
                in if \<not> unmapped then Some (None, fm, s')
                   else
                     let (remaining, free', removed) = remove_loop vaddr n [] (fm_allocated fm) (fm_free fm) 0
                     in if removed \<noteq> n \<or> fm_allocated_total fm < removed then None
                        else Some (found,
                          fm\<lparr>fm_allocated := remaining, fm_free := free',
                             fm_allocated_total := fm_allocated_total fm - removed\<rparr>, s'))"

subsection \<open>Snapshots\<close>

fun snapshot_scan :: "u64 \<Rightarrow> u64 \<Rightarrow> flex_block list \<Rightarrow> flex_block list \<Rightarrow> flex_block list option" where
  "snapshot_scan finish current out [] = None"
| "snapshot_scan finish current out (b # bs) =
     (let block_end = fb_map_vaddr b + fb_map_size b
      in if block_end \<le> current then snapshot_scan finish current out bs
         else if current < fb_map_vaddr b \<or> finish \<le> fb_map_vaddr b then None
         else
           let part_end = min finish block_end;
               part = b\<lparr>fb_map_vaddr := current, fb_map_size := part_end - current,
                        fb_backing_offset := fb_backing_offset b + (current - fb_map_vaddr b)\<rparr>
           in if part_end = finish then Some (out @ [part])
              else snapshot_scan finish part_end (out @ [part]) bs)"

definition FlexibleMemory_Snapshot :: "u64 \<Rightarrow> u64 \<Rightarrow> flexible_memory \<Rightarrow> flex_block list option" where
  "FlexibleMemory_Snapshot vaddr n fm =
     (if n = 0 \<or> u64_max - vaddr < n then None
      else snapshot_scan (vaddr + n) vaddr [] (fm_allocated fm))"

definition block_is_free :: "free_ranges \<Rightarrow> flex_block \<Rightarrow> bool" where
  "block_is_free fs b =
     (let (before, after) = om_upper (fb_backing_offset b) fs
      in if before = [] then False
         else let rng = last before
              in \<not> (fb_backing_offset b < fst rng \<or>
                    fst rng + snd rng - fb_backing_offset b < fb_map_size b))"

definition FlexibleMemory_Restore ::
  "'b backing_ops \<Rightarrow> flex_block list \<Rightarrow> flexible_memory \<times> 'b \<Rightarrow> (bool \<times> flexible_memory \<times> 'b) option" where
  "FlexibleMemory_Restore ops blocks st =
     (let (fm, s) = st
      in if blocks = [] then Some (False, fm, s)
         else if \<not> list_all (block_is_free (fm_free fm)) blocks then Some (False, fm, s)
         else
           case map_all ops False [] blocks s of
             None \<Rightarrow> None
           | Some (False, s') \<Rightarrow> Some (False, fm, s')
           | Some (True, s') \<Rightarrow>
               (case consume_all False blocks (fm_free fm) of
                  None \<Rightarrow> None
                | Some free' \<Rightarrow>
                    Some (True,
                      fm\<lparr>fm_free := free',
                         fm_allocated := sort_key fb_map_vaddr (fm_allocated fm @ blocks),
                         fm_allocated_total :=
                           foldl (\<lambda>t b. t + fb_map_size b) (fm_allocated_total fm) blocks\<rparr>, s')))"

subsection \<open>Protection, lookup and names\<close>

definition protect_flex_block :: "u64 \<Rightarrow> u64 \<Rightarrow> i32 \<Rightarrow> vmode \<Rightarrow> gpu_access \<Rightarrow> flex_block \<Rightarrow> flex_block list" where
  "protect_flex_block vaddr n prot mode gpu_mode b =
     (let finish = vaddr + n; block_end = fb_map_vaddr b + fb_map_size b
      in if \<not> VirtualRangesOverlap vaddr n (fb_map_vaddr b) (fb_map_size b) then [b]
         else
           let overlap_start = max vaddr (fb_map_vaddr b);
               overlap_end = min finish block_end;
               left = b\<lparr>fb_map_size := overlap_start - fb_map_vaddr b\<rparr>;
               middle = b\<lparr>fb_map_vaddr := overlap_start, fb_map_size := overlap_end - overlap_start,
                          fb_backing_offset := fb_backing_offset b + overlap_start - fb_map_vaddr b,
                          fb_prot := prot, fb_mode := mode, fb_gpu_mode := gpu_mode\<rparr>;
               right = b\<lparr>fb_map_vaddr := overlap_end, fb_map_size := block_end - overlap_end,
                         fb_backing_offset := fb_backing_offset b + overlap_end - fb_map_vaddr b\<rparr>
           in (if fb_map_vaddr b < overlap_start then [left] else []) @ [middle] @
              (if overlap_end < block_end then [right] else []))"

definition FlexibleMemory_Protect ::
  "u64 \<Rightarrow> u64 \<Rightarrow> i32 \<Rightarrow> vmode \<Rightarrow> gpu_access \<Rightarrow> flexible_memory \<Rightarrow> flexible_memory" where
  "FlexibleMemory_Protect vaddr n prot mode gpu_mode fm =
     (if n = 0 \<or> u64_max - vaddr < n then fm
      else fm\<lparr>fm_allocated := concat (map (protect_flex_block vaddr n prot mode gpu_mode) (fm_allocated fm))\<rparr>)"

definition FlexibleMemory_Find :: "u64 \<Rightarrow> flexible_memory \<Rightarrow> flex_block option" where
  "FlexibleMemory_Find vaddr fm =
     find (\<lambda>b. fb_map_vaddr b \<le> vaddr \<and> vaddr < fb_map_vaddr b + fb_map_size b) (fm_allocated fm)"

definition FlexibleMemory_SetVirtualRangeName ::
  "u64 \<Rightarrow> u64 \<Rightarrow> string option \<Rightarrow> flexible_memory \<Rightarrow> flexible_memory" where
  "FlexibleMemory_SetVirtualRangeName vaddr len nm fm =
     fm\<lparr>fm_allocated := map (\<lambda>b. if VirtualRangesOverlap vaddr len (fb_map_vaddr b) (fb_map_size b)
          then b\<lparr>fb_name := CopyVirtualRangeName nm\<rparr> else b) (fm_allocated fm)\<rparr>"

end
