(* ===== verification/Segments.thy ===== *)
theory Segments
  imports FreeList VirtualRangesQueries "HOL-Library.Multiset"
begin

text \<open>
  Backed segments: the common meaning of the blocks of \<open>FlexibleMemory\<close> and the mappings of
  \<open>PooledMemory\<close>. A segment maps a span of virtual addresses to a span of backing bytes of the
  same length and carries attributes. Cutting a request out of a sequence of segments is what
  unmapping, releasing and protecting have in common in \<open>src/src/kernel/memory.cpp\<close>; it is shown
  once here to remove exactly the request's addresses and to give back exactly their bytes.
\<close>

type_synonym 'a seg = "u64 \<times> u64 \<times> u64 \<times> 'a"

fun sg_lo :: "'a seg \<Rightarrow> nat" where "sg_lo (lo, n, off, w) = unat lo"
fun sg_hi :: "'a seg \<Rightarrow> nat" where "sg_hi (lo, n, off, w) = unat lo + unat n"
fun sg_len :: "'a seg \<Rightarrow> nat" where "sg_len (lo, n, off, w) = unat n"
fun sg_back :: "'a seg \<Rightarrow> nat set" where "sg_back (lo, n, off, w) = span_of off n"
fun sg_vpts :: "'a seg \<Rightarrow> nat set" where "sg_vpts (lo, n, off, w) = span_of lo n"
fun sg_good :: "'a seg \<Rightarrow> bool" where
  "sg_good (lo, n, off, w) \<longleftrightarrow> n \<noteq> 0 \<and> fits lo n \<and> fits off n"

text \<open>Address \<open>a\<close> is backed by byte \<open>x\<close> with attributes \<open>w\<close>.\<close>

definition sg_maps :: "'a seg list \<Rightarrow> u64 \<Rightarrow> u64 \<Rightarrow> 'a \<Rightarrow> bool" where
  "sg_maps rs a x w \<longleftrightarrow> (\<exists>(lo, n, off, v)\<in>set rs. in_span lo n a \<and> x = off + (a - lo) \<and> v = w)"

definition sg_apart :: "'a seg \<Rightarrow> 'a seg \<Rightarrow> bool" where
  "sg_apart r s \<longleftrightarrow> sg_vpts r \<inter> sg_vpts s = {} \<and> sg_back r \<inter> sg_back s = {}"

text \<open>Non-empty, representable, and disjoint both in virtual addresses and in backing bytes.\<close>

definition sg_ok :: "'a seg list \<Rightarrow> bool" where
  "sg_ok rs \<longleftrightarrow> (\<forall>r\<in>set rs. sg_good r) \<and> sorted_wrt sg_apart rs"

definition sg_bytes :: "'a seg list \<Rightarrow> nat set" where
  "sg_bytes rs = (\<Union>r\<in>set rs. sg_back r)"

definition sg_points :: "'a seg list \<Rightarrow> nat set" where
  "sg_points rs = (\<Union>r\<in>set rs. sg_vpts r)"

definition sg_total :: "'a seg list \<Rightarrow> nat" where
  "sg_total rs = sum_list (map sg_len rs)"

lemma sg_simps [simp]:
  "sg_bytes [] = {}" "sg_bytes (r # rs) = sg_back r \<union> sg_bytes rs"
  "sg_bytes (rs @ ss) = sg_bytes rs \<union> sg_bytes ss"
  "sg_points [] = {}" "sg_points (r # rs) = sg_vpts r \<union> sg_points rs"
  "sg_points (rs @ ss) = sg_points rs \<union> sg_points ss"
  "sg_total [] = 0" "sg_total (r # rs) = sg_len r + sg_total rs"
  "sg_total (rs @ ss) = sg_total rs + sg_total ss"
  "sg_ok []" "\<not> sg_maps [] a x w"
  by (auto simp: sg_bytes_def sg_points_def sg_total_def sg_ok_def sg_maps_def)

lemma sg_ok_append:
  "sg_ok (rs @ ss) \<longleftrightarrow> sg_ok rs \<and> sg_ok ss \<and> (\<forall>r\<in>set rs. \<forall>s\<in>set ss. sg_apart r s)"
  by (auto simp: sg_ok_def sorted_wrt_append)

lemma sg_ok_Cons: "sg_ok (r # rs) \<longleftrightarrow> sg_good r \<and> sg_ok rs \<and> (\<forall>s\<in>set rs. sg_apart r s)"
  by (auto simp: sg_ok_def)

lemma sg_maps_append: "sg_maps (rs @ ss) a x w \<longleftrightarrow> sg_maps rs a x w \<or> sg_maps ss a x w"
  by (auto simp: sg_maps_def)

lemma sg_maps_Cons: "sg_maps (r # rs) a x w \<longleftrightarrow> sg_maps [r] a x w \<or> sg_maps rs a x w"
  by (auto simp: sg_maps_def)

lemma sg_maps_one: "sg_maps [(lo, n, off, v)] a x w \<longleftrightarrow> in_span lo n a \<and> x = off + (a - lo) \<and> v = w"
  by (auto simp: sg_maps_def)

lemma sg_apart_sym: "sg_apart r s \<longleftrightarrow> sg_apart s r"
  by (auto simp: sg_apart_def)

lemma sg_maps_point: "sg_maps rs a x w \<Longrightarrow> unat a \<in> sg_points rs"
  by (force simp: sg_maps_def sg_points_def in_span_of)

lemma sg_point_maps: "unat a \<in> sg_points rs \<longleftrightarrow> (\<exists>x w. sg_maps rs a x w)"
proof
  assume "unat a \<in> sg_points rs"
  then obtain r where r: "r \<in> set rs" "unat a \<in> sg_vpts r" by (auto simp: sg_points_def)
  obtain lo n off v where "r = (lo, n, off, v)" by (metis prod_cases4)
  with r have "sg_maps rs a (off + (a - lo)) v" by (force simp: sg_maps_def in_span_of)
  then show "\<exists>x w. sg_maps rs a x w" by blast
qed (auto intro: sg_maps_point)

lemma sg_finite: "finite (sg_vpts r)" "finite (sg_back r)" "card (sg_vpts r) = sg_len r" "card (sg_back r) = sg_len r"
  by (cases r; simp add: span_of_def)+

lemma sg_card:
  assumes "sg_ok rs"
  shows "finite (sg_points rs) \<and> finite (sg_bytes rs) \<and> card (sg_points rs) = sg_total rs \<and>
    card (sg_bytes rs) = sg_total rs"
  using assms
proof (induction rs)
  case (Cons r rs)
  have "sg_vpts r \<inter> sg_points rs = {}" "sg_back r \<inter> sg_bytes rs = {}"
    using Cons.prems by (auto simp: sg_ok_Cons sg_apart_def sg_points_def sg_bytes_def)
  then show ?case using Cons sg_finite [of r] by (simp add: sg_ok_Cons card_Un_disjoint)
qed simp

subsection \<open>Cutting one segment\<close>

text \<open>What lies before, inside and after a request.\<close>

definition sg_cut :: "u64 \<Rightarrow> u64 \<Rightarrow> 'a seg \<Rightarrow> 'a seg list \<times> 'a seg list \<times> 'a seg list" where
  "sg_cut va n r =
     (let (lo, len, off, w) = r; finish = va + n; r_finish = lo + len
      in if \<not> VirtualRangesOverlap va n lo len then ([r], [], [])
         else
           let os = max va lo; oe = min finish r_finish
           in (if lo < os then [(lo, os - lo, off, w)] else [],
               [(os, oe - os, off + os - lo, w)],
               if oe < r_finish then [(oe, r_finish - oe, off + oe - lo, w)] else []))"

text \<open>A part of a segment between two addresses.\<close>

definition sg_part :: "'a seg \<Rightarrow> u64 \<Rightarrow> u64 \<Rightarrow> 'a seg" where
  "sg_part r a b = (case r of (lo, len, off, w) \<Rightarrow> (a, b - a, off + a - lo, w))"

lemma sg_part_spec:
  assumes g: "sg_good (lo, len, off, w)" and ab: "unat lo \<le> unat a" "unat a < unat b" "unat b \<le> unat lo + unat len"
  shows "sg_good (sg_part (lo, len, off, w) a b)"
    and "sg_vpts (sg_part (lo, len, off, w) a b) = {unat a ..< unat b}"
    and "sg_back (sg_part (lo, len, off, w) a b) = {unat off + (unat a - unat lo) ..< unat off + (unat b - unat lo)}"
    and "sg_maps [sg_part (lo, len, off, w) a b] p x v \<longleftrightarrow>
      sg_maps [(lo, len, off, w)] p x v \<and> unat a \<le> unat p \<and> unat p < unat b"
    and "sg_len (sg_part (lo, len, off, w) a b) = unat b - unat a"
    and "sg_lo (sg_part (lo, len, off, w) a b) = unat a" and "sg_hi (sg_part (lo, len, off, w) a b) = unat b"
proof -
  have l: "unat (b - a) = unat b - unat a" using ab by (simp add: unat_minus_u64)
  have "off + a - lo = off + (a - lo)" by (rule add_diff_eq [symmetric])
  moreover have al: "unat (a - lo) = unat a - unat lo" using ab by (simp add: unat_minus_u64)
  moreover have "unat (off + (a - lo)) = unat off + unat (a - lo)"
    by (rule unat_plus_u64) (use al ab g in \<open>auto simp: fits_def\<close>)
  ultimately have o: "unat (off + a - lo) = unat off + (unat a - unat lo)" by (simp only:)
  show "sg_good (sg_part (lo, len, off, w) a b)"
    using l o ab g unat_u64_lt [of b] by (auto simp: sg_part_def neq0_u64 fits_def)
  show "sg_vpts (sg_part (lo, len, off, w) a b) = {unat a ..< unat b}"
    using l ab by (simp add: sg_part_def span_of_def)
  show "sg_back (sg_part (lo, len, off, w) a b) = {unat off + (unat a - unat lo) ..< unat off + (unat b - unat lo)}"
    using l o ab by (simp add: sg_part_def span_of_def)
  have "off + a - lo + (p - a) = off + (p - lo)" by simp
  then show "sg_maps [sg_part (lo, len, off, w) a b] p x v \<longleftrightarrow>
      sg_maps [(lo, len, off, w)] p x v \<and> unat a \<le> unat p \<and> unat p < unat b"
    using l ab unfolding sg_part_def prod.case sg_maps_one by (auto simp: in_span_def)
  show "sg_len (sg_part (lo, len, off, w) a b) = unat b - unat a" by (simp add: sg_part_def l)
  show "sg_lo (sg_part (lo, len, off, w) a b) = unat a" "sg_hi (sg_part (lo, len, off, w) a b) = unat b"
    using l ab by (simp_all add: sg_part_def)
qed

lemma sg_cut_spec:
  assumes g: "sg_good r" and n: "n \<noteq> 0" and fit: "fits va n" and cut: "sg_cut va n r = (L, M, R)"
  shows "sg_ok (L @ M @ R)"
    and "sg_points (L @ R) = sg_vpts r - span_of va n" and "sg_points M = sg_vpts r \<inter> span_of va n"
    and "sg_bytes (L @ R) \<union> sg_bytes M = sg_back r" and "sg_bytes (L @ R) \<inter> sg_bytes M = {}"
    and "sg_maps (L @ R) a x w \<longleftrightarrow> sg_maps [r] a x w \<and> \<not> in_span va n a"
    and "sg_maps M a x w \<longleftrightarrow> sg_maps [r] a x w \<and> in_span va n a"
    and "sg_total (L @ R) + sg_total M = sg_len r"
    and "iv_ok sg_lo sg_hi (L @ M @ R)"
    and "\<forall>p\<in>set (L @ M @ R). sg_lo r \<le> sg_lo p \<and> sg_hi p \<le> sg_hi r"
    and "length M \<le> 1"
proof -
  obtain lo len off v where r: "r = (lo, len, off, v)" by (metis prod_cases4)
  have pos: "0 < unat n" "0 < unat len" using n g r by (auto simp: neq0_u64)
  have fl: "fits lo len" "fits off len" using g r by auto
  have e: "unat (va + n) = unat va + unat n" "unat (lo + len) = unat lo + unat len"
    using unat_end fit fl by auto
  have ov: "VirtualRangesOverlap va n lo len \<longleftrightarrow> unat va < unat lo + unat len \<and> unat lo < unat va + unat n"
    using n pos fits_end [OF fit] fits_end [OF fl(1)] by (auto simp: VirtualRangesOverlap_eq less_u64 e)
  let ?G = "sg_ok (L @ M @ R) \<and> sg_points (L @ R) = sg_vpts r - span_of va n \<and>
    sg_points M = sg_vpts r \<inter> span_of va n \<and> sg_bytes (L @ R) \<union> sg_bytes M = sg_back r \<and>
    sg_bytes (L @ R) \<inter> sg_bytes M = {} \<and>
    (sg_maps (L @ R) a x w \<longleftrightarrow> sg_maps [r] a x w \<and> \<not> in_span va n a) \<and>
    (sg_maps M a x w \<longleftrightarrow> sg_maps [r] a x w \<and> in_span va n a) \<and>
    sg_total (L @ R) + sg_total M = sg_len r \<and> iv_ok sg_lo sg_hi (L @ M @ R) \<and>
    (\<forall>p\<in>set (L @ M @ R). sg_lo r \<le> sg_lo p \<and> sg_hi p \<le> sg_hi r) \<and> length M \<le> 1"
  have ?G
  proof (cases "unat va < unat lo + unat len \<and> unat lo < unat va + unat n")
    case False
    then have "L = [r]" "M = []" "R = []" using cut ov r by (auto simp: sg_cut_def)
    moreover have "sg_vpts r \<inter> span_of va n = {}" using False r by (auto simp: span_of_def)
    ultimately show ?thesis
      using g r pos False by (auto simp: sg_ok_Cons sg_maps_one in_span_def span_of_def iv_ok_Cons)
  next
    case True
    let ?os = "max va lo" and ?oe = "min (va + n) (lo + len)"
    have os: "unat ?os = max (unat va) (unat lo)" and oe: "unat ?oe = min (unat va + unat n) (unat lo + unat len)"
      by (simp_all add: unat_max_u64 unat_min_u64 e)
    have lt: "unat ?os < unat ?oe" using True pos os oe by auto
    have ranges: "unat lo \<le> unat ?os" "unat ?oe \<le> unat lo + unat len" using os oe by auto
    have L: "L = (if unat lo < unat ?os then [sg_part r lo ?os] else [])"
      and M: "M = [sg_part r ?os ?oe]"
      and R: "R = (if unat ?oe < unat lo + unat len then [sg_part r ?oe (lo + len)] else [])"
      using cut ov True r by (auto simp: sg_cut_def Let_def sg_part_def less_u64 e)
    define q t where "q = unat ?os" and "t = unat ?oe"
    have qt: "unat lo \<le> q" "q < t" "t \<le> unat lo + unat len" using ranges lt by (auto simp: q_def t_def)
    have cut_at: "max (unat va) (unat lo) = q" "min (unat va + unat n) (unat lo + unat len) = t"
      using os oe by (auto simp: q_def t_def)
    have inside: "span_of lo len \<inter> span_of va n = {q ..< t}" "span_of lo len - span_of va n = {unat lo ..< q} \<union> {t ..< unat lo + unat len}"
      using qt cut_at [symmetric] by (auto simp: span_of_def)
    have inp: "in_span lo len a \<Longrightarrow> in_span va n a \<longleftrightarrow> q \<le> unat a \<and> unat a < t"
      using cut_at [symmetric] by (auto simp: in_span_def)
    have inl: "sg_maps [r] a x w \<Longrightarrow> in_span lo len a" unfolding r sg_maps_one by simp
    have inr: "in_span lo len a \<longleftrightarrow> unat lo \<le> unat a \<and> unat a < unat lo + unat len" by (simp add: in_span_def)
    have pL: "sg_good (sg_part r lo ?os)" "sg_vpts (sg_part r lo ?os) = {unat lo ..< q}"
      "sg_back (sg_part r lo ?os) = {unat off ..< unat off + (q - unat lo)}"
      "sg_maps [sg_part r lo ?os] a x w \<longleftrightarrow> sg_maps [r] a x w \<and> unat lo \<le> unat a \<and> unat a < q"
      "sg_lo (sg_part r lo ?os) = unat lo" "sg_hi (sg_part r lo ?os) = q"
      "sg_len (sg_part r lo ?os) = q - unat lo" if "unat lo < q"
      using sg_part_spec [OF g [unfolded r], of lo ?os] that qt unfolding r q_def [symmetric] by auto
    have pM: "sg_good (sg_part r ?os ?oe)" "sg_vpts (sg_part r ?os ?oe) = {q ..< t}"
      "sg_back (sg_part r ?os ?oe) = {unat off + (q - unat lo) ..< unat off + (t - unat lo)}"
      "sg_maps [sg_part r ?os ?oe] a x w \<longleftrightarrow> sg_maps [r] a x w \<and> q \<le> unat a \<and> unat a < t"
      "sg_lo (sg_part r ?os ?oe) = q" "sg_hi (sg_part r ?os ?oe) = t"
      "sg_len (sg_part r ?os ?oe) = t - q"
      using sg_part_spec [OF g [unfolded r] ranges(1) lt ranges(2)] unfolding r q_def [symmetric] t_def [symmetric] by auto
    have pR: "sg_good (sg_part r ?oe (lo + len))" "sg_vpts (sg_part r ?oe (lo + len)) = {t ..< unat lo + unat len}"
      "sg_back (sg_part r ?oe (lo + len)) = {unat off + (t - unat lo) ..< unat off + unat len}"
      "sg_maps [sg_part r ?oe (lo + len)] a x w \<longleftrightarrow> sg_maps [r] a x w \<and> t \<le> unat a \<and> unat a < unat lo + unat len"
      "sg_lo (sg_part r ?oe (lo + len)) = t" "sg_hi (sg_part r ?oe (lo + len)) = unat lo + unat len"
      "sg_len (sg_part r ?oe (lo + len)) = unat lo + unat len - t" if "t < unat lo + unat len"
      using sg_part_spec [OF g [unfolded r], of ?oe "lo + len"] that qt unfolding r t_def [symmetric] e by auto
    have whole: "sg_vpts r = span_of lo len" "sg_back r = {unat off ..< unat off + unat len}" "sg_lo r = unat lo"
      "sg_hi r = unat lo + unat len" "sg_len r = unat len"
      by (simp_all add: r span_of_def)
    have LR: "L = (if unat lo < q then [sg_part r lo ?os] else [])" "M = [sg_part r ?os ?oe]"
      "R = (if t < unat lo + unat len then [sg_part r ?oe (lo + len)] else [])"
      unfolding L M R q_def t_def by simp_all
    define pl pm pr where "pl = sg_part r lo ?os" and "pm = sg_part r ?os ?oe" and "pr = sg_part r ?oe (lo + len)"
    note LR = LR [folded pl_def pm_def pr_def] and pL = pL [folded pl_def] and pM = pM [folded pm_def]
      and pR = pR [folded pr_def]
    have c1: "sg_ok (L @ M @ R)"
      unfolding LR using qt pL(1-3) pM(1-3) pR(1-3) by (auto simp: sg_ok_Cons sg_apart_def)
    have c2: "sg_points (L @ R) = sg_vpts r - span_of va n" "sg_points M = sg_vpts r \<inter> span_of va n"
      unfolding LR whole inside using qt pL(2) pM(2) pR(2) by auto
    have c3: "sg_bytes (L @ R) \<union> sg_bytes M = sg_back r" "sg_bytes (L @ R) \<inter> sg_bytes M = {}"
      unfolding LR whole using qt pL(3) pM(3) pR(3) by auto
    have c4: "sg_maps (L @ R) a x w \<longleftrightarrow> sg_maps [r] a x w \<and> \<not> in_span va n a"
      unfolding LR sg_maps_append using qt pL(4) pR(4) inp inl inr by auto
    have c5: "sg_maps M a x w \<longleftrightarrow> sg_maps [r] a x w \<and> in_span va n a"
      unfolding LR using qt pM(4) inp inl by auto
    have c6: "sg_total (L @ R) + sg_total M = sg_len r"
      unfolding LR whole using qt pL(7) pM(7) pR(7) by auto
    have c7: "iv_ok sg_lo sg_hi (L @ M @ R)"
      unfolding LR using qt pL(5,6) pM(5,6) pR(5,6) by (auto simp: iv_ok_Cons)
    have c8: "\<forall>p\<in>set (L @ M @ R). sg_lo r \<le> sg_lo p \<and> sg_hi p \<le> sg_hi r"
      unfolding LR whole using qt pL(5,6) pM(5,6) pR(5,6) by auto
    have c9: "length M \<le> 1" by (simp add: LR)
    show ?thesis by (intro conjI c1 c2 c3 c4 c5 c6 c7 c8 c9)
  qed
  then show "sg_ok (L @ M @ R)"
    and "sg_points (L @ R) = sg_vpts r - span_of va n" and "sg_points M = sg_vpts r \<inter> span_of va n"
    and "sg_bytes (L @ R) \<union> sg_bytes M = sg_back r" and "sg_bytes (L @ R) \<inter> sg_bytes M = {}"
    and "sg_maps (L @ R) a x w \<longleftrightarrow> sg_maps [r] a x w \<and> \<not> in_span va n a"
    and "sg_maps M a x w \<longleftrightarrow> sg_maps [r] a x w \<and> in_span va n a"
    and "sg_total (L @ R) + sg_total M = sg_len r"
    and "iv_ok sg_lo sg_hi (L @ M @ R)"
    and "\<forall>p\<in>set (L @ M @ R). sg_lo r \<le> sg_lo p \<and> sg_hi p \<le> sg_hi r"
    and "length M \<le> 1"
    by blast+
qed

subsection \<open>Cutting a sequence\<close>

definition sg_kept :: "u64 \<Rightarrow> u64 \<Rightarrow> 'a seg list \<Rightarrow> 'a seg list" where
  "sg_kept va n rs = concat (map (\<lambda>r. case sg_cut va n r of (L, M, R) \<Rightarrow> L @ R) rs)"

definition sg_taken :: "u64 \<Rightarrow> u64 \<Rightarrow> 'a seg list \<Rightarrow> 'a seg list" where
  "sg_taken va n rs = concat (map (\<lambda>r. case sg_cut va n r of (L, M, R) \<Rightarrow> M) rs)"

text \<open>Changing the attributes inside a request.\<close>

definition sg_set :: "('a \<Rightarrow> 'a) \<Rightarrow> 'a seg \<Rightarrow> 'a seg" where
  "sg_set f r = (case r of (lo, len, off, w) \<Rightarrow> (lo, len, off, f w))"

definition sg_recut :: "('a \<Rightarrow> 'a) \<Rightarrow> u64 \<Rightarrow> u64 \<Rightarrow> 'a seg list \<Rightarrow> 'a seg list" where
  "sg_recut f va n rs = concat (map (\<lambda>r. case sg_cut va n r of (L, M, R) \<Rightarrow> L @ map (sg_set f) M @ R) rs)"

lemma sg_list_simps [simp]:
  "sg_kept va n [] = []" "sg_taken va n [] = []" "sg_recut f va n [] = []"
  "sg_kept va n (r # rs) = (case sg_cut va n r of (L, M, R) \<Rightarrow> L @ R) @ sg_kept va n rs"
  "sg_taken va n (r # rs) = (case sg_cut va n r of (L, M, R) \<Rightarrow> M) @ sg_taken va n rs"
  "sg_recut f va n (r # rs) = (case sg_cut va n r of (L, M, R) \<Rightarrow> L @ map (sg_set f) M @ R) @ sg_recut f va n rs"
  by (simp_all add: sg_kept_def sg_taken_def sg_recut_def)

lemma sg_ok_append_sets:
  "sg_ok (xs @ ys) \<longleftrightarrow> sg_ok xs \<and> sg_ok ys \<and> sg_points xs \<inter> sg_points ys = {} \<and> sg_bytes xs \<inter> sg_bytes ys = {}"
  unfolding sg_ok_append sg_apart_def sg_points_def sg_bytes_def by blast

lemma sg_ok_Cons_sets:
  "sg_ok (r # rs) \<longleftrightarrow> sg_good r \<and> sg_ok rs \<and> sg_vpts r \<inter> sg_points rs = {} \<and> sg_back r \<inter> sg_bytes rs = {}"
  unfolding sg_ok_Cons sg_apart_def sg_points_def sg_bytes_def by blast

lemma iv_ok_within:
  assumes "iv_ok lo hi xs" and "iv_ok lo hi ys" and "\<forall>x\<in>set xs. hi x \<le> m" and "\<forall>y\<in>set ys. m \<le> lo y"
  shows "iv_ok lo hi (xs @ ys)"
  using assms by (force simp: iv_ok_append)

text \<open>What cutting keeps and takes, for a whole sequence.\<close>

lemma sg_cuts_spec:
  assumes "sg_ok rs" and n: "n \<noteq> 0" and fit: "fits va n"
  shows "sg_ok (sg_kept va n rs) \<and> sg_ok (sg_taken va n rs) \<and>
    sg_points (sg_kept va n rs) = sg_points rs - span_of va n \<and>
    sg_points (sg_taken va n rs) = sg_points rs \<inter> span_of va n \<and>
    sg_bytes (sg_kept va n rs) \<union> sg_bytes (sg_taken va n rs) = sg_bytes rs \<and>
    sg_bytes (sg_kept va n rs) \<inter> sg_bytes (sg_taken va n rs) = {} \<and>
    sg_total (sg_kept va n rs) + sg_total (sg_taken va n rs) = sg_total rs"
  using assms(1)
proof (induction rs)
  case (Cons r rs)
  obtain L M R where c: "sg_cut va n r = (L, M, R)" by (cases "sg_cut va n r")
  have g: "sg_good r" "sg_ok rs" "sg_vpts r \<inter> sg_points rs = {}" "sg_back r \<inter> sg_bytes rs = {}"
    using Cons.prems by (simp_all add: sg_ok_Cons_sets)
  note s = sg_cut_spec [OF g(1) n fit c]
  note IH = Cons.IH [OF g(2)]
  have b: "sg_bytes (L @ R) \<subseteq> sg_back r" "sg_bytes M \<subseteq> sg_back r"
    "sg_bytes (sg_kept va n rs) \<subseteq> sg_bytes rs" "sg_bytes (sg_taken va n rs) \<subseteq> sg_bytes rs"
    using s(4) IH by blast+
  have "sg_ok ((L @ R) @ sg_kept va n rs)"
    unfolding sg_ok_append_sets [of "L @ R"]
    using IH s(1,2) b g(3,4) by (auto simp: sg_ok_append_sets)
  moreover have "sg_ok (M @ sg_taken va n rs)"
    unfolding sg_ok_append_sets [of M]
    using IH s(1,3) b g(3,4) by (auto simp: sg_ok_append_sets)
  moreover have "sg_points ((L @ R) @ sg_kept va n rs) = sg_points (r # rs) - span_of va n"
    "sg_points (M @ sg_taken va n rs) = sg_points (r # rs) \<inter> span_of va n"
    using s(2,3) IH by auto
  moreover have "sg_bytes ((L @ R) @ sg_kept va n rs) \<union> sg_bytes (M @ sg_taken va n rs) = sg_bytes (r # rs)"
    using s(4) IH by auto
  moreover have "sg_bytes ((L @ R) @ sg_kept va n rs) \<inter> sg_bytes (M @ sg_taken va n rs) = {}"
    unfolding sg_simps(3) [of "L @ R"] sg_simps(3) [of M] using s(5) IH b g(4) by blast
  moreover have "sg_total ((L @ R) @ sg_kept va n rs) + sg_total (M @ sg_taken va n rs) = sg_total (r # rs)"
    using s(8) IH by simp
  ultimately show ?case by (simp add: c)
qed simp

lemma sg_cuts_maps:
  assumes "sg_ok rs" and n: "n \<noteq> 0" and fit: "fits va n"
  shows "(sg_maps (sg_kept va n rs) a x w \<longleftrightarrow> sg_maps rs a x w \<and> \<not> in_span va n a) \<and>
    (sg_maps (sg_taken va n rs) a x w \<longleftrightarrow> sg_maps rs a x w \<and> in_span va n a)"
  using assms(1)
proof (induction rs)
  case (Cons r rs)
  obtain L M R where c: "sg_cut va n r = (L, M, R)" by (cases "sg_cut va n r")
  have g: "sg_good r" "sg_ok rs" using Cons.prems by (simp_all add: sg_ok_Cons)
  note s = sg_cut_spec(6,7) [OF g(1) n fit c, of a x w]
  show ?case
    using Cons.IH [OF g(2)] s unfolding sg_list_simps c prod.case sg_maps_append
    by (auto simp: sg_maps_Cons [of r rs])
qed simp

lemma sg_within_fold:
  assumes "\<forall>p\<in>set xs. sg_lo r \<le> sg_lo p \<and> sg_hi p \<le> sg_hi r" and "\<forall>p\<in>set ys. sg_hi r \<le> sg_lo p"
    and "iv_ok sg_lo sg_hi xs" and "iv_ok sg_lo sg_hi ys"
  shows "iv_ok sg_lo sg_hi (xs @ ys)"
  using assms by (intro iv_ok_within [of _ _ _ _ "sg_hi r"]) auto

lemma sg_kept_order:
  assumes "sg_ok rs" and "iv_ok sg_lo sg_hi rs" and n: "n \<noteq> 0" and fit: "fits va n"
  shows "iv_ok sg_lo sg_hi (sg_kept va n rs) \<and> (\<forall>p\<in>set (sg_kept va n rs). \<exists>r\<in>set rs. sg_lo r \<le> sg_lo p)"
  using assms(1,2)
proof (induction rs)
  case (Cons r rs)
  obtain L M R where c: "sg_cut va n r = (L, M, R)" by (cases "sg_cut va n r")
  have g: "sg_good r" "sg_ok rs" "iv_ok sg_lo sg_hi rs" "\<forall>q\<in>set rs. sg_hi r \<le> sg_lo q"
    using Cons.prems by (simp_all add: sg_ok_Cons iv_ok_Cons)
  note s = sg_cut_spec(9,10) [OF g(1) n fit c]
  note IH = Cons.IH [OF g(2,3)]
  have "iv_ok sg_lo sg_hi ((L @ R) @ sg_kept va n rs)"
  proof (rule sg_within_fold [of _ r])
    show "\<forall>p\<in>set (sg_kept va n rs). sg_hi r \<le> sg_lo p" using IH g(4) by (meson order.trans)
    show "iv_ok sg_lo sg_hi (L @ R)" using s(1) by (auto simp: iv_ok_append)
  qed (use s IH in auto)
  moreover have "\<forall>p\<in>set ((L @ R) @ sg_kept va n rs). \<exists>q\<in>set (r # rs). sg_lo q \<le> sg_lo p"
    using s(2) IH by auto
  ultimately show ?case by (simp add: c)
qed simp


lemma sg_set_same [simp]:
  "sg_lo (sg_set f r) = sg_lo r" "sg_hi (sg_set f r) = sg_hi r" "sg_len (sg_set f r) = sg_len r"
  "sg_vpts (sg_set f r) = sg_vpts r" "sg_back (sg_set f r) = sg_back r" "sg_good (sg_set f r) = sg_good r"
  by (cases r; simp add: sg_set_def)+

lemma sg_map_set [simp]:
  "sg_points (map (sg_set f) rs) = sg_points rs" "sg_bytes (map (sg_set f) rs) = sg_bytes rs"
  "sg_total (map (sg_set f) rs) = sg_total rs" "sg_ok (map (sg_set f) rs) = sg_ok rs"
  "iv_ok sg_lo sg_hi (map (sg_set f) rs) = iv_ok sg_lo sg_hi rs"
  by (induction rs) (simp_all add: sg_ok_Cons_sets iv_ok_Cons)

lemma sg_maps_map_set: "sg_maps (map (sg_set f) rs) a x w \<longleftrightarrow> (\<exists>u. sg_maps rs a x u \<and> w = f u)"
  by (force simp: sg_maps_def sg_set_def)

lemma sg_recut_spec:
  assumes "sg_ok rs" and n: "n \<noteq> 0" and fit: "fits va n"
  shows "sg_ok (sg_recut f va n rs) \<and> sg_points (sg_recut f va n rs) = sg_points rs \<and>
    sg_bytes (sg_recut f va n rs) = sg_bytes rs \<and> sg_total (sg_recut f va n rs) = sg_total rs \<and>
    (iv_ok sg_lo sg_hi rs \<longrightarrow> iv_ok sg_lo sg_hi (sg_recut f va n rs) \<and>
      (\<forall>p\<in>set (sg_recut f va n rs). \<exists>r\<in>set rs. sg_lo r \<le> sg_lo p))"
  using assms(1)
proof (induction rs)
  case (Cons r rs)
  obtain L M R where c: "sg_cut va n r = (L, M, R)" by (cases "sg_cut va n r")
  let ?M = "map (sg_set f) M"
  have g: "sg_good r" "sg_ok rs" "sg_vpts r \<inter> sg_points rs = {}" "sg_back r \<inter> sg_bytes rs = {}"
    using Cons.prems by (simp_all add: sg_ok_Cons_sets)
  note s = sg_cut_spec [OF g(1) n fit c]
  note IH = Cons.IH [OF g(2)]
  have ps: "sg_points (L @ ?M @ R) = sg_vpts r" and bs: "sg_bytes (L @ ?M @ R) = sg_back r"
    and ts: "sg_total (L @ ?M @ R) = sg_len r"
    using s(2,3,4,8) by auto
  have "sg_ok (L @ ?M @ R)" using s(1) by (simp add: sg_ok_append_sets)
  then have ok: "sg_ok ((L @ ?M @ R) @ sg_recut f va n rs)"
    unfolding sg_ok_append_sets [of "L @ ?M @ R"] ps bs using IH g(3,4) by simp
  have tot: "sg_total ((L @ ?M @ R) @ sg_recut f va n rs) = sg_total (r # rs)"
    using IH ts by simp
  have within: "\<forall>p\<in>set (L @ ?M @ R). sg_lo r \<le> sg_lo p \<and> sg_hi p \<le> sg_hi r"
    using s(10) by (simp add: ball_Un)
  have ord: "iv_ok sg_lo sg_hi ((L @ ?M @ R) @ sg_recut f va n rs) \<and>
      (\<forall>p\<in>set ((L @ ?M @ R) @ sg_recut f va n rs). \<exists>q\<in>set (r # rs). sg_lo q \<le> sg_lo p)"
    if i: "iv_ok sg_lo sg_hi (r # rs)"
  proof (rule conjI)
    from i have i2: "iv_ok sg_lo sg_hi rs" "\<forall>q\<in>set rs. sg_hi r \<le> sg_lo q" by (simp_all add: iv_ok_Cons)
    show "iv_ok sg_lo sg_hi ((L @ ?M @ R) @ sg_recut f va n rs)"
    proof (rule sg_within_fold [OF within])
      show "\<forall>p\<in>set (sg_recut f va n rs). sg_hi r \<le> sg_lo p" using IH i2 by (meson order.trans)
      show "iv_ok sg_lo sg_hi (L @ ?M @ R)" using s(9) by (simp add: iv_ok_append ball_Un)
    qed (use IH i2 in simp)
    show "\<forall>p\<in>set ((L @ ?M @ R) @ sg_recut f va n rs). \<exists>q\<in>set (r # rs). sg_lo q \<le> sg_lo p"
      using within IH i2 by auto
  qed
  have "sg_points ((L @ ?M @ R) @ sg_recut f va n rs) = sg_points (r # rs)"
    "sg_bytes ((L @ ?M @ R) @ sg_recut f va n rs) = sg_bytes (r # rs)"
    unfolding sg_simps(3,6) [of "L @ ?M @ R"] ps bs using IH by simp_all
  then show ?case unfolding sg_list_simps c prod.case using ok tot ord by blast
qed simp

lemma sg_recut_maps:
  assumes "sg_ok rs" and n: "n \<noteq> 0" and fit: "fits va n"
  shows "sg_maps (sg_recut f va n rs) a x w \<longleftrightarrow>
    (\<exists>u. sg_maps rs a x u \<and> w = (if in_span va n a then f u else u))"
  using assms(1)
proof (induction rs)
  case (Cons r rs)
  obtain L M R where c: "sg_cut va n r = (L, M, R)" by (cases "sg_cut va n r")
  have g: "sg_good r" "sg_ok rs" using Cons.prems by (simp_all add: sg_ok_Cons)
  have s: "sg_maps L a x u \<or> sg_maps R a x u \<longleftrightarrow> sg_maps [r] a x u \<and> \<not> in_span va n a"
    "sg_maps M a x u \<longleftrightarrow> sg_maps [r] a x u \<and> in_span va n a" for u
    using sg_cut_spec(6,7) [OF g(1) n fit c, of a x u] by (simp_all add: sg_maps_append)
  show ?case
    unfolding sg_list_simps c prod.case sg_maps_append sg_maps_map_set sg_maps_Cons [of r rs]
      Cons.IH [OF g(2)] s
    using s(1) by (cases "in_span va n a") (simp_all, blast+)
qed simp

subsection \<open>Inserting and sorting\<close>

lemma sg_ok_perm:
  assumes "mset rs = mset ss"
  shows "sg_ok rs = sg_ok ss \<and> sg_points rs = sg_points ss \<and> sg_bytes rs = sg_bytes ss \<and>
    sg_total rs = sg_total ss \<and> (\<forall>a x w. sg_maps rs a x w = sg_maps ss a x w)"
proof -
  have st: "set rs = set ss" by (rule mset_eq_setD [OF assms])
  have sw: "sorted_wrt sg_apart rs = sorted_wrt sg_apart ss" if "mset rs = mset ss" for rs ss :: "'a seg list"
    using that
  proof (induction rs arbitrary: ss)
    case (Cons r rs)
    then obtain xs ys where ss: "ss = xs @ r # ys"
      by (metis list.set_intros(1) mset_eq_setD split_list)
    then have m: "mset rs = mset (xs @ ys)" using Cons.prems by simp
    have "sorted_wrt sg_apart ss \<longleftrightarrow> sorted_wrt sg_apart (xs @ ys) \<and> (\<forall>s\<in>set (xs @ ys). sg_apart r s)"
      unfolding ss by (auto simp: sorted_wrt_append sg_apart_sym)
    then show ?case using Cons.IH [OF m] mset_eq_setD [OF m] by auto
  qed simp
  have "sum_mset (mset (map sg_len rs)) = sum_mset (mset (map sg_len ss))" using assms by simp
  then have "sg_total rs = sg_total ss" unfolding sg_total_def sum_mset_sum_list .
  then show ?thesis using st sw [OF assms] by (simp add: sg_ok_def sg_points_def sg_bytes_def sg_maps_def)
qed

lemma sorted_apart_iv:
  assumes "sg_ok rs" and "sorted (map sg_lo rs)"
  shows "iv_ok sg_lo sg_hi rs"
  using assms
proof (induction rs)
  case (Cons r rs)
  have *: "sg_hi r \<le> sg_lo q" if q: "q \<in> set rs" for q
  proof (rule ccontr)
    assume "\<not> sg_hi r \<le> sg_lo q"
    moreover have "sg_lo r \<le> sg_lo q" using Cons.prems(2) q by auto
    moreover have "sg_lo q < sg_hi q" "sg_vpts q = {sg_lo q ..< sg_hi q}" "sg_vpts r = {sg_lo r ..< sg_hi r}"
      using Cons.prems(1) q by (cases q; cases r; force simp: sg_ok_Cons sg_ok_def neq0_u64 span_of_def)+
    ultimately have "sg_lo q \<in> sg_vpts r \<inter> sg_vpts q" by auto
    then show False using Cons.prems(1) q by (auto simp: sg_ok_Cons sg_apart_def)
  qed
  have "sg_lo r < sg_hi r" using Cons.prems(1) by (cases r) (auto simp: sg_ok_Cons neq0_u64)
  then show ?case using Cons * by (simp add: iv_ok_Cons sg_ok_Cons)
qed simp

subsection \<open>Bytes and addresses\<close>

lemma span_byte:
  assumes "in_span lo n a" and "fits off n"
  shows "unat (off + (a - lo)) \<in> span_of off n"
proof -
  have d: "unat (a - lo) = unat a - unat lo" using assms(1) by (simp add: in_span_def unat_minus_u64)
  have "unat (off + (a - lo)) = unat off + unat (a - lo)"
    by (rule unat_plus_u64) (use assms d in \<open>auto simp: in_span_def fits_def\<close>)
  then show ?thesis using assms(1) d by (auto simp: in_span_def span_of_def)
qed

lemma sg_maps_byte:
  assumes "sg_ok rs" and "sg_maps rs a x w"
  obtains r where "r \<in> set rs" "unat x \<in> sg_back r" "unat a \<in> sg_vpts r" "sg_maps [r] a x w"
proof -
  obtain r where r: "r \<in> set rs" "sg_maps [r] a x w"
    using assms(2) by (fastforce simp: sg_maps_def)
  obtain lo n off v where e: "r = (lo, n, off, v)" by (metis prod_cases4)
  have "sg_good r" using r(1) assms(1) by (simp add: sg_ok_def)
  moreover have m: "in_span lo n a" "x = off + (a - lo)" using r(2) unfolding e sg_maps_one by auto
  ultimately have "unat x \<in> sg_back r" "unat a \<in> sg_vpts r"
    using span_byte [OF m(1), of off] by (auto simp: e in_span_of)
  then show thesis using that r by blast
qed

lemma sg_apart_elem:
  assumes "sg_ok rs" and "r \<in> set rs" and "s \<in> set rs" and "sg_vpts r \<inter> sg_vpts s \<noteq> {} \<or> sg_back r \<inter> sg_back s \<noteq> {}"
  shows "r = s"
  using assms
  by (induction rs) (auto simp: sg_ok_Cons sg_apart_def)

text \<open>No byte backs two addresses, and no address has two bytes or attributes.\<close>

lemma sg_maps_inj:
  assumes ok: "sg_ok rs" and m: "sg_maps rs a x w" "sg_maps rs b x v"
  shows "a = b \<and> w = v"
proof -
  obtain r where r: "r \<in> set rs" "unat x \<in> sg_back r" "sg_maps [r] a x w" by (rule sg_maps_byte [OF ok m(1)])
  obtain s where s: "s \<in> set rs" "unat x \<in> sg_back s" "sg_maps [s] b x v" by (rule sg_maps_byte [OF ok m(2)])
  have "r = s" using sg_apart_elem [OF ok r(1) s(1)] r(2) s(2) by blast
  moreover obtain lo n off u where "r = (lo, n, off, u)" by (metis prod_cases4)
  ultimately have "sg_maps [(lo, n, off, u)] a x w" "sg_maps [(lo, n, off, u)] b x v" using r(3) s(3) by simp_all
  then have "x = off + (a - lo)" "u = w" "x = off + (b - lo)" "u = v" unfolding sg_maps_one by blast+
  then show ?thesis by simp
qed

lemma sg_maps_fun:
  assumes ok: "sg_ok rs" and m: "sg_maps rs a x w" "sg_maps rs a y v"
  shows "x = y \<and> w = v"
proof -
  obtain r where r: "r \<in> set rs" "unat a \<in> sg_vpts r" "sg_maps [r] a x w" by (rule sg_maps_byte [OF ok m(1)])
  obtain s where s: "s \<in> set rs" "unat a \<in> sg_vpts s" "sg_maps [s] a y v" by (rule sg_maps_byte [OF ok m(2)])
  have "r = s" using sg_apart_elem [OF ok r(1) s(1)] r(2) s(2) by blast
  moreover obtain lo n off u where "r = (lo, n, off, u)" by (metis prod_cases4)
  ultimately have "sg_maps [(lo, n, off, u)] a x w" "sg_maps [(lo, n, off, u)] a y v" using r(3) s(3) by simp_all
  then have "x = off + (a - lo)" "u = w" "y = off + (a - lo)" "u = v" unfolding sg_maps_one by blast+
  then show ?thesis by simp
qed

text \<open>The bytes of a sequence are those its addresses are backed by.\<close>

lemma sg_byte_maps:
  assumes "sg_ok rs"
  shows "k \<in> sg_bytes rs \<longleftrightarrow> (\<exists>a x w. sg_maps rs a x w \<and> k = unat x)"
proof
  assume "k \<in> sg_bytes rs"
  then obtain r where r: "r \<in> set rs" "k \<in> sg_back r" by (auto simp: sg_bytes_def)
  obtain lo n off u where e: "r = (lo, n, off, u)" by (metis prod_cases4)
  have g: "fits lo n" "fits off n" using r(1) assms e by (auto simp: sg_ok_def)
  have k: "unat off \<le> k" "k < unat off + unat n" using r(2) e by (auto simp: span_of_def)
  define d where "d = (of_nat (k - unat off) :: u64)"
  have "k - unat off < unat n" using k by linarith
  then have d: "unat d = k - unat off"
    unfolding d_def using unat_u64_lt [of n] by (simp add: unat_of_nat take_bit_nat_eq_self)
  have a: "unat (lo + d) = unat lo + unat d"
    by (rule unat_plus_u64) (use d k g in \<open>simp add: fits_def\<close>)
  have x: "unat (off + d) = k"
    using unat_plus_u64 [of off d] d k g unat_u64_lt [of off] by (simp add: fits_def)
  have "sg_maps [r] (lo + d) (off + d) u"
    unfolding e sg_maps_one in_span_def using a d k by auto
  then have "sg_maps rs (lo + d) (off + d) u" using r(1) by (fastforce simp: sg_maps_def)
  then show "\<exists>a x w. sg_maps rs a x w \<and> k = unat x" using x by blast
next
  assume "\<exists>a x w. sg_maps rs a x w \<and> k = unat x"
  then show "k \<in> sg_bytes rs" using assms by (auto simp: sg_bytes_def elim!: sg_maps_byte)
qed

lemma sg_bytes_eqI:
  assumes "sg_ok rs" and "sg_ok ss" and "\<And>a x w. sg_maps rs a x w \<longleftrightarrow> sg_maps ss a x w"
  shows "sg_bytes rs = sg_bytes ss"
  using sg_byte_maps [OF assms(1)] sg_byte_maps [OF assms(2)] assms(3) by blast

end
