(* ===== verification/FlexibleMemoryProps.thy ===== *)
theory FlexibleMemoryProps
  imports FlexibleMemory Segments PhysicalMemoryBlocks
begin

text \<open>
  What the operations of \<open>FlexibleMemory\<close> do to the addresses it backs, the partition of the
  flexible memory into free and allocated bytes, and its properties. Blocks are read as segments.
\<close>

subsection \<open>Blocks as segments\<close>

type_synonym flex_attr = "u64 \<times> u64 \<times> i32 \<times> vmode \<times> gpu_access \<times> string"

definition fb_attr :: "flex_block \<Rightarrow> flex_attr" where
  "fb_attr b = (fb_host_vaddr b, fb_host_size b, fb_prot b, fb_mode b, fb_gpu_mode b, fb_name b)"

definition fb_seg :: "flex_block \<Rightarrow> flex_attr seg" where
  "fb_seg b = (fb_map_vaddr b, fb_map_size b, fb_backing_offset b, fb_attr b)"

abbreviation fsegs :: "flex_block list \<Rightarrow> flex_attr seg list" where
  "fsegs bs \<equiv> map fb_seg bs"

lemma fb_seg_sel [simp]:
  "sg_lo (fb_seg b) = unat (fb_map_vaddr b)" "sg_hi (fb_seg b) = unat (fb_map_vaddr b) + unat (fb_map_size b)"
  "sg_len (fb_seg b) = unat (fb_map_size b)"
  "sg_vpts (fb_seg b) = span_of (fb_map_vaddr b) (fb_map_size b)"
  "sg_back (fb_seg b) = span_of (fb_backing_offset b) (fb_map_size b)"
  "sg_good (fb_seg b) \<longleftrightarrow> fb_map_size b \<noteq> 0 \<and> fits (fb_map_vaddr b) (fb_map_size b) \<and>
     fits (fb_backing_offset b) (fb_map_size b)"
  by (simp_all add: fb_seg_def)

lemma cut_block_seg:
  assumes "cut_block va n b = (kept, freed)" and "sg_cut va n (fb_seg b) = (L, M, R)"
  shows "fsegs kept = L @ R" and "map (\<lambda>(lo, len, off, w). (off, len)) M = (case freed of None \<Rightarrow> [] | Some r \<Rightarrow> [r])"
  using assms by (auto simp: cut_block_def sg_cut_def fb_seg_def fb_attr_def Let_def split: if_splits)

lemma protect_flex_block_seg:
  "fsegs (protect_flex_block va n prot mode gm b) =
     (case sg_cut va n (fb_seg b) of (L, M, R) \<Rightarrow>
        L @ map (sg_set (\<lambda>(hv, hs, _, _, _, nm). (hv, hs, prot, mode, gm, nm))) M @ R)"
  by (auto simp: protect_flex_block_def sg_cut_def sg_set_def fb_seg_def fb_attr_def Let_def)

lemma protect_flex_segs:
  "fsegs (concat (map (protect_flex_block va n prot mode gm) bs)) =
     sg_recut (\<lambda>(hv, hs, _, _, _, nm). (hv, hs, prot, mode, gm, nm)) va n (fsegs bs)"
  by (induction bs) (simp_all add: protect_flex_block_seg)

text \<open>The removal loop keeps what the cuts keep and gives back what they take.\<close>

definition seg_ranges :: "'a seg list \<Rightarrow> (u64 \<times> u64) list" where
  "seg_ranges rs = map (\<lambda>(lo, len, off, w). (off, len)) rs"

lemma remove_loop_eq:
  "\<exists>bs'. remove_loop va n rest bs fs removed =
     (rest @ bs', fold (\<lambda>(s, k). AddFreeRange s k) (seg_ranges (sg_taken va n (fsegs bs))) fs,
      removed + (\<Sum>(s, k)\<leftarrow>seg_ranges (sg_taken va n (fsegs bs)). k)) \<and>
     fsegs bs' = sg_kept va n (fsegs bs)"
proof (induction bs arbitrary: rest fs removed)
  case (Cons b bs)
  obtain L M R where c: "sg_cut va n (fb_seg b) = (L, M, R)" by (cases "sg_cut va n (fb_seg b)")
  obtain kept freed where k: "cut_block va n b = (kept, freed)" by (cases "cut_block va n b")
  note s = cut_block_seg [OF k c]
  show ?case
  proof (cases freed)
    case None
    obtain bs' where "remove_loop va n (rest @ kept) bs fs removed = (rest @ kept @ bs',
        fold (\<lambda>(s, k). AddFreeRange s k) (seg_ranges (sg_taken va n (fsegs bs))) fs,
        removed + (\<Sum>(s, k)\<leftarrow>seg_ranges (sg_taken va n (fsegs bs)). k))"
      "fsegs bs' = sg_kept va n (fsegs bs)"
      using Cons.IH [of "rest @ kept" fs removed] by auto
    then show ?thesis using s None by (intro exI [of _ "kept @ bs'"]) (simp add: k c seg_ranges_def)
  next
    case (Some r)
    obtain off len where r: "r = (off, len)" by (cases r)
    obtain bs' where "remove_loop va n (rest @ kept) bs (AddFreeRange off len fs) (removed + len) =
       (rest @ kept @ bs',
        fold (\<lambda>(s, k). AddFreeRange s k) (seg_ranges (sg_taken va n (fsegs bs))) (AddFreeRange off len fs),
        removed + len + (\<Sum>(s, k)\<leftarrow>seg_ranges (sg_taken va n (fsegs bs)). k))"
      "fsegs bs' = sg_kept va n (fsegs bs)"
      using Cons.IH [of "rest @ kept" "AddFreeRange off len fs" "removed + len"] by auto
    then show ?thesis using s Some r
      by (intro exI [of _ "kept @ bs'"]) (simp add: k c seg_ranges_def FlexibleMemory_AddFreeRange_def)
  qed
qed (simp add: seg_ranges_def)

lemma seg_ranges_sum:
  assumes "sg_total rs < 18446744073709551616"
  shows "unat (\<Sum>(s, k)\<leftarrow>seg_ranges rs. k) = sg_total rs"
  using assms
proof (induction rs)
  case (Cons r rs)
  then show ?case by (cases r) (simp add: seg_ranges_def unat_plus_u64)
qed (simp add: seg_ranges_def)

lemma seg_ranges_good: "sg_ok rs \<Longrightarrow> \<forall>(s, k)\<in>set (seg_ranges rs). 0 < unat k \<and> fits s k"
  by (auto simp: seg_ranges_def sg_ok_def neq0_u64 split: prod.splits)

lemma seg_ranges_bytes: "(\<Union>(s, k)\<in>set (seg_ranges rs). span_of s k) = sg_bytes rs"
  by (induction rs) (auto simp: seg_ranges_def)

subsection \<open>Planning a mapping\<close>

lemma fr_card:
  assumes "fr_ok fs"
  shows "finite (fr_bytes fs) \<and> card (fr_bytes fs) = (\<Sum>e\<leftarrow>fs. unat (snd e))"
  using assms
proof (induction fs)
  case (Cons e fs)
  have "span_of (fst e) (snd e) \<inter> fr_bytes fs = {}"
    using Cons.prems by (fastforce simp: fr_ok_Cons fr_bytes_mem span_of_def)
  then show ?case using Cons by (simp add: fr_ok_Cons card_Un_disjoint span_of_def)
qed simp

definition proto_attr :: "flex_block \<Rightarrow> flex_block \<Rightarrow> bool" where
  "proto_attr p b \<longleftrightarrow> fb_attr b = fb_attr p"

lemma plan_blocks_spec:
  assumes "fr_ok fs" and "fits cur rem" and "plan_blocks proto cur rem fs = (bs, left)"
  shows "sg_ok (fsegs bs) \<and> sg_bytes (fsegs bs) \<subseteq> fr_bytes fs \<and> unat left \<le> unat rem \<and>
    sg_points (fsegs bs) = {unat cur ..< unat cur + (unat rem - unat left)} \<and>
    sg_total (fsegs bs) = unat rem - unat left \<and>
    unat left = unat rem - (\<Sum>e\<leftarrow>fs. unat (snd e)) \<and> (\<forall>b\<in>set bs. fb_attr b = fb_attr proto)"
  using assms
proof (induction proto cur rem fs arbitrary: bs left rule: plan_blocks.induct)
  case (2 proto cur rem off free fs)
  show ?case
  proof (cases "rem = 0")
    case True
    then show ?thesis using "2.prems" by auto
  next
    case False
    define chunk where "chunk = min rem free"
    obtain bs' where run: "plan_blocks proto (cur + chunk) (rem - chunk) fs = (bs', left)"
      and bs: "bs = proto\<lparr>fb_map_vaddr := cur, fb_map_size := chunk, fb_backing_offset := off\<rparr> # bs'"
      using "2.prems"(3) False by (auto simp: Let_def chunk_def split: prod.splits)
    have f: "0 < unat free" "fits off free" "\<forall>q\<in>set fs. unat off + unat free < flo q" "fr_ok fs"
      using "2.prems"(1) by (auto simp: fr_ok_Cons)
    have c: "unat chunk = min (unat rem) (unat free)" by (simp add: chunk_def unat_min_u64)
    have e: "unat (cur + chunk) = unat cur + unat chunk" "unat (rem - chunk) = unat rem - unat chunk"
      using "2.prems"(2) c by (auto simp: fits_def unat_plus_u64 unat_minus_u64)
    have "fits (cur + chunk) (rem - chunk)" using "2.prems"(2) e c by (simp add: fits_def)
    note ih = "2.IH" [OF False chunk_def refl f(4) this run]
    let ?r = "(cur, chunk, off, fb_attr proto)"
    have r: "fb_seg (proto\<lparr>fb_map_vaddr := cur, fb_map_size := chunk, fb_backing_offset := off\<rparr>) = ?r"
      by (simp add: fb_seg_def fb_attr_def)
    have g: "sg_good ?r" using False f(1,2) c "2.prems"(2) by (auto simp: neq0_u64 fits_def)
    have p: "span_of cur chunk = {unat cur ..< unat cur + unat chunk}" "span_of off chunk \<subseteq> span_of off free"
      using c by (auto simp: span_of_def)
    have apart: "span_of off chunk \<inter> sg_bytes (fsegs bs') = {}"
    proof -
      have "span_of off free \<inter> fr_bytes fs = {}"
        using f(3) by (fastforce simp: fr_bytes_mem span_of_def)
      then show ?thesis using ih p(2) by blast
    qed
    have ih': "sg_ok (fsegs bs')" "sg_bytes (fsegs bs') \<subseteq> fr_bytes fs" "unat left \<le> unat rem - unat chunk"
      "sg_points (fsegs bs') = {unat cur + unat chunk ..< unat cur + unat chunk + (unat rem - unat chunk - unat left)}"
      "sg_total (fsegs bs') = unat rem - unat chunk - unat left"
      "unat left = unat rem - unat chunk - (\<Sum>e\<leftarrow>fs. unat (snd e))" "\<forall>b\<in>set bs'. fb_attr b = fb_attr proto"
      using ih unfolding e by blast+
    have c': "unat chunk \<le> unat rem" "unat chunk \<le> unat free" using c by auto
    have 1: "sg_ok (fsegs bs)"
      unfolding bs list.map r sg_ok_Cons_sets using g apart ih'(1,4) p(1) by auto
    have 2: "sg_bytes (fsegs bs) \<subseteq> fr_bytes ((off, free) # fs)"
      unfolding bs list.map r using p(2) ih'(2) by auto
    have 3: "sg_points (fsegs bs) = {unat cur ..< unat cur + (unat rem - unat left)}"
      unfolding bs list.map r sg_simps ih'(4) sg_vpts.simps p(1) using c' ih'(3)
      by (intro set_eqI) (simp only: Un_iff atLeastLessThan_iff, linarith)
    have 4: "sg_total (fsegs bs) = unat rem - unat left"
      unfolding bs list.map r sg_simps ih'(5) sg_len.simps using c' ih'(3) by linarith
    have 5: "unat left = unat rem - (\<Sum>e\<leftarrow>(off, free) # fs. unat (snd e))"
      unfolding ih'(6) c by simp
    have 6: "\<forall>b\<in>set bs. fb_attr b = fb_attr proto" using ih'(7) bs by (simp add: fb_attr_def)
    show ?thesis using 1 2 3 4 5 6 ih'(3) c' by simp
  qed
qed auto

subsection \<open>Taking backing off the free list\<close>

lemma fr_upper:
  assumes "fr_ok fs" and "e \<in> set fs" and "flo e \<le> unat x" and "unat x < fhi e"
  shows "fst (om_upper x fs) \<noteq> [] \<and> last (fst (om_upper x fs)) = e"
proof -
  obtain A B where fs: "fs = A @ e # B" using assms(2) by (auto simp: in_set_conv_decomp)
  have A: "\<forall>q\<in>set A. fst q \<le> x" using assms by (force simp: fs fr_ok_append le_u64)
  have B: "\<forall>q\<in>set B. \<not> fst q \<le> x" using assms by (force simp: fs fr_ok_append fr_ok_Cons le_u64)
  have "takeWhile (\<lambda>q. fst q \<le> x) fs = A @ [e]"
    using A B assms(3) unfolding fs
    by (simp add: takeWhile_append2 le_u64 takeWhile_eq_Nil_iff) (cases B; simp add: le_u64)
  then show ?thesis by (simp add: om_upper_def)
qed

lemma free_block_entry:
  assumes ok: "fr_ok fs" and g: "0 < unat n" "fits off n" and sub: "span_of off n \<subseteq> fr_bytes fs"
  obtains e where "e \<in> set fs" "fst (om_upper off fs) \<noteq> []" "last (fst (om_upper off fs)) = e"
    "fst e \<le> off" "\<not> fst e + snd e - off < n" "span_of off n \<subseteq> span_of (fst e) (snd e)"
proof -
  have "unat off < unat off + unat n" "{unat off ..< unat off + unat n} \<subseteq> fr_bytes fs"
    using g sub by (auto simp: span_of_def)
  from fr_run_in_entry [OF ok this] obtain e where e: "e \<in> set fs" "flo e \<le> unat off" "unat off + unat n \<le> fhi e"
    by blast
  have "fits (fst e) (snd e)" using ok e(1) by (auto simp: fr_ok_def)
  then have "unat (fst e + snd e) = fhi e" by (rule unat_end)
  then have d: "unat (fst e + snd e - off) = fhi e - unat off" using e by (simp add: unat_minus_u64)
  show thesis
  proof (rule that [OF e(1)])
    show "fst (om_upper off fs) \<noteq> []" "last (fst (om_upper off fs)) = e"
      using fr_upper [OF ok e(1,2)] e(3) g by auto
    show "fst e \<le> off" using e by (simp add: le_u64)
    show "\<not> fst e + snd e - off < n" using d e by (simp add: less_u64)
    show "span_of off n \<subseteq> span_of (fst e) (snd e)" using e by (auto simp: span_of_def)
  qed
qed

lemma block_is_free_if:
  assumes "fr_ok fs" and "sg_good (fb_seg b)" and "sg_back (fb_seg b) \<subseteq> fr_bytes fs"
  shows "block_is_free fs b"
proof -
  have "0 < unat (fb_map_size b)" "fits (fb_backing_offset b) (fb_map_size b)"
    "span_of (fb_backing_offset b) (fb_map_size b) \<subseteq> fr_bytes fs"
    using assms by (simp_all add: neq0_u64)
  then obtain e where e: "fst (om_upper (fb_backing_offset b) fs) \<noteq> []" "last (fst (om_upper (fb_backing_offset b) fs)) = e"
    "\<not> fb_backing_offset b < fst e" "\<not> fst e + snd e - fb_backing_offset b < fb_map_size b"
    using free_block_entry [OF assms(1)] by (metis not_less)
  then show ?thesis
    unfolding block_is_free_def Let_def case_prod_beta e(2) by (simp only: if_False HOL.simp_thms)
qed

lemma consume_all_spec:
  assumes "fr_ok fs" and "sg_ok (fsegs bs)" and "sg_bytes (fsegs bs) \<subseteq> fr_bytes fs"
  shows "\<exists>fs'. consume_all check bs fs = Some fs' \<and> fr_ok fs' \<and>
    fr_bytes fs' = fr_bytes fs - sg_bytes (fsegs bs)"
  using assms
proof (induction bs arbitrary: fs)
  case (Cons b bs)
  let ?off = "fb_backing_offset b" and ?n = "fb_map_size b"
  have g: "0 < unat ?n" "fits ?off ?n" "span_of ?off ?n \<subseteq> fr_bytes fs" "sg_ok (fsegs bs)"
    "span_of ?off ?n \<inter> sg_bytes (fsegs bs) = {}"
    using Cons.prems by (auto simp: sg_ok_Cons_sets neq0_u64)
  obtain e where e: "e \<in> set fs" "fst (om_upper ?off fs) \<noteq> []" "last (fst (om_upper ?off fs)) = e"
    "fst e \<le> ?off" "\<not> fst e + snd e - ?off < ?n" "span_of ?off ?n \<subseteq> span_of (fst e) (snd e)"
    by (rule free_block_entry [OF Cons.prems(1) g(1-3)])
  let ?fs = "ConsumeFreeRange e ?off ?n fs"
  have "fr_ok ?fs" "fr_bytes ?fs = fr_bytes fs - span_of ?off ?n"
    using free_list.take_inv [OF Cons.prems(1) e(1) g(1,2) e(6)]
      free_list.take_bytes [OF Cons.prems(1) e(1) g(1,2) e(6)] by auto
  moreover have "sg_bytes (fsegs bs) \<subseteq> fr_bytes ?fs"
    using calculation g(5) Cons.prems(3) by auto
  ultimately obtain fs' where fs': "consume_all check bs ?fs = Some fs'" "fr_ok fs'"
    "fr_bytes fs' = fr_bytes fs - span_of ?off ?n - sg_bytes (fsegs bs)"
    using Cons.IH [of ?fs] g(4) by auto
  obtain before after where u: "om_upper ?off fs = (before, after)" by (cases "om_upper ?off fs")
  have "before \<noteq> []" "last before = e" using e(2,3) u by simp_all
  then have "consume_all check (b # bs) fs = consume_all check bs ?fs"
    unfolding consume_all.simps u Let_def prod.case FlexibleMemory_ConsumeFreeRange_def
    using e(4,5) by (simp only: if_False not_less [symmetric] HOL.simp_thms)
  then show ?case using fs' by (simp add: Diff_eq Int_assoc)
qed simp

text \<open>
  The availability check of \<open>Restore\<close> is exact only for offsets inside or before the end of the
  preceding free range: past its end the difference wraps and the check accepts bytes that are
  not free.
\<close>

lemma block_is_free_wraps:
  "let fs = [(0, 16)];
       b = \<lparr>fb_map_vaddr = 0, fb_map_size = 8, fb_backing_offset = 64, fb_host_vaddr = 0, fb_host_size = 8,
            fb_prot = 3, fb_mode = ReadWrite, fb_gpu_mode = GpuNoAccess, fb_name = ''''\<rparr>
   in fr_ok fs \<and> sg_good (fb_seg b) \<and> block_is_free fs b \<and> sg_back (fb_seg b) \<inter> fr_bytes fs = {}"
  by (simp add: fr_ok_Cons fits_def block_is_free_def om_upper_def span_of_def)

subsection \<open>Covered requests\<close>

lemma points_after: "iv_ok sg_lo sg_hi rs \<Longrightarrow> \<forall>r\<in>set rs. m \<le> sg_lo r \<Longrightarrow> x \<in> sg_points rs \<Longrightarrow> m \<le> x"
  by (force simp: sg_points_def span_of_def)

lemma cover_step: "lo \<le> (c :: nat) \<Longrightarrow> c < e \<Longrightarrow> {c ..< f} \<subseteq> {lo ..< e} \<union> P \<longleftrightarrow> {e ..< f} \<subseteq> P"
  unfolding subset_iff Un_iff atLeastLessThan_iff by (meson leD leI less_imp_le order.trans)

lemma cover_scan_spec:
  assumes "iv_ok sg_lo sg_hi (fsegs bs)" and "\<forall>b\<in>set bs. sg_good (fb_seg b)"
    and "unat cur < unat fin" and "cover_scan fin cur found bs = (f, c)"
  shows "(c = fin \<longleftrightarrow> {unat cur ..< unat fin} \<subseteq> sg_points (fsegs bs)) \<and>
    (c = fin \<longrightarrow> (case found of Some g \<Rightarrow> f = Some g
       | None \<Rightarrow> \<exists>b\<in>set bs. f = Some (fb_gpu_mode b) \<and> unat cur \<in> sg_vpts (fb_seg b)))"
  using assms
proof (induction fin cur found bs arbitrary: f c rule: cover_scan.induct)
  case (2 fin cur found b bs)
  let ?lo = "fb_map_vaddr b" and ?e = "fb_map_vaddr b + fb_map_size b"
  have ok: "iv_ok sg_lo sg_hi (fsegs bs)" "\<forall>q\<in>set (fsegs bs). sg_hi (fb_seg b) \<le> sg_lo q"
    "\<forall>b\<in>set bs. sg_good (fb_seg b)"
    using "2.prems"(1,2) by (auto simp: iv_ok_Cons)
  have e: "unat ?e = unat ?lo + unat (fb_map_size b)"
    using "2.prems"(2) by (simp add: unat_end)
  have later: "unat ?e \<le> x" if "x \<in> sg_points (fsegs bs)" for x
    using points_after [OF ok(1,2) that] e by simp
  have vp: "sg_vpts (fb_seg b) = {unat ?lo ..< unat ?e}" using e by (simp add: span_of_def)
  show ?case
  proof (cases "?e \<le> cur")
    case True
    then have "{unat cur ..< unat fin} \<subseteq> sg_points (fsegs (b # bs)) \<longleftrightarrow> {unat cur ..< unat fin} \<subseteq> sg_points (fsegs bs)"
      using vp by (auto simp: le_u64)
    then show ?thesis using "2.IH"(1) [OF True ok(1,3)] "2.prems"(3,4) True by (auto split: option.splits)
  next
    case ahead: False
    show ?thesis
    proof (cases "cur < ?lo \<or> fin \<le> ?lo")
      case True
      have "unat cur \<notin> sg_points (fsegs (b # bs))"
        using True "2.prems"(3) later [of "unat cur"] ahead vp by (auto simp: u64_conv)
      moreover have "c = cur" using "2.prems"(4) True ahead by auto
      ultimately show ?thesis using "2.prems"(3) by auto
    next
      case False
      define f1 where "f1 = (case found of None \<Rightarrow> Some (fb_gpu_mode b) | Some g \<Rightarrow> Some g)"
      define c1 where "c1 = min fin ?e"
      have c1: "unat c1 = min (unat fin) (unat ?e)" by (simp add: c1_def unat_min_u64)
      have inb: "unat ?lo \<le> unat cur" "unat cur < unat ?e"
        using False ahead by (auto simp: u64_conv)
      have run: "(if c1 = fin then (f1, c1) else cover_scan fin c1 f1 bs) = (f, c)"
        using "2.prems"(4) ahead False unfolding f1_def c1_def by (simp add: Let_def)
      have f1: "f1 = Some (case found of None \<Rightarrow> fb_gpu_mode b | Some g \<Rightarrow> g)"
        by (simp add: f1_def split: option.splits)
      have seen: "f = f1 \<Longrightarrow> (case found of Some g \<Rightarrow> f = Some g
         | None \<Rightarrow> \<exists>b'\<in>set (b # bs). f = Some (fb_gpu_mode b') \<and> unat cur \<in> sg_vpts (fb_seg b'))"
        using f1 inb vp by (auto split: option.splits)
      show ?thesis
      proof (cases "c1 = fin")
        case True
        then have "{unat cur ..< unat fin} \<subseteq> sg_vpts (fb_seg b)" using c1 inb vp by auto
        then show ?thesis using True run seen by auto
      next
        case more: False
        then have lt: "unat c1 < unat fin" "unat c1 = unat ?e" using c1 by (auto simp: eq_u64 min_def)
        have "{unat cur ..< unat fin} \<subseteq> sg_points (fsegs (b # bs)) \<longleftrightarrow> {unat c1 ..< unat fin} \<subseteq> sg_points (fsegs bs)"
          using cover_step [OF inb] lt(2) vp by simp
        then show ?thesis
          using "2.IH"(2) [OF ahead False f1_def c1_def more ok(1,3) lt(1)] run more seen f1 by auto
      qed
    qed
  qed
qed auto

lemma sg_overlap:
  assumes "sg_good (lo, len, off, w)" and "n \<noteq> 0" and "fits va n"
  shows "VirtualRangesOverlap va n lo len \<longleftrightarrow> unat va < unat lo + unat len \<and> unat lo < unat va + unat n"
  using assms fits_end [of va n] fits_end [of lo len] by (auto simp: VirtualRangesOverlap_eq less_u64)

lemma sg_cut_taken:
  assumes "sg_good (fb_seg b)" and "n \<noteq> 0" and "fits va n"
  shows "(case sg_cut va n (fb_seg b) of (L, M, R) \<Rightarrow> M) =
    (if unat va < unat (fb_map_vaddr b) + unat (fb_map_size b) \<and> unat (fb_map_vaddr b) < unat va + unat n
     then [sg_part (fb_seg b) (max va (fb_map_vaddr b)) (min (va + n) (fb_map_vaddr b + fb_map_size b))] else [])"
  using sg_overlap [OF assms(1) [unfolded fb_seg_def] assms(2,3)]
  by (simp add: sg_cut_def fb_seg_def sg_part_def Let_def)

lemma sg_taken_none:
  assumes "\<forall>b\<in>set bs. sg_good (fb_seg b) \<and> unat va + unat n \<le> unat (fb_map_vaddr b)" and "n \<noteq> 0" and "fits va n"
  shows "sg_taken va n (fsegs bs) = []"
  using assms(1)
proof (induction bs)
  case (Cons b bs)
  then have "(case sg_cut va n (fb_seg b) of (L, M, R) \<Rightarrow> M) = []"
    by (subst sg_cut_taken [OF _ assms(2,3)]) auto
  then show ?case using Cons by simp
qed simp

lemma snapshot_scan_spec:
  assumes "iv_ok sg_lo sg_hi (fsegs bs)" and "\<forall>b\<in>set bs. sg_good (fb_seg b)" and n: "n \<noteq> 0" and fit: "fits va n"
    and "fin = va + n" and "unat va \<le> unat cur" and "unat cur < unat va + unat n"
    and "cur = va \<or> (\<forall>b\<in>set bs. unat cur \<le> unat (fb_map_vaddr b))"
  shows "case snapshot_scan fin cur out bs of
      None \<Rightarrow> \<not> {unat cur ..< unat va + unat n} \<subseteq> sg_points (fsegs bs)
    | Some ps \<Rightarrow> {unat cur ..< unat va + unat n} \<subseteq> sg_points (fsegs bs) \<and>
        fsegs ps = fsegs out @ sg_taken va n (fsegs bs)"
  using assms(1,2,5-)
proof (induction fin cur out bs rule: snapshot_scan.induct)
  case (2 fin cur out b bs)
  let ?lo = "fb_map_vaddr b" and ?e = "fb_map_vaddr b + fb_map_size b"
  have ok: "iv_ok sg_lo sg_hi (fsegs bs)" "\<forall>q\<in>set (fsegs bs). sg_hi (fb_seg b) \<le> sg_lo q"
    "\<forall>b\<in>set bs. sg_good (fb_seg b)" and g: "sg_good (fb_seg b)"
    using "2.prems"(1,2) by (auto simp: iv_ok_Cons)
  have e: "unat ?e = unat ?lo + unat (fb_map_size b)" and pos: "0 < unat (fb_map_size b)"
    using g by (auto simp: unat_end neq0_u64)
  have after: "\<forall>q\<in>set bs. unat ?e \<le> unat (fb_map_vaddr q)" using ok(2) e by simp
  have fin: "unat fin = unat va + unat n" using "2.prems"(3) fit by (simp add: unat_end)
  have vp: "sg_vpts (fb_seg b) = {unat ?lo ..< unat ?e}" using e by (simp add: span_of_def)
  note taken = sg_cut_taken [OF g n fit]
  show ?case
  proof (cases "?e \<le> cur")
    case True
    then have at: "cur = va" using "2.prems"(6) pos e by (auto simp: le_u64)
    have "{unat cur ..< unat va + unat n} \<subseteq> sg_points (fsegs (b # bs)) \<longleftrightarrow>
        {unat cur ..< unat va + unat n} \<subseteq> sg_points (fsegs bs)"
      using vp True by (auto simp: le_u64)
    moreover have "sg_taken va n (fsegs (b # bs)) = sg_taken va n (fsegs bs)"
      using taken True at e by (simp add: le_u64)
    ultimately show ?thesis
      using "2.IH"(1) [OF refl True ok(1,3) "2.prems"(3-5)] at True by (simp split: option.splits)
  next
    case ahead: False
    show ?thesis
    proof (cases "cur < ?lo \<or> fin \<le> ?lo")
      case True
      then have "unat cur \<notin> sg_points (fsegs (b # bs))"
        using points_after [OF ok(1,2), of "unat cur"] ahead vp e fin "2.prems"(5) by (auto simp: u64_conv)
      then show ?thesis using True ahead "2.prems"(5) by auto
    next
      case False
      have inb: "unat ?lo \<le> unat cur" "unat cur < unat ?e" using False ahead by (auto simp: u64_conv)
      have mx: "max va ?lo = cur"
      proof (cases "cur = va")
        case True
        then show ?thesis using inb by (simp add: eq_u64 unat_max_u64)
      next
        case False
        then have "unat ?lo = unat cur" using "2.prems"(6) inb by force
        then show ?thesis using "2.prems"(4) by (simp add: eq_u64 unat_max_u64)
      qed
      define pe where "pe = min fin ?e"
      have pe: "unat pe = min (unat va + unat n) (unat ?e)" by (simp add: pe_def unat_min_u64 fin)
      let ?p = "b\<lparr>fb_map_vaddr := cur, fb_map_size := pe - cur, fb_backing_offset := fb_backing_offset b + (cur - ?lo)\<rparr>"
      have hit: "unat va < unat ?lo + unat (fb_map_size b) \<and> unat ?lo < unat va + unat n"
        using inb "2.prems"(4,5) e by linarith
      have part: "fb_seg ?p = sg_part (fb_seg b) (max va ?lo) (min (va + n) ?e)"
        unfolding mx pe_def [symmetric] "2.prems"(3) [symmetric]
        by (simp add: fb_seg_def fb_attr_def sg_part_def)
      have step: "snapshot_scan fin cur out (b # bs) =
          (if pe = fin then Some (out @ [?p]) else snapshot_scan fin pe (out @ [?p]) bs)"
        unfolding snapshot_scan.simps Let_def pe_def using ahead False by (simp only: if_False)
      have tk: "sg_taken va n (fsegs (b # bs)) = fb_seg ?p # sg_taken va n (fsegs bs)"
        unfolding part using taken hit by simp
      show ?thesis
      proof (cases "pe = fin")
        case True
        then have pf: "unat va + unat n \<le> unat ?e" using pe fin by simp
        then have "sg_taken va n (fsegs bs) = []"
          using after ok(3) by (intro sg_taken_none [OF _ n fit]) force
        moreover have "{unat cur ..< unat va + unat n} \<subseteq> sg_points (fsegs (b # bs))"
        proof -
          have "{unat cur ..< unat va + unat n} \<subseteq> sg_vpts (fb_seg b)"
            unfolding vp by (rule ivl_subset [THEN iffD2]) (use inb pf in blast)
          then show ?thesis by auto
        qed
        ultimately show ?thesis unfolding step tk using True by simp
      next
        case more: False
        have lt: "unat pe < unat va + unat n" "unat pe = unat ?e"
          using more pe fin by (auto simp: eq_u64 min_def split: if_splits)
        have next_at: "pe = va \<or> (\<forall>q\<in>set bs. unat pe \<le> unat (fb_map_vaddr q))" using after lt by simp
        have "{unat cur ..< unat va + unat n} \<subseteq> sg_points (fsegs (b # bs)) \<longleftrightarrow>
            {unat pe ..< unat va + unat n} \<subseteq> sg_points (fsegs bs)"
          using cover_step [OF inb] lt(2) vp by simp
        then show ?thesis
          unfolding step tk using "2.IH"(2) [OF refl ahead False pe_def refl more ok(1,3) "2.prems"(3) _ lt(1) next_at]
            more lt inb "2.prems"(4) by (simp split: option.splits)
      qed
    qed
  qed
qed auto

subsection \<open>The invariant and the operations\<close>

definition fm_ok :: "u64 \<Rightarrow> flexible_memory \<Rightarrow> bool" where
  "fm_ok flex fm \<longleftrightarrow> fr_ok (fm_free fm) \<and> sg_ok (fsegs (fm_allocated fm)) \<and>
     iv_ok sg_lo sg_hi (fsegs (fm_allocated fm)) \<and>
     (case PhysicalMemory_Size flex of None \<Rightarrow> False
      | Some base \<Rightarrow> splits {unat base ..< unat base + unat flex} (fr_bytes (fm_free fm)) (sg_bytes (fsegs (fm_allocated fm)))) \<and>
     unat (fm_allocated_total fm) = sg_total (fsegs (fm_allocated fm))"

text \<open>Address \<open>a\<close> is backed by byte \<open>x\<close> with attributes \<open>w\<close>.\<close>

abbreviation fm_maps :: "flexible_memory \<Rightarrow> u64 \<Rightarrow> u64 \<Rightarrow> flex_attr \<Rightarrow> bool" where
  "fm_maps fm \<equiv> sg_maps (fsegs (fm_allocated fm))"

abbreviation fm_points :: "flexible_memory \<Rightarrow> nat set" where
  "fm_points fm \<equiv> sg_points (fsegs (fm_allocated fm))"

lemma fm_ok_base:
  assumes "fm_ok flex fm"
  obtains base where "PhysicalMemory_Size flex = Some base"
    "splits {unat base ..< unat base + unat flex} (fr_bytes (fm_free fm)) (sg_bytes (fsegs (fm_allocated fm)))"
  using assms by (cases "PhysicalMemory_Size flex") (simp_all add: fm_ok_def)

lemma fm_ok_available:
  assumes "fm_ok flex fm"
  shows "unat (FlexibleMemory_Available flex fm) = (\<Sum>e\<leftarrow>fm_free fm. unat (snd e)) \<and>
    unat (FlexibleMemory_Available flex fm) = card (fr_bytes (fm_free fm)) \<and>
    unat (FlexibleMemory_Available flex fm) + unat (fm_allocated_total fm) = unat flex"
proof -
  obtain base :: u64 where b: "splits {unat base ..< unat base + unat flex} (fr_bytes (fm_free fm)) (sg_bytes (fsegs (fm_allocated fm)))"
    by (rule fm_ok_base [OF assms])
  note f = fr_card [of "fm_free fm"] and s = sg_card [of "fsegs (fm_allocated fm)"]
  have "card (fr_bytes (fm_free fm)) + card (sg_bytes (fsegs (fm_allocated fm))) = unat flex"
    using b f s assms by (subst card_Un_disjoint [symmetric]) (auto simp: splits_def fm_ok_def)
  then show ?thesis
    using f s assms by (auto simp: fm_ok_def FlexibleMemory_Available_def le_u64 unat_minus_u64)
qed

lemma map_all_total:
  assumes "\<forall>v n s. fst (UnmapBacking ops v n s)"
  shows "map_all ops z ms bs s \<noteq> None"
proof -
  have u: "unmap_all ops xs t \<noteq> None" for xs t
    using assms by (induction xs arbitrary: t) (simp_all add: case_prod_beta)
  have "rollback ops xs t \<noteq> None" for xs t using u by (simp add: rollback_def)
  then show ?thesis
    by (induction ops z ms bs s rule: map_all.induct) (auto split: prod.splits if_splits)
qed

lemma map_all_success:
  assumes "\<forall>o1 n s. fst (ZeroBacking ops o1 n s)" and "\<forall>v n o1 m s. fst (MapBacking ops v n o1 m s)"
  shows "\<exists>s'. map_all ops z ms bs s = Some (True, s')"
  using assms
proof (induction ops z ms bs s rule: map_all.induct)
  case (2 ops z ms b bs s)
  obtain s1 where z: "(if z then ZeroBacking ops (fb_backing_offset b) (fb_map_size b) s else (True, s)) = (True, s1)"
    using "2.prems"(1) by (cases z) (auto simp: prod_eq_iff)
  obtain s2 where p: "MapBacking ops (fb_map_vaddr b) (fb_map_size b) (fb_backing_offset b) (fb_mode b) s1 = (True, s2)"
    using "2.prems"(2) by (auto simp: prod_eq_iff)
  show ?case using "2.IH" [OF refl z [symmetric] _ refl p [symmetric] _ "2.prems"] z p by simp
qed simp

lemma sg_maps_append_disjoint: "sg_maps (fsegs (xs @ ys)) a x w \<longleftrightarrow> sg_maps (fsegs xs) a x w \<or> sg_maps (fsegs ys) a x w"
  by (simp add: sg_maps_append)

text \<open>Putting new blocks beside the old ones and sorting.\<close>

lemma insert_blocks:
  assumes "sg_ok (fsegs old)" and "sg_ok (fsegs new)" and "sg_points (fsegs old) \<inter> sg_points (fsegs new) = {}"
    and "sg_bytes (fsegs old) \<inter> sg_bytes (fsegs new) = {}"
  defines "bs \<equiv> sort_key fb_map_vaddr (old @ new)"
  shows "sg_ok (fsegs bs)" and "iv_ok sg_lo sg_hi (fsegs bs)"
    and "sg_points (fsegs bs) = sg_points (fsegs old) \<union> sg_points (fsegs new)"
    and "sg_bytes (fsegs bs) = sg_bytes (fsegs old) \<union> sg_bytes (fsegs new)"
    and "sg_total (fsegs bs) = sg_total (fsegs old) + sg_total (fsegs new)"
    and "sg_maps (fsegs bs) a x w \<longleftrightarrow> sg_maps (fsegs old) a x w \<or> sg_maps (fsegs new) a x w"
proof -
  have m: "mset (fsegs bs) = mset (fsegs (old @ new))" by (simp add: bs_def)
  note p = sg_ok_perm [OF m]
  show ok: "sg_ok (fsegs bs)" using p assms(1-4) by (simp add: sg_ok_append_sets)
  have "sorted (map fb_map_vaddr bs)" by (simp add: bs_def)
  then have "sorted (map sg_lo (fsegs bs))"
    unfolding sorted_map by (simp add: sorted_wrt_map le_u64)
  then show "iv_ok sg_lo sg_hi (fsegs bs)" by (rule sorted_apart_iv [OF ok])
  show "sg_points (fsegs bs) = sg_points (fsegs old) \<union> sg_points (fsegs new)"
    "sg_bytes (fsegs bs) = sg_bytes (fsegs old) \<union> sg_bytes (fsegs new)"
    "sg_total (fsegs bs) = sg_total (fsegs old) + sg_total (fsegs new)"
    using p by simp_all
  have "sg_maps (fsegs bs) a x w = sg_maps (fsegs (old @ new)) a x w" using p by blast
  then show "sg_maps (fsegs bs) a x w \<longleftrightarrow> sg_maps (fsegs old) a x w \<or> sg_maps (fsegs new) a x w"
    by (simp only: map_append sg_maps_append)
qed

text \<open>Adding blocks whose backing is free keeps the invariant.\<close>

lemma add_blocks_ok:
  assumes ok: "fm_ok flex fm" and new: "sg_ok (fsegs bs)" "sg_bytes (fsegs bs) \<subseteq> fr_bytes (fm_free fm)"
    and apart: "sg_points (fsegs bs) \<inter> fm_points fm = {}"
    and free: "consume_all c bs (fm_free fm) = Some free'"
    and t: "unat total' = unat (fm_allocated_total fm) + sg_total (fsegs bs)"
  defines "fm' \<equiv> fm\<lparr>fm_free := free', fm_allocated := sort_key fb_map_vaddr (fm_allocated fm @ bs),
      fm_allocated_total := total'\<rparr>"
  shows "fm_ok flex fm'" and "fm_maps fm' a x w \<longleftrightarrow> fm_maps fm a x w \<or> sg_maps (fsegs bs) a x w"
    and "fr_bytes (fm_free fm') = fr_bytes (fm_free fm) - sg_bytes (fsegs bs)"
    and "fm_points fm' = fm_points fm \<union> sg_points (fsegs bs)"
proof -
  obtain base where base: "PhysicalMemory_Size flex = Some base"
    "splits {unat base ..< unat base + unat flex} (fr_bytes (fm_free fm)) (sg_bytes (fsegs (fm_allocated fm)))"
    by (rule fm_ok_base [OF ok])
  have o: "fr_ok (fm_free fm)" "sg_ok (fsegs (fm_allocated fm))" "unat (fm_allocated_total fm) = sg_total (fsegs (fm_allocated fm))"
    using ok by (auto simp: fm_ok_def)
  have disj: "sg_bytes (fsegs (fm_allocated fm)) \<inter> sg_bytes (fsegs bs) = {}"
    using base(2) new(2) by (auto simp: splits_def)
  have ap: "fm_points fm \<inter> sg_points (fsegs bs) = {}" using apart by blast
  note ins = insert_blocks [OF o(2) new(1) ap disj]
  have f: "fr_ok free'" "fr_bytes free' = fr_bytes (fm_free fm) - sg_bytes (fsegs bs)"
    using consume_all_spec [OF o(1) new, of c] free by auto
  have "splits {unat base ..< unat base + unat flex} (fr_bytes free') (sg_bytes (fsegs (sort_key fb_map_vaddr (fm_allocated fm @ bs))))"
    unfolding ins(4) f(2) using base(2) new(2) by (auto simp: splits_def)
  then show "fm_ok flex fm'"
    unfolding fm_ok_def fm'_def using base(1) f(1) ins(1,2,5) t o(3) by simp
  show "fm_maps fm' a x w \<longleftrightarrow> fm_maps fm a x w \<or> sg_maps (fsegs bs) a x w"
    unfolding fm'_def using ins(6) by simp
  show "fm_points fm' = fm_points fm \<union> sg_points (fsegs bs)"
    unfolding fm'_def using ins(3) by simp
  show "fr_bytes (fm_free fm') = fr_bytes (fm_free fm) - sg_bytes (fsegs bs)"
    unfolding fm'_def using f(2) by simp
qed

text \<open>The hypotheses on the guest address space: never failing, or only allowed to fail to map.\<close>

definition unmaps_succeed :: "'b backing_ops \<Rightarrow> bool" where
  "unmaps_succeed ops \<longleftrightarrow> (\<forall>v n s. fst (UnmapBacking ops v n s))"

definition maps_succeed :: "'b backing_ops \<Rightarrow> bool" where
  "maps_succeed ops \<longleftrightarrow> (\<forall>o1 n s. fst (ZeroBacking ops o1 n s)) \<and> (\<forall>v n o1 m s. fst (MapBacking ops v n o1 m s))"

lemma FlexMap_spec:
  assumes ok: "fm_ok flex fm" and fit: "fits va len" and free: "fm_points fm \<inter> span_of va len = {}"
    and un: "unmaps_succeed ops"
  shows "case FlexibleMemory_Map ops flex va len prot mode gm nm (fm, s) of
      None \<Rightarrow> False
    | Some (False, fm', s') \<Rightarrow> fm' = fm \<and>
        (maps_succeed ops \<longrightarrow> len = 0 \<or> FlexibleMemory_Available flex fm < len)
    | Some (True, fm', s') \<Rightarrow> len \<noteq> 0 \<and> len \<le> FlexibleMemory_Available flex fm \<and> fm_ok flex fm' \<and>
        fm_allocated_total fm' = fm_allocated_total fm + len \<and>
        fm_points fm' = fm_points fm \<union> span_of va len \<and>
        (\<forall>a x w. \<not> in_span va len a \<longrightarrow> fm_maps fm' a x w = fm_maps fm a x w) \<and>
        (\<forall>a x w. in_span va len a \<longrightarrow> fm_maps fm' a x w \<longrightarrow>
           unat x \<in> fr_bytes (fm_free fm) \<and> w = (va, len, prot, mode, gm, CopyVirtualRangeName nm))"
proof -
  let ?proto = "\<lparr>fb_map_vaddr = 0, fb_map_size = 0, fb_backing_offset = 0, fb_host_vaddr = va,
    fb_host_size = len, fb_prot = prot, fb_mode = mode, fb_gpu_mode = gm, fb_name = CopyVirtualRangeName nm\<rparr>"
  let ?run = "FlexibleMemory_Map ops flex va len prot mode gm nm (fm, s)"
  obtain bs left where plan: "plan_blocks ?proto va len (fm_free fm) = (bs, left)"
    by (cases "plan_blocks ?proto va len (fm_free fm)")
  have fro: "fr_ok (fm_free fm)" using ok by (simp add: fm_ok_def)
  note ps = plan_blocks_spec [OF fro fit plan]
  note av = fm_ok_available [OF ok]
  show ?thesis
  proof (cases "len = 0 \<or> FlexibleMemory_Available flex fm < len")
    case True
    then show ?thesis by (simp add: FlexibleMemory_Map_def)
  next
    case False
    then have l0: "left = 0" and lenav: "len \<le> FlexibleMemory_Available flex fm"
      using ps av by (auto simp: u64_conv eq_u64)
    have new: "sg_ok (fsegs bs)" "sg_bytes (fsegs bs) \<subseteq> fr_bytes (fm_free fm)"
      "sg_points (fsegs bs) = span_of va len" "sg_total (fsegs bs) = unat len"
      "\<forall>b\<in>set bs. fb_attr b = fb_attr ?proto"
      using ps l0 by (auto simp: span_of_def)
    obtain free' where cons: "consume_all True bs (fm_free fm) = Some free'"
      using consume_all_spec [OF fro new(1,2), of True] by blast
    let ?fm = "fm\<lparr>fm_free := free', fm_allocated := sort_key fb_map_vaddr (fm_allocated fm @ bs),
      fm_allocated_total := fm_allocated_total fm + len\<rparr>"
    obtain r s' where m: "map_all ops True [] bs s = Some (r, s')"
      using map_all_total [of ops True "[]" bs s] un by (auto simp: unmaps_succeed_def)
    have run: "?run = Some (if r then (True, ?fm, s') else (False, fm, s'))"
      using False plan l0 m cons by (cases r) (simp_all add: FlexibleMemory_Map_def)
    show ?thesis
    proof (cases r)
      case False
      then have "\<not> maps_succeed ops"
        using map_all_success [of ops True "[]" bs s] m unfolding maps_succeed_def by force
      then show ?thesis using run False by simp
    next
      case True
      have "unat (fm_allocated_total fm) + unat len < 18446744073709551616"
        using lenav av unat_u64_lt [of flex] by (simp add: le_u64)
      then have t: "unat (fm_allocated_total fm + len) = unat (fm_allocated_total fm) + sg_total (fsegs bs)"
        using new(4) by (simp add: unat_plus_u64)
      have ap: "sg_points (fsegs bs) \<inter> fm_points fm = {}" using free new(3) by blast
      note add = add_blocks_ok [OF ok new(1,2) ap cons t]
      have pts: "fm_points ?fm = fm_points fm \<union> span_of va len"
        using add(4) new(3) by simp
      have inside: "unat x \<in> fr_bytes (fm_free fm) \<and> w = (va, len, prot, mode, gm, CopyVirtualRangeName nm)"
        if w: "sg_maps (fsegs bs) a x w" for a x w
      proof -
        obtain b where b: "b \<in> set bs" "sg_maps [fb_seg b] a x w"
          using w by (fastforce simp: sg_maps_def)
        then have g: "sg_good (fb_seg b)" "sg_back (fb_seg b) \<subseteq> fr_bytes (fm_free fm)"
          using new(1,2) by (auto simp: sg_ok_def sg_bytes_def)
        have "in_span (fb_map_vaddr b) (fb_map_size b) a" "x = fb_backing_offset b + (a - fb_map_vaddr b)" "w = fb_attr b"
          using b(2) unfolding fb_seg_def sg_maps_one by auto
        moreover from this have "unat x \<in> sg_back (fb_seg b)"
          using g(1) span_byte [of "fb_map_vaddr b" "fb_map_size b" a "fb_backing_offset b"] by simp
        ultimately show ?thesis using g(2) b(1) new(5) by (auto simp: fb_attr_def)
      qed
      have "\<not> sg_maps (fsegs bs) a x w" if "\<not> in_span va len a" for a x w
        using sg_maps_point [of "fsegs bs" a x w] new(3) that by (auto simp: in_span_of)
      moreover have "\<not> fm_maps fm a x w" if "in_span va len a" for a x w
        using sg_maps_point [of "fsegs (fm_allocated fm)" a x w] free that by (auto simp: in_span_of)
      ultimately have "\<forall>a x w. \<not> in_span va len a \<longrightarrow> fm_maps ?fm a x w = fm_maps fm a x w"
        "\<forall>a x w. in_span va len a \<longrightarrow> fm_maps ?fm a x w \<longrightarrow>
           unat x \<in> fr_bytes (fm_free fm) \<and> w = (va, len, prot, mode, gm, CopyVirtualRangeName nm)"
        unfolding add(2) using inside by blast+
      moreover have "len \<noteq> 0" "fm_allocated_total ?fm = fm_allocated_total fm + len" using False by simp_all
      ultimately show ?thesis
        unfolding run if_P [OF True] option.case prod.case bool.case using lenav add(1) pts by blast
    qed
  qed
qed

lemma FlexUnmap_spec:
  assumes ok: "fm_ok flex fm" and un: "unmaps_succeed ops"
  shows "case FlexibleMemory_Unmap ops va n (fm, s) of
      None \<Rightarrow> False
    | Some (None, fm', s') \<Rightarrow> fm' = fm \<and> \<not> (n \<noteq> 0 \<and> fits va n \<and> span_of va n \<subseteq> fm_points fm)
    | Some (Some g, fm', s') \<Rightarrow> n \<noteq> 0 \<and> fits va n \<and> span_of va n \<subseteq> fm_points fm \<and> fm_ok flex fm' \<and>
        (\<exists>b\<in>set (fm_allocated fm). in_span (fb_map_vaddr b) (fb_map_size b) va \<and> g = fb_gpu_mode b) \<and>
        fm_allocated_total fm' = fm_allocated_total fm - n \<and>
        fsegs (fm_allocated fm') = sg_kept va n (fsegs (fm_allocated fm)) \<and>
        fr_bytes (fm_free fm') = fr_bytes (fm_free fm) \<union> sg_bytes (sg_taken va n (fsegs (fm_allocated fm)))"
proof -
  let ?bs = "fm_allocated fm"
  have o: "fr_ok (fm_free fm)" "sg_ok (fsegs ?bs)" "iv_ok sg_lo sg_hi (fsegs ?bs)"
    "unat (fm_allocated_total fm) = sg_total (fsegs ?bs)"
    using ok by (auto simp: fm_ok_def)
  have good: "\<forall>b\<in>set ?bs. sg_good (fb_seg b)" using o(2) by (simp add: sg_ok_def)
  show ?thesis
  proof (cases "n = 0 \<or> u64_max - va < n")
    case True
    then show ?thesis using fits_u64 [of va n] by (auto simp: FlexibleMemory_Unmap_def)
  next
    case False
    then have n: "n \<noteq> 0" and fit: "fits va n" using fits_u64 [of va n] by auto
    have e: "unat (va + n) = unat va + unat n" by (rule unat_end [OF fit])
    then have lt: "unat va < unat (va + n)" using n by (simp add: neq0_u64)
    obtain f c where scan: "cover_scan (va + n) va None ?bs = (f, c)" by fastforce
    note cs = cover_scan_spec [OF o(3) good lt scan]
    have span: "{unat va ..< unat (va + n)} = span_of va n" by (simp add: span_of_def e)
    show ?thesis
    proof (cases "f = None \<or> c \<noteq> va + n")
      case True
      then have "\<not> span_of va n \<subseteq> fm_points fm" using cs span by auto
      then show ?thesis using False scan True by (auto simp: FlexibleMemory_Unmap_def)
    next
      case covered: False
      then have sub: "span_of va n \<subseteq> fm_points fm"
        and g: "\<exists>b\<in>set ?bs. f = Some (fb_gpu_mode b) \<and> in_span (fb_map_vaddr b) (fb_map_size b) va"
        using cs span by (auto simp: in_span_of)
      obtain s' where u: "UnmapBacking ops va n s = (True, s')"
        using un by (auto simp: unmaps_succeed_def prod_eq_iff)
      let ?T = "sg_taken va n (fsegs ?bs)"
      obtain rest where rm: "remove_loop va n [] ?bs (fm_free fm) 0 =
          (rest, fold (\<lambda>(s, k). AddFreeRange s k) (seg_ranges ?T) (fm_free fm), (\<Sum>(s, k)\<leftarrow>seg_ranges ?T. k))"
        and kept: "fsegs rest = sg_kept va n (fsegs ?bs)"
        using remove_loop_eq [of va n "[]" ?bs "fm_free fm" 0] by auto
      note cuts = sg_cuts_spec [OF o(2) n fit]
      have "sg_points ?T = span_of va n" using cuts sub by blast
      then have tot: "sg_total ?T = unat n"
        using sg_card [of ?T] cuts by (simp add: span_of_def)
      then have removed: "(\<Sum>(s, k)\<leftarrow>seg_ranges ?T. k) = n"
        using seg_ranges_sum [of ?T] unat_u64_lt [of n] by (simp add: eq_u64)
      have le: "\<not> fm_allocated_total fm < n" using cuts tot o(4) by (simp add: less_u64)
      have run: "FlexibleMemory_Unmap ops va n (fm, s) = Some (f, fm\<lparr>fm_allocated := rest,
          fm_free := fold (\<lambda>(s, k). AddFreeRange s k) (seg_ranges ?T) (fm_free fm),
          fm_allocated_total := fm_allocated_total fm - n\<rparr>, s')" (is "_ = Some (f, ?fm, s')")
        using False scan covered u rm removed le by (auto simp: FlexibleMemory_Unmap_def Let_def)
      have free: "fr_ok (fm_free ?fm)" "fr_bytes (fm_free ?fm) = fr_bytes (fm_free fm) \<union> sg_bytes ?T"
        using free_list.fold_give [OF o(1) seg_ranges_good [of ?T]] cuts by (simp_all add: seg_ranges_bytes)
      have ord: "iv_ok sg_lo sg_hi (fsegs rest)"
        unfolding kept using sg_kept_order [OF o(2,3) n fit] by blast
      obtain base where base: "PhysicalMemory_Size flex = Some base"
        "splits {unat base ..< unat base + unat flex} (fr_bytes (fm_free fm)) (sg_bytes (fsegs ?bs))"
        by (rule fm_ok_base [OF ok])
      have "splits {unat base ..< unat base + unat flex} (fr_bytes (fm_free ?fm)) (sg_bytes (fsegs rest))"
        unfolding free(2) kept using base(2) cuts unfolding splits_def by blast
      moreover have "unat (fm_allocated_total fm - n) = sg_total (fsegs rest)"
      proof -
        have "unat (fm_allocated_total fm - n) = unat (fm_allocated_total fm) - unat n"
          by (rule unat_minus_u64) (use le in \<open>simp add: less_u64\<close>)
        then show ?thesis unfolding kept using cuts tot o(4) by linarith
      qed
      ultimately have "fm_ok flex ?fm"
        unfolding fm_ok_def using free(1) cuts ord base(1) kept by simp
      then show ?thesis using run n fit sub g free(2) kept by auto
    qed
  qed
qed

lemma Snapshot_spec:
  assumes ok: "fm_ok flex fm"
  shows "case FlexibleMemory_Snapshot va n fm of
      None \<Rightarrow> \<not> (n \<noteq> 0 \<and> fits va n \<and> span_of va n \<subseteq> fm_points fm)
    | Some bs \<Rightarrow> n \<noteq> 0 \<and> fits va n \<and> span_of va n \<subseteq> fm_points fm \<and>
        fsegs bs = sg_taken va n (fsegs (fm_allocated fm))"
proof (cases "n = 0 \<or> u64_max - va < n")
  case True
  then show ?thesis using fits_u64 [of va n] by (auto simp: FlexibleMemory_Snapshot_def)
next
  case False
  then have n: "n \<noteq> 0" and fit: "fits va n" using fits_u64 [of va n] by auto
  have good: "\<forall>b\<in>set (fm_allocated fm). sg_good (fb_seg b)" "iv_ok sg_lo sg_hi (fsegs (fm_allocated fm))"
    using ok by (auto simp: fm_ok_def sg_ok_def)
  have "unat va < unat va + unat n" using n by (simp add: neq0_u64)
  from snapshot_scan_spec [OF good(2,1) n fit refl le_refl this disjI1 [OF refl], of "[]"] False n fit
  show ?thesis by (simp add: FlexibleMemory_Snapshot_def span_of_def split: option.splits)
qed

lemma foldl_sizes:
  assumes "unat t + sg_total (fsegs bs) < 18446744073709551616"
  shows "unat (foldl (\<lambda>t b. t + fb_map_size b) t bs) = unat t + sg_total (fsegs bs)"
  using assms
proof (induction bs arbitrary: t)
  case (Cons b bs)
  then have "unat (t + fb_map_size b) = unat t + unat (fb_map_size b)" by (intro unat_plus_u64) simp
  then show ?case using Cons.IH [of "t + fb_map_size b"] Cons.prems by simp
qed simp

lemma Restore_spec:
  assumes ok: "fm_ok flex fm" and new: "sg_ok (fsegs bs)" "sg_bytes (fsegs bs) \<subseteq> fr_bytes (fm_free fm)"
    and apart: "sg_points (fsegs bs) \<inter> fm_points fm = {}" and ne: "bs \<noteq> []" and un: "unmaps_succeed ops"
  shows "case FlexibleMemory_Restore ops bs (fm, s) of
      None \<Rightarrow> False
    | Some (False, fm', s') \<Rightarrow> fm' = fm \<and> \<not> maps_succeed ops
    | Some (True, fm', s') \<Rightarrow> fm_ok flex fm' \<and>
        (\<forall>a x w. fm_maps fm' a x w \<longleftrightarrow> fm_maps fm a x w \<or> sg_maps (fsegs bs) a x w) \<and>
        fr_bytes (fm_free fm') = fr_bytes (fm_free fm) - sg_bytes (fsegs bs) \<and>
        unat (fm_allocated_total fm') = unat (fm_allocated_total fm) + sg_total (fsegs bs)"
proof -
  have fro: "fr_ok (fm_free fm)" using ok by (simp add: fm_ok_def)
  have "block_is_free (fm_free fm) b" if "b \<in> set bs" for b
    by (rule block_is_free_if [OF fro]) (use new that in \<open>auto simp: sg_ok_def sg_bytes_def\<close>)
  then have free: "list_all (block_is_free (fm_free fm)) bs" by (simp add: list_all_iff)
  obtain free' where cons: "consume_all False bs (fm_free fm) = Some free'"
    using consume_all_spec [OF fro new, of False] by blast
  let ?t = "foldl (\<lambda>t b. t + fb_map_size b) (fm_allocated_total fm) bs"
  let ?fm = "fm\<lparr>fm_free := free', fm_allocated := sort_key fb_map_vaddr (fm_allocated fm @ bs), fm_allocated_total := ?t\<rparr>"
  have "sg_total (fsegs bs) \<le> card (fr_bytes (fm_free fm))"
    using sg_card [OF new(1)] fr_card [OF fro] card_mono [OF _ new(2)] by simp
  then have t: "unat ?t = unat (fm_allocated_total fm) + sg_total (fsegs bs)"
    using fm_ok_available [OF ok] unat_u64_lt [of flex] by (intro foldl_sizes) linarith
  obtain r s' where m: "map_all ops False [] bs s = Some (r, s')"
    using map_all_total [of ops False "[]" bs s] un by (auto simp: unmaps_succeed_def)
  have run: "FlexibleMemory_Restore ops bs (fm, s) = Some (if r then (True, ?fm, s') else (False, fm, s'))"
    using ne free m cons by (cases r) (simp_all add: FlexibleMemory_Restore_def)
  note add = add_blocks_ok [OF ok new apart cons t]
  have "\<not> r \<Longrightarrow> \<not> maps_succeed ops"
    using map_all_success [of ops False "[]" bs s] m unfolding maps_succeed_def by force
  moreover have "\<forall>a x w. fm_maps ?fm a x w \<longleftrightarrow> fm_maps fm a x w \<or> sg_maps (fsegs bs) a x w"
    using add(2) by blast
  moreover have "unat (fm_allocated_total ?fm) = unat (fm_allocated_total fm) + sg_total (fsegs bs)"
    using t by simp
  ultimately show ?thesis
    unfolding run using add(1,3) by (cases r) (simp_all only: if_True if_False option.case prod.case bool.case simp_thms)
qed

lemma FlexProtect_spec:
  fixes prot :: i32 and mode :: vmode and gm :: gpu_access
  assumes ok: "fm_ok flex fm" and n: "n \<noteq> 0" and fit: "fits va n"
  defines "fm' \<equiv> FlexibleMemory_Protect va n prot mode gm fm"
  shows "fm_ok flex fm'" and "fm_points fm' = fm_points fm"
    and "fm_maps fm' a x w \<longleftrightarrow> (\<exists>u. fm_maps fm a x u \<and>
      w = (if in_span va n a then (case u of (hv, hs, _, _, _, nm) \<Rightarrow> (hv, hs, prot, mode, gm, nm)) else u))"
    and "fm_free fm' = fm_free fm" and "fm_allocated_total fm' = fm_allocated_total fm"
proof -
  have "\<not> (n = 0 \<or> u64_max - va < n)" using n fit fits_u64 [of va n] by auto
  then have fm': "fm' = fm\<lparr>fm_allocated := concat (map (protect_flex_block va n prot mode gm) (fm_allocated fm))\<rparr>"
    by (simp add: fm'_def FlexibleMemory_Protect_def)
  have alloc: "fsegs (fm_allocated fm') =
      sg_recut (\<lambda>(hv, hs, _, _, _, nm). (hv, hs, prot, mode, gm, nm)) va n (fsegs (fm_allocated fm))"
    by (simp add: fm' protect_flex_segs)
  have o: "sg_ok (fsegs (fm_allocated fm))" using ok by (simp add: fm_ok_def)
  note r = sg_recut_spec [OF o n fit, of "\<lambda>(hv, hs, _, _, _, nm). (hv, hs, prot, mode, gm, nm)"]
  show "fm_ok flex fm'"
    using ok r unfolding fm_ok_def fm' by (simp add: protect_flex_segs split: option.splits)
  show "fm_points fm' = fm_points fm" using r by (simp add: fm' protect_flex_segs)
  show "fm_maps fm' a x w \<longleftrightarrow> (\<exists>u. fm_maps fm a x u \<and>
      w = (if in_span va n a then (case u of (hv, hs, _, _, _, nm) \<Rightarrow> (hv, hs, prot, mode, gm, nm)) else u))"
    using sg_recut_maps [OF o n fit, of "\<lambda>(hv, hs, _, _, _, nm). (hv, hs, prot, mode, gm, nm)" a x w]
    unfolding alloc .
  show "fm_free fm' = fm_free fm" "fm_allocated_total fm' = fm_allocated_total fm" by (simp_all add: fm')
qed

lemma SetVirtualRangeName_ok:
  assumes "fm_ok flex fm"
  shows "fm_ok flex (FlexibleMemory_SetVirtualRangeName va n nm fm)"
proof -
  let ?f = "\<lambda>b. if VirtualRangesOverlap va n (fb_map_vaddr b) (fb_map_size b) then b\<lparr>fb_name := CopyVirtualRangeName nm\<rparr> else b"
  have "sg_ok (fsegs (map ?f bs)) = sg_ok (fsegs bs) \<and> iv_ok sg_lo sg_hi (fsegs (map ?f bs)) = iv_ok sg_lo sg_hi (fsegs bs) \<and>
    sg_bytes (fsegs (map ?f bs)) = sg_bytes (fsegs bs) \<and> sg_points (fsegs (map ?f bs)) = sg_points (fsegs bs) \<and>
    sg_total (fsegs (map ?f bs)) = sg_total (fsegs bs)" for bs
    by (induction bs) (auto simp: sg_ok_Cons_sets iv_ok_Cons)
  note same = this [of "fm_allocated fm"]
  let ?fm = "FlexibleMemory_SetVirtualRangeName va n nm fm"
  have fm: "fm_allocated ?fm = map ?f (fm_allocated fm)" "fm_free ?fm = fm_free fm"
    "fm_allocated_total ?fm = fm_allocated_total fm"
    by (simp_all add: FlexibleMemory_SetVirtualRangeName_def)
  show ?thesis using assms unfolding fm_ok_def fm by (simp only: same)
qed

subsection \<open>Reachable states\<close>

text \<open>
  One rule per operation. The caller (\<open>VirtualRanges\<close>) only maps addresses that are not yet
  backed, and restores a snapshot only where it was taken from, after unmapping it; failed
  operations are steps too.
\<close>

inductive fm_step :: "'b backing_ops \<Rightarrow> u64 \<Rightarrow> flexible_memory \<times> 'b \<Rightarrow> flexible_memory \<times> 'b \<Rightarrow> bool"
  for ops flex where
  map_range: "fits va len \<Longrightarrow> fm_points (fst st) \<inter> span_of va len = {} \<Longrightarrow>
    FlexibleMemory_Map ops flex va len prot mode gm nm st = Some (r, st') \<Longrightarrow> fm_step ops flex st st'"
| unmap: "FlexibleMemory_Unmap ops va n st = Some (r, st') \<Longrightarrow> fm_step ops flex st st'"
| restore: "sg_ok (fsegs bs) \<Longrightarrow> sg_bytes (fsegs bs) \<subseteq> fr_bytes (fm_free (fst st)) \<Longrightarrow>
    sg_points (fsegs bs) \<inter> fm_points (fst st) = {} \<Longrightarrow>
    FlexibleMemory_Restore ops bs st = Some (r, st') \<Longrightarrow> fm_step ops flex st st'"
| protect: "fm_step ops flex (fm, s) (FlexibleMemory_Protect va n prot mode gm fm, s)"
| name: "fm_step ops flex (fm, s) (FlexibleMemory_SetVirtualRangeName va n nm fm, s)"

lemma fm_ok_step:
  assumes un: "unmaps_succeed ops" and "fm_step ops flex st st'" and "fm_ok flex (fst st)"
  shows "fm_ok flex (fst st')"
  using assms(2,3)
proof (induction rule: fm_step.induct)
  case (map_range va len st prot mode gm nm r st')
  then show ?case
    using FlexMap_spec [OF map_range.prems map_range.hyps(1,2) un, of prot mode gm nm "snd st"]
    by (cases r; cases st') auto
next
  case (unmap va n st r st')
  then show ?case
    using FlexUnmap_spec [OF unmap.prems un, where va = va and n = n and s = "snd st"] by (cases r; cases st') auto
next
  case (restore bs st r st')
  show ?case
  proof (cases "bs = []")
    case True
    then show ?thesis using restore by (auto simp: FlexibleMemory_Restore_def split: prod.splits)
  next
    case False
    then show ?thesis
      using Restore_spec [OF restore.prems restore.hyps(1-3) False un, of "snd st"] restore.hyps(4) restore.prems
      by (cases r; cases st') auto
  qed
next
  case (protect fm s va n prot mode gm)
  show ?case
  proof (cases "n = 0 \<or> u64_max - va < n")
    case True
    then show ?thesis using protect by (simp add: FlexibleMemory_Protect_def)
  next
    case False
    then show ?thesis using FlexProtect_spec(1) [of flex fm n va] protect fits_u64 [of va n] by simp
  qed
next
  case (name fm s va n nm)
  then show ?case by (simp add: SetVirtualRangeName_ok)
qed

lemma fm_ok_init:
  assumes "FlexibleMemory_init flex = Some fm" and "flex \<noteq> 0"
  shows "fm_ok flex fm"
proof -
  obtain base where base: "PhysicalMemory_Size flex = Some base"
    and fm: "fm = \<lparr>fm_allocated = [], fm_free = [(base, flex)], fm_allocated_total = 0\<rparr>"
    using assms(1) by (auto simp: FlexibleMemory_init_def om_emplace_def om_find_def om_lower_def)
  have "unat base + unat flex = 14495514624"
    using base by (auto simp: PhysicalMemory_Size_def PhysicalMemory_TotalSize_def less_u64 le_u64 unat_minus_u64 split: if_splits)
  then show ?thesis
    using assms(2) base by (simp add: fm fm_ok_def fr_ok_Cons neq0_u64 fits_def splits_def span_of_def)
qed

lemma fm_ok_reachable:
  assumes "FlexibleMemory_init flex = Some fm0" and "flex \<noteq> 0" and "unmaps_succeed ops"
    and "(fm_step ops flex)\<^sup>*\<^sup>* (fm0, s0) (fm, s)"
  shows "fm_ok flex fm"
proof -
  have "fm_ok flex (fst (fm, s))"
    using assms(4)
  proof (induction rule: rtranclp_induct)
    case base
    then show ?case by (simp add: fm_ok_init [OF assms(1,2)])
  next
    case (step y z)
    then show ?case by (blast intro: fm_ok_step [OF assms(3)])
  qed
  then show ?thesis by simp
qed

subsection \<open>Properties\<close>

definition demo_ops :: "nat backing_ops" where
  "demo_ops = \<lparr>ZeroBacking = (\<lambda>off n s. (True, s)), MapBacking = (\<lambda>v n off m s. (True, Suc s)),
     UnmapBacking = (\<lambda>v n s. (True, s))\<rparr>"

lemma demo_ops_ok: "unmaps_succeed demo_ops" "maps_succeed demo_ops"
  by (simp_all add: demo_ops_def unmaps_succeed_def maps_succeed_def)

definition demo_fm :: flexible_memory where
  "demo_fm = \<lparr>fm_allocated = [], fm_free = [(14025752576, 469762048)], fm_allocated_total = 0\<rparr>"

lemma demo_fm_init: "FlexibleMemory_init 469762048 = Some demo_fm"
  by (simp add: FlexibleMemory_init_def PhysicalMemory_Size_def PhysicalMemory_TotalSize_def demo_fm_def
      om_emplace_def om_find_def om_lower_def)

lemma demo_fm_ok: "fm_ok 469762048 demo_fm"
  by (rule fm_ok_init [OF demo_fm_init]) simp


definition demo_fm1 :: flexible_memory where
  "demo_fm1 = \<lparr>fm_allocated = [\<lparr>fb_map_vaddr = 8589934592, fb_map_size = 16384, fb_backing_offset = 14025752576,
       fb_host_vaddr = 8589934592, fb_host_size = 16384, fb_prot = 3, fb_mode = ReadWrite, fb_gpu_mode = GpuRead,
       fb_name = ''heap''\<rparr>],
     fm_free = [(14025768960, 469745664)], fm_allocated_total = 16384\<rparr>"

lemma demo_fm1_ok: "fm_ok 469762048 demo_fm1"
proof -
  have "splits {14025752576 ..< 14025752576 + 469762048} (fr_bytes (fm_free demo_fm1)) (sg_bytes (fsegs (fm_allocated demo_fm1)))"
    by (auto simp: splits_def demo_fm1_def span_of_def)
  then show ?thesis
    by (simp add: fm_ok_def PhysicalMemory_Size_def PhysicalMemory_TotalSize_def demo_fm1_def fr_ok_Cons
        sg_ok_Cons iv_ok_Cons fits_def)
qed

lemma demo_fm1_points: "fm_points demo_fm1 = span_of 8589934592 16384"
  by (simp add: demo_fm1_def)








end
