(* ===== verification/PooledMemory.thy ===== *)
theory PooledMemory
  imports FlexibleMemory
begin

text \<open>
  Pooled memory: \<open>class PooledMemory\<close> of \<open>src/src/kernel/memory.cpp\<close>. Expansions are ranges of
  direct memory given to the pool; the pool hands out their bytes, in address order, to back
  virtual addresses. The free ranges, the expansions and the mappings are vectors. Every
  operation takes the class's mutex and is one step.
\<close>

subsection \<open>State\<close>

record pool_mapping =
  pl_vaddr :: u64
  pl_size :: u64
  pl_phys_addr :: u64
  pl_gpu_mode :: gpu_access

record pooled_memory =
  pl_free :: free_ranges
  pl_expansions :: "(u64 \<times> u64) list"
  pl_mappings :: "pool_mapping list"

definition PooledMemory_init :: pooled_memory where
  "PooledMemory_init = \<lparr>pl_free = [], pl_expansions = [], pl_mappings = []\<rparr>"

subsection \<open>The free list\<close>

fun pool_merge :: "free_ranges \<Rightarrow> free_ranges \<Rightarrow> free_ranges" where
  "pool_merge merged [] = merged"
| "pool_merge merged (r # rs) =
     (if merged \<noteq> [] \<and> fst r \<le> fst (last merged) + snd (last merged)
      then
        let e = max (fst (last merged) + snd (last merged)) (fst r + snd r)
        in pool_merge (butlast merged @ [(fst (last merged), e - fst (last merged))]) rs
      else pool_merge (merged @ [r]) rs)"

definition AddFreeUnlocked :: "u64 \<Rightarrow> u64 \<Rightarrow> free_ranges \<Rightarrow> free_ranges" where
  "AddFreeUnlocked start n fs = (if n = 0 then fs else pool_merge [] (sort_key fst (fs @ [(start, n)])))"

definition PooledMemory_Expand :: "u64 \<Rightarrow> u64 \<Rightarrow> pooled_memory \<Rightarrow> pooled_memory" where
  "PooledMemory_Expand phys n pl =
     pl\<lparr>pl_expansions := pl_expansions pl @ [(phys, n)], pl_free := AddFreeUnlocked phys n (pl_free pl)\<rparr>"

text \<open>\<open>std::find_if\<close> and \<open>erase\<close> of the element found.\<close>

definition PooledMemory_ReleaseExpansion :: "u64 \<Rightarrow> u64 \<Rightarrow> pooled_memory \<Rightarrow> bool \<times> pooled_memory" where
  "PooledMemory_ReleaseExpansion phys n pl =
     (case find (\<lambda>r. fst r = phys \<and> snd r = n) (pl_expansions pl) of
        None \<Rightarrow> (False, pl)
      | Some expansion \<Rightarrow>
          if list_ex (\<lambda>m. VirtualRangesOverlap phys n (pl_phys_addr m) (pl_size m)) (pl_mappings pl)
          then (False, pl)
          else
            (case find (\<lambda>r. fst r \<le> phys \<and> phys + n \<le> fst r + snd r) (pl_free pl) of
               None \<Rightarrow> (False, pl)
             | Some old \<Rightarrow>
                 let old_end = fst old + snd old;
                     left_size = phys - fst old;
                     right_size = old_end - (phys + n);
                     free = remove1 old (pl_free pl) @
                       (if left_size \<noteq> 0 then [(fst old, left_size)] else []) @
                       (if right_size \<noteq> 0 then [(phys + n, right_size)] else [])
                 in (True, pl\<lparr>pl_free := sort_key fst free, pl_expansions := remove1 expansion (pl_expansions pl)\<rparr>)))"

subsection \<open>Allocating\<close>

text \<open>One pass over the free ranges: the mappings made, the ranges left, and the length still missing.\<close>

fun pool_alloc :: "gpu_access \<Rightarrow> u64 \<Rightarrow> u64 \<Rightarrow> free_ranges \<Rightarrow> pool_mapping list \<times> free_ranges \<times> u64" where
  "pool_alloc gm current remaining [] = ([], [], remaining)"
| "pool_alloc gm current remaining (r # rs) =
     (if remaining = 0 \<or> snd r = 0
      then (let (ms, fs, left) = pool_alloc gm current remaining rs in (ms, r # fs, left))
      else
        let part_size = min (snd r) remaining;
            m = \<lparr>pl_vaddr = current, pl_size = part_size, pl_phys_addr = fst r, pl_gpu_mode = gm\<rparr>;
            (ms, fs, left) = pool_alloc gm (current + part_size) (remaining - part_size) rs
        in (m # ms, (fst r + part_size, snd r - part_size) # fs, left))"

definition PooledMemory_Allocate ::
  "u64 \<Rightarrow> u64 \<Rightarrow> gpu_access \<Rightarrow> pooled_memory \<Rightarrow> pool_mapping list option \<times> pooled_memory" where
  "PooledMemory_Allocate va n gm pl =
     (if va = 0 \<or> n = 0 \<or> u64_max - va < n then (None, pl)
      else
        let (ms, fs, left) = pool_alloc gm va n (pl_free pl)
        in if left \<noteq> 0 then (None, pl)
           else (Some ms, pl\<lparr>pl_free := filter (\<lambda>r. snd r \<noteq> 0) fs, pl_mappings := pl_mappings pl @ ms\<rparr>))"

subsection \<open>Lookup\<close>

text \<open>The walk over the request; each step moves past the mapping found.\<close>

function pool_query_loop :: "pool_mapping list \<Rightarrow> u64 \<Rightarrow> u64 \<Rightarrow> pool_mapping list \<Rightarrow> pool_mapping list option" where
  "pool_query_loop ms fin current out =
     (if current < fin
      then
        (case find (\<lambda>m. pl_vaddr m \<le> current \<and> current < pl_vaddr m + pl_size m) ms of
           None \<Rightarrow> None
         | Some m \<Rightarrow>
             let part_size = min fin (pl_vaddr m + pl_size m) - current;
                 part = \<lparr>pl_vaddr = current, pl_size = part_size,
                         pl_phys_addr = pl_phys_addr m + (current - pl_vaddr m), pl_gpu_mode = pl_gpu_mode m\<rparr>
             in pool_query_loop ms fin (current + part_size) (out @ [part]))
      else Some out)"
  by pat_completeness auto
termination
proof (relation "measure (\<lambda>(ms, fin, current, out). unat fin - unat current)", simp)
  fix ms :: "pool_mapping list" and fin current m part_size and out :: "pool_mapping list" and part
  assume less: "current < fin" and found: "find (\<lambda>m. pl_vaddr m \<le> current \<and> current < pl_vaddr m + pl_size m) ms = Some m"
    and p: "part_size = min fin (pl_vaddr m + pl_size m) - current"
  have "current < pl_vaddr m + pl_size m" using found by (auto simp: find_Some_iff)
  then have "unat current < unat (current + part_size)"
    using less p by (simp add: less_u64 [symmetric] min_def)
  then show "((ms, fin, current + part_size, out @ [part]), (ms, fin, current, out))
      \<in> measure (\<lambda>(ms, fin, current, out). unat fin - unat current)"
    using less by (simp add: less_u64)
qed

declare pool_query_loop.simps [simp del]

definition PooledMemory_QueryUnlocked :: "u64 \<Rightarrow> u64 \<Rightarrow> pooled_memory \<Rightarrow> pool_mapping list option" where
  "PooledMemory_QueryUnlocked va n pl =
     (if va = 0 \<or> n = 0 \<or> u64_max - va < n then None
      else pool_query_loop (pl_mappings pl) (va + n) va [])"

definition PooledMemory_Query :: "u64 \<Rightarrow> u64 \<Rightarrow> pooled_memory \<Rightarrow> pool_mapping list option" where
  "PooledMemory_Query = PooledMemory_QueryUnlocked"

subsection \<open>Releasing\<close>

definition pool_cut :: "u64 \<Rightarrow> u64 \<Rightarrow> pool_mapping \<Rightarrow> pool_mapping list" where
  "pool_cut va fin m =
     (let mapping_end = pl_vaddr m + pl_size m;
          cut_start = max va (pl_vaddr m);
          cut_end = min fin mapping_end
      in if cut_end \<le> cut_start then [m]
         else (if pl_vaddr m < cut_start then [m\<lparr>pl_size := cut_start - pl_vaddr m\<rparr>] else []) @
              (if cut_end < mapping_end
               then [m\<lparr>pl_vaddr := cut_end, pl_size := mapping_end - cut_end,
                       pl_phys_addr := pl_phys_addr m + (cut_end - pl_vaddr m)\<rparr>] else []))"

definition PooledMemory_Release :: "u64 \<Rightarrow> u64 \<Rightarrow> pooled_memory \<Rightarrow> gpu_access option \<times> pooled_memory" where
  "PooledMemory_Release va n pl =
     (case PooledMemory_QueryUnlocked va n pl of
        None \<Rightarrow> (None, pl)
      | Some released \<Rightarrow>
          (Some (pl_gpu_mode (hd released)),
           pl\<lparr>pl_mappings := concat (map (pool_cut va (va + n)) (pl_mappings pl)),
              pl_free := fold (\<lambda>m. AddFreeUnlocked (pl_phys_addr m) (pl_size m)) released (pl_free pl)\<rparr>))"

definition PooledMemory_Available :: "pooled_memory \<Rightarrow> u64" where
  "PooledMemory_Available pl = foldl (\<lambda>t r. t + snd r) 0 (pl_free pl)"

definition PooledMemory_GetMappings :: "pooled_memory \<Rightarrow> pool_mapping list" where
  "PooledMemory_GetMappings = pl_mappings"

subsection \<open>Unmapping the host pages of a list of mappings, or none of them\<close>

fun remap_all :: "'b backing_ops \<Rightarrow> vmode \<Rightarrow> pool_mapping list \<Rightarrow> 'b \<Rightarrow> 'b option" where
  "remap_all ops mode [] s = Some s"
| "remap_all ops mode (m # ms) s =
     (let (restored, s') = MapBacking ops (pl_vaddr m) (pl_size m) (pl_phys_addr m) mode s
      in if restored then remap_all ops mode ms s' else None)"

fun unmap_pooled_loop :: "'b backing_ops \<Rightarrow> vmode \<Rightarrow> pool_mapping list \<Rightarrow> pool_mapping list \<Rightarrow> 'b \<Rightarrow> (bool \<times> 'b) option" where
  "unmap_pooled_loop ops mode removed [] s = Some (True, s)"
| "unmap_pooled_loop ops mode removed (m # ms) s =
     (let (unmapped, s') = UnmapBacking ops (pl_vaddr m) (pl_size m) s
      in if \<not> unmapped then map_option (Pair False) (remap_all ops mode (rev removed) s')
         else unmap_pooled_loop ops mode (removed @ [m]) ms s')"

definition UnmapPooledBackingTransactional ::
  "'b backing_ops \<Rightarrow> pool_mapping list \<Rightarrow> vmode \<Rightarrow> 'b \<Rightarrow> (bool \<times> 'b) option" where
  "UnmapPooledBackingTransactional ops ms mode s = unmap_pooled_loop ops mode [] ms s"

subsection \<open>Adding a range merges it\<close>

lemma pool_merge_spec:
  assumes "fr_ok merged" and "\<forall>r\<in>set rs. 0 < unat (snd r) \<and> fits (fst r) (snd r)"
    and "sorted (map flo rs)" and "\<forall>m\<in>set merged. \<forall>r\<in>set rs. flo m \<le> flo r"
  shows "fr_ok (pool_merge merged rs) \<and> fr_bytes (pool_merge merged rs) = fr_bytes merged \<union> (\<Union>r\<in>set rs. span_of (fst r) (snd r))"
  using assms
proof (induction merged rs rule: pool_merge.induct)
  case (2 merged r rs)
  have r: "0 < unat (snd r)" "fits (fst r) (snd r)" and re: "unat (fst r + snd r) = fhi r"
    using "2.prems"(2) by (auto simp: unat_end)
  show ?case
  proof (cases "merged \<noteq> [] \<and> fst r \<le> fst (last merged) + snd (last merged)")
    case True
    define l where "l = last merged"
    have mg: "merged = butlast merged @ [l]" using True by (simp add: l_def)
    have ok: "fr_ok (butlast merged)" "\<forall>q\<in>set (butlast merged). fhi q < flo l" "0 < unat (snd l)" "fits (fst l) (snd l)"
      using "2.prems"(1) by (subst (asm) mg, auto simp: fr_ok_append fr_ok_Cons)+
    have le: "unat (fst l + snd l) = fhi l" using ok(4) by (rule unat_end)
    have touch: "flo r \<le> fhi l" using True le by (simp add: l_def [symmetric] le_u64)
    have lr: "flo l \<le> flo r" using "2.prems"(4) True by (simp add: l_def)
    let ?e = "max (fst l + snd l) (fst r + snd r)"
    have e: "unat ?e = max (fhi l) (fhi r)" by (simp add: unat_max_u64 le re)
    then have n: "unat (?e - fst l) = max (fhi l) (fhi r) - flo l" by (simp add: unat_minus_u64)
    let ?m = "butlast merged @ [(fst l, ?e - fst l)]"
    have hi: "flo l + unat (?e - fst l) = max (fhi l) (fhi r)" using n by simp
    have "fits (fst l) (?e - fst l)" unfolding fits_def hi using e unat_u64_lt [of ?e] by simp
    then have m: "fr_ok ?m" using ok r n by (auto simp: fr_ok_append fr_ok_Cons)
    have b: "fr_bytes ?m = fr_bytes merged \<union> span_of (fst r) (snd r)"
      using touch lr hi by (subst (2) mg) (auto simp: span_of_def)
    have "fr_ok (pool_merge ?m rs) \<and> fr_bytes (pool_merge ?m rs) = fr_bytes ?m \<union> (\<Union>r\<in>set rs. span_of (fst r) (snd r))"
    proof (rule "2.IH"(1) [OF True refl, folded l_def])
      show "fr_ok ?m" by (rule m)
      have "\<forall>q\<in>set (butlast merged). \<forall>r\<in>set rs. flo q \<le> flo r"
        using "2.prems"(4) by (auto dest: in_set_butlastD)
      then show "\<forall>m\<in>set ?m. \<forall>r\<in>set rs. flo m \<le> flo r" using "2.prems"(3) lr by auto
    qed (use "2.prems" in auto)
    moreover have "pool_merge merged (r # rs) = pool_merge ?m rs"
      using True by (simp add: Let_def l_def)
    ultimately show ?thesis using b by (auto simp del: pool_merge.simps)
  next
    case False
    have "\<forall>q\<in>set merged. fhi q < flo r"
    proof (cases "merged = []")
      case ne: False
      define l where "l = last merged"
      have mg: "merged = butlast merged @ [l]" using ne by (simp add: l_def)
      have ok: "\<forall>q\<in>set (butlast merged). fhi q < flo l" "fits (fst l) (snd l)"
        using "2.prems"(1) by (subst (asm) mg, auto simp: fr_ok_append fr_ok_Cons)+
      have "fhi l < flo r" using False ne ok(2) by (simp add: l_def le_u64 unat_end)
      then show ?thesis using ok(1) by (subst mg) force
    qed simp
    then have "fr_ok (merged @ [r])" using "2.prems"(1) r by (auto simp: fr_ok_append fr_ok_Cons)
    then show ?thesis using "2.IH"(2) [OF False] "2.prems" False by auto
  qed
qed simp

lemma AddFreeUnlocked_spec:
  assumes "fr_ok fs" and "0 < unat n" and "fits s n"
  shows "fr_ok (AddFreeUnlocked s n fs) \<and> fr_bytes (AddFreeUnlocked s n fs) = fr_bytes fs \<union> span_of s n"
proof -
  let ?rs = "sort_key fst (fs @ [(s, n)])"
  have "sorted (map fst ?rs)" by (rule sorted_sort_key)
  then have "sorted (map flo ?rs)" by (simp add: sorted_map le_u64)
  moreover have "\<forall>r\<in>set ?rs. 0 < unat (snd r) \<and> fits (fst r) (snd r)"
    using assms by (auto simp: fr_ok_def)
  ultimately have "fr_ok (pool_merge [] ?rs) \<and> fr_bytes (pool_merge [] ?rs) = (\<Union>r\<in>set ?rs. span_of (fst r) (snd r))"
    using pool_merge_spec [of "[]" ?rs] by simp
  moreover have "n \<noteq> 0" using assms(2) by (simp add: neq0_u64)
  ultimately show ?thesis
    by (auto simp: AddFreeUnlocked_def fr_bytes_def iv_pts_def span_of_def simp del: sort_key_simps)
qed

interpretation pool_free_list: byte_store fr_ok fr_bytes AddFreeUnlocked
  by unfold_locales (simp_all add: AddFreeUnlocked_spec)

end
