(* ===== verification/PooledMemoryProps.thy ===== *)
theory PooledMemoryProps
  imports PooledMemory FlexibleMemoryProps
begin

text \<open>
  What the operations of \<open>PooledMemory\<close> do to the addresses it backs, the partition of the
  expansions into free and mapped bytes, and its properties. Mappings are read as segments.
\<close>

subsection \<open>Mappings as segments\<close>

definition pl_seg :: "pool_mapping \<Rightarrow> gpu_access seg" where
  "pl_seg m = (pl_vaddr m, pl_size m, pl_phys_addr m, pl_gpu_mode m)"

abbreviation psegs :: "pool_mapping list \<Rightarrow> gpu_access seg list" where
  "psegs ms \<equiv> map pl_seg ms"

lemma pl_seg_sel [simp]:
  "sg_lo (pl_seg b) = unat (pl_vaddr b)" "sg_hi (pl_seg b) = unat (pl_vaddr b) + unat (pl_size b)"
  "sg_len (pl_seg b) = unat (pl_size b)"
  "sg_vpts (pl_seg b) = span_of (pl_vaddr b) (pl_size b)"
  "sg_back (pl_seg b) = span_of (pl_phys_addr b) (pl_size b)"
  "sg_good (pl_seg b) \<longleftrightarrow> pl_size b \<noteq> 0 \<and> fits (pl_vaddr b) (pl_size b) \<and>
     fits (pl_phys_addr b) (pl_size b)"
  by (simp_all add: pl_seg_def)

abbreviation pl_maps :: "pooled_memory \<Rightarrow> u64 \<Rightarrow> u64 \<Rightarrow> gpu_access \<Rightarrow> bool" where
  "pl_maps pl \<equiv> sg_maps (psegs (pl_mappings pl))"

abbreviation pl_points :: "pooled_memory \<Rightarrow> nat set" where
  "pl_points pl \<equiv> sg_points (psegs (pl_mappings pl))"

lemma sg_overlap_ends:
  assumes "sg_good (lo, len, off, w)" and "n \<noteq> 0" and "fits va n"
  shows "min (va + n) (lo + len) \<le> max va lo \<longleftrightarrow> \<not> VirtualRangesOverlap va n lo len"
proof -
  have e: "unat (va + n) = unat va + unat n" "unat (lo + len) = unat lo + unat len"
    using assms unat_end by auto
  have "0 < unat n" "0 < unat len" using assms by (auto simp: neq0_u64)
  then show ?thesis
    unfolding sg_overlap [OF assms] le_u64 unat_max_u64 unat_min_u64 e by linarith
qed

lemma pool_cut_seg:
  assumes "sg_good (pl_seg m)" and "n \<noteq> 0" and "fits va n"
  shows "psegs (pool_cut va (va + n) m) = (case sg_cut va n (pl_seg m) of (L, M, R) \<Rightarrow> L @ R)"
  using sg_overlap_ends [OF assms(1) [unfolded pl_seg_def] assms(2,3)]
  by (simp add: pool_cut_def sg_cut_def pl_seg_def Let_def add_diff_eq)

lemma pool_cut_segs:
  assumes "\<forall>m\<in>set ms. sg_good (pl_seg m)" and "n \<noteq> 0" and "fits va n"
  shows "psegs (concat (map (pool_cut va (va + n)) ms)) = sg_kept va n (psegs ms)"
  using assms(1) by (induction ms) (simp_all add: pool_cut_seg [OF _ assms(2,3)])

subsection \<open>The walk over a request\<close>

lemma sg_maps_elem: "r \<in> set rs \<Longrightarrow> sg_maps [r] a x w \<Longrightarrow> sg_maps rs a x w"
  unfolding sg_maps_def by force

lemma sg_point_word:
  assumes "sg_ok rs" and "k \<in> sg_points rs"
  obtains a :: u64 where "unat a = k" "unat a \<in> sg_points rs"
proof -
  obtain q where q: "q \<in> set rs" "k \<in> sg_vpts q" using assms(2) unfolding sg_points_def by blast
  then have "sg_good q" using assms(1) by (simp add: sg_ok_def)
  then have "k < 18446744073709551616" using q(2) by (cases q) (auto simp: span_of_def fits_def)
  then have "unat (of_nat k :: u64) = k" by (simp add: unat_of_nat take_bit_nat_eq_self)
  then show thesis using that assms(2) by metis
qed

lemma pool_query_loop_spec:
  assumes "sg_ok (psegs ms)" and "unat cur \<le> unat fin"
  shows "case pool_query_loop ms fin cur out of
      None \<Rightarrow> \<not> {unat cur ..< unat fin} \<subseteq> sg_points (psegs ms)
    | Some ps \<Rightarrow> {unat cur ..< unat fin} \<subseteq> sg_points (psegs ms) \<and>
        (\<exists>rest. ps = out @ rest \<and> sg_ok (psegs rest) \<and> (cur < fin \<longrightarrow> rest \<noteq> [] \<and> pl_vaddr (hd rest) = cur) \<and>
          (\<forall>a x w. sg_maps (psegs rest) a x w \<longleftrightarrow>
             sg_maps (psegs ms) a x w \<and> unat cur \<le> unat a \<and> unat a < unat fin))"
  using assms
proof (induction ms fin cur out rule: pool_query_loop.induct)
  case (1 ms fin cur out)
  let ?S = "psegs ms"
  note ok = "1.prems"(1)
  show ?case
  proof (cases "cur < fin")
    case False
    then have "{unat cur ..< unat fin} = {}" by (simp add: less_u64)
    then show ?thesis using False by (auto simp: pool_query_loop.simps [of ms fin cur out] less_u64)
  next
    case True
    let ?P = "\<lambda>m. pl_vaddr m \<le> cur \<and> cur < pl_vaddr m + pl_size m"
    have good: "sg_good (pl_seg m)" if "m \<in> set ms" for m using ok that by (simp add: sg_ok_def)
    have e: "unat (pl_vaddr m + pl_size m) = unat (pl_vaddr m) + unat (pl_size m)" if "m \<in> set ms" for m
      using good [OF that] by (simp add: unat_end)
    show ?thesis
    proof (cases "find ?P ms")
      case None
      then have "\<forall>m\<in>set ms. \<not> ?P m" by (auto simp: find_None_iff)
      then have "unat cur \<notin> sg_points ?S" using e by (auto simp: sg_points_def span_of_def le_u64 less_u64)
      then show ?thesis using None True by (auto simp: pool_query_loop.simps [of ms fin cur out] less_u64)
    next
      case (Some m)
      then have m: "m \<in> set ms" "?P m" by (auto simp: find_Some_iff)
      define pe where "pe = min fin (pl_vaddr m + pl_size m)"
      have pe: "unat pe = min (unat fin) (unat (pl_vaddr m) + unat (pl_size m))"
        by (simp add: pe_def unat_min_u64 e [OF m(1)])
      have r: "unat (pl_vaddr m) \<le> unat cur" "unat cur < unat pe" "unat pe \<le> unat (pl_vaddr m) + unat (pl_size m)"
        using m(2) True pe e [OF m(1)] by (auto simp: le_u64 less_u64)
      let ?p = "\<lparr>pl_vaddr = cur, pl_size = pe - cur, pl_phys_addr = pl_phys_addr m + (cur - pl_vaddr m), pl_gpu_mode = pl_gpu_mode m\<rparr>"
      have run: "pool_query_loop ms fin cur out = pool_query_loop ms fin pe (out @ [?p])"
        using True Some by (simp add: pool_query_loop.simps [of ms fin cur out] Let_def pe_def)
      have IH: "case pool_query_loop ms fin pe (out @ [?p]) of
          None \<Rightarrow> \<not> {unat pe ..< unat fin} \<subseteq> sg_points ?S
        | Some ps \<Rightarrow> {unat pe ..< unat fin} \<subseteq> sg_points ?S \<and>
            (\<exists>rest. ps = (out @ [?p]) @ rest \<and> sg_ok (psegs rest) \<and> (pe < fin \<longrightarrow> rest \<noteq> [] \<and> pl_vaddr (hd rest) = pe) \<and>
              (\<forall>a x w. sg_maps (psegs rest) a x w \<longleftrightarrow> sg_maps ?S a x w \<and> unat pe \<le> unat a \<and> unat a < unat fin))"
      proof -
        have adv: "cur + (pe - cur) = pe" and le: "unat pe \<le> unat fin" using pe by simp_all
        show ?thesis using "1.IH" [OF True Some refl refl ok, folded pe_def, unfolded adv, OF le] .
      qed
      have seg: "pl_seg ?p = sg_part (pl_seg m) cur pe" by (simp add: pl_seg_def sg_part_def add_diff_eq)
      note part = sg_part_spec [OF good [OF m(1), unfolded pl_seg_def] r, folded pl_seg_def, folded seg]
      have only: "sg_maps [pl_seg m] a x w \<longleftrightarrow> sg_maps ?S a x w" if "unat cur \<le> unat a" "unat a < unat pe" for a x w
      proof
        assume "sg_maps ?S a x w"
        then obtain q where q: "q \<in> set ?S" "unat a \<in> sg_vpts q" "sg_maps [q] a x w" by (rule sg_maps_byte [OF ok])
        have "unat a \<in> sg_vpts (pl_seg m)" using that r by (simp add: span_of_def)
        then have "q = pl_seg m" using sg_apart_elem [OF ok q(1), of "pl_seg m"] q(2) m(1) by auto
        then show "sg_maps [pl_seg m] a x w" using q(3) by simp
      qed (use m(1) in \<open>auto elim: sg_maps_elem [rotated]\<close>)
      have cover: "{unat cur ..< unat fin} \<subseteq> sg_points ?S \<longleftrightarrow> {unat pe ..< unat fin} \<subseteq> sg_points ?S"
      proof -
        have "sg_vpts (pl_seg m) \<subseteq> sg_points ?S" using m(1) by (auto simp: sg_points_def)
        moreover have "{unat cur ..< unat pe} \<subseteq> sg_vpts (pl_seg m)"
          unfolding pl_seg_sel span_of_def by (rule ivl_subset [THEN iffD2]) (use r in blast)
        ultimately have "{unat cur ..< unat pe} \<subseteq> sg_points ?S" by blast
        moreover have "{unat cur ..< unat fin} = {unat cur ..< unat pe} \<union> {unat pe ..< unat fin}"
          by (rule ivl_disj_un_two(3) [symmetric]) (use r pe in simp_all)
        ultimately show ?thesis by blast
      qed
      have grow: "sg_ok (psegs (?p # rest)) \<and> (\<forall>a x w. sg_maps (psegs (?p # rest)) a x w \<longleftrightarrow>
          sg_maps ?S a x w \<and> unat cur \<le> unat a \<and> unat a < unat fin)"
        if rest: "sg_ok (psegs rest)" "\<forall>a x w. sg_maps (psegs rest) a x w \<longleftrightarrow> sg_maps ?S a x w \<and> unat pe \<le> unat a \<and> unat a < unat fin"
        for rest
      proof -
        have one: "sg_maps [pl_seg ?p] a x w \<longleftrightarrow> sg_maps ?S a x w \<and> unat cur \<le> unat a \<and> unat a < unat pe" for a x w
          using part(4) only by blast
        have ok1: "sg_ok [pl_seg ?p]" using part(1) by (simp add: sg_ok_Cons)
        have "sg_points [pl_seg ?p] \<inter> sg_points (psegs rest) = {}"
        proof -
          have "unat pe \<le> k" if k: "k \<in> sg_points (psegs rest)" for k
          proof -
            obtain a :: u64 where a: "unat a = k" "unat a \<in> sg_points (psegs rest)"
              by (rule sg_point_word [OF rest(1) k])
            then show ?thesis using rest(2) a(1) unfolding sg_point_maps by blast
          qed
          then show ?thesis using part(2) by (fastforce simp: seg)
        qed
        moreover have "sg_bytes [pl_seg ?p] \<inter> sg_bytes (psegs rest) = {}"
        proof -
          have "False" if k: "k \<in> sg_bytes [pl_seg ?p]" "k \<in> sg_bytes (psegs rest)" for k
          proof -
            obtain a x w where a: "sg_maps [pl_seg ?p] a x w" "k = unat x" using k(1) sg_byte_maps [OF ok1] by blast
            obtain b y v where b: "sg_maps (psegs rest) b y v" "k = unat y" using k(2) sg_byte_maps [OF rest(1)] by blast
            have "x = y" using a(2) b(2) by (simp add: eq_u64)
            then have "a = b" using sg_maps_inj [OF ok, of a x w b v] a(1) b(1) one rest(2) by blast
            then show False using a(1) b(1) one rest(2) by (meson not_less)
          qed
          then show ?thesis by blast
        qed
        ultimately have "sg_ok (psegs (?p # rest))"
          using ok1 rest(1) sg_ok_append_sets [of "[pl_seg ?p]" "psegs rest"] by simp
        moreover have "sg_maps (psegs (?p # rest)) a x w \<longleftrightarrow> sg_maps ?S a x w \<and> unat cur \<le> unat a \<and> unat a < unat fin" for a x w
        proof -
          have "unat pe \<le> unat fin" using pe by simp
          then have "unat cur \<le> unat a \<and> unat a < unat pe \<or> unat pe \<le> unat a \<and> unat a < unat fin \<longleftrightarrow>
              unat cur \<le> unat a \<and> unat a < unat fin"
            using r(2) by linarith
          then show ?thesis unfolding list.map sg_maps_Cons [of _ "psegs rest"] one using rest(2) by blast
        qed
        ultimately show ?thesis by blast
      qed
      show ?thesis
      proof (cases "pool_query_loop ms fin pe (out @ [?p])")
        case None
        then show ?thesis using IH run cover by simp
      next
        case ps: (Some ps)
        then obtain rest where rest: "ps = out @ ?p # rest" "sg_ok (psegs rest)"
          "\<forall>a x w. sg_maps (psegs rest) a x w \<longleftrightarrow> sg_maps ?S a x w \<and> unat pe \<le> unat a \<and> unat a < unat fin"
          "{unat pe ..< unat fin} \<subseteq> sg_points ?S"
          using IH by auto
        show ?thesis
          unfolding run ps option.case using rest(1,4) cover grow [OF rest(2,3)]
          by (intro conjI exI [of _ "?p # rest"]) (blast | simp)+
      qed
    qed
  qed
qed

lemma PoolQuery_spec:
  assumes ok: "sg_ok (psegs (pl_mappings pl))"
  shows "case PooledMemory_QueryUnlocked va n pl of
      None \<Rightarrow> \<not> (va \<noteq> 0 \<and> n \<noteq> 0 \<and> fits va n \<and> span_of va n \<subseteq> pl_points pl)
    | Some ps \<Rightarrow> va \<noteq> 0 \<and> n \<noteq> 0 \<and> fits va n \<and> span_of va n \<subseteq> pl_points pl \<and>
        ps \<noteq> [] \<and> pl_vaddr (hd ps) = va \<and> sg_ok (psegs ps) \<and>
        (\<forall>a x w. sg_maps (psegs ps) a x w \<longleftrightarrow> pl_maps pl a x w \<and> in_span va n a)"
proof (cases "va = 0 \<or> n = 0 \<or> u64_max - va < n")
  case True
  then show ?thesis using fits_u64 [of va n] by (auto simp: PooledMemory_QueryUnlocked_def)
next
  case False
  then have n: "n \<noteq> 0" and va: "va \<noteq> 0" and fit: "fits va n" using fits_u64 [of va n] by auto
  have e: "unat (va + n) = unat va + unat n" by (rule unat_end [OF fit])
  have lt: "va < va + n" using e n by (simp add: less_u64 neq0_u64)
  have "unat va \<le> unat (va + n)" using e by simp
  note q = pool_query_loop_spec [OF ok this, of "[]"]
  have run: "PooledMemory_QueryUnlocked va n pl = pool_query_loop (pl_mappings pl) (va + n) va []"
    using False by (simp add: PooledMemory_QueryUnlocked_def)
  have sp: "{unat va ..< unat (va + n)} = span_of va n" by (simp add: span_of_def e)
  show ?thesis
  proof (cases "pool_query_loop (pl_mappings pl) (va + n) va []")
    case None
    then show ?thesis using q run sp by simp
  next
    case (Some ps)
    note q' = q [unfolded Some option.case append_Nil e, folded span_of_def]
    then have "\<forall>a x w. sg_maps (psegs ps) a x w \<longleftrightarrow> pl_maps pl a x w \<and> in_span va n a"
      unfolding in_span_def by blast
    then show ?thesis unfolding run Some option.case using q' lt n va fit by blast
  qed
qed

lemma query_segs:
  assumes ok: "sg_ok (psegs (pl_mappings pl))" and q: "PooledMemory_QueryUnlocked va n pl = Some ps"
  shows "n \<noteq> 0 \<and> fits va n \<and> sg_ok (psegs ps) \<and> sg_bytes (psegs ps) = sg_bytes (sg_taken va n (psegs (pl_mappings pl)))"
proof -
  note s = PoolQuery_spec [OF ok, where va = va and n = n, unfolded q option.case]
  have n: "n \<noteq> 0" "fits va n" using s by auto
  have "sg_bytes (psegs ps) = sg_bytes (sg_taken va n (psegs (pl_mappings pl)))"
    by (rule sg_bytes_eqI) (use s sg_cuts_spec [OF ok n] sg_cuts_maps [OF ok n] in auto)
  then show ?thesis using s by blast
qed

subsection \<open>Allocating from the free ranges\<close>

lemma pool_alloc_spec:
  assumes "fr_ok fs" and "fits cur rem" and "pool_alloc gm cur rem fs = (ms, fs', left)"
  shows "sg_ok (psegs ms) \<and> sg_bytes (psegs ms) \<subseteq> fr_bytes fs \<and> unat left \<le> unat rem \<and>
    sg_points (psegs ms) = {unat cur ..< unat cur + (unat rem - unat left)} \<and>
    unat left = unat rem - (\<Sum>e\<leftarrow>fs. unat (snd e)) \<and> (\<forall>m\<in>set ms. pl_gpu_mode m = gm) \<and>
    fr_ok (filter (\<lambda>r. snd r \<noteq> 0) fs') \<and> fr_bytes (filter (\<lambda>r. snd r \<noteq> 0) fs') = fr_bytes fs - sg_bytes (psegs ms) \<and>
    (\<forall>q\<in>set (filter (\<lambda>r. snd r \<noteq> 0) fs'). \<exists>r\<in>set fs. flo r \<le> flo q)"
  using assms
proof (induction gm cur rem fs arbitrary: ms fs' left rule: pool_alloc.induct)
  case (2 gm cur rem r fs)
  have f: "0 < unat (snd r)" "fits (fst r) (snd r)" "\<forall>q\<in>set fs. fhi r < flo q" "fr_ok fs"
    using "2.prems"(1) by (auto simp: fr_ok_Cons)
  have sn: "snd r \<noteq> 0" using f(1) by (simp add: neq0_u64)
  have apart: "span_of (fst r) (snd r) \<inter> fr_bytes fs = {}"
    using f(3) by (fastforce simp: fr_bytes_mem span_of_def)
  show ?case
  proof (cases "rem = 0 \<or> snd r = 0")
    case True
    then have z: "rem = 0" using sn by simp
    obtain fs1 where run: "pool_alloc gm cur rem fs = (ms, fs1, left)" "fs' = r # fs1"
      using "2.prems"(3) True by (auto split: prod.splits)
    note ih = "2.IH"(1) [OF True f(4) "2.prems"(2) run(1)]
    have far: "\<forall>q\<in>set (filter (\<lambda>r. snd r \<noteq> 0) fs1). fhi r < flo q" using ih f(3) by (meson le_trans less_le_trans)
    have b: "sg_bytes (psegs ms) \<subseteq> fr_bytes fs" using ih by blast
    have 1: "fr_ok (filter (\<lambda>r. snd r \<noteq> 0) fs')" using ih far f run(2) sn by (simp add: fr_ok_Cons)
    have 2: "fr_bytes (filter (\<lambda>r. snd r \<noteq> 0) fs') = fr_bytes (r # fs) - sg_bytes (psegs ms)"
      using ih run(2) sn apart b by auto
    have 3: "\<forall>q\<in>set (filter (\<lambda>r. snd r \<noteq> 0) fs'). \<exists>r\<in>set (r # fs). flo r \<le> flo q" using ih run(2) by auto
    show ?thesis using ih 1 2 3 z by auto
  next
    case False
    define part where "part = min (snd r) rem"
    obtain ms1 fs1 where run: "pool_alloc gm (cur + part) (rem - part) fs = (ms1, fs1, left)"
      and ms: "ms = \<lparr>pl_vaddr = cur, pl_size = part, pl_phys_addr = fst r, pl_gpu_mode = gm\<rparr> # ms1"
      and fs': "fs' = (fst r + part, snd r - part) # fs1"
      using "2.prems"(3) False by (auto simp: Let_def part_def split: prod.splits)
    have c: "unat part = min (unat (snd r)) (unat rem)" by (simp add: part_def unat_min_u64)
    have c': "unat part \<le> unat (snd r)" "unat part \<le> unat rem" "0 < unat part"
      using c f(1) False by (auto simp: neq0_u64)
    have e: "unat (cur + part) = unat cur + unat part" "unat (rem - part) = unat rem - unat part"
      "unat (fst r + part) = flo r + unat part" "unat (snd r - part) = unat (snd r) - unat part"
      using "2.prems"(2) c' f(2) by (auto simp: fits_def unat_plus_u64 unat_minus_u64)
    have "fits (cur + part) (rem - part)" using "2.prems"(2) e c' by (simp add: fits_def)
    note ih = "2.IH"(2) [OF False part_def refl f(4) this run]
    have ih': "sg_ok (psegs ms1)" "sg_bytes (psegs ms1) \<subseteq> fr_bytes fs" "unat left \<le> unat rem - unat part"
      "sg_points (psegs ms1) = {unat cur + unat part ..< unat cur + unat part + (unat rem - unat part - unat left)}"
      "unat left = unat rem - unat part - (\<Sum>e\<leftarrow>fs. unat (snd e))" "\<forall>m\<in>set ms1. pl_gpu_mode m = gm"
      "fr_ok (filter (\<lambda>r. snd r \<noteq> 0) fs1)" "fr_bytes (filter (\<lambda>r. snd r \<noteq> 0) fs1) = fr_bytes fs - sg_bytes (psegs ms1)"
      "\<forall>q\<in>set (filter (\<lambda>r. snd r \<noteq> 0) fs1). \<exists>r\<in>set fs. flo r \<le> flo q"
      using ih unfolding e by blast+
    let ?r = "(cur, part, fst r, gm)"
    have rs: "psegs ms = ?r # psegs ms1" by (simp add: ms pl_seg_def)
    have g: "sg_good ?r" using c' f(2) "2.prems"(2) by (auto simp: neq0_u64 fits_def)
    have sub: "span_of (fst r) part \<subseteq> span_of (fst r) (snd r)" using c' by (auto simp: span_of_def)
    have 1: "sg_ok (psegs ms)"
    proof -
      have "span_of (fst r) part \<inter> sg_bytes (psegs ms1) = {}" using apart sub ih'(2) by blast
      moreover have "span_of cur part \<inter> sg_points (psegs ms1) = {}"
        unfolding ih'(4) span_of_def by (rule ivl_disj_int_two(3))
      ultimately show ?thesis unfolding rs sg_ok_Cons_sets sg_vpts.simps sg_back.simps using g ih'(1) by blast
    qed
    have 2: "sg_bytes (psegs ms) \<subseteq> fr_bytes (r # fs)" unfolding rs using sub ih'(2) by auto
    have 3: "sg_points (psegs ms) = {unat cur ..< unat cur + (unat rem - unat left)}"
      unfolding rs sg_simps ih'(4) sg_vpts.simps span_of_def using c' ih'(3)
      by (intro set_eqI) (simp only: Un_iff atLeastLessThan_iff, linarith)
    have 4: "unat left = unat rem - (\<Sum>e\<leftarrow>r # fs. unat (snd e))"
      unfolding ih'(5) c by simp
    have far: "\<forall>q\<in>set (filter (\<lambda>r. snd r \<noteq> 0) fs1). fhi r < flo q" using ih'(9) f(3) by (meson less_le_trans)
    have hi: "flo r + unat part + (unat (snd r) - unat part) = fhi r" using c' by simp
    have fit': "fits (fst r + part) (snd r - part)" using f(2) by (simp add: fits_def e hi)
    have 5: "fr_ok (filter (\<lambda>r. snd r \<noteq> 0) fs')"
      using ih'(7) far fit' e hi by (simp add: fs' fr_ok_Cons neq0_u64)
    have rest: "(if snd r - part \<noteq> 0 then span_of (fst r + part) (snd r - part) else {}) = span_of (fst r) (snd r) - span_of (fst r) part"
    proof (cases "snd r = part")
      case False
      then show ?thesis using e(3) hi by (auto simp: span_of_def e(4))
    qed simp
    have 6: "fr_bytes (filter (\<lambda>r. snd r \<noteq> 0) fs') = fr_bytes (r # fs) - sg_bytes (psegs ms)"
    proof -
      have "fr_bytes (filter (\<lambda>r. snd r \<noteq> 0) fs') =
          (if snd r - part \<noteq> 0 then span_of (fst r + part) (snd r - part) else {}) \<union> fr_bytes (filter (\<lambda>r. snd r \<noteq> 0) fs1)"
        by (simp add: fs')
      moreover have "fr_bytes (r # fs) = span_of (fst r) (snd r) \<union> fr_bytes fs"
        "sg_bytes (psegs ms) = span_of (fst r) part \<union> sg_bytes (psegs ms1)" by (simp_all add: rs)
      ultimately show ?thesis unfolding rest ih'(8) using ih'(2) apart sub by blast
    qed
    have 7: "\<forall>q\<in>set (filter (\<lambda>r. snd r \<noteq> 0) fs'). \<exists>r\<in>set (r # fs). flo r \<le> flo q"
      using ih'(9) e by (auto simp: fs')
    have 8: "unat left \<le> unat rem" using ih'(3) by simp
    show ?thesis using 1 2 3 4 5 6 7 8 ih'(6) ms by auto
  qed
qed auto

subsection \<open>The invariant and the operations\<close>

definition exp_bytes :: "(u64 \<times> u64) list \<Rightarrow> nat set" where
  "exp_bytes es = (\<Union>e\<in>set es. span_of (fst e) (snd e))"

definition exps_ok :: "(u64 \<times> u64) list \<Rightarrow> bool" where
  "exps_ok es \<longleftrightarrow> (\<forall>e\<in>set es. 0 < unat (snd e) \<and> fits (fst e) (snd e)) \<and>
     sorted_wrt (\<lambda>a b. span_of (fst a) (snd a) \<inter> span_of (fst b) (snd b) = {}) es"

definition pl_ok :: "pooled_memory \<Rightarrow> bool" where
  "pl_ok pl \<longleftrightarrow> fr_ok (pl_free pl) \<and> sg_ok (psegs (pl_mappings pl)) \<and> exps_ok (pl_expansions pl) \<and>
     splits (exp_bytes (pl_expansions pl)) (fr_bytes (pl_free pl)) (sg_bytes (psegs (pl_mappings pl)))"

lemma Expand_spec:
  assumes ok: "pl_ok pl" and n: "n \<noteq> 0" and fit: "fits s n" and new: "span_of s n \<inter> exp_bytes (pl_expansions pl) = {}"
  shows "pl_ok (PooledMemory_Expand s n pl)"
proof -
  have p: "0 < unat n" using n by (simp add: neq0_u64)
  have f: "fr_ok (pl_free pl)" using ok by (simp add: pl_ok_def)
  have "exps_ok (pl_expansions pl @ [(s, n)])"
    using ok p fit new by (auto simp: pl_ok_def exps_ok_def exp_bytes_def sorted_wrt_append)
  moreover have "exp_bytes (pl_expansions pl @ [(s, n)]) = exp_bytes (pl_expansions pl) \<union> span_of s n"
    by (auto simp: exp_bytes_def)
  then have "splits (exp_bytes (pl_expansions pl @ [(s, n)])) (fr_bytes (AddFreeUnlocked s n (pl_free pl)))
      (sg_bytes (psegs (pl_mappings pl)))"
    using ok new unfolding pl_ok_def splits_def pool_free_list.give_bytes [OF f p fit] by blast
  ultimately show ?thesis
    using ok pool_free_list.give_inv [OF f p fit] by (simp add: pl_ok_def PooledMemory_Expand_def)
qed

lemma remove1_split:
  assumes "e \<in> set es"
  obtains A B where "es = A @ e # B" and "remove1 e es = A @ B"
  using assms by (metis split_list_first remove1_append remove1.simps(2))

lemma exps_ok_remove:
  assumes "exps_ok es" and "e \<in> set es"
  shows "exps_ok (remove1 e es) \<and> exp_bytes (remove1 e es) = exp_bytes es - span_of (fst e) (snd e)"
proof -
  obtain A B where s: "es = A @ e # B" "remove1 e es = A @ B" by (rule remove1_split [OF assms(2)])
  show ?thesis
    using assms(1) unfolding s(2) unfolding s(1)
    by (auto simp: exps_ok_def exp_bytes_def sorted_wrt_append)
qed

lemma sorted_key_inj:
  fixes f :: "'x \<Rightarrow> 'k :: linorder"
  assumes "sorted_wrt (\<lambda>a b. f a < f b) xs"
  shows "inj_on f (set xs)"
  using assms by (induction xs) force+

text \<open>Removing a run of free bytes and sorting is what \<open>ConsumeFreeRange\<close> does.\<close>

lemma erase_push_sort:
  assumes ok: "fr_ok fs" and e: "old \<in> set fs" and n: "0 < unat n" and fit: "fits s n"
    and sub: "span_of s n \<subseteq> span_of (fst old) (snd old)"
  shows "sort_key fst (remove1 old fs @ (if s - fst old \<noteq> 0 then [(fst old, s - fst old)] else []) @
      (if fst old + snd old - (s + n) \<noteq> 0 then [(s + n, fst old + snd old - (s + n))] else [])) =
    ConsumeFreeRange old s n fs"
proof -
  obtain rs rn where er: "old = (rs, rn)" by fastforce
  have b: "unat rs \<le> unat s" "unat s + unat n \<le> unat rs + unat rn"
    using sub n er by (auto simp: span_of_def)
  obtain A B where fs: "fs = A @ (rs, rn) # B" and c: "ConsumeFreeRange (rs, rn) s n fs =
      A @ (if unat rs < unat s then [(rs, s - rs)] else []) @
      (if unat s + unat n < unat rs + unat rn then [(s + n, rs + rn - s - n)] else []) @ B"
    using ConsumeFreeRange_split [OF ok e [unfolded er] b] by metis
  have r: "fits rs rn" "\<forall>q\<in>set A. fhi q < unat rs"
    using ok fs by (auto simp: fr_ok_append fr_ok_Cons)
  have re: "unat (rs + rn) = unat rs + unat rn" by (rule unat_end [OF r(1)])
  have se: "unat (s + n) = unat s + unat n" by (rule unat_end [OF fit])
  have l: "s - rs \<noteq> 0 \<longleftrightarrow> unat rs < unat s" unfolding neq0_u64 unat_minus_u64 [OF b(1)] by linarith
  have rt: "rs + rn - (s + n) \<noteq> 0 \<longleftrightarrow> unat s + unat n < unat rs + unat rn"
  proof -
    have "unat (rs + rn - (s + n)) = unat (rs + rn) - unat (s + n)"
      by (rule unat_minus_u64) (use b re se in simp)
    then show ?thesis unfolding neq0_u64 re se by linarith
  qed
  have "(rs, rn) \<notin> set A" using r(2) by force
  then have rm: "remove1 old fs = A @ B" by (simp add: fs er remove1_append)
  have fr: "fr_ok (ConsumeFreeRange old s n fs)" using ConsumeFreeRange_spec [OF ok e n fit sub] by blast
  have "sort_key fst (A @ B @ (if unat rs < unat s then [(rs, s - rs)] else []) @
      (if unat s + unat n < unat rs + unat rn then [(s + n, rs + rn - (s + n))] else [])) = ConsumeFreeRange old s n fs"
  proof (rule sort_key_inj_key_eq)
    show "mset (A @ B @ (if unat rs < unat s then [(rs, s - rs)] else []) @
        (if unat s + unat n < unat rs + unat rn then [(s + n, rs + rn - (s + n))] else [])) = mset (ConsumeFreeRange old s n fs)"
      unfolding er c by (simp add: diff_diff_eq)
    then have st: "set (A @ B @ (if unat rs < unat s then [(rs, s - rs)] else []) @
        (if unat s + unat n < unat rs + unat rn then [(s + n, rs + rn - (s + n))] else [])) = set (ConsumeFreeRange old s n fs)"
      by (rule mset_eq_setD)
    have sw: "sorted_wrt (\<lambda>a b. fst a < fst b) (ConsumeFreeRange old s n fs)"
      using fr_ok_om_ok [OF fr] by (rule om_sorted_fst)
    then show "sorted (map fst (ConsumeFreeRange old s n fs))"
      unfolding sorted_map by (rule sorted_wrt_mono_rel [rotated]) simp
    show "inj_on fst (set (A @ B @ (if unat rs < unat s then [(rs, s - rs)] else []) @
        (if unat s + unat n < unat rs + unat rn then [(s + n, rs + rn - (s + n))] else [])))"
      unfolding st by (rule sorted_key_inj [OF sw])
  qed
  then show ?thesis unfolding rm unfolding er fst_conv snd_conv l rt append_assoc .
qed

lemma ReleaseExpansion_spec:
  assumes ok: "pl_ok pl"
  shows "case PooledMemory_ReleaseExpansion s n pl of
      (False, pl') \<Rightarrow> pl' = pl \<and> \<not> ((s, n) \<in> set (pl_expansions pl) \<and> span_of s n \<inter> sg_bytes (psegs (pl_mappings pl)) = {})
    | (True, pl') \<Rightarrow> (s, n) \<in> set (pl_expansions pl) \<and> span_of s n \<inter> sg_bytes (psegs (pl_mappings pl)) = {} \<and>
        pl_ok pl' \<and> pl_mappings pl' = pl_mappings pl \<and> fr_bytes (pl_free pl') = fr_bytes (pl_free pl) - span_of s n"
proof -
  let ?find = "find (\<lambda>r. fst r = s \<and> snd r = n) (pl_expansions pl)"
  let ?M = "psegs (pl_mappings pl)"
  have o: "fr_ok (pl_free pl)" "sg_ok ?M" "exps_ok (pl_expansions pl)"
    "splits (exp_bytes (pl_expansions pl)) (fr_bytes (pl_free pl)) (sg_bytes ?M)"
    using ok by (auto simp: pl_ok_def)
  show ?thesis
  proof (cases "(s, n) \<in> set (pl_expansions pl)")
    case False
    then have "?find = None" by (auto simp: find_None_iff)
    then show ?thesis using False by (simp add: PooledMemory_ReleaseExpansion_def)
  next
    case True
    then have fnd: "?find = Some (s, n)"
      by (cases ?find) (auto simp: find_None_iff find_Some_iff)
    have p: "0 < unat n" "fits s n" using o(3) True by (auto simp: exps_ok_def)
    have over: "list_ex (\<lambda>m. VirtualRangesOverlap s n (pl_phys_addr m) (pl_size m)) (pl_mappings pl) \<longleftrightarrow>
        span_of s n \<inter> sg_bytes ?M \<noteq> {}"
    proof -
      have "VirtualRangesOverlap s n (pl_phys_addr m) (pl_size m) \<longleftrightarrow> span_of s n \<inter> sg_back (pl_seg m) \<noteq> {}"
        if "m \<in> set (pl_mappings pl)" for m
      proof -
        have g: "pl_size m \<noteq> 0" "fits (pl_phys_addr m) (pl_size m)" using o(2) that by (auto simp: sg_ok_def)
        then have "sg_good (pl_phys_addr m, pl_size m, 0, ())"
          using g unfolding sg_good.simps by (simp add: fits_def)
        from sg_overlap [OF this _ p(2)] show ?thesis
          using p(1) g(1) by (auto simp: neq0_u64 span_of_def)
      qed
      then show ?thesis by (auto simp: list_ex_iff sg_bytes_def)
    qed
    show ?thesis
    proof (cases "span_of s n \<inter> sg_bytes ?M = {}")
      case False
      then show ?thesis using fnd over True by (simp add: PooledMemory_ReleaseExpansion_def)
    next
      case free: True
      have "span_of s n \<subseteq> exp_bytes (pl_expansions pl)" using True by (force simp: exp_bytes_def)
      then have sub: "span_of s n \<subseteq> fr_bytes (pl_free pl)" using o(4) free unfolding splits_def by blast
      have e: "unat (s + n) = unat s + unat n" by (rule unat_end [OF p(2)])
      let ?in = "\<lambda>r. fst r \<le> s \<and> s + n \<le> fst r + snd r"
      have inn: "?in r \<longleftrightarrow> span_of s n \<subseteq> span_of (fst r) (snd r)" if "r \<in> set (pl_free pl)" for r
      proof -
        have "fits (fst r) (snd r)" using o(1) that by (auto simp: fr_ok_def)
        then show ?thesis using p(1) e by (auto simp: le_u64 unat_end span_of_def)
      qed
      obtain old where old: "find ?in (pl_free pl) = Some old"
      proof (cases "find ?in (pl_free pl)")
        case None
        obtain e where "e \<in> set (pl_free pl)" "span_of s n \<subseteq> span_of (fst e) (snd e)"
          by (rule free_block_entry [OF o(1) p sub])
        then have "\<exists>e\<in>set (pl_free pl). ?in e" using inn by blast
        then show ?thesis using None unfolding find_None_iff by blast
      qed blast
      have "old \<in> set (pl_free pl) \<and> ?in old" using old by (auto simp: find_Some_iff)
      then have om: "old \<in> set (pl_free pl)" "span_of s n \<subseteq> span_of (fst old) (snd old)"
        using inn by blast+
      let ?pl = "pl\<lparr>pl_free := ConsumeFreeRange old s n (pl_free pl), pl_expansions := remove1 (s, n) (pl_expansions pl)\<rparr>"
      have run: "PooledMemory_ReleaseExpansion s n pl = (True, ?pl)"
        using fnd over free old erase_push_sort [OF o(1) om(1) p om(2)]
        by (simp add: PooledMemory_ReleaseExpansion_def Let_def)
      note c = ConsumeFreeRange_spec [OF o(1) om(1) p om(2)] and x = exps_ok_remove [OF o(3) True]
      have "pl_ok ?pl"
      proof -
        have x': "exp_bytes (remove1 (s, n) (pl_expansions pl)) = exp_bytes (pl_expansions pl) - span_of s n"
          "exps_ok (remove1 (s, n) (pl_expansions pl))" using x by simp_all
        have "splits (exp_bytes (remove1 (s, n) (pl_expansions pl))) (fr_bytes (ConsumeFreeRange old s n (pl_free pl))) (sg_bytes ?M)"
          using o(4) free c unfolding splits_def x'(1) by blast
        then show ?thesis unfolding pl_ok_def using c x'(2) o(2) by simp
      qed
      then show ?thesis unfolding run using c True free by simp
    qed
  qed
qed

lemma Allocate_spec:
  assumes ok: "pl_ok pl" and new: "span_of va n \<inter> pl_points pl = {}"
  shows "case PooledMemory_Allocate va n gm pl of
      (None, pl') \<Rightarrow> pl' = pl \<and> \<not> (va \<noteq> 0 \<and> n \<noteq> 0 \<and> fits va n \<and> unat n \<le> card (fr_bytes (pl_free pl)))
    | (Some ms, pl') \<Rightarrow> va \<noteq> 0 \<and> n \<noteq> 0 \<and> fits va n \<and> unat n \<le> card (fr_bytes (pl_free pl)) \<and> pl_ok pl' \<and>
        pl_mappings pl' = pl_mappings pl @ ms \<and> sg_points (psegs ms) = span_of va n \<and>
        sg_bytes (psegs ms) \<subseteq> fr_bytes (pl_free pl) \<and> (\<forall>m\<in>set ms. pl_gpu_mode m = gm) \<and>
        fr_bytes (pl_free pl') = fr_bytes (pl_free pl) - sg_bytes (psegs ms)"
proof -
  have o: "fr_ok (pl_free pl)" "sg_ok (psegs (pl_mappings pl))"
    "splits (exp_bytes (pl_expansions pl)) (fr_bytes (pl_free pl)) (sg_bytes (psegs (pl_mappings pl)))"
    using ok by (auto simp: pl_ok_def)
  show ?thesis
  proof (cases "va = 0 \<or> n = 0 \<or> u64_max - va < n")
    case True
    then show ?thesis using fits_u64 [of va n] by (auto simp: PooledMemory_Allocate_def)
  next
    case False
    then have n: "va \<noteq> 0" "n \<noteq> 0" "fits va n" using fits_u64 [of va n] by auto
    obtain ms fs left where run: "pool_alloc gm va n (pl_free pl) = (ms, fs, left)" by (cases "pool_alloc gm va n (pl_free pl)")
    note a = pool_alloc_spec [OF o(1) n(3) run]
    have z: "left = 0 \<longleftrightarrow> unat n \<le> card (fr_bytes (pl_free pl))"
      using a fr_card [OF o(1)] by (auto simp: eq_u64)
    show ?thesis
    proof (cases "left = 0")
      case False
      then show ?thesis using z run by (simp add: PooledMemory_Allocate_def)
    next
      case True
      let ?pl = "pl\<lparr>pl_free := filter (\<lambda>r. snd r \<noteq> 0) fs, pl_mappings := pl_mappings pl @ ms\<rparr>"
      have r: "PooledMemory_Allocate va n gm pl = (Some ms, ?pl)"
        using False run True by (simp add: PooledMemory_Allocate_def)
      have pts: "sg_points (psegs ms) = span_of va n" using a True by (simp add: span_of_def)
      have "sg_bytes (psegs (pl_mappings pl)) \<inter> sg_bytes (psegs ms) = {}"
        using a o(3) unfolding splits_def by blast
      then have "sg_ok (psegs (pl_mappings pl @ ms))"
        using a o(2) pts new by (simp add: sg_ok_append_sets Int_commute)
      moreover have "splits (exp_bytes (pl_expansions pl)) (fr_bytes (filter (\<lambda>r. snd r \<noteq> 0) fs))
          (sg_bytes (psegs (pl_mappings pl @ ms)))"
        using a o(3) unfolding splits_def by auto
      ultimately have "pl_ok ?pl" using a ok by (simp add: pl_ok_def)
      then show ?thesis unfolding r using a pts z True n by simp
    qed
  qed
qed

lemma PoolRelease_spec:
  assumes ok: "pl_ok pl"
  shows "case PooledMemory_Release va n pl of
      (None, pl') \<Rightarrow> pl' = pl \<and> \<not> (va \<noteq> 0 \<and> n \<noteq> 0 \<and> fits va n \<and> span_of va n \<subseteq> pl_points pl)
    | (Some g, pl') \<Rightarrow> va \<noteq> 0 \<and> n \<noteq> 0 \<and> fits va n \<and> span_of va n \<subseteq> pl_points pl \<and> pl_ok pl' \<and>
        (\<exists>x. pl_maps pl va x g) \<and>
        (\<forall>a x w. pl_maps pl' a x w \<longleftrightarrow> pl_maps pl a x w \<and> \<not> in_span va n a) \<and>
        fr_bytes (pl_free pl') = fr_bytes (pl_free pl) \<union> {unat x | x a w. pl_maps pl a x w \<and> in_span va n a}"
proof -
  have o: "fr_ok (pl_free pl)" "sg_ok (psegs (pl_mappings pl))"
    "splits (exp_bytes (pl_expansions pl)) (fr_bytes (pl_free pl)) (sg_bytes (psegs (pl_mappings pl)))"
    using ok by (auto simp: pl_ok_def)
  note q = PoolQuery_spec [OF o(2), where va = va and n = n]
  show ?thesis
  proof (cases "PooledMemory_QueryUnlocked va n pl")
    case None
    then show ?thesis using q by (simp add: PooledMemory_Release_def)
  next
    case (Some ps)
    note q' = q [unfolded Some option.case] and qs = query_segs [OF o(2) Some]
    have n: "n \<noteq> 0" "fits va n" using q' by auto
    let ?free = "fold (\<lambda>m. AddFreeUnlocked (pl_phys_addr m) (pl_size m)) ps (pl_free pl)"
    let ?pl = "pl\<lparr>pl_mappings := concat (map (pool_cut va (va + n)) (pl_mappings pl)), pl_free := ?free\<rparr>"
    have run: "PooledMemory_Release va n pl = (Some (pl_gpu_mode (hd ps)), ?pl)"
      by (simp add: PooledMemory_Release_def Some)
    have cut: "psegs (pl_mappings ?pl) = sg_kept va n (psegs (pl_mappings pl))"
      using pool_cut_segs [OF _ n, of "pl_mappings pl"] o(2) by (simp add: sg_ok_def)
    note c = sg_cuts_spec [OF o(2) n] and m = sg_cuts_maps [OF o(2) n]
    have fold: "?free = fold (\<lambda>(s, k). AddFreeUnlocked s k) (seg_ranges (psegs ps)) (pl_free pl)"
      by (simp add: seg_ranges_def fold_map comp_def pl_seg_def)
    have "fr_ok ?free \<and> fr_bytes ?free = fr_bytes (pl_free pl) \<union> sg_bytes (psegs ps)"
      unfolding fold using pool_free_list.fold_give [OF o(1) seg_ranges_good [of "psegs ps"]] qs
      by (simp add: seg_ranges_bytes)
    then have free: "fr_ok ?free" "fr_bytes ?free = fr_bytes (pl_free pl) \<union> sg_bytes (sg_taken va n (psegs (pl_mappings pl)))"
      using qs by auto
    have "splits (exp_bytes (pl_expansions pl)) (fr_bytes ?free) (sg_bytes (sg_kept va n (psegs (pl_mappings pl))))"
      unfolding free(2) using c o(3) unfolding splits_def by blast
    then have okp: "pl_ok ?pl" using ok c free(1) cut by (simp add: pl_ok_def)
    have "sg_bytes (psegs ps) = {unat x | x a w. pl_maps pl a x w \<and> in_span va n a}"
      using sg_byte_maps [of "psegs ps"] q' by blast
    then have fb: "fr_bytes ?free = fr_bytes (pl_free pl) \<union> {unat x | x a w. pl_maps pl a x w \<and> in_span va n a}"
      using free(2) qs by simp
    have hd: "\<exists>x. pl_maps pl va x (pl_gpu_mode (hd ps))"
    proof -
      have h: "hd ps \<in> set ps" "pl_vaddr (hd ps) = va" using q' by auto
      have "sg_ok (psegs ps)" using q' by blast
      then have "sg_good (pl_seg (hd ps))" using h(1) unfolding sg_ok_def by auto
      then have "sg_maps [pl_seg (hd ps)] va (pl_phys_addr (hd ps) + (va - va)) (pl_gpu_mode (hd ps))"
        using h(2) unfolding pl_seg_def sg_maps_one by (auto simp: neq0_u64 intro: in_span_start)
      then have "sg_maps (psegs ps) va (pl_phys_addr (hd ps) + (va - va)) (pl_gpu_mode (hd ps))"
        using h(1) by (auto elim: sg_maps_elem [rotated])
      then show ?thesis using q' by blast
    qed
    have "\<forall>a x w. pl_maps ?pl a x w \<longleftrightarrow> pl_maps pl a x w \<and> \<not> in_span va n a"
      unfolding cut using m by blast
    then show ?thesis unfolding run prod.case option.case using q' okp hd fb by auto
  qed
qed

subsection \<open>Reachable states\<close>

text \<open>
  The caller expands the pool with direct memory it owns, so with bytes not yet given to it, and
  allocates at virtual addresses that are not backed.
\<close>

inductive pl_step :: "pooled_memory \<Rightarrow> pooled_memory \<Rightarrow> bool" where
  expand: "n \<noteq> 0 \<Longrightarrow> fits s n \<Longrightarrow> span_of s n \<inter> exp_bytes (pl_expansions pl) = {} \<Longrightarrow>
    pl_step pl (PooledMemory_Expand s n pl)"
| release_expansion: "pl_step pl (snd (PooledMemory_ReleaseExpansion s n pl))"
| allocate: "span_of va n \<inter> pl_points pl = {} \<Longrightarrow> pl_step pl (snd (PooledMemory_Allocate va n gm pl))"
| release: "pl_step pl (snd (PooledMemory_Release va n pl))"

lemma pl_ok_step:
  assumes "pl_step pl pl'" and "pl_ok pl"
  shows "pl_ok pl'"
  using assms
proof (induction rule: pl_step.induct)
  case (expand n s pl)
  then show ?case by (intro Expand_spec)
next
  case (release_expansion pl s n)
  then show ?case
    using ReleaseExpansion_spec [of pl s n] by (auto split: prod.splits bool.splits)
next
  case (allocate va n pl gm)
  then show ?case
    using Allocate_spec [of pl va n gm] by (auto split: prod.splits option.splits)
next
  case (release pl va n)
  then show ?case
    using PoolRelease_spec [of pl va n] by (auto split: prod.splits option.splits)
qed

lemma pl_ok_init: "pl_ok PooledMemory_init"
  by (simp add: pl_ok_def PooledMemory_init_def exps_ok_def exp_bytes_def splits_def)

lemma pl_ok_reachable: "pl_step\<^sup>*\<^sup>* PooledMemory_init pl \<Longrightarrow> pl_ok pl"
  by (induction rule: rtranclp_induct) (auto intro: pl_ok_init pl_ok_step)

subsection \<open>Properties\<close>

definition demo_pl :: pooled_memory where
  "demo_pl = \<lparr>pl_free = [(65536, 65536)], pl_expansions = [(65536, 65536), (262144, 65536)],
     pl_mappings = [\<lparr>pl_vaddr = 8589934592, pl_size = 65536, pl_phys_addr = 262144, pl_gpu_mode = GpuRead\<rparr>]\<rparr>"

lemma demo_pl_ok: "pl_ok demo_pl"
proof -
  have "splits (exp_bytes (pl_expansions demo_pl)) (fr_bytes (pl_free demo_pl)) (sg_bytes (psegs (pl_mappings demo_pl)))"
    by (auto simp: splits_def demo_pl_def span_of_def exp_bytes_def)
  then show ?thesis
    by (auto simp: pl_ok_def demo_pl_def fr_ok_Cons sg_ok_Cons exps_ok_def fits_def span_of_def)
qed

text \<open>
  C14: In every reachable state of the pool every byte of its expansions is either free or backs
  exactly one address, and no other byte does either; free ranges stay sorted and coalesced.
\<close>

theorem PooledMemory_partition:
  assumes "pl_step\<^sup>*\<^sup>* PooledMemory_init pl"
  shows "fr_ok (pl_free pl) \<and> sg_ok (psegs (pl_mappings pl)) \<and>
    splits (exp_bytes (pl_expansions pl)) (fr_bytes (pl_free pl)) (sg_bytes (psegs (pl_mappings pl)))"
  using pl_ok_reachable [OF assms] by (simp add: pl_ok_def)

theorem PooledMemory_partition_witness:
  "let pl = snd (PooledMemory_Allocate 8589934592 32768 GpuRead (PooledMemory_Expand 65536 65536 PooledMemory_init))
   in splits {65536 ..< 131072} (fr_bytes (pl_free pl)) (sg_bytes (psegs (pl_mappings pl)))"
proof -
  let ?e = "PooledMemory_Expand 65536 65536 PooledMemory_init"
  let ?pl = "snd (PooledMemory_Allocate 8589934592 32768 GpuRead ?e)"
  have "pl_step PooledMemory_init ?e"
    by (rule pl_step.expand) (simp_all add: fits_def PooledMemory_init_def exp_bytes_def)
  moreover have "pl_step ?e ?pl"
    by (rule pl_step.allocate) (simp add: PooledMemory_Expand_def PooledMemory_init_def)
  ultimately have r: "pl_step\<^sup>*\<^sup>* PooledMemory_init ?pl" by (meson r_into_rtranclp rtranclp_trans)
  have "pl_expansions ?pl = [(65536, 65536)]"
    by (simp add: PooledMemory_Allocate_def PooledMemory_Expand_def PooledMemory_init_def Let_def split: prod.splits)
  then have "exp_bytes (pl_expansions ?pl) = {65536 ..< 131072}" by (simp add: exp_bytes_def span_of_def)
  then show ?thesis using PooledMemory_partition [OF r] by (simp add: Let_def)
qed

text \<open>
  C15: \<open>Allocate\<close> at unbacked addresses succeeds exactly when the address is not null, the request
  is non-empty, does not wrap, and the pool has that many free bytes, however fragmented; it
  then backs exactly the request with free bytes.
\<close>

theorem PooledAllocate_correct:
  assumes "pl_ok pl" and "span_of va n \<inter> pl_points pl = {}"
  shows "case PooledMemory_Allocate va n gm pl of
      (None, pl') \<Rightarrow> pl' = pl \<and> \<not> (va \<noteq> 0 \<and> n \<noteq> 0 \<and> fits va n \<and> unat n \<le> card (fr_bytes (pl_free pl)))
    | (Some ms, pl') \<Rightarrow> va \<noteq> 0 \<and> n \<noteq> 0 \<and> fits va n \<and> unat n \<le> card (fr_bytes (pl_free pl)) \<and> pl_ok pl' \<and>
        pl_mappings pl' = pl_mappings pl @ ms \<and> sg_points (psegs ms) = span_of va n \<and>
        sg_bytes (psegs ms) \<subseteq> fr_bytes (pl_free pl) \<and> (\<forall>m\<in>set ms. pl_gpu_mode m = gm) \<and>
        fr_bytes (pl_free pl') = fr_bytes (pl_free pl) - sg_bytes (psegs ms)"
  by (rule Allocate_spec [OF assms])

theorem PooledAllocate_correct_witness:
  "fst (PooledMemory_Allocate 8590000128 32768 GpuRead demo_pl) \<noteq> None"
proof -
  have "span_of 8590000128 32768 \<inter> pl_points demo_pl = {}" by (auto simp: demo_pl_def span_of_def)
  moreover have "card (fr_bytes (pl_free demo_pl)) = 65536" by (simp add: demo_pl_def span_of_def)
  ultimately show ?thesis
    using PooledAllocate_correct [OF demo_pl_ok, of 8590000128 32768 GpuRead]
    by (auto simp: fits_def split: prod.splits option.splits)
qed

text \<open>
  \<open>Release\<close> succeeds exactly when every address of the request is backed, and reports the GPU
  mode of its first address; exactly the requested addresses lose their backing, and exactly
  the bytes behind them become free.
\<close>

lemma PooledRelease_correct:
  assumes "pl_ok pl"
  shows "case PooledMemory_Release va n pl of
      (None, pl') \<Rightarrow> pl' = pl \<and> \<not> (va \<noteq> 0 \<and> n \<noteq> 0 \<and> fits va n \<and> span_of va n \<subseteq> pl_points pl)
    | (Some g, pl') \<Rightarrow> va \<noteq> 0 \<and> n \<noteq> 0 \<and> fits va n \<and> span_of va n \<subseteq> pl_points pl \<and> pl_ok pl' \<and>
        (\<exists>x. pl_maps pl va x g) \<and>
        (\<forall>a x w. pl_maps pl' a x w \<longleftrightarrow> pl_maps pl a x w \<and> \<not> in_span va n a) \<and>
        fr_bytes (pl_free pl') = fr_bytes (pl_free pl) \<union> {unat x | x a w. pl_maps pl a x w \<and> in_span va n a}"
  by (rule PoolRelease_spec [OF assms])

end
