(* ===== verification/Runs.thy ===== *)
theory Runs
  imports Main
begin

text \<open>
  Runs of a component whose operations are executed one at a time. The synchronisation objects of
  \<open>src/src/kernel\<close> hold a mutex for each of their critical sections, so a concurrent execution is
  a sequence of such sections; an event names one of them with its arguments and what the
  environment answers (timers, thread ids). \<open>None\<close> means the event cannot happen in that state.
\<close>

fun run :: "('e \<Rightarrow> 's \<Rightarrow> 's option) \<Rightarrow> 'e list \<Rightarrow> 's \<Rightarrow> 's option" where
  "run exec [] s = Some s"
| "run exec (e # es) s = (case exec e s of None \<Rightarrow> None | Some s' \<Rightarrow> run exec es s')"

lemma run_append: "run exec (xs @ ys) s = (case run exec xs s of None \<Rightarrow> None | Some s' \<Rightarrow> run exec ys s')"
  by (induction xs arbitrary: s) (auto split: option.splits)

text \<open>
  The contract between a component and the proofs about its runs: an invariant that every allowed
  event keeps.
\<close>

locale guarded_system =
  fixes exec :: "'e \<Rightarrow> 's \<Rightarrow> 's option"
    and allowed :: "'e \<Rightarrow> bool"
    and inv :: "'s \<Rightarrow> bool"
  assumes step_inv: "allowed e \<Longrightarrow> inv s \<Longrightarrow> exec e s = Some s' \<Longrightarrow> inv s'"
begin

lemma run_inv:
  assumes "list_all allowed es" and "inv s" and "run exec es s = Some s'"
  shows "inv s'"
  using assms
proof (induction es arbitrary: s)
  case (Cons e es)
  then obtain t where "exec e s = Some t" "run exec es t = Some s'" by (auto split: option.splits)
  then show ?case using Cons.IH [of t] Cons.prems step_inv by auto
qed simp

text \<open>The invariant holds at every point of the run, not only at its end.\<close>

lemma run_prefix_inv:
  assumes "list_all allowed (xs @ ys)" and "inv s" and "run exec (xs @ ys) s = Some s'"
  obtains t where "run exec xs s = Some t" and "inv t" and "run exec ys t = Some s'"
proof -
  obtain t where t: "run exec xs s = Some t" "run exec ys t = Some s'"
    using assms(3) by (auto simp: run_append split: option.splits)
  moreover have "inv t" using run_inv [OF _ assms(2) t(1)] assms(1) by simp
  ultimately show thesis using that by blast
qed

end

end
