(* ===== verification/Semaphore.thy ===== *)
theory Semaphore
  imports Prelude Errno Runs
begin

text \<open>
  Kernel semaphores: \<open>class KernelSemaPrivate\<close> and its API in \<open>src/src/kernel/semaphore.cpp\<close>.
  Every critical section of the class's mutex is one operation here. A blocking \<open>Wait\<close> is its
  section before the condition variable (\<open>Wait_enter\<close>) and one section per wake-up
  (\<open>Wait_resume\<close>, which may be spurious); what the timer and the scheduler answer are arguments.
  A waiter is an object on its thread's stack; it is named by a key. Counts are C \<open>int\<close>s: an
  addition that overflows is undefined and is the value \<open>None\<close>.
\<close>

subsection \<open>State\<close>

datatype sema_result = SemaOk | SemaTimedOut | SemaCanceled | SemaDeleted | SemaInvalCount

datatype sema_status = SemaSet | SemaIsDeleted

record waiting_thread =
  wt_key :: nat
  wt_id :: int
  wt_priority :: int
  wt_need_count :: int
  wt_result :: sema_result
  wt_ready :: bool

record kernel_sema =
  ks_name :: string
  ks_status :: sema_status
  ks_waiting :: "waiting_thread list"
  ks_fifo_order :: bool
  ks_count :: int
  ks_init_count :: int
  ks_max_count :: int

definition KernelSemaPrivate_init :: "string \<Rightarrow> bool \<Rightarrow> int \<Rightarrow> int \<Rightarrow> kernel_sema" where
  "KernelSemaPrivate_init nm fifo init_count max_count =
     \<lparr>ks_name = nm, ks_status = SemaSet, ks_waiting = [], ks_fifo_order = fifo, ks_count = init_count,
      ks_init_count = init_count, ks_max_count = max_count\<rparr>"

subsection \<open>Releasing waiters\<close>

text \<open>Waiters not yet served are released with a result.\<close>

definition release_waiter :: "sema_result \<Rightarrow> waiting_thread \<Rightarrow> waiting_thread" where
  "release_waiter res w = (if \<not> wt_ready w then w\<lparr>wt_result := res, wt_ready := True\<rparr> else w)"

text \<open>The first critical section of the destructor; while the status is not \<open>Set\<close> it spins.\<close>

definition KernelSemaPrivate_destroy :: "kernel_sema \<Rightarrow> kernel_sema option" where
  "KernelSemaPrivate_destroy s =
     (if ks_status s \<noteq> SemaSet then None
      else Some (s\<lparr>ks_status := SemaIsDeleted, ks_waiting := map (release_waiter SemaDeleted) (ks_waiting s)\<rparr>))"

text \<open>The object is freed once no waiter is left.\<close>

definition KernelSemaPrivate_destroyed :: "kernel_sema \<Rightarrow> bool" where
  "KernelSemaPrivate_destroyed s \<longleftrightarrow> ks_status s = SemaIsDeleted \<and> ks_waiting s = []"

definition KernelSemaPrivate_Cancel :: "int \<Rightarrow> kernel_sema \<Rightarrow> sema_result \<times> int option \<times> kernel_sema" where
  "KernelSemaPrivate_Cancel set_count s =
     (if ks_max_count s < set_count then (SemaInvalCount, None, s)
      else if ks_status s = SemaIsDeleted then (SemaDeleted, None, s)
      else (SemaOk, Some (int (length (filter (\<lambda>w. \<not> wt_ready w) (ks_waiting s)))),
        s\<lparr>ks_count := (if set_count < 0 then ks_init_count s else set_count),
           ks_waiting := map (release_waiter SemaCanceled) (ks_waiting s)\<rparr>))"

text \<open>\<open>WakeWaiters\<close>: one pass over the waiters in order.\<close>

fun wake_loop :: "int \<Rightarrow> waiting_thread list \<Rightarrow> int \<times> waiting_thread list" where
  "wake_loop count [] = (count, [])"
| "wake_loop count (w # ws) =
     (if \<not> wt_ready w \<and> wt_need_count w \<le> count
      then (let (count', ws') = wake_loop (count - wt_need_count w) ws
            in (count', w\<lparr>wt_result := SemaOk, wt_ready := True\<rparr> # ws'))
      else (let (count', ws') = wake_loop count ws in (count', w # ws')))"

definition KernelSemaPrivate_WakeWaiters :: "kernel_sema \<Rightarrow> kernel_sema" where
  "KernelSemaPrivate_WakeWaiters s =
     (let (count, ws) = wake_loop (ks_count s) (ks_waiting s) in s\<lparr>ks_count := count, ks_waiting := ws\<rparr>)"

definition KernelSemaPrivate_Signal :: "int \<Rightarrow> kernel_sema \<Rightarrow> (sema_result \<times> kernel_sema) option" where
  "KernelSemaPrivate_Signal signal_count s =
     (if ks_status s = SemaIsDeleted then Some (SemaDeleted, s)
      else if \<not> i32_range (ks_count s + signal_count) then None
      else if ks_max_count s < ks_count s + signal_count then Some (SemaInvalCount, s)
      else Some (SemaOk, KernelSemaPrivate_WakeWaiters (s\<lparr>ks_count := ks_count s + signal_count\<rparr>)))"

subsection \<open>Waiting\<close>

definition KernelSemaPrivate_AddWaiter :: "waiting_thread \<Rightarrow> kernel_sema \<Rightarrow> kernel_sema" where
  "KernelSemaPrivate_AddWaiter w s =
     s\<lparr>ks_waiting :=
        (if ks_fifo_order s then ks_waiting s @ [w]
         else takeWhile (\<lambda>x. wt_priority x \<le> wt_priority w) (ks_waiting s) @ w #
              dropWhile (\<lambda>x. wt_priority x \<le> wt_priority w) (ks_waiting s))\<rparr>"

definition KernelSemaPrivate_RemoveWaiter :: "nat \<Rightarrow> kernel_sema \<Rightarrow> kernel_sema" where
  "KernelSemaPrivate_RemoveWaiter key s =
     s\<lparr>ks_waiting := takeWhile (\<lambda>x. wt_key x \<noteq> key) (ks_waiting s) @
        tl (dropWhile (\<lambda>x. wt_key x \<noteq> key) (ks_waiting s))\<rparr>"

text \<open>
  \<open>timeout\<close> is \<open>*ptr_micros\<close>, \<open>None\<close> for a null pointer. A wait that returns gives its result and
  what it leaves in \<open>*ptr_micros\<close>.
\<close>

datatype wait_outcome = Returns sema_result "u32 option" | Blocks

definition KernelSemaPrivate_Wait_enter ::
  "nat \<Rightarrow> int \<Rightarrow> int \<Rightarrow> int \<Rightarrow> u32 option \<Rightarrow> kernel_sema \<Rightarrow> wait_outcome \<times> kernel_sema" where
  "KernelSemaPrivate_Wait_enter key tid current_priority need_count timeout s =
     (if need_count < 1 \<or> ks_max_count s < need_count then (Returns SemaInvalCount timeout, s)
      else if ks_status s = SemaIsDeleted then (Returns SemaDeleted timeout, s)
      else if need_count \<le> ks_count s then (Returns SemaOk timeout, s\<lparr>ks_count := ks_count s - need_count\<rparr>)
      else if timeout = Some 0 then (Returns SemaTimedOut timeout, s)
      else (Blocks,
        KernelSemaPrivate_AddWaiter
          \<lparr>wt_key = key, wt_id = tid, wt_priority = (if ks_fifo_order s then 0 else current_priority),
           wt_need_count = need_count, wt_result = SemaTimedOut, wt_ready = False\<rparr> s))"

text \<open>A wake-up with \<open>elapsed\<close> microseconds gone. \<open>None\<close>: the key is not that of a waiter.\<close>

definition KernelSemaPrivate_Wait_resume ::
  "nat \<Rightarrow> u32 option \<Rightarrow> u32 \<Rightarrow> kernel_sema \<Rightarrow> (wait_outcome \<times> kernel_sema) option" where
  "KernelSemaPrivate_Wait_resume key timeout elapsed s =
     (case find (\<lambda>w. wt_key w = key) (ks_waiting s) of
        None \<Rightarrow> None
      | Some w \<Rightarrow>
          Some
           (if wt_ready w
            then (Returns (wt_result w)
                   (map_option (\<lambda>micros. if micros \<le> elapsed then 0 else micros - elapsed) timeout),
                  KernelSemaPrivate_RemoveWaiter key s)
            else
              (case timeout of
                 Some micros \<Rightarrow>
                   if micros \<le> elapsed then (Returns SemaTimedOut (Some 0), KernelSemaPrivate_RemoveWaiter key s)
                   else (Blocks, s)
               | None \<Rightarrow> (Blocks, s))))"

definition KernelSemaPrivate_Poll :: "nat \<Rightarrow> int \<Rightarrow> int \<Rightarrow> int \<Rightarrow> kernel_sema \<Rightarrow> wait_outcome \<times> kernel_sema" where
  "KernelSemaPrivate_Poll key tid current_priority need_count =
     KernelSemaPrivate_Wait_enter key tid current_priority need_count (Some 0)"

subsection \<open>The API\<close>

text \<open>
  A semaphore handle is a pointer; \<open>None\<close> is the null pointer. A null place for the new handle
  aborts, the outer \<open>None\<close>.
\<close>

definition KernelCreateSema :: "bool \<Rightarrow> string option \<Rightarrow> u32 \<Rightarrow> int \<Rightarrow> int \<Rightarrow> (int \<times> kernel_sema option) option" where
  "KernelCreateSema sem_null nm attr init mx =
     (if sem_null then None
      else
        case nm of
          None \<Rightarrow> Some (KERNEL_ERROR_EINVAL, None)
        | Some n \<Rightarrow>
            if 2 < attr \<or> init < 0 \<or> mx \<le> 0 \<or> mx < init then Some (KERNEL_ERROR_EINVAL, None)
            else Some (OK, Some (KernelSemaPrivate_init n (attr = 1) init mx)))"

definition KernelDeleteSema :: "kernel_sema option \<Rightarrow> (int \<times> kernel_sema option) option" where
  "KernelDeleteSema sem =
     (case sem of
        None \<Rightarrow> Some (KERNEL_ERROR_ESRCH, None)
      | Some s \<Rightarrow> map_option (\<lambda>s'. (OK, Some s')) (KernelSemaPrivate_destroy s))"

definition KernelWaitSema_code :: "sema_result \<Rightarrow> int" where
  "KernelWaitSema_code r =
     (case r of SemaOk \<Rightarrow> OK | SemaInvalCount \<Rightarrow> KERNEL_ERROR_EINVAL | SemaTimedOut \<Rightarrow> KERNEL_ERROR_ETIMEDOUT
      | SemaCanceled \<Rightarrow> KERNEL_ERROR_ECANCELED | SemaDeleted \<Rightarrow> KERNEL_ERROR_EACCES)"

text \<open>Entering \<open>KernelWaitSema\<close>: the code returned at once, or \<open>None\<close> when the thread blocks.\<close>

definition KernelWaitSema :: "nat \<Rightarrow> int \<Rightarrow> int \<Rightarrow> kernel_sema option \<Rightarrow> int \<Rightarrow> u32 option \<Rightarrow> int option \<times> kernel_sema option" where
  "KernelWaitSema key tid prio sem need timeout =
     (case sem of
        None \<Rightarrow> (Some KERNEL_ERROR_ESRCH, None)
      | Some s \<Rightarrow>
          (case KernelSemaPrivate_Wait_enter key tid prio need timeout s of
             (Returns r _, s') \<Rightarrow> (Some (KernelWaitSema_code r), Some s')
           | (Blocks, s') \<Rightarrow> (None, Some s')))"

definition KernelPollSema_code :: "sema_result \<Rightarrow> int" where
  "KernelPollSema_code r =
     (case r of SemaOk \<Rightarrow> OK | SemaInvalCount \<Rightarrow> KERNEL_ERROR_EINVAL | _ \<Rightarrow> KERNEL_ERROR_EBUSY)"

definition KernelPollSema :: "nat \<Rightarrow> int \<Rightarrow> int \<Rightarrow> kernel_sema option \<Rightarrow> int \<Rightarrow> int option \<times> kernel_sema option" where
  "KernelPollSema key tid prio sem need =
     (case sem of
        None \<Rightarrow> (Some KERNEL_ERROR_ESRCH, None)
      | Some s \<Rightarrow>
          (case KernelSemaPrivate_Poll key tid prio need s of
             (Returns r _, s') \<Rightarrow> (Some (KernelPollSema_code r), Some s')
           | (Blocks, s') \<Rightarrow> (None, Some s')))"

definition KernelSignalSema :: "kernel_sema option \<Rightarrow> int \<Rightarrow> (int \<times> kernel_sema option) option" where
  "KernelSignalSema sem count =
     (case sem of
        None \<Rightarrow> Some (KERNEL_ERROR_ESRCH, None)
      | Some s \<Rightarrow>
          map_option (\<lambda>(r, s'). (if r = SemaOk then OK else KERNEL_ERROR_EINVAL, Some s'))
            (KernelSemaPrivate_Signal count s))"

definition KernelCancelSema :: "kernel_sema option \<Rightarrow> int \<Rightarrow> int \<times> int option \<times> kernel_sema option" where
  "KernelCancelSema sem count =
     (case sem of
        None \<Rightarrow> (KERNEL_ERROR_ESRCH, None, None)
      | Some s \<Rightarrow>
          (let (r, threads, s') = KernelSemaPrivate_Cancel count s
           in (if r = SemaOk then OK else KERNEL_ERROR_EINVAL, threads, Some s')))"

subsection \<open>Runs\<close>

text \<open>The critical sections as events; a thread enters a wait with a key that is not waiting.\<close>

datatype sema_event =
    SemaWait nat int int int "u32 option"
  | SemaResume nat "u32 option" u32
  | SemaSignal int
  | SemaCancel int
  | SemaDestroy

fun sema_exec :: "sema_event \<Rightarrow> kernel_sema \<Rightarrow> kernel_sema option" where
  "sema_exec (SemaWait key tid prio need timeout) s =
     (if key \<in> wt_key ` set (ks_waiting s) then None
      else Some (snd (KernelSemaPrivate_Wait_enter key tid prio need timeout s)))"
| "sema_exec (SemaResume key timeout elapsed) s = map_option snd (KernelSemaPrivate_Wait_resume key timeout elapsed s)"
| "sema_exec (SemaSignal n) s = map_option snd (KernelSemaPrivate_Signal n s)"
| "sema_exec (SemaCancel n) s = Some (snd (snd (KernelSemaPrivate_Cancel n s)))"
| "sema_exec SemaDestroy s = KernelSemaPrivate_destroy s"

end
