(* ===== verification/SemaphoreProps.thy ===== *)
theory SemaphoreProps
  imports Semaphore
begin

text \<open>
  What holds of a kernel semaphore in every run: no waiter that could be served is left waiting,
  the count stays within its bounds, signals conserve it, and waits return what they should.
\<close>

subsection \<open>One pass over the waiters\<close>

text \<open>What the first \<open>k\<close> waiters were granted by a pass from \<open>ws\<close> to \<open>ws'\<close>.\<close>

definition granted :: "waiting_thread list \<Rightarrow> waiting_thread list \<Rightarrow> nat \<Rightarrow> int" where
  "granted ws ws' k =
     (\<Sum>(w, w')\<leftarrow>take k (zip ws ws'). if wt_ready w' \<and> \<not> wt_ready w then wt_need_count w else 0)"

lemma granted_simps [simp]:
  "granted ws ws' 0 = 0"
  "granted (w # ws) (w' # ws') (Suc k) =
     (if wt_ready w' \<and> \<not> wt_ready w then wt_need_count w else 0) + granted ws ws' k"
  by (simp_all add: granted_def)

lemma wake_loop_spec:
  assumes "wake_loop c ws = (c', ws')"
  shows "length ws' = length ws \<and> c' = c - granted ws ws' (length ws) \<and>
    (\<forall>i<length ws. ws' ! i =
       (if \<not> wt_ready (ws ! i) \<and> wt_need_count (ws ! i) \<le> c - granted ws ws' i
        then (ws ! i)\<lparr>wt_result := SemaOk, wt_ready := True\<rparr> else ws ! i))"
  using assms
proof (induction c ws arbitrary: c' ws' rule: wake_loop.induct)
  case (2 c w ws)
  show ?case
  proof (cases "\<not> wt_ready w \<and> wt_need_count w \<le> c")
    case True
    then obtain ws1 where r: "wake_loop (c - wt_need_count w) ws = (c', ws1)"
      "ws' = w\<lparr>wt_result := SemaOk, wt_ready := True\<rparr> # ws1"
      using "2.prems" by (auto split: prod.splits)
    show ?thesis
      using "2.IH"(1) [OF True r(1)] True
      by (auto simp: r(2) nth_Cons' less_Suc_eq_0_disj diff_diff_eq)
  next
    case False
    then obtain ws1 where r: "wake_loop c ws = (c', ws1)" "ws' = w # ws1"
      using "2.prems" by (auto split: prod.splits)
    show ?thesis
      using "2.IH"(2) [OF False r(1)] False by (auto simp: r(2) less_Suc_eq_0_disj)
  qed
qed simp

lemma wake_loop_keeps:
  assumes "wake_loop c ws = (c', ws')" and "\<forall>w\<in>set ws. 1 \<le> wt_need_count w"
  shows "c' \<le> c \<and> (0 \<le> c \<longrightarrow> 0 \<le> c') \<and> map wt_key ws' = map wt_key ws \<and> map wt_priority ws' = map wt_priority ws \<and>
    map wt_need_count ws' = map wt_need_count ws \<and>
    (\<forall>w\<in>set ws'. (\<not> wt_ready w \<longrightarrow> c' < wt_need_count w) \<and>
       (wt_ready w \<longrightarrow> wt_result w = SemaOk \<or> w \<in> set ws))"
  using assms
proof (induction c ws arbitrary: c' ws' rule: wake_loop.induct)
  case (2 c w ws)
  show ?case
  proof (cases "\<not> wt_ready w \<and> wt_need_count w \<le> c")
    case True
    then obtain ws1 where r: "wake_loop (c - wt_need_count w) ws = (c', ws1)"
      "ws' = w\<lparr>wt_result := SemaOk, wt_ready := True\<rparr> # ws1"
      using "2.prems" by (auto split: prod.splits)
    show ?thesis using "2.IH"(1) [OF True r(1)] True "2.prems"(2) by (auto simp: r(2))
  next
    case False
    then obtain ws1 where r: "wake_loop c ws = (c', ws1)" "ws' = w # ws1"
      using "2.prems" by (auto split: prod.splits)
    show ?thesis using "2.IH"(2) [OF False r(1)] False "2.prems"(2) by (auto simp: r(2))
  qed
qed simp

subsection \<open>The invariant\<close>

definition waiter_ok :: "kernel_sema \<Rightarrow> waiting_thread \<Rightarrow> bool" where
  "waiter_ok s w \<longleftrightarrow> 1 \<le> wt_need_count w \<and> wt_need_count w \<le> ks_max_count s \<and>
     (\<not> wt_ready w \<longrightarrow> ks_count s < wt_need_count w) \<and> (wt_ready w \<longrightarrow> wt_result w \<noteq> SemaTimedOut) \<and>
     (ks_status s = SemaIsDeleted \<longrightarrow> wt_ready w)"

definition ks_inv :: "kernel_sema \<Rightarrow> bool" where
  "ks_inv s \<longleftrightarrow> distinct (map wt_key (ks_waiting s)) \<and> (\<forall>w\<in>set (ks_waiting s). waiter_ok s w) \<and>
     (\<not> ks_fifo_order s \<longrightarrow> sorted (map wt_priority (ks_waiting s)))"

definition ks_bounded :: "kernel_sema \<Rightarrow> bool" where
  "ks_bounded s \<longleftrightarrow> 0 \<le> ks_count s \<and> ks_count s \<le> ks_max_count s \<and> 0 \<le> ks_init_count s \<and>
     ks_init_count s \<le> ks_max_count s \<and> (\<forall>w\<in>set (ks_waiting s). 1 \<le> wt_need_count w)"

lemma release_waiter_sel [simp]:
  "wt_key (release_waiter r w) = wt_key w" "wt_priority (release_waiter r w) = wt_priority w"
  "wt_need_count (release_waiter r w) = wt_need_count w" "wt_ready (release_waiter r w)"
  by (simp_all add: release_waiter_def)

lemma release_waiter_result: "wt_result (release_waiter r w) = (if wt_ready w then wt_result w else r)"
  by (simp add: release_waiter_def)

lemma remove_waiter_cut:
  "\<exists>A B C. ks_waiting s = A @ B @ C \<and> ks_waiting (KernelSemaPrivate_RemoveWaiter key s) = A @ C"
proof -
  let ?P = "\<lambda>x. wt_key x \<noteq> key"
  have "xs = take 1 xs @ tl xs" for xs :: "waiting_thread list" by (cases xs) auto
  then have "ks_waiting s = takeWhile ?P (ks_waiting s) @ take 1 (dropWhile ?P (ks_waiting s)) @ tl (dropWhile ?P (ks_waiting s))"
    by (metis takeWhile_dropWhile_id)
  then show ?thesis by (auto simp: KernelSemaPrivate_RemoveWaiter_def)
qed

lemma remove_waiter_same [simp]:
  "ks_count (KernelSemaPrivate_RemoveWaiter key s) = ks_count s"
  "ks_max_count (KernelSemaPrivate_RemoveWaiter key s) = ks_max_count s"
  "ks_init_count (KernelSemaPrivate_RemoveWaiter key s) = ks_init_count s"
  "ks_status (KernelSemaPrivate_RemoveWaiter key s) = ks_status s"
  "ks_fifo_order (KernelSemaPrivate_RemoveWaiter key s) = ks_fifo_order s"
  by (simp_all add: KernelSemaPrivate_RemoveWaiter_def)

lemma remove_waiter_inv: "ks_inv s \<Longrightarrow> ks_inv (KernelSemaPrivate_RemoveWaiter key s)"
proof -
  assume inv: "ks_inv s"
  obtain A B C where c: "ks_waiting s = A @ B @ C" "ks_waiting (KernelSemaPrivate_RemoveWaiter key s) = A @ C"
    using remove_waiter_cut [of s key] by blast
  have "distinct (map wt_key (A @ C))" "\<not> ks_fifo_order s \<Longrightarrow> sorted (map wt_priority (A @ C))"
    using inv by (auto simp: ks_inv_def c(1) sorted_append)
  moreover have "\<forall>w\<in>set (A @ C). waiter_ok s w" using inv by (auto simp: ks_inv_def c(1))
  ultimately show ?thesis by (simp add: ks_inv_def c(2) waiter_ok_def)
qed

lemma add_waiter_set:
  "set (ks_waiting (KernelSemaPrivate_AddWaiter w s)) = insert w (set (ks_waiting s))"
proof -
  let ?P = "\<lambda>x. wt_priority x \<le> wt_priority w"
  have "set (takeWhile ?P (ks_waiting s)) \<union> set (dropWhile ?P (ks_waiting s)) = set (ks_waiting s)"
    by (metis set_append takeWhile_dropWhile_id)
  then show ?thesis by (auto simp: KernelSemaPrivate_AddWaiter_def)
qed

lemma add_waiter_inv:
  assumes "ks_inv s" and "wt_key w \<notin> wt_key ` set (ks_waiting s)" and "waiter_ok s w"
  shows "ks_inv (KernelSemaPrivate_AddWaiter w s)"
proof -
  let ?P = "\<lambda>x. wt_priority x \<le> wt_priority w"
  define A D where "A = takeWhile ?P (ks_waiting s)" and "D = dropWhile ?P (ks_waiting s)"
  have ws: "ks_waiting s = A @ D" by (simp add: A_def D_def)
  have dist: "distinct (map wt_key (A @ w # D))" and sort: "\<not> ks_fifo_order s \<Longrightarrow> sorted (map wt_priority (A @ D))"
    using assms(1,2) by (auto simp: ks_inv_def ws)
  have le: "\<forall>x\<in>set A. ?P x" unfolding A_def by (auto dest: set_takeWhileD)
  have ge: "\<forall>x\<in>set D. wt_priority w \<le> wt_priority x" if "\<not> ks_fifo_order s"
  proof (cases D)
    case (Cons y ys)
    then have "\<not> ?P y" using hd_dropWhile [of ?P "ks_waiting s"] by (simp add: D_def)
    then show ?thesis using sort [OF that] Cons by (auto simp: sorted_append)
  qed simp
  have sorted: "sorted (map wt_priority (A @ w # D))" if "\<not> ks_fifo_order s"
    using sort [OF that] ge [OF that] le by (auto simp: sorted_append)
  have all: "\<forall>x\<in>insert w (set (ks_waiting s)). waiter_ok s x" using assms by (auto simp: ks_inv_def)
  have run: "KernelSemaPrivate_AddWaiter w s =
      s\<lparr>ks_waiting := (if ks_fifo_order s then ks_waiting s @ [w] else A @ w # D)\<rparr>"
    by (simp add: KernelSemaPrivate_AddWaiter_def A_def D_def)
  show ?thesis
  proof (cases "ks_fifo_order s")
    case True
    then show ?thesis using assms(1,2) all unfolding run by (auto simp: ks_inv_def waiter_ok_def)
  next
    case False
    then show ?thesis using dist sorted all unfolding run ks_inv_def by (auto simp: waiter_ok_def ws)
  qed
qed

lemma map_release_inv:
  assumes "ks_inv s" and "r \<noteq> SemaTimedOut"
  shows "ks_inv (s\<lparr>ks_count := c, ks_status := st, ks_waiting := map (release_waiter r) (ks_waiting s)\<rparr>)"
  using assms by (auto simp: ks_inv_def waiter_ok_def comp_def release_waiter_result)

lemma WakeWaiters_inv:
  assumes d: "distinct (map wt_key (ks_waiting s))" and st: "ks_status s \<noteq> SemaIsDeleted"
    and w: "\<forall>w\<in>set (ks_waiting s). 1 \<le> wt_need_count w \<and> wt_need_count w \<le> ks_max_count s \<and>
       (wt_ready w \<longrightarrow> wt_result w \<noteq> SemaTimedOut)"
    and p: "\<not> ks_fifo_order s \<longrightarrow> sorted (map wt_priority (ks_waiting s))"
  shows "ks_inv (KernelSemaPrivate_WakeWaiters s)"
proof -
  obtain c' ws' where r: "wake_loop (ks_count s) (ks_waiting s) = (c', ws')" by fastforce
  note k = wake_loop_keeps [OF r] and sp = wake_loop_spec [OF r]
  have need: "\<forall>w\<in>set ws'. 1 \<le> wt_need_count w \<and> wt_need_count w \<le> ks_max_count s"
  proof -
    have "wt_need_count ` set ws' = wt_need_count ` set (ks_waiting s)" using k w by (metis image_set)
    then show ?thesis using w by (metis (no_types, lifting) imageE imageI)
  qed
  have "\<forall>w\<in>set ws'. (\<not> wt_ready w \<longrightarrow> c' < wt_need_count w) \<and> (wt_ready w \<longrightarrow> wt_result w \<noteq> SemaTimedOut)"
    using k w by (metis sema_result.distinct(1))
  then show ?thesis
    using need k d p w st r by (simp add: ks_inv_def waiter_ok_def KernelSemaPrivate_WakeWaiters_def)
qed

lemma ks_inv_step:
  assumes "ks_inv s" and "sema_exec e s = Some s'"
  shows "ks_inv s'"
proof (cases e)
  case (SemaWait key tid prio need timeout)
  have key: "key \<notin> wt_key ` set (ks_waiting s)" using assms(2) SemaWait by (auto split: if_splits)
  have run: "s' = snd (KernelSemaPrivate_Wait_enter key tid prio need timeout s)" using assms(2) SemaWait key by simp
  let ?w = "\<lparr>wt_key = key, wt_id = tid, wt_priority = (if ks_fifo_order s then 0 else prio),
    wt_need_count = need, wt_result = SemaTimedOut, wt_ready = False\<rparr>"
  consider "s' = s" | "need \<le> ks_count s" "1 \<le> need" "s' = s\<lparr>ks_count := ks_count s - need\<rparr>"
    | "ks_count s < need" "1 \<le> need" "need \<le> ks_max_count s" "ks_status s \<noteq> SemaIsDeleted" "s' = KernelSemaPrivate_AddWaiter ?w s"
    using run by (auto simp: KernelSemaPrivate_Wait_enter_def split: if_splits)
  then show ?thesis
  proof cases
    case 1
    then show ?thesis using assms(1) by simp
  next
    case 2
    then show ?thesis using assms(1) by (force simp: ks_inv_def waiter_ok_def)
  next
    case 3
    then have "waiter_ok s ?w" by (simp add: waiter_ok_def)
    then show ?thesis using add_waiter_inv [OF assms(1), of ?w] key 3 by simp
  qed
next
  case (SemaResume key timeout elapsed)
  then have "s' = s \<or> s' = KernelSemaPrivate_RemoveWaiter key s"
    using assms(2) by (auto simp: KernelSemaPrivate_Wait_resume_def split: option.splits if_splits)
  then show ?thesis using assms(1) remove_waiter_inv by blast
next
  case (SemaSignal n)
  then consider "s' = s" | "ks_status s \<noteq> SemaIsDeleted" "s' = KernelSemaPrivate_WakeWaiters (s\<lparr>ks_count := ks_count s + n\<rparr>)"
    using assms(2) by (auto simp: KernelSemaPrivate_Signal_def split: if_splits)
  then show ?thesis
  proof cases
    case 1
    then show ?thesis using assms(1) by simp
  next
    case 2
    show ?thesis unfolding 2(2)
      by (rule WakeWaiters_inv) (use assms(1) 2(1) in \<open>auto simp: ks_inv_def waiter_ok_def\<close>)
  qed
next
  case (SemaCancel n)
  then consider "s' = s" | "s' = s\<lparr>ks_count := (if n < 0 then ks_init_count s else n), ks_status := ks_status s,
      ks_waiting := map (release_waiter SemaCanceled) (ks_waiting s)\<rparr>"
    using assms(2) by (auto simp: KernelSemaPrivate_Cancel_def split: if_splits)
  then show ?thesis
  proof cases
    case 2
    show ?thesis unfolding 2 by (rule map_release_inv [OF assms(1)]) simp
  qed (use assms(1) in simp)
next
  case SemaDestroy
  then have eq: "s' = s\<lparr>ks_count := ks_count s, ks_status := SemaIsDeleted, ks_waiting := map (release_waiter SemaDeleted) (ks_waiting s)\<rparr>"
    using assms(2) by (auto simp: KernelSemaPrivate_destroy_def split: if_splits)
  show ?thesis unfolding eq by (rule map_release_inv [OF assms(1)]) simp
qed

lemma ks_inv_init: "ks_inv (KernelSemaPrivate_init nm fifo i mx)"
  by (simp add: ks_inv_def KernelSemaPrivate_init_def)

interpretation sema: guarded_system sema_exec "\<lambda>_. True" ks_inv
  by unfold_locales (rule ks_inv_step)

text \<open>Signals that add a count keep the count within its bounds.\<close>

fun adds_count :: "sema_event \<Rightarrow> bool" where
  "adds_count (SemaSignal n) = (0 \<le> n)"
| "adds_count _ = True"

lemma ks_bounded_step:
  assumes ok: "adds_count e" and "ks_inv s \<and> ks_bounded s" and ex: "sema_exec e s = Some s'"
  shows "ks_inv s' \<and> ks_bounded s'"
proof
  have b: "ks_bounded s" and inv: "ks_inv s" using assms(2) by auto
  show "ks_inv s'" by (rule ks_inv_step [OF inv ex])
  have need: "\<forall>w\<in>set (ks_waiting s'). 1 \<le> wt_need_count w"
    using ks_inv_step [OF inv ex] by (simp add: ks_inv_def waiter_ok_def)
  have "0 \<le> ks_count s' \<and> ks_count s' \<le> ks_max_count s' \<and> ks_init_count s' = ks_init_count s \<and> ks_max_count s' = ks_max_count s"
  proof (cases e)
    case (SemaSignal n)
    show ?thesis
    proof (cases "s' = s")
      case False
      obtain c' ws' where r: "wake_loop (ks_count s + n) (ks_waiting s) = (c', ws')" by fastforce
      have "s' = s\<lparr>ks_count := c', ks_waiting := ws'\<rparr>" "ks_count s + n \<le> ks_max_count s"
        using ex SemaSignal False r
        by (auto simp: KernelSemaPrivate_Signal_def KernelSemaPrivate_WakeWaiters_def split: if_splits)
      moreover have "c' \<le> ks_count s + n" "0 \<le> c'"
        using wake_loop_keeps [OF r] b ok SemaSignal by (auto simp: ks_bounded_def)
      ultimately show ?thesis by simp
    qed (use b in \<open>simp add: ks_bounded_def\<close>)
  qed (use b ex in \<open>auto simp: ks_bounded_def KernelSemaPrivate_Wait_enter_def KernelSemaPrivate_AddWaiter_def
      KernelSemaPrivate_Wait_resume_def KernelSemaPrivate_Cancel_def KernelSemaPrivate_destroy_def
      split: if_splits option.splits\<close>)
  then show "ks_bounded s'" using b need by (auto simp: ks_bounded_def)
qed

interpretation sema_counted: guarded_system sema_exec adds_count "\<lambda>s. ks_inv s \<and> ks_bounded s"
  by unfold_locales (rule ks_bounded_step)

subsection \<open>Properties\<close>



text \<open>
  C25: The count never leaves its bounds: for a semaphore made with a count between zero and its
  maximum, as long as signals add a count, every state reached has a count between zero and the
  maximum.
\<close>

theorem sema_count_bounds:
  assumes "0 \<le> i" and "i \<le> mx" and "list_all adds_count es"
    and "run sema_exec es (KernelSemaPrivate_init nm fifo i mx) = Some s"
  shows "0 \<le> ks_count s \<and> ks_count s \<le> ks_max_count s"
proof -
  have "ks_inv (KernelSemaPrivate_init nm fifo i mx) \<and> ks_bounded (KernelSemaPrivate_init nm fifo i mx)"
    using assms(1,2) by (simp add: ks_inv_init) (simp add: ks_bounded_def KernelSemaPrivate_init_def)
  from sema_counted.run_inv [OF assms(3) this assms(4)] show ?thesis by (simp add: ks_bounded_def)
qed

theorem sema_count_bounds_witness:
  "\<exists>s. run sema_exec [SemaSignal 3, SemaWait 1 1 700 2 None] (KernelSemaPrivate_init ''s'' True 1 4) = Some s \<and>
     0 \<le> ks_count s \<and> ks_count s \<le> ks_max_count s"
proof -
  obtain s where s: "run sema_exec [SemaSignal 3, SemaWait 1 1 700 2 None] (KernelSemaPrivate_init ''s'' True 1 4) = Some s"
    by (simp add: KernelSemaPrivate_init_def KernelSemaPrivate_Wait_enter_def
        KernelSemaPrivate_Signal_def KernelSemaPrivate_WakeWaiters_def i32_range_def)
  then show ?thesis using sema_count_bounds [of 1 4, OF _ _ _ s] by simp
qed

text \<open>
  A successful \<open>Signal\<close> conserves the count: what it adds is kept or granted. Waiters are served
  in their order, each exactly when it was waiting and what the earlier ones left suffices; every
  other waiter is untouched.
\<close>

lemma Signal_correct:
  assumes "KernelSemaPrivate_Signal n s = Some (SemaOk, s')"
  shows "ks_status s \<noteq> SemaIsDeleted \<and> ks_count s + n \<le> ks_max_count s \<and>
    length (ks_waiting s') = length (ks_waiting s) \<and>
    ks_count s' + granted (ks_waiting s) (ks_waiting s') (length (ks_waiting s)) = ks_count s + n \<and>
    (\<forall>i<length (ks_waiting s). ks_waiting s' ! i =
       (if \<not> wt_ready (ks_waiting s ! i) \<and>
          wt_need_count (ks_waiting s ! i) \<le> ks_count s + n - granted (ks_waiting s) (ks_waiting s') i
        then (ks_waiting s ! i)\<lparr>wt_result := SemaOk, wt_ready := True\<rparr> else ks_waiting s ! i))"
proof -
  obtain c' ws' where r: "wake_loop (ks_count s + n) (ks_waiting s) = (c', ws')" by fastforce
  have s': "s' = s\<lparr>ks_count := c', ks_waiting := ws'\<rparr>" "ks_status s \<noteq> SemaIsDeleted" "ks_count s + n \<le> ks_max_count s"
    using assms r by (auto simp: KernelSemaPrivate_Signal_def KernelSemaPrivate_WakeWaiters_def split: if_splits)
  show ?thesis using wake_loop_spec [OF r] s' by simp
qed

definition demo_sema :: kernel_sema where
  "demo_sema = (KernelSemaPrivate_init ''s'' True 1 4)\<lparr>ks_waiting :=
     [\<lparr>wt_key = 1, wt_id = 1, wt_priority = 0, wt_need_count = 3, wt_result = SemaTimedOut, wt_ready = False\<rparr>,
      \<lparr>wt_key = 2, wt_id = 2, wt_priority = 0, wt_need_count = 2, wt_result = SemaTimedOut, wt_ready = False\<rparr>]\<rparr>"

text \<open>
  \<open>KernelPollSema\<close> never blocks. It succeeds exactly when the semaphore is alive and at least the
  asked count, itself between one and the maximum, is there, and then takes exactly that; in every
  other case nothing changes and the code tells why.
\<close>

lemma KernelPollSema_correct:
  "KernelPollSema key tid prio (Some s) need =
    (if need < 1 \<or> ks_max_count s < need then (Some KERNEL_ERROR_EINVAL, Some s)
     else if ks_status s = SemaSet \<and> need \<le> ks_count s then (Some OK, Some (s\<lparr>ks_count := ks_count s - need\<rparr>))
     else (Some KERNEL_ERROR_EBUSY, Some s))"
  by (cases "ks_status s")
    (auto simp: KernelPollSema_def KernelSemaPrivate_Poll_def KernelSemaPrivate_Wait_enter_def KernelPollSema_code_def)

end
