(* ===== verification/KernelTime.thy ===== *)
theory KernelTime
  imports Main
begin

text \<open>
  The time structure of the kernel interface (\<open>KernelTimespec\<close> in \<open>src/src/kernel/pthread.h\<close>) and
  the range of the 64-bit integers its users compute in.
\<close>

record kernel_timespec =
  tv_sec :: int
  tv_nsec :: int

definition i64_range :: "int \<Rightarrow> bool" where
  "i64_range n \<longleftrightarrow> -9223372036854775808 \<le> n \<and> n \<le> 9223372036854775807"

end
