(* ===== verification/PosixSem.thy ===== *)
theory PosixSem
  imports Prelude Errno Runs KernelTime "HOL-Library.Signed_Division"
begin

text \<open>
  POSIX semaphores and their kernel wrappers: \<open>class PosixSemPrivate\<close>, the table of semaphores and
  the two APIs of \<open>src/src/kernel/semaphore.cpp\<close>. The semaphore mirrors itself into a structure
  in guest memory. A blocking \<open>Wait\<close> is one operation for its entry and one per wake-up.
\<close>

subsection \<open>The semaphore\<close>

record posix_sem_guest =
  pg_magic :: u16
  pg_nameid :: u16
  pg_has_waiters :: u32
  pg_count :: u32
  pg_flags :: u32

record posix_sem =
  px_guest :: posix_sem_guest
  px_count :: int
  px_waiters :: u32

abbreviation POSIX_SEM_MAGIC :: u16 where "POSIX_SEM_MAGIC \<equiv> 2554"
abbreviation POSIX_SEM_VALUE_MAX :: int where "POSIX_SEM_VALUE_MAX \<equiv> 2147483647"

definition PosixSemPrivate_SyncGuest :: "u32 \<Rightarrow> posix_sem \<Rightarrow> posix_sem" where
  "PosixSemPrivate_SyncGuest flags s =
     s\<lparr>px_guest := (px_guest s)\<lparr>pg_magic := POSIX_SEM_MAGIC, pg_nameid := 0,
        pg_has_waiters := (if 0 < px_waiters s then 1 else 0), pg_count := word_of_int (px_count s),
        pg_flags := (if flags \<noteq> u32_max then flags else pg_flags (px_guest s))\<rparr>\<rparr>"

definition PosixSemPrivate_init :: "posix_sem_guest \<Rightarrow> u32 \<Rightarrow> u32 \<Rightarrow> posix_sem" where
  "PosixSemPrivate_init guest v flags =
     PosixSemPrivate_SyncGuest flags \<lparr>px_guest = guest, px_count = sint (ucast v :: i32), px_waiters = 0\<rparr>"

text \<open>
  One test of the wait loop: the code returned, or \<open>None\<close> when the thread goes to sleep. \<open>timeout\<close>
  is \<open>*micros\<close>, \<open>None\<close> for a null pointer.
\<close>

definition PosixSemPrivate_Wait_test :: "u32 option \<Rightarrow> u32 \<Rightarrow> posix_sem \<Rightarrow> int option \<times> posix_sem" where
  "PosixSemPrivate_Wait_test timeout elapsed s =
     (if px_count s \<le> 0
      then
        (case timeout of
           Some micros \<Rightarrow>
             if micros \<le> elapsed then (Some POSIX_ETIMEDOUT, PosixSemPrivate_SyncGuest u32_max s)
             else (None, PosixSemPrivate_SyncGuest u32_max (s\<lparr>px_waiters := px_waiters s + 1\<rparr>))
         | None \<Rightarrow> (None, PosixSemPrivate_SyncGuest u32_max (s\<lparr>px_waiters := px_waiters s + 1\<rparr>)))
      else (Some OK, PosixSemPrivate_SyncGuest u32_max (s\<lparr>px_count := px_count s - 1\<rparr>)))"

definition PosixSemPrivate_Wait_enter :: "u32 option \<Rightarrow> posix_sem \<Rightarrow> int option \<times> posix_sem" where
  "PosixSemPrivate_Wait_enter timeout = PosixSemPrivate_Wait_test timeout 0"

definition PosixSemPrivate_Wait_resume :: "u32 option \<Rightarrow> u32 \<Rightarrow> posix_sem \<Rightarrow> int option \<times> posix_sem" where
  "PosixSemPrivate_Wait_resume timeout elapsed s =
     PosixSemPrivate_Wait_test timeout elapsed (s\<lparr>px_waiters := px_waiters s - 1\<rparr>)"

definition PosixSemPrivate_TryWait :: "posix_sem \<Rightarrow> int \<times> posix_sem" where
  "PosixSemPrivate_TryWait s =
     (if px_count s \<le> 0 then (POSIX_EAGAIN, PosixSemPrivate_SyncGuest u32_max s)
      else (OK, PosixSemPrivate_SyncGuest u32_max (s\<lparr>px_count := px_count s - 1\<rparr>)))"

definition PosixSemPrivate_Post :: "posix_sem \<Rightarrow> int \<times> posix_sem" where
  "PosixSemPrivate_Post s =
     (if px_count s = POSIX_SEM_VALUE_MAX then (POSIX_EOVERFLOW, s)
      else (OK, PosixSemPrivate_SyncGuest u32_max (s\<lparr>px_count := px_count s + 1\<rparr>)))"

definition PosixSemPrivate_GetValue :: "posix_sem \<Rightarrow> int" where
  "PosixSemPrivate_GetValue s = px_count s"

subsection \<open>The table of semaphores\<close>

text \<open>
  \<open>g_posix_sems\<close> maps the address of a guest structure to its semaphore. A pointer argument is an
  address, 0 for null. The guest structures themselves are \<open>pt_mem\<close> for addresses without a
  semaphore, and the \<open>px_guest\<close> of the semaphore otherwise.
\<close>

record posix_sems =
  pt_sems :: "u64 \<rightharpoonup> posix_sem"
  pt_mem :: "u64 \<Rightarrow> posix_sem_guest"

definition PosixToKernel :: "int \<Rightarrow> int" where
  "PosixToKernel e = (if 0 \<le> e \<and> e \<le> 102 then e - 2147352576 else KERNEL_ERROR_EINVAL)"

definition GetSem :: "u64 \<Rightarrow> posix_sems \<Rightarrow> posix_sem option" where
  "GetSem sem t = (if sem = 0 then None else pt_sems t sem)"

definition PutSem :: "u64 \<Rightarrow> posix_sem \<Rightarrow> posix_sems \<Rightarrow> posix_sems" where
  "PutSem sem s t = t\<lparr>pt_sems := (pt_sems t)(sem \<mapsto> s)\<rparr>"

text \<open>A failing POSIX call returns -1 and sets \<open>errno\<close>: the result and the new \<open>errno\<close>, if any.\<close>

definition SetErrnoReturn :: "int \<Rightarrow> int \<times> int option" where
  "SetErrnoReturn e = (-1, Some e)"

definition posix_return :: "int \<Rightarrow> int \<times> int option" where
  "posix_return result = (if result = OK then (0, None) else SetErrnoReturn result)"

definition kernel_return :: "int \<Rightarrow> int" where
  "kernel_return result = (if result = OK then OK else PosixToKernel result)"

definition guest_at :: "u64 \<Rightarrow> posix_sems \<Rightarrow> posix_sem_guest" where
  "guest_at sem t = (case pt_sems t sem of Some s \<Rightarrow> px_guest s | None \<Rightarrow> pt_mem t sem)"

definition SemInitImpl :: "u64 \<Rightarrow> int \<Rightarrow> u32 \<Rightarrow> posix_sems \<Rightarrow> int \<times> posix_sems" where
  "SemInitImpl sem pshared v t =
     (if sem = 0 \<or> POSIX_SEM_VALUE_MAX < uint v then (POSIX_EINVAL, t)
      else (OK, PutSem sem (PosixSemPrivate_init (guest_at sem t) v (word_of_int pshared)) t))"

definition SemDestroyImpl :: "u64 \<Rightarrow> posix_sems \<Rightarrow> int \<times> posix_sems" where
  "SemDestroyImpl sem t =
     (if sem = 0 then (POSIX_EINVAL, t)
      else
        case pt_sems t sem of
          None \<Rightarrow> (POSIX_EINVAL, t)
        | Some s \<Rightarrow>
            (OK, t\<lparr>pt_sems := (pt_sems t)(sem := None),
                   pt_mem := (pt_mem t)(sem :=
                     (px_guest s)\<lparr>pg_magic := 0, pg_has_waiters := 0, pg_count := 0, pg_flags := 0\<rparr>)\<rparr>))"

text \<open>Entering a wait: the POSIX code, or \<open>None\<close> when the thread blocks.\<close>

definition SemTimedwaitImpl :: "u64 \<Rightarrow> u32 option \<Rightarrow> posix_sems \<Rightarrow> int option \<times> posix_sems" where
  "SemTimedwaitImpl sem timeout t =
     (case GetSem sem t of
        None \<Rightarrow> (Some POSIX_EINVAL, t)
      | Some s \<Rightarrow> (let (r, s') = PosixSemPrivate_Wait_enter timeout s in (r, PutSem sem s' t)))"

text \<open>
  The microseconds from now to an absolute time, clamped to 32 bits. \<open>now\<close> is what the clock
  answers, \<open>None\<close> when it fails. The outer \<open>None\<close> is a signed overflow of \<open>int64_t\<close>.
\<close>

definition AbsTimespecToMicros :: "kernel_timespec option \<Rightarrow> kernel_timespec option \<Rightarrow> u32 option option" where
  "AbsTimespecToMicros abstime now =
     (case abstime of
        None \<Rightarrow> Some None
      | Some a \<Rightarrow>
          if tv_sec a < 0 \<or> tv_nsec a < 0 \<or> 1000000000 \<le> tv_nsec a then Some None
          else
            case now of
              None \<Rightarrow> Some None
            | Some n \<Rightarrow>
                let sec_delta = tv_sec a - tv_sec n;
                    nsec_delta = tv_nsec a - tv_nsec n;
                    usec_delta = sec_delta * 1000000 + nsec_delta sdiv 1000
                in if \<not> i64_range sec_delta \<or> \<not> i64_range nsec_delta \<or> \<not> i64_range (sec_delta * 1000000) \<or>
                      \<not> i64_range usec_delta then None
                   else if usec_delta \<le> 0 then Some (Some 0)
                   else if 4294967295 < usec_delta then Some (Some u32_max)
                   else Some (Some (word_of_int usec_delta)))"

subsection \<open>The POSIX API\<close>

definition sem_init :: "u64 \<Rightarrow> int \<Rightarrow> u32 \<Rightarrow> posix_sems \<Rightarrow> (int \<times> int option) \<times> posix_sems" where
  "sem_init sem pshared v t = (let (r, t') = SemInitImpl sem pshared v t in (posix_return r, t'))"

definition sem_destroy :: "u64 \<Rightarrow> posix_sems \<Rightarrow> (int \<times> int option) \<times> posix_sems" where
  "sem_destroy sem t = (let (r, t') = SemDestroyImpl sem t in (posix_return r, t'))"

definition sem_wait :: "u64 \<Rightarrow> posix_sems \<Rightarrow> (int \<times> int option) option \<times> posix_sems" where
  "sem_wait sem t = (let (r, t') = SemTimedwaitImpl sem None t in (map_option posix_return r, t'))"

definition sem_trywait :: "u64 \<Rightarrow> posix_sems \<Rightarrow> (int \<times> int option) \<times> posix_sems" where
  "sem_trywait sem t =
     (case GetSem sem t of
        None \<Rightarrow> (SetErrnoReturn POSIX_EINVAL, t)
      | Some s \<Rightarrow> (let (r, s') = PosixSemPrivate_TryWait s in (posix_return r, PutSem sem s' t)))"

definition sem_reltimedwait_np :: "u64 \<Rightarrow> u32 \<Rightarrow> posix_sems \<Rightarrow> (int \<times> int option) option \<times> posix_sems" where
  "sem_reltimedwait_np sem usec t = (let (r, t') = SemTimedwaitImpl sem (Some usec) t in (map_option posix_return r, t'))"

definition sem_timedwait ::
  "u64 \<Rightarrow> kernel_timespec option \<Rightarrow> kernel_timespec option \<Rightarrow> posix_sems \<Rightarrow> ((int \<times> int option) option \<times> posix_sems) option" where
  "sem_timedwait sem abstime now t =
     (case AbsTimespecToMicros abstime now of
        None \<Rightarrow> None
      | Some None \<Rightarrow> Some (Some (SetErrnoReturn POSIX_EINVAL), t)
      | Some (Some micros) \<Rightarrow>
          Some (let (r, t') = SemTimedwaitImpl sem (Some micros) t in (map_option posix_return r, t')))"

definition sem_post :: "u64 \<Rightarrow> posix_sems \<Rightarrow> (int \<times> int option) \<times> posix_sems" where
  "sem_post sem t =
     (case GetSem sem t of
        None \<Rightarrow> (SetErrnoReturn POSIX_EINVAL, t)
      | Some s \<Rightarrow> (let (r, s') = PosixSemPrivate_Post s in (posix_return r, PutSem sem s' t)))"

definition sem_getvalue :: "u64 \<Rightarrow> bool \<Rightarrow> posix_sems \<Rightarrow> (int \<times> int option) \<times> int option" where
  "sem_getvalue sem value_null t =
     (case GetSem sem t of
        None \<Rightarrow> (SetErrnoReturn POSIX_EINVAL, None)
      | Some s \<Rightarrow> if value_null then (SetErrnoReturn POSIX_EINVAL, None) else ((0, None), Some (PosixSemPrivate_GetValue s)))"

subsection \<open>The kernel API\<close>

definition PthreadSemInit :: "u64 \<Rightarrow> int \<Rightarrow> u32 \<Rightarrow> posix_sems \<Rightarrow> int \<times> posix_sems" where
  "PthreadSemInit sem flag v t =
     (if flag \<noteq> 0 then (KERNEL_ERROR_EINVAL, t)
      else (let (r, t') = SemInitImpl sem 0 v t in (kernel_return r, t')))"

definition PthreadSemDestroy :: "u64 \<Rightarrow> posix_sems \<Rightarrow> int \<times> posix_sems" where
  "PthreadSemDestroy sem t = (let (r, t') = SemDestroyImpl sem t in (kernel_return r, t'))"

definition PthreadSemWait :: "u64 \<Rightarrow> posix_sems \<Rightarrow> int option \<times> posix_sems" where
  "PthreadSemWait sem t = (let (r, t') = SemTimedwaitImpl sem None t in (map_option kernel_return r, t'))"

definition PthreadSemTrywait :: "u64 \<Rightarrow> posix_sems \<Rightarrow> int \<times> posix_sems" where
  "PthreadSemTrywait sem t =
     (case GetSem sem t of
        None \<Rightarrow> (KERNEL_ERROR_EINVAL, t)
      | Some s \<Rightarrow> (let (r, s') = PosixSemPrivate_TryWait s in (kernel_return r, PutSem sem s' t)))"

definition PthreadSemTimedwait :: "u64 \<Rightarrow> u32 \<Rightarrow> posix_sems \<Rightarrow> int option \<times> posix_sems" where
  "PthreadSemTimedwait sem usec t = (let (r, t') = SemTimedwaitImpl sem (Some usec) t in (map_option kernel_return r, t'))"

definition PthreadSemPost :: "u64 \<Rightarrow> posix_sems \<Rightarrow> int \<times> posix_sems" where
  "PthreadSemPost sem t =
     (case GetSem sem t of
        None \<Rightarrow> (KERNEL_ERROR_EINVAL, t)
      | Some s \<Rightarrow> (let (r, s') = PosixSemPrivate_Post s in (kernel_return r, PutSem sem s' t)))"

definition PthreadSemGetvalue :: "u64 \<Rightarrow> bool \<Rightarrow> posix_sems \<Rightarrow> int \<times> int option" where
  "PthreadSemGetvalue sem value_null t =
     (case GetSem sem t of
        None \<Rightarrow> (KERNEL_ERROR_EINVAL, None)
      | Some s \<Rightarrow> if value_null then (KERNEL_ERROR_EINVAL, None) else (OK, Some (PosixSemPrivate_GetValue s)))"

end
