(* ===== verification/PosixSemProps.thy ===== *)
theory PosixSemProps
  imports PosixSem
begin

text \<open>
  What holds of a POSIX semaphore in every run: its count is what was posted less what was taken,
  within bounds, and the structure in guest memory mirrors it whenever the mutex is free. The
  kernel API answers as the POSIX API does, with kernel error numbers.
\<close>

subsection \<open>Runs\<close>

text \<open>The semaphore with the number of threads asleep in it and the successful waits and posts so far.\<close>

record posix_sem_sys =
  py_sem :: posix_sem
  py_asleep :: nat
  py_taken :: int
  py_posted :: int

datatype posix_sem_event =
    PosixWait "u32 option"
  | PosixWake "u32 option" u32
  | PosixTryWait
  | PosixPost

definition account_wait :: "int option \<times> posix_sem \<Rightarrow> posix_sem_sys \<Rightarrow> posix_sem_sys" where
  "account_wait p y =
     y\<lparr>py_sem := snd p, py_asleep := (if fst p = None then Suc (py_asleep y) else py_asleep y),
        py_taken := (if fst p = Some OK then py_taken y + 1 else py_taken y)\<rparr>"

text \<open>Fewer than \<open>2 ^ 32 - 1\<close> threads sleep in one semaphore.\<close>

fun posix_sem_exec :: "posix_sem_event \<Rightarrow> posix_sem_sys \<Rightarrow> posix_sem_sys option" where
  "posix_sem_exec (PosixWait timeout) y =
     (if py_asleep y < 4294967295 then Some (account_wait (PosixSemPrivate_Wait_enter timeout (py_sem y)) y) else None)"
| "posix_sem_exec (PosixWake timeout elapsed) y =
     (if py_asleep y = 0 then None
      else Some (account_wait (PosixSemPrivate_Wait_resume timeout elapsed (py_sem y)) (y\<lparr>py_asleep := py_asleep y - 1\<rparr>)))"
| "posix_sem_exec PosixTryWait y =
     (let (r, s) = PosixSemPrivate_TryWait (py_sem y) in Some (account_wait (Some r, s) y))"
| "posix_sem_exec PosixPost y =
     (let (r, s) = PosixSemPrivate_Post (py_sem y)
      in Some (y\<lparr>py_sem := s, py_posted := (if r = OK then py_posted y + 1 else py_posted y)\<rparr>))"

definition posix_sem_start :: "posix_sem_guest \<Rightarrow> u32 \<Rightarrow> u32 \<Rightarrow> posix_sem_sys" where
  "posix_sem_start guest v flags = \<lparr>py_sem = PosixSemPrivate_init guest v flags, py_asleep = 0, py_taken = 0, py_posted = 0\<rparr>"

text \<open>The guest structure agrees with the semaphore.\<close>

definition mirrored :: "posix_sem \<Rightarrow> bool" where
  "mirrored s \<longleftrightarrow> pg_magic (px_guest s) = POSIX_SEM_MAGIC \<and>
     pg_has_waiters (px_guest s) = (if 0 < px_waiters s then 1 else 0) \<and> pg_count (px_guest s) = word_of_int (px_count s)"

definition posix_sem_inv :: "int \<Rightarrow> posix_sem_sys \<Rightarrow> bool" where
  "posix_sem_inv v y \<longleftrightarrow> 0 \<le> px_count (py_sem y) \<and> px_count (py_sem y) \<le> POSIX_SEM_VALUE_MAX \<and>
     px_count (py_sem y) = v + py_posted y - py_taken y \<and> mirrored (py_sem y) \<and>
     px_waiters (py_sem y) = of_nat (py_asleep y) \<and> py_asleep y < 4294967296"

lemma sync_sel [simp]:
  "px_count (PosixSemPrivate_SyncGuest f s) = px_count s" "px_waiters (PosixSemPrivate_SyncGuest f s) = px_waiters s"
  "mirrored (PosixSemPrivate_SyncGuest f s)"
  by (simp_all add: PosixSemPrivate_SyncGuest_def mirrored_def)

lemma Wait_test_cases:
  "PosixSemPrivate_Wait_test timeout elapsed s =
     (if 0 < px_count s then (Some OK, PosixSemPrivate_SyncGuest u32_max (s\<lparr>px_count := px_count s - 1\<rparr>))
      else if (case timeout of Some micros \<Rightarrow> micros \<le> elapsed | None \<Rightarrow> False)
      then (Some POSIX_ETIMEDOUT, PosixSemPrivate_SyncGuest u32_max s)
      else (None, PosixSemPrivate_SyncGuest u32_max (s\<lparr>px_waiters := px_waiters s + 1\<rparr>)))"
  by (auto simp: PosixSemPrivate_Wait_test_def split: option.splits)

lemma OK_neq [simp]: "OK \<noteq> POSIX_ETIMEDOUT" "POSIX_ETIMEDOUT \<noteq> OK" "POSIX_EAGAIN \<noteq> OK" "POSIX_EOVERFLOW \<noteq> OK"
  "POSIX_EINVAL \<noteq> OK"
  by (simp_all add: errno_defs)

lemma posix_sem_step:
  assumes inv: "posix_sem_inv v y" and ex: "posix_sem_exec e y = Some y'"
  shows "posix_sem_inv v y'"
proof (cases e)
  case (PosixWait timeout)
  then show ?thesis
    using inv ex
    by (auto simp: posix_sem_inv_def account_wait_def PosixSemPrivate_Wait_enter_def Wait_test_cases split: if_splits)
next
  case (PosixWake timeout elapsed)
  then obtain n where n: "py_asleep y = Suc n" using ex by (cases "py_asleep y") auto
  then show ?thesis
    using PosixWake inv ex
    by (auto simp: posix_sem_inv_def account_wait_def PosixSemPrivate_Wait_resume_def Wait_test_cases split: if_splits)
next
  case PosixTryWait
  then show ?thesis
    using inv ex by (auto simp: posix_sem_inv_def account_wait_def PosixSemPrivate_TryWait_def split: if_splits)
next
  case PosixPost
  then show ?thesis
    using inv ex by (auto simp: posix_sem_inv_def PosixSemPrivate_Post_def split: if_splits)
qed

interpretation posix_semaphore: guarded_system posix_sem_exec "\<lambda>_. True" "posix_sem_inv v" for v
  by unfold_locales (rule posix_sem_step)

lemma posix_sem_start_inv:
  assumes "uint v \<le> POSIX_SEM_VALUE_MAX"
  shows "posix_sem_inv (uint v) (posix_sem_start guest v flags)"
proof -
  have "sint (ucast v :: i32) = uint v"
  proof -
    have "- (2 ^ 31) \<le> uint v" by (rule order.trans [OF _ uint_nonnegative]) simp
    then have "signed_take_bit 31 (uint v) = uint v" using assms by (intro signed_take_bit_int_eq_self) simp_all
    then show ?thesis by (simp add: sint_uint)
  qed
  then show ?thesis
    using assms by (simp add: posix_sem_inv_def posix_sem_start_def PosixSemPrivate_init_def)
qed

text \<open>A kernel result and a POSIX result (with the new \<open>errno\<close>) that report the same.\<close>

definition agrees :: "int \<Rightarrow> int \<times> int option \<Rightarrow> bool" where
  "agrees k p \<longleftrightarrow> (case snd p of None \<Rightarrow> k = OK \<and> fst p = 0 | Some e \<Rightarrow> fst p = -1 \<and> k = e - 2147352576)"

lemma agrees_return: "0 \<le> r \<Longrightarrow> r \<le> 102 \<Longrightarrow> agrees (kernel_return r) (posix_return r)"
  by (simp add: agrees_def kernel_return_def posix_return_def SetErrnoReturn_def PosixToKernel_def)

lemma agrees_einval: "agrees KERNEL_ERROR_EINVAL (SetErrnoReturn POSIX_EINVAL)"
  by (simp add: agrees_def SetErrnoReturn_def errno_defs)

lemma agrees_codes [simp]:
  "agrees (kernel_return OK) (posix_return OK)" "agrees (kernel_return POSIX_EINVAL) (posix_return POSIX_EINVAL)"
  "agrees (kernel_return POSIX_EAGAIN) (posix_return POSIX_EAGAIN)"
  "agrees (kernel_return POSIX_ETIMEDOUT) (posix_return POSIX_ETIMEDOUT)"
  "agrees (kernel_return POSIX_EOVERFLOW) (posix_return POSIX_EOVERFLOW)"
  by (rule agrees_return; simp add: errno_defs)+

lemma timedwait_agrees:
  "rel_option agrees (map_option kernel_return (fst (SemTimedwaitImpl sem timeout t)))
     (map_option posix_return (fst (SemTimedwaitImpl sem timeout t)))"
  by (auto simp: SemTimedwaitImpl_def PosixSemPrivate_Wait_enter_def Wait_test_cases split: option.splits prod.splits)

lemmas sem_calls = PthreadSemInit_def sem_init_def SemInitImpl_def PthreadSemDestroy_def sem_destroy_def SemDestroyImpl_def
  PthreadSemWait_def sem_wait_def PthreadSemTimedwait_def sem_reltimedwait_np_def PthreadSemTrywait_def sem_trywait_def
  PthreadSemPost_def sem_post_def PosixSemPrivate_TryWait_def PosixSemPrivate_Post_def

lemma init_agrees: "agrees (fst (PthreadSemInit sem 0 v t)) (fst (sem_init sem 0 v t)) \<and>
    snd (PthreadSemInit sem 0 v t) = snd (sem_init sem 0 v t)"
  by (simp add: sem_calls)

lemma destroy_agrees: "agrees (fst (PthreadSemDestroy sem t)) (fst (sem_destroy sem t)) \<and>
    snd (PthreadSemDestroy sem t) = snd (sem_destroy sem t)"
  by (simp add: sem_calls split: option.split)

lemma wait_agrees: "rel_option agrees (fst (PthreadSemWait sem t)) (fst (sem_wait sem t)) \<and>
    snd (PthreadSemWait sem t) = snd (sem_wait sem t)"
  using timedwait_agrees [of sem None t] by (simp add: PthreadSemWait_def sem_wait_def case_prod_beta)

lemma trywait_agrees: "agrees (fst (PthreadSemTrywait sem t)) (fst (sem_trywait sem t)) \<and>
    snd (PthreadSemTrywait sem t) = snd (sem_trywait sem t)"
  by (simp add: sem_calls agrees_einval split: option.split)

lemma reltimedwait_agrees: "rel_option agrees (fst (PthreadSemTimedwait sem usec t)) (fst (sem_reltimedwait_np sem usec t)) \<and>
    snd (PthreadSemTimedwait sem usec t) = snd (sem_reltimedwait_np sem usec t)"
  using timedwait_agrees [of sem "Some usec" t] by (simp add: PthreadSemTimedwait_def sem_reltimedwait_np_def case_prod_beta)

lemma post_agrees: "agrees (fst (PthreadSemPost sem t)) (fst (sem_post sem t)) \<and>
    snd (PthreadSemPost sem t) = snd (sem_post sem t)"
  by (simp add: sem_calls agrees_einval split: option.split)

subsection \<open>Properties\<close>

text \<open>
  C26: In every run of a POSIX semaphore made with a valid value, the count is the initial value plus
  the posts less the successful waits, it stays between zero and the maximum, and the guest
  structure shows the count and whether threads sleep.
\<close>

theorem posix_sem_conserved:
  assumes "uint v \<le> POSIX_SEM_VALUE_MAX" and "run posix_sem_exec es (posix_sem_start guest v flags) = Some y"
  shows "px_count (py_sem y) = uint v + py_posted y - py_taken y \<and> 0 \<le> px_count (py_sem y) \<and>
    px_count (py_sem y) \<le> POSIX_SEM_VALUE_MAX \<and> pg_count (px_guest (py_sem y)) = word_of_int (px_count (py_sem y)) \<and>
    (pg_has_waiters (px_guest (py_sem y)) = 1 \<longleftrightarrow> py_asleep y \<noteq> 0)"
proof -
  have inv: "posix_sem_inv (uint v) y"
    using posix_semaphore.run_inv [OF _ posix_sem_start_inv [OF assms(1)] assms(2)] by (simp add: list_all_iff)
  then have "px_waiters (py_sem y) = 0 \<longleftrightarrow> py_asleep y = 0"
    by (simp add: posix_sem_inv_def word_of_nat_eq_0_iff) (auto dest: dvd_imp_le)
  then show ?thesis using inv by (auto simp: posix_sem_inv_def mirrored_def word_gt_0)
qed

theorem posix_sem_conserved_witness:
  "\<exists>y. run posix_sem_exec [PosixWait None, PosixWait (Some 10), PosixPost, PosixWake None 5]
      (posix_sem_start \<lparr>pg_magic = 0, pg_nameid = 0, pg_has_waiters = 0, pg_count = 0, pg_flags = 0\<rparr> 1 0) = Some y \<and>
    px_count (py_sem y) = 1 + py_posted y - py_taken y"
proof -
  obtain y where y: "run posix_sem_exec [PosixWait None, PosixWait (Some 10), PosixPost, PosixWake None 5]
      (posix_sem_start \<lparr>pg_magic = 0, pg_nameid = 0, pg_has_waiters = 0, pg_count = 0, pg_flags = 0\<rparr> 1 0) = Some y"
    by (simp add: posix_sem_start_def PosixSemPrivate_init_def PosixSemPrivate_Wait_enter_def Wait_test_cases
        account_wait_def PosixSemPrivate_Post_def Let_def split: prod.splits if_splits)
  then show ?thesis using posix_sem_conserved [OF _ y] by auto
qed

text \<open>
  The kernel API and the POSIX API agree: on the same semaphore they leave the same state, and
  the kernel call returns the kernel number of the error the POSIX call puts in \<open>errno\<close>.
\<close>

lemma kernel_posix_sem_agree:
  "agrees (fst (PthreadSemInit sem 0 v t)) (fst (sem_init sem 0 v t)) \<and>
   snd (PthreadSemInit sem 0 v t) = snd (sem_init sem 0 v t) \<and>
   agrees (fst (PthreadSemDestroy sem t)) (fst (sem_destroy sem t)) \<and>
   snd (PthreadSemDestroy sem t) = snd (sem_destroy sem t) \<and>
   rel_option agrees (fst (PthreadSemWait sem t)) (fst (sem_wait sem t)) \<and>
   snd (PthreadSemWait sem t) = snd (sem_wait sem t) \<and>
   agrees (fst (PthreadSemTrywait sem t)) (fst (sem_trywait sem t)) \<and>
   snd (PthreadSemTrywait sem t) = snd (sem_trywait sem t) \<and>
   rel_option agrees (fst (PthreadSemTimedwait sem usec t)) (fst (sem_reltimedwait_np sem usec t)) \<and>
   snd (PthreadSemTimedwait sem usec t) = snd (sem_reltimedwait_np sem usec t) \<and>
   agrees (fst (PthreadSemPost sem t)) (fst (sem_post sem t)) \<and>
   snd (PthreadSemPost sem t) = snd (sem_post sem t)"
  using init_agrees destroy_agrees wait_agrees trywait_agrees reltimedwait_agrees post_agrees by blast

end
