(* ===== verification/EventFlag.thy ===== *)
theory EventFlag
  imports Prelude Errno Runs
begin

text \<open>
  Event flags: \<open>class KernelEventFlagPrivate\<close> and its API in \<open>src/src/kernel/eventFlag.cpp\<close>. A
  blocking \<open>Wait\<close> is one operation for its entry and one per wake-up (\<open>Wait_resume\<close>, which may be
  spurious); \<open>Cancel\<close> is its section before the drain and its end, which waits for the drain.
\<close>

subsection \<open>State\<close>

datatype ef_result = EfOk | EfAlreadyWaiting | EfTimedOut | EfCanceled | EfDeleted

datatype ef_clear = EfClearNone | EfClearAll | EfClearBits

datatype ef_wait = EfAnd | EfOr

datatype ef_status = EfSet | EfIsCanceled | EfIsDeleted

record event_flag =
  ef_status :: ef_status
  ef_waiting_threads :: int
  ef_name :: string
  ef_single_thread :: bool
  ef_bits :: u64

definition KernelEventFlagPrivate_init :: "string \<Rightarrow> bool \<Rightarrow> u64 \<Rightarrow> event_flag" where
  "KernelEventFlagPrivate_init nm single bits =
     \<lparr>ef_status = EfSet, ef_waiting_threads = 0, ef_name = nm, ef_single_thread = single, ef_bits = bits\<rparr>"

text \<open>An unknown mode aborts.\<close>

definition DecodeEventFlagWaitMode :: "u32 \<Rightarrow> (ef_wait \<times> ef_clear) option" where
  "DecodeEventFlagWaitMode wait_mode =
     (let w = (if wait_mode AND 0x0f = 0x01 then Some EfAnd
               else if wait_mode AND 0x0f = 0x02 then Some EfOr else None);
          c = (if wait_mode AND 0xf0 = 0x00 then Some EfClearNone
               else if wait_mode AND 0xf0 = 0x10 then Some EfClearAll
               else if wait_mode AND 0xf0 = 0x20 then Some EfClearBits else None)
      in case (w, c) of (Some w, Some c) \<Rightarrow> Some (w, c) | _ \<Rightarrow> None)"

subsection \<open>Waiting\<close>

text \<open>What a wait that returns gives: its result, \<open>*result\<close> if written, and what it leaves in the timeout.\<close>

datatype ef_outcome = EfReturns ef_result "u64 option" "u32 option" | EfBlocks

definition update_timeout :: "u32 option \<Rightarrow> u32 \<Rightarrow> u32 option" where
  "update_timeout timeout elapsed = map_option (\<lambda>micros. if micros \<le> elapsed then 0 else micros - elapsed) timeout"

definition ef_satisfied :: "u64 \<Rightarrow> ef_wait \<Rightarrow> u64 \<Rightarrow> bool" where
  "ef_satisfied bits wm m_bits \<longleftrightarrow>
     wm = EfAnd \<and> m_bits AND bits = bits \<or> wm = EfOr \<and> m_bits AND bits \<noteq> 0"

definition ef_clear_bits :: "ef_clear \<Rightarrow> u64 \<Rightarrow> u64 \<Rightarrow> u64" where
  "ef_clear_bits cm bits m_bits =
     (case cm of EfClearAll \<Rightarrow> 0 | EfClearBits \<Rightarrow> m_bits AND NOT bits | EfClearNone \<Rightarrow> m_bits)"

text \<open>One test of the wait loop.\<close>

definition ef_wait_test :: "u64 \<Rightarrow> ef_wait \<Rightarrow> ef_clear \<Rightarrow> u32 option \<Rightarrow> u32 \<Rightarrow> event_flag \<Rightarrow> ef_outcome \<times> event_flag" where
  "ef_wait_test bits wm cm timeout elapsed f =
     (if \<not> ef_satisfied bits wm (ef_bits f)
      then
        if (case timeout of Some micros \<Rightarrow> micros \<le> elapsed | None \<Rightarrow> False)
        then (EfReturns EfTimedOut (Some (ef_bits f)) (update_timeout timeout elapsed), f)
        else (EfBlocks, f\<lparr>ef_waiting_threads := ef_waiting_threads f + 1\<rparr>)
      else (EfReturns EfOk (Some (ef_bits f)) (update_timeout timeout elapsed),
            f\<lparr>ef_bits := ef_clear_bits cm bits (ef_bits f)\<rparr>))"

definition KernelEventFlagPrivate_Wait_enter ::
  "u64 \<Rightarrow> ef_wait \<Rightarrow> ef_clear \<Rightarrow> u32 option \<Rightarrow> event_flag \<Rightarrow> ef_outcome \<times> event_flag" where
  "KernelEventFlagPrivate_Wait_enter bits wm cm timeout f =
     (if ef_single_thread f \<and> 0 < ef_waiting_threads f then (EfReturns EfAlreadyWaiting None timeout, f)
      else ef_wait_test bits wm cm timeout 0 f)"

definition KernelEventFlagPrivate_Wait_resume ::
  "u64 \<Rightarrow> ef_wait \<Rightarrow> ef_clear \<Rightarrow> u32 option \<Rightarrow> u32 \<Rightarrow> event_flag \<Rightarrow> ef_outcome \<times> event_flag" where
  "KernelEventFlagPrivate_Wait_resume bits wm cm timeout elapsed f =
     (let f = f\<lparr>ef_waiting_threads := ef_waiting_threads f - 1\<rparr>
      in case ef_status f of
           EfIsCanceled \<Rightarrow> (EfReturns EfCanceled (Some (ef_bits f)) (update_timeout timeout elapsed), f)
         | EfIsDeleted \<Rightarrow> (EfReturns EfDeleted (Some (ef_bits f)) (update_timeout timeout elapsed), f)
         | EfSet \<Rightarrow> ef_wait_test bits wm cm timeout elapsed f)"

definition KernelEventFlagPrivate_Poll :: "u64 \<Rightarrow> ef_wait \<Rightarrow> ef_clear \<Rightarrow> event_flag \<Rightarrow> ef_outcome \<times> event_flag" where
  "KernelEventFlagPrivate_Poll bits wm cm = KernelEventFlagPrivate_Wait_enter bits wm cm (Some 0)"

subsection \<open>Setting, clearing, cancelling, deleting\<close>

text \<open>A section that aborts, one that keeps unlocking and sleeping, and one that is done.\<close>

datatype 'a progress = Aborts | Spins | Proceeds 'a

definition when_set :: "('a event_flag_scheme \<Rightarrow> 'b) \<Rightarrow> 'a event_flag_scheme \<Rightarrow> 'b progress" where
  "when_set act f =
     (if ef_status f = EfIsDeleted then Aborts
      else if ef_status f \<noteq> EfSet then Spins
      else Proceeds (act f))"

definition KernelEventFlagPrivate_Set :: "u64 \<Rightarrow> event_flag \<Rightarrow> event_flag progress" where
  "KernelEventFlagPrivate_Set bits = when_set (\<lambda>f. f\<lparr>ef_bits := ef_bits f OR bits\<rparr>)"

definition KernelEventFlagPrivate_Clear :: "u64 \<Rightarrow> event_flag \<Rightarrow> event_flag progress" where
  "KernelEventFlagPrivate_Clear bits = when_set (\<lambda>f. f\<lparr>ef_bits := ef_bits f AND bits\<rparr>)"

definition KernelEventFlagPrivate_Cancel_begin :: "u64 \<Rightarrow> event_flag \<Rightarrow> (int \<times> event_flag) progress" where
  "KernelEventFlagPrivate_Cancel_begin bits =
     when_set (\<lambda>f. (ef_waiting_threads f, f\<lparr>ef_status := EfIsCanceled, ef_bits := bits\<rparr>))"

definition KernelEventFlagPrivate_Cancel_end :: "event_flag \<Rightarrow> event_flag progress" where
  "KernelEventFlagPrivate_Cancel_end f =
     (if 0 < ef_waiting_threads f then Spins else Proceeds (f\<lparr>ef_status := EfSet\<rparr>))"

definition KernelEventFlagPrivate_destroy_begin :: "event_flag \<Rightarrow> event_flag progress" where
  "KernelEventFlagPrivate_destroy_begin f =
     (if ef_status f \<noteq> EfSet then Spins else Proceeds (f\<lparr>ef_status := EfIsDeleted\<rparr>))"

definition KernelEventFlagPrivate_destroy_end :: "event_flag \<Rightarrow> unit progress" where
  "KernelEventFlagPrivate_destroy_end f = (if 0 < ef_waiting_threads f then Spins else Proceeds ())"

subsection \<open>The API\<close>

definition KernelCreateEventFlag :: "bool \<Rightarrow> string option \<Rightarrow> u32 \<Rightarrow> u64 \<Rightarrow> bool \<Rightarrow> int \<times> event_flag option" where
  "KernelCreateEventFlag ef_null nm attr init_pattern param_null =
     (case nm of
        None \<Rightarrow> (KERNEL_ERROR_EINVAL, None)
      | Some n \<Rightarrow>
          if ef_null then (KERNEL_ERROR_EINVAL, None)
          else if \<not> param_null \<or> attr AND NOT 0x33 \<noteq> 0 then (KERNEL_ERROR_EINVAL, None)
          else if attr AND 0x0f \<notin> {0x00, 0x01, 0x02} then (KERNEL_ERROR_EINVAL, None)
          else if attr AND 0xf0 = 0x00 \<or> attr AND 0xf0 = 0x10
            then (OK, Some (KernelEventFlagPrivate_init n True init_pattern))
          else if attr AND 0xf0 = 0x20
            then (OK, Some (KernelEventFlagPrivate_init n False init_pattern))
          else (KERNEL_ERROR_EINVAL, None))"

definition KernelDeleteEventFlag :: "event_flag option \<Rightarrow> (int \<times> event_flag option) progress" where
  "KernelDeleteEventFlag ef =
     (case ef of
        None \<Rightarrow> Proceeds (KERNEL_ERROR_ESRCH, None)
      | Some f \<Rightarrow>
          (case KernelEventFlagPrivate_destroy_begin f of
             Aborts \<Rightarrow> Aborts | Spins \<Rightarrow> Spins | Proceeds f' \<Rightarrow> Proceeds (OK, Some f')))"

definition KernelWaitEventFlag_code :: "ef_result \<Rightarrow> int" where
  "KernelWaitEventFlag_code r =
     (case r of EfOk \<Rightarrow> OK | EfAlreadyWaiting \<Rightarrow> KERNEL_ERROR_EPERM | EfTimedOut \<Rightarrow> KERNEL_ERROR_ETIMEDOUT
      | EfCanceled \<Rightarrow> KERNEL_ERROR_ECANCELED | EfDeleted \<Rightarrow> KERNEL_ERROR_EACCES)"

text \<open>
  Entering a wait: the code returned with the pattern reported, or \<open>None\<close> when the thread blocks.
  The outer \<open>None\<close> is the abort on an unknown mode.
\<close>

definition KernelWaitEventFlag ::
  "event_flag option \<Rightarrow> u64 \<Rightarrow> u32 \<Rightarrow> u32 option \<Rightarrow> ((int \<times> u64 option) option \<times> event_flag option) option" where
  "KernelWaitEventFlag ef bit_pattern wait_mode timeout =
     (case ef of
        None \<Rightarrow> Some (Some (KERNEL_ERROR_ESRCH, None), None)
      | Some f \<Rightarrow>
          if bit_pattern = 0 then Some (Some (KERNEL_ERROR_EINVAL, None), Some f)
          else
            case DecodeEventFlagWaitMode wait_mode of
              None \<Rightarrow> None
            | Some (wm, cm) \<Rightarrow>
                Some (case KernelEventFlagPrivate_Wait_enter bit_pattern wm cm timeout f of
                        (EfReturns r pat _, f') \<Rightarrow> (Some (KernelWaitEventFlag_code r, pat), Some f')
                      | (EfBlocks, f') \<Rightarrow> (None, Some f')))"

definition KernelPollEventFlag_code :: "ef_result \<Rightarrow> int" where
  "KernelPollEventFlag_code r =
     (case r of EfOk \<Rightarrow> OK | EfAlreadyWaiting \<Rightarrow> KERNEL_ERROR_EPERM | _ \<Rightarrow> KERNEL_ERROR_EBUSY)"

definition KernelPollEventFlag ::
  "event_flag option \<Rightarrow> u64 \<Rightarrow> u32 \<Rightarrow> ((int \<times> u64 option) option \<times> event_flag option) option" where
  "KernelPollEventFlag ef bit_pattern wait_mode =
     (case ef of
        None \<Rightarrow> Some (Some (KERNEL_ERROR_ESRCH, None), None)
      | Some f \<Rightarrow>
          if bit_pattern = 0 then Some (Some (KERNEL_ERROR_EINVAL, None), Some f)
          else
            case DecodeEventFlagWaitMode wait_mode of
              None \<Rightarrow> None
            | Some (wm, cm) \<Rightarrow>
                Some (case KernelEventFlagPrivate_Poll bit_pattern wm cm f of
                        (EfReturns r pat _, f') \<Rightarrow> (Some (KernelPollEventFlag_code r, pat), Some f')
                      | (EfBlocks, f') \<Rightarrow> (None, Some f')))"

fun ef_call :: "event_flag option \<Rightarrow> (event_flag \<Rightarrow> event_flag progress) \<Rightarrow> (int \<times> event_flag option) progress" where
  "ef_call None act = Proceeds (KERNEL_ERROR_ESRCH, None)"
| "ef_call (Some f) act =
     (case act f of Aborts \<Rightarrow> Aborts | Spins \<Rightarrow> Spins | Proceeds f' \<Rightarrow> Proceeds (OK, Some f'))"

definition KernelSetEventFlag :: "event_flag option \<Rightarrow> u64 \<Rightarrow> (int \<times> event_flag option) progress" where
  "KernelSetEventFlag ef bit_pattern = ef_call ef (KernelEventFlagPrivate_Set bit_pattern)"

definition KernelClearEventFlag :: "event_flag option \<Rightarrow> u64 \<Rightarrow> (int \<times> event_flag option) progress" where
  "KernelClearEventFlag ef bit_pattern = ef_call ef (KernelEventFlagPrivate_Clear bit_pattern)"

text \<open>\<open>KernelCancelEventFlag\<close> up to its drain, with the number of waiting threads it reports.\<close>

definition KernelCancelEventFlag :: "event_flag option \<Rightarrow> u64 \<Rightarrow> (int \<times> int option \<times> event_flag option) progress" where
  "KernelCancelEventFlag ef set_pattern =
     (case ef of
        None \<Rightarrow> Proceeds (KERNEL_ERROR_ESRCH, None, None)
      | Some f \<Rightarrow>
          (case KernelEventFlagPrivate_Cancel_begin set_pattern f of
             Aborts \<Rightarrow> Aborts | Spins \<Rightarrow> Spins
           | Proceeds (n, f') \<Rightarrow> Proceeds (OK, Some n, Some f')))"

end
