(* ===== verification/EventFlagProps.thy ===== *)
theory EventFlagProps
  imports EventFlag
begin

text \<open>
  Event flags in every interleaving of their critical sections: the waiting count is the number of
  sleeping threads, no wake-up is lost, waits and polls return what they should, and a cancellation
  drains the threads it found.
\<close>

subsection \<open>A flag with its sleeping threads\<close>

text \<open>
  A thread asleep in \<open>Wait\<close> with the locals of its call; \<open>sl_notified\<close> tells that a \<open>SignalAll\<close> has
  happened since it fell asleep. \<open>es_returns\<close> holds what each thread's last wait returned.
\<close>

record ef_sleeper =
  sl_bits :: u64
  sl_wait :: ef_wait
  sl_clear :: ef_clear
  sl_timeout :: "u32 option"
  sl_notified :: bool

record ef_system =
  es_flag :: event_flag
  es_asleep :: "nat \<Rightarrow> ef_sleeper option"
  es_returns :: "nat \<Rightarrow> ef_outcome option"

datatype ef_event =
    EfWaitCall nat u64 ef_wait ef_clear "u32 option"
  | EfWakeUp nat u32
  | EfSetCall u64
  | EfClearCall u64
  | EfCancelBegin u64
  | EfCancelEnd
  | EfDestroyBegin

text \<open>Where a thread is left by one test of its wait.\<close>

definition ef_settle :: "nat \<Rightarrow> ef_sleeper \<Rightarrow> ef_outcome \<times> event_flag \<Rightarrow> ef_system \<Rightarrow> ef_system" where
  "ef_settle t sl r s =
     (case fst r of
        EfBlocks \<Rightarrow> s\<lparr>es_flag := snd r, es_asleep := (es_asleep s)(t \<mapsto> sl\<lparr>sl_notified := False\<rparr>)\<rparr>
      | out \<Rightarrow> s\<lparr>es_flag := snd r, es_asleep := (es_asleep s)(t := None), es_returns := (es_returns s)(t \<mapsto> out)\<rparr>)"

definition SignalAll :: "ef_system \<Rightarrow> ef_system" where
  "SignalAll s = s\<lparr>es_asleep := (\<lambda>t. map_option (\<lambda>sl. sl\<lparr>sl_notified := True\<rparr>) (es_asleep s t))\<rparr>"

definition ef_proceed :: "event_flag progress \<Rightarrow> ef_system \<Rightarrow> ef_system option" where
  "ef_proceed p s = (case p of Proceeds f \<Rightarrow> Some (s\<lparr>es_flag := f\<rparr>) | _ \<Rightarrow> None)"

fun ef_exec :: "ef_event \<Rightarrow> ef_system \<Rightarrow> ef_system option" where
  "ef_exec (EfWaitCall t bits wm cm timeout) s =
     (if es_asleep s t \<noteq> None then None
      else Some (ef_settle t \<lparr>sl_bits = bits, sl_wait = wm, sl_clear = cm, sl_timeout = timeout, sl_notified = False\<rparr>
                   (KernelEventFlagPrivate_Wait_enter bits wm cm timeout (es_flag s)) s))"
| "ef_exec (EfWakeUp t elapsed) s =
     (case es_asleep s t of
        None \<Rightarrow> None
      | Some sl \<Rightarrow> Some (ef_settle t sl
          (KernelEventFlagPrivate_Wait_resume (sl_bits sl) (sl_wait sl) (sl_clear sl) (sl_timeout sl) elapsed (es_flag s)) s))"
| "ef_exec (EfSetCall bits) s = map_option SignalAll (ef_proceed (KernelEventFlagPrivate_Set bits (es_flag s)) s)"
| "ef_exec (EfClearCall bits) s = ef_proceed (KernelEventFlagPrivate_Clear bits (es_flag s)) s"
| "ef_exec (EfCancelBegin bits) s =
     (case KernelEventFlagPrivate_Cancel_begin bits (es_flag s) of
        Proceeds (n, f) \<Rightarrow> Some (SignalAll (s\<lparr>es_flag := f\<rparr>)) | _ \<Rightarrow> None)"
| "ef_exec EfCancelEnd s = ef_proceed (KernelEventFlagPrivate_Cancel_end (es_flag s)) s"
| "ef_exec EfDestroyBegin s = map_option SignalAll (ef_proceed (KernelEventFlagPrivate_destroy_begin (es_flag s)) s)"

subsection \<open>The invariant\<close>

definition ef_counts :: "event_flag \<Rightarrow> (nat \<Rightarrow> ef_sleeper option) \<Rightarrow> bool" where
  "ef_counts f asleep \<longleftrightarrow> finite (dom asleep) \<and> ef_waiting_threads f = int (card (dom asleep)) \<and>
     (ef_single_thread f \<longrightarrow> ef_waiting_threads f \<le> 1) \<and>
     (\<forall>t sl. asleep t = Some sl \<longrightarrow> \<not> sl_notified sl \<longrightarrow> \<not> ef_satisfied (sl_bits sl) (sl_wait sl) (ef_bits f))"

definition ef_inv :: "ef_system \<Rightarrow> bool" where
  "ef_inv s \<longleftrightarrow> ef_counts (es_flag s) (es_asleep s)"

text \<open>Taking bits away never satisfies a wait.\<close>

lemma ef_satisfied_mono:
  assumes "ef_satisfied bits wm (a AND b)"
  shows "ef_satisfied bits wm a"
proof (cases wm)
  case EfAnd
  then have "(a AND b) AND bits = bits" using assms by (simp add: ef_satisfied_def)
  then have "a AND bits = bits" by (metis and.assoc and.left_commute and.left_idem)
  then show ?thesis by (simp add: ef_satisfied_def EfAnd)
next
  case EfOr
  then have "(a AND b) AND bits \<noteq> 0" using assms by (simp add: ef_satisfied_def)
  then have "a AND bits \<noteq> 0" by (metis and.assoc and.commute and_zero_eq)
  then show ?thesis by (simp add: ef_satisfied_def EfOr)
qed

lemma ef_clear_bits_and: "\<exists>b. ef_clear_bits cm bits a = a AND b"
proof (cases cm)
  case EfClearNone
  then have "ef_clear_bits cm bits a = a AND (-1)" by (simp add: ef_clear_bits_def)
  then show ?thesis by blast
next
  case EfClearAll
  then have "ef_clear_bits cm bits a = a AND 0" by (simp add: ef_clear_bits_def)
  then show ?thesis by blast
qed (auto simp: ef_clear_bits_def)

lemma ef_wait_test_cases:
  assumes "ef_wait_test bits wm cm timeout elapsed f = (out, f')"
  obtains "out = EfBlocks" "\<not> ef_satisfied bits wm (ef_bits f)" "f' = f\<lparr>ef_waiting_threads := ef_waiting_threads f + 1\<rparr>"
  | "out \<noteq> EfBlocks" "f' = f"
  | "out \<noteq> EfBlocks" "f' = f\<lparr>ef_bits := ef_clear_bits cm bits (ef_bits f)\<rparr>"
  using assms by (auto simp: ef_wait_test_def split: if_splits)

text \<open>Both ways into the wait loop, on a flag that does not count the thread.\<close>

lemma ef_settle_inv:
  assumes base: "ef_counts f ((es_asleep s)(t := None))"
    and single: "ef_single_thread f \<Longrightarrow> ef_waiting_threads f = 0"
    and sl: "sl_bits sl = bits" "sl_wait sl = wm"
    and r: "ef_wait_test bits wm cm timeout elapsed f = r"
  shows "ef_inv (ef_settle t sl r s)"
proof (cases r)
  case (Pair out f')
  let ?A = "(es_asleep s)(t := None)" and ?B = "(es_asleep s)(t \<mapsto> sl\<lparr>sl_notified := False\<rparr>)"
  have b: "finite (dom ?A)" "ef_waiting_threads f = int (card (dom ?A))" "ef_single_thread f \<longrightarrow> ef_waiting_threads f \<le> 1"
    "\<And>u sl. ?A u = Some sl \<Longrightarrow> \<not> sl_notified sl \<Longrightarrow> \<not> ef_satisfied (sl_bits sl) (sl_wait sl) (ef_bits f)"
    using base unfolding ef_counts_def by blast+
  from r [unfolded Pair] show ?thesis
  proof (cases rule: ef_wait_test_cases)
    case 1
    have d: "dom ?B = insert t (dom ?A)" by auto
    have c: "card (insert t (dom ?A)) = Suc (card (dom ?A))" using b(1) by (intro card_insert_disjoint) auto
    have "finite (dom ?B)" "ef_waiting_threads f' = int (card (dom ?B))" "ef_single_thread f' \<longrightarrow> ef_waiting_threads f' \<le> 1"
      using b(1,2) c single unfolding d 1(3) by auto
    moreover have "\<not> ef_satisfied (sl_bits q) (sl_wait q) (ef_bits f')" if "?B u = Some q" "\<not> sl_notified q" for u q
      using that b(4) [of u q] 1(2,3) sl by (cases "u = t") auto
    ultimately have "ef_counts f' ?B" unfolding ef_counts_def by blast
    then show ?thesis by (simp add: ef_inv_def ef_settle_def Pair 1(1))
  next
    case 2
    then show ?thesis using base by (cases out) (simp_all add: ef_inv_def ef_settle_def Pair)
  next
    case 3
    have keep: "\<not> ef_satisfied p w (ef_bits f')" if "\<not> ef_satisfied p w (ef_bits f)" for p w
      using that ef_clear_bits_and [of cm bits "ef_bits f"] ef_satisfied_mono 3(2) by fastforce
    have "ef_waiting_threads f' = int (card (dom ?A))" "ef_single_thread f' \<longrightarrow> ef_waiting_threads f' \<le> 1"
      using b(2,3) 3(2) by simp_all
    then have "ef_counts f' ?A" using b(1,4) keep unfolding ef_counts_def by blast
    then show ?thesis using 3(1) by (cases out) (simp_all add: ef_inv_def ef_settle_def Pair)
  qed
qed

lemma ef_counts_bits:
  assumes "ef_counts f A" and "\<And>p w. ef_satisfied p w (ef_bits f') \<Longrightarrow> ef_satisfied p w (ef_bits f)"
    and "ef_waiting_threads f' = ef_waiting_threads f" "ef_single_thread f' = ef_single_thread f"
  shows "ef_counts f' A"
  using assms unfolding ef_counts_def by metis

lemma SignalAll_inv:
  assumes "ef_inv s" and "ef_waiting_threads f = ef_waiting_threads (es_flag s)"
    and "ef_single_thread f = ef_single_thread (es_flag s)"
  shows "ef_inv (SignalAll (s\<lparr>es_flag := f\<rparr>))"
proof -
  have "dom (\<lambda>t. map_option (\<lambda>sl. sl\<lparr>sl_notified := True\<rparr>) (es_asleep s t)) = dom (es_asleep s)"
    by (auto simp: dom_def)
  then show ?thesis using assms by (auto simp: ef_inv_def ef_counts_def SignalAll_def)
qed

lemma ef_counts_wakes:
  assumes "ef_counts f A" and "A t = Some sl"
  shows "ef_counts (f\<lparr>ef_waiting_threads := ef_waiting_threads f - 1\<rparr>) (A(t := None)) \<and>
    (ef_single_thread f \<longrightarrow> ef_waiting_threads f - 1 = 0)"
proof -
  have "t \<in> dom A" "finite (dom A)" using assms by (auto simp: ef_counts_def)
  then have c: "int (card (dom A)) = 1 + int (card (dom A - {t}))" using card.remove by fastforce
  have "ef_waiting_threads f = 1 + int (card (dom A - {t}))" "ef_single_thread f \<longrightarrow> ef_waiting_threads f \<le> 1"
    using assms(1) unfolding ef_counts_def c by blast+
  then have w: "ef_waiting_threads f - 1 = int (card (dom (A(t := None))))"
    "ef_single_thread f \<longrightarrow> ef_waiting_threads f - 1 = 0" by auto
  have s1: "ef_single_thread f \<longrightarrow> ef_waiting_threads f - 1 \<le> 1" using w(2) by linarith
  have fin: "finite (dom (A(t := None)))" using \<open>finite (dom A)\<close> by simp
  have sat: "\<not> ef_satisfied (sl_bits q) (sl_wait q) (ef_bits f)" if "(A(t := None)) u = Some q" "\<not> sl_notified q" for u q
    using that assms(1) by (auto simp: ef_counts_def split: if_splits)
  define f' where "f' = f\<lparr>ef_waiting_threads := ef_waiting_threads f - 1\<rparr>"
  have f': "ef_waiting_threads f' = ef_waiting_threads f - 1" "ef_single_thread f' = ef_single_thread f" "ef_bits f' = ef_bits f"
    by (simp_all add: f'_def)
  have "ef_counts f' (A(t := None))" unfolding ef_counts_def f' using fin w(1) s1 sat by blast
  then show ?thesis using w(2) by (simp add: f'_def)
qed

fun_cases ef_exec_wakeE: "ef_exec (EfWakeUp t elapsed) s = Some s'"

lemma ef_inv_wait:
  assumes inv: "ef_inv s" and ex: "ef_exec (EfWaitCall t bits wm cm timeout) s = Some s'"
  shows "ef_inv s'"
proof -
  let ?sl = "\<lparr>sl_bits = bits, sl_wait = wm, sl_clear = cm, sl_timeout = timeout, sl_notified = False\<rparr>"
  have free: "es_asleep s t = None" using ex by (auto split: if_splits)
  then have same: "(es_asleep s)(t := None) = es_asleep s" by auto
  have s': "s' = ef_settle t ?sl (KernelEventFlagPrivate_Wait_enter bits wm cm timeout (es_flag s)) s"
    using ex free by simp
  show ?thesis
  proof (cases "ef_single_thread (es_flag s) \<and> 0 < ef_waiting_threads (es_flag s)")
    case True
    then show ?thesis using inv same unfolding s' by (simp add: ef_settle_def KernelEventFlagPrivate_Wait_enter_def ef_inv_def)
  next
    case False
    have "0 \<le> ef_waiting_threads (es_flag s)" using inv by (simp add: ef_inv_def ef_counts_def)
    then have "ef_single_thread (es_flag s) \<Longrightarrow> ef_waiting_threads (es_flag s) = 0" using False by linarith
    then show ?thesis
      unfolding s' KernelEventFlagPrivate_Wait_enter_def if_not_P [OF False]
      using inv by (intro ef_settle_inv [OF _ _ _ _ refl]) (auto simp: ef_inv_def same)
  qed
qed

lemma ef_inv_wake:
  assumes inv: "ef_inv s" and ex: "ef_exec (EfWakeUp t elapsed) s = Some s'"
  shows "ef_inv s'"
proof -
  obtain sl where sl: "es_asleep s t = Some sl" and s': "s' = ef_settle t sl
      (KernelEventFlagPrivate_Wait_resume (sl_bits sl) (sl_wait sl) (sl_clear sl) (sl_timeout sl) elapsed (es_flag s)) s"
    using ex by (elim ef_exec_wakeE) (auto split: option.splits)
  define f where "f = (es_flag s)\<lparr>ef_waiting_threads := ef_waiting_threads (es_flag s) - 1\<rparr>"
  have base: "ef_counts f ((es_asleep s)(t := None))" "ef_single_thread f \<Longrightarrow> ef_waiting_threads f = 0"
    using ef_counts_wakes [of "es_flag s" "es_asleep s" t sl] inv sl by (auto simp: f_def ef_inv_def)
  show ?thesis
  proof (cases "ef_status f")
    case EfSet
    show ?thesis
      unfolding s' KernelEventFlagPrivate_Wait_resume_def Let_def f_def [symmetric] EfSet ef_status.case
      by (rule ef_settle_inv [OF base refl refl refl])
  next
    case EfIsCanceled
    then show ?thesis using base(1)
      unfolding s' KernelEventFlagPrivate_Wait_resume_def Let_def f_def [symmetric] EfIsCanceled ef_status.case
      by (simp add: ef_settle_def ef_inv_def)
  next
    case EfIsDeleted
    then show ?thesis using base(1)
      unfolding s' KernelEventFlagPrivate_Wait_resume_def Let_def f_def [symmetric] EfIsDeleted ef_status.case
      by (simp add: ef_settle_def ef_inv_def)
  qed
qed

lemma ef_inv_step:
  assumes inv: "ef_inv s" and ex: "ef_exec e s = Some s'"
  shows "ef_inv s'"
proof (cases e)
  case (EfWaitCall t bits wm cm timeout)
  then show ?thesis using ef_inv_wait [OF inv] ex by blast
next
  case (EfWakeUp t elapsed)
  then show ?thesis using ef_inv_wake [OF inv] ex by blast
next
  case (EfClearCall bits)
  then have s'': "s' = s\<lparr>es_flag := (es_flag s)\<lparr>ef_bits := ef_bits (es_flag s) AND bits\<rparr>\<rparr>"
    using ex by (auto simp: ef_proceed_def KernelEventFlagPrivate_Clear_def when_set_def split: if_splits)
  have "ef_counts (es_flag s) (es_asleep s)" using inv by (simp add: ef_inv_def)
  then have "ef_counts ((es_flag s)\<lparr>ef_bits := ef_bits (es_flag s) AND bits\<rparr>) (es_asleep s)"
    by (rule ef_counts_bits) (simp_all add: ef_satisfied_mono)
  then show ?thesis by (simp add: ef_inv_def s'')
next
  case EfCancelEnd
  then have "s' = s\<lparr>es_flag := (es_flag s)\<lparr>ef_status := EfSet\<rparr>\<rparr>"
    using ex by (auto simp: ef_proceed_def KernelEventFlagPrivate_Cancel_end_def split: if_splits)
  moreover have "ef_counts ((es_flag s)\<lparr>ef_status := EfSet\<rparr>) (es_asleep s)"
    by (rule ef_counts_bits [of "es_flag s"]) (use inv in \<open>simp_all add: ef_inv_def\<close>)
  ultimately show ?thesis by (simp add: ef_inv_def)
next
  case (EfSetCall bits)
  then have "\<exists>b. s' = SignalAll (s\<lparr>es_flag := (es_flag s)\<lparr>ef_bits := b\<rparr>\<rparr>)"
    using ex by (auto simp: ef_proceed_def KernelEventFlagPrivate_Set_def when_set_def split: if_splits)
  then show ?thesis using SignalAll_inv [OF inv] by fastforce
next
  case (EfCancelBegin bits)
  then have "s' = SignalAll (s\<lparr>es_flag := (es_flag s)\<lparr>ef_status := EfIsCanceled, ef_bits := bits\<rparr>\<rparr>)"
    using ex by (auto simp: KernelEventFlagPrivate_Cancel_begin_def when_set_def split: if_splits)
  then show ?thesis using SignalAll_inv [OF inv] by simp
next
  case EfDestroyBegin
  then have "s' = SignalAll (s\<lparr>es_flag := (es_flag s)\<lparr>ef_status := EfIsDeleted\<rparr>\<rparr>)"
    using ex by (auto simp: ef_proceed_def KernelEventFlagPrivate_destroy_begin_def split: if_splits)
  then show ?thesis using SignalAll_inv [OF inv] by simp
qed

interpretation event_flags: guarded_system ef_exec "\<lambda>_. True" ef_inv
  by unfold_locales (rule ef_inv_step)


subsection \<open>Properties\<close>

definition ef_system_init :: "string \<Rightarrow> bool \<Rightarrow> u64 \<Rightarrow> ef_system" where
  "ef_system_init nm single bits =
     \<lparr>es_flag = KernelEventFlagPrivate_init nm single bits, es_asleep = (\<lambda>_. None), es_returns = (\<lambda>_. None)\<rparr>"

lemma ef_inv_init: "ef_inv (ef_system_init nm single bits)"
  by (simp add: ef_inv_def ef_counts_def ef_system_init_def KernelEventFlagPrivate_init_def)

text \<open>
  C27: In every interleaving of waits, wake-ups (spurious ones too), sets, clears, cancellations and
  destruction, the flag counts exactly the threads asleep in \<open>Wait\<close>, a single-thread flag never has
  two of them, and no wake-up is lost: the pattern of a thread that was not notified is not there.
\<close>

theorem event_flag_no_lost_wakeup:
  assumes "run ef_exec es (ef_system_init nm single bits) = Some s"
  shows "ef_waiting_threads (es_flag s) = int (card (dom (es_asleep s))) \<and>
    (ef_single_thread (es_flag s) \<longrightarrow> card (dom (es_asleep s)) \<le> 1) \<and>
    (\<forall>t sl. es_asleep s t = Some sl \<longrightarrow> \<not> sl_notified sl \<longrightarrow>
       \<not> ef_satisfied (sl_bits sl) (sl_wait sl) (ef_bits (es_flag s)))"
proof -
  have "ef_inv s" by (rule event_flags.run_inv [OF _ ef_inv_init assms]) (simp add: list_all_iff)
  then have c: "ef_counts (es_flag s) (es_asleep s)" by (simp add: ef_inv_def)
  then have w: "ef_waiting_threads (es_flag s) = int (card (dom (es_asleep s)))"
    "ef_single_thread (es_flag s) \<longrightarrow> ef_waiting_threads (es_flag s) \<le> 1"
    unfolding ef_counts_def by blast+
  then have "ef_single_thread (es_flag s) \<longrightarrow> card (dom (es_asleep s)) \<le> 1" by linarith
  then show ?thesis using c w(1) unfolding ef_counts_def by blast
qed

definition demo_flag_run :: "ef_event list" where
  "demo_flag_run = [EfWaitCall 1 6 EfAnd EfClearBits None, EfSetCall 2, EfWakeUp 1 0]"

definition demo_flag_state :: ef_system where
  "demo_flag_state = (ef_system_init ''f'' True 1)\<lparr>
     es_flag := (KernelEventFlagPrivate_init ''f'' True 3)\<lparr>ef_waiting_threads := 1\<rparr>,
     es_asleep := [1 \<mapsto> \<lparr>sl_bits = 6, sl_wait = EfAnd, sl_clear = EfClearBits, sl_timeout = None, sl_notified = False\<rparr>]\<rparr>"

lemmas ef_run_simps =
  ef_system_init_def KernelEventFlagPrivate_init_def ef_settle_def KernelEventFlagPrivate_Wait_enter_def
  KernelEventFlagPrivate_Wait_resume_def ef_wait_test_def ef_satisfied_def ef_proceed_def
  KernelEventFlagPrivate_Set_def when_set_def SignalAll_def update_timeout_def ef_clear_bits_def

lemma demo_flag_reached: "run ef_exec demo_flag_run (ef_system_init ''f'' True 1) = Some demo_flag_state"
  by (auto simp: demo_flag_run_def demo_flag_state_def ef_run_simps fun_eq_iff)

theorem event_flag_no_lost_wakeup_witness:
  "ef_waiting_threads (es_flag demo_flag_state) = int (card (dom (es_asleep demo_flag_state)))"
  using event_flag_no_lost_wakeup [OF demo_flag_reached] by blast


text \<open>Which bits of the pattern a wait asks for, read one bit at a time.\<close>

lemma ef_satisfied_bits:
  "ef_satisfied bits wm a \<longleftrightarrow>
     (case wm of EfAnd \<Rightarrow> \<forall>i. bit bits i \<longrightarrow> bit a i | EfOr \<Rightarrow> \<exists>i. bit bits i \<and> bit a i)"
proof (cases wm)
  case EfAnd
  have "bit bits i \<longrightarrow> bit a i" if "a AND bits = bits" for i using arg_cong [OF that, of "\<lambda>x. bit x i"] by (auto simp: bit_and_iff)
  moreover have "a AND bits = bits" if "\<forall>i. bit bits i \<longrightarrow> bit a i" by (rule bit_eqI) (use that in \<open>auto simp: bit_and_iff\<close>)
  ultimately have "a AND bits = bits \<longleftrightarrow> (\<forall>i. bit bits i \<longrightarrow> bit a i)" by blast
  then show ?thesis by (simp add: ef_satisfied_def EfAnd)
next
  case EfOr
  have "\<not> (bit bits i \<and> bit a i)" if "a AND bits = 0" for i using arg_cong [OF that, of "\<lambda>x. bit x i"] by (auto simp: bit_and_iff)
  moreover have "a AND bits = 0" if "\<forall>i. \<not> (bit bits i \<and> bit a i)" by (rule bit_eqI) (use that in \<open>auto simp: bit_and_iff\<close>)
  ultimately have "a AND bits \<noteq> 0 \<longleftrightarrow> (\<exists>i. bit bits i \<and> bit a i)" by blast
  then show ?thesis by (simp add: ef_satisfied_def EfOr)
qed

lemma ef_clear_bits_bit:
  "bit (ef_clear_bits cm bits a) i \<longleftrightarrow>
     (case cm of EfClearNone \<Rightarrow> bit a i | EfClearAll \<Rightarrow> False | EfClearBits \<Rightarrow> bit a i \<and> \<not> bit bits i)"
  by (cases cm) (auto simp: ef_clear_bits_def bit_simps dest: bit_imp_le_length)

text \<open>
  \<open>KernelPollEventFlag\<close> never blocks. On a valid mode it succeeds exactly when the flag has all
  (any, for OR) of the asked bits and then removes none, all or the asked ones; otherwise nothing
  changes. Both outcomes report the bits from before the clearing. A busy single-thread flag refuses.
\<close>

lemma KernelPollEventFlag_correct:
  assumes "DecodeEventFlagWaitMode wait_mode = Some (wm, cm)" and "bit_pattern \<noteq> 0"
  shows "\<exists>code pat f'. KernelPollEventFlag (Some f) bit_pattern wait_mode = Some (Some (code, pat), Some f') \<and>
    (if ef_single_thread f \<and> 0 < ef_waiting_threads f then code = KERNEL_ERROR_EPERM \<and> pat = None \<and> f' = f
     else if (case wm of EfAnd \<Rightarrow> \<forall>i. bit bit_pattern i \<longrightarrow> bit (ef_bits f) i
                       | EfOr \<Rightarrow> \<exists>i. bit bit_pattern i \<and> bit (ef_bits f) i)
     then code = OK \<and> pat = Some (ef_bits f) \<and> f' = f\<lparr>ef_bits := ef_bits f'\<rparr> \<and>
       (\<forall>i. bit (ef_bits f') i \<longleftrightarrow> bit (ef_bits f) i \<and> cm \<noteq> EfClearAll \<and> (cm = EfClearBits \<longrightarrow> \<not> bit bit_pattern i))
     else code = KERNEL_ERROR_EBUSY \<and> pat = Some (ef_bits f) \<and> f' = f)"
proof -
  have "bit (ef_clear_bits cm bit_pattern (ef_bits f)) i \<longleftrightarrow>
      bit (ef_bits f) i \<and> cm \<noteq> EfClearAll \<and> (cm = EfClearBits \<longrightarrow> \<not> bit bit_pattern i)" for i
    by (cases cm) (auto simp: ef_clear_bits_bit)
  then show ?thesis
    unfolding ef_satisfied_bits [symmetric]
    using assms
    by (simp add: KernelPollEventFlag_def KernelEventFlagPrivate_Poll_def KernelEventFlagPrivate_Wait_enter_def
        ef_wait_test_def KernelPollEventFlag_code_def)
qed

text \<open>Threads that wake up while the flag is canceled leave it, one by one.\<close>

lemma ef_drain:
  assumes "ef_status (es_flag s) = EfIsCanceled" and "distinct ts" and "set ts \<subseteq> dom (es_asleep s)"
  shows "run ef_exec (map (\<lambda>t. EfWakeUp t (el t)) ts) s =
    Some (s\<lparr>es_flag := (es_flag s)\<lparr>ef_waiting_threads := ef_waiting_threads (es_flag s) - int (length ts)\<rparr>,
      es_asleep := (\<lambda>t. if t \<in> set ts then None else es_asleep s t),
      es_returns := (\<lambda>t. if t \<in> set ts
        then Some (EfReturns EfCanceled (Some (ef_bits (es_flag s))) (update_timeout (sl_timeout (the (es_asleep s t))) (el t)))
        else es_returns s t)\<rparr>)"
  using assms
proof (induction ts arbitrary: s)
  case (Cons t ts)
  then obtain sl where sl: "es_asleep s t = Some sl" by auto
  let ?r = "EfReturns EfCanceled (Some (ef_bits (es_flag s))) (update_timeout (sl_timeout sl) (el t))"
  define u where "u = s\<lparr>es_flag := (es_flag s)\<lparr>ef_waiting_threads := ef_waiting_threads (es_flag s) - 1\<rparr>,
      es_asleep := (es_asleep s)(t := None), es_returns := (es_returns s)(t \<mapsto> ?r)\<rparr>"
  have step: "ef_exec (EfWakeUp t (el t)) s = Some u"
    using Cons.prems(1) by (simp add: u_def sl KernelEventFlagPrivate_Wait_resume_def ef_settle_def)
  have "ef_status (es_flag u) = EfIsCanceled" "set ts \<subseteq> dom (es_asleep u)" "distinct ts"
    using Cons.prems by (auto simp: u_def)
  note IH = Cons.IH [OF this(1,3,2)]
  show ?case using Cons.prems(2)
    by (simp add: step IH del: ef_exec.simps) (auto simp: u_def sl fun_eq_iff)
qed simp

lemma ef_cancel_drains:
  assumes inv: "ef_inv s" and b: "KernelEventFlagPrivate_Cancel_begin bits (es_flag s) = Proceeds (n, f)"
    and ts: "distinct ts" "set ts = dom (es_asleep s)"
  shows "\<exists>s'. run ef_exec (EfCancelBegin bits # map (\<lambda>t. EfWakeUp t (el t)) ts @ [EfCancelEnd]) s = Some s' \<and>
    n = int (length ts) \<and> es_asleep s' = (\<lambda>_. None) \<and>
    (\<forall>t. es_returns s' t = (case es_asleep s t of None \<Rightarrow> es_returns s t
       | Some sl \<Rightarrow> Some (EfReturns EfCanceled (Some bits) (update_timeout (sl_timeout sl) (el t))))) \<and>
    es_flag s' = (es_flag s)\<lparr>ef_bits := bits, ef_waiting_threads := 0\<rparr>"
proof -
  have n: "n = int (length ts)" "ef_waiting_threads (es_flag s) = n" "ef_status (es_flag s) = EfSet"
    using b inv distinct_card [OF ts(1)] ts(2)
    by (auto simp: KernelEventFlagPrivate_Cancel_begin_def when_set_def ef_inv_def ef_counts_def split: if_splits)
  define u where "u = SignalAll (s\<lparr>es_flag := (es_flag s)\<lparr>ef_status := EfIsCanceled, ef_bits := bits\<rparr>\<rparr>)"
  have step: "ef_exec (EfCancelBegin bits) s = Some u"
    using n(3) by (simp add: u_def KernelEventFlagPrivate_Cancel_begin_def when_set_def)
  have "set ts \<subseteq> dom (es_asleep u)" "ef_status (es_flag u) = EfIsCanceled"
    using ts(2) by (auto simp: u_def SignalAll_def dom_def)
  note d = ef_drain [OF this(2) ts(1) this(1)]
  have to: "sl_timeout (the (es_asleep u t)) = sl_timeout (the (es_asleep s t))" if "t \<in> set ts" for t
    using that ts(2) by (auto simp: u_def SignalAll_def)
  have emp: "es_asleep u t = None" if "t \<notin> set ts" for t
    using that ts(2) by (auto simp: u_def SignalAll_def)
  have ret: "es_returns u = es_returns s" "es_flag u = (es_flag s)\<lparr>ef_status := EfIsCanceled, ef_bits := bits\<rparr>"
    by (simp_all add: u_def SignalAll_def)
  define v where "v = s\<lparr>es_flag := (es_flag s)\<lparr>ef_status := EfIsCanceled, ef_bits := bits, ef_waiting_threads := 0\<rparr>,
      es_asleep := (\<lambda>_. None), es_returns := (\<lambda>t. if t \<in> set ts
        then Some (EfReturns EfCanceled (Some bits) (update_timeout (sl_timeout (the (es_asleep s t))) (el t)))
        else es_returns s t)\<rparr>"
  have "run ef_exec (map (\<lambda>t. EfWakeUp t (el t)) ts) u = Some v"
    unfolding d ret v_def using emp to n by (auto simp: fun_eq_iff u_def SignalAll_def)
  moreover have "ef_exec EfCancelEnd v = Some (v\<lparr>es_flag := (es_flag v)\<lparr>ef_status := EfSet\<rparr>\<rparr>)"
    by (simp add: v_def ef_proceed_def KernelEventFlagPrivate_Cancel_end_def)
  ultimately have r: "run ef_exec (EfCancelBegin bits # map (\<lambda>t. EfWakeUp t (el t)) ts @ [EfCancelEnd]) s =
      Some (v\<lparr>es_flag := (es_flag v)\<lparr>ef_status := EfSet\<rparr>\<rparr>)"
    by (simp add: step run_append del: ef_exec.simps)
  have dom: "t \<in> set ts \<longleftrightarrow> (\<exists>sl. es_asleep s t = Some sl)" for t using ts(2) by auto
  have "(es_flag v)\<lparr>ef_status := EfSet\<rparr> = (es_flag s)\<lparr>ef_bits := bits, ef_waiting_threads := 0\<rparr>"
    using n(3) by (cases "es_flag s") (simp add: v_def)
  moreover have "es_returns v t = (case es_asleep s t of None \<Rightarrow> es_returns s t
       | Some sl \<Rightarrow> Some (EfReturns EfCanceled (Some bits) (update_timeout (sl_timeout sl) (el t))))" for t
    by (auto simp: v_def dom split: option.split)
  moreover have "es_asleep v = (\<lambda>_. None)" by (simp add: v_def)
  ultimately show ?thesis using r n(1) by simp
qed




end
