(* ===== verification/EventQueue.thy ===== *)
theory EventQueue
  imports Prelude Errno PosixSem
begin

text \<open>
  Event queues: \<open>class KernelEqueuePrivate\<close> and its API in \<open>src/src/kernel/eventQueue.cpp\<close>, with the
  trigger and reset callbacks that \<open>sync.cpp\<close> and \<open>videoOut.cpp\<close> register. \<open>WaitForEvents\<close> is one
  operation per round of its loop; the clock and the time-stamp counter are arguments.
\<close>

subsection \<open>Events\<close>

record kernel_event =
  ke_ident :: u64
  ke_filter :: "16 word"
  ke_flags :: u16
  ke_fflags :: u32
  ke_data :: u64
  ke_udata :: u64

definition EV_ADD :: u16 where "EV_ADD = 0x01"
definition EV_ONESHOT :: u16 where "EV_ONESHOT = 0x10"
definition EV_CLEAR :: u16 where "EV_CLEAR = 0x20"
definition EV_ERROR :: u16 where "EV_ERROR = 0x4000"

definition KERNEL_EVFILT_USER :: "16 word" where "KERNEL_EVFILT_USER = -11"
definition KERNEL_EVFILT_VIDEO_OUT :: "16 word" where "KERNEL_EVFILT_VIDEO_OUT = -13"
definition KERNEL_EVFILT_GRAPHICS :: "16 word" where "KERNEL_EVFILT_GRAPHICS = -14"
definition KERNEL_EVFILT_HRTIMER :: "16 word" where "KERNEL_EVFILT_HRTIMER = -15"

text \<open>The callbacks, by the function they point to; a null pointer is \<open>None\<close>.\<close>

datatype trigger_func = UserEventTriggerFunc | AmprEventTriggerFunc | InterruptEventTriggerFunc | TriggerVideoOutEvent

datatype reset_func = UserEventResetFunc | InterruptEventResetFunc | ResetVideoOutEvent

datatype delete_func = RemoveVideoOutEventQueue

record kernel_filter =
  kf_data :: u64
  kf_trigger_func :: "trigger_func option"
  kf_reset_func :: "reset_func option"
  kf_delete_event_func :: "delete_func option"

record equeue_event =
  ee_triggered :: bool
  ee_deadline_ns :: u64
  ee_event :: kernel_event
  ee_filter :: kernel_filter
  ee_pending_events :: "kernel_event list"

record equeue =
  q_events :: "equeue_event list"
  q_name :: string
  q_handle :: int
  q_closed :: bool

definition KernelEqueuePrivate_init :: "int \<Rightarrow> equeue" where
  "KernelEqueuePrivate_init handle = \<lparr>q_events = [], q_name = [], q_handle = handle, q_closed = False\<rparr>"

subsection \<open>Callbacks\<close>

text \<open>Queue behind a triggered event, or become it.\<close>

definition queue_triggered :: "kernel_event \<Rightarrow> equeue_event \<Rightarrow> equeue_event" where
  "queue_triggered te e =
     (if ee_triggered e then e\<lparr>ee_pending_events := ee_pending_events e @ [te]\<rparr>
      else e\<lparr>ee_event := te, ee_triggered := True\<rparr>)"

definition reset_event :: "equeue_event \<Rightarrow> equeue_event" where
  "reset_event e = e\<lparr>ee_triggered := False, ee_event := (ee_event e)\<lparr>ke_fflags := 0, ke_data := 0\<rparr>\<rparr>"

definition MakeVideoOutEventData :: "u64 \<Rightarrow> u64 \<Rightarrow> u64 \<Rightarrow> u64" where
  "MakeVideoOutEventData tsc current_data trigger_data =
     (let counter = drop_bit 12 current_data AND 0xf;
          counter = (if counter \<noteq> 0xf then counter + 1 else counter);
          time = tsc AND 0xfff
      in time OR push_bit 12 counter OR push_bit 16 (trigger_data AND 0x0000ffffffffffff))"

fun run_trigger :: "trigger_func \<Rightarrow> u64 \<Rightarrow> u64 \<Rightarrow> equeue_event \<Rightarrow> equeue_event" where
  "run_trigger UserEventTriggerFunc tsc d e =
     e\<lparr>ee_triggered := True, ee_event := (ee_event e)\<lparr>ke_data := d, ke_udata := d\<rparr>\<rparr>"
| "run_trigger AmprEventTriggerFunc tsc d e = queue_triggered ((ee_event e)\<lparr>ke_data := d\<rparr>) e"
| "run_trigger InterruptEventTriggerFunc tsc d e =
     queue_triggered ((ee_event e)\<lparr>ke_fflags := ke_fflags (ee_event e) + 1, ke_data := d\<rparr>) e"
| "run_trigger TriggerVideoOutEvent tsc d e =
     queue_triggered ((ee_event e)\<lparr>ke_fflags := (if ke_fflags (ee_event e) < 0xf then ke_fflags (ee_event e) + 1 else ke_fflags (ee_event e)),
       ke_data := MakeVideoOutEventData tsc (ke_data (ee_event e)) d\<rparr>) e"

fun run_reset :: "reset_func \<Rightarrow> equeue_event \<Rightarrow> equeue_event" where
  "run_reset UserEventResetFunc e = (if ke_flags (ee_event e) AND EV_CLEAR \<noteq> 0 then reset_event e else e)"
| "run_reset InterruptEventResetFunc e = reset_event e"
| "run_reset ResetVideoOutEvent e = reset_event e"

subsection \<open>Reporting\<close>

definition TriggerExpiredTimers :: "u64 \<Rightarrow> equeue_event list \<Rightarrow> equeue_event list" where
  "TriggerExpiredTimers now = map (\<lambda>e.
     if \<not> ee_triggered e \<and> ee_deadline_ns e \<noteq> 0 \<and> ee_deadline_ns e \<le> now then e\<lparr>ee_triggered := True\<rparr> else e)"

text \<open>What follows the copy of an event that is not one-shot.\<close>

definition after_report :: "equeue_event \<Rightarrow> equeue_event" where
  "after_report e =
     (let e = (case kf_reset_func (ee_filter e) of
                 Some f \<Rightarrow> run_reset f e
               | None \<Rightarrow> if ke_flags (ee_event e) AND EV_CLEAR \<noteq> 0 then reset_event e else e)
      in case ee_pending_events e of
           [] \<Rightarrow> e
         | p # ps \<Rightarrow> e\<lparr>ee_event := p, ee_pending_events := ps, ee_triggered := True\<rparr>)"

text \<open>
  The inner loop on one event with \<open>room\<close> entries left in the buffer: the copies made, the event,
  and whether it is erased.
\<close>

fun report_event :: "nat \<Rightarrow> equeue_event \<Rightarrow> kernel_event list \<times> equeue_event \<times> bool" where
  "report_event 0 e = ([], e, False)"
| "report_event (Suc room) e =
     (if \<not> ee_triggered e then ([], e, False)
      else if ke_flags (ee_event e) AND EV_ONESHOT \<noteq> 0 then ([ee_event e], e, True)
      else (let (evs, e', erase) = report_event room (after_report e) in (ee_event e # evs, e', erase)))"

fun report_events :: "nat \<Rightarrow> equeue_event list \<Rightarrow> kernel_event list \<times> equeue_event list" where
  "report_events room [] = ([], [])"
| "report_events room (e # es) =
     (let (evs, e', erase) = report_event room e;
          kept = (if erase then [] else [e'])
      in if room \<le> length evs then (evs, kept @ es)
         else (let (evs', es') = report_events (room - length evs) es in (evs @ evs', kept @ es')))"

text \<open>
  \<open>EXIT_IF(num < 1)\<close> aborts: \<open>None\<close>. Otherwise the value returned, what was written to \<open>ev\<close> and the queue.
\<close>

definition GetTriggeredEvents :: "int \<Rightarrow> u64 \<Rightarrow> equeue \<Rightarrow> (int \<times> kernel_event list \<times> equeue) option" where
  "GetTriggeredEvents num now q =
     (if num < 1 then None
      else if q_closed q then Some (KERNEL_ERROR_EBADF, [], q)
      else (let (evs, es) = report_events (nat num) (TriggerExpiredTimers now (q_events q))
            in Some (int (length evs), evs, q\<lparr>q_events := es\<rparr>)))"

definition nearest_deadline :: "equeue_event list \<Rightarrow> u64" where
  "nearest_deadline es =
     fold (\<lambda>e d. if \<not> ee_triggered e \<and> ee_deadline_ns e \<noteq> 0 then min d (ee_deadline_ns e) else d) es u64_max"

definition GetNextTimerWaitMicros :: "u64 \<Rightarrow> equeue \<Rightarrow> u32 option" where
  "GetNextTimerWaitMicros now q =
     (let nearest = nearest_deadline (q_events q)
      in if nearest = u64_max then None
         else (let remaining_ns = (if now < nearest then nearest - now else 0);
                   rounded_us = max 1 ((remaining_ns + 999) div 1000)
               in Some (ucast (min rounded_us 0xffffffff))))"

text \<open>A round of \<open>WaitForEvents\<close> returns, or sleeps for a time or until signalled.\<close>

datatype eq_outcome = EqReturns int "kernel_event list" | EqSleeps "u32 option"

definition WaitForEvents_round :: "int \<Rightarrow> u32 \<Rightarrow> u32 \<Rightarrow> u64 \<Rightarrow> u64 \<Rightarrow> equeue \<Rightarrow> (eq_outcome \<times> equeue) option" where
  "WaitForEvents_round num micros elapsed now now' q =
     (case GetTriggeredEvents num now q of
        None \<Rightarrow> None
      | Some (ret, evs, q') \<Rightarrow>
          Some (if ret \<noteq> 0 \<or> (micros \<le> elapsed \<and> micros \<noteq> 0) then (EqReturns ret evs, q')
                else (EqSleeps (case GetNextTimerWaitMicros now' q' of
                        None \<Rightarrow> if micros = 0 then None else Some (micros - elapsed)
                      | Some timer_wait \<Rightarrow> Some (min (if micros \<noteq> 0 then micros - elapsed else u32_max) timer_wait)), q')))"

definition WaitForEvents_enter :: "int \<Rightarrow> u32 \<Rightarrow> u64 \<Rightarrow> u64 \<Rightarrow> equeue \<Rightarrow> (eq_outcome \<times> equeue) option" where
  "WaitForEvents_enter num micros now now' q =
     (if num < 1 then None
      else if q_closed q then Some (EqReturns KERNEL_ERROR_EBADF [], q)
      else WaitForEvents_round num micros 0 now now' q)"

subsection \<open>Adding, triggering and deleting\<close>

definition same_key :: "u64 \<Rightarrow> 16 word \<Rightarrow> equeue_event \<Rightarrow> bool" where
  "same_key ident filt e \<longleftrightarrow> ke_ident (ee_event e) = ident \<and> ke_filter (ee_event e) = filt"

text \<open>\<open>std::find_if\<close>: change the first event of a key, if there is one.\<close>

fun change_first :: "('a \<Rightarrow> bool) \<Rightarrow> ('a \<Rightarrow> 'a) \<Rightarrow> 'a list \<Rightarrow> 'a list option" where
  "change_first P f [] = None"
| "change_first P f (x # xs) = (if P x then Some (f x # xs) else map_option ((#) x) (change_first P f xs))"

definition KernelEqueuePrivate_AddEvent :: "equeue_event \<Rightarrow> equeue \<Rightarrow> int \<times> equeue" where
  "KernelEqueuePrivate_AddEvent ev q =
     (if q_closed q then (KERNEL_ERROR_EBADF, q)
      else (OK, case change_first (same_key (ke_ident (ee_event ev)) (ke_filter (ee_event ev)))
                   (\<lambda>e. e\<lparr>ee_deadline_ns := ee_deadline_ns ev, ee_event := (ee_event e)\<lparr>ke_udata := ke_udata (ee_event ev)\<rparr>,
                      ee_pending_events := map (ke_udata_update (\<lambda>_. ke_udata (ee_event ev))) (ee_pending_events e)\<rparr>)
                   (q_events q) of
              Some es \<Rightarrow> q\<lparr>q_events := es\<rparr>
            | None \<Rightarrow> q\<lparr>q_events := q_events q @ [ev]\<rparr>))"

definition trigger_event :: "u64 \<Rightarrow> u64 \<Rightarrow> equeue_event \<Rightarrow> equeue_event" where
  "trigger_event tsc trigger_data e =
     (case kf_trigger_func (ee_filter e) of
        Some f \<Rightarrow> run_trigger f tsc trigger_data e
      | None \<Rightarrow> e\<lparr>ee_triggered := True\<rparr>)"

definition KernelEqueuePrivate_TriggerEvent :: "u64 \<Rightarrow> u64 \<Rightarrow> 16 word \<Rightarrow> u64 \<Rightarrow> equeue \<Rightarrow> int \<times> equeue" where
  "KernelEqueuePrivate_TriggerEvent tsc ident filt trigger_data q =
     (if q_closed q then (KERNEL_ERROR_EBADF, q)
      else case change_first (same_key ident filt) (trigger_event tsc trigger_data) (q_events q) of
             Some es \<Rightarrow> (OK, q\<lparr>q_events := es\<rparr>)
           | None \<Rightarrow> (KERNEL_ERROR_ENOENT, q))"

text \<open>The calls of \<open>delete_event_func\<close> are returned, in order: the callback's code, the handle and the event.\<close>

type_synonym delete_call = "delete_func \<times> int \<times> equeue_event"

definition delete_calls :: "int \<Rightarrow> equeue_event list \<Rightarrow> delete_call list" where
  "delete_calls handle es =
     concat (map (\<lambda>e. case kf_delete_event_func (ee_filter e) of None \<Rightarrow> [] | Some f \<Rightarrow> [(f, handle, e)]) es)"

definition KernelEqueuePrivate_DeleteEvent :: "u64 \<Rightarrow> 16 word \<Rightarrow> equeue \<Rightarrow> int \<times> delete_call list \<times> equeue" where
  "KernelEqueuePrivate_DeleteEvent ident filt q =
     (if q_closed q then (KERNEL_ERROR_EBADF, [], q)
      else let P = (\<lambda>e. \<not> same_key ident filt e)
           in case dropWhile P (q_events q) of
                [] \<Rightarrow> (KERNEL_ERROR_ENOENT, [], q)
              | e # es \<Rightarrow> (OK, delete_calls (q_handle q) [e], q\<lparr>q_events := takeWhile P (q_events q) @ es\<rparr>))"

definition KernelEqueuePrivate_Close :: "equeue \<Rightarrow> delete_call list \<times> equeue" where
  "KernelEqueuePrivate_Close q =
     (if q_closed q then ([], q)
      else (delete_calls (q_handle q) (q_events q), q\<lparr>q_closed := True, q_events := []\<rparr>))"

end
