(* ===== verification/EventQueueApi.thy ===== *)
theory EventQueueApi
  imports EventQueue
begin

text \<open>
  The table of event queues and the exported functions of \<open>src/src/kernel/eventQueue.cpp\<close>.
  \<open>KernelPinEqueue\<close> hands out shared references, so a queue outlives its table entry: \<open>g_objects\<close>
  holds every queue made, \<open>g_equeues\<close> the handles still in the table (handles are never reused).
\<close>

record equeues =
  g_objects :: "int \<Rightarrow> equeue option"
  g_equeues :: "int list"
  g_next_equeue :: u64

definition KERNEL_EQUEUE_INVALID :: int where "KERNEL_EQUEUE_INVALID = 0"

definition KernelPinEqueue :: "int \<Rightarrow> equeues \<Rightarrow> equeue option" where
  "KernelPinEqueue eq t =
     (if eq = KERNEL_EQUEUE_INVALID then None
      else if eq \<in> set (g_equeues t) then g_objects t eq else None)"

text \<open>Handle exhaustion aborts: the outer \<open>None\<close>.\<close>

definition KernelCreateEqueue :: "bool \<Rightarrow> string option \<Rightarrow> equeues \<Rightarrow> (int \<times> int option \<times> equeues) option" where
  "KernelCreateEqueue eq_null nm t =
     (case nm of
        None \<Rightarrow> Some (KERNEL_ERROR_EINVAL, None, t)
      | Some n \<Rightarrow>
          if eq_null then Some (KERNEL_ERROR_EINVAL, None, t)
          else if 9223372036854775807 < g_next_equeue t then None
          else (let h = int (unat (g_next_equeue t))
                in Some (OK, Some h,
                     \<lparr>g_objects = (g_objects t)(h \<mapsto> (KernelEqueuePrivate_init h)\<lparr>q_name := n\<rparr>),
                      g_equeues = g_equeues t @ [h], g_next_equeue = g_next_equeue t + 1\<rparr>)))"

text \<open>An operation on the queue of a handle.\<close>

definition with_equeue :: "int \<Rightarrow> (equeue \<Rightarrow> int \<times> equeue) \<Rightarrow> equeues \<Rightarrow> int \<times> equeues" where
  "with_equeue eq act t =
     (case KernelPinEqueue eq t of
        None \<Rightarrow> (KERNEL_ERROR_EBADF, t)
      | Some q \<Rightarrow> (let (r, q') = act q in (r, t\<lparr>g_objects := (g_objects t)(eq \<mapsto> q')\<rparr>)))"

definition KernelAddEvent :: "int \<Rightarrow> equeue_event \<Rightarrow> equeues \<Rightarrow> int \<times> equeues" where
  "KernelAddEvent eq ev = with_equeue eq (KernelEqueuePrivate_AddEvent ev)"

definition KernelTriggerEvent :: "u64 \<Rightarrow> int \<Rightarrow> u64 \<Rightarrow> 16 word \<Rightarrow> u64 \<Rightarrow> equeues \<Rightarrow> int \<times> equeues" where
  "KernelTriggerEvent tsc eq ident filt trigger_data =
     with_equeue eq (KernelEqueuePrivate_TriggerEvent tsc ident filt trigger_data)"

definition KernelDeleteEvent :: "int \<Rightarrow> u64 \<Rightarrow> 16 word \<Rightarrow> equeues \<Rightarrow> int \<times> delete_call list \<times> equeues" where
  "KernelDeleteEvent eq ident filt t =
     (case KernelPinEqueue eq t of
        None \<Rightarrow> (KERNEL_ERROR_EBADF, [], t)
      | Some q \<Rightarrow> (let (r, calls, q') = KernelEqueuePrivate_DeleteEvent ident filt q
                  in (r, calls, t\<lparr>g_objects := (g_objects t)(eq \<mapsto> q')\<rparr>)))"

definition KernelDeleteEqueue :: "int \<Rightarrow> equeues \<Rightarrow> int \<times> delete_call list \<times> equeues" where
  "KernelDeleteEqueue eq t =
     (if eq \<notin> set (g_equeues t) then (KERNEL_ERROR_EBADF, [], t)
      else (let t = t\<lparr>g_equeues := filter (\<lambda>h. h \<noteq> eq) (g_equeues t)\<rparr>
            in case g_objects t eq of
                 None \<Rightarrow> (OK, [], t)
               | Some q \<Rightarrow> (let (calls, q') = KernelEqueuePrivate_Close q
                           in (OK, calls, t\<lparr>g_objects := (g_objects t)(eq \<mapsto> q')\<rparr>))))"

subsection \<open>Waiting\<close>

text \<open>The code of a finished wait, from what the queue returned into \<open>*out\<close>.\<close>

definition KernelWaitEqueue_code :: "int \<Rightarrow> int" where
  "KernelWaitEqueue_code out =
     (if out = KERNEL_ERROR_EBADF then KERNEL_ERROR_EBADF
      else if out = 0 then KERNEL_ERROR_ETIMEDOUT else OK)"

text \<open>
  Up to the first return or sleep: the code when it returns, the outcome with \<open>*out\<close> and the events
  when the queue was asked. \<open>None\<close> is the abort on a null \<open>out\<close>.
\<close>

definition KernelWaitEqueue ::
  "int \<Rightarrow> bool \<Rightarrow> int \<Rightarrow> bool \<Rightarrow> u32 option \<Rightarrow> u64 \<Rightarrow> u64 \<Rightarrow> equeues \<Rightarrow> (int option \<times> eq_outcome option \<times> equeues) option" where
  "KernelWaitEqueue eq ev_null num out_null timo now now' t =
     (case KernelPinEqueue eq t of
        None \<Rightarrow> Some (Some KERNEL_ERROR_EBADF, None, t)
      | Some q \<Rightarrow>
          if ev_null then Some (Some KERNEL_ERROR_EFAULT, None, t)
          else if num < 1 then Some (Some KERNEL_ERROR_EINVAL, None, t)
          else if out_null then None
          else
            case (case timo of
                    None \<Rightarrow> WaitForEvents_enter num 0 now now' q
                  | Some micros \<Rightarrow>
                      if micros = 0
                      then map_option (\<lambda>(r, evs, q'). (EqReturns r evs, q')) (GetTriggeredEvents num now q)
                      else WaitForEvents_enter num micros now now' q) of
              None \<Rightarrow> None
            | Some (o', q') \<Rightarrow>
                Some (case o' of EqReturns r evs \<Rightarrow> Some (KernelWaitEqueue_code r) | EqSleeps _ \<Rightarrow> None,
                      Some o', t\<lparr>g_objects := (g_objects t)(eq \<mapsto> q')\<rparr>))"

text \<open>A later round, on the pinned queue, which may have been deleted meanwhile.\<close>

definition KernelWaitEqueue_resume ::
  "int \<Rightarrow> int \<Rightarrow> u32 option \<Rightarrow> u32 \<Rightarrow> u64 \<Rightarrow> u64 \<Rightarrow> equeues \<Rightarrow> (int option \<times> eq_outcome \<times> equeues) option" where
  "KernelWaitEqueue_resume eq num timo elapsed now now' t =
     (case g_objects t eq of
        None \<Rightarrow> None
      | Some q \<Rightarrow>
          (case WaitForEvents_round num (case timo of None \<Rightarrow> 0 | Some micros \<Rightarrow> micros) elapsed now now' q of
             None \<Rightarrow> None
           | Some (o', q') \<Rightarrow>
               Some (case o' of EqReturns r evs \<Rightarrow> Some (KernelWaitEqueue_code r) | EqSleeps _ \<Rightarrow> None,
                     o', t\<lparr>g_objects := (g_objects t)(eq \<mapsto> q')\<rparr>)))"

subsection \<open>User events, timers and AMPR events\<close>

definition equeue_event_init :: "u64 \<Rightarrow> 16 word \<Rightarrow> u16 \<Rightarrow> u64 \<Rightarrow> trigger_func option \<Rightarrow> reset_func option \<Rightarrow> equeue_event" where
  "equeue_event_init ident filt flags udata trig rst =
     \<lparr>ee_triggered = False, ee_deadline_ns = 0,
      ee_event = \<lparr>ke_ident = ident, ke_filter = filt, ke_flags = flags, ke_fflags = 0, ke_data = 0, ke_udata = udata\<rparr>,
      ee_filter = \<lparr>kf_data = 0, kf_trigger_func = trig, kf_reset_func = rst, kf_delete_event_func = None\<rparr>,
      ee_pending_events = []\<rparr>"

text \<open>\<open>static_cast<uintptr_t>(id)\<close> sign-extends.\<close>

definition event_ident :: "32 word \<Rightarrow> u64" where
  "event_ident idn = scast idn"

definition user_event :: "32 word \<Rightarrow> equeue_event" where
  "user_event idn = equeue_event_init (event_ident idn) KERNEL_EVFILT_USER EV_ADD 0
     (Some UserEventTriggerFunc) (Some UserEventResetFunc)"

definition KernelAddUserEvent :: "int \<Rightarrow> 32 word \<Rightarrow> equeues \<Rightarrow> int \<times> equeues" where
  "KernelAddUserEvent eq idn = KernelAddEvent eq (user_event idn)"

definition user_event_edge :: "32 word \<Rightarrow> equeue_event" where
  "user_event_edge idn = equeue_event_init (event_ident idn) KERNEL_EVFILT_USER (EV_ADD OR EV_CLEAR) 0
     (Some UserEventTriggerFunc) (Some UserEventResetFunc)"

definition KernelAddUserEventEdge :: "int \<Rightarrow> 32 word \<Rightarrow> equeues \<Rightarrow> int \<times> equeues" where
  "KernelAddUserEventEdge eq idn = KernelAddEvent eq (user_event_edge idn)"

definition KernelTriggerUserEvent :: "int \<Rightarrow> 32 word \<Rightarrow> u64 \<Rightarrow> equeues \<Rightarrow> int \<times> equeues" where
  "KernelTriggerUserEvent eq idn udata = KernelTriggerEvent 0 eq (event_ident idn) KERNEL_EVFILT_USER udata"

text \<open>Every queue of the table is triggered; the list is the iteration order of the hash table.\<close>

fun trigger_all :: "u64 \<Rightarrow> u64 \<Rightarrow> int list \<Rightarrow> equeues \<Rightarrow> nat \<times> equeues" where
  "trigger_all ident udata [] t = (0, t)"
| "trigger_all ident udata (h # hs) t =
     (case g_objects t h of
        None \<Rightarrow> trigger_all ident udata hs t
      | Some q \<Rightarrow>
          (let (r, q') = KernelEqueuePrivate_TriggerEvent 0 ident KERNEL_EVFILT_USER udata q;
               (n, t') = trigger_all ident udata hs (t\<lparr>g_objects := (g_objects t)(h \<mapsto> q')\<rparr>)
           in ((if r = OK then Suc n else n), t')))"

definition KernelTriggerUserEventForAll :: "32 word \<Rightarrow> u64 \<Rightarrow> equeues \<Rightarrow> int \<times> equeues" where
  "KernelTriggerUserEventForAll idn udata t =
     (let (triggered, t') = trigger_all (event_ident idn) udata (g_equeues t) t
      in (if 0 < triggered then OK else KERNEL_ERROR_ENOENT, t'))"

definition KernelDeleteUserEvent :: "int \<Rightarrow> 32 word \<Rightarrow> equeues \<Rightarrow> int \<times> delete_call list \<times> equeues" where
  "KernelDeleteUserEvent eq idn = KernelDeleteEvent eq (event_ident idn) KERNEL_EVFILT_USER"

definition hrtimer_event :: "u64 \<Rightarrow> 32 word \<Rightarrow> u64 \<Rightarrow> equeue_event" where
  "hrtimer_event deadline idn udata =
     (equeue_event_init (event_ident idn) KERNEL_EVFILT_HRTIMER (EV_ADD OR EV_ONESHOT) udata None None)
       \<lparr>ee_deadline_ns := deadline\<rparr>"

definition KernelAddHRTimerEvent ::
  "int \<Rightarrow> 32 word \<Rightarrow> kernel_timespec option \<Rightarrow> u64 \<Rightarrow> u64 \<Rightarrow> equeues \<Rightarrow> int \<times> equeues" where
  "KernelAddHRTimerEvent eq idn ts udata now t =
     (case ts of
        None \<Rightarrow> (KERNEL_ERROR_EFAULT, t)
      | Some ts \<Rightarrow>
          if tv_sec ts < 0 \<or> tv_nsec ts < 0 \<or> 1000000000 \<le> tv_nsec ts \<or>
             (u64_max - of_int (tv_nsec ts)) div 1000000000 < of_int (tv_sec ts)
          then (KERNEL_ERROR_EINVAL, t)
          else (let delay = of_int (tv_sec ts) * 1000000000 + of_int (tv_nsec ts);
                    deadline = (if delay \<le> u64_max - now then now + delay else u64_max)
                in KernelAddEvent eq (hrtimer_event deadline idn udata) t))"

definition KernelDeleteHRTimerEvent :: "int \<Rightarrow> 32 word \<Rightarrow> equeues \<Rightarrow> int \<times> delete_call list \<times> equeues" where
  "KernelDeleteHRTimerEvent eq idn = KernelDeleteEvent eq (event_ident idn) KERNEL_EVFILT_HRTIMER"

definition ampr_event :: "32 word \<Rightarrow> u64 \<Rightarrow> equeue_event" where
  "ampr_event idn udata = equeue_event_init (event_ident idn) KERNEL_EVFILT_USER (EV_ADD OR EV_CLEAR) udata
     (Some AmprEventTriggerFunc) (Some UserEventResetFunc)"

definition KernelAddAmprEvent :: "int \<Rightarrow> 32 word \<Rightarrow> u64 \<Rightarrow> equeues \<Rightarrow> int \<times> equeues" where
  "KernelAddAmprEvent eq idn udata t =
     (OK, if eq \<noteq> KERNEL_EQUEUE_INVALID then snd (KernelAddEvent eq (ampr_event idn udata) t) else t)"

definition KernelAddAmprSystemEvent :: "int \<Rightarrow> 32 word \<Rightarrow> u64 \<Rightarrow> equeues \<Rightarrow> int \<times> equeues" where
  "KernelAddAmprSystemEvent eq idn udata = KernelAddAmprEvent eq idn udata"

definition KernelDeleteAmprEvent :: "int \<Rightarrow> 32 word \<Rightarrow> equeues \<Rightarrow> int \<times> delete_call list \<times> equeues" where
  "KernelDeleteAmprEvent eq idn t =
     (if eq \<noteq> KERNEL_EQUEUE_INVALID
      then (let (_, calls, t') = KernelDeleteEvent eq (event_ident idn) KERNEL_EVFILT_USER t in (OK, calls, t'))
      else (OK, [], t))"

definition KernelDeleteAmprSystemEvent :: "int \<Rightarrow> 32 word \<Rightarrow> equeues \<Rightarrow> int \<times> delete_call list \<times> equeues" where
  "KernelDeleteAmprSystemEvent eq idn = KernelDeleteAmprEvent eq idn"

text \<open>The graphics driver's interrupt event (\<open>AddEqEvent\<close> of \<open>sync.cpp\<close>, up to its own registration).\<close>

definition interrupt_event :: "32 word \<Rightarrow> u64 \<Rightarrow> equeue_event" where
  "interrupt_event idn udata =
     (let e = equeue_event_init (event_ident idn) KERNEL_EVFILT_GRAPHICS 0 udata
                (Some InterruptEventTriggerFunc) (Some InterruptEventResetFunc)
      in e\<lparr>ee_event := (ee_event e)\<lparr>ke_data := scast idn\<rparr>\<rparr>)"

subsection \<open>Reading a reported event\<close>

definition KernelGetEventData :: "kernel_event option \<Rightarrow> u64" where
  "KernelGetEventData ev = (case ev of Some e \<Rightarrow> ke_data e | None \<Rightarrow> 0)"

definition KernelGetEventFflags :: "kernel_event option \<Rightarrow> u64" where
  "KernelGetEventFflags ev = (case ev of Some e \<Rightarrow> ucast (ke_fflags e) | None \<Rightarrow> 0)"

definition KernelGetEventFilter :: "kernel_event option \<Rightarrow> int" where
  "KernelGetEventFilter ev = (case ev of Some e \<Rightarrow> sint (ke_filter e) | None \<Rightarrow> 0)"

definition KernelGetEventId :: "kernel_event option \<Rightarrow> u64" where
  "KernelGetEventId ev = (case ev of Some e \<Rightarrow> ke_ident e | None \<Rightarrow> 0)"

definition KernelGetEventUserData :: "kernel_event option \<Rightarrow> u64" where
  "KernelGetEventUserData ev = (case ev of Some e \<Rightarrow> ke_udata e | None \<Rightarrow> 0)"

definition KernelGetEventError :: "kernel_event option \<Rightarrow> int" where
  "KernelGetEventError ev =
     (case ev of Some e \<Rightarrow> if ke_flags e AND EV_ERROR \<noteq> 0 then sint (ucast (ke_data e) :: 32 word) else 0 | None \<Rightarrow> 0)"

end
