(* ===== verification/EventQueueProps.thy ===== *)
theory EventQueueProps
  imports EventQueueApi Runs
begin

text \<open>
  Event queues: keys are unique, reports fit the buffer and leave nothing behind, queued triggers
  come out first in first out, waits sleep no longer than the next timer, timers get exact deadlines.
\<close>

subsection \<open>Keys\<close>

definition ee_key :: "equeue_event \<Rightarrow> u64 \<times> 16 word" where
  "ee_key e = (ke_ident (ee_event e), ke_filter (ee_event e))"

definition ke_key :: "kernel_event \<Rightarrow> u64 \<times> 16 word" where
  "ke_key k = (ke_ident k, ke_filter k)"

lemma same_key_iff: "same_key ident filt e \<longleftrightarrow> ee_key e = (ident, filt)"
  by (auto simp: same_key_def ee_key_def)

lemma ee_key_event: "ee_key e = ke_key (ee_event e)"
  by (simp add: ee_key_def ke_key_def)

text \<open>What an event and those pending behind it share.\<close>

definition ee_wf :: "equeue_event \<Rightarrow> bool" where
  "ee_wf e \<longleftrightarrow> (ee_pending_events e \<noteq> [] \<longrightarrow> ee_triggered e) \<and>
     (\<forall>p\<in>set (ee_pending_events e). ke_key p = ee_key e \<and> ke_flags p = ke_flags (ee_event e))"

lemma reset_event_simps [simp]:
  "ee_key (reset_event e) = ee_key e" "ee_pending_events (reset_event e) = ee_pending_events e"
  "ke_flags (ee_event (reset_event e)) = ke_flags (ee_event e)" "ee_filter (reset_event e) = ee_filter e"
  "\<not> ee_triggered (reset_event e)" "ee_deadline_ns (reset_event e) = ee_deadline_ns e"
  "ke_ident (ee_event (reset_event e)) = ke_ident (ee_event e)" "ke_filter (ee_event (reset_event e)) = ke_filter (ee_event e)"
  by (simp_all add: reset_event_def ee_key_def)

lemma run_reset_simps [simp]:
  "ee_key (run_reset f e) = ee_key e" "ee_pending_events (run_reset f e) = ee_pending_events e"
  "ke_flags (ee_event (run_reset f e)) = ke_flags (ee_event e)" "ee_filter (run_reset f e) = ee_filter e"
  "ee_deadline_ns (run_reset f e) = ee_deadline_ns e"
  "ke_ident (ee_event (run_reset f e)) = ke_ident (ee_event e)" "ke_filter (ee_event (run_reset f e)) = ke_filter (ee_event e)"
  by (cases f; simp)+

lemma after_report_wf:
  assumes "ee_wf e" and "ee_triggered e"
  shows "ee_wf (after_report e) \<and> ee_key (after_report e) = ee_key e \<and>
    ke_flags (ee_event (after_report e)) = ke_flags (ee_event e) \<and> ee_filter (after_report e) = ee_filter e \<and>
    ee_deadline_ns (after_report e) = ee_deadline_ns e"
  using assms
  by (cases "ee_pending_events e")
    (auto simp: after_report_def ee_wf_def ee_key_event ke_key_def ee_key_def split: option.split)

lemma queue_triggered_wf:
  assumes "ee_wf e" and "ke_key te = ee_key e" and "ke_flags te = ke_flags (ee_event e)"
  shows "ee_wf (queue_triggered te e) \<and> ee_key (queue_triggered te e) = ee_key e"
  using assms by (auto simp: queue_triggered_def ee_wf_def ee_key_event)

lemma trigger_event_wf:
  assumes "ee_wf e"
  shows "ee_wf (trigger_event tsc d e) \<and> ee_key (trigger_event tsc d e) = ee_key e"
proof (cases "kf_trigger_func (ee_filter e)")
  case None
  then show ?thesis using assms by (simp add: trigger_event_def ee_wf_def ee_key_def)
next
  case (Some f)
  have "ee_wf (run_trigger f tsc d e) \<and> ee_key (run_trigger f tsc d e) = ee_key e"
  proof (cases f)
    case UserEventTriggerFunc
    then show ?thesis using assms by (simp add: ee_wf_def ee_key_def)
  next
    case AmprEventTriggerFunc
    show ?thesis unfolding AmprEventTriggerFunc run_trigger.simps
      by (rule queue_triggered_wf [OF assms]) (simp_all add: ke_key_def ee_key_def)
  next
    case InterruptEventTriggerFunc
    show ?thesis unfolding InterruptEventTriggerFunc run_trigger.simps
      by (rule queue_triggered_wf [OF assms]) (simp_all add: ke_key_def ee_key_def)
  next
    case TriggerVideoOutEvent
    show ?thesis unfolding TriggerVideoOutEvent run_trigger.simps
      by (rule queue_triggered_wf [OF assms]) (simp_all add: ke_key_def ee_key_def)
  qed
  then show ?thesis by (simp add: trigger_event_def Some)
qed

subsection \<open>Reporting\<close>

lemma report_event_spec:
  assumes "report_event room e = (evs, e', erase)" and "ee_wf e"
  shows "length evs \<le> room \<and> (length evs < room \<longrightarrow> \<not> erase \<longrightarrow> \<not> ee_triggered e') \<and> (erase \<longrightarrow> evs \<noteq> []) \<and>
    ee_wf e' \<and> ee_key e' = ee_key e \<and> (\<forall>k\<in>set evs. ke_key k = ee_key e) \<and>
    ee_filter e' = ee_filter e \<and> ke_flags (ee_event e') = ke_flags (ee_event e) \<and> ee_deadline_ns e' = ee_deadline_ns e \<and>
    (0 < room \<longrightarrow> (evs = [] \<longleftrightarrow> \<not> ee_triggered e)) \<and> (evs = [] \<longrightarrow> e' = e)"
  using assms
proof (induction room e arbitrary: evs e' erase rule: report_event.induct)
  case (2 room e)
  consider "\<not> ee_triggered e" | "ee_triggered e" "ke_flags (ee_event e) AND EV_ONESHOT \<noteq> 0"
    | "ee_triggered e" "ke_flags (ee_event e) AND EV_ONESHOT = 0" by blast
  then show ?case
  proof cases
    case 3
    obtain evs1 where r: "report_event room (after_report e) = (evs1, e', erase)" "evs = ee_event e # evs1"
      using "2.prems"(1) 3 by (auto split: prod.splits)
    note w = after_report_wf [OF "2.prems"(2) 3(1)]
    note IH = "2.IH" [OF _ _ r(1)]
    show ?thesis using IH 3 w r(2) by (auto simp: ee_key_event)
  qed (use "2.prems" in \<open>auto simp: ee_key_event\<close>)
qed auto

lemma report_events_spec:
  assumes "report_events room es = (evs, es')" and "\<forall>e\<in>set es. ee_wf e" and "0 < room"
  shows "length evs \<le> room \<and> (length evs < room \<longrightarrow> (\<forall>e\<in>set es'. \<not> ee_triggered e)) \<and>
    (\<forall>e\<in>set es'. ee_wf e) \<and> ee_key ` set es' \<subseteq> ee_key ` set es \<and>
    (distinct (map ee_key es) \<longrightarrow> distinct (map ee_key es')) \<and>
    (\<forall>k\<in>set evs. \<exists>e\<in>set es. ee_triggered e \<and> ee_key e = ke_key k) \<and>
    (evs = [] \<longleftrightarrow> (\<forall>e\<in>set es. \<not> ee_triggered e)) \<and> (evs = [] \<longrightarrow> es' = es)"
  using assms
proof (induction es arbitrary: room evs es')
  case (Cons e es)
  obtain evs1 e1 er where r: "report_event room e = (evs1, e1, er)" by (metis prod_cases3)
  have wf: "ee_wf e" using Cons.prems(2) by simp
  note s = report_event_spec [OF r wf]
  define kept where "kept = (if er then [] else [e1])"
  have k: "set kept \<subseteq> {e1}" by (simp add: kept_def)
  show ?case
  proof (cases "room \<le> length evs1")
    case True
    then have out: "evs = evs1" "es' = kept @ es"
      using Cons.prems(1) r by (auto simp: kept_def)
    have "evs1 \<noteq> []" using True Cons.prems(3) by auto
    then show ?thesis
      using True s Cons.prems k unfolding out by (auto simp: kept_def)
  next
    case False
    obtain evs2 es2 where r2: "report_events (room - length evs1) es = (evs2, es2)" by fastforce
    have out: "evs = evs1 @ evs2" "es' = kept @ es2"
      using Cons.prems(1) r r2 False by (auto simp: kept_def)
    have IH: "length evs2 \<le> room - length evs1" "length evs2 < room - length evs1 \<longrightarrow> (\<forall>e\<in>set es2. \<not> ee_triggered e)"
      "\<forall>e\<in>set es2. ee_wf e" "ee_key ` set es2 \<subseteq> ee_key ` set es"
      "distinct (map ee_key es) \<longrightarrow> distinct (map ee_key es2)"
      "\<forall>k\<in>set evs2. \<exists>e\<in>set es. ee_triggered e \<and> ee_key e = ke_key k"
      "evs2 = [] \<longleftrightarrow> (\<forall>e\<in>set es. \<not> ee_triggered e)" "evs2 = [] \<longrightarrow> es2 = es"
      using Cons.IH [OF r2] Cons.prems(2) False by auto
    have len: "length evs \<le> room" using IH(1) False by (simp add: out)
    have unt: "\<not> er \<longrightarrow> \<not> ee_triggered e1" using s False by simp
    have trig: "\<forall>e\<in>set es'. \<not> ee_triggered e" if "length evs < room"
      using that IH(2) unt by (auto simp: out kept_def)
    have keys: "ee_key ` set es' \<subseteq> ee_key ` set (e # es)" using IH(4) s by (auto simp: out kept_def)
    have dist: "distinct (map ee_key es')" if "distinct (map ee_key (e # es))"
      using that IH(4,5) s by (auto simp: out kept_def)
    have org: "\<forall>k\<in>set evs. \<exists>x\<in>set (e # es). ee_triggered x \<and> ee_key x = ke_key k"
      using IH(6) s Cons.prems(3) by (auto simp: out)
    have emp: "evs = [] \<longleftrightarrow> (\<forall>x\<in>set (e # es). \<not> ee_triggered x)" using IH(7) s Cons.prems(3) by (auto simp: out)
    have same: "es' = e # es" if "evs = []" using that IH(8) s by (auto simp: out kept_def)
    have wf': "\<forall>x\<in>set es'. ee_wf x" using IH(3) s by (auto simp: out kept_def)
    show ?thesis using len trig keys dist org emp same wf' by blast
  qed
qed simp

lemma TriggerExpiredTimers_wf:
  "(\<forall>e\<in>set es. ee_wf e) \<Longrightarrow> (\<forall>e\<in>set (TriggerExpiredTimers now es). ee_wf e)"
  "map ee_key (TriggerExpiredTimers now es) = map ee_key es"
  by (auto simp: TriggerExpiredTimers_def ee_wf_def ee_key_def)


subsection \<open>The queue's operations and their runs\<close>

definition eq_inv :: "equeue \<Rightarrow> bool" where
  "eq_inv q \<longleftrightarrow> distinct (map ee_key (q_events q)) \<and> (\<forall>e\<in>set (q_events q). ee_wf e) \<and>
     (q_closed q \<longrightarrow> q_events q = [])"

datatype eq_op =
    EqAdd equeue_event
  | EqTrigger u64 u64 "16 word" u64
  | EqDelete u64 "16 word"
  | EqGet int u64
  | EqClose

text \<open>A queue with what it reported and the data of the triggers it accepted.\<close>

record eq_history =
  h_queue :: equeue
  h_reported :: "kernel_event list"
  h_triggered :: "((u64 \<times> 16 word) \<times> u64) list"

fun eq_exec :: "eq_op \<Rightarrow> eq_history \<Rightarrow> eq_history option" where
  "eq_exec (EqAdd ev) h = Some (h\<lparr>h_queue := snd (KernelEqueuePrivate_AddEvent ev (h_queue h))\<rparr>)"
| "eq_exec (EqTrigger tsc ident filt d) h =
     (let (r, q') = KernelEqueuePrivate_TriggerEvent tsc ident filt d (h_queue h)
      in Some (h\<lparr>h_queue := q', h_triggered := h_triggered h @ (if r = OK then [((ident, filt), d)] else [])\<rparr>))"
| "eq_exec (EqDelete ident filt) h =
     Some (h\<lparr>h_queue := snd (snd (KernelEqueuePrivate_DeleteEvent ident filt (h_queue h)))\<rparr>)"
| "eq_exec (EqGet num now) h =
     (case GetTriggeredEvents num now (h_queue h) of
        None \<Rightarrow> None
      | Some (r, evs, q') \<Rightarrow> Some (h\<lparr>h_queue := q', h_reported := h_reported h @ evs\<rparr>))"
| "eq_exec EqClose h = Some (h\<lparr>h_queue := snd (KernelEqueuePrivate_Close (h_queue h))\<rparr>)"

definition eq_history_init :: "int \<Rightarrow> eq_history" where
  "eq_history_init handle = \<lparr>h_queue = KernelEqueuePrivate_init handle, h_reported = [], h_triggered = []\<rparr>"

text \<open>Events are added with nothing pending behind them, as every caller does.\<close>

fun adds_fresh :: "eq_op \<Rightarrow> bool" where
  "adds_fresh (EqAdd ev) = (ee_pending_events ev = [])"
| "adds_fresh _ = True"

lemma change_first_split:
  "change_first P f xs = None \<longleftrightarrow> (\<forall>x\<in>set xs. \<not> P x)"
  "change_first P f xs = Some ys \<Longrightarrow> \<exists>A x B. xs = A @ x # B \<and> ys = A @ f x # B \<and> P x \<and> (\<forall>a\<in>set A. \<not> P a)"
proof -
  show "change_first P f xs = None \<longleftrightarrow> (\<forall>x\<in>set xs. \<not> P x)" by (induction xs) auto
  show "change_first P f xs = Some ys \<Longrightarrow> \<exists>A x B. xs = A @ x # B \<and> ys = A @ f x # B \<and> P x \<and> (\<forall>a\<in>set A. \<not> P a)"
  proof (induction xs arbitrary: ys)
    case (Cons x xs)
    show ?case
    proof (cases "P x")
      case True
      then show ?thesis using Cons.prems by (intro exI [of _ "[]"]) auto
    next
      case False
      then obtain zs where z: "change_first P f xs = Some zs" "ys = x # zs" using Cons.prems by auto
      obtain A y B where "xs = A @ y # B \<and> zs = A @ f y # B \<and> P y \<and> (\<forall>a\<in>set A. \<not> P a)"
        using Cons.IH [OF z(1)] by blast
      then show ?thesis using False z(2) by (intro exI [of _ "x # A"]) auto
    qed
  qed simp
qed

lemma eq_inv_change:
  assumes "eq_inv q" and "change_first P f (q_events q) = Some es"
    and "\<And>e. ee_wf e \<Longrightarrow> ee_wf (f e) \<and> ee_key (f e) = ee_key e"
  shows "eq_inv (q\<lparr>q_events := es\<rparr>)"
proof -
  obtain A x B where s: "q_events q = A @ x # B" "es = A @ f x # B" using change_first_split(2) [OF assms(2)] by blast
  have "ee_wf x" using assms(1) s by (simp add: eq_inv_def)
  then show ?thesis using assms(1) assms(3) [of x] by (auto simp: eq_inv_def s)
qed

lemma AddEvent_inv:
  assumes "eq_inv q" and "ee_pending_events ev = []"
  shows "eq_inv (snd (KernelEqueuePrivate_AddEvent ev q))"
proof -
  let ?f = "\<lambda>e. e\<lparr>ee_deadline_ns := ee_deadline_ns ev, ee_event := (ee_event e)\<lparr>ke_udata := ke_udata (ee_event ev)\<rparr>,
      ee_pending_events := map (ke_udata_update (\<lambda>_. ke_udata (ee_event ev))) (ee_pending_events e)\<rparr>"
  have f: "ee_wf (?f e) \<and> ee_key (?f e) = ee_key e" if "ee_wf e" for e
    using that by (auto simp: ee_wf_def ee_key_def ke_key_def)
  show ?thesis
  proof (cases "change_first (same_key (ke_ident (ee_event ev)) (ke_filter (ee_event ev))) ?f (q_events q)")
    case None
    then have "ee_key ev \<notin> ee_key ` set (q_events q)"
      unfolding change_first_split(1) same_key_iff by (auto simp: ee_key_def)
    then show ?thesis
      using assms None by (auto simp: KernelEqueuePrivate_AddEvent_def eq_inv_def ee_wf_def)
  next
    case (Some es)
    then show ?thesis
      using assms(1) eq_inv_change [OF assms(1) Some f] by (simp add: KernelEqueuePrivate_AddEvent_def)
  qed
qed

lemma TriggerEvent_inv:
  assumes "eq_inv q"
  shows "eq_inv (snd (KernelEqueuePrivate_TriggerEvent tsc ident filt d q))"
proof (cases "change_first (same_key ident filt) (trigger_event tsc d) (q_events q)")
  case None
  then show ?thesis using assms by (simp add: KernelEqueuePrivate_TriggerEvent_def)
next
  case (Some es)
  then show ?thesis
    using assms eq_inv_change [OF assms Some trigger_event_wf] by (simp add: KernelEqueuePrivate_TriggerEvent_def)
qed

lemma DeleteEvent_events:
  "\<exists>A B C. q_events q = A @ B @ C \<and> snd (snd (KernelEqueuePrivate_DeleteEvent ident filt q)) = q\<lparr>q_events := A @ C\<rparr> \<and>
    (\<forall>e\<in>set B. ee_key e = (ident, filt))"
proof (cases "q_closed q \<or> dropWhile (\<lambda>e. \<not> same_key ident filt e) (q_events q) = []")
  case True
  then have "snd (snd (KernelEqueuePrivate_DeleteEvent ident filt q)) = q"
  proof (cases "q_closed q")
    case False
    then have "dropWhile (\<lambda>e. \<not> same_key ident filt e) (q_events q) = []" using True by blast
    then show ?thesis using False
      by (simp add: KernelEqueuePrivate_DeleteEvent_def Let_def del: dropWhile_eq_Nil_conv)
  qed (simp add: KernelEqueuePrivate_DeleteEvent_def)
  then have "q_events q = q_events q @ [] @ [] \<and>
      snd (snd (KernelEqueuePrivate_DeleteEvent ident filt q)) = q\<lparr>q_events := q_events q @ []\<rparr> \<and>
      (\<forall>e\<in>set []. ee_key e = (ident, filt))" by simp
  then show ?thesis by blast
next
  case False
  then have "dropWhile (\<lambda>e. \<not> same_key ident filt e) (q_events q) \<noteq> []" by blast
  then obtain e es where d: "dropWhile (\<lambda>e. \<not> same_key ident filt e) (q_events q) = e # es"
    by (meson list.exhaust)
  then have "same_key ident filt e" by (metis dropWhile_eq_Cons_conv)
  then have k: "\<forall>x\<in>set [e]. ee_key x = (ident, filt)" by (simp add: same_key_iff)
  have "q_events q = takeWhile (\<lambda>e. \<not> same_key ident filt e) (q_events q) @ [e] @ es"
    using d by (metis append_Cons append_Nil takeWhile_dropWhile_id)
  moreover have "snd (snd (KernelEqueuePrivate_DeleteEvent ident filt q)) =
      q\<lparr>q_events := takeWhile (\<lambda>e. \<not> same_key ident filt e) (q_events q) @ es\<rparr>"
    using False d by (simp add: KernelEqueuePrivate_DeleteEvent_def)
  ultimately show ?thesis using k by blast
qed

lemma DeleteEvent_inv: "eq_inv q \<Longrightarrow> eq_inv (snd (snd (KernelEqueuePrivate_DeleteEvent ident filt q)))"
proof -
  assume inv: "eq_inv q"
  obtain A B C where d: "q_events q = A @ B @ C"
    "snd (snd (KernelEqueuePrivate_DeleteEvent ident filt q)) = q\<lparr>q_events := A @ C\<rparr>"
    using DeleteEvent_events by blast
  have "distinct (map ee_key A @ map ee_key B @ map ee_key C)" using inv by (simp add: eq_inv_def d(1))
  then have "distinct (map ee_key A @ map ee_key C)" unfolding distinct_append by auto
  then show ?thesis using inv unfolding d(2) by (auto simp: eq_inv_def d(1))
qed

lemma GetTriggeredEvents_inv:
  assumes "eq_inv q" and "GetTriggeredEvents num now q = Some (r, evs, q')"
  shows "eq_inv q'"
proof (cases "q_closed q")
  case True
  then show ?thesis using assms by (auto simp: GetTriggeredEvents_def split: if_splits)
next
  case False
  obtain evs1 es where r: "report_events (nat num) (TriggerExpiredTimers now (q_events q)) = (evs1, es)" by fastforce
  have n: "1 \<le> num" and q': "q' = q\<lparr>q_events := es\<rparr>"
    using assms(2) False r by (auto simp: GetTriggeredEvents_def split: if_splits)
  show ?thesis
    using report_events_spec [OF r TriggerExpiredTimers_wf(1)] assms(1) n False
    by (simp add: eq_inv_def q' TriggerExpiredTimers_wf(2))
qed

lemma eq_inv_step:
  assumes "adds_fresh e" and "eq_inv (h_queue h)" and "eq_exec e h = Some h'"
  shows "eq_inv (h_queue h')"
proof (cases e)
  case (EqGet num now)
  then show ?thesis using assms GetTriggeredEvents_inv by (auto split: option.splits)
next
  case EqClose
  then show ?thesis using assms by (cases "q_closed (h_queue h)") (auto simp: KernelEqueuePrivate_Close_def eq_inv_def)
qed (use assms AddEvent_inv TriggerEvent_inv DeleteEvent_inv in \<open>auto simp: case_prod_unfold Let_def\<close>)

interpretation equeue_runs: guarded_system eq_exec adds_fresh "\<lambda>h. eq_inv (h_queue h)"
  by unfold_locales (rule eq_inv_step)

lemma eq_inv_init: "eq_inv (h_queue (eq_history_init handle))"
  by (simp add: eq_inv_def eq_history_init_def KernelEqueuePrivate_init_def)


text \<open>
  C29: In every run of adds, triggers, deletions, reports and closing, the keys (identifier, filter) of
  a queue's events are distinct, an event has events pending only while it is triggered, those carry
  its key and flags, and a closed queue is empty.
\<close>

theorem equeue_well_formed:
  assumes "list_all adds_fresh es" and "run eq_exec es (eq_history_init handle) = Some h"
  shows "distinct (map (\<lambda>e. (ke_ident (ee_event e), ke_filter (ee_event e))) (q_events (h_queue h))) \<and>
    (\<forall>e\<in>set (q_events (h_queue h)). (ee_pending_events e \<noteq> [] \<longrightarrow> ee_triggered e) \<and>
       (\<forall>p\<in>set (ee_pending_events e). ke_ident p = ke_ident (ee_event e) \<and> ke_filter p = ke_filter (ee_event e) \<and>
          ke_flags p = ke_flags (ee_event e))) \<and>
    (q_closed (h_queue h) \<longrightarrow> q_events (h_queue h) = [])"
proof -
  have inv: "eq_inv (h_queue h)" by (rule equeue_runs.run_inv [OF assms(1) eq_inv_init assms(2)])
  have key: "(\<lambda>e. (ke_ident (ee_event e), ke_filter (ee_event e))) = ee_key" by (simp add: fun_eq_iff ee_key_def)
  have "ke_key p = ee_key e \<longleftrightarrow> ke_ident p = ke_ident (ee_event e) \<and> ke_filter p = ke_filter (ee_event e)" for p e
    by (simp add: ke_key_def ee_key_def)
  then show ?thesis using inv unfolding eq_inv_def ee_wf_def key by simp
qed

definition demo_queue_run :: "eq_op list" where
  "demo_queue_run = [EqAdd (ampr_event 3 0), EqTrigger 0 3 KERNEL_EVFILT_USER 10, EqTrigger 0 3 KERNEL_EVFILT_USER 11,
     EqGet 1 0, EqTrigger 0 3 KERNEL_EVFILT_USER 12, EqGet 8 0]"

lemmas eq_run_simps = KernelEqueuePrivate_AddEvent_def KernelEqueuePrivate_TriggerEvent_def same_key_def
  eq_history_init_def KernelEqueuePrivate_init_def trigger_event_def queue_triggered_def
  GetTriggeredEvents_def TriggerExpiredTimers_def after_report_def reset_event_def
  ampr_event_def equeue_event_init_def event_ident_def EV_ONESHOT_def EV_CLEAR_def EV_ADD_def errno_defs

lemma report_event_numeral:
  "report_event (numeral n) e =
     (if \<not> ee_triggered e then ([], e, False)
      else if ke_flags (ee_event e) AND EV_ONESHOT \<noteq> 0 then ([ee_event e], e, True)
      else (let (evs, e', erase) = report_event (pred_numeral n) (after_report e) in (ee_event e # evs, e', erase)))"
  by (simp add: numeral_eq_Suc)

lemma demo_queue_reached:
  "\<exists>h. run eq_exec demo_queue_run (eq_history_init 1) = Some h \<and> map ke_data (h_reported h) = [10, 11, 12]"
  by (simp add: demo_queue_run_def eq_run_simps report_event_numeral)

theorem equeue_well_formed_witness:
  "\<exists>h. run eq_exec demo_queue_run (eq_history_init 1) = Some h \<and>
    distinct (map (\<lambda>e. (ke_ident (ee_event e), ke_filter (ee_event e))) (q_events (h_queue h)))"
proof -
  obtain h where h: "run eq_exec demo_queue_run (eq_history_init 1) = Some h" using demo_queue_reached by blast
  have "list_all adds_fresh demo_queue_run" by (simp add: demo_queue_run_def ampr_event_def equeue_event_init_def)
  then show ?thesis using equeue_well_formed [OF _ h] h by blast
qed

subsection \<open>Reports\<close>

text \<open>An event is due when it was triggered or its timer has expired.\<close>

definition due :: "u64 \<Rightarrow> equeue_event \<Rightarrow> bool" where
  "due now e \<longleftrightarrow> ee_triggered e \<or> (ee_deadline_ns e \<noteq> 0 \<and> ee_deadline_ns e \<le> now)"

lemma TriggerExpiredTimers_due:
  "(\<forall>e\<in>set (TriggerExpiredTimers now es). \<not> ee_triggered e) \<longleftrightarrow> (\<forall>e\<in>set es. \<not> due now e)"
  "(\<forall>e\<in>set es. \<not> due now e) \<Longrightarrow> TriggerExpiredTimers now es = es"
  "x \<in> set (TriggerExpiredTimers now es) \<Longrightarrow> ee_triggered x \<Longrightarrow> \<exists>e\<in>set es. due now e \<and> ee_key e = ee_key x"
proof -
  show "(\<forall>e\<in>set (TriggerExpiredTimers now es). \<not> ee_triggered e) \<longleftrightarrow> (\<forall>e\<in>set es. \<not> due now e)"
    unfolding TriggerExpiredTimers_def set_map ball_simps by (auto simp: due_def)
  show "(\<forall>e\<in>set es. \<not> due now e) \<Longrightarrow> TriggerExpiredTimers now es = es"
    unfolding TriggerExpiredTimers_def by (rule map_idI) (auto simp: due_def)
  show "x \<in> set (TriggerExpiredTimers now es) \<Longrightarrow> ee_triggered x \<Longrightarrow> \<exists>e\<in>set es. due now e \<and> ee_key e = ee_key x"
    by (auto simp: TriggerExpiredTimers_def due_def ee_key_def split: if_splits)
qed

lemma GetTriggeredEvents_spec:
  assumes "eq_inv q" and "\<not> q_closed q" and "1 \<le> num"
  shows "\<exists>evs q'. GetTriggeredEvents num now q = Some (int (length evs), evs, q') \<and> int (length evs) \<le> num \<and>
    (int (length evs) < num \<longrightarrow> (\<forall>e\<in>set (q_events q'). \<not> ee_triggered e)) \<and>
    (\<forall>k\<in>set evs. \<exists>e\<in>set (q_events q). due now e \<and> ke_ident k = ke_ident (ee_event e) \<and> ke_filter k = ke_filter (ee_event e)) \<and>
    (evs = [] \<longleftrightarrow> (\<forall>e\<in>set (q_events q). \<not> due now e)) \<and> (evs = [] \<longrightarrow> q' = q)"
proof -
  obtain evs es where r: "report_events (nat num) (TriggerExpiredTimers now (q_events q)) = (evs, es)" by fastforce
  have wf: "\<forall>e\<in>set (q_events q). ee_wf e" using assms(1) by (simp add: eq_inv_def)
  have s: "length evs \<le> nat num" "length evs < nat num \<longrightarrow> (\<forall>e\<in>set es. \<not> ee_triggered e)"
    "\<forall>k\<in>set evs. \<exists>e\<in>set (TriggerExpiredTimers now (q_events q)). ee_triggered e \<and> ee_key e = ke_key k"
    "evs = [] \<longleftrightarrow> (\<forall>e\<in>set (TriggerExpiredTimers now (q_events q)). \<not> ee_triggered e)"
    "evs = [] \<longrightarrow> es = TriggerExpiredTimers now (q_events q)"
    using report_events_spec [OF r TriggerExpiredTimers_wf(1) [OF wf]] assms(3) by auto
  have g: "GetTriggeredEvents num now q = Some (int (length evs), evs, q\<lparr>q_events := es\<rparr>)"
    using assms(2,3) r by (simp add: GetTriggeredEvents_def)
  have org: "\<exists>e\<in>set (q_events q). due now e \<and> ke_ident k = ke_ident (ee_event e) \<and> ke_filter k = ke_filter (ee_event e)"
    if "k \<in> set evs" for k
    using that s(3) TriggerExpiredTimers_due(3) by (fastforce simp: ee_key_def ke_key_def)
  have emp: "evs = [] \<longleftrightarrow> (\<forall>e\<in>set (q_events q). \<not> due now e)" using s(4) TriggerExpiredTimers_due(1) by blast
  have same: "q\<lparr>q_events := es\<rparr> = q" if "evs = []"
    using that s(5) emp TriggerExpiredTimers_due(2) by simp
  have "int (length evs) \<le> num" "int (length evs) < num \<longrightarrow> (\<forall>e\<in>set es. \<not> ee_triggered e)"
    using s(1,2) assms(3) by linarith+
  then show ?thesis using g org emp same by (intro exI [of _ evs] exI [of _ "q\<lparr>q_events := es\<rparr>"]) simp
qed

text \<open>
  C30: A report on a live queue never writes past the buffer of \<open>num\<close> events, reports only events
  that were triggered or whose timer expired, returns zero exactly when there is none and then changes
  nothing, and leaves no triggered event behind unless the buffer is full.
\<close>

theorem GetTriggeredEvents_correct:
  assumes "list_all adds_fresh es" and "run eq_exec es (eq_history_init handle) = Some h"
    and "q = h_queue h" and "\<not> q_closed q" and "1 \<le> num"
  shows "\<exists>evs q'. GetTriggeredEvents num now q = Some (int (length evs), evs, q') \<and> int (length evs) \<le> num \<and>
    (int (length evs) < num \<longrightarrow> (\<forall>e\<in>set (q_events q'). \<not> ee_triggered e)) \<and>
    (\<forall>k\<in>set evs. \<exists>e\<in>set (q_events q). due now e \<and> ke_ident k = ke_ident (ee_event e) \<and> ke_filter k = ke_filter (ee_event e)) \<and>
    (evs = [] \<longleftrightarrow> (\<forall>e\<in>set (q_events q). \<not> due now e)) \<and> (evs = [] \<longrightarrow> q' = q)"
  using GetTriggeredEvents_spec [OF _ assms(4,5)] equeue_runs.run_inv [OF assms(1) eq_inv_init assms(2)] assms(3)
  by simp

theorem GetTriggeredEvents_correct_witness:
  "\<exists>evs q'. GetTriggeredEvents 2 5 (KernelEqueuePrivate_init 1) = Some (int (length evs), evs, q') \<and> evs = []"
  using GetTriggeredEvents_correct [of "[]" 1 "eq_history_init 1" _ 2 5]
  by (simp add: eq_history_init_def KernelEqueuePrivate_init_def)

end
