(* ===== verification/EventQueueFifo.thy ===== *)
theory EventQueueFifo
  imports EventQueueProps
begin

text \<open>
  Queued events (AMPR and interrupt events): what a queue reports of one of them is what it was
  triggered with, each time once and in order. A level-triggered user event is different.
\<close>

subsection \<open>One queued event is a first-in first-out buffer\<close>

definition event_data :: "equeue_event \<Rightarrow> u64 list" where
  "event_data e = (if ee_triggered e then map ke_data (ee_event e # ee_pending_events e) else [])"

definition queued_event :: "equeue_event \<Rightarrow> bool" where
  "queued_event e \<longleftrightarrow> ee_wf e \<and> ee_deadline_ns e = 0 \<and> ke_flags (ee_event e) AND EV_ONESHOT = 0 \<and>
     kf_trigger_func (ee_filter e) \<in> {Some AmprEventTriggerFunc, Some InterruptEventTriggerFunc} \<and>
     (kf_reset_func (ee_filter e) = Some InterruptEventResetFunc \<or>
      kf_reset_func (ee_filter e) = Some UserEventResetFunc \<and> ke_flags (ee_event e) AND EV_CLEAR \<noteq> 0)"

lemma after_report_queued:
  assumes "queued_event e" and "ee_triggered e"
  shows "queued_event (after_report e) \<and> ke_data (ee_event e) # event_data (after_report e) = event_data e"
proof -
  have wf: "ee_wf e" using assms(1) by (simp add: queued_event_def)
  obtain f where f: "kf_reset_func (ee_filter e) = Some f" and r: "run_reset f e = reset_event e"
    using assms(1) by (auto simp: queued_event_def)
  have "queued_event (after_report e)"
    using assms(1) after_report_wf [OF wf assms(2)] by (simp add: queued_event_def)
  moreover have "ke_data (ee_event e) # event_data (after_report e) = event_data e"
    by (cases "ee_pending_events e") (simp_all add: after_report_def f r event_data_def assms(2))
  ultimately show ?thesis by blast
qed

lemma report_event_queued:
  assumes "report_event room e = (evs, e', er)" and "queued_event e"
  shows "\<not> er \<and> queued_event e' \<and> map ke_data evs @ event_data e' = event_data e"
  using assms
proof (induction room e arbitrary: evs e' er rule: report_event.induct)
  case (2 room e)
  show ?case
  proof (cases "ee_triggered e")
    case True
    have one: "ke_flags (ee_event e) AND EV_ONESHOT = 0" using "2.prems"(2) by (simp add: queued_event_def)
    obtain evs1 where r: "report_event room (after_report e) = (evs1, e', er)" "evs = ee_event e # evs1"
      using "2.prems"(1) True one by (auto split: prod.splits)
    note a = after_report_queued [OF "2.prems"(2) True]
    show ?thesis using "2.IH" [OF _ _ r(1)] True one a r(2) by auto
  qed (use "2.prems" in auto)
qed auto

lemma trigger_event_queued:
  assumes "queued_event e"
  shows "queued_event (trigger_event tsc d e) \<and> event_data (trigger_event tsc d e) = event_data e @ [d]"
proof -
  have wf: "ee_wf (trigger_event tsc d e)" using assms trigger_event_wf by (simp add: queued_event_def)
  have pend: "\<not> ee_triggered e \<Longrightarrow> ee_pending_events e = []" using assms by (auto simp: queued_event_def ee_wf_def)
  obtain te where te: "trigger_event tsc d e = queue_triggered te e" "ke_data te = d" "ke_flags te = ke_flags (ee_event e)"
    using assms by (auto simp: queued_event_def trigger_event_def)
  have "event_data (queue_triggered te e) = event_data e @ [d]"
    using te(2) pend by (simp add: event_data_def queue_triggered_def)
  moreover have "queued_event (queue_triggered te e)"
    using wf assms te by (simp add: queued_event_def) (simp add: queue_triggered_def)
  ultimately show ?thesis by (simp add: te(1))
qed

subsection \<open>The events of one key in a queue\<close>

definition key_data :: "u64 \<times> 16 word \<Rightarrow> equeue_event list \<Rightarrow> u64 list" where
  "key_data k es = concat (map (\<lambda>e. if ee_key e = k then event_data e else []) es)"

definition reported_data :: "u64 \<times> 16 word \<Rightarrow> kernel_event list \<Rightarrow> u64 list" where
  "reported_data k evs = map ke_data (filter (\<lambda>v. ke_key v = k) evs)"

lemma key_data_simps [simp]:
  "key_data k [] = []" "key_data k (e # es) = (if ee_key e = k then event_data e else []) @ key_data k es"
  "key_data k (es @ es') = key_data k es @ key_data k es'"
  by (simp_all add: key_data_def)

lemma key_data_none: "k \<notin> ee_key ` set es \<Longrightarrow> key_data k es = []"
  by (induction es) auto

lemma reported_data_simps [simp]:
  "reported_data k [] = []" "reported_data k (xs @ ys) = reported_data k xs @ reported_data k ys"
  by (simp_all add: reported_data_def)

lemma reported_data_all: "\<forall>v\<in>set evs. ke_key v = k' \<Longrightarrow> reported_data k evs = (if k' = k then map ke_data evs else [])"
  by (induction evs) (auto simp: reported_data_def)

definition queued_in :: "u64 \<times> 16 word \<Rightarrow> equeue_event list \<Rightarrow> bool" where
  "queued_in k es \<longleftrightarrow> (\<forall>e\<in>set es. ee_wf e \<and> (ee_key e = k \<longrightarrow> queued_event e)) \<and> k \<in> ee_key ` set es"

lemma report_events_queued:
  assumes "report_events room es = (evs, es')" and "\<forall>e\<in>set es. ee_wf e \<and> (ee_key e = k \<longrightarrow> queued_event e)"
  shows "reported_data k evs @ key_data k es' = key_data k es \<and>
    (\<forall>e\<in>set es'. ee_wf e \<and> (ee_key e = k \<longrightarrow> queued_event e)) \<and> (k \<in> ee_key ` set es \<longrightarrow> k \<in> ee_key ` set es')"
  using assms
proof (induction es arbitrary: room evs es')
  case (Cons e es)
  obtain evs1 e1 er where r: "report_event room e = (evs1, e1, er)" by (metis prod_cases3)
  have wf: "ee_wf e" and q: "ee_key e = k \<Longrightarrow> queued_event e" using Cons.prems(2) by auto
  note s = report_event_spec [OF r wf]
  define kept where "kept = (if er then [] else [e1])"
  have here: "reported_data k evs1 @ key_data k kept = key_data k [e] \<and>
      (\<forall>x\<in>set kept. ee_wf x \<and> (ee_key x = k \<longrightarrow> queued_event x)) \<and> (ee_key e = k \<longrightarrow> k \<in> ee_key ` set kept)"
  proof (cases "ee_key e = k")
    case True
    then show ?thesis using report_event_queued [OF r q [OF True]] s reported_data_all [of evs1 "ee_key e" k]
      by (auto simp: kept_def)
  next
    case False
    then show ?thesis using s reported_data_all [of evs1 "ee_key e" k] by (auto simp: kept_def)
  qed
  show ?case
  proof (cases "room \<le> length evs1")
    case True
    then have out: "evs = evs1" "es' = kept @ es" using Cons.prems(1) r by (auto simp: kept_def)
    have "k \<in> ee_key ` set (e # es) \<longrightarrow> k \<in> ee_key ` set es'" using here by (auto simp: out image_Un)
    moreover have "\<forall>x\<in>set es'. ee_wf x \<and> (ee_key x = k \<longrightarrow> queued_event x)" using here Cons.prems(2) by (auto simp: out)
    moreover have "reported_data k evs @ key_data k es' = key_data k (e # es)" using here by (simp add: out)
    ultimately show ?thesis by blast
  next
    case False
    obtain evs2 es2 where r2: "report_events (room - length evs1) es = (evs2, es2)" by fastforce
    have out: "evs = evs1 @ evs2" "es' = kept @ es2"
      using Cons.prems(1) r r2 False by (auto simp: kept_def)
    have IH: "reported_data k evs2 @ key_data k es2 = key_data k es"
      "\<forall>e\<in>set es2. ee_wf e \<and> (ee_key e = k \<longrightarrow> queued_event e)" "k \<in> ee_key ` set es \<longrightarrow> k \<in> ee_key ` set es2"
      using Cons.IH [OF r2] Cons.prems(2) by auto
    have unt: "er \<or> \<not> ee_triggered e1" using s False by auto
    then have "key_data k kept = []" by (auto simp: kept_def event_data_def)
    then have "reported_data k evs @ key_data k es' = key_data k (e # es)"
      using here IH(1) by (simp add: out)
    moreover have "\<forall>e\<in>set es'. ee_wf e \<and> (ee_key e = k \<longrightarrow> queued_event e)" using here IH(2) by (auto simp: out)
    moreover have "k \<in> ee_key ` set (e # es) \<longrightarrow> k \<in> ee_key ` set es'" using here IH(3) by (auto simp: out image_Un)
    ultimately show ?thesis by blast
  qed
qed simp


subsection \<open>Runs\<close>

text \<open>What may happen to a queue in which the event of key \<open>k\<close> stays.\<close>

fun keeps_key :: "u64 \<times> 16 word \<Rightarrow> eq_op \<Rightarrow> bool" where
  "keeps_key k (EqAdd ev) = (ee_pending_events ev = [] \<and> ee_key ev \<noteq> k)"
| "keeps_key k (EqDelete ident filt) = ((ident, filt) \<noteq> k)"
| "keeps_key k EqClose = False"
| "keeps_key k _ = True"

definition accepted :: "u64 \<times> 16 word \<Rightarrow> eq_history \<Rightarrow> u64 list" where
  "accepted k h = map snd (filter (\<lambda>(k', _). k' = k) (h_triggered h))"

definition fifo_inv :: "u64 \<times> 16 word \<Rightarrow> eq_history \<Rightarrow> bool" where
  "fifo_inv k h \<longleftrightarrow> eq_inv (h_queue h) \<and> \<not> q_closed (h_queue h) \<and> queued_in k (q_events (h_queue h)) \<and>
     reported_data k (h_reported h) @ key_data k (q_events (h_queue h)) = accepted k h"

lemma change_first_data:
  assumes "change_first P f es = Some es'" and "\<And>e. P e \<Longrightarrow> ee_key e \<noteq> k"
    and "\<And>e. e \<in> set es \<Longrightarrow> ee_wf e \<Longrightarrow> ee_wf (f e) \<and> ee_key (f e) = ee_key e" and "queued_in k es"
  shows "queued_in k es' \<and> key_data k es' = key_data k es"
proof -
  obtain A x B where s: "es = A @ x # B" "es' = A @ f x # B" "P x" using change_first_split(2) [OF assms(1)] by blast
  have x: "ee_key x \<noteq> k" using assms(2) s(3) by blast
  have fx: "ee_wf (f x) \<and> ee_key (f x) = ee_key x" using assms(3) [of x] assms(4) s(1) by (simp add: queued_in_def)
  show ?thesis using assms(4) x fx by (auto simp: s queued_in_def)
qed

lemma change_first_trigger:
  assumes "change_first (same_key ident filt) (trigger_event tsc d) es = Some es'"
    and "queued_in (ident, filt) es" and "distinct (map ee_key es)"
  shows "queued_in (ident, filt) es' \<and> key_data (ident, filt) es' = key_data (ident, filt) es @ [d]"
proof -
  obtain A x B where s: "es = A @ x # B" "es' = A @ trigger_event tsc d x # B" "same_key ident filt x"
    using change_first_split(2) [OF assms(1)] by blast
  have key: "ee_key x = (ident, filt)" using s(3) by (simp add: same_key_iff)
  have x: "queued_event x" "ee_wf x" using assms(2) key by (auto simp: queued_in_def s)
  have AB: "(ident, filt) \<notin> ee_key ` set A" "(ident, filt) \<notin> ee_key ` set B" using assms(3) key by (auto simp: s)
  note t = trigger_event_queued [OF x(1), of tsc d] and w = trigger_event_wf [OF x(2), of tsc d]
  have "key_data (ident, filt) es' = key_data (ident, filt) es @ [d]"
    using t w key key_data_none [OF AB(1)] key_data_none [OF AB(2)] by (simp add: s)
  moreover have "queued_in (ident, filt) es'" using assms(2) t w key by (auto simp: queued_in_def s)
  ultimately show ?thesis by blast
qed

lemma AddEvent_queued:
  assumes "queued_in k (q_events q)" and "ee_key ev \<noteq> k" and "ee_pending_events ev = []" and "\<not> q_closed q"
  shows "queued_in k (q_events (snd (KernelEqueuePrivate_AddEvent ev q))) \<and>
    key_data k (q_events (snd (KernelEqueuePrivate_AddEvent ev q))) = key_data k (q_events q)"
proof -
  let ?P = "same_key (ke_ident (ee_event ev)) (ke_filter (ee_event ev))"
  let ?f = "\<lambda>e. e\<lparr>ee_deadline_ns := ee_deadline_ns ev, ee_event := (ee_event e)\<lparr>ke_udata := ke_udata (ee_event ev)\<rparr>,
      ee_pending_events := map (ke_udata_update (\<lambda>_. ke_udata (ee_event ev))) (ee_pending_events e)\<rparr>"
  have f: "ee_wf (?f e) \<and> ee_key (?f e) = ee_key e" if "ee_wf e" for e
    using that by (auto simp: ee_wf_def ee_key_def ke_key_def)
  have P: "ee_key e \<noteq> k" if "?P e" for e using that assms(2) by (simp add: same_key_iff) (simp add: ee_key_def)
  show ?thesis
  proof (cases "change_first ?P ?f (q_events q)")
    case None
    then show ?thesis using assms by (auto simp: KernelEqueuePrivate_AddEvent_def queued_in_def ee_wf_def)
  next
    case (Some es)
    then show ?thesis using change_first_data [OF Some P f assms(1)] assms(4) by (simp add: KernelEqueuePrivate_AddEvent_def)
  qed
qed

lemma TriggerExpiredTimers_queued:
  assumes "queued_in k es"
  shows "queued_in k (TriggerExpiredTimers now es) \<and> key_data k (TriggerExpiredTimers now es) = key_data k es"
  using assms
proof -
  define t where "t = (\<lambda>e :: equeue_event. if \<not> ee_triggered e \<and> ee_deadline_ns e \<noteq> 0 \<and> ee_deadline_ns e \<le> now then e\<lparr>ee_triggered := True\<rparr> else e)"
  have run: "TriggerExpiredTimers now es = map t es" by (simp add: TriggerExpiredTimers_def t_def)
  have key: "ee_key (t x) = ee_key x" and wf: "ee_wf x \<Longrightarrow> ee_wf (t x)" and same: "queued_event x \<Longrightarrow> t x = x" for x
    by (auto simp: t_def ee_key_def ee_wf_def queued_event_def)
  have "\<forall>x\<in>set es. ee_wf x \<and> (ee_key x = k \<longrightarrow> queued_event x)" using assms by (simp add: queued_in_def)
  then have "\<forall>x\<in>set (map t es). ee_wf x \<and> (ee_key x = k \<longrightarrow> queued_event x)" and data: "key_data k (map t es) = key_data k es"
    using key wf same by (induction es) auto
  moreover have "ee_key ` set (map t es) = ee_key ` set es" by (simp add: image_image key)
  ultimately show ?thesis using assms by (simp add: run queued_in_def)
qed


lemma fifo_inv_trigger:
  assumes fifo: "fifo_inv k h" and ex: "eq_exec (EqTrigger tsc ident filt d) h = Some h'" and inv': "eq_inv (h_queue h')"
  shows "fifo_inv k h'"
proof -
  let ?q = "h_queue h"
  have inv: "eq_inv ?q" "\<not> q_closed ?q" "queued_in k (q_events ?q)"
    "reported_data k (h_reported h) @ key_data k (q_events ?q) = accepted k h"
    using fifo by (simp_all add: fifo_inv_def)
  show ?thesis
  proof (cases "change_first (same_key ident filt) (trigger_event tsc d) (q_events ?q)")
    case None
    then have "h' = h" using ex inv(2)
      by (simp add: KernelEqueuePrivate_TriggerEvent_def errno_defs)
    then show ?thesis using fifo by simp
  next
    case (Some es)
    then have h': "h' = h\<lparr>h_queue := ?q\<lparr>q_events := es\<rparr>, h_triggered := h_triggered h @ [((ident, filt), d)]\<rparr>"
      using ex inv(2) by (simp add: KernelEqueuePrivate_TriggerEvent_def errno_defs)
    show ?thesis
    proof (cases "(ident, filt) = k")
      case True
      have "distinct (map ee_key (q_events ?q))" using inv(1) by (simp add: eq_inv_def)
      then show ?thesis
        using change_first_trigger [OF Some] inv inv' True by (auto simp: h' fifo_inv_def accepted_def)
    next
      case False
      then have "ee_key e \<noteq> k" if "same_key ident filt e" for e using that by (simp add: same_key_iff)
      then show ?thesis
        using change_first_data [OF Some _ trigger_event_wf inv(3)] inv inv' False
        by (simp add: h' fifo_inv_def accepted_def)
    qed
  qed
qed

lemma fifo_inv_step:
  assumes "keeps_key k op" and "fifo_inv k h" and "eq_exec op h = Some h'"
  shows "fifo_inv k h'"
proof -
  let ?q = "h_queue h"
  have inv: "eq_inv ?q" "\<not> q_closed ?q" "queued_in k (q_events ?q)"
    "reported_data k (h_reported h) @ key_data k (q_events ?q) = accepted k h"
    using assms(2) by (simp_all add: fifo_inv_def)
  have "adds_fresh op" using assms(1) by (cases op) auto
  then have inv': "eq_inv (h_queue h')" by (rule eq_inv_step [OF _ inv(1) assms(3)])
  show ?thesis
  proof (cases op)
    case (EqAdd ev)
    then have "h' = h\<lparr>h_queue := snd (KernelEqueuePrivate_AddEvent ev ?q)\<rparr>" using assms(3) by simp
    moreover have "\<not> q_closed (snd (KernelEqueuePrivate_AddEvent ev ?q))"
      using inv(2) by (simp add: KernelEqueuePrivate_AddEvent_def split: option.split)
    ultimately show ?thesis using inv' inv AddEvent_queued [OF inv(3) _ _ inv(2)] assms(1) EqAdd
      by (simp add: fifo_inv_def accepted_def)
  next
    case (EqTrigger tsc ident filt d)
    then show ?thesis using fifo_inv_trigger [OF assms(2) _ inv'] assms(3) by blast
  next
    case (EqDelete ident filt)
    then have h': "h' = h\<lparr>h_queue := snd (snd (KernelEqueuePrivate_DeleteEvent ident filt ?q))\<rparr>" using assms(3) by simp
    obtain A B C where d: "q_events ?q = A @ B @ C" "\<forall>e\<in>set B. ee_key e = (ident, filt)"
      "snd (snd (KernelEqueuePrivate_DeleteEvent ident filt ?q)) = ?q\<lparr>q_events := A @ C\<rparr>"
      using DeleteEvent_events by blast
    have B: "k \<notin> ee_key ` set B" using d(2) assms(1) EqDelete by auto
    have "queued_in k (A @ C)" using inv(3) B by (auto simp: queued_in_def d(1) image_Un)
    then show ?thesis using inv inv' key_data_none [OF B] by (simp add: h' d fifo_inv_def accepted_def)
  next
    case (EqGet num now)
    obtain evs es where r: "report_events (nat num) (TriggerExpiredTimers now (q_events ?q)) = (evs, es)" by fastforce
    have h': "h' = h\<lparr>h_queue := ?q\<lparr>q_events := es\<rparr>, h_reported := h_reported h @ evs\<rparr>"
      using assms(3) EqGet inv(2) r by (auto simp: GetTriggeredEvents_def split: if_splits)
    note t = TriggerExpiredTimers_queued [OF inv(3), of now]
    then have a: "\<forall>e\<in>set (TriggerExpiredTimers now (q_events ?q)). ee_wf e \<and> (ee_key e = k \<longrightarrow> queued_event e)"
      and b: "k \<in> ee_key ` set (TriggerExpiredTimers now (q_events ?q))" unfolding queued_in_def by blast+
    have "reported_data k evs @ key_data k es = key_data k (q_events ?q) \<and> queued_in k es"
      using report_events_queued [OF r a] b t unfolding queued_in_def by metis
    then show ?thesis using inv inv' by (simp add: h' fifo_inv_def accepted_def)
  next
    case EqClose
    then show ?thesis using assms(1) by simp
  qed
qed

interpretation queued_key: guarded_system eq_exec "keeps_key k" "fifo_inv k" for k
  by unfold_locales (rule fifo_inv_step)

subsection \<open>Properties\<close>

text \<open>
  C31: A queue delivers an AMPR or interrupt event like a first-in first-out buffer: in every run in
  which the event is added first and not deleted, whatever else is added, deleted, triggered and
  reported, the data it was triggered with are the data reported of it, in order and each once,
  followed by those still queued.
\<close>

theorem queued_events_fifo:
  assumes "ev = ampr_event n udata \<or> ev = interrupt_event n udata" and "k = (ke_ident (ee_event ev), ke_filter (ee_event ev))"
    and "list_all (keeps_key k) es" and "run eq_exec (EqAdd ev # es) (eq_history_init handle) = Some h"
  shows "\<exists>queued. map snd (filter (\<lambda>(k', _). k' = k) (h_triggered h)) =
      map ke_data (filter (\<lambda>v. (ke_ident v, ke_filter v) = k) (h_reported h)) @ queued \<and>
    (\<exists>e\<in>set (q_events (h_queue h)). (ke_ident (ee_event e), ke_filter (ee_event e)) = k \<and>
       queued = (if ee_triggered e then map ke_data (ee_event e # ee_pending_events e) else []))"
proof -
  have ev: "queued_event ev" "ee_key ev = k" "event_data ev = []" "ee_wf ev"
    using assms(1,2)
    by (auto simp: queued_event_def ee_wf_def ee_key_def event_data_def ampr_event_def interrupt_event_def
        equeue_event_init_def EV_ONESHOT_def EV_CLEAR_def EV_ADD_def)
  define h0 where "h0 = (eq_history_init handle)\<lparr>h_queue := (KernelEqueuePrivate_init handle)\<lparr>q_events := [ev]\<rparr>\<rparr>"
  have r0: "run eq_exec es h0 = Some h"
    using assms(4) by (simp add: h0_def eq_history_init_def KernelEqueuePrivate_AddEvent_def KernelEqueuePrivate_init_def)
  have "fifo_inv k h0"
    using ev by (simp add: fifo_inv_def h0_def eq_history_init_def KernelEqueuePrivate_init_def eq_inv_def queued_in_def accepted_def)
  then have inv: "fifo_inv k h" by (rule queued_key.run_inv [OF assms(3) _ r0])
  then have "k \<in> ee_key ` set (q_events (h_queue h))" and dist: "distinct (map ee_key (q_events (h_queue h)))"
    by (simp_all add: fifo_inv_def queued_in_def eq_inv_def)
  then obtain A e B where s: "q_events (h_queue h) = A @ e # B" "ee_key e = k"
    by (metis imageE split_list)
  then have AB: "k \<notin> ee_key ` set A" "k \<notin> ee_key ` set B" using dist by auto
  have "key_data k (q_events (h_queue h)) = event_data e"
    using s key_data_none [OF AB(1)] key_data_none [OF AB(2)] by simp
  then have "reported_data k (h_reported h) @ event_data e = accepted k h" using inv by (simp add: fifo_inv_def)
  then show ?thesis
    using s unfolding reported_data_def accepted_def ke_key_def ee_key_def event_data_def
    by (intro exI [of _ "event_data e"] conjI bexI [of _ e]) (simp_all add: event_data_def)
qed

theorem queued_events_fifo_witness:
  "\<exists>h. run eq_exec demo_queue_run (eq_history_init 1) = Some h \<and>
    map snd (filter (\<lambda>(k', _). k' = (3, KERNEL_EVFILT_USER)) (h_triggered h)) = [10, 11, 12]"
proof -
  obtain h where h: "run eq_exec demo_queue_run (eq_history_init 1) = Some h"
      "map ke_data (h_reported h) = [10, 11, 12]" "\<forall>v\<in>set (h_reported h). ke_key v = (3, KERNEL_EVFILT_USER)"
      "\<forall>e\<in>set (q_events (h_queue h)). \<not> ee_triggered e"
    by (simp add: demo_queue_run_def eq_run_simps report_event_numeral ke_key_def)
  have "filter (\<lambda>v. (ke_ident v, ke_filter v) = (3, KERNEL_EVFILT_USER)) (h_reported h) = h_reported h"
    using h(3) by (simp add: filter_id_conv ke_key_def)
  then show ?thesis
    using queued_events_fifo [of "ampr_event 3 0" 3 0 "(3, KERNEL_EVFILT_USER)" "tl demo_queue_run" 1 h] h
    by (fastforce simp: demo_queue_run_def ampr_event_def equeue_event_init_def event_ident_def)
qed

text \<open>
  A level-triggered user event (\<open>KernelAddUserEvent\<close>), once triggered, does not reset: a single
  report fills the whole buffer with copies of it, hides every event behind it, and stays triggered for the
  next report; only the expired timers behind it are marked.
\<close>

lemma level_user_event_floods:
  "GetTriggeredEvents num now
     \<lparr>q_events = trigger_event tsc d (user_event n) # es, q_name = nm, q_handle = hnd, q_closed = False\<rparr> =
   (if num < 1 then None
    else Some (num, replicate (nat num) ((ee_event (user_event n))\<lparr>ke_data := d, ke_udata := d\<rparr>),
      \<lparr>q_events = trigger_event tsc d (user_event n) # TriggerExpiredTimers now es, q_name = nm, q_handle = hnd, q_closed = False\<rparr>))"
proof -
  define e where "e = trigger_event tsc d (user_event n)"
  have e: "ee_triggered e" "ke_flags (ee_event e) AND EV_ONESHOT = 0" "after_report e = e"
    "ee_event e = (ee_event (user_event n))\<lparr>ke_data := d, ke_udata := d\<rparr>"
    by (simp_all add: e_def trigger_event_def user_event_def equeue_event_init_def EV_ONESHOT_def EV_ADD_def EV_CLEAR_def after_report_def)
  have "report_event room e = (replicate room (ee_event e), e, False)" for room
    by (induction room) (simp_all add: e(1-3))
  moreover have "TriggerExpiredTimers now (e # es) = e # TriggerExpiredTimers now es"
    by (simp add: TriggerExpiredTimers_def e(1))
  ultimately show ?thesis
    unfolding e_def [symmetric] e(4) [symmetric] by (simp add: GetTriggeredEvents_def)
qed

end
