(* ===== verification/EventQueueTimers.thy ===== *)
theory EventQueueTimers
  imports EventQueueFifo
begin

text \<open>Timers of event queues: how long a wait sleeps, and the deadline a timer gets.\<close>

subsection \<open>The nearest deadline\<close>

definition runs_timer :: "equeue_event \<Rightarrow> bool" where
  "runs_timer e \<longleftrightarrow> \<not> ee_triggered e \<and> ee_deadline_ns e \<noteq> 0"

lemma nearest_deadline_fold:
  fixes es :: "equeue_event list"
  defines "f \<equiv> (\<lambda>(e :: equeue_event) d. if \<not> ee_triggered e \<and> ee_deadline_ns e \<noteq> 0 then min d (ee_deadline_ns e) else d)"
  shows "fold f es m \<le> m \<and> (\<forall>e\<in>set es. runs_timer e \<longrightarrow> fold f es m \<le> ee_deadline_ns e) \<and>
    (fold f es m = m \<or> (\<exists>e\<in>set es. runs_timer e \<and> ee_deadline_ns e = fold f es m))"
proof (induction es arbitrary: m)
  case (Cons e es)
  show ?case using Cons.IH [of "f e m"]
    by (auto simp: f_def runs_timer_def min_def split: if_splits)
qed simp

lemma nearest_deadline_spec:
  "e \<in> set es \<Longrightarrow> runs_timer e \<Longrightarrow> nearest_deadline es \<le> ee_deadline_ns e"
  "nearest_deadline es \<noteq> u64_max \<Longrightarrow> \<exists>e\<in>set es. runs_timer e \<and> ee_deadline_ns e = nearest_deadline es"
  using nearest_deadline_fold [of es u64_max] by (auto simp: nearest_deadline_def)

lemma unat_ucast_u32: "unat (x :: u64) < 4294967296 \<Longrightarrow> unat (ucast x :: u32) = unat x"
  by (simp add: unsigned_ucast_eq take_bit_nat_eq_self)

text \<open>The microseconds to the nearest deadline, rounded up, at least one, at most \<open>UINT32_MAX\<close>.\<close>

lemma GetNextTimerWaitMicros_spec:
  assumes "GetNextTimerWaitMicros now q = Some w"
  shows "1 \<le> unat w \<and> nearest_deadline (q_events q) \<noteq> u64_max \<and>
    (unat w = 1 \<or> unat now + (unat w - 1) * 1000 < unat (nearest_deadline (q_events q))) \<and>
    (1000 \<le> unat now \<longrightarrow> w \<noteq> u32_max \<longrightarrow> unat (nearest_deadline (q_events q)) \<le> unat now + unat w * 1000)"
proof -
  define near where "near = nearest_deadline (q_events q)"
  define rem where "rem = (if now < near then near - now else 0)"
  define r where "r = max 1 ((rem + 999) div 1000)"
  have near: "near \<noteq> u64_max" and w: "w = ucast (min r 0xffffffff)"
    using assms by (auto simp: GetNextTimerWaitMicros_def near_def rem_def r_def Let_def split: if_splits)
  have uw: "unat w = min (unat r) 4294967295"
    unfolding w by (subst unat_ucast_u32) (simp_all add: unat_min_u64)
  have ur: "unat r = max 1 (unat (rem + 999) div 1000)" by (simp add: r_def unat_max_u64 unat_div)
  have urem: "unat rem = unat near - unat now"
    by (auto simp: rem_def less_u64 unat_minus_u64)
  have r1: "1 \<le> unat r" using ur by simp
  have le: "unat (rem + 999) \<le> unat rem + 999" by (simp add: unat_word_ariths)
  have up: "unat w = 1 \<or> unat now + (unat w - 1) * 1000 < unat near"
  proof (cases "unat w \<le> 1")
    case False
    then have "unat w \<le> unat (rem + 999) div 1000" using uw ur by (simp add: max_def split: if_splits)
    then have "unat w * 1000 \<le> unat rem + 999" using le by linarith
    then show ?thesis using False urem by linarith
  qed (use uw r1 in linarith)
  have down: "unat near \<le> unat now + unat w * 1000" if n: "1000 \<le> unat now" "w \<noteq> u32_max"
  proof -
    have "unat w \<noteq> 4294967295" using n(2) by (simp add: word_unat_eq_iff)
    then have "unat w = unat r" using uw by linarith
    moreover have "unat rem + 999 < 18446744073709551616" using urem n(1) unat_u64_lt [of near] by linarith
    then have "unat (rem + 999) = unat rem + 999" by (subst unat_plus_u64) simp_all
    ultimately show ?thesis using ur urem by linarith
  qed
  show ?thesis using up down uw r1 near unfolding near_def by linarith
qed


subsection \<open>Properties\<close>

lemma report_events_none:
  "report_events room es = ([], es') \<Longrightarrow> 0 < room \<Longrightarrow> es' = es \<and> (\<forall>e\<in>set es. \<not> ee_triggered e)"
proof (induction es arbitrary: es')
  case (Cons e es)
  obtain n where n: "room = Suc n" using Cons.prems(2) by (cases room) auto
  have t: "\<not> ee_triggered e"
  proof
    assume "ee_triggered e"
    then have "fst (report_event room e) \<noteq> []" by (auto simp: n split: prod.splits)
    then show False using Cons.prems(1) by (auto simp: Let_def split: prod.splits if_splits)
  qed
  then have "report_event room e = ([], e, False)" by (simp add: n)
  then obtain es1 where "report_events room es = ([], es1)" "es' = e # es1"
    using Cons.prems by (auto split: prod.splits)
  then show ?case using Cons.IH Cons.prems(2) t by auto
qed simp

lemma WaitForEvents_sleeps:
  assumes "WaitForEvents_round num micros elapsed now now' q = Some (EqSleeps s, q')"
  shows "\<not> q_closed q \<and> (\<forall>e\<in>set (q_events q). \<not> due now e) \<and> q' = q \<and> (micros = 0 \<or> elapsed < micros) \<and>
    s = (case GetNextTimerWaitMicros now' q of
           None \<Rightarrow> if micros = 0 then None else Some (micros - elapsed)
         | Some timer_wait \<Rightarrow> Some (min (if micros \<noteq> 0 then micros - elapsed else u32_max) timer_wait))"
proof -
  obtain r evs q1 where g: "GetTriggeredEvents num now q = Some (r, evs, q1)" and r: "r = 0" "micros = 0 \<or> \<not> micros \<le> elapsed"
    and out: "q' = q1" "s = (case GetNextTimerWaitMicros now' q1 of
           None \<Rightarrow> if micros = 0 then None else Some (micros - elapsed)
         | Some timer_wait \<Rightarrow> Some (min (if micros \<noteq> 0 then micros - elapsed else u32_max) timer_wait))"
    using assms by (auto simp: WaitForEvents_round_def split: option.splits prod.splits if_splits)
  obtain evs1 es where rep: "report_events (nat num) (TriggerExpiredTimers now (q_events q)) = (evs1, es)" by fastforce
  have n: "1 \<le> num" "\<not> q_closed q" "evs1 = []" "q1 = q\<lparr>q_events := es\<rparr>"
    using g r(1) rep by (auto simp: GetTriggeredEvents_def errno_defs split: if_splits)
  note z = report_events_none [OF rep [unfolded n(3)]]
  have d: "\<forall>e\<in>set (q_events q). \<not> due now e" and "es = TriggerExpiredTimers now (q_events q)"
    using z n(1) TriggerExpiredTimers_due(1) [of now "q_events q"] by auto
  then have "q1 = q" using TriggerExpiredTimers_due(2) [OF d] n(4) by simp
  then show ?thesis using n(2) d r(2) out by auto
qed

text \<open>
  C32: When a round of \<open>WaitForEvents\<close> sleeps, nothing was due and the queue is as it was. It sleeps
  without a limit only when the caller set none and no timer runs. Otherwise the sleep is positive, at
  most what is left of the caller's timeout, and past no running timer's deadline by more than the
  rounding to a microsecond; after it a timer is due unless the caller's timeout or the 32-bit limit cut it.
\<close>

theorem WaitForEvents_sleep_bounds:
  assumes "WaitForEvents_round num micros elapsed now now' q = Some (EqSleeps s, q')"
  shows "q' = q \<and> (\<forall>e\<in>set (q_events q). \<not> due now e) \<and>
    (case s of
       None \<Rightarrow> micros = 0 \<and> (\<forall>e\<in>set (q_events q). runs_timer e \<longrightarrow> ee_deadline_ns e = u64_max)
     | Some w \<Rightarrow> 0 < w \<and> (micros \<noteq> 0 \<longrightarrow> w \<le> micros - elapsed) \<and>
         (\<forall>e\<in>set (q_events q). runs_timer e \<longrightarrow> ee_deadline_ns e \<noteq> u64_max \<longrightarrow>
            unat w = 1 \<or> unat now' + (unat w - 1) * 1000 < unat (ee_deadline_ns e)) \<and>
         (1000 \<le> unat now' \<longrightarrow> w \<noteq> u32_max \<longrightarrow> (micros \<noteq> 0 \<longrightarrow> w \<noteq> micros - elapsed) \<longrightarrow>
            (\<exists>e\<in>set (q_events q). runs_timer e \<and> unat (ee_deadline_ns e) \<le> unat now' + unat w * 1000)))"
proof -
  note sl = WaitForEvents_sleeps [OF assms]
  note all = nearest_deadline_spec(1) [of _ "q_events q"]
  show ?thesis
  proof (cases "GetNextTimerWaitMicros now' q")
    case None
    then have "nearest_deadline (q_events q) = u64_max"
      by (auto simp: GetNextTimerWaitMicros_def Let_def split: if_splits)
    then have mx: "ee_deadline_ns e = u64_max" if "e \<in> set (q_events q)" "runs_timer e" for e
      using all [OF that] unat_u64_le [of "ee_deadline_ns e"] by (simp add: le_u64 eq_u64)
    show ?thesis
    proof (cases "micros = 0")
      case True
      then show ?thesis using sl None mx by simp
    next
      case False
      then have "s = Some (micros - elapsed)" "elapsed < micros" using sl None by auto
      then show ?thesis using sl mx False by (auto simp: word_gt_0)
    qed
  next
    case (Some tw)
    define ext where "ext = (if micros \<noteq> 0 then micros - elapsed else u32_max)"
    have s: "s = Some (min ext tw)" using sl Some by (simp add: ext_def)
    note g = GetNextTimerWaitMicros_spec [OF Some]
    have ext: "0 < ext" using sl by (auto simp: ext_def word_gt_0)
    have tw: "0 < tw" using g by (simp add: word_less_nat_alt)
    have w: "0 < min ext tw" "micros \<noteq> 0 \<longrightarrow> min ext tw \<le> micros - elapsed" "unat (min ext tw) \<le> unat tw"
      using ext tw by (auto simp: ext_def min_def word_le_nat_alt)
    have b: "unat (min ext tw) = 1 \<or> unat now' + (unat (min ext tw) - 1) * 1000 < unat (ee_deadline_ns e)"
      if "e \<in> set (q_events q)" "runs_timer e" for e
    proof -
      have "unat (nearest_deadline (q_events q)) \<le> unat (ee_deadline_ns e)" using all [OF that] by (simp add: le_u64)
      moreover have "0 < unat (min ext tw)" using w(1) by (simp add: word_less_nat_alt)
      ultimately show ?thesis using g w(3) by linarith
    qed
    have p: "\<exists>e\<in>set (q_events q). runs_timer e \<and> unat (ee_deadline_ns e) \<le> unat now' + unat (min ext tw) * 1000"
      if "1000 \<le> unat now'" "min ext tw \<noteq> u32_max" "micros \<noteq> 0 \<longrightarrow> min ext tw \<noteq> micros - elapsed"
    proof -
      have m: "min ext tw = tw" "tw \<noteq> u32_max"
        using that(2,3) by (auto simp: ext_def min_def split: if_splits)
      obtain e where e: "e \<in> set (q_events q)" "runs_timer e" "ee_deadline_ns e = nearest_deadline (q_events q)"
        using nearest_deadline_spec(2) g by blast
      then show ?thesis using g m that(1) by auto
    qed
    have sleeps: "q' = q \<and> (\<forall>e\<in>set (q_events q). \<not> due now e)" using sl by blast
    show ?thesis unfolding s option.case using sleeps w b p by blast
  qed
qed

definition demo_timer_queue :: equeue where
  "demo_timer_queue = (KernelEqueuePrivate_init 1)\<lparr>q_events := [hrtimer_event 6500 7 0]\<rparr>"

theorem WaitForEvents_sleep_bounds_witness:
  "\<exists>w. WaitForEvents_round 4 0 0 2000 2000 demo_timer_queue = Some (EqSleeps (Some w), demo_timer_queue) \<and> 0 < w"
proof -
  have r: "WaitForEvents_round 4 0 0 2000 2000 demo_timer_queue = Some (EqSleeps (Some 5), demo_timer_queue)"
    by (simp add: demo_timer_queue_def hrtimer_event_def WaitForEvents_round_def eq_run_simps
        GetNextTimerWaitMicros_def nearest_deadline_def report_event_numeral)
  then show ?thesis using WaitForEvents_sleep_bounds [OF r] by simp
qed

text \<open>
  \<open>KernelAddHRTimerEvent\<close> computes its deadline without overflow: it refuses exactly the negative
  and malformed times and the delays of \<open>2 ^ 64\<close> nanoseconds or more, and otherwise adds a one-shot
  timer whose deadline is the exact sum, saturated at \<open>UINT64_MAX\<close>.
\<close>

lemma KernelAddHRTimerEvent_deadline:
  assumes "i64_range (tv_sec ts)"
  shows "KernelAddHRTimerEvent eq n (Some ts) udata now t =
    (if tv_sec ts < 0 \<or> tv_nsec ts < 0 \<or> 1000000000 \<le> tv_nsec ts \<or>
        18446744073709551616 \<le> tv_sec ts * 1000000000 + tv_nsec ts
     then (KERNEL_ERROR_EINVAL, t)
     else KernelAddEvent eq
       (hrtimer_event (word_of_int (min (uint now + (tv_sec ts * 1000000000 + tv_nsec ts)) 18446744073709551615)) n udata) t)"
proof (cases "tv_sec ts < 0 \<or> tv_nsec ts < 0 \<or> 1000000000 \<le> tv_nsec ts")
  case True
  then show ?thesis by (auto simp: KernelAddHRTimerEvent_def)
next
  case False
  let ?s = "tv_sec ts" and ?ns = "tv_nsec ts"
  have us: "uint (of_int ?s :: u64) = ?s" and un: "uint (of_int ?ns :: u64) = ?ns"
    using False assms by (auto simp: i64_range_def uint_word_of_int)
  have "uint (u64_max - of_int ?ns :: u64) = 18446744073709551615 - ?ns"
    by (subst uint_sub_lem [THEN iffD1]) (use un False in \<open>auto\<close>)
  then have "(u64_max - of_int ?ns) div 1000000000 < (of_int ?s :: u64) \<longleftrightarrow> (18446744073709551615 - ?ns) div 1000000000 < ?s"
    by (simp add: word_less_def uint_div us)
  also have "\<dots> \<longleftrightarrow> 18446744073709551616 \<le> ?s * 1000000000 + ?ns" by linarith
  finally have over: "(u64_max - of_int ?ns) div 1000000000 < (of_int ?s :: u64) \<longleftrightarrow> 18446744073709551616 \<le> ?s * 1000000000 + ?ns" .
  show ?thesis
  proof (cases "18446744073709551616 \<le> ?s * 1000000000 + ?ns")
    case True
    then show ?thesis using over by (simp add: KernelAddHRTimerEvent_def)
  next
    case fit: False
    define delay :: u64 where "delay = of_int ?s * 1000000000 + of_int ?ns"
    have d: "delay = word_of_int (?s * 1000000000 + ?ns)" by (simp add: delay_def)
    have ud: "uint delay = ?s * 1000000000 + ?ns"
      unfolding d uint_word_of_int using False fit by (intro mod_pos_pos_trivial) auto
    have "delay \<le> u64_max - now \<longleftrightarrow> uint now + uint delay \<le> 18446744073709551615"
    proof -
      have "now \<le> u64_max" using unat_u64_le [of now] by (simp add: le_u64)
      then have "uint now \<le> uint u64_max" by (simp only: word_le_def)
      then have "uint (u64_max - now) = 18446744073709551615 - uint now" using uint_sub_lem [of now u64_max] by simp
      then show ?thesis by (simp add: word_le_def) linarith
    qed
    then have dl: "(if delay \<le> u64_max - now then now + delay else u64_max) =
        word_of_int (min (uint now + (?s * 1000000000 + ?ns)) 18446744073709551615)"
      by (simp add: ud [symmetric] min_def)
    have "KernelAddHRTimerEvent eq n (Some ts) udata now t =
        KernelAddEvent eq (hrtimer_event (if delay \<le> u64_max - now then now + delay else u64_max) n udata) t"
      using over fit False by (simp add: KernelAddHRTimerEvent_def Let_def delay_def)
    then show ?thesis unfolding dl using fit False by simp
  qed
qed


definition no_equeues :: equeues where
  "no_equeues = \<lparr>g_objects = (\<lambda>_. None), g_equeues = [], g_next_equeue = 1\<rparr>"

lemma KernelAddHRTimerEvent_deadline_witness:
  "KernelAddHRTimerEvent 1 7 (Some \<lparr>tv_sec = 18446744073, tv_nsec = 709551616\<rparr>) 0 5 no_equeues = (KERNEL_ERROR_EINVAL, no_equeues)"
  using KernelAddHRTimerEvent_deadline [of "\<lparr>tv_sec = 18446744073, tv_nsec = 709551616\<rparr>" 1 7 0 5 no_equeues]
  by (simp add: i64_range_def)

end
