(* ===== verification/Coverage.thy ===== *)
theory Coverage
  imports OrderedMap "HOL-Library.Product_Lexorder"
begin

text \<open>
  The physical coverage of the backing store (\<open>GuestBackingStore::m_coverage\<close> of
  \<open>src/src/kernel/memoryAddressSpace.inc\<close>): a map from a backing offset to the number of guest
  mappings of the bytes from that offset up to the next key. It replaces the alias intervals that
  the class used to rebuild after each change; both are modelled, and counted against the same
  multiset of mapped spans.
\<close>

type_synonym coverage = "u32 omap"

subsection \<open>Adding and removing a span\<close>

text \<open>The count of the last of some entries, zero where there is none: \<open>std::prev(it)->second\<close>.\<close>

definition last_count :: "coverage \<Rightarrow> u32" where
  "last_count before = (if before = [] then 0 else snd (last before))"

definition CoverageSplit :: "u64 \<Rightarrow> coverage \<Rightarrow> coverage" where
  "CoverageSplit at m =
     (let (before, after) = om_lower at m
      in if after \<noteq> [] \<and> fst (hd after) = at then m
         else om_emplace at (last_count before) m)"

text \<open>One count changed; \<open>None\<close> where the program exits, or the \<open>int\<close> sum overflows.\<close>

definition bump_count :: "int \<Rightarrow> u32 \<Rightarrow> u32 option" where
  "bump_count delta c =
     (if delta < 0 \<and> c = 0 then None
      else if \<not> i32_range (sint c + delta) then None
      else Some (word_of_int (sint c + delta)))"

fun bump_counts :: "int \<Rightarrow> u64 \<Rightarrow> u64 \<Rightarrow> coverage \<Rightarrow> coverage option" where
  "bump_counts delta b e [] = Some []"
| "bump_counts delta b e ((k, c) # m) =
     (if b \<le> k \<and> k < e
      then (case bump_count delta c of
              None \<Rightarrow> None
            | Some c' \<Rightarrow> map_option ((#) (k, c')) (bump_counts delta b e m))
      else map_option ((#) (k, c)) (bump_counts delta b e m))"

definition merge_key :: "u64 \<Rightarrow> coverage \<Rightarrow> coverage" where
  "merge_key k m =
     (let (before, after) = om_lower k m
      in if after = [] then m
         else if snd (hd after) = last_count before then om_erase k m else m)"

definition AddCoverage :: "u64 \<Rightarrow> u64 \<Rightarrow> int \<Rightarrow> coverage \<Rightarrow> coverage option" where
  "AddCoverage b e delta m =
     (if e \<le> b then Some m
      else map_option (\<lambda>m'. merge_key e (merge_key b m')) (bump_counts delta b e (CoverageSplit e (CoverageSplit b m))))"

subsection \<open>The question the coverage answers\<close>

fun coverage_scan :: "u64 \<Rightarrow> u64 \<Rightarrow> coverage \<Rightarrow> bool" where
  "coverage_scan b e [] = True"
| "coverage_scan b e ((k, c) # m) =
     (if k < e
      then (if m \<noteq> [] \<and> fst (hd m) \<le> b then coverage_scan b e m
            else if 1 < c then False
            else coverage_scan b e m)
      else True)"

definition CoverageUnique :: "u64 \<Rightarrow> u64 \<Rightarrow> coverage \<Rightarrow> bool" where
  "CoverageUnique b e m = coverage_scan b e (om_scan_from b m)"

subsection \<open>The alias intervals it replaces\<close>

text \<open>
  The sweep over the sorted end points of all mappings: an interval from the previous position
  where more than one mapping is active, joined to the preceding one where they touch.
\<close>

function alias_loop :: "u64 \<Rightarrow> int \<Rightarrow> (u64 \<times> u64) list \<Rightarrow> (u64 \<times> int) list \<Rightarrow> (u64 \<times> u64) list \<times> int" where
  "alias_loop previous active out [] = (out, active)"
| "alias_loop previous active out ((position, d) # eps) =
     (let out = (if 1 < active \<and> previous < position
                 then (if out \<noteq> [] \<and> snd (last out) = previous
                       then butlast out @ [(fst (last out), position)]
                       else out @ [(previous, position)])
                 else out);
          group = takeWhile (\<lambda>p. fst p = position) eps
      in alias_loop position (active + d + sum_list (map snd group)) out
           (dropWhile (\<lambda>p. fst p = position) eps))"
  by pat_completeness auto
termination
  by (relation "measure (\<lambda>(p, a, out, eps). length eps)") (auto simp: le_imp_less_Suc length_dropWhile_le)

declare alias_loop.simps [simp del]

definition alias_endpoints :: "(u64 \<times> u64) list \<Rightarrow> (u64 \<times> int) list" where
  "alias_endpoints spans = sort (concat (map (\<lambda>(off, n). [(off, 1), (off + n, -1)]) spans))"

text \<open>\<open>None\<close>: the sweep ends with an active mapping, and the program exits.\<close>

definition alias_intervals :: "(u64 \<times> u64) list \<Rightarrow> (u64 \<times> u64) list option" where
  "alias_intervals spans =
     (let (out, active) = alias_loop 0 0 [] (alias_endpoints spans)
      in if active \<noteq> 0 then None else Some out)"

text \<open>\<open>std::lower_bound\<close> by the end of the intervals, and the test of the interval found.\<close>

definition outside_aliases :: "u64 \<Rightarrow> u64 \<Rightarrow> (u64 \<times> u64) list \<Rightarrow> bool" where
  "outside_aliases physical n aliases =
     (let found = dropWhile (\<lambda>i. snd i \<le> physical) aliases
      in found = [] \<or> physical + n \<le> fst (hd found))"

end
