(* ===== verification/BackingStore.thy ===== *)
theory BackingStore
  imports VirtualRanges Coverage
begin

text \<open>
  The backing store of guest memory: \<open>class GuestBackingStore\<close> of
  \<open>src/src/kernel/memoryAddressSpace.inc\<close>, in its POSIX form. One shared memory object holds the
  bytes; a view maps a guest range onto a span of it, and two views may alias. The class keeps the
  views by guest address, the physical coverage, the alias intervals that the debug check rebuilds
  and a cache of host-read translations. \<open>mmap\<close> is the parameter \<open>ops\<close>, on an abstract host
  state; \<open>None\<close> is an \<open>EXIT_IF\<close>. The notifications to the GPU resource manager and the counters
  are left out.
\<close>

subsection \<open>State\<close>

record map_entry =
  me_vaddr :: u64
  me_size :: u64
  me_backing_offset :: u64
  me_mode :: vmode

definition empty_entry :: map_entry where
  "empty_entry = \<lparr>me_vaddr = 0, me_size = 0, me_backing_offset = 0, me_mode = NoAccess\<rparr>"

record host_read_translation =
  tr_entry :: map_entry
  tr_epoch :: u64

record backing_store =
  bs_available :: bool
  bs_size :: u64
  bs_maps :: "map_entry omap"
  bs_coverage :: coverage
  bs_aliased_physical_ranges :: "(u64 \<times> u64) list"
  bs_alias_ranges_valid :: bool
  bs_mapping_epoch :: u64
  bs_host_read_translations :: "nat \<Rightarrow> host_read_translation"
  bs_data :: "nat \<Rightarrow> u8"

definition empty_translations :: "nat \<Rightarrow> host_read_translation" where
  "empty_translations = (\<lambda>_. \<lparr>tr_entry = empty_entry, tr_epoch = 0\<rparr>)"

text \<open>The object as constructed; a fresh memory object holds zeros.\<close>

definition GuestBackingStore_init :: "bool \<Rightarrow> u64 \<Rightarrow> backing_store" where
  "GuestBackingStore_init available n =
     \<lparr>bs_available = available, bs_size = n, bs_maps = [], bs_coverage = [],
      bs_aliased_physical_ranges = [], bs_alias_ranges_valid = False, bs_mapping_epoch = 1,
      bs_host_read_translations = empty_translations, bs_data = (\<lambda>_. 0)\<rparr>"

text \<open>Views the last unmap mapped again (\<open>g_remapped_views\<close>) are kept beside the store.\<close>

type_synonym 'h host = "(u64 \<times> u64) list \<times> 'h"

record 'h mmap_ops =
  MapView :: "u64 \<Rightarrow> u64 \<Rightarrow> u64 \<Rightarrow> vmode \<Rightarrow> 'h \<Rightarrow> bool \<times> 'h"
  UnmapViewPreservePlaceholder :: "u64 \<Rightarrow> u64 \<Rightarrow> 'h \<Rightarrow> bool \<times> 'h"

datatype failure_reason = NoFailure | BackingUnavailable | PhysicalRangeOutOfBounds | FixedMapViewFailed |
  PlaceholderMapFailed | ProtectFailed | WrongHostAddress | AddressRangeUnavailable

subsection \<open>Lookups\<close>

definition RangeOk :: "u64 \<Rightarrow> u64 \<Rightarrow> backing_store \<Rightarrow> bool" where
  "RangeOk backing_offset n bs \<longleftrightarrow> n \<noteq> 0 \<and> backing_offset < bs_size bs \<and> n \<le> bs_size bs - backing_offset"

definition Backing_FindContaining :: "u64 \<Rightarrow> u64 \<Rightarrow> backing_store \<Rightarrow> map_entry option" where
  "Backing_FindContaining vaddr n bs =
     (if n = 0 \<or> u64_max - vaddr < n then None
      else
        let (before, after) = om_upper vaddr (bs_maps bs)
        in if before = [] then None
           else
             let entry = snd (last before)
             in if vaddr + n \<le> me_vaddr entry + me_size entry then Some entry else None)"

text \<open>Every walk over the views moves on: the view found reaches past the address.\<close>

lemma Backing_FindContaining_advances:
  assumes "Backing_FindContaining current 1 bs = Some e" and "current < finish"
  shows "unat current < unat (min finish (me_vaddr e + me_size e))"
proof -
  have m: "\<not> u64_max - current < 1" and le: "current + 1 \<le> me_vaddr e + me_size e"
    using assms(1) by (auto simp: Backing_FindContaining_def Let_def split: prod.splits if_splits)
  have "unat (u64_max - current) = 18446744073709551615 - unat current"
    using unat_u64_le [of current] by (simp add: unat_minus_u64)
  then have "unat current < 18446744073709551615" using m by (simp add: less_u64)
  then have "unat (current + 1) = unat current + 1" by (simp add: unat_plus_u64)
  then show ?thesis using le assms(2) by (simp add: u64_conv)
qed

function contains_loop :: "backing_store \<Rightarrow> u64 \<Rightarrow> u64 \<Rightarrow> bool" where
  "contains_loop bs finish current =
     (if current < finish
      then (case Backing_FindContaining current 1 bs of
              None \<Rightarrow> False
            | Some entry \<Rightarrow>
                let entry_end = me_vaddr entry + me_size entry
                in if entry_end \<le> current then False else contains_loop bs finish (min finish entry_end))
      else True)"
  by pat_completeness auto
termination
  by (relation "measure (\<lambda>(bs, finish, current). unat finish - unat current)")
    (auto simp: less_u64 dest!: Backing_FindContaining_advances)

declare contains_loop.simps [simp del]

definition Backing_Contains :: "u64 \<Rightarrow> u64 \<Rightarrow> backing_store \<Rightarrow> bool" where
  "Backing_Contains vaddr n bs =
     (if n = 0 \<or> u64_max - vaddr < n then False else contains_loop bs (vaddr + n) vaddr)"

subsection \<open>Changing the views\<close>

definition MapsEmplace :: "map_entry \<Rightarrow> backing_store \<Rightarrow> (bool \<times> backing_store) option" where
  "MapsEmplace entry bs =
     (if om_find (me_vaddr entry) (bs_maps bs) \<noteq> None then Some (False, bs)
      else
        map_option (\<lambda>c. (True, bs\<lparr>bs_maps := om_emplace (me_vaddr entry) entry (bs_maps bs), bs_coverage := c\<rparr>))
          (AddCoverage (me_backing_offset entry) (me_backing_offset entry + me_size entry) 1 (bs_coverage bs)))"

definition MapsErase :: "u64 \<times> map_entry \<Rightarrow> backing_store \<Rightarrow> backing_store option" where
  "MapsErase entry bs =
     map_option (\<lambda>c. bs\<lparr>bs_maps := om_erase (fst entry) (bs_maps bs), bs_coverage := c\<rparr>)
       (AddCoverage (me_backing_offset (snd entry)) (me_backing_offset (snd entry) + me_size (snd entry)) (-1)
         (bs_coverage bs))"

definition InvalidateMappingLookup :: "backing_store \<Rightarrow> backing_store" where
  "InvalidateMappingLookup bs =
     (let bs = bs\<lparr>bs_alias_ranges_valid := False, bs_mapping_epoch := bs_mapping_epoch bs + 1\<rparr>
      in if bs_mapping_epoch bs = 0
         then bs\<lparr>bs_mapping_epoch := 1, bs_host_read_translations := empty_translations\<rparr>
         else bs)"

text \<open>The failure reason is the out parameter; \<open>NoFailure\<close> goes with the result true.\<close>

definition MapExistingPlaceholderFixed ::
  "'h mmap_ops \<Rightarrow> u64 \<Rightarrow> u64 \<Rightarrow> u64 \<Rightarrow> vmode \<Rightarrow> backing_store \<times> 'h \<Rightarrow> (failure_reason \<times> backing_store \<times> 'h) option" where
  "MapExistingPlaceholderFixed ops vaddr n backing_offset mode st =
     (let (bs, h) = st
      in if \<not> bs_available bs then Some (BackingUnavailable, bs, h)
         else if \<not> RangeOk backing_offset n bs then Some (PhysicalRangeOutOfBounds, bs, h)
         else
           let (mapped, h) = MapView ops vaddr n backing_offset mode h
           in if \<not> mapped then Some (FixedMapViewFailed, bs, h)
              else
                (case MapsEmplace \<lparr>me_vaddr = vaddr, me_size = n, me_backing_offset = backing_offset, me_mode = mode\<rparr>
                        (InvalidateMappingLookup bs) of
                   Some (True, bs) \<Rightarrow> Some (NoFailure, bs, h)
                 | _ \<Rightarrow> None))"

text \<open>
  \<open>UnmapOne\<close> replaces a part of one view by a placeholder and keeps what the view has on either
  side. \<open>emplace_rest\<close> is the emplacing of such a remainder, whose result the code ignores.
\<close>

definition emplace_rest :: "bool \<Rightarrow> map_entry \<Rightarrow> backing_store \<Rightarrow> backing_store option" where
  "emplace_rest needed entry bs = (if needed then map_option snd (MapsEmplace entry bs) else Some bs)"

definition UnmapOne :: "'h mmap_ops \<Rightarrow> u64 \<Rightarrow> u64 \<Rightarrow> backing_store \<times> 'h \<Rightarrow> (bool \<times> backing_store \<times> 'h) option" where
  "UnmapOne ops vaddr n st =
     (let (bs, h) = st; (before, after) = om_upper vaddr (bs_maps bs)
      in if before = [] then Some (False, bs, h)
         else
           let old = snd (last before); right = vaddr + n; old_end = me_vaddr old + me_size old
           in if old_end < vaddr + n then Some (False, bs, h)
              else
                let (unmapped, h) = UnmapViewPreservePlaceholder ops vaddr n h
                in if \<not> unmapped then Some (False, bs, h)
                   else
                     (case MapsErase (last before) (InvalidateMappingLookup bs) of
                        None \<Rightarrow> None
                      | Some bs \<Rightarrow>
                          (case emplace_rest (vaddr \<noteq> me_vaddr old) (old\<lparr>me_size := vaddr - me_vaddr old\<rparr>) bs of
                             None \<Rightarrow> None
                           | Some bs \<Rightarrow>
                               map_option (\<lambda>bs. (True, bs, h))
                                 (emplace_rest (right \<noteq> old_end)
                                   (old\<lparr>me_vaddr := right, me_size := old_end - right,
                                        me_backing_offset := me_backing_offset old + (right - me_vaddr old)\<rparr>) bs))))"

text \<open>The views that a range to unmap covers, cut to the range.\<close>

function unmap_targets :: "backing_store \<Rightarrow> u64 \<Rightarrow> u64 \<Rightarrow> map_entry list \<Rightarrow> map_entry list option" where
  "unmap_targets bs finish current targets =
     (if current < finish
      then (case Backing_FindContaining current 1 bs of
              None \<Rightarrow> None
            | Some entry \<Rightarrow>
                let part_size = min finish (me_vaddr entry + me_size entry) - current
                in unmap_targets bs finish (current + part_size)
                     (targets @ [entry\<lparr>me_vaddr := current, me_size := part_size,
                        me_backing_offset := me_backing_offset entry + current - me_vaddr entry\<rparr>]))
      else Some targets)"
  by pat_completeness auto
termination
  by (relation "measure (\<lambda>(bs, finish, current, targets). unat finish - unat current)")
    (auto simp: less_u64 dest!: Backing_FindContaining_advances)

declare unmap_targets.simps [simp del]

text \<open>Mapping again what was unmapped, the last first; a failure ends the program.\<close>

fun remap_all :: "'h mmap_ops \<Rightarrow> map_entry list \<Rightarrow> backing_store \<times> 'h host \<Rightarrow> (backing_store \<times> 'h host) option" where
  "remap_all ops [] st = Some st"
| "remap_all ops (it # its) (bs, views, h) =
     (case MapExistingPlaceholderFixed ops (me_vaddr it) (me_size it) (me_backing_offset it) (me_mode it) (bs, h) of
        Some (NoFailure, bs, h) \<Rightarrow> remap_all ops its (bs, views @ [(me_vaddr it, me_size it)], h)
      | _ \<Rightarrow> None)"

fun unmap_each :: "'h mmap_ops \<Rightarrow> map_entry list \<Rightarrow> map_entry list \<Rightarrow> backing_store \<times> 'h host \<Rightarrow>
   (bool \<times> backing_store \<times> 'h host) option" where
  "unmap_each ops removed [] st = Some (True, st)"
| "unmap_each ops removed (entry # targets) (bs, views, h) =
     (case UnmapOne ops (me_vaddr entry) (me_size entry) (bs, h) of
        None \<Rightarrow> None
      | Some (False, bs, h) \<Rightarrow> map_option (Pair False) (remap_all ops (rev removed) (bs, views, h))
      | Some (True, bs, h) \<Rightarrow> unmap_each ops (removed @ [entry]) targets (bs, views, h))"

definition Backing_Unmap ::
  "'h mmap_ops \<Rightarrow> u64 \<Rightarrow> u64 \<Rightarrow> backing_store \<times> 'h host \<Rightarrow> (bool \<times> backing_store \<times> 'h host) option" where
  "Backing_Unmap ops vaddr n st =
     (if n = 0 \<or> u64_max - vaddr < n then Some (False, st)
      else
        case unmap_targets (fst st) (vaddr + n) vaddr [] of
          None \<Rightarrow> Some (False, st)
        | Some targets \<Rightarrow> unmap_each ops [] targets st)"

subsection \<open>Aliases\<close>

definition IsUniqueRangeUnlocked :: "u64 \<Rightarrow> u64 \<Rightarrow> backing_store \<Rightarrow> bool" where
  "IsUniqueRangeUnlocked vaddr n bs =
     (case Backing_FindContaining vaddr n bs of
        None \<Rightarrow> False
      | Some owner \<Rightarrow>
          let physical = me_backing_offset owner + vaddr - me_vaddr owner
          in CoverageUnique physical (physical + n) (bs_coverage bs))"

definition IsUniqueRangeRebuilt :: "u64 \<Rightarrow> u64 \<Rightarrow> backing_store \<Rightarrow> (bool \<times> backing_store) option" where
  "IsUniqueRangeRebuilt vaddr n bs =
     (case Backing_FindContaining vaddr n bs of
        None \<Rightarrow> Some (False, bs)
      | Some owner \<Rightarrow>
          (case (if bs_alias_ranges_valid bs then Some bs
                 else map_option (\<lambda>out. bs\<lparr>bs_aliased_physical_ranges := out, bs_alias_ranges_valid := True\<rparr>)
                        (alias_intervals (map (\<lambda>(k, e). (me_backing_offset e, me_size e)) (bs_maps bs)))) of
             None \<Rightarrow> None
           | Some bs \<Rightarrow>
               let physical = me_backing_offset owner + vaddr - me_vaddr owner
               in Some (outside_aliases physical n (bs_aliased_physical_ranges bs), bs)))"

text \<open>\<open>verify\<close> is the environment variable \<open>KYTY_ALIAS_VERIFY\<close>: a disagreement ends the program.\<close>

definition IsUniqueRange :: "bool \<Rightarrow> u64 \<Rightarrow> u64 \<Rightarrow> backing_store \<Rightarrow> (bool \<times> backing_store) option" where
  "IsUniqueRange verify vaddr n bs =
     (if \<not> verify then Some (IsUniqueRangeUnlocked vaddr n bs, bs)
      else
        let unique = IsUniqueRangeUnlocked vaddr n bs
        in case IsUniqueRangeRebuilt vaddr n bs of
             None \<Rightarrow> None
           | Some (rebuilt, bs) \<Rightarrow> if unique \<noteq> rebuilt then None else Some (unique, bs))"

subsection \<open>Moving bytes\<close>

text \<open>\<open>std::memcpy\<close> into the backing, and out of it.\<close>

definition poke :: "nat \<Rightarrow> u8 list \<Rightarrow> (nat \<Rightarrow> u8) \<Rightarrow> nat \<Rightarrow> u8" where
  "poke off src data = (\<lambda>x. if off \<le> x \<and> x < off + length src then src ! (x - off) else data x)"

definition peek :: "nat \<Rightarrow> nat \<Rightarrow> (nat \<Rightarrow> u8) \<Rightarrow> u8 list" where
  "peek off n data = map (\<lambda>i. data (off + i)) [0 ..< n]"

text \<open>A part of a list of bytes overwritten.\<close>

definition overwrite :: "nat \<Rightarrow> u8 list \<Rightarrow> u8 list \<Rightarrow> u8 list" where
  "overwrite i src dst = take i dst @ src @ drop (i + length src) dst"

definition ZeroRange :: "u64 \<Rightarrow> u64 \<Rightarrow> backing_store \<Rightarrow> bool \<times> backing_store" where
  "ZeroRange backing_offset n bs =
     (if \<not> bs_available bs \<or> \<not> RangeOk backing_offset n bs then (False, bs)
      else (True, bs\<lparr>bs_data := poke (unat backing_offset) (replicate (unat n) 0) (bs_data bs)\<rparr>))"

text \<open>
  \<open>TransferBackingUnlocked\<close>: one pass checks that the whole range is mapped, a second one moves the
  bytes. \<open>transfer\<close> gets the backing offset, the offset in the caller's data and the length.
\<close>

function transfer_check :: "backing_store \<Rightarrow> u64 \<Rightarrow> u64 \<Rightarrow> bool" where
  "transfer_check bs finish current =
     (if current < finish
      then (case Backing_FindContaining current 1 bs of
              None \<Rightarrow> False
            | Some entry \<Rightarrow>
                let bytes = min finish (me_vaddr entry + me_size entry) - current
                in if \<not> RangeOk (me_backing_offset entry + current - me_vaddr entry) bytes bs then False
                   else transfer_check bs finish (current + bytes))
      else True)"
  by pat_completeness auto
termination
  by (relation "measure (\<lambda>(bs, finish, current). unat finish - unat current)")
    (auto simp: less_u64 dest!: Backing_FindContaining_advances)

function transfer_loop ::
  "(u64 \<Rightarrow> u64 \<Rightarrow> u64 \<Rightarrow> 's \<Rightarrow> 's) \<Rightarrow> backing_store \<Rightarrow> u64 \<Rightarrow> u64 \<Rightarrow> u64 \<Rightarrow> 's \<Rightarrow> 's option" where
  "transfer_loop transfer bs vaddr finish current s =
     (if current < finish
      then (case Backing_FindContaining current 1 bs of
              None \<Rightarrow> None
            | Some entry \<Rightarrow>
                let bytes = min finish (me_vaddr entry + me_size entry) - current;
                    offset = me_backing_offset entry + current - me_vaddr entry
                in transfer_loop transfer bs vaddr finish (current + bytes) (transfer offset (current - vaddr) bytes s))
      else Some s)"
  by pat_completeness auto
termination
  by (relation "measure (\<lambda>(transfer, bs, vaddr, finish, current, s). unat finish - unat current)")
    (auto simp: less_u64 dest!: Backing_FindContaining_advances)

declare transfer_check.simps [simp del] transfer_loop.simps [simp del]

text \<open>\<open>single\<close> is the mode flag under which a range inside one view is moved in one piece.\<close>

definition TransferBackingUnlocked ::
  "bool \<Rightarrow> (u64 \<Rightarrow> u64 \<Rightarrow> u64 \<Rightarrow> 's \<Rightarrow> 's) \<Rightarrow> u64 \<Rightarrow> u64 \<Rightarrow> backing_store \<Rightarrow> 's \<Rightarrow> (bool \<times> 's) option" where
  "TransferBackingUnlocked single transfer vaddr n bs s =
     (case (if single then Backing_FindContaining vaddr n bs else None) of
        Some entry \<Rightarrow>
          let offset = me_backing_offset entry + vaddr - me_vaddr entry
          in if \<not> RangeOk offset n bs then Some (False, s) else Some (True, transfer offset 0 n s)
      | None \<Rightarrow>
          if \<not> transfer_check bs (vaddr + n) vaddr then Some (False, s)
          else map_option (Pair True) (transfer_loop transfer bs vaddr (vaddr + n) vaddr s))"

definition TryTransferBacking ::
  "bool \<Rightarrow> (u64 \<Rightarrow> u64 \<Rightarrow> u64 \<Rightarrow> 's \<Rightarrow> 's) \<Rightarrow> u64 \<Rightarrow> u64 \<Rightarrow> backing_store \<Rightarrow> 's \<Rightarrow> (bool \<times> 's) option" where
  "TryTransferBacking single transfer vaddr n bs s =
     (if \<not> bs_available bs \<or> n = 0 \<or> u64_max - vaddr < n then Some (False, s)
      else TransferBackingUnlocked single transfer vaddr n bs s)"

definition write_part :: "u8 list \<Rightarrow> u64 \<Rightarrow> u64 \<Rightarrow> u64 \<Rightarrow> (nat \<Rightarrow> u8) \<Rightarrow> nat \<Rightarrow> u8" where
  "write_part source offset data_offset bytes data =
     poke (unat offset) (take (unat bytes) (drop (unat data_offset) source)) data"

definition read_part :: "(nat \<Rightarrow> u8) \<Rightarrow> u64 \<Rightarrow> u64 \<Rightarrow> u64 \<Rightarrow> u8 list \<Rightarrow> u8 list" where
  "read_part data offset data_offset bytes destination =
     overwrite (unat data_offset) (peek (unat offset) (unat bytes) data) destination"

text \<open>A null data pointer is \<open>None\<close>; otherwise the caller's buffer.\<close>

definition TryWriteBacking :: "bool \<Rightarrow> u64 \<Rightarrow> u8 list option \<Rightarrow> u64 \<Rightarrow> backing_store \<Rightarrow> (bool \<times> backing_store) option" where
  "TryWriteBacking single vaddr data n bs =
     (case data of
        None \<Rightarrow> Some (False, bs)
      | Some source \<Rightarrow>
          map_option (\<lambda>(ok, d). (ok, bs\<lparr>bs_data := d\<rparr>))
            (TryTransferBacking single (write_part source) vaddr n bs (bs_data bs)))"

definition TryReadBacking :: "bool \<Rightarrow> u64 \<Rightarrow> u8 list option \<Rightarrow> u64 \<Rightarrow> backing_store \<Rightarrow> (bool \<times> u8 list option) option" where
  "TryReadBacking single vaddr data n bs =
     (case data of
        None \<Rightarrow> Some (False, None)
      | Some destination \<Rightarrow>
          map_option (\<lambda>(ok, d). (ok, Some d))
            (TryTransferBacking single (read_part (bs_data bs)) vaddr n bs destination))"

subsection \<open>Host reads through the translation cache\<close>

definition GuestFreeRangeContains :: "u64 \<Rightarrow> u64 \<Rightarrow> u64 \<Rightarrow> u64 \<Rightarrow> bool" where
  "GuestFreeRangeContains base range_size candidate n =
     (if u64_max - base < range_size \<or> candidate < base then False
      else let range_end = base + range_size in candidate \<le> range_end \<and> n \<le> range_end - candidate)"

definition translation_slot :: "u64 \<Rightarrow> nat" where
  "translation_slot vaddr = unat (drop_bit 22 vaddr) mod 1024"

text \<open>The view of a range, from the cache or looked up and cached; \<open>empty_entry\<close> where none.\<close>

definition translate_cached :: "u64 \<Rightarrow> u64 \<Rightarrow> backing_store \<Rightarrow> map_entry \<times> backing_store" where
  "translate_cached vaddr n bs =
     (let slot = translation_slot vaddr; cached = bs_host_read_translations bs slot
      in if tr_epoch cached = bs_mapping_epoch bs \<and>
            GuestFreeRangeContains (me_vaddr (tr_entry cached)) (me_size (tr_entry cached)) vaddr n
         then (tr_entry cached, bs)
         else
           case Backing_FindContaining vaddr n bs of
             Some entry \<Rightarrow>
               (entry, bs\<lparr>bs_host_read_translations :=
                  (bs_host_read_translations bs)(slot := \<lparr>tr_entry = entry, tr_epoch = bs_mapping_epoch bs\<rparr>)\<rparr>)
           | None \<Rightarrow> (empty_entry, bs))"

text \<open>
  \<open>TryReadBackingToHost\<close>. \<open>mode\<close> is the flag that turns the cache on; \<open>acquired\<close> and \<open>narrowed\<close>
  are what the read transaction answers (see \<open>BackingFence\<close>).
\<close>

definition TryReadBackingToHost ::
  "bool \<Rightarrow> bool \<Rightarrow> bool \<Rightarrow> bool \<Rightarrow> u64 \<Rightarrow> u8 list option \<Rightarrow> u64 \<Rightarrow> backing_store \<Rightarrow>
   (bool \<times> u8 list option \<times> backing_store) option" where
  "TryReadBackingToHost mode acquired narrowed single vaddr data n bs =
     (case (if mode \<and> bs_available bs \<and> n \<noteq> 0 \<and> n \<le> 65536 \<and> n \<le> u64_max - vaddr then data else None) of
        Some destination \<Rightarrow>
          if acquired
          then
            let (entry, bs') = translate_cached vaddr n bs;
                offset = me_backing_offset entry + vaddr - me_vaddr entry
            in if me_size entry \<noteq> 0 \<and> RangeOk offset n bs' \<and> narrowed
               then Some (True, Some (read_part (bs_data bs') offset 0 n destination), bs')
               else map_option (\<lambda>(ok, d). (ok, d, bs')) (TryReadBacking single vaddr data n bs')
          else map_option (\<lambda>(ok, d). (ok, d, bs)) (TryReadBacking single vaddr data n bs)
      | None \<Rightarrow> map_option (\<lambda>(ok, d). (ok, d, bs)) (TryReadBacking single vaddr data n bs))"

text \<open>\<open>BackingPointer\<close>: the backing offset the pointer returned stands for.\<close>

definition BackingPointer :: "bool \<Rightarrow> u64 \<Rightarrow> u64 \<Rightarrow> backing_store \<Rightarrow> u64 option \<times> backing_store" where
  "BackingPointer acquired vaddr n bs =
     (if \<not> bs_available bs \<or> n = 0 \<or> u64_max - vaddr < n then (None, bs)
      else
        let (entry, bs') = (if acquired then translate_cached vaddr n bs else (empty_entry, bs))
        in case (if me_size entry = 0 then Backing_FindContaining vaddr n bs' else Some entry) of
             None \<Rightarrow> (None, bs')
           | Some entry \<Rightarrow>
               let offset = me_backing_offset entry + vaddr - me_vaddr entry
               in (if RangeOk offset n bs' then Some offset else None, bs'))"

function pieces_loop :: "backing_store \<Rightarrow> u64 \<Rightarrow> u64 \<Rightarrow> (u64 \<times> u64) list \<Rightarrow> bool \<times> (u64 \<times> u64) list" where
  "pieces_loop bs finish current pieces =
     (if current < finish
      then (case Backing_FindContaining current 1 bs of
              None \<Rightarrow> (False, pieces)
            | Some entry \<Rightarrow>
                let bytes = min finish (me_vaddr entry + me_size entry) - current;
                    offset = me_backing_offset entry + current - me_vaddr entry
                in if \<not> RangeOk offset bytes bs then (False, pieces)
                   else pieces_loop bs finish (current + bytes) (pieces @ [(offset, bytes)]))
      else (True, pieces))"
  by pat_completeness auto
termination
  by (relation "measure (\<lambda>(bs, finish, current, pieces). unat finish - unat current)")
    (auto simp: less_u64 dest!: Backing_FindContaining_advances)

declare pieces_loop.simps [simp del]

definition BackingPieces :: "u64 \<Rightarrow> u64 \<Rightarrow> backing_store \<Rightarrow> bool \<times> (u64 \<times> u64) list" where
  "BackingPieces vaddr n bs =
     (if \<not> bs_available bs \<or> n = 0 \<or> u64_max - vaddr < n then (False, [])
      else pieces_loop bs (vaddr + n) vaddr [])"

subsection \<open>Sparse reads\<close>

definition sparse_views :: "u64 \<Rightarrow> u64 \<Rightarrow> map_entry omap \<Rightarrow> map_entry list" where
  "sparse_views vaddr finish m =
     (let (before, after) = om_lower vaddr m;
          from_first = (if before \<noteq> [] \<and> vaddr < me_vaddr (snd (last before)) + me_size (snd (last before))
                   then last before # after else after)
      in map snd (takeWhile (\<lambda>e. me_vaddr (snd e) < finish) from_first))"

definition sparse_part :: "u64 \<Rightarrow> u64 \<Rightarrow> map_entry \<Rightarrow> u64 \<times> u64 \<times> u64" where
  "sparse_part vaddr finish entry =
     (let start = max vaddr (me_vaddr entry);
          bytes = min finish (me_vaddr entry + me_size entry) - start
      in (me_backing_offset entry + start - me_vaddr entry, start - vaddr, bytes))"

definition TryReadSparseBacking ::
  "u64 \<Rightarrow> u8 list option \<Rightarrow> u64 \<Rightarrow> backing_store \<Rightarrow> bool \<times> u8 list option" where
  "TryReadSparseBacking vaddr data n bs =
     (case data of
        None \<Rightarrow> (False, None)
      | Some destination \<Rightarrow>
          if \<not> bs_available bs \<or> n = 0 \<or> u64_max - vaddr < n then (False, data)
          else
            let parts = map (sparse_part vaddr (vaddr + n)) (sparse_views vaddr (vaddr + n) (bs_maps bs))
            in if \<not> list_all (\<lambda>(offset, _, bytes). RangeOk offset bytes bs) parts then (False, data)
               else (True, Some (foldl (\<lambda>d (offset, at, bytes). read_part (bs_data bs) offset at bytes d)
                 (overwrite 0 (replicate (unat n) 0) destination) parts)))"

end
