(* ===== verification/CoverageProps.thy ===== *)
theory CoverageProps
  imports Coverage "HOL-Library.Multiset"
begin

text \<open>
  What the physical coverage means: \<open>cov 0 m x\<close> is the count of byte \<open>x\<close>. Adding a span raises it
  by one on the span and nowhere else, removing one lowers it, the test of a range looks at every
  byte of it, and the alias intervals that the coverage replaced are the bytes counted twice.
\<close>

subsection \<open>The count of a byte\<close>

text \<open>The count of the last entry at or before a byte, \<open>d\<close> where there is none.\<close>

fun cov :: "nat \<Rightarrow> coverage \<Rightarrow> nat \<Rightarrow> nat" where
  "cov d [] x = d"
| "cov d ((k, c) # m) x = (if x < unat k then d else cov (unat c) m x)"

definition counts_ok :: "coverage \<Rightarrow> bool" where
  "counts_ok m \<longleftrightarrow> (\<forall>e\<in>set m. unat (snd e) < 2147483648)"

lemma cov_before: "om_ok m \<Longrightarrow> \<forall>e\<in>set m. x < unat (fst e) \<Longrightarrow> cov d m x = d"
  by (cases m) auto

lemma cov_bound: "counts_ok m \<Longrightarrow> d < 2147483648 \<Longrightarrow> cov d m x < 2147483648"
  by (induction d m x rule: cov.induct) (auto simp: counts_ok_def)

lemma cov_append_before: "B = [] \<or> x < unat (fst (hd B)) \<Longrightarrow> om_ok (A @ B) \<Longrightarrow> cov d (A @ B) x = cov d A x"
proof (induction A arbitrary: d)
  case Nil
  then show ?case by (cases B) auto
next
  case (Cons a A)
  then show ?case by (cases a) (auto simp: om_ok_Cons)
qed

lemma cov_append_after:
  "\<forall>e\<in>set A. unat (fst e) \<le> x \<Longrightarrow> cov d (A @ B) x = cov (if A = [] then d else unat (snd (last A))) B x"
  by (induction A arbitrary: d) auto

lemma cov_skip: "B \<noteq> [] \<Longrightarrow> unat (fst (hd B)) \<le> x \<Longrightarrow> om_ok (A @ B) \<Longrightarrow> cov d (A @ B) x = cov d' B x"
proof -
  assume B: "B \<noteq> []" "unat (fst (hd B)) \<le> x" "om_ok (A @ B)"
  then have "\<forall>e\<in>set A. unat (fst e) \<le> x" by (auto simp: om_ok_append hd_in_set dest!: bspec [of "set B" _ "hd B"])
  then show ?thesis using B by (cases B) (auto simp: cov_append_after)
qed

text \<open>An entry with the count of what precedes it says nothing new.\<close>

lemma cov_redundant:
  assumes "om_ok (A @ (k, c) # B)" and "unat c = (if A = [] then d else unat (snd (last A)))"
  shows "cov d (A @ (k, c) # B) x = cov d (A @ B) x"
proof (cases "unat k \<le> x")
  case True
  moreover have "\<forall>e\<in>set A. unat (fst e) \<le> x" using assms(1) True by (auto simp: om_ok_append om_ok_Cons)
  ultimately show ?thesis using assms(2) by (simp add: cov_append_after)
next
  case False
  have "cov d (A @ (k, c) # B) x = cov d A x" by (rule cov_append_before) (use assms(1) False in auto)
  moreover have "cov d (A @ B) x = cov d A x"
    by (rule cov_append_before) (use assms(1) False in \<open>cases B; auto simp: om_ok_append om_ok_Cons\<close>)+
  ultimately show ?thesis by simp
qed

lemma last_count_unat: "unat (last_count A) = (if A = [] then 0 else unat (snd (last A)))"
  by (simp add: last_count_def)

lemma om_lower_split:
  assumes "om_ok m" and "om_lower k m = (A, B)"
  shows "m = A @ B" and "\<forall>e\<in>set A. unat (fst e) < unat k" and "\<forall>e\<in>set B. unat k \<le> unat (fst e)"
  using om_lower_append [of k m] om_lower_before [of _ k m] om_lower_after [OF assms(1), of _ k] assms(2) by auto

subsection \<open>Changing it\<close>

lemma CoverageSplit_spec:
  assumes ok: "om_ok m" "counts_ok m"
  shows "om_ok (CoverageSplit k m) \<and> counts_ok (CoverageSplit k m) \<and>
    fst ` set (CoverageSplit k m) = insert k (fst ` set m) \<and> cov 0 (CoverageSplit k m) x = cov 0 m x"
proof -
  obtain A B where ab: "om_lower k m = (A, B)" by fastforce
  note s = om_lower_split [OF ok(1) ab]
  show ?thesis
  proof (cases "B \<noteq> [] \<and> fst (hd B) = k")
    case True
    then have "k \<in> fst ` set m" using s(1) by (auto intro: image_eqI [OF _ hd_in_set])
    then show ?thesis using True ok ab by (auto simp: CoverageSplit_def)
  next
    case False
    have B: "\<forall>e\<in>set B. unat k < unat (fst e)"
    proof
      fix e assume e: "e \<in> set B"
      obtain h T where hT: "B = h # T" using e by (cases B) auto
      have "unat k < unat (fst h)" using False hT s(3) by (auto simp: eq_u64)
      moreover have "e = h \<or> unat (fst h) < unat (fst e)"
        using ok(1) s(1) hT e by (auto simp: om_ok_append om_ok_Cons)
      ultimately show "unat k < unat (fst e)" by auto
    qed
    have m: "om_emplace k (last_count A) m = A @ (k, last_count A) # B"
      unfolding s(1) by (rule om_emplace_middle [OF s(2) B])
    then have sp: "CoverageSplit k m = A @ (k, last_count A) # B"
      using False ab by (auto simp: CoverageSplit_def)
    have ok': "om_ok (A @ (k, last_count A) # B)" using om_emplace_ok [OF ok(1), of k "last_count A"] m by simp
    have "cov 0 (A @ (k, last_count A) # B) x = cov 0 (A @ B) x"
      by (rule cov_redundant [OF ok']) (simp add: last_count_unat)
    moreover have "unat (last_count A) < 2147483648"
      using ok(2) s(1) by (auto simp: last_count_unat counts_ok_def)
    ultimately show ?thesis using sp ok' ok s(1) by (auto simp: counts_ok_def)
  qed
qed

lemma merge_key_spec:
  assumes ok: "om_ok m" "counts_ok m"
  shows "om_ok (merge_key k m) \<and> counts_ok (merge_key k m) \<and> cov 0 (merge_key k m) x = cov 0 m x"
proof -
  obtain A B where ab: "om_lower k m = (A, B)" by fastforce
  note s = om_lower_split [OF ok(1) ab]
  consider "merge_key k m = m" | h c T where "B = (h, c) # T" "c = last_count A" "merge_key k m = om_erase k m"
  proof (cases B)
    case (Cons e T)
    then show thesis using ab that by (cases e; cases "snd e = last_count A") (auto simp: merge_key_def)
  qed (use ab that in \<open>simp add: merge_key_def\<close>)
  then show ?thesis
  proof cases
    case 2
    have m: "m = A @ (h, c) # T" using 2 s(1) by simp
    have r: "cov 0 m x = cov 0 (A @ T) x"
      unfolding m by (rule cov_redundant) (use ok(1) m 2 in \<open>auto simp: last_count_unat\<close>)
    have "om_erase k m = m \<or> om_erase k m = A @ T"
    proof (cases "h = k")
      case True
      then show ?thesis using om_erase_middle [of A k c T] ok(1) m by simp
    next
      case False
      then have "k \<notin> fst ` set m" using ok(1) s m 2 by (force simp: om_ok_append om_ok_Cons eq_u64)
      then show ?thesis using om_erase_absent by blast
    qed
    then show ?thesis using 2 r om_erase_ok [OF ok(1), of k] ok(2) by (auto simp: counts_ok_def)
  qed (use ok in auto)
qed

lemma bump_count_spec:
  assumes "unat c < 2147483648" and "delta = 1 \<or> delta = -1"
  shows "bump_count delta c = Some c' \<Longrightarrow> int (unat c') = int (unat c) + delta \<and> unat c' < 2147483648"
    and "0 \<le> int (unat c) + delta \<Longrightarrow> int (unat c) + delta < 2147483648 \<Longrightarrow> bump_count delta c \<noteq> None"
proof -
  have u: "uint c = int (unat c)" by (rule uint_nat)
  then have lim: "uint c < 2147483648" "-2147483648 \<le> uint c" using assms(1) by linarith+
  have "sint c = uint c"
    unfolding sint_uint by (subst signed_take_bit_int_eq_self) (use lim in simp_all)
  then have s: "sint c = int (unat c)" by (simp only: u)
  have "c \<noteq> 0 \<Longrightarrow> 0 < unat c" by (simp add: unat_gt_0)
  then have z: "0 \<le> int (unat c)" "c \<noteq> 0 \<Longrightarrow> 0 < int (unat c)" by linarith+
  { assume b: "bump_count delta c = Some c'"
    have r: "0 \<le> sint c + delta" "sint c + delta < 2147483648"
      using b assms(2) z unfolding s by (auto simp: bump_count_def i32_range_def s split: if_splits)
    moreover have "c' = word_of_int (sint c + delta)" using b by (auto simp: bump_count_def split: if_splits)
    ultimately have "uint c' = sint c + delta" by (simp only: uint_word_of_int) simp
    then have "uint c' = int (unat c) + delta" by (simp only: s)
    then show "int (unat c') = int (unat c) + delta \<and> unat c' < 2147483648"
      using r uint_nat [of c'] unfolding s by linarith }
  { assume "0 \<le> int (unat c) + delta" "int (unat c) + delta < 2147483648"
    then show "bump_count delta c \<noteq> None" using s z assms(2) by (auto simp: bump_count_def i32_range_def) }
qed


text \<open>Whether the last entry at or before a byte starts in a span.\<close>

fun starts_in :: "u64 \<Rightarrow> u64 \<Rightarrow> bool \<Rightarrow> coverage \<Rightarrow> nat \<Rightarrow> bool" where
  "starts_in b e f [] x = f"
| "starts_in b e f ((k, c) # m) x = (if x < unat k then f else starts_in b e (b \<le> k \<and> k < e) m x)"

lemma starts_in_last:
  assumes "om_ok m" and "k \<in> fst ` set m" and "unat k \<le> x"
    and "\<forall>q\<in>fst ` set m. unat q \<le> x \<longrightarrow> unat q \<le> unat k"
  shows "starts_in b e f m x \<longleftrightarrow> b \<le> k \<and> k < e"
  using assms
proof (induction b e f m x rule: starts_in.induct)
  case (2 b e f h c m x)
  have h: "unat h \<le> x"
    using "2.prems" by (auto simp: om_ok_Cons)
  show ?case
  proof (cases "k = h")
    case True
    have "\<forall>q\<in>set m. x < unat (fst q)" using "2.prems" True by (force simp: om_ok_Cons)
    then have "starts_in b e (b \<le> h \<and> h < e) m x \<longleftrightarrow> b \<le> h \<and> h < e" by (cases m) auto
    then show ?thesis using True h by simp
  next
    case False
    then show ?thesis using "2.IH" "2.prems" h by (auto simp: om_ok_Cons)
  qed
qed simp

lemma starts_in_span:
  assumes ok: "om_ok m" and k: "b \<in> fst ` set m" "e \<in> fst ` set m"
  shows "starts_in b e False m x \<longleftrightarrow> unat b \<le> x \<and> x < unat e"
proof -
  let ?K = "{k \<in> fst ` set m. unat k \<le> x}"
  show ?thesis
  proof (cases "?K = {}")
    case True
    then have "starts_in b e False m x = False" by (cases m) (auto simp: not_le)
    moreover have "\<not> unat b \<le> x" using True k by auto
    ultimately show ?thesis by simp
  next
    case False
    have fin: "finite (unat ` ?K)" by simp
    then have "Max (unat ` ?K) \<in> unat ` ?K" by (rule Max_in) (use False in blast)
    then obtain k where k': "k \<in> ?K" "Max (unat ` ?K) = unat k" by (rule imageE)
    have "\<forall>q\<in>?K. unat q \<le> unat k" using Max_ge [OF fin] unfolding k'(2) by blast
    with k'(1) have km: "k \<in> ?K" "\<forall>q\<in>?K. unat q \<le> unat k" by blast+
    then have "starts_in b e False m x \<longleftrightarrow> b \<le> k \<and> k < e"
      by (intro starts_in_last [OF ok]) blast+
    moreover have "unat k \<le> x" "unat b \<le> x \<Longrightarrow> unat b \<le> unat k" "unat e \<le> x \<Longrightarrow> unat e \<le> unat k"
      using km k by blast+
    ultimately have "starts_in b e False m x \<longleftrightarrow> unat b \<le> x \<and> x < unat e"
      unfolding less_u64 le_u64 by linarith
    then show ?thesis .
  qed
qed

lemma bump_counts_spec:
  assumes "om_ok m" and "counts_ok m" and d: "delta = 1 \<or> delta = -1" and "bump_counts delta b e m = Some m'"
    and "int d' = int d + (if f then delta else 0)"
  shows "map fst m' = map fst m \<and> counts_ok m' \<and>
    int (cov d' m' x) = int (cov d m x) + (if starts_in b e f m x then delta else 0)"
  using assms(1,2,4,5)
proof (induction m arbitrary: m' d d' f)
  case (Cons p m)
  obtain k c where p: "p = (k, c)" by fastforce
  obtain c' t where m': "m' = (k, c') # t" "bump_counts delta b e m = Some t"
    and c': "if b \<le> k \<and> k < e then bump_count delta c = Some c' else c' = c"
    using Cons.prems(3) p by (auto split: if_splits option.splits)
  have small: "unat c < 2147483648" using Cons.prems(2) p by (simp add: counts_ok_def)
  have ok: "om_ok m" "counts_ok m" using Cons.prems p by (auto simp: om_ok_Cons counts_ok_def)
  have v: "int (unat c') = int (unat c) + (if b \<le> k \<and> k < e then delta else 0)" "unat c' < 2147483648"
    using c' bump_count_spec(1) [OF small d] small by (auto split: if_splits)
  show ?case
    using Cons.IH [OF ok m'(2) v(1)] Cons.prems(4) v(2) m'(1) p by (auto simp: counts_ok_def)
qed auto

lemma om_ok_keys: "map fst m' = map fst m \<Longrightarrow> om_ok m' = om_ok m"
  unfolding om_ok_def using sorted_wrt_map [of "\<lambda>a b. unat a < unat b" fst] by metis

lemma AddCoverage_spec:
  assumes ok: "om_ok m" "counts_ok m" and d: "delta = 1 \<or> delta = -1" and a: "AddCoverage b e delta m = Some m'"
  shows "om_ok m' \<and> counts_ok m' \<and>
    int (cov 0 m' x) = int (cov 0 m x) + (if unat b \<le> x \<and> x < unat e then delta else 0)"
proof (cases "e \<le> b")
  case True
  then show ?thesis using a ok by (auto simp: AddCoverage_def le_u64)
next
  case False
  let ?s = "CoverageSplit e (CoverageSplit b m)"
  note s1 = CoverageSplit_spec [OF ok, of b]
  note s2 = CoverageSplit_spec [of "CoverageSplit b m" e]
  have s: "om_ok ?s" "counts_ok ?s" "b \<in> fst ` set ?s" "e \<in> fst ` set ?s" "cov 0 ?s x = cov 0 m x"
    using s1 s2 by auto
  obtain t where t: "bump_counts delta b e ?s = Some t" "m' = merge_key e (merge_key b t)"
    using a False by (auto simp: AddCoverage_def)
  have b: "map fst t = map fst ?s" "counts_ok t"
    "int (cov 0 t x) = int (cov 0 ?s x) + (if starts_in b e False ?s x then delta else 0)"
    using bump_counts_spec [OF s(1,2) d t(1), of 0 0 False x] by auto
  then have "om_ok t" using om_ok_keys s(1) by blast
  then have "om_ok m' \<and> counts_ok m' \<and> cov 0 m' x = cov 0 t x"
    using merge_key_spec [of t b] merge_key_spec [of "merge_key b t" e] b(2) t(2) by auto
  then show ?thesis using b(3) s starts_in_span [OF s(1,3,4)] by simp
qed

text \<open>It does not abort where the counts stay in range.\<close>

lemma cov_entry: "om_ok m \<Longrightarrow> (k, c) \<in> set m \<Longrightarrow> cov d m (unat k) = unat c"
proof (induction m arbitrary: d)
  case (Cons p m)
  show ?case
  proof (cases "p = (k, c)")
    case True
    then show ?thesis using Cons.prems cov_before [of m "unat k"] by (auto simp: om_ok_Cons)
  next
    case False
    then show ?thesis using Cons by (cases p) (auto simp: om_ok_Cons)
  qed
qed simp

lemma bump_counts_Some:
  assumes d: "delta = 1 \<or> delta = -1"
    and "\<forall>(k, c)\<in>set m. b \<le> k \<and> k < e \<longrightarrow> 0 \<le> int (unat c) + delta \<and> int (unat c) + delta < 2147483648"
    and "counts_ok m"
  shows "bump_counts delta b e m \<noteq> None"
  using assms(2,3)
proof (induction m)
  case (Cons p m)
  obtain k c where p: "p = (k, c)" by fastforce
  have "unat c < 2147483648" using Cons.prems(2) p by (simp add: counts_ok_def)
  then have "b \<le> k \<and> k < e \<Longrightarrow> bump_count delta c \<noteq> None"
    using bump_count_spec(2) [OF _ d] Cons.prems(1) p by auto
  moreover have "bump_counts delta b e m \<noteq> None"
    using Cons by (simp add: counts_ok_def)
  ultimately show ?case using p by auto
qed simp

lemma AddCoverage_Some:
  assumes ok: "om_ok m" "counts_ok m" and d: "delta = 1 \<or> delta = -1"
    and r: "\<And>x. unat b \<le> x \<Longrightarrow> x < unat e \<Longrightarrow> 0 \<le> int (cov 0 m x) + delta \<and> int (cov 0 m x) + delta < 2147483648"
  shows "AddCoverage b e delta m \<noteq> None"
proof (cases "e \<le> b")
  case False
  let ?s = "CoverageSplit e (CoverageSplit b m)"
  note s1 = CoverageSplit_spec [OF ok, of b]
  note s2 = CoverageSplit_spec [of "CoverageSplit b m" e]
  have s: "om_ok ?s" "counts_ok ?s" "\<And>x. cov 0 ?s x = cov 0 m x" using s1 s2 by auto
  have "bump_counts delta b e ?s \<noteq> None"
    by (rule bump_counts_Some [OF d _ s(2)])
      (use cov_entry [OF s(1), of _ _ 0] r s(3) in \<open>force simp: less_u64 le_u64\<close>)
  then show ?thesis using False by (auto simp: AddCoverage_def)
qed (simp add: AddCoverage_def)


subsection \<open>The test of a range\<close>

lemma coverage_scan_spec:
  assumes be: "unat b < unat e" and "om_ok m" and "\<forall>q\<in>set (tl m). unat b < unat (fst q)"
    and "d \<le> 1 \<or> m \<noteq> [] \<and> unat (fst (hd m)) \<le> unat b"
  shows "coverage_scan b e m \<longleftrightarrow> (\<forall>x. unat b \<le> x \<and> x < unat e \<longrightarrow> cov d m x \<le> 1)"
  using assms(2-)
proof (induction m arbitrary: d)
  case (Cons p m)
  obtain k c where p: "p = (k, c)" by fastforce
  have ok: "om_ok m" "\<forall>q\<in>set m. unat k < unat (fst q)" "\<forall>q\<in>set m. unat b < unat (fst q)"
    using Cons.prems p by (auto simp: om_ok_Cons)
  have no_skip: "\<not> (m \<noteq> [] \<and> fst (hd m) \<le> b)" using ok(3) by (cases m) (auto simp: le_u64)
  show ?case
  proof (cases "k < e")
    case False
    then have "d \<le> 1" using Cons.prems(3) p be by (auto simp: less_u64)
    then show ?thesis using False p by (auto simp: less_u64)
  next
    case True
    have at: "cov d (p # m) (max (unat k) (unat b)) = unat c"
      using ok p cov_before [of m "max (unat k) (unat b)"] by simp
    show ?thesis
    proof (cases "1 < c")
      case big: True
      then have "1 < unat c" by (simp add: word_less_nat_alt)
      then have "\<exists>x. unat b \<le> x \<and> x < unat e \<and> 1 < cov d (p # m) x"
        using at True be by (intro exI [of _ "max (unat k) (unat b)"]) (simp add: less_u64)
      moreover have "\<not> coverage_scan b e (p # m)" using big True no_skip p by auto
      ultimately show ?thesis by force
    next
      case False
      then have c: "unat c \<le> 1" by (simp add: word_less_nat_alt)
      have "\<forall>q\<in>set (tl m). unat b < unat (fst q)" using ok(3) by (cases m) auto
      then have "coverage_scan b e m \<longleftrightarrow> (\<forall>x. unat b \<le> x \<and> x < unat e \<longrightarrow> cov (unat c) m x \<le> 1)"
        using Cons.IH [OF ok(1)] c by blast
      moreover have "coverage_scan b e (p # m) = coverage_scan b e m" using False True no_skip p by simp
      moreover have "cov d (p # m) x \<le> 1 \<longleftrightarrow> cov (unat c) m x \<le> 1" if "unat b \<le> x" for x
      proof (cases "x < unat k")
        case True
        then have "cov (unat c) m x = unat c" using ok by (intro cov_before) auto
        moreover have "d \<le> 1" using Cons.prems(3) p that True by auto
        ultimately show ?thesis using c True p by simp
      qed (simp add: p)
      ultimately show ?thesis by blast
    qed
  qed
qed (use be in auto)

lemma CoverageUnique_spec:
  assumes ok: "om_ok m" and be: "unat b < unat e"
  shows "CoverageUnique b e m \<longleftrightarrow> (\<forall>x. unat b \<le> x \<and> x < unat e \<longrightarrow> cov 0 m x \<le> 1)"
proof -
  let ?s = "om_scan_from b m"
  obtain c where c: "m = c @ ?s" "\<forall>q\<in>set c. \<exists>n. ?s \<noteq> [] \<and> n = fst (hd ?s) \<and> unat (fst q) < unat n \<and> unat n \<le> unat b"
    "\<forall>q\<in>set (tl ?s). unat b < unat (fst q)" by (rule om_scan_from_split [OF ok])
  have "om_ok ?s" using ok c(1) by (metis om_ok_append)
  then have "coverage_scan b e ?s \<longleftrightarrow> (\<forall>x. unat b \<le> x \<and> x < unat e \<longrightarrow> cov 0 ?s x \<le> 1)"
    by (rule coverage_scan_spec [OF be _ c(3)]) simp
  moreover have "cov 0 m x = cov 0 ?s x" if "unat b \<le> x" for x
  proof (cases "c = []")
    case False
    then have "?s \<noteq> []" "unat (fst (hd ?s)) \<le> unat b" using c(2) by (auto simp: neq_Nil_conv)
    then show ?thesis using cov_skip [of ?s x c 0 0] c(1) ok that by simp
  qed (use c(1) in simp)
  ultimately show ?thesis by (simp add: CoverageUnique_def)
qed

subsection \<open>The mappings that cover a byte\<close>

definition times_mapped :: "(u64 \<times> u64) list \<Rightarrow> nat \<Rightarrow> nat" where
  "times_mapped spans x = length (filter (\<lambda>(off, n). x \<in> span_of off n) spans)"

lemma times_mapped_simps [simp]:
  "times_mapped [] x = 0"
  "times_mapped ((off, n) # spans) x = (if x \<in> span_of off n then 1 else 0) + times_mapped spans x"
  "times_mapped (xs @ ys) x = times_mapped xs x + times_mapped ys x"
  by (auto simp: times_mapped_def)

text \<open>The number of mappings active at a byte, from the end points.\<close>

definition active_at :: "(u64 \<times> int) list \<Rightarrow> nat \<Rightarrow> int" where
  "active_at eps x = sum_list (map snd (filter (\<lambda>p. unat (fst p) \<le> x) eps))"

lemma active_at_simps [simp]:
  "active_at [] x = 0"
  "active_at (p # eps) x = (if unat (fst p) \<le> x then snd p else 0) + active_at eps x"
  "active_at (xs @ ys) x = active_at xs x + active_at ys x"
  by (auto simp: active_at_def)

lemma active_at_perm: "mset xs = mset ys \<Longrightarrow> active_at xs x = active_at ys x"
  by (simp only: active_at_def sum_mset_sum_list [symmetric] mset_map mset_filter)

lemma active_endpoints:
  assumes "\<forall>(off, n)\<in>set spans. fits off n"
  shows "active_at (concat (map (\<lambda>(off, n). [(off, 1), (off + n, -1)]) spans)) x = int (times_mapped spans x)"
  using assms by (induction spans) (auto simp: unat_end span_of_def)

lemma active_total:
  assumes "\<forall>(off, n)\<in>set spans. fits off n"
  shows "sum_list (map snd (concat (map (\<lambda>(off, n). [(off, 1), (off + n, -1)]) spans))) = (0 :: int)"
  using assms by (induction spans) auto


subsection \<open>The alias intervals\<close>

abbreviation ilo :: "u64 \<times> u64 \<Rightarrow> nat" where "ilo i \<equiv> unat (fst i)"
abbreviation ihi :: "u64 \<times> u64 \<Rightarrow> nat" where "ihi i \<equiv> unat (snd i)"

text \<open>
  What the sweep does from a state on: the intervals keep their order and gain the bytes at which
  more than one mapping is active.
\<close>

lemma alias_step:
  assumes "iv_ok ilo ihi out" and "\<forall>i\<in>set out. ihi i \<le> unat previous" and "unat previous \<le> unat position"
  defines "out' \<equiv> if previous < position
     then (if out \<noteq> [] \<and> snd (last out) = previous then butlast out @ [(fst (last out), position)]
           else out @ [(previous, position)]) else out"
  shows "iv_ok ilo ihi out' \<and> (\<forall>i\<in>set out'. ihi i \<le> unat position) \<and>
    iv_pts ilo ihi out' = iv_pts ilo ihi out \<union> {unat previous ..< unat position}"
proof (cases "previous < position")
  case False
  then show ?thesis using assms by (force simp: less_u64)
next
  case True
  show ?thesis
  proof (cases "out \<noteq> [] \<and> snd (last out) = previous")
    case join: True
    then obtain rest i where o: "out = rest @ [i]" "snd i = previous" by (metis append_butlast_last_id)
    have "ilo i < unat previous" using assms(1) o by (auto simp: iv_ok_append iv_ok_Cons)
    then show ?thesis using assms True o by (force simp: iv_ok_append iv_ok_Cons less_u64)
  next
    case False
    then have "out' = out @ [(previous, position)]" using True by (simp only: out'_def if_True if_False)
    then show ?thesis using assms(1-3) True by (auto simp: iv_ok_append iv_ok_Cons less_u64)
  qed
qed

lemma later_positions:
  fixes eps :: "(u64 \<times> int) list"
  assumes "sorted (map (\<lambda>p. unat (fst p)) eps)" and "\<forall>p\<in>set eps. unat k \<le> unat (fst p)"
  shows "\<forall>p\<in>set (dropWhile (\<lambda>p. fst p = k) eps). unat k < unat (fst p)"
  using assms
proof (induction eps)
  case (Cons q eps)
  show ?case
  proof (cases "fst q = k")
    case False
    then have "unat k < unat (fst q)" using Cons.prems(2) eq_u64 [of "fst q" k] by auto
    then show ?thesis using False Cons.prems(1) by auto
  qed (use Cons in auto)
qed simp

lemma active_before: "\<forall>p\<in>set eps. x < unat (fst p) \<Longrightarrow> active_at eps x = 0"
  by (induction eps) auto

lemma active_group:
  "\<forall>p\<in>set g. fst p = k \<Longrightarrow> active_at g x = (if unat k \<le> x then sum_list (map snd g) else 0)"
  by (induction g) auto

lemma alias_loop_spec:
  assumes "sorted (map (\<lambda>p. unat (fst p)) eps)" and "\<forall>p\<in>set eps. unat previous \<le> unat (fst p)"
    and "iv_ok ilo ihi out" and "\<forall>i\<in>set out. ihi i \<le> unat previous"
    and "active + sum_list (map snd eps) = 0"
  shows "snd (alias_loop previous active out eps) = 0 \<and>
    iv_ok ilo ihi (fst (alias_loop previous active out eps)) \<and>
    iv_pts ilo ihi (fst (alias_loop previous active out eps)) =
      iv_pts ilo ihi out \<union> {x. unat previous \<le> x \<and> 1 < active + active_at eps x}"
  using assms
proof (induction previous active out eps rule: alias_loop.induct)
  case (1 previous active out)
  then show ?case by (simp add: alias_loop.simps(1))
next
  case (2 previous active out position d eps)
  let ?g = "takeWhile (\<lambda>p. fst p = position) eps" and ?r = "dropWhile (\<lambda>p. fst p = position) eps"
  define out' where "out' = (if 1 < active \<and> previous < position
    then (if out \<noteq> [] \<and> snd (last out) = previous then butlast out @ [(fst (last out), position)]
          else out @ [(previous, position)]) else out)"
  have eps: "eps = ?g @ ?r" by simp
  have le: "unat previous \<le> unat position" using "2.prems"(2) by simp
  have st: "iv_ok ilo ihi out' \<and> (\<forall>i\<in>set out'. ihi i \<le> unat position) \<and>
      iv_pts ilo ihi out' = iv_pts ilo ihi out \<union> {x. unat previous \<le> x \<and> x < unat position \<and> 1 < active}"
    using alias_step [OF "2.prems"(3,4) le] "2.prems"(3,4) le unfolding out'_def
    by (cases "1 < active") auto
  have "\<forall>p\<in>set ?g. fst p = position" by (auto dest: takeWhile_all)
  then have at_g: "active_at ?g x = (if unat position \<le> x then sum_list (map snd ?g) else 0)" for x
    by (rule active_group)
  have sum_eps: "sum_list (map snd eps) = sum_list (map snd ?g) + sum_list (map snd ?r)"
    by (simp flip: sum_list_append map_append)
  have at_eps: "active_at eps x = active_at ?g x + active_at ?r x" for x
    by (simp flip: active_at_simps(3))
  have srt: "sorted (map (\<lambda>p. unat (fst p)) ?r)"
    using "2.prems"(1) sorted_append [of "map (\<lambda>p. unat (fst p)) ?g" "map (\<lambda>p. unat (fst p)) ?r"]
    by (simp flip: map_append)
  have later: "\<forall>p\<in>set ?r. unat position < unat (fst p)"
    by (rule later_positions) (use "2.prems"(1) in simp_all)
  have run: "alias_loop previous active out ((position, d) # eps) =
      alias_loop position (active + d + sum_list (map snd ?g)) out' ?r"
    by (simp add: alias_loop.simps(2) Let_def out'_def)
  have ih: "snd (alias_loop position (active + d + sum_list (map snd ?g)) out' ?r) = 0 \<and>
      iv_ok ilo ihi (fst (alias_loop position (active + d + sum_list (map snd ?g)) out' ?r)) \<and>
      iv_pts ilo ihi (fst (alias_loop position (active + d + sum_list (map snd ?g)) out' ?r)) =
        iv_pts ilo ihi out' \<union> {x. unat position \<le> x \<and> 1 < active + d + sum_list (map snd ?g) + active_at ?r x}"
  proof (rule "2.IH" [OF out'_def refl srt])
    show "\<forall>p\<in>set ?r. unat position \<le> unat (fst p)" using later by (blast intro: less_imp_le)
    show "active + d + sum_list (map snd ?g) + sum_list (map snd ?r) = 0" using "2.prems"(5) sum_eps by simp
  qed (use st in blast)+
  have "active_at ?r x = 0" if "x < unat position" for x
    using later that by (intro active_before) force
  then have "active_at ((position, d) # eps) x =
      (if unat position \<le> x then d + sum_list (map snd ?g) + active_at ?r x else 0)" for x
    by (simp add: at_eps at_g)
  then have "{x. unat previous \<le> x \<and> 1 < active + active_at ((position, d) # eps) x} =
      {x. unat previous \<le> x \<and> x < unat position \<and> 1 < active} \<union>
      {x. unat position \<le> x \<and> 1 < active + d + sum_list (map snd ?g) + active_at ?r x}"
    using le by (auto simp: algebra_simps)
  with ih st show ?case unfolding run by (simp only: Un_assoc simp_thms)
qed


lemma alias_intervals_spec:
  assumes f: "\<forall>(off, n)\<in>set spans. fits off n"
  obtains out where "alias_intervals spans = Some out" and "iv_ok ilo ihi out"
    and "iv_pts ilo ihi out = {x. 1 < times_mapped spans x}"
proof -
  let ?u = "concat (map (\<lambda>(off, n). [(off, 1), (off + n, -1)]) spans)"
  let ?e = "alias_endpoints spans"
  have m: "mset ?e = mset ?u" by (simp add: alias_endpoints_def)
  have "sum_list (map snd ?e) = sum_list (map snd ?u)"
    by (simp only: sum_mset_sum_list [symmetric] mset_map m)
  then have tot: "sum_list (map snd ?e) = 0" using active_total [OF f] by simp
  have "sorted ?e" by (simp add: alias_endpoints_def)
  then have "sorted (map (\<lambda>p. unat (fst p)) ?e)"
    unfolding sorted_map by (rule sorted_wrt_mono_rel [rotated]) (auto simp: less_eq_prod_def le_u64 less_u64)
  then have "snd (alias_loop 0 0 [] ?e) = 0 \<and> iv_ok ilo ihi (fst (alias_loop 0 0 [] ?e)) \<and>
      iv_pts ilo ihi (fst (alias_loop 0 0 [] ?e)) =
        iv_pts ilo ihi [] \<union> {x. unat (0 :: u64) \<le> x \<and> 1 < 0 + active_at ?e x}"
    using tot by (intro alias_loop_spec) simp_all
  moreover have "active_at ?e x = int (times_mapped spans x)" for x
    using active_at_perm [OF m] active_endpoints [OF f] by simp
  ultimately show thesis
    using that [of "fst (alias_loop 0 0 [] ?e)"] by (simp add: alias_intervals_def split_beta)
qed

lemma outside_aliases_spec:
  assumes ok: "iv_ok ilo ihi out" and n: "0 < unat n" and fit: "fits p n"
  shows "outside_aliases p n out \<longleftrightarrow> span_of p n \<inter> iv_pts ilo ihi out = {}"
proof -
  let ?d = "dropWhile (\<lambda>i. snd i \<le> p) out" and ?t = "takeWhile (\<lambda>i. snd i \<le> p) out"
  have out: "out = ?t @ ?d" by simp
  have t: "span_of p n \<inter> iv_pts ilo ihi ?t = {}"
    by (force simp: iv_pts_def span_of_def le_u64 dest: takeWhile_all)
  have pts: "iv_pts ilo ihi out = iv_pts ilo ihi ?t \<union> iv_pts ilo ihi ?d"
    by (subst out) (simp only: iv_pts_simps)
  show ?thesis
  proof (cases ?d)
    case Nil
    then show ?thesis using t unfolding pts outside_aliases_def Nil by simp
  next
    case (Cons i js)
    have i: "unat p < ihi i" using dropWhile_eq_Cons_conv [of "\<lambda>i. snd i \<le> p" out i js] Cons by (simp add: le_u64)
    have ok': "iv_ok ilo ihi (i # js)" using ok out Cons by (metis iv_ok_append)
    have "unat (p + n) \<le> ilo i \<longleftrightarrow> span_of p n \<inter> iv_pts ilo ihi (i # js) = {}"
    proof
      assume a: "unat (p + n) \<le> ilo i"
      have "\<forall>j\<in>set (i # js). ilo i \<le> ilo j" using ok' by (force simp: iv_ok_Cons)
      then show "span_of p n \<inter> iv_pts ilo ihi (i # js) = {}"
        using a unat_end [OF fit] by (force simp: iv_pts_def span_of_def)
    next
      assume "span_of p n \<inter> iv_pts ilo ihi (i # js) = {}"
      moreover have "max (unat p) (ilo i) \<in> {ilo i ..< ihi i}" using i ok' by (auto simp: iv_ok_Cons)
      ultimately have "max (unat p) (ilo i) \<notin> span_of p n" by auto
      then show "unat (p + n) \<le> ilo i" using n unat_end [OF fit] by (auto simp: span_of_def)
    qed
    then show ?thesis using t pts Cons unfolding outside_aliases_def by (auto simp: le_u64)
  qed
qed

lemma outside_aliases_correct:
  assumes f: "\<forall>(off, n)\<in>set spans. fits off n" and out: "alias_intervals spans = Some out"
    and n: "0 < unat n" and fit: "fits p n"
  shows "outside_aliases p n out \<longleftrightarrow> (\<forall>x. unat p \<le> x \<and> x < unat (p + n) \<longrightarrow> times_mapped spans x \<le> 1)"
proof -
  have "iv_ok ilo ihi out" "iv_pts ilo ihi out = {x. 1 < times_mapped spans x}"
    using alias_intervals_spec [OF f] out by (metis option.inject)+
  then show ?thesis
    using outside_aliases_spec [OF _ n fit] unat_end [OF fit] by (fastforce simp: span_of_def not_less)
qed

end
