(* ===== verification/BackingViews.thy ===== *)
theory BackingViews
  imports BackingStore CoverageProps
begin

text \<open>
  What the views of the backing store mean: \<open>view_at\<close> gives the backing byte of a guest address.
  Every change of the views is stated on it; the coverage stays the number of views of each backing
  byte, and no cached translation survives a change.
\<close>

subsection \<open>Views\<close>

abbreviation vlo :: "u64 \<times> map_entry \<Rightarrow> nat" where "vlo p \<equiv> unat (me_vaddr (snd p))"
abbreviation vhi :: "u64 \<times> map_entry \<Rightarrow> nat" where "vhi p \<equiv> unat (me_vaddr (snd p)) + unat (me_size (snd p))"

abbreviation guest_span :: "map_entry \<Rightarrow> nat set" where "guest_span e \<equiv> span_of (me_vaddr e) (me_size e)"
abbreviation backing_span :: "map_entry \<Rightarrow> nat set" where "backing_span e \<equiv> span_of (me_backing_offset e) (me_size e)"

definition entry_ok :: "nat \<Rightarrow> map_entry \<Rightarrow> bool" where
  "entry_ok limit e \<longleftrightarrow> 0 < unat (me_size e) \<and> fits (me_vaddr e) (me_size e) \<and>
     fits (me_backing_offset e) (me_size e) \<and> unat (me_backing_offset e) + unat (me_size e) \<le> limit"

text \<open>Keyed by guest address, in order, disjoint, and inside the backing object.\<close>

definition entries_ok :: "nat \<Rightarrow> map_entry omap \<Rightarrow> bool" where
  "entries_ok limit m \<longleftrightarrow> iv_ok vlo vhi m \<and> (\<forall>p\<in>set m. fst p = me_vaddr (snd p) \<and> entry_ok limit (snd p))"

fun view_at :: "map_entry omap \<Rightarrow> nat \<Rightarrow> nat option" where
  "view_at [] a = None"
| "view_at ((k, e) # m) a =
     (if a \<in> guest_span e then Some (unat (me_backing_offset e) + (a - unat (me_vaddr e))) else view_at m a)"

definition viewed :: "map_entry omap \<Rightarrow> nat set" where
  "viewed m = {a. view_at m a \<noteq> None}"

definition spans_of :: "map_entry omap \<Rightarrow> (u64 \<times> u64) list" where
  "spans_of m = map (\<lambda>(k, e). (me_backing_offset e, me_size e)) m"

lemma spans_of_simps [simp]:
  "spans_of [] = []" "spans_of ((k, e) # m) = (me_backing_offset e, me_size e) # spans_of m"
  "spans_of (xs @ ys) = spans_of xs @ spans_of ys"
  by (simp_all add: spans_of_def)

lemma entries_ok_Nil [simp]: "entries_ok limit []"
  by (simp add: entries_ok_def)

lemma entries_ok_Cons:
  "entries_ok limit ((k, e) # m) \<longleftrightarrow> k = me_vaddr e \<and> entry_ok limit e \<and> entries_ok limit m \<and>
     (\<forall>p\<in>set m. unat (me_vaddr e) + unat (me_size e) \<le> vlo p)"
  by (auto simp: entries_ok_def iv_ok_Cons entry_ok_def)

lemma entries_ok_append:
  "entries_ok limit (xs @ ys) \<longleftrightarrow> entries_ok limit xs \<and> entries_ok limit ys \<and> (\<forall>x\<in>set xs. \<forall>y\<in>set ys. vhi x \<le> vlo y)"
  by (auto simp: entries_ok_def iv_ok_append)

lemma entries_ok_om_ok: "entries_ok limit m \<Longrightarrow> om_ok m"
proof (induction m)
  case (Cons p m)
  obtain k e where p: "p = (k, e)" by fastforce
  then have "\<forall>q\<in>set m. unat k < unat (fst q)" using Cons.prems by (fastforce simp: entries_ok_def iv_ok_Cons entry_ok_def)
  then show ?case using Cons p by (auto simp: entries_ok_Cons om_ok_Cons)
qed simp

lemma view_at_append:
  "view_at (xs @ ys) a = (case view_at xs a of None \<Rightarrow> view_at ys a | Some x \<Rightarrow> Some x)"
  by (induction xs a rule: view_at.induct) auto

lemma view_at_None: "view_at m a = None \<longleftrightarrow> (\<forall>p\<in>set m. a \<notin> guest_span (snd p))"
  by (induction m a rule: view_at.induct) auto

lemma view_at_entry:
  "entries_ok limit m \<Longrightarrow> p \<in> set m \<Longrightarrow> a \<in> guest_span (snd p) \<Longrightarrow>
    view_at m a = Some (unat (me_backing_offset (snd p)) + (a - unat (me_vaddr (snd p))))"
proof (induction m a rule: view_at.induct)
  case (2 k e m a)
  show ?case
  proof (cases "p = (k, e)")
    case False
    then have "a \<notin> guest_span e" using "2.prems" by (force simp: entries_ok_Cons span_of_def)
    then show ?thesis using "2.IH" "2.prems" False by (auto simp: entries_ok_Cons)
  qed (use "2.prems" in simp)
qed simp

lemma view_at_Some:
  assumes "view_at m a = Some x"
  obtains p where "p \<in> set m" "a \<in> guest_span (snd p)"
    "x = unat (me_backing_offset (snd p)) + (a - unat (me_vaddr (snd p)))"
proof -
  have "\<exists>p\<in>set m. a \<in> guest_span (snd p) \<and> x = unat (me_backing_offset (snd p)) + (a - unat (me_vaddr (snd p)))"
    using assms by (induction m a rule: view_at.induct) (auto split: if_splits)
  then show thesis using that by blast
qed

lemma viewed_simps [simp]:
  "viewed [] = {}" "viewed ((k, e) # m) = guest_span e \<union> viewed m" "viewed (xs @ ys) = viewed xs \<union> viewed ys"
  by (auto simp: viewed_def view_at_append split: option.splits)

lemma viewed_iff: "a \<in> viewed m \<longleftrightarrow> (\<exists>p\<in>set m. a \<in> guest_span (snd p))"
  by (induction m) auto

text \<open>An entry in the middle, put in or taken out.\<close>

lemma view_at_middle:
  assumes "entries_ok limit (xs @ (k, e) # ys)"
  shows "view_at (xs @ (k, e) # ys) a =
    (if a \<in> guest_span e then Some (unat (me_backing_offset e) + (a - unat (me_vaddr e))) else view_at (xs @ ys) a)"
  using view_at_entry [OF assms, of "(k, e)" a] by (auto simp: view_at_append split: option.splits)

lemma middle_apart:
  assumes "entries_ok limit (xs @ (k, e) # ys)"
  shows "guest_span e \<inter> viewed (xs @ ys) = {}" and "entries_ok limit (xs @ ys)"
  using assms by (fastforce simp: viewed_iff entries_ok_append entries_ok_Cons span_of_def)+

lemma entry_unique:
  assumes ok: "entries_ok limit m" and "p \<in> set m" "q \<in> set m" and a: "a \<in> guest_span (snd p)" "a \<in> guest_span (snd q)"
  shows "p = q"
proof (rule ccontr)
  assume ne: "p \<noteq> q"
  obtain k e where p: "p = (k, e)" by fastforce
  obtain ys zs where m: "m = ys @ (k, e) # zs" using assms(2) p by (meson split_list)
  have "guest_span e \<inter> viewed (ys @ zs) = {}" using middle_apart(1) ok m by simp
  moreover have "q \<in> set (ys @ zs)" using assms(3) m ne p by auto
  then have "a \<in> viewed (ys @ zs)" using a(2) by (auto simp only: viewed_iff)
  ultimately show False using a(1) p by auto
qed

subsection \<open>Looking up\<close>

lemma FindContaining_before:
  assumes ok: "entries_ok limit m" and "om_upper vaddr m = (before, after)" and a: "unat vaddr \<in> viewed m"
  obtains xs p where "before = xs @ [p]" "p \<in> set m" "unat vaddr \<in> guest_span (snd p)"
proof -
  obtain p where p: "p \<in> set m" "unat vaddr \<in> guest_span (snd p)" using a by (auto simp: viewed_iff)
  have m: "m = before @ after" using om_upper_append [of vaddr m] assms(2) by simp
  have k: "fst p = me_vaddr (snd p)" using ok p(1) by (simp add: entries_ok_def)
  have "p \<notin> set after"
    using om_upper_after [OF entries_ok_om_ok [OF ok], of p vaddr] assms(2) p(2) k by (auto simp: span_of_def)
  then have "p \<in> set before" using p(1) m by auto
  then obtain ys zs where b: "before = ys @ p # zs" by (meson split_list)
  have "zs = []"
  proof (rule ccontr)
    assume "zs \<noteq> []"
    then obtain q ws where q: "zs = q # ws" by (cases zs) auto
    then have "vhi p \<le> vlo q" "fst q = me_vaddr (snd q)"
      using ok m b by (auto simp: entries_ok_def iv_ok_append iv_ok_Cons)
    moreover have "unat (fst q) \<le> unat vaddr" using om_upper_before [of q vaddr m] assms(2) b q by simp
    ultimately show False using p(2) by (auto simp: span_of_def)
  qed
  then show thesis using that b p by simp
qed

lemma no_wrap: "\<not> u64_max - vaddr < n \<longleftrightarrow> fits vaddr n"
proof -
  have "unat (u64_max - vaddr) = 18446744073709551615 - unat vaddr"
    using unat_u64_le [of vaddr] by (simp add: unat_minus_u64)
  then show ?thesis using unat_u64_le [of vaddr] by (auto simp: less_u64 fits_def)
qed

lemma GuestFreeRangeContains_span:
  assumes "GuestFreeRangeContains base s v n" and "fits base s"
  shows "span_of v n \<subseteq> span_of base s" and "fits v n"
proof -
  have g: "\<not> v < base" "v \<le> base + s" "n \<le> base + s - v"
    using assms(1) by (simp_all add: GuestFreeRangeContains_def Let_def split: if_splits)
  have e: "unat (base + s) = unat base + unat s" by (rule unat_end [OF assms(2)])
  have "unat n \<le> unat (base + s) - unat v" using g(2,3) by (simp add: le_u64 unat_minus_u64)
  then have "unat base \<le> unat v" "unat v + unat n \<le> unat base + unat s"
    using g e by (simp_all add: less_u64 le_u64)
  then show "span_of v n \<subseteq> span_of base s" "fits v n"
    using assms(2) by (auto simp: span_of_def fits_def)
qed

lemma Backing_FindContaining_Some:
  assumes ok: "entries_ok limit (bs_maps bs)"
  shows "Backing_FindContaining vaddr n bs = Some e \<longleftrightarrow>
    0 < unat n \<and> fits vaddr n \<and> (\<exists>p\<in>set (bs_maps bs). snd p = e \<and> span_of vaddr n \<subseteq> guest_span e)"
    (is "?l \<longleftrightarrow> ?r")
proof
  obtain before after where ba: "om_upper vaddr (bs_maps bs) = (before, after)" by fastforce
  have m: "bs_maps bs = before @ after" using om_upper_append [of vaddr "bs_maps bs"] ba by simp
  { assume l: ?l
    have n: "0 < unat n" "fits vaddr n" and b: "before \<noteq> []" "e = snd (last before)"
      "vaddr + n \<le> me_vaddr e + me_size e"
      using l ba no_wrap [of vaddr n] neq0_u64 [of n]
      by (auto simp: Backing_FindContaining_def Let_def split: if_splits)
    have p: "last before \<in> set (bs_maps bs)" using b(1) m by simp
    then have "fst (last before) = me_vaddr e" "fits (me_vaddr e) (me_size e)"
      using ok b(2) by (auto simp: entries_ok_def entry_ok_def)
    moreover have "unat (fst (last before)) \<le> unat vaddr"
      using om_upper_before [of "last before" vaddr "bs_maps bs"] ba b(1) by simp
    ultimately have "span_of vaddr n \<subseteq> guest_span e"
      using b(3) n by (auto simp: span_of_def le_u64 unat_end)
    then show ?r using n p b(2) by blast }
  { assume r: ?r
    then obtain p where n: "0 < unat n" "fits vaddr n" and p: "p \<in> set (bs_maps bs)" "snd p = e"
      "span_of vaddr n \<subseteq> guest_span e" by blast
    have "unat vaddr \<in> guest_span e" using n(1) p(3) by (auto simp: span_of_def)
    then have "unat vaddr \<in> viewed (bs_maps bs)" using p by (auto simp: viewed_iff)
    then obtain xs q where q: "before = xs @ [q]" "q \<in> set (bs_maps bs)" "unat vaddr \<in> guest_span (snd q)"
      by (rule FindContaining_before [OF ok ba])
    have "q = p" by (rule entry_unique [OF ok q(2) p(1) q(3)]) (use \<open>unat vaddr \<in> guest_span e\<close> p(2) in simp)
    moreover have "fits (me_vaddr e) (me_size e)" using ok p by (auto simp: entries_ok_def entry_ok_def)
    ultimately have "vaddr + n \<le> me_vaddr e + me_size e"
      using p(3) n by (auto simp: le_u64 unat_end span_of_def)
    then show ?l
      using ba q(1) \<open>q = p\<close> p(2) n no_wrap [of vaddr n] neq0_u64 [of n]
      by (simp add: Backing_FindContaining_def) }
qed


subsection \<open>The invariant\<close>

definition maps_ok :: "backing_store \<Rightarrow> bool" where
  "maps_ok bs \<longleftrightarrow> entries_ok (unat (bs_size bs)) (bs_maps bs) \<and> om_ok (bs_coverage bs) \<and>
     counts_ok (bs_coverage bs) \<and> (\<forall>x. cov 0 (bs_coverage bs) x = times_mapped (spans_of (bs_maps bs)) x)"

lemma cov_times: "maps_ok bs \<Longrightarrow> cov 0 (bs_coverage bs) x = times_mapped (spans_of (bs_maps bs)) x"
  by (simp add: maps_ok_def)

definition lookup_ok :: "backing_store \<Rightarrow> bool" where
  "lookup_ok bs \<longleftrightarrow> bs_mapping_epoch bs \<noteq> 0 \<and>
     (bs_alias_ranges_valid bs \<longrightarrow> alias_intervals (spans_of (bs_maps bs)) = Some (bs_aliased_physical_ranges bs)) \<and>
     (\<forall>i. unat (tr_epoch (bs_host_read_translations bs i)) \<le> unat (bs_mapping_epoch bs) \<and>
       (tr_epoch (bs_host_read_translations bs i) = bs_mapping_epoch bs \<longrightarrow>
         tr_entry (bs_host_read_translations bs i) \<in> snd ` set (bs_maps bs)))"

definition bs_ok :: "backing_store \<Rightarrow> bool" where
  "bs_ok bs \<longleftrightarrow> maps_ok bs \<and> lookup_ok bs"

text \<open>After an invalidation nothing cached counts, so the views may change.\<close>

definition lookup_stale :: "backing_store \<Rightarrow> bool" where
  "lookup_stale bs \<longleftrightarrow> bs_mapping_epoch bs \<noteq> 0 \<and> \<not> bs_alias_ranges_valid bs \<and>
     (\<forall>i. unat (tr_epoch (bs_host_read_translations bs i)) < unat (bs_mapping_epoch bs))"

lemma lookup_stale_ok: "lookup_stale bs \<Longrightarrow> lookup_ok bs"
  unfolding lookup_stale_def lookup_ok_def by (metis less_irrefl order.strict_implies_order)

lemma bs_ok_stale: "maps_ok bs \<Longrightarrow> lookup_stale bs \<Longrightarrow> bs_ok bs"
  by (simp add: bs_ok_def lookup_stale_ok)

lemma unat_Suc_u64: "(a :: u64) + 1 \<noteq> 0 \<Longrightarrow> unat (a + 1) = unat a + 1"
  by (simp add: unat_word_ariths(1) unat_eq_0 [symmetric] mod_Suc split: if_splits)
    (metis Suc_eq_plus1 mod_less unat_u64_lt)

lemma InvalidateMappingLookup_spec:
  assumes "bs_ok bs"
  shows "maps_ok (InvalidateMappingLookup bs) \<and> lookup_stale (InvalidateMappingLookup bs) \<and>
    bs_maps (InvalidateMappingLookup bs) = bs_maps bs \<and> bs_size (InvalidateMappingLookup bs) = bs_size bs \<and>
    bs_data (InvalidateMappingLookup bs) = bs_data bs \<and> bs_available (InvalidateMappingLookup bs) = bs_available bs"
proof -
  have e: "\<forall>i. unat (tr_epoch (bs_host_read_translations bs i)) \<le> unat (bs_mapping_epoch bs)"
    using assms by (simp add: bs_ok_def lookup_ok_def)
  show ?thesis
  proof (cases "bs_mapping_epoch bs + 1 = 0")
    case True
    then show ?thesis using assms
      by (simp add: InvalidateMappingLookup_def lookup_stale_def bs_ok_def maps_ok_def empty_translations_def)
  next
    case False
    then show ?thesis using assms e unat_Suc_u64 [OF False]
      by (simp add: InvalidateMappingLookup_def lookup_stale_def bs_ok_def maps_ok_def le_imp_less_Suc)
  qed
qed

subsection \<open>Putting a view in and taking one out\<close>

lemma om_emplace_split:
  assumes "om_ok m" and "k \<notin> fst ` set m"
  obtains xs ys where "m = xs @ ys" and "om_emplace k v m = xs @ (k, v) # ys"
    and "\<forall>p\<in>set xs. unat (fst p) < unat k" and "\<forall>p\<in>set ys. unat k < unat (fst p)"
proof -
  obtain xs ys where l: "om_lower k m = (xs, ys)" by fastforce
  note s = om_lower_split [OF assms(1) l]
  have "om_emplace k v m = xs @ (k, v) # ys"
    using l assms(2) om_find_None [of k m] by (simp add: om_emplace_def)
  moreover have "\<forall>p\<in>set ys. unat k < unat (fst p)"
    using s(1,3) assms(2) by (force simp: eq_u64 order_less_le)
  ultimately show thesis using that s by blast
qed

lemma MapsEmplace_spec:
  assumes ok: "maps_ok bs" and e: "entry_ok (unat (bs_size bs)) e" and free: "guest_span e \<inter> viewed (bs_maps bs) = {}"
    and em: "MapsEmplace e bs = Some (r, bs')"
  shows "r \<and> maps_ok bs' \<and> bs' = bs\<lparr>bs_maps := bs_maps bs', bs_coverage := bs_coverage bs'\<rparr> \<and>
    set (bs_maps bs') = insert (me_vaddr e, e) (set (bs_maps bs)) \<and> viewed (bs_maps bs') = viewed (bs_maps bs) \<union> guest_span e \<and>
    (\<forall>a. view_at (bs_maps bs') a = (if a \<in> guest_span e
       then Some (unat (me_backing_offset e) + (a - unat (me_vaddr e))) else view_at (bs_maps bs) a)) \<and>
    (\<forall>x. cov 0 (bs_coverage bs') x = cov 0 (bs_coverage bs) x + (if x \<in> backing_span e then 1 else 0))"
proof -
  let ?m = "bs_maps bs" and ?k = "me_vaddr e"
  have ents: "entries_ok (unat (bs_size bs)) ?m" using ok by (simp add: maps_ok_def)
  have "unat ?k \<in> guest_span e" using e by (simp add: entry_ok_def span_of_def)
  then have "unat ?k \<notin> viewed ?m" using free by blast
  then have new: "?k \<notin> fst ` set ?m"
    using ents by (force simp: viewed_iff entries_ok_def entry_ok_def span_of_def)
  then have "om_find ?k ?m = None" by (simp add: om_find_None)
  then obtain c where c: "AddCoverage (me_backing_offset e) (me_backing_offset e + me_size e) 1 (bs_coverage bs) = Some c"
    and bs': "r" "bs' = bs\<lparr>bs_maps := om_emplace ?k e ?m, bs_coverage := c\<rparr>"
    using em by (auto simp: MapsEmplace_def)
  obtain xs ys where s: "?m = xs @ ys" "om_emplace ?k e ?m = xs @ (?k, e) # ys"
    "\<forall>p\<in>set xs. unat (fst p) < unat ?k" "\<forall>p\<in>set ys. unat ?k < unat (fst p)"
    by (rule om_emplace_split [OF entries_ok_om_ok [OF ents] new])
  have side: "vhi p \<le> unat ?k \<or> unat ?k + unat (me_size e) \<le> vlo p" if "p \<in> set ?m" for p
  proof -
    have "guest_span (snd p) \<subseteq> viewed ?m" using that by (auto simp: viewed_iff)
    then have "guest_span e \<inter> guest_span (snd p) = {}" using free by blast
    moreover have "0 < unat (me_size (snd p))" "0 < unat (me_size e)"
      using ents e that by (auto simp: entries_ok_def entry_ok_def)
    ultimately show ?thesis by (auto simp: span_of_def)
  qed
  have keys: "\<forall>p\<in>set ?m. fst p = me_vaddr (snd p) \<and> 0 < unat (me_size (snd p))"
    using ents by (auto simp: entries_ok_def entry_ok_def)
  have left: "\<forall>p\<in>set xs. vhi p \<le> unat ?k" and right: "\<forall>p\<in>set ys. unat ?k + unat (me_size e) \<le> vlo p"
    using side s(1,3,4) keys by (auto; force)+
  have ents': "entries_ok (unat (bs_size bs)) (xs @ (?k, e) # ys)"
    using ents s(1) e left right by (auto simp: entries_ok_append entries_ok_Cons)
  have cv: "om_ok c \<and> counts_ok c \<and> int (cov 0 c x) = int (cov 0 (bs_coverage bs) x) +
      (if x \<in> backing_span e then 1 else 0)" for x
    using AddCoverage_spec [OF _ _ _ c, of x] ok e
    by (auto simp: maps_ok_def entry_ok_def unat_end span_of_def)
  have tm: "times_mapped (spans_of (xs @ (?k, e) # ys)) x = times_mapped (spans_of ?m) x + (if x \<in> backing_span e then 1 else 0)" for x
    using s(1) by simp
  have "cov 0 c x = times_mapped (spans_of (xs @ (?k, e) # ys)) x" for x
    using cv [of x] tm [of x] cov_times [OF ok, of x] by (simp split: if_splits)
  then have "maps_ok bs'" using bs'(2) s(2) ents' cv by (simp add: maps_ok_def)
  moreover have "cov 0 c x = cov 0 (bs_coverage bs) x + (if x \<in> backing_span e then 1 else 0)" for x
    using cv [of x] by (simp split: if_splits)
  ultimately show ?thesis using bs' s view_at_middle [OF ents'] by auto
qed

lemma MapsErase_spec:
  assumes ok: "maps_ok bs" and p: "p \<in> set (bs_maps bs)"
  obtains bs' xs ys where "MapsErase p bs = Some bs'" and "maps_ok bs'"
    and "bs' = bs\<lparr>bs_maps := bs_maps bs', bs_coverage := bs_coverage bs'\<rparr>"
    and "bs_maps bs = xs @ p # ys" and "bs_maps bs' = xs @ ys"
proof -
  obtain k e where pk: "p = (k, e)" by fastforce
  have ents: "entries_ok (unat (bs_size bs)) (bs_maps bs)" using ok by (simp add: maps_ok_def)
  obtain xs ys where m: "bs_maps bs = xs @ (k, e) # ys" using p pk by (meson split_list)
  have e: "entry_ok (unat (bs_size bs)) e" using ents p pk by (auto simp: entries_ok_def)
  have er: "om_erase k (bs_maps bs) = xs @ ys"
    unfolding m by (rule om_erase_middle) (use entries_ok_om_ok [OF ents] m in simp)
  have span: "unat (me_backing_offset e) \<le> x \<and> x < unat (me_backing_offset e + me_size e) \<longleftrightarrow> x \<in> backing_span e" for x
    using e by (auto simp: entry_ok_def unat_end span_of_def)
  have ge: "cov 0 (bs_coverage bs) x = times_mapped (spans_of (xs @ ys)) x + (if x \<in> backing_span e then 1 else 0)" for x
    using ok m by (simp add: maps_ok_def)
  have cok: "om_ok (bs_coverage bs)" "counts_ok (bs_coverage bs)" using ok by (simp_all add: maps_ok_def)
  have "AddCoverage (me_backing_offset e) (me_backing_offset e + me_size e) (-1) (bs_coverage bs) \<noteq> None"
  proof (rule AddCoverage_Some [OF cok])
    fix x assume "unat (me_backing_offset e) \<le> x" "x < unat (me_backing_offset e + me_size e)"
    then have "x \<in> backing_span e" using span [of x] by blast
    then show "0 \<le> int (cov 0 (bs_coverage bs) x) + -1 \<and> int (cov 0 (bs_coverage bs) x) + -1 < 2147483648"
      using ge [of x] cov_bound [OF cok(2), of 0 x] by simp
  qed simp
  then obtain c where c: "AddCoverage (me_backing_offset e) (me_backing_offset e + me_size e) (-1) (bs_coverage bs) = Some c"
    by blast
  have cv: "om_ok c \<and> counts_ok c \<and> int (cov 0 c x) = int (cov 0 (bs_coverage bs) x) + (if x \<in> backing_span e then -1 else 0)" for x
    using AddCoverage_spec [OF _ _ _ c, of x] ok span [of x] by (simp add: maps_ok_def)
  have "cov 0 c x = times_mapped (spans_of (xs @ ys)) x" for x
    using cv [of x] ge [of x] by (simp split: if_splits)
  then have "om_ok c" "counts_ok c" "\<forall>x. cov 0 c x = times_mapped (spans_of (xs @ ys)) x"
    using cv by blast+
  moreover have "entries_ok (unat (bs_size bs)) (xs @ ys)" using middle_apart(2) ents m by simp
  ultimately have "maps_ok (bs\<lparr>bs_maps := xs @ ys, bs_coverage := c\<rparr>)" by (simp add: maps_ok_def)
  then show thesis
    using that [of "bs\<lparr>bs_maps := xs @ ys, bs_coverage := c\<rparr>" xs ys] c er m pk by (simp add: MapsErase_def)
qed


text \<open>The backing byte a view gives to an address.\<close>

definition entry_view :: "map_entry \<Rightarrow> nat \<Rightarrow> nat" where
  "entry_view e a = unat (me_backing_offset e) + (a - unat (me_vaddr e))"

definition same_store :: "backing_store \<Rightarrow> backing_store \<Rightarrow> bool" where
  "same_store bs bs' \<longleftrightarrow> bs_size bs' = bs_size bs \<and> bs_data bs' = bs_data bs \<and> bs_available bs' = bs_available bs"

lemma same_store_refl [simp]: "same_store bs bs"
  by (simp add: same_store_def)

lemma same_store_trans: "same_store a b \<Longrightarrow> same_store b c \<Longrightarrow> same_store a c"
  by (simp add: same_store_def)

lemma same_store_views: "bs' = bs\<lparr>bs_maps := m, bs_coverage := c\<rparr> \<Longrightarrow> same_store bs bs'"
  by (simp add: same_store_def)

lemma stale_views: "lookup_stale bs \<Longrightarrow> bs' = bs\<lparr>bs_maps := m, bs_coverage := c\<rparr> \<Longrightarrow> lookup_stale bs'"
  by (simp add: lookup_stale_def)

lemma MapsEmplace_Some:
  assumes ok: "maps_ok bs" and e: "entry_ok (unat (bs_size bs)) e"
    and room: "\<forall>x\<in>backing_span e. cov 0 (bs_coverage bs) x < 2147483647"
  shows "MapsEmplace e bs \<noteq> None"
proof -
  have "AddCoverage (me_backing_offset e) (me_backing_offset e + me_size e) 1 (bs_coverage bs) \<noteq> None"
  proof (rule AddCoverage_Some)
    fix x assume "unat (me_backing_offset e) \<le> x" "x < unat (me_backing_offset e + me_size e)"
    then have "x \<in> backing_span e" using e by (simp add: entry_ok_def unat_end span_of_def)
    then show "0 \<le> int (cov 0 (bs_coverage bs) x) + 1 \<and> int (cov 0 (bs_coverage bs) x) + 1 < 2147483648"
      using room by force
  qed (use ok in \<open>simp_all add: maps_ok_def\<close>)
  then show ?thesis by (auto simp: MapsEmplace_def)
qed

lemma emplace_rest_spec:
  assumes ok: "maps_ok bs" and stale: "lookup_stale bs"
    and e: "needed \<Longrightarrow> entry_ok (unat (bs_size bs)) e \<and> guest_span e \<inter> viewed (bs_maps bs) = {} \<and>
      (\<forall>x\<in>backing_span e. cov 0 (bs_coverage bs) x < 2147483647)"
  obtains bs' where "emplace_rest needed e bs = Some bs'" and "maps_ok bs'" and "lookup_stale bs'" and "same_store bs bs'"
    and "\<forall>a. view_at (bs_maps bs') a = (if needed \<and> a \<in> guest_span e then Some (entry_view e a) else view_at (bs_maps bs) a)"
    and "\<forall>x. x \<notin> backing_span e \<longrightarrow> cov 0 (bs_coverage bs') x = cov 0 (bs_coverage bs) x"
    and "set (bs_maps bs) \<subseteq> set (bs_maps bs')"
proof (cases needed)
  case False
  then show thesis using that [of bs] ok stale by (simp add: emplace_rest_def)
next
  case True
  obtain r bs' where em: "MapsEmplace e bs = Some (r, bs')"
    using MapsEmplace_Some [OF ok] e [OF True] by (metis not_None_eq surj_pair)
  note s = MapsEmplace_spec [OF ok _ _ em]
  have m: "maps_ok bs'" "bs' = bs\<lparr>bs_maps := bs_maps bs', bs_coverage := bs_coverage bs'\<rparr>"
    "set (bs_maps bs') = insert (me_vaddr e, e) (set (bs_maps bs))"
    "\<forall>a. view_at (bs_maps bs') a = (if a \<in> guest_span e then Some (entry_view e a) else view_at (bs_maps bs) a)"
    using s e [OF True] unfolding entry_view_def by blast+
  have "cov 0 (bs_coverage bs') x = cov 0 (bs_coverage bs) x" if "x \<notin> backing_span e" for x
    using s e [OF True] that by simp
  moreover have "emplace_rest needed e bs = Some bs'" using em True by (simp add: emplace_rest_def)
  moreover have "set (bs_maps bs) \<subseteq> set (bs_maps bs')" unfolding m(3) by blast
  ultimately show thesis
    using that m(1,4) True stale_views [OF stale m(2)] same_store_views [OF m(2)] by simp
qed


subsection \<open>Unmapping a part of one view\<close>

text \<open>What is left of an entry on either side of a span inside it.\<close>

lemma remainders:
  assumes e: "entry_ok limit e" and n: "0 < unat n" and sub: "span_of v n \<subseteq> guest_span e"
  defines "l \<equiv> e\<lparr>me_size := v - me_vaddr e\<rparr>"
    and "r \<equiv> e\<lparr>me_vaddr := v + n, me_size := me_vaddr e + me_size e - (v + n),
      me_backing_offset := me_backing_offset e + (v + n - me_vaddr e)\<rparr>"
  shows "v \<noteq> me_vaddr e \<Longrightarrow> entry_ok limit l"
    and "v + n \<noteq> me_vaddr e + me_size e \<Longrightarrow> entry_ok limit r"
    and "guest_span l = {unat (me_vaddr e) ..< unat v}"
    and "guest_span r = {unat v + unat n ..< unat (me_vaddr e) + unat (me_size e)}"
    and "backing_span l \<subseteq> backing_span e" and "backing_span r \<subseteq> backing_span e" and "backing_span l \<inter> backing_span r = {}"
    and "a \<in> guest_span l \<Longrightarrow> entry_view l a = entry_view e a" and "a \<in> guest_span r \<Longrightarrow> entry_view r a = entry_view e a"
    and "v \<noteq> me_vaddr e \<longleftrightarrow> unat (me_vaddr e) < unat v"
    and "v + n \<noteq> me_vaddr e + me_size e \<longleftrightarrow> unat v + unat n < unat (me_vaddr e) + unat (me_size e)"
proof -
  have b: "unat (me_vaddr e) \<le> unat v" "unat v + unat n \<le> unat (me_vaddr e) + unat (me_size e)"
    using n sub by (auto simp: span_of_def)
  have f: "fits (me_vaddr e) (me_size e)" "fits (me_backing_offset e) (me_size e)"
    "unat (me_backing_offset e) + unat (me_size e) \<le> limit" using e by (simp_all add: entry_ok_def)
  have ve: "unat (v + n) = unat v + unat n" using b f(1) by (intro unat_plus_u64) (simp add: fits_def)
  have ee: "unat (me_vaddr e + me_size e) = unat (me_vaddr e) + unat (me_size e)" by (rule unat_end [OF f(1)])
  have ls: "unat (v - me_vaddr e) = unat v - unat (me_vaddr e)" using b by (simp add: unat_minus_u64)
  have rs: "unat (me_vaddr e + me_size e - (v + n)) = unat (me_vaddr e) + unat (me_size e) - (unat v + unat n)"
    using b ve ee by (simp add: unat_minus_u64)
  have rd: "unat (v + n - me_vaddr e) = unat v + unat n - unat (me_vaddr e)" using b ve by (simp add: unat_minus_u64)
  have ro: "unat (me_backing_offset e + (v + n - me_vaddr e)) = unat (me_backing_offset e) + (unat v + unat n - unat (me_vaddr e))"
    using b f(2) rd by (subst unat_plus_u64) (auto simp: fits_def)
  show neq1: "v \<noteq> me_vaddr e \<longleftrightarrow> unat (me_vaddr e) < unat v" using b(1) by (auto simp: eq_u64)
  show neq2: "v + n \<noteq> me_vaddr e + me_size e \<longleftrightarrow> unat v + unat n < unat (me_vaddr e) + unat (me_size e)"
    using b(2) ve ee by (auto simp: eq_u64)
  show "entry_ok limit l" if "v \<noteq> me_vaddr e"
    using that neq1 b f ls by (auto simp: l_def entry_ok_def fits_def)
  show "entry_ok limit r" if "v + n \<noteq> me_vaddr e + me_size e"
    using that neq2 b f ve rs ro by (auto simp: r_def entry_ok_def fits_def)
  show "guest_span l = {unat (me_vaddr e) ..< unat v}" using ls b by (simp add: l_def span_of_def)
  show "guest_span r = {unat v + unat n ..< unat (me_vaddr e) + unat (me_size e)}"
    using ve rs b by (simp add: r_def span_of_def)
  show "backing_span l \<subseteq> backing_span e" using ls b by (auto simp: l_def span_of_def)
  show "backing_span r \<subseteq> backing_span e" using rs ro b by (auto simp: r_def span_of_def)
  show "backing_span l \<inter> backing_span r = {}" using ls ro b by (auto simp: l_def r_def span_of_def)
  show "a \<in> guest_span l \<Longrightarrow> entry_view l a = entry_view e a" by (simp add: l_def entry_view_def)
  show "a \<in> guest_span r \<Longrightarrow> entry_view r a = entry_view e a"
    using ve ro b by (auto simp: r_def entry_view_def span_of_def)
qed

lemma UnmapOne_found:
  assumes "om_upper v (bs_maps bs) = (xs @ [p], after)" and "\<not> me_vaddr (snd p) + me_size (snd p) < v + n"
    and "UnmapViewPreservePlaceholder ops v n h = (u, h')"
  shows "UnmapOne ops v n (bs, h) =
    (if \<not> u then Some (False, bs, h')
     else case MapsErase p (InvalidateMappingLookup bs) of
       None \<Rightarrow> None
     | Some b1 \<Rightarrow>
         (case emplace_rest (v \<noteq> me_vaddr (snd p)) ((snd p)\<lparr>me_size := v - me_vaddr (snd p)\<rparr>) b1 of
            None \<Rightarrow> None
          | Some b2 \<Rightarrow> map_option (\<lambda>b3. (True, b3, h'))
              (emplace_rest (v + n \<noteq> me_vaddr (snd p) + me_size (snd p))
                ((snd p)\<lparr>me_vaddr := v + n, me_size := me_vaddr (snd p) + me_size (snd p) - (v + n),
                   me_backing_offset := me_backing_offset (snd p) + (v + n - me_vaddr (snd p))\<rparr>) b2)))"
  unfolding UnmapOne_def Let_def prod.case assms(1,3) last_snoc if_not_P [OF assms(2)] by simp

lemma UnmapOne_spec:
  assumes ok: "bs_ok bs" and p: "p \<in> set (bs_maps bs)" and n: "0 < unat n" and sub: "span_of v n \<subseteq> guest_span (snd p)"
  obtains r bs' h' where "UnmapOne ops v n (bs, h) = Some (r, bs', h')" and "bs_ok bs'" and "same_store bs bs'"
    and "\<not> r \<longrightarrow> bs' = bs"
    and "r \<longrightarrow> (\<forall>a. view_at (bs_maps bs') a = (if a \<in> span_of v n then None else view_at (bs_maps bs) a)) \<and>
      set (bs_maps bs) \<subseteq> insert p (set (bs_maps bs'))"
proof -
  let ?e = "snd p" and ?i = "InvalidateMappingLookup bs"
  have ents: "entries_ok (unat (bs_size bs)) (bs_maps bs)" using ok by (simp add: bs_ok_def maps_ok_def)
  have e: "entry_ok (unat (bs_size bs)) ?e" using ents p by (auto simp: entries_ok_def)
  obtain before after where ba: "om_upper v (bs_maps bs) = (before, after)" by fastforce
  have ve: "unat v \<in> guest_span ?e" using n sub by (auto simp: span_of_def)
  then have "unat v \<in> viewed (bs_maps bs)" using p by (auto simp: viewed_iff)
  then obtain xs q where q: "before = xs @ [q]" "q \<in> set (bs_maps bs)" "unat v \<in> guest_span (snd q)"
    by (rule FindContaining_before [OF ents ba])
  have qp: "q = p" by (rule entry_unique [OF ents q(2) p q(3) ve])
  note R = remainders [OF e n sub]
  define l where "l = ?e\<lparr>me_size := v - me_vaddr ?e\<rparr>"
  define r where "r = ?e\<lparr>me_vaddr := v + n, me_size := me_vaddr ?e + me_size ?e - (v + n),
      me_backing_offset := me_backing_offset ?e + (v + n - me_vaddr ?e)\<rparr>"
  note R = R [folded l_def r_def]
  have "fits v n" using n sub e by (auto simp: entry_ok_def fits_def span_of_def)
  then have in_view: "\<not> me_vaddr ?e + me_size ?e < v + n"
    using n sub e by (auto simp: less_u64 unat_end entry_ok_def span_of_def)
  obtain um h' where um: "UnmapViewPreservePlaceholder ops v n h = (um, h')" by fastforce
  have "om_upper v (bs_maps bs) = (xs @ [p], after)" using ba q(1) qp by simp
  note run = UnmapOne_found [OF this in_view um, folded l_def r_def]
  show thesis
  proof (cases um)
    case False
    then have "UnmapOne ops v n (bs, h) = Some (False, bs, h')" unfolding run by (simp only: not_False_eq_True if_True)
    then show thesis by (rule that) (simp_all add: ok)
  next
    case True
    note i = InvalidateMappingLookup_spec [OF ok]
    obtain b1 ys zs where er: "MapsErase p ?i = Some b1" "maps_ok b1"
      "b1 = ?i\<lparr>bs_maps := bs_maps b1, bs_coverage := bs_coverage b1\<rparr>"
      "bs_maps ?i = ys @ p # zs" "bs_maps b1 = ys @ zs"
      by (rule MapsErase_spec [of ?i p]) (use i p in auto)
    have st1: "lookup_stale b1" "same_store bs b1"
      using stale_views [OF _ er(3)] same_store_views [OF er(3)] i by (auto simp: same_store_def)
    have apart: "guest_span ?e \<inter> viewed (bs_maps b1) = {}"
      using middle_apart(1) [of _ ys "fst p" ?e zs] ents er i by simp
    have size: "bs_size b1 = bs_size bs" using st1(2) by (simp add: same_store_def)
    have view1: "view_at (bs_maps bs) a = (if a \<in> guest_span ?e then Some (entry_view ?e a) else view_at (bs_maps b1) a)" for a
      using view_at_middle [of _ ys "fst p" ?e zs a] ents er i by (simp add: entry_view_def)
    have room: "cov 0 (bs_coverage b1) x < 2147483647" if "x \<in> backing_span ?e" for x
    proof -
      have "times_mapped (spans_of (bs_maps bs)) x = Suc (times_mapped (spans_of (bs_maps b1)) x)"
        using er(4,5) i that by (cases p) simp
      moreover have "maps_ok bs" "counts_ok (bs_coverage bs)" using ok by (simp_all add: bs_ok_def maps_ok_def)
      ultimately show ?thesis
        using cov_bound [of "bs_coverage bs" 0 x] cov_times [of bs x] cov_times [OF er(2), of x] by simp
    qed
    have pre1: "entry_ok (unat (bs_size b1)) l \<and> guest_span l \<inter> viewed (bs_maps b1) = {} \<and>
        (\<forall>x\<in>backing_span l. cov 0 (bs_coverage b1) x < 2147483647)" if ne: "v \<noteq> me_vaddr ?e"
    proof -
      have "guest_span l \<subseteq> guest_span ?e" using R(3) ve by (auto simp: span_of_def)
      then show ?thesis using R(1) [OF ne] R(5) apart room size by auto
    qed
    obtain b2 where b2: "emplace_rest (v \<noteq> me_vaddr ?e) l b1 = Some b2" "maps_ok b2" "lookup_stale b2" "same_store b1 b2"
      "\<forall>a. view_at (bs_maps b2) a = (if v \<noteq> me_vaddr ?e \<and> a \<in> guest_span l then Some (entry_view l a) else view_at (bs_maps b1) a)"
      "\<forall>x. x \<notin> backing_span l \<longrightarrow> cov 0 (bs_coverage b2) x = cov 0 (bs_coverage b1) x"
      "set (bs_maps b1) \<subseteq> set (bs_maps b2)"
      by (rule emplace_rest_spec [OF er(2) st1(1) pre1])
    have view2: "viewed (bs_maps b2) \<subseteq> viewed (bs_maps b1) \<union> guest_span l"
      using b2(5) by (auto simp: viewed_def split: if_splits)
    have pre2: "entry_ok (unat (bs_size b2)) r \<and> guest_span r \<inter> viewed (bs_maps b2) = {} \<and>
        (\<forall>x\<in>backing_span r. cov 0 (bs_coverage b2) x < 2147483647)" if ne: "v + n \<noteq> me_vaddr ?e + me_size ?e"
    proof -
      have "guest_span r \<subseteq> guest_span ?e" "guest_span r \<inter> guest_span l = {}"
        using R(3,4) ve by (auto simp: span_of_def)
      then have "guest_span r \<inter> viewed (bs_maps b2) = {}" using apart view2 by blast
      moreover have "cov 0 (bs_coverage b2) x < 2147483647" if "x \<in> backing_span r" for x
        using that R(6,7) room b2(6) by (metis disjoint_iff subsetD)
      ultimately show ?thesis using R(2) [OF ne] size b2(4) by (simp add: same_store_def)
    qed
    obtain b3 where b3: "emplace_rest (v + n \<noteq> me_vaddr ?e + me_size ?e) r b2 = Some b3" "maps_ok b3" "lookup_stale b3"
      "same_store b2 b3"
      "\<forall>a. view_at (bs_maps b3) a = (if v + n \<noteq> me_vaddr ?e + me_size ?e \<and> a \<in> guest_span r then Some (entry_view r a)
         else view_at (bs_maps b2) a)"
      "set (bs_maps b2) \<subseteq> set (bs_maps b3)"
      by (rule emplace_rest_spec [OF b2(2,3) pre2])
    have "UnmapOne ops v n (bs, h) = Some (True, b3, h')"
      unfolding run using True by (simp only: not_True_eq_False if_False er(1) b2(1) b3(1) option.case option.map)
    moreover have "view_at (bs_maps b3) a = (if a \<in> span_of v n then None else view_at (bs_maps bs) a)" for a
    proof -
      have out: "a \<in> guest_span ?e \<Longrightarrow> view_at (bs_maps b1) a = None"
        using apart by (auto simp: viewed_def)
      have "a \<in> guest_span l \<Longrightarrow> v \<noteq> me_vaddr ?e" "a \<in> guest_span r \<Longrightarrow> v + n \<noteq> me_vaddr ?e + me_size ?e"
        using R(3,4,10,11) by auto
      moreover have "a \<in> guest_span ?e \<longleftrightarrow> a \<in> guest_span l \<or> a \<in> span_of v n \<or> a \<in> guest_span r"
        "\<not> (a \<in> guest_span l \<and> a \<in> span_of v n)" "\<not> (a \<in> guest_span r \<and> a \<in> span_of v n)"
        "\<not> (a \<in> guest_span l \<and> a \<in> guest_span r)"
        using sub n unfolding R(3,4) by (auto simp: span_of_def)
      ultimately show ?thesis
        unfolding b3(5) [rule_format] b2(5) [rule_format] view1 using out R(8) [of a] R(9) [of a]
        by (cases "a \<in> guest_span l"; cases "a \<in> guest_span r"; cases "a \<in> span_of v n") simp_all
    qed
    moreover have "set (bs_maps bs) \<subseteq> insert p (set (bs_maps b3))"
      using er(4,5) i b2(7) b3(6) by auto
    ultimately show thesis
      using that b3(2,3) same_store_trans [OF st1(2) same_store_trans [OF b2(4) b3(4)]] bs_ok_stale by blast
  qed
qed

end
