(* ===== verification/BackingProps.thy ===== *)
theory BackingProps
  imports BackingViews Runs
begin

text \<open>
  The operations of the backing store: mapping and unmapping change the views exactly as asked, or
  not at all; the test for aliases is exact and agrees with the rebuilt intervals; a cached
  translation is the current one; bytes written to a range without aliases are read back.
\<close>

subsection \<open>Mapping\<close>

lemma RangeOk_fits:
  "RangeOk off n bs \<longleftrightarrow> 0 < unat n \<and> fits off n \<and> unat off + unat n \<le> unat (bs_size bs)"
proof -
  have "off < bs_size bs \<Longrightarrow> unat (bs_size bs - off) = unat (bs_size bs) - unat off"
    by (simp add: unat_minus_u64 less_u64)
  then show ?thesis
    using unat_u64_lt [of "bs_size bs"] by (auto simp: RangeOk_def fits_def less_u64 le_u64 neq0_u64)
qed

lemma MapExisting_spec:
  assumes ok: "bs_ok bs" and n: "0 < unat n" "fits v n" and free: "span_of v n \<inter> viewed (bs_maps bs) = {}"
    and m: "MapExistingPlaceholderFixed ops v n off mode (bs, h) = Some (r, bs', h')"
  shows "(r \<noteq> NoFailure \<and> bs' = bs) \<or>
    (r = NoFailure \<and> bs_ok bs' \<and> same_store bs bs' \<and> RangeOk off n bs \<and>
     (\<forall>a. view_at (bs_maps bs') a = (if a \<in> span_of v n then Some (unat off + (a - unat v)) else view_at (bs_maps bs) a)))"
proof -
  note i = InvalidateMappingLookup_spec [OF ok]
  let ?e = "\<lparr>me_vaddr = v, me_size = n, me_backing_offset = off, me_mode = mode\<rparr>"
  consider "r \<noteq> NoFailure" "bs' = bs"
    | "r = NoFailure" "RangeOk off n bs" "MapsEmplace ?e (InvalidateMappingLookup bs) = Some (True, bs')"
    using m by (auto simp: MapExistingPlaceholderFixed_def split: prod.splits if_splits option.splits bool.splits)
  then show ?thesis
  proof cases
    case 2
    have e: "entry_ok (unat (bs_size (InvalidateMappingLookup bs))) ?e"
      using 2(2) n i by (simp add: entry_ok_def RangeOk_fits)
    have fr: "guest_span ?e \<inter> viewed (bs_maps (InvalidateMappingLookup bs)) = {}" using free i by simp
    note s = MapsEmplace_spec [OF _ e fr 2(3)]
    have s1: "maps_ok bs'" and s2: "bs' = (InvalidateMappingLookup bs)\<lparr>bs_maps := bs_maps bs', bs_coverage := bs_coverage bs'\<rparr>"
      and s3: "view_at (bs_maps bs') a = (if a \<in> span_of v n then Some (unat off + (a - unat v)) else view_at (bs_maps bs) a)" for a
      using s i by auto
    have "bs_ok bs'" using bs_ok_stale [OF s1 stale_views [OF _ s2]] i by simp
    moreover have "same_store bs bs'" using same_store_views [OF s2] i by (auto simp: same_store_def)
    ultimately show ?thesis using 2 s3 by blast
  qed simp
qed

subsection \<open>Unmapping a range\<close>

text \<open>Targets: non-empty pieces of the views, in order, no two of one view.\<close>

fun targets_ok :: "map_entry omap \<Rightarrow> map_entry list \<Rightarrow> bool" where
  "targets_ok m [] = True"
| "targets_ok m (t # ts) \<longleftrightarrow> 0 < unat (me_size t) \<and> fits (me_vaddr t) (me_size t) \<and>
     (\<forall>a\<in>guest_span t. view_at m a = Some (entry_view t a)) \<and>
     (\<exists>p\<in>set m. guest_span t \<subseteq> guest_span (snd p) \<and> (\<forall>s\<in>set ts. vhi p \<le> unat (me_vaddr s))) \<and>
     targets_ok m ts"

definition covered_by :: "map_entry list \<Rightarrow> nat set" where
  "covered_by ts = (\<Union>t\<in>set ts. guest_span t)"

lemma covered_by_simps [simp]:
  "covered_by [] = {}" "covered_by (t # ts) = guest_span t \<union> covered_by ts"
  "covered_by (xs @ ys) = covered_by xs \<union> covered_by ys" "covered_by (rev xs) = covered_by xs"
  by (auto simp: covered_by_def)

lemma entry_piece:
  assumes ok: "entries_ok limit m" and p: "(k, e) \<in> set m" and c: "unat (me_vaddr e) \<le> unat c"
    and cf: "unat c < unat f" "unat f \<le> unat (me_vaddr e) + unat (me_size e)"
  defines "t \<equiv> e\<lparr>me_vaddr := c, me_size := f - c, me_backing_offset := me_backing_offset e + c - me_vaddr e\<rparr>"
  shows "guest_span t = {unat c ..< unat f}" and "fits (me_vaddr t) (me_size t)" and "0 < unat (me_size t)"
    and "a \<in> guest_span t \<Longrightarrow> view_at m a = Some (entry_view t a)" and "guest_span t \<subseteq> guest_span e"
    and "unat (me_backing_offset t) = unat (me_backing_offset e) + (unat c - unat (me_vaddr e))"
proof -
  have e: "entry_ok limit e" using ok p by (auto simp: entries_ok_def)
  have sz: "unat (f - c) = unat f - unat c" using cf by (simp add: unat_minus_u64)
  have d: "unat (c - me_vaddr e) = unat c - unat (me_vaddr e)" using c by (simp add: unat_minus_u64)
  have o: "unat (me_backing_offset e + c - me_vaddr e) = unat (me_backing_offset e) + (unat c - unat (me_vaddr e))"
    unfolding add_diff_eq [symmetric]
    using e cf c d by (subst unat_plus_u64) (auto simp: entry_ok_def fits_def)
  show g: "guest_span t = {unat c ..< unat f}" using sz cf by (simp add: t_def span_of_def)
  show "fits (me_vaddr t) (me_size t)" using sz cf unat_u64_lt [of f] by (simp add: t_def fits_def)
  show "0 < unat (me_size t)" using sz cf by (simp add: t_def)
  show sub: "guest_span t \<subseteq> guest_span e" unfolding g using c cf by (auto simp: span_of_def)
  show "unat (me_backing_offset t) = unat (me_backing_offset e) + (unat c - unat (me_vaddr e))" using o by (simp add: t_def)
  show "view_at m a = Some (entry_view t a)" if "a \<in> guest_span t"
    using view_at_entry [OF ok p, of a] that sub g o c by (auto simp: t_def entry_view_def)
qed

text \<open>One step of every walk: the view found, and how far it reaches.\<close>

lemma walk_step:
  assumes ok: "entries_ok (unat (bs_size bs)) (bs_maps bs)" and lt: "unat current < unat finish"
  obtains "Backing_FindContaining current 1 bs = None" and "unat current \<notin> viewed (bs_maps bs)"
    | e where "Backing_FindContaining current 1 bs = Some e" and "(me_vaddr e, e) \<in> set (bs_maps bs)"
      and "unat current \<in> guest_span e"
      and "unat (min finish (me_vaddr e + me_size e)) = min (unat finish) (unat (me_vaddr e) + unat (me_size e))"
      and "unat current < unat (min finish (me_vaddr e + me_size e))"
      and "current + (min finish (me_vaddr e + me_size e) - current) = min finish (me_vaddr e + me_size e)"
proof (cases "Backing_FindContaining current 1 bs")
  case None
  have f: "fits current 1" using lt unat_u64_lt [of finish] by (simp add: fits_def)
  have "unat current \<notin> viewed (bs_maps bs)"
  proof
    assume "unat current \<in> viewed (bs_maps bs)"
    then obtain p where "p \<in> set (bs_maps bs)" "unat current \<in> guest_span (snd p)" by (auto simp: viewed_iff)
    then have "Backing_FindContaining current 1 bs = Some (snd p)"
      unfolding Backing_FindContaining_Some [OF ok] using f by (auto simp: span_of_def)
    then show False using None by simp
  qed
  then show thesis using that None by blast
next
  case (Some e)
  then obtain p where p: "p \<in> set (bs_maps bs)" "snd p = e" "span_of current 1 \<subseteq> guest_span e"
    unfolding Backing_FindContaining_Some [OF ok] by blast
  then have e: "entry_ok (unat (bs_size bs)) e" "fst p = me_vaddr e" using ok by (auto simp: entries_ok_def)
  have c: "unat current \<in> guest_span e" using p(3) by (simp add: span_of_def)
  have m: "unat (min finish (me_vaddr e + me_size e)) = min (unat finish) (unat (me_vaddr e) + unat (me_size e))"
    using e by (simp add: unat_min_u64 unat_end entry_ok_def)
  then have l: "unat current < unat (min finish (me_vaddr e + me_size e))" using c lt by (simp add: span_of_def)
  have "(me_vaddr e, e) \<in> set (bs_maps bs)" using p(1,2) e(2) by (metis prod.collapse)
  then show thesis using that(2) [OF Some _ c m l] by simp
qed

lemma unmap_targets_spec:
  assumes ok: "entries_ok (unat (bs_size bs)) (bs_maps bs)" and "unat current \<le> unat finish"
  shows "case unmap_targets bs finish current acc of
      None \<Rightarrow> \<not> {unat current ..< unat finish} \<subseteq> viewed (bs_maps bs)
    | Some ts \<Rightarrow> \<exists>new. ts = acc @ new \<and> targets_ok (bs_maps bs) new \<and> covered_by new = {unat current ..< unat finish} \<and>
        (\<forall>t\<in>set new. unat current \<le> unat (me_vaddr t))"
  using assms
proof (induction bs finish current acc rule: unmap_targets.induct)
  case (1 bs finish current acc)
  note eq = unmap_targets.simps [of bs finish current acc]
  show ?case
  proof (cases "current < finish")
    case False
    then show ?thesis using "1.prems" unfolding eq by (simp add: less_u64)
  next
    case True
    then have lt: "unat current < unat finish" by (simp add: less_u64)
    show ?thesis
    proof (cases rule: walk_step [OF "1.prems"(1) lt])
      case 1
      then show ?thesis using True lt unfolding eq by auto
    next
      case (2 e)
      let ?f = "min finish (me_vaddr e + me_size e)"
      let ?t = "e\<lparr>me_vaddr := current, me_size := ?f - current,
                  me_backing_offset := me_backing_offset e + current - me_vaddr e\<rparr>"
      have b: "unat (me_vaddr e) \<le> unat current" "unat ?f \<le> unat (me_vaddr e) + unat (me_size e)" "unat ?f \<le> unat finish"
        using 2(3,4) by (auto simp: span_of_def)
      note t = entry_piece [OF "1.prems"(1) 2(2) b(1) 2(5) b(2)]
      have run: "unmap_targets bs finish current acc = unmap_targets bs finish ?f (acc @ [?t])"
        using True 2(1,6) unfolding eq by (simp add: Let_def)
      have ih: "case unmap_targets bs finish ?f (acc @ [?t]) of
          None \<Rightarrow> \<not> {unat ?f ..< unat finish} \<subseteq> viewed (bs_maps bs)
        | Some ts \<Rightarrow> \<exists>new. ts = (acc @ [?t]) @ new \<and> targets_ok (bs_maps bs) new \<and>
            covered_by new = {unat ?f ..< unat finish} \<and> (\<forall>t\<in>set new. unat ?f \<le> unat (me_vaddr t))"
        by (rule "1.IH" [OF True 2(1) refl "1.prems"(1), unfolded 2(6), OF b(3)])
      show ?thesis
      proof (cases "unmap_targets bs finish ?f (acc @ [?t])")
        case None
        then have "\<not> {unat ?f ..< unat finish} \<subseteq> viewed (bs_maps bs)" using ih by simp
        moreover have "{unat ?f ..< unat finish} \<subseteq> {unat current ..< unat finish}" using 2(5) by auto
        ultimately have "\<not> {unat current ..< unat finish} \<subseteq> viewed (bs_maps bs)" by blast
        then show ?thesis unfolding run None by simp
      next
        case (Some ts)
        then obtain new where new: "ts = acc @ ?t # new" "targets_ok (bs_maps bs) new"
          "covered_by new = {unat ?f ..< unat finish}" "\<forall>t\<in>set new. unat ?f \<le> unat (me_vaddr t)"
          using ih by auto
        have cap: "new = [] \<or> unat ?f = unat (me_vaddr e) + unat (me_size e)"
        proof (cases "unat ?f = unat finish")
          case True
          then have "covered_by new = {}" using new(3) by simp
          then show ?thesis using new(2) by (cases new) (auto simp: span_of_def)
        qed (use 2(4) in auto)
        then have "\<forall>s\<in>set new. vhi (me_vaddr e, e) \<le> unat (me_vaddr s)" using new(4) by auto
        then have "targets_ok (bs_maps bs) (?t # new)"
          using t 2(2) new(2) by (auto intro!: bexI [of _ "(me_vaddr e, e)"])
        moreover have "covered_by (?t # new) = {unat current ..< unat finish}"
          using new(3) t(1) 2(5) b(3) by auto
        moreover have "\<forall>t\<in>set (?t # new). unat current \<le> unat (me_vaddr t)" using new(4) 2(5) by auto
        ultimately show ?thesis unfolding run Some new(1) by auto
      qed
    qed
  qed
qed


lemma targets_ok_starts:
  assumes "targets_ok m ts" and "t \<in> set ts"
  shows "0 < unat (me_size t) \<and> fits (me_vaddr t) (me_size t) \<and> (\<forall>a\<in>guest_span t. view_at m a = Some (entry_view t a))"
  using assms by (induction ts) auto

text \<open>After the first target's view is cut, the others are as they were.\<close>

lemma targets_ok_step:
  assumes ok: "entries_ok limit m" and "targets_ok m ts" and p: "p \<in> set m"
    and beyond: "\<forall>s\<in>set ts. vhi p \<le> unat (me_vaddr s)" and keep: "set m \<subseteq> insert p (set m')"
    and same: "\<forall>a. vhi p \<le> a \<longrightarrow> view_at m' a = view_at m a"
  shows "targets_ok m' ts"
  using assms(2,4)
proof (induction ts)
  case (Cons t ts)
  obtain q where q: "q \<in> set m" "guest_span t \<subseteq> guest_span (snd q)" "\<forall>s\<in>set ts. vhi q \<le> unat (me_vaddr s)"
    using Cons.prems(1) by auto
  have t: "unat (me_vaddr t) \<in> guest_span t" using Cons.prems(1) by (simp add: span_of_def)
  have far: "\<forall>a\<in>guest_span t. vhi p \<le> a" using Cons.prems(2) by (auto simp: span_of_def)
  have "q \<noteq> p" using t q(2) far by (force simp: span_of_def)
  then have "q \<in> set m'" using keep q(1) by blast
  then show ?case using Cons q far same by auto
qed simp

text \<open>Views that were unmapped and are mapped again.\<close>

lemma remap_all_spec:
  assumes "bs_ok bs" and "sorted_wrt (\<lambda>s t. guest_span s \<inter> guest_span t = {}) ts"
    and "\<forall>t\<in>set ts. 0 < unat (me_size t) \<and> fits (me_vaddr t) (me_size t) \<and> guest_span t \<inter> viewed (bs_maps bs) = {} \<and>
      (\<forall>a\<in>guest_span t. f a = Some (entry_view t a))"
    and "remap_all ops ts (bs, views, h) = Some (bs', views', h')"
  shows "bs_ok bs' \<and> same_store bs bs' \<and>
    (\<forall>a. view_at (bs_maps bs') a = (if a \<in> covered_by ts then f a else view_at (bs_maps bs) a))"
  using assms
proof (induction ts arbitrary: bs views h)
  case (Cons t ts)
  obtain b1 h1 where m: "MapExistingPlaceholderFixed ops (me_vaddr t) (me_size t) (me_backing_offset t) (me_mode t) (bs, h) =
      Some (NoFailure, b1, h1)" and rest: "remap_all ops ts (b1, views @ [(me_vaddr t, me_size t)], h1) = Some (bs', views', h')"
    using Cons.prems(4) by (auto split: option.splits prod.splits failure_reason.splits)
  have t: "0 < unat (me_size t)" "fits (me_vaddr t) (me_size t)" "guest_span t \<inter> viewed (bs_maps bs) = {}"
    "\<forall>a\<in>guest_span t. f a = Some (entry_view t a)" using Cons.prems(3) by auto
  have b1: "bs_ok b1" "same_store bs b1"
    "\<forall>a. view_at (bs_maps b1) a = (if a \<in> guest_span t then Some (entry_view t a) else view_at (bs_maps bs) a)"
    using MapExisting_spec [OF Cons.prems(1) t(1-3) m] by (auto simp: entry_view_def)
  have "viewed (bs_maps b1) = viewed (bs_maps bs) \<union> guest_span t" using b1(3) by (auto simp: viewed_def)
  moreover have apart: "\<forall>s\<in>set ts. guest_span t \<inter> guest_span s = {}" using Cons.prems(2) by simp
  ultimately have pre: "\<forall>s\<in>set ts. 0 < unat (me_size s) \<and> fits (me_vaddr s) (me_size s) \<and>
      guest_span s \<inter> viewed (bs_maps b1) = {} \<and> (\<forall>a\<in>guest_span s. f a = Some (entry_view s a))"
    using Cons.prems(3) by auto
  have "guest_span t \<inter> covered_by ts = {}" using apart by (auto simp: covered_by_def)
  then show ?case
    using Cons.IH [OF b1(1) _ pre rest] Cons.prems(2) b1(2,3) t(4) same_store_trans by auto
qed simp


text \<open>
  The unmap loop, with \<open>f\<close> the views before it: what was removed so far is gone, and comes back on
  a failure.
\<close>

lemma unmap_each_spec:
  assumes "bs_ok bs" and "targets_ok (bs_maps bs) ts"
    and "sorted_wrt (\<lambda>s t. guest_span s \<inter> guest_span t = {}) removed"
    and "\<forall>t\<in>set removed. 0 < unat (me_size t) \<and> fits (me_vaddr t) (me_size t) \<and> (\<forall>a\<in>guest_span t. f a = Some (entry_view t a))"
    and "\<forall>a. view_at (bs_maps bs) a = (if a \<in> covered_by removed then None else f a)"
    and "covered_by removed \<inter> covered_by ts = {}"
    and "unmap_each ops removed ts (bs, views, h) = Some (r, bs', views', h')"
  shows "bs_ok bs' \<and> same_store bs bs' \<and>
    (\<forall>a. view_at (bs_maps bs') a = (if r \<and> a \<in> covered_by (removed @ ts) then None else f a))"
  using assms
proof (induction ts arbitrary: removed bs views h)
  case Nil
  then show ?case by simp
next
  case (Cons t ts)
  obtain p where p: "p \<in> set (bs_maps bs)" "guest_span t \<subseteq> guest_span (snd p)" "\<forall>s\<in>set ts. vhi p \<le> unat (me_vaddr s)"
    and t: "0 < unat (me_size t)" "fits (me_vaddr t) (me_size t)" "\<forall>a\<in>guest_span t. view_at (bs_maps bs) a = Some (entry_view t a)"
    and ts: "targets_ok (bs_maps bs) ts"
    using Cons.prems(2) by auto
  have ents: "entries_ok (unat (bs_size bs)) (bs_maps bs)" using Cons.prems(1) by (simp add: bs_ok_def maps_ok_def)
  obtain u b1 h1 where one: "UnmapOne ops (me_vaddr t) (me_size t) (bs, h) = Some (u, b1, h1)" "bs_ok b1" "same_store bs b1"
    "\<not> u \<longrightarrow> b1 = bs"
    "u \<longrightarrow> (\<forall>a. view_at (bs_maps b1) a = (if a \<in> guest_span t then None else view_at (bs_maps bs) a)) \<and>
      set (bs_maps bs) \<subseteq> insert p (set (bs_maps b1))"
    by (rule UnmapOne_spec [OF Cons.prems(1) p(1) t(1) p(2), where ops = ops and h = h])
  have "guest_span t \<inter> covered_by removed = {}" using Cons.prems(6) by auto
  then have tf: "\<forall>a\<in>guest_span t. f a = Some (entry_view t a)" "\<forall>s\<in>set removed. guest_span s \<inter> guest_span t = {}"
    using t(3) Cons.prems(5) by (force split: if_splits) (use \<open>guest_span t \<inter> covered_by removed = {}\<close> in \<open>auto simp: covered_by_def\<close>)
  show ?case
  proof (cases u)
    case False
    then have fl: "remap_all ops (rev removed) (bs, views, h1) = Some (bs', views', h')" "\<not> r"
      using Cons.prems(7) one(1,4) by auto
    have "bs_ok bs' \<and> same_store bs bs' \<and>
        (\<forall>a. view_at (bs_maps bs') a = (if a \<in> covered_by (rev removed) then f a else view_at (bs_maps bs) a))"
    proof (rule remap_all_spec [OF Cons.prems(1) _ _ fl(1)])
      show "sorted_wrt (\<lambda>s t. guest_span s \<inter> guest_span t = {}) (rev removed)"
        using Cons.prems(3) by (simp add: sorted_wrt_rev Int_commute)
      have "guest_span t \<inter> viewed (bs_maps bs) = {}" if "t \<in> set removed" for t
        using that Cons.prems(5) by (auto simp: viewed_def covered_by_def)
      then show "\<forall>t\<in>set (rev removed). 0 < unat (me_size t) \<and> fits (me_vaddr t) (me_size t) \<and>
          guest_span t \<inter> viewed (bs_maps bs) = {} \<and> (\<forall>a\<in>guest_span t. f a = Some (entry_view t a))"
        using Cons.prems(4) by simp
    qed
    then show ?thesis using Cons.prems(5) fl(2) by simp
  next
    case True
    then have run: "unmap_each ops (removed @ [t]) ts (b1, views, h1) = Some (r, bs', views', h')"
      using Cons.prems(7) one(1) by simp
    have far: "vhi p \<le> a \<Longrightarrow> a \<notin> guest_span t" for a using p(2) by (force simp: span_of_def)
    have "bs_ok bs' \<and> same_store b1 bs' \<and>
        (\<forall>a. view_at (bs_maps bs') a = (if r \<and> a \<in> covered_by ((removed @ [t]) @ ts) then None else f a))"
    proof (rule Cons.IH [OF one(2) _ _ _ _ _ run])
      show "targets_ok (bs_maps b1) ts"
        by (rule targets_ok_step [OF ents ts p(1,3)]) (use one(5) True far in auto)
      show "sorted_wrt (\<lambda>s t. guest_span s \<inter> guest_span t = {}) (removed @ [t])"
        using Cons.prems(3) tf(2) by (simp add: sorted_wrt_append)
      show "\<forall>a. view_at (bs_maps b1) a = (if a \<in> covered_by (removed @ [t]) then None else f a)"
        using one(5) True Cons.prems(5) by auto
      have "guest_span t \<inter> covered_by ts = {}"
        using far p(3) by (fastforce simp: covered_by_def span_of_def)
      then show "covered_by (removed @ [t]) \<inter> covered_by ts = {}" using Cons.prems(6) by auto
    qed (use Cons.prems(4) t tf in auto)
    then show ?thesis using same_store_trans [OF one(3)] by simp
  qed
qed

lemma Backing_Unmap_spec:
  assumes ok: "bs_ok bs" and u: "Backing_Unmap ops v n (bs, views, h) = Some (r, bs', views', h')"
  shows "bs_ok bs' \<and> same_store bs bs' \<and> (r \<longrightarrow> 0 < unat n \<and> fits v n \<and> span_of v n \<subseteq> viewed (bs_maps bs)) \<and>
    (\<forall>a. view_at (bs_maps bs') a = (if r \<and> a \<in> span_of v n then None else view_at (bs_maps bs) a))"
proof (cases "n = 0 \<or> u64_max - v < n \<or> unmap_targets bs (v + n) v [] = None")
  case True
  then have "Backing_Unmap ops v n (bs, views, h) = Some (False, bs, views, h)"
    unfolding Backing_Unmap_def by (auto simp only: fst_conv option.case split: if_splits)
  then show ?thesis using u ok by simp
next
  case False
  then have n: "0 < unat n" "fits v n" using no_wrap neq0_u64 by auto
  have e: "unat (v + n) = unat v + unat n" by (rule unat_end [OF n(2)])
  have ents: "entries_ok (unat (bs_size bs)) (bs_maps bs)" using ok by (simp add: bs_ok_def maps_ok_def)
  obtain ts where ts: "unmap_targets bs (v + n) v [] = Some ts" "targets_ok (bs_maps bs) ts" "covered_by ts = span_of v n"
    using False unmap_targets_spec [OF ents, of v "v + n" "[]"] e by (auto simp: span_of_def)
  have "unmap_each ops [] ts (bs, views, h) = Some (r, bs', views', h')"
    using u False ts(1) by (simp add: Backing_Unmap_def)
  then have "bs_ok bs' \<and> same_store bs bs' \<and>
      (\<forall>a. view_at (bs_maps bs') a = (if r \<and> a \<in> covered_by ([] @ ts) then None else view_at (bs_maps bs) a))"
    by (rule unmap_each_spec [OF ok ts(2), where f = "view_at (bs_maps bs)", rotated -1]) simp_all
  moreover have "span_of v n \<subseteq> viewed (bs_maps bs)"
    unfolding ts(3) [symmetric] using targets_ok_starts [OF ts(2)] by (auto simp: covered_by_def viewed_def)
  ultimately show ?thesis using n ts(3) by simp
qed

end
