(* ===== verification/BackingData.thy ===== *)
theory BackingData
  imports BackingProps
begin

text \<open>
  The bytes of the backing store seen through its views. \<open>guest_byte\<close> is the byte a guest address
  stands for; the transfers, cut at the borders of the views or not, move exactly these bytes.
\<close>

subsection \<open>The two passes of a transfer\<close>

abbreviation view_ok :: "backing_store \<Rightarrow> bool" where
  "view_ok bs \<equiv> entries_ok (unat (bs_size bs)) (bs_maps bs)"

lemma piece_in_backing:
  assumes ok: "view_ok bs" and p: "(k, e) \<in> set (bs_maps bs)" and c: "unat (me_vaddr e) \<le> unat c"
    and cf: "unat c < unat f" "unat f \<le> unat (me_vaddr e) + unat (me_size e)"
  shows "RangeOk (me_backing_offset e + c - me_vaddr e) (f - c) bs"
    and "unat c \<le> a \<Longrightarrow> a < unat f \<Longrightarrow>
      view_at (bs_maps bs) a = Some (unat (me_backing_offset e + c - me_vaddr e) + (a - unat c))"
    and "unat (f - c) = unat f - unat c"
proof -
  note t = entry_piece [OF ok p c cf]
  have e: "entry_ok (unat (bs_size bs)) e" using ok p by (auto simp: entries_ok_def)
  show sz: "unat (f - c) = unat f - unat c" using cf by (simp add: unat_minus_u64)
  have o: "unat (me_backing_offset e + c - me_vaddr e) = unat (me_backing_offset e) + (unat c - unat (me_vaddr e))"
    using t(6) by simp
  have "unat (me_backing_offset e + c - me_vaddr e) + unat (f - c) \<le> unat (bs_size bs)"
    using o sz e c cf by (auto simp: entry_ok_def)
  then show "RangeOk (me_backing_offset e + c - me_vaddr e) (f - c) bs"
    using sz cf unat_u64_lt [of "bs_size bs"] by (auto simp: RangeOk_fits fits_def)
  show "view_at (bs_maps bs) a = Some (unat (me_backing_offset e + c - me_vaddr e) + (a - unat c))"
    if "unat c \<le> a" "a < unat f"
    using t(4) [of a] that t(1) by (auto simp: entry_view_def)
qed

lemma transfer_check_spec:
  assumes "view_ok bs" and "unat current \<le> unat finish"
  shows "transfer_check bs finish current \<longleftrightarrow> {unat current ..< unat finish} \<subseteq> viewed (bs_maps bs)"
  using assms
proof (induction bs finish current rule: transfer_check.induct)
  case (1 bs finish current)
  note eq = transfer_check.simps [of bs finish current]
  show ?case
  proof (cases "current < finish")
    case False
    then show ?thesis using "1.prems" unfolding eq by (simp add: less_u64)
  next
    case True
    then have lt: "unat current < unat finish" by (simp add: less_u64)
    show ?thesis
    proof (cases rule: walk_step [OF "1.prems"(1) lt])
      case 1
      then show ?thesis using True lt unfolding eq by auto
    next
      case (2 e)
      let ?f = "min finish (me_vaddr e + me_size e)"
      have b: "unat (me_vaddr e) \<le> unat current" "unat ?f \<le> unat (me_vaddr e) + unat (me_size e)" "unat ?f \<le> unat finish"
        using 2(3,4) by (auto simp: span_of_def)
      note t = piece_in_backing [OF "1.prems"(1) 2(2) b(1) 2(5) b(2)]
      have run: "transfer_check bs finish current = transfer_check bs finish ?f"
        using True 2(1) t(1) unfolding eq by (simp only: if_True option.case Let_def simp_thms if_False 2(6))
      have ih: "transfer_check bs finish ?f \<longleftrightarrow> {unat ?f ..< unat finish} \<subseteq> viewed (bs_maps bs)"
        by (rule "1.IH" [OF True 2(1) refl _ "1.prems"(1), unfolded 2(6), OF _ b(3)]) (simp add: t(1))
      have "{unat current ..< unat ?f} \<subseteq> viewed (bs_maps bs)" using t(2) by (auto simp: viewed_def)
      moreover have "{unat current ..< unat finish} = {unat current ..< unat ?f} \<union> {unat ?f ..< unat finish}"
        using 2(5) b(3) by auto
      ultimately show ?thesis unfolding run ih by blast
    qed
  qed
qed

text \<open>
  The second pass keeps what every piece keeps: \<open>I\<close> at a position says what has been moved up to it.
\<close>

lemma transfer_loop_inv:
  assumes "view_ok bs" and "unat current \<le> unat finish" and "{unat current ..< unat finish} \<subseteq> viewed (bs_maps bs)"
    and "unat v \<le> unat current" and "I (unat current) s"
    and step: "\<And>c f off s. unat v \<le> unat c \<Longrightarrow> unat c < unat f \<Longrightarrow> unat f \<le> unat finish \<Longrightarrow>
      \<forall>a. unat c \<le> a \<and> a < unat f \<longrightarrow> view_at (bs_maps bs) a = Some (unat off + (a - unat c)) \<Longrightarrow>
      I (unat c) s \<Longrightarrow> I (unat f) (transfer off (c - v) (f - c) s)"
  shows "\<exists>s'. transfer_loop transfer bs v finish current s = Some s' \<and> I (unat finish) s'"
  using assms
proof (induction transfer bs v finish current s rule: transfer_loop.induct)
  case (1 transfer bs v finish current s)
  note eq = transfer_loop.simps [of transfer bs v finish current s]
  show ?case
  proof (cases "current < finish")
    case False
    then have "unat current = unat finish" using "1.prems"(2) by (simp add: less_u64)
    then show ?thesis using "1.prems"(5) False unfolding eq by simp
  next
    case True
    then have lt: "unat current < unat finish" by (simp add: less_u64)
    show ?thesis
    proof (cases rule: walk_step [OF "1.prems"(1) lt])
      case 1
      then show ?thesis using "1.prems"(3) lt by auto
    next
      case (2 e)
      let ?f = "min finish (me_vaddr e + me_size e)" and ?off = "me_backing_offset e + current - me_vaddr e"
      let ?s = "transfer ?off (current - v) (?f - current) s"
      have b: "unat (me_vaddr e) \<le> unat current" "unat ?f \<le> unat (me_vaddr e) + unat (me_size e)" "unat ?f \<le> unat finish"
        using 2(3,4) by (auto simp: span_of_def)
      note t = piece_in_backing [OF "1.prems"(1) 2(2) b(1) 2(5) b(2)]
      have "I (unat ?f) ?s"
        by (rule "1.prems"(6) [OF "1.prems"(4) 2(5) b(3) _ "1.prems"(5)]) (use t(2) in blast)
      moreover have "{unat ?f ..< unat finish} \<subseteq> viewed (bs_maps bs)" using "1.prems"(3) 2(5) by auto
      moreover have "unat v \<le> unat ?f" using "1.prems"(4) 2(5) by simp
      ultimately have "\<exists>s'. transfer_loop transfer bs v finish ?f ?s = Some s' \<and> I (unat finish) s'"
        using "1.IH" [OF True 2(1) refl refl "1.prems"(1), unfolded 2(6), OF b(3)] "1.prems"(6) by blast
      then show ?thesis unfolding eq using True by (simp only: if_True 2(1) option.case Let_def 2(6))
    qed
  qed
qed


text \<open>A transfer of a mapped range, in one piece or in several, keeps what each piece keeps.\<close>

lemma transfer_inv:
  assumes ok: "view_ok bs" and av: "bs_available bs" and n: "0 < unat n" "fits v n" and sub: "span_of v n \<subseteq> viewed (bs_maps bs)"
    and init: "I (unat v) s"
    and step: "\<And>c f off s. unat v \<le> unat c \<Longrightarrow> unat c < unat f \<Longrightarrow> unat f \<le> unat v + unat n \<Longrightarrow>
      \<forall>a. unat c \<le> a \<and> a < unat f \<longrightarrow> view_at (bs_maps bs) a = Some (unat off + (a - unat c)) \<Longrightarrow>
      I (unat c) s \<Longrightarrow> I (unat f) (transfer off (c - v) (f - c) s)"
  obtains s' where "TryTransferBacking single transfer v n bs s = Some (True, s')" and "I (unat v + unat n) s'"
proof -
  have e: "unat (v + n) = unat v + unat n" by (rule unat_end [OF n(2)])
  have guard: "\<not> (\<not> bs_available bs \<or> n = 0 \<or> u64_max - v < n)" using av n neq0_u64 no_wrap by blast
  show thesis
  proof (cases "if single then Backing_FindContaining v n bs else None")
    case None
    have "transfer_check bs (v + n) v" using transfer_check_spec [OF ok, of v "v + n"] sub e by (simp add: span_of_def)
    moreover obtain s' where "transfer_loop transfer bs v (v + n) v s = Some s'" "I (unat (v + n)) s'"
      using transfer_loop_inv [OF ok, of v "v + n" v I s transfer] init step sub e by (auto simp: span_of_def)
    ultimately show thesis
      using that guard None e unfolding TryTransferBacking_def TransferBackingUnlocked_def by simp
  next
    case (Some w)
    then have w: "Backing_FindContaining v n bs = Some w" by (simp split: if_splits)
    then obtain p where p: "p \<in> set (bs_maps bs)" "snd p = w" "span_of v n \<subseteq> guest_span w"
      unfolding Backing_FindContaining_Some [OF ok] by blast
    have b: "unat (me_vaddr w) \<le> unat v" "unat (v + n) \<le> unat (me_vaddr w) + unat (me_size w)" "unat v < unat (v + n)"
      using p(3) n e by (auto simp: span_of_def)
    have pw: "(fst p, w) \<in> set (bs_maps bs)" using p by (metis prod.collapse)
    note t = piece_in_backing [OF ok pw b(1) b(3) b(2)]
    have vn: "v + n - v = n" "v - v = 0" by simp_all
    have "I (unat (v + n)) (transfer (me_backing_offset w + v - me_vaddr w) (v - v) (v + n - v) s)"
      by (rule step [OF _ b(3) _ _ init]) (use t(2) e in auto)
    then have "I (unat v + unat n) (transfer (me_backing_offset w + v - me_vaddr w) 0 n s)"
      unfolding vn e .
    then show thesis
      using that guard Some t(1) unfolding TryTransferBacking_def TransferBackingUnlocked_def vn by (simp add: Let_def)
  qed
qed

lemma transfer_unmapped:
  assumes ok: "view_ok bs" and no: "\<not> (bs_available bs \<and> 0 < unat n \<and> fits v n \<and> span_of v n \<subseteq> viewed (bs_maps bs))"
  shows "TryTransferBacking single transfer v n bs s = Some (False, s)"
proof (cases "bs_available bs \<and> 0 < unat n \<and> fits v n")
  case False
  then have "\<not> bs_available bs \<or> n = 0 \<or> u64_max - v < n" using neq0_u64 no_wrap by blast
  then show ?thesis unfolding TryTransferBacking_def by simp
next
  case True
  then have sub: "\<not> span_of v n \<subseteq> viewed (bs_maps bs)" using no by blast
  have e: "unat (v + n) = unat v + unat n" using True by (intro unat_end) blast
  have "Backing_FindContaining v n bs = None"
  proof (rule ccontr)
    assume "Backing_FindContaining v n bs \<noteq> None"
    then obtain w where "Backing_FindContaining v n bs = Some w" by blast
    then obtain p where "p \<in> set (bs_maps bs)" "span_of v n \<subseteq> guest_span (snd p)"
      unfolding Backing_FindContaining_Some [OF ok] by blast
    then show False using sub unfolding viewed_iff [abs_def] subset_iff by blast
  qed
  moreover have "\<not> transfer_check bs (v + n) v"
    using transfer_check_spec [OF ok, of v "v + n"] sub e by (simp add: span_of_def)
  moreover have "\<not> (\<not> bs_available bs \<or> n = 0 \<or> u64_max - v < n)" using True neq0_u64 no_wrap by blast
  ultimately show ?thesis unfolding TryTransferBacking_def TransferBackingUnlocked_def by simp
qed

subsection \<open>Reading and writing\<close>

definition guest_byte :: "backing_store \<Rightarrow> nat \<Rightarrow> u8" where
  "guest_byte bs a = bs_data bs (the (view_at (bs_maps bs) a))"

definition guest_bytes :: "u64 \<Rightarrow> u64 \<Rightarrow> backing_store \<Rightarrow> u8 list" where
  "guest_bytes v n bs = map (\<lambda>i. guest_byte bs (unat v + i)) [0 ..< unat n]"

definition can_transfer :: "u64 \<Rightarrow> u64 \<Rightarrow> backing_store \<Rightarrow> bool" where
  "can_transfer v n bs \<longleftrightarrow> bs_available bs \<and> 0 < unat n \<and> fits v n \<and> span_of v n \<subseteq> viewed (bs_maps bs)"

lemma peek_nth [simp]: "length (peek off n data) = n" "i < n \<Longrightarrow> peek off n data ! i = data (off + i)"
  by (simp_all add: peek_def)

lemma read_part_nth:
  assumes "unat at + unat bytes \<le> length dst"
  shows "length (read_part data off at bytes dst) = length dst"
    and "i < length dst \<Longrightarrow> read_part data off at bytes dst ! i =
      (if unat at \<le> i \<and> i < unat at + unat bytes then data (unat off + (i - unat at)) else dst ! i)"
  using assms by (auto simp: read_part_def overwrite_def nth_append)

text \<open>A read fills the buffer with the guest's bytes, whatever views it crosses.\<close>

lemma TryReadBacking_spec:
  assumes ok: "view_ok bs" and len: "length dst = unat n"
  shows "TryReadBacking single v (Some dst) n bs =
    Some (if can_transfer v n bs then (True, Some (guest_bytes v n bs)) else (False, Some dst))"
proof (cases "can_transfer v n bs")
  case False
  then have "TryTransferBacking single (read_part (bs_data bs)) v n bs dst = Some (False, dst)"
    unfolding can_transfer_def by (rule transfer_unmapped [OF ok])
  then show ?thesis using False by (simp add: TryReadBacking_def)
next
  case True
  let ?I = "\<lambda>p d. length d = unat n \<and> (\<forall>i. i < p - unat v \<longrightarrow> d ! i = guest_byte bs (unat v + i))"
  have "?I (unat f) (read_part (bs_data bs) off (c - v) (f - c) d)"
    if c: "unat v \<le> unat c" "unat c < unat f" "unat f \<le> unat v + unat n"
      and view: "\<forall>a. unat c \<le> a \<and> a < unat f \<longrightarrow> view_at (bs_maps bs) a = Some (unat off + (a - unat c))"
      and I: "?I (unat c) d" for c f off d
  proof -
    have cv: "unat (c - v) = unat c - unat v" "unat (f - c) = unat f - unat c" using c by (simp_all add: unat_minus_u64)
    have fit: "unat (c - v) + unat (f - c) \<le> length d" using I c cv by simp
    note r = read_part_nth [OF fit, where data = "bs_data bs" and off = off]
    have "read_part (bs_data bs) off (c - v) (f - c) d ! i = guest_byte bs (unat v + i)" if i: "i < unat f - unat v" for i
    proof (cases "i < unat c - unat v")
      case True
      then show ?thesis using r(2) [of i] I c cv by simp
    next
      case False
      then have "unat c \<le> unat v + i \<and> unat v + i < unat f" using i c by linarith
      then have "view_at (bs_maps bs) (unat v + i) = Some (unat off + (unat v + i - unat c))" using view by blast
      moreover have "unat v + i - unat c = i - unat (c - v)" using False c cv by simp
      ultimately show ?thesis using r(2) [of i] I False i c cv by (simp add: guest_byte_def)
    qed
    then show ?thesis using r(1) I by simp
  qed
  note step = this
  have cond: "bs_available bs" "0 < unat n" "fits v n" "span_of v n \<subseteq> viewed (bs_maps bs)"
    using True by (simp_all add: can_transfer_def)
  have init: "?I (unat v) dst" using len by simp
  obtain d where d: "TryTransferBacking single (read_part (bs_data bs)) v n bs dst = Some (True, d)" "?I (unat v + unat n) d"
    by (rule transfer_inv [OF ok cond, of ?I, OF init step]) assumption
  then have "d = guest_bytes v n bs" by (intro nth_equalityI) (simp_all add: guest_bytes_def)
  then show ?thesis using d(1) True by (simp add: TryReadBacking_def)
qed

text \<open>
  A write through a range whose addresses have distinct backing bytes puts each byte where its
  address points, and nothing else changes.
\<close>

definition range_injective :: "u64 \<Rightarrow> u64 \<Rightarrow> backing_store \<Rightarrow> bool" where
  "range_injective v n bs \<longleftrightarrow> inj_on (view_at (bs_maps bs)) (span_of v n)"

lemma write_part_at:
  assumes "unat at + unat bytes \<le> length src"
  shows "write_part src off at bytes data x =
    (if unat off \<le> x \<and> x < unat off + unat bytes then src ! (unat at + (x - unat off)) else data x)"
  using assms by (auto simp: write_part_def poke_def)

lemma TryWriteBacking_spec:
  assumes ok: "view_ok bs" and len: "length src = unat n" and can: "can_transfer v n bs" and inj: "range_injective v n bs"
  obtains d where "TryWriteBacking single v (Some src) n bs = Some (True, bs\<lparr>bs_data := d\<rparr>)"
    and "\<forall>a\<in>span_of v n. d (the (view_at (bs_maps bs) a)) = src ! (a - unat v)"
    and "\<forall>x. (\<forall>a\<in>span_of v n. view_at (bs_maps bs) a \<noteq> Some x) \<longrightarrow> d x = bs_data bs x"
proof -
  let ?view = "view_at (bs_maps bs)"
  let ?I = "\<lambda>p d. (\<forall>a. unat v \<le> a \<and> a < p \<longrightarrow> d (the (?view a)) = src ! (a - unat v)) \<and>
    (\<forall>x. (\<forall>a\<in>span_of v n. ?view a \<noteq> Some x) \<longrightarrow> d x = bs_data bs x)"
  have "?I (unat f) (write_part src off (c - v) (f - c) d)"
    if c: "unat v \<le> unat c" "unat c < unat f" "unat f \<le> unat v + unat n"
      and view: "\<forall>a. unat c \<le> a \<and> a < unat f \<longrightarrow> ?view a = Some (unat off + (a - unat c))"
      and I: "?I (unat c) d" for c f off d
  proof -
    have cv: "unat (c - v) = unat c - unat v" "unat (f - c) = unat f - unat c" using c by (simp_all add: unat_minus_u64)
    have fit: "unat (c - v) + unat (f - c) \<le> length src" using len c cv by simp
    note w = write_part_at [OF fit, of off d]
    have hit: "\<exists>b. unat c \<le> b \<and> b < unat f \<and> ?view b = Some x" if "unat off \<le> x" "x < unat off + unat (f - c)" for x
    proof -
      have "unat c \<le> unat c + (x - unat off) \<and> unat c + (x - unat off) < unat f" using that cv c by auto
      moreover from this have "?view (unat c + (x - unat off)) = Some (unat off + (unat c + (x - unat off) - unat c))"
        using view by blast
      moreover have "unat off + (unat c + (x - unat off) - unat c) = x" using that by simp
      ultimately show ?thesis by metis
    qed
    have "write_part src off (c - v) (f - c) d (the (?view a)) = src ! (a - unat v)" if a: "unat v \<le> a" "a < unat f" for a
    proof (cases "unat c \<le> a")
      case True
      define x where "x = unat off + (a - unat c)"
      have "?view a = Some x" using view True a unfolding x_def by blast
      moreover have "unat off \<le> x" "x < unat off + unat (f - c)" "unat (c - v) + (x - unat off) = a - unat v"
        using True a c cv unfolding x_def by auto
      ultimately show ?thesis using w [of x] by simp
    next
      case False
      obtain x where x: "?view a = Some x" using can a c False by (fastforce simp: can_transfer_def span_of_def viewed_def)
      have "\<not> (unat off \<le> x \<and> x < unat off + unat (f - c))"
      proof
        assume "unat off \<le> x \<and> x < unat off + unat (f - c)"
        then obtain b where b: "unat c \<le> b" "b < unat f" "?view b = Some x" using hit by blast
        then have "a = b" using inj x a c False by (auto simp: range_injective_def inj_on_def span_of_def)
        then show False using b False by simp
      qed
      then have "write_part src off (c - v) (f - c) d x = d x" unfolding w by (rule if_not_P)
      then show ?thesis using I x a False by auto
    qed
    moreover have "write_part src off (c - v) (f - c) d x = bs_data bs x" if out: "\<forall>a\<in>span_of v n. ?view a \<noteq> Some x" for x
    proof -
      have "\<not> (unat off \<le> x \<and> x < unat off + unat (f - c))"
        using hit [of x] out c by (fastforce simp: span_of_def)
      then have "write_part src off (c - v) (f - c) d x = d x" unfolding w by (rule if_not_P)
      then show ?thesis using I out by simp
    qed
    ultimately show ?thesis by blast
  qed
  note step = this
  have cond: "bs_available bs" "0 < unat n" "fits v n" "span_of v n \<subseteq> viewed (bs_maps bs)"
    using can by (simp_all add: can_transfer_def)
  have init: "?I (unat v) (bs_data bs)" by auto
  obtain d where d: "TryTransferBacking single (write_part src) v n bs (bs_data bs) = Some (True, d)" "?I (unat v + unat n) d"
    by (rule transfer_inv [OF ok cond, of ?I, OF init step]) assumption
  show thesis
  proof (rule that [of d])
    show "TryWriteBacking single v (Some src) n bs = Some (True, bs\<lparr>bs_data := d\<rparr>)" using d(1) by (simp add: TryWriteBacking_def)
    show "\<forall>a\<in>span_of v n. d (the (?view a)) = src ! (a - unat v)" using d(2) unfolding span_of_def by simp
    show "\<forall>x. (\<forall>a\<in>span_of v n. ?view a \<noteq> Some x) \<longrightarrow> d x = bs_data bs x" using d(2) by blast
  qed
qed

end
