(* ===== verification/BackingLookups.thy ===== *)
theory BackingLookups
  imports BackingData
begin

text \<open>
  The lookups of the backing store: the alias test, in both of its forms, says whether a byte is
  shown at one guest address only; the cache of host-read translations answers what a lookup would.
\<close>

lemma bs_ok_views: "bs_ok bs \<Longrightarrow> view_ok bs"
  by (simp add: bs_ok_def maps_ok_def)

subsection \<open>Aliases\<close>

text \<open>A byte is covered as often as there are guest addresses that show it.\<close>

lemma times_mapped_card:
  assumes "entries_ok limit m"
  shows "finite {b. view_at m b = Some x} \<and> times_mapped (spans_of m) x = card {b. view_at m b = Some x}"
  using assms
proof (induction m)
  case (Cons p m)
  obtain k e where p: "p = (k, e)" by fastforce
  let ?v = "unat (me_vaddr e)" and ?o = "unat (me_backing_offset e)"
  let ?A = "{b. view_at m b = Some x}"
  have ok: "entries_ok limit m" "entry_ok limit e" using Cons.prems by (simp_all add: p entries_ok_Cons)
  have ih: "finite ?A" "times_mapped (spans_of m) x = card ?A" using Cons.IH [OF ok(1)] by simp_all
  have apart: "guest_span e \<inter> viewed m = {}" using middle_apart(1) [of limit "[]" k e m] Cons.prems p by simp
  have none: "view_at m b = None" if "b \<in> guest_span e" for b using apart that by (auto simp: viewed_def)
  show ?case
  proof (cases "x \<in> backing_span e")
    case True
    let ?b = "?v + (x - ?o)"
    have b: "?b \<in> guest_span e" using True by (auto simp: span_of_def)
    have "{b. view_at (p # m) b = Some x} = insert ?b ?A"
      using True b none by (auto simp: p span_of_def)
    moreover have "?b \<notin> ?A" using none [OF b] by simp
    ultimately show ?thesis using ih True by (simp add: p)
  next
    case False
    have "{b. view_at (p # m) b = Some x} = ?A"
      using False none by (auto simp: p span_of_def)
    then show ?thesis using ih False by (simp add: p)
  qed
qed simp

lemma one_address:
  assumes ok: "entries_ok limit m" and a: "view_at m a = Some x"
  shows "times_mapped (spans_of m) x \<le> 1 \<longleftrightarrow> (\<forall>b. view_at m b = Some x \<longrightarrow> b = a)"
proof -
  note c = times_mapped_card [OF ok, of x]
  have "a \<in> {b. view_at m b = Some x}" using a by simp
  then have "card {b. view_at m b = Some x} \<le> 1 \<longleftrightarrow> (\<forall>b\<in>{b. view_at m b = Some x}. b = a)"
    using c by (metis One_nat_def card_le_Suc0_iff_eq)
  then show ?thesis using c by auto
qed

text \<open>The range lies in one view, and no other guest address shows one of its bytes.\<close>

definition unique_range :: "u64 \<Rightarrow> u64 \<Rightarrow> backing_store \<Rightarrow> bool" where
  "unique_range v n bs \<longleftrightarrow> 0 < unat n \<and> fits v n \<and> (\<exists>p\<in>set (bs_maps bs). span_of v n \<subseteq> guest_span (snd p)) \<and>
     (\<forall>a\<in>span_of v n. \<forall>b. view_at (bs_maps bs) b = view_at (bs_maps bs) a \<longrightarrow> b = a)"

text \<open>A range inside a view, and the physical range it stands for.\<close>

lemma inside_view:
  assumes ok: "view_ok bs" and p: "p \<in> set (bs_maps bs)" and n: "0 < unat n" and fit: "fits v n"
    and sub: "span_of v n \<subseteq> guest_span (snd p)"
  defines "off \<equiv> me_backing_offset (snd p) + v - me_vaddr (snd p)"
  shows "RangeOk off n bs" and "fits off n"
    and "\<forall>a\<in>span_of v n. view_at (bs_maps bs) a = Some (unat off + (a - unat v))"
proof -
  have e: "unat (v + n) = unat v + unat n" by (rule unat_end [OF fit])
  have b: "unat (me_vaddr (snd p)) \<le> unat v" "unat v < unat (v + n)"
    "unat (v + n) \<le> unat (me_vaddr (snd p)) + unat (me_size (snd p))"
    using sub n e by (auto simp: span_of_def)
  have pp: "(fst p, snd p) \<in> set (bs_maps bs)" using p by simp
  note t = piece_in_backing [OF ok pp b]
  have vn: "v + n - v = n" by simp
  show "RangeOk off n bs" using t(1) unfolding vn off_def .
  then show "fits off n" unfolding RangeOk_fits by simp
  show "\<forall>a\<in>span_of v n. view_at (bs_maps bs) a = Some (unat off + (a - unat v))"
    using t(2) e unfolding off_def span_of_def by simp
qed

lemma physical_once:
  assumes ok: "view_ok bs" and fit: "fits off n"
    and view: "\<forall>a\<in>span_of v n. view_at (bs_maps bs) a = Some (unat off + (a - unat v))"
  shows "(\<forall>x. unat off \<le> x \<and> x < unat (off + n) \<longrightarrow> times_mapped (spans_of (bs_maps bs)) x \<le> 1) \<longleftrightarrow>
    (\<forall>a\<in>span_of v n. \<forall>b. view_at (bs_maps bs) b = view_at (bs_maps bs) a \<longrightarrow> b = a)" (is "?L = ?R")
proof
  assume L: ?L
  show ?R
  proof (intro ballI allI impI)
    fix a b assume a: "a \<in> span_of v n" and b: "view_at (bs_maps bs) b = view_at (bs_maps bs) a"
    note x = bspec [OF view a]
    have "times_mapped (spans_of (bs_maps bs)) (unat off + (a - unat v)) \<le> 1"
      using L a unat_end [OF fit] unfolding span_of_def
      by (intro L [rule_format]) auto
    then show "b = a" using one_address [OF ok x] b x by metis
  qed
next
  assume R: ?R
  show ?L
  proof (intro allI impI)
    fix x assume x: "unat off \<le> x \<and> x < unat (off + n)"
    let ?a = "unat v + (x - unat off)"
    have a: "?a \<in> span_of v n" using x unat_end [OF fit] by (auto simp: span_of_def)
    have va: "view_at (bs_maps bs) ?a = Some x" using bspec [OF view a] x by simp
    show "times_mapped (spans_of (bs_maps bs)) x \<le> 1"
      using R a va unfolding one_address [OF ok va] by metis
  qed
qed

lemma FindContaining_None:
  assumes "view_ok bs" and "Backing_FindContaining v n bs = None"
  shows "\<not> (0 < unat n \<and> fits v n \<and> (\<exists>p\<in>set (bs_maps bs). span_of v n \<subseteq> guest_span (snd p)))"
proof
  assume "0 < unat n \<and> fits v n \<and> (\<exists>p\<in>set (bs_maps bs). span_of v n \<subseteq> guest_span (snd p))"
  then obtain p where "0 < unat n" "fits v n" "p \<in> set (bs_maps bs)" "span_of v n \<subseteq> guest_span (snd p)" by blast
  then have "0 < unat n \<and> fits v n \<and> (\<exists>q\<in>set (bs_maps bs). snd q = snd p \<and> span_of v n \<subseteq> guest_span (snd p))"
    by (intro conjI bexI [of _ p]) simp_all
  then have "Backing_FindContaining v n bs = Some (snd p)" by (rule Backing_FindContaining_Some [OF assms(1), THEN iffD2])
  then show False using assms(2) by simp
qed

lemma IsUniqueRangeUnlocked_spec:
  assumes ok: "bs_ok bs"
  shows "IsUniqueRangeUnlocked v n bs \<longleftrightarrow> unique_range v n bs"
proof (cases "Backing_FindContaining v n bs")
  case None
  note no = FindContaining_None [OF bs_ok_views [OF ok] None]
  then have "\<not> unique_range v n bs" unfolding unique_range_def by blast
  then show ?thesis using None by (simp add: IsUniqueRangeUnlocked_def)
next
  case (Some e)
  then obtain p where p: "0 < unat n" "fits v n" "p \<in> set (bs_maps bs)" "snd p = e" "span_of v n \<subseteq> guest_span (snd p)"
    using Backing_FindContaining_Some [OF bs_ok_views [OF ok], of v n e] by auto
  let ?off = "me_backing_offset e + v - me_vaddr e"
  note i = inside_view [OF bs_ok_views [OF ok] p(3,1,2,5), unfolded p(4)]
  have mok: "maps_ok bs" "om_ok (bs_coverage bs)" using ok by (simp_all add: bs_ok_def maps_ok_def)
  have "IsUniqueRangeUnlocked v n bs \<longleftrightarrow> CoverageUnique ?off (?off + n) (bs_coverage bs)"
    using Some by (simp add: IsUniqueRangeUnlocked_def Let_def)
  also have "\<dots> \<longleftrightarrow> (\<forall>x. unat ?off \<le> x \<and> x < unat (?off + n) \<longrightarrow> times_mapped (spans_of (bs_maps bs)) x \<le> 1)"
    using CoverageUnique_spec [OF mok(2), of ?off "?off + n"] cov_times [OF mok(1)] unat_end [OF i(2)] p(1) by simp
  also have "\<dots> \<longleftrightarrow> unique_range v n bs"
    unfolding physical_once [OF bs_ok_views [OF ok] i(2,3)] unique_range_def using p by blast
  finally show ?thesis .
qed

lemma spans_fit: "view_ok bs \<Longrightarrow> \<forall>(off, n)\<in>set (spans_of (bs_maps bs)). fits off n"
  by (auto simp: spans_of_def entries_ok_def entry_ok_def)

text \<open>The rebuilt form agrees, whatever its cache holds, and keeps the invariant.\<close>

lemma IsUniqueRangeRebuilt_spec:
  assumes ok: "bs_ok bs"
  obtains bs' where "IsUniqueRangeRebuilt v n bs = Some (unique_range v n bs, bs')" and "bs_ok bs'"
    and "bs' = bs\<lparr>bs_aliased_physical_ranges := bs_aliased_physical_ranges bs', bs_alias_ranges_valid := bs_alias_ranges_valid bs'\<rparr>"
proof (cases "Backing_FindContaining v n bs")
  case None
  then have "\<not> unique_range v n bs"
    using IsUniqueRangeUnlocked_spec [OF ok, of v n] by (simp add: IsUniqueRangeUnlocked_def)
  then show thesis using that [of bs] None ok by (simp add: IsUniqueRangeRebuilt_def)
next
  case (Some e)
  then obtain p where p: "0 < unat n" "fits v n" "p \<in> set (bs_maps bs)" "snd p = e" "span_of v n \<subseteq> guest_span (snd p)"
    using Backing_FindContaining_Some [OF bs_ok_views [OF ok], of v n e] by auto
  let ?off = "me_backing_offset e + v - me_vaddr e"
  note i = inside_view [OF bs_ok_views [OF ok] p(3,1,2,5), unfolded p(4)]
  note f = spans_fit [OF bs_ok_views [OF ok]]
  obtain out where out: "alias_intervals (spans_of (bs_maps bs)) = Some out" by (rule alias_intervals_spec [OF f])
  let ?bs = "bs\<lparr>bs_aliased_physical_ranges := out, bs_alias_ranges_valid := True\<rparr>"
  have lk: "lookup_ok bs" using ok by (simp add: bs_ok_def)
  have cache: "(if bs_alias_ranges_valid bs then Some bs
      else map_option (\<lambda>out. bs\<lparr>bs_aliased_physical_ranges := out, bs_alias_ranges_valid := True\<rparr>)
        (alias_intervals (map (\<lambda>(k, e). (me_backing_offset e, me_size e)) (bs_maps bs)))) = Some ?bs"
    using lk out by (auto simp: lookup_ok_def spans_of_def [symmetric])
  have "outside_aliases ?off n out \<longleftrightarrow> unique_range v n bs"
    using outside_aliases_correct [OF f out p(1) i(2)] physical_once [OF bs_ok_views [OF ok] i(2,3)] p
    unfolding unique_range_def by blast
  then have run: "IsUniqueRangeRebuilt v n bs = Some (unique_range v n bs, ?bs)"
    unfolding IsUniqueRangeRebuilt_def Some cache option.case Let_def by simp
  have "bs_ok ?bs" using ok out by (simp add: bs_ok_def maps_ok_def lookup_ok_def)
  with run show thesis by (rule that) simp
qed


lemma IsUniqueRange_spec:
  assumes ok: "bs_ok bs"
  obtains bs' where "IsUniqueRange verify v n bs = Some (unique_range v n bs, bs')" and "bs_ok bs'"
    and "bs' = bs\<lparr>bs_aliased_physical_ranges := bs_aliased_physical_ranges bs', bs_alias_ranges_valid := bs_alias_ranges_valid bs'\<rparr>"
proof (cases verify)
  case True
  obtain bs' where b: "IsUniqueRangeRebuilt v n bs = Some (unique_range v n bs, bs')" "bs_ok bs'"
    "bs' = bs\<lparr>bs_aliased_physical_ranges := bs_aliased_physical_ranges bs', bs_alias_ranges_valid := bs_alias_ranges_valid bs'\<rparr>"
    by (rule IsUniqueRangeRebuilt_spec [OF ok])
  have "IsUniqueRange verify v n bs = Some (unique_range v n bs, bs')"
    using True b(1) IsUniqueRangeUnlocked_spec [OF ok] by (simp add: IsUniqueRange_def)
  then show thesis by (rule that [OF _ b(2,3)])
next
  case False
  then have "IsUniqueRange verify v n bs = Some (unique_range v n bs, bs)"
    using IsUniqueRangeUnlocked_spec [OF ok] by (simp add: IsUniqueRange_def)
  then show thesis using ok by (rule that) simp
qed

subsection \<open>The cache of host-read translations\<close>

text \<open>What the cache answers is what a lookup answers; the cache is all that changes.\<close>

lemma translate_cached_spec:
  assumes ok: "bs_ok bs" and n: "0 < unat n"
  obtains t where "translate_cached v n bs =
      ((case Backing_FindContaining v n bs of Some e \<Rightarrow> e | None \<Rightarrow> empty_entry), bs\<lparr>bs_host_read_translations := t\<rparr>)"
    and "bs_ok (bs\<lparr>bs_host_read_translations := t\<rparr>)"
proof -
  let ?slot = "translation_slot v" and ?c = "bs_host_read_translations bs"
  note views = bs_ok_views [OF ok]
  have lk: "lookup_ok bs" using ok by (simp add: bs_ok_def)
  show thesis
  proof (cases "tr_epoch (?c ?slot) = bs_mapping_epoch bs \<and>
      GuestFreeRangeContains (me_vaddr (tr_entry (?c ?slot))) (me_size (tr_entry (?c ?slot))) v n")
    case True
    then have "tr_entry (?c ?slot) \<in> snd ` set (bs_maps bs)" using lk by (simp add: lookup_ok_def)
    then obtain p where p: "p \<in> set (bs_maps bs)" "tr_entry (?c ?slot) = snd p" by blast
    then have "fits (me_vaddr (snd p)) (me_size (snd p))" using views by (auto simp: entries_ok_def entry_ok_def)
    then have "span_of v n \<subseteq> guest_span (snd p)" "fits v n"
      using GuestFreeRangeContains_span [of "me_vaddr (snd p)" "me_size (snd p)" v n] True p(2) by simp_all
    then have "0 < unat n \<and> fits v n \<and> (\<exists>q\<in>set (bs_maps bs). snd q = snd p \<and> span_of v n \<subseteq> guest_span (snd p))"
      using n p(1) by blast
    then have "Backing_FindContaining v n bs = Some (snd p)" by (rule Backing_FindContaining_Some [OF views, THEN iffD2])
    then show thesis using that [of ?c] True p(2) ok by (simp add: translate_cached_def Let_def)
  next
    case False
    show thesis
    proof (cases "Backing_FindContaining v n bs")
      case None
      then show thesis using that [of ?c] False ok by (auto simp: translate_cached_def Let_def)
    next
      case (Some e)
      then have "e \<in> snd ` set (bs_maps bs)" using Backing_FindContaining_Some [OF views, of v n e] by auto
      then have "bs_ok (bs\<lparr>bs_host_read_translations := ?c(?slot := \<lparr>tr_entry = e, tr_epoch = bs_mapping_epoch bs\<rparr>)\<rparr>)"
        using ok by (simp add: bs_ok_def maps_ok_def lookup_ok_def)
      then show thesis
        using that [of "?c(?slot := \<lparr>tr_entry = e, tr_epoch = bs_mapping_epoch bs\<rparr>)"] False Some
        by (auto simp: translate_cached_def Let_def)
    qed
  qed
qed

lemma can_transfer_cache [simp]: "can_transfer v n (bs\<lparr>bs_host_read_translations := t\<rparr>) = can_transfer v n bs"
  by (simp add: can_transfer_def)

lemma guest_bytes_cache [simp]: "guest_bytes v n (bs\<lparr>bs_host_read_translations := t\<rparr>) = guest_bytes v n bs"
  by (simp add: guest_bytes_def guest_byte_def)

lemma read_part_view:
  assumes "length dst = unat n" and "\<forall>a\<in>span_of v n. view_at (bs_maps bs) a = Some (unat off + (a - unat v))"
  shows "read_part (bs_data bs) off 0 n dst = guest_bytes v n bs"
proof (rule nth_equalityI)
  have fit: "unat (0 :: u64) + unat n \<le> length dst" using assms(1) by simp
  note r = read_part_nth [OF fit, where data = "bs_data bs" and off = off]
  show "length (read_part (bs_data bs) off 0 n dst) = length (guest_bytes v n bs)"
    using r(1) assms(1) by (simp add: guest_bytes_def)
  fix i assume "i < length (read_part (bs_data bs) off 0 n dst)"
  then have i: "i < unat n" using r(1) assms(1) by simp
  then have "view_at (bs_maps bs) (unat v + i) = Some (unat off + i)" using assms(2) by (simp add: span_of_def)
  then show "read_part (bs_data bs) off 0 n dst ! i = guest_bytes v n bs ! i"
    using r(2) [of i] i assms(1) by (simp add: guest_bytes_def guest_byte_def)
qed

text \<open>
  The host read, through the cache or not, is the plain read: the guest's bytes when the whole
  range is mapped, nothing otherwise.
\<close>

lemma TryReadBackingToHost_spec:
  assumes ok: "bs_ok bs" and len: "length dst = unat n"
  obtains t where "TryReadBackingToHost mode acquired narrowed single v (Some dst) n bs =
      Some (can_transfer v n bs, Some (if can_transfer v n bs then guest_bytes v n bs else dst), bs\<lparr>bs_host_read_translations := t\<rparr>)"
    and "bs_ok (bs\<lparr>bs_host_read_translations := t\<rparr>)"
proof -
  let ?ok = "can_transfer v n bs"
  let ?plain = "\<lambda>bs'. map_option (\<lambda>(ok, d). (ok, d, bs')) (TryReadBacking single v (Some dst) n bs')"
  let ?out = "\<lambda>bs'. Some (?ok, Some (if ?ok then guest_bytes v n bs else dst), bs')"
  have plain: "?plain (bs\<lparr>bs_host_read_translations := t\<rparr>) = ?out (bs\<lparr>bs_host_read_translations := t\<rparr>)" for t
    using TryReadBacking_spec [of "bs\<lparr>bs_host_read_translations := t\<rparr>" dst n single v] bs_ok_views [OF ok] len by simp
  have plain0: "?plain bs = ?out bs"
    using TryReadBacking_spec [OF bs_ok_views [OF ok] len, of single v] by simp
  show thesis
  proof (cases "mode \<and> bs_available bs \<and> n \<noteq> 0 \<and> n \<le> 65536 \<and> n \<le> u64_max - v \<and> acquired")
    case False
    have "TryReadBackingToHost mode acquired narrowed single v (Some dst) n bs = ?plain bs"
      using False unfolding TryReadBackingToHost_def by (auto split: option.splits)
    then show thesis using that [of "bs_host_read_translations bs"] plain0 ok by simp
  next
    case True
    then have n: "0 < unat n" "fits v n" using no_wrap [of v n] by (auto simp: neq0_u64)
    obtain t where t: "translate_cached v n bs =
        ((case Backing_FindContaining v n bs of Some e \<Rightarrow> e | None \<Rightarrow> empty_entry), bs\<lparr>bs_host_read_translations := t\<rparr>)"
      and okt: "bs_ok (bs\<lparr>bs_host_read_translations := t\<rparr>)" by (rule translate_cached_spec [OF ok n(1)])
    let ?bs = "bs\<lparr>bs_host_read_translations := t\<rparr>"
    let ?e = "case Backing_FindContaining v n bs of Some e \<Rightarrow> e | None \<Rightarrow> empty_entry"
    let ?off = "me_backing_offset ?e + v - me_vaddr ?e"
    have run: "TryReadBackingToHost mode acquired narrowed single v (Some dst) n bs =
        (if me_size ?e \<noteq> 0 \<and> RangeOk ?off n ?bs \<and> narrowed
         then Some (True, Some (read_part (bs_data bs) ?off 0 n dst), ?bs) else ?plain ?bs)"
      using True by (simp add: TryReadBackingToHost_def t Let_def)
    have "read_part (bs_data bs) ?off 0 n dst = guest_bytes v n bs \<and> ?ok" if "me_size ?e \<noteq> 0"
    proof -
      obtain e where e: "Backing_FindContaining v n bs = Some e"
        using \<open>me_size ?e \<noteq> 0\<close> by (cases "Backing_FindContaining v n bs") (simp_all add: empty_entry_def)
      then obtain p where p: "p \<in> set (bs_maps bs)" "snd p = e" "span_of v n \<subseteq> guest_span (snd p)"
        using Backing_FindContaining_Some [OF bs_ok_views [OF ok], of v n e] by auto
      note i = inside_view [OF bs_ok_views [OF ok] p(1) n p(3)]
      have "span_of v n \<subseteq> viewed (bs_maps bs)" using i(3) by (auto simp: viewed_def)
      then show ?thesis using read_part_view [OF len i(3)] p(2) e n True by (simp add: can_transfer_def)
    qed
    then have "TryReadBackingToHost mode acquired narrowed single v (Some dst) n bs = ?out ?bs"
      unfolding run plain by auto
    then show thesis using okt by (rule that)
  qed
qed

text \<open>A pointer handed out stands for the bytes of the range, and only for a range inside one view.\<close>

lemma BackingPointer_spec:
  assumes ok: "bs_ok bs" and b: "BackingPointer acquired v n bs = (r, bs')"
  shows "bs_ok bs' \<and> (\<forall>off. r = Some off \<longrightarrow> can_transfer v n bs \<and>
      (\<forall>a\<in>span_of v n. view_at (bs_maps bs) a = Some (unat off + (a - unat v)))) \<and>
    (r = None \<longleftrightarrow> \<not> (bs_available bs \<and> 0 < unat n \<and> fits v n \<and> (\<exists>p\<in>set (bs_maps bs). span_of v n \<subseteq> guest_span (snd p))))"
proof (cases "bs_available bs \<and> 0 < unat n \<and> fits v n")
  case False
  then have "\<not> bs_available bs \<or> n = 0 \<or> u64_max - v < n" using no_wrap neq0_u64 by blast
  then have "r = None" "bs' = bs" using b by (auto simp: BackingPointer_def)
  then show ?thesis using ok False by auto
next
  case True
  then have g: "\<not> (\<not> bs_available bs \<or> n = 0 \<or> u64_max - v < n)" and n: "0 < unat n" "fits v n"
    using no_wrap neq0_u64 by blast+
  obtain t where t: "translate_cached v n bs =
      ((case Backing_FindContaining v n bs of Some e \<Rightarrow> e | None \<Rightarrow> empty_entry), bs\<lparr>bs_host_read_translations := t\<rparr>)"
    and okt: "bs_ok (bs\<lparr>bs_host_read_translations := t\<rparr>)" by (rule translate_cached_spec [OF ok n(1)])
  have same: "Backing_FindContaining v n (bs\<lparr>bs_host_read_translations := t\<rparr>) = Backing_FindContaining v n bs"
    by (simp add: Backing_FindContaining_def)
  show ?thesis
  proof (cases "Backing_FindContaining v n bs")
    case None
    then have "r = None" "bs_ok bs'"
      using b g t same okt ok by (auto simp: BackingPointer_def empty_entry_def split: if_splits)
    then show ?thesis using FindContaining_None [OF bs_ok_views [OF ok] None] by simp
  next
    case (Some e)
    then obtain p where p: "p \<in> set (bs_maps bs)" "snd p = e" "span_of v n \<subseteq> guest_span (snd p)"
      using Backing_FindContaining_Some [OF bs_ok_views [OF ok], of v n e] by auto
    note i = inside_view [OF bs_ok_views [OF ok] p(1) n p(3)]
    have "me_size e \<noteq> 0" using bs_ok_views [OF ok] p by (auto simp: entries_ok_def entry_ok_def)
    then have "r = Some (me_backing_offset e + v - me_vaddr e)" "bs_ok bs'"
      using b g t same Some okt ok i(1) p(2)
      by (auto simp: BackingPointer_def Let_def empty_entry_def RangeOk_def split: if_splits)
    moreover have "can_transfer v n bs" using i(3) True by (auto simp: can_transfer_def viewed_def)
    ultimately show ?thesis using i(3) p True by auto
  qed
qed

end
