(* ===== verification/BackingStoreProps.thy ===== *)
theory BackingStoreProps
  imports BackingLookups
begin

text \<open>
  The properties of the backing store: reads by pieces and sparse reads, what a write through a
  range nobody else maps leaves alone, and the closed examples.
\<close>

subsection \<open>The pieces of a range\<close>

definition piece_bytes :: "backing_store \<Rightarrow> (u64 \<times> u64) list \<Rightarrow> u8 list" where
  "piece_bytes bs ps = concat (map (\<lambda>(off, n). peek (unat off) (unat n) (bs_data bs)) ps)"

lemma piece_bytes_append [simp]: "piece_bytes bs (ps @ qs) = piece_bytes bs ps @ piece_bytes bs qs"
  by (simp add: piece_bytes_def)

abbreviation bytes_between :: "backing_store \<Rightarrow> nat \<Rightarrow> nat \<Rightarrow> u8 list" where
  "bytes_between bs a b \<equiv> map (guest_byte bs) [a ..< b]"

lemma peek_view:
  assumes "unat c \<le> unat f" and "unat n = unat f - unat c"
    and "\<forall>a. unat c \<le> a \<and> a < unat f \<longrightarrow> view_at (bs_maps bs) a = Some (unat off + (a - unat c))"
  shows "peek (unat off) (unat n) (bs_data bs) = bytes_between bs (unat c) (unat f)"
proof (rule nth_equalityI)
  show "length (peek (unat off) (unat n) (bs_data bs)) = length (bytes_between bs (unat c) (unat f))"
    using assms(2) by simp
  fix i assume "i < length (peek (unat off) (unat n) (bs_data bs))"
  then have i: "i < unat f - unat c" using assms(2) by simp
  then have "unat c \<le> unat c + i \<and> unat c + i < unat f" by linarith
  then have "view_at (bs_maps bs) (unat c + i) = Some (unat off + (unat c + i - unat c))" using assms(3) by blast
  then show "peek (unat off) (unat n) (bs_data bs) ! i = bytes_between bs (unat c) (unat f) ! i"
    using i assms(2) by (simp add: guest_byte_def)
qed

definition pieces_right :: "backing_store \<Rightarrow> nat \<Rightarrow> nat \<Rightarrow> u8 list \<Rightarrow> bool \<times> (u64 \<times> u64) list \<Rightarrow> bool" where
  "pieces_right bs a b before r \<longleftrightarrow> (fst r \<longleftrightarrow> {a ..< b} \<subseteq> viewed (bs_maps bs)) \<and>
     (fst r \<longrightarrow> piece_bytes bs (snd r) = before @ bytes_between bs a b)"

lemma pieces_right_step:
  assumes "pieces_right bs m b (before @ bytes_between bs a m) r" and "a \<le> m" "m \<le> b" and "{a ..< m} \<subseteq> viewed (bs_maps bs)"
  shows "pieces_right bs a b before r"
proof -
  have "{a ..< b} = {a ..< m} \<union> {m ..< b}" using assms(2,3) by auto
  moreover have "[a ..< b] = [a ..< m] @ [m ..< b]" using assms(2,3) by (metis le_Suc_ex upt_add_eq_append)
  ultimately show ?thesis using assms(1,4) by (auto simp: pieces_right_def)
qed

lemma pieces_loop_spec:
  assumes "view_ok bs" and "unat current \<le> unat finish"
  shows "pieces_right bs (unat current) (unat finish) (piece_bytes bs ps) (pieces_loop bs finish current ps)"
  using assms
proof (induction bs finish current ps rule: pieces_loop.induct)
  case (1 bs finish current ps)
  note eq = pieces_loop.simps [of bs finish current ps]
  show ?case
  proof (cases "current < finish")
    case False
    then have "unat current = unat finish" using "1.prems"(2) by (simp add: less_u64)
    then show ?thesis using False unfolding eq by (simp add: pieces_right_def)
  next
    case True
    then have lt: "unat current < unat finish" by (simp add: less_u64)
    show ?thesis
    proof (cases rule: walk_step [OF "1.prems"(1) lt])
      case 1
      then show ?thesis using True lt unfolding eq by (auto simp: pieces_right_def)
    next
      case (2 e)
      let ?f = "min finish (me_vaddr e + me_size e)" and ?off = "me_backing_offset e + current - me_vaddr e"
      have b: "unat (me_vaddr e) \<le> unat current" "unat ?f \<le> unat (me_vaddr e) + unat (me_size e)" "unat ?f \<le> unat finish"
        using 2(3,4) by (auto simp: span_of_def)
      note t = piece_in_backing [OF "1.prems"(1) 2(2) b(1) 2(5) b(2)]
      have run: "pieces_loop bs finish current ps = pieces_loop bs finish ?f (ps @ [(?off, ?f - current)])"
        using True 2(1) t(1) unfolding eq by (simp only: if_True option.case Let_def simp_thms if_False 2(6))
      have "pieces_right bs (unat ?f) (unat finish) (piece_bytes bs (ps @ [(?off, ?f - current)]))
          (pieces_loop bs finish ?f (ps @ [(?off, ?f - current)]))"
        by (rule "1.IH" [OF True 2(1) refl refl _ "1.prems"(1), unfolded 2(6), OF _ b(3)]) (simp add: t(1))
      moreover have "piece_bytes bs (ps @ [(?off, ?f - current)]) = piece_bytes bs ps @ bytes_between bs (unat current) (unat ?f)"
        using peek_view [of current ?f "?f - current" bs ?off] 2(5) t(2,3) by (simp add: piece_bytes_def)
      ultimately have "pieces_right bs (unat ?f) (unat finish) (piece_bytes bs ps @ bytes_between bs (unat current) (unat ?f))
          (pieces_loop bs finish current ps)" unfolding run by simp
      moreover have "{unat current ..< unat ?f} \<subseteq> viewed (bs_maps bs)" using t(2) by (auto simp: viewed_def)
      moreover have "unat current \<le> unat ?f" using 2(5) by simp
      ultimately show ?thesis using pieces_right_step [OF _ _ b(3)] by blast
    qed
  qed
qed

lemma bytes_between_range: "bytes_between bs (unat v) (unat v + unat n) = guest_bytes v n bs"
  by (rule nth_equalityI) (simp_all add: guest_bytes_def)

text \<open>The pieces handed out are the whole range, in order, and only if all of it is mapped.\<close>

lemma BackingPieces_spec:
  assumes "view_ok bs"
  shows "(fst (BackingPieces v n bs) \<longleftrightarrow> can_transfer v n bs) \<and>
    (fst (BackingPieces v n bs) \<longrightarrow> piece_bytes bs (snd (BackingPieces v n bs)) = guest_bytes v n bs)"
proof (cases "bs_available bs \<and> 0 < unat n \<and> fits v n")
  case False
  then have "\<not> bs_available bs \<or> n = 0 \<or> u64_max - v < n" using no_wrap neq0_u64 by blast
  then show ?thesis using False by (auto simp: BackingPieces_def can_transfer_def)
next
  case True
  then have g: "\<not> (\<not> bs_available bs \<or> n = 0 \<or> u64_max - v < n)" using no_wrap neq0_u64 by blast
  have e: "unat (v + n) = unat v + unat n" by (rule unat_end) (use True in simp)
  have "pieces_right bs (unat v) (unat v + unat n) [] (BackingPieces v n bs)"
    using pieces_loop_spec [OF assms, of v "v + n" "[]"] g e by (simp add: BackingPieces_def piece_bytes_def)
  then show ?thesis using True by (simp add: pieces_right_def can_transfer_def bytes_between_range span_of_def)
qed

subsection \<open>Writing through a range nobody else maps\<close>

lemma unique_transfer:
  assumes "view_ok bs" and "bs_available bs" and "unique_range v n bs"
  shows "can_transfer v n bs" and "range_injective v n bs"
proof -
  obtain p where "p \<in> set (bs_maps bs)" "span_of v n \<subseteq> guest_span (snd p)" using assms(3) unfolding unique_range_def by blast
  then have "span_of v n \<subseteq> viewed (bs_maps bs)" unfolding viewed_iff [abs_def] subset_iff by blast
  then show "can_transfer v n bs" using assms(2,3) by (simp add: can_transfer_def unique_range_def)
  show "range_injective v n bs" using assms(3) unfolding range_injective_def unique_range_def inj_on_def by metis
qed

lemma write_unique:
  assumes ok: "bs_ok bs" and av: "bs_available bs" and u: "unique_range v n bs" and len: "length src = unat n"
  obtains bs' where "TryWriteBacking single v (Some src) n bs = Some (True, bs')" and "bs_ok bs'"
    and "\<forall>dst. length dst = unat n \<longrightarrow> TryReadBacking single v (Some dst) n bs' = Some (True, Some src)"
    and "\<forall>b\<in>viewed (bs_maps bs). b \<notin> span_of v n \<longrightarrow> guest_byte bs' b = guest_byte bs b"
    and "bs' = bs\<lparr>bs_data := bs_data bs'\<rparr>"
proof -
  note t = unique_transfer [OF bs_ok_views [OF ok] av u]
  obtain d where w: "TryWriteBacking single v (Some src) n bs = Some (True, bs\<lparr>bs_data := d\<rparr>)"
    and inside: "\<forall>a\<in>span_of v n. d (the (view_at (bs_maps bs) a)) = src ! (a - unat v)"
    and outside: "\<forall>x. (\<forall>a\<in>span_of v n. view_at (bs_maps bs) a \<noteq> Some x) \<longrightarrow> d x = bs_data bs x"
    by (rule TryWriteBacking_spec [OF bs_ok_views [OF ok] len t])
  let ?bs = "bs\<lparr>bs_data := d\<rparr>"
  have ok': "bs_ok ?bs" using ok by (simp add: bs_ok_def maps_ok_def lookup_ok_def)
  have "guest_bytes v n ?bs = src"
    using inside len by (intro nth_equalityI) (simp_all add: guest_bytes_def guest_byte_def span_of_def)
  moreover have "can_transfer v n ?bs" using t(1) by (simp add: can_transfer_def)
  ultimately have rd: "TryReadBacking single v (Some dst) n ?bs = Some (True, Some src)" if "length dst = unat n" for dst
    using TryReadBacking_spec [OF bs_ok_views [OF ok'] that, of single v] by simp
  have frame: "guest_byte ?bs b = guest_byte bs b" if b: "b \<in> viewed (bs_maps bs)" "b \<notin> span_of v n" for b
  proof -
    obtain x where x: "view_at (bs_maps bs) b = Some x" using b(1) by (auto simp: viewed_def)
    have "\<forall>a\<in>span_of v n. view_at (bs_maps bs) a \<noteq> Some x"
      using u b(2) x unfolding unique_range_def by metis
    then show ?thesis using outside x by (simp add: guest_byte_def)
  qed
  show thesis by (rule that [OF w ok']) (use rd frame in auto)
qed


subsection \<open>Sparse reads\<close>

text \<open>The part of a view that a range overlaps.\<close>

lemma sparse_part_spec:
  assumes ok: "view_ok bs" and p: "p \<in> set (bs_maps bs)" and e: "unat v < unat f"
    and ov: "unat (me_vaddr (snd p)) < unat f" "unat v < unat (me_vaddr (snd p)) + unat (me_size (snd p))"
  obtains off c g where "sparse_part v f (snd p) = (off, c - v, g - c)" and "unat v \<le> unat c" and "unat c < unat g" and "unat g \<le> unat f"
    and "RangeOk off (g - c) bs" and "\<forall>a. unat c \<le> a \<and> a < unat g \<longleftrightarrow> unat v \<le> a \<and> a < unat f \<and> a \<in> guest_span (snd p)"
    and "\<forall>a. unat c \<le> a \<and> a < unat g \<longrightarrow> view_at (bs_maps bs) a = Some (unat off + (a - unat c))"
proof -
  let ?e = "snd p"
  let ?c = "max v (me_vaddr ?e)" and ?g = "min f (me_vaddr ?e + me_size ?e)"
  have eok: "entry_ok (unat (bs_size bs)) ?e" using ok p by (auto simp: entries_ok_def)
  have fin: "unat (me_vaddr ?e + me_size ?e) = unat (me_vaddr ?e) + unat (me_size ?e)"
    by (rule unat_end) (use eok in \<open>simp add: entry_ok_def\<close>)
  have c: "unat ?c = max (unat v) (unat (me_vaddr ?e))" by (simp add: max_def le_u64)
  have g: "unat ?g = min (unat f) (unat (me_vaddr ?e) + unat (me_size ?e))" by (simp add: min_def le_u64 fin)
  have cg: "unat (me_vaddr ?e) \<le> unat ?c" "unat ?c < unat ?g" "unat ?g \<le> unat (me_vaddr ?e) + unat (me_size ?e)"
    using c g e ov eok by (auto simp: entry_ok_def)
  have pp: "(fst p, ?e) \<in> set (bs_maps bs)" using p by simp
  note t = piece_in_backing [OF ok pp cg]
  show thesis
  proof (rule that [of "me_backing_offset ?e + ?c - me_vaddr ?e" ?c ?g])
    show "sparse_part v f ?e = (me_backing_offset ?e + ?c - me_vaddr ?e, ?c - v, ?g - ?c)"
      by (simp add: sparse_part_def Let_def)
    show "\<forall>a. unat ?c \<le> a \<and> a < unat ?g \<longleftrightarrow> unat v \<le> a \<and> a < unat f \<and> a \<in> guest_span ?e"
      unfolding c g span_of_def by auto
    show "unat v \<le> unat ?c" "unat ?g \<le> unat f" unfolding c g by simp_all
  qed (use t cg in auto)
qed

lemma sparse_views_spec:
  assumes ok: "entries_ok limit m" and vf: "unat v < unat f"
  shows "set (sparse_views v f m) =
    snd ` {p \<in> set m. unat (me_vaddr (snd p)) < unat f \<and> unat v < unat (me_vaddr (snd p)) + unat (me_size (snd p))}"
proof -
  obtain xs ys where xy: "om_lower v m = (xs, ys)" by fastforce
  note s = om_lower_split [OF entries_ok_om_ok [OF ok] xy]
  define it where "it = (if xs \<noteq> [] \<and> v < me_vaddr (snd (last xs)) + me_size (snd (last xs)) then last xs # ys else ys)"
  have keys: "\<forall>p\<in>set m. fst p = me_vaddr (snd p) \<and> fits (me_vaddr (snd p)) (me_size (snd p)) \<and> 0 < unat (me_size (snd p))"
    using ok by (simp add: entries_ok_def entry_ok_def)
  have reach: "v < me_vaddr (snd p) + me_size (snd p) \<longleftrightarrow> unat v < vhi p" if "p \<in> set m" for p
    using unat_end [of "me_vaddr (snd p)" "me_size (snd p)"] keys that by (simp add: less_u64)
  have ys: "\<forall>p\<in>set ys. unat v < vhi p"
  proof
    fix p assume "p \<in> set ys"
    then have "unat v \<le> unat (fst p)" "fst p = me_vaddr (snd p)" "0 < unat (me_size (snd p))" using s(1,3) keys by simp_all
    then show "unat v < vhi p" by simp
  qed
  have it: "set it = {p \<in> set m. unat v < vhi p}"
  proof (cases xs rule: rev_cases)
    case Nil
    then show ?thesis using s(1) ys by (auto simp: it_def)
  next
    case (snoc zs z)
    have "\<forall>p\<in>set zs. vhi p \<le> vlo z" using ok snoc s(1) by (simp add: entries_ok_append)
    moreover have "vlo z < unat v" using s(1,2) snoc keys by simp
    ultimately have "\<forall>p\<in>set zs. vhi p < unat v" by fastforce
    moreover have "z \<in> set m" using s(1) snoc by simp
    ultimately show ?thesis using reach [of z] s(1) snoc ys by (auto simp: it_def)
  qed
  obtain ws where "m = ws @ it"
  proof (cases "xs \<noteq> [] \<and> v < me_vaddr (snd (last xs)) + me_size (snd (last xs))")
    case True
    then have "m = butlast xs @ it" using s(1) append_butlast_last_id [of xs] by (metis append_Cons append_Nil append_assoc it_def)
    then show thesis by (rule that)
  next
    case False
    then have "it = ys" unfolding it_def by (rule if_not_P)
    then have "m = xs @ it" using s(1) by simp
    then show thesis by (rule that)
  qed
  then have "om_ok it" using entries_ok_om_ok [OF ok] by (simp add: om_ok_append)
  then have sorted: "sorted_wrt (\<lambda>a b. fst a < fst b) it" by (rule om_sorted_fst)
  have "set it = set (takeWhile (\<lambda>e. fst e < f) it) \<union> set (dropWhile (\<lambda>e. fst e < f) it)"
    by (metis set_append takeWhile_dropWhile_id)
  moreover have "\<forall>p\<in>set (dropWhile (\<lambda>e. fst e < f) it). \<not> fst p < f"
    using takeWhile_sorted_split(2) [OF sorted, of f] by (simp add: not_less)
  moreover have "\<forall>p\<in>set (takeWhile (\<lambda>e. fst e < f) it). fst p < f" using takeWhile_all by fast
  ultimately have "set (takeWhile (\<lambda>e. fst e < f) it) = {p \<in> set it. fst p < f}" by blast
  moreover have "takeWhile (\<lambda>e. me_vaddr (snd e) < f) it = takeWhile (\<lambda>e. fst e < f) it"
    using it keys by (intro takeWhile_cong) auto
  ultimately have "set (takeWhile (\<lambda>e. me_vaddr (snd e) < f) it) = {p \<in> set m. vlo p < unat f \<and> unat v < vhi p}"
    using it keys by (auto simp: less_u64)
  then show ?thesis unfolding sparse_views_def xy by (simp add: it_def [symmetric] Let_def)
qed

lemma sparse_fold:
  assumes ok: "view_ok bs" and fit: "unat f = unat v + unat n" and n: "0 < unat n" and len: "length d = unat n"
    and es: "\<forall>e\<in>set es. \<exists>p\<in>set (bs_maps bs). snd p = e \<and> unat (me_vaddr e) < unat f \<and> unat v < unat (me_vaddr e) + unat (me_size e)"
  shows "foldl (\<lambda>d (offset, at, bytes). read_part (bs_data bs) offset at bytes d) d (map (sparse_part v f) es) =
    map (\<lambda>i. if \<exists>e\<in>set es. unat v + i \<in> guest_span e then guest_byte bs (unat v + i) else d ! i) [0 ..< unat n]"
  using len es
proof (induction es arbitrary: d)
  case Nil
  then show ?case by (intro nth_equalityI) simp_all
next
  case (Cons e es)
  obtain p where p: "p \<in> set (bs_maps bs)" "snd p = e" "unat (me_vaddr (snd p)) < unat f"
    "unat v < unat (me_vaddr (snd p)) + unat (me_size (snd p))" using Cons.prems(2) by auto
  have vf: "unat v < unat f" using fit n by simp
  obtain off c g where s: "sparse_part v f (snd p) = (off, c - v, g - c)" "unat v \<le> unat c" "unat c < unat g" "unat g \<le> unat f"
      "RangeOk off (g - c) bs" and a: "\<forall>a. unat c \<le> a \<and> a < unat g \<longleftrightarrow> unat v \<le> a \<and> a < unat f \<and> a \<in> guest_span (snd p)"
    and view: "\<forall>a. unat c \<le> a \<and> a < unat g \<longrightarrow> view_at (bs_maps bs) a = Some (unat off + (a - unat c))"
    by (rule sparse_part_spec [OF ok p(1) vf p(3,4)])
  have cv: "unat (c - v) = unat c - unat v" "unat (g - c) = unat g - unat c" using s by (simp_all add: unat_minus_u64)
  have fitd: "unat (c - v) + unat (g - c) \<le> length d" using Cons.prems(1) cv s fit by simp
  let ?d = "read_part (bs_data bs) off (c - v) (g - c) d"
  note r = read_part_nth [OF fitd, where data = "bs_data bs" and off = off]
  have d: "?d ! i = (if unat v + i \<in> guest_span e then guest_byte bs (unat v + i) else d ! i)" if i: "i < unat n" for i
  proof -
    have in_part: "unat c \<le> unat v + i \<and> unat v + i < unat g \<longleftrightarrow> unat v + i \<in> guest_span e"
      using a [rule_format, of "unat v + i"] i fit p(2) by simp
    have part: "unat (c - v) \<le> i \<and> i < unat (c - v) + unat (g - c) \<longleftrightarrow> unat c \<le> unat v + i \<and> unat v + i < unat g"
      unfolding cv using s by auto
    have at: "guest_byte bs (unat v + i) = bs_data bs (unat off + (i - unat (c - v)))"
      if "unat c \<le> unat v + i \<and> unat v + i < unat g"
    proof -
      have "view_at (bs_maps bs) (unat v + i) = Some (unat off + (unat v + i - unat c))" using view that by blast
      moreover have "unat v + i - unat c = i - unat (c - v)" unfolding cv using s by simp
      ultimately show ?thesis by (simp add: guest_byte_def)
    qed
    have "?d ! i = (if unat (c - v) \<le> i \<and> i < unat (c - v) + unat (g - c) then bs_data bs (unat off + (i - unat (c - v))) else d ! i)"
      using r(2) [of i] Cons.prems(1) i by simp
    then show ?thesis unfolding part using at in_part by (simp del: add_diff_assoc)
  qed
  have "foldl (\<lambda>d (offset, at, bytes). read_part (bs_data bs) offset at bytes d) d (map (sparse_part v f) (e # es)) =
      foldl (\<lambda>d (offset, at, bytes). read_part (bs_data bs) offset at bytes d) ?d (map (sparse_part v f) es)"
    using s(1) p(2) by simp
  also have "\<dots> = map (\<lambda>i. if \<exists>e\<in>set es. unat v + i \<in> guest_span e then guest_byte bs (unat v + i) else ?d ! i) [0 ..< unat n]"
    by (rule Cons.IH) (use Cons.prems r(1) in auto)
  also have "\<dots> = map (\<lambda>i. if \<exists>e'\<in>set (e # es). unat v + i \<in> guest_span e' then guest_byte bs (unat v + i) else d ! i) [0 ..< unat n]"
    by (rule map_cong) (auto simp: d)
  finally show ?case .
qed

text \<open>A sparse read gives the guest's bytes where the range is mapped, and zeros elsewhere.\<close>

lemma TryReadSparseBacking_spec:
  assumes ok: "view_ok bs" and len: "length dst = unat n" and av: "bs_available bs" and n: "0 < unat n" "fits v n"
  shows "TryReadSparseBacking v (Some dst) n bs =
    (True, Some (map (\<lambda>i. if unat v + i \<in> viewed (bs_maps bs) then guest_byte bs (unat v + i) else 0) [0 ..< unat n]))"
proof -
  have e: "unat (v + n) = unat v + unat n" by (rule unat_end [OF n(2)])
  have vf: "unat v < unat (v + n)" using e n by simp
  have g: "\<not> (\<not> bs_available bs \<or> n = 0 \<or> u64_max - v < n)" using av n no_wrap neq0_u64 by blast
  let ?es = "sparse_views v (v + n) (bs_maps bs)"
  let ?zero = "overwrite 0 (replicate (unat n) 0) dst"
  note es = sparse_views_spec [OF ok vf]
  have zero: "?zero = replicate (unat n) 0" using len by (simp add: overwrite_def)
  have parts: "list_all (\<lambda>(offset, _, bytes). RangeOk offset bytes bs) (map (sparse_part v (v + n)) ?es)"
  proof -
    have "case sparse_part v (v + n) (snd p) of (offset, _, bytes) \<Rightarrow> RangeOk offset bytes bs"
      if p: "p \<in> set (bs_maps bs)" "vlo p < unat (v + n)" "unat v < vhi p" for p
    proof -
      obtain off c g where "sparse_part v (v + n) (snd p) = (off, c - v, g - c)" "RangeOk off (g - c) bs"
        by (rule sparse_part_spec [OF ok p(1) vf p(2,3)], rule that)
      then show ?thesis by simp
    qed
    note ok_part = this
    show ?thesis unfolding list_all_iff
    proof
      fix x assume "x \<in> set (map (sparse_part v (v + n)) ?es)"
      then obtain p where p: "p \<in> set (bs_maps bs)" "vlo p < unat (v + n)" "unat v < vhi p" and x: "x = sparse_part v (v + n) (snd p)"
        unfolding set_map es by blast
      show "case x of (offset, _, bytes) \<Rightarrow> RangeOk offset bytes bs" unfolding x by (rule ok_part [OF p])
    qed
  qed
  have fold: "foldl (\<lambda>d (offset, at, bytes). read_part (bs_data bs) offset at bytes d) ?zero (map (sparse_part v (v + n)) ?es) =
      map (\<lambda>i. if \<exists>e\<in>set ?es. unat v + i \<in> guest_span e then guest_byte bs (unat v + i) else ?zero ! i) [0 ..< unat n]"
  proof (rule sparse_fold [OF ok e n(1)])
    show "length ?zero = unat n" unfolding zero by simp
    show "\<forall>e\<in>set ?es. \<exists>p\<in>set (bs_maps bs). snd p = e \<and> unat (me_vaddr e) < unat (v + n) \<and>
        unat v < unat (me_vaddr e) + unat (me_size e)" unfolding es by blast
  qed
  have "(\<exists>e\<in>set ?es. unat v + i \<in> guest_span e) \<longleftrightarrow> unat v + i \<in> viewed (bs_maps bs)" if i: "i < unat n" for i
  proof -
    have "unat v + i \<in> guest_span (snd p) \<Longrightarrow> vlo p < unat (v + n) \<and> unat v < vhi p" for p
      unfolding span_of_def e using i by simp
    then show ?thesis unfolding es viewed_iff by blast
  qed
  then have mapped: "map (\<lambda>i. if \<exists>e\<in>set ?es. unat v + i \<in> guest_span e then guest_byte bs (unat v + i) else ?zero ! i) [0 ..< unat n] =
      map (\<lambda>i. if unat v + i \<in> viewed (bs_maps bs) then guest_byte bs (unat v + i) else 0) [0 ..< unat n]"
    by (intro map_cong) (auto simp: zero)
  have "TryReadSparseBacking v (Some dst) n bs =
      (True, Some (foldl (\<lambda>d (offset, at, bytes). read_part (bs_data bs) offset at bytes d) ?zero (map (sparse_part v (v + n)) ?es)))"
    unfolding TryReadSparseBacking_def option.case Let_def
    by (rule trans [OF if_not_P [OF g] if_not_P]) (insert parts, iprover)
  then show ?thesis unfolding fold mapped .
qed


subsection \<open>A store with two views\<close>

lemma GuestBackingStore_init_ok: "bs_ok (GuestBackingStore_init available n)"
  by (simp add: bs_ok_def maps_ok_def lookup_ok_def GuestBackingStore_init_def empty_translations_def counts_ok_def
      spans_of_def)

text \<open>A host that grants every request.\<close>

definition willing_host :: "unit mmap_ops" where
  "willing_host = \<lparr>MapView = (\<lambda>_ _ _ _ h. (True, h)), UnmapViewPreservePlaceholder = (\<lambda>_ _ h. (True, h))\<rparr>"

definition one_view :: backing_store where
  "one_view = fst (snd (the (MapExistingPlaceholderFixed willing_host 4096 8192 0 ReadWrite
     (GuestBackingStore_init True 65536, ()))))"

definition two_views :: backing_store where
  "two_views = fst (snd (the (MapExistingPlaceholderFixed willing_host 20480 4096 4096 ReadWrite (one_view, ()))))"

definition mapped_view :: "(failure_reason \<times> backing_store \<times> unit) option \<Rightarrow> bool" where
  "mapped_view x \<longleftrightarrow> (case x of Some (NoFailure, _, _) \<Rightarrow> True | _ \<Rightarrow> False)"

lemma mapped_view_Some:
  assumes "mapped_view x"
  shows "x = Some (NoFailure, fst (snd (the x)), ())"
proof -
  obtain f b where x: "x = Some (f, b, ())" using assms by (cases x) (auto simp: mapped_view_def)
  then show ?thesis using assms by (cases f) (simp_all add: mapped_view_def)
qed

lemma one_view_run: "MapExistingPlaceholderFixed willing_host 4096 8192 0 ReadWrite (GuestBackingStore_init True 65536, ()) =
  Some (NoFailure, one_view, ())"
  unfolding one_view_def by (rule mapped_view_Some) code_simp

lemma two_views_run: "MapExistingPlaceholderFixed willing_host 20480 4096 4096 ReadWrite (one_view, ()) = Some (NoFailure, two_views, ())"
  unfolding two_views_def by (rule mapped_view_Some) code_simp

lemma one_view_maps: "bs_maps one_view = [(4096, \<lparr>me_vaddr = 4096, me_size = 8192, me_backing_offset = 0, me_mode = ReadWrite\<rparr>)]"
  by code_simp

lemma two_views_maps: "bs_maps two_views =
    [(4096, \<lparr>me_vaddr = 4096, me_size = 8192, me_backing_offset = 0, me_mode = ReadWrite\<rparr>),
     (20480, \<lparr>me_vaddr = 20480, me_size = 4096, me_backing_offset = 4096, me_mode = ReadWrite\<rparr>)]"
  by code_simp

lemma two_views_ok: "bs_ok two_views" and two_views_data: "bs_data two_views = (\<lambda>_. 0)"
proof -
  have one: "bs_ok one_view \<and> bs_data one_view = (\<lambda>_. 0)"
    using MapExisting_spec [OF GuestBackingStore_init_ok _ _ _ one_view_run]
    by (simp add: fits_def GuestBackingStore_init_def same_store_def)
  then have "bs_ok two_views \<and> bs_data two_views = (\<lambda>_. 0)"
    using MapExisting_spec [OF _ _ _ _ two_views_run]
    by (simp add: fits_def one_view_maps span_of_def same_store_def)
  then show "bs_ok two_views" "bs_data two_views = (\<lambda>_. 0)" by simp_all
qed

subsection \<open>Properties\<close>

text \<open>
  C18: the alias test kept up to date by the coverage map and the one rebuilt from all views agree
  (so that the check under \<open>KYTY_ALIAS_VERIFY\<close> never ends the program), and both say that the range
  lies in one view and that no other guest address shows one of its bytes.
\<close>

theorem IsUniqueRange_agrees:
  assumes "bs_ok bs"
  shows "(IsUniqueRangeUnlocked v n bs \<longleftrightarrow> unique_range v n bs) \<and>
    (\<exists>bs'. IsUniqueRangeRebuilt v n bs = Some (IsUniqueRangeUnlocked v n bs, bs') \<and> bs_ok bs' \<and> bs_maps bs' = bs_maps bs) \<and>
    (\<exists>bs'. IsUniqueRange verify v n bs = Some (IsUniqueRangeUnlocked v n bs, bs') \<and> bs_ok bs' \<and> bs_maps bs' = bs_maps bs)"
proof -
  obtain b where b: "IsUniqueRangeRebuilt v n bs = Some (unique_range v n bs, b)" "bs_ok b"
    "b = bs\<lparr>bs_aliased_physical_ranges := bs_aliased_physical_ranges b, bs_alias_ranges_valid := bs_alias_ranges_valid b\<rparr>"
    by (rule IsUniqueRangeRebuilt_spec [OF assms])
  obtain c where c: "IsUniqueRange verify v n bs = Some (unique_range v n bs, c)" "bs_ok c"
    "c = bs\<lparr>bs_aliased_physical_ranges := bs_aliased_physical_ranges c, bs_alias_ranges_valid := bs_alias_ranges_valid c\<rparr>"
    by (rule IsUniqueRange_spec [OF assms])
  have "bs_maps b = bs_maps bs" "bs_maps c = bs_maps bs"
    using arg_cong [OF b(3), of bs_maps] arg_cong [OF c(3), of bs_maps] by simp_all
  then show ?thesis using IsUniqueRangeUnlocked_spec [OF assms] b(1,2) c(1,2) by auto
qed

theorem IsUniqueRange_agrees_witness:
  "IsUniqueRangeUnlocked 4096 4096 two_views \<and> \<not> IsUniqueRangeUnlocked 8192 16 two_views \<and>
   (\<exists>bs'. IsUniqueRange True 8192 16 two_views = Some (IsUniqueRangeUnlocked 8192 16 two_views, bs') \<and> bs_ok bs' \<and>
      bs_maps bs' = bs_maps two_views)"
proof -
  have "IsUniqueRangeUnlocked 4096 4096 two_views" "\<not> IsUniqueRangeUnlocked 8192 16 two_views" by code_simp+
  then show ?thesis using IsUniqueRange_agrees [OF two_views_ok, of 8192 16 True] by blast
qed

text \<open>
  C19: a host read answers the same with and without the translation cache, whatever the read
  transaction answered: the guest's bytes when the whole range is mapped, and false with the buffer
  untouched otherwise. Nothing but the cache changes, and it stays sound.
\<close>

theorem TryReadBackingToHost_correct:
  assumes "bs_ok bs" and "length dst = unat n"
  shows "\<exists>t. TryReadBackingToHost mode acquired narrowed single v (Some dst) n bs =
      Some (can_transfer v n bs, Some (if can_transfer v n bs then guest_bytes v n bs else dst), bs\<lparr>bs_host_read_translations := t\<rparr>) \<and>
    bs_ok (bs\<lparr>bs_host_read_translations := t\<rparr>)"
proof -
  obtain t where "TryReadBackingToHost mode acquired narrowed single v (Some dst) n bs =
      Some (can_transfer v n bs, Some (if can_transfer v n bs then guest_bytes v n bs else dst), bs\<lparr>bs_host_read_translations := t\<rparr>)"
    "bs_ok (bs\<lparr>bs_host_read_translations := t\<rparr>)" by (rule TryReadBackingToHost_spec [OF assms])
  then show ?thesis by blast
qed

theorem TryReadBackingToHost_correct_witness:
  "\<exists>t. TryReadBackingToHost True True True True 4200 (Some [0, 0]) 2 two_views =
      Some (True, Some [0, 0], two_views\<lparr>bs_host_read_translations := t\<rparr>) \<and>
    bs_ok (two_views\<lparr>bs_host_read_translations := t\<rparr>)"
proof -
  have "fst (BackingPieces 4200 2 two_views)" by code_simp
  then have "can_transfer 4200 2 two_views" using BackingPieces_spec [OF bs_ok_views [OF two_views_ok]] by blast
  moreover have "guest_bytes 4200 2 two_views = [0, 0]"
    by (simp add: guest_bytes_def guest_byte_def two_views_data upt_conv_Cons)
  ultimately show ?thesis using TryReadBackingToHost_correct [OF two_views_ok, of "[0, 0]" 2 True True True True 4200] by simp
qed

text \<open>
  C16: what is written through a range that passes the alias test is read back, and no other guest
  address sees a change.
\<close>

theorem write_read_unique:
  assumes "bs_ok bs" and "bs_available bs" and "IsUniqueRangeUnlocked v n bs" and "length src = unat n" and "length dst = unat n"
  shows "\<exists>bs'. TryWriteBacking single v (Some src) n bs = Some (True, bs') \<and> bs_ok bs' \<and>
    TryReadBacking single' v (Some dst) n bs' = Some (True, Some src) \<and>
    (\<forall>b\<in>viewed (bs_maps bs). b \<notin> span_of v n \<longrightarrow> guest_byte bs' b = guest_byte bs b)"
proof -
  have u: "unique_range v n bs" using IsUniqueRangeUnlocked_spec [OF assms(1)] assms(3) by simp
  obtain bs' where w: "TryWriteBacking single v (Some src) n bs = Some (True, bs')" "bs_ok bs'"
    "\<forall>dst. length dst = unat n \<longrightarrow> TryReadBacking single v (Some dst) n bs' = Some (True, Some src)"
    "\<forall>b\<in>viewed (bs_maps bs). b \<notin> span_of v n \<longrightarrow> guest_byte bs' b = guest_byte bs b"
    by (rule write_unique [OF assms(1,2) u assms(4)])
  have "TryReadBacking single' v (Some dst) n bs' = TryReadBacking single v (Some dst) n bs'"
    using TryReadBacking_spec [OF bs_ok_views [OF w(2)] assms(5)] by simp
  then show ?thesis using w assms(5) by auto
qed

theorem write_read_unique_witness:
  "\<exists>bs'. TryWriteBacking True 4200 (Some [7, 8]) 2 two_views = Some (True, bs') \<and> bs_ok bs' \<and>
    TryReadBacking False 4200 (Some [0, 0]) 2 bs' = Some (True, Some [7, 8]) \<and>
    (\<forall>b\<in>viewed (bs_maps two_views). b \<notin> span_of 4200 2 \<longrightarrow> guest_byte bs' b = guest_byte two_views b)"
proof -
  have "bs_available two_views" "IsUniqueRangeUnlocked 4200 2 two_views" by code_simp+
  then show ?thesis
    using write_read_unique [OF two_views_ok, of 4200 2 "[7, 8]" "[0, 0]" True False] by simp
qed



end
