(* ===== verification/BackingFence.thy ===== *)
theory BackingFence
  imports Prelude Runs
begin

text \<open>
  How readers and writers of the backing store keep out of each other's way: \<open>BackingWriteFence\<close>,
  \<open>DataWriteFence\<close> and \<open>BackingReadTransaction\<close> of
  \<open>src/src/kernel/memoryAddressSpace.inc\<close>. A host read takes no lock. Every access to an atomic or
  a mutex is one step, and the steps of the threads interleave as they like. The sequentially
  consistent operations see the last value; the one relaxed load, with which a reader starts, may
  see anything and is an argument of its event.
\<close>

unbundle bit_operations_syntax

subsection \<open>Byte ranges as one word\<close>

definition AllPages :: u64 where "AllPages = 0xffffffff"

definition PackPages :: "u64 \<Rightarrow> u64 \<Rightarrow> u64" where
  "PackPages b e =
     (let first = min (drop_bit 12 b) 0xfffffffe; last = min (drop_bit 12 (e + 4095)) 0xffffffff
      in push_bit 32 first OR max last (first + 1))"

definition PagesOverlap :: "u64 \<Rightarrow> u64 \<Rightarrow> bool" where
  "PagesOverlap a b \<longleftrightarrow> a \<noteq> 0 \<and> b \<noteq> 0 \<and> drop_bit 32 a < b AND 0xffffffff \<and> drop_bit 32 b < a AND 0xffffffff"

subsection \<open>Threads\<close>

text \<open>
  Where a thread is. A mapping change holds the mutex exclusively; a transfer holds it shared and the
  data mutex, and fences off all readers when it spans views (\<open>Fencing True\<close>), those of its own
  bytes \<open>[b, e)\<close> otherwise.
\<close>

datatype fence_pc =
    Idle
  | Exclusive
  | SharedLocked
  | DataLocked
  | Fencing bool
  | Fenced bool
  | DataWaiting u64 u64
  | DataWriting u64 u64
  | Trying
  | Claimed
  | Reading
  | Narrowed u64 u64
  | Copying u64 u64
  | Releasing

record fence_state =
  fe_write_pending :: bool
  fe_data_write_pages :: u64
  fe_read_pages :: u64
  fe_exclusive :: "nat option"
  fe_shared :: "nat list"
  fe_data_owner :: "nat option"
  fe_pc :: "nat \<Rightarrow> fence_pc"

definition fence_init :: fence_state where
  "fence_init = \<lparr>fe_write_pending = False, fe_data_write_pages = 0, fe_read_pages = 0, fe_exclusive = None,
     fe_shared = [], fe_data_owner = None, fe_pc = (\<lambda>_. Idle)\<rparr>"

definition at_pc :: "nat \<Rightarrow> fence_pc \<Rightarrow> fence_state \<Rightarrow> fence_state" where
  "at_pc t p s = s\<lparr>fe_pc := (fe_pc s)(t := p)\<rparr>"

datatype fence_event =
    LockExclusive nat
  | UnlockExclusive nat
  | LockShared nat
  | UnlockShared nat
  | LockData nat
  | UnlockData nat
  | WriteFenceAnnounce nat
  | WriteFencePoll nat
  | WriteFenceRelease nat
  | DataFenceAnnounce nat u64 u64
  | DataFencePoll nat
  | DataFenceRelease nat
  | ReadTry nat bool
  | ReadClaim nat
  | ReadCheck nat
  | ReadNarrow nat u64 u64
  | ReadRecheck nat
  | ReadRelease nat

subsection \<open>The steps\<close>

text \<open>The mutexes.\<close>

fun mutex_step :: "fence_event \<Rightarrow> fence_state \<Rightarrow> fence_state option" where
  "mutex_step (LockExclusive t) s =
     (if fe_pc s t = Idle \<and> fe_exclusive s = None \<and> fe_shared s = []
      then Some (at_pc t Exclusive (s\<lparr>fe_exclusive := Some t\<rparr>)) else None)"
| "mutex_step (UnlockExclusive t) s =
     (if fe_pc s t = Exclusive then Some (at_pc t Idle (s\<lparr>fe_exclusive := None\<rparr>)) else None)"
| "mutex_step (LockShared t) s =
     (if fe_pc s t = Idle \<and> fe_exclusive s = None
      then Some (at_pc t SharedLocked (s\<lparr>fe_shared := t # fe_shared s\<rparr>)) else None)"
| "mutex_step (UnlockShared t) s =
     (if fe_pc s t = SharedLocked then Some (at_pc t Idle (s\<lparr>fe_shared := remove1 t (fe_shared s)\<rparr>)) else None)"
| "mutex_step (LockData t) s =
     (if fe_pc s t = SharedLocked \<and> fe_data_owner s = None
      then Some (at_pc t DataLocked (s\<lparr>fe_data_owner := Some t\<rparr>)) else None)"
| "mutex_step (UnlockData t) s =
     (if fe_pc s t = DataLocked then Some (at_pc t SharedLocked (s\<lparr>fe_data_owner := None\<rparr>)) else None)"
| "mutex_step _ s = None"

text \<open>\<open>BackingWriteFence\<close>: announce, wait until nobody reads, and withdraw.\<close>

fun write_fence_step :: "fence_event \<Rightarrow> fence_state \<Rightarrow> fence_state option" where
  "write_fence_step (WriteFenceAnnounce t) s =
     (if fe_pc s t = Exclusive then Some (at_pc t (Fencing False) (s\<lparr>fe_write_pending := True\<rparr>))
      else if fe_pc s t = DataLocked then Some (at_pc t (Fencing True) (s\<lparr>fe_write_pending := True\<rparr>))
      else None)"
| "write_fence_step (WriteFencePoll t) s =
     (case fe_pc s t of
        Fencing spanning \<Rightarrow> Some (if fe_read_pages s \<noteq> 0 then s else at_pc t (Fenced spanning) s)
      | _ \<Rightarrow> None)"
| "write_fence_step (WriteFenceRelease t) s =
     (case fe_pc s t of
        Fenced spanning \<Rightarrow>
          Some (at_pc t (if spanning then DataLocked else Exclusive) (s\<lparr>fe_write_pending := False\<rparr>))
      | _ \<Rightarrow> None)"
| "write_fence_step _ s = None"

text \<open>\<open>DataWriteFence\<close>: publish the bytes, wait for a reader of them, and withdraw.\<close>

fun data_fence_step :: "fence_event \<Rightarrow> fence_state \<Rightarrow> fence_state option" where
  "data_fence_step (DataFenceAnnounce t b e) s =
     (if fe_pc s t = DataLocked
      then Some (at_pc t (DataWaiting b e) (s\<lparr>fe_data_write_pages := PackPages b e\<rparr>)) else None)"
| "data_fence_step (DataFencePoll t) s =
     (case fe_pc s t of
        DataWaiting b e \<Rightarrow>
          Some (if PagesOverlap (fe_read_pages s) (PackPages b e) then s else at_pc t (DataWriting b e) s)
      | _ \<Rightarrow> None)"
| "data_fence_step (DataFenceRelease t) s =
     (case fe_pc s t of
        DataWriting b e \<Rightarrow> Some (at_pc t DataLocked (s\<lparr>fe_data_write_pages := 0\<rparr>))
      | _ \<Rightarrow> None)"
| "data_fence_step _ s = None"

text \<open>
  \<open>BackingReadTransaction\<close>: claim the one reader slot, look again for a writer, narrow to the bytes
  to copy and look for a writer of those.
\<close>

definition release_read :: "nat \<Rightarrow> fence_state \<Rightarrow> fence_state" where
  "release_read t s = at_pc t Idle (s\<lparr>fe_read_pages := 0\<rparr>)"

fun read_step :: "fence_event \<Rightarrow> fence_state \<Rightarrow> fence_state option" where
  "read_step (ReadTry t seen) s =
     (if fe_pc s t = Idle then Some (if seen then s else at_pc t Trying s) else None)"
| "read_step (ReadClaim t) s =
     (if fe_pc s t = Trying
      then Some (if fe_read_pages s = 0 then at_pc t Claimed (s\<lparr>fe_read_pages := AllPages\<rparr>) else at_pc t Idle s)
      else None)"
| "read_step (ReadCheck t) s =
     (if fe_pc s t = Claimed then Some (at_pc t (if fe_write_pending s then Releasing else Reading) s) else None)"
| "read_step (ReadNarrow t b e) s =
     (if fe_pc s t = Reading then Some (at_pc t (Narrowed b e) (s\<lparr>fe_read_pages := PackPages b e\<rparr>)) else None)"
| "read_step (ReadRecheck t) s =
     (case fe_pc s t of
        Narrowed b e \<Rightarrow>
          Some (at_pc t (if PagesOverlap (fe_data_write_pages s) (PackPages b e) then Releasing else Copying b e) s)
      | _ \<Rightarrow> None)"
| "read_step (ReadRelease t) s =
     (case fe_pc s t of
        Reading \<Rightarrow> Some (release_read t s)
      | Copying b e \<Rightarrow> Some (release_read t s)
      | Releasing \<Rightarrow> Some (release_read t s)
      | _ \<Rightarrow> None)"
| "read_step _ s = None"

definition fence_exec :: "fence_event \<Rightarrow> fence_state \<Rightarrow> fence_state option" where
  "fence_exec ev s =
     (case mutex_step ev s of
        Some s' \<Rightarrow> Some s'
      | None \<Rightarrow>
          (case write_fence_step ev s of
             Some s' \<Rightarrow> Some s'
           | None \<Rightarrow> (case data_fence_step ev s of Some s' \<Rightarrow> Some s' | None \<Rightarrow> read_step ev s)))"

end
