(* ===== verification/BackingFenceProps.thy ===== *)
theory BackingFenceProps
  imports BackingFence
begin

text \<open>
  What the fences of the backing store exclude: while a mapping change or a transfer over several
  views is inside its fence, nobody else reads or writes, and a transfer of one view and a reader
  that copies at the same time touch different bytes.
\<close>

unbundle bit_operations_syntax

subsection \<open>Packed page ranges\<close>

lemma unat_page: "unat (drop_bit 12 (x :: u64)) = unat x div 4096"
  unfolding unat_drop_bit_eq by (simp add: drop_bit_eq_div)

lemma high_bit_clear:
  assumes "(x :: u64) < 0x100000000" and "32 \<le> n"
  shows "\<not> bit x n"
proof -
  have "unat x < 2 ^ 32" using assms(1) by (simp add: less_u64)
  also have "(2 :: nat) ^ 32 \<le> 2 ^ n" using assms(2) by (rule power_increasing) simp
  finally have "\<not> bit (unat x) n" by (simp add: bit_iff_odd)
  then show ?thesis by (auto simp: bit_unsigned_iff dest: bit_imp_le_length)
qed

lemma drop_pack:
  fixes f m :: u64
  assumes "f < 0x100000000" and "m < 0x100000000"
  shows "drop_bit 32 (push_bit 32 f OR m) = f" and "(push_bit 32 f OR m) AND 0xffffffff = m"
proof -
  have ff: "(0xffffffff :: u64) = mask 32" by (simp add: mask_eq_exp_minus_1)
  note fb = high_bit_clear [OF assms(1)] and mb = high_bit_clear [OF assms(2)]
  show "drop_bit 32 (push_bit 32 f OR m) = f"
    by (rule bit_word_eqI) (auto simp: bit_simps mb, use fb not_le in blast)
  show "(push_bit 32 f OR m) AND 0xffffffff = m"
    unfolding ff by (rule bit_word_eqI) (auto simp: bit_simps, use mb not_le in blast)
qed

lemma PackPages_parts:
  "drop_bit 32 (PackPages b e) = min (drop_bit 12 b) 0xfffffffe"
  "PackPages b e AND 0xffffffff =
     max (min (drop_bit 12 (e + 4095)) 0xffffffff) (min (drop_bit 12 b) 0xfffffffe + 1)"
  "PackPages b e \<noteq> 0"
proof -
  define f where "f = min (drop_bit 12 b) (0xfffffffe :: u64)"
  define m where "m = max (min (drop_bit 12 (e + 4095)) (0xffffffff :: u64)) (f + 1)"
  have uf: "unat f \<le> 0xfffffffe" by (simp add: f_def unat_min_u64)
  have uf1: "unat (f + 1) = unat f + 1" using uf by (simp add: unat_plus_u64)
  have um: "unat m \<le> 0xffffffff" using uf by (simp add: m_def unat_max_u64 unat_min_u64 uf1)
  have m0: "m \<noteq> 0" using uf1 by (simp add: neq0_u64 m_def unat_max_u64)
  have lt: "f < 0x100000000" "m < 0x100000000" using uf um by (simp_all add: less_u64)
  have pk: "PackPages b e = push_bit 32 f OR m" by (simp add: PackPages_def f_def m_def Let_def)
  show "drop_bit 32 (PackPages b e) = min (drop_bit 12 b) 0xfffffffe"
    unfolding pk drop_pack(1) [OF lt] by (rule f_def)
  show "PackPages b e AND 0xffffffff = max (min (drop_bit 12 (e + 4095)) 0xffffffff) (min (drop_bit 12 b) 0xfffffffe + 1)"
    by (simp only: pk drop_pack(2) [OF lt]) (simp only: m_def f_def)
  show "PackPages b e \<noteq> 0"
  proof
    assume "PackPages b e = 0"
    then have "m = 0" using drop_pack(2) [OF lt] pk by simp
    then show False using m0 by simp
  qed
qed

text \<open>
  Two ranges with a byte in common have a page in common, whatever their size: the packing saturates
  and never loses a page. A range may not end in the last page of the address space, where
  \<open>end + 4095\<close> wraps.
\<close>

definition page_range :: "u64 \<Rightarrow> u64 \<Rightarrow> bool" where
  "page_range b e \<longleftrightarrow> b < e \<and> e \<le> 0xfffffffffffff000"

lemma PagesOverlap_bytes:
  assumes r: "page_range b e" "page_range b' e'" and x: "b \<le> x" "x < e" "b' \<le> x" "x < e'"
  shows "PagesOverlap (PackPages b e) (PackPages b' e')"
proof -
  have below: "min (drop_bit 12 p) (0xfffffffe :: u64) < max (min (drop_bit 12 (q + 4095)) 0xffffffff) (min (drop_bit 12 p') 0xfffffffe + 1)"
    if "p \<le> x" "x < q" "page_range p' q" for p q p' :: u64
  proof -
    have q: "unat (q + 4095) = unat q + 4095"
      using that(3) by (simp add: page_range_def unat_plus_u64 le_u64)
    have "unat p < unat q" using that(1,2) by (simp add: le_u64 less_u64)
    then have "unat p div 4096 < (unat q + 4095) div 4096" by linarith
    then show ?thesis by (simp add: less_u64 unat_max_u64 unat_min_u64 unat_page q less_max_iff_disj min_less_iff_disj)
  qed
  show ?thesis
    unfolding PagesOverlap_def PackPages_parts(1,2)
    using PackPages_parts(3) below [OF x(1,4) r(2)] below [OF x(3,2) r(1)] by blast
qed

subsection \<open>The invariant\<close>

text \<open>What a thread holds at each point.\<close>

fun holds_exclusive :: "fence_pc \<Rightarrow> bool" where
  "holds_exclusive Exclusive = True"
| "holds_exclusive (Fencing spanning) = (\<not> spanning)"
| "holds_exclusive (Fenced spanning) = (\<not> spanning)"
| "holds_exclusive _ = False"

fun holds_data :: "fence_pc \<Rightarrow> bool" where
  "holds_data DataLocked = True"
| "holds_data (Fencing spanning) = spanning"
| "holds_data (Fenced spanning) = spanning"
| "holds_data (DataWaiting b e) = True"
| "holds_data (DataWriting b e) = True"
| "holds_data _ = False"

definition holds_shared :: "fence_pc \<Rightarrow> bool" where
  "holds_shared p \<longleftrightarrow> p = SharedLocked \<or> holds_data p"

fun announces :: "fence_pc \<Rightarrow> bool" where
  "announces (Fencing spanning) = True"
| "announces (Fenced spanning) = True"
| "announces _ = False"

fun data_pages :: "fence_pc \<Rightarrow> u64" where
  "data_pages (DataWaiting b e) = PackPages b e"
| "data_pages (DataWriting b e) = PackPages b e"
| "data_pages _ = 0"

text \<open>The owner of the reader slot, and what the slot holds for it.\<close>

fun owns_slot :: "fence_pc \<Rightarrow> bool" where
  "owns_slot Claimed = True"
| "owns_slot Reading = True"
| "owns_slot (Narrowed b e) = True"
| "owns_slot (Copying b e) = True"
| "owns_slot Releasing = True"
| "owns_slot _ = False"

fun slot_pages :: "fence_pc \<Rightarrow> u64 \<Rightarrow> bool" where
  "slot_pages Claimed w = (w = AllPages)"
| "slot_pages Reading w = (w = AllPages)"
| "slot_pages (Narrowed b e) w = (w = PackPages b e)"
| "slot_pages (Copying b e) w = (w = PackPages b e)"
| "slot_pages _ w = True"

definition locks_ok :: "fence_state \<Rightarrow> bool" where
  "locks_ok s \<longleftrightarrow>
     (\<forall>t. fe_exclusive s = Some t \<longleftrightarrow> holds_exclusive (fe_pc s t)) \<and>
     (\<forall>t. t \<in> set (fe_shared s) \<longleftrightarrow> holds_shared (fe_pc s t)) \<and> distinct (fe_shared s) \<and>
     (\<forall>t. fe_data_owner s = Some t \<longleftrightarrow> holds_data (fe_pc s t)) \<and>
     (fe_exclusive s \<noteq> None \<longrightarrow> fe_shared s = [])"

definition pending_ok :: "fence_state \<Rightarrow> bool" where
  "pending_ok s \<longleftrightarrow> (fe_write_pending s \<longleftrightarrow> (\<exists>t. announces (fe_pc s t)))"

definition data_ok :: "fence_state \<Rightarrow> bool" where
  "data_ok s \<longleftrightarrow>
     (\<forall>t. holds_data (fe_pc s t) \<longrightarrow> fe_data_write_pages s = data_pages (fe_pc s t)) \<and>
     (fe_data_owner s = None \<longrightarrow> fe_data_write_pages s = 0)"

definition slot_ok :: "fence_state \<Rightarrow> bool" where
  "slot_ok s \<longleftrightarrow>
     (fe_read_pages s \<noteq> 0 \<longleftrightarrow> (\<exists>t. owns_slot (fe_pc s t))) \<and>
     (\<forall>t. owns_slot (fe_pc s t) \<longrightarrow> slot_pages (fe_pc s t) (fe_read_pages s)) \<and>
     (\<forall>t u. owns_slot (fe_pc s t) \<longrightarrow> owns_slot (fe_pc s u) \<longrightarrow> t = u)"

fun inside_read :: "fence_pc \<Rightarrow> bool" where
  "inside_read Reading = True"
| "inside_read (Narrowed b e) = True"
| "inside_read (Copying b e) = True"
| "inside_read _ = False"

fun is_fenced :: "fence_pc \<Rightarrow> bool" where
  "is_fenced (Fenced spanning) = True"
| "is_fenced _ = False"

definition fences_ok :: "fence_state \<Rightarrow> bool" where
  "fences_ok s \<longleftrightarrow>
     (\<forall>t u. is_fenced (fe_pc s t) \<longrightarrow> \<not> inside_read (fe_pc s u)) \<and>
     (\<forall>t u b e b' e'. fe_pc s t = DataWriting b e \<longrightarrow> fe_pc s u = Copying b' e' \<longrightarrow>
        \<not> PagesOverlap (PackPages b' e') (PackPages b e))"

definition fence_ok :: "fence_state \<Rightarrow> bool" where
  "fence_ok s \<longleftrightarrow> locks_ok s \<and> pending_ok s \<and> data_ok s \<and> slot_ok s \<and> fences_ok s"

lemma fence_init_ok: "fence_ok fence_init"
  by (simp add: fence_ok_def locks_ok_def pending_ok_def data_ok_def slot_ok_def fences_ok_def fence_init_def holds_shared_def)

subsection \<open>Every step keeps it\<close>

lemmas fence_simps = fence_ok_def locks_ok_def pending_ok_def data_ok_def slot_ok_def fences_ok_def holds_shared_def at_pc_def release_read_def

text \<open>At most one thread is the exclusive owner, and one the data owner, and not both at once.\<close>

lemma owner_unique:
  assumes "locks_ok s"
  shows "holds_exclusive (fe_pc s t) \<Longrightarrow> holds_exclusive (fe_pc s u) \<Longrightarrow> t = u"
    and "holds_data (fe_pc s t) \<Longrightarrow> holds_data (fe_pc s u) \<Longrightarrow> t = u"
    and "holds_exclusive (fe_pc s t) \<Longrightarrow> \<not> holds_data (fe_pc s u)"
proof -
  have x: "\<And>t. fe_exclusive s = Some t \<longleftrightarrow> holds_exclusive (fe_pc s t)"
    and d: "\<And>t. fe_data_owner s = Some t \<longleftrightarrow> holds_data (fe_pc s t)"
    and h: "\<And>t. t \<in> set (fe_shared s) \<longleftrightarrow> holds_shared (fe_pc s t)"
    and e: "fe_exclusive s \<noteq> None \<Longrightarrow> fe_shared s = []"
    using assms by (simp_all add: locks_ok_def)
  show "holds_exclusive (fe_pc s t) \<Longrightarrow> holds_exclusive (fe_pc s u) \<Longrightarrow> t = u"
    by (metis x option.inject)
  show "holds_data (fe_pc s t) \<Longrightarrow> holds_data (fe_pc s u) \<Longrightarrow> t = u"
    by (metis d option.inject)
  show "\<not> holds_data (fe_pc s u)" if "holds_exclusive (fe_pc s t)"
    using e h [of u] x [of t] that by (auto simp: holds_shared_def)
qed

lemma announces_holds: "announces p \<Longrightarrow> holds_exclusive p \<or> holds_data p"
  by (cases p) simp_all

lemma announcer_unique:
  "locks_ok s \<Longrightarrow> announces (fe_pc s t) \<Longrightarrow> announces (fe_pc s u) \<Longrightarrow> t = u"
  using owner_unique announces_holds by blast

text \<open>A step that takes and gives back no mutex.\<close>

lemma locks_move:
  assumes "locks_ok s" and "fe_pc s' = (fe_pc s)(t := p')"
    and "fe_exclusive s' = fe_exclusive s" "fe_shared s' = fe_shared s" "fe_data_owner s' = fe_data_owner s"
    and "holds_exclusive p' = holds_exclusive (fe_pc s t)" "holds_data p' = holds_data (fe_pc s t)"
    and "holds_shared p' = holds_shared (fe_pc s t)"
  shows "locks_ok s'"
  using assms by (auto simp: locks_ok_def)

lemma locks_mutex_step: "locks_ok s \<Longrightarrow> mutex_step ev s = Some s' \<Longrightarrow> locks_ok s'"
  by (cases ev)
     (auto simp: fence_simps split: if_splits, (metis holds_exclusive.simps(1) holds_data.simps(1) option.inject)+)

lemma locks_write_step: "locks_ok s \<Longrightarrow> write_fence_step ev s = Some s' \<Longrightarrow> locks_ok s'"
  by (cases ev) (auto simp: at_pc_def holds_shared_def split: if_splits fence_pc.splits elim!: locks_move)

lemma locks_data_step: "locks_ok s \<Longrightarrow> data_fence_step ev s = Some s' \<Longrightarrow> locks_ok s'"
  by (cases ev) (auto simp: at_pc_def holds_shared_def split: if_splits fence_pc.splits elim!: locks_move)

lemma locks_read_step: "locks_ok s \<Longrightarrow> read_step ev s = Some s' \<Longrightarrow> locks_ok s'"
  by (cases ev)
     (auto simp: at_pc_def release_read_def holds_shared_def split: if_splits fence_pc.splits elim!: locks_move)

text \<open>The announcement of \<open>BackingWriteFence\<close>.\<close>

lemma pending_move:
  "pending_ok s \<Longrightarrow> fe_pc s' = (fe_pc s)(t := p') \<Longrightarrow> fe_write_pending s' = fe_write_pending s \<Longrightarrow>
     announces p' = announces (fe_pc s t) \<Longrightarrow> pending_ok s'"
  unfolding pending_ok_def by (cases "announces p'") auto

lemma pending_announce: "fe_pc s' = (fe_pc s)(t := p') \<Longrightarrow> announces p' \<Longrightarrow> fe_write_pending s' \<Longrightarrow> pending_ok s'"
  unfolding pending_ok_def by (metis fun_upd_same)

lemma pending_withdraw:
  assumes "locks_ok s" "announces (fe_pc s t)" "fe_pc s' = (fe_pc s)(t := p')" "\<not> announces p'" "\<not> fe_write_pending s'"
  shows "pending_ok s'"
  using assms(3-5) announcer_unique [OF assms(1,2)] by (auto simp: pending_ok_def)

lemma pending_mutex_step: "pending_ok s \<Longrightarrow> mutex_step ev s = Some s' \<Longrightarrow> pending_ok s'"
  by (cases ev) (auto simp: at_pc_def split: if_splits elim!: pending_move)

lemma pending_write_step:
  assumes "locks_ok s" and "pending_ok s" and "write_fence_step ev s = Some s'"
  shows "pending_ok s'"
proof (cases ev)
  case (WriteFencePoll t)
  then show ?thesis using assms(2,3) by (auto simp: at_pc_def split: if_splits fence_pc.splits elim!: pending_move)
next
  case (WriteFenceRelease t)
  then show ?thesis
    using assms(3) by (auto simp: at_pc_def split: fence_pc.splits if_splits intro!: pending_withdraw [OF assms(1), of t])
qed (use assms(3) in \<open>auto simp: at_pc_def split: if_splits intro!: pending_announce\<close>)

lemma pending_data_step: "pending_ok s \<Longrightarrow> data_fence_step ev s = Some s' \<Longrightarrow> pending_ok s'"
  by (cases ev) (auto simp: at_pc_def split: if_splits fence_pc.splits elim!: pending_move)

lemma pending_read_step: "pending_ok s \<Longrightarrow> read_step ev s = Some s' \<Longrightarrow> pending_ok s'"
  by (cases ev)
     (auto simp: at_pc_def release_read_def split: if_splits fence_pc.splits elim!: pending_move)

text \<open>The bytes a data writer publishes.\<close>

lemma data_move:
  "data_ok s \<Longrightarrow> fe_pc s' = (fe_pc s)(t := p') \<Longrightarrow> fe_data_write_pages s' = fe_data_write_pages s \<Longrightarrow>
     fe_data_owner s' = fe_data_owner s \<Longrightarrow> holds_data p' = holds_data (fe_pc s t) \<Longrightarrow>
     data_pages p' = data_pages (fe_pc s t) \<Longrightarrow> data_ok s'"
  by (auto simp: data_ok_def)

lemma data_publish:
  assumes "locks_ok s" "holds_data (fe_pc s t)" "fe_pc s' = (fe_pc s)(t := p')"
    and "fe_data_write_pages s' = data_pages p'" "fe_data_owner s' = fe_data_owner s"
  shows "data_ok s'"
proof -
  have "fe_data_owner s = Some t" using assms(1,2) by (simp add: locks_ok_def)
  moreover have "\<not> holds_data (fe_pc s u)" if "u \<noteq> t" for u using owner_unique(2) [OF assms(1,2)] that by blast
  ultimately show ?thesis unfolding data_ok_def assms(3-5) by simp
qed

lemma data_mutex_step:
  assumes "locks_ok s" and "data_ok s" and "mutex_step ev s = Some s'"
  shows "data_ok s'"
proof (cases ev)
  case (LockData t)
  then have o: "fe_data_owner s = None" and s': "s' = at_pc t DataLocked (s\<lparr>fe_data_owner := Some t\<rparr>)"
    using assms(3) by (auto split: if_splits)
  have "\<not> holds_data (fe_pc s u)" for u using assms(1) o by (simp add: locks_ok_def)
  then show ?thesis using assms(2) o by (auto simp: data_ok_def s' at_pc_def)
next
  case (UnlockData t)
  then have pc: "fe_pc s t = DataLocked" and s': "s' = at_pc t SharedLocked (s\<lparr>fe_data_owner := None\<rparr>)"
    using assms(3) by (auto split: if_splits)
  have d: "holds_data (fe_pc s t)" and w: "fe_data_write_pages s = 0"
    using pc assms(2) [unfolded data_ok_def, THEN conjunct1, rule_format, of t] by simp_all
  show ?thesis using owner_unique(2) [OF assms(1) d] w by (auto simp: data_ok_def s' at_pc_def)
qed (use assms(2,3) in \<open>auto simp: at_pc_def split: if_splits elim!: data_move\<close>)

lemma data_write_step: "data_ok s \<Longrightarrow> write_fence_step ev s = Some s' \<Longrightarrow> data_ok s'"
  by (cases ev) (auto simp: at_pc_def split: if_splits fence_pc.splits elim!: data_move)

lemma data_data_step:
  assumes "locks_ok s" and "data_ok s" and "data_fence_step ev s = Some s'"
  shows "data_ok s'"
proof (cases ev)
  case (DataFencePoll t)
  then show ?thesis using assms(2,3) by (auto simp: at_pc_def split: if_splits fence_pc.splits elim!: data_move)
qed (use assms(3) in
      \<open>auto simp: at_pc_def split: if_splits fence_pc.splits intro!: data_publish [OF assms(1)]\<close>)

lemma data_read_step: "data_ok s \<Longrightarrow> read_step ev s = Some s' \<Longrightarrow> data_ok s'"
  by (cases ev) (auto simp: at_pc_def release_read_def split: if_splits fence_pc.splits elim!: data_move)

text \<open>The reader slot.\<close>

lemma slot_move:
  "slot_ok s \<Longrightarrow> fe_pc s' = (fe_pc s)(t := p') \<Longrightarrow> fe_read_pages s' = fe_read_pages s \<Longrightarrow>
     owns_slot p' = owns_slot (fe_pc s t) \<Longrightarrow> (owns_slot p' \<Longrightarrow> slot_pages p' (fe_read_pages s)) \<Longrightarrow> slot_ok s'"
  by (cases "owns_slot p'") (auto simp: slot_ok_def)

lemma slot_keep:
  assumes "slot_ok s" "owns_slot (fe_pc s t)" "fe_pc s' = (fe_pc s)(t := p')" "owns_slot p'"
    and "slot_pages p' (fe_read_pages s')" "fe_read_pages s' \<noteq> 0"
  shows "slot_ok s'"
proof -
  have "owns_slot (fe_pc s u) \<Longrightarrow> u = t" for u using assms(1,2) unfolding slot_ok_def by blast
  then show ?thesis using assms(3-) by (auto simp: slot_ok_def)
qed

lemma slot_value: "slot_ok s \<Longrightarrow> owns_slot (fe_pc s t) \<Longrightarrow> slot_pages (fe_pc s t) (fe_read_pages s)"
  by (simp add: slot_ok_def)

lemma slot_take:
  assumes "slot_ok s" "fe_read_pages s = 0" "fe_pc s' = (fe_pc s)(t := p')" "owns_slot p'"
    and "slot_pages p' (fe_read_pages s')" "fe_read_pages s' \<noteq> 0"
  shows "slot_ok s'"
  using assms by (auto simp: slot_ok_def)

lemma slot_give:
  assumes "slot_ok s" "owns_slot (fe_pc s t)" "fe_pc s' = (fe_pc s)(t := p')" "\<not> owns_slot p'" "fe_read_pages s' = 0"
  shows "slot_ok s'"
proof -
  have "owns_slot (fe_pc s u) \<Longrightarrow> u = t" for u using assms(1,2) unfolding slot_ok_def by blast
  then show ?thesis using assms(3-) by (auto simp: slot_ok_def)
qed

lemma slot_mutex_step: "slot_ok s \<Longrightarrow> mutex_step ev s = Some s' \<Longrightarrow> slot_ok s'"
  by (cases ev) (auto simp: at_pc_def split: if_splits elim!: slot_move)

lemma slot_write_step: "slot_ok s \<Longrightarrow> write_fence_step ev s = Some s' \<Longrightarrow> slot_ok s'"
  by (cases ev) (auto simp: at_pc_def split: if_splits fence_pc.splits elim!: slot_move)

lemma slot_data_step: "slot_ok s \<Longrightarrow> data_fence_step ev s = Some s' \<Longrightarrow> slot_ok s'"
  by (cases ev) (auto simp: at_pc_def split: if_splits fence_pc.splits elim!: slot_move)

lemma slot_read_step:
  assumes ok: "slot_ok s" and step: "read_step ev s = Some s'"
  shows "slot_ok s'"
proof (cases ev)
  case (ReadTry t seen)
  then show ?thesis using ok step by (auto simp: at_pc_def split: if_splits elim!: slot_move)
next
  case (ReadClaim t)
  show ?thesis
  proof (cases "fe_read_pages s = 0")
    case True
    then show ?thesis
      using ReadClaim step by (auto simp: at_pc_def AllPages_def split: if_splits intro!: slot_take [OF ok True, of _ t])
  next
    case False
    then show ?thesis using ReadClaim ok step by (auto simp: at_pc_def split: if_splits elim!: slot_move)
  qed
next
  case (ReadCheck t)
  then show ?thesis
    using slot_value [OF ok, of t] ok step by (auto simp: at_pc_def split: if_splits elim!: slot_move)
next
  case (ReadNarrow t b e)
  then show ?thesis
    using step PackPages_parts(3) by (auto simp: at_pc_def split: if_splits intro!: slot_keep [OF ok, of t])
next
  case (ReadRecheck t)
  then show ?thesis
    using slot_value [OF ok, of t] ok step
    by (auto simp: at_pc_def split: if_splits fence_pc.splits elim!: slot_move)
next
  case (ReadRelease t)
  then show ?thesis
    using step by (auto simp: at_pc_def release_read_def split: fence_pc.splits intro!: slot_give [OF ok, of t])
qed (use step in simp_all)

text \<open>The sections themselves.\<close>

lemma PagesOverlap_sym: "PagesOverlap a b \<longleftrightarrow> PagesOverlap b a"
  by (auto simp: PagesOverlap_def)

lemma fences_move:
  "fences_ok s \<Longrightarrow> fe_pc s' = (fe_pc s)(t := p') \<Longrightarrow> (is_fenced p' \<Longrightarrow> is_fenced (fe_pc s t)) \<Longrightarrow>
     (inside_read p' \<Longrightarrow> inside_read (fe_pc s t)) \<Longrightarrow> (\<And>b e. p' \<noteq> DataWriting b e) \<Longrightarrow> (\<And>b e. p' \<noteq> Copying b e) \<Longrightarrow>
     fences_ok s'"
  by (cases "is_fenced p'"; cases "inside_read p'") (auto simp: fences_ok_def)

lemma fences_mutex_step: "fences_ok s \<Longrightarrow> mutex_step ev s = Some s' \<Longrightarrow> fences_ok s'"
  by (cases ev) (auto simp: at_pc_def split: if_splits elim!: fences_move)

lemma inside_read_owns: "inside_read p \<Longrightarrow> owns_slot p"
  by (cases p) simp_all

text \<open>A fence opens only when the reader slot is empty.\<close>

lemma fences_write_step:
  assumes "slot_ok s" and "fences_ok s" and "write_fence_step ev s = Some s'"
  shows "fences_ok s'"
proof (cases ev)
  case (WriteFencePoll t)
  show ?thesis
  proof (cases "fe_read_pages s = 0")
    case True
    then have "\<not> inside_read (fe_pc s u)" for u using assms(1) inside_read_owns by (auto simp: slot_ok_def)
    then show ?thesis
      using True WriteFencePoll assms(2,3) by (auto simp: fences_ok_def at_pc_def split: fence_pc.splits if_splits)
  next
    case False
    then show ?thesis using WriteFencePoll assms(2,3) by (auto split: fence_pc.splits)
  qed
qed (use assms(2,3) in \<open>auto simp: at_pc_def split: if_splits fence_pc.splits elim!: fences_move\<close>)

text \<open>A data writer starts only when the slot holds other pages.\<close>

lemma fences_data_step:
  assumes "slot_ok s" and "fences_ok s" and "data_fence_step ev s = Some s'"
  shows "fences_ok s'"
proof (cases ev)
  case (DataFencePoll t)
  then obtain b e where pc: "fe_pc s t = DataWaiting b e" using assms(3) by (auto split: fence_pc.splits)
  show ?thesis
  proof (cases "PagesOverlap (fe_read_pages s) (PackPages b e)")
    case True
    then show ?thesis using pc DataFencePoll assms(2,3) by simp
  next
    case False
    then have s': "s' = at_pc t (DataWriting b e) s" using pc DataFencePoll assms(3) by simp
    have "\<not> PagesOverlap (PackPages b' e') (PackPages b e)" if "fe_pc s u = Copying b' e'" for u b' e'
      using slot_value [OF assms(1), of u] that False by simp
    then show ?thesis using assms(2) by (auto simp: fences_ok_def s' at_pc_def)
  qed
qed (use assms(2,3) in \<open>auto simp: at_pc_def split: if_splits fence_pc.splits elim!: fences_move\<close>)

text \<open>A reader goes on only when nobody announced a fence, and copies only what nobody writes.\<close>

lemma fences_read_step:
  assumes "pending_ok s" and "data_ok s" and "fences_ok s" and step: "read_step ev s = Some s'"
  shows "fences_ok s'"
proof (cases ev)
  case (ReadCheck t)
  show ?thesis
  proof (cases "fe_write_pending s")
    case True
    then show ?thesis using ReadCheck assms(3,4) by (auto simp: at_pc_def split: if_splits elim!: fences_move)
  next
    case False
    then have "\<not> is_fenced (fe_pc s u)" for u
      using assms(1) by (cases "fe_pc s u") (auto simp: pending_ok_def dest: spec [of _ u])
    then show ?thesis
      using False ReadCheck assms(3,4) by (auto simp: fences_ok_def at_pc_def split: if_splits)
  qed
next
  case (ReadRecheck t)
  then obtain b e where pc: "fe_pc s t = Narrowed b e" using step by (auto split: fence_pc.splits)
  show ?thesis
  proof (cases "PagesOverlap (fe_data_write_pages s) (PackPages b e)")
    case True
    then show ?thesis using pc ReadRecheck assms(3) step by (auto simp: at_pc_def elim!: fences_move)
  next
    case False
    then have s': "s' = at_pc t (Copying b e) s" using pc ReadRecheck step by simp
    have "\<not> PagesOverlap (PackPages b e) (PackPages b' e')" if "fe_pc s u = DataWriting b' e'" for u b' e'
      using assms(2) [unfolded data_ok_def, THEN conjunct1, rule_format, of u] that False PagesOverlap_sym by simp
    moreover have "\<not> is_fenced (fe_pc s u)" for u
      using assms(3) [unfolded fences_ok_def, THEN conjunct1, rule_format, of u t] pc by auto
    ultimately show ?thesis using assms(3) by (auto simp: fences_ok_def s' at_pc_def)
  qed
qed (use assms(3) step in \<open>auto simp: at_pc_def release_read_def split: if_splits fence_pc.splits elim!: fences_move\<close>)

subsection \<open>Runs\<close>

lemma fence_exec_cases:
  assumes "fence_exec ev s = Some s'"
  obtains "mutex_step ev s = Some s'" | "write_fence_step ev s = Some s'" | "data_fence_step ev s = Some s'"
    | "read_step ev s = Some s'"
  using assms by (auto simp: fence_exec_def split: option.splits)

lemma fence_exec_ok:
  assumes "fence_ok s" and "fence_exec ev s = Some s'"
  shows "fence_ok s'"
proof -
  note ok = assms(1) [unfolded fence_ok_def, THEN conjunct1] assms(1) [unfolded fence_ok_def, THEN conjunct2, THEN conjunct1]
    assms(1) [unfolded fence_ok_def, THEN conjunct2, THEN conjunct2, THEN conjunct1]
    assms(1) [unfolded fence_ok_def, THEN conjunct2, THEN conjunct2, THEN conjunct2, THEN conjunct1]
    assms(1) [unfolded fence_ok_def, THEN conjunct2, THEN conjunct2, THEN conjunct2, THEN conjunct2]
  show ?thesis
    using assms(2)
  proof (cases rule: fence_exec_cases)
    case 1
    then show ?thesis unfolding fence_ok_def
      using locks_mutex_step pending_mutex_step data_mutex_step slot_mutex_step fences_mutex_step ok by blast
  next
    case 2
    then show ?thesis unfolding fence_ok_def
      using locks_write_step pending_write_step data_write_step slot_write_step fences_write_step ok by blast
  next
    case 3
    then show ?thesis unfolding fence_ok_def
      using locks_data_step pending_data_step data_data_step slot_data_step fences_data_step ok by blast
  next
    case 4
    then show ?thesis unfolding fence_ok_def
      using locks_read_step pending_read_step data_read_step slot_read_step fences_read_step ok by blast
  qed
qed

interpretation fence_runs: guarded_system fence_exec "\<lambda>_. True" fence_ok
  by unfold_locales (rule fence_exec_ok)

lemma fence_run_ok: "run fence_exec es fence_init = Some s \<Longrightarrow> fence_ok s"
  by (rule fence_runs.run_inv [OF _ fence_init_ok]) (simp_all add: list.pred_True)

subsection \<open>What is excluded\<close>

fun inside_write :: "fence_pc \<Rightarrow> bool" where
  "inside_write (Fenced spanning) = True"
| "inside_write (DataWriting b e) = True"
| "inside_write _ = False"

lemma inside_write_holds: "inside_write p \<Longrightarrow> holds_exclusive p \<or> holds_data p"
  by (cases p) simp_all

lemma one_writer: "fence_ok s \<Longrightarrow> inside_write (fe_pc s t) \<Longrightarrow> inside_write (fe_pc s u) \<Longrightarrow> t = u"
  using owner_unique [of s] inside_write_holds by (metis fence_ok_def)

lemma one_reader: "fence_ok s \<Longrightarrow> inside_read (fe_pc s t) \<Longrightarrow> inside_read (fe_pc s u) \<Longrightarrow> t = u"
  using inside_read_owns by (auto simp: fence_ok_def slot_ok_def)

lemma disjoint_copies:
  assumes "fence_ok s" and w: "fe_pc s t = DataWriting b e" and c: "fe_pc s u = Copying b' e'"
    and r: "page_range b e" "page_range b' e'" and x: "b \<le> x" "x < e"
  shows "\<not> (b' \<le> x \<and> x < e')"
proof
  assume y: "b' \<le> x \<and> x < e'"
  have "PagesOverlap (PackPages b' e') (PackPages b e)"
    by (rule PagesOverlap_bytes [OF r(2,1) conjunct1 [OF y] conjunct2 [OF y] x])
  then show False using assms(1) w c unfolding fence_ok_def fences_ok_def by blast
qed

text \<open>
  A fence is entered: the owner of the reader slot gives it back by at most two steps of its own, which
  wait for no other thread, and with an empty slot a waiting writer goes ahead.
\<close>

lemma reader_leaves:
  assumes "owns_slot (fe_pc s t)"
  shows "\<exists>es s'. length es \<le> 2 \<and> set es \<subseteq> {ReadCheck t, ReadRecheck t, ReadRelease t} \<and>
      run fence_exec es s = Some s' \<and> fe_read_pages s' = 0"
proof -
  consider "fe_pc s t = Claimed" | (narrow) b e where "fe_pc s t = Narrowed b e"
    | (rel) "read_step (ReadRelease t) s = Some (release_read t s)"
    using assms by (cases "fe_pc s t") auto
  then show ?thesis
  proof cases
    case 1
    then show ?thesis
      by (intro exI [of _ "[ReadCheck t, ReadRelease t]"]) (simp add: fence_exec_def at_pc_def release_read_def)
  next
    case narrow
    then show ?thesis
      by (intro exI [of _ "[ReadRecheck t, ReadRelease t]"]) (simp add: fence_exec_def at_pc_def release_read_def)
  next
    case rel
    then show ?thesis
      by (intro exI [of _ "[ReadRelease t]"]) (simp add: fence_exec_def at_pc_def release_read_def)
  qed
qed

lemma writer_enters:
  assumes "fe_read_pages s = 0"
  shows "fe_pc s t = Fencing k \<Longrightarrow> fence_exec (WriteFencePoll t) s = Some (at_pc t (Fenced k) s)"
    and "fe_pc s t = DataWaiting b e \<Longrightarrow> fence_exec (DataFencePoll t) s = Some (at_pc t (DataWriting b e) s)"
  using assms by (simp_all add: fence_exec_def PagesOverlap_def)

text \<open>
  C20: in every interleaving of mapping changes, transfers and host reads, however many threads take
  part and whatever a relaxed load returns, at most one thread is inside a write section and at most
  one inside a read section. Nobody reads while a thread holds a write fence, and a data writer and a
  reader that copies at the same time touch no byte in common.
\<close>

theorem backing_fences_exclude:
  assumes "run fence_exec es fence_init = Some s"
  shows "(inside_write (fe_pc s t) \<and> inside_write (fe_pc s u) \<longrightarrow> t = u) \<and>
    (inside_read (fe_pc s t) \<and> inside_read (fe_pc s u) \<longrightarrow> t = u) \<and>
    (is_fenced (fe_pc s t) \<longrightarrow> \<not> inside_read (fe_pc s u)) \<and>
    (fe_pc s t = DataWriting b e \<and> fe_pc s u = Copying b' e' \<and> page_range b e \<and> page_range b' e' \<and>
       b \<le> x \<and> x < e \<longrightarrow> \<not> (b' \<le> x \<and> x < e'))"
proof -
  have ok: "fence_ok s" by (rule fence_run_ok [OF assms])
  have "is_fenced (fe_pc s t) \<longrightarrow> \<not> inside_read (fe_pc s u)"
    using ok unfolding fence_ok_def fences_ok_def by blast
  then show ?thesis using one_writer [OF ok] one_reader [OF ok] disjoint_copies [OF ok] by blast
qed

text \<open>
  A transfer writes the page at 0x1000 while a host read of the next page copies; a read of the same
  page would have been sent back.
\<close>

theorem backing_fences_exclude_witness:
  "\<exists>s. run fence_exec
        [LockShared 1, LockData 1, ReadTry 2 False, ReadClaim 2, DataFenceAnnounce 1 0x1000 0x2000, ReadCheck 2,
         DataFencePoll 1, ReadNarrow 2 0x2000 0x3000, ReadRecheck 2, DataFencePoll 1] fence_init = Some s \<and>
      fe_pc s 1 = DataWriting 0x1000 0x2000 \<and> fe_pc s 2 = Copying 0x2000 0x3000 \<and>
      \<not> (0x2000 \<le> (0x1fff :: u64) \<and> 0x1fff < (0x3000 :: u64))"
proof -
  let ?es = "[LockShared 1, LockData 1, ReadTry 2 False, ReadClaim 2, DataFenceAnnounce 1 0x1000 0x2000, ReadCheck 2,
         DataFencePoll 1, ReadNarrow 2 0x2000 0x3000, ReadRecheck 2, DataFencePoll 1]"
  have "(case run fence_exec ?es fence_init of
      Some s \<Rightarrow> fe_pc s 1 = DataWriting 0x1000 0x2000 \<and> fe_pc s 2 = Copying 0x2000 0x3000 | None \<Rightarrow> False)"
    by code_simp
  then obtain s where s: "run fence_exec ?es fence_init = Some s"
    "fe_pc s 1 = DataWriting 0x1000 0x2000" "fe_pc s 2 = Copying 0x2000 0x3000"
    by (auto split: option.splits)
  then show ?thesis
    using backing_fences_exclude [OF s(1), of 1 2 "0x1000" "0x2000" "0x2000" "0x3000" "0x1fff"]
    by (auto simp: page_range_def)
qed

end
