(* ===== verification/AddressSpace.thy ===== *)
theory AddressSpace
  imports BackingStore FreeRanges
begin

text \<open>
  The guest address space: \<open>class GuestAddressSpace\<close> of
  \<open>src/src/kernel/memoryAddressSpace.inc\<close>, in its POSIX form. It owns the address ranges that
  start-up could reserve from the host, and keeps which parts of them are free and which are mapped,
  either to the backing store or committed privately. Every operation holds the lock of the class.
  The host's \<open>mmap\<close> and \<open>mprotect\<close> are the parameter \<open>ops\<close>; \<open>None\<close> is an \<open>EXIT_IF\<close>.
\<close>

unbundle bit_operations_syntax

subsection \<open>State\<close>

datatype mapping_type = Backing | Private

record mapped_region =
  mr_vaddr :: u64
  mr_size :: u64
  mr_type :: mapping_type

record guest_space =
  gs_free :: free_ranges
  gs_mapped :: "mapped_region omap"
  gs_owned :: "(u64 \<times> u64) list"
  gs_backing :: backing_store

text \<open>
  The host: the views of the backing store, \<open>VirtualMemory::Protect\<close>, the \<open>mmap\<close> that makes a
  range a placeholder again and the one that reserves a range at start-up.
\<close>

record 'h host_ops =
  ho_views :: "'h mmap_ops"
  HostProtect :: "u64 \<Rightarrow> u64 \<Rightarrow> vmode \<Rightarrow> 'h \<Rightarrow> bool \<times> 'h"
  HostRestore :: "u64 \<Rightarrow> u64 \<Rightarrow> 'h \<Rightarrow> bool \<times> 'h"
  HostReserve :: "u64 \<Rightarrow> u64 \<Rightarrow> 'h \<Rightarrow> bool \<times> 'h"

definition HOST_SYSTEM_MANAGED_MIN :: u64 where "HOST_SYSTEM_MANAGED_MIN = 0x40000"
definition HOST_SYSTEM_MANAGED_MAX :: u64 where "HOST_SYSTEM_MANAGED_MAX = 0x7ffffbfff"
definition HOST_SYSTEM_RESERVED_MIN :: u64 where "HOST_SYSTEM_RESERVED_MIN = HOST_SYSTEM_MANAGED_MAX + 1"
definition HOST_SYSTEM_RESERVED_MAX :: u64 where "HOST_SYSTEM_RESERVED_MAX = 0xfffffffff"
definition HOST_USER_MIN :: u64 where "HOST_USER_MIN = 0x1000000000"
definition HOST_USER_MAX :: u64 where "HOST_USER_MAX = 0xfbffffffff"

definition PageSize :: u64 where "PageSize = 0x4000"

definition IsExecute :: "vmode \<Rightarrow> bool" where
  "IsExecute mode \<longleftrightarrow> mode = Execute \<or> mode = ExecuteRead \<or> mode = ExecuteWrite \<or> mode = ExecuteReadWrite"

definition AlignUp :: "u64 \<Rightarrow> u64 \<Rightarrow> u64" where
  "AlignUp v alignment =
     (if alignment = 0 then 0
      else
        let remainder = v mod alignment; increment = (if remainder \<noteq> 0 then alignment - remainder else 0)
        in if increment \<le> u64_max - v then v + increment else 0)"

definition AlignDown :: "u64 \<Rightarrow> u64 \<Rightarrow> u64" where
  "AlignDown v alignment = v AND NOT (alignment - 1)"

definition IsPageAligned :: "u64 \<Rightarrow> bool" where
  "IsPageAligned v \<longleftrightarrow> v AND (PageSize - 1) = 0"

subsection \<open>The free ranges\<close>

definition free_containing :: "u64 \<Rightarrow> u64 \<Rightarrow> free_ranges \<Rightarrow> (u64 \<times> u64) option" where
  "free_containing vaddr n fs =
     (let before = fst (om_upper vaddr fs)
      in if before = [] then None
         else
           let it = last before; finish = fst it + snd it
           in if fst it \<le> vaddr \<and> vaddr + n \<le> finish then Some it else None)"

text \<open>The size behind the iterator that the second step of a split works on.\<close>

definition SplitUnlocked :: "u64 \<times> u64 \<Rightarrow> u64 \<Rightarrow> u64 \<Rightarrow> free_ranges \<Rightarrow> free_ranges" where
  "SplitUnlocked it vaddr n fs =
     (let base = fst it; finish = fst it + snd it
      in if base = vaddr \<and> finish = vaddr + n then fs
         else
           let fs = (if base \<noteq> vaddr then om_emplace vaddr (finish - vaddr) (om_assign base (vaddr - base) fs) else fs);
               part = the (om_find vaddr fs)
           in if part \<noteq> n then om_emplace (vaddr + n) (part - n) (om_assign vaddr n fs) else fs)"

definition ConsumeUnlocked :: "u64 \<Rightarrow> u64 \<Rightarrow> free_ranges \<Rightarrow> bool \<times> free_ranges" where
  "ConsumeUnlocked vaddr n fs =
     (case free_containing vaddr n fs of
        None \<Rightarrow> (False, fs)
      | Some it \<Rightarrow>
          let fs = SplitUnlocked it vaddr n fs
          in if om_find vaddr fs = Some n then (True, om_erase vaddr fs) else (False, fs))"

text \<open>The two loops of \<open>AddFreeUnlocked\<close>, downwards and upwards from the new range.\<close>

fun touching_before :: "u64 \<Rightarrow> free_ranges \<Rightarrow> u64 \<times> free_ranges" where
  "touching_before base [] = (base, [])"
| "touching_before base ((a, n) # rs) = (if a + n \<noteq> base then (base, (a, n) # rs) else touching_before a rs)"

fun touching_after :: "u64 \<Rightarrow> free_ranges \<Rightarrow> u64 \<times> free_ranges" where
  "touching_after finish [] = (finish, [])"
| "touching_after finish ((a, n) # rs) = (if finish = a then touching_after (a + n) rs else (finish, (a, n) # rs))"

definition GuestSpace_AddFreeUnlocked :: "u64 \<Rightarrow> u64 \<Rightarrow> free_ranges \<Rightarrow> free_ranges" where
  "GuestSpace_AddFreeUnlocked vaddr n fs =
     (if vaddr = 0 \<or> n = 0 then fs
      else
        let fs = (if om_find vaddr fs = None then om_emplace vaddr n fs else om_assign vaddr n fs);
            (before, rest) = om_lower vaddr fs;
            (base, kept_before) = touching_before vaddr (rev before);
            (finish, kept_after) = touching_after (vaddr + n) (tl rest)
        in if base \<noteq> vaddr \<or> finish \<noteq> vaddr + n
           then om_emplace base (finish - base) (rev kept_before @ kept_after)
           else fs)"

fun find_free_loop :: "u64 \<Rightarrow> u64 \<Rightarrow> u64 \<Rightarrow> u64 \<Rightarrow> free_ranges \<Rightarrow> u64" where
  "find_free_loop search_start search_end n alignment [] = 0"
| "find_free_loop search_start search_end n alignment ((base, range_size) # fs) =
     (if \<not> base < search_end then 0
      else
        let candidate = AlignUp (max base search_start) alignment
        in if candidate < search_end \<and> n \<le> search_end - candidate \<and> GuestFreeRangeContains base range_size candidate n
           then candidate
           else find_free_loop search_start search_end n alignment fs)"

definition FindFreeAlignedUnlocked :: "u64 \<Rightarrow> u64 \<Rightarrow> u64 \<Rightarrow> u64 \<Rightarrow> guest_space \<Rightarrow> u64" where
  "FindFreeAlignedUnlocked search_start search_end n alignment g =
     (if search_end \<le> search_start \<or> search_end - search_start < n then 0
      else find_free_loop search_start search_end n alignment (om_scan_from search_start (gs_free g)))"

definition FindFreeAligned :: "u64 \<Rightarrow> u64 \<Rightarrow> u64 \<Rightarrow> u64 \<Rightarrow> guest_space \<Rightarrow> u64" where
  "FindFreeAligned search_start search_end n alignment g =
     (if n = 0 \<or> alignment = 0 then 0
      else FindFreeAlignedUnlocked search_start search_end n (max alignment PageSize) g)"

definition ReserveAligned :: "u64 \<Rightarrow> u64 \<Rightarrow> u64 \<Rightarrow> guest_space \<Rightarrow> u64" where
  "ReserveAligned search_addr n alignment g =
     (if n = 0 then 0
      else
        let alignment = max (if alignment \<noteq> 0 then alignment else PageSize) PageSize
        in if search_addr = 0
           then
             let addr = FindFreeAlignedUnlocked HOST_SYSTEM_MANAGED_MIN (HOST_SYSTEM_MANAGED_MAX + 1) n alignment g
             in if addr \<noteq> 0 then addr
                else FindFreeAlignedUnlocked HOST_USER_MIN (HOST_USER_MAX + 1) n alignment g
           else FindFreeAlignedUnlocked search_addr (HOST_USER_MAX + 1) n alignment g)"

definition ReserveFixed :: "u64 \<Rightarrow> u64 \<Rightarrow> guest_space \<Rightarrow> bool" where
  "ReserveFixed vaddr n g \<longleftrightarrow>
     (if vaddr = 0 \<or> n = 0 \<or> \<not> IsPageAligned vaddr \<or> \<not> IsPageAligned n then False
      else free_containing vaddr n (gs_free g) \<noteq> None)"

definition ReleaseFree :: "u64 \<Rightarrow> u64 \<Rightarrow> guest_space \<Rightarrow> bool" where
  "ReleaseFree vaddr n g \<longleftrightarrow> free_containing vaddr n (gs_free g) \<noteq> None"

subsection \<open>The mapped regions\<close>

definition FindMappedContainingUnlocked :: "u64 \<Rightarrow> mapped_region omap \<Rightarrow> mapped_region option" where
  "FindMappedContainingUnlocked vaddr m =
     (let before = fst (om_upper vaddr m)
      in if before = [] then None
         else
           let it = snd (last before)
           in if vaddr < mr_vaddr it + mr_size it then Some it else None)"

lemma FindMapped_advances:
  assumes "FindMappedContainingUnlocked current m = Some r" and "current < finish"
  shows "unat current < unat (min finish (mr_vaddr r + mr_size r))"
  using assms by (auto simp: FindMappedContainingUnlocked_def Let_def less_u64 unat_min_u64 split: if_splits)

function contains_mapped_loop :: "mapped_region omap \<Rightarrow> mapping_type \<Rightarrow> u64 \<Rightarrow> u64 \<Rightarrow> bool" where
  "contains_mapped_loop m type finish current =
     (if current < finish
      then (case FindMappedContainingUnlocked current m of
              None \<Rightarrow> False
            | Some it \<Rightarrow>
                if mr_type it \<noteq> type then False
                else contains_mapped_loop m type finish (min finish (mr_vaddr it + mr_size it)))
      else True)"
  by pat_completeness auto
termination
  by (relation "measure (\<lambda>(m, type, finish, current). unat finish - unat current)")
    (auto simp: less_u64 dest!: FindMapped_advances)

declare contains_mapped_loop.simps [simp del]

definition ContainsMappedUnlocked :: "u64 \<Rightarrow> u64 \<Rightarrow> mapping_type \<Rightarrow> mapped_region omap \<Rightarrow> bool" where
  "ContainsMappedUnlocked vaddr n type m =
     (if n = 0 \<or> u64_max - vaddr < n then False else contains_mapped_loop m type (vaddr + n) vaddr)"

definition AddMappedUnlocked :: "u64 \<Rightarrow> u64 \<Rightarrow> mapping_type \<Rightarrow> mapped_region omap \<Rightarrow> bool \<times> mapped_region omap" where
  "AddMappedUnlocked vaddr n type m =
     (if n = 0 \<or> u64_max - vaddr < n then (False, m)
      else
        let finish = vaddr + n; (before, after) = om_lower vaddr m
        in if after \<noteq> [] \<and> mr_vaddr (snd (hd after)) < finish then (False, m)
           else if before \<noteq> [] \<and> vaddr < mr_vaddr (snd (last before)) + mr_size (snd (last before)) then (False, m)
           else if om_find vaddr m \<noteq> None then (False, m)
           else (True, om_emplace vaddr \<lparr>mr_vaddr = vaddr, mr_size = n, mr_type = type\<rparr> m))"

text \<open>Adding what is left on one side of a removed part: refusing it ends the program.\<close>

definition add_rest :: "bool \<Rightarrow> u64 \<Rightarrow> u64 \<Rightarrow> mapping_type \<Rightarrow> mapped_region omap \<Rightarrow> mapped_region omap option" where
  "add_rest needed vaddr n type m =
     (if \<not> needed then Some m
      else case AddMappedUnlocked vaddr n type m of (True, m) \<Rightarrow> Some m | (False, _) \<Rightarrow> None)"

function remove_mapped_loop :: "u64 \<Rightarrow> u64 \<Rightarrow> mapped_region omap \<Rightarrow> mapped_region omap option" where
  "remove_mapped_loop finish current m =
     (if current < finish
      then (case FindMappedContainingUnlocked current m of
              None \<Rightarrow> None
            | Some original \<Rightarrow>
                let original_end = mr_vaddr original + mr_size original;
                    part_end = min finish original_end
                in case add_rest (mr_vaddr original < current) (mr_vaddr original) (current - mr_vaddr original)
                          (mr_type original) (om_erase (mr_vaddr original) m) of
                     None \<Rightarrow> None
                   | Some m \<Rightarrow>
                       (case add_rest (part_end < original_end) part_end (original_end - part_end) (mr_type original) m of
                          None \<Rightarrow> None
                        | Some m \<Rightarrow> remove_mapped_loop finish part_end m))
      else Some m)"
  by pat_completeness auto
termination
  by (relation "measure (\<lambda>(finish, current, m). unat finish - unat current)")
    (auto simp: less_u64 dest!: FindMapped_advances)

declare remove_mapped_loop.simps [simp del]

definition RemoveMappedUnlocked ::
  "u64 \<Rightarrow> u64 \<Rightarrow> mapping_type \<Rightarrow> mapped_region omap \<Rightarrow> (bool \<times> mapped_region omap) option" where
  "RemoveMappedUnlocked vaddr n type m =
     (if \<not> ContainsMappedUnlocked vaddr n type m then Some (False, m)
      else map_option (Pair True) (remove_mapped_loop (vaddr + n) vaddr m))"

subsection \<open>Mapping and committing\<close>

definition host_mode :: "vmode \<Rightarrow> vmode" where
  "host_mode mode = (if IsExecute mode then ExecuteReadWrite else ReadWrite)"

definition GuestSpace_MapBacking ::
  "'h host_ops \<Rightarrow> u64 \<Rightarrow> u64 \<Rightarrow> u64 \<Rightarrow> vmode \<Rightarrow> guest_space \<times> 'h \<Rightarrow> (failure_reason \<times> guest_space \<times> 'h) option" where
  "GuestSpace_MapBacking ops vaddr n backing_offset mode st =
     (let (g, h) = st; (consumed, free) = ConsumeUnlocked vaddr n (gs_free g); g = g\<lparr>gs_free := free\<rparr>
      in if \<not> consumed then Some (AddressRangeUnavailable, g, h)
         else
           case MapExistingPlaceholderFixed (ho_views ops) vaddr n backing_offset (host_mode mode) (gs_backing g, h) of
             None \<Rightarrow> None
           | Some (reason, bs, h) \<Rightarrow>
               let g = g\<lparr>gs_backing := bs\<rparr>
               in if reason = NoFailure
                  then (case AddMappedUnlocked vaddr n Backing (gs_mapped g) of
                          (True, m) \<Rightarrow> Some (NoFailure, g\<lparr>gs_mapped := m\<rparr>, h)
                        | (False, _) \<Rightarrow> None)
                  else Some (reason, g\<lparr>gs_free := GuestSpace_AddFreeUnlocked vaddr n (gs_free g)\<rparr>, h))"

text \<open>\<open>reapply\<close> is \<open>ReapplyRemappedViews\<close>: it takes the list of remapped views and empties it.\<close>

definition GuestSpace_UnmapBacking ::
  "'h host_ops \<Rightarrow> u64 \<Rightarrow> u64 \<Rightarrow> guest_space \<times> 'h host \<Rightarrow> (bool \<times> guest_space \<times> 'h host) option" where
  "GuestSpace_UnmapBacking ops vaddr n st =
     (let (g, h) = st
      in if \<not> ContainsMappedUnlocked vaddr n Backing (gs_mapped g) then Some (False, g, [], snd h)
         else
           case Backing_Unmap (ho_views ops) vaddr n (gs_backing g, h) of
             None \<Rightarrow> None
           | Some (False, bs, h) \<Rightarrow> Some (False, g\<lparr>gs_backing := bs\<rparr>, [], snd h)
           | Some (True, bs, h) \<Rightarrow>
               (case RemoveMappedUnlocked vaddr n Backing (gs_mapped g) of
                  Some (True, m) \<Rightarrow>
                    Some (True, g\<lparr>gs_backing := bs, gs_mapped := m,
                      gs_free := GuestSpace_AddFreeUnlocked vaddr n (gs_free g)\<rparr>, [], snd h)
                | _ \<Rightarrow> None))"

definition GuestSpace_Commit ::
  "'h host_ops \<Rightarrow> u64 \<Rightarrow> u64 \<Rightarrow> vmode \<Rightarrow> guest_space \<times> 'h \<Rightarrow> (bool \<times> guest_space \<times> 'h) option" where
  "GuestSpace_Commit ops vaddr n mode st =
     (let (g, h) = st; (consumed, free) = ConsumeUnlocked vaddr n (gs_free g); g = g\<lparr>gs_free := free\<rparr>
      in if \<not> consumed then Some (False, g, h)
         else
           let (protected, h) = HostProtect ops vaddr n (host_mode mode) h
           in if protected
              then (case AddMappedUnlocked vaddr n Private (gs_mapped g) of
                      (True, m) \<Rightarrow> Some (True, g\<lparr>gs_mapped := m\<rparr>, h)
                    | (False, _) \<Rightarrow> None)
              else Some (False, g\<lparr>gs_free := GuestSpace_AddFreeUnlocked vaddr n (gs_free g)\<rparr>, h))"

text \<open>The committed regions that a range to release covers, cut to the range.\<close>

function release_parts :: "mapped_region omap \<Rightarrow> u64 \<Rightarrow> u64 \<Rightarrow> (u64 \<times> u64) list \<Rightarrow> (u64 \<times> u64) list option" where
  "release_parts m finish current regions =
     (if current < finish
      then (case FindMappedContainingUnlocked current m of
              None \<Rightarrow> None
            | Some it \<Rightarrow>
                let part_end = min finish (mr_vaddr it + mr_size it)
                in release_parts m finish part_end (regions @ [(current, part_end - current)]))
      else Some regions)"
  by pat_completeness auto
termination
  by (relation "measure (\<lambda>(m, finish, current, regions). unat finish - unat current)")
    (auto simp: less_u64 dest!: FindMapped_advances)

declare release_parts.simps [simp del]

fun restore_all :: "'h host_ops \<Rightarrow> (u64 \<times> u64) list \<Rightarrow> 'h \<Rightarrow> 'h option" where
  "restore_all ops [] h = Some h"
| "restore_all ops ((vaddr, n) # regions) h =
     (let (restored, h) = HostRestore ops vaddr n h in if restored then restore_all ops regions h else None)"

definition GuestSpace_ReleaseCommitted ::
  "'h host_ops \<Rightarrow> u64 \<Rightarrow> u64 \<Rightarrow> guest_space \<times> 'h \<Rightarrow> (bool \<times> guest_space \<times> 'h) option" where
  "GuestSpace_ReleaseCommitted ops vaddr n st =
     (let (g, h) = st
      in if vaddr = 0 \<or> n = 0 \<or> \<not> IsPageAligned vaddr \<or> \<not> IsPageAligned n then Some (False, g, h)
         else if \<not> ContainsMappedUnlocked vaddr n Private (gs_mapped g) then Some (False, g, h)
         else
           case release_parts (gs_mapped g) (vaddr + n) vaddr [] of
             None \<Rightarrow> None
           | Some regions \<Rightarrow>
               (case restore_all ops regions h of
                  None \<Rightarrow> None
                | Some h \<Rightarrow>
                    (case RemoveMappedUnlocked vaddr n Private (gs_mapped g) of
                       Some (True, m) \<Rightarrow>
                         Some (True, g\<lparr>gs_mapped := m, gs_free := GuestSpace_AddFreeUnlocked vaddr n (gs_free g)\<rparr>, h)
                     | _ \<Rightarrow> None)))"

subsection \<open>Protecting\<close>

fun protect_loop :: "'h host_ops \<Rightarrow> u64 \<Rightarrow> u64 \<Rightarrow> vmode \<Rightarrow> mapped_region omap \<Rightarrow> 'h \<Rightarrow> bool \<times> 'h" where
  "protect_loop ops vaddr finish mode [] h = (True, h)"
| "protect_loop ops vaddr finish mode ((k, region) # m) h =
     (if \<not> mr_vaddr region < finish then (True, h)
      else
        let range_start = max vaddr (mr_vaddr region);
            range_end = min finish (mr_vaddr region + mr_size region)
        in if range_end \<le> range_start then protect_loop ops vaddr finish mode m h
           else
             let (protected, h) = HostProtect ops range_start (range_end - range_start) mode h
             in if protected then protect_loop ops vaddr finish mode m h else (False, h))"

definition ProtectMappedUnlocked :: "'h host_ops \<Rightarrow> u64 \<Rightarrow> u64 \<Rightarrow> vmode \<Rightarrow> guest_space \<Rightarrow> 'h \<Rightarrow> bool \<times> 'h" where
  "ProtectMappedUnlocked ops vaddr n mode g h =
     protect_loop ops vaddr (vaddr + n) mode (om_scan_from vaddr (gs_mapped g)) h"

text \<open>\<open>Protect\<close> and \<open>ProtectTransient\<close> differ in how they hold the lock only.\<close>

definition GuestSpace_Protect :: "'h host_ops \<Rightarrow> u64 \<Rightarrow> u64 \<Rightarrow> vmode \<Rightarrow> guest_space \<Rightarrow> 'h \<Rightarrow> bool \<times> 'h" where
  "GuestSpace_Protect ops vaddr n mode g h =
     (if n = 0 \<or> u64_max - vaddr < n then (False, h) else ProtectMappedUnlocked ops vaddr n mode g h)"

subsection \<open>Ownership\<close>

definition GuestSpace_Owns :: "u64 \<Rightarrow> u64 \<Rightarrow> guest_space \<Rightarrow> bool" where
  "GuestSpace_Owns vaddr n g =
     (if n = 0 \<or> u64_max - vaddr < n then False
      else list_ex (\<lambda>r. fst r \<le> vaddr \<and> vaddr + n \<le> fst r + snd r) (gs_owned g))"

definition OverlapsOwned :: "u64 \<Rightarrow> u64 \<Rightarrow> guest_space \<Rightarrow> bool" where
  "OverlapsOwned vaddr n g =
     (if n = 0 \<or> u64_max - vaddr < n then False
      else list_ex (\<lambda>r. VirtualRangesOverlap vaddr n (fst r) (snd r)) (gs_owned g))"

definition IsMappedAfterChanges :: "u64 \<Rightarrow> guest_space \<Rightarrow> bool" where
  "IsMappedAfterChanges vaddr g \<longleftrightarrow> FindMappedContainingUnlocked vaddr (gs_mapped g) \<noteq> None"

subsection \<open>Start-up\<close>

text \<open>
  \<open>ReserveGuestRegions\<close> on Linux: \<open>occupied\<close> are the lines of \<open>/proc/self/maps\<close>, and what lies
  between them in the three guest regions is reserved, as far as the host grants it.
\<close>

definition reserve_range :: "'h host_ops \<Rightarrow> u64 \<Rightarrow> u64 \<Rightarrow> free_ranges \<times> (u64 \<times> u64) list \<times> 'h \<Rightarrow>
   free_ranges \<times> (u64 \<times> u64) list \<times> 'h" where
  "reserve_range ops start finish st =
     (let (free, owned, h) = st; start = AlignUp start PageSize; finish = AlignDown finish PageSize
      in if start = 0 \<or> finish \<le> start then st
         else
           let n = finish - start; (reserved, h) = HostReserve ops start n h
           in if \<not> reserved then (free, owned, h)
              else (GuestSpace_AddFreeUnlocked start n free, owned @ [(start, n)], h))"

fun reserve_region :: "'h host_ops \<Rightarrow> u64 \<Rightarrow> u64 \<Rightarrow> (u64 \<times> u64) list \<Rightarrow>
   free_ranges \<times> (u64 \<times> u64) list \<times> 'h \<Rightarrow> free_ranges \<times> (u64 \<times> u64) list \<times> 'h" where
  "reserve_region ops current region_end [] st =
     (if current < region_end then reserve_range ops current region_end st else st)"
| "reserve_region ops current region_end ((mapping_start, mapping_end) # occupied) st =
     (if mapping_end \<le> current then reserve_region ops current region_end occupied st
      else if region_end \<le> mapping_start
      then (if current < region_end then reserve_range ops current region_end st else st)
      else
        let st = (if current < mapping_start then reserve_range ops current (min mapping_start region_end) st else st);
            current = max current mapping_end
        in if region_end \<le> current then st else reserve_region ops current region_end occupied st)"

definition ReserveGuestRegions :: "'h host_ops \<Rightarrow> (u64 \<times> u64) list \<Rightarrow> 'h \<Rightarrow> free_ranges \<times> (u64 \<times> u64) list \<times> 'h" where
  "ReserveGuestRegions ops occupied h =
     foldl (\<lambda>st (region_start, region_end). reserve_region ops region_start region_end occupied st) ([], [], h)
       [(HOST_SYSTEM_MANAGED_MIN, HOST_SYSTEM_MANAGED_MAX + 1),
        (HOST_SYSTEM_RESERVED_MIN, HOST_SYSTEM_RESERVED_MAX + 1),
        (HOST_USER_MIN, HOST_USER_MAX + 1)]"

text \<open>The constructor; \<open>available\<close> says whether the memory object could be made.\<close>

definition GuestAddressSpace_new ::
  "'h host_ops \<Rightarrow> (u64 \<times> u64) list \<Rightarrow> bool \<Rightarrow> u64 \<Rightarrow> 'h \<Rightarrow> (guest_space \<times> 'h) option" where
  "GuestAddressSpace_new ops occupied available backing_size h =
     (let (free, owned, h) = ReserveGuestRegions ops occupied h
      in if \<not> available then None
         else Some (\<lparr>gs_free = free, gs_mapped = [], gs_owned = owned,
                gs_backing = GuestBackingStore_init available backing_size\<rparr>, h))"

end
