(* ===== verification/SpaceLists.thy ===== *)
theory SpaceLists
  imports AddressSpace FreeList BackingViews
begin

text \<open>
  The two ordered maps of the guest address space: what splitting, consuming and giving back do to
  the free bytes, and what adding and removing do to the mapped regions.
\<close>

subsection \<open>Looking an address up\<close>

text \<open>In a map of disjoint spans, the entry in front of \<open>upper_bound\<close> is the only one that can hold the address.\<close>

lemma om_upper_hit:
  assumes ok: "iv_ok lo hi m" and key: "\<forall>p\<in>set m. unat (fst p) = lo p"
  shows "p \<in> set m \<and> lo p \<le> unat v \<and> unat v < hi p \<longleftrightarrow>
    fst (om_upper v m) \<noteq> [] \<and> p = last (fst (om_upper v m)) \<and> unat v < hi p"
proof -
  obtain xs ys where u: "om_upper v m = (xs, ys)" by fastforce
  have m: "m = xs @ ys" using om_upper_append [of v m] u by simp
  have "\<forall>a\<in>set m. \<forall>b\<in>set m. lo a = unat (fst a)" using key by simp
  have "sorted_wrt (\<lambda>a b. lo a < lo b) m" by (rule iv_ok_lo_less [OF ok])
  then have om: "om_ok m" unfolding om_ok_def by (rule sorted_wrt_mono_rel [rotated]) (use key in simp)
  have x: "\<forall>a\<in>set xs. lo a \<le> unat v" using om_upper_before [of _ v m] u key m by fastforce
  have y: "\<forall>a\<in>set ys. unat v < lo a" using om_upper_after [OF om, of _ v] u key m by fastforce
  show ?thesis
  proof (cases xs rule: rev_cases)
    case Nil
    then show ?thesis using m y u by auto
  next
    case (snoc zs z)
    have "\<forall>a\<in>set zs. hi a \<le> lo z" using ok m snoc by (simp add: iv_ok_append)
    then have "\<forall>a\<in>set zs. hi a \<le> unat v" using x snoc by fastforce
    then show ?thesis using m x y u snoc by auto
  qed
qed

lemma om_put_middle: "om_ok (xs @ (k, w) # ys) \<Longrightarrow> om_assign k v (xs @ (k, w) # ys) = xs @ (k, v) # ys"
  by (auto simp: om_assign_def om_ok_append om_ok_Cons intro!: map_idI)

lemma om_find_middle: "om_ok (xs @ (k, w) # ys) \<Longrightarrow> om_find k (xs @ (k, w) # ys) = Some w"
  by (simp add: om_find_iff)

subsection \<open>The free ranges\<close>

lemma free_containing_spec:
  assumes ok: "fr_ok fs" and n: "0 < unat n" and fit: "fits v n"
  shows "free_containing v n fs = Some e \<longleftrightarrow> e \<in> set fs \<and> span_of v n \<subseteq> span_of (fst e) (snd e)"
proof -
  have hit: "e \<in> set fs \<and> flo e \<le> unat v \<and> unat v < fhi e \<longleftrightarrow>
      fst (om_upper v fs) \<noteq> [] \<and> e = last (fst (om_upper v fs)) \<and> unat v < fhi e"
    by (rule om_upper_hit [OF fr_ok_iv_ok [OF ok]]) simp
  have ends: "unat (v + n) = unat v + unat n" by (rule unat_end [OF fit])
  have last_in: "last (fst (om_upper v fs)) \<in> set fs" if "fst (om_upper v fs) \<noteq> []"
    using that om_upper_append [of v fs] by (metis UnI1 last_in_set set_append)
  have e_end: "unat (fst e + snd e) = fhi e" if "e \<in> set fs" using that ok by (intro unat_end) (auto simp: fr_ok_def)
  have sub: "span_of v n \<subseteq> span_of (fst e) (snd e) \<longleftrightarrow> flo e \<le> unat v \<and> unat v + unat n \<le> fhi e"
    using n by (auto simp: span_of_def)
  show ?thesis
  proof
    assume "free_containing v n fs = Some e"
    then have "fst (om_upper v fs) \<noteq> []" "e = last (fst (om_upper v fs))" "fst e \<le> v" "v + n \<le> fst e + snd e"
      by (auto simp: free_containing_def Let_def split: if_splits)
    then show "e \<in> set fs \<and> span_of v n \<subseteq> span_of (fst e) (snd e)"
      using last_in e_end ends sub by (simp add: le_u64)
  next
    assume a: "e \<in> set fs \<and> span_of v n \<subseteq> span_of (fst e) (snd e)"
    then have "fst (om_upper v fs) \<noteq> [] \<and> e = last (fst (om_upper v fs))" using hit sub n by auto
    then show "free_containing v n fs = Some e"
      using a sub e_end ends by (simp add: free_containing_def Let_def le_u64)
  qed
qed

lemma free_containing_None:
  assumes ok: "fr_ok fs" and n: "0 < unat n" and fit: "fits v n"
  shows "free_containing v n fs = None \<longleftrightarrow> \<not> span_of v n \<subseteq> fr_bytes fs"
proof
  assume no: "free_containing v n fs = None"
  show "\<not> span_of v n \<subseteq> fr_bytes fs"
  proof
    assume "span_of v n \<subseteq> fr_bytes fs"
    then obtain e where "e \<in> set fs" "flo e \<le> unat v \<and> unat v + unat n \<le> fhi e"
      using fr_run_in_entry [OF ok, of "unat v" "unat v + unat n"] n by (auto simp: span_of_def)
    then have "free_containing v n fs = Some e" unfolding free_containing_spec [OF ok n fit] by (auto simp: span_of_def)
    then show False using no by simp
  qed
next
  assume "\<not> span_of v n \<subseteq> fr_bytes fs"
  then have "free_containing v n fs \<noteq> Some e" for e
    unfolding free_containing_spec [OF ok n fit] by (auto simp: fr_bytes_mem span_of_def; force)
  then show "free_containing v n fs = None" by (metis option.exhaust)
qed

text \<open>Splitting and erasing take the range out of its entry, as the consuming of the other free lists does.\<close>

lemma ConsumeUnlocked_found:
  assumes ok: "fr_ok fs" and n: "0 < unat n" and fit: "fits v n" and e: "free_containing v n fs = Some e"
  shows "ConsumeUnlocked v n fs = (True, ConsumeFreeRange e v n fs)"
proof -
  obtain rs rn where er: "e = (rs, rn)" by fastforce
  have es: "(rs, rn) \<in> set fs" "span_of v n \<subseteq> span_of rs rn"
    using e unfolding free_containing_spec [OF ok n fit] er by simp_all
  then have b: "unat rs \<le> unat v" "unat v + unat n \<le> unat rs + unat rn" using n by (auto simp: span_of_def)
  obtain A B where fs: "fs = A @ (rs, rn) # B" and c: "ConsumeFreeRange (rs, rn) v n fs =
      A @ (if unat rs < unat v then [(rs, v - rs)] else []) @
      (if unat v + unat n < unat rs + unat rn then [(v + n, rs + rn - v - n)] else []) @ B"
    by (rule ConsumeFreeRange_split [OF ok es(1) b])
  have r: "fits rs rn" "\<forall>q\<in>set A. fhi q < unat rs" "\<forall>q\<in>set B. unat rs + unat rn < flo q"
    using ok fs by (auto simp: fr_ok_append fr_ok_Cons)
  have re: "unat (rs + rn) = unat rs + unat rn" by (rule unat_end [OF r(1)])
  have ve: "unat (v + n) = unat v + unat n" by (rule unat_end [OF fit])
  have om: "om_ok (A @ (rs, w) # B)" for w using fr_ok_om_ok [OF ok] fs by (simp add: om_ok_append om_ok_Cons)
  have A: "\<forall>q\<in>set A. flo q < unat rs" using r(2) by force
  have B: "\<forall>q\<in>set B. unat v + unat n < flo q \<and> unat v < flo q" using r(3) b n by force
  define A' where "A' = A @ (if rs \<noteq> v then [(rs, v - rs)] else [])"
  have A': "\<forall>q\<in>set A'. flo q < unat v" using A b by (auto simp: A'_def eq_u64)
  define part where "part = rs + rn - v"
  have part: "unat part = unat rs + unat rn - unat v" using re b by (simp add: part_def unat_minus_u64)
  have om': "om_ok (A' @ (v, w) # B)" for w
    using om A' B by (auto simp: A'_def om_ok_append om_ok_Cons split: if_splits)
  have first: "(if rs \<noteq> v then om_emplace v (rs + rn - v) (om_assign rs (v - rs) fs) else fs) = A' @ (v, part) # B"
  proof (cases "rs = v")
    case True
    then show ?thesis using fs by (simp add: A'_def part_def)
  next
    case False
    have "om_assign rs (v - rs) fs = A' @ B" using om_put_middle [OF om] False fs by (simp add: A'_def)
    then show ?thesis using om_emplace_middle [OF A', of B part] B False by (simp add: part_def)
  qed
  have same: "rs = v \<and> rs + rn = v + n \<longleftrightarrow> rs = v \<and> part = n"
    using re ve part b by (auto simp: eq_u64)
  have split: "SplitUnlocked (rs, rn) v n fs =
      A' @ (v, n) # (if part \<noteq> n then [(v + n, part - n)] else []) @ B"
  proof (cases "rs = v \<and> part = n")
    case True
    then have "SplitUnlocked (rs, rn) v n fs = fs" using same by (simp add: SplitUnlocked_def Let_def)
    moreover have "rn = n" using True by (auto simp: part_def)
    ultimately show ?thesis using True fs by (simp add: A'_def)
  next
    case False
    have "om_emplace (v + n) (part - n) ((A' @ [(v, n)]) @ B) = (A' @ [(v, n)]) @ (v + n, part - n) # B"
      by (rule om_emplace_middle) (use A' B ve n in auto)
    then show ?thesis using False same first om_find_middle [OF om'] om_put_middle [OF om']
      by (auto simp: SplitUnlocked_def Let_def)
  qed
  have om'': "om_ok (A' @ (v, n) # (if part \<noteq> n then [(v + n, part - n)] else []) @ B)"
    using om' B ve n A' by (auto simp: om_ok_append om_ok_Cons) 
  have more: "unat v + unat n < unat rs + unat rn \<longleftrightarrow> part \<noteq> n" using part b by (auto simp: eq_u64)
  have less: "unat rs < unat v \<longleftrightarrow> rs \<noteq> v" using b by (auto simp: eq_u64)
  have "ConsumeUnlocked v n fs = (True, A' @ (if part \<noteq> n then [(v + n, part - n)] else []) @ B)"
    using e er split om_find_middle [OF om''] om_erase_middle [OF om''] by (simp add: ConsumeUnlocked_def Let_def)
  also have "A' @ (if part \<noteq> n then [(v + n, part - n)] else []) @ B = ConsumeFreeRange (rs, rn) v n fs"
    unfolding c more less by (simp add: A'_def part_def)
  finally show ?thesis unfolding er .
qed

lemma ConsumeUnlocked_spec:
  assumes ok: "fr_ok fs" and n: "0 < unat n" and fit: "fits v n"
  shows "ConsumeUnlocked v n fs = (r, fs') \<Longrightarrow> (r \<longleftrightarrow> span_of v n \<subseteq> fr_bytes fs) \<and>
    (r \<longrightarrow> fr_ok fs' \<and> fr_bytes fs' = fr_bytes fs - span_of v n) \<and> (\<not> r \<longrightarrow> fs' = fs)"
proof (cases "free_containing v n fs")
  case None
  then have no: "\<not> span_of v n \<subseteq> fr_bytes fs" by (simp only: free_containing_None [OF ok n fit] simp_thms)
  assume "ConsumeUnlocked v n fs = (r, fs')"
  then have "\<not> r" "fs' = fs" using None by (simp_all add: ConsumeUnlocked_def)
  then show ?thesis using no by simp
next
  case (Some e)
  assume "ConsumeUnlocked v n fs = (r, fs')"
  then have r: "r" "fs' = ConsumeFreeRange e v n fs" using ConsumeUnlocked_found [OF ok n fit Some] by simp_all
  have e: "e \<in> set fs" "span_of v n \<subseteq> span_of (fst e) (snd e)" using Some unfolding free_containing_spec [OF ok n fit] by simp_all
  have "span_of v n \<subseteq> fr_bytes fs" using free_containing_None [OF ok n fit] Some by simp
  then show ?thesis using r ConsumeFreeRange_spec [OF ok e(1) n fit e(2)] by simp
qed


text \<open>Joining a new range with the ranges that touch it.\<close>

lemma touching_before_spec:
  assumes "fr_ok xs" and "\<forall>x\<in>set xs. fhi x \<le> unat base" and "touching_before base (rev xs) = (b, zs)"
  shows "fr_ok (rev zs) \<and> (\<forall>x\<in>set zs. fhi x < unat b) \<and> unat b \<le> unat base \<and>
    fr_bytes xs = fr_bytes (rev zs) \<union> {unat b ..< unat base} \<and> (b = base \<longrightarrow> zs = rev xs) \<and>
    (\<forall>x\<in>set zs. flo x < unat b) \<and> (0 < unat base \<and> (\<forall>x\<in>set xs. 0 < flo x) \<longrightarrow> 0 < unat b)"
  using assms
proof (induction xs arbitrary: base rule: rev_induct)
  case (snoc x xs)
  obtain a n where x: "x = (a, n)" by fastforce
  have ok: "fr_ok xs" "0 < unat n" "fits a n" "\<forall>y\<in>set xs. fhi y < unat a"
    using snoc.prems(1) x by (auto simp: fr_ok_append fr_ok_Cons)
  have ae: "unat (a + n) = unat a + unat n" by (rule unat_end [OF ok(3)])
  have le: "unat a + unat n \<le> unat base" using snoc.prems(2) x by simp
  show ?case
  proof (cases "a + n = base")
    case True
    then have t: "touching_before a (rev xs) = (b, zs)" using snoc.prems(3) x by simp
    have "\<forall>y\<in>set xs. fhi y \<le> unat a" using ok(4) by auto
    note ih = snoc.IH [OF ok(1) this t]
    have "{unat b ..< unat base} = {unat b ..< unat a} \<union> span_of a n" using True ae ih by (auto simp: span_of_def)
    moreover have "b \<noteq> base" using ih ok(2) True ae by auto
    moreover have "unat a \<le> unat base" using le by simp
    ultimately show ?thesis using ih x by auto
  next
    case False
    then have z: "b = base" "zs = rev (xs @ [x])" using snoc.prems(3) x by auto
    have "unat a + unat n \<noteq> unat base" using False ae by (auto simp: eq_u64)
    then have lt: "unat a + unat n < unat base" using le by simp
    have "\<forall>y\<in>set xs. fhi y < unat base" using ok(4) lt by (meson less_trans add_strict_increasing2 le_add1 le_less_trans)
    then show ?thesis using z snoc.prems(1) x lt by (auto intro: le_less_trans [OF le_add1])
  qed
qed simp

lemma touching_after_spec:
  assumes "fr_ok ys" and "\<forall>y\<in>set ys. unat f \<le> flo y" and "touching_after f ys = (e, zs)"
  shows "fr_ok zs \<and> (\<forall>y\<in>set zs. unat e < flo y) \<and> unat f \<le> unat e \<and>
    fr_bytes ys = {unat f ..< unat e} \<union> fr_bytes zs \<and> (e = f \<longrightarrow> zs = ys)"
  using assms
proof (induction f ys rule: touching_after.induct)
  case (2 f a n ys)
  have ok: "fr_ok ys" "0 < unat n" "fits a n" "\<forall>y\<in>set ys. unat a + unat n < flo y"
    using "2.prems"(1) by (auto simp: fr_ok_Cons)
  have ae: "unat (a + n) = unat a + unat n" by (rule unat_end [OF ok(3)])
  show ?case
  proof (cases "f = a")
    case True
    then have t: "touching_after (a + n) ys = (e, zs)" using "2.prems"(3) by simp
    have "\<forall>y\<in>set ys. unat (a + n) \<le> flo y" using ok(4) ae by auto
    note ih = "2.IH" [OF True ok(1) this t]
    have "{unat f ..< unat e} = span_of a n \<union> {unat (a + n) ..< unat e}" using True ae ih by (auto simp: span_of_def)
    moreover have "e \<noteq> f" using ih ok(2) True ae by auto
    ultimately show ?thesis using ih ae True by auto
  next
    case False
    then have z: "e = f" "zs = (a, n) # ys" using "2.prems"(3) by auto
    have "unat f < unat a" using False "2.prems"(2) by (auto simp: eq_u64 order_less_le)
    then show ?thesis using z "2.prems"(1) ok(4) by auto
  qed
qed simp

lemma AddFree_spec:
  assumes ok: "fr_ok fs" and n: "0 < unat n" and fit: "fits v n" and v: "0 < unat v" and free: "span_of v n \<inter> fr_bytes fs = {}"
  shows "fr_ok (GuestSpace_AddFreeUnlocked v n fs) \<and> fr_bytes (GuestSpace_AddFreeUnlocked v n fs) = fr_bytes fs \<union> span_of v n"
proof -
  have out: "fhi x \<le> unat v \<or> unat v + unat n \<le> flo x" if x: "x \<in> set fs" for x
  proof (rule ccontr)
    assume no: "\<not> (fhi x \<le> unat v \<or> unat v + unat n \<le> flo x)"
    have "0 < unat (snd x)" using ok x by (auto simp: fr_ok_def)
    then have "max (unat v) (flo x) \<in> span_of v n" "max (unat v) (flo x) \<in> fr_bytes fs"
      using no n x by (auto simp: span_of_def fr_bytes_mem intro!: bexI [of _ x])
    then show False using free by blast
  qed
  have "v \<notin> fst ` set fs" using out n ok by (fastforce simp: fr_ok_def)
  then obtain xs ys where fs: "fs = xs @ ys" and em: "om_emplace v n fs = xs @ (v, n) # ys"
    and key: "\<forall>p\<in>set xs. unat (fst p) < unat v" "\<forall>p\<in>set ys. unat v < unat (fst p)"
    and none: "om_find v fs = None"
    using om_emplace_split [OF fr_ok_om_ok [OF ok], of v n] om_find_None by metis
  have okx: "fr_ok xs" "fr_ok ys" using ok fs by (simp_all add: fr_ok_append)
  have x: "\<forall>p\<in>set xs. fhi p \<le> unat v" using out key(1) fs by fastforce
  have y: "\<forall>p\<in>set ys. unat v + unat n \<le> flo p" using out key(2) fs by fastforce
  have ve: "unat (v + n) = unat v + unat n" by (rule unat_end [OF fit])
  obtain b zs where b: "touching_before v (rev xs) = (b, zs)" by fastforce
  obtain e ws where e: "touching_after (v + n) ys = (e, ws)" by fastforce
  note bs = touching_before_spec [OF okx(1) x b]
  have "\<forall>p\<in>set ys. unat (v + n) \<le> flo p" using y ve by simp
  note es = touching_after_spec [OF okx(2) this e]
  have eb: "unat (e - b) = unat e - unat b" using bs es ve by (simp add: unat_minus_u64)
  have lo: "om_lower v (xs @ (v, n) # ys) = (xs, (v, n) # ys)"
    using key by (cases xs rule: rev_cases) (auto simp: om_lower_def less_u64 takeWhile_append dropWhile_append)
  have run: "GuestSpace_AddFreeUnlocked v n fs =
      (if b \<noteq> v \<or> e \<noteq> v + n then om_emplace b (e - b) (rev zs @ ws) else xs @ (v, n) # ys)"
    using v n none by (simp add: GuestSpace_AddFreeUnlocked_def neq0_u64 [symmetric] em lo b e Let_def)
  have join: "om_emplace b (e - b) (rev zs @ ws) = rev zs @ (b, e - b) # ws"
    by (rule om_emplace_middle) (use bs es ve in auto)
  have res: "GuestSpace_AddFreeUnlocked v n fs = rev zs @ (b, e - b) # ws"
  proof (cases "b \<noteq> v \<or> e \<noteq> v + n")
    case True
    then show ?thesis unfolding run join by simp
  next
    case False
    then have "rev zs = xs" "ws = ys" using bs es by auto
    then show ?thesis unfolding run using False by simp
  qed
  have be: "unat b < unat e" using bs es ve n by simp
  have "fits b (e - b)" using eb be unat_u64_lt [of e] by (simp add: fits_def)
  moreover have "\<forall>x\<in>set (rev zs). \<forall>y\<in>set ((b, e - b) # ws). fhi x < flo y"
  proof (intro ballI)
    fix x y assume "x \<in> set (rev zs)" and y: "y \<in> set ((b, e - b) # ws)"
    then have "fhi x < unat b" using bs by simp
    moreover have "unat b \<le> flo y" using y es be by auto
    ultimately show "fhi x < flo y" by simp
  qed
  moreover have "\<forall>y\<in>set ws. fhi (b, e - b) < flo y" using es eb be by simp
  ultimately have "fr_ok (rev zs @ (b, e - b) # ws)"
    using bs es eb be unfolding fr_ok_append fr_ok_Cons by simp
  moreover have "span_of b (e - b) = {unat b ..< unat v} \<union> span_of v n \<union> {unat (v + n) ..< unat e}"
    using bs es eb ve by (auto simp: span_of_def)
  ultimately show ?thesis unfolding res using bs es fs by auto
qed


subsection \<open>The first free range\<close>

lemma next_multiple:
  assumes "0 < k"
  shows "(k :: nat) dvd x + (if x mod k \<noteq> 0 then k - x mod k else 0)"
    and "k dvd c \<Longrightarrow> x \<le> c \<Longrightarrow> x + (if x mod k \<noteq> 0 then k - x mod k else 0) \<le> c"
proof -
  have x: "x = k * (x div k) + x mod k" by simp
  have m: "x mod k < k" using assms by simp
  show "k dvd x + (if x mod k \<noteq> 0 then k - x mod k else 0)"
  proof (cases "x mod k = 0")
    case False
    have "x + (k - x mod k) = k * (x div k + 1)" unfolding distrib_left mult_1_right using x m by linarith
    then show ?thesis using False by simp
  qed auto
  assume c: "k dvd c" "x \<le> c"
  then obtain j where j: "c = k * j" by (auto elim: dvdE)
  show "x + (if x mod k \<noteq> 0 then k - x mod k else 0) \<le> c"
  proof (cases "x mod k = 0")
    case False
    have "x div k < j"
    proof (rule ccontr)
      assume "\<not> x div k < j"
      then have "k * j \<le> k * (x div k)" by simp
      then show False using x False j c(2) by linarith
    qed
    then have "k * (x div k + 1) \<le> c" unfolding j by (intro mult_le_mono2) simp
    moreover have "x + (k - x mod k) = k * (x div k + 1)" unfolding distrib_left mult_1_right using x m by linarith
    ultimately show ?thesis using False by simp
  qed (use c in simp)
qed

lemma AlignUp_spec:
  assumes al: "0 < unat al" and v: "0 < unat v"
  shows "AlignUp v al \<noteq> 0 \<longrightarrow> unat al dvd unat (AlignUp v al) \<and> unat v \<le> unat (AlignUp v al)"
    and "unat al dvd unat (c :: u64) \<Longrightarrow> unat v \<le> unat c \<Longrightarrow> AlignUp v al \<noteq> 0 \<and> unat (AlignUp v al) \<le> unat c"
proof -
  let ?i = "if v mod al \<noteq> 0 then al - v mod al else 0"
  let ?n = "if unat v mod unat al \<noteq> 0 then unat al - unat v mod unat al else 0"
  have m: "unat (v mod al) = unat v mod unat al" by (rule unat_mod)
  have "unat v mod unat al < unat al" using al by simp
  then have "unat (al - v mod al) = unat al - unat v mod unat al" using m by (simp add: unat_minus_u64)
  then have i: "unat ?i = ?n" using m by (simp add: eq_u64)
  have fit: "?i \<le> u64_max - v \<longleftrightarrow> unat v + ?n < 18446744073709551616"
    using i unat_u64_le [of v] by (simp add: le_u64 unat_minus_u64 less_Suc_eq_le) linarith
  have run: "AlignUp v al = (if ?i \<le> u64_max - v then v + ?i else 0)" using al by (auto simp: AlignUp_def Let_def)
  have u: "unat (v + ?i) = unat v + ?n" if "?i \<le> u64_max - v" using that fit i unat_plus_u64 [of v ?i] by simp
  note nm = next_multiple [OF al]
  show "AlignUp v al \<noteq> 0 \<longrightarrow> unat al dvd unat (AlignUp v al) \<and> unat v \<le> unat (AlignUp v al)"
  proof
    assume "AlignUp v al \<noteq> 0"
    then have ok: "?i \<le> u64_max - v" using run by (metis (full_types))
    then have "unat (AlignUp v al) = unat v + ?n" using run u by simp
    then show "unat al dvd unat (AlignUp v al) \<and> unat v \<le> unat (AlignUp v al)" using nm(1) [of "unat v"] by simp
  qed
  assume c: "unat al dvd unat c" "unat v \<le> unat c"
  have le: "unat v + ?n \<le> unat c" by (rule nm(2) [OF c])
  then have ok: "?i \<le> u64_max - v" unfolding fit using unat_u64_lt [of c] by linarith
  then have "unat (AlignUp v al) = unat v + ?n" using run u by simp
  then show "AlignUp v al \<noteq> 0 \<and> unat (AlignUp v al) \<le> unat c" using le v by (auto simp: neq0_u64)
qed

text \<open>An address the search may answer: aligned, inside the window, its range free.\<close>

definition fits_free :: "u64 \<Rightarrow> u64 \<Rightarrow> u64 \<Rightarrow> u64 \<Rightarrow> free_ranges \<Rightarrow> u64 \<Rightarrow> bool" where
  "fits_free s e n al fs c \<longleftrightarrow> unat al dvd unat c \<and> unat s \<le> unat c \<and> unat c + unat n \<le> unat e \<and>
     (\<exists>x\<in>set fs. flo x \<le> unat c \<and> unat c + unat n \<le> fhi x)"

definition first_fit :: "(u64 \<Rightarrow> bool) \<Rightarrow> u64 \<Rightarrow> bool" where
  "first_fit P r \<longleftrightarrow> (if r = 0 then \<forall>c. \<not> P c else P r \<and> (\<forall>c. P c \<longrightarrow> unat r \<le> unat c))"

lemma find_free_loop_spec:
  assumes "fr_ok fs" and n: "0 < unat n" and al: "0 < unat al" and "\<forall>x\<in>set fs. 0 < flo x"
  shows "first_fit (fits_free s e n al fs) (find_free_loop s e n al fs)"
  using assms(1,4)
proof (induction fs)
  case Nil
  then show ?case by (simp add: first_fit_def fits_free_def)
next
  case (Cons x fs)
  obtain b k where x: "x = (b, k)" by fastforce
  have ok: "fr_ok fs" "0 < unat k" "fits b k" "\<forall>y\<in>set fs. unat b + unat k < flo y" "0 < unat b"
    using Cons.prems x by (auto simp: fr_ok_Cons)
  have bk: "unat (b + k) = unat b + unat k" by (rule unat_end [OF ok(3)])
  note ih = Cons.IH [OF ok(1)]
  let ?c = "AlignUp (max b s) al"
  have mx: "0 < unat (max b s)" using ok(5) by (simp add: unat_max_u64)
  note a = AlignUp_spec [OF al mx]
  show ?case
  proof (cases "b < e")
    case False
    have "\<not> fits_free s e n al (x # fs) c" for c
    proof
      assume "fits_free s e n al (x # fs) c"
      then obtain y where "y \<in> set (x # fs)" "flo y \<le> unat c" "unat c + unat n \<le> unat e" unfolding fits_free_def by blast
      moreover have "unat e \<le> flo y" if "y \<in> set (x # fs)" for y
        using that False x ok(4) by (fastforce simp: less_u64)
      ultimately show False using n by fastforce
    qed
    then show ?thesis using False x by (simp add: first_fit_def)
  next
    case True
    let ?fit = "?c < e \<and> n \<le> e - ?c \<and> GuestFreeRangeContains b k ?c n"
    have in_x: "unat al dvd unat c \<and> unat s \<le> unat c \<and> unat c + unat n \<le> unat e \<and> unat b \<le> unat c \<and> unat c + unat n \<le> unat b + unat k \<Longrightarrow>
        ?fit \<and> unat ?c \<le> unat c" for c :: u64
    proof -
      assume c: "unat al dvd unat c \<and> unat s \<le> unat c \<and> unat c + unat n \<le> unat e \<and> unat b \<le> unat c \<and> unat c + unat n \<le> unat b + unat k"
      have "unat (max b s) \<le> unat c" using c by (simp add: unat_max_u64)
      then have le: "?c \<noteq> 0" "unat ?c \<le> unat c" using a(2) [of c] c by simp_all
      then have ge: "unat (max b s) \<le> unat ?c" using a(1) by simp
      have "?c < e" "n \<le> e - ?c" using le(2) c n by (auto simp: less_u64 le_u64 unat_minus_u64)
      moreover have "GuestFreeRangeContains b k ?c n"
        using ge le(2) c bk ok(3) no_wrap [of b k]
        by (auto simp: GuestFreeRangeContains_def Let_def le_u64 less_u64 unat_max_u64 unat_minus_u64)
      ultimately show ?thesis using le(2) by simp
    qed
    show ?thesis
    proof (cases ?fit)
      case f: True
      then have bc: "unat b \<le> unat ?c" by (auto simp: GuestFreeRangeContains_def less_u64 split: if_splits)
      then have c0: "?c \<noteq> 0" using ok(5) by (auto simp: neq0_u64)
      have "span_of ?c n \<subseteq> span_of b k" using f GuestFreeRangeContains_span [OF _ ok(3)] by blast
      then have "unat ?c + unat n \<le> unat b + unat k" using n by (auto simp: span_of_def)
      moreover have "unat ?c + unat n \<le> unat e"
        using f unat_minus_u64 [of ?c e] by (auto simp: less_u64 le_u64)
      moreover have "unat al dvd unat ?c" "unat s \<le> unat ?c" using a(1) c0 by (simp_all add: unat_max_u64)
      ultimately have "fits_free s e n al (x # fs) ?c" using bc x by (simp add: fits_free_def)
      moreover have "unat ?c \<le> unat c" if c: "fits_free s e n al (x # fs) c" for c
      proof -
        have al_c: "unat al dvd unat c" "unat s \<le> unat c" "unat c + unat n \<le> unat e" using c by (simp_all add: fits_free_def)
        obtain y where y: "y \<in> set (x # fs)" "flo y \<le> unat c" "unat c + unat n \<le> fhi y" using c unfolding fits_free_def by blast
        show ?thesis
        proof (cases "y = x")
          case True
          then show ?thesis using in_x [of c] al_c y x by simp
        next
          case False
          then have "unat b + unat k < flo y" using y(1) ok(4) by auto
          then show ?thesis using y(2) \<open>unat ?c + unat n \<le> unat b + unat k\<close> by simp
        qed
      qed
      ultimately show ?thesis using f True c0 by (simp add: x first_fit_def Let_def)
    next
      case f: False
      have "fits_free s e n al (x # fs) c \<longleftrightarrow> fits_free s e n al fs c" for c
        using in_x [of c] f x by (auto simp: fits_free_def)
      then show ?thesis using ih Cons.prems(2) True f by (auto simp: x Let_def first_fit_def)
    qed
  qed
qed

lemma FindFreeAlignedUnlocked_spec:
  assumes ok: "fr_ok (gs_free g)" and n: "0 < unat n" and al: "0 < unat al" and zero: "0 \<notin> fr_bytes (gs_free g)"
  shows "first_fit (fits_free s e n al (gs_free g)) (FindFreeAlignedUnlocked s e n al g)"
proof (cases "e \<le> s \<or> e - s < n")
  case True
  have "\<not> fits_free s e n al (gs_free g) c" for c
    using True n by (auto simp: fits_free_def le_u64 less_u64 unat_minus_u64)
  then show ?thesis using True by (simp add: FindFreeAlignedUnlocked_def first_fit_def)
next
  case False
  define scan where "scan = om_scan_from s (gs_free g)"
  obtain c where c: "gs_free g = c @ scan"
    and before: "\<forall>q\<in>set c. \<exists>m. scan \<noteq> [] \<and> m = fst (hd scan) \<and> unat (fst q) < unat m \<and> unat m \<le> unat s"
    unfolding scan_def by (rule om_scan_from_split [OF fr_ok_om_ok [OF ok]])
  have okc: "fr_ok scan" "\<forall>x\<in>set c. \<forall>y\<in>set scan. fhi x < flo y" using ok c by (simp_all add: fr_ok_append)
  have pos: "\<forall>x\<in>set (gs_free g). 0 < flo x"
  proof
    fix x assume x: "x \<in> set (gs_free g)"
    show "0 < flo x"
    proof (rule ccontr)
      assume "\<not> 0 < flo x"
      moreover have "0 < unat (snd x)" using ok x by (auto simp: fr_ok_def)
      ultimately have "0 \<in> fr_bytes (gs_free g)" using x by (auto simp: fr_bytes_mem intro!: bexI [of _ x])
      then show False using zero by simp
    qed
  qed
  have "fits_free s e n al (gs_free g) p \<longleftrightarrow> fits_free s e n al scan p" for p
  proof
    assume a: "fits_free s e n al (gs_free g) p"
    then obtain x where x: "x \<in> set (gs_free g)" "flo x \<le> unat p" "unat p + unat n \<le> fhi x" by (auto simp: fits_free_def)
    have "x \<notin> set c"
    proof
      assume xc: "x \<in> set c"
      then have h: "scan \<noteq> []" "unat (fst (hd scan)) \<le> unat s" using before by auto
      then have "fhi x < flo (hd scan)" using okc(2) xc hd_in_set by blast
      then have "fhi x < unat s" using h(2) by simp
      then show False using x(3) a by (simp add: fits_free_def)
    qed
    then have "x \<in> set scan" using x(1) c by simp
    then show "fits_free s e n al scan p" using a x by (auto simp: fits_free_def)
  next
    assume "fits_free s e n al scan p"
    moreover have "set scan \<subseteq> set (gs_free g)" using c by simp
    ultimately show "fits_free s e n al (gs_free g) p" by (auto simp: fits_free_def)
  qed
  moreover have "\<forall>x\<in>set scan. 0 < flo x" using pos c by simp
  note find_free_loop_spec [OF okc(1) n al this, of s e]
  ultimately show ?thesis using False by (simp add: FindFreeAlignedUnlocked_def first_fit_def scan_def)
qed


subsection \<open>The contract of the free list\<close>

text \<open>
  What the operations of the address space need of its free list: a range can be taken exactly when
  all of it is free, and a range that is not free can be given back.
\<close>

locale region_pool =
  fixes inv :: "'f \<Rightarrow> bool"
    and bytes :: "'f \<Rightarrow> nat set"
    and give :: "u64 \<Rightarrow> u64 \<Rightarrow> 'f \<Rightarrow> 'f"
    and take :: "u64 \<Rightarrow> u64 \<Rightarrow> 'f \<Rightarrow> bool \<times> 'f"
  assumes give_spec: "inv f \<Longrightarrow> 0 < unat n \<Longrightarrow> fits s n \<Longrightarrow> 0 < unat s \<Longrightarrow> span_of s n \<inter> bytes f = {} \<Longrightarrow>
      inv (give s n f) \<and> bytes (give s n f) = bytes f \<union> span_of s n"
    and take_spec: "inv f \<Longrightarrow> 0 < unat n \<Longrightarrow> fits s n \<Longrightarrow> take s n f = (r, f') \<Longrightarrow>
      (r \<longleftrightarrow> span_of s n \<subseteq> bytes f) \<and> (r \<longrightarrow> inv f' \<and> bytes f' = bytes f - span_of s n) \<and> (\<not> r \<longrightarrow> f' = f)"
begin

lemma take_splits:
  assumes "inv f" and "0 < unat n" and "fits s n" and "take s n f = (True, f')" and "splits pool (bytes f) used"
  shows "inv f'" and "splits pool (bytes f') (used \<union> span_of s n)" and "span_of s n \<inter> used = {}" and "span_of s n \<subseteq> pool"
  using take_spec [OF assms(1-4)] assms(5) by (auto simp: splits_def)

lemma give_splits:
  assumes "inv f" and "0 < unat n" and "fits s n" and "splits pool (bytes f) used" and "span_of s n \<subseteq> used" and "0 \<notin> pool"
  shows "inv (give s n f)" and "splits pool (bytes (give s n f)) (used - span_of s n)"
proof -
  have "unat s \<in> span_of s n" using assms(2) by (simp add: span_of_def)
  then have "0 < unat s" using assms(4-6) by (metis UnI2 gr0I in_mono splits_def)
  moreover have "span_of s n \<inter> bytes f = {}" using assms(4,5) by (auto simp: splits_def)
  ultimately have g: "inv (give s n f) \<and> bytes (give s n f) = bytes f \<union> span_of s n"
    by (intro give_spec assms(1-3))
  then show "inv (give s n f)" by simp
  show "splits pool (bytes (give s n f)) (used - span_of s n)" using g assms(4,5) by (auto simp: splits_def)
qed

text \<open>Taking a range and giving it back, as the operations do when the host refuses.\<close>

lemma take_give_splits:
  assumes "inv f" and "0 < unat n" and "fits s n" and "take s n f = (True, f')" and "splits pool (bytes f) used" and "0 \<notin> pool"
  shows "inv (give s n f')" and "splits pool (bytes (give s n f')) used" and "bytes (give s n f') = bytes f"
proof -
  note t = take_splits [OF assms(1-5)]
  note g = give_splits [OF t(1) assms(2,3) t(2) _ assms(6)]
  show "inv (give s n f')" by (rule g(1)) simp
  have "used \<union> span_of s n - span_of s n = used" using t(3) by blast
  then show sp: "splits pool (bytes (give s n f')) used" using g(2) by simp
  show "bytes (give s n f') = bytes f" using sp assms(5) by (auto simp: splits_def)
qed

end

interpretation space_free: region_pool fr_ok fr_bytes GuestSpace_AddFreeUnlocked ConsumeUnlocked
  by (unfold_locales, rule AddFree_spec, assumption+, rule ConsumeUnlocked_spec)

end
