(* ===== verification/SpaceRegions.thy ===== *)
theory SpaceRegions
  imports SpaceLists
begin

text \<open>
  The mapped regions of the guest address space, as a function from addresses to the kind of
  mapping that holds them.
\<close>

abbreviation region_span :: "mapped_region \<Rightarrow> nat set" where "region_span r \<equiv> span_of (mr_vaddr r) (mr_size r)"

definition region_ok :: "mapped_region \<Rightarrow> bool" where
  "region_ok r \<longleftrightarrow> 0 < unat (mr_size r) \<and> fits (mr_vaddr r) (mr_size r)"

abbreviation glo :: "u64 \<times> mapped_region \<Rightarrow> nat" where "glo p \<equiv> unat (mr_vaddr (snd p))"
abbreviation ghi :: "u64 \<times> mapped_region \<Rightarrow> nat" where "ghi p \<equiv> unat (mr_vaddr (snd p)) + unat (mr_size (snd p))"

definition regions_ok :: "mapped_region omap \<Rightarrow> bool" where
  "regions_ok m \<longleftrightarrow> iv_ok glo ghi m \<and> (\<forall>p\<in>set m. fst p = mr_vaddr (snd p) \<and> region_ok (snd p))"

fun region_at :: "mapped_region omap \<Rightarrow> nat \<Rightarrow> mapping_type option" where
  "region_at [] a = None"
| "region_at ((k, r) # m) a = (if a \<in> region_span r then Some (mr_type r) else region_at m a)"

definition region_pts :: "mapped_region omap \<Rightarrow> nat set" where
  "region_pts m = {a. region_at m a \<noteq> None}"

lemma regions_ok_Nil [simp]: "regions_ok []"
  by (simp add: regions_ok_def)

lemma regions_ok_append:
  "regions_ok (xs @ ys) \<longleftrightarrow> regions_ok xs \<and> regions_ok ys \<and> (\<forall>x\<in>set xs. \<forall>y\<in>set ys. ghi x \<le> glo y)"
  by (auto simp: regions_ok_def iv_ok_append)

lemma regions_ok_Cons:
  "regions_ok ((k, r) # m) \<longleftrightarrow> k = mr_vaddr r \<and> region_ok r \<and> regions_ok m \<and>
     (\<forall>p\<in>set m. unat (mr_vaddr r) + unat (mr_size r) \<le> glo p)"
  by (auto simp: regions_ok_def iv_ok_Cons region_ok_def)

lemma regions_ok_om_ok: "regions_ok m \<Longrightarrow> om_ok m"
proof (induction m)
  case (Cons p m)
  obtain k r where p: "p = (k, r)" by fastforce
  have "\<forall>q\<in>set m. unat k < unat (fst q)"
  proof
    fix q assume q: "q \<in> set m"
    have c: "k = mr_vaddr r" "region_ok r" "\<forall>p\<in>set m. unat (mr_vaddr r) + unat (mr_size r) \<le> glo p" "regions_ok m"
      using Cons.prems p by (simp_all add: regions_ok_Cons)
    then have "fst q = mr_vaddr (snd q)" using q by (simp add: regions_ok_def)
    then show "unat k < unat (fst q)" using c q by (fastforce simp: region_ok_def)
  qed
  then show ?case using Cons p by (auto simp: regions_ok_Cons om_ok_Cons)
qed simp

lemma region_at_append: "region_at (xs @ ys) a = (case region_at xs a of None \<Rightarrow> region_at ys a | Some t \<Rightarrow> Some t)"
  by (induction xs a rule: region_at.induct) auto

lemma region_at_None: "region_at m a = None \<longleftrightarrow> (\<forall>p\<in>set m. a \<notin> region_span (snd p))"
  by (induction m a rule: region_at.induct) auto

lemma region_pts_iff: "a \<in> region_pts m \<longleftrightarrow> (\<exists>p\<in>set m. a \<in> region_span (snd p))"
  using region_at_None [of m a] by (auto simp: region_pts_def)

lemma region_at_middle:
  assumes "regions_ok (xs @ (k, r) # ys)"
  shows "region_at (xs @ (k, r) # ys) a = (if a \<in> region_span r then Some (mr_type r) else region_at (xs @ ys) a)"
    and "region_span r \<inter> region_pts (xs @ ys) = {}" and "regions_ok (xs @ ys)"
proof -
  have apart: "\<forall>p\<in>set xs \<union> set ys. region_span (snd p) \<inter> region_span r = {}"
    using assms by (fastforce simp: regions_ok_append regions_ok_Cons span_of_def)
  then have none: "region_at xs a = None" if "a \<in> region_span r" for a using that by (auto simp: region_at_None)
  show "region_at (xs @ (k, r) # ys) a = (if a \<in> region_span r then Some (mr_type r) else region_at (xs @ ys) a)"
    using none by (auto simp: region_at_append split: option.splits)
  show "region_span r \<inter> region_pts (xs @ ys) = {}" using apart unfolding region_pts_iff [abs_def] disjoint_iff set_append by blast
  show "regions_ok (xs @ ys)" using assms by (auto simp: regions_ok_append regions_ok_Cons)
qed

subsection \<open>Lookups\<close>

lemma FindMapped_spec:
  assumes ok: "regions_ok m"
  shows "FindMappedContainingUnlocked v m = Some r \<longleftrightarrow> (\<exists>p\<in>set m. snd p = r \<and> unat v \<in> region_span r)"
proof -
  have iv: "iv_ok glo ghi m" "\<forall>p\<in>set m. unat (fst p) = glo p" using ok by (auto simp: regions_ok_def)
  have hit: "p \<in> set m \<and> unat v \<in> region_span (snd p) \<longleftrightarrow>
      fst (om_upper v m) \<noteq> [] \<and> p = last (fst (om_upper v m)) \<and> unat v < ghi p" for p
    using om_upper_hit [OF iv, of p v] by (simp add: span_of_def)
  have ends: "unat (mr_vaddr (snd p) + mr_size (snd p)) = ghi p" if "p \<in> set m" for p
    using ok that by (intro unat_end) (auto simp: regions_ok_def region_ok_def)
  have last_in: "last (fst (om_upper v m)) \<in> set m" if "fst (om_upper v m) \<noteq> []"
    using that om_upper_append [of v m] by (metis UnI1 last_in_set set_append)
  show ?thesis
  proof
    assume "FindMappedContainingUnlocked v m = Some r"
    then have u: "fst (om_upper v m) \<noteq> []" "r = snd (last (fst (om_upper v m)))" "v < mr_vaddr r + mr_size r"
      by (auto simp: FindMappedContainingUnlocked_def Let_def split: if_splits)
    have "last (fst (om_upper v m)) \<in> set m \<and> unat v \<in> region_span (snd (last (fst (om_upper v m))))"
      unfolding hit using u ends last_in by (simp add: less_u64)
    then show "\<exists>p\<in>set m. snd p = r \<and> unat v \<in> region_span r" using u(2) by blast
  next
    assume "\<exists>p\<in>set m. snd p = r \<and> unat v \<in> region_span r"
    then obtain p where p: "p \<in> set m" "snd p = r" "unat v \<in> region_span r" by blast
    then have "fst (om_upper v m) \<noteq> [] \<and> p = last (fst (om_upper v m)) \<and> unat v < ghi p" using hit [of p] by simp
    then show "FindMappedContainingUnlocked v m = Some r"
      using p(2) ends [OF p(1)] by (simp add: FindMappedContainingUnlocked_def Let_def less_u64)
  qed
qed

lemma FindMapped_None:
  assumes ok: "regions_ok m"
  shows "FindMappedContainingUnlocked v m = None \<longleftrightarrow> region_at m (unat v) = None"
  using FindMapped_spec [OF ok, of v] unfolding region_at_None
  by (metis not_None_eq)

lemma region_at_elem:
  assumes "regions_ok m" and "p \<in> set m" and "a \<in> region_span (snd p)"
  shows "region_at m a = Some (mr_type (snd p))"
proof -
  obtain xs ys where m: "m = xs @ (fst p, snd p) # ys" using assms(2) by (metis prod.collapse split_list)
  show ?thesis using region_at_middle(1) [of xs "fst p" "snd p" ys a] assms(1,3) m by simp
qed

text \<open>One step of the walks over the regions of a range.\<close>

lemma region_step:
  assumes ok: "regions_ok m" and lt: "unat current < unat finish"
  obtains (gap) "FindMappedContainingUnlocked current m = None" "region_at m (unat current) = None"
  | (part) r k where "FindMappedContainingUnlocked current m = Some r" "(k, r) \<in> set m" "unat current \<in> region_span r"
      "k = mr_vaddr r" "region_ok r" "unat (mr_vaddr r + mr_size r) = unat (mr_vaddr r) + unat (mr_size r)"
      "unat (min finish (mr_vaddr r + mr_size r)) = min (unat finish) (unat (mr_vaddr r) + unat (mr_size r))"
      "unat current < unat (min finish (mr_vaddr r + mr_size r))"
      "\<forall>a. unat current \<le> a \<and> a < unat (min finish (mr_vaddr r + mr_size r)) \<longrightarrow> region_at m a = Some (mr_type r)"
proof (cases "FindMappedContainingUnlocked current m")
  case None
  then show thesis using gap FindMapped_None [OF ok] by simp
next
  case (Some r)
  then obtain p where p: "p \<in> set m" "snd p = r" "unat current \<in> region_span r" unfolding FindMapped_spec [OF ok] by blast
  then have e: "fst p = mr_vaddr r" "region_ok r" using ok by (auto simp: regions_ok_def)
  have f: "unat (mr_vaddr r + mr_size r) = unat (mr_vaddr r) + unat (mr_size r)"
    by (rule unat_end) (use e in \<open>simp add: region_ok_def\<close>)
  have g: "unat (min finish (mr_vaddr r + mr_size r)) = min (unat finish) (unat (mr_vaddr r) + unat (mr_size r))"
    unfolding unat_min_u64 f ..
  have lt': "unat current < unat (min finish (mr_vaddr r + mr_size r))" unfolding g using lt p(3) by (simp add: span_of_def)
  have at: "\<forall>a. unat current \<le> a \<and> a < unat (min finish (mr_vaddr r + mr_size r)) \<longrightarrow> region_at m a = Some (mr_type r)"
    unfolding g using region_at_elem [OF ok p(1)] p(2,3) by (auto simp: span_of_def)
  have "(mr_vaddr r, r) \<in> set m" using p(1,2) e(1) by (metis prod.collapse)
  then show thesis by (rule part [OF Some _ p(3) refl e(2) f g lt' at])
qed

lemma contains_mapped_loop_spec:
  assumes "regions_ok m" and "unat current \<le> unat finish"
  shows "contains_mapped_loop m t finish current \<longleftrightarrow> (\<forall>a. unat current \<le> a \<and> a < unat finish \<longrightarrow> region_at m a = Some t)"
  using assms
proof (induction m t finish current rule: contains_mapped_loop.induct)
  case (1 m t finish current)
  note eq = contains_mapped_loop.simps [of m t finish current]
  show ?case
  proof (cases "current < finish")
    case False
    then show ?thesis using "1.prems" unfolding eq by (auto simp: less_u64)
  next
    case True
    then have lt: "unat current < unat finish" by (simp add: less_u64)
    show ?thesis
    proof (cases rule: region_step [OF "1.prems"(1) lt])
      case 1
      then show ?thesis using True lt unfolding eq by auto
    next
      case (2 r k)
      let ?e = "min finish (mr_vaddr r + mr_size r)"
      show ?thesis
      proof (cases "mr_type r = t")
        case False
        have "region_at m (unat current) = Some (mr_type r)" using 2(9,8) by blast
        then show ?thesis using False True lt 2(1) unfolding eq by auto
      next
        case same: True
        have "unat ?e \<le> unat finish" unfolding 2(7) by simp
        then have ih: "contains_mapped_loop m t finish ?e \<longleftrightarrow> (\<forall>a. unat ?e \<le> a \<and> a < unat finish \<longrightarrow> region_at m a = Some t)"
          using "1.IH" [OF True 2(1) _ "1.prems"(1)] same by simp
        have "contains_mapped_loop m t finish current = contains_mapped_loop m t finish ?e"
          using True same unfolding eq by (simp only: if_True 2(1) option.case simp_thms if_False)
        moreover have "(\<forall>a. unat ?e \<le> a \<and> a < unat finish \<longrightarrow> region_at m a = Some t) \<longleftrightarrow>
            (\<forall>a. unat current \<le> a \<and> a < unat finish \<longrightarrow> region_at m a = Some t)" (is "?L \<longleftrightarrow> ?R")
        proof
          assume L: ?L
          have at: "\<forall>a. unat current \<le> a \<and> a < unat ?e \<longrightarrow> region_at m a = Some t" using 2(9) unfolding same .
          show ?R
          proof (intro allI impI)
            fix a assume "unat current \<le> a \<and> a < unat finish"
            then show "region_at m a = Some t" using L at by (cases "a < unat ?e") (simp_all del: fun_upd_apply)
          qed
        next
          assume ?R
          then show ?L using 2(8) by (meson less_imp_le order_trans)
        qed
        ultimately show ?thesis using ih by (simp only:)
      qed
    qed
  qed
qed

lemma ContainsMapped_spec:
  assumes ok: "regions_ok m"
  shows "ContainsMappedUnlocked v n t m \<longleftrightarrow> 0 < unat n \<and> fits v n \<and> (\<forall>a\<in>span_of v n. region_at m a = Some t)"
proof (cases "0 < unat n \<and> fits v n")
  case False
  then have "n = 0 \<or> u64_max - v < n" using no_wrap neq0_u64 by blast
  then show ?thesis using False by (auto simp: ContainsMappedUnlocked_def)
next
  case True
  then have g: "\<not> (n = 0 \<or> u64_max - v < n)" using no_wrap neq0_u64 by blast
  have e: "unat (v + n) = unat v + unat n" by (rule unat_end) (use True in simp)
  have "contains_mapped_loop m t (v + n) v \<longleftrightarrow> (\<forall>a. unat v \<le> a \<and> a < unat v + unat n \<longrightarrow> region_at m a = Some t)"
    using contains_mapped_loop_spec [OF ok, of v "v + n" t] e by simp
  then show ?thesis using g True by (auto simp: ContainsMappedUnlocked_def span_of_def)
qed


subsection \<open>Adding a region\<close>

lemma AddMapped_spec:
  assumes ok: "regions_ok m" and n: "0 < unat n" and fit: "fits v n" and run: "AddMappedUnlocked v n t m = (r, m')"
  shows "(r \<longleftrightarrow> span_of v n \<inter> region_pts m = {}) \<and> (\<not> r \<longrightarrow> m' = m) \<and>
    (r \<longrightarrow> regions_ok m' \<and> (\<forall>a. region_at m' a = (if a \<in> span_of v n then Some t else region_at m a)))"
proof -
  let ?r = "\<lparr>mr_vaddr = v, mr_size = n, mr_type = t\<rparr>"
  obtain xs ys where l: "om_lower v m = (xs, ys)" by fastforce
  note s = om_lower_split [OF regions_ok_om_ok [OF ok] l]
  have key: "fst p = mr_vaddr (snd p)" "region_ok (snd p)" if "p \<in> set m" for p using ok that by (auto simp: regions_ok_def)
  have ve: "unat (v + n) = unat v + unat n" by (rule unat_end [OF fit])
  have g: "\<not> (n = 0 \<or> u64_max - v < n)" using n fit no_wrap neq0_u64 by blast
  have ends: "unat (mr_vaddr (snd p) + mr_size (snd p)) = ghi p" if "p \<in> set m" for p
    using key [OF that] by (intro unat_end) (simp add: region_ok_def)
  have hit_after: "span_of v n \<inter> region_span (snd p) \<noteq> {}" if p: "p \<in> set ys" "glo p < unat v + unat n" for p
  proof -
    have "p \<in> set m" "unat v \<le> unat (fst p)" using s(1,3) p(1) by auto
    then have "unat v \<le> glo p" using key(1) by metis
    then have "glo p \<in> span_of v n \<inter> region_span (snd p)"
      using p key(2) [of p] s(1) by (auto simp: span_of_def region_ok_def)
    then show ?thesis by blast
  qed
  have hit_before: "span_of v n \<inter> region_span (snd p) \<noteq> {}" if p: "p \<in> set xs" "unat v < ghi p" for p
  proof -
    have "p \<in> set m" "unat (fst p) < unat v" using s(1,2) p(1) by auto
    then have "glo p < unat v" using key(1) by metis
    then have "unat v \<in> span_of v n \<inter> region_span (snd p)" using p n by (auto simp: span_of_def)
    then show ?thesis by blast
  qed
  define after where "after \<longleftrightarrow> ys \<noteq> [] \<and> mr_vaddr (snd (hd ys)) < v + n"
  define before where "before \<longleftrightarrow> xs \<noteq> [] \<and> v < mr_vaddr (snd (last xs)) + mr_size (snd (last xs))"
  have a: "after \<longleftrightarrow> (\<exists>p\<in>set ys. glo p < unat v + unat n)"
  proof (cases ys)
    case (Cons y zs)
    have "regions_ok (y # zs)" using ok s(1) Cons by (simp add: regions_ok_append)
    then have "\<forall>p\<in>set zs. ghi y \<le> glo p" by (cases y) (simp add: regions_ok_Cons)
    then have "\<forall>p\<in>set zs. glo y \<le> glo p" by (meson add_leD1)
    then show ?thesis using Cons ve by (fastforce simp: after_def less_u64)
  qed (simp add: after_def)
  have b: "before \<longleftrightarrow> (\<exists>p\<in>set xs. unat v < ghi p)"
  proof (cases xs rule: rev_cases)
    case (snoc zs z)
    have "\<forall>p\<in>set zs. ghi p \<le> glo z" using ok s(1) snoc by (simp add: regions_ok_append)
    moreover have "z \<in> set m" using s(1) snoc by simp
    moreover have "glo z < unat v" using s(2) snoc key(1) [OF \<open>z \<in> set m\<close>] by simp
    ultimately have "\<forall>p\<in>set zs. \<not> unat v < ghi p" by fastforce
    then show ?thesis using snoc ends [OF \<open>z \<in> set m\<close>] by (simp add: before_def less_u64)
  qed (simp add: before_def)
  have AddRun: "AddMappedUnlocked v n t m =
      (if after then (False, m) else if before then (False, m)
       else if om_find v m \<noteq> None then (False, m) else (True, om_emplace v ?r m))"
    using g by (simp add: AddMappedUnlocked_def l Let_def after_def before_def)
  show ?thesis
  proof (cases "after \<or> before")
    case True
    then obtain p where "p \<in> set m" "span_of v n \<inter> region_span (snd p) \<noteq> {}"
      using a b hit_after hit_before s(1) by (metis Un_iff set_append)
    then have "span_of v n \<inter> region_pts m \<noteq> {}" unfolding region_pts_iff [abs_def] disjoint_iff by blast
    moreover have "\<not> r" "m' = m" using True run AddRun by (auto split: if_splits)
    ultimately show ?thesis by simp
  next
    case False
    have x: "\<forall>p\<in>set xs. ghi p \<le> unat v" using b False by (metis linorder_not_less)
    have y: "\<forall>p\<in>set ys. unat v + unat n \<le> glo p" using a False by (metis linorder_not_less)
    have none: "om_find v m = None"
    proof (rule ccontr)
      assume "om_find v m \<noteq> None"
      then obtain p where p: "p \<in> set m" "fst p = v" by (auto simp: om_find_None)
      then have "p \<in> set xs \<or> p \<in> set ys" using s(1) by simp
      then show False
      proof
        assume "p \<in> set ys"
        then have "unat v + unat n \<le> glo p" using y by blast
        then show False using p key(1) [OF p(1)] n by simp
      qed (use p s(2) in auto)
    qed
    have m': "r" "m' = xs @ (v, ?r) # ys"
      using run AddRun False none l by (auto simp: om_emplace_def)
    have "region_ok ?r" using n fit by (simp add: region_ok_def)
    then have okm: "regions_ok m'"
      unfolding m' regions_ok_append [of xs] regions_ok_Cons using ok s(1) x y by (fastforce simp: regions_ok_append)
    note mid = region_at_middle [OF okm [unfolded m']]
    show ?thesis using m' okm mid s(1) by simp
  qed
qed

lemma add_rest_spec:
  assumes ok: "regions_ok m" and e: "needed \<Longrightarrow> 0 < unat n \<and> fits v n \<and> span_of v n \<inter> region_pts m = {}"
  obtains m' where "add_rest needed v n t m = Some m'" and "regions_ok m'"
    and "\<forall>a. region_at m' a = (if needed \<and> a \<in> span_of v n then Some t else region_at m a)"
proof (cases needed)
  case False
  then show thesis using that [of m] ok by (simp add: add_rest_def)
next
  case True
  obtain r m' where run: "AddMappedUnlocked v n t m = (r, m')" by fastforce
  have r: "r" "regions_ok m'" "\<forall>a. region_at m' a = (if a \<in> span_of v n then Some t else region_at m a)"
    using AddMapped_spec [OF ok _ _ run] e [OF True] by auto
  then show thesis using that [of m'] True run by (simp add: add_rest_def)
qed

subsection \<open>Removing regions\<close>

text \<open>One turn of the loop: the region found leaves, and what it has outside the range comes back.\<close>

lemma remove_one:
  assumes ok: "regions_ok m" and r: "(mr_vaddr r, r) \<in> set m" and c: "unat (mr_vaddr r) \<le> unat current" "unat current < unat part"
    and f: "unat part \<le> unat (mr_vaddr r) + unat (mr_size r)"
  obtains m1 m2 where "add_rest (mr_vaddr r < current) (mr_vaddr r) (current - mr_vaddr r) (mr_type r) (om_erase (mr_vaddr r) m) = Some m1"
    and "add_rest (part < mr_vaddr r + mr_size r) part (mr_vaddr r + mr_size r - part) (mr_type r) m1 = Some m2"
    and "regions_ok m2" and "\<forall>a. region_at m2 a = (if unat current \<le> a \<and> a < unat part then None else region_at m a)"
proof -
  obtain xs ys where m: "m = xs @ (mr_vaddr r, r) # ys" using r by (meson split_list)
  note mid = region_at_middle [OF ok [unfolded m]]
  have er: "om_erase (mr_vaddr r) m = xs @ ys" using om_erase_middle regions_ok_om_ok [OF ok] m by simp
  have rok: "region_ok r" using ok r by (auto simp: regions_ok_def)
  have re: "unat (mr_vaddr r + mr_size r) = unat (mr_vaddr r) + unat (mr_size r)"
    by (rule unat_end) (use rok in \<open>simp add: region_ok_def\<close>)
  have l: "unat (current - mr_vaddr r) = unat current - unat (mr_vaddr r)" using c by (simp add: unat_minus_u64)
  have rt: "unat (mr_vaddr r + mr_size r - part) = unat (mr_vaddr r) + unat (mr_size r) - unat part"
    using f re by (simp add: unat_minus_u64)
  have fits1: "fits (mr_vaddr r) (current - mr_vaddr r)" using l c unat_u64_lt [of current] by (simp add: fits_def)
  have fits2: "fits part (mr_vaddr r + mr_size r - part)"
    using rt f re unat_u64_lt [of "mr_vaddr r + mr_size r"] by (simp add: fits_def)
  have lsp: "span_of (mr_vaddr r) (current - mr_vaddr r) = {unat (mr_vaddr r) ..< unat current}"
    using l c by (simp add: span_of_def)
  have rsp: "span_of part (mr_vaddr r + mr_size r - part) = {unat part ..< unat (mr_vaddr r) + unat (mr_size r)}"
    using rt f by (simp add: span_of_def)
  have none: "region_at (xs @ ys) a = None" if "a \<in> region_span r" for a
    using mid(2) that by (auto simp: region_pts_def)
  obtain m1 where m1: "add_rest (mr_vaddr r < current) (mr_vaddr r) (current - mr_vaddr r) (mr_type r) (om_erase (mr_vaddr r) m) = Some m1"
      "regions_ok m1" "\<forall>a. region_at m1 a = (if mr_vaddr r < current \<and> a \<in> span_of (mr_vaddr r) (current - mr_vaddr r)
        then Some (mr_type r) else region_at (xs @ ys) a)"
  proof (rule add_rest_spec [OF mid(3), where needed = "mr_vaddr r < current" and v = "mr_vaddr r" and n = "current - mr_vaddr r" and t = "mr_type r"])
    assume "mr_vaddr r < current"
    moreover have "span_of (mr_vaddr r) (current - mr_vaddr r) \<subseteq> region_span r" unfolding lsp using c f by (auto simp: span_of_def)
    ultimately show "0 < unat (current - mr_vaddr r) \<and> fits (mr_vaddr r) (current - mr_vaddr r) \<and>
        span_of (mr_vaddr r) (current - mr_vaddr r) \<inter> region_pts (xs @ ys) = {}"
      using l fits1 mid(2) by (auto simp: less_u64)
  qed (simp add: er that)
  have at1: "region_at m1 a = (if unat (mr_vaddr r) \<le> a \<and> a < unat current then Some (mr_type r) else region_at (xs @ ys) a)" for a
    using m1(3) lsp by (auto simp: less_u64)
  obtain m2 where m2: "add_rest (part < mr_vaddr r + mr_size r) part (mr_vaddr r + mr_size r - part) (mr_type r) m1 = Some m2"
      "regions_ok m2" "\<forall>a. region_at m2 a = (if part < mr_vaddr r + mr_size r \<and> a \<in> span_of part (mr_vaddr r + mr_size r - part)
        then Some (mr_type r) else region_at m1 a)"
  proof (rule add_rest_spec [OF m1(2), where needed = "part < mr_vaddr r + mr_size r" and v = part
        and n = "mr_vaddr r + mr_size r - part" and t = "mr_type r"])
    assume "part < mr_vaddr r + mr_size r"
    moreover have "region_at m1 a = None" if "a \<in> span_of part (mr_vaddr r + mr_size r - part)" for a
      using that c none [of a] unfolding rsp at1 by (auto simp: span_of_def)
    ultimately show "0 < unat (mr_vaddr r + mr_size r - part) \<and> fits part (mr_vaddr r + mr_size r - part) \<and>
        span_of part (mr_vaddr r + mr_size r - part) \<inter> region_pts m1 = {}"
      using rt re fits2 by (auto simp: less_u64 region_pts_def)
  qed
  have "region_at m2 a = (if unat current \<le> a \<and> a < unat part then None else region_at m a)" for a
  proof -
    have "region_at m2 a = (if unat part \<le> a \<and> a < unat (mr_vaddr r) + unat (mr_size r) then Some (mr_type r) else region_at m1 a)"
      using m2(3) rsp re f by (auto simp: less_u64)
    moreover have "region_at m a = (if a \<in> region_span r then Some (mr_type r) else region_at (xs @ ys) a)" unfolding m by (rule mid(1))
    ultimately show ?thesis unfolding at1 using c f none [of a] by (auto simp: span_of_def)
  qed
  then show thesis using that m1(1) m2 by blast
qed

lemma remove_mapped_loop_spec:
  assumes "regions_ok m" and "unat current \<le> unat finish" and "\<forall>a. unat current \<le> a \<and> a < unat finish \<longrightarrow> region_at m a \<noteq> None"
  shows "\<exists>m'. remove_mapped_loop finish current m = Some m' \<and> regions_ok m' \<and>
    (\<forall>a. region_at m' a = (if unat current \<le> a \<and> a < unat finish then None else region_at m a))"
  using assms
proof (induction finish current m rule: remove_mapped_loop.induct)
  case (1 finish current m)
  note eq = remove_mapped_loop.simps [of finish current m]
  show ?case
  proof (cases "current < finish")
    case False
    then show ?thesis using "1.prems" unfolding eq by (auto simp: less_u64)
  next
    case True
    then have lt: "unat current < unat finish" by (simp add: less_u64)
    show ?thesis
    proof (cases rule: region_step [OF "1.prems"(1) lt])
      case 1
      then show ?thesis using "1.prems"(3) lt by auto
    next
      case (2 r k)
      let ?p = "min finish (mr_vaddr r + mr_size r)"
      have r: "(mr_vaddr r, r) \<in> set m" using 2(2,4) by simp
      have c: "unat (mr_vaddr r) \<le> unat current" "unat ?p \<le> unat (mr_vaddr r) + unat (mr_size r)" "unat ?p \<le> unat finish"
        using 2(3,7) by (auto simp: span_of_def)
      obtain m1 m2 where m1: "add_rest (mr_vaddr r < current) (mr_vaddr r) (current - mr_vaddr r) (mr_type r) (om_erase (mr_vaddr r) m) = Some m1"
        and m2: "add_rest (?p < mr_vaddr r + mr_size r) ?p (mr_vaddr r + mr_size r - ?p) (mr_type r) m1 = Some m2"
        and ok2: "regions_ok m2" and at2: "\<forall>a. region_at m2 a = (if unat current \<le> a \<and> a < unat ?p then None else region_at m a)"
        by (rule remove_one [OF "1.prems"(1) r c(1) 2(8) c(2)])
      have run: "remove_mapped_loop finish current m = remove_mapped_loop finish ?p m2"
        using True unfolding eq by (simp only: if_True 2(1) option.case Let_def m1 m2)
      have "\<forall>a. unat ?p \<le> a \<and> a < unat finish \<longrightarrow> region_at m2 a \<noteq> None" using at2 "1.prems"(3) 2(8) by auto
      then obtain m' where m': "remove_mapped_loop finish ?p m2 = Some m'" "regions_ok m'"
          "\<forall>a. region_at m' a = (if unat ?p \<le> a \<and> a < unat finish then None else region_at m2 a)"
        using "1.IH" [OF True 2(1) refl refl m1 m2 ok2 c(3)] by blast
      have "region_at m' a = (if unat current \<le> a \<and> a < unat finish then None else region_at m a)" for a
        using m'(3) at2 2(8) c(3) by auto
      then show ?thesis using run m' by auto
    qed
  qed
qed

lemma RemoveMapped_spec:
  assumes ok: "regions_ok m"
  shows "if ContainsMappedUnlocked v n t m
    then \<exists>m'. RemoveMappedUnlocked v n t m = Some (True, m') \<and> regions_ok m' \<and>
      (\<forall>a. region_at m' a = (if a \<in> span_of v n then None else region_at m a))
    else RemoveMappedUnlocked v n t m = Some (False, m)"
proof (cases "ContainsMappedUnlocked v n t m")
  case True
  then have c: "fits v n" "\<forall>a\<in>span_of v n. region_at m a = Some t" unfolding ContainsMapped_spec [OF ok] by simp_all
  have e: "unat (v + n) = unat v + unat n" by (rule unat_end [OF c(1)])
  have "\<forall>a. unat v \<le> a \<and> a < unat (v + n) \<longrightarrow> region_at m a \<noteq> None" using c(2) e by (auto simp: span_of_def)
  then have "\<exists>m'. remove_mapped_loop (v + n) v m = Some m' \<and> regions_ok m' \<and>
      (\<forall>a. region_at m' a = (if unat v \<le> a \<and> a < unat (v + n) then None else region_at m a))"
    using e by (intro remove_mapped_loop_spec [OF ok]) simp_all
  then show ?thesis using True e by (auto simp: RemoveMappedUnlocked_def span_of_def)
next
  case False
  then show ?thesis by (simp add: RemoveMappedUnlocked_def)
qed

text \<open>The parts to release are found for every range that is mapped.\<close>

lemma release_parts_Some:
  assumes "regions_ok m" and "unat current \<le> unat finish" and "\<forall>a. unat current \<le> a \<and> a < unat finish \<longrightarrow> region_at m a \<noteq> None"
  shows "release_parts m finish current rs \<noteq> None"
  using assms
proof (induction m finish current rs rule: release_parts.induct)
  case (1 m finish current rs)
  note eq = release_parts.simps [of m finish current rs]
  show ?case
  proof (cases "current < finish")
    case False
    then show ?thesis unfolding eq by simp
  next
    case True
    then have lt: "unat current < unat finish" by (simp add: less_u64)
    show ?thesis
    proof (cases rule: region_step [OF "1.prems"(1) lt])
      case 1
      then show ?thesis using "1.prems"(3) lt by auto
    next
      case (2 r k)
      let ?p = "min finish (mr_vaddr r + mr_size r)"
      have "unat ?p \<le> unat finish" using 2(7) by simp
      moreover have "\<forall>a. unat ?p \<le> a \<and> a < unat finish \<longrightarrow> region_at m a \<noteq> None" using "1.prems"(3) 2(8) by auto
      ultimately have "release_parts m finish ?p (rs @ [(current, ?p - current)]) \<noteq> None"
        using "1.IH" [OF True 2(1) refl "1.prems"(1)] by blast
      then show ?thesis using True unfolding eq by (simp only: if_True 2(1) option.case Let_def not_False_eq_True)
    qed
  qed
qed

end
