(* ===== verification/AddressSpaceInv.thy ===== *)
theory AddressSpaceInv
  imports SpaceRegions BackingStoreProps
begin

text \<open>
  The invariant of the guest address space: every owned address is free or mapped and not both, and
  the addresses mapped to the backing are exactly those the backing store has views for. Each
  operation is shown to keep it, on every answer of the host.
\<close>

definition owned_bytes :: "(u64 \<times> u64) list \<Rightarrow> nat set" where
  "owned_bytes rs = (\<Union>(s, n)\<in>set rs. span_of s n)"

definition gs_ok :: "guest_space \<Rightarrow> bool" where
  "gs_ok g \<longleftrightarrow> fr_ok (gs_free g) \<and> regions_ok (gs_mapped g) \<and> bs_ok (gs_backing g) \<and>
     splits (owned_bytes (gs_owned g)) (fr_bytes (gs_free g)) (region_pts (gs_mapped g)) \<and> 0 \<notin> owned_bytes (gs_owned g) \<and>
     (\<forall>a. region_at (gs_mapped g) a = Some Backing \<longleftrightarrow> a \<in> viewed (bs_maps (gs_backing g)))"

text \<open>What an address stands for: its mapping, and the byte of the backing behind it.\<close>

definition space_view :: "guest_space \<Rightarrow> nat \<Rightarrow> (mapping_type \<times> nat option) option" where
  "space_view g a = (case region_at (gs_mapped g) a of
     None \<Rightarrow> None
   | Some t \<Rightarrow> Some (t, view_at (bs_maps (gs_backing g)) a))"

lemma space_view_free [simp]: "space_view (g\<lparr>gs_free := f\<rparr>) = space_view g"
  by (rule ext) (simp add: space_view_def split: option.split)

lemma space_view_backing:
  "(\<And>a. view_at (bs_maps bs) a = view_at (bs_maps (gs_backing g)) a) \<Longrightarrow> space_view (g\<lparr>gs_backing := bs\<rparr>) = space_view g"
  by (rule ext) (simp add: space_view_def split: option.split)

text \<open>Two spaces that no later operation can tell apart by what is free, mapped and backed.\<close>

definition same_space :: "guest_space \<Rightarrow> guest_space \<Rightarrow> bool" where
  "same_space g g' \<longleftrightarrow> gs_owned g' = gs_owned g \<and> fr_bytes (gs_free g') = fr_bytes (gs_free g) \<and>
     space_view g' = space_view g \<and> same_store (gs_backing g) (gs_backing g')"

lemma pts_update:
  assumes "\<forall>a. region_at m' a = (if a \<in> S then Some t else region_at m a)"
  shows "region_pts m' = region_pts m \<union> S"
  using assms by (auto simp: region_pts_def)

lemma pts_remove:
  assumes "\<forall>a. region_at m' a = (if a \<in> S then None else region_at m a)"
  shows "region_pts m' = region_pts m - S"
  using assms by (auto simp: region_pts_def)

lemma viewed_update:
  assumes "\<forall>a. view_at m' a = (if a \<in> S then Some (f a) else view_at m a)"
  shows "viewed m' = viewed m \<union> S"
  using assms by (auto simp: viewed_def)

lemma viewed_remove:
  assumes "\<forall>a. view_at m' a = (if a \<in> S then None else view_at m a)"
  shows "viewed m' = viewed m - S"
  using assms by (auto simp: viewed_def)

lemma gs_ok_viewed_mapped: "gs_ok g \<Longrightarrow> viewed (bs_maps (gs_backing g)) \<subseteq> region_pts (gs_mapped g)"
  by (auto simp: gs_ok_def region_pts_def)

subsection \<open>Mapping backing bytes\<close>

lemma MapBacking_spec:
  assumes ok: "gs_ok g" and n: "0 < unat n" and fit: "fits v n"
    and run: "GuestSpace_MapBacking ops v n off mode (g, h) = Some (r, g', h')"
  shows "gs_ok g' \<and> gs_owned g' = gs_owned g \<and> same_store (gs_backing g) (gs_backing g') \<and>
    (r \<noteq> NoFailure \<longrightarrow> same_space g g') \<and>
    (r = NoFailure \<longrightarrow> span_of v n \<subseteq> fr_bytes (gs_free g) \<and> RangeOk off n (gs_backing g) \<and>
      fr_bytes (gs_free g') = fr_bytes (gs_free g) - span_of v n \<and>
      (\<forall>a. space_view g' a = (if a \<in> span_of v n then Some (Backing, Some (unat off + (a - unat v))) else space_view g a)))"
proof -
  let ?pool = "owned_bytes (gs_owned g)" and ?used = "region_pts (gs_mapped g)"
  have g: "fr_ok (gs_free g)" "regions_ok (gs_mapped g)" "bs_ok (gs_backing g)"
    "splits ?pool (fr_bytes (gs_free g)) ?used" "0 \<notin> ?pool"
    and agree: "\<forall>a. region_at (gs_mapped g) a = Some Backing \<longleftrightarrow> a \<in> viewed (bs_maps (gs_backing g))"
    using ok by (simp_all add: gs_ok_def)
  obtain c free where c: "ConsumeUnlocked v n (gs_free g) = (c, free)" by fastforce
  show ?thesis
  proof (cases c)
    case False
    then have "free = gs_free g" using ConsumeUnlocked_spec [OF g(1) n fit c] by simp
    then have "r = AddressRangeUnavailable" "g' = g" using run c False by (simp_all add: GuestSpace_MapBacking_def)
    then show ?thesis using ok by (simp add: same_space_def)
  next
    case True
    have cons: "ConsumeUnlocked v n (gs_free g) = (True, free)" using c True by simp
    note t = space_free.take_splits [OF g(1) n fit cons g(4)]
    have fb: "fr_bytes free = fr_bytes (gs_free g) - span_of v n"
      and sub: "span_of v n \<subseteq> fr_bytes (gs_free g)" using ConsumeUnlocked_spec [OF g(1) n fit c] True by simp_all
    have unv: "span_of v n \<inter> viewed (bs_maps (gs_backing g)) = {}" using t(3) gs_ok_viewed_mapped [OF ok] by blast
    obtain reason bs hh where m: "MapExistingPlaceholderFixed (ho_views ops) v n off (host_mode mode) (gs_backing g, h) = Some (reason, bs, hh)"
      using run cons by (auto simp: GuestSpace_MapBacking_def split: option.splits)
    note me = MapExisting_spec [OF g(3) n fit unv m]
    show ?thesis
    proof (cases "reason = NoFailure")
      case False
      note put_back = space_free.take_give_splits [OF g(1) n fit cons g(4,5)]
      have bs: "bs = gs_backing g" using me False by simp
      have res: "r = reason" "g' = g\<lparr>gs_free := GuestSpace_AddFreeUnlocked v n free\<rparr>"
        using run cons m False bs by (simp_all add: GuestSpace_MapBacking_def Let_def)
      have "gs_ok g'" using put_back g agree unfolding res(2) gs_ok_def by simp
      then show ?thesis using res False put_back(3) by (simp add: same_space_def)
    next
      case nf: True
      have b: "bs_ok bs" "same_store (gs_backing g) bs" "RangeOk off n (gs_backing g)"
        and va: "\<forall>a. view_at (bs_maps bs) a = (if a \<in> span_of v n then Some (unat off + (a - unat v)) else view_at (bs_maps (gs_backing g)) a)"
        using me nf by auto
      obtain a m' where add: "AddMappedUnlocked v n Backing (gs_mapped g) = (a, m')" by fastforce
      note am = AddMapped_spec [OF g(2) n fit add]
      have res: "a" "r = NoFailure" "g' = g\<lparr>gs_free := free, gs_backing := bs, gs_mapped := m'\<rparr>"
        using run cons m nf add by (auto simp: GuestSpace_MapBacking_def Let_def split: bool.splits)
      have at: "regions_ok m'" "\<forall>x. region_at m' x = (if x \<in> span_of v n then Some Backing else region_at (gs_mapped g) x)"
        using am res(1) by simp_all
      have "splits ?pool (fr_bytes free) (region_pts m')" using t(2) pts_update [OF at(2)] by simp
      moreover have "region_at m' x = Some Backing \<longleftrightarrow> x \<in> viewed (bs_maps bs)" for x
        using at(2) agree viewed_update [OF va] by auto
      ultimately have "gs_ok g'" unfolding res(3) gs_ok_def using t(1) at(1) b(1) g(5) by simp
      moreover have "space_view g' x = (if x \<in> span_of v n then Some (Backing, Some (unat off + (x - unat v))) else space_view g x)" for x
        unfolding res(3) space_view_def using at(2) va by (auto split: option.splits)
      ultimately show ?thesis using res(2,3) b(2,3) sub fb by simp
    qed
  qed
qed

subsection \<open>Unmapping\<close>

lemma UnmapBacking_spec:
  assumes ok: "gs_ok g" and run: "GuestSpace_UnmapBacking ops v n (g, views, h) = Some (r, g', views', h')"
  shows "gs_ok g' \<and> gs_owned g' = gs_owned g \<and> same_store (gs_backing g) (gs_backing g') \<and> views' = [] \<and>
    (\<not> r \<longrightarrow> same_space g g') \<and>
    (r \<longrightarrow> 0 < unat n \<and> fits v n \<and> (\<forall>a\<in>span_of v n. region_at (gs_mapped g) a = Some Backing) \<and>
      fr_bytes (gs_free g') = fr_bytes (gs_free g) \<union> span_of v n \<and>
      (\<forall>a. space_view g' a = (if a \<in> span_of v n then None else space_view g a)))"
proof -
  let ?pool = "owned_bytes (gs_owned g)" and ?used = "region_pts (gs_mapped g)"
  have g: "fr_ok (gs_free g)" "regions_ok (gs_mapped g)" "bs_ok (gs_backing g)"
    "splits ?pool (fr_bytes (gs_free g)) ?used" "0 \<notin> ?pool"
    and agree: "\<forall>a. region_at (gs_mapped g) a = Some Backing \<longleftrightarrow> a \<in> viewed (bs_maps (gs_backing g))"
    using ok by (simp_all add: gs_ok_def)
  show ?thesis
  proof (cases "ContainsMappedUnlocked v n Backing (gs_mapped g)")
    case False
    then have "\<not> r" "g' = g" "views' = []" using run by (simp_all add: GuestSpace_UnmapBacking_def)
    then show ?thesis using ok by (simp add: same_space_def)
  next
    case True
    have c: "0 < unat n" "fits v n" "\<forall>a\<in>span_of v n. region_at (gs_mapped g) a = Some Backing"
      using True unfolding ContainsMapped_spec [OF g(2)] by simp_all
    obtain u bs vs hh where m: "Backing_Unmap (ho_views ops) v n (gs_backing g, views, h) = Some (u, bs, vs, hh)"
      using run True by (cases "Backing_Unmap (ho_views ops) v n (gs_backing g, views, h)")
        (auto simp: GuestSpace_UnmapBacking_def)
    note b = Backing_Unmap_spec [OF g(3) m]
    show ?thesis
    proof (cases u)
      case False
      then have res: "\<not> r" "g' = g\<lparr>gs_backing := bs\<rparr>" "views' = []"
        using run True m by (simp_all add: GuestSpace_UnmapBacking_def)
      have va: "view_at (bs_maps bs) a = view_at (bs_maps (gs_backing g)) a" for a using b False by simp
      then have "viewed (bs_maps bs) = viewed (bs_maps (gs_backing g))" by (simp add: viewed_def)
      then have "gs_ok g'" using b g agree unfolding res(2) gs_ok_def by simp
      moreover have "space_view g' = space_view g" unfolding res(2) by (rule space_view_backing [OF va])
      ultimately show ?thesis using res b by (simp add: same_space_def)
    next
      case u: True
      have va: "\<forall>a. view_at (bs_maps bs) a = (if a \<in> span_of v n then None else view_at (bs_maps (gs_backing g)) a)"
        using b u by simp
      obtain m' where rm: "RemoveMappedUnlocked v n Backing (gs_mapped g) = Some (True, m')" "regions_ok m'"
          "\<forall>a. region_at m' a = (if a \<in> span_of v n then None else region_at (gs_mapped g) a)"
        using RemoveMapped_spec [OF g(2), of v n Backing] True by auto
      have res: "r" "g' = g\<lparr>gs_backing := bs, gs_mapped := m', gs_free := GuestSpace_AddFreeUnlocked v n (gs_free g)\<rparr>" "views' = []"
        using run True m u rm(1) by (simp_all add: GuestSpace_UnmapBacking_def)
      have sub: "span_of v n \<subseteq> ?used" using c(3) by (auto simp: region_pts_def)
      note gv = space_free.give_splits [OF g(1) c(1,2) g(4) sub g(5)]
      have "splits ?pool (fr_bytes (GuestSpace_AddFreeUnlocked v n (gs_free g))) (region_pts m')"
        using gv(2) pts_remove [OF rm(3)] by simp
      moreover have "region_at m' x = Some Backing \<longleftrightarrow> x \<in> viewed (bs_maps bs)" for x
        using rm(3) agree viewed_remove [OF va] by auto
      ultimately have "gs_ok g'" unfolding res(2) gs_ok_def using gv(1) rm(2) b g(5) by simp
      moreover have "fr_bytes (GuestSpace_AddFreeUnlocked v n (gs_free g)) = fr_bytes (gs_free g) \<union> span_of v n"
        using gv(2) g(4) sub by (auto simp: splits_def)
      moreover have "space_view g' x = (if x \<in> span_of v n then None else space_view g x)" for x
        unfolding res(2) space_view_def using rm(3) va by (auto split: option.splits)
      ultimately show ?thesis using res c b by simp
    qed
  qed
qed


subsection \<open>Committing and releasing\<close>

lemma Commit_spec:
  assumes ok: "gs_ok g" and n: "0 < unat n" and fit: "fits v n"
    and run: "GuestSpace_Commit ops v n mode (g, h) = st"
  obtains r g' h' where "st = Some (r, g', h')" and "gs_ok g'" and "gs_owned g' = gs_owned g" and "gs_backing g' = gs_backing g"
    and "\<not> r \<longrightarrow> same_space g g'"
    and "r \<longrightarrow> span_of v n \<subseteq> fr_bytes (gs_free g) \<and> fr_bytes (gs_free g') = fr_bytes (gs_free g) - span_of v n \<and>
      (\<forall>a. space_view g' a = (if a \<in> span_of v n then Some (Private, None) else space_view g a))"
proof -
  let ?pool = "owned_bytes (gs_owned g)" and ?used = "region_pts (gs_mapped g)"
  have g: "fr_ok (gs_free g)" "regions_ok (gs_mapped g)" "bs_ok (gs_backing g)"
    "splits ?pool (fr_bytes (gs_free g)) ?used" "0 \<notin> ?pool"
    and agree: "\<forall>a. region_at (gs_mapped g) a = Some Backing \<longleftrightarrow> a \<in> viewed (bs_maps (gs_backing g))"
    using ok by (simp_all add: gs_ok_def)
  obtain c free where c: "ConsumeUnlocked v n (gs_free g) = (c, free)" by fastforce
  show thesis
  proof (cases c)
    case False
    then have "free = gs_free g" using ConsumeUnlocked_spec [OF g(1) n fit c] by simp
    then have "st = Some (False, g, h)" using run c False by (simp add: GuestSpace_Commit_def)
    then show thesis by (rule that) (simp_all add: ok same_space_def)
  next
    case True
    have cons: "ConsumeUnlocked v n (gs_free g) = (True, free)" using c True by simp
    note t = space_free.take_splits [OF g(1) n fit cons g(4)]
    have fb: "fr_bytes free = fr_bytes (gs_free g) - span_of v n"
      and sub: "span_of v n \<subseteq> fr_bytes (gs_free g)" using ConsumeUnlocked_spec [OF g(1) n fit c] True by simp_all
    obtain p hh where p: "HostProtect ops v n (host_mode mode) h = (p, hh)" by fastforce
    show thesis
    proof (cases p)
      case False
      note put_back = space_free.take_give_splits [OF g(1) n fit cons g(4,5)]
      let ?g = "g\<lparr>gs_free := GuestSpace_AddFreeUnlocked v n free\<rparr>"
      have st: "st = Some (False, ?g, hh)" using run cons p False by (simp add: GuestSpace_Commit_def Let_def)
      have "gs_ok ?g" using put_back g agree unfolding gs_ok_def by simp
      with st show thesis by (rule that) (use put_back(3) in \<open>simp_all add: same_space_def\<close>)
    next
      case pt: True
      obtain a m' where add: "AddMappedUnlocked v n Private (gs_mapped g) = (a, m')" by fastforce
      note am = AddMapped_spec [OF g(2) n fit add]
      have a: a using am t(3) by blast
      let ?g = "g\<lparr>gs_free := free, gs_mapped := m'\<rparr>"
      have st: "st = Some (True, ?g, hh)" using run cons p pt add a by (simp add: GuestSpace_Commit_def Let_def)
      have at: "regions_ok m'" "\<forall>x. region_at m' x = (if x \<in> span_of v n then Some Private else region_at (gs_mapped g) x)"
        using am a by simp_all
      have unv: "span_of v n \<inter> viewed (bs_maps (gs_backing g)) = {}" using t(3) gs_ok_viewed_mapped [OF ok] by blast
      have "splits ?pool (fr_bytes free) (region_pts m')" using t(2) pts_update [OF at(2)] by simp
      moreover have "region_at m' x = Some Backing \<longleftrightarrow> x \<in> viewed (bs_maps (gs_backing g))" for x
        using at(2) agree unv by auto
      ultimately have okg: "gs_ok ?g" unfolding gs_ok_def using t(1) at(1) g(3,5) by simp
      have "space_view ?g x = (if x \<in> span_of v n then Some (Private, None) else space_view g x)" for x
        unfolding space_view_def using at(2) unv by (auto simp: viewed_def split: option.splits)
      then show thesis using sub fb by (intro that [OF st okg]) simp_all
    qed
  qed
qed

lemma ReleaseCommitted_spec:
  assumes ok: "gs_ok g" and run: "GuestSpace_ReleaseCommitted ops v n (g, h) = Some (r, g', h')"
  shows "gs_ok g' \<and> gs_owned g' = gs_owned g \<and> gs_backing g' = gs_backing g \<and> (\<not> r \<longrightarrow> g' = g) \<and>
    (r \<longrightarrow> 0 < unat n \<and> fits v n \<and> (\<forall>a\<in>span_of v n. region_at (gs_mapped g) a = Some Private) \<and>
      fr_bytes (gs_free g') = fr_bytes (gs_free g) \<union> span_of v n \<and>
      (\<forall>a. space_view g' a = (if a \<in> span_of v n then None else space_view g a)))"
proof -
  let ?pool = "owned_bytes (gs_owned g)" and ?used = "region_pts (gs_mapped g)"
  have g: "fr_ok (gs_free g)" "regions_ok (gs_mapped g)" "bs_ok (gs_backing g)"
    "splits ?pool (fr_bytes (gs_free g)) ?used" "0 \<notin> ?pool"
    and agree: "\<forall>a. region_at (gs_mapped g) a = Some Backing \<longleftrightarrow> a \<in> viewed (bs_maps (gs_backing g))"
    using ok by (simp_all add: gs_ok_def)
  show ?thesis
  proof (cases "(v = 0 \<or> n = 0 \<or> \<not> IsPageAligned v \<or> \<not> IsPageAligned n) \<or> \<not> ContainsMappedUnlocked v n Private (gs_mapped g)")
    case True
    then have "\<not> r" "g' = g" using run by (auto simp: GuestSpace_ReleaseCommitted_def split: if_splits)
    then show ?thesis using ok by simp
  next
    case False
    have c: "0 < unat n" "fits v n" "\<forall>a\<in>span_of v n. region_at (gs_mapped g) a = Some Private"
      using False unfolding ContainsMapped_spec [OF g(2)] by simp_all
    obtain m' where rm: "RemoveMappedUnlocked v n Private (gs_mapped g) = Some (True, m')" "regions_ok m'"
        "\<forall>a. region_at m' a = (if a \<in> span_of v n then None else region_at (gs_mapped g) a)"
      using RemoveMapped_spec [OF g(2), of v n Private] False by auto
    have res: "r" "g' = g\<lparr>gs_mapped := m', gs_free := GuestSpace_AddFreeUnlocked v n (gs_free g)\<rparr>"
      using run False rm(1) by (auto simp: GuestSpace_ReleaseCommitted_def split: option.splits)
    have sub: "span_of v n \<subseteq> ?used" using c(3) by (auto simp: region_pts_def)
    note gv = space_free.give_splits [OF g(1) c(1,2) g(4) sub g(5)]
    have "splits ?pool (fr_bytes (GuestSpace_AddFreeUnlocked v n (gs_free g))) (region_pts m')"
      using gv(2) pts_remove [OF rm(3)] by simp
    moreover have "region_at m' x = Some Backing \<longleftrightarrow> x \<in> viewed (bs_maps (gs_backing g))" for x
      using rm(3) agree c(3) by (metis mapping_type.distinct(1) option.distinct(1) option.inject)
    ultimately have "gs_ok g'" unfolding res(2) gs_ok_def using gv(1) rm(2) g(3,5) by simp
    moreover have "fr_bytes (GuestSpace_AddFreeUnlocked v n (gs_free g)) = fr_bytes (gs_free g) \<union> span_of v n"
      using gv(2) g(4) sub by (auto simp: splits_def)
    moreover have "space_view g' x = (if x \<in> span_of v n then None else space_view g x)" for x
      unfolding res(2) space_view_def using rm(3) by (auto split: option.splits)
    ultimately show ?thesis using res c by simp
  qed
qed

text \<open>
  Releasing a committed range ends the program only when the host refuses to make a placeholder again.
\<close>

lemma ReleaseCommitted_returns:
  assumes ok: "gs_ok g" and host: "\<And>v n h. fst (HostRestore ops v n h)"
  shows "GuestSpace_ReleaseCommitted ops v n (g, h) \<noteq> None"
proof (cases "(v = 0 \<or> n = 0 \<or> \<not> IsPageAligned v \<or> \<not> IsPageAligned n) \<or> \<not> ContainsMappedUnlocked v n Private (gs_mapped g)")
  case True
  then show ?thesis by (auto simp: GuestSpace_ReleaseCommitted_def)
next
  case False
  have m: "regions_ok (gs_mapped g)" using ok by (simp add: gs_ok_def)
  have c: "fits v n" "\<forall>a\<in>span_of v n. region_at (gs_mapped g) a = Some Private"
    using False unfolding ContainsMapped_spec [OF m] by simp_all
  have e: "unat (v + n) = unat v + unat n" by (rule unat_end [OF c(1)])
  have "release_parts (gs_mapped g) (v + n) v [] \<noteq> None"
    using c(2) e by (intro release_parts_Some [OF m]) (auto simp: span_of_def)
  then obtain parts where parts: "release_parts (gs_mapped g) (v + n) v [] = Some parts" by blast
  have "restore_all ops rs h \<noteq> None" for rs h
    using host by (induction rs arbitrary: h) (auto split: prod.splits, metis fst_conv)
  then obtain hh where "restore_all ops parts h = Some hh" by blast
  moreover obtain m' where "RemoveMappedUnlocked v n Private (gs_mapped g) = Some (True, m')"
    using RemoveMapped_spec [OF m, of v n Private] False by auto
  ultimately show ?thesis using False parts by (simp add: GuestSpace_ReleaseCommitted_def)
qed

end
