(* ===== verification/AddressSpaceProps.thy ===== *)
theory AddressSpaceProps
  imports AddressSpaceInv Runs
begin

text \<open>
  Runs of the guest address space from start-up, its properties, and the search for a free range
  that the mapping calls share.
\<close>

unbundle bit_operations_syntax

subsection \<open>Start-up\<close>

lemma AlignDown_le: "unat (AlignDown v a) \<le> unat v"
  unfolding AlignDown_def le_u64 [symmetric] by (rule word_and_le2)

lemma owned_bytes_simps [simp]:
  "owned_bytes [] = {}" "owned_bytes (rs @ [(s, n)]) = owned_bytes rs \<union> span_of s n"
  by (auto simp: owned_bytes_def)

text \<open>While reserving: what is owned is free, and lies between zero and the position reached.\<close>

definition reserving :: "nat \<Rightarrow> free_ranges \<times> (u64 \<times> u64) list \<times> 'h \<Rightarrow> bool" where
  "reserving bound st \<longleftrightarrow> (case st of (free, owned, h) \<Rightarrow>
     fr_ok free \<and> fr_bytes free = owned_bytes owned \<and> (\<forall>a\<in>owned_bytes owned. 0 < a \<and> a < bound))"

lemma reserving_mono: "reserving b st \<Longrightarrow> b \<le> c \<Longrightarrow> reserving c st"
  by (fastforce simp: reserving_def split: prod.splits)

lemma reserve_range_spec:
  assumes st: "reserving (unat start) st" and s: "0 < unat start"
  shows "reserving (max (unat start) (unat finish)) (reserve_range ops start finish st)"
proof -
  obtain free owned h where t: "st = (free, owned, h)" by (cases st) auto
  let ?s = "AlignUp start PageSize" and ?f = "AlignDown finish PageSize"
  have p: "0 < unat PageSize" by (simp add: PageSize_def)
  have keep: "reserving (max (unat start) (unat finish)) (free, owned, h)" for h
    using reserving_mono [OF st, of "max (unat start) (unat finish)"] unfolding t by (simp add: reserving_def)
  obtain r hh where r: "HostReserve ops ?s (?f - ?s) h = (r, hh)" by fastforce
  show ?thesis
  proof (cases "?s = 0 \<or> ?f \<le> ?s \<or> \<not> r")
    case True
    then show ?thesis using keep r t by (auto simp: reserve_range_def Let_def)
  next
    case False
    have s1: "unat start \<le> unat ?s" using AlignUp_spec(1) [OF p s] False by simp
    have n: "unat (?f - ?s) = unat ?f - unat ?s" "unat ?s < unat ?f" using False by (simp_all add: unat_minus_u64 le_u64)
    have fit: "fits ?s (?f - ?s)" using n unat_u64_lt [of ?f] by (simp add: fits_def)
    have sp: "span_of ?s (?f - ?s) = {unat ?s ..< unat ?f}" using n by (simp add: span_of_def)
    have i: "fr_ok free" "fr_bytes free = owned_bytes owned" "\<forall>a\<in>owned_bytes owned. 0 < a \<and> a < unat start"
      using st by (simp_all add: reserving_def t)
    have pos: "0 < unat (?f - ?s)" "0 < unat ?s" using n s s1 by simp_all
    have "span_of ?s (?f - ?s) \<inter> fr_bytes free = {}" unfolding sp i(2) using i(3) s1 by fastforce
    note add = AddFree_spec [OF i(1) pos(1) fit pos(2) this]
    have "reserve_range ops start finish st = (GuestSpace_AddFreeUnlocked ?s (?f - ?s) free, owned @ [(?s, ?f - ?s)], hh)"
      using False r t by (simp add: reserve_range_def Let_def)
    moreover have "\<forall>a\<in>owned_bytes owned \<union> span_of ?s (?f - ?s). 0 < a \<and> a < max (unat start) (unat finish)"
      unfolding sp using i(3) pos(2) AlignDown_le [of finish PageSize] by fastforce
    ultimately show ?thesis using add i(2) by (simp add: reserving_def)
  qed
qed

lemma reserve_region_spec:
  assumes "reserving (unat current) st" and "0 < unat current" and "unat current \<le> unat region_end"
    and "\<forall>(s, e)\<in>set occupied. s \<le> e"
  shows "reserving (unat region_end) (reserve_region ops current region_end occupied st)"
  using assms
proof (induction ops current region_end occupied st rule: reserve_region.induct)
  case (1 ops current region_end st)
  then show ?case using reserve_range_spec [OF "1.prems"(1,2), of region_end ops] reserving_mono [OF "1.prems"(1,3)]
    by (simp add: max_absorb2)
next
  case (2 ops current region_end ms me occupied st)
  have w: "ms \<le> me" "\<forall>(s, e)\<in>set occupied. s \<le> e" using "2.prems"(4) by auto
  consider (behind) "me \<le> current" | (past) "\<not> me \<le> current" "region_end \<le> ms" | (inside) "\<not> me \<le> current" "\<not> region_end \<le> ms"
    by blast
  then show ?case
  proof cases
    case behind
    then show ?thesis using "2.IH"(1) [OF behind "2.prems"(1-3) w(2)] by simp
  next
    case past
    then show ?thesis using reserve_range_spec [OF "2.prems"(1,2), of region_end ops] reserving_mono [OF "2.prems"(1,3)] "2.prems"(3)
      by (auto simp: max_absorb2)
  next
    case inside
    define st' where "st' = (if current < ms then reserve_range ops current (min ms region_end) st else st)"
    define c where "c = max current me"
    have lt: "ms < region_end" using inside(2) by simp
    have st': "reserving (unat (max current ms)) st'"
    proof (cases "current < ms")
      case True
      have "min ms region_end = ms" using lt by (simp add: min_def less_imp_le)
      then have "reserving (max (unat current) (unat ms)) st'"
        using reserve_range_spec [OF "2.prems"(1,2), of ms ops] True by (simp add: st'_def)
      then show ?thesis by (simp add: unat_max_u64)
    next
      case False
      then have "max current ms = current" by (simp add: max_def)
      then show ?thesis using "2.prems"(1) False by (simp add: st'_def)
    qed
    have run: "reserve_region ops current region_end ((ms, me) # occupied) st =
        (if region_end \<le> c then st' else reserve_region ops c region_end occupied st')"
      using inside by (simp add: st'_def c_def Let_def)
    show ?thesis
    proof (cases "region_end \<le> c")
      case True
      have "unat (max current ms) \<le> unat region_end" using "2.prems"(3) lt by (simp add: unat_max_u64 less_u64)
      then show ?thesis using True run reserving_mono [OF st'] by simp
    next
      case False
      have le: "unat (max current ms) \<le> unat c" using w(1) by (simp add: c_def unat_max_u64 le_u64)
      have "reserving (unat c) st'" by (rule reserving_mono [OF st' le])
      moreover have "0 < unat c" using "2.prems"(2) by (simp add: c_def unat_max_u64)
      moreover have "unat c \<le> unat region_end" using False by (simp add: le_u64)
      ultimately have "reserving (unat region_end) (reserve_region ops c region_end occupied st')"
        using "2.IH"(2) [OF inside st'_def c_def False] w(2) by simp
      then show ?thesis using False run by simp
    qed
  qed
qed

lemma ReserveGuestRegions_spec:
  assumes "\<forall>(s, e)\<in>set occupied. s \<le> e"
  shows "reserving 18446744073709551616 (ReserveGuestRegions ops occupied h)"
proof -
  have bounds: "unat HOST_SYSTEM_MANAGED_MIN = 262144" "unat (HOST_SYSTEM_MANAGED_MAX + 1) = 34359721984"
    "unat HOST_SYSTEM_RESERVED_MIN = 34359721984" "unat (HOST_SYSTEM_RESERVED_MAX + 1) = 68719476736"
    "unat HOST_USER_MIN = 68719476736" "unat (HOST_USER_MAX + 1) = 1082331758592"
    by (simp_all add: HOST_SYSTEM_MANAGED_MIN_def HOST_SYSTEM_MANAGED_MAX_def HOST_SYSTEM_RESERVED_MIN_def
        HOST_SYSTEM_RESERVED_MAX_def HOST_USER_MIN_def HOST_USER_MAX_def)
  have "reserving (unat HOST_SYSTEM_MANAGED_MIN) ([], [], h)" by (simp add: reserving_def)
  then have 1: "reserving (unat (HOST_SYSTEM_MANAGED_MAX + 1))
      (reserve_region ops HOST_SYSTEM_MANAGED_MIN (HOST_SYSTEM_MANAGED_MAX + 1) occupied ([], [], h))" (is "reserving _ ?a")
    by (rule reserve_region_spec) (simp_all add: bounds assms)
  then have "reserving (unat HOST_SYSTEM_RESERVED_MIN) ?a" unfolding bounds .
  then have "reserving (unat (HOST_SYSTEM_RESERVED_MAX + 1))
      (reserve_region ops HOST_SYSTEM_RESERVED_MIN (HOST_SYSTEM_RESERVED_MAX + 1) occupied ?a)" (is "reserving _ ?b")
    by (rule reserve_region_spec) (simp_all add: bounds assms)
  then have "reserving (unat HOST_USER_MIN) ?b" unfolding bounds .
  then have "reserving (unat (HOST_USER_MAX + 1)) (reserve_region ops HOST_USER_MIN (HOST_USER_MAX + 1) occupied ?b)"
    by (rule reserve_region_spec) (simp_all add: bounds assms)
  moreover have "ReserveGuestRegions ops occupied h = reserve_region ops HOST_USER_MIN (HOST_USER_MAX + 1) occupied ?b"
    unfolding ReserveGuestRegions_def foldl.simps prod.case ..
  ultimately show ?thesis unfolding bounds by (auto intro: reserving_mono simp del: reserve_region.simps)
qed

lemma GuestAddressSpace_new_ok:
  assumes "\<forall>(s, e)\<in>set occupied. s \<le> e" and "GuestAddressSpace_new ops occupied available n h = Some (g, h')"
  shows "gs_ok g"
proof -
  obtain free owned hh where r: "ReserveGuestRegions ops occupied h = (free, owned, hh)" by (cases "ReserveGuestRegions ops occupied h") auto
  have g: "g = \<lparr>gs_free = free, gs_mapped = [], gs_owned = owned, gs_backing = GuestBackingStore_init available n\<rparr>"
    using assms(2) r by (simp add: GuestAddressSpace_new_def split: if_splits)
  have "reserving 18446744073709551616 (free, owned, hh)" using ReserveGuestRegions_spec [OF assms(1), of ops h] r by simp
  then show ?thesis unfolding g gs_ok_def using GuestBackingStore_init_ok [of available n]
    by (auto simp: reserving_def splits_def region_pts_def GuestBackingStore_init_def viewed_def)
qed


subsection \<open>Runs\<close>

text \<open>
  An event is one operation with its arguments; the host answers through its state. Mapping and
  committing are called with a range that is not empty and does not wrap, which the callers in
  \<open>memory.cpp\<close> check.
\<close>

datatype space_event =
    SpMap u64 u64 u64 vmode
  | SpUnmap u64 u64
  | SpCommit u64 u64 vmode
  | SpRelease u64 u64
  | SpProtect u64 u64 vmode
  | SpZero u64 u64
  | SpWrite bool u64 "u8 list option" u64
  | SpHostRead bool bool bool bool u64 "u8 list" u64
  | SpUnique bool u64 u64

definition on_backing :: "guest_space \<Rightarrow> backing_store \<Rightarrow> guest_space" where
  "on_backing g bs = g\<lparr>gs_backing := bs\<rparr>"

fun space_exec :: "'h host_ops \<Rightarrow> space_event \<Rightarrow> guest_space \<times> 'h \<Rightarrow> (guest_space \<times> 'h) option" where
  "space_exec ops (SpMap v n off mode) st = map_option snd (GuestSpace_MapBacking ops v n off mode st)"
| "space_exec ops (SpUnmap v n) (g, h) =
     map_option (\<lambda>(r, g, views, h). (g, h)) (GuestSpace_UnmapBacking ops v n (g, [], h))"
| "space_exec ops (SpCommit v n mode) st = map_option snd (GuestSpace_Commit ops v n mode st)"
| "space_exec ops (SpRelease v n) st = map_option snd (GuestSpace_ReleaseCommitted ops v n st)"
| "space_exec ops (SpProtect v n mode) (g, h) = Some (g, snd (GuestSpace_Protect ops v n mode g h))"
| "space_exec ops (SpZero off n) (g, h) = Some (on_backing g (snd (ZeroRange off n (gs_backing g))), h)"
| "space_exec ops (SpWrite single v data n) (g, h) =
     map_option (\<lambda>(r, bs). (on_backing g bs, h)) (TryWriteBacking single v data n (gs_backing g))"
| "space_exec ops (SpHostRead mode acquired narrowed single v dst n) (g, h) =
     map_option (\<lambda>(r, d, bs). (on_backing g bs, h))
       (TryReadBackingToHost mode acquired narrowed single v (Some dst) n (gs_backing g))"
| "space_exec ops (SpUnique verify v n) (g, h) =
     map_option (\<lambda>(r, bs). (on_backing g bs, h)) (IsUniqueRange verify v n (gs_backing g))"

fun space_allowed :: "space_event \<Rightarrow> bool" where
  "space_allowed (SpMap v n off mode) \<longleftrightarrow> n \<noteq> 0 \<and> fits v n"
| "space_allowed (SpCommit v n mode) \<longleftrightarrow> n \<noteq> 0 \<and> fits v n"
| "space_allowed (SpHostRead mode acquired narrowed single v dst n) \<longleftrightarrow> length dst = unat n"
| "space_allowed e \<longleftrightarrow> True"

lemma on_backing_ok:
  "gs_ok g \<Longrightarrow> bs_ok bs \<Longrightarrow> bs_maps bs = bs_maps (gs_backing g) \<Longrightarrow> gs_ok (on_backing g bs) \<and> gs_owned (on_backing g bs) = gs_owned g"
  by (simp add: gs_ok_def on_backing_def)

lemma data_ok: "bs_ok bs \<Longrightarrow> bs_ok (bs\<lparr>bs_data := d\<rparr>)"
  by (simp add: bs_ok_def maps_ok_def lookup_ok_def)

lemma space_step:
  assumes al: "space_allowed e" and ok: "gs_ok g" and run: "space_exec ops e (g, h) = Some (g', h')"
  shows "gs_ok g' \<and> gs_owned g' = gs_owned g"
proof (cases e)
  case (SpMap v n off mode)
  then have n: "0 < unat n" "fits v n" using al by (simp_all add: neq0_u64)
  obtain r where "GuestSpace_MapBacking ops v n off mode (g, h) = Some (r, g', h')" using run SpMap by auto
  note m = MapBacking_spec [OF ok n this]
  show ?thesis using m [THEN conjunct1] m [THEN conjunct2, THEN conjunct1] by simp
next
  case (SpUnmap v n)
  obtain r vs where "GuestSpace_UnmapBacking ops v n (g, [], h) = Some (r, g', vs, h')" using run SpUnmap by auto
  note m = UnmapBacking_spec [OF ok this]
  show ?thesis using m [THEN conjunct1] m [THEN conjunct2, THEN conjunct1] by simp
next
  case (SpCommit v n mode)
  then have n: "0 < unat n" "fits v n" using al by (simp_all add: neq0_u64)
  obtain r g2 h2 where "GuestSpace_Commit ops v n mode (g, h) = Some (r, g2, h2)" "gs_ok g2" "gs_owned g2 = gs_owned g"
    by (rule Commit_spec [OF ok n refl, of ops mode h])
  then show ?thesis using run SpCommit by simp
next
  case (SpRelease v n)
  obtain r where "GuestSpace_ReleaseCommitted ops v n (g, h) = Some (r, g', h')" using run SpRelease by auto
  note m = ReleaseCommitted_spec [OF ok this]
  show ?thesis using m [THEN conjunct1] m [THEN conjunct2, THEN conjunct1] by simp
next
  case (SpZero off n)
  have b: "bs_ok (gs_backing g)" using ok by (simp add: gs_ok_def)
  have "bs_ok (snd (ZeroRange off n (gs_backing g)))" "bs_maps (snd (ZeroRange off n (gs_backing g))) = bs_maps (gs_backing g)"
    using b data_ok [OF b] by (simp_all add: ZeroRange_def)
  then show ?thesis using run SpZero on_backing_ok [OF ok] by auto
next
  case (SpWrite single v data n)
  have b: "bs_ok (gs_backing g)" using ok by (simp add: gs_ok_def)
  obtain r bs where w: "TryWriteBacking single v data n (gs_backing g) = Some (r, bs)" "g' = on_backing g bs"
    using run SpWrite by auto
  then have "bs = gs_backing g \<or> (\<exists>d. bs = gs_backing g\<lparr>bs_data := d\<rparr>)" by (auto simp: TryWriteBacking_def split: option.splits)
  then have "bs_ok bs" "bs_maps bs = bs_maps (gs_backing g)" using b data_ok [OF b] by auto
  then show ?thesis using w(2) on_backing_ok [OF ok] by simp
next
  case (SpHostRead mode acquired narrowed single v dst n)
  have b: "bs_ok (gs_backing g)" using ok by (simp add: gs_ok_def)
  have len: "length dst = unat n" using al SpHostRead by simp
  obtain t where "TryReadBackingToHost mode acquired narrowed single v (Some dst) n (gs_backing g) =
      Some (can_transfer v n (gs_backing g), Some (if can_transfer v n (gs_backing g) then guest_bytes v n (gs_backing g) else dst),
        gs_backing g\<lparr>bs_host_read_translations := t\<rparr>)" "bs_ok (gs_backing g\<lparr>bs_host_read_translations := t\<rparr>)"
    by (rule TryReadBackingToHost_spec [OF b len])
  then show ?thesis using run SpHostRead on_backing_ok [OF ok] by auto
next
  case (SpUnique verify v n)
  have b: "bs_ok (gs_backing g)" using ok by (simp add: gs_ok_def)
  obtain bs' where u: "IsUniqueRange verify v n (gs_backing g) = Some (unique_range v n (gs_backing g), bs')" "bs_ok bs'"
    "bs' = gs_backing g\<lparr>bs_aliased_physical_ranges := bs_aliased_physical_ranges bs', bs_alias_ranges_valid := bs_alias_ranges_valid bs'\<rparr>"
    by (rule IsUniqueRange_spec [OF b])
  have "bs_maps bs' = bs_maps (gs_backing g)" using arg_cong [OF u(3), of bs_maps] by simp
  then show ?thesis using run SpUnique u(1,2) on_backing_ok [OF ok] by auto
next
  case (SpProtect v n mode)
  then show ?thesis using run ok by simp
qed

interpretation space_runs: guarded_system "space_exec ops" space_allowed
    "\<lambda>st. gs_ok (fst st) \<and> gs_owned (fst st) = owned" for ops :: "'h host_ops" and owned
  by unfold_locales (use space_step in force)

end
