(* ===== verification/GuestFreeRange.thy ===== *)
theory GuestFreeRange
  imports AddressSpaceProps VirtualRangesProps
begin

text \<open>
  \<open>FindGuestFreeRange\<close> of \<open>src/src/kernel/memory.cpp\<close>: the address of a new guest mapping, free in
  the guest address space and not reserved or mapped in the virtual ranges. And the properties of
  the address space, on a small concrete one.
\<close>

subsection \<open>The code\<close>

definition GUEST_DEFAULT_MAP_BASE :: u64 where "GUEST_DEFAULT_MAP_BASE = 0x200000000"

function find_in :: "guest_space \<Rightarrow> virtual_ranges \<Rightarrow> u64 \<Rightarrow> u64 \<Rightarrow> u64 \<Rightarrow> u64 \<Rightarrow> u64" where
  "find_in g v n alignment finish current =
     (if current < finish \<and> n \<le> finish - current
      then
        let candidate = FindFreeAligned current finish n alignment g
        in if candidate = 0 then 0
           else
             case VirtualRanges_QueryOverlap v candidate n of
               None \<Rightarrow> candidate
             | Some overlap \<Rightarrow>
                 let overlap_end = r_start overlap + r_size overlap
                 in if overlap_end \<le> current then 0 else find_in g v n alignment finish overlap_end
      else 0)"
  by pat_completeness auto
termination
proof (relation "measure (\<lambda>(g, v, n, alignment, finish, current). 18446744073709551616 - unat current)", simp)
  fix g :: guest_space and v :: virtual_ranges and n alignment finish current x overlap y :: u64 and r
  assume "y = r_start r + r_size r" and "\<not> y \<le> current"
  then have "unat current < unat y" by (simp add: le_u64)
  then show "((g, v, n, alignment, finish, y), g, v, n, alignment, finish, current)
      \<in> measure (\<lambda>(g, v, n, alignment, finish, current). 18446744073709551616 - unat current)"
    using unat_u64_lt [of y] by simp
qed

declare find_in.simps [simp del]

definition FindGuestFreeRange :: "guest_space \<Rightarrow> virtual_ranges \<Rightarrow> u64 \<Rightarrow> u64 \<Rightarrow> u64 \<Rightarrow> u64" where
  "FindGuestFreeRange g v search_addr n alignment =
     (if search_addr \<noteq> 0 then find_in g v n alignment (HOST_USER_MAX + 1) search_addr
      else
        let addr = find_in g v n alignment (HOST_SYSTEM_MANAGED_MAX + 1) GUEST_DEFAULT_MAP_BASE
        in if addr = 0 then find_in g v n alignment (HOST_USER_MAX + 1) HOST_USER_MIN else addr)"

subsection \<open>First fit over both structures\<close>

text \<open>An address a search in \<open>[s, e)\<close> may answer.\<close>

definition available :: "guest_space \<Rightarrow> virtual_ranges \<Rightarrow> u64 \<Rightarrow> u64 \<Rightarrow> u64 \<Rightarrow> u64 \<Rightarrow> u64 \<Rightarrow> bool" where
  "available g v n alignment e s c \<longleftrightarrow>
     unat (max alignment PageSize) dvd unat c \<and> unat s \<le> unat c \<and> unat c + unat n \<le> unat e \<and>
     span_of c n \<subseteq> fr_bytes (gs_free g) \<and> (\<forall>a. in_span c n a \<longrightarrow> vr_at (m_ranges v) a = None)"

lemma first_fit_cong: "(\<And>c. P c \<longleftrightarrow> Q c) \<Longrightarrow> first_fit P r \<longleftrightarrow> first_fit Q r"
  by (simp add: first_fit_def)

lemma fits_free_bytes:
  assumes "fr_ok fs" and "0 < unat n"
  shows "fits_free s e n al fs c \<longleftrightarrow> unat al dvd unat c \<and> unat s \<le> unat c \<and> unat c + unat n \<le> unat e \<and> span_of c n \<subseteq> fr_bytes fs"
proof -
  have "(\<exists>x\<in>set fs. flo x \<le> unat c \<and> unat c + unat n \<le> fhi x) \<longleftrightarrow> span_of c n \<subseteq> fr_bytes fs"
  proof
    assume "\<exists>x\<in>set fs. flo x \<le> unat c \<and> unat c + unat n \<le> fhi x"
    then obtain x where "x \<in> set fs" "flo x \<le> unat c \<and> unat c + unat n \<le> fhi x" by blast
    then show "span_of c n \<subseteq> fr_bytes fs" by (auto simp: span_of_def fr_bytes_mem intro!: bexI [of _ x])
  next
    assume "span_of c n \<subseteq> fr_bytes fs"
    then show "\<exists>x\<in>set fs. flo x \<le> unat c \<and> unat c + unat n \<le> fhi x"
      using assms(2) by (intro fr_run_in_entry [OF assms(1)]) (simp_all add: span_of_def)
  qed
  then show ?thesis by (simp add: fits_free_def)
qed

lemma no_overlap:
  assumes "vr_ok rs" and "n \<noteq> 0" and "fits c n"
  shows "(\<forall>r\<in>set rs. \<not> meets c n r) \<longleftrightarrow> (\<forall>a. in_span c n a \<longrightarrow> vr_at rs a = None)"
  using meets_vr_at [OF assms(1,2), of c] fits_end [OF assms(3)]
  by (auto simp: in_request_def in_span_def)

lemma FindFreeAligned_spec:
  assumes ok: "gs_ok g" and n: "0 < unat n" and al: "0 < unat al"
  shows "first_fit (fits_free s e n (max al PageSize) (gs_free g)) (FindFreeAligned s e n al g)"
proof -
  have z: "0 \<notin> fr_bytes (gs_free g)" using ok by (auto simp: gs_ok_def splits_def)
  have f: "fr_ok (gs_free g)" using ok by (simp add: gs_ok_def)
  have m: "0 < unat (max al PageSize)" using al by (simp add: unat_max_u64)
  have "FindFreeAligned s e n al g = FindFreeAlignedUnlocked s e n (max al PageSize) g"
    using n al by (auto simp: FindFreeAligned_def)
  then show ?thesis using FindFreeAlignedUnlocked_spec [OF f n m z] by simp
qed

lemma find_in_spec:
  assumes "gs_ok g" and "vr_ok (m_ranges v)" and "0 < unat n" and "0 < unat al"
  shows "first_fit (available g v n al finish current) (find_in g v n al finish current)"
  using assms
proof (induction g v n al finish current rule: find_in.induct)
  case (1 g v n al finish current)
  note eq = find_in.simps [of g v n al finish current]
  have n: "n \<noteq> 0" using "1.prems"(3) by (simp add: neq0_u64)
  have fr: "fr_ok (gs_free g)" using "1.prems"(1) by (simp add: gs_ok_def)
  have av: "available g v n al finish s c \<longleftrightarrow> fits_free s finish n (max al PageSize) (gs_free g) c \<and> (\<forall>r\<in>set (m_ranges v). \<not> meets c n r)" for s c
  proof (cases "unat c + unat n \<le> unat finish")
    case True
    then have "fits c n" using unat_u64_lt [of finish] by (simp add: fits_def)
    then show ?thesis
      unfolding available_def fits_free_bytes [OF fr "1.prems"(3)] no_overlap [OF "1.prems"(2) n \<open>fits c n\<close>] by blast
  next
    case False
    then show ?thesis by (simp add: available_def fits_free_def)
  qed
  show ?case
  proof (cases "current < finish \<and> n \<le> finish - current")
    case False
    have "\<not> available g v n al finish current c" for c
      using False "1.prems"(3) by (auto simp: available_def less_u64 le_u64 unat_minus_u64)
    moreover have "find_in g v n al finish current = 0" unfolding eq if_not_P [OF False] ..
    ultimately show ?thesis by (simp add: first_fit_def)
  next
    case True
    define c0 where "c0 = FindFreeAligned current finish n al g"
    have ff: "first_fit (fits_free current finish n (max al PageSize) (gs_free g)) c0"
      unfolding c0_def by (rule FindFreeAligned_spec [OF "1.prems"(1,3,4)])
    show ?thesis
    proof (cases "c0 = 0")
      case zero: True
      then have "\<not> available g v n al finish current c" for c using ff av by (simp add: first_fit_def)
      then show ?thesis using zero True unfolding eq c0_def by (simp add: first_fit_def)
    next
      case nz: False
      have c0: "fits_free current finish n (max al PageSize) (gs_free g) c0"
        "\<forall>c. fits_free current finish n (max al PageSize) (gs_free g) c \<longrightarrow> unat c0 \<le> unat c"
        using ff nz by (simp_all add: first_fit_def)
      show ?thesis
      proof (cases "VirtualRanges_QueryOverlap v c0 n")
        case None
        then have "\<forall>r\<in>set (m_ranges v). \<not> meets c0 n r"
          using FindOverlap_spec(2) [OF "1.prems"(2) n, of c0] by (simp add: VirtualRanges_QueryOverlap_def)
        then have "first_fit (available g v n al finish current) c0" using c0 nz av by (auto simp: first_fit_def)
        then show ?thesis using None True nz unfolding eq c0_def by (simp add: Let_def)
      next
        case (Some r)
        have r: "r \<in> set (m_ranges v)" "meets c0 n r"
          using FindOverlap_spec(1) [OF "1.prems"(2) n, of c0 r] Some by (simp_all add: VirtualRanges_QueryOverlap_def)
        have rf: "r_fits r" using vr_ok_mem [OF "1.prems"(2) r(1)] by simp
        define oe where "oe = r_start r + r_size r"
        have oe: "unat oe = unat (r_start r) + unat (r_size r)" unfolding oe_def by (rule unat_end [OF rf])
        have lt: "unat current < unat oe" using r(2) c0(1) oe by (auto simp: meets_def fits_free_def)
        have same: "available g v n al finish current c \<longleftrightarrow> available g v n al finish oe c" for c
        proof
          assume a: "available g v n al finish current c"
          then have fc: "fits_free current finish n (max al PageSize) (gs_free g) c" "\<not> meets c n r" using av r(1) by blast+
          have "unat c0 \<le> unat c" using c0(2) fc(1) by blast
          moreover have ends: "unat (sat_end c n) = unat c + unat n" "unat (sat_end c0 n) = unat c0 + unat n"
            using fits_end [of c n] fits_end [of c0 n] fc(1) c0(1) unat_u64_lt [of finish]
            by (auto simp: fits_free_def fits_def)
          ultimately have "unat oe \<le> unat c" using fc(2) r(2) oe by (auto simp: meets_def)
          then show "available g v n al finish oe c" using a by (simp add: available_def)
        next
          assume "available g v n al finish oe c"
          then show "available g v n al finish current c" using lt by (simp add: available_def)
        qed
        have nle: "\<not> oe \<le> current" using lt by (simp add: le_u64)
        have "find_in g v n al finish current = find_in g v n al finish oe"
          using Some True nz nle unfolding eq c0_def oe_def by (simp add: Let_def)
        moreover have "first_fit (available g v n al finish oe) (find_in g v n al finish oe)"
          using "1.IH" [OF True c0_def nz Some oe_def nle "1.prems"] .
        ultimately show ?thesis using first_fit_cong [OF same] by simp
      qed
    qed
  qed
qed


subsection \<open>A small address space\<close>

definition friendly_host :: "unit host_ops" where
  "friendly_host = \<lparr>ho_views = willing_host, HostProtect = (\<lambda>_ _ _ h. (True, h)), HostRestore = (\<lambda>_ _ h. (True, h)),
     HostReserve = (\<lambda>_ _ h. (True, h))\<rparr>"

definition demo_space :: guest_space where
  "demo_space = fst (the (GuestAddressSpace_new friendly_host [(0x50000, 0x60000)] True 65536 ()))"

lemma demo_space_new: "GuestAddressSpace_new friendly_host [(0x50000, 0x60000)] True 65536 () = Some (demo_space, ())"
proof -
  have "GuestAddressSpace_new friendly_host [(0x50000, 0x60000)] True 65536 () \<noteq> None"
    by (simp add: GuestAddressSpace_new_def split: prod.splits)
  then show ?thesis unfolding demo_space_def by auto
qed

lemma demo_space_ok: "gs_ok demo_space"
  by (rule GuestAddressSpace_new_ok [OF _ demo_space_new]) simp

lemma demo_space_free: "gs_free demo_space = [(0x40000, 0x10000), (0x60000, 0xfbfffa0000)]"
  by code_simp

subsection \<open>Properties\<close>

text \<open>
  C21: in every run of the address space from start-up, whatever the host answers, every address it
  owns is either free or in exactly one mapped region, the free ranges are disjoint and joined, and
  the addresses mapped to the backing are exactly those that the backing store has a view for.
\<close>

theorem GuestAddressSpace_partition:
  assumes "\<forall>(s, e)\<in>set occupied. s \<le> e" and "GuestAddressSpace_new ops occupied avail n h0 = Some (g0, h)"
    and "list_all space_allowed es" and "run (space_exec ops) es (g0, h) = Some (g, h')"
  shows "splits (owned_bytes (gs_owned g0)) (fr_bytes (gs_free g)) (region_pts (gs_mapped g)) \<and> fr_ok (gs_free g) \<and>
    regions_ok (gs_mapped g) \<and> bs_ok (gs_backing g) \<and>
    (\<forall>a. region_at (gs_mapped g) a = Some Backing \<longleftrightarrow> a \<in> viewed (bs_maps (gs_backing g)))"
proof -
  have "gs_ok g0" by (rule GuestAddressSpace_new_ok [OF assms(1,2)])
  then have "gs_ok g \<and> gs_owned g = gs_owned g0"
    using space_runs.run_inv [OF assms(3), of "(g0, h)" "gs_owned g0" ops "(g, h')"] assms(4) by simp
  then show ?thesis by (auto simp: gs_ok_def)
qed

theorem GuestAddressSpace_partition_witness:
  "\<exists>g. run (space_exec friendly_host) [SpMap 0x70000 0x8000 0 ReadWrite, SpCommit 0x44000 0x4000 Read, SpUnmap 0x74000 0x4000]
       (demo_space, ()) = Some (g, ()) \<and>
     splits (owned_bytes (gs_owned demo_space)) (fr_bytes (gs_free g)) (region_pts (gs_mapped g)) \<and> bs_ok (gs_backing g)"
proof -
  let ?es = "[SpMap 0x70000 0x8000 0 ReadWrite, SpCommit 0x44000 0x4000 Read, SpUnmap 0x74000 0x4000]"
  have "run (space_exec friendly_host) ?es (demo_space, ()) \<noteq> None" by code_simp
  then obtain g where g: "run (space_exec friendly_host) ?es (demo_space, ()) = Some (g, ())" by auto
  have "list_all space_allowed ?es" by (simp add: fits_def)
  then show ?thesis using GuestAddressSpace_partition [OF _ demo_space_new _ g] g by auto
qed

text \<open>
  C22: mapping backing bytes into the address space succeeds only on free addresses and on bytes the
  store has, and then exactly the addresses of the request show those bytes, in order. When it
  fails, for whatever reason, the space is as it was.
\<close>

theorem GuestSpace_MapBacking_correct:
  assumes "gs_ok g" and "0 < unat n" and "fits v n" and "GuestSpace_MapBacking ops v n off mode (g, h) = Some (r, g', h')"
  shows "gs_ok g' \<and> (r \<noteq> NoFailure \<longrightarrow> same_space g g') \<and>
    (r = NoFailure \<longrightarrow> span_of v n \<subseteq> fr_bytes (gs_free g) \<and> RangeOk off n (gs_backing g) \<and>
      fr_bytes (gs_free g') = fr_bytes (gs_free g) - span_of v n \<and>
      (\<forall>a. space_view g' a = (if a \<in> span_of v n then Some (Backing, Some (unat off + (a - unat v))) else space_view g a)))"
  using MapBacking_spec [OF assms] by simp

theorem GuestSpace_MapBacking_correct_witness:
  "\<exists>g'. GuestSpace_MapBacking friendly_host 0x70000 0x8000 0x4000 Read (demo_space, ()) = Some (NoFailure, g', ()) \<and>
     gs_ok g' \<and> space_view g' 0x70001 = Some (Backing, Some 0x4001)"
proof -
  have "case GuestSpace_MapBacking friendly_host 0x70000 0x8000 0x4000 Read (demo_space, ()) of
      Some (NoFailure, _, _) \<Rightarrow> True | _ \<Rightarrow> False" by code_simp
  then obtain r g' where run: "GuestSpace_MapBacking friendly_host 0x70000 0x8000 0x4000 Read (demo_space, ()) = Some (r, g', ())"
    and r: "case r of NoFailure \<Rightarrow> True | _ \<Rightarrow> False"
    by (cases "GuestSpace_MapBacking friendly_host 0x70000 0x8000 0x4000 Read (demo_space, ())") auto
  have "r = NoFailure" using r by (cases r) simp_all
  then show ?thesis using GuestSpace_MapBacking_correct [OF demo_space_ok _ _ run] run by (simp add: fits_def span_of_def)
qed

text \<open>
  C23: the address found for a new guest mapping is the lowest one in the search window that is
  aligned, free in the address space and untouched in the virtual ranges, and none is found only if
  there is none. The search ends, since every overlap it meets lies past the position reached.
\<close>

theorem FindGuestFreeRange_correct:
  assumes "gs_ok g" and "vr_ok (m_ranges v)" and "0 < unat n" and "0 < unat alignment"
  shows "if search_addr \<noteq> 0
    then first_fit (available g v n alignment (HOST_USER_MAX + 1) search_addr) (FindGuestFreeRange g v search_addr n alignment)
    else if \<exists>c. available g v n alignment (HOST_SYSTEM_MANAGED_MAX + 1) GUEST_DEFAULT_MAP_BASE c
    then first_fit (available g v n alignment (HOST_SYSTEM_MANAGED_MAX + 1) GUEST_DEFAULT_MAP_BASE) (FindGuestFreeRange g v 0 n alignment)
    else first_fit (available g v n alignment (HOST_USER_MAX + 1) HOST_USER_MIN) (FindGuestFreeRange g v 0 n alignment)"
proof -
  note s = find_in_spec [OF assms]
  have none: "(\<exists>c. P c) \<longleftrightarrow> r \<noteq> 0" if "first_fit P r" for P r using that by (auto simp: first_fit_def)
  let ?low = "find_in g v n alignment (HOST_SYSTEM_MANAGED_MAX + 1) GUEST_DEFAULT_MAP_BASE"
  show ?thesis
  proof (cases "?low = 0")
    case True
    then have "\<not> (\<exists>c. available g v n alignment (HOST_SYSTEM_MANAGED_MAX + 1) GUEST_DEFAULT_MAP_BASE c)"
      using none [OF s] by blast
    then show ?thesis using True s by (simp add: FindGuestFreeRange_def)
  next
    case False
    then have "\<exists>c. available g v n alignment (HOST_SYSTEM_MANAGED_MAX + 1) GUEST_DEFAULT_MAP_BASE c"
      using none [OF s] by blast
    then show ?thesis using False s by (simp add: FindGuestFreeRange_def)
  qed
qed

theorem FindGuestFreeRange_correct_witness:
  "FindGuestFreeRange demo_space demo_vr 0x41000 0x4000 0x4000 = 0x44000 \<and>
   first_fit (available demo_space demo_vr 0x4000 0x4000 (HOST_USER_MAX + 1) 0x41000) 0x44000"
proof -
  have "FindGuestFreeRange demo_space demo_vr 0x41000 0x4000 0x4000 = 0x44000" by code_simp
  then show ?thesis using FindGuestFreeRange_correct [OF demo_space_ok demo_ok, of "0x4000" "0x4000" "0x41000"] by simp
qed

subsection \<open>Empty and wrapping requests\<close>

text \<open>
  \<open>ConsumeUnlocked\<close> does not refuse an empty range, and \<open>AddFreeUnlocked\<close> does not give one back:
  mapping no bytes fails and loses the rest of the free range. And a range that wraps around the
  end of the address space passes for free.
\<close>

lemma empty_request_loses_bytes:
  "(case GuestSpace_MapBacking friendly_host 0x44000 0 0 Read (demo_space, ()) of
     Some (PhysicalRangeOutOfBounds, g, _) \<Rightarrow> gs_free g = [(0x40000, 0x4000), (0x60000, 0xfbfffa0000)]
   | _ \<Rightarrow> False)"
  by code_simp

lemma wrapping_request_is_free: "ReserveFixed 0x44000 0xfffffffffffc4000 demo_space"
  by code_simp

end
