(* ===== verification/KernelMemory.thy ===== *)
theory KernelMemory
  imports GuestFreeRange PooledMemory Errno "HOL-Library.Monad_Syntax"
begin

text \<open>
  The kernel's memory as a whole: the tables of \<open>src/src/kernel/memory.cpp\<close> side by side, and the calls
  that its exported functions make to them. Every exported function holds
  \<open>g_memory_operation_mutex\<close> from start to end, so a call is one step. \<open>None\<close> means that the emulator
  exits. \<open>k\<close> is the state at each point, renewed as the code goes on.
\<close>

unbundle bit_operations_syntax

subsection \<open>State\<close>

text \<open>
  What the kernel tells others, as far as the host notices: the GPU resource manager is told of mapped
  and unmapped ranges, the registered callbacks of allocated and freed ones. Both may use the host, so
  \<open>ke_notify\<close> is a parameter; \<open>ke_gpu\<close> and \<open>ke_callbacks\<close> say whether they are registered.
\<close>

datatype kernel_notice =
    GpuMapped u64 u64
  | GpuUnmapped u64 u64 bool
  | GpuRestored u64 u64
  | GpuReapplied u64 u64
  | Allocated u64 u64
  | Freed u64 u64

record 'h kernel_env =
  ke_host :: "'h host_ops"
  ke_flexible_size :: u64
  ke_gpu :: bool
  ke_callbacks :: bool
  ke_notify :: "kernel_notice \<Rightarrow> 'h \<Rightarrow> 'h"

record 'h kernel =
  km_ranges :: virtual_ranges
  km_physical :: physical_memory
  km_flexible :: flexible_memory
  km_pooled :: pooled_memory
  km_space :: guest_space
  km_host :: 'h
  km_committed :: u64
  km_apertures :: "(u64 \<times> u64) list"

text \<open>Sizes and addresses of type \<open>int64_t\<close> are 64-bit words; this is their sign.\<close>

definition is_negative :: "u64 \<Rightarrow> bool" where
  "is_negative x \<longleftrightarrow> 0x8000000000000000 \<le> x"

definition GUEST_PAGE :: u64 where "GUEST_PAGE = 0x4000"

definition page_unaligned :: "u64 \<Rightarrow> bool" where
  "page_unaligned x \<longleftrightarrow> x AND (GUEST_PAGE - 1) \<noteq> 0"

subsection \<open>Notices\<close>

definition IsGpuAddressRange :: "u64 \<Rightarrow> u64 \<Rightarrow> bool" where
  "IsGpuAddressRange vaddr n \<longleftrightarrow>
     vaddr \<noteq> 0 \<and> n \<noteq> 0 \<and> vaddr < 0x10000000000 \<and> n < 0x10000000000 - vaddr"

definition tell :: "'h kernel_env \<Rightarrow> kernel_notice \<Rightarrow> 'h kernel \<Rightarrow> 'h kernel" where
  "tell env notice k = k\<lparr>km_host := ke_notify env notice (km_host k)\<rparr>"

definition MapGpuRange :: "'h kernel_env \<Rightarrow> u64 \<Rightarrow> u64 \<Rightarrow> 'h kernel \<Rightarrow> 'h kernel" where
  "MapGpuRange env vaddr n k =
     (if \<not> ke_gpu env \<or> \<not> IsGpuAddressRange vaddr n then k else tell env (GpuMapped vaddr n) k)"

definition UnmapGpuRange :: "'h kernel_env \<Rightarrow> u64 \<Rightarrow> u64 \<Rightarrow> bool \<Rightarrow> 'h kernel \<Rightarrow> 'h kernel" where
  "UnmapGpuRange env vaddr n releasing k =
     (if \<not> ke_gpu env \<or> \<not> IsGpuAddressRange vaddr n then k else tell env (GpuUnmapped vaddr n releasing) k)"

definition RestoreGpuRangeProtection :: "'h kernel_env \<Rightarrow> u64 \<Rightarrow> u64 \<Rightarrow> 'h kernel \<Rightarrow> 'h kernel" where
  "RestoreGpuRangeProtection env vaddr n k =
     (if \<not> ke_gpu env \<or> \<not> IsGpuAddressRange vaddr n then k else tell env (GpuRestored vaddr n) k)"

definition alloc_callback :: "'h kernel_env \<Rightarrow> u64 \<Rightarrow> u64 \<Rightarrow> 'h kernel \<Rightarrow> 'h kernel" where
  "alloc_callback env vaddr n k = (if ke_callbacks env then tell env (Allocated vaddr n) k else k)"

definition free_callback :: "'h kernel_env \<Rightarrow> u64 \<Rightarrow> u64 \<Rightarrow> 'h kernel \<Rightarrow> 'h kernel" where
  "free_callback env vaddr n k = (if ke_callbacks env then tell env (Freed vaddr n) k else k)"

subsection \<open>Calls to the tables\<close>

definition with_ranges :: "(virtual_ranges \<Rightarrow> 'a \<times> virtual_ranges) \<Rightarrow> 'h kernel \<Rightarrow> 'a \<times> 'h kernel" where
  "with_ranges f k = (let (x, v) = f (km_ranges k) in (x, k\<lparr>km_ranges := v\<rparr>))"

definition with_physical :: "(physical_memory \<Rightarrow> 'a \<times> physical_memory) \<Rightarrow> 'h kernel \<Rightarrow> 'a \<times> 'h kernel" where
  "with_physical f k = (let (x, p) = f (km_physical k) in (x, k\<lparr>km_physical := p\<rparr>))"

definition with_pooled :: "(pooled_memory \<Rightarrow> 'a \<times> pooled_memory) \<Rightarrow> 'h kernel \<Rightarrow> 'a \<times> 'h kernel" where
  "with_pooled f k = (let (x, p) = f (km_pooled k) in (x, k\<lparr>km_pooled := p\<rparr>))"

text \<open>The guest address space.\<close>

definition space_map :: "'h kernel_env \<Rightarrow> u64 \<Rightarrow> u64 \<Rightarrow> u64 \<Rightarrow> vmode \<Rightarrow> 'h kernel \<Rightarrow> (bool \<times> 'h kernel) option" where
  "space_map env vaddr n offset mode k = do {
     (reason, g, h) \<leftarrow> GuestSpace_MapBacking (ke_host env) vaddr n offset mode (km_space k, km_host k);
     Some (reason = NoFailure, k\<lparr>km_space := g, km_host := h\<rparr>)
   }"

definition space_unmap :: "'h kernel_env \<Rightarrow> u64 \<Rightarrow> u64 \<Rightarrow> 'h kernel \<Rightarrow> (bool \<times> 'h kernel) option" where
  "space_unmap env vaddr n k = do {
     (unmapped, g, _, h) \<leftarrow> GuestSpace_UnmapBacking (ke_host env) vaddr n (km_space k, [], km_host k);
     Some (unmapped, k\<lparr>km_space := g, km_host := h\<rparr>)
   }"

definition space_commit :: "'h kernel_env \<Rightarrow> u64 \<Rightarrow> u64 \<Rightarrow> vmode \<Rightarrow> 'h kernel \<Rightarrow> (bool \<times> 'h kernel) option" where
  "space_commit env vaddr n mode k = do {
     (committed, g, h) \<leftarrow> GuestSpace_Commit (ke_host env) vaddr n mode (km_space k, km_host k);
     Some (committed, k\<lparr>km_space := g, km_host := h\<rparr>)
   }"

definition space_release :: "'h kernel_env \<Rightarrow> u64 \<Rightarrow> u64 \<Rightarrow> 'h kernel \<Rightarrow> (bool \<times> 'h kernel) option" where
  "space_release env vaddr n k = do {
     (released, g, h) \<leftarrow> GuestSpace_ReleaseCommitted (ke_host env) vaddr n (km_space k, km_host k);
     Some (released, k\<lparr>km_space := g, km_host := h\<rparr>)
   }"

definition space_protect :: "'h kernel_env \<Rightarrow> u64 \<Rightarrow> u64 \<Rightarrow> vmode \<Rightarrow> 'h kernel \<Rightarrow> bool \<times> 'h kernel" where
  "space_protect env vaddr n mode k =
     (let (protected, h) = GuestSpace_Protect (ke_host env) vaddr n mode (km_space k) (km_host k)
      in (protected, k\<lparr>km_host := h\<rparr>))"

text \<open>
  The calls that \<open>FlexibleMemory\<close> and the pool make to the address space: their parameter \<open>ops\<close>,
  instantiated. A call that exits leaves no state, and what follows it cannot succeed.
\<close>

definition space_backing :: "'h host_ops \<Rightarrow> (guest_space \<times> 'h) option backing_ops" where
  "space_backing ops =
     \<lparr>ZeroBacking = (\<lambda>offset n s. case s of None \<Rightarrow> (False, None)
        | Some (g, h) \<Rightarrow> let (zeroed, bs) = ZeroRange offset n (gs_backing g) in (zeroed, Some (g\<lparr>gs_backing := bs\<rparr>, h))),
      MapBacking = (\<lambda>vaddr n offset mode s. case s of None \<Rightarrow> (False, None)
        | Some st \<Rightarrow> (case GuestSpace_MapBacking ops vaddr n offset mode st of
             None \<Rightarrow> (False, None) | Some (reason, st) \<Rightarrow> (reason = NoFailure, Some st))),
      UnmapBacking = (\<lambda>vaddr n s. case s of None \<Rightarrow> (False, None)
        | Some (g, h) \<Rightarrow> (case GuestSpace_UnmapBacking ops vaddr n (g, [], h) of
             None \<Rightarrow> (False, None) | Some (unmapped, g, _, h) \<Rightarrow> (unmapped, Some (g, h))))\<rparr>"

definition with_flexible ::
  "(flexible_memory \<times> (guest_space \<times> 'h) option \<Rightarrow> ('a \<times> flexible_memory \<times> (guest_space \<times> 'h) option) option) \<Rightarrow>
   'h kernel \<Rightarrow> ('a \<times> 'h kernel) option" where
  "with_flexible f k = do {
     (x, fm, s) \<leftarrow> f (km_flexible k, Some (km_space k, km_host k));
     (g, h) \<leftarrow> s;
     Some (x, k\<lparr>km_flexible := fm, km_space := g, km_host := h\<rparr>)
   }"

definition flexible_map ::
  "'h kernel_env \<Rightarrow> u64 \<Rightarrow> u64 \<Rightarrow> i32 \<Rightarrow> vmode \<Rightarrow> gpu_access \<Rightarrow> string option \<Rightarrow> 'h kernel \<Rightarrow> (bool \<times> 'h kernel) option" where
  "flexible_map env vaddr n prot mode gpu nm =
     with_flexible (FlexibleMemory_Map (space_backing (ke_host env)) (ke_flexible_size env) vaddr n prot mode gpu nm)"

definition flexible_unmap :: "'h kernel_env \<Rightarrow> u64 \<Rightarrow> u64 \<Rightarrow> 'h kernel \<Rightarrow> (gpu_access option \<times> 'h kernel) option" where
  "flexible_unmap env vaddr n = with_flexible (FlexibleMemory_Unmap (space_backing (ke_host env)) vaddr n)"

definition flexible_restore :: "'h kernel_env \<Rightarrow> flex_block list \<Rightarrow> 'h kernel \<Rightarrow> (bool \<times> 'h kernel) option" where
  "flexible_restore env blocks = with_flexible (FlexibleMemory_Restore (space_backing (ke_host env)) blocks)"

definition pooled_unmap :: "'h kernel_env \<Rightarrow> pool_mapping list \<Rightarrow> vmode \<Rightarrow> 'h kernel \<Rightarrow> (bool \<times> 'h kernel) option" where
  "pooled_unmap env mappings mode k = do {
     (unmapped, s) \<leftarrow> UnmapPooledBackingTransactional (space_backing (ke_host env)) mappings mode
        (Some (km_space k, km_host k));
     (g, h) \<leftarrow> s;
     Some (unmapped, k\<lparr>km_space := g, km_host := h\<rparr>)
   }"

text \<open>Virtual ranges, with the arguments the callers leave out.\<close>

definition ranges_add ::
  "u64 \<Rightarrow> u64 \<Rightarrow> u64 \<Rightarrow> i32 \<Rightarrow> i32 \<Rightarrow> vrange_type \<Rightarrow> string option \<Rightarrow> bool \<Rightarrow> 'h kernel \<Rightarrow> bool \<times> 'h kernel" where
  "ranges_add start n offset prot mtype t nm disallow_merge =
     with_ranges (VirtualRanges_Add start n offset prot mtype t nm disallow_merge)"

definition ranges_remove :: "u64 \<Rightarrow> u64 \<Rightarrow> 'h kernel \<Rightarrow> bool \<times> 'h kernel" where
  "ranges_remove start n = with_ranges (VirtualRanges_Remove start n)"

text \<open>\<open>EXIT_IF\<close> and \<open>EXIT\<close>.\<close>

definition require :: "bool \<Rightarrow> unit option" where
  "require b = (if b then Some () else None)"

end
