(* ===== verification/KernelMapping.thy ===== *)
theory KernelMapping
  imports KernelMemory
begin

text \<open>
  The mapping functions of \<open>src/src/kernel/memory.cpp\<close>: start-up, the replacement of what lies in a
  fixed range by a reservation, \<open>KernelReserveVirtualRange\<close>, \<open>KernelMapNamedFlexibleMemory\<close> and
  \<open>KernelMapDirectMemory\<close> with its variants. An \<open>addr\<close> parameter of type \<open>void**\<close> is the value it
  points to, before and after the call, or \<open>None\<close> for a null pointer.
\<close>

unbundle bit_operations_syntax

subsection \<open>Start-up\<close>

definition SelfTest :: "'h kernel_env \<Rightarrow> 'h kernel \<Rightarrow> (bool \<times> 'h kernel) option" where
  "SelfTest env k =
     (let addr = ReserveAligned 0 PageSize PageSize (km_space k)
      in if addr = 0 then Some (False, k)
         else do {
           (committed, k) \<leftarrow> space_commit env addr PageSize ReadWrite k;
           if \<not> committed then Some (False, k)
           else do {
             (released, k) \<leftarrow> space_release env addr PageSize k;
             Some (released, k)
           }
         })"

definition Memory_Initialize :: "'h kernel_env \<Rightarrow> (u64 \<times> u64) list \<Rightarrow> bool \<Rightarrow> u64 \<Rightarrow> 'h \<Rightarrow> 'h kernel option" where
  "Memory_Initialize env occupied memory_object identity h = do {
     (g, h) \<leftarrow> GuestAddressSpace_new (ke_host env) occupied memory_object PhysicalMemory_TotalSize h;
     pm \<leftarrow> PhysicalMemory_init (ke_flexible_size env);
     fm \<leftarrow> FlexibleMemory_init (ke_flexible_size env);
     let k = \<lparr>km_ranges = fst (vr_init identity), km_physical = pm, km_flexible = fm, km_pooled = PooledMemory_init,
        km_space = g, km_host = h, km_committed = 0, km_apertures = replicate 3 (0, 0)\<rparr>;
     (tested, k) \<leftarrow> SelfTest env k;
     require tested;
     Some k
   }"

text \<open>
  Before start-up the size of flexible memory may be set; \<open>frozen\<close> says that start-up has begun. The GPU
  resource manager and the callbacks are registered later; the callbacks hear of what is mapped already.
\<close>

definition SetFlexibleMemorySize :: "bool \<Rightarrow> u64 \<Rightarrow> 'h kernel_env \<Rightarrow> 'h kernel_env option" where
  "SetFlexibleMemorySize frozen n env =
     (if frozen \<or> n = 0 \<or> page_unaligned n \<or> PhysicalMemory_TotalSize \<le> n then None
      else Some (env\<lparr>ke_flexible_size := n\<rparr>))"

definition InstallGpuResources :: "bool \<Rightarrow> 'h kernel_env \<Rightarrow> 'h kernel_env option" where
  "InstallGpuResources present env = (if present \<and> ke_gpu env then None else Some (env\<lparr>ke_gpu := present\<rparr>))"

definition RegisterCallbacks :: "'h kernel_env \<Rightarrow> bool \<Rightarrow> 'h kernel \<Rightarrow> ('h kernel_env \<times> 'h kernel) option" where
  "RegisterCallbacks env has_funcs k =
     (if ke_callbacks env \<or> \<not> has_funcs then None
      else
        let env = env\<lparr>ke_callbacks := True\<rparr>;
            k = fold (\<lambda>b k. if pb_map_vaddr b \<noteq> 0 \<and> pb_map_size b \<noteq> 0
                  then alloc_callback env (pb_map_vaddr b) (pb_map_size b) k else k) (pm_mappings (km_physical k)) k;
            k = fold (\<lambda>b. alloc_callback env (fb_map_vaddr b) (fb_map_size b)) (fm_allocated (km_flexible k)) k;
            k = fold (\<lambda>m. alloc_callback env (pl_vaddr m) (pl_size m)) (PooledMemory_GetMappings (km_pooled k)) k
        in Some (env, k))"

subsection \<open>Replacing what lies in a range by a reservation\<close>

record replaced_chunk =
  rc_range :: vrange
  rc_mode :: vmode
  rc_gpu_mode :: gpu_access
  rc_flexible_blocks :: "flex_block list"
  rc_host_unmapped :: bool
  rc_backend_unmapped :: bool

text \<open>
  The scan of \<open>ReplaceFixedRangeWithReserved\<close>: the parts of virtual ranges inside \<open>[current, finish)\<close>.
  The inner \<open>None\<close> is the early return; the outer one is an exit, or a scan that does not end.
\<close>

partial_function (option) collect_chunks ::
  "'h kernel \<Rightarrow> u64 \<Rightarrow> u64 \<Rightarrow> replaced_chunk list \<Rightarrow> replaced_chunk list option option" where
  "collect_chunks k finish current chunks =
     (if \<not> current < finish then Some (Some chunks)
      else
        case VirtualRanges_Query (km_ranges k) current 1 of
          None \<Rightarrow> Some (Some chunks)
        | Some r \<Rightarrow>
            if finish \<le> r_start r then Some (Some chunks)
            else if current < r_start r then collect_chunks k finish (min finish (r_start r)) chunks
            else
              let range_end = r_start r + r_size r;
                  chunk = min finish range_end - current;
                  part = r\<lparr>r_start := current, r_size := chunk\<rparr>;
                  part = (if r_type r = Direct then part\<lparr>r_offset := r_offset part + (current - r_start r)\<rparr> else part);
                  (mode, gpu_mode) = (case DecodeMemoryProtection (r_protection part) of
                     Some d \<Rightarrow> d | None \<Rightarrow> (NoAccess, GpuNoAccess));
                  replaced = \<lparr>rc_range = part, rc_mode = mode, rc_gpu_mode = gpu_mode, rc_flexible_blocks = [],
                     rc_host_unmapped = False, rc_backend_unmapped = False\<rparr>
              in if r_type r = Direct \<and> \<not> Backing_Contains current chunk (gs_backing (km_space k)) then Some None
                 else if r_type r = Flexible \<and> FlexibleMemory_Snapshot current chunk (km_flexible k) = None then Some None
                 else if r_type r = Pooled then None
                 else
                   let replaced = (if r_type r = Flexible
                         then replaced\<lparr>rc_flexible_blocks := the (FlexibleMemory_Snapshot current chunk (km_flexible k))\<rparr>
                         else replaced)
                   in collect_chunks k finish (current + chunk) (chunks @ [replaced]))"

declare collect_chunks.simps [code]

text \<open>\<open>restore_chunks\<close>: the backing of each chunk again, last first, then the virtual ranges.\<close>

definition restore_backing :: "'h kernel_env \<Rightarrow> replaced_chunk \<Rightarrow> 'h kernel \<Rightarrow> (bool \<times> 'h kernel) option" where
  "restore_backing env c k =
     (let r = rc_range c
      in if r_type r = Direct then do {
           (host_restored, k) \<leftarrow> (if rc_host_unmapped c
              then space_map env (r_start r) (r_size r) (r_offset r) (rc_mode c) k else Some (True, k));
           let (backend_restored, k) = (if rc_backend_unmapped c
              then with_physical (PhysicalMemory_Map (r_start r) (r_offset r) (r_size r) (r_protection r)
                     (rc_mode c) (rc_gpu_mode c)) k
              else (True, k));
           Some (host_restored \<and> backend_restored, k)
         }
         else if r_type r = Flexible \<and> rc_backend_unmapped c then flexible_restore env (rc_flexible_blocks c) k
         else if IsPrivateCommittedRangeType (r_type r) \<and> rc_host_unmapped c
         then space_commit env (r_start r) (r_size r) (rc_mode c) k
         else Some (True, k))"

fun restore_backings :: "'h kernel_env \<Rightarrow> replaced_chunk list \<Rightarrow> bool \<times> 'h kernel \<Rightarrow> (bool \<times> 'h kernel) option" where
  "restore_backings env [] st = Some st"
| "restore_backings env (c # cs) (good, k) = do {
     (restored, k) \<leftarrow> restore_backing env c k;
     restore_backings env cs (restored \<and> good, k)
   }"

fun restore_ranges :: "replaced_chunk list \<Rightarrow> bool \<times> 'h kernel \<Rightarrow> bool \<times> 'h kernel" where
  "restore_ranges [] st = st"
| "restore_ranges (c # cs) (good, k) =
     (let r = rc_range c;
          (added, k) = ranges_add (r_start r) (r_size r) (r_offset r) (r_protection r) (r_memory_type r)
             (r_type r) (Some (r_name r)) (r_disallow_merge r) k
      in restore_ranges cs (added \<and> good, k))"

definition restore_chunks :: "'h kernel_env \<Rightarrow> replaced_chunk list \<Rightarrow> 'h kernel \<Rightarrow> (bool \<times> 'h kernel) option" where
  "restore_chunks env chunks k = do {
     st \<leftarrow> restore_backings env (rev chunks) (True, k);
     let (good, k) = restore_ranges chunks st;
     Some (good, if good
       then fold (\<lambda>c k. if IsCommittedRangeType (r_type (rc_range c))
              then MapGpuRange env (r_start (rc_range c)) (r_size (rc_range c)) k else k) chunks k
       else k)
   }"

text \<open>Unmapping one chunk, with its flags afterwards.\<close>

definition unmap_chunk :: "'h kernel_env \<Rightarrow> replaced_chunk \<Rightarrow> 'h kernel \<Rightarrow> (bool \<times> replaced_chunk \<times> 'h kernel) option" where
  "unmap_chunk env c k =
     (let r = rc_range c
      in if r_type r = Direct then do {
           (unmapped, k) \<leftarrow> space_unmap env (r_start r) (r_size r) k;
           if \<not> unmapped then Some (False, c\<lparr>rc_gpu_mode := GpuNoAccess\<rparr>, k)
           else
             let (released, k) = with_physical (PhysicalMemory_Unmap (r_start r) (r_size r)) k;
                 gpu_mode = (case released of None \<Rightarrow> GpuNoAccess | Some (g, _) \<Rightarrow> g)
             in Some (released \<noteq> None,
                  c\<lparr>rc_host_unmapped := True, rc_gpu_mode := gpu_mode, rc_backend_unmapped := released \<noteq> None\<rparr>, k)
         }
         else if r_type r = Flexible then do {
           (released, k) \<leftarrow> flexible_unmap env (r_start r) (r_size r) k;
           let gpu_mode = (case released of None \<Rightarrow> GpuNoAccess | Some g \<Rightarrow> g);
           Some (released \<noteq> None, c\<lparr>rc_host_unmapped := released \<noteq> None,
              rc_backend_unmapped := released \<noteq> None, rc_gpu_mode := gpu_mode\<rparr>, k)
         }
         else if IsPrivateCommittedRangeType (r_type r) then do {
           (unmapped, k) \<leftarrow> space_release env (r_start r) (r_size r) k;
           Some (unmapped, c\<lparr>rc_host_unmapped := unmapped, rc_backend_unmapped := unmapped\<rparr>, k)
         }
         else if IsReservedRangeType (r_type r) then Some (ReleaseFree (r_start r) (r_size r) (km_space k), c, k)
         else Some (False, c, k))"

text \<open>The loop over the chunks stops at the first that fails; the chunks carry their flags.\<close>

fun unmap_chunks :: "'h kernel_env \<Rightarrow> replaced_chunk list \<Rightarrow> replaced_chunk list \<Rightarrow> 'h kernel \<Rightarrow>
   (bool \<times> replaced_chunk list \<times> 'h kernel) option" where
  "unmap_chunks env before [] k = Some (True, before, k)"
| "unmap_chunks env before (c # cs) k = do {
     (unmapped, c, k) \<leftarrow> unmap_chunk env c k;
     if unmapped then unmap_chunks env (before @ [c]) cs k else Some (False, before @ c # cs, k)
   }"

text \<open>The gaps between the chunks must be free again when the reservation could not be registered.\<close>

fun gaps_free :: "guest_space \<Rightarrow> u64 \<Rightarrow> u64 \<Rightarrow> replaced_chunk list \<Rightarrow> bool" where
  "gaps_free g finish free_start [] = (\<not> free_start < finish \<or> ReleaseFree free_start (finish - free_start) g)"
| "gaps_free g finish free_start (c # cs) =
     ((\<not> free_start < r_start (rc_range c) \<or> ReleaseFree free_start (r_start (rc_range c) - free_start) g) \<and>
      gaps_free g finish (r_start (rc_range c) + r_size (rc_range c)) cs)"

definition ReplaceFixedRangeWithReserved :: "'h kernel_env \<Rightarrow> u64 \<Rightarrow> u64 \<Rightarrow> 'h kernel \<Rightarrow> (bool \<times> 'h kernel) option" where
  "ReplaceFixedRangeWithReserved env start n k = do {
     collected \<leftarrow> collect_chunks k (start + n) start [];
     case collected of None \<Rightarrow> Some (False, k)
     | Some chunks \<Rightarrow> do {
         let k = UnmapGpuRange env start n False k;
         let k = snd (ranges_remove start n k);
         (unmapped, chunks, k) \<leftarrow> unmap_chunks env [] chunks k;
         if \<not> unmapped \<or> \<not> ReserveFixed start n (km_space k) then do {
           (restored, k) \<leftarrow> restore_chunks env chunks k;
           require restored;
           Some (False, k)
         }
         else
           let (range_added, k) = ranges_add start n 0 0 0 Reserved (Some ''anon'') False k
           in if \<not> range_added then do {
                (restored, k) \<leftarrow> restore_chunks env chunks k;
                require restored;
                require (gaps_free (km_space k) (start + n) start chunks);
                Some (False, k)
              }
              else Some (True,
                fold (\<lambda>c k. if IsCommittedRangeType (r_type (rc_range c))
                   then free_callback env (r_start (rc_range c)) (r_size (rc_range c)) k else k) chunks k)
       }
   }"

subsection \<open>Flags of the mapping calls\<close>

definition GUEST_MAP_FIXED :: u32 where "GUEST_MAP_FIXED = 0x10"
definition GUEST_MAP_NO_OVERWRITE :: u32 where "GUEST_MAP_NO_OVERWRITE = 0x80"
definition GUEST_MAP_DMEM_COMPAT :: u32 where "GUEST_MAP_DMEM_COMPAT = 0x400"
definition GUEST_MAP_UNKNOWN_8000 :: u32 where "GUEST_MAP_UNKNOWN_8000 = 0x8000"
definition GUEST_MAP_NO_COALESCE :: u32 where "GUEST_MAP_NO_COALESCE = 0x400000"
definition GUEST_MAP_ALIGNMENT_MASK :: u32 where "GUEST_MAP_ALIGNMENT_MASK = 0xff000000"

definition SUPPORTED_MAP_BITS :: u32 where
  "SUPPORTED_MAP_BITS = GUEST_MAP_FIXED OR GUEST_MAP_NO_OVERWRITE OR GUEST_MAP_DMEM_COMPAT OR GUEST_MAP_UNKNOWN_8000 OR
     GUEST_MAP_NO_COALESCE OR GUEST_MAP_ALIGNMENT_MASK"

definition has_flag :: "u32 \<Rightarrow> u32 \<Rightarrow> bool" where
  "has_flag flags flag \<longleftrightarrow> flags AND flag \<noteq> 0"

subsection \<open>Taking a reservation\<close>

text \<open>
  What the fixed mappings share, at \<open>in_addr\<close>: a span that is reserved throughout is taken out of the
  virtual ranges; anything else is replaced by a reservation first, which is then taken. The value is
  the name of the first range taken. \<open>take_reserved\<close> is the part without the replacement.
\<close>

definition take_reserved :: "'h kernel_env \<Rightarrow> u64 \<Rightarrow> u64 \<Rightarrow> 'h kernel \<Rightarrow> string option \<times> 'h kernel" where
  "take_reserved env vaddr n k =
     (case VirtualRanges_QuerySpan (km_ranges k) vaddr n of
        None \<Rightarrow> (None, k)
      | Some reserved \<Rightarrow>
          if \<not> list_all (\<lambda>r. r_type r = Reserved) reserved then (None, k)
          else
            let k = UnmapGpuRange env vaddr n False k;
                ((consumed, _), k) = with_ranges (VirtualRanges_ConsumeReservedSpan vaddr n Reserved) k
            in (if consumed then Some (r_name (hd reserved)) else None, k))"

definition take_fixed :: "'h kernel_env \<Rightarrow> u64 \<Rightarrow> u64 \<Rightarrow> 'h kernel \<Rightarrow> (string option \<times> 'h kernel) option" where
  "take_fixed env vaddr n k =
     (case take_reserved env vaddr n k of
        (Some nm, k) \<Rightarrow> Some (Some nm, k)
      | (None, k) \<Rightarrow> do {
          (replaced, k) \<leftarrow> ReplaceFixedRangeWithReserved env vaddr n k;
          if \<not> replaced then Some (None, k)
          else
            let ((consumed, first), k) = with_ranges (VirtualRanges_ConsumeReservedSpan vaddr n Reserved) k
            in Some (if consumed then map_option r_name first else None, k)
        })"

text \<open>Putting a taken reservation back, as one range with the name of the first.\<close>

definition give_back :: "string option \<Rightarrow> u64 \<Rightarrow> u64 \<Rightarrow> 'h kernel \<Rightarrow> bool \<times> 'h kernel" where
  "give_back taken vaddr n k =
     (case taken of None \<Rightarrow> (True, k) | Some nm \<Rightarrow> ranges_add vaddr n 0 0 0 Reserved (Some nm) False k)"

subsection \<open>Flexible memory\<close>

definition KernelMapNamedFlexibleMemory ::
  "'h kernel_env \<Rightarrow> u64 option \<Rightarrow> u64 \<Rightarrow> i32 \<Rightarrow> u32 \<Rightarrow> string option \<Rightarrow> 'h kernel \<Rightarrow> (int \<times> u64 \<times> 'h kernel) option" where
  "KernelMapNamedFlexibleMemory env addr_in_out len prot flags nm k =
     (case addr_in_out of None \<Rightarrow> None | Some in_addr \<Rightarrow>
      if len = 0 \<or> page_unaligned len then Some (KERNEL_ERROR_EINVAL, in_addr, k)
      else if FlexibleMemory_Available (ke_flexible_size env) (km_flexible k) < len
      then Some (KERNEL_ERROR_ENOMEM, in_addr, k)
      else if nm = None then Some (KERNEL_ERROR_EFAULT, in_addr, k)
      else if 32 \<le> length (the nm) then Some (KERNEL_ERROR_ENAMETOOLONG, in_addr, k)
      else
        let alignment_shift = unat (drop_bit 24 (flags AND GUEST_MAP_ALIGNMENT_MASK))
        in if flags AND NOT SUPPORTED_MAP_BITS \<noteq> 0 \<or> alignment_shift \<noteq> 0 \<and> (alignment_shift < 14 \<or> 31 < alignment_shift)
           then Some (KERNEL_ERROR_EINVAL, in_addr, k)
           else
             let map_alignment = (if alignment_shift \<noteq> 0 then push_bit alignment_shift 1 else GUEST_PAGE)
             in case DecodeMemoryProtection prot of None \<Rightarrow> None | Some (mode, gpu_mode) \<Rightarrow>
               if has_flag flags GUEST_MAP_FIXED \<and>
                    (in_addr = 0 \<or> page_unaligned in_addr \<or> in_addr AND (map_alignment - 1) \<noteq> 0)
               then Some (KERNEL_ERROR_EINVAL, in_addr, k)
               else if has_flag flags GUEST_MAP_FIXED \<and> has_flag flags GUEST_MAP_NO_OVERWRITE \<and>
                    VirtualRanges_HasOverlap (km_ranges k) in_addr len
               then Some (KERNEL_ERROR_ENOMEM, in_addr, k)
               else do {
                 (taken, out_addr, k) \<leftarrow>
                   (if has_flag flags GUEST_MAP_FIXED then do {
                      (taken, k) \<leftarrow> take_fixed env in_addr len k;
                      Some (taken, if taken = None then 0 else in_addr, k)
                    }
                    else
                      let search_addr = (if in_addr \<noteq> 0 then in_addr else GUEST_DEFAULT_MAP_BASE);
                          out_addr = FindGuestFreeRange (km_space k) (km_ranges k) search_addr len map_alignment
                      in Some (None, out_addr,
                           if out_addr \<noteq> 0 then UnmapGpuRange env out_addr len False k else k));
                 if out_addr = 0 then Some (KERNEL_ERROR_ENOMEM, 0, snd (give_back taken in_addr len k))
                 else do {
                   (mapped, k) \<leftarrow> flexible_map env out_addr len prot mode gpu_mode nm k;
                   if \<not> mapped then do {
                     let (given, k) = give_back taken out_addr len k;
                     require given;
                     Some (KERNEL_ERROR_ENOMEM, out_addr, k)
                   }
                   else
                     let (added, k) = ranges_add out_addr len 0 prot 0 Flexible nm (has_flag flags GUEST_MAP_NO_COALESCE) k
                     in if \<not> added then do {
                          (unmapped, k) \<leftarrow> flexible_unmap env out_addr len k;
                          require (unmapped \<noteq> None);
                          let (given, k) = give_back taken out_addr len k;
                          require given;
                          Some (KERNEL_ERROR_EBUSY, out_addr, k)
                        }
                        else Some (OK, out_addr, alloc_callback env out_addr len (MapGpuRange env out_addr len k))
                 }
               })"

definition KernelMapFlexibleMemory ::
  "'h kernel_env \<Rightarrow> u64 option \<Rightarrow> u64 \<Rightarrow> i32 \<Rightarrow> u32 \<Rightarrow> 'h kernel \<Rightarrow> (int \<times> u64 \<times> 'h kernel) option" where
  "KernelMapFlexibleMemory env addr_in_out len prot flags =
     KernelMapNamedFlexibleMemory env addr_in_out len prot flags (Some '''')"

subsection \<open>Direct memory\<close>

text \<open>
  Where a direct mapping goes, with its views made: the name of the reservation taken, the address (0
  when there is none), and whether the caller answers out-of-memory at once.
\<close>

definition place_direct ::
  "'h kernel_env \<Rightarrow> bool \<Rightarrow> u64 \<Rightarrow> u64 \<Rightarrow> u64 \<Rightarrow> u64 \<Rightarrow> vmode \<Rightarrow> 'h kernel \<Rightarrow> (string option \<times> u64 \<times> 'h kernel) option" where
  "place_direct env fixed in_addr len alignment offset mode k =
     (if fixed then do {
        (taken, k) \<leftarrow> take_fixed env in_addr len k;
        if taken = None then Some (None, 0, k)
        else do {
          (mapped, k) \<leftarrow> space_map env in_addr len offset mode k;
          Some (taken, if mapped then in_addr else 0, k)
        }
      }
      else
        let alignment = (if alignment \<noteq> 0 then alignment else GUEST_PAGE);
            (taken, k) = (if in_addr \<noteq> 0 then take_reserved env in_addr len k else (None, k))
        in if taken \<noteq> None then do {
             (mapped, k) \<leftarrow> space_map env in_addr len offset mode k;
             Some (taken, if mapped then in_addr else 0, k)
           }
           else
             let out_addr = FindGuestFreeRange (km_space k) (km_ranges k) in_addr len alignment
             in if out_addr = 0 then Some (None, 0, k)
                else do {
                  (mapped, k) \<leftarrow> space_map env out_addr len offset mode (UnmapGpuRange env out_addr len False k);
                  Some (None, if mapped then out_addr else 0, k)
                })"

definition KernelMapDirectMemory ::
  "'h kernel_env \<Rightarrow> u64 option \<Rightarrow> u64 \<Rightarrow> i32 \<Rightarrow> u32 \<Rightarrow> u64 \<Rightarrow> u64 \<Rightarrow> 'h kernel \<Rightarrow> (int \<times> u64 option \<times> 'h kernel) option" where
  "KernelMapDirectMemory env addr len prot flags direct_memory_start alignment k =
     (case addr of None \<Rightarrow> Some (KERNEL_ERROR_EFAULT, None, k) | Some in_addr \<Rightarrow>
      if len = 0 \<or> page_unaligned len \<or> is_negative direct_memory_start \<or> page_unaligned direct_memory_start \<or>
         (alignment \<noteq> 0 \<and> alignment AND (alignment - 1) \<noteq> 0 \<and> page_unaligned alignment)
      then Some (KERNEL_ERROR_EINVAL, addr, k)
      else if prot AND PROT_CPU_EXEC \<noteq> 0 then Some (KERNEL_ERROR_EACCES, addr, k)
      else
        case DecodeMemoryProtection prot of None \<Rightarrow> Some (KERNEL_ERROR_EINVAL, addr, k) | Some (mode, gpu_mode) \<Rightarrow>
        if \<not> PhysicalMemory_CanMapDirect direct_memory_start len (km_physical k)
        then Some (KERNEL_ERROR_ENOMEM, addr, k)
        else
          let fixed = has_flag flags GUEST_MAP_FIXED
          in if fixed \<and> (in_addr = 0 \<or> page_unaligned in_addr \<or> (alignment \<noteq> 0 \<and> in_addr mod alignment \<noteq> 0))
             then Some (KERNEL_ERROR_EINVAL, addr, k)
             else if fixed \<and> has_flag flags GUEST_MAP_NO_OVERWRITE \<and> VirtualRanges_HasOverlap (km_ranges k) in_addr len
             then Some (KERNEL_ERROR_ENOMEM, addr, k)
             else do {
               (taken, out_addr, k) \<leftarrow> place_direct env fixed in_addr len alignment direct_memory_start mode k;
               if fixed \<and> taken = None then Some (KERNEL_ERROR_ENOMEM, addr, k)
               else if out_addr = 0 then Some (KERNEL_ERROR_ENOMEM, Some 0, snd (give_back taken in_addr len k))
               else
                 let (mapped, k) = with_physical
                       (PhysicalMemory_Map out_addr direct_memory_start len prot mode gpu_mode) k
                 in if \<not> mapped then do {
                      (unmapped, k) \<leftarrow> space_unmap env out_addr len k;
                      require unmapped;
                      let (given, k) = give_back taken in_addr len k;
                      require given;
                      Some (KERNEL_ERROR_EBUSY, Some out_addr, k)
                    }
                    else
                      let memory_type = (case PhysicalMemory_FindPhysical direct_memory_start False (km_physical k) of
                            None \<Rightarrow> 0 | Some b \<Rightarrow> pb_memory_type b);
                          (added, k) = ranges_add out_addr len direct_memory_start prot memory_type Direct (Some '''') False k
                      in if \<not> added then do {
                           let (released, k) = with_physical (PhysicalMemory_Unmap out_addr len) k;
                           require (released \<noteq> None);
                           (unmapped, k) \<leftarrow> space_unmap env out_addr len k;
                           require unmapped;
                           let (given, k) = give_back taken in_addr len k;
                           require given;
                           Some (KERNEL_ERROR_EBUSY, Some out_addr, k)
                         }
                         else Some (OK, Some out_addr, alloc_callback env out_addr len (MapGpuRange env out_addr len k))
             })"

definition KernelMapDirectMemory2 ::
  "'h kernel_env \<Rightarrow> u64 option \<Rightarrow> u64 \<Rightarrow> i32 \<Rightarrow> i32 \<Rightarrow> u32 \<Rightarrow> u64 \<Rightarrow> u64 \<Rightarrow> 'h kernel \<Rightarrow> (int \<times> u64 option \<times> 'h kernel) option" where
  "KernelMapDirectMemory2 env addr len mtype prot flags direct_memory_start alignment k = do {
     (ret, addr, k) \<leftarrow> KernelMapDirectMemory env addr len prot flags direct_memory_start alignment k;
     case addr of None \<Rightarrow> Some (ret, addr, k) | Some out_addr \<Rightarrow>
       if ret = OK \<and> out_addr \<noteq> 0
       then Some (ret, addr, k\<lparr>km_physical := PhysicalMemory_SetVirtualRangeMemoryType out_addr len mtype (km_physical k),
              km_ranges := VirtualRanges_SetMemoryType out_addr len mtype (km_ranges k)\<rparr>)
       else Some (ret, addr, k)
   }"

definition KernelMapNamedDirectMemory ::
  "'h kernel_env \<Rightarrow> u64 option \<Rightarrow> u64 \<Rightarrow> i32 \<Rightarrow> u32 \<Rightarrow> u64 \<Rightarrow> u64 \<Rightarrow> string option \<Rightarrow> 'h kernel \<Rightarrow>
   (int \<times> u64 option \<times> 'h kernel) option" where
  "KernelMapNamedDirectMemory env addr len prot flags direct_memory_start alignment nm k =
     (if nm = None then Some (KERNEL_ERROR_EFAULT, addr, k)
      else if KERNEL_MAXIMUM_NAME_LENGTH \<le> length (the nm) then Some (KERNEL_ERROR_ENAMETOOLONG, addr, k)
      else do {
        (ret, addr, k) \<leftarrow> KernelMapDirectMemory env addr len prot flags direct_memory_start alignment k;
        case addr of None \<Rightarrow> Some (ret, addr, k) | Some out_addr \<Rightarrow>
          if ret = OK
          then Some (ret, addr, k\<lparr>km_physical := PhysicalMemory_SetVirtualRangeName out_addr len nm (km_physical k),
                 km_ranges := VirtualRanges_Rename out_addr len nm (km_ranges k)\<rparr>)
          else Some (ret, addr, k)
      })"

subsection \<open>Reservations\<close>

definition KernelReserveVirtualRange ::
  "'h kernel_env \<Rightarrow> u64 option \<Rightarrow> u64 \<Rightarrow> u32 \<Rightarrow> u64 \<Rightarrow> 'h kernel \<Rightarrow> (int \<times> u64 option \<times> 'h kernel) option" where
  "KernelReserveVirtualRange env addr len flags alignment k =
     (case addr of None \<Rightarrow> Some (KERNEL_ERROR_EINVAL, None, k) | Some in_addr \<Rightarrow>
      if len = 0 \<or> page_unaligned len then Some (KERNEL_ERROR_EINVAL, addr, k)
      else if alignment \<noteq> 0 \<and> alignment AND (alignment - 1) \<noteq> 0 \<and> page_unaligned alignment
      then Some (KERNEL_ERROR_EINVAL, addr, k)
      else
        let fixed = has_flag flags GUEST_MAP_FIXED
        in if fixed \<and> (in_addr = 0 \<or> page_unaligned in_addr) then Some (KERNEL_ERROR_EINVAL, addr, k)
           else if fixed \<and> has_flag flags GUEST_MAP_NO_OVERWRITE \<and> VirtualRanges_HasOverlap (km_ranges k) in_addr len
           then Some (KERNEL_ERROR_ENOMEM, addr, k)
           else do {
             (out_addr, range_already_added, k) \<leftarrow>
               (if fixed then do {
                  (replaced, k) \<leftarrow> ReplaceFixedRangeWithReserved env in_addr len k;
                  Some (if replaced then in_addr else 0, replaced, k)
                }
                else
                  let out_addr = FindGuestFreeRange (km_space k) (km_ranges k) in_addr len
                        (if alignment \<noteq> 0 then alignment else GUEST_PAGE)
                  in Some (out_addr, False, if out_addr \<noteq> 0 then UnmapGpuRange env out_addr len False k else k));
             if out_addr = 0 then Some (KERNEL_ERROR_ENOMEM, addr, k)
             else if range_already_added then Some (OK, Some out_addr, k)
             else
               let (added, k) = ranges_add out_addr len 0 0 0 Reserved (Some ''anon'') False k
               in if \<not> added then Some (KERNEL_ERROR_EBUSY, addr, k) else Some (OK, Some out_addr, k)
           })"

end
