(* ===== verification/KernelUnmapping.thy ===== *)
theory KernelUnmapping
  imports KernelMapping
begin

text \<open>
  The functions of \<open>src/src/kernel/memory.cpp\<close> that unmap and release, the memory the emulator itself
  takes for programs and stacks, and the change of protections.
\<close>

unbundle bit_operations_syntax

subsection \<open>Unmapping\<close>

definition FreeGuestMemoryOwner :: "'h kernel_env \<Rightarrow> u64 \<Rightarrow> u64 \<Rightarrow> 'h kernel \<Rightarrow> (bool \<times> 'h kernel) option" where
  "FreeGuestMemoryOwner env vaddr n k = do {
     (released, k) \<leftarrow> space_release env vaddr n k;
     Some (if released then ranges_remove vaddr n k else (False, k))
   }"

definition MemoryPoolSubtractCommitted :: "u64 \<Rightarrow> 'h kernel \<Rightarrow> 'h kernel" where
  "MemoryPoolSubtractCommitted len k =
     (let current = km_committed k
      in if current = 0 then k else k\<lparr>km_committed := (if len < current then current - len else 0)\<rparr>)"

text \<open>
  What \<open>UnmapMemoryRange\<close> does with a request inside one range, apart from reserved and private ranges:
  giving the owner's backing back.
\<close>

definition unmap_owner :: "'h kernel_env \<Rightarrow> vrange \<Rightarrow> u64 \<Rightarrow> u64 \<Rightarrow> 'h kernel \<Rightarrow> (bool \<times> 'h kernel) option" where
  "unmap_owner env r vaddr len k =
     (if r_type r = Pooled then
        (case PooledMemory_Query vaddr len (km_pooled k) of
           None \<Rightarrow> Some (False, k)
         | Some mappings \<Rightarrow>
             (case DecodeMemoryProtection (r_protection r) of
                None \<Rightarrow> Some (False, k)
              | Some (mode, _) \<Rightarrow> do {
                  (unmapped, k) \<leftarrow> pooled_unmap env mappings mode k;
                  if \<not> unmapped then Some (False, k)
                  else do {
                    let (released, k) = with_pooled (PooledMemory_Release vaddr len) k;
                    require (released \<noteq> None);
                    Some (True, k)
                  }
                }))
      else if r_type r = Direct then
        (case DecodeMemoryProtection (r_protection r) of
           None \<Rightarrow> Some (False, k)
         | Some (direct_mode, _) \<Rightarrow>
             let direct_offset = r_offset r + vaddr - r_start r
             in if \<not> Backing_Contains vaddr len (gs_backing (km_space k)) then Some (False, k)
                else do {
                  (unmapped, k) \<leftarrow> space_unmap env vaddr len k;
                  if \<not> unmapped then Some (False, k)
                  else
                    let (released, k) = with_physical (PhysicalMemory_Unmap vaddr len) k
                    in if released \<noteq> None then Some (True, k)
                       else do {
                         (restored, k) \<leftarrow> space_map env vaddr len direct_offset direct_mode k;
                         require restored;
                         Some (False, k)
                       }
                })
      else if r_type r = Stack then space_release env vaddr len k
      else do {
        (released, k) \<leftarrow> flexible_unmap env vaddr len k;
        Some (released \<noteq> None, k)
      })"

definition unmap_in_range :: "'h kernel_env \<Rightarrow> vrange \<Rightarrow> u64 \<Rightarrow> u64 \<Rightarrow> 'h kernel \<Rightarrow> (int \<times> 'h kernel) option" where
  "unmap_in_range env r vaddr len k =
     (if IsReservedRangeType (r_type r) then
        if \<not> ReleaseFree vaddr len (km_space k) then Some (KERNEL_ERROR_EACCES, k)
        else Some (OK, snd (ranges_remove vaddr len k))
      else if r_type r = Code \<or> r_type r = Runtime then do {
        (freed, k) \<leftarrow> FreeGuestMemoryOwner env vaddr len k;
        Some (if freed then OK else KERNEL_ERROR_EACCES, k)
      }
      else do {
        (owner_unmapped, k) \<leftarrow> unmap_owner env r vaddr len k;
        if \<not> owner_unmapped then Some (KERNEL_ERROR_EACCES, k)
        else
          let k = snd (ranges_remove vaddr len k);
              k = (if IsCommittedRangeType (r_type r) then free_callback env vaddr len k else k)
          in Some (OK, if r_type r = Pooled then MemoryPoolSubtractCommitted len k else k)
      })"

text \<open>\<open>UnmapMemoryRange\<close> cuts the request at the ends of the ranges and unmaps piece by piece.\<close>

definition chunk_in :: "vrange \<Rightarrow> u64 \<Rightarrow> u64 \<Rightarrow> u64" where
  "chunk_in r vaddr len = min len (r_size r - (vaddr - r_start r))"

lemma Query_chunk:
  assumes "VirtualRanges_Query v vaddr 0 = Some r" and "chunk_in r vaddr len < len"
  shows "0 < unat (chunk_in r vaddr len)"
proof -
  define i where "i = UpperBound (m_ranges v) vaddr - 1"
  have r: "r = m_ranges v ! i" and lt: "vaddr < r_end r" and i: "i < UpperBound (m_ranges v) vaddr"
    using assms(1) by (auto simp: VirtualRanges_Query_def i_def Let_def split: if_splits)
  have "r_start r \<le> vaddr"
    using i unfolding r UpperBound_def
    by (metis (mono_tags, lifting) length_takeWhile_le nth_mem order_less_le_trans set_takeWhileD takeWhile_nth)
  then have le: "unat (r_start r) \<le> unat vaddr" by (simp add: le_u64)
  have "unat vaddr < unat (r_start r) + unat (r_size r)"
    using lt by (simp add: less_u64 unat_sat_end)
  then have "unat (vaddr - r_start r) < unat (r_size r)" using le by (simp add: unat_minus_u64)
  then have "0 < unat (r_size r - (vaddr - r_start r))" by (simp add: unat_minus_u64)
  moreover have "chunk_in r vaddr len = r_size r - (vaddr - r_start r)"
    using assms(2) by (auto simp: chunk_in_def min_def split: if_splits)
  ultimately show ?thesis by simp
qed

function UnmapMemoryRange :: "'h kernel_env \<Rightarrow> u64 \<Rightarrow> u64 \<Rightarrow> 'h kernel \<Rightarrow> (int \<times> 'h kernel) option" where
  "UnmapMemoryRange env vaddr len k =
     (if len = 0 \<or> u64_max - vaddr < len then Some (KERNEL_ERROR_EINVAL, k)
      else
        case VirtualRanges_Query (km_ranges k) vaddr 0 of
          None \<Rightarrow> Some (KERNEL_ERROR_EACCES, k)
        | Some r \<Rightarrow>
            let chunk_len = chunk_in r vaddr len
            in if chunk_len < len
               then (case UnmapMemoryRange env vaddr chunk_len k of
                       None \<Rightarrow> None
                     | Some (ret, k) \<Rightarrow>
                         if ret = OK then UnmapMemoryRange env (vaddr + chunk_len) (len - chunk_len) k
                         else Some (ret, k))
               else unmap_in_range env r vaddr len k)"
  by pat_completeness auto
termination
proof (relation "measure (\<lambda>(env, vaddr, len, k). unat len)", simp)
  fix env :: "'a kernel_env" and vaddr len :: u64 and k :: "'a kernel" and r c
  assume "\<not> (len = 0 \<or> u64_max - vaddr < len)" "VirtualRanges_Query (km_ranges k) vaddr 0 = Some r"
    "c = chunk_in r vaddr len" "c < len"
  then show "((env, vaddr, c, k), (env, vaddr, len, k)) \<in> measure (\<lambda>(env, vaddr, len, k). unat len)"
    by (simp add: less_u64)
next
  fix env :: "'a kernel_env" and vaddr len :: u64 and k k' :: "'a kernel" and r c and p :: "int \<times> 'a kernel" and ret
  assume *: "VirtualRanges_Query (km_ranges k) vaddr 0 = Some r" "c = chunk_in r vaddr len" "c < len"
  then have "0 < unat c" using Query_chunk by blast
  moreover have "unat c < unat len" using *(3) by (simp add: less_u64)
  ultimately show "((env, vaddr + c, len - c, k'), (env, vaddr, len, k)) \<in> measure (\<lambda>(env, vaddr, len, k). unat len)"
    by (simp add: unat_minus_u64)
qed

declare UnmapMemoryRange.simps [simp del]

definition KernelMunmap :: "'h kernel_env \<Rightarrow> u64 \<Rightarrow> u64 \<Rightarrow> 'h kernel \<Rightarrow> (int \<times> 'h kernel) option" where
  "KernelMunmap env vaddr len k =
     (if len = 0 \<or> u64_max - vaddr < len then Some (KERNEL_ERROR_EINVAL, k)
      else if VirtualRanges_QuerySpan (km_ranges k) vaddr len = None then Some (KERNEL_ERROR_EACCES, k)
      else do {
        (ret, k) \<leftarrow> UnmapMemoryRange env vaddr len (UnmapGpuRange env vaddr len True k);
        Some (ret, if ret \<noteq> OK then RestoreGpuRangeProtection env vaddr len k else k)
      })"

subsection \<open>Releasing direct memory\<close>

text \<open>The mappings of released bytes must be whole pieces of direct ranges.\<close>

definition alias_owned :: "'h kernel \<Rightarrow> phys_block \<Rightarrow> bool" where
  "alias_owned k alias \<longleftrightarrow>
     Backing_Contains (pb_map_vaddr alias) (pb_map_size alias) (gs_backing (km_space k)) \<and>
     (case VirtualRanges_Query (km_ranges k) (pb_map_vaddr alias) 0 of
        None \<Rightarrow> False
      | Some r \<Rightarrow> r_type r = Direct \<and> pb_map_size alias \<le> r_start r + r_size r - pb_map_vaddr alias)"

fun restore_owner_aliases :: "'h kernel_env \<Rightarrow> phys_block list \<Rightarrow> 'h kernel \<Rightarrow> 'h kernel option" where
  "restore_owner_aliases env [] k = Some k"
| "restore_owner_aliases env (b # bs) k = do {
     (restored, k) \<leftarrow> space_map env (pb_map_vaddr b) (pb_map_size b) (pb_start_addr b) (pb_mode b) k;
     require restored;
     restore_owner_aliases env bs k
   }"

text \<open>Unmapping the views of all of them, or of none.\<close>

fun unmap_aliases :: "'h kernel_env \<Rightarrow> phys_block list \<Rightarrow> phys_block list \<Rightarrow> 'h kernel \<Rightarrow> (bool \<times> 'h kernel) option" where
  "unmap_aliases env before [] k = Some (True, k)"
| "unmap_aliases env before (b # bs) k = do {
     (unmapped, k) \<leftarrow> space_unmap env (pb_map_vaddr b) (pb_map_size b) k;
     if unmapped then unmap_aliases env (before @ [b]) bs k
     else do {
       k \<leftarrow> restore_owner_aliases env (rev before) k;
       Some (False, k)
     }
   }"

fun remap_metadata :: "phys_block list \<Rightarrow> 'h kernel \<Rightarrow> 'h kernel option" where
  "remap_metadata [] k = Some k"
| "remap_metadata (b # bs) k =
     (let (mapped, k) = with_physical (PhysicalMemory_Map (pb_map_vaddr b) (pb_start_addr b) (pb_map_size b)
            (pb_prot b) (pb_mode b) (pb_gpu_mode b)) k
      in if mapped then remap_metadata bs k else None)"

fun unmap_metadata :: "phys_block list \<Rightarrow> phys_block list \<Rightarrow> 'h kernel \<Rightarrow> (bool \<times> 'h kernel) option" where
  "unmap_metadata before [] k = Some (True, k)"
| "unmap_metadata before (b # bs) k =
     (let (released, k) = with_physical (PhysicalMemory_Unmap (pb_map_vaddr b) (pb_map_size b)) k
      in if released \<noteq> None then unmap_metadata (before @ [b]) bs k
         else map_option (Pair False) (remap_metadata before k))"

fun remove_aliases :: "phys_block list \<Rightarrow> 'h kernel \<Rightarrow> 'h kernel option" where
  "remove_aliases [] k = Some k"
| "remove_aliases (b # bs) k =
     (let (removed, k) = ranges_remove (pb_map_vaddr b) (pb_map_size b) k
      in if removed then remove_aliases bs k else None)"

fun release_blocks :: "phys_block list \<Rightarrow> 'h kernel \<Rightarrow> 'h kernel option" where
  "release_blocks [] k = Some k"
| "release_blocks (b # bs) k =
     (let (released, k) = with_physical (PhysicalMemory_Release (pb_start_addr b) (pb_size b)) k
      in if released \<noteq> None then release_blocks bs k else None)"

definition tell_aliases :: "(u64 \<Rightarrow> u64 \<Rightarrow> 'h kernel \<Rightarrow> 'h kernel) \<Rightarrow> phys_block list \<Rightarrow> 'h kernel \<Rightarrow> 'h kernel" where
  "tell_aliases f aliases k = fold (\<lambda>b. f (pb_map_vaddr b) (pb_map_size b)) aliases k"

definition ReleaseDirectMemoryInternal :: "'h kernel_env \<Rightarrow> u64 \<Rightarrow> u64 \<Rightarrow> 'h kernel \<Rightarrow> (int \<times> 'h kernel) option" where
  "ReleaseDirectMemoryInternal env start len k =
     (let (expansion, k) = with_pooled (PooledMemory_ReleaseExpansion start len) k
      in if expansion then do {
           let (released, k) = with_physical (PhysicalMemory_ReleasePoolExpansion start len) k;
           require released;
           Some (OK, k)
         }
         else
           case PhysicalMemory_GetAllocatedSpan start len (km_physical k) of
             None \<Rightarrow> Some (KERNEL_ERROR_EACCES, k)
           | Some allocated_span \<Rightarrow>
               let aliases = PhysicalMemory_FindMappings start len (km_physical k)
               in if \<not> list_all (alias_owned k) aliases then None
                  else do {
                    (unmapped, k) \<leftarrow> unmap_aliases env [] aliases
                      (tell_aliases (\<lambda>v n. UnmapGpuRange env v n False) aliases k);
                    if \<not> unmapped then Some (KERNEL_ERROR_EACCES, tell_aliases (MapGpuRange env) aliases k)
                    else do {
                      (unmapped, k) \<leftarrow> unmap_metadata [] aliases k;
                      if \<not> unmapped then do {
                        k \<leftarrow> restore_owner_aliases env (rev aliases) k;
                        Some (KERNEL_ERROR_EACCES, tell_aliases (MapGpuRange env) aliases k)
                      }
                      else do {
                        k \<leftarrow> remove_aliases aliases k;
                        k \<leftarrow> release_blocks allocated_span k;
                        Some (OK, tell_aliases (free_callback env) aliases k)
                      }
                    }
                  })"

definition ValidateDirectReleaseRange :: "u64 \<Rightarrow> u64 \<Rightarrow> int" where
  "ValidateDirectReleaseRange start len =
     (if is_negative start \<or> page_unaligned start \<or> page_unaligned len then KERNEL_ERROR_EINVAL else OK)"

definition KernelReleaseDirectMemory :: "'h kernel_env \<Rightarrow> u64 \<Rightarrow> u64 \<Rightarrow> 'h kernel \<Rightarrow> (int \<times> 'h kernel) option" where
  "KernelReleaseDirectMemory env start len k =
     (let validation = ValidateDirectReleaseRange start len
      in if validation \<noteq> OK then Some (validation, k)
         else if len \<noteq> 0 then do {
           (_, k) \<leftarrow> ReleaseDirectMemoryInternal env start len k;
           Some (OK, k)
         }
         else Some (OK, k))"

definition KernelCheckedReleaseDirectMemory :: "'h kernel_env \<Rightarrow> u64 \<Rightarrow> u64 \<Rightarrow> 'h kernel \<Rightarrow> (int \<times> 'h kernel) option" where
  "KernelCheckedReleaseDirectMemory env start len k =
     (let validation = ValidateDirectReleaseRange start len
      in if validation \<noteq> OK \<or> len = 0 then Some (validation, k)
         else do {
           (result, k) \<leftarrow> ReleaseDirectMemoryInternal env start len k;
           Some (if result = KERNEL_ERROR_EACCES then KERNEL_ERROR_ENOENT else result, k)
         })"

subsection \<open>Program memory\<close>

text \<open>A mode is its number, the protection bits of the CPU.\<close>

fun ProgramProtection :: "vmode \<Rightarrow> i32" where
  "ProgramProtection NoAccess = 0"
| "ProgramProtection Read = 1"
| "ProgramProtection Write = 2"
| "ProgramProtection ReadWrite = 3"
| "ProgramProtection Execute = 4"
| "ProgramProtection ExecuteRead = 5"
| "ProgramProtection ExecuteWrite = 6"
| "ProgramProtection ExecuteReadWrite = 7"

definition page_up :: "u64 \<Rightarrow> u64" where
  "page_up x = (x + (GUEST_PAGE - 1)) AND NOT (GUEST_PAGE - 1)"

definition AllocateGuestRuntimeMemory ::
  "'h kernel_env \<Rightarrow> u64 \<Rightarrow> u64 \<Rightarrow> vmode \<Rightarrow> string option \<Rightarrow> vrange_type \<Rightarrow> bool \<Rightarrow> 'h kernel \<Rightarrow> (u64 \<times> 'h kernel) option" where
  "AllocateGuestRuntimeMemory env search_addr n mode nm t fixed k =
     (if n = 0 \<or> u64_max - (GUEST_PAGE - 1) < n \<or> nm = None \<or> (fixed \<and> (search_addr = 0 \<or> page_unaligned search_addr))
      then Some (0, k)
      else
        let mapped_size = page_up n;
            vaddr = (if fixed then search_addr
               else FindGuestFreeRange (km_space k) (km_ranges k) search_addr mapped_size GUEST_PAGE)
        in if vaddr = 0 \<or> VirtualRanges_HasOverlap (km_ranges k) vaddr mapped_size then Some (0, k)
           else do {
             (committed, k) \<leftarrow> space_commit env vaddr mapped_size mode (UnmapGpuRange env vaddr mapped_size False k);
             if \<not> committed then Some (0, k)
             else
               let (added, k) = ranges_add vaddr mapped_size 0 (ProgramProtection mode) 0 t nm False k
               in if \<not> added then do {
                    (released, k) \<leftarrow> space_release env vaddr mapped_size k;
                    require released;
                    Some (0, k)
                  }
                  else Some (vaddr, MapGpuRange env vaddr mapped_size k)
           })"

definition AllocateProgramMemory ::
  "'h kernel_env \<Rightarrow> u64 \<Rightarrow> u64 \<Rightarrow> vmode \<Rightarrow> string option \<Rightarrow> 'h kernel \<Rightarrow> (u64 \<times> 'h kernel) option" where
  "AllocateProgramMemory env search_addr n mode nm = AllocateGuestRuntimeMemory env search_addr n mode nm Code False"

definition AllocateRuntimeMemory ::
  "'h kernel_env \<Rightarrow> u64 \<Rightarrow> u64 \<Rightarrow> vmode \<Rightarrow> string option \<Rightarrow> bool \<Rightarrow> 'h kernel \<Rightarrow> (u64 \<times> 'h kernel) option" where
  "AllocateRuntimeMemory env search_addr n mode nm fixed = AllocateGuestRuntimeMemory env search_addr n mode nm Runtime fixed"

definition AllocateGuestStackMemory ::
  "'h kernel_env \<Rightarrow> u64 \<Rightarrow> u64 \<Rightarrow> vmode \<Rightarrow> string option \<Rightarrow> 'h kernel \<Rightarrow> (u64 \<times> 'h kernel) option" where
  "AllocateGuestStackMemory env search_addr n mode nm k = do {
     (vaddr, k) \<leftarrow> AllocateGuestRuntimeMemory env search_addr n mode nm Stack False k;
     Some (vaddr, if vaddr \<noteq> 0 then alloc_callback env vaddr n k else k)
   }"

definition RequireGuestRuntimeMemory :: "u64 \<Rightarrow> u64 \<Rightarrow> 'h kernel \<Rightarrow> vrange list option" where
  "RequireGuestRuntimeMemory vaddr n k =
     (case VirtualRanges_QuerySpan (km_ranges k) vaddr n of
        None \<Rightarrow> None
      | Some ranges \<Rightarrow> if list_ex (\<lambda>r. r_type r \<noteq> Code \<and> r_type r \<noteq> Runtime) ranges then None else Some ranges)"

definition FreeGuestMemory :: "'h kernel_env \<Rightarrow> u64 \<Rightarrow> u64 \<Rightarrow> 'h kernel \<Rightarrow> (bool \<times> 'h kernel) option" where
  "FreeGuestMemory env vaddr n k =
     (if vaddr = 0 \<or> n = 0 \<or> u64_max - (GUEST_PAGE - 1) < n then Some (False, k)
      else
        let mapped_size = page_up n
        in do {
          _ \<leftarrow> RequireGuestRuntimeMemory vaddr mapped_size k;
          (freed, k) \<leftarrow> FreeGuestMemoryOwner env vaddr mapped_size (UnmapGpuRange env vaddr mapped_size True k);
          Some (freed, if freed then k else RestoreGpuRangeProtection env vaddr mapped_size k)
        })"

subsection \<open>Protections\<close>

definition SetProgramMemoryProtection :: "'h kernel_env \<Rightarrow> u64 \<Rightarrow> u64 \<Rightarrow> vmode \<Rightarrow> 'h kernel \<Rightarrow> 'h kernel option" where
  "SetProgramMemoryProtection env vaddr n mode k = do {
     ranges \<leftarrow> RequireGuestRuntimeMemory vaddr n k;
     require (list_all (\<lambda>r. r_type r = Code) ranges);
     let (protected, k) = space_protect env vaddr n (host_mode mode) k;
     require protected;
     Some (k\<lparr>km_ranges := VirtualRanges_Protect vaddr n (ProgramProtection mode) (km_ranges k)\<rparr>)
   }"

text \<open>The first range's old protection bits of the CPU come back for \<open>old_mode\<close>.\<close>

definition ProtectGuestMemory :: "'h kernel_env \<Rightarrow> u64 \<Rightarrow> u64 \<Rightarrow> vmode \<Rightarrow> 'h kernel \<Rightarrow> (bool \<times> i32 option \<times> 'h kernel) option" where
  "ProtectGuestMemory env vaddr n mode k =
     (if vaddr = 0 \<or> n = 0 \<or> u64_max - (vaddr AND (GUEST_PAGE - 1)) < n then Some (False, None, k)
      else
        let aligned_addr = vaddr AND NOT (GUEST_PAGE - 1); aligned_size = page_up (n + (vaddr - aligned_addr))
        in do {
          ranges \<leftarrow> RequireGuestRuntimeMemory aligned_addr aligned_size k;
          let old_mode = r_protection (hd ranges) AND 7;
          let (protected, k) = space_protect env aligned_addr aligned_size mode k;
          Some (protected, Some old_mode, if \<not> protected then k
             else k\<lparr>km_ranges := VirtualRanges_Protect aligned_addr aligned_size (ProgramProtection mode) (km_ranges k)\<rparr>)
        })"

fun protect_owners :: "i32 \<Rightarrow> vmode \<Rightarrow> gpu_access \<Rightarrow> vrange list \<Rightarrow> 'h kernel \<Rightarrow> 'h kernel" where
  "protect_owners prot mode gpu_mode [] k = k"
| "protect_owners prot mode gpu_mode (r # rs) k =
     protect_owners prot mode gpu_mode rs
       (if r_type r = Direct
        then k\<lparr>km_physical := PhysicalMemory_ProtectMapping (r_start r) (r_size r) prot mode gpu_mode (km_physical k)\<rparr>
        else if r_type r = Flexible
        then k\<lparr>km_flexible := FlexibleMemory_Protect (r_start r) (r_size r) prot mode gpu_mode (km_flexible k)\<rparr>
        else k)"

definition KernelMprotect :: "'h kernel_env \<Rightarrow> u64 \<Rightarrow> u64 \<Rightarrow> i32 \<Rightarrow> 'h kernel \<Rightarrow> (int \<times> 'h kernel) option" where
  "KernelMprotect env vaddr len prot k =
     (let aligned_addr = vaddr AND NOT (GUEST_PAGE - 1); page_offset = vaddr - aligned_addr
      in if u64_max - page_offset < len \<or> u64_max - (GUEST_PAGE - 1) < len + page_offset then None
         else
           let aligned_len = page_up (len + page_offset)
           in if aligned_len = 0 then Some (OK, k)
              else
                case DecodeMemoryProtection prot of None \<Rightarrow> Some (KERNEL_ERROR_EINVAL, k)
                | Some (mode, gpu_mode) \<Rightarrow> do {
                    old_ranges \<leftarrow> VirtualRanges_QuerySpan (km_ranges k) aligned_addr aligned_len;
                    require (list_all (\<lambda>r. IsCommittedRangeType (r_type r)) old_ranges);
                    let (protected, k) = space_protect env aligned_addr aligned_len mode k;
                    require protected;
                    let k = (if ke_gpu env \<and> IsGpuAddressRange aligned_addr aligned_len
                       then tell env (GpuReapplied aligned_addr aligned_len) k else k);
                    let k = protect_owners prot mode gpu_mode old_ranges k;
                    Some (OK, k\<lparr>km_ranges := VirtualRanges_Protect aligned_addr aligned_len prot (km_ranges k)\<rparr>)
                  })"

definition KernelMtypeprotect :: "'h kernel_env \<Rightarrow> u64 \<Rightarrow> u64 \<Rightarrow> i32 \<Rightarrow> i32 \<Rightarrow> 'h kernel \<Rightarrow> (int \<times> 'h kernel) option" where
  "KernelMtypeprotect env vaddr len mtype prot = KernelMprotect env vaddr len prot"

end
