(* ===== verification/KernelPool.thy ===== *)
theory KernelPool
  imports KernelUnmapping
begin

text \<open>
  The memory pool of \<open>src/src/kernel/memory.cpp\<close> (expanding it by direct memory, reserving, committing
  and decommitting pooled ranges) and the two batch functions.
\<close>

unbundle bit_operations_syntax

definition IsAligned :: "u64 \<Rightarrow> u64 \<Rightarrow> bool" where
  "IsAligned value alignment \<longleftrightarrow> alignment = 0 \<or> value AND (alignment - 1) = 0"

definition IsPowerOfTwo :: "u64 \<Rightarrow> bool" where
  "IsPowerOfTwo value \<longleftrightarrow> value \<noteq> 0 \<and> value AND (value - 1) = 0"

definition POOL_PAGE_SIZE :: u64 where "POOL_PAGE_SIZE = 0x10000"
definition POOL_RESERVE_ALIGNMENT :: u64 where "POOL_RESERVE_ALIGNMENT = 0x200000"
definition POOL_COMMIT_ALIGNMENT :: u64 where "POOL_COMMIT_ALIGNMENT = 0x10000"

subsection \<open>Expanding and reserving\<close>

text \<open>\<open>phys_addr_out\<close> is the value written there; \<open>has_out\<close> says the pointer is not null.\<close>

definition KernelMemoryPoolExpand ::
  "'h kernel_env \<Rightarrow> u64 \<Rightarrow> u64 \<Rightarrow> u64 \<Rightarrow> u64 \<Rightarrow> bool \<Rightarrow> 'h kernel \<Rightarrow> (int \<times> u64 option \<times> 'h kernel) option" where
  "KernelMemoryPoolExpand env search_start search_end len alignment has_out k =
     (if is_negative search_start \<or> sint search_end \<le> sint search_start \<or> len = 0 \<or>
         len AND (POOL_PAGE_SIZE - 1) \<noteq> 0 \<or> \<not> has_out \<or>
         (alignment \<noteq> 0 \<and> (\<not> IsPowerOfTwo alignment \<or> alignment AND (POOL_PAGE_SIZE - 1) \<noteq> 0))
      then Some (KERNEL_ERROR_EINVAL, None, k)
      else if search_end - search_start < len then Some (KERNEL_ERROR_ENOMEM, None, k)
      else do {
        (phys_addr, pm) \<leftarrow> PhysicalMemory_Alloc (ke_flexible_size env) search_start search_end len
           (if alignment \<noteq> 0 then alignment else POOL_PAGE_SIZE) 0 True (km_physical k);
        case phys_addr of None \<Rightarrow> Some (KERNEL_ERROR_ENOMEM, None, k\<lparr>km_physical := pm\<rparr>)
        | Some phys \<Rightarrow> Some (OK, phys_addr,
            k\<lparr>km_physical := pm, km_pooled := PooledMemory_Expand phys len (km_pooled k)\<rparr>)
      })"

definition KernelMemoryPoolReserve ::
  "'h kernel_env \<Rightarrow> u64 \<Rightarrow> u64 \<Rightarrow> u64 \<Rightarrow> u32 \<Rightarrow> bool \<Rightarrow> 'h kernel \<Rightarrow> (int \<times> u64 option \<times> 'h kernel) option" where
  "KernelMemoryPoolReserve env addr_in len alignment flags has_out k =
     (if \<not> has_out \<or> len = 0 \<or> \<not> IsAligned len POOL_RESERVE_ALIGNMENT then Some (KERNEL_ERROR_EINVAL, None, k)
      else if alignment \<noteq> 0 \<and> (\<not> IsPowerOfTwo alignment \<or> \<not> IsAligned alignment POOL_RESERVE_ALIGNMENT)
      then Some (KERNEL_ERROR_EINVAL, None, k)
      else do {
        (ret, out_addr, k) \<leftarrow> KernelReserveVirtualRange env (Some addr_in) len flags
           (if alignment \<noteq> 0 then alignment else POOL_RESERVE_ALIGNMENT) k;
        case out_addr of None \<Rightarrow> Some (ret, None, k) | Some out_vaddr \<Rightarrow>
        if ret \<noteq> OK then Some (ret, None, k)
        else
          case VirtualRanges_Query (km_ranges k) out_vaddr 0 of
            None \<Rightarrow> Some (KERNEL_ERROR_EBUSY, None, k)
          | Some r \<Rightarrow>
              if r_start r \<noteq> out_vaddr \<or> r_size r \<noteq> len \<or> \<not> IsReservedRangeType (r_type r)
              then Some (KERNEL_ERROR_EBUSY, None, k)
              else
                let k = snd (ranges_remove out_vaddr len k);
                    (added, k) = ranges_add out_vaddr len 0 0 0 PoolReserved (Some (r_name r)) False k
                in if added then Some (OK, out_addr, k)
                   else Some (KERNEL_ERROR_EBUSY, None,
                     snd (ranges_add out_vaddr len (r_offset r) (r_protection r) (r_memory_type r) (r_type r)
                            (Some (r_name r)) False k))
      })"

subsection \<open>Committing\<close>

fun commit_mappings :: "'h kernel_env \<Rightarrow> vmode \<Rightarrow> pool_mapping list \<Rightarrow> pool_mapping list \<Rightarrow> 'h kernel \<Rightarrow>
   (bool \<times> pool_mapping list \<times> 'h kernel) option" where
  "commit_mappings env mode mapped [] k = Some (True, mapped, k)"
| "commit_mappings env mode mapped (m # ms) k = do {
     (good, k) \<leftarrow> space_map env (pl_vaddr m) (pl_size m) (pl_phys_addr m) mode k;
     if good then commit_mappings env mode (mapped @ [m]) ms k else Some (False, mapped, k)
   }"

definition commit_rollback :: "'h kernel_env \<Rightarrow> vmode \<Rightarrow> pool_mapping list \<Rightarrow> u64 \<Rightarrow> u64 \<Rightarrow> string \<Rightarrow> 'h kernel \<Rightarrow> 'h kernel option" where
  "commit_rollback env mode mapped vaddr len nm k = do {
     (unmapped, k) \<leftarrow> pooled_unmap env mapped mode k;
     require unmapped;
     let (released, k) = with_pooled (PooledMemory_Release vaddr len) k;
     require (released \<noteq> None);
     Some (snd (ranges_add vaddr len 0 0 0 PoolReserved (Some nm) False k))
   }"

definition KernelMemoryPoolCommit ::
  "'h kernel_env \<Rightarrow> u64 \<Rightarrow> u64 \<Rightarrow> i32 \<Rightarrow> i32 \<Rightarrow> 'h kernel \<Rightarrow> (int \<times> 'h kernel) option" where
  "KernelMemoryPoolCommit env vaddr len mtype prot k =
     (if vaddr = 0 \<or> len = 0 \<or> \<not> IsAligned len POOL_COMMIT_ALIGNMENT \<or> prot AND PROT_CPU_EXEC \<noteq> 0
      then Some (KERNEL_ERROR_EINVAL, k)
      else
        case DecodeMemoryProtection prot of None \<Rightarrow> Some (KERNEL_ERROR_EINVAL, k) | Some (mode, gpu_mode) \<Rightarrow>
        case VirtualRanges_Query (km_ranges k) vaddr 0 of None \<Rightarrow> Some (KERNEL_ERROR_EACCES, k) | Some old_range \<Rightarrow>
        if r_type old_range \<noteq> PoolReserved then Some (KERNEL_ERROR_EACCES, k)
        else
          let (consumed, k) = with_ranges (VirtualRanges_ConsumeReserved vaddr len PoolReserved) k
          in if \<not> consumed then Some (KERNEL_ERROR_EACCES, k)
             else
               let (mappings, k) = with_pooled (PooledMemory_Allocate vaddr len gpu_mode) k
               in case mappings of
                    None \<Rightarrow> Some (KERNEL_ERROR_ENOMEM,
                      snd (ranges_add vaddr len 0 0 0 PoolReserved (Some (r_name old_range)) False k))
                  | Some ms \<Rightarrow> do {
                      (good, mapped, k) \<leftarrow> commit_mappings env mode [] ms k;
                      if \<not> good then do {
                        k \<leftarrow> commit_rollback env mode mapped vaddr len (r_name old_range) k;
                        Some (KERNEL_ERROR_ENOMEM, k)
                      }
                      else
                        let (added, k) = ranges_add vaddr len 0 prot mtype Pooled (Some (r_name old_range)) False k
                        in if \<not> added then do {
                             k \<leftarrow> commit_rollback env mode mapped vaddr len (r_name old_range) k;
                             Some (KERNEL_ERROR_EBUSY, k)
                           }
                           else
                             let k = alloc_callback env vaddr len (MapGpuRange env vaddr len k)
                             in Some (OK, k\<lparr>km_committed := km_committed k + len\<rparr>)
                    })"

subsection \<open>Decommitting\<close>

definition decommit_in_range :: "'h kernel_env \<Rightarrow> vrange \<Rightarrow> u64 \<Rightarrow> u64 \<Rightarrow> 'h kernel \<Rightarrow> (int \<times> 'h kernel) option" where
  "decommit_in_range env old_range vaddr len k =
     (case PooledMemory_Query vaddr len (km_pooled k) of
        None \<Rightarrow> Some (KERNEL_ERROR_EACCES, k)
      | Some mappings \<Rightarrow>
          (case DecodeMemoryProtection (r_protection old_range) of
             None \<Rightarrow> Some (KERNEL_ERROR_EACCES, k)
           | Some (mode, _) \<Rightarrow> do {
               (unmapped, k) \<leftarrow> pooled_unmap env mappings mode k;
               require unmapped;
               let (released, k) = with_pooled (PooledMemory_Release vaddr len) k;
               require (released \<noteq> None);
               let k = snd (ranges_remove vaddr len k);
               let k = snd (ranges_add vaddr len 0 0 0 PoolReserved (Some (r_name old_range)) False k);
               Some (OK, MemoryPoolSubtractCommitted len (free_callback env vaddr len k))
             }))"

function DecommitMemoryPoolRange :: "'h kernel_env \<Rightarrow> u64 \<Rightarrow> u64 \<Rightarrow> 'h kernel \<Rightarrow> (int \<times> 'h kernel) option" where
  "DecommitMemoryPoolRange env vaddr len k =
     (case VirtualRanges_Query (km_ranges k) vaddr 0 of
        None \<Rightarrow> Some (KERNEL_ERROR_EACCES, k)
      | Some old_range \<Rightarrow>
          let chunk_len = chunk_in old_range vaddr len
          in if r_type old_range = PoolReserved
             then (if chunk_len < len then DecommitMemoryPoolRange env (vaddr + chunk_len) (len - chunk_len) k else Some (OK, k))
             else if r_type old_range \<noteq> Pooled then Some (KERNEL_ERROR_EACCES, k)
             else if chunk_len < len
             then (case DecommitMemoryPoolRange env vaddr chunk_len k of
                     None \<Rightarrow> None
                   | Some (ret, k) \<Rightarrow>
                       if ret = OK then DecommitMemoryPoolRange env (vaddr + chunk_len) (len - chunk_len) k
                       else Some (ret, k))
             else decommit_in_range env old_range vaddr len k)"
  by pat_completeness auto
termination
proof (relation "measure (\<lambda>(env, vaddr, len, k). unat len)", simp)
  fix env :: "'a kernel_env" and vaddr len :: u64 and k :: "'a kernel" and r c
  assume *: "VirtualRanges_Query (km_ranges k) vaddr 0 = Some r" "c = chunk_in r vaddr len" "c < len"
  then show "((env, vaddr + c, len - c, k), (env, vaddr, len, k)) \<in> measure (\<lambda>(env, vaddr, len, k). unat len)"
    using Query_chunk [of "km_ranges k" vaddr r len] by (simp add: unat_minus_u64 less_u64)
next
  fix env :: "'a kernel_env" and vaddr len :: u64 and k :: "'a kernel" and r c
  assume "c < len"
  then show "((env, vaddr, c, k), (env, vaddr, len, k)) \<in> measure (\<lambda>(env, vaddr, len, k). unat len)"
    by (simp add: less_u64)
next
  fix env :: "'a kernel_env" and vaddr len :: u64 and k k' :: "'a kernel" and r c and p :: "int \<times> 'a kernel" and ret
  assume *: "VirtualRanges_Query (km_ranges k) vaddr 0 = Some r" "c = chunk_in r vaddr len" "c < len"
  then show "((env, vaddr + c, len - c, k'), (env, vaddr, len, k)) \<in> measure (\<lambda>(env, vaddr, len, k). unat len)"
    using Query_chunk [of "km_ranges k" vaddr r len] by (simp add: unat_minus_u64 less_u64)
qed

declare DecommitMemoryPoolRange.simps [simp del]

text \<open>Every address of the request must be pooled or reserved for the pool.\<close>

function decommit_scan :: "virtual_ranges \<Rightarrow> u64 \<Rightarrow> u64 \<Rightarrow> bool" where
  "decommit_scan v finish scan =
     (if \<not> scan < finish then True
      else
        case VirtualRanges_Query v scan 0 of
          None \<Rightarrow> False
        | Some r \<Rightarrow>
            if r_type r \<noteq> Pooled \<and> r_type r \<noteq> PoolReserved then False
            else
              let nxt = min finish (r_start r + r_size r)
              in if nxt \<le> scan then False else decommit_scan v finish nxt)"
  by pat_completeness auto
termination
  by (relation "measure (\<lambda>(v, finish, scan). unat finish - unat scan)") (auto simp: less_u64 le_u64)

declare decommit_scan.simps [simp del]

definition KernelMemoryPoolDecommit :: "'h kernel_env \<Rightarrow> u64 \<Rightarrow> u64 \<Rightarrow> 'h kernel \<Rightarrow> (int \<times> 'h kernel) option" where
  "KernelMemoryPoolDecommit env vaddr len k =
     (if vaddr = 0 \<or> len = 0 \<or> \<not> IsAligned len POOL_COMMIT_ALIGNMENT then Some (KERNEL_ERROR_EINVAL, k)
      else if u64_max - vaddr < len then Some (KERNEL_ERROR_EINVAL, k)
      else if \<not> decommit_scan (km_ranges k) (vaddr + len) vaddr then Some (KERNEL_ERROR_EACCES, k)
      else do {
        (ret, k) \<leftarrow> DecommitMemoryPoolRange env vaddr len (UnmapGpuRange env vaddr len True k);
        Some (ret, if ret \<noteq> OK then RestoreGpuRangeProtection env vaddr len k else k)
      })"

subsection \<open>Batches\<close>

text \<open>
  An entry of \<open>KernelBatchMap2\<close>; the array and its length are a list. The result has the number of
  entries processed and the array, whose \<open>start\<close> fields the mapping operations overwrite. A negative
  count and a null array are the caller's \<open>None\<close>.
\<close>

record batch_entry =
  be_start :: u64
  be_offset :: u64
  be_length :: u64
  be_protection :: u8
  be_type :: u8
  be_operation :: int

definition batch_step :: "'h kernel_env \<Rightarrow> u32 \<Rightarrow> batch_entry \<Rightarrow> 'h kernel \<Rightarrow> (int \<times> batch_entry \<times> 'h kernel) option" where
  "batch_step env flags e k =
     (let prot = ucast (be_protection e) :: i32
      in if be_operation e = 0 then do {
           (ret, addr, k) \<leftarrow> KernelMapNamedDirectMemory env (Some (be_start e)) (be_length e) prot flags (be_offset e) 0
              (Some ''anon'') k;
           Some (ret, e\<lparr>be_start := the addr\<rparr>, k)
         }
         else if be_operation e = 1 then do {
           (ret, k) \<leftarrow> KernelMunmap env (be_start e) (be_length e) k;
           Some (ret, e, k)
         }
         else if be_operation e = 2 then do {
           (ret, k) \<leftarrow> KernelMprotect env (be_start e) (be_length e) prot k;
           Some (ret, e, k)
         }
         else if be_operation e = 3 then do {
           (ret, addr, k) \<leftarrow> KernelMapNamedFlexibleMemory env (Some (be_start e)) (be_length e) prot flags (Some ''anon'') k;
           Some (ret, e\<lparr>be_start := addr\<rparr>, k)
         }
         else do {
           (ret, k) \<leftarrow> KernelMtypeprotect env (be_start e) (be_length e) (ucast (be_type e)) prot k;
           Some (ret, e, k)
         })"

fun batch_loop :: "'h kernel_env \<Rightarrow> u32 \<Rightarrow> int \<Rightarrow> batch_entry list \<Rightarrow> batch_entry list \<Rightarrow> 'h kernel \<Rightarrow>
   (int \<times> int \<times> batch_entry list \<times> 'h kernel) option" where
  "batch_loop env flags processed before [] k = Some (OK, processed, before, k)"
| "batch_loop env flags processed before (e # es) k =
     (if be_length e = 0 \<or> be_operation e < 0 \<or> 4 < be_operation e
      then Some (KERNEL_ERROR_EINVAL, processed, before @ e # es, k)
      else do {
        (ret, e, k) \<leftarrow> batch_step env flags e k;
        if ret \<noteq> OK then Some (ret, processed, before @ e # es, k)
        else batch_loop env flags (processed + 1) (before @ [e]) es k
      })"

definition KernelBatchMap2 :: "'h kernel_env \<Rightarrow> batch_entry list option \<Rightarrow> u32 \<Rightarrow> 'h kernel \<Rightarrow>
   (int \<times> int option \<times> batch_entry list option \<times> 'h kernel) option" where
  "KernelBatchMap2 env entries flags k =
     (case entries of None \<Rightarrow> Some (KERNEL_ERROR_EINVAL, None, None, k)
      | Some es \<Rightarrow> do {
          (ret, processed, es, k) \<leftarrow> batch_loop env flags 0 [] es k;
          Some (ret, Some processed, Some es, k)
        })"

definition KernelBatchMap :: "'h kernel_env \<Rightarrow> batch_entry list option \<Rightarrow> 'h kernel \<Rightarrow>
   (int \<times> int option \<times> batch_entry list option \<times> 'h kernel) option" where
  "KernelBatchMap env entries = KernelBatchMap2 env entries GUEST_MAP_FIXED"

text \<open>An entry of \<open>KernelMemoryPoolBatch\<close>; the union's member is the one its operation names.\<close>

datatype pool_entry =
    PoolCommit u64 u64 u8 u8
  | PoolDecommit u64 u64
  | PoolProtect u64 u64 u8
  | PoolTypeProtect u64 u64 u8 u8
  | PoolOther

fun pool_batch_step :: "'h kernel_env \<Rightarrow> pool_entry \<Rightarrow> 'h kernel \<Rightarrow> (int \<times> 'h kernel) option" where
  "pool_batch_step env (PoolCommit addr len prot mtype) k = KernelMemoryPoolCommit env addr len (ucast mtype) (ucast prot) k"
| "pool_batch_step env (PoolDecommit addr len) k = KernelMemoryPoolDecommit env addr len k"
| "pool_batch_step env (PoolProtect addr len prot) k = KernelMprotect env addr len (ucast prot) k"
| "pool_batch_step env (PoolTypeProtect addr len prot mtype) k = KernelMtypeprotect env addr len (ucast mtype) (ucast prot) k"
| "pool_batch_step env PoolOther k = Some (KERNEL_ERROR_EINVAL, k)"

fun pool_batch_loop :: "'h kernel_env \<Rightarrow> int \<Rightarrow> pool_entry list \<Rightarrow> 'h kernel \<Rightarrow> (int \<times> int \<times> 'h kernel) option" where
  "pool_batch_loop env processed [] k = Some (OK, processed, k)"
| "pool_batch_loop env processed (e # es) k = do {
     (ret, k) \<leftarrow> pool_batch_step env e k;
     if ret \<noteq> OK then Some (ret, processed, k) else pool_batch_loop env (processed + 1) es k
   }"

definition KernelMemoryPoolBatch :: "'h kernel_env \<Rightarrow> pool_entry list option \<Rightarrow> 'h kernel \<Rightarrow> (int \<times> int option \<times> 'h kernel) option" where
  "KernelMemoryPoolBatch env entries k =
     (case entries of None \<Rightarrow> Some (KERNEL_ERROR_EINVAL, None, k)
      | Some es \<Rightarrow> do {
          (ret, processed, k) \<leftarrow> pool_batch_loop env 0 es k;
          Some (ret, Some processed, k)
        })"

end
