(* ===== verification/KernelQueries.thy ===== *)
theory KernelQueries
  imports KernelMemory
begin

text \<open>
  The functions of \<open>src/src/kernel/memory.cpp\<close> that read the tables or rename ranges: none of them
  changes what is mapped. Pointers for results are \<open>bool\<close>s that say whether they are not null.
\<close>

unbundle bit_operations_syntax

subsection \<open>Names\<close>

definition KernelSetVirtualRangeName :: "u64 \<Rightarrow> u64 \<Rightarrow> string option \<Rightarrow> 'h kernel \<Rightarrow> int \<times> 'h kernel" where
  "KernelSetVirtualRangeName vaddr len nm k =
     (if nm = None then (KERNEL_ERROR_EFAULT, k)
      else if KERNEL_MAXIMUM_NAME_LENGTH \<le> length (the nm) then (KERNEL_ERROR_ENAMETOOLONG, k)
      else (OK, k\<lparr>km_physical := PhysicalMemory_SetVirtualRangeName vaddr len nm (km_physical k),
                  km_flexible := FlexibleMemory_SetVirtualRangeName vaddr len nm (km_flexible k),
                  km_ranges := VirtualRanges_Rename vaddr len nm (km_ranges k)\<rparr>))"

definition KernelClearVirtualRangeName :: "u64 \<Rightarrow> u64 \<Rightarrow> 'h kernel \<Rightarrow> int \<times> 'h kernel" where
  "KernelClearVirtualRangeName vaddr len k =
     (OK, k\<lparr>km_physical := PhysicalMemory_SetVirtualRangeName vaddr len (Some '''') (km_physical k),
            km_flexible := FlexibleMemory_SetVirtualRangeName vaddr len (Some '''') (km_flexible k),
            km_ranges := VirtualRanges_Rename vaddr len (Some '''') (km_ranges k)\<rparr>)"

subsection \<open>Apertures of partially resident textures\<close>

definition PRT_APERTURE_MAX_INDEX :: int where "PRT_APERTURE_MAX_INDEX = 2"
definition PRT_PAGE_SIZE :: u64 where "PRT_PAGE_SIZE = 0x4000"
definition PRT_APERTURE_START :: u64 where "PRT_APERTURE_START = 0x0f00000000"
definition PRT_APERTURE_END :: u64 where "PRT_APERTURE_END = 0xfc00000000"

definition IsInPrtAperture :: "u64 \<Rightarrow> u64 \<Rightarrow> 'h kernel \<Rightarrow> bool" where
  "IsInPrtAperture address n k =
     (if n = 0 \<or> u64_max - address < n then False
      else list_ex (\<lambda>(a, m). a \<le> address \<and> address - a < m \<and> n \<le> m - (address - a)) (km_apertures k))"

definition KernelSetPrtAperture :: "'h kernel_env \<Rightarrow> int \<Rightarrow> u64 \<Rightarrow> u64 \<Rightarrow> 'h kernel \<Rightarrow> int \<times> 'h kernel" where
  "KernelSetPrtAperture env index address len k =
     (if index < 0 \<or> PRT_APERTURE_MAX_INDEX < index then (KERNEL_ERROR_EINVAL, k)
      else if len \<noteq> 0 \<and> (address = 0 \<or> address AND (PRT_PAGE_SIZE - 1) \<noteq> 0 \<or> len AND (PRT_PAGE_SIZE - 1) \<noteq> 0 \<or>
           address < PRT_APERTURE_START \<or> PRT_APERTURE_END - address < len)
      then (KERNEL_ERROR_EINVAL, k)
      else
        let (old_address, old_size) = km_apertures k ! nat index;
            k = (if old_size \<noteq> 0 then UnmapGpuRange env old_address old_size False k else k);
            k = k\<lparr>km_apertures := (km_apertures k)[nat index := if len = 0 then (0, 0) else (address, len)]\<rparr>
        in (OK, if len \<noteq> 0 then MapGpuRange env address len k else k))"

definition KernelGetPrtAperture :: "int \<Rightarrow> bool \<Rightarrow> 'h kernel \<Rightarrow> int \<times> (u64 \<times> u64) option" where
  "KernelGetPrtAperture index has_out k =
     (if index < 0 \<or> PRT_APERTURE_MAX_INDEX < index then (KERNEL_ERROR_EINVAL, None)
      else if \<not> has_out then (KERNEL_ERROR_EFAULT, None)
      else (OK, Some (km_apertures k ! nat index)))"

subsection \<open>Direct memory\<close>

definition KernelGetDirectMemorySize :: "'h kernel_env \<Rightarrow> u64 option" where
  "KernelGetDirectMemorySize env = PhysicalMemory_Size (ke_flexible_size env)"

text \<open>What is left in \<open>*phys_addr_out\<close> and \<open>*size_out\<close> comes with the result.\<close>

definition KernelAvailableDirectMemorySize ::
  "'h kernel_env \<Rightarrow> u64 \<Rightarrow> u64 \<Rightarrow> u64 \<Rightarrow> bool \<Rightarrow> 'h kernel \<Rightarrow> (int \<times> (u64 \<times> u64) option) option" where
  "KernelAvailableDirectMemorySize env search_start search_end alignment has_out k =
     (if \<not> has_out then Some (KERNEL_ERROR_EINVAL, None)
      else if is_negative search_start \<or> is_negative search_end then Some (KERNEL_ERROR_EINVAL, Some (0, 0))
      else if search_end \<le> search_start then Some (KERNEL_ERROR_ENOMEM, Some (0, 0))
      else do {
        found \<leftarrow> PhysicalMemory_Available (ke_flexible_size env) search_start search_end alignment (km_physical k);
        Some (case found of None \<Rightarrow> (KERNEL_ERROR_ENOMEM, Some (0, 0)) | Some best \<Rightarrow> (OK, Some best))
      })"

definition KernelAllocateDirectMemory ::
  "'h kernel_env \<Rightarrow> u64 \<Rightarrow> u64 \<Rightarrow> u64 \<Rightarrow> u64 \<Rightarrow> i32 \<Rightarrow> bool \<Rightarrow> 'h kernel \<Rightarrow> (int \<times> u64 option \<times> 'h kernel) option" where
  "KernelAllocateDirectMemory env search_start search_end len alignment memory_type has_out k =
     (if is_negative search_start \<or> sint search_end \<le> sint search_start \<or> len = 0 \<or> page_unaligned len \<or>
         (alignment \<noteq> 0 \<and> page_unaligned alignment) \<or> \<not> has_out
      then Some (KERNEL_ERROR_EINVAL, None, k)
      else do {
        (addr, pm) \<leftarrow> PhysicalMemory_Alloc (ke_flexible_size env) search_start search_end len alignment memory_type False
           (km_physical k);
        Some (if addr = None then KERNEL_ERROR_EAGAIN else OK, addr, k\<lparr>km_physical := pm\<rparr>)
      })"

definition KernelAllocateMainDirectMemory ::
  "'h kernel_env \<Rightarrow> u64 \<Rightarrow> u64 \<Rightarrow> i32 \<Rightarrow> bool \<Rightarrow> 'h kernel \<Rightarrow> (int \<times> u64 option \<times> 'h kernel) option" where
  "KernelAllocateMainDirectMemory env len alignment memory_type has_out k = do {
     direct_size \<leftarrow> PhysicalMemory_Size (ke_flexible_size env);
     KernelAllocateDirectMemory env 0 direct_size len alignment memory_type has_out k
   }"

text \<open>The end of a run of blocks with the same memory type.\<close>

fun same_type_end :: "i32 \<Rightarrow> u64 \<Rightarrow> phys_block list \<Rightarrow> u64" where
  "same_type_end t e [] = e"
| "same_type_end t e (b # bs) =
     (if pb_start_addr b = e \<and> pb_memory_type b = t then same_type_end t (e + pb_size b) bs else e)"

definition KernelDirectMemoryQuery ::
  "'h kernel_env \<Rightarrow> u64 \<Rightarrow> i32 \<Rightarrow> bool \<Rightarrow> u64 \<Rightarrow> 'h kernel \<Rightarrow> (int \<times> (u64 \<times> u64 \<times> i32) option) option" where
  "KernelDirectMemoryQuery env offset flags has_info info_size k =
     (if is_negative offset \<or> (flags \<noteq> 0 \<and> flags \<noteq> 1) \<or> info_size \<noteq> 24 \<or> \<not> has_info
      then Some (KERNEL_ERROR_EINVAL, None)
      else
        let (before, following) = om_upper offset (pm_physical (km_physical k));
            at = (if before \<noteq> [] \<and> offset < pb_start_addr (snd (last before)) + pb_size (snd (last before))
                  then last before # following else following)
        in if at = [] \<or> (flags = 0 \<and> (offset < pb_start_addr (snd (hd at)) \<or>
               pb_start_addr (snd (hd at)) + pb_size (snd (hd at)) \<le> offset))
           then do {
             direct_size \<leftarrow> PhysicalMemory_Size (ke_flexible_size env);
             Some (if flags = 1 \<and> offset < direct_size then (OK, Some (direct_size, direct_size, 0))
                   else (KERNEL_ERROR_EACCES, None))
           }
           else
             let b = snd (hd at)
             in Some (OK, Some (pb_start_addr b,
                  same_type_end (pb_memory_type b) (pb_start_addr b + pb_size b) (map snd (tl at)), pb_memory_type b)))"

subsection \<open>Virtual ranges\<close>

definition KernelQueryMemoryProtection :: "u64 \<Rightarrow> 'h kernel \<Rightarrow> (int \<times> (u64 \<times> u64 \<times> i32) option) option" where
  "KernelQueryMemoryProtection vaddr k =
     (if vaddr = 0 then None
      else
        case VirtualRanges_Query (km_ranges k) vaddr 0 of
          None \<Rightarrow> Some (KERNEL_ERROR_EACCES, None)
        | Some r \<Rightarrow> Some (OK, Some (r_start r, r_start r + r_size r, r_protection r)))"

record virtual_query_info =
  vq_start :: u64
  vq_end :: u64
  vq_offset :: u64
  vq_protection :: i32
  vq_memory_type :: i32
  vq_is_flexible :: bool
  vq_is_direct :: bool
  vq_is_stack :: bool
  vq_is_pooled :: bool
  vq_is_committed :: bool
  vq_is_gpu_prt :: bool
  vq_name :: string

definition KernelVirtualQuery :: "u64 \<Rightarrow> i32 \<Rightarrow> bool \<Rightarrow> u64 \<Rightarrow> 'h kernel \<Rightarrow> int \<times> virtual_query_info option" where
  "KernelVirtualQuery vaddr flags has_info info_size k =
     (if \<not> has_info \<or> info_size \<noteq> 72 \<or> (flags \<noteq> 0 \<and> flags \<noteq> 1) then (KERNEL_ERROR_EINVAL, None)
      else
        case VirtualRanges_Query (km_ranges k) vaddr flags of
          None \<Rightarrow> (KERNEL_ERROR_EACCES, None)
        | Some r \<Rightarrow> (OK, Some \<lparr>vq_start = r_start r, vq_end = r_start r + r_size r, vq_offset = r_offset r,
             vq_protection = r_protection r, vq_memory_type = r_memory_type r, vq_is_flexible = (r_type r = Flexible),
             vq_is_direct = (r_type r = Direct), vq_is_stack = (r_type r = Stack),
             vq_is_pooled = IsPooledRangeType (r_type r), vq_is_committed = IsCommittedRangeType (r_type r),
             vq_is_gpu_prt = IsInPrtAperture vaddr 1 k, vq_name = CopyVirtualRangeName (Some (r_name r))\<rparr>))"

definition KernelIsStack :: "u64 \<Rightarrow> 'h kernel \<Rightarrow> int \<times> (u64 \<times> u64) option" where
  "KernelIsStack vaddr k =
     (case VirtualRanges_Query (km_ranges k) vaddr 0 of
        None \<Rightarrow> (KERNEL_ERROR_EACCES, None)
      | Some r \<Rightarrow> (OK, Some (if r_type r = Stack then (r_start r, r_start r + r_size r) else (0, 0))))"

subsection \<open>Totals\<close>

definition KernelAvailableFlexibleMemorySize :: "'h kernel_env \<Rightarrow> bool \<Rightarrow> 'h kernel \<Rightarrow> int \<times> u64 option" where
  "KernelAvailableFlexibleMemorySize env has_out k =
     (if \<not> has_out then (KERNEL_ERROR_EINVAL, None)
      else (OK, Some (FlexibleMemory_Available (ke_flexible_size env) (km_flexible k))))"

definition KernelConfiguredFlexibleMemorySize :: "'h kernel_env \<Rightarrow> bool \<Rightarrow> int \<times> u64 option" where
  "KernelConfiguredFlexibleMemorySize env has_out =
     (if \<not> has_out then (KERNEL_ERROR_EINVAL, None) else (OK, Some (ke_flexible_size env)))"

text \<open>\<open>PAGE_TABLE_POOL_SIZE / PAGE_TABLE_GRANULARITY\<close>.\<close>

definition PAGE_TABLE_POOL_ENTRIES :: u64 where "PAGE_TABLE_POOL_ENTRIES = 2048"

text \<open>Total and free entries for the CPU, then for the GPU.\<close>

definition KernelGetPageTableStats :: "bool \<Rightarrow> 'h kernel \<Rightarrow> int \<times> (int \<times> int \<times> int \<times> int) option" where
  "KernelGetPageTableStats has_out k =
     (if \<not> has_out then (KERNEL_ERROR_EFAULT, None)
      else
        let total = uint PAGE_TABLE_POOL_ENTRIES;
            free = (\<lambda>used. total - uint (min used PAGE_TABLE_POOL_ENTRIES))
        in (OK, Some (total, free (VirtualRanges_CountPageTableEntries (km_ranges k) False),
              total, free (VirtualRanges_CountPageTableEntries (km_ranges k) True))))"

text \<open>
  Available and committed blocks, cast to \<open>int32_t\<close>. \<open>copy_size\<close> is how many bytes of the four
  numbers reach the output.
\<close>

definition KernelMemoryPoolGetBlockStats :: "bool \<Rightarrow> u64 \<Rightarrow> 'h kernel \<Rightarrow> int \<times> (i32 list \<times> u64) option" where
  "KernelMemoryPoolGetBlockStats has_output output_size k =
     (if \<not> has_output \<and> output_size \<noteq> 0 then (KERNEL_ERROR_EFAULT, None)
      else (OK, Some ([ucast (PooledMemory_Available (km_pooled k) div 0x10000), 0, ucast (km_committed k div 0x10000), 0],
             min output_size 16)))"

end
