(* ===== verification/KernelExamples.thy ===== *)
theory KernelExamples
  imports KernelPool KernelQueries
begin

text \<open>
  The kernel's memory after start-up on a host whose calls succeed, for the witnesses, and three
  behaviours of the exported functions that look unintended.
\<close>

definition demo_env :: "unit kernel_env" where
  "demo_env = \<lparr>ke_host = friendly_host, ke_flexible_size = 0x40000000, ke_gpu = False, ke_callbacks = False,
     ke_notify = (\<lambda>_ h. h)\<rparr>"

definition demo_kernel :: "unit kernel" where
  "demo_kernel = the (Memory_Initialize demo_env [(0x50000, 0x60000)] True 0 ())"

lemma demo_kernel_new: "Memory_Initialize demo_env [(0x50000, 0x60000)] True 0 () = Some demo_kernel"
proof -
  have "Memory_Initialize demo_env [(0x50000, 0x60000)] True 0 () \<noteq> None" by code_simp
  then show ?thesis unfolding demo_kernel_def by auto
qed

text \<open>Start and size of the virtual ranges.\<close>

definition range_spans :: "'h kernel \<Rightarrow> (u64 \<times> u64) list" where
  "range_spans k = map (\<lambda>r. (r_start r, r_size r)) (m_ranges (km_ranges k))"

text \<open>
  \<open>KernelReserveVirtualRange\<close> does not refuse a fixed range that wraps around the end of the address
  space: it succeeds, and takes every range above its start out of the virtual ranges, here a direct
  mapping, whose memory stays mapped.
\<close>

lemma wrapping_reservation_forgets_mappings:
  "do { (_, phys, k) \<leftarrow> KernelAllocateDirectMemory demo_env 0 0x100000 0x8000 0 0 True demo_kernel;
        (_, _, k) \<leftarrow> KernelMapDirectMemory demo_env (Some 0x300000000) 0x8000 3 GUEST_MAP_FIXED (the phys) 0 k;
        (ret, addr, k') \<leftarrow> KernelReserveVirtualRange demo_env (Some 0x280000000) 0xffffffff00000000 GUEST_MAP_FIXED 0 k;
        Some (range_spans k, ret, addr, range_spans k', Backing_Contains 0x300000000 0x8000 (gs_backing (km_space k'))) } =
   Some ([(0x300000000, 0x8000)], OK, Some 0x280000000, [(0x280000000, 0xffffffff00000000)], True)"
  by code_simp

text \<open>
  Renaming a part of a direct mapping splits its virtual range but not the mapping, so a later release
  of the memory finds a mapping that is not inside one range, and the emulator exits.
\<close>

lemma rename_makes_release_exit:
  "do { (_, phys, k) \<leftarrow> KernelAllocateDirectMemory demo_env 0 0x100000 0x8000 0 0 True demo_kernel;
        (_, _, k) \<leftarrow> KernelMapDirectMemory demo_env (Some 0x300000000) 0x8000 3 GUEST_MAP_FIXED (the phys) 0 k;
        let (ret, k') = KernelSetVirtualRangeName 0x300000000 0x4000 (Some ''x'') k;
        Some (KernelReleaseDirectMemory demo_env (the phys) 0x8000 k = None, ret,
              KernelReleaseDirectMemory demo_env (the phys) 0x8000 k' = None) } =
   Some (False, OK, True)"
  by code_simp

text \<open>
  A pool reservation next to another reservation is merged with it, so the check of its size fails:
  the caller gets an error, and the range stays reserved.
\<close>

lemma pool_reservation_leaks:
  "do { (_, _, k) \<leftarrow> KernelReserveVirtualRange demo_env (Some 0x300000000) 0x200000 GUEST_MAP_FIXED 0 demo_kernel;
        (ret, addr, k') \<leftarrow> KernelMemoryPoolReserve demo_env 0x300200000 0x200000 0 GUEST_MAP_FIXED True k;
        Some (range_spans k, ret, addr, range_spans k') } =
   Some ([(0x300000000, 0x200000)], KERNEL_ERROR_EBUSY, None, [(0x300000000, 0x400000)])"
  by code_simp

end
