(* ===== verification/Mutex.thy ===== *)
theory Mutex
  imports Prelude Errno Runs
begin

text \<open>
  The mutexes of \<open>src/src/kernel/pthread.cpp\<close>: \<open>PthreadMutexPrivate\<close>, its attributes, the native
  locking functions and the error codes of the exported ones. A blocking lock is one operation for
  its entry, one for every further test of its loop and one for every wake-up; each runs under the
  mutex \<open>m\<close> of the object. Times are nanoseconds of the steady clock.
\<close>

type_synonym pthread = nat

record mutex =
  mx_name :: string
  mx_owner :: "pthread option"
  mx_count :: u32
  mx_type :: int
  mx_pprotocol :: int

record mutexattr =
  ma_pprotocol :: int
  ma_type :: int

text \<open>
  Error numbers of the host, with the values of Linux; the code only compares them with each other.
\<close>

definition EPERM :: int where "EPERM = 1"
definition EAGAIN :: int where "EAGAIN = 11"
definition ENOMEM :: int where "ENOMEM = 12"
definition EBUSY :: int where "EBUSY = 16"
definition EINVAL :: int where "EINVAL = 22"
definition EDEADLK :: int where "EDEADLK = 35"
definition ETIMEDOUT :: int where "ETIMEDOUT = 110"

lemmas host_errno_defs = EPERM_def EAGAIN_def ENOMEM_def EBUSY_def EINVAL_def EDEADLK_def ETIMEDOUT_def

abbreviation KERNEL_PTHREAD_MUTEX_ERRORCHECK :: int where "KERNEL_PTHREAD_MUTEX_ERRORCHECK \<equiv> 1"
abbreviation KERNEL_PTHREAD_MUTEX_RECURSIVE :: int where "KERNEL_PTHREAD_MUTEX_RECURSIVE \<equiv> 2"
abbreviation KERNEL_PTHREAD_MUTEX_NORMAL :: int where "KERNEL_PTHREAD_MUTEX_NORMAL \<equiv> 3"
abbreviation KERNEL_PTHREAD_MUTEX_ADAPTIVE :: int where "KERNEL_PTHREAD_MUTEX_ADAPTIVE \<equiv> 4"

definition SIGNAL_APC_POLL_MICROS :: nat where "SIGNAL_APC_POLL_MICROS = 10000"


subsection \<open>Blocking operations\<close>

text \<open>
  What one critical section of a blocking function ends in: the function returned, or it sleeps on
  the condition variable for at most the given time, or it leaves the critical section to dispatch
  pending signals and comes back to the head of its loop.
\<close>

datatype lock_step = Returned int | WaitFor nat | Dispatch

text \<open>The sleep of a polling loop with a deadline, at the time \<open>now\<close> before it.\<close>

definition poll_interval :: "nat option \<Rightarrow> nat \<Rightarrow> nat" where
  "poll_interval deadline now =
     (case deadline of
        None \<Rightarrow> SIGNAL_APC_POLL_MICROS * 1000
      | Some d \<Rightarrow>
          (if d - now < SIGNAL_APC_POLL_MICROS * 1000 then d - now else SIGNAL_APC_POLL_MICROS * 1000))"

definition micros_after :: "nat \<Rightarrow> u32 \<Rightarrow> nat" where
  "micros_after now us = now + unat us * 1000"


subsection \<open>The native mutex\<close>

definition mutex_take :: "pthread \<Rightarrow> mutex \<Rightarrow> lock_step \<times> mutex" where
  "mutex_take self m = (Returned OK, m\<lparr>mx_owner := Some self, mx_count := 1\<rparr>)"

definition NativeMutexLock_test :: "pthread \<Rightarrow> nat option \<Rightarrow> nat \<Rightarrow> mutex \<Rightarrow> lock_step \<times> mutex" where
  "NativeMutexLock_test self deadline now m =
     (if mx_owner m = None then mutex_take self m
      else
        case deadline of
          None \<Rightarrow> (WaitFor (poll_interval deadline now), m)
        | Some d \<Rightarrow> (if d \<le> now then (Returned ETIMEDOUT, m) else (WaitFor (poll_interval deadline now), m)))"

definition NativeMutexLock_wake :: "pthread \<Rightarrow> mutex \<Rightarrow> lock_step \<times> mutex" where
  "NativeMutexLock_wake self m = (if mx_owner m = None then mutex_take self m else (Dispatch, m))"

definition NativeMutexLock_deadline :: "u32 option \<Rightarrow> nat \<Rightarrow> nat option" where
  "NativeMutexLock_deadline timeout now = map_option (micros_after now) timeout"

text \<open>
  A thread that owns a mutex that is not recursive and locks it with a time-out sleeps before it
  gives up; nothing depends on what happens in the meantime.
\<close>

definition NativeMutexLock :: "pthread \<Rightarrow> u32 option \<Rightarrow> nat \<Rightarrow> mutex \<Rightarrow> lock_step \<times> mutex" where
  "NativeMutexLock self timeout now m =
     (if mx_owner m = Some self
      then
        (if mx_type m = 2
         then
           (if mx_count m = u32_max then (Returned EAGAIN, m)
            else (Returned OK, m\<lparr>mx_count := mx_count m + 1\<rparr>))
         else (if timeout \<noteq> None then (Returned ETIMEDOUT, m) else (Returned EDEADLK, m)))
      else if timeout = Some 0
      then (if mx_owner m \<noteq> None then (Returned ETIMEDOUT, m) else mutex_take self m)
      else NativeMutexLock_test self (NativeMutexLock_deadline timeout now) now m)"

definition NativeMutexTrylock :: "pthread \<Rightarrow> mutex \<Rightarrow> int \<times> mutex" where
  "NativeMutexTrylock self m =
     (if mx_owner m = Some self
      then
        (if mx_type m = 2
         then (if mx_count m = u32_max then (EAGAIN, m) else (OK, m\<lparr>mx_count := mx_count m + 1\<rparr>))
         else (EBUSY, m))
      else if mx_owner m \<noteq> None then (EBUSY, m)
      else (OK, m\<lparr>mx_owner := Some self, mx_count := 1\<rparr>))"

text \<open>\<open>recurse\<close> is the value \<open>*recurse\<close>, \<open>None\<close> for a null pointer.\<close>

definition NativeMutexUnlock :: "pthread \<Rightarrow> u32 option \<Rightarrow> mutex \<Rightarrow> int \<times> u32 option \<times> mutex" where
  "NativeMutexUnlock self recurse m =
     (if mx_owner m \<noteq> Some self then (EPERM, recurse, m)
      else
        let recurse' = (if recurse \<noteq> None then Some (mx_count m) else None);
            m' = (if recurse \<noteq> None then m\<lparr>mx_count := 1\<rparr> else m)
        in
          if mx_type m' = 2 \<and> 1 < mx_count m'
          then (OK, recurse', m'\<lparr>mx_count := mx_count m' - 1\<rparr>)
          else (OK, recurse', m'\<lparr>mx_owner := None, mx_count := 0\<rparr>))"

text \<open>
  \<open>NativeMutexLockRecurse\<close> sets the count in a critical section of its own; between the two the
  mutex is owned, so no other thread changes it.
\<close>

definition NativeMutexLockRecurse_finish :: "u32 \<Rightarrow> lock_step \<times> mutex \<Rightarrow> lock_step \<times> mutex" where
  "NativeMutexLockRecurse_finish recurse p =
     (if fst p = Returned OK then (Returned OK, (snd p)\<lparr>mx_count := max recurse 1\<rparr>) else p)"

definition NativeMutexLockRecurse :: "pthread \<Rightarrow> u32 \<Rightarrow> nat \<Rightarrow> mutex \<Rightarrow> lock_step \<times> mutex" where
  "NativeMutexLockRecurse self recurse now m =
     NativeMutexLockRecurse_finish recurse (NativeMutexLock self None now m)"

definition NativeMutexLockRecurse_test :: "pthread \<Rightarrow> u32 \<Rightarrow> nat \<Rightarrow> mutex \<Rightarrow> lock_step \<times> mutex" where
  "NativeMutexLockRecurse_test self recurse now m =
     NativeMutexLockRecurse_finish recurse (NativeMutexLock_test self None now m)"

definition NativeMutexLockRecurse_wake :: "pthread \<Rightarrow> u32 \<Rightarrow> mutex \<Rightarrow> lock_step \<times> mutex" where
  "NativeMutexLockRecurse_wake self recurse m =
     NativeMutexLockRecurse_finish recurse (NativeMutexLock_wake self m)"


subsection \<open>Attributes, creation and destruction\<close>

text \<open>\<open>None\<close> where the source exits. \<open>host\<close> is the result of the host's function.\<close>

definition PthreadMutexattrSettype :: "int \<Rightarrow> int \<Rightarrow> mutexattr \<Rightarrow> int \<times> mutexattr" where
  "PthreadMutexattrSettype ty host a =
     (if ty \<notin> {KERNEL_PTHREAD_MUTEX_ERRORCHECK, KERNEL_PTHREAD_MUTEX_RECURSIVE,
                KERNEL_PTHREAD_MUTEX_NORMAL, KERNEL_PTHREAD_MUTEX_ADAPTIVE}
      then (KERNEL_ERROR_EINVAL, a)
      else if host = 0 then (OK, a\<lparr>ma_type := ty\<rparr>)
      else (KERNEL_ERROR_EINVAL, a))"

definition PthreadMutexattrSetprotocol :: "int \<Rightarrow> mutexattr \<Rightarrow> (int \<times> mutexattr) option" where
  "PthreadMutexattrSetprotocol protocol a =
     (if protocol \<in> {0, 1, 2} then Some (OK, a\<lparr>ma_pprotocol := protocol\<rparr>) else None)"

definition PthreadMutexattrInit :: "int \<Rightarrow> int \<Rightarrow> (int \<times> mutexattr) option" where
  "PthreadMutexattrInit host_init host_settype =
     (let a = \<lparr>ma_pprotocol = 0, ma_type = 0\<rparr>;
          (r1, a1) = (if host_init = 0 then PthreadMutexattrSettype 1 host_settype a else (host_init, a))
      in
        case (if r1 = 0 then PthreadMutexattrSetprotocol 0 a1 else Some (r1, a1)) of
          None \<Rightarrow> None
        | Some (r, a2) \<Rightarrow>
            Some (if r = 0 then OK else if r = ENOMEM then KERNEL_ERROR_ENOMEM else KERNEL_ERROR_EINVAL, a2))"

definition PthreadMutexattrDestroy :: "int \<Rightarrow> int" where
  "PthreadMutexattrDestroy host =
     (if host = 0 then OK else if host = ENOMEM then KERNEL_ERROR_ENOMEM else KERNEL_ERROR_EINVAL)"

text \<open>
  The object that \<open>PthreadMutexInitNamed\<close> makes. A statically initialised mutex gets attributes of
  its own; \<open>attr\<close> is the caller's or the default.
\<close>

definition PthreadMutexInitNamed :: "mutexattr \<Rightarrow> string \<Rightarrow> int \<Rightarrow> int \<Rightarrow> mutex option" where
  "PthreadMutexInitNamed attr name static_type host =
     map_option (\<lambda>a. \<lparr>mx_name = name, mx_owner = None, mx_count = 0, mx_type = ma_type a, mx_pprotocol = ma_pprotocol a\<rparr>)
       (if static_type \<noteq> 0
        then map_option snd
               (PthreadMutexattrSetprotocol 0
                 (snd (PthreadMutexattrSettype static_type host \<lparr>ma_pprotocol = 0, ma_type = 0\<rparr>)))
        else Some attr)"

definition PthreadMutexDestroy :: "mutex \<Rightarrow> int" where
  "PthreadMutexDestroy m = (if mx_owner m = None then OK else KERNEL_ERROR_EBUSY)"


subsection \<open>The error codes of the exported functions\<close>

definition PthreadMutexLock_result :: "int \<Rightarrow> int" where
  "PthreadMutexLock_result r =
     (if r = 0 then OK
      else if r = EAGAIN then KERNEL_ERROR_EAGAIN
      else if r = EINVAL then KERNEL_ERROR_EINVAL
      else if r = EDEADLK then KERNEL_ERROR_EDEADLK
      else KERNEL_ERROR_EINVAL)"

definition PthreadMutexTrylock_result :: "int \<Rightarrow> int" where
  "PthreadMutexTrylock_result r =
     (if r = 0 then OK
      else if r = EAGAIN then KERNEL_ERROR_EAGAIN
      else if r = EBUSY then KERNEL_ERROR_EBUSY
      else KERNEL_ERROR_EINVAL)"

definition PthreadMutexTimedlock_result :: "int \<Rightarrow> int" where
  "PthreadMutexTimedlock_result r =
     (if r = 0 then OK
      else if r = ETIMEDOUT then KERNEL_ERROR_ETIMEDOUT
      else if r = EAGAIN then KERNEL_ERROR_EAGAIN
      else if r = EDEADLK then KERNEL_ERROR_EDEADLK
      else KERNEL_ERROR_EINVAL)"

definition PthreadMutexUnlock_result :: "int \<Rightarrow> int" where
  "PthreadMutexUnlock_result r =
     (if r = 0 then OK
      else if r = EINVAL then KERNEL_ERROR_EINVAL
      else if r = EPERM then KERNEL_ERROR_EPERM
      else KERNEL_ERROR_EINVAL)"

end
