(* ===== verification/Cond.thy ===== *)
theory Cond
  imports Mutex KernelTime
begin

text \<open>
  The condition variables of \<open>src/src/kernel/pthread.cpp\<close>: the list of waiters of
  \<open>PthreadCondPrivate\<close>, the sequence numbers that tell a waiter it was signalled or broadcast, and
  the waits, which release a mutex and take it again. The fields of \<open>PthreadPrivate\<close> they use are
  \<open>thread_wait\<close>. A wait is one operation for its entry, one for every test of its loop and one for
  every wake-up, and then the steps of \<open>NativeMutexLockRecurse\<close>.
\<close>

subsection \<open>Condition variables and their waiters\<close>

type_synonym cond_ptr = u64

record cond =
  cn_name :: string
  cn_sequence :: u64
  cn_clock_id :: int
  cn_waiters :: "pthread list"

record thread_wait =
  tw_cond_sequence :: u64
  tw_waiting_cond :: "cond_ptr option"

type_synonym threads = "pthread \<Rightarrow> thread_wait"

definition set_waiting :: "cond_ptr option \<Rightarrow> pthread \<Rightarrow> threads \<Rightarrow> threads" where
  "set_waiting c t ths = ths(t := (ths t)\<lparr>tw_waiting_cond := c\<rparr>)"

text \<open>\<open>if (thread->waiting_cond == cond) thread->waiting_cond = nullptr;\<close>\<close>

definition stop_waiting :: "cond_ptr \<Rightarrow> pthread \<Rightarrow> threads \<Rightarrow> threads" where
  "stop_waiting c t ths = (if tw_waiting_cond (ths t) = Some c then set_waiting None t ths else ths)"

definition CondAddWaiter :: "cond_ptr \<Rightarrow> pthread \<Rightarrow> cond \<times> threads \<Rightarrow> cond \<times> threads" where
  "CondAddWaiter c t = (\<lambda>(cd, ths). (cd\<lparr>cn_waiters := cn_waiters cd @ [t]\<rparr>, set_waiting (Some c) t ths))"

definition CondRemoveWaiter :: "cond_ptr \<Rightarrow> pthread \<Rightarrow> cond \<times> threads \<Rightarrow> bool \<times> cond \<times> threads" where
  "CondRemoveWaiter c t =
     (\<lambda>(cd, ths).
        if t \<notin> set (cn_waiters cd) then (False, cd, ths)
        else (True, cd\<lparr>cn_waiters := remove1 t (cn_waiters cd)\<rparr>, stop_waiting c t ths))"

text \<open>\<open>t\<close> is \<open>None\<close> for a null pointer: the first waiter.\<close>

definition CondWakeWaiter :: "cond_ptr \<Rightarrow> pthread option \<Rightarrow> cond \<times> threads \<Rightarrow> bool \<times> cond \<times> threads" where
  "CondWakeWaiter c t =
     (\<lambda>(cd, ths).
        case (if t = None then (if cn_waiters cd = [] then None else Some (hd (cn_waiters cd))) else t) of
          None \<Rightarrow> (False, cd, ths)
        | Some u \<Rightarrow>
            if u \<notin> set (cn_waiters cd) then (False, cd, ths)
            else
              let ths' = stop_waiting c u ths
              in (True, cd\<lparr>cn_waiters := remove1 u (cn_waiters cd)\<rparr>,
                  ths'(u := (ths' u)\<lparr>tw_cond_sequence := tw_cond_sequence (ths' u) + 1\<rparr>)))"

definition CondClearWaiters :: "cond_ptr \<Rightarrow> cond \<times> threads \<Rightarrow> cond \<times> threads" where
  "CondClearWaiters c =
     (\<lambda>(cd, ths). (cd\<lparr>cn_waiters := []\<rparr>, fold (stop_waiting c) (cn_waiters cd) ths))"

definition PthreadCondInitNamed :: "int \<Rightarrow> string \<Rightarrow> cond" where
  "PthreadCondInitNamed attr_clock_id name =
     \<lparr>cn_name = name, cn_sequence = 0, cn_clock_id = attr_clock_id, cn_waiters = []\<rparr>"

text \<open>
  The critical sections of the signalling functions; they always return \<open>OK\<close>. The first component
  says whether \<open>cv.notify_all\<close> follows.
\<close>

definition PthreadCondBroadcast :: "cond_ptr \<Rightarrow> cond \<times> threads \<Rightarrow> bool \<times> cond \<times> threads" where
  "PthreadCondBroadcast c =
     (\<lambda>(cd, ths).
        if cn_waiters cd \<noteq> []
        then (True, CondClearWaiters c (cd\<lparr>cn_sequence := cn_sequence cd + 1\<rparr>, ths))
        else (False, cd, ths))"

definition PthreadCondSignal :: "cond_ptr \<Rightarrow> cond \<times> threads \<Rightarrow> bool \<times> cond \<times> threads" where
  "PthreadCondSignal c = CondWakeWaiter c None"

definition PthreadCondSignalto :: "cond_ptr \<Rightarrow> pthread \<Rightarrow> cond \<times> threads \<Rightarrow> bool \<times> cond \<times> threads" where
  "PthreadCondSignalto c t = CondWakeWaiter c (Some t)"

text \<open>The condition variable to notify when a signal is pending for a thread.\<close>

definition PthreadWakeForSignal :: "pthread option \<Rightarrow> threads \<Rightarrow> cond_ptr option" where
  "PthreadWakeForSignal t ths = (case t of None \<Rightarrow> None | Some u \<Rightarrow> tw_waiting_cond (ths u))"


subsection \<open>Waiting\<close>

text \<open>
  \<open>NativeCondDeadlineFromAbs\<close>: the steady-clock time, in nanoseconds, that an absolute time stands
  for. \<open>clock\<close> is what \<open>NativeClockGettime\<close> answers for the clock of the condition variable and
  \<open>now\<close> the steady clock. The outer \<open>None\<close> is a signed overflow of the 64-bit nanoseconds; a
  deadline before the start of the clock has passed like any other.
\<close>

definition NativeCondDeadlineFromAbs :: "kernel_timespec option \<Rightarrow> kernel_timespec option \<Rightarrow> nat \<Rightarrow> nat option option" where
  "NativeCondDeadlineFromAbs abstime clock now =
     (case abstime of
        None \<Rightarrow> Some None
      | Some a \<Rightarrow>
          if tv_sec a < 0 \<or> tv_nsec a < 0 \<or> 1000000000 \<le> tv_nsec a then Some None
          else
            case clock of
              None \<Rightarrow> Some None
            | Some n \<Rightarrow>
                let sec = tv_sec a - tv_sec n;
                    nsec = tv_nsec a - tv_nsec n;
                    delta = sec * 1000000000 + nsec
                in
                  if \<not> i64_range sec \<or> \<not> i64_range nsec \<or> \<not> i64_range (sec * 1000000000) \<or>
                     \<not> i64_range delta \<or> \<not> i64_range (int now + delta)
                  then None
                  else Some (Some (nat (int now + delta))))"

text \<open>The local variables of a wait: the sequence numbers it captured, its deadline and the saved count.\<close>

record cond_wait =
  cw_sequence :: u64
  cw_thread_sequence :: u64
  cw_deadline :: "nat option"
  cw_recurse :: u32

record monitor =
  mo_mutex :: mutex
  mo_cond :: cond
  mo_threads :: threads

text \<open>
  What a critical section of a wait ends in: the function returned a kernel error number, it is
  still waiting, or the wait is over with a result and the mutex has to be taken again.
\<close>

datatype wait_step =
    WaitReturned int
  | Waiting cond_wait nat
  | WaitDispatch cond_wait
  | Relock int u32

definition cond_ready :: "cond_wait \<Rightarrow> pthread \<Rightarrow> monitor \<Rightarrow> bool" where
  "cond_ready w t s \<longleftrightarrow> cn_sequence (mo_cond s) \<noteq> cw_sequence w \<or>
     tw_cond_sequence (mo_threads s t) \<noteq> cw_thread_sequence w"

definition wait_over :: "cond_ptr \<Rightarrow> pthread \<Rightarrow> cond_wait \<Rightarrow> int \<Rightarrow> monitor \<Rightarrow> wait_step \<times> monitor" where
  "wait_over c t w result s =
     (let (removed, cd, ths) = CondRemoveWaiter c t (mo_cond s, mo_threads s)
      in (Relock result (cw_recurse w), s\<lparr>mo_cond := cd, mo_threads := ths\<rparr>))"

definition CondWait_test :: "cond_ptr \<Rightarrow> pthread \<Rightarrow> nat \<Rightarrow> cond_wait \<Rightarrow> monitor \<Rightarrow> wait_step \<times> monitor" where
  "CondWait_test c t now w s =
     (if cond_ready w t s then wait_over c t w OK s
      else
        case cw_deadline w of
          None \<Rightarrow> (Waiting w (poll_interval None now), s)
        | Some d \<Rightarrow>
            (if d \<le> now then wait_over c t w ETIMEDOUT s
             else (Waiting w (poll_interval (Some d) now), s)))"

definition CondWait_wake :: "cond_ptr \<Rightarrow> pthread \<Rightarrow> cond_wait \<Rightarrow> monitor \<Rightarrow> wait_step \<times> monitor" where
  "CondWait_wake c t w s = (if cond_ready w t s then wait_over c t w OK s else (WaitDispatch w, s))"

text \<open>
  The common beginning of the three waits: the caller must own the mutex, is added to the waiters
  and gives the mutex up, all under the mutex of the condition variable.
\<close>

definition cond_wait_begin :: "cond_ptr \<Rightarrow> pthread \<Rightarrow> nat option \<Rightarrow> monitor \<Rightarrow> (int + cond_wait) \<times> monitor" where
  "cond_wait_begin c t deadline s =
     (if mx_owner (mo_mutex s) \<noteq> Some t then (Inl KERNEL_ERROR_EPERM, s)
      else
        let (cd, ths) = CondAddWaiter c t (mo_cond s, mo_threads s);
            (result, recurse, m) = NativeMutexUnlock t (Some 0) (mo_mutex s)
        in
          if result \<noteq> OK
          then
            (let (removed, cd', ths') = CondRemoveWaiter c t (cd, ths)
             in (Inl (if result = EPERM then KERNEL_ERROR_EPERM else KERNEL_ERROR_EINVAL),
                 s\<lparr>mo_mutex := m, mo_cond := cd', mo_threads := ths'\<rparr>))
          else
            (Inr \<lparr>cw_sequence = cn_sequence (mo_cond s), cw_thread_sequence = tw_cond_sequence (mo_threads s t),
                  cw_deadline = deadline, cw_recurse = the recurse\<rparr>,
             s\<lparr>mo_mutex := m, mo_cond := cd, mo_threads := ths\<rparr>))"

definition PthreadCondWait :: "cond_ptr \<Rightarrow> pthread \<Rightarrow> nat \<Rightarrow> monitor \<Rightarrow> wait_step \<times> monitor" where
  "PthreadCondWait c t now s =
     (case cond_wait_begin c t None s of
        (Inl e, s') \<Rightarrow> (WaitReturned e, s')
      | (Inr w, s') \<Rightarrow> CondWait_test c t now w s')"

definition PthreadCondTimedwait :: "cond_ptr \<Rightarrow> pthread \<Rightarrow> u32 \<Rightarrow> nat \<Rightarrow> monitor \<Rightarrow> wait_step \<times> monitor" where
  "PthreadCondTimedwait c t usec now s =
     (case cond_wait_begin c t (Some (micros_after now usec)) s of
        (Inl e, s') \<Rightarrow> (WaitReturned e, s')
      | (Inr w, s') \<Rightarrow> (if usec = 0 then wait_over c t w ETIMEDOUT s' else CondWait_test c t now w s'))"

text \<open>\<open>deadline\<close> is the result of \<open>NativeCondDeadlineFromAbs\<close>.\<close>

definition PthreadCondTimedwaitAbs :: "cond_ptr \<Rightarrow> pthread \<Rightarrow> nat option \<Rightarrow> nat \<Rightarrow> monitor \<Rightarrow> wait_step \<times> monitor" where
  "PthreadCondTimedwaitAbs c t deadline now s =
     (case deadline of
        None \<Rightarrow> (WaitReturned KERNEL_ERROR_EINVAL, s)
      | Some d \<Rightarrow>
          (case cond_wait_begin c t (Some d) s of
             (Inl e, s') \<Rightarrow> (WaitReturned e, s')
           | (Inr w, s') \<Rightarrow> CondWait_test c t now w s'))"

text \<open>The error code of a wait, from its result and that of taking the mutex again.\<close>

definition CondWait_result :: "int \<Rightarrow> int \<Rightarrow> int" where
  "CondWait_result result lock_result =
     (let r = (if result = OK then lock_result else result)
      in
        if r = 0 then OK
        else if r = ETIMEDOUT then KERNEL_ERROR_ETIMEDOUT
        else if r = EPERM then KERNEL_ERROR_EPERM
        else KERNEL_ERROR_EINVAL)"

end
