(* ===== verification/Monitor.thy ===== *)
theory Monitor
  imports Cond
begin

text \<open>
  A mutex and a condition variable used by any number of threads: the composition of the operations
  of Mutex and Cond, in the way \<open>src/src/kernel/pthread.cpp\<close> calls them. A thread is free or in the
  middle of a blocking call; each event is one critical section of one thread. Beside the model the
  state carries what it should do: how often each thread holds the mutex, and an abstract condition
  variable, a queue of waiting threads and the set of those that were woken.
\<close>

subsection \<open>The abstract condition variable\<close>

record abs_cond =
  ac_queue :: "pthread list"
  ac_woken :: "pthread set"

definition ac_begin :: "pthread \<Rightarrow> abs_cond \<Rightarrow> abs_cond" where
  "ac_begin t a = a\<lparr>ac_queue := ac_queue a @ [t]\<rparr>"

definition ac_wake :: "pthread \<Rightarrow> abs_cond \<Rightarrow> abs_cond" where
  "ac_wake t a =
     (if t \<in> set (ac_queue a) then \<lparr>ac_queue = remove1 t (ac_queue a), ac_woken = insert t (ac_woken a)\<rparr> else a)"

definition ac_signal :: "abs_cond \<Rightarrow> abs_cond" where
  "ac_signal a = (case ac_queue a of [] \<Rightarrow> a | t # q \<Rightarrow> ac_wake t a)"

definition ac_broadcast :: "abs_cond \<Rightarrow> abs_cond" where
  "ac_broadcast a = \<lparr>ac_queue = [], ac_woken = ac_woken a \<union> set (ac_queue a)\<rparr>"

definition ac_end :: "pthread \<Rightarrow> abs_cond \<Rightarrow> abs_cond" where
  "ac_end t a = \<lparr>ac_queue = remove1 t (ac_queue a), ac_woken = ac_woken a - {t}\<rparr>"


subsection \<open>Threads and events\<close>

datatype thread_pc =
    Free
  | Locking "nat option"
  | CondWaiting cond_wait
  | Relocking int u32

record msystem =
  ms_mon :: monitor
  ms_pc :: "pthread \<Rightarrow> thread_pc"
  ms_held :: "pthread \<Rightarrow> nat"
  ms_saved :: "pthread \<Rightarrow> nat"
  ms_cond :: abs_cond
  ms_woke :: "pthread \<Rightarrow> bool"
  ms_result :: "pthread \<Rightarrow> int option"

datatype mevent =
    MLock pthread "u32 option" nat
  | MLockTest pthread nat
  | MLockWake pthread
  | MTrylock pthread
  | MUnlock pthread
  | MWait pthread nat
  | MTimedwait pthread u32 nat
  | MWaitUntil pthread nat nat
  | MWaitTest pthread nat
  | MWaitWake pthread
  | MRelock pthread nat
  | MRelockTest pthread nat
  | MRelockWake pthread
  | MSignal
  | MSignalto pthread
  | MBroadcast

text \<open>The critical section of a lock: taken, failed, or still going on.\<close>

definition after_lock :: "pthread \<Rightarrow> nat option \<Rightarrow> lock_step \<times> mutex \<Rightarrow> msystem \<Rightarrow> msystem" where
  "after_lock t deadline p y =
     (let y' = y\<lparr>ms_mon := (ms_mon y)\<lparr>mo_mutex := snd p\<rparr>\<rparr>
      in
        case fst p of
          Returned r \<Rightarrow>
            y'\<lparr>ms_pc := (ms_pc y)(t := Free),
               ms_held := (ms_held y)(t := (if r = OK then Suc (ms_held y t) else ms_held y t))\<rparr>
        | _ \<Rightarrow> y'\<lparr>ms_pc := (ms_pc y)(t := Locking deadline)\<rparr>)"

text \<open>The critical section of a wait; when it ends, so does the abstract wait.\<close>

definition after_wait :: "pthread \<Rightarrow> wait_step \<times> monitor \<Rightarrow> msystem \<Rightarrow> msystem" where
  "after_wait t p y =
     (let y' = y\<lparr>ms_mon := snd p\<rparr>
      in
        case fst p of
          WaitReturned e \<Rightarrow> y'\<lparr>ms_result := (ms_result y)(t := Some e)\<rparr>
        | Waiting w n \<Rightarrow> y'\<lparr>ms_pc := (ms_pc y)(t := CondWaiting w)\<rparr>
        | WaitDispatch w \<Rightarrow> y'\<lparr>ms_pc := (ms_pc y)(t := CondWaiting w)\<rparr>
        | Relock r n \<Rightarrow>
            y'\<lparr>ms_pc := (ms_pc y)(t := Relocking r n), ms_cond := ac_end t (ms_cond y),
               ms_woke := (ms_woke y)(t := t \<in> ac_woken (ms_cond y))\<rparr>)"

text \<open>A wait that starts gives up every hold of the mutex and joins the abstract queue.\<close>

definition begin_wait :: "pthread \<Rightarrow> wait_step \<times> monitor \<Rightarrow> msystem \<Rightarrow> msystem" where
  "begin_wait t p y =
     after_wait t p
       (case fst p of
          WaitReturned e \<Rightarrow> y
        | _ \<Rightarrow> y\<lparr>ms_held := (ms_held y)(t := 0), ms_saved := (ms_saved y)(t := ms_held y t),
                ms_cond := ac_begin t (ms_cond y)\<rparr>)"

definition after_relock :: "pthread \<Rightarrow> int \<Rightarrow> lock_step \<times> mutex \<Rightarrow> msystem \<Rightarrow> msystem" where
  "after_relock t result p y =
     (let y' = y\<lparr>ms_mon := (ms_mon y)\<lparr>mo_mutex := snd p\<rparr>\<rparr>
      in
        case fst p of
          Returned r \<Rightarrow>
            y'\<lparr>ms_pc := (ms_pc y)(t := Free), ms_result := (ms_result y)(t := Some (CondWait_result result r)),
               ms_held := (ms_held y)(t := (if r = OK then ms_saved y t else ms_held y t))\<rparr>
        | _ \<Rightarrow> y')"

definition after_signal :: "bool \<times> cond \<times> threads \<Rightarrow> abs_cond \<Rightarrow> msystem \<Rightarrow> msystem" where
  "after_signal p a y =
     (let (b, cd, ths) = p
      in y\<lparr>ms_mon := (ms_mon y)\<lparr>mo_cond := cd, mo_threads := ths\<rparr>, ms_cond := a\<rparr>)"

text \<open>
  A thread makes calls only when it is free; sequence numbers do not wrap around: fewer than
  \<open>2 ^ 64\<close> broadcasts. \<open>c\<close> is the address of the condition variable.
\<close>

fun monitor_exec :: "cond_ptr \<Rightarrow> mevent \<Rightarrow> msystem \<Rightarrow> msystem option" where
  "monitor_exec c (MLock t timeout now) y =
     (if ms_pc y t = Free
      then Some (after_lock t (NativeMutexLock_deadline timeout now)
                   (NativeMutexLock t timeout now (mo_mutex (ms_mon y))) y)
      else None)"
| "monitor_exec c (MLockTest t now) y =
     (case ms_pc y t of
        Locking d \<Rightarrow> Some (after_lock t d (NativeMutexLock_test t d now (mo_mutex (ms_mon y))) y)
      | _ \<Rightarrow> None)"
| "monitor_exec c (MLockWake t) y =
     (case ms_pc y t of
        Locking d \<Rightarrow> Some (after_lock t d (NativeMutexLock_wake t (mo_mutex (ms_mon y))) y)
      | _ \<Rightarrow> None)"
| "monitor_exec c (MTrylock t) y =
     (if ms_pc y t = Free
      then (let (r, m) = NativeMutexTrylock t (mo_mutex (ms_mon y)) in Some (after_lock t None (Returned r, m) y))
      else None)"
| "monitor_exec c (MUnlock t) y =
     (if ms_pc y t = Free
      then
        (let (r, _, m) = NativeMutexUnlock t None (mo_mutex (ms_mon y))
         in Some (y\<lparr>ms_mon := (ms_mon y)\<lparr>mo_mutex := m\<rparr>,
                    ms_held := (ms_held y)(t := (if r = OK then ms_held y t - 1 else ms_held y t))\<rparr>))
      else None)"
| "monitor_exec c (MWait t now) y =
     (if ms_pc y t = Free then Some (begin_wait t (PthreadCondWait c t now (ms_mon y)) y) else None)"
| "monitor_exec c (MTimedwait t usec now) y =
     (if ms_pc y t = Free then Some (begin_wait t (PthreadCondTimedwait c t usec now (ms_mon y)) y) else None)"
| "monitor_exec c (MWaitUntil t d now) y =
     (if ms_pc y t = Free then Some (begin_wait t (PthreadCondTimedwaitAbs c t (Some d) now (ms_mon y)) y) else None)"
| "monitor_exec c (MWaitTest t now) y =
     (case ms_pc y t of
        CondWaiting w \<Rightarrow> Some (after_wait t (CondWait_test c t now w (ms_mon y)) y)
      | _ \<Rightarrow> None)"
| "monitor_exec c (MWaitWake t) y =
     (case ms_pc y t of
        CondWaiting w \<Rightarrow> Some (after_wait t (CondWait_wake c t w (ms_mon y)) y)
      | _ \<Rightarrow> None)"
| "monitor_exec c (MRelock t now) y =
     (case ms_pc y t of
        Relocking r n \<Rightarrow> Some (after_relock t r (NativeMutexLockRecurse t n now (mo_mutex (ms_mon y))) y)
      | _ \<Rightarrow> None)"
| "monitor_exec c (MRelockTest t now) y =
     (case ms_pc y t of
        Relocking r n \<Rightarrow> Some (after_relock t r (NativeMutexLockRecurse_test t n now (mo_mutex (ms_mon y))) y)
      | _ \<Rightarrow> None)"
| "monitor_exec c (MRelockWake t) y =
     (case ms_pc y t of
        Relocking r n \<Rightarrow> Some (after_relock t r (NativeMutexLockRecurse_wake t n (mo_mutex (ms_mon y))) y)
      | _ \<Rightarrow> None)"
| "monitor_exec c MSignal y =
     Some (after_signal (PthreadCondSignal c (mo_cond (ms_mon y), mo_threads (ms_mon y))) (ac_signal (ms_cond y)) y)"
| "monitor_exec c (MSignalto t) y =
     Some (after_signal (PthreadCondSignalto c t (mo_cond (ms_mon y), mo_threads (ms_mon y))) (ac_wake t (ms_cond y)) y)"
| "monitor_exec c MBroadcast y =
     (if cn_sequence (mo_cond (ms_mon y)) < u64_max
      then Some (after_signal (PthreadCondBroadcast c (mo_cond (ms_mon y), mo_threads (ms_mon y))) (ac_broadcast (ms_cond y)) y)
      else None)"

fun_cases monitor_execE:
  "monitor_exec c (MLock t timeout now) y = Some y'" "monitor_exec c (MLockTest t now) y = Some y'"
  "monitor_exec c (MLockWake t) y = Some y'" "monitor_exec c (MTrylock t) y = Some y'"
  "monitor_exec c (MUnlock t) y = Some y'" "monitor_exec c (MWait t now) y = Some y'"
  "monitor_exec c (MTimedwait t usec now) y = Some y'" "monitor_exec c (MWaitUntil t d now) y = Some y'"
  "monitor_exec c (MWaitTest t now) y = Some y'" "monitor_exec c (MWaitWake t) y = Some y'"
  "monitor_exec c (MRelock t now) y = Some y'" "monitor_exec c (MRelockTest t now) y = Some y'"
  "monitor_exec c (MRelockWake t) y = Some y'" "monitor_exec c MSignal y = Some y'"
  "monitor_exec c (MSignalto t) y = Some y'" "monitor_exec c MBroadcast y = Some y'"

text \<open>A new mutex and a new condition variable; the threads have not waited for it.\<close>

definition monitor_start :: "mutex \<Rightarrow> int \<Rightarrow> string \<Rightarrow> (pthread \<Rightarrow> u64) \<Rightarrow> msystem" where
  "monitor_start m clock_id name seqs =
     \<lparr>ms_mon = \<lparr>mo_mutex = m, mo_cond = PthreadCondInitNamed clock_id name,
               mo_threads = (\<lambda>t. \<lparr>tw_cond_sequence = seqs t, tw_waiting_cond = None\<rparr>)\<rparr>,
      ms_pc = (\<lambda>_. Free), ms_held = (\<lambda>_. 0), ms_saved = (\<lambda>_. 0),
      ms_cond = \<lparr>ac_queue = [], ac_woken = {}\<rparr>, ms_woke = (\<lambda>_. False), ms_result = (\<lambda>_. None)\<rparr>"

end
