(* ===== verification/MonitorProps.thy ===== *)
theory MonitorProps
  imports Monitor
begin

text \<open>
  Mutual exclusion of the mutexes of \<open>pthread.cpp\<close> in every interleaving of lock, unlock and wait
  calls: at most one thread holds a mutex, the count is the number of its holds, a mutex that is not
  recursive is held once, and a wait gives back exactly the holds it took.
\<close>

subsection \<open>The holds of a mutex\<close>

definition mutex_ok :: "(pthread \<Rightarrow> nat) \<Rightarrow> mutex \<Rightarrow> bool" where
  "mutex_ok h m \<longleftrightarrow> (\<forall>t. 0 < h t \<longleftrightarrow> mx_owner m = Some t) \<and>
     (\<forall>t. mx_owner m = Some t \<longrightarrow> unat (mx_count m) = h t) \<and> (mx_type m \<noteq> 2 \<longrightarrow> (\<forall>t. h t \<le> 1))"

lemma mutex_okI [intro?]:
  assumes "\<And>t. 0 < h t \<longleftrightarrow> mx_owner m = Some t" and "\<And>t. mx_owner m = Some t \<Longrightarrow> unat (mx_count m) = h t"
    and "\<And>t. mx_type m \<noteq> 2 \<Longrightarrow> h t \<le> 1"
  shows "mutex_ok h m"
  using assms unfolding mutex_ok_def by blast

lemma mutex_okD:
  assumes "mutex_ok h m"
  shows "0 < h t \<longleftrightarrow> mx_owner m = Some t" "mx_owner m = Some t \<Longrightarrow> unat (mx_count m) = h t"
    "mx_type m \<noteq> 2 \<Longrightarrow> h t \<le> 1"
  using assms unfolding mutex_ok_def by blast+

lemma unat_Suc_u32:
  assumes "c \<noteq> u32_max"
  shows "unat ((c :: u32) + 1) = Suc (unat c)"
proof -
  have "unat c \<noteq> unat (u32_max :: u32)" using assms word_unat_eq_iff by blast
  moreover have "unat c < 2 ^ 32" by (rule order_less_le_trans [OF unsigned_less]) simp
  ultimately have "unat c + unat (1 :: u32) < 2 ^ 32" by simp
  then show ?thesis by (simp add: unat_word_ariths)
qed

lemma mutex_take_ok:
  assumes "mutex_ok h m" and "mx_owner m = None"
  shows "h t = 0" "mutex_ok (h(t := 1)) (m\<lparr>mx_owner := Some t, mx_count := 1\<rparr>)"
proof -
  have z: "h u = 0" for u using mutex_okD(1) [OF assms(1), of u] assms(2) by simp
  show "h t = 0" by (rule z)
  show "mutex_ok (h(t := 1)) (m\<lparr>mx_owner := Some t, mx_count := 1\<rparr>)"
    by (rule mutex_okI) (auto simp: z)
qed

text \<open>What a critical section of a lock does to the holds, for a thread that does not wait already.\<close>

definition lock_effect :: "pthread \<Rightarrow> (pthread \<Rightarrow> nat) \<Rightarrow> mutex \<Rightarrow> lock_step \<times> mutex \<Rightarrow> bool" where
  "lock_effect t h m p \<longleftrightarrow>
     mutex_ok (h(t := (if fst p = Returned OK then Suc (h t) else h t))) (snd p) \<and>
     mx_type (snd p) = mx_type m \<and> ((\<forall>r. fst p \<noteq> Returned r) \<longrightarrow> h t = 0) \<and>
     (h t = 0 \<longrightarrow> fst p = Returned OK \<longrightarrow> mx_owner m = None)"

lemma host_errno_neq_OK [simp]:
  "EPERM \<noteq> OK" "EAGAIN \<noteq> OK" "EBUSY \<noteq> OK" "EDEADLK \<noteq> OK" "ETIMEDOUT \<noteq> OK" "EINVAL \<noteq> OK"
  by (simp_all add: host_errno_defs OK_def)

lemma lock_effect_same:
  assumes "mutex_ok h m"
  shows "e \<noteq> OK \<Longrightarrow> lock_effect t h m (Returned e, m)"
    and "h t = 0 \<Longrightarrow> lock_effect t h m (WaitFor n, m)"
    and "h t = 0 \<Longrightarrow> lock_effect t h m (Dispatch, m)"
  using assms unfolding lock_effect_def by (auto simp: fun_upd_idem)

lemma lock_effect_take:
  assumes "mutex_ok h m" and "mx_owner m = None"
  shows "lock_effect t h m (mutex_take t m)"
  using mutex_take_ok [OF assms] assms unfolding lock_effect_def mutex_take_def by (simp add: fun_upd_def cong: if_cong)

lemma NativeMutexLock_test_effect:
  assumes ok: "mutex_ok h m" and t: "h t = 0"
  shows "lock_effect t h m (NativeMutexLock_test t d now m)"
proof (cases "mx_owner m = None")
  case True
  then show ?thesis using lock_effect_take [OF ok True] by (simp add: NativeMutexLock_test_def)
next
  case False
  then show ?thesis
    using lock_effect_same [OF ok] t by (auto simp: NativeMutexLock_test_def split: option.splits)
qed

lemma NativeMutexLock_wake_effect:
  assumes ok: "mutex_ok h m" and t: "h t = 0"
  shows "lock_effect t h m (NativeMutexLock_wake t m)"
  using lock_effect_take [OF ok] lock_effect_same [OF ok] t by (auto simp: NativeMutexLock_wake_def)

lemma mutex_again_ok:
  assumes ok: "mutex_ok h m" and own: "mx_owner m = Some t" and ty: "mx_type m = 2" and c: "mx_count m \<noteq> u32_max"
  shows "mutex_ok (h(t := Suc (h t))) (m\<lparr>mx_count := mx_count m + 1\<rparr>)"
proof (rule mutex_okI)
  show "(0 < (h(t := Suc (h t))) u) = (mx_owner (m\<lparr>mx_count := mx_count m + 1\<rparr>) = Some u)" for u
    using mutex_okD(1) [OF ok, of u] own by simp
  show "unat (mx_count (m\<lparr>mx_count := mx_count m + 1\<rparr>)) = (h(t := Suc (h t))) u"
    if "mx_owner (m\<lparr>mx_count := mx_count m + 1\<rparr>) = Some u" for u
    using that own mutex_okD(2) [OF ok own] unat_Suc_u32 [OF c] by simp
qed (use ty in simp)

lemma NativeMutexLock_effect:
  assumes ok: "mutex_ok h m"
  shows "lock_effect t h m (NativeMutexLock t timeout now m)"
proof (cases "mx_owner m = Some t")
  case own: True
  then have pos: "0 < h t" using mutex_okD(1) [OF ok, of t] by simp
  show ?thesis
  proof (cases "mx_type m = 2 \<and> mx_count m \<noteq> u32_max")
    case True
    then have "NativeMutexLock t timeout now m = (Returned OK, m\<lparr>mx_count := mx_count m + 1\<rparr>)"
      using own by (simp add: NativeMutexLock_def)
    then show ?thesis using mutex_again_ok [OF ok own] True pos unfolding lock_effect_def by simp
  next
    case False
    then show ?thesis using own lock_effect_same [OF ok] by (auto simp: NativeMutexLock_def)
  qed
next
  case False
  then have "h t = 0" using mutex_okD(1) [OF ok, of t] by simp
  then show ?thesis
    using False lock_effect_take [OF ok] lock_effect_same [OF ok] NativeMutexLock_test_effect [OF ok]
    by (auto simp: NativeMutexLock_def)
qed

lemma NativeMutexTrylock_effect:
  assumes ok: "mutex_ok h m" and p: "NativeMutexTrylock t m = (r, m')"
  shows "lock_effect t h m (Returned r, m')"
proof (cases "mx_owner m = Some t")
  case own: True
  then have pos: "0 < h t" using mutex_okD(1) [OF ok, of t] by simp
  show ?thesis
  proof (cases "mx_type m = 2 \<and> mx_count m \<noteq> u32_max")
    case True
    then have "r = OK" "m' = m\<lparr>mx_count := mx_count m + 1\<rparr>"
      using own p by (auto simp: NativeMutexTrylock_def)
    then show ?thesis using mutex_again_ok [OF ok own] True pos unfolding lock_effect_def by simp
  next
    case False
    then show ?thesis using own p lock_effect_same [OF ok] by (auto simp: NativeMutexTrylock_def split: if_splits)
  qed
next
  case False
  then show ?thesis
    using p lock_effect_take [OF ok, of t] lock_effect_same [OF ok]
    by (auto simp: NativeMutexTrylock_def mutex_take_def split: if_splits)
qed

lemma NativeMutexUnlock_effect:
  assumes ok: "mutex_ok h m" and p: "NativeMutexUnlock t None m = (r, rec, m')"
  shows "mutex_ok (h(t := (if r = OK then h t - 1 else h t))) m' \<and> mx_type m' = mx_type m \<and> (r = OK \<longleftrightarrow> 0 < h t)"
proof (cases "mx_owner m = Some t")
  case own: True
  have pos: "0 < h t" and c: "unat (mx_count m) = h t" using mutex_okD(1,2) [OF ok, of t] own by auto
  have r: "r = OK" using p own by (auto simp: NativeMutexUnlock_def split: if_splits)
  have others: "h u = 0" if "u \<noteq> t" for u using mutex_okD(1) [OF ok, of u] own that by auto
  show ?thesis
  proof (cases "mx_type m = 2 \<and> 1 < mx_count m")
    case True
    have g: "1 < h t" using True c by (simp add: word_less_nat_alt)
    have u: "unat (mx_count m - 1) = h t - 1" using c True by (simp add: unat_sub word_le_nat_alt word_less_nat_alt)
    have m': "m' = m\<lparr>mx_count := mx_count m - 1\<rparr>" using p own True by (auto simp: NativeMutexUnlock_def)
    have "mutex_ok (h(t := h t - 1)) m'"
      unfolding m' by (rule mutex_okI) (use own u g True others in \<open>auto split: if_splits\<close>)
    then show ?thesis using r m' pos by simp
  next
    case False
    have one: "h t = 1"
    proof (cases "mx_type m = 2")
      case True
      then have "unat (mx_count m) \<le> 1" using False by (simp add: word_less_nat_alt)
      then show ?thesis using c pos by simp
    next
      case False
      then show ?thesis using mutex_okD(3) [OF ok False, of t] pos by simp
    qed
    have m': "m' = m\<lparr>mx_owner := None, mx_count := 0\<rparr>" using p own False by (auto simp: NativeMutexUnlock_def split: if_splits)
    have "mutex_ok (h(t := h t - 1)) m'"
      unfolding m' by (rule mutex_okI) (use one others in auto)
    then show ?thesis using r m' pos by simp
  qed
next
  case False
  then show ?thesis using ok p mutex_okD(1) [OF ok, of t] by (auto simp: NativeMutexUnlock_def fun_upd_idem)
qed


subsection \<open>Waits\<close>

text \<open>
  What every critical section of a wait does: it goes on waiting, or it is over, with success
  exactly when the waiter is ready.
\<close>

definition wait_progress :: "cond_ptr \<Rightarrow> pthread \<Rightarrow> cond_wait \<Rightarrow> monitor \<Rightarrow> wait_step \<times> monitor \<Rightarrow> bool" where
  "wait_progress c t w s p \<longleftrightarrow>
     (\<exists>n. p = (Waiting w n, s) \<and> \<not> cond_ready w t s) \<or> p = (WaitDispatch w, s) \<and> \<not> cond_ready w t s \<or>
     p = wait_over c t w OK s \<and> cond_ready w t s \<or> p = wait_over c t w ETIMEDOUT s \<and> \<not> cond_ready w t s"

lemma wait_progressE:
  assumes "wait_progress c t w s p"
  obtains st where "p = (st, s)" "\<not> cond_ready w t s" "(\<exists>n. st = Waiting w n) \<or> st = WaitDispatch w"
  | r where "p = wait_over c t w r s" "r = OK \<longleftrightarrow> cond_ready w t s" "r = OK \<or> r = ETIMEDOUT"
  using assms unfolding wait_progress_def by (metis host_errno_neq_OK(5))

lemma CondWait_test_progress: "wait_progress c t w s (CondWait_test c t now w s)"
  unfolding wait_progress_def CondWait_test_def by (auto split: option.splits)

lemma CondWait_wake_progress: "wait_progress c t w s (CondWait_wake c t w s)"
  unfolding wait_progress_def CondWait_wake_def by auto

text \<open>A wait that is entered by the owner of the mutex always starts.\<close>

definition wait_started :: "cond_ptr \<Rightarrow> pthread \<Rightarrow> monitor \<Rightarrow> cond_wait \<Rightarrow> monitor \<Rightarrow> bool" where
  "wait_started c t s w s1 \<longleftrightarrow> mx_owner (mo_mutex s) = Some t \<and>
     cw_sequence w = cn_sequence (mo_cond s) \<and> cw_thread_sequence w = tw_cond_sequence (mo_threads s t) \<and>
     cw_recurse w = mx_count (mo_mutex s) \<and>
     mo_mutex s1 = (mo_mutex s)\<lparr>mx_owner := None, mx_count := 0\<rparr> \<and>
     (mo_cond s1, mo_threads s1) = CondAddWaiter c t (mo_cond s, mo_threads s)"

lemma cond_wait_begin_cases:
  obtains "cond_wait_begin c t d s = (Inl KERNEL_ERROR_EPERM, s)" "mx_owner (mo_mutex s) \<noteq> Some t"
  | w s1 where "cond_wait_begin c t d s = (Inr w, s1)" "wait_started c t s w s1"
proof (cases "mx_owner (mo_mutex s) = Some t")
  case True
  obtain m where u: "NativeMutexUnlock t (Some 0) (mo_mutex s) = (OK, Some (mx_count (mo_mutex s)), m)"
    and m: "m = (mo_mutex s)\<lparr>mx_owner := None, mx_count := 0\<rparr>"
    using True by (simp add: NativeMutexUnlock_def Let_def)
  show thesis
    by (rule that(2)) (use True in \<open>auto simp: cond_wait_begin_def u m wait_started_def split_beta Let_def\<close>)
next
  case False
  then show thesis using that(1) by (simp add: cond_wait_begin_def)
qed

lemma not_ready_started:
  assumes "wait_started c t s w s1"
  shows "\<not> cond_ready w t s1"
  using assms unfolding wait_started_def cond_ready_def CondAddWaiter_def set_waiting_def by auto

text \<open>The three waits, entered by a thread.\<close>

definition wait_entered :: "cond_ptr \<Rightarrow> pthread \<Rightarrow> monitor \<Rightarrow> wait_step \<times> monitor \<Rightarrow> bool" where
  "wait_entered c t s p \<longleftrightarrow>
     (\<exists>e. p = (WaitReturned e, s)) \<or> (\<exists>w s1. wait_started c t s w s1 \<and> wait_progress c t w s1 p)"

lemma PthreadCondWait_entered: "wait_entered c t s (PthreadCondWait c t now s)"
  by (rule cond_wait_begin_cases [of c t None s])
     (auto simp: PthreadCondWait_def wait_entered_def intro: CondWait_test_progress)

lemma PthreadCondTimedwait_entered: "wait_entered c t s (PthreadCondTimedwait c t usec now s)"
proof (rule cond_wait_begin_cases [of c t "Some (micros_after now usec)" s])
  fix w s1 assume b: "cond_wait_begin c t (Some (micros_after now usec)) s = (Inr w, s1)" "wait_started c t s w s1"
  have "wait_progress c t w s1 (wait_over c t w ETIMEDOUT s1)"
    using not_ready_started [OF b(2)] unfolding wait_progress_def by blast
  then show ?thesis using b by (auto simp: PthreadCondTimedwait_def wait_entered_def intro: CondWait_test_progress)
qed (simp add: PthreadCondTimedwait_def wait_entered_def)

lemma PthreadCondTimedwaitAbs_entered: "wait_entered c t s (PthreadCondTimedwaitAbs c t (Some d) now s)"
  by (rule cond_wait_begin_cases [of c t "Some d" s])
     (auto simp: PthreadCondTimedwaitAbs_def wait_entered_def intro: CondWait_test_progress)

lemma wait_over_sel:
  "fst (wait_over c t w r s) = Relock r (cw_recurse w)" "mo_mutex (snd (wait_over c t w r s)) = mo_mutex s"
  by (simp_all add: wait_over_def split_beta Let_def)


subsection \<open>The invariant of the mutex in every run\<close>

definition saved_ok :: "int \<Rightarrow> u32 \<Rightarrow> nat \<Rightarrow> bool" where
  "saved_ok ty n k \<longleftrightarrow> unat n = k \<and> 0 < k \<and> (ty \<noteq> 2 \<longrightarrow> k \<le> 1)"

fun pc_ok :: "int \<Rightarrow> thread_pc \<Rightarrow> nat \<Rightarrow> nat \<Rightarrow> bool" where
  "pc_ok ty Free h k = True"
| "pc_ok ty (Locking d) h k = (h = 0)"
| "pc_ok ty (CondWaiting w) h k = (h = 0 \<and> saved_ok ty (cw_recurse w) k)"
| "pc_ok ty (Relocking r n) h k = (h = 0 \<and> saved_ok ty n k)"

abbreviation ms_mutex :: "msystem \<Rightarrow> mutex" where "ms_mutex y \<equiv> mo_mutex (ms_mon y)"

definition mutex_inv :: "msystem \<Rightarrow> bool" where
  "mutex_inv y \<longleftrightarrow> mutex_ok (ms_held y) (ms_mutex y) \<and>
     (\<forall>t. pc_ok (mx_type (ms_mutex y)) (ms_pc y t) (ms_held y t) (ms_saved y t))"

lemma mutex_invD:
  assumes "mutex_inv y"
  shows "mutex_ok (ms_held y) (ms_mutex y)" "pc_ok (mx_type (ms_mutex y)) (ms_pc y t) (ms_held y t) (ms_saved y t)"
  using assms unfolding mutex_inv_def by blast+

text \<open>An event changes what the system knows of one thread only.\<close>

lemma mutex_inv_upd:
  assumes inv: "mutex_inv y" and "mutex_ok (ms_held y') (ms_mutex y')" and "mx_type (ms_mutex y') = mx_type (ms_mutex y)"
    and "pc_ok (mx_type (ms_mutex y)) (ms_pc y' t) (ms_held y' t) (ms_saved y' t)"
    and "\<And>u. u \<noteq> t \<Longrightarrow> ms_pc y' u = ms_pc y u \<and> ms_held y' u = ms_held y u \<and> ms_saved y' u = ms_saved y u"
  shows "mutex_inv y'"
  unfolding mutex_inv_def
proof (intro conjI allI)
  fix u
  show "pc_ok (mx_type (ms_mutex y')) (ms_pc y' u) (ms_held y' u) (ms_saved y' u)"
    using assms(3,4,5) mutex_invD(2) [OF inv, of u] by (cases "u = t") simp_all
qed (rule assms(2))

lemma after_lock_inv:
  assumes inv: "mutex_inv y" and e: "lock_effect t (ms_held y) (ms_mutex y) p"
  shows "mutex_inv (after_lock t d p y)"
proof -
  define y' where "y' = after_lock t d p y"
  have m: "ms_mutex y' = snd p" unfolding y'_def after_lock_def by (cases "fst p") (simp_all add: Let_def)
  have h: "ms_held y' = (ms_held y)(t := (if fst p = Returned OK then Suc (ms_held y t) else ms_held y t))"
    unfolding y'_def after_lock_def by (cases "fst p") (simp_all add: Let_def fun_upd_idem)
  have o: "ms_saved y' = ms_saved y" "ms_pc y' = (ms_pc y)(t := ms_pc y' t)"
    unfolding y'_def after_lock_def by (cases "fst p"; simp add: Let_def)+
  have pc: "ms_pc y' t = Free \<or> ms_pc y' t = Locking d \<and> (\<forall>r. fst p \<noteq> Returned r)"
    unfolding y'_def after_lock_def by (cases "fst p") (simp_all add: Let_def)
  show ?thesis
    unfolding y'_def [symmetric]
  proof (rule mutex_inv_upd [OF inv])
    show "pc_ok (mx_type (ms_mutex y)) (ms_pc y' t) (ms_held y' t) (ms_saved y' t)"
      using pc e unfolding lock_effect_def h by auto
    show "ms_pc y' u = ms_pc y u \<and> ms_held y' u = ms_held y u \<and> ms_saved y' u = ms_saved y u" if "u \<noteq> t" for u
      using that h o by (metis fun_upd_other)
  qed (use e in \<open>auto simp: lock_effect_def m h\<close>)
qed

lemma after_wait_sel:
  "ms_held (after_wait t p y) = ms_held y" "ms_saved (after_wait t p y) = ms_saved y"
  "ms_mon (after_wait t p y) = snd p"
  by (cases "fst p"; simp add: after_wait_def)+

lemma after_wait_pc:
  assumes "wait_progress c t w s p"
  shows "ms_pc (after_wait t p y) t = CondWaiting w \<or> (\<exists>r. ms_pc (after_wait t p y) t = Relocking r (cw_recurse w))"
    and "u \<noteq> t \<Longrightarrow> ms_pc (after_wait t p y) u = ms_pc y u" and "mo_mutex (snd p) = mo_mutex s"
proof -
  have f: "fst p = WaitDispatch w \<or> (\<exists>n. fst p = Waiting w n) \<or> (\<exists>r. fst p = Relock r (cw_recurse w))"
    using assms by (auto simp: wait_progress_def wait_over_sel)
  show "ms_pc (after_wait t p y) t = CondWaiting w \<or> (\<exists>r. ms_pc (after_wait t p y) t = Relocking r (cw_recurse w))"
    "u \<noteq> t \<Longrightarrow> ms_pc (after_wait t p y) u = ms_pc y u"
    using f by (auto simp: after_wait_def Let_def)
  show "mo_mutex (snd p) = mo_mutex s"
    using assms by (auto simp: wait_progress_def wait_over_sel)
qed

lemma after_wait_inv:
  assumes inv: "mutex_inv y" and pc: "ms_pc y t = CondWaiting w" and p: "wait_progress c t w (ms_mon y) p"
  shows "mutex_inv (after_wait t p y)"
proof (rule mutex_inv_upd [OF inv])
  show "pc_ok (mx_type (ms_mutex y)) (ms_pc (after_wait t p y) t) (ms_held (after_wait t p y) t) (ms_saved (after_wait t p y) t)"
    using after_wait_pc(1) [OF p, of y] mutex_invD(2) [OF inv, of t] pc by (auto simp: after_wait_sel)
qed (use mutex_invD(1) [OF inv] after_wait_pc(2,3) [OF p] in \<open>simp_all add: after_wait_sel\<close>)

lemma begin_wait_inv:
  assumes inv: "mutex_inv y" and pc: "ms_pc y t = Free" and p: "wait_entered c t (ms_mon y) p"
  shows "mutex_inv (begin_wait t p y)"
proof -
  consider (ret) e where "p = (WaitReturned e, ms_mon y)"
    | (start) w s1 where "wait_started c t (ms_mon y) w s1" "wait_progress c t w s1 p"
    using p unfolding wait_entered_def by blast
  then show ?thesis
  proof cases
    case ret
    show ?thesis
      by (rule mutex_inv_upd [OF inv, of _ t])
         (use mutex_invD [OF inv] ret in \<open>simp_all add: begin_wait_def after_wait_def Let_def\<close>)
  next
    case start
    define z where "z = y\<lparr>ms_held := (ms_held y)(t := 0), ms_saved := (ms_saved y)(t := ms_held y t),
                         ms_cond := ac_begin t (ms_cond y)\<rparr>"
    have "\<forall>e. fst p \<noteq> WaitReturned e" using start(2) by (auto simp: wait_progress_def wait_over_sel)
    then have b: "begin_wait t p y = after_wait t p z" unfolding begin_wait_def z_def by (cases "fst p") simp_all
    have own: "mx_owner (ms_mutex y) = Some t" and m: "mo_mutex s1 = (ms_mutex y)\<lparr>mx_owner := None, mx_count := 0\<rparr>"
      and r: "cw_recurse w = mx_count (ms_mutex y)"
      using start(1) unfolding wait_started_def by blast+
    note ok = mutex_okD [OF mutex_invD(1) [OF inv], of t]
    have sv: "saved_ok (mx_type (ms_mutex y)) (cw_recurse w) (ms_held y t)"
      unfolding saved_ok_def r using own ok by blast
    have others: "ms_held y u = 0" if "u \<noteq> t" for u
      using mutex_okD(1) [OF mutex_invD(1) [OF inv], of u] own that by auto
    have ok1: "mutex_ok ((ms_held y)(t := 0)) (mo_mutex s1)"
      unfolding m by (rule mutex_okI) (use others in auto)
    show ?thesis
      unfolding b
    proof (rule mutex_inv_upd [OF inv])
      show "pc_ok (mx_type (ms_mutex y)) (ms_pc (after_wait t p z) t) (ms_held (after_wait t p z) t) (ms_saved (after_wait t p z) t)"
        using after_wait_pc(1) [OF start(2), of z] sv by (auto simp: after_wait_sel z_def)
    qed (use ok1 m after_wait_pc(2,3) [OF start(2)] in \<open>simp_all add: after_wait_sel z_def\<close>)
  qed
qed

lemma relock_inv:
  assumes inv: "mutex_inv y" and pc: "ms_pc y t = Relocking r n"
    and e: "lock_effect t (ms_held y) (ms_mutex y) q"
  shows "mutex_inv (after_relock t r (NativeMutexLockRecurse_finish n q) y)"
proof -
  have h: "ms_held y t = 0" and sv: "saved_ok (mx_type (ms_mutex y)) n (ms_saved y t)"
    using mutex_invD(2) [OF inv, of t] pc by simp_all
  have ty: "mx_type (snd q) = mx_type (ms_mutex y)" using e unfolding lock_effect_def by blast
  show ?thesis
  proof (cases "fst q = Returned OK")
    case True
    have ok: "mutex_ok ((ms_held y)(t := 1)) (snd q)" using e True h unfolding lock_effect_def by simp
    have own: "mx_owner (snd q) = Some t" using mutex_okD(1) [OF ok, of t] by simp
    have others: "ms_held y u = 0" if "u \<noteq> t" for u using mutex_okD(1) [OF ok, of u] own that by auto
    have "1 \<le> n" using sv unfolding saved_ok_def by (simp add: word_le_nat_alt)
    then have mx: "max n 1 = n" by (rule max.absorb1)
    have ok': "mutex_ok ((ms_held y)(t := ms_saved y t)) ((snd q)\<lparr>mx_count := n\<rparr>)"
      by (rule mutex_okI) (use own others sv ty in \<open>auto simp: saved_ok_def\<close>)
    show ?thesis
      by (rule mutex_inv_upd [OF inv, of _ t])
         (use ok' ty in \<open>simp_all add: after_relock_def NativeMutexLockRecurse_finish_def True mx\<close>)
  next
    case False
    then have ok: "mutex_ok (ms_held y) (snd q)" using e unfolding lock_effect_def by simp
    have f: "NativeMutexLockRecurse_finish n q = q" using False by (simp add: NativeMutexLockRecurse_finish_def)
    show ?thesis
    proof (rule mutex_inv_upd [OF inv, of _ t])
      show "mutex_ok (ms_held (after_relock t r (NativeMutexLockRecurse_finish n q) y))
             (ms_mutex (after_relock t r (NativeMutexLockRecurse_finish n q) y))"
        using ok False by (cases "fst q") (simp_all add: after_relock_def f Let_def fun_upd_idem)
    qed (use ty False h sv pc in \<open>cases "fst q"; simp add: after_relock_def f Let_def\<close>)+
  qed
qed

lemma after_signal_inv:
  assumes "mutex_inv y"
  shows "mutex_inv (after_signal p a y)"
  using assms unfolding mutex_inv_def after_signal_def by (cases p) simp

lemma unlock_inv:
  assumes inv: "mutex_inv y" and pc: "ms_pc y t = Free" and p: "NativeMutexUnlock t None (ms_mutex y) = (r, rec, m)"
  shows "mutex_inv (y\<lparr>ms_mon := (ms_mon y)\<lparr>mo_mutex := m\<rparr>,
                     ms_held := (ms_held y)(t := (if r = OK then ms_held y t - 1 else ms_held y t))\<rparr>)"
proof -
  note e = NativeMutexUnlock_effect [OF mutex_invD(1) [OF inv] p]
  show ?thesis
    by (rule mutex_inv_upd [OF inv, of _ t])
       (use conjunct1 [OF e] conjunct1 [OF conjunct2 [OF e]] pc in \<open>simp_all del: One_nat_def\<close>)
qed

lemma monitor_mutex_step:
  assumes inv: "mutex_inv y" and ex: "monitor_exec c e y = Some y'"
  shows "mutex_inv y'"
proof -
  note ok = mutex_invD(1) [OF inv]
  have h: "ms_held y t = 0" if "ms_pc y t \<noteq> Free" for t
    using mutex_invD(2) [OF inv, of t] that by (cases "ms_pc y t") simp_all
  show ?thesis
  proof (cases e)
    case MLock
    then show ?thesis
      using ex inv NativeMutexLock_effect [OF ok] by (auto elim!: monitor_execE split: if_splits intro!: after_lock_inv)
  next
    case MLockTest
    then show ?thesis
      using ex inv h NativeMutexLock_test_effect [OF ok]
      by (auto elim!: monitor_execE split: thread_pc.splits intro!: after_lock_inv)
  next
    case MLockWake
    then show ?thesis
      using ex inv h NativeMutexLock_wake_effect [OF ok]
      by (auto elim!: monitor_execE split: thread_pc.splits intro!: after_lock_inv)
  next
    case MTrylock
    then show ?thesis
      using ex inv NativeMutexTrylock_effect [OF ok]
      by (auto elim!: monitor_execE split: if_splits prod.splits intro!: after_lock_inv)
  next
    case (MUnlock t)
    obtain r rec m where u: "NativeMutexUnlock t None (ms_mutex y) = (r, rec, m)" by (rule prod_cases3)
    then show ?thesis
      using ex unlock_inv [OF inv _ u] unfolding MUnlock by (auto elim!: monitor_execE split: if_split_asm)
  next
    case MWait
    then show ?thesis
      using ex begin_wait_inv [OF inv _ PthreadCondWait_entered] by (auto elim!: monitor_execE split: if_splits)
  next
    case MTimedwait
    then show ?thesis
      using ex begin_wait_inv [OF inv _ PthreadCondTimedwait_entered] by (auto elim!: monitor_execE split: if_splits)
  next
    case MWaitUntil
    then show ?thesis
      using ex begin_wait_inv [OF inv _ PthreadCondTimedwaitAbs_entered] by (auto elim!: monitor_execE split: if_splits)
  next
    case MWaitTest
    then show ?thesis
      using ex after_wait_inv [OF inv _ CondWait_test_progress] by (auto elim!: monitor_execE split: thread_pc.splits)
  next
    case MWaitWake
    then show ?thesis
      using ex after_wait_inv [OF inv _ CondWait_wake_progress] by (auto elim!: monitor_execE split: thread_pc.splits)
  next
    case MRelock
    then show ?thesis
      using ex relock_inv [OF inv _ NativeMutexLock_effect [OF ok]]
      by (auto elim!: monitor_execE simp: NativeMutexLockRecurse_def split: thread_pc.splits)
  next
    case MRelockTest
    then show ?thesis
      using ex relock_inv [OF inv _ NativeMutexLock_test_effect [OF ok h]]
      by (auto elim!: monitor_execE simp: NativeMutexLockRecurse_test_def split: thread_pc.splits)
  next
    case MRelockWake
    then show ?thesis
      using ex relock_inv [OF inv _ NativeMutexLock_wake_effect [OF ok h]]
      by (auto elim!: monitor_execE simp: NativeMutexLockRecurse_wake_def split: thread_pc.splits)
  qed (use ex inv in \<open>auto elim!: monitor_execE split: if_splits intro!: after_signal_inv\<close>)
qed

interpretation monitor_mutex: guarded_system "monitor_exec c" "\<lambda>_. True" mutex_inv for c
  by unfold_locales (rule monitor_mutex_step)


lemma monitor_start_mutex_inv:
  assumes "PthreadMutexInitNamed attr name static_type host = Some m"
  shows "mutex_inv (monitor_start m clock_id cname seqs)"
proof -
  have "mx_owner m = None" "mx_count m = 0" using assms by (auto simp: PthreadMutexInitNamed_def)
  then show ?thesis unfolding mutex_inv_def monitor_start_def mutex_ok_def by simp
qed

text \<open>What is woken with the mutex: the holds of a thread that waits, kept in its local variable.\<close>

lemma mutex_inv_facts:
  assumes inv: "mutex_inv y"
  shows "0 < ms_held y t \<Longrightarrow> 0 < ms_held y u \<Longrightarrow> t = u"
    and "0 < ms_held y t \<longleftrightarrow> mx_owner (ms_mutex y) = Some t"
    and "mx_owner (ms_mutex y) = Some t \<Longrightarrow> unat (mx_count (ms_mutex y)) = ms_held y t"
    and "mx_type (ms_mutex y) \<noteq> KERNEL_PTHREAD_MUTEX_RECURSIVE \<Longrightarrow> ms_held y t \<le> 1"
    and "ms_pc y t = CondWaiting w \<Longrightarrow> ms_held y t = 0 \<and> unat (cw_recurse w) = ms_saved y t"
    and "ms_pc y t = Relocking r n \<Longrightarrow> ms_held y t = 0 \<and> unat n = ms_saved y t"
  using mutex_okD [OF mutex_invD(1) [OF inv], of t] mutex_okD(1) [OF mutex_invD(1) [OF inv], of u]
    mutex_invD(2) [OF inv, of t]
  by (auto simp: saved_ok_def)

text \<open>
  C33: In every interleaving of lock, trylock, timed lock, unlock and condition variable calls on a
  mutex, from its creation, at most one thread holds it, and the owner field names that thread. The
  count of the mutex is the number of times the owner locked it without unlocking it, more than one
  only for a recursive mutex. A thread inside a condition wait holds nothing, and has kept the exact
  number of holds it gives up, which it has again when the wait returns.
\<close>

theorem pthread_mutex_exclusion:
  assumes "PthreadMutexInitNamed attr name static_type host = Some m"
    and "run (monitor_exec c) es (monitor_start m clock_id cname seqs) = Some y"
  shows "(\<forall>t u. 0 < ms_held y t \<and> 0 < ms_held y u \<longrightarrow> t = u) \<and>
    (\<forall>t. 0 < ms_held y t \<longleftrightarrow> mx_owner (ms_mutex y) = Some t) \<and>
    (\<forall>t. mx_owner (ms_mutex y) = Some t \<longrightarrow> unat (mx_count (ms_mutex y)) = ms_held y t) \<and>
    (mx_type (ms_mutex y) \<noteq> KERNEL_PTHREAD_MUTEX_RECURSIVE \<longrightarrow> (\<forall>t. ms_held y t \<le> 1)) \<and>
    (\<forall>t w. ms_pc y t = CondWaiting w \<longrightarrow> ms_held y t = 0 \<and> unat (cw_recurse w) = ms_saved y t) \<and>
    (\<forall>t r n. ms_pc y t = Relocking r n \<longrightarrow> ms_held y t = 0 \<and> unat n = ms_saved y t)"
proof -
  have "mutex_inv y"
    by (rule monitor_mutex.run_inv [OF _ monitor_start_mutex_inv [OF assms(1)] assms(2)]) (simp add: list_all_iff)
  note facts = mutex_inv_facts [OF this]
  show ?thesis using facts by blast
qed

text \<open>A recursive mutex locked twice, waited on, taken by another thread and taken back.\<close>

definition exclusion_mutex :: mutex where
  "exclusion_mutex = \<lparr>mx_name = ''m'', mx_owner = None, mx_count = 0, mx_type = 2, mx_pprotocol = 0\<rparr>"

definition exclusion_events :: "mevent list" where
  "exclusion_events = [MLock 0 None 0, MLock 0 None 0, MLock 1 (Some 20000) 0, MTimedwait 0 1000 0, MLockWake 1, MSignal,
     MWaitWake 0, MRelock 0 0, MUnlock 1, MRelockWake 0]"

lemmas monitor_eval = run.simps monitor_exec.simps monitor_start_def after_lock_def after_wait_def begin_wait_def
  after_relock_def after_signal_def PthreadCondInitNamed_def PthreadCondWait_def PthreadCondTimedwait_def
  PthreadCondTimedwaitAbs_def cond_wait_begin_def CondWait_test_def CondWait_wake_def wait_over_def cond_ready_def
  CondRemoveWaiter_def CondAddWaiter_def CondWakeWaiter_def CondClearWaiters_def PthreadCondSignal_def
  PthreadCondSignalto_def PthreadCondBroadcast_def stop_waiting_def set_waiting_def
  NativeMutexLock_def NativeMutexLock_test_def NativeMutexLock_wake_def NativeMutexLock_deadline_def
  NativeMutexTrylock_def NativeMutexUnlock_def NativeMutexLockRecurse_def NativeMutexLockRecurse_test_def
  NativeMutexLockRecurse_wake_def NativeMutexLockRecurse_finish_def mutex_take_def micros_after_def poll_interval_def
  SIGNAL_APC_POLL_MICROS_def CondWait_result_def ac_begin_def ac_wake_def ac_signal_def ac_broadcast_def ac_end_def Let_def

lemma exclusion_run:
  "\<exists>y. run (monitor_exec 64) exclusion_events (monitor_start exclusion_mutex 0 ''c'' (\<lambda>_. 0)) = Some y \<and>
     mx_owner (ms_mutex y) = Some 0 \<and> mx_count (ms_mutex y) = 2 \<and> ms_held y 0 = 2 \<and> ms_result y 0 = Some OK"
  by (simp add: exclusion_events_def exclusion_mutex_def monitor_eval OK_def)

lemma pthread_mutex_exclusion_witness:
  "\<exists>y. run (monitor_exec 64) exclusion_events (monitor_start exclusion_mutex 0 ''c'' (\<lambda>_. 0)) = Some y \<and>
     ms_held y 0 = 2 \<and> (\<forall>t. 0 < ms_held y t \<longleftrightarrow> mx_owner (ms_mutex y) = Some t)"
proof -
  have m: "PthreadMutexInitNamed \<lparr>ma_pprotocol = 0, ma_type = 2\<rparr> ''m'' 0 0 = Some exclusion_mutex"
    by (simp add: PthreadMutexInitNamed_def exclusion_mutex_def)
  obtain y where y: "run (monitor_exec 64) exclusion_events (monitor_start exclusion_mutex 0 ''c'' (\<lambda>_. 0)) = Some y"
    "ms_held y 0 = 2"
    using exclusion_run by blast
  show ?thesis using y pthread_mutex_exclusion [OF m y(1)] by blast
qed

end
