(* ===== verification/MonitorCond.thy ===== *)
theory MonitorCond
  imports MonitorProps
begin

text \<open>
  The condition variables of \<open>pthread.cpp\<close> implement the abstract one, a first-in first-out queue of
  waiting threads and the set of woken ones: the list of waiters is the queue, the sequence numbers
  say exactly who was woken, and a wait succeeds exactly for a woken thread.
\<close>

abbreviation ms_cd :: "msystem \<Rightarrow> cond" where "ms_cd y \<equiv> mo_cond (ms_mon y)"
abbreviation ms_ths :: "msystem \<Rightarrow> threads" where "ms_ths y \<equiv> mo_threads (ms_mon y)"
abbreviation ms_queue :: "msystem \<Rightarrow> pthread list" where "ms_queue y \<equiv> ac_queue (ms_cond y)"
abbreviation ms_woken :: "msystem \<Rightarrow> pthread set" where "ms_woken y \<equiv> ac_woken (ms_cond y)"

subsection \<open>The list of waiters and the sequence numbers\<close>

text \<open>What a waiting thread captured, against the sequence numbers now.\<close>

definition queued_ok :: "cond \<Rightarrow> thread_wait \<Rightarrow> cond_wait \<Rightarrow> bool" where
  "queued_ok cd th w \<longleftrightarrow> tw_cond_sequence th = cw_thread_sequence w \<and> cn_sequence cd = cw_sequence w"

definition woken_ok :: "cond \<Rightarrow> thread_wait \<Rightarrow> cond_wait \<Rightarrow> bool" where
  "woken_ok cd th w \<longleftrightarrow>
     tw_cond_sequence th \<noteq> cw_thread_sequence w \<and> cw_sequence w \<le> cn_sequence cd \<or> cw_sequence w < cn_sequence cd"

definition waiters_ok :: "cond_ptr \<Rightarrow> (pthread \<Rightarrow> thread_pc) \<Rightarrow> cond \<Rightarrow> threads \<Rightarrow> abs_cond \<Rightarrow> bool" where
  "waiters_ok c pc cd ths a \<longleftrightarrow>
     cn_waiters cd = ac_queue a \<and> distinct (ac_queue a) \<and> set (ac_queue a) \<inter> ac_woken a = {} \<and>
     (\<forall>t. tw_waiting_cond (ths t) = Some c \<longleftrightarrow> t \<in> set (ac_queue a)) \<and>
     (\<forall>t. (\<exists>w. pc t = CondWaiting w) \<longleftrightarrow> t \<in> set (ac_queue a) \<union> ac_woken a) \<and>
     (\<forall>t w. pc t = CondWaiting w \<longrightarrow> (if t \<in> ac_woken a then woken_ok cd (ths t) w else queued_ok cd (ths t) w))"

definition cond_inv :: "cond_ptr \<Rightarrow> msystem \<Rightarrow> bool" where
  "cond_inv c y \<longleftrightarrow> waiters_ok c (ms_pc y) (ms_cd y) (ms_ths y) (ms_cond y) \<and>
     (\<forall>t r n. ms_pc y t = Relocking r n \<longrightarrow> (r = OK \<longleftrightarrow> ms_woke y t) \<and> (r = OK \<or> r = ETIMEDOUT))"

lemma waiters_okD:
  assumes "waiters_ok c pc cd ths a"
  shows "cn_waiters cd = ac_queue a" "distinct (ac_queue a)" "set (ac_queue a) \<inter> ac_woken a = {}"
    "tw_waiting_cond (ths t) = Some c \<longleftrightarrow> t \<in> set (ac_queue a)"
    "(\<exists>w. pc t = CondWaiting w) \<longleftrightarrow> t \<in> set (ac_queue a) \<union> ac_woken a"
    "pc t = CondWaiting w \<Longrightarrow> t \<in> ac_woken a \<Longrightarrow> woken_ok cd (ths t) w"
    "pc t = CondWaiting w \<Longrightarrow> t \<notin> ac_woken a \<Longrightarrow> queued_ok cd (ths t) w"
  using assms unfolding waiters_ok_def by presburger+

lemma waiters_okI:
  assumes "cn_waiters cd = ac_queue a" "distinct (ac_queue a)" "set (ac_queue a) \<inter> ac_woken a = {}"
    "\<And>t. tw_waiting_cond (ths t) = Some c \<longleftrightarrow> t \<in> set (ac_queue a)"
    "\<And>t. (\<exists>w. pc t = CondWaiting w) \<longleftrightarrow> t \<in> set (ac_queue a) \<union> ac_woken a"
    "\<And>t w. pc t = CondWaiting w \<Longrightarrow> t \<in> ac_woken a \<Longrightarrow> woken_ok cd (ths t) w"
    "\<And>t w. pc t = CondWaiting w \<Longrightarrow> t \<notin> ac_woken a \<Longrightarrow> queued_ok cd (ths t) w"
  shows "waiters_ok c pc cd ths a"
  unfolding waiters_ok_def using assms by presburger

text \<open>A waiting thread is ready exactly when it was woken.\<close>

lemma ready_iff_woken:
  assumes ok: "waiters_ok c pc (mo_cond s) (mo_threads s) a" and pc: "pc t = CondWaiting w"
  shows "cond_ready w t s \<longleftrightarrow> t \<in> ac_woken a"
proof (cases "t \<in> ac_woken a")
  case True
  then show ?thesis using waiters_okD(6) [OF ok pc] unfolding woken_ok_def cond_ready_def by auto
next
  case False
  then show ?thesis using waiters_okD(7) [OF ok pc] unfolding queued_ok_def cond_ready_def by auto
qed


subsection \<open>The operations on the waiters\<close>

lemma CondWakeWaiter_Some:
  assumes ok: "waiters_ok c pc cd ths a" and p: "CondWakeWaiter c (Some t) (cd, ths) = (b, cd', ths')"
  shows "waiters_ok c pc cd' ths' (ac_wake t a)" "b \<longleftrightarrow> t \<in> set (ac_queue a)"
proof -
  note D = waiters_okD [OF ok]
  show b: "b \<longleftrightarrow> t \<in> set (ac_queue a)" using p D(1) by (auto simp: CondWakeWaiter_def Let_def split: if_splits)
  show "waiters_ok c pc cd' ths' (ac_wake t a)"
  proof (cases "t \<in> set (ac_queue a)")
    case t: True
    have w: "tw_waiting_cond (ths t) = Some c" using D(4) t by simp
    have cd': "cd' = cd\<lparr>cn_waiters := remove1 t (ac_queue a)\<rparr>"
      using p D(1) t by (auto simp: CondWakeWaiter_def Let_def split: if_splits)
    have ths': "ths' = ths(t := \<lparr>tw_cond_sequence = tw_cond_sequence (ths t) + 1, tw_waiting_cond = None\<rparr>)"
      using p D(1) t w by (auto simp: CondWakeWaiter_def Let_def stop_waiting_def set_waiting_def split: if_splits)
    have set: "set (remove1 t (ac_queue a)) = set (ac_queue a) - {t}" using D(2) by simp
    have nw: "t \<notin> ac_woken a" using t D(3) by blast
    have a': "ac_queue (ac_wake t a) = remove1 t (ac_queue a)" "ac_woken (ac_wake t a) = insert t (ac_woken a)"
      using t by (simp_all add: ac_wake_def)
    show ?thesis
    proof (rule waiters_okI)
      show "woken_ok cd' (ths' u) w" if "pc u = CondWaiting w" "u \<in> ac_woken (ac_wake t a)" for u w
      proof (cases "u = t")
        case True
        then have "queued_ok cd (ths t) w" using D(7) [OF that(1)] nw by simp
        then show ?thesis unfolding woken_ok_def queued_ok_def cd' ths' True by simp
      next
        case False
        then show ?thesis using D(6) [OF that(1)] that(2) unfolding a' woken_ok_def cd' ths' by simp
      qed
      show "queued_ok cd' (ths' u) w" if "pc u = CondWaiting w" "u \<notin> ac_woken (ac_wake t a)" for u w
        using D(7) [OF that(1)] that(2) unfolding a' queued_ok_def cd' ths' by simp
      show "(\<exists>w. pc u = CondWaiting w) \<longleftrightarrow> u \<in> set (ac_queue (ac_wake t a)) \<union> ac_woken (ac_wake t a)" for u
        using D(5) [of u] t unfolding a' set by blast
      show "tw_waiting_cond (ths' u) = Some c \<longleftrightarrow> u \<in> set (ac_queue (ac_wake t a))" for u
        using D(4) [of u] unfolding a' set ths' by simp
      show "set (ac_queue (ac_wake t a)) \<inter> ac_woken (ac_wake t a) = {}" using D(3) unfolding a' set by blast
    qed (use D(2) cd' a' in simp_all)
  next
    case False
    then have "cd' = cd" "ths' = ths" "ac_wake t a = a"
      using p D(1) by (auto simp: CondWakeWaiter_def ac_wake_def)
    then show ?thesis using ok by simp
  qed
qed

lemma PthreadCondSignal_ok:
  assumes ok: "waiters_ok c pc cd ths a" and p: "PthreadCondSignal c (cd, ths) = (b, cd', ths')"
  shows "waiters_ok c pc cd' ths' (ac_signal a)"
proof (cases "ac_queue a")
  case Nil
  then show ?thesis
    using ok p waiters_okD(1) [OF ok] by (simp add: PthreadCondSignal_def CondWakeWaiter_def ac_signal_def)
next
  case (Cons t q)
  have "CondWakeWaiter c None (cd, ths) = CondWakeWaiter c (Some t) (cd, ths)"
    using Cons waiters_okD(1) [OF ok] by (simp add: CondWakeWaiter_def)
  then have "waiters_ok c pc cd' ths' (ac_wake t a)"
    using CondWakeWaiter_Some(1) [OF ok, of t] p by (simp add: PthreadCondSignal_def)
  then show ?thesis using Cons by (simp add: ac_signal_def)
qed

lemma fold_stop_waiting:
  "tw_cond_sequence (fold (stop_waiting c) q ths t) = tw_cond_sequence (ths t)"
  "tw_waiting_cond (fold (stop_waiting c) q ths t) =
     (if t \<in> set q \<and> tw_waiting_cond (ths t) = Some c then None else tw_waiting_cond (ths t))"
  by (induction q arbitrary: ths) (auto simp: stop_waiting_def set_waiting_def)

lemma PthreadCondBroadcast_ok:
  assumes ok: "waiters_ok c pc cd ths a" and p: "PthreadCondBroadcast c (cd, ths) = (b, cd', ths')"
    and lt: "cn_sequence cd < u64_max"
  shows "waiters_ok c pc cd' ths' (ac_broadcast a)"
proof (cases "ac_queue a = []")
  case True
  then have "ac_broadcast a = a" by (simp add: ac_broadcast_def)
  then show ?thesis using True ok p waiters_okD(1) [OF ok] by (auto simp: PthreadCondBroadcast_def)
next
  case False
  note D = waiters_okD [OF ok]
  have cd': "cd' = cd\<lparr>cn_sequence := cn_sequence cd + 1, cn_waiters := []\<rparr>" and ths': "ths' = fold (stop_waiting c) (ac_queue a) ths"
    using p False D(1) by (auto simp: PthreadCondBroadcast_def CondClearWaiters_def)
  have up: "cn_sequence cd < cn_sequence cd + 1"
    using lt by (simp add: less_u64 unat_plus_u64)
  have a': "ac_queue (ac_broadcast a) = []" "ac_woken (ac_broadcast a) = ac_woken a \<union> set (ac_queue a)"
    by (simp_all add: ac_broadcast_def)
  show ?thesis
  proof (rule waiters_okI)
    show "woken_ok cd' (ths' u) w" if w: "pc u = CondWaiting w" "u \<in> ac_woken (ac_broadcast a)" for u w
    proof -
      have "cw_sequence w \<le> cn_sequence cd"
      proof (cases "u \<in> ac_woken a")
        case True
        then show ?thesis using D(6) [OF w(1)] unfolding woken_ok_def by auto
      next
        case False
        then show ?thesis using D(7) [OF w(1)] unfolding queued_ok_def by simp
      qed
      then show ?thesis using up unfolding woken_ok_def cd' by auto
    qed
    show "queued_ok cd' (ths' u) w" if "pc u = CondWaiting w" "u \<notin> ac_woken (ac_broadcast a)" for u w
      using D(5) [of u] that unfolding a' by blast
    show "(\<exists>w. pc u = CondWaiting w) \<longleftrightarrow> u \<in> set (ac_queue (ac_broadcast a)) \<union> ac_woken (ac_broadcast a)" for u
      using D(5) [of u] unfolding a' by auto
    show "tw_waiting_cond (ths' u) = Some c \<longleftrightarrow> u \<in> set (ac_queue (ac_broadcast a))" for u
      using D(4) [of u] unfolding a' ths' fold_stop_waiting by simp
  qed (simp_all add: a' cd')
qed


subsection \<open>Waits\<close>

lemma wait_started_ok:
  assumes ok: "waiters_ok c pc (mo_cond s) (mo_threads s) a" and pc: "\<forall>w. pc t \<noteq> CondWaiting w"
    and st: "wait_started c t s w s1"
  shows "waiters_ok c (pc(t := CondWaiting w)) (mo_cond s1) (mo_threads s1) (ac_begin t a)"
proof -
  note D = waiters_okD [OF ok]
  have cd: "mo_cond s1 = (mo_cond s)\<lparr>cn_waiters := ac_queue a @ [t]\<rparr>" and ths: "mo_threads s1 = set_waiting (Some c) t (mo_threads s)"
    and w: "cw_sequence w = cn_sequence (mo_cond s)" "cw_thread_sequence w = tw_cond_sequence (mo_threads s t)"
    using st D(1) by (simp_all add: wait_started_def CondAddWaiter_def)
  have fresh: "t \<notin> set (ac_queue a)" "t \<notin> ac_woken a" using D(5) [of t] pc by blast+
  have a': "ac_queue (ac_begin t a) = ac_queue a @ [t]" "ac_woken (ac_begin t a) = ac_woken a"
    by (simp_all add: ac_begin_def)
  show ?thesis
  proof (rule waiters_okI)
    show "tw_waiting_cond (mo_threads s1 u) = Some c \<longleftrightarrow> u \<in> set (ac_queue (ac_begin t a))" for u
      using D(4) [of u] by (simp add: a' ths set_waiting_def)
    show "(\<exists>v. (pc(t := CondWaiting w)) u = CondWaiting v) \<longleftrightarrow> u \<in> set (ac_queue (ac_begin t a)) \<union> ac_woken (ac_begin t a)" for u
      using D(5) [of u] by (simp add: a')
    show "woken_ok (mo_cond s1) (mo_threads s1 u) v" if "(pc(t := CondWaiting w)) u = CondWaiting v" "u \<in> ac_woken (ac_begin t a)" for u v
    proof -
      have "u \<noteq> t" "u \<in> ac_woken a" using that(2) fresh(2) by (auto simp: a')
      then show ?thesis using D(6) [of u v] that(1) by (simp add: woken_ok_def cd ths set_waiting_def)
    qed
    show "queued_ok (mo_cond s1) (mo_threads s1 u) v" if "(pc(t := CondWaiting w)) u = CondWaiting v" "u \<notin> ac_woken (ac_begin t a)" for u v
      using D(7) [of u v] that w by (cases "u = t") (simp_all add: queued_ok_def cd ths set_waiting_def a')
  qed (use D(2,3) fresh in \<open>auto simp: a' cd\<close>)
qed

lemma wait_over_ok:
  assumes ok: "waiters_ok c pc (mo_cond s) (mo_threads s) a" and pc: "pc t = CondWaiting w" and q: "\<forall>v. x \<noteq> CondWaiting v"
    and p: "wait_over c t w r s = (st, s')"
  shows "waiters_ok c (pc(t := x)) (mo_cond s') (mo_threads s') (ac_end t a)"
proof -
  note D = waiters_okD [OF ok]
  have cd: "mo_cond s' = (mo_cond s)\<lparr>cn_waiters := remove1 t (ac_queue a)\<rparr>"
    using p D(1) by (auto simp: wait_over_def CondRemoveWaiter_def remove1_idem split: if_splits)
  have ths: "mo_threads s' = stop_waiting c t (mo_threads s)"
  proof (cases "t \<in> set (ac_queue a)")
    case True
    then show ?thesis using p D(1) by (auto simp: wait_over_def CondRemoveWaiter_def)
  next
    case False
    then have "tw_waiting_cond (mo_threads s t) \<noteq> Some c" using D(4) by blast
    then show ?thesis using p D(1) False by (auto simp: wait_over_def CondRemoveWaiter_def stop_waiting_def)
  qed
  have a': "ac_queue (ac_end t a) = remove1 t (ac_queue a)" "ac_woken (ac_end t a) = ac_woken a - {t}"
    by (simp_all add: ac_end_def)
  have set: "set (remove1 t (ac_queue a)) = set (ac_queue a) - {t}" using D(2) by simp
  have seqs: "tw_cond_sequence (mo_threads s' u) = tw_cond_sequence (mo_threads s u)" for u
    by (simp add: ths stop_waiting_def set_waiting_def)
  show ?thesis
  proof (rule waiters_okI)
    show "tw_waiting_cond (mo_threads s' u) = Some c \<longleftrightarrow> u \<in> set (ac_queue (ac_end t a))" for u
      using D(4) [of u] unfolding a' set ths by (auto simp: stop_waiting_def set_waiting_def)
    show "(\<exists>v. (pc(t := x)) u = CondWaiting v) \<longleftrightarrow> u \<in> set (ac_queue (ac_end t a)) \<union> ac_woken (ac_end t a)" for u
      using D(5) [of u] q unfolding a' set by (cases "u = t") simp_all
    show "woken_ok (mo_cond s') (mo_threads s' u) v" if "(pc(t := x)) u = CondWaiting v" "u \<in> ac_woken (ac_end t a)" for u v
      using D(6) [of u v] that q by (cases "u = t") (simp_all add: a' woken_ok_def cd seqs)
    show "queued_ok (mo_cond s') (mo_threads s' u) v" if "(pc(t := x)) u = CondWaiting v" "u \<notin> ac_woken (ac_end t a)" for u v
      using D(7) [of u v] that q by (cases "u = t") (simp_all add: a' queued_ok_def cd seqs)
    show "set (ac_queue (ac_end t a)) \<inter> ac_woken (ac_end t a) = {}" using D(3) unfolding a' set by blast
  qed (use D(2) in \<open>simp_all add: a' cd\<close>)
qed


subsection \<open>The refinement in every run\<close>

lemma cond_invD:
  assumes "cond_inv c y"
  shows "waiters_ok c (ms_pc y) (ms_cd y) (ms_ths y) (ms_cond y)"
    "ms_pc y t = Relocking r n \<Longrightarrow> (r = OK \<longleftrightarrow> ms_woke y t) \<and> (r = OK \<or> r = ETIMEDOUT)"
  using assms unfolding cond_inv_def by blast+

text \<open>Events that concern the mutex only.\<close>

lemma waiters_ok_pc:
  assumes "waiters_ok c pc cd ths a" and "\<And>u w. pc' u = CondWaiting w \<longleftrightarrow> pc u = CondWaiting w"
  shows "waiters_ok c pc' cd ths a"
  using assms unfolding waiters_ok_def by simp

lemma cond_inv_upd:
  assumes inv: "cond_inv c y" and "mo_cond (ms_mon y') = ms_cd y" "mo_threads (ms_mon y') = ms_ths y"
    and "ms_cond y' = ms_cond y" "ms_woke y' = ms_woke y"
    and "\<And>u. ms_pc y' u = ms_pc y u \<or> (\<forall>w. ms_pc y u \<noteq> CondWaiting w \<and> ms_pc y' u \<noteq> CondWaiting w) \<and> (\<forall>r n. ms_pc y' u \<noteq> Relocking r n)"
  shows "cond_inv c y'"
  unfolding cond_inv_def
proof (intro conjI allI)
  have same: "ms_pc y' u = CondWaiting w \<longleftrightarrow> ms_pc y u = CondWaiting w" for u w using assms(6) [of u] by metis
  show "waiters_ok c (ms_pc y') (ms_cd y') (ms_ths y') (ms_cond y')"
    using waiters_ok_pc [OF cond_invD(1) [OF inv] same] assms(2,3,4) by simp
next
  show "ms_pc y' u = Relocking r n \<longrightarrow> (r = OK \<longleftrightarrow> ms_woke y' u) \<and> (r = OK \<or> r = ETIMEDOUT)" for u r n
    using assms(6) [of u] assms(5) cond_invD(2) [OF inv] by metis
qed

lemma after_lock_cond:
  assumes "cond_inv c y" and "ms_pc y t = Free \<or> ms_pc y t = Locking d"
  shows "cond_inv c (after_lock t d' p y)"
  by (rule cond_inv_upd [OF assms(1)]; cases "fst p"; use assms(2) in \<open>auto simp: after_lock_def Let_def\<close>)

lemma after_relock_cond:
  assumes "cond_inv c y" and "ms_pc y t = Relocking r n"
  shows "cond_inv c (after_relock t r p y)"
  by (rule cond_inv_upd [OF assms(1)]; cases "fst p"; use assms(2) in \<open>auto simp: after_relock_def Let_def\<close>)

lemma after_wait_cond:
  assumes inv: "cond_inv c y" and pc: "ms_pc y t = CondWaiting w" and p: "wait_progress c t w (ms_mon y) p"
  shows "cond_inv c (after_wait t p y)"
  using p
proof (cases rule: wait_progressE)
  case (1 st)
  then have "after_wait t p y = y" using pc by (cases y) (auto simp: after_wait_def Let_def fun_upd_idem)
  then show ?thesis using inv by simp
next
  case (2 r)
  obtain st s' where o: "wait_over c t w r (ms_mon y) = (st, s')" by fastforce
  have st: "st = Relock r (cw_recurse w)" using wait_over_sel(1) [of c t w r "ms_mon y"] o by simp
  define y' where "y' = y\<lparr>ms_mon := s', ms_pc := (ms_pc y)(t := Relocking r (cw_recurse w)),
      ms_cond := ac_end t (ms_cond y), ms_woke := (ms_woke y)(t := t \<in> ms_woken y)\<rparr>"
  have y': "after_wait t p y = y'" using 2(1) o st by (simp add: after_wait_def y'_def)
  have ready: "r = OK \<longleftrightarrow> t \<in> ms_woken y" using 2(2) ready_iff_woken [OF cond_invD(1) [OF inv] pc] by simp
  show ?thesis
    unfolding y' cond_inv_def
  proof (intro conjI allI)
    show "waiters_ok c (ms_pc y') (ms_cd y') (ms_ths y') (ms_cond y')"
      using wait_over_ok [OF cond_invD(1) [OF inv] pc _ o, of "Relocking r (cw_recurse w)"] by (simp add: y'_def)
    show "ms_pc y' u = Relocking q n \<longrightarrow> (q = OK \<longleftrightarrow> ms_woke y' u) \<and> (q = OK \<or> q = ETIMEDOUT)" for u q n
      using cond_invD(2) [OF inv, of u q n] ready 2(3) by (cases "u = t") (auto simp: y'_def)
  qed
qed

lemma begin_wait_cond:
  assumes inv: "cond_inv c y" and pc: "ms_pc y t = Free" and p: "wait_entered c t (ms_mon y) p"
  shows "cond_inv c (begin_wait t p y)"
proof -
  consider (ret) e where "p = (WaitReturned e, ms_mon y)"
    | (start) w s1 where "wait_started c t (ms_mon y) w s1" "wait_progress c t w s1 p"
    using p unfolding wait_entered_def by blast
  then show ?thesis
  proof cases
    case ret
    show ?thesis by (rule cond_inv_upd [OF inv]) (use ret in \<open>simp_all add: begin_wait_def after_wait_def Let_def\<close>)
  next
    case start
    define z where "z = y\<lparr>ms_held := (ms_held y)(t := 0), ms_saved := (ms_saved y)(t := ms_held y t),
        ms_cond := ac_begin t (ms_cond y), ms_mon := s1, ms_pc := (ms_pc y)(t := CondWaiting w)\<rparr>"
    have f: "fst p = WaitDispatch w \<or> (\<exists>n. fst p = Waiting w n) \<or> (\<exists>r. fst p = Relock r (cw_recurse w))"
      using start(2) by (auto simp: wait_progress_def wait_over_sel)
    then have b: "begin_wait t p y = after_wait t p z"
      unfolding begin_wait_def z_def by (cases y) (auto simp: after_wait_def Let_def)
    have "waiters_ok c (ms_pc z) (ms_cd z) (ms_ths z) (ms_cond z)"
      using wait_started_ok [OF cond_invD(1) [OF inv] _ start(1)] pc unfolding z_def by simp
    moreover have "(r = OK \<longleftrightarrow> ms_woke z u) \<and> (r = OK \<or> r = ETIMEDOUT)" if "ms_pc z u = Relocking r n" for u r n
      using cond_invD(2) [OF inv, of u r n] that unfolding z_def by (cases "u = t") auto
    ultimately have "cond_inv c z" unfolding cond_inv_def by blast
    then show ?thesis unfolding b by (rule after_wait_cond) (use start(2) in \<open>simp_all add: z_def\<close>)
  qed
qed

lemma after_signal_cond:
  assumes inv: "cond_inv c y" and "waiters_ok c (ms_pc y) cd ths a"
  shows "cond_inv c (after_signal (b, cd, ths) a y)"
  using assms(2) cond_invD(2) [OF inv] unfolding cond_inv_def by (auto simp: after_signal_def)

lemma monitor_cond_step:
  assumes inv: "cond_inv c y" and ex: "monitor_exec c e y = Some y'"
  shows "cond_inv c y'"
proof (cases e)
  case MUnlock
  then show ?thesis
    using ex by (auto elim!: monitor_execE split: if_split_asm prod.splits intro!: cond_inv_upd [OF inv])
next
  case MWait
  then show ?thesis
    using ex begin_wait_cond [OF inv _ PthreadCondWait_entered] by (auto elim!: monitor_execE split: if_splits)
next
  case MTimedwait
  then show ?thesis
    using ex begin_wait_cond [OF inv _ PthreadCondTimedwait_entered] by (auto elim!: monitor_execE split: if_splits)
next
  case MWaitUntil
  then show ?thesis
    using ex begin_wait_cond [OF inv _ PthreadCondTimedwaitAbs_entered] by (auto elim!: monitor_execE split: if_splits)
next
  case MWaitTest
  then show ?thesis
    using ex after_wait_cond [OF inv _ CondWait_test_progress] by (auto elim!: monitor_execE split: thread_pc.splits)
next
  case MWaitWake
  then show ?thesis
    using ex after_wait_cond [OF inv _ CondWait_wake_progress] by (auto elim!: monitor_execE split: thread_pc.splits)
next
  case MSignal
  obtain b cd ths where p: "PthreadCondSignal c (ms_cd y, ms_ths y) = (b, cd, ths)" by (rule prod_cases3)
  show ?thesis
    using ex after_signal_cond [OF inv PthreadCondSignal_ok [OF cond_invD(1) [OF inv] p]] p unfolding MSignal by auto
next
  case (MSignalto t)
  obtain b cd ths where p: "CondWakeWaiter c (Some t) (ms_cd y, ms_ths y) = (b, cd, ths)" by (rule prod_cases3)
  show ?thesis
    using ex after_signal_cond [OF inv CondWakeWaiter_Some(1) [OF cond_invD(1) [OF inv] p]] p
    unfolding MSignalto by (auto simp: PthreadCondSignalto_def)
next
  case MBroadcast
  obtain b cd ths where p: "PthreadCondBroadcast c (ms_cd y, ms_ths y) = (b, cd, ths)" by (rule prod_cases3)
  have lt: "cn_sequence (ms_cd y) < u64_max" using ex unfolding MBroadcast by (simp split: if_splits)
  show ?thesis
    using ex after_signal_cond [OF inv PthreadCondBroadcast_ok [OF cond_invD(1) [OF inv] p lt]] p lt
    unfolding MBroadcast by auto
qed (use ex inv in \<open>auto elim!: monitor_execE split: if_splits thread_pc.splits prod.splits intro!: after_lock_cond after_relock_cond\<close>)

interpretation monitor_cond: guarded_system "monitor_exec c" "\<lambda>_. True" "cond_inv c" for c
  by unfold_locales (rule monitor_cond_step)


lemma monitor_start_cond_inv: "cond_inv c (monitor_start m clock_id cname seqs)"
  unfolding cond_inv_def waiters_ok_def monitor_start_def PthreadCondInitNamed_def by simp

lemma woken_wait_succeeds:
  assumes "waiters_ok c pc (mo_cond s) (mo_threads s) a" and "pc t = CondWaiting w" and "t \<in> ac_woken a"
  shows "fst (CondWait_test c t now w s) = Relock OK (cw_recurse w)" "fst (CondWait_wake c t w s) = Relock OK (cw_recurse w)"
  using ready_iff_woken [OF assms(1,2)] assms(3) by (simp_all add: CondWait_test_def CondWait_wake_def wait_over_sel)

text \<open>
  C34: In every interleaving, a condition variable behaves as a first-in first-out queue of waiting
  threads. Its list of waiters is that queue; the threads inside a wait are those in the queue and
  those that a signal or a broadcast took out of it, and a thread finds its wait over exactly when
  it is one of the latter. Such a thread ends its wait successfully the next time it runs, also past
  its deadline, so no signal is lost; a wait that has ended was successful exactly when it was
  woken, and timed out otherwise.
\<close>

theorem pthread_cond_refines_queue:
  assumes "run (monitor_exec c) es (monitor_start m clock_id cname seqs) = Some y"
  shows "cn_waiters (ms_cd y) = ms_queue y \<and> distinct (ms_queue y) \<and> set (ms_queue y) \<inter> ms_woken y = {} \<and>
    (\<forall>t. (\<exists>w. ms_pc y t = CondWaiting w) \<longleftrightarrow> t \<in> set (ms_queue y) \<union> ms_woken y) \<and>
    (\<forall>t w. ms_pc y t = CondWaiting w \<longrightarrow> (cond_ready w t (ms_mon y) \<longleftrightarrow> t \<in> ms_woken y)) \<and>
    (\<forall>t w now. ms_pc y t = CondWaiting w \<and> t \<in> ms_woken y \<longrightarrow>
       fst (CondWait_test c t now w (ms_mon y)) = Relock OK (cw_recurse w) \<and>
       fst (CondWait_wake c t w (ms_mon y)) = Relock OK (cw_recurse w)) \<and>
    (\<forall>t r n. ms_pc y t = Relocking r n \<longrightarrow> (r = OK \<longleftrightarrow> ms_woke y t) \<and> (r = OK \<or> r = ETIMEDOUT))"
proof -
  have inv: "cond_inv c y"
    by (rule monitor_cond.run_inv [OF _ monitor_start_cond_inv assms]) (simp add: list_all_iff)
  note ok = cond_invD(1) [OF inv]
  show ?thesis
    using waiters_okD(1,2,3,5) [OF ok] ready_iff_woken [OF ok] woken_wait_succeeds [OF ok] cond_invD(2) [OF inv] by blast
qed

text \<open>Three threads wait, one is signalled and one times out while it is woken by a broadcast.\<close>

definition cond_events :: "mevent list" where
  "cond_events = [MLock 0 None 0, MWait 0 0, MLock 1 None 0, MTimedwait 1 1000 0, MLock 2 None 0, MTimedwait 2 1 0,
     MWaitTest 2 5000, MSignal, MWaitWake 0]"

lemma cond_run:
  "\<exists>y. run (monitor_exec 64) cond_events (monitor_start exclusion_mutex 0 ''c'' (\<lambda>_. 0)) = Some y \<and>
     ms_pc y 0 = Relocking OK 1 \<and> ms_pc y 2 = Relocking ETIMEDOUT 1 \<and> ms_queue y = [1]"
  by (simp add: cond_events_def exclusion_mutex_def monitor_eval OK_def)

lemma pthread_cond_refines_queue_witness:
  "\<exists>y. run (monitor_exec 64) cond_events (monitor_start exclusion_mutex 0 ''c'' (\<lambda>_. 0)) = Some y \<and>
     cn_waiters (ms_cd y) = [1] \<and> ms_woke y 0 \<and> \<not> ms_woke y 2"
proof -
  obtain y where y: "run (monitor_exec 64) cond_events (monitor_start exclusion_mutex 0 ''c'' (\<lambda>_. 0)) = Some y"
    "ms_pc y 0 = Relocking OK 1" "ms_pc y 2 = Relocking ETIMEDOUT 1" "ms_queue y = [1]"
    using cond_run by blast
  then show ?thesis using pthread_cond_refines_queue [OF y(1)] host_errno_neq_OK(5) by metis
qed


text \<open>
  An absolute time far in the future, as a wait without an end is sometimes written, overflows the
  64-bit nanoseconds in which the deadline is computed.
\<close>

lemma far_deadline_overflows:
  "NativeCondDeadlineFromAbs (Some \<lparr>tv_sec = 9223372036854775807, tv_nsec = 0\<rparr>) (Some \<lparr>tv_sec = 1, tv_nsec = 0\<rparr>) 5 = None"
  by (simp add: NativeCondDeadlineFromAbs_def i64_range_def)

end
