(* ===== verification/RwLock.thy ===== *)
theory RwLock
  imports Mutex
begin

text \<open>
  The read-write locks of \<open>src/src/kernel/pthread.cpp\<close>: \<open>PthreadRwlockPrivate\<close>, the cooperative lock
  function and the exported operations. A blocking lock is one operation per round of its loop: the
  round ends in a result or in a sleep, after which pending signals are dispatched and the next
  round starts. \<open>self\<close> is \<open>g_pthread_self\<close>, \<open>None\<close> for a thread the library does not know.
\<close>

subsection \<open>The lock and its readers\<close>

record reader =
  rd_thread :: pthread
  rd_count :: u32

record rwlock =
  rw_name :: string
  rw_writer :: "pthread option"
  rw_writer_count :: u32
  rw_reader_count :: u32
  rw_waiting_writers :: u32
  rw_readers :: "reader list"

definition PthreadRwlockInitNamed :: "string \<Rightarrow> rwlock" where
  "PthreadRwlockInitNamed name =
     \<lparr>rw_name = name, rw_writer = None, rw_writer_count = 0, rw_reader_count = 0, rw_waiting_writers = 0, rw_readers = []\<rparr>"

definition PthreadRwlockDestroy :: "rwlock \<Rightarrow> int" where
  "PthreadRwlockDestroy rw = (if rw_writer rw \<noteq> None \<or> rw_reader_count rw \<noteq> 0 then KERNEL_ERROR_EBUSY else OK)"

definition RwlockFindReader :: "rwlock \<Rightarrow> pthread \<Rightarrow> reader option" where
  "RwlockFindReader rw t = find (\<lambda>r. rd_thread r = t) (rw_readers rw)"

text \<open>The count of the first entry of a thread, one more.\<close>

fun bump_reader :: "pthread \<Rightarrow> reader list \<Rightarrow> reader list" where
  "bump_reader t [] = []"
| "bump_reader t (r # rs) = (if rd_thread r = t then r\<lparr>rd_count := rd_count r + 1\<rparr> # rs else r # bump_reader t rs)"

definition RwlockAddReader :: "rwlock \<Rightarrow> pthread \<Rightarrow> rwlock" where
  "RwlockAddReader rw t =
     (let readers =
        (if RwlockFindReader rw t \<noteq> None then bump_reader t (rw_readers rw)
         else rw_readers rw @ [\<lparr>rd_thread = t, rd_count = 1\<rparr>])
      in rw\<lparr>rw_readers := readers, rw_reader_count := rw_reader_count rw + 1\<rparr>)"

text \<open>The first entry of a thread, one less and erased at zero.\<close>

fun drop_reader :: "pthread \<Rightarrow> reader list \<Rightarrow> reader list" where
  "drop_reader t [] = []"
| "drop_reader t (r # rs) =
     (if rd_thread r = t
      then (if rd_count r - 1 = 0 then rs else r\<lparr>rd_count := rd_count r - 1\<rparr> # rs)
      else r # drop_reader t rs)"

definition RwlockRemoveReader :: "rwlock \<Rightarrow> pthread \<Rightarrow> bool \<times> rwlock" where
  "RwlockRemoveReader rw t =
     (if RwlockFindReader rw t \<noteq> None
      then (True, rw\<lparr>rw_readers := drop_reader t (rw_readers rw), rw_reader_count := rw_reader_count rw - 1\<rparr>)
      else (False, rw))"


subsection \<open>Locking\<close>

text \<open>The lambda \<open>unregister_writer_wait\<close>, on the lock; the flag is then cleared.\<close>

definition unregister_writer_wait :: "bool \<Rightarrow> rwlock \<Rightarrow> rwlock" where
  "unregister_writer_wait registered rw =
     (if registered then rw\<lparr>rw_waiting_writers := rw_waiting_writers rw - 1\<rparr> else rw)"

definition rw_read_allowed :: "rwlock \<Rightarrow> pthread \<Rightarrow> bool" where
  "rw_read_allowed rw self \<longleftrightarrow>
     rw_writer rw = None \<and> (rw_waiting_writers rw = 0 \<or> RwlockFindReader rw self \<noteq> None) \<or> rw_writer rw = Some self"

text \<open>
  One round of \<open>RwlockLockCooperative\<close>: the result, whether a writer is registered as waiting, and
  the lock. \<open>timeout\<close> is \<open>*timeout_us\<close> with the deadline, \<open>None\<close> for a null pointer.
\<close>

definition rw_wait_or_give_up :: "(u32 \<times> nat) option \<Rightarrow> nat \<Rightarrow> bool \<Rightarrow> rwlock \<Rightarrow> lock_step \<times> bool \<times> rwlock" where
  "rw_wait_or_give_up timeout now registered rw =
     (case timeout of
        Some (us, deadline) \<Rightarrow>
          (if us = 0 \<or> deadline \<le> now
           then (Returned KERNEL_ERROR_ETIMEDOUT, False, unregister_writer_wait registered rw)
           else (WaitFor (poll_interval (Some deadline) now), registered, rw))
      | None \<Rightarrow> (WaitFor (poll_interval None now), registered, rw))"

definition RwlockLock_round ::
  "bool \<Rightarrow> pthread \<Rightarrow> (u32 \<times> nat) option \<Rightarrow> nat \<Rightarrow> bool \<Rightarrow> rwlock \<Rightarrow> lock_step \<times> bool \<times> rwlock" where
  "RwlockLock_round write self timeout now registered rw =
     (if write
      then
        (if rw_writer rw = Some self \<or> RwlockFindReader rw self \<noteq> None
         then (Returned KERNEL_ERROR_EDEADLK, False, unregister_writer_wait registered rw)
         else if rw_writer rw = None \<and> rw_reader_count rw = 0
         then (Returned OK, False,
               (unregister_writer_wait registered rw)\<lparr>rw_writer := Some self, rw_writer_count := 1\<rparr>)
         else
           rw_wait_or_give_up timeout now True
             (if registered then rw else rw\<lparr>rw_waiting_writers := rw_waiting_writers rw + 1\<rparr>))
      else
        (if rw_read_allowed rw self then (Returned OK, registered, RwlockAddReader rw self)
         else rw_wait_or_give_up timeout now registered rw))"

definition rw_deadline :: "u32 option \<Rightarrow> nat \<Rightarrow> (u32 \<times> nat) option" where
  "rw_deadline timeout_us now = map_option (\<lambda>us. (us, micros_after now us)) timeout_us"

definition RwlockLockCooperative ::
  "bool \<Rightarrow> pthread option \<Rightarrow> u32 option \<Rightarrow> nat \<Rightarrow> rwlock \<Rightarrow> lock_step \<times> bool \<times> rwlock" where
  "RwlockLockCooperative write self timeout_us now rw =
     (case self of
        None \<Rightarrow> (Returned KERNEL_ERROR_EINVAL, False, rw)
      | Some t \<Rightarrow> RwlockLock_round write t (rw_deadline timeout_us now) now False rw)"

definition PthreadRwlockRdlock :: "pthread option \<Rightarrow> nat \<Rightarrow> rwlock \<Rightarrow> lock_step \<times> bool \<times> rwlock" where
  "PthreadRwlockRdlock self now rw = RwlockLockCooperative False self None now rw"

definition PthreadRwlockTimedrdlock :: "pthread option \<Rightarrow> u32 \<Rightarrow> nat \<Rightarrow> rwlock \<Rightarrow> lock_step \<times> bool \<times> rwlock" where
  "PthreadRwlockTimedrdlock self usec now rw = RwlockLockCooperative False self (Some usec) now rw"

definition PthreadRwlockTimedwrlock :: "pthread option \<Rightarrow> u32 \<Rightarrow> nat \<Rightarrow> rwlock \<Rightarrow> lock_step \<times> bool \<times> rwlock" where
  "PthreadRwlockTimedwrlock self usec now rw = RwlockLockCooperative True self (Some usec) now rw"

definition PthreadRwlockWrlock :: "pthread option \<Rightarrow> nat \<Rightarrow> rwlock \<Rightarrow> lock_step \<times> bool \<times> rwlock" where
  "PthreadRwlockWrlock self now rw = RwlockLockCooperative True self None now rw"

definition PthreadRwlockTryrdlock :: "pthread option \<Rightarrow> rwlock \<Rightarrow> int \<times> rwlock" where
  "PthreadRwlockTryrdlock self rw =
     (case self of
        None \<Rightarrow> (KERNEL_ERROR_EINVAL, rw)
      | Some t \<Rightarrow> (if rw_read_allowed rw t then (OK, RwlockAddReader rw t) else (KERNEL_ERROR_EBUSY, rw)))"

definition PthreadRwlockTrywrlock :: "pthread option \<Rightarrow> rwlock \<Rightarrow> int \<times> rwlock" where
  "PthreadRwlockTrywrlock self rw =
     (case self of
        None \<Rightarrow> (KERNEL_ERROR_EINVAL, rw)
      | Some t \<Rightarrow>
          (if rw_writer rw = Some t \<or> RwlockFindReader rw t \<noteq> None then (KERNEL_ERROR_EDEADLK, rw)
           else if rw_writer rw = None \<and> rw_reader_count rw = 0
           then (OK, rw\<lparr>rw_writer := Some t, rw_writer_count := 1\<rparr>)
           else (KERNEL_ERROR_EBUSY, rw)))"

text \<open>\<open>None\<close> where \<open>EXIT_IF\<close> ends the program: a writer with a count of zero.\<close>

definition PthreadRwlockUnlock :: "pthread option \<Rightarrow> rwlock \<Rightarrow> (int \<times> rwlock) option" where
  "PthreadRwlockUnlock self rw =
     (case self of
        None \<Rightarrow> Some (KERNEL_ERROR_EINVAL, rw)
      | Some t \<Rightarrow>
          (case RwlockRemoveReader rw t of
             (True, rw') \<Rightarrow> Some (OK, rw')
           | (False, _) \<Rightarrow>
               (if rw_writer rw = Some t
                then
                  (if rw_writer_count rw = 0 then None
                   else
                     let n = rw_writer_count rw - 1
                     in Some (OK, rw\<lparr>rw_writer_count := n, rw_writer := (if n = 0 then None else rw_writer rw)\<rparr>))
                else Some (KERNEL_ERROR_EPERM, rw))))"

end
