(* ===== verification/RwLockProps.thy ===== *)
theory RwLockProps
  imports RwLock
begin

text \<open>
  The read-write locks in every interleaving of their operations: a writer excludes every other
  thread, the readers and the counts are exactly the holds of the threads and the waiting writers,
  the unlock operation never finds an inconsistent writer, and readers do not overtake a waiting
  writer.
\<close>

subsection \<open>The table of readers\<close>

abbreviation reader_threads :: "rwlock \<Rightarrow> pthread list" where
  "reader_threads rw \<equiv> map rd_thread (rw_readers rw)"

text \<open>\<open>h\<close> is how often each thread holds the lock for reading.\<close>

definition readers_ok :: "(pthread \<Rightarrow> nat) \<Rightarrow> rwlock \<Rightarrow> bool" where
  "readers_ok h rw \<longleftrightarrow> distinct (reader_threads rw) \<and>
     (\<forall>r \<in> set (rw_readers rw). 0 < h (rd_thread r) \<and> unat (rd_count r) = h (rd_thread r)) \<and>
     (\<forall>t. t \<notin> set (reader_threads rw) \<longrightarrow> h t = 0) \<and>
     unat (rw_reader_count rw) = sum_list (map h (reader_threads rw))"

lemma readers_okD:
  assumes "readers_ok h rw"
  shows "distinct (reader_threads rw)" "r \<in> set (rw_readers rw) \<Longrightarrow> 0 < h (rd_thread r)"
    "r \<in> set (rw_readers rw) \<Longrightarrow> unat (rd_count r) = h (rd_thread r)" "t \<notin> set (reader_threads rw) \<Longrightarrow> h t = 0"
    "unat (rw_reader_count rw) = sum_list (map h (reader_threads rw))"
  using assms unfolding readers_ok_def by blast+

lemma find_reader_iff: "RwlockFindReader rw t \<noteq> None \<longleftrightarrow> t \<in> set (reader_threads rw)"
  unfolding RwlockFindReader_def using find_None_iff [of "\<lambda>r. rd_thread r = t" "rw_readers rw"] by auto

lemma find_reader_holds:
  assumes "readers_ok h rw"
  shows "RwlockFindReader rw t \<noteq> None \<longleftrightarrow> 0 < h t"
  using readers_okD(2,4) [OF assms] unfolding find_reader_iff by fastforce

lemma no_readers_iff:
  assumes "readers_ok h rw"
  shows "rw_reader_count rw = 0 \<longleftrightarrow> (\<forall>t. h t = 0)"
proof -
  note D = readers_okD [OF assms]
  have "rw_reader_count rw = 0 \<longleftrightarrow> sum_list (map h (reader_threads rw)) = 0" using D(5) by (metis unat_eq_zero)
  also have "\<dots> \<longleftrightarrow> (\<forall>t \<in> set (reader_threads rw). h t = 0)" by (simp add: sum_list_eq_0_iff)
  also have "\<dots> \<longleftrightarrow> (\<forall>t. h t = 0)" using D(4) by blast
  finally show ?thesis .
qed

lemma sum_list_upd_notin: "t \<notin> set ts \<Longrightarrow> sum_list (map (h(t := n)) ts) = sum_list (map h ts)"
  by (induction ts) auto

lemma sum_list_upd:
  assumes "distinct ts" and "t \<in> set ts"
  shows "sum_list (map (h(t := n)) ts) + h t = sum_list (map h ts) + (n :: nat)"
  using assms by (induction ts) (auto simp: sum_list_upd_notin)

lemma bump_reader_threads [simp]: "map rd_thread (bump_reader t rs) = map rd_thread rs"
  by (induction rs) auto

lemma bump_reader_set:
  assumes "distinct (map rd_thread rs)"
  shows "set (bump_reader t rs) = (\<lambda>r. if rd_thread r = t then r\<lparr>rd_count := rd_count r + 1\<rparr> else r) ` set rs"
  using assms by (induction rs) (force simp: image_iff)+

lemma u32_le_sum: "t \<in> set ts \<Longrightarrow> h t \<le> sum_list (map h ts)" for h :: "pthread \<Rightarrow> nat"
  by (simp add: member_le_sum_list)

lemma unat_u32_Suc:
  assumes "unat c < 4294967295"
  shows "unat ((c :: u32) + 1) = Suc (unat c)"
  using assms by (simp add: unat_word_ariths)

lemma RwlockAddReader_ok:
  assumes ok: "readers_ok h rw" and lt: "rw_reader_count rw < u32_max"
  shows "readers_ok (h(t := Suc (h t))) (RwlockAddReader rw t)"
proof -
  note D = readers_okD [OF ok]
  have lt': "unat (rw_reader_count rw) < 4294967295" using lt by (simp add: word_less_nat_alt)
  have up: "unat (rw_reader_count rw + 1) = Suc (unat (rw_reader_count rw))" by (rule unat_u32_Suc [OF lt'])
  show ?thesis
  proof (cases "t \<in> set (reader_threads rw)")
    case t: True
    define rw' where "rw' = rw\<lparr>rw_readers := bump_reader t (rw_readers rw), rw_reader_count := rw_reader_count rw + 1\<rparr>"
    have e: "RwlockAddReader rw t = rw'" using t unfolding RwlockAddReader_def rw'_def find_reader_iff by simp
    have ts: "reader_threads rw' = reader_threads rw" by (simp add: rw'_def)
    have cnt: "0 < (h(t := Suc (h t))) (rd_thread r) \<and> unat (rd_count r) = (h(t := Suc (h t))) (rd_thread r)"
      if "r \<in> set (rw_readers rw')" for r
    proof -
      have "r \<in> set (bump_reader t (rw_readers rw))" using that by (simp add: rw'_def)
      then obtain q where q: "q \<in> set (rw_readers rw)" "r = (if rd_thread q = t then q\<lparr>rd_count := rd_count q + 1\<rparr> else q)"
        unfolding bump_reader_set [OF D(1)] image_iff by blast
      have "h (rd_thread q) \<le> unat (rw_reader_count rw)" unfolding D(5) by (rule u32_le_sum) (use q(1) in simp)
      then have "unat (rd_count q + 1) = Suc (unat (rd_count q))" using unat_u32_Suc D(3) [OF q(1)] lt' by simp
      then show ?thesis using q(2) D(2,3) [OF q(1)] by auto
    qed
    have sum: "unat (rw_reader_count rw') = sum_list (map (h(t := Suc (h t))) (reader_threads rw'))"
      unfolding ts using sum_list_upd [OF D(1) t, of h "Suc (h t)"] up D(5) by (simp add: rw'_def)
    have "(h(t := Suc (h t))) u = 0" if "u \<notin> set (reader_threads rw')" for u
      using that t D(4) [of u] unfolding ts by (cases "u = t") simp_all
    then show ?thesis unfolding e readers_ok_def using cnt sum D(1) ts by metis
  next
    case t: False
    define rw' where "rw' = rw\<lparr>rw_readers := rw_readers rw @ [\<lparr>rd_thread = t, rd_count = 1\<rparr>], rw_reader_count := rw_reader_count rw + 1\<rparr>"
    have e: "RwlockAddReader rw t = rw'" using t unfolding RwlockAddReader_def rw'_def find_reader_iff by simp
    have ht: "h t = 0" using D(4) t by blast
    have ts: "reader_threads rw' = reader_threads rw @ [t]" by (simp add: rw'_def)
    have cnt: "0 < (h(t := Suc (h t))) (rd_thread r) \<and> unat (rd_count r) = (h(t := Suc (h t))) (rd_thread r)"
      if r: "r \<in> set (rw_readers rw')" for r
    proof (cases "r \<in> set (rw_readers rw)")
      case True
      then have "rd_thread r \<noteq> t" using t by auto
      then show ?thesis using D(2,3) [OF True] by simp
    next
      case False
      then show ?thesis using r ht by (simp add: rw'_def)
    qed
    have sum: "unat (rw_reader_count rw') = sum_list (map (h(t := Suc (h t))) (reader_threads rw'))"
      unfolding ts using sum_list_upd_notin [OF t, of h "Suc (h t)"] up D(5) ht by (simp add: rw'_def)
    have zero: "(h(t := Suc (h t))) u = 0" if "u \<notin> set (reader_threads rw')" for u
      using that D(4) [of u] unfolding ts by simp
    have "distinct (reader_threads rw')" unfolding ts using D(1) t by simp
    then show ?thesis unfolding e readers_ok_def using cnt sum zero by blast
  qed
qed

lemma drop_reader_other:
  "t \<notin> set (map rd_thread rs) \<Longrightarrow> drop_reader t rs = rs"
  by (induction rs) auto

lemma drop_reader_split:
  assumes "distinct (map rd_thread rs)" and "r \<in> set rs"
  obtains xs ys where "rs = xs @ r # ys"
    "drop_reader (rd_thread r) rs = xs @ (if rd_count r - 1 = 0 then ys else r\<lparr>rd_count := rd_count r - 1\<rparr> # ys)"
  using assms
proof (induction rs arbitrary: thesis)
  case (Cons q rs)
  show ?case
  proof (cases "q = r")
    case True
    then show ?thesis using Cons.prems(1) [of "[]" rs] by simp
  next
    case False
    then have r: "r \<in> set rs" "rd_thread q \<noteq> rd_thread r" using Cons.prems(2,3) by auto
    obtain xs ys where "rs = xs @ r # ys"
      "drop_reader (rd_thread r) rs = xs @ (if rd_count r - 1 = 0 then ys else r\<lparr>rd_count := rd_count r - 1\<rparr> # ys)"
      using Cons.IH [OF _ _ r(1)] Cons.prems(2) by auto
    then show ?thesis using Cons.prems(1) [of "q # xs" ys] r(2) by simp
  qed
qed simp


lemma RwlockRemoveReader_ok:
  assumes ok: "readers_ok h rw" and p: "RwlockRemoveReader rw t = (b, rw')"
  shows "b \<longleftrightarrow> 0 < h t" and "readers_ok (h(t := h t - 1)) rw'"
    and "rw_writer rw' = rw_writer rw" "rw_writer_count rw' = rw_writer_count rw" "rw_waiting_writers rw' = rw_waiting_writers rw"
    and "\<not> b \<Longrightarrow> rw' = rw"
proof -
  note D = readers_okD [OF ok]
  show b: "b \<longleftrightarrow> 0 < h t" and "rw_writer rw' = rw_writer rw" "rw_writer_count rw' = rw_writer_count rw"
    "rw_waiting_writers rw' = rw_waiting_writers rw" "\<not> b \<Longrightarrow> rw' = rw"
    using p find_reader_holds [OF ok, of t] by (auto simp: RwlockRemoveReader_def split: if_splits)
  show "readers_ok (h(t := h t - 1)) rw'"
  proof (cases b)
    case False
    then have "h t = 0" "rw' = rw" using b p by (auto simp: RwlockRemoveReader_def split: if_splits)
    then show ?thesis using ok by (simp add: fun_upd_idem)
  next
    case True
    then obtain r where r: "r \<in> set (rw_readers rw)" "rd_thread r = t"
      using b D(4) [of t] by fastforce
    have cr: "unat (rd_count r) = h t" "0 < h t" using D(2,3) [OF r(1)] r(2) by auto
    then have cr1: "unat (rd_count r - 1) = h t - 1" by (simp add: unat_sub word_le_nat_alt)
    obtain xs ys where s: "rw_readers rw = xs @ r # ys"
      and d: "drop_reader t (rw_readers rw) = xs @ (if rd_count r - 1 = 0 then ys else r\<lparr>rd_count := rd_count r - 1\<rparr> # ys)"
      using drop_reader_split [OF D(1) r(1)] r(2) by metis
    have rw': "rw' = rw\<lparr>rw_readers := xs @ (if rd_count r - 1 = 0 then ys else r\<lparr>rd_count := rd_count r - 1\<rparr> # ys),
        rw_reader_count := rw_reader_count rw - 1\<rparr>"
      using p True unfolding RwlockRemoveReader_def d by (auto split: if_splits)
    define h' where "h' = h(t := h t - 1)"
    have z: "rd_count r - 1 = 0 \<longleftrightarrow> h' t = 0" using cr1 unfolding h'_def by (metis fun_upd_same unat_eq_zero)
    have dist: "distinct (map rd_thread xs @ t # map rd_thread ys)" using D(1) r(2) s by simp
    have other: "h' (rd_thread q) = h (rd_thread q)" "q \<in> set (rw_readers rw)" "rd_thread q \<noteq> t" if "q \<in> set xs \<union> set ys" for q
    proof -
      show n: "rd_thread q \<noteq> t" using that dist by auto
      show "h' (rd_thread q) = h (rd_thread q)" using n by (simp add: h'_def)
      show "q \<in> set (rw_readers rw)" using that s by auto
    qed
    have cnt: "0 < h' (rd_thread q) \<and> unat (rd_count q) = h' (rd_thread q)" if q: "q \<in> set (rw_readers rw')" for q
    proof (cases "q \<in> set xs \<union> set ys")
      case True
      then show ?thesis using other [OF True] D(2,3) by simp
    next
      case False
      then have "h' t \<noteq> 0" "q = r\<lparr>rd_count := rd_count r - 1\<rparr>" using q z unfolding rw' by (auto split: if_splits)
      then show ?thesis using cr1 r(2) unfolding h'_def by simp
    qed
    have le: "1 \<le> unat (rw_reader_count rw)"
      using u32_le_sum [of t "reader_threads rw" h] r cr(2) unfolding D(5) by force
    have "unat (rw_reader_count rw - 1) = unat (rw_reader_count rw) - 1"
      using le by (simp add: unat_sub word_le_nat_alt)
    moreover have "sum_list (map h' (reader_threads rw)) + h t = sum_list (map h (reader_threads rw)) + (h t - 1)"
      unfolding h'_def by (rule sum_list_upd) (use D(1) r in auto)
    moreover have "sum_list (map h' (reader_threads rw')) = sum_list (map h' (reader_threads rw))"
      unfolding rw' s using z r(2) by auto
    ultimately have sum: "unat (rw_reader_count rw') = sum_list (map h' (reader_threads rw'))"
      using D(5) cr(2) le unfolding rw' by simp
    have zero: "h' u = 0" if u: "u \<notin> set (reader_threads rw')" for u
    proof (cases "u = t")
      case True
      then show ?thesis using u z r(2) unfolding rw' by (auto split: if_splits)
    next
      case False
      then have "u \<notin> set (reader_threads rw)" using u r(2) unfolding rw' s by (auto split: if_splits)
      then show ?thesis using D(4) False by (simp add: h'_def)
    qed
    have "distinct (reader_threads rw')" using dist r(2) unfolding rw' by auto
    then show ?thesis unfolding h'_def [symmetric] readers_ok_def using cnt sum zero by blast
  qed
qed

subsection \<open>Threads and events\<close>

datatype rw_pc = RwFree | RwWaiting bool "(u32 \<times> nat) option" bool

record rwsystem =
  rs_lock :: rwlock
  rs_pc :: "pthread \<Rightarrow> rw_pc"
  rs_reads :: "pthread \<Rightarrow> nat"
  rs_writer :: "pthread option"
  rs_waiting :: "pthread list"

datatype rw_event =
    RwLock bool pthread "u32 option" nat
  | RwRound pthread nat
  | RwTryRead pthread
  | RwTryWrite pthread
  | RwUnlock pthread

text \<open>What a thread holds after a successful lock.\<close>

definition rw_got :: "bool \<Rightarrow> pthread \<Rightarrow> int \<Rightarrow> rwlock \<Rightarrow> rwsystem \<Rightarrow> rwsystem" where
  "rw_got write t r rw y =
     y\<lparr>rs_lock := rw, rs_pc := (rs_pc y)(t := RwFree),
       rs_reads := (rs_reads y)(t := (if r = OK \<and> \<not> write then Suc (rs_reads y t) else rs_reads y t)),
       rs_writer := (if r = OK \<and> write then Some t else rs_writer y), rs_waiting := remove1 t (rs_waiting y)\<rparr>"

definition after_round :: "bool \<Rightarrow> pthread \<Rightarrow> (u32 \<times> nat) option \<Rightarrow> lock_step \<times> bool \<times> rwlock \<Rightarrow> rwsystem \<Rightarrow> rwsystem" where
  "after_round write t timeout p y =
     (let (st, reg, rw) = p
      in
        case st of
          Returned r \<Rightarrow> rw_got write t r rw y
        | _ \<Rightarrow> y\<lparr>rs_lock := rw, rs_pc := (rs_pc y)(t := RwWaiting write timeout reg),
                 rs_waiting := (if write \<and> t \<notin> set (rs_waiting y) then t # rs_waiting y else rs_waiting y)\<rparr>)"

definition after_unlock :: "pthread \<Rightarrow> int \<times> rwlock \<Rightarrow> rwsystem \<Rightarrow> rwsystem" where
  "after_unlock t p y =
     (if fst p = OK \<and> 0 < rs_reads y t
      then y\<lparr>rs_lock := snd p, rs_reads := (rs_reads y)(t := rs_reads y t - 1)\<rparr>
      else y\<lparr>rs_lock := snd p, rs_writer := (if fst p = OK then None else rs_writer y)\<rparr>)"

text \<open>Fewer than \<open>2 ^ 32 - 1\<close> read holds and waiting writers at a time.\<close>

definition rw_room :: "rwsystem \<Rightarrow> bool" where
  "rw_room y \<longleftrightarrow> rw_reader_count (rs_lock y) < u32_max \<and> rw_waiting_writers (rs_lock y) < u32_max"

fun rw_exec :: "rw_event \<Rightarrow> rwsystem \<Rightarrow> rwsystem option" where
  "rw_exec (RwLock write t timeout_us now) y =
     (if rs_pc y t = RwFree \<and> rw_room y
      then Some (after_round write t (rw_deadline timeout_us now)
                   (RwlockLockCooperative write (Some t) timeout_us now (rs_lock y)) y)
      else None)"
| "rw_exec (RwRound t now) y =
     (case rs_pc y t of
        RwWaiting write timeout reg \<Rightarrow>
          (if rw_room y then Some (after_round write t timeout (RwlockLock_round write t timeout now reg (rs_lock y)) y) else None)
      | RwFree \<Rightarrow> None)"
| "rw_exec (RwTryRead t) y =
     (if rs_pc y t = RwFree \<and> rw_room y
      then (let (r, rw) = PthreadRwlockTryrdlock (Some t) (rs_lock y) in Some (rw_got False t r rw y))
      else None)"
| "rw_exec (RwTryWrite t) y =
     (if rs_pc y t = RwFree \<and> rw_room y
      then (let (r, rw) = PthreadRwlockTrywrlock (Some t) (rs_lock y) in Some (rw_got True t r rw y))
      else None)"
| "rw_exec (RwUnlock t) y =
     (if rs_pc y t = RwFree then map_option (\<lambda>p. after_unlock t p y) (PthreadRwlockUnlock (Some t) (rs_lock y)) else None)"

fun_cases rw_execE:
  "rw_exec (RwLock write t timeout_us now) y = Some y'" "rw_exec (RwRound t now) y = Some y'"
  "rw_exec (RwTryRead t) y = Some y'" "rw_exec (RwTryWrite t) y = Some y'" "rw_exec (RwUnlock t) y = Some y'"

definition rw_start :: "string \<Rightarrow> rwsystem" where
  "rw_start name = \<lparr>rs_lock = PthreadRwlockInitNamed name, rs_pc = (\<lambda>_. RwFree), rs_reads = (\<lambda>_. 0),
                    rs_writer = None, rs_waiting = []\<rparr>"


subsection \<open>The invariant\<close>

definition holds_ok :: "(pthread \<Rightarrow> nat) \<Rightarrow> pthread option \<Rightarrow> rwlock \<Rightarrow> bool" where
  "holds_ok h wr rw \<longleftrightarrow> readers_ok h rw \<and> rw_writer rw = wr \<and> rw_writer_count rw = (if wr = None then 0 else 1) \<and>
     (\<forall>w t. wr = Some w \<and> 0 < h t \<longrightarrow> t = w)"

definition waiting_ok :: "(pthread \<Rightarrow> rw_pc) \<Rightarrow> pthread list \<Rightarrow> rwlock \<Rightarrow> bool" where
  "waiting_ok pc ws rw \<longleftrightarrow> distinct ws \<and> unat (rw_waiting_writers rw) = length ws \<and>
     (\<forall>t. t \<in> set ws \<longleftrightarrow> (\<exists>timeout reg. pc t = RwWaiting True timeout reg)) \<and>
     (\<forall>t write timeout reg. pc t = RwWaiting write timeout reg \<longrightarrow> (reg \<longleftrightarrow> write))"

definition rw_inv :: "rwsystem \<Rightarrow> bool" where
  "rw_inv y \<longleftrightarrow> holds_ok (rs_reads y) (rs_writer y) (rs_lock y) \<and> waiting_ok (rs_pc y) (rs_waiting y) (rs_lock y)"

lemma holds_okD:
  assumes "holds_ok h wr rw"
  shows "readers_ok h rw" "rw_writer rw = wr" "rw_writer_count rw = (if wr = None then 0 else 1)"
    "wr = Some w \<Longrightarrow> 0 < h t \<Longrightarrow> t = w"
  using assms unfolding holds_ok_def by blast+

lemma waiting_okD:
  assumes "waiting_ok pc ws rw"
  shows "distinct ws" "unat (rw_waiting_writers rw) = length ws"
    "t \<in> set ws \<longleftrightarrow> (\<exists>timeout reg. pc t = RwWaiting True timeout reg)"
    "pc t = RwWaiting write timeout reg \<Longrightarrow> reg \<longleftrightarrow> write"
  using assms unfolding waiting_ok_def by blast+

lemma unregister_sel [simp]:
  "rw_writer (unregister_writer_wait reg rw) = rw_writer rw" "rw_readers (unregister_writer_wait reg rw) = rw_readers rw"
  "rw_writer_count (unregister_writer_wait reg rw) = rw_writer_count rw"
  "rw_reader_count (unregister_writer_wait reg rw) = rw_reader_count rw"
  by (simp_all add: unregister_writer_wait_def)

text \<open>The holds depend on the fields of the lock but not on the waiting writers.\<close>

lemma holds_ok_cong:
  assumes "holds_ok h wr rw" and "rw_readers rw' = rw_readers rw" "rw_reader_count rw' = rw_reader_count rw"
    "rw_writer rw' = rw_writer rw" "rw_writer_count rw' = rw_writer_count rw"
  shows "holds_ok h wr rw'"
  using assms(1) unfolding holds_ok_def readers_ok_def assms(2-5) .

lemma holds_ok_read:
  assumes ok: "holds_ok h wr rw" and may: "rw_read_allowed rw t" and lt: "rw_reader_count rw < u32_max"
  shows "holds_ok (h(t := Suc (h t))) wr (RwlockAddReader rw t)"
proof -
  note H = holds_okD [OF ok]
  have s: "rw_writer (RwlockAddReader rw t) = rw_writer rw" "rw_writer_count (RwlockAddReader rw t) = rw_writer_count rw"
    by (simp_all add: RwlockAddReader_def Let_def)
  have "wr = None \<or> wr = Some t" using may H(2) unfolding rw_read_allowed_def by auto
  then show ?thesis
    unfolding holds_ok_def s using RwlockAddReader_ok [OF H(1) lt] H(2,3,4) by auto
qed

lemma holds_ok_write:
  assumes ok: "holds_ok h wr rw" and "rw_writer rw = None" and "rw_reader_count rw = 0"
  shows "holds_ok h (Some t) (rw\<lparr>rw_writer := Some t, rw_writer_count := 1\<rparr>)"
proof -
  have "\<forall>u. h u = 0" using no_readers_iff [OF holds_okD(1) [OF ok]] assms(3) by simp
  then show ?thesis using holds_okD(1) [OF ok] unfolding holds_ok_def readers_ok_def by simp
qed

lemma waiting_ok_done:
  assumes ok: "waiting_ok pc ws rw" and n: "unat (rw_waiting_writers rw') = length (remove1 t ws)"
  shows "waiting_ok (pc(t := RwFree)) (remove1 t ws) rw'"
  unfolding waiting_ok_def using waiting_okD [OF ok] n by (simp add: fun_upd_def)

lemma waiting_unregister:
  assumes ok: "waiting_ok pc ws rw" and reg: "reg \<longleftrightarrow> t \<in> set ws"
  shows "unat (rw_waiting_writers (unregister_writer_wait reg rw)) = length (remove1 t ws)"
proof (cases reg)
  case True
  then have "1 \<le> unat (rw_waiting_writers rw)" using waiting_okD(2) [OF ok] reg by (cases ws) auto
  then show ?thesis
    using True reg waiting_okD(2) [OF ok]
    by (simp add: unregister_writer_wait_def unat_sub word_le_nat_alt length_remove1)
next
  case False
  then show ?thesis using reg waiting_okD(2) [OF ok] by (simp add: unregister_writer_wait_def remove1_idem)
qed

lemma waiting_ok_wait:
  assumes ok: "waiting_ok pc ws rw" and reg: "reg \<longleftrightarrow> t \<in> set ws" and w: "\<not> write \<longrightarrow> \<not> reg"
    and lt: "rw_waiting_writers rw < u32_max"
  shows "waiting_ok (pc(t := RwWaiting write timeout write)) (if write \<and> t \<notin> set ws then t # ws else ws)
           (if write \<and> \<not> reg then rw\<lparr>rw_waiting_writers := rw_waiting_writers rw + 1\<rparr> else rw)"
proof -
  note W = waiting_okD [OF ok]
  have "unat (rw_waiting_writers rw) < 4294967295" using lt by (simp add: word_less_nat_alt)
  then have up: "unat (rw_waiting_writers rw + 1) = Suc (unat (rw_waiting_writers rw))" by (rule unat_u32_Suc)
  have pc: "u \<in> set ws \<longleftrightarrow> (\<exists>a b. pc u = RwWaiting True a b)" for u by (rule W(3))
  show ?thesis
    unfolding waiting_ok_def
  proof (intro conjI allI impI)
    show "distinct (if write \<and> t \<notin> set ws then t # ws else ws)" using W(1) by simp
    show "unat (rw_waiting_writers (if write \<and> \<not> reg then rw\<lparr>rw_waiting_writers := rw_waiting_writers rw + 1\<rparr> else rw)) =
        length (if write \<and> t \<notin> set ws then t # ws else ws)"
      using W(2) up reg by simp
    show "u \<in> set (if write \<and> t \<notin> set ws then t # ws else ws) \<longleftrightarrow>
        (\<exists>a b. (pc(t := RwWaiting write timeout write)) u = RwWaiting True a b)" for u
      using pc [of u] reg w by (cases "write"; cases "u = t") auto
    show "b \<longleftrightarrow> x" if "(pc(t := RwWaiting write timeout write)) u = RwWaiting x a b" for u x a b
      using that W(4) [of u x a b] by (cases "u = t") auto
  qed
qed

lemma rw_invI:
  assumes "holds_ok (rs_reads y) (rs_writer y) (rs_lock y)" and "waiting_ok (rs_pc y) (rs_waiting y) (rs_lock y)"
  shows "rw_inv y"
  using assms unfolding rw_inv_def by blast

lemma rw_invD:
  assumes "rw_inv y"
  shows "holds_ok (rs_reads y) (rs_writer y) (rs_lock y)" "waiting_ok (rs_pc y) (rs_waiting y) (rs_lock y)"
  using assms unfolding rw_inv_def by blast+

lemma rw_got_inv:
  assumes inv: "rw_inv y" and n: "unat (rw_waiting_writers rw) = length (remove1 t (rs_waiting y))"
    and "holds_ok ((rs_reads y)(t := (if r = OK \<and> \<not> write then Suc (rs_reads y t) else rs_reads y t)))
           (if r = OK \<and> write then Some t else rs_writer y) rw"
  shows "rw_inv (rw_got write t r rw y)"
  by (rule rw_invI) (use assms(3) waiting_ok_done [OF rw_invD(2) [OF inv] n] in \<open>simp_all add: rw_got_def\<close>)

lemma rw_error_neq_OK [simp]:
  "KERNEL_ERROR_EDEADLK \<noteq> OK" "KERNEL_ERROR_ETIMEDOUT \<noteq> OK" "KERNEL_ERROR_EBUSY \<noteq> OK" "KERNEL_ERROR_EINVAL \<noteq> OK"
  "KERNEL_ERROR_EPERM \<noteq> OK"
  by (simp_all add: errno_defs)

text \<open>A round that neither takes the lock nor gives up leaves the holds alone.\<close>

lemma rw_wait_inv:
  assumes inv: "rw_inv y" and reg: "reg \<longleftrightarrow> t \<in> set (rs_waiting y)" and w: "\<not> write \<longrightarrow> \<not> reg" and room: "rw_room y"
  shows "rw_inv (after_round write t timeout
     (rw_wait_or_give_up timeout now write
        (if write \<and> \<not> reg then (rs_lock y)\<lparr>rw_waiting_writers := rw_waiting_writers (rs_lock y) + 1\<rparr> else rs_lock y)) y)"
    (is "rw_inv (after_round _ _ _ (rw_wait_or_give_up _ _ _ ?rw) _)")
proof -
  note ok = rw_invD [OF inv]
  have lt: "rw_waiting_writers (rs_lock y) < u32_max" using room unfolding rw_room_def by blast
  note wt = waiting_ok_wait [OF ok(2) reg w lt]
  have h: "holds_ok (rs_reads y) (rs_writer y) ?rw" by (rule holds_ok_cong [OF ok(1)]) simp_all
  show ?thesis
  proof (cases "\<exists>us d. timeout = Some (us, d) \<and> (us = 0 \<or> d \<le> now)")
    case True
    then have p: "rw_wait_or_give_up timeout now write ?rw = (Returned KERNEL_ERROR_ETIMEDOUT, False, unregister_writer_wait write ?rw)"
      by (auto simp: rw_wait_or_give_up_def)
    have ws: "remove1 t (if write \<and> t \<notin> set (rs_waiting y) then t # rs_waiting y else rs_waiting y) = remove1 t (rs_waiting y)"
      by (simp add: remove1_idem)
    have "write \<longleftrightarrow> t \<in> set (if write \<and> t \<notin> set (rs_waiting y) then t # rs_waiting y else rs_waiting y)" using reg w by auto
    note n = waiting_unregister [OF wt this, unfolded ws]
    show ?thesis
      unfolding p after_round_def prod.case lock_step.case Let_def
      by (rule rw_got_inv [OF inv n]) (simp add: fun_upd_idem holds_ok_cong [OF h])
  next
    case False
    then obtain k where p: "rw_wait_or_give_up timeout now write ?rw = (WaitFor k, write, ?rw)"
      by (fastforce simp: rw_wait_or_give_up_def split: option.splits)
    show ?thesis
      unfolding p after_round_def prod.case lock_step.case Let_def
      by (rule rw_invI) (use h wt in simp_all)
  qed
qed


lemma remove_absent:
  assumes "waiting_ok pc ws rw" and "t \<notin> set ws"
  shows "unat (rw_waiting_writers rw) = length (remove1 t ws)"
  using waiting_okD(2) [OF assms(1)] assms(2) by (simp add: remove1_idem)

lemma round_inv:
  assumes inv: "rw_inv y" and reg: "reg \<longleftrightarrow> t \<in> set (rs_waiting y)" and w: "\<not> write \<longrightarrow> \<not> reg" and room: "rw_room y"
  shows "rw_inv (after_round write t timeout (RwlockLock_round write t timeout now reg (rs_lock y)) y)"
proof -
  note ok = rw_invD [OF inv]
  define rw where "rw = rs_lock y"
  define un where "un = unregister_writer_wait reg rw"
  have n: "unat (rw_waiting_writers un) = length (remove1 t (rs_waiting y))"
    unfolding un_def rw_def by (rule waiting_unregister [OF ok(2) reg])
  have hun: "holds_ok (rs_reads y) (rs_writer y) un"
    by (rule holds_ok_cong [OF ok(1)]) (simp_all add: un_def rw_def)
  show ?thesis
  proof (cases "write")
    case wr: True
    consider (dead) "rw_writer rw = Some t \<or> RwlockFindReader rw t \<noteq> None"
      | (take) "\<not> (rw_writer rw = Some t \<or> RwlockFindReader rw t \<noteq> None)" "rw_writer rw = None \<and> rw_reader_count rw = 0"
      | (wait) "\<not> (rw_writer rw = Some t \<or> RwlockFindReader rw t \<noteq> None)" "\<not> (rw_writer rw = None \<and> rw_reader_count rw = 0)"
      by blast
    then show ?thesis
    proof cases
      case dead
      then have p: "RwlockLock_round write t timeout now reg rw = (Returned KERNEL_ERROR_EDEADLK, False, un)"
        using wr by (simp add: RwlockLock_round_def un_def)
      show ?thesis
        unfolding rw_def [symmetric] p after_round_def prod.case lock_step.case Let_def
        by (rule rw_got_inv [OF inv n]) (simp add: fun_upd_idem hun)
    next
      case take
      have p: "RwlockLock_round write t timeout now reg rw = (Returned OK, False, un\<lparr>rw_writer := Some t, rw_writer_count := 1\<rparr>)"
        unfolding RwlockLock_round_def un_def using wr take by (simp only: simp_thms if_True if_False)
      have "holds_ok (rs_reads y) (Some t) (un\<lparr>rw_writer := Some t, rw_writer_count := 1\<rparr>)"
        by (rule holds_ok_write [OF hun]) (use take(2) in \<open>simp_all add: un_def\<close>)
      then show ?thesis
        unfolding rw_def [symmetric] p after_round_def prod.case lock_step.case Let_def
        by (intro rw_got_inv [OF inv]) (simp_all add: n wr fun_upd_idem)
    next
      case wait
      have p: "RwlockLock_round write t timeout now reg rw = rw_wait_or_give_up timeout now write
          (if write \<and> \<not> reg then rw\<lparr>rw_waiting_writers := rw_waiting_writers rw + 1\<rparr> else rw)"
        unfolding RwlockLock_round_def using wr wait by (cases reg) (simp_all only: simp_thms if_True if_False)
      show ?thesis unfolding rw_def [symmetric] p unfolding rw_def by (rule rw_wait_inv [OF inv reg w room])
    qed
  next
    case rd: False
    then have nr: "\<not> reg" "t \<notin> set (rs_waiting y)" using w reg by blast+
    show ?thesis
    proof (cases "rw_read_allowed rw t")
      case True
      then have p: "RwlockLock_round write t timeout now reg rw = (Returned OK, reg, RwlockAddReader rw t)"
        using rd by (simp add: RwlockLock_round_def)
      have n': "unat (rw_waiting_writers (RwlockAddReader rw t)) = length (remove1 t (rs_waiting y))"
        using remove_absent [OF ok(2) nr(2)] by (simp add: RwlockAddReader_def Let_def rw_def)
      have lt: "rw_reader_count rw < u32_max" using room unfolding rw_room_def rw_def by blast
      show ?thesis
        unfolding rw_def [symmetric] p after_round_def prod.case lock_step.case Let_def
        by (rule rw_got_inv [OF inv n']) (use rd holds_ok_read [OF ok(1) _ _] True lt in \<open>simp add: rw_def\<close>)
    next
      case False
      then have p: "RwlockLock_round write t timeout now reg rw = rw_wait_or_give_up timeout now write
          (if write \<and> \<not> reg then rw\<lparr>rw_waiting_writers := rw_waiting_writers rw + 1\<rparr> else rw)"
        using rd nr by (simp add: RwlockLock_round_def)
      show ?thesis unfolding rw_def [symmetric] p unfolding rw_def by (rule rw_wait_inv [OF inv reg w room])
    qed
  qed
qed

lemma unlock_cases:
  assumes ok: "holds_ok h wr rw"
  obtains r rw' where "PthreadRwlockUnlock (Some t) rw = Some (r, rw')"
    "r = (if 0 < h t \<or> wr = Some t then OK else KERNEL_ERROR_EPERM)"
    "rw_waiting_writers rw' = rw_waiting_writers rw"
    "if 0 < h t then holds_ok (h(t := h t - 1)) wr rw' else if wr = Some t then holds_ok h None rw' else rw' = rw"
proof -
  note H = holds_okD [OF ok]
  obtain b rw' where p: "RwlockRemoveReader rw t = (b, rw')" by fastforce
  note R = RwlockRemoveReader_ok [OF H(1) p]
  show thesis
  proof (cases b)
    case True
    have pos: "0 < h t" using True R(1) by simp
    have u: "PthreadRwlockUnlock (Some t) rw = Some (OK, rw')" using p True by (simp add: PthreadRwlockUnlock_def)
    have "holds_ok (h(t := h t - 1)) wr rw'"
      unfolding holds_ok_def R(3,4) using R(2) H(2,3) H(4) by (auto split: if_splits)
    then show thesis using that [OF u _ R(5)] pos by simp
  next
    case no: False
    have z: "h t = 0" using no R(1) by simp
    show thesis
    proof (cases "wr = Some t")
      case True
      define rw'' where "rw'' = rw\<lparr>rw_writer_count := 0, rw_writer := None\<rparr>"
      have u: "PthreadRwlockUnlock (Some t) rw = Some (OK, rw'')"
        using p no H(2,3) True by (simp add: PthreadRwlockUnlock_def rw''_def)
      have "holds_ok h None rw''" using H(1) unfolding holds_ok_def readers_ok_def rw''_def by simp
      then show thesis using that [OF u] True z by (simp add: rw''_def)
    next
      case False
      then have u: "PthreadRwlockUnlock (Some t) rw = Some (KERNEL_ERROR_EPERM, rw)"
        using p no H(2) by (simp add: PthreadRwlockUnlock_def)
      show thesis using that [OF u] False z by simp
    qed
  qed
qed


lemma not_waiting:
  assumes "rw_inv y" and "rs_pc y t = RwFree"
  shows "t \<notin> set (rs_waiting y)"
  using waiting_okD(3) [OF rw_invD(2) [OF assms(1)], of t] assms(2) by simp

lemma unlock_inv_rw:
  assumes inv: "rw_inv y" and u: "PthreadRwlockUnlock (Some t) (rs_lock y) = Some p"
  shows "rw_inv (after_unlock t p y)"
proof -
  note ok = rw_invD [OF inv]
  obtain r rw' where p: "p = (r, rw')" and r: "r = (if 0 < rs_reads y t \<or> rs_writer y = Some t then OK else KERNEL_ERROR_EPERM)"
    and n: "rw_waiting_writers rw' = rw_waiting_writers (rs_lock y)"
    and h: "if 0 < rs_reads y t then holds_ok ((rs_reads y)(t := rs_reads y t - 1)) (rs_writer y) rw'
            else if rs_writer y = Some t then holds_ok (rs_reads y) None rw' else rw' = rs_lock y"
    using unlock_cases [OF ok(1), of t] u by (metis option.inject)
  have wt: "waiting_ok (rs_pc y) (rs_waiting y) rw'" using ok(2) n unfolding waiting_ok_def by simp
  show ?thesis
    by (rule rw_invI) (use ok(1) h r wt in \<open>auto simp: p after_unlock_def split: if_splits\<close>)
qed

lemma try_read_inv:
  assumes inv: "rw_inv y" and pc: "rs_pc y t = RwFree" and room: "rw_room y"
    and p: "PthreadRwlockTryrdlock (Some t) (rs_lock y) = (r, rw)"
  shows "rw_inv (rw_got False t r rw y)"
proof -
  note ok = rw_invD [OF inv]
  note n = remove_absent [OF ok(2) not_waiting [OF inv pc]]
  have lt: "rw_reader_count (rs_lock y) < u32_max" using room unfolding rw_room_def by blast
  show ?thesis
  proof (cases "rw_read_allowed (rs_lock y) t")
    case True
    then have e: "r = OK" "rw = RwlockAddReader (rs_lock y) t" using p by (simp_all add: PthreadRwlockTryrdlock_def)
    show ?thesis
      by (rule rw_got_inv [OF inv]) (use n holds_ok_read [OF ok(1) True lt] in \<open>simp_all add: e RwlockAddReader_def Let_def\<close>)
  next
    case False
    then have e: "r = KERNEL_ERROR_EBUSY" "rw = rs_lock y" using p by (simp_all add: PthreadRwlockTryrdlock_def)
    show ?thesis by (rule rw_got_inv [OF inv]) (use n ok(1) in \<open>simp_all add: e fun_upd_idem\<close>)
  qed
qed

lemma try_write_inv:
  assumes inv: "rw_inv y" and pc: "rs_pc y t = RwFree" and p: "PthreadRwlockTrywrlock (Some t) (rs_lock y) = (r, rw)"
  shows "rw_inv (rw_got True t r rw y)"
proof -
  note ok = rw_invD [OF inv]
  note n = remove_absent [OF ok(2) not_waiting [OF inv pc]]
  show ?thesis
  proof (cases "r = OK")
    case True
    then have e: "rw = (rs_lock y)\<lparr>rw_writer := Some t, rw_writer_count := 1\<rparr>" "rw_writer (rs_lock y) = None" "rw_reader_count (rs_lock y) = 0"
      using p by (auto simp: PthreadRwlockTrywrlock_def split: if_splits)
    show ?thesis
      by (rule rw_got_inv [OF inv]) (use n True holds_ok_write [OF ok(1) e(2,3)] in \<open>simp_all add: e fun_upd_idem\<close>)
  next
    case False
    then have "rw = rs_lock y" using p by (auto simp: PthreadRwlockTrywrlock_def split: if_splits)
    then show ?thesis by (intro rw_got_inv [OF inv]) (use n ok(1) False in \<open>simp_all add: fun_upd_idem\<close>)
  qed
qed

lemma rw_step:
  assumes inv: "rw_inv y" and ex: "rw_exec e y = Some y'"
  shows "rw_inv y'"
proof (cases e)
  case (RwLock w t timeout_us now)
  then have pc: "rs_pc y t = RwFree" and room: "rw_room y" and y': "y' = after_round w t (rw_deadline timeout_us now)
      (RwlockLock_round w t (rw_deadline timeout_us now) now False (rs_lock y)) y"
    using ex by (auto simp: RwlockLockCooperative_def split: if_splits)
  show ?thesis unfolding y' by (rule round_inv [OF inv]) (use not_waiting [OF inv pc] room in simp_all)
next
  case (RwRound t now)
  then obtain w timeout reg where pc: "rs_pc y t = RwWaiting w timeout reg" and room: "rw_room y"
    and y': "y' = after_round w t timeout (RwlockLock_round w t timeout now reg (rs_lock y)) y"
    using ex by (auto split: rw_pc.splits if_splits)
  have "reg \<longleftrightarrow> w" "t \<in> set (rs_waiting y) \<longleftrightarrow> w"
    using waiting_okD(3,4) [OF rw_invD(2) [OF inv]] pc by auto
  then show ?thesis unfolding y' by (intro round_inv [OF inv]) (use room in simp_all)
next
  case (RwTryRead t)
  then show ?thesis using ex try_read_inv [OF inv] by (auto elim!: rw_execE split: if_splits prod.splits)
next
  case (RwTryWrite t)
  then show ?thesis using ex try_write_inv [OF inv] by (auto elim!: rw_execE split: if_splits prod.splits)
next
  case (RwUnlock t)
  then show ?thesis using ex unlock_inv_rw [OF inv] by (auto elim!: rw_execE split: if_splits)
qed

interpretation rw_locks: guarded_system rw_exec "\<lambda>_. True" rw_inv
  by unfold_locales (rule rw_step)

lemma rw_start_inv: "rw_inv (rw_start name)"
  unfolding rw_inv_def holds_ok_def waiting_ok_def readers_ok_def rw_start_def PthreadRwlockInitNamed_def by simp

lemma reader_waits_for_writers:
  assumes inv: "rw_inv y" and "rs_waiting y \<noteq> []" and "rs_reads y t = 0" and "rs_writer y \<noteq> Some t"
  shows "fst (RwlockLock_round False t timeout now False (rs_lock y)) \<noteq> Returned OK"
proof -
  note ok = rw_invD [OF inv]
  have "rw_waiting_writers (rs_lock y) \<noteq> 0" using waiting_okD(2) [OF ok(2)] assms(2) by (cases "rs_waiting y") auto
  moreover have "RwlockFindReader (rs_lock y) t = None" using find_reader_holds [OF holds_okD(1) [OF ok(1)], of t] assms(3) by simp
  ultimately have "\<not> rw_read_allowed (rs_lock y) t" using assms(4) holds_okD(2) [OF ok(1)] unfolding rw_read_allowed_def by simp
  then show ?thesis by (auto simp: RwlockLock_round_def rw_wait_or_give_up_def split: option.splits)
qed

lemma writer_gets_free_lock:
  assumes inv: "rw_inv y" and "rs_writer y = None" and "\<forall>u. rs_reads y u = 0"
  shows "fst (RwlockLock_round True t timeout now reg (rs_lock y)) = Returned OK"
proof -
  note h = holds_okD [OF rw_invD(1) [OF inv]]
  have "RwlockFindReader (rs_lock y) t = None" using find_reader_holds [OF h(1), of t] assms(3) by simp
  then show ?thesis using no_readers_iff [OF h(1)] h(2) assms(2,3) by (simp add: RwlockLock_round_def)
qed


text \<open>Two readers, a writer that waits, a third reader kept out, and the writer taking over.\<close>

definition rw_events :: "rw_event list" where
  "rw_events = [RwLock False 0 None 0, RwLock False 1 None 0, RwLock True 2 None 0, RwLock False 3 (Some 50000) 0,
     RwUnlock 0, RwUnlock 1, RwRound 2 10000000, RwLock False 2 None 0]"

lemma rw_example:
  "\<exists>y. run rw_exec rw_events (rw_start ''l'') = Some y \<and> rs_writer y = Some 2 \<and> rs_reads y 2 = 1 \<and> rs_reads y 0 = 0 \<and>
     (\<exists>to. rs_pc y 3 = RwWaiting False to False)"
  by (simp add: rw_events_def rw_start_def PthreadRwlockInitNamed_def RwlockLockCooperative_def RwlockLock_round_def
      rw_deadline_def rw_read_allowed_def RwlockFindReader_def RwlockAddReader_def RwlockRemoveReader_def
      rw_wait_or_give_up_def after_round_def rw_got_def after_unlock_def unregister_writer_wait_def rw_room_def
      PthreadRwlockUnlock_def micros_after_def poll_interval_def SIGNAL_APC_POLL_MICROS_def)


end
