(* ===== verification/PthreadObjects.thy ===== *)
theory PthreadObjects
  imports Cond RwLock
begin

text \<open>
  Handles of pthread objects in \<open>src/src/kernel/pthread.cpp\<close>: a handle is a word of guest memory with
  a pointer to the object, null or, for a mutex, one for an object that is statically initialised.
  \<open>PthreadStaticObjects\<close> creates such objects on their first use and destroys those of a program
  when it is unloaded. The exported functions resolve their handles through it.
\<close>

subsection \<open>State\<close>

datatype static_type = StaticMutex | StaticCond | StaticRwlock

type_synonym program = nat

record static_object =
  so_type :: static_type
  so_vaddr :: u64
  so_program :: program

text \<open>Guest memory as far as it holds handles, and the objects on the heap.\<close>

record pthread_objects =
  po_cells :: "u64 \<Rightarrow> u64"
  po_mutexes :: "u64 \<rightharpoonup> mutex"
  po_conds :: "u64 \<rightharpoonup> cond"
  po_rwlocks :: "u64 \<rightharpoonup> rwlock"
  po_objects :: "static_object option list"

text \<open>
  What the environment answers during a call: the address of a new object, the program that an
  address belongs to, and the default attributes.
\<close>

record pthread_env =
  pe_fresh :: u64
  pe_program :: "u64 \<Rightarrow> program option"
  pe_mutexattr :: mutexattr
  pe_cond_clock :: int

definition hex_digit :: "nat \<Rightarrow> char" where
  "hex_digit n = ''0123456789abcdef'' ! n"

text \<open>\<open>fmt::format("Static{:016x}", vaddr)\<close>\<close>

definition static_name :: "u64 \<Rightarrow> string" where
  "static_name v = ''Static'' @ map (\<lambda>i. hex_digit (unat (drop_bit (4 * i) v AND 15))) (rev [0..<16])"


subsection \<open>Creation and destruction\<close>

text \<open>
  The outer \<open>None\<close> is a program that exits. The host accepts the type of a static mutex (0).
\<close>

definition PthreadMutexInit_at ::
  "pthread_env \<Rightarrow> u64 \<Rightarrow> mutexattr option \<Rightarrow> string \<Rightarrow> int \<Rightarrow> pthread_objects \<Rightarrow> (int \<times> pthread_objects) option" where
  "PthreadMutexInit_at env addr attr name static_type s =
     (if addr = 0 then Some (KERNEL_ERROR_EINVAL, s)
      else
        map_option (\<lambda>m. (OK, s\<lparr>po_mutexes := (po_mutexes s)(pe_fresh env \<mapsto> m), po_cells := (po_cells s)(addr := pe_fresh env)\<rparr>))
          (PthreadMutexInitNamed (case attr of None \<Rightarrow> pe_mutexattr env | Some a \<Rightarrow> a) name static_type 0))"

definition PthreadCondInit_at ::
  "pthread_env \<Rightarrow> u64 \<Rightarrow> int option \<Rightarrow> string \<Rightarrow> pthread_objects \<Rightarrow> int \<times> pthread_objects" where
  "PthreadCondInit_at env addr attr_clock name s =
     (if addr = 0 then (KERNEL_ERROR_EINVAL, s)
      else
        (OK, s\<lparr>po_conds := (po_conds s)(pe_fresh env \<mapsto>
                  PthreadCondInitNamed (case attr_clock of None \<Rightarrow> pe_cond_clock env | Some k \<Rightarrow> k) name),
               po_cells := (po_cells s)(addr := pe_fresh env)\<rparr>))"

definition PthreadRwlockInit_at :: "pthread_env \<Rightarrow> u64 \<Rightarrow> string \<Rightarrow> pthread_objects \<Rightarrow> int \<times> pthread_objects" where
  "PthreadRwlockInit_at env addr name s =
     (if addr = 0 then (KERNEL_ERROR_EINVAL, s)
      else
        (OK, s\<lparr>po_rwlocks := (po_rwlocks s)(pe_fresh env \<mapsto> PthreadRwlockInitNamed name),
               po_cells := (po_cells s)(addr := pe_fresh env)\<rparr>))"

text \<open>\<open>None\<close> where the source exits on a null handle, or follows a dangling one.\<close>

definition PthreadMutexDestroy_at :: "u64 \<Rightarrow> pthread_objects \<Rightarrow> (int \<times> pthread_objects) option" where
  "PthreadMutexDestroy_at addr s =
     (if addr = 0 \<or> po_cells s addr = 0 then Some (KERNEL_ERROR_EINVAL, s)
      else
        case po_mutexes s (po_cells s addr) of
          None \<Rightarrow> None
        | Some m \<Rightarrow>
            (let r = PthreadMutexDestroy m
             in Some (r, if r \<noteq> OK then s
                         else s\<lparr>po_mutexes := (po_mutexes s)(po_cells s addr := None), po_cells := (po_cells s)(addr := 0)\<rparr>)))"

definition PthreadCondDestroy_at :: "u64 \<Rightarrow> pthread_objects \<Rightarrow> (int \<times> pthread_objects) option" where
  "PthreadCondDestroy_at addr s =
     (if addr = 0 then Some (KERNEL_ERROR_EINVAL, s)
      else if po_cells s addr = 0 \<or> po_conds s (po_cells s addr) = None then None
      else Some (OK, s\<lparr>po_conds := (po_conds s)(po_cells s addr := None), po_cells := (po_cells s)(addr := 0)\<rparr>))"

definition PthreadRwlockDestroy_at :: "u64 \<Rightarrow> pthread_objects \<Rightarrow> (int \<times> pthread_objects) option" where
  "PthreadRwlockDestroy_at addr s =
     (if addr = 0 then Some (KERNEL_ERROR_EINVAL, s)
      else if po_cells s addr = 0 then None
      else
        case po_rwlocks s (po_cells s addr) of
          None \<Rightarrow> None
        | Some rw \<Rightarrow>
            (let r = PthreadRwlockDestroy rw
             in Some (r, if r \<noteq> OK then s
                         else s\<lparr>po_rwlocks := (po_rwlocks s)(po_cells s addr := None), po_cells := (po_cells s)(addr := 0)\<rparr>)))"


subsection \<open>Static objects\<close>

text \<open>The first null entry is reused.\<close>

fun put_object :: "static_object \<Rightarrow> static_object option list \<Rightarrow> static_object option list" where
  "put_object x [] = [Some x]"
| "put_object x (None # xs) = Some x # xs"
| "put_object x (Some y # xs) = Some y # put_object x xs"

definition CreateObject ::
  "pthread_env \<Rightarrow> u64 \<Rightarrow> static_type \<Rightarrow> pthread_objects \<Rightarrow> (u64 \<times> pthread_objects) option" where
  "CreateObject env addr ty s =
     (if addr = 0 then Some (addr, s)
      else
        let adaptive = (ty = StaticMutex \<and> po_cells s addr = 1)
        in
          if po_cells s addr \<noteq> 0 \<and> \<not> adaptive then Some (addr, s)
          else
            case (case ty of
                    StaticMutex \<Rightarrow> PthreadMutexInit_at env addr None (static_name addr) (if adaptive then 4 else 0) s
                  | StaticCond \<Rightarrow> Some (PthreadCondInit_at env addr None (static_name addr) s)
                  | StaticRwlock \<Rightarrow> Some (PthreadRwlockInit_at env addr (static_name addr) s)) of
              None \<Rightarrow> None
            | Some (result, s') \<Rightarrow>
                if result \<noteq> OK then None
                else
                  case pe_program env addr of
                    None \<Rightarrow> Some (addr, s')
                  | Some p \<Rightarrow>
                      Some (addr, s'\<lparr>po_objects := put_object \<lparr>so_type = ty, so_vaddr = addr, so_program = p\<rparr> (po_objects s')\<rparr>))"

definition destroy_object :: "static_object \<Rightarrow> pthread_objects \<Rightarrow> (int \<times> pthread_objects) option" where
  "destroy_object obj s =
     (case so_type obj of
        StaticMutex \<Rightarrow> PthreadMutexDestroy_at (so_vaddr obj) s
      | StaticCond \<Rightarrow> PthreadCondDestroy_at (so_vaddr obj) s
      | StaticRwlock \<Rightarrow> PthreadRwlockDestroy_at (so_vaddr obj) s)"

text \<open>The loop over \<open>m_objects\<close>: the entries of the program are destroyed and become null.\<close>

fun delete_objects ::
  "program \<Rightarrow> static_object option list \<Rightarrow> pthread_objects \<Rightarrow> (static_object option list \<times> pthread_objects) option" where
  "delete_objects p [] s = Some ([], s)"
| "delete_objects p (None # xs) s = map_option (\<lambda>(ys, s'). (None # ys, s')) (delete_objects p xs s)"
| "delete_objects p (Some obj # xs) s =
     (if so_program obj = p
      then
        (case destroy_object obj s of
           None \<Rightarrow> None
         | Some (result, s1) \<Rightarrow>
             if result \<noteq> OK then None
             else map_option (\<lambda>(ys, s'). (None # ys, s')) (delete_objects p xs s1))
      else map_option (\<lambda>(ys, s'). (Some obj # ys, s')) (delete_objects p xs s))"

definition DeleteObjects :: "program \<Rightarrow> pthread_objects \<Rightarrow> pthread_objects option" where
  "DeleteObjects p s = map_option (\<lambda>(xs, s'). s'\<lparr>po_objects := xs\<rparr>) (delete_objects p (po_objects s) s)"


subsection \<open>The exported functions\<close>

text \<open>
  A call on a handle: resolve it, run the critical section on the object and translate its result.
  \<open>None\<close> for an exit or a dangling handle.
\<close>

definition mutex_call ::
  "pthread_env \<Rightarrow> u64 \<Rightarrow> (mutex \<Rightarrow> lock_step \<times> mutex) \<Rightarrow> (int \<Rightarrow> int) \<Rightarrow> pthread_objects \<Rightarrow> (lock_step \<times> pthread_objects) option" where
  "mutex_call env addr f code s =
     (case CreateObject env addr StaticMutex s of
        None \<Rightarrow> None
      | Some (a, s') \<Rightarrow>
          if a = 0 then Some (Returned KERNEL_ERROR_EINVAL, s')
          else
            case po_mutexes s' (po_cells s' a) of
              None \<Rightarrow> None
            | Some m \<Rightarrow>
                (let (st, m') = f m
                 in Some (case st of Returned r \<Rightarrow> Returned (code r) | _ \<Rightarrow> st,
                          s'\<lparr>po_mutexes := (po_mutexes s')(po_cells s' a \<mapsto> m')\<rparr>)))"

definition PthreadMutexLock :: "pthread_env \<Rightarrow> pthread \<Rightarrow> nat \<Rightarrow> u64 \<Rightarrow> pthread_objects \<Rightarrow> (lock_step \<times> pthread_objects) option" where
  "PthreadMutexLock env self now addr = mutex_call env addr (NativeMutexLock self None now) PthreadMutexLock_result"

definition PthreadMutexTrylock :: "pthread_env \<Rightarrow> pthread \<Rightarrow> u64 \<Rightarrow> pthread_objects \<Rightarrow> (lock_step \<times> pthread_objects) option" where
  "PthreadMutexTrylock env self addr =
     mutex_call env addr (\<lambda>m. let (r, m') = NativeMutexTrylock self m in (Returned r, m')) PthreadMutexTrylock_result"

definition PthreadMutexTimedlock ::
  "pthread_env \<Rightarrow> pthread \<Rightarrow> u32 \<Rightarrow> nat \<Rightarrow> u64 \<Rightarrow> pthread_objects \<Rightarrow> (lock_step \<times> pthread_objects) option" where
  "PthreadMutexTimedlock env self usec now addr =
     mutex_call env addr (NativeMutexLock self (Some usec) now) PthreadMutexTimedlock_result"

definition PthreadMutexUnlock :: "pthread_env \<Rightarrow> pthread \<Rightarrow> u64 \<Rightarrow> pthread_objects \<Rightarrow> (lock_step \<times> pthread_objects) option" where
  "PthreadMutexUnlock env self addr =
     mutex_call env addr (\<lambda>m. let (r, _, m') = NativeMutexUnlock self None m in (Returned r, m')) PthreadMutexUnlock_result"

definition rwlock_call ::
  "u64 \<Rightarrow> (rwlock \<Rightarrow> ('r \<times> rwlock) option) \<Rightarrow> 'r \<Rightarrow> pthread_objects \<Rightarrow> ('r \<times> pthread_objects) option" where
  "rwlock_call addr f einval s =
     (if addr = 0 then Some (einval, s)
      else if po_cells s addr = 0 then None
      else
        case po_rwlocks s (po_cells s addr) of
          None \<Rightarrow> None
        | Some rw \<Rightarrow>
            map_option (\<lambda>(r, rw'). (r, s\<lparr>po_rwlocks := (po_rwlocks s)(po_cells s addr \<mapsto> rw')\<rparr>)) (f rw))"

definition rwlock_create_call ::
  "pthread_env \<Rightarrow> u64 \<Rightarrow> (rwlock \<Rightarrow> ('r \<times> rwlock) option) \<Rightarrow> 'r \<Rightarrow> pthread_objects \<Rightarrow> ('r \<times> pthread_objects) option" where
  "rwlock_create_call env addr f einval s =
     (case CreateObject env addr StaticRwlock s of
        None \<Rightarrow> None
      | Some (a, s') \<Rightarrow> rwlock_call a f einval s')"

definition PthreadRwlockTryrdlock_at ::
  "pthread_env \<Rightarrow> pthread option \<Rightarrow> u64 \<Rightarrow> pthread_objects \<Rightarrow> (int \<times> pthread_objects) option" where
  "PthreadRwlockTryrdlock_at env self addr =
     rwlock_create_call env addr (\<lambda>rw. Some (PthreadRwlockTryrdlock self rw)) KERNEL_ERROR_EINVAL"

text \<open>The one function on read-write locks that does not create a static object.\<close>

definition PthreadRwlockTrywrlock_at :: "pthread option \<Rightarrow> u64 \<Rightarrow> pthread_objects \<Rightarrow> (int \<times> pthread_objects) option" where
  "PthreadRwlockTrywrlock_at self addr =
     rwlock_call addr (\<lambda>rw. Some (PthreadRwlockTrywrlock self rw)) KERNEL_ERROR_EINVAL"

definition PthreadRwlockUnlock_at ::
  "pthread_env \<Rightarrow> pthread option \<Rightarrow> u64 \<Rightarrow> pthread_objects \<Rightarrow> (int \<times> pthread_objects) option" where
  "PthreadRwlockUnlock_at env self addr =
     rwlock_create_call env addr (PthreadRwlockUnlock self) KERNEL_ERROR_EINVAL"

definition PthreadRwlockRdlock_at ::
  "pthread_env \<Rightarrow> pthread option \<Rightarrow> nat \<Rightarrow> u64 \<Rightarrow> pthread_objects \<Rightarrow> ((lock_step \<times> bool) \<times> pthread_objects) option" where
  "PthreadRwlockRdlock_at env self now addr =
     rwlock_create_call env addr
       (\<lambda>rw. let (st, reg, rw') = PthreadRwlockRdlock self now rw in Some ((st, reg), rw')) (Returned KERNEL_ERROR_EINVAL, False)"

definition PthreadRwlockWrlock_at ::
  "pthread_env \<Rightarrow> pthread option \<Rightarrow> nat \<Rightarrow> u64 \<Rightarrow> pthread_objects \<Rightarrow> ((lock_step \<times> bool) \<times> pthread_objects) option" where
  "PthreadRwlockWrlock_at env self now addr =
     rwlock_create_call env addr
       (\<lambda>rw. let (st, reg, rw') = PthreadRwlockWrlock self now rw in Some ((st, reg), rw')) (Returned KERNEL_ERROR_EINVAL, False)"


definition PthreadRwlockTimedrdlock_at ::
  "pthread_env \<Rightarrow> pthread option \<Rightarrow> u32 \<Rightarrow> nat \<Rightarrow> u64 \<Rightarrow> pthread_objects \<Rightarrow> ((lock_step \<times> bool) \<times> pthread_objects) option" where
  "PthreadRwlockTimedrdlock_at env self usec now addr =
     rwlock_create_call env addr
       (\<lambda>rw. let (st, reg, rw') = PthreadRwlockTimedrdlock self usec now rw in Some ((st, reg), rw')) (Returned KERNEL_ERROR_EINVAL, False)"

definition PthreadRwlockTimedwrlock_at ::
  "pthread_env \<Rightarrow> pthread option \<Rightarrow> u32 \<Rightarrow> nat \<Rightarrow> u64 \<Rightarrow> pthread_objects \<Rightarrow> ((lock_step \<times> bool) \<times> pthread_objects) option" where
  "PthreadRwlockTimedwrlock_at env self usec now addr =
     rwlock_create_call env addr
       (\<lambda>rw. let (st, reg, rw') = PthreadRwlockTimedwrlock self usec now rw in Some ((st, reg), rw')) (Returned KERNEL_ERROR_EINVAL, False)"

text \<open>Condition variables also change the threads; the pointer to the object names it in them.\<close>

definition cond_call ::
  "pthread_env \<Rightarrow> u64 \<Rightarrow> (cond_ptr \<Rightarrow> cond \<times> threads \<Rightarrow> bool \<times> cond \<times> threads) \<Rightarrow>
   pthread_objects \<times> threads \<Rightarrow> (int \<times> pthread_objects \<times> threads) option" where
  "cond_call env addr f =
     (\<lambda>(s, ths).
        case CreateObject env addr StaticCond s of
          None \<Rightarrow> None
        | Some (a, s') \<Rightarrow>
            if a = 0 then Some (KERNEL_ERROR_EINVAL, s', ths)
            else
              case po_conds s' (po_cells s' a) of
                None \<Rightarrow> None
              | Some cd \<Rightarrow>
                  (let (notify, cd', ths') = f (po_cells s' a) (cd, ths)
                   in Some (OK, s'\<lparr>po_conds := (po_conds s')(po_cells s' a \<mapsto> cd')\<rparr>, ths')))"

definition PthreadCondBroadcast_at ::
  "pthread_env \<Rightarrow> u64 \<Rightarrow> pthread_objects \<times> threads \<Rightarrow> (int \<times> pthread_objects \<times> threads) option" where
  "PthreadCondBroadcast_at env addr = cond_call env addr PthreadCondBroadcast"

definition PthreadCondSignal_at ::
  "pthread_env \<Rightarrow> u64 \<Rightarrow> pthread_objects \<times> threads \<Rightarrow> (int \<times> pthread_objects \<times> threads) option" where
  "PthreadCondSignal_at env addr = cond_call env addr PthreadCondSignal"

text \<open>A null thread is refused after the object was created.\<close>

definition PthreadCondSignalto_at ::
  "pthread_env \<Rightarrow> u64 \<Rightarrow> pthread option \<Rightarrow> pthread_objects \<times> threads \<Rightarrow> (int \<times> pthread_objects \<times> threads) option" where
  "PthreadCondSignalto_at env addr thread =
     (\<lambda>(s, ths).
        case thread of
          None \<Rightarrow> map_option (\<lambda>(_, s'). (KERNEL_ERROR_EINVAL, s', ths)) (CreateObject env addr StaticCond s)
        | Some t \<Rightarrow> cond_call env addr (\<lambda>c. PthreadCondSignalto c t) (s, ths))"

text \<open>The entry of a wait, on the handles of a condition variable and a mutex.\<close>

definition cond_wait_call ::
  "pthread_env \<Rightarrow> pthread_env \<Rightarrow> u64 \<Rightarrow> u64 \<Rightarrow> (cond_ptr \<Rightarrow> monitor \<Rightarrow> wait_step \<times> monitor) \<Rightarrow>
   pthread_objects \<times> threads \<Rightarrow> (wait_step \<times> pthread_objects \<times> threads) option" where
  "cond_wait_call cond_env mutex_env cond_addr mutex_addr f =
     (\<lambda>(s, ths).
        case CreateObject cond_env cond_addr StaticCond s of
          None \<Rightarrow> None
        | Some (a, s1) \<Rightarrow>
            case CreateObject mutex_env mutex_addr StaticMutex s1 of
              None \<Rightarrow> None
            | Some (b, s2) \<Rightarrow>
                if a = 0 \<or> b = 0 then Some (WaitReturned KERNEL_ERROR_EINVAL, s2, ths)
                else
                  case (po_conds s2 (po_cells s2 a), po_mutexes s2 (po_cells s2 b)) of
                    (Some cd, Some m) \<Rightarrow>
                      (let (st, mon) = f (po_cells s2 a) \<lparr>mo_mutex = m, mo_cond = cd, mo_threads = ths\<rparr>
                       in Some (st, s2\<lparr>po_conds := (po_conds s2)(po_cells s2 a \<mapsto> mo_cond mon),
                                      po_mutexes := (po_mutexes s2)(po_cells s2 b \<mapsto> mo_mutex mon)\<rparr>, mo_threads mon))
                  | _ \<Rightarrow> None)"

definition PthreadCondWait_at ::
  "pthread_env \<Rightarrow> pthread_env \<Rightarrow> pthread \<Rightarrow> nat \<Rightarrow> u64 \<Rightarrow> u64 \<Rightarrow>
   pthread_objects \<times> threads \<Rightarrow> (wait_step \<times> pthread_objects \<times> threads) option" where
  "PthreadCondWait_at env env' self now cond_addr mutex_addr =
     cond_wait_call env env' cond_addr mutex_addr (\<lambda>c. PthreadCondWait c self now)"

definition PthreadCondTimedwait_at ::
  "pthread_env \<Rightarrow> pthread_env \<Rightarrow> pthread \<Rightarrow> u32 \<Rightarrow> nat \<Rightarrow> u64 \<Rightarrow> u64 \<Rightarrow>
   pthread_objects \<times> threads \<Rightarrow> (wait_step \<times> pthread_objects \<times> threads) option" where
  "PthreadCondTimedwait_at env env' self usec now cond_addr mutex_addr =
     cond_wait_call env env' cond_addr mutex_addr (\<lambda>c. PthreadCondTimedwait c self usec now)"

text \<open>\<open>deadline\<close> is the answer of \<open>NativeCondDeadlineFromAbs\<close> for the clock of the condition variable.\<close>

definition PthreadCondTimedwaitAbs_at ::
  "pthread_env \<Rightarrow> pthread_env \<Rightarrow> pthread \<Rightarrow> (int \<Rightarrow> nat option) \<Rightarrow> nat \<Rightarrow> u64 \<Rightarrow> u64 \<Rightarrow>
   pthread_objects \<times> threads \<Rightarrow> (wait_step \<times> pthread_objects \<times> threads) option" where
  "PthreadCondTimedwaitAbs_at env env' self deadline now cond_addr mutex_addr =
     cond_wait_call env env' cond_addr mutex_addr
       (\<lambda>c s. PthreadCondTimedwaitAbs c self (deadline (cn_clock_id (mo_cond s))) now s)"

end
