(* ===== verification/PthreadObjectsProps.thy ===== *)
theory PthreadObjectsProps
  imports PthreadObjects
begin

text \<open>
  The life of statically initialised pthread objects: created on first use and only then, destroyed
  with their program; and two ways in which the code ends the emulator instead.
\<close>

subsection \<open>Creation\<close>

text \<open>A handle that is set is left alone; a static one gets a new object, found again from then on.\<close>

lemma CreateObject_existing:
  assumes "po_cells s addr \<noteq> 0" and "ty = StaticMutex \<Longrightarrow> po_cells s addr \<noteq> 1"
  shows "CreateObject env addr ty s = Some (addr, s)"
  using assms by (auto simp: CreateObject_def)

lemma CreateObject_result:
  assumes "CreateObject env addr ty s = Some (a, s')" and "addr \<noteq> 0" and "pe_fresh env \<noteq> 0" and "pe_fresh env \<noteq> 1"
  shows "a = addr" "po_cells s' addr \<noteq> 0" "ty = StaticMutex \<Longrightarrow> po_cells s' addr \<noteq> 1"
  using assms
  by (auto simp: CreateObject_def PthreadMutexInit_at_def PthreadCondInit_at_def PthreadRwlockInit_at_def Let_def
      split: if_splits option.splits static_type.splits)

lemma CreateObject_again:
  assumes "CreateObject env addr ty s = Some (a, s')" and "addr \<noteq> 0" and "pe_fresh env \<noteq> 0" and "pe_fresh env \<noteq> 1"
  shows "CreateObject env' addr ty s' = Some (addr, s')"
  by (rule CreateObject_existing) (use CreateObject_result [OF assms] in auto)


subsection \<open>Destruction with the program\<close>

fun entries :: "static_object option list \<Rightarrow> static_object list" where
  "entries [] = []"
| "entries (None # xs) = entries xs"
| "entries (Some obj # xs) = obj # entries xs"

definition object_key :: "pthread_objects \<Rightarrow> static_object \<Rightarrow> static_type \<times> u64" where
  "object_key s obj = (so_type obj, po_cells s (so_vaddr obj))"

text \<open>An object that can be destroyed: its handle leads to an object that nobody holds.\<close>

definition idle_object :: "pthread_objects \<Rightarrow> static_object \<Rightarrow> bool" where
  "idle_object s obj \<longleftrightarrow> so_vaddr obj \<noteq> 0 \<and> po_cells s (so_vaddr obj) \<noteq> 0 \<and>
     (case so_type obj of
        StaticMutex \<Rightarrow> (\<exists>m. po_mutexes s (po_cells s (so_vaddr obj)) = Some m \<and> mx_owner m = None)
      | StaticCond \<Rightarrow> po_conds s (po_cells s (so_vaddr obj)) \<noteq> None
      | StaticRwlock \<Rightarrow> (\<exists>rw. po_rwlocks s (po_cells s (so_vaddr obj)) = Some rw \<and> rw_writer rw = None \<and> rw_reader_count rw = 0))"

definition static_ok :: "static_object option list \<Rightarrow> pthread_objects \<Rightarrow> bool" where
  "static_ok xs s \<longleftrightarrow> distinct (map so_vaddr (entries xs)) \<and> distinct (map (object_key s) (entries xs)) \<and>
     (\<forall>obj \<in> set (entries xs). idle_object s obj)"

text \<open>The state without the given objects and their handles.\<close>

definition without_objects :: "static_object list \<Rightarrow> pthread_objects \<Rightarrow> pthread_objects" where
  "without_objects objs s =
     s\<lparr>po_cells := (\<lambda>a. if a \<in> so_vaddr ` set objs then 0 else po_cells s a),
       po_mutexes := (\<lambda>q. if (StaticMutex, q) \<in> object_key s ` set objs then None else po_mutexes s q),
       po_conds := (\<lambda>q. if (StaticCond, q) \<in> object_key s ` set objs then None else po_conds s q),
       po_rwlocks := (\<lambda>q. if (StaticRwlock, q) \<in> object_key s ` set objs then None else po_rwlocks s q)\<rparr>"

lemma without_nothing [simp]: "without_objects [] s = s"
  by (simp add: without_objects_def)

lemma destroy_idle:
  assumes "idle_object s obj"
  shows "destroy_object obj s = Some (OK, without_objects [obj] s)"
  using assms
  by (cases "so_type obj")
     (auto simp: idle_object_def destroy_object_def PthreadMutexDestroy_at_def PthreadMutexDestroy_def PthreadCondDestroy_at_def
       PthreadRwlockDestroy_at_def PthreadRwlockDestroy_def without_objects_def object_key_def fun_upd_def fun_eq_iff
       intro!: pthread_objects.equality)

lemma key_without:
  assumes "so_vaddr o' \<noteq> so_vaddr obj"
  shows "object_key (without_objects [obj] s) o' = object_key s o'"
  using assms by (simp add: object_key_def without_objects_def)

lemma idle_without:
  assumes "idle_object s o'" and "so_vaddr o' \<noteq> so_vaddr obj" and "object_key s o' \<noteq> object_key s obj"
  shows "idle_object (without_objects [obj] s) o'"
  using assms by (cases "so_type o'") (auto simp: idle_object_def without_objects_def object_key_def)

lemma without_Cons:
  assumes "\<forall>o' \<in> set objs. so_vaddr o' \<noteq> so_vaddr obj"
  shows "without_objects objs (without_objects [obj] s) = without_objects (obj # objs) s"
proof -
  have k: "object_key (without_objects [obj] s) ` set objs = object_key s ` set objs"
    using key_without assms by (auto simp: image_iff)
  show ?thesis
    unfolding without_objects_def [of objs] k
    by (auto simp: without_objects_def fun_eq_iff intro!: pthread_objects.equality)
qed

lemma static_ok_Cons:
  assumes "static_ok (Some obj # xs) s"
  shows "static_ok xs (without_objects [obj] s)" "static_ok xs s" "idle_object s obj"
    "\<forall>o' \<in> set (entries xs). so_vaddr o' \<noteq> so_vaddr obj"
proof -
  have d: "distinct (map so_vaddr (entries xs))" "distinct (map (object_key s) (entries xs))"
    and n: "so_vaddr obj \<notin> so_vaddr ` set (entries xs)" "object_key s obj \<notin> object_key s ` set (entries xs)"
    and i: "\<forall>o' \<in> set (entries xs). idle_object s o'" "idle_object s obj"
    using assms unfolding static_ok_def by simp_all
  have v: "\<forall>o' \<in> set (entries xs). so_vaddr o' \<noteq> so_vaddr obj" and k: "\<forall>o' \<in> set (entries xs). object_key s o' \<noteq> object_key s obj"
    using n by (metis imageI)+
  have m: "map (object_key (without_objects [obj] s)) (entries xs) = map (object_key s) (entries xs)"
    by (rule map_cong) (use key_without v in auto)
  have "\<forall>o' \<in> set (entries xs). idle_object (without_objects [obj] s) o'" using idle_without i(1) v k by blast
  then show "static_ok xs (without_objects [obj] s)" unfolding static_ok_def m using d by blast
  show "static_ok xs s" unfolding static_ok_def using d i(1) by blast
  show "idle_object s obj" "\<forall>o' \<in> set (entries xs). so_vaddr o' \<noteq> so_vaddr obj" using i(2) v by blast+
qed

lemma delete_objects_spec:
  assumes "static_ok xs s"
  shows "delete_objects p xs s =
    Some (map (\<lambda>x. case x of None \<Rightarrow> None | Some obj \<Rightarrow> if so_program obj = p then None else Some obj) xs,
          without_objects (filter (\<lambda>obj. so_program obj = p) (entries xs)) s)"
  using assms
proof (induction p xs s rule: delete_objects.induct)
  case (2 p xs s)
  then show ?case by (simp add: static_ok_def)
next
  case (3 p obj xs s)
  note ok = static_ok_Cons [OF "3.prems"]
  show ?case
  proof (cases "so_program obj = p")
    case True
    have "\<forall>o' \<in> set (filter (\<lambda>obj. so_program obj = p) (entries xs)). so_vaddr o' \<noteq> so_vaddr obj" using ok(4) by simp
    note w = without_Cons [OF this]
    show ?thesis using True destroy_idle [OF ok(3)] "3.IH"(1) [OF True destroy_idle [OF ok(3)]] ok(1) by (simp add: w)
  next
    case False
    then show ?thesis using "3.IH"(2) ok(2) by simp
  qed
qed simp


text \<open>A mutex and a condition variable of program 7 and a read-write lock of program 8.\<close>

definition objects_env :: "u64 \<Rightarrow> pthread_env" where
  "objects_env q = \<lparr>pe_fresh = q, pe_program = (\<lambda>a. Some (if a < 4096 then 7 else 8)),
                    pe_mutexattr = \<lparr>ma_pprotocol = 0, ma_type = 1\<rparr>, pe_cond_clock = 0\<rparr>"

definition no_objects :: pthread_objects where
  "no_objects = \<lparr>po_cells = (\<lambda>_. 0), po_mutexes = (\<lambda>_. None), po_conds = (\<lambda>_. None), po_rwlocks = (\<lambda>_. None), po_objects = []\<rparr>"

definition three_objects :: "pthread_objects option" where
  "three_objects =
     (case CreateObject (objects_env 65536) 256 StaticMutex no_objects of None \<Rightarrow> None
      | Some (_, s1) \<Rightarrow>
          (case CreateObject (objects_env 65600) 512 StaticCond s1 of None \<Rightarrow> None
           | Some (_, s2) \<Rightarrow> map_option snd (CreateObject (objects_env 65700) 8192 StaticRwlock s2)))"

lemmas create_eval = CreateObject_def PthreadMutexInit_at_def PthreadCondInit_at_def PthreadRwlockInit_at_def
  PthreadMutexInitNamed_def PthreadCondInitNamed_def PthreadRwlockInitNamed_def objects_env_def no_objects_def

lemma three_objects_ok:
  "\<exists>s. three_objects = Some s \<and> static_ok (po_objects s) s \<and> po_cells s 512 = 65600 \<and> po_cells s 8192 = 65700 \<and>
     entries (po_objects s) = [\<lparr>so_type = StaticMutex, so_vaddr = 256, so_program = 7\<rparr>,
       \<lparr>so_type = StaticCond, so_vaddr = 512, so_program = 7\<rparr>, \<lparr>so_type = StaticRwlock, so_vaddr = 8192, so_program = 8\<rparr>]"
  by (simp add: three_objects_def create_eval static_ok_def object_key_def idle_object_def Let_def)


subsection \<open>Where the code ends the emulator\<close>

text \<open>
  A static mutex that the program itself destroyed is still in the table, and unloading the program
  then exits: its handle is null, so that destroying it again fails. The same holds for the others.
\<close>

lemma destroyed_static_object_exits:
  "\<exists>s. CreateObject (objects_env 65536) 256 StaticMutex no_objects = Some (256, s) \<and>
     (\<exists>s'. PthreadMutexDestroy_at 256 s = Some (OK, s') \<and> DeleteObjects 7 s' = None)"
  by (simp add: create_eval Let_def PthreadMutexDestroy_at_def PthreadMutexDestroy_def DeleteObjects_def destroy_object_def
      OK_def KERNEL_ERROR_EINVAL_def)

text \<open>So does a static mutex that is locked when its program is unloaded.\<close>

lemma locked_static_object_exits:
  "\<exists>s. PthreadMutexLock (objects_env 65536) 1 0 256 no_objects = Some (Returned OK, s) \<and> DeleteObjects 7 s = None"
  by (simp add: PthreadMutexLock_def mutex_call_def create_eval Let_def NativeMutexLock_def NativeMutexLock_test_def
      mutex_take_def PthreadMutexLock_result_def PthreadMutexDestroy_at_def PthreadMutexDestroy_def DeleteObjects_def
      destroy_object_def OK_def KERNEL_ERROR_EBUSY_def)

text \<open>
  Every function on read-write locks accepts a statically initialised one (a null handle) except
  the one that tries to lock for writing, which exits.
\<close>

lemma trywrlock_static_exits:
  "PthreadRwlockTrywrlock_at (Some 1) 256 no_objects = None"
  "\<exists>s. PthreadRwlockTryrdlock_at (objects_env 65536) (Some 1) 256 no_objects = Some (OK, s)"
  by (simp_all add: PthreadRwlockTrywrlock_at_def PthreadRwlockTryrdlock_at_def rwlock_call_def rwlock_create_call_def
      PthreadRwlockTryrdlock_def rw_read_allowed_def create_eval Let_def)

end
