(* ===== verification/PthreadKeys.thy ===== *)
theory PthreadKeys
  imports Prelude Runs
begin

text \<open>
  \<open>class PthreadKeys\<close> of \<open>src/src/kernel/pthread.cpp\<close>: the thread-specific values of the guest. The
  array of \<open>KEYS_MAX\<close> keys is a list; a destructor is named by a number, \<open>None\<close> for a null pointer.
\<close>

definition KEYS_MAX :: nat where "KEYS_MAX = 256"
definition DESTRUCTOR_ITERATIONS :: nat where "DESTRUCTOR_ITERATIONS = 4"

record pthread_key =
  ky_used :: bool
  ky_destructor :: "nat option"
  ky_values :: "(int \<times> u64) list"

type_synonym pthread_keys = "pthread_key list"

definition no_key :: pthread_key where
  "no_key = \<lparr>ky_used = False, ky_destructor = None, ky_values = []\<rparr>"

definition PthreadKeys_new :: pthread_keys where
  "PthreadKeys_new = replicate KEYS_MAX no_key"

text \<open>The first key that is not used; \<open>None\<close> when every key is.\<close>

fun keys_create :: "nat \<Rightarrow> nat option \<Rightarrow> pthread_keys \<Rightarrow> (nat \<times> pthread_keys) option" where
  "keys_create i d [] = None"
| "keys_create i d (k # ks) =
     (if \<not> ky_used k then Some (i, \<lparr>ky_used = True, ky_destructor = d, ky_values = []\<rparr> # ks)
      else map_option (\<lambda>(j, ks'). (j, k # ks')) (keys_create (Suc i) d ks))"

definition PthreadKeys_Create :: "nat option \<Rightarrow> pthread_keys \<Rightarrow> (nat \<times> pthread_keys) option" where
  "PthreadKeys_Create d ks = keys_create 0 d ks"

definition key_valid :: "int \<Rightarrow> pthread_keys \<Rightarrow> bool" where
  "key_valid key ks \<longleftrightarrow> \<not> (key < 0 \<or> int KEYS_MAX \<le> key \<or> \<not> ky_used (ks ! nat key))"

definition PthreadKeys_Delete :: "int \<Rightarrow> pthread_keys \<Rightarrow> bool \<times> pthread_keys" where
  "PthreadKeys_Delete key ks = (if key_valid key ks then (True, ks[nat key := no_key]) else (False, ks))"

text \<open>The entry of a thread is overwritten, or a new one added.\<close>

fun set_value :: "int \<Rightarrow> u64 \<Rightarrow> (int \<times> u64) list \<Rightarrow> (int \<times> u64) list" where
  "set_value t d [] = [(t, d)]"
| "set_value t d (v # vs) = (if fst v = t then (t, d) # vs else v # set_value t d vs)"

definition PthreadKeys_Set :: "int \<Rightarrow> int \<Rightarrow> u64 \<Rightarrow> pthread_keys \<Rightarrow> bool \<times> pthread_keys" where
  "PthreadKeys_Set key t d ks =
     (if key_valid key ks
      then (True, ks[nat key := (ks ! nat key)\<lparr>ky_values := set_value t d (ky_values (ks ! nat key))\<rparr>])
      else (False, ks))"

definition key_value :: "int \<Rightarrow> pthread_key \<Rightarrow> u64" where
  "key_value t k = (case find (\<lambda>v. fst v = t) (ky_values k) of None \<Rightarrow> 0 | Some v \<Rightarrow> snd v)"

definition PthreadKeys_Get :: "int \<Rightarrow> int \<Rightarrow> pthread_keys \<Rightarrow> u64 option" where
  "PthreadKeys_Get key t ks = (if key_valid key ks then Some (key_value t (ks ! nat key)) else None)"

text \<open>
  One round of \<open>Destruct\<close>: every value of the thread that is set and has a destructor is taken out
  and listed for a call, in the order of the keys.
\<close>

definition taken :: "int \<Rightarrow> pthread_key \<Rightarrow> int \<times> u64 \<Rightarrow> bool" where
  "taken t k v \<longleftrightarrow> ky_used k \<and> ky_destructor k \<noteq> None \<and> fst v = t \<and> snd v \<noteq> 0"

definition key_calls :: "int \<Rightarrow> pthread_key \<Rightarrow> (nat \<times> u64) list" where
  "key_calls t k = map (\<lambda>v. (the (ky_destructor k), snd v)) (filter (taken t k) (ky_values k))"

definition key_taken :: "int \<Rightarrow> pthread_key \<Rightarrow> pthread_key" where
  "key_taken t k = k\<lparr>ky_values := map (\<lambda>v. if taken t k v then (fst v, 0) else v) (ky_values k)\<rparr>"

definition forget_thread :: "int \<Rightarrow> pthread_keys \<Rightarrow> pthread_keys" where
  "forget_thread t ks = map (\<lambda>k. k\<lparr>ky_values := filter (\<lambda>v. fst v \<noteq> t) (ky_values k)\<rparr>) ks"

text \<open>
  The destructors run guest code, which may use the keys: \<open>call\<close> is its effect on the keys and on
  a state of its own.
\<close>

fun destruct_rounds ::
  "(nat \<times> u64 \<Rightarrow> 'x \<times> pthread_keys \<Rightarrow> 'x \<times> pthread_keys) \<Rightarrow> int \<Rightarrow> nat \<Rightarrow> 'x \<times> pthread_keys \<Rightarrow> 'x \<times> pthread_keys" where
  "destruct_rounds call t 0 s = (fst s, forget_thread t (snd s))"
| "destruct_rounds call t (Suc n) s =
     (let calls = concat (map (key_calls t) (snd s));
          s' = (fst s, map (key_taken t) (snd s))
      in if calls = [] then s' else destruct_rounds call t n (fold call calls s'))"

definition PthreadKeys_Destruct ::
  "(nat \<times> u64 \<Rightarrow> 'x \<times> pthread_keys \<Rightarrow> 'x \<times> pthread_keys) \<Rightarrow> int \<Rightarrow> 'x \<times> pthread_keys \<Rightarrow> 'x \<times> pthread_keys" where
  "PthreadKeys_Destruct call t s = destruct_rounds call t DESTRUCTOR_ITERATIONS s"


subsection \<open>Runs against an abstract table\<close>

text \<open>For every key that exists, the value of each thread.\<close>

type_synonym key_table = "int \<Rightarrow> (int \<Rightarrow> u64) option"

datatype key_event = KeyCreate "nat option" | KeyDelete int | KeySet int int u64 | KeyGet int int

datatype key_answer = KeyCreated int | KeyOk bool | KeyValue "u64 option" | NoKey

fun keys_exec :: "key_event \<Rightarrow> pthread_keys \<Rightarrow> key_answer \<times> pthread_keys" where
  "keys_exec (KeyCreate d) ks =
     (case PthreadKeys_Create d ks of None \<Rightarrow> (NoKey, ks) | Some (i, ks') \<Rightarrow> (KeyCreated (int i), ks'))"
| "keys_exec (KeyDelete key) ks = (let (b, ks') = PthreadKeys_Delete key ks in (KeyOk b, ks'))"
| "keys_exec (KeySet key t d) ks = (let (b, ks') = PthreadKeys_Set key t d ks in (KeyOk b, ks'))"
| "keys_exec (KeyGet key t) ks = (KeyValue (PthreadKeys_Get key t ks), ks)"

text \<open>What the table should answer, and its next state.\<close>

inductive table_step :: "key_event \<Rightarrow> key_table \<Rightarrow> key_answer \<Rightarrow> key_table \<Rightarrow> bool" where
  created: "0 \<le> i \<Longrightarrow> i < int KEYS_MAX \<Longrightarrow> A i = None \<Longrightarrow> \<forall>j. 0 \<le> j \<and> j < i \<longrightarrow> A j \<noteq> None \<Longrightarrow>
     table_step (KeyCreate d) A (KeyCreated i) (A(i \<mapsto> (\<lambda>_. 0)))"
| full: "\<forall>i. 0 \<le> i \<and> i < int KEYS_MAX \<longrightarrow> A i \<noteq> None \<Longrightarrow> table_step (KeyCreate d) A NoKey A"
| deleted: "table_step (KeyDelete key) A (KeyOk (A key \<noteq> None)) (A(key := None))"
| set_fails: "A key = None \<Longrightarrow> table_step (KeySet key t d) A (KeyOk False) A"
| set_value: "A key = Some h \<Longrightarrow> table_step (KeySet key t d) A (KeyOk True) (A(key \<mapsto> h(t := d)))"
| got: "table_step (KeyGet key t) A (KeyValue (map_option (\<lambda>h. h t) (A key))) A"

inductive_cases table_stepE: "table_step e A a A'"

definition keys_table :: "pthread_keys \<Rightarrow> key_table" where
  "keys_table ks key = (if key_valid key ks then Some (\<lambda>t. key_value t (ks ! nat key)) else None)"

text \<open>The answers to a sequence of operations, from the code and from the table.\<close>

fun keys_answers :: "key_event list \<Rightarrow> pthread_keys \<Rightarrow> key_answer list \<times> pthread_keys" where
  "keys_answers [] ks = ([], ks)"
| "keys_answers (e # es) ks =
     (let (a, ks1) = keys_exec e ks; (as, ks2) = keys_answers es ks1 in (a # as, ks2))"

inductive table_answers :: "key_event list \<Rightarrow> key_table \<Rightarrow> key_answer list \<Rightarrow> key_table \<Rightarrow> bool" where
  none: "table_answers [] A [] A"
| more: "table_step e A a A1 \<Longrightarrow> table_answers es A1 as A2 \<Longrightarrow> table_answers (e # es) A (a # as) A2"

end
