(* ===== verification/PthreadKeysProps.thy ===== *)
theory PthreadKeysProps
  imports PthreadKeys
begin

text \<open>
  Thread-specific values answer as a table from keys and threads to values does, in every sequence
  of operations; a thread that ends has each value with a destructor taken out exactly once a round.
\<close>

subsection \<open>The operations on one key\<close>

lemma find_set_value:
  "find (\<lambda>v. fst v = u) (set_value t d vs) = (if u = t then Some (t, d) else find (\<lambda>v. fst v = u) vs)"
  by (induction vs) auto

lemma key_value_set:
  "key_value u (k\<lparr>ky_values := set_value t d (ky_values k)\<rparr>) = (if u = t then d else key_value u k)"
  by (simp add: key_value_def find_set_value)

lemma key_value_empty: "ky_values k = [] \<Longrightarrow> key_value t k = 0"
  by (simp add: key_value_def)

lemma keys_create_Some:
  assumes "keys_create i d ks = Some (j, ks')"
  shows "i \<le> j \<and> j - i < length ks \<and> \<not> ky_used (ks ! (j - i)) \<and> (\<forall>n < j - i. ky_used (ks ! n)) \<and>
    ks' = ks[j - i := \<lparr>ky_used = True, ky_destructor = d, ky_values = []\<rparr>]"
  using assms
proof (induction ks arbitrary: i j ks')
  case (Cons k ks)
  show ?case
  proof (cases "ky_used k")
    case True
    then obtain ks1 where c: "keys_create (Suc i) d ks = Some (j, ks1)" and ks': "ks' = k # ks1"
      using Cons.prems by auto
    note ih = Cons.IH [OF c]
    then obtain m where m: "j - i = Suc m" "j - Suc i = m" by (metis Suc_diff_Suc Suc_le_lessD)
    have "ky_used ((k # ks) ! n)" if "n < j - i" for n using ih that True m by (cases n) auto
    then show ?thesis using ih m ks' by simp
  next
    case False
    then show ?thesis using Cons.prems by auto
  qed
qed simp

lemma keys_create_None: "keys_create i d ks = None \<longleftrightarrow> (\<forall>k \<in> set ks. ky_used k)"
  by (induction ks arbitrary: i) auto


subsection \<open>The table\<close>

lemma keys_table_upd:
  assumes len: "length ks = KEYS_MAX" and key: "0 \<le> key" "key < int KEYS_MAX"
  shows "keys_table (ks[nat key := k]) = (keys_table ks)(key := (if ky_used k then Some (\<lambda>t. key_value t k) else None))"
proof (rule ext)
  fix j
  have lt: "nat key < length ks" using key len by auto
  show "keys_table (ks[nat key := k]) j = ((keys_table ks)(key := (if ky_used k then Some (\<lambda>t. key_value t k) else None))) j"
  proof (cases "j = key")
    case True
    then show ?thesis using lt key by (simp add: keys_table_def key_valid_def)
  next
    case False
    have "ks[nat key := k] ! nat j = ks ! nat j" if "0 \<le> j" using False that key by (simp add: nth_list_update_neq)
    then show ?thesis using False by (auto simp: keys_table_def key_valid_def)
  qed
qed

lemma key_valid_iff: "key_valid key ks \<longleftrightarrow> keys_table ks key \<noteq> None"
  by (simp add: keys_table_def)

lemma keys_step:
  assumes len: "length ks = KEYS_MAX" and ex: "keys_exec e ks = (a, ks')"
  shows "table_step e (keys_table ks) a (keys_table ks')" and "length ks' = KEYS_MAX"
proof -
  have "table_step e (keys_table ks) a (keys_table ks') \<and> length ks' = KEYS_MAX"
  proof (cases e)
    case (KeyCreate d)
    show ?thesis
    proof (cases "PthreadKeys_Create d ks")
      case None
      then have u: "\<forall>k \<in> set ks. ky_used k" by (simp add: PthreadKeys_Create_def keys_create_None)
      have "keys_table ks i \<noteq> None" if "0 \<le> i" "i < int KEYS_MAX" for i
      proof -
        have "nat i < length ks" using that len by auto
        then show ?thesis using u that by (simp add: keys_table_def key_valid_def)
      qed
      then show ?thesis using ex None len by (auto simp: KeyCreate intro: table_step.full)
    next
      case (Some p)
      then obtain j ks1 where c: "keys_create 0 d ks = Some (j, ks1)" and p: "p = (j, ks1)"
        by (cases p) (simp add: PthreadKeys_Create_def)
      note s = keys_create_Some [OF c]
      have j: "j < KEYS_MAX" "\<not> ky_used (ks ! j)" "\<forall>n < j. ky_used (ks ! n)" using s len by auto
      have ks1: "ks1 = ks[nat (int j) := \<lparr>ky_used = True, ky_destructor = d, ky_values = []\<rparr>]" using s by simp
      have t: "keys_table ks1 = (keys_table ks)(int j \<mapsto> (\<lambda>_. 0))"
        unfolding ks1 by (subst keys_table_upd [OF len]) (use j in \<open>simp_all add: key_value_empty\<close>)
      have "table_step (KeyCreate d) (keys_table ks) (KeyCreated (int j)) ((keys_table ks)(int j \<mapsto> (\<lambda>_. 0)))"
      proof (rule table_step.created)
        show "keys_table ks (int j) = None" using j(2) by (simp add: keys_table_def key_valid_def)
        show "\<forall>i. 0 \<le> i \<and> i < int j \<longrightarrow> keys_table ks i \<noteq> None"
          using j by (auto simp: keys_table_def key_valid_def)
      qed (use j in simp_all)
      then show ?thesis using ex Some p t ks1 len by (auto simp: KeyCreate)
    qed
  next
    case (KeyDelete key)
    show ?thesis
    proof (cases "key_valid key ks")
      case True
      then have r: "0 \<le> key" "key < int KEYS_MAX" by (simp_all add: key_valid_def)
      have "keys_table (ks[nat key := no_key]) = (keys_table ks)(key := None)"
        by (subst keys_table_upd [OF len r]) (simp add: no_key_def)
      then show ?thesis
        using ex True len table_step.deleted [of key "keys_table ks"] by (auto simp: KeyDelete PthreadKeys_Delete_def key_valid_iff)
    next
      case False
      then have "(keys_table ks)(key := None) = keys_table ks" by (simp add: key_valid_iff fun_upd_idem)
      then show ?thesis
        using ex False len table_step.deleted [of key "keys_table ks"] by (auto simp: KeyDelete PthreadKeys_Delete_def key_valid_iff)
    qed
  next
    case (KeySet key t d)
    show ?thesis
    proof (cases "key_valid key ks")
      case True
      then have r: "0 \<le> key" "key < int KEYS_MAX" "ky_used (ks ! nat key)" by (simp_all add: key_valid_def)
      have h: "keys_table ks key = Some (\<lambda>u. key_value u (ks ! nat key))" using True by (simp add: keys_table_def)
      have "keys_table (ks[nat key := (ks ! nat key)\<lparr>ky_values := set_value t d (ky_values (ks ! nat key))\<rparr>]) =
          (keys_table ks)(key \<mapsto> (\<lambda>u. key_value u (ks ! nat key))(t := d))"
        by (subst keys_table_upd [OF len r(1,2)]) (use r(3) in \<open>simp add: key_value_set fun_upd_def\<close>)
      then show ?thesis
        using ex True len table_step.set_value [of "keys_table ks" key "\<lambda>u. key_value u (ks ! nat key)" t d] h
        by (auto simp: KeySet PthreadKeys_Set_def)
    next
      case False
      then show ?thesis using ex len by (auto simp: KeySet PthreadKeys_Set_def key_valid_iff intro: table_step.set_fails)
    qed
  next
    case (KeyGet key t)
    have "PthreadKeys_Get key t ks = map_option (\<lambda>h. h t) (keys_table ks key)"
      by (simp add: PthreadKeys_Get_def keys_table_def)
    then show ?thesis using ex len table_step.got [of key t "keys_table ks"] by (auto simp: KeyGet)
  qed
  then show "table_step e (keys_table ks) a (keys_table ks')" "length ks' = KEYS_MAX" by blast+
qed

lemma keys_answers_table:
  assumes "length ks = KEYS_MAX" and "keys_answers es ks = (as, ks')"
  shows "table_answers es (keys_table ks) as (keys_table ks') \<and> length ks' = KEYS_MAX"
  using assms
proof (induction es arbitrary: ks as)
  case Nil
  then show ?case by (auto intro: table_answers.none)
next
  case (Cons e es)
  obtain a ks1 where e: "keys_exec e ks = (a, ks1)" by fastforce
  obtain as1 where r: "keys_answers es ks1 = (as1, ks')" and as: "as = a # as1"
    using Cons.prems(2) e by (auto split: prod.splits)
  show ?case
    using keys_step [OF Cons.prems(1) e] Cons.IH [OF _ r] unfolding as by (auto intro: table_answers.more)
qed

text \<open>
  C37: Thread-specific values behave as a table from keys and threads to values. Whatever sequence of
  creations, deletions, stores and loads is made, its answers are those of the table: a new key is
  the smallest one that does not exist and has the null value for every thread, also when it was
  deleted before; a load gives what the same thread stored last under that key; and stores, loads
  and deletions of keys that do not exist are refused.
\<close>

theorem PthreadKeys_refine_table:
  "table_answers es (\<lambda>_. None) (fst (keys_answers es PthreadKeys_new)) (keys_table (snd (keys_answers es PthreadKeys_new)))"
proof -
  have "keys_table PthreadKeys_new = (\<lambda>_. None)"
  proof (rule ext)
    fix key
    have "PthreadKeys_new ! nat key = no_key" if "\<not> key < 0" "\<not> int KEYS_MAX \<le> key"
      using that by (simp add: PthreadKeys_new_def)
    then show "keys_table PthreadKeys_new key = None" by (auto simp: keys_table_def key_valid_def no_key_def)
  qed
  moreover have "length PthreadKeys_new = KEYS_MAX" by (simp add: PthreadKeys_new_def)
  ultimately show ?thesis using keys_answers_table [of PthreadKeys_new es] by (metis prod.collapse)
qed


subsection \<open>The end of a thread\<close>

text \<open>A round leaves nothing to call for the thread, and keeps what other threads stored.\<close>

lemma key_calls_taken: "key_calls t (key_taken t k) = []"
  by (auto simp: key_calls_def key_taken_def taken_def filter_empty_conv)

lemma key_value_taken: "u \<noteq> t \<Longrightarrow> key_value u (key_taken t k) = key_value u k"
proof -
  assume u: "u \<noteq> t"
  have "find (\<lambda>v. fst v = u) (map (\<lambda>v. if taken t k v then (fst v, 0) else v) vs) = find (\<lambda>v. fst v = u) vs" for vs
    using u by (induction vs) (auto simp: taken_def)
  then show ?thesis by (simp add: key_value_def key_taken_def)
qed

text \<open>Destructors that do not store new values are called once for each value, and then the loop ends.\<close>

lemma Destruct_calls_once:
  assumes "\<And>c x ks. snd (call c (x, ks)) = ks"
  shows "PthreadKeys_Destruct call t s =
    fold call (concat (map (key_calls t) (snd s))) (fst s, map (key_taken t) (snd s))"
proof -
  have fold: "snd (fold call cs (x, ks)) = ks" for cs x ks
  proof (induction cs arbitrary: x)
    case (Cons c cs)
    show ?case using Cons.IH [of "fst (call c (x, ks))"] assms [of c x ks] by (metis fold_Cons_rev foldr_append fold_simps(2) prod.collapse)
  qed simp
  define s' where "s' = fold call (concat (map (key_calls t) (snd s))) (fst s, map (key_taken t) (snd s))"
  have n: "concat (map (key_calls t) (map (key_taken t) (snd s))) = []" by (simp add: key_calls_taken)
  have idem: "key_taken t (key_taken t k) = key_taken t k" for k
    by (cases k) (auto simp: key_taken_def taken_def)
  have "snd s' = map (key_taken t) (snd s)" unfolding s'_def by (rule fold)
  then have again: "destruct_rounds call t (Suc n') s' = s'" for n'
    using n by (cases s') (simp add: idem comp_def Let_def)
  have "destruct_rounds call t (Suc (Suc (Suc (Suc 0)))) s = s'"
  proof (cases "concat (map (key_calls t) (snd s)) = []")
    case True
    then show ?thesis unfolding s'_def by (subst destruct_rounds.simps(2)) (simp only: Let_def simp_thms if_True fold_simps)
  next
    case False
    then have "destruct_rounds call t (Suc (Suc (Suc (Suc 0)))) s = destruct_rounds call t (Suc (Suc (Suc 0))) s'"
      unfolding s'_def by (subst destruct_rounds.simps(2)) (simp only: Let_def if_False)
    then show ?thesis using again by simp
  qed
  then show ?thesis
    unfolding PthreadKeys_Destruct_def DESTRUCTOR_ITERATIONS_def s'_def by (simp only: numeral_eq_Suc pred_numeral_simps numeral_1_eq_Suc_0 One_nat_def numerals BitM.simps)
qed

text \<open>
  The clean-up after the rounds is skipped when the rounds run out of calls, which is the usual
  case: the entry of the thread that ended stays in the key.
\<close>

lemma Destruct_leaves_entries:
  "(let ks = snd (PthreadKeys_Set 0 5 9 (snd (the (PthreadKeys_Create None PthreadKeys_new))))
    in ky_values (snd (PthreadKeys_Destruct (\<lambda>_ s. s) 5 ((), ks)) ! 0) = [(5, 9)])"
  by (simp add: PthreadKeys_new_def KEYS_MAX_def no_key_def PthreadKeys_Create_def PthreadKeys_Set_def key_valid_def
      PthreadKeys_Destruct_def DESTRUCTOR_ITERATIONS_def numeral_eq_Suc key_calls_def key_taken_def taken_def replicate_Suc)

end
