(* ===== verification/RangeSet.thy ===== *)
theory RangeSet
  imports Prelude
begin

text \<open>
  \<open>class RangeSet\<close> of \<open>src/src/graphics/host_gpu/rangeSet.h\<close>: the sets of addresses (dirty and
  GPU-written ranges) of the renderer, as a sorted array of disjoint, non-adjacent intervals with a
  small memory of the last lookups. \<open>fast\<close> is the value of \<open>kyty_local_range_set_fast_mode\<close> when an
  operation reads it; \<open>None\<close> is the abort on an invalid range.
\<close>

record interval =
  iv_begin :: u64
  iv_end :: u64

record hint =
  hint_version :: u64
  hint_begin :: u64
  hint_end :: u64

record range_set =
  m_ranges :: "interval list"
  m_fast_eligible :: bool
  m_version :: u64
  m_hints :: "hint list"
  m_next_hint :: u32

definition RangeSet_init :: range_set where
  "RangeSet_init = \<lparr>m_ranges = [], m_fast_eligible = False, m_version = 1,
     m_hints = replicate 4 \<lparr>hint_version = 0, hint_begin = 0, hint_end = 0\<rparr>, m_next_hint = 0\<rparr>"

definition AllowFastPath :: "range_set \<Rightarrow> range_set" where
  "AllowFastPath s = s\<lparr>m_fast_eligible := True\<rparr>"

definition Fast :: "bool \<Rightarrow> range_set \<Rightarrow> bool" where
  "Fast fast s \<longleftrightarrow> m_fast_eligible s \<and> fast"

definition End :: "u64 \<Rightarrow> u64 \<Rightarrow> u64 option" where
  "End address n = (if n = 0 \<or> u64_max - address < n then None else Some (address + n))"

text \<open>The iterators: what comes before one, and what it and the rest is.\<close>

definition LowerBound :: "u64 \<Rightarrow> interval list \<Rightarrow> interval list \<times> interval list" where
  "LowerBound address rs = (takeWhile (\<lambda>r. iv_begin r < address) rs, dropWhile (\<lambda>r. iv_begin r < address) rs)"

definition UpperBound :: "u64 \<Rightarrow> interval list \<Rightarrow> interval list \<times> interval list" where
  "UpperBound address rs = (takeWhile (\<lambda>r. iv_begin r \<le> address) rs, dropWhile (\<lambda>r. iv_begin r \<le> address) rs)"

text \<open>\<open>--it\<close> when the element before satisfies \<open>P\<close>.\<close>

definition step_back :: "(interval \<Rightarrow> bool) \<Rightarrow> interval list \<times> interval list \<Rightarrow> interval list \<times> interval list" where
  "step_back P it =
     (let (before, rest) = it
      in if before \<noteq> [] \<and> P (last before) then (butlast before, last before # rest) else (before, rest))"

definition Covered :: "u64 \<Rightarrow> u64 \<Rightarrow> range_set \<Rightarrow> bool \<times> range_set" where
  "Covered address en s =
     (if list_ex (\<lambda>h. hint_version h = m_version s \<and> hint_begin h \<le> address \<and> en \<le> hint_end h) (m_hints s)
      then (True, s)
      else (let (before, rest) = UpperBound address (m_ranges s)
            in if before = [] then (False, s)
               else (let r = last before
                     in if address < iv_begin r \<or> iv_end r < en then (False, s)
                        else (True, s\<lparr>m_hints := (m_hints s)[unat (m_next_hint s) mod length (m_hints s) :=
                                     \<lparr>hint_version = m_version s, hint_begin = iv_begin r, hint_end = iv_end r\<rparr>],
                                   m_next_hint := m_next_hint s + 1\<rparr>))))"

text \<open>The intervals that overlap or touch are merged.\<close>

fun add_merge :: "u64 \<Rightarrow> u64 \<Rightarrow> interval list \<Rightarrow> u64 \<times> u64 \<times> interval list" where
  "add_merge b l [] = (b, l, [])"
| "add_merge b l (r # rs) =
     (if iv_begin r \<le> l then add_merge (min b (iv_begin r)) (max l (iv_end r)) rs else (b, l, r # rs))"

definition RangeSet_Add :: "bool \<Rightarrow> u64 \<Rightarrow> u64 \<Rightarrow> range_set \<Rightarrow> range_set option" where
  "RangeSet_Add fast address n s =
     (case End address n of
        None \<Rightarrow> None
      | Some en \<Rightarrow>
          (let (covered, s) = (if Fast fast s then Covered address en s else (False, s))
           in if covered then Some s
              else (let (before, rest) = step_back (\<lambda>p. address \<le> iv_end p) (LowerBound address (m_ranges s));
                        (b, l, rest') = add_merge address en rest
                    in Some (s\<lparr>m_version := m_version s + 1, m_ranges := before @ \<lparr>iv_begin = b, iv_end = l\<rparr> # rest'\<rparr>))))"

definition RangeSet_Subtract :: "u64 \<Rightarrow> u64 \<Rightarrow> range_set \<Rightarrow> range_set option" where
  "RangeSet_Subtract address n s =
     (case End address n of
        None \<Rightarrow> None
      | Some en \<Rightarrow>
          (let s = s\<lparr>m_version := m_version s + 1\<rparr>;
               (before, rest) = step_back (\<lambda>p. address < iv_end p) (LowerBound address (m_ranges s));
               removed = takeWhile (\<lambda>r. iv_begin r < en) rest;
               rest' = dropWhile (\<lambda>r. iv_begin r < en) rest
           in if removed = [] then Some s
              else (let parts =
                      (if iv_begin (hd removed) < address
                       then [\<lparr>iv_begin = iv_begin (hd removed), iv_end = address\<rparr>] else []) @
                      (if en < iv_end (last removed)
                       then [\<lparr>iv_begin = en, iv_end = iv_end (last removed)\<rparr>] else [])
                    in Some (s\<lparr>m_ranges := before @ parts @ rest'\<rparr>))))"

definition RangeSet_Clear :: "range_set \<Rightarrow> range_set" where
  "RangeSet_Clear s = s\<lparr>m_version := m_version s + 1, m_ranges := []\<rparr>"

definition RangeSet_ForEach :: "range_set \<Rightarrow> (u64 \<times> u64) list" where
  "RangeSet_ForEach s = map (\<lambda>r. (iv_begin r, iv_end r)) (m_ranges s)"

text \<open>The ranges \<open>(address, size)\<close> passed to the function.\<close>

definition ForEachIntersection :: "u64 \<Rightarrow> u64 \<Rightarrow> range_set \<Rightarrow> (u64 \<times> u64) list option" where
  "ForEachIntersection address n s =
     (case End address n of
        None \<Rightarrow> None
      | Some en \<Rightarrow>
          (let (_, rest) = step_back (\<lambda>_. True) (UpperBound address (m_ranges s))
           in Some (concat (map (\<lambda>r.
                let b = max address (iv_begin r); l = min en (iv_end r) in if b < l then [(b, l - b)] else [])
              (takeWhile (\<lambda>r. iv_begin r < en) rest)))))"

definition Intersections :: "u64 \<Rightarrow> u64 \<Rightarrow> range_set \<Rightarrow> (u64 \<times> u64) list option" where
  "Intersections address n s = ForEachIntersection address n s"

definition RangeSet_Intersects :: "u64 \<Rightarrow> u64 \<Rightarrow> range_set \<Rightarrow> bool option" where
  "RangeSet_Intersects address n s =
     (case End address n of
        None \<Rightarrow> None
      | Some en \<Rightarrow>
          (let (before, rest) = LowerBound address (m_ranges s)
           in Some (if before \<noteq> [] \<and> address < iv_end (last before) then True
                    else rest \<noteq> [] \<and> iv_begin (hd rest) < en)))"

definition RangeSet_Contains :: "bool \<Rightarrow> u64 \<Rightarrow> u64 \<Rightarrow> range_set \<Rightarrow> (bool \<times> range_set) option" where
  "RangeSet_Contains fast address n s =
     (case End address n of
        None \<Rightarrow> None
      | Some en \<Rightarrow>
          if Fast fast s then Some (Covered address en s)
          else (let (before, rest) = UpperBound address (m_ranges s)
                in Some (before \<noteq> [] \<and> iv_begin (last before) \<le> address \<and> en \<le> iv_end (last before), s)))"

definition RangeSet_Empty :: "range_set \<Rightarrow> bool" where
  "RangeSet_Empty s \<longleftrightarrow> m_ranges s = []"

definition RangeSet_Count :: "range_set \<Rightarrow> nat" where
  "RangeSet_Count s = length (m_ranges s)"

end
