(* ===== verification/RangeSetProps.thy ===== *)
theory RangeSetProps
  imports RangeSet Runs
begin

text \<open>
  A \<open>RangeSet\<close> is a set of addresses: every operation has its set meaning, the array stays sorted,
  disjoint and non-adjacent, and the remembered lookups never change an answer.
\<close>

subsection \<open>Canonical arrays\<close>

abbreviation lo :: "interval \<Rightarrow> nat" where "lo r \<equiv> unat (iv_begin r)"
abbreviation hi :: "interval \<Rightarrow> nat" where "hi r \<equiv> unat (iv_end r)"

definition apart :: "interval list \<Rightarrow> bool" where
  "apart rs \<longleftrightarrow> (\<forall>r\<in>set rs. lo r < hi r) \<and> sorted_wrt (\<lambda>a b. hi a < lo b) rs"

definition addresses :: "interval list \<Rightarrow> nat set" where
  "addresses rs = (\<Union>r\<in>set rs. {lo r ..< hi r})"

lemma apart_simps [simp]:
  "apart []" "apart (r # rs) \<longleftrightarrow> lo r < hi r \<and> (\<forall>q\<in>set rs. hi r < lo q) \<and> apart rs"
  "apart (xs @ ys) \<longleftrightarrow> apart xs \<and> apart ys \<and> (\<forall>x\<in>set xs. \<forall>y\<in>set ys. hi x < lo y)"
  by (auto simp: apart_def sorted_wrt_append)

lemma addresses_simps [simp]:
  "addresses [] = {}" "addresses (r # rs) = {lo r ..< hi r} \<union> addresses rs"
  "addresses (xs @ ys) = addresses xs \<union> addresses ys"
  by (auto simp: addresses_def)

lemma apart_pos: "apart rs \<Longrightarrow> r \<in> set rs \<Longrightarrow> lo r < hi r"
  by (simp add: apart_def)

lemma apart_sorted: "apart rs \<Longrightarrow> sorted_wrt (\<lambda>x y. lo x < lo y) rs"
  by (induction rs) (auto intro: less_trans)

lemma apart_two:
  assumes "apart rs" and "r \<in> set rs" and "q \<in> set rs"
  shows "r = q \<or> hi r < lo q \<or> hi q < lo r"
  using assms by (induction rs) auto

text \<open>Separated intervals contain a range together only if one of them does.\<close>

lemma addresses_contain:
  assumes "apart rs" and "a < e"
  shows "{a ..< e} \<subseteq> addresses rs \<longleftrightarrow> (\<exists>r\<in>set rs. lo r \<le> a \<and> e \<le> hi r)"
proof
  assume sub: "{a ..< e} \<subseteq> addresses rs"
  then obtain r where r: "r \<in> set rs" "lo r \<le> a" "a < hi r" using assms(2) by (fastforce simp: addresses_def)
  have "e \<le> hi r"
  proof (rule ccontr)
    assume "\<not> e \<le> hi r"
    then have "hi r \<in> addresses rs" using sub r by (intro subsetD [OF sub]) auto
    then obtain q where q: "q \<in> set rs" "lo q \<le> hi r" "hi r < hi q" by (auto simp: addresses_def)
    then show False using apart_two [OF assms(1) r(1) q(1)] apart_pos [OF assms(1) r(1)] by auto
  qed
  then show "\<exists>r\<in>set rs. lo r \<le> a \<and> e \<le> hi r" using r by blast
next
  assume "\<exists>r\<in>set rs. lo r \<le> a \<and> e \<le> hi r"
  then obtain r where "r \<in> set rs" "{a ..< e} \<subseteq> {lo r ..< hi r}" by (meson ivl_subset)
  then show "{a ..< e} \<subseteq> addresses rs" by (auto simp: addresses_def)
qed

text \<open>The iterators split the array at the first interval that reaches the address.\<close>

lemma rs_LowerBound_split:
  assumes "LowerBound a rs = (B, R)" and "apart rs"
  shows "rs = B @ R \<and> (\<forall>r\<in>set B. lo r < unat a) \<and> (\<forall>r\<in>set R. unat a \<le> lo r)"
proof -
  have "sorted_wrt (\<lambda>x y. lo x < lo y) rs" by (rule apart_sorted [OF assms(2)])
  then have "\<forall>r\<in>set (dropWhile (\<lambda>r. lo r < unat a) rs). unat a \<le> lo r" by (rule takeWhile_sorted_split(2))
  then show ?thesis using assms(1) takeWhile_all
    by (auto simp: LowerBound_def less_u64 dest: takeWhile_all)
qed

lemma rs_UpperBound_split:
  assumes "UpperBound a rs = (B, R)" and "apart rs"
  shows "rs = B @ R \<and> (\<forall>r\<in>set B. lo r \<le> unat a) \<and> (\<forall>r\<in>set R. unat a < lo r)"
proof -
  have "sorted_wrt (\<lambda>x y. lo x < lo y) rs" by (rule apart_sorted [OF assms(2)])
  then have "\<forall>r\<in>set (dropWhile (\<lambda>r. lo r \<le> unat a) rs). unat a < lo r" by (rule takeWhile_sorted_split(1))
  then show ?thesis using assms(1) takeWhile_all
    by (auto simp: UpperBound_def le_u64 dest: takeWhile_all)
qed

lemma before_last:
  assumes "apart B" and "B \<noteq> []" and "r \<in> set (butlast B)"
  shows "hi r < lo (last B)"
proof -
  have "apart (butlast B @ [last B])" using assms(1,2) by simp
  then show ?thesis using assms(3) unfolding apart_simps(3) by simp
qed

lemma step_back_split:
  assumes s: "step_back P (LowerBound a rs) = (B, R)" and ok: "apart rs"
    and P: "\<And>r. lo r < unat a \<Longrightarrow> P r \<longleftrightarrow> Q (hi r)" and up: "\<And>x y. Q x \<Longrightarrow> x \<le> y \<Longrightarrow> Q y" and reach: "\<And>x. unat a < x \<Longrightarrow> Q x"
    and low: "\<And>x. x < unat a \<Longrightarrow> \<not> Q x"
  shows "rs = B @ R \<and> (\<forall>r\<in>set B. \<not> Q (hi r)) \<and> (\<forall>r\<in>set R. Q (hi r))"
proof -
  obtain B0 R0 where l: "LowerBound a rs = (B0, R0)" by fastforce
  have sp: "rs = B0 @ R0" "\<forall>r\<in>set B0. lo r < unat a" "\<forall>r\<in>set R0. unat a \<le> lo r"
    using rs_LowerBound_split [OF l ok] by auto
  have R0: "\<forall>r\<in>set R0. Q (hi r)"
  proof
    fix r assume "r \<in> set R0"
    then have "unat a \<le> lo r" "lo r < hi r" using sp(1,3) apart_pos [OF ok] by auto
    then show "Q (hi r)" by (intro reach) linarith
  qed
  have B0: "\<forall>r\<in>set (butlast B0). \<not> Q (hi r)" if "B0 \<noteq> []"
  proof
    fix r assume r: "r \<in> set (butlast B0)"
    have "lo (last B0) < unat a" using sp(2) last_in_set [OF that] by blast
    then have "hi r < unat a" using before_last [OF _ that r] ok sp(1) by auto
    then show "\<not> Q (hi r)" by (rule low)
  qed
  show ?thesis
  proof (cases "B0 \<noteq> [] \<and> P (last B0)")
    case True
    then have out: "B = butlast B0" "R = last B0 # R0" using s l by (auto simp: step_back_def)
    have "lo (last B0) < unat a" using sp(2) True last_in_set by blast
    then have "Q (hi (last B0))" using True P by blast
    then show ?thesis using True sp(1) R0 B0 by (auto simp: out)
  next
    case False
    then have out: "B = B0" "R = R0" using s l by (auto simp: step_back_def)
    have "\<not> Q (hi r)" if r: "r \<in> set B0" for r
    proof -
      have ne: "B0 \<noteq> []" using r by auto
      have "lo (last B0) < unat a" using sp(2) ne last_in_set by blast
      then have "\<not> Q (hi (last B0))" using False P ne by blast
      moreover have "r = last B0 \<or> r \<in> set (butlast B0)" using r ne by (metis append_butlast_last_id in_set_butlast_appendI rotate1.simps(2) set_ConsD set_rotate1)
      ultimately show ?thesis using B0 [OF ne] by blast
    qed
    then show ?thesis using sp(1) R0 by (auto simp: out)
  qed
qed


subsection \<open>Adding\<close>

lemma End_spec:
  assumes "End a n = Some e"
  shows "unat e = unat a + unat n \<and> unat a < unat e \<and> 0 < unat n"
proof -
  have n: "n \<noteq> 0" "\<not> u64_max - a < n" "e = a + n" using assms by (auto simp: End_def split: if_splits)
  have "unat (u64_max - a) = 18446744073709551615 - unat a"
    using unat_minus_u64 [of a u64_max] unat_u64_le [of a] by simp
  then have "unat a + unat n < 18446744073709551616" using n(2) unat_u64_le [of a] by (simp add: less_u64)
  then have "unat e = unat a + unat n" unfolding n(3) by (rule unat_plus_u64)
  moreover have "0 < unat n" using n(1) by (simp add: neq0_u64)
  ultimately show ?thesis by linarith
qed

lemma add_merge_spec:
  assumes "add_merge b l R = (b', l', R')" and "apart R" and "unat b < unat l" and "\<forall>r\<in>set R. unat b \<le> hi r"
  shows "\<exists>M. R = M @ R' \<and> unat b' < unat l' \<and> (\<forall>r\<in>set R'. unat l' < lo r) \<and>
    {unat b' ..< unat l'} = {unat b ..< unat l} \<union> addresses M \<and>
    (\<forall>x. x < unat b \<longrightarrow> (\<forall>r\<in>set M. x < lo r) \<longrightarrow> x < unat b')"
  using assms
proof (induction b l R arbitrary: b' l' R' rule: add_merge.induct)
  case (2 b l r rs)
  show ?case
  proof (cases "iv_begin r \<le> l")
    case True
    have m: "unat (min b (iv_begin r)) = min (unat b) (lo r)" "unat (max l (iv_end r)) = max (unat l) (hi r)"
      by (simp_all add: unat_min_u64 unat_max_u64)
    have run: "add_merge (min b (iv_begin r)) (max l (iv_end r)) rs = (b', l', R')" using "2.prems"(1) True by simp
    have touch: "lo r \<le> unat l" "unat b \<le> hi r" "lo r < hi r" using True "2.prems" by (auto simp: le_u64)
    have pre: "apart rs" "unat (min b (iv_begin r)) < unat (max l (iv_end r))" "\<forall>q\<in>set rs. unat (min b (iv_begin r)) \<le> hi q"
      using "2.prems" by (auto simp: m)
    obtain M where M: "rs = M @ R'" "unat b' < unat l'" "\<forall>r\<in>set R'. unat l' < lo r"
      "{unat b' ..< unat l'} = {unat (min b (iv_begin r)) ..< unat (max l (iv_end r))} \<union> addresses M"
      "\<forall>x. x < unat (min b (iv_begin r)) \<longrightarrow> (\<forall>r\<in>set M. x < lo r) \<longrightarrow> x < unat b'"
      using "2.IH" [OF True run pre] by blast
    have "{unat (min b (iv_begin r)) ..< unat (max l (iv_end r))} = {unat b ..< unat l} \<union> {lo r ..< hi r}"
      unfolding m using touch "2.prems"(3) by (auto simp: min_def max_def split: if_splits)
    then have "{unat b' ..< unat l'} = {unat b ..< unat l} \<union> addresses (r # M)" using M(4) by auto
    moreover have "\<forall>x. x < unat b \<longrightarrow> (\<forall>q\<in>set (r # M). x < lo q) \<longrightarrow> x < unat b'" using M(5) by (simp add: m)
    ultimately show ?thesis using M(1-3) by (intro exI [of _ "r # M"]) simp
  next
    case False
    then have out: "b' = b" "l' = l" "R' = r # rs" using "2.prems"(1) by auto
    have "\<forall>q\<in>set (r # rs). unat l < lo q" using False "2.prems"(2) by (auto simp: le_u64 intro: less_trans)
    then show ?thesis using "2.prems"(3) unfolding out by (intro exI [of _ "[]"]) simp
  qed
qed simp

text \<open>What the slow path of \<open>Add\<close> does to the array.\<close>

lemma add_ranges:
  assumes "step_back (\<lambda>p. a \<le> iv_end p) (LowerBound a rs) = (B, R)" and "add_merge a e R = (b, l, R')"
    and ok: "apart rs" and ae: "unat a < unat e"
  shows "apart (B @ \<lparr>iv_begin = b, iv_end = l\<rparr> # R') \<and>
    addresses (B @ \<lparr>iv_begin = b, iv_end = l\<rparr> # R') = addresses rs \<union> {unat a ..< unat e}"
proof -
  have "rs = B @ R \<and> (\<forall>r\<in>set B. \<not> unat a \<le> hi r) \<and> (\<forall>r\<in>set R. unat a \<le> hi r)"
    by (rule step_back_split [OF assms(1) ok]) (auto simp: le_u64)
  then have sp: "rs = B @ R" "\<forall>r\<in>set B. hi r < unat a" "\<forall>r\<in>set R. unat a \<le> hi r" by auto
  have R: "apart R" using ok sp(1) by simp
  obtain M where M: "R = M @ R'" "unat b < unat l" "\<forall>r\<in>set R'. unat l < lo r"
    "{unat b ..< unat l} = {unat a ..< unat e} \<union> addresses M"
    "\<forall>x. x < unat a \<longrightarrow> (\<forall>r\<in>set M. x < lo r) \<longrightarrow> x < unat b"
    using add_merge_spec [OF assms(2) R ae sp(3)] by blast
  have "\<forall>x\<in>set B. hi x < unat b" using M(5) sp ok by (auto simp: M(1))
  moreover have "\<forall>x\<in>set B. \<forall>y\<in>set R'. hi x < lo y" "apart B" "apart R'" using ok sp(1) M(1) by auto
  ultimately have "apart (B @ \<lparr>iv_begin = b, iv_end = l\<rparr> # R')" using M(2,3) by simp
  moreover have "addresses (B @ \<lparr>iv_begin = b, iv_end = l\<rparr> # R') = addresses rs \<union> {unat a ..< unat e}"
    using M(4) by (auto simp: sp(1) M(1))
  ultimately show ?thesis by blast
qed

subsection \<open>Subtracting\<close>

lemma addresses_cut:
  assumes ok: "apart M" and ne: "M \<noteq> []" and hit: "\<forall>r\<in>set M. a < hi r \<and> lo r < e" and ae: "a < e"
  shows "addresses M - {a ..< e} = {lo (hd M) ..< a} \<union> {e ..< hi (last M)}"
proof (intro equalityI subsetI)
  fix x assume "x \<in> addresses M - {a ..< e}"
  then obtain r where r: "r \<in> set M" "lo r \<le> x" "x < hi r" and x: "x < a \<or> e \<le> x" by (auto simp: addresses_def)
  show "x \<in> {lo (hd M) ..< a} \<union> {e ..< hi (last M)}"
  proof (cases "x < a")
    case True
    have "hd M \<in> set M" using ne by simp
    then have "a < hi (hd M)" using hit by blast
    then have "\<not> hi (hd M) < lo r" using True r(2) by linarith
    moreover have "r = hd M \<or> hi (hd M) < lo r" using ok r(1) ne by (cases M) auto
    ultimately show ?thesis using True r by auto
  next
    case False
    then have e: "e \<le> x" using x by blast
    have "lo (last M) < e" using hit last_in_set [OF ne] by blast
    moreover have "r = last M \<or> r \<in> set (butlast M)"
      using r(1) ne by (metis append_butlast_last_id in_set_conv_nth UnE set_append empty_iff set_ConsD empty_set)
    moreover have "r \<in> set (butlast M) \<Longrightarrow> hi r < lo (last M)" by (rule before_last [OF ok ne])
    ultimately show ?thesis using e r by auto
  qed
next
  fix x assume x: "x \<in> {lo (hd M) ..< a} \<union> {e ..< hi (last M)}"
  have "hd M \<in> set M" "last M \<in> set M" using ne by auto
  then have "a < hi (hd M)" "lo (last M) < e" using hit by blast+
  then show "x \<in> addresses M - {a ..< e}"
    using x ae \<open>hd M \<in> set M\<close> \<open>last M \<in> set M\<close> unfolding addresses_def by fastforce
qed

lemma subtract_ranges:
  assumes sb: "step_back (\<lambda>p. a < iv_end p) (LowerBound a rs) = (B, R)" and ok: "apart rs" and ae: "unat a < unat e"
    and M: "M = takeWhile (\<lambda>r. iv_begin r < e) R" and R': "R' = dropWhile (\<lambda>r. iv_begin r < e) R"
    and parts: "parts = (if iv_begin (hd M) < a then [\<lparr>iv_begin = iv_begin (hd M), iv_end = a\<rparr>] else []) @
      (if e < iv_end (last M) then [\<lparr>iv_begin = e, iv_end = iv_end (last M)\<rparr>] else [])"
  shows "if M = [] then addresses rs = addresses rs - {unat a ..< unat e}
    else apart (B @ parts @ R') \<and> addresses (B @ parts @ R') = addresses rs - {unat a ..< unat e}"
proof -
  have "rs = B @ R \<and> (\<forall>r\<in>set B. \<not> unat a < hi r) \<and> (\<forall>r\<in>set R. unat a < hi r)"
    by (rule step_back_split [OF sb ok]) (auto simp: less_u64)
  then have sp: "rs = B @ R" "\<forall>r\<in>set B. hi r \<le> unat a" "\<forall>r\<in>set R. unat a < hi r" by auto
  have split: "R = M @ R'" by (simp add: M R')
  have Mlo: "\<forall>r\<in>set M. lo r < unat e" unfolding M by (auto simp: less_u64 dest: takeWhile_all)
  have "sorted_wrt (\<lambda>x y. lo x < lo y) R" using ok sp(1) apart_sorted by simp
  then have R'lo: "\<forall>r\<in>set R'. unat e \<le> lo r"
    using takeWhile_sorted_split(2) [of lo R "unat e"] by (simp add: R' less_u64)
  have B: "addresses B \<inter> {unat a ..< unat e} = {}" using sp(2) by (fastforce simp: addresses_def)
  have R'a: "addresses R' \<inter> {unat a ..< unat e} = {}" using R'lo by (fastforce simp: addresses_def)
  show ?thesis
  proof (cases "M = []")
    case True
    then show ?thesis using B R'a by (auto simp: sp(1) split)
  next
    case False
    have okM: "apart M" "apart B" "apart R'" using ok by (auto simp: sp(1) split)
    have hit: "\<forall>r\<in>set M. unat a < hi r \<and> lo r < unat e" using sp(3) Mlo by (auto simp: split)
    have hl: "hd M \<in> set M" "last M \<in> set M" using False by auto
    have "addresses parts = {lo (hd M) ..< unat a} \<union> {unat e ..< hi (last M)}"
      unfolding parts by (auto simp: less_u64)
    also have "\<dots> = addresses M - {unat a ..< unat e}" using addresses_cut [OF okM(1) False hit ae] by simp
    finally have pa: "addresses parts = addresses M - {unat a ..< unat e}" .
    have "addresses (B @ parts @ R') = addresses rs - {unat a ..< unat e}"
      using B R'a by (auto simp: pa sp(1) split)
    moreover have "apart (B @ parts @ R')"
    proof -
      have p: "\<forall>q\<in>set parts. (lo q = lo (hd M) \<and> hi q = unat a \<and> lo q < hi q) \<or> (lo q = unat e \<and> hi q = hi (last M) \<and> lo q < hi q)"
        unfolding parts by (auto simp: less_u64)
      have Blo: "\<forall>x\<in>set B. hi x < lo (hd M)" and lastR: "\<forall>y\<in>set R'. hi (last M) < lo y" and BR: "\<forall>x\<in>set B. \<forall>y\<in>set R'. hi x < lo y"
        using ok hl by (auto simp: sp(1) split)
      have "apart parts" unfolding parts using ae by (auto simp: less_u64)
      moreover have "\<forall>x\<in>set B. \<forall>q\<in>set parts. hi x < lo q" using p Blo sp(2) ae by fastforce
      moreover have "\<forall>q\<in>set parts. \<forall>y\<in>set R'. hi q < lo y" using p lastR R'lo ae by fastforce
      ultimately show ?thesis using okM BR by auto
    qed
    ultimately show ?thesis using False by simp
  qed
qed


subsection \<open>Looking up\<close>

lemma UpperBound_last:
  assumes "UpperBound a rs = (B, R)" and ok: "apart rs"
  shows "(\<exists>r\<in>set rs. lo r \<le> unat a \<and> unat e \<le> hi r \<and> unat a < unat e) \<longleftrightarrow>
    B \<noteq> [] \<and> unat e \<le> hi (last B) \<and> unat a < unat e" and "B \<noteq> [] \<Longrightarrow> last B \<in> set rs \<and> lo (last B) \<le> unat a"
proof -
  have sp: "rs = B @ R" "\<forall>r\<in>set B. lo r \<le> unat a" "\<forall>r\<in>set R. unat a < lo r"
    using rs_UpperBound_split [OF assms] by auto
  show last: "B \<noteq> [] \<Longrightarrow> last B \<in> set rs \<and> lo (last B) \<le> unat a" using sp by auto
  have "r = last B" if r: "r \<in> set rs" "lo r \<le> unat a" "unat e \<le> hi r" "unat a < unat e" for r
  proof -
    have B: "r \<in> set B" using r sp by auto
    then have ne: "B \<noteq> []" by auto
    have "\<not> r \<in> set (butlast B)"
      using before_last [of B r] ok sp(1,2) ne last [OF ne] r by force
    then show ?thesis using B ne by (metis append_butlast_last_id in_set_conv_nth UnE set_append empty_iff set_ConsD empty_set)
  qed
  then show "(\<exists>r\<in>set rs. lo r \<le> unat a \<and> unat e \<le> hi r \<and> unat a < unat e) \<longleftrightarrow> B \<noteq> [] \<and> unat e \<le> hi (last B) \<and> unat a < unat e"
    using last sp by (metis append_is_Nil_conv empty_iff empty_set UnE set_append leD)
qed

definition hints_ok :: "range_set \<Rightarrow> bool" where
  "hints_ok s \<longleftrightarrow> length (m_hints s) = 4 \<and> (\<forall>h\<in>set (m_hints s). unat (hint_version h) \<le> unat (m_version s) \<and>
     (hint_version h = m_version s \<longrightarrow> (\<exists>r\<in>set (m_ranges s). hint_begin h = iv_begin r \<and> hint_end h = iv_end r)))"

text \<open>The remembered lookups answer as the array does, and stay true.\<close>

lemma Covered_spec:
  assumes "Covered a e s = (c, s')" and ok: "apart (m_ranges s)" and h: "hints_ok s" and ae: "unat a < unat e"
  shows "c \<longleftrightarrow> {unat a ..< unat e} \<subseteq> addresses (m_ranges s)" and "m_ranges s' = m_ranges s" and "hints_ok s'"
    and "m_version s' = m_version s"
proof -
  let ?in = "\<exists>r\<in>set (m_ranges s). lo r \<le> unat a \<and> unat e \<le> hi r"
  have "(c \<longleftrightarrow> ?in) \<and> m_ranges s' = m_ranges s \<and> hints_ok s' \<and> m_version s' = m_version s"
  proof (cases "list_ex (\<lambda>h. hint_version h = m_version s \<and> hint_begin h \<le> a \<and> e \<le> hint_end h) (m_hints s)")
    case True
    then obtain x where "x \<in> set (m_hints s)" "hint_version x = m_version s" "hint_begin x \<le> a" "e \<le> hint_end x"
      by (auto simp: list_ex_iff)
    moreover from this obtain r where "r \<in> set (m_ranges s)" "hint_begin x = iv_begin r" "hint_end x = iv_end r"
      using h unfolding hints_ok_def by blast
    ultimately have ?in by (metis le_u64)
    then show ?thesis using True assms(1) h by (simp add: Covered_def)
  next
    case False
    obtain B R where u: "UpperBound a (m_ranges s) = (B, R)" by fastforce
    note b = UpperBound_last [OF u ok]
    show ?thesis
    proof (cases "B \<noteq> [] \<and> unat e \<le> hi (last B)")
      case True
      then have c: "\<not> a < iv_begin (last B)" "\<not> iv_end (last B) < e" using b(2) by (auto simp: less_u64)
      have out: "c" "s' = s\<lparr>m_hints := (m_hints s)[unat (m_next_hint s) mod length (m_hints s) :=
          \<lparr>hint_version = m_version s, hint_begin = iv_begin (last B), hint_end = iv_end (last B)\<rparr>], m_next_hint := m_next_hint s + 1\<rparr>"
        using assms(1) False u True c by (auto simp: Covered_def Let_def)
      have ?in using b(1) True ae by blast
      moreover have "hints_ok s'"
        using h b(2) True unfolding out(2) hints_ok_def by (auto dest!: set_update_subset_insert [THEN subsetD])
      ultimately show ?thesis using out by simp
    next
      case nf: False
      then have "\<not> c" "s' = s"
        using assms(1) False u by (auto simp: Covered_def less_u64 split: if_splits)
      moreover have "\<not> ?in" using b(1) nf ae by blast
      ultimately show ?thesis using h by simp
    qed
  qed
  then show "c \<longleftrightarrow> {unat a ..< unat e} \<subseteq> addresses (m_ranges s)" and "m_ranges s' = m_ranges s" and "hints_ok s'"
    and "m_version s' = m_version s"
    using addresses_contain [OF ok ae] by auto
qed

lemma Contains_spec:
  assumes c: "RangeSet_Contains fast a n s = Some (c, s')" and ok: "apart (m_ranges s)" and h: "hints_ok s"
  shows "(c \<longleftrightarrow> {unat a ..< unat a + unat n} \<subseteq> addresses (m_ranges s)) \<and> m_ranges s' = m_ranges s \<and> hints_ok s' \<and>
    m_version s' = m_version s"
proof -
  obtain e where e: "End a n = Some e" using c by (auto simp: RangeSet_Contains_def split: option.splits)
  note es = End_spec [OF e]
  show ?thesis
  proof (cases "Fast fast s")
    case True
    then have cov: "Covered a e s = (c, s')" using c e by (simp add: RangeSet_Contains_def)
    have ae: "unat a < unat e" and ue: "unat a + unat n = unat e" using es by auto
    show ?thesis unfolding ue using Covered_spec [OF cov ok h ae] by blast
  next
    case False
    obtain B R where u: "UpperBound a (m_ranges s) = (B, R)" by fastforce
    note b = UpperBound_last [OF u ok]
    have "s' = s" "c \<longleftrightarrow> B \<noteq> [] \<and> unat e \<le> hi (last B)"
      using c e False u b(2) by (auto simp: RangeSet_Contains_def le_u64)
    moreover have ae: "unat a < unat e" and ue: "unat a + unat n = unat e" using es by auto
    ultimately show ?thesis unfolding ue addresses_contain [OF ok ae] using b(1) [of e] h by auto
  qed
qed

lemma Intersects_spec:
  assumes c: "RangeSet_Intersects a n s = Some c" and ok: "apart (m_ranges s)"
  shows "c \<longleftrightarrow> addresses (m_ranges s) \<inter> {unat a ..< unat a + unat n} \<noteq> {}"
proof -
  obtain e where e: "End a n = Some e" using c by (auto simp: RangeSet_Intersects_def split: option.splits)
  note es = End_spec [OF e]
  obtain B R where l: "LowerBound a (m_ranges s) = (B, R)" by fastforce
  have sp: "m_ranges s = B @ R" "\<forall>r\<in>set B. lo r < unat a" "\<forall>r\<in>set R. unat a \<le> lo r"
    using rs_LowerBound_split [OF l ok] by auto
  have c': "c \<longleftrightarrow> B \<noteq> [] \<and> unat a < hi (last B) \<or> R \<noteq> [] \<and> lo (hd R) < unat e"
    using c e l by (simp add: RangeSet_Intersects_def less_u64 split: if_splits) blast+
  have hit: "addresses (m_ranges s) \<inter> {unat a ..< unat e} \<noteq> {} \<longleftrightarrow> (\<exists>r\<in>set (m_ranges s). unat a < hi r \<and> lo r < unat e)"
  proof
    assume "\<exists>r\<in>set (m_ranges s). unat a < hi r \<and> lo r < unat e"
    then obtain r where r: "r \<in> set (m_ranges s)" "unat a < hi r" "lo r < unat e" by blast
    then have "max (unat a) (lo r) \<in> addresses (m_ranges s) \<inter> {unat a ..< unat e}"
      using apart_pos [OF ok r(1)] es by (auto simp: addresses_def intro!: bexI [of _ r])
    then show "addresses (m_ranges s) \<inter> {unat a ..< unat e} \<noteq> {}" by blast
  qed (fastforce simp: addresses_def)
  have inB: "(\<exists>r\<in>set B. unat a < hi r) \<longleftrightarrow> B \<noteq> [] \<and> unat a < hi (last B)"
  proof
    assume "\<exists>r\<in>set B. unat a < hi r"
    then obtain r where r: "r \<in> set B" "unat a < hi r" by blast
    then have ne: "B \<noteq> []" by auto
    have "apart B" "lo (last B) < unat a" using ok sp(1,2) last_in_set [OF ne] by auto
    then have "r \<notin> set (butlast B)" using before_last [OF _ ne, of r] r(2) by fastforce
    then have "r = last B" using r(1) ne by (metis append_butlast_last_id in_set_conv_nth UnE set_append empty_iff set_ConsD empty_set)
    then show "B \<noteq> [] \<and> unat a < hi (last B)" using r(2) ne by simp
  qed auto
  have inR: "(\<exists>r\<in>set R. lo r < unat e) \<longleftrightarrow> R \<noteq> [] \<and> lo (hd R) < unat e"
    using ok sp(1) by (cases R) fastforce+
  have "\<forall>r\<in>set B. lo r < unat e" "\<forall>r\<in>set R. unat a < hi r" using sp ok es apart_pos [OF ok] by fastforce+
  then have "(\<exists>r\<in>set (m_ranges s). unat a < hi r \<and> lo r < unat e) \<longleftrightarrow> c"
    using inB inR unfolding c' sp(1) by auto
  then show ?thesis using hit es by simp
qed


text \<open>One interval clipped to a range.\<close>

definition clip :: "u64 \<Rightarrow> u64 \<Rightarrow> interval \<Rightarrow> (u64 \<times> u64) list" where
  "clip a e r = (let b = max a (iv_begin r); l = min e (iv_end r) in if b < l then [(b, l - b)] else [])"

lemma clip_spec:
  "\<forall>(b, k)\<in>set (clip a e r). 0 < unat k \<and> unat b = max (unat a) (lo r) \<and> unat b + unat k = min (unat e) (hi r)"
  "(\<Union>(b, k)\<in>set (clip a e r). {unat b ..< unat b + unat k}) = {lo r ..< hi r} \<inter> {unat a ..< unat e}"
proof -
  have s: "unat (min e (iv_end r) - max a (iv_begin r)) = min (unat e) (hi r) - max (unat a) (lo r)"
    if "max (unat a) (lo r) < min (unat e) (hi r)"
    using that unat_minus_u64 [of "max a (iv_begin r)" "min e (iv_end r)"] by (simp add: unat_min_u64 unat_max_u64)
  show "\<forall>(b, k)\<in>set (clip a e r). 0 < unat k \<and> unat b = max (unat a) (lo r) \<and> unat b + unat k = min (unat e) (hi r)"
    using s by (auto simp: clip_def Let_def less_u64 unat_min_u64 unat_max_u64)
  show "(\<Union>(b, k)\<in>set (clip a e r). {unat b ..< unat b + unat k}) = {lo r ..< hi r} \<inter> {unat a ..< unat e}"
  proof (cases "max (unat a) (lo r) < min (unat e) (hi r)")
    case True
    have "max (unat a) (lo r) + (min (unat e) (hi r) - max (unat a) (lo r)) = min (unat e) (hi r)" using True by simp
    then show ?thesis using True s by (auto simp: clip_def Let_def less_u64 unat_min_u64 unat_max_u64)
  next
    case False
    then have "{lo r ..< hi r} \<inter> {unat a ..< unat e} = {}" by auto
    then show ?thesis using False by (auto simp: clip_def Let_def less_u64 unat_min_u64 unat_max_u64)
  qed
qed

lemma Intersections_spec:
  assumes c: "Intersections a n s = Some xs" and ok: "apart (m_ranges s)"
  shows "(\<Union>(b, k)\<in>set xs. {unat b ..< unat b + unat k}) = addresses (m_ranges s) \<inter> {unat a ..< unat a + unat n} \<and>
    (\<forall>(b, k)\<in>set xs. 0 < unat k)"
proof -
  obtain e where e: "End a n = Some e" using c by (auto simp: Intersections_def ForEachIntersection_def split: option.splits)
  have ae: "unat a < unat e" and ue: "unat a + unat n = unat e" using End_spec [OF e] by auto
  obtain B R where u: "UpperBound a (m_ranges s) = (B, R)" by fastforce
  have sp: "m_ranges s = B @ R" "\<forall>r\<in>set B. lo r \<le> unat a" "\<forall>r\<in>set R. unat a < lo r"
    using rs_UpperBound_split [OF u ok] by auto
  obtain B1 R1 where b: "step_back (\<lambda>_. True) (B, R) = (B1, R1)" by fastforce
  have "B1 @ R1 = m_ranges s \<and> (\<forall>r\<in>set B1. hi r \<le> unat a)"
  proof (cases "B = []")
    case True
    then show ?thesis using b sp(1) by (simp add: step_back_def)
  next
    case False
    have "apart B" "lo (last B) \<le> unat a" using ok sp(1,2) last_in_set [OF False] by auto
    then have "\<forall>r\<in>set (butlast B). hi r \<le> unat a" using before_last [OF _ False] by fastforce
    then show ?thesis using b sp(1) False by (auto simp: step_back_def)
  qed
  then have s1: "m_ranges s = B1 @ R1" "\<forall>r\<in>set B1. hi r \<le> unat a" by auto
  define M D where "M = takeWhile (\<lambda>r. iv_begin r < e) R1" and "D = dropWhile (\<lambda>r. iv_begin r < e) R1"
  have R1: "R1 = M @ D" by (simp add: M_def D_def)
  have "sorted_wrt (\<lambda>x y. lo x < lo y) R1" using ok s1(1) apart_sorted by simp
  then have D: "\<forall>r\<in>set D. unat e \<le> lo r" using takeWhile_sorted_split(2) [of lo R1 "unat e"] by (simp add: D_def less_u64)
  have xs: "xs = concat (map (clip a e) M)"
    using c e u b by (simp add: Intersections_def ForEachIntersection_def M_def clip_def [abs_def])
  have "addresses (B1 @ D) \<inter> {unat a ..< unat e} = {}" using s1(2) D by (fastforce simp: addresses_def)
  then have "addresses (m_ranges s) \<inter> {unat a ..< unat e} = addresses M \<inter> {unat a ..< unat e}"
    by (auto simp: s1(1) R1)
  also have "\<dots> = (\<Union>r\<in>set M. {lo r ..< hi r} \<inter> {unat a ..< unat e})" by (auto simp: addresses_def)
  also have "\<dots> = (\<Union>(b, k)\<in>set xs. {unat b ..< unat b + unat k})"
    unfolding xs clip_spec(2) [symmetric] by auto
  finally have "(\<Union>(b, k)\<in>set xs. {unat b ..< unat b + unat k}) = addresses (m_ranges s) \<inter> {unat a ..< unat e}" by simp
  moreover have "\<forall>(b, k)\<in>set xs. 0 < unat k" unfolding xs using clip_spec(1) by fastforce
  ultimately show ?thesis by (simp add: ue)
qed

subsection \<open>Runs\<close>

datatype rs_op =
    RsAdd bool u64 u64
  | RsSubtract u64 u64
  | RsClear
  | RsContains bool u64 u64
  | RsAllowFastPath

text \<open>A range set with the addresses it should hold and a bound on its changes.\<close>

record rs_state =
  rs_set :: range_set
  rs_addresses :: "nat set"
  rs_changes :: nat

fun rs_exec :: "rs_op \<Rightarrow> rs_state \<Rightarrow> rs_state option" where
  "rs_exec (RsAdd fast a n) g = (case RangeSet_Add fast a n (rs_set g) of None \<Rightarrow> None
     | Some s \<Rightarrow> Some \<lparr>rs_set = s, rs_addresses = rs_addresses g \<union> {unat a ..< unat a + unat n}, rs_changes = Suc (rs_changes g)\<rparr>)"
| "rs_exec (RsSubtract a n) g = (case RangeSet_Subtract a n (rs_set g) of None \<Rightarrow> None
     | Some s \<Rightarrow> Some \<lparr>rs_set = s, rs_addresses = rs_addresses g - {unat a ..< unat a + unat n}, rs_changes = Suc (rs_changes g)\<rparr>)"
| "rs_exec RsClear g = Some \<lparr>rs_set = RangeSet_Clear (rs_set g), rs_addresses = {}, rs_changes = Suc (rs_changes g)\<rparr>"
| "rs_exec (RsContains fast a n) g = (case RangeSet_Contains fast a n (rs_set g) of None \<Rightarrow> None
     | Some (c, s) \<Rightarrow> Some (g\<lparr>rs_set := s, rs_changes := Suc (rs_changes g)\<rparr>))"
| "rs_exec RsAllowFastPath g = Some (g\<lparr>rs_set := AllowFastPath (rs_set g), rs_changes := Suc (rs_changes g)\<rparr>)"

definition rs_init :: rs_state where
  "rs_init = \<lparr>rs_set = RangeSet_init, rs_addresses = {}, rs_changes = 0\<rparr>"

text \<open>While the 64-bit version has not wrapped.\<close>

definition rs_inv :: "rs_state \<Rightarrow> bool" where
  "rs_inv g \<longleftrightarrow> (rs_changes g < 18446744073709551615 \<longrightarrow>
     apart (m_ranges (rs_set g)) \<and> addresses (m_ranges (rs_set g)) = rs_addresses g \<and> hints_ok (rs_set g) \<and>
     unat (m_version (rs_set g)) \<le> Suc (rs_changes g))"

lemma hints_ok_change:
  assumes "hints_ok s" and "unat (m_version s) < 18446744073709551615"
  shows "hints_ok (s\<lparr>m_version := m_version s + 1, m_ranges := rs\<rparr>) \<and> unat (m_version s + 1) = Suc (unat (m_version s))"
proof -
  have v: "unat (m_version s + 1) = Suc (unat (m_version s))" using assms(2) unat_plus_u64 [of "m_version s" 1] by simp
  then have "hint_version h \<noteq> m_version s + 1 \<and> unat (hint_version h) \<le> unat (m_version s + 1)" if "h \<in> set (m_hints s)" for h
    using assms(1) that unfolding hints_ok_def by fastforce
  then show ?thesis using assms(1) v unfolding hints_ok_def by auto
qed

lemma rs_inv_change:
  assumes "apart rs" and "addresses rs = A" and "hints_ok s" and "unat (m_version s) \<le> Suc n" and "n < 18446744073709551614"
  shows "rs_inv \<lparr>rs_set = s\<lparr>m_version := m_version s + 1, m_ranges := rs\<rparr>, rs_addresses = A, rs_changes = Suc n\<rparr>"
proof -
  have "unat (m_version s) < 18446744073709551615" using assms(4,5) by linarith
  then show ?thesis using hints_ok_change [OF assms(3)] assms by (simp add: rs_inv_def)
qed


text \<open>What holds before the version can wrap.\<close>

definition rs_good :: "rs_state \<Rightarrow> bool" where
  "rs_good g \<longleftrightarrow> apart (m_ranges (rs_set g)) \<and> addresses (m_ranges (rs_set g)) = rs_addresses g \<and>
     hints_ok (rs_set g) \<and> unat (m_version (rs_set g)) \<le> Suc (rs_changes g) \<and> rs_changes g < 18446744073709551614"

lemma rs_goodD:
  assumes "rs_good g"
  shows "apart (m_ranges (rs_set g))" "addresses (m_ranges (rs_set g)) = rs_addresses g" "hints_ok (rs_set g)"
    "unat (m_version (rs_set g)) \<le> Suc (rs_changes g)" "rs_changes g < 18446744073709551614"
  using assms by (simp_all add: rs_good_def)

lemma rs_inv_add:
  assumes "rs_good g" and s: "RangeSet_Add fast a n (rs_set g) = Some s"
    and g': "g' = \<lparr>rs_set = s, rs_addresses = rs_addresses g \<union> {unat a ..< unat a + unat n}, rs_changes = Suc (rs_changes g)\<rparr>"
  shows "rs_inv g'"
proof -
  let ?s = "rs_set g"
  note inv = rs_goodD [OF assms(1)] and small = rs_goodD(5) [OF assms(1)]
  obtain e where e: "End a n = Some e" using s by (auto simp: RangeSet_Add_def split: option.splits)
  have ae: "unat a < unat e" and ue: "unat a + unat n = unat e" using End_spec [OF e] by auto
  obtain c s1 where c: "(if Fast fast ?s then Covered a e ?s else (False, ?s)) = (c, s1)" by fastforce
  have c1: "m_ranges s1 = m_ranges ?s \<and> hints_ok s1 \<and> m_version s1 = m_version ?s \<and>
    (c \<longrightarrow> {unat a ..< unat e} \<subseteq> addresses (m_ranges ?s))"
  proof (cases "Fast fast ?s")
    case True
    then have "Covered a e ?s = (c, s1)" using c by simp
    from Covered_spec [OF this inv(1,3) ae] show ?thesis by blast
  next
    case False
    then show ?thesis using c inv(3) by auto
  qed
  show ?thesis
  proof (cases c)
    case True
    then have "s = s1" using s e c by (simp add: RangeSet_Add_def)
    moreover have "rs_addresses g \<union> {unat a ..< unat e} = rs_addresses g" using c1 inv(2) True by blast
    ultimately show ?thesis using c1 inv by (simp add: g' ue rs_inv_def)
  next
    case False
    obtain B R where b: "step_back (\<lambda>p. a \<le> iv_end p) (LowerBound a (m_ranges ?s)) = (B, R)" by fastforce
    obtain b' l' R' where m: "add_merge a e R = (b', l', R')" by (metis prod_cases3)
    have "s = s1\<lparr>m_version := m_version s1 + 1, m_ranges := B @ \<lparr>iv_begin = b', iv_end = l'\<rparr> # R'\<rparr>"
      using s e c False b m c1 by (simp add: RangeSet_Add_def)
    moreover note r = add_ranges [OF b m inv(1) ae, unfolded inv(2)]
    have "unat (m_version s1) \<le> Suc (rs_changes g)" "hints_ok s1" using c1 inv(4) by auto
    note rs_inv_change [OF conjunct1 [OF r] conjunct2 [OF r] this(2,1) small]
    ultimately show ?thesis unfolding g' ue by simp
  qed
qed

lemma rs_inv_subtract:
  assumes "rs_good g" and s: "RangeSet_Subtract a n (rs_set g) = Some s"
    and g': "g' = \<lparr>rs_set = s, rs_addresses = rs_addresses g - {unat a ..< unat a + unat n}, rs_changes = Suc (rs_changes g)\<rparr>"
  shows "rs_inv g'"
proof -
  let ?s = "rs_set g"
  note inv = rs_goodD [OF assms(1)] and small = rs_goodD(5) [OF assms(1)]
  obtain e where e: "End a n = Some e" using s by (auto simp: RangeSet_Subtract_def split: option.splits)
  have ae: "unat a < unat e" and ue: "unat a + unat n = unat e" using End_spec [OF e] by auto
  obtain B R where b: "step_back (\<lambda>p. a < iv_end p) (LowerBound a (m_ranges ?s)) = (B, R)" by fastforce
  define M where "M = takeWhile (\<lambda>r. iv_begin r < e) R"
  define R' where "R' = dropWhile (\<lambda>r. iv_begin r < e) R"
  define parts where "parts = (if iv_begin (hd M) < a then [\<lparr>iv_begin = iv_begin (hd M), iv_end = a\<rparr>] else []) @
    (if e < iv_end (last M) then [\<lparr>iv_begin = e, iv_end = iv_end (last M)\<rparr>] else [])"
  note sub = subtract_ranges [OF b inv(1) ae M_def R'_def parts_def]
  define rs where "rs = (if M = [] then m_ranges ?s else B @ parts @ R')"
  have rs: "apart rs" "addresses rs = rs_addresses g - {unat a ..< unat e}"
    using sub inv(1,2) unfolding rs_def by (simp_all split: if_splits)
  have "s = ?s\<lparr>m_version := m_version ?s + 1, m_ranges := rs\<rparr>"
    using s by (simp add: RangeSet_Subtract_def e Let_def b M_def [symmetric] R'_def [symmetric] rs_def split: if_splits)
      (auto simp: parts_def)
  then show ?thesis unfolding g' ue using rs_inv_change [OF rs inv(3,4) small] by simp
qed

lemma rs_inv_step:
  assumes "rs_inv g" and "rs_exec op g = Some g'"
  shows "rs_inv g'"
proof (cases "rs_changes g < 18446744073709551614")
  case True
  then have good: "rs_good g" using assms(1) by (simp add: rs_inv_def rs_good_def)
  note inv = rs_goodD [OF good]
  show ?thesis
  proof (cases op)
    case (RsAdd fast a n)
    then show ?thesis using assms(2) rs_inv_add [OF good] by (auto split: option.splits)
  next
    case (RsSubtract a n)
    then show ?thesis using assms(2) rs_inv_subtract [OF good] by (auto split: option.splits)
  next
    case RsClear
    then have "g' = \<lparr>rs_set = (rs_set g)\<lparr>m_version := m_version (rs_set g) + 1, m_ranges := []\<rparr>,
        rs_addresses = {}, rs_changes = Suc (rs_changes g)\<rparr>"
      using assms(2) by (simp add: RangeSet_Clear_def)
    then show ?thesis using rs_inv_change [OF _ _ inv(3,4,5), of "[]" "{}"] by simp
  next
    case (RsContains fast a n)
    obtain c s where s: "RangeSet_Contains fast a n (rs_set g) = Some (c, s)"
      and g': "g' = g\<lparr>rs_set := s, rs_changes := Suc (rs_changes g)\<rparr>"
      using assms(2) RsContains by (auto split: option.splits)
    show ?thesis using Contains_spec [OF s inv(1,3)] inv by (simp add: g' rs_inv_def)
  next
    case RsAllowFastPath
    then show ?thesis using assms(2) inv by (auto simp: rs_inv_def AllowFastPath_def hints_ok_def)
  qed
next
  case False
  have "rs_changes g' = Suc (rs_changes g)" using assms(2) by (cases op) (auto split: option.splits)
  then show ?thesis using False by (simp add: rs_inv_def)
qed

interpretation range_sets: guarded_system rs_exec "\<lambda>_. True" rs_inv
  by unfold_locales (rule rs_inv_step)

lemma rs_inv_init: "rs_inv rs_init"
  by (simp add: rs_inv_def rs_init_def RangeSet_init_def hints_ok_def)

lemma rs_changes_run: "run rs_exec ops g = Some g' \<Longrightarrow> rs_changes g' = rs_changes g + length ops"
proof (induction ops arbitrary: g)
  case (Cons op ops)
  then obtain h where h: "rs_exec op g = Some h" "run rs_exec ops h = Some g'" by (auto split: option.splits)
  have "rs_changes h = Suc (rs_changes g)" using h(1) by (cases op) (auto split: option.splits)
  then show ?case using Cons.IH [OF h(2)] by simp
qed simp

lemma rs_reached:
  assumes "run rs_exec ops rs_init = Some g" and "length ops < 18446744073709551615"
  shows "apart (m_ranges (rs_set g)) \<and> addresses (m_ranges (rs_set g)) = rs_addresses g \<and> hints_ok (rs_set g)"
proof -
  have "rs_inv g" by (rule range_sets.run_inv [OF _ rs_inv_init assms(1)]) (simp add: list_all_iff)
  then show ?thesis using rs_changes_run [OF assms(1)] assms(2) by (simp add: rs_inv_def rs_init_def)
qed

subsection \<open>Properties\<close>

text \<open>
  C38: In every run of additions, subtractions, clears and lookups, with the fast path or without, the
  array holds exactly the addresses that plain sets would: additions join, subtractions remove. Its
  intervals are non-empty, in order and never touch, so no two arrays hold the same set.
\<close>

theorem RangeSet_refines_sets:
  assumes "run rs_exec ops rs_init = Some g" and "length ops < 18446744073709551615"
  shows "(\<Union>r\<in>set (m_ranges (rs_set g)). {unat (iv_begin r) ..< unat (iv_end r)}) = rs_addresses g \<and>
    (\<forall>r\<in>set (m_ranges (rs_set g)). iv_begin r < iv_end r) \<and>
    sorted_wrt (\<lambda>r q. iv_end r < iv_begin q) (m_ranges (rs_set g))"
  using rs_reached [OF assms] by (simp add: apart_def addresses_def less_u64)

definition demo_rs_ops :: "rs_op list" where
  "demo_rs_ops = [RsAllowFastPath, RsAdd True 16 16, RsAdd True 48 16, RsAdd True 32 16, RsContains True 20 30, RsSubtract 24 8]"

lemma demo_rs_reached:
  "\<exists>g. run rs_exec demo_rs_ops rs_init = Some g \<and> m_ranges (rs_set g) = [\<lparr>iv_begin = 16, iv_end = 24\<rparr>, \<lparr>iv_begin = 32, iv_end = 64\<rparr>]"
  by (simp add: demo_rs_ops_def rs_init_def RangeSet_init_def AllowFastPath_def RangeSet_Add_def End_def Covered_def
      Fast_def UpperBound_def LowerBound_def step_back_def RangeSet_Contains_def RangeSet_Subtract_def list_ex_iff)

theorem RangeSet_refines_sets_witness:
  "\<exists>g. run rs_exec demo_rs_ops rs_init = Some g \<and> rs_addresses g = {16 ..< 24} \<union> {32 ..< 64}"
proof -
  obtain g where g: "run rs_exec demo_rs_ops rs_init = Some g"
    "m_ranges (rs_set g) = [\<lparr>iv_begin = 16, iv_end = 24\<rparr>, \<lparr>iv_begin = 32, iv_end = 64\<rparr>]"
    using demo_rs_reached by blast
  have "length demo_rs_ops < 18446744073709551615" by (simp add: demo_rs_ops_def)
  then show ?thesis using RangeSet_refines_sets [OF g(1)] g by auto
qed

text \<open>
  The lookups answer for the set of addresses: \<open>Contains\<close>, on its fast path with remembered
  lookups as on its slow path, whether the whole range is in it, \<open>Intersects\<close> whether some of it is,
  and \<open>Intersections\<close> gives non-empty ranges that make up exactly what is.
\<close>

lemma RangeSet_lookups:
  assumes "run rs_exec ops rs_init = Some g" and "length ops < 18446744073709551615" and "End a n \<noteq> None"
  shows "(\<exists>s'. RangeSet_Contains fast a n (rs_set g) = Some ({unat a ..< unat a + unat n} \<subseteq> rs_addresses g, s')) \<and>
    RangeSet_Intersects a n (rs_set g) = Some (rs_addresses g \<inter> {unat a ..< unat a + unat n} \<noteq> {}) \<and>
    (\<exists>xs. Intersections a n (rs_set g) = Some xs \<and> (\<forall>(b, k)\<in>set xs. 0 < unat k) \<and>
       (\<Union>(b, k)\<in>set xs. {unat b ..< unat b + unat k}) = rs_addresses g \<inter> {unat a ..< unat a + unat n})"
proof -
  have inv: "apart (m_ranges (rs_set g))" "addresses (m_ranges (rs_set g)) = rs_addresses g" "hints_ok (rs_set g)"
    using rs_reached [OF assms(1,2)] by auto
  obtain c s' where c: "RangeSet_Contains fast a n (rs_set g) = Some (c, s')"
    using assms(3) by (cases "Fast fast (rs_set g)") (fastforce simp: RangeSet_Contains_def split: prod.splits)+
  obtain i where i: "RangeSet_Intersects a n (rs_set g) = Some i"
    using assms(3) by (cases "LowerBound a (m_ranges (rs_set g))") (auto simp: RangeSet_Intersects_def)
  obtain xs where xs: "Intersections a n (rs_set g) = Some xs"
    using assms(3) by (cases "step_back (\<lambda>_. True) (UpperBound a (m_ranges (rs_set g)))")
      (auto simp: Intersections_def ForEachIntersection_def)
  show ?thesis
    using c i xs Contains_spec [OF c inv(1,3)] Intersects_spec [OF i inv(1)] Intersections_spec [OF xs inv(1)] inv(2)
    by auto
qed

end
