(* ===== verification/SlotVector.thy ===== *)
theory SlotVector
  imports Prelude
begin

text \<open>
  \<open>SlotId\<close> and \<open>SlotVector\<close> of \<open>src/src/common/slotVector.h\<close>: the storage of the renderer's cached
  resources. The chunks never move, so the slots are one growing list; \<open>None\<close> is an \<open>EXIT_IF\<close>.
\<close>

datatype slot_id = SlotId (sid_index: u32) (sid_generation: u32)

definition INVALID_INDEX :: u32 where "INVALID_INDEX = 0xffffffff"

text \<open>\<open>operator<=>\<close> is the default: by index, then by generation.\<close>

instantiation slot_id :: linorder
begin

definition less_eq_slot_id :: "slot_id \<Rightarrow> slot_id \<Rightarrow> bool" where
  "less_eq_slot_id a b \<longleftrightarrow>
     sid_index a < sid_index b \<or> sid_index a = sid_index b \<and> sid_generation a \<le> sid_generation b"

definition less_slot_id :: "slot_id \<Rightarrow> slot_id \<Rightarrow> bool" where
  "less_slot_id a b \<longleftrightarrow>
     sid_index a < sid_index b \<or> sid_index a = sid_index b \<and> sid_generation a < sid_generation b"

instance
  by intro_classes (auto simp: less_eq_slot_id_def less_slot_id_def intro: slot_id.expand)

end

record 'a slot =
  slot_value :: "'a option"
  slot_generation :: u32
  slot_alive :: bool

record 'a slot_vector =
  sv_slots :: "'a slot list"
  sv_free_list :: "nat list"
  sv_size :: int

definition SlotVector_init :: "'a slot_vector" where
  "SlotVector_init = \<lparr>sv_slots = [], sv_free_list = [], sv_size = 0\<rparr>"

definition MaxSlots :: nat where "MaxSlots = 4194304"

definition is_allocated :: "'a slot_vector \<Rightarrow> slot_id \<Rightarrow> bool" where
  "is_allocated v i \<longleftrightarrow>
     (if sid_index i = INVALID_INDEX \<or> length (sv_slots v) \<le> unat (sid_index i) then False
      else slot_alive (sv_slots v ! unat (sid_index i)) \<and>
        slot_generation (sv_slots v ! unat (sid_index i)) = sid_generation i)"

text \<open>A value-less live slot would be an empty optional read: \<open>None\<close> as well.\<close>

definition try_get :: "'a slot_vector \<Rightarrow> slot_id \<Rightarrow> 'a option" where
  "try_get v i = (if is_allocated v i then slot_value (sv_slots v ! unat (sid_index i)) else None)"

definition sv_insert :: "'a \<Rightarrow> 'a slot_vector \<Rightarrow> (slot_id \<times> 'a slot_vector) option" where
  "sv_insert x v =
     (case (if sv_free_list v = []
            then if MaxSlots \<le> length (sv_slots v) then None
                 else Some (length (sv_slots v),
                   v\<lparr>sv_slots := sv_slots v @ [\<lparr>slot_value = None, slot_generation = 1, slot_alive = False\<rparr>]\<rparr>)
            else Some (last (sv_free_list v), v\<lparr>sv_free_list := butlast (sv_free_list v)\<rparr>)) of
        None \<Rightarrow> None
      | Some (index, v) \<Rightarrow>
          (let slot = sv_slots v ! index
           in if slot_value slot \<noteq> None then None
              else Some (SlotId (of_nat index) (slot_generation slot),
                v\<lparr>sv_slots := (sv_slots v)[index := slot\<lparr>slot_value := Some x, slot_alive := True\<rparr>],
                  sv_size := sv_size v + 1\<rparr>)))"

definition sv_erase :: "slot_id \<Rightarrow> 'a slot_vector \<Rightarrow> 'a slot_vector option" where
  "sv_erase i v =
     (if \<not> is_allocated v i then None
      else (let index = unat (sid_index i);
                slot = sv_slots v ! index;
                generation = slot_generation slot + 1
            in Some (v\<lparr>sv_slots := (sv_slots v)[index := slot\<lparr>slot_alive := False,
                        slot_generation := (if generation = 0 then 1 else generation), slot_value := None\<rparr>],
                   sv_free_list := sv_free_list v @ [index], sv_size := sv_size v - 1\<rparr>)))"

definition sv_capacity :: "'a slot_vector \<Rightarrow> nat" where
  "sv_capacity v = length (sv_slots v)"

text \<open>The calls of \<open>ForEach\<close>, in order.\<close>

definition sv_ForEach :: "'a slot_vector \<Rightarrow> (slot_id \<times> 'a) list" where
  "sv_ForEach v = concat (map (\<lambda>index. case slot_value (sv_slots v ! index) of
       None \<Rightarrow> [] | Some x \<Rightarrow> [(SlotId (of_nat index) (slot_generation (sv_slots v ! index)), x)])
     [0 ..< length (sv_slots v)])"

end
