(* ===== verification/SlotVectorProps.thy ===== *)
theory SlotVectorProps
  imports SlotVector Runs
begin

text \<open>
  A slot vector is a finite map with fresh keys: an id handed out reads its object until it is
  erased, and never anything afterwards, though its slot is used again.
\<close>

subsection \<open>The invariant\<close>

text \<open>A vector with every id it handed out, the object inserted under it, and those erased.\<close>

record 'a sv_state =
  st_vector :: "'a slot_vector"
  st_issued :: "slot_id \<Rightarrow> 'a option"
  st_erased :: "slot_id set"
  st_erases :: nat

definition sv_shape :: "'a slot_vector \<Rightarrow> bool" where
  "sv_shape v \<longleftrightarrow> length (sv_slots v) \<le> MaxSlots \<and> distinct (sv_free_list v) \<and>
     (\<forall>i<length (sv_slots v). i \<in> set (sv_free_list v) \<longleftrightarrow> \<not> slot_alive (sv_slots v ! i)) \<and>
     (\<forall>i\<in>set (sv_free_list v). i < length (sv_slots v)) \<and>
     (\<forall>s\<in>set (sv_slots v). slot_alive s \<longleftrightarrow> slot_value s \<noteq> None) \<and>
     sv_size v = int (length (filter slot_alive (sv_slots v)))"

text \<open>The ids of a slot have generations up to the slot's own, which is still free when it is not alive.\<close>

definition sv_issue :: "'a sv_state \<Rightarrow> bool" where
  "sv_issue s \<longleftrightarrow>
     (\<forall>i x. st_issued s i = Some x \<longrightarrow> unat (sid_index i) < length (sv_slots (st_vector s)) \<and>
        unat (sid_generation i) \<le> unat (slot_generation (sv_slots (st_vector s) ! unat (sid_index i))) \<and>
        (i \<in> st_erased s \<longrightarrow> sid_generation i \<noteq> slot_generation (sv_slots (st_vector s) ! unat (sid_index i))) \<and>
        (i \<notin> st_erased s \<longrightarrow> is_allocated (st_vector s) i \<and> slot_value (sv_slots (st_vector s) ! unat (sid_index i)) = Some x)) \<and>
     (\<forall>i. is_allocated (st_vector s) i \<longrightarrow> st_issued s i \<noteq> None) \<and> st_erased s \<subseteq> dom (st_issued s) \<and>
     (\<forall>t\<in>set (sv_slots (st_vector s)). unat (slot_generation t) \<le> Suc (st_erases s))"

datatype 'a sv_op = SvInsert 'a | SvErase slot_id

fun sv_exec :: "'a sv_op \<Rightarrow> 'a sv_state \<Rightarrow> 'a sv_state option" where
  "sv_exec (SvInsert x) s = (case sv_insert x (st_vector s) of None \<Rightarrow> None
     | Some (i, v) \<Rightarrow> Some (s\<lparr>st_vector := v, st_issued := (st_issued s)(i \<mapsto> x)\<rparr>))"
| "sv_exec (SvErase i) s = (case sv_erase i (st_vector s) of None \<Rightarrow> None
     | Some v \<Rightarrow> Some (s\<lparr>st_vector := v, st_erased := insert i (st_erased s), st_erases := Suc (st_erases s)\<rparr>))"

fun_cases sv_exec_insertE: "sv_exec (SvInsert x) s = Some s'"
  and sv_exec_eraseE: "sv_exec (SvErase i) s = Some s'"


lemma unat_of_nat_slot: "k < MaxSlots \<Longrightarrow> unat (of_nat k :: u32) = k"
  by (simp add: MaxSlots_def unat_of_nat take_bit_nat_eq_self)

lemma sid_index_valid: "unat (sid_index i) < MaxSlots \<Longrightarrow> sid_index i \<noteq> INVALID_INDEX"
  by (auto simp: MaxSlots_def INVALID_INDEX_def)

lemma is_allocated_iff:
  assumes "sv_shape v"
  shows "is_allocated v i \<longleftrightarrow> unat (sid_index i) < length (sv_slots v) \<and>
    slot_alive (sv_slots v ! unat (sid_index i)) \<and> slot_generation (sv_slots v ! unat (sid_index i)) = sid_generation i"
proof -
  have "length (sv_slots v) \<le> MaxSlots" using assms unfolding sv_shape_def by blast
  then have "unat (sid_index i) < length (sv_slots v) \<Longrightarrow> sid_index i \<noteq> INVALID_INDEX" using sid_index_valid [of i] by simp
  then show ?thesis by (auto simp: is_allocated_def)
qed

lemma filter_alive_update:
  assumes "k < length xs" and "slot_alive s \<longleftrightarrow> \<not> slot_alive (xs ! k)"
  shows "int (length (filter slot_alive (xs[k := s]))) =
    int (length (filter slot_alive xs)) + (if slot_alive s then 1 else -1)"
proof -
  obtain A B where "A = take k xs" "B = drop (Suc k) xs" by blast
  then have "xs = A @ xs ! k # B" "xs[k := s] = A @ s # B"
    using id_take_nth_drop [OF assms(1)] upd_conv_take_nth_drop [OF assms(1)] by simp_all
  then obtain y where y: "xs = A @ y # B" "xs[k := s] = A @ s # B" "slot_alive s \<longleftrightarrow> \<not> slot_alive y" using assms(2) by blast
  show ?thesis unfolding y(2) using y(3) by (subst y(1)) simp
qed

lemma sv_insert_cases:
  assumes sh: "sv_shape v" and ins: "sv_insert x v = Some (i, v')"
  defines "k \<equiv> unat (sid_index i)" and "new \<equiv> \<lparr>slot_value = Some x, slot_generation = sid_generation i, slot_alive = True\<rparr>"
  shows "k < MaxSlots \<and> sv_slots v' ! k = new \<and> k < length (sv_slots v') \<and> length (sv_slots v) \<le> length (sv_slots v') \<and>
    (\<forall>j<length (sv_slots v'). j \<noteq> k \<longrightarrow> j < length (sv_slots v) \<and> sv_slots v' ! j = sv_slots v ! j) \<and>
    (k < length (sv_slots v) \<longrightarrow> \<not> slot_alive (sv_slots v ! k) \<and> sid_generation i = slot_generation (sv_slots v ! k)) \<and>
    (\<not> k < length (sv_slots v) \<longrightarrow> sid_generation i = 1) \<and> sv_shape v'"
proof (cases "sv_free_list v = []")
  case True
  have len: "length (sv_slots v) < MaxSlots" and out: "i = SlotId (of_nat (length (sv_slots v))) 1"
    "sv_slots v' = sv_slots v @ [\<lparr>slot_value = Some x, slot_generation = 1, slot_alive = True\<rparr>]"
    "sv_free_list v' = []" "sv_size v' = sv_size v + 1"
    using ins True by (auto simp: sv_insert_def Let_def nth_append split: if_splits)
  have k: "k = length (sv_slots v)" using unat_of_nat_slot [OF len] by (simp add: k_def out(1))
  have "\<forall>j<length (sv_slots v). slot_alive (sv_slots v ! j)"
    using sh True unfolding sv_shape_def by (metis empty_iff list.set(1))
  moreover from this have "\<forall>j<length (sv_slots v). slot_value (sv_slots v ! j) \<noteq> None"
    using sh nth_mem unfolding sv_shape_def by blast
  ultimately have "sv_shape v'" using sh len True by (auto simp: sv_shape_def out nth_append)
  then show ?thesis using len by (simp add: k new_def out(1,2) nth_append)
next
  case False
  let ?k = "last (sv_free_list v)"
  have kk: "?k \<in> set (sv_free_list v)" using False by simp
  have lt: "?k < length (sv_slots v)" and na: "\<not> slot_alive (sv_slots v ! ?k)" using sh kk by (auto simp: sv_shape_def)
  have mx: "?k < MaxSlots" using lt sh by (auto simp: sv_shape_def)
  define s where "s = (sv_slots v ! ?k)\<lparr>slot_value := Some x, slot_alive := True\<rparr>"
  have out: "i = SlotId (of_nat ?k) (slot_generation (sv_slots v ! ?k))"
    "sv_slots v' = (sv_slots v)[?k := s]" "sv_free_list v' = butlast (sv_free_list v)" "sv_size v' = sv_size v + 1"
    using ins False by (auto simp: sv_insert_def Let_def s_def split: if_splits)
  have k: "k = ?k" using unat_of_nat_slot [OF mx] by (simp add: k_def out(1))
  have new: "new = s" by (simp add: new_def s_def out(1))
  have fl: "sv_free_list v = butlast (sv_free_list v) @ [?k]" using False by simp
  have "distinct (butlast (sv_free_list v) @ [?k])" using sh False unfolding sv_shape_def by simp
  then have d: "distinct (butlast (sv_free_list v))" "?k \<notin> set (butlast (sv_free_list v))" by auto
  have mem: "j \<in> set (sv_free_list v) \<longleftrightarrow> j = ?k \<or> j \<in> set (butlast (sv_free_list v))" for j
    by (subst fl) auto
  have sz: "int (length (filter slot_alive (sv_slots v'))) = int (length (filter slot_alive (sv_slots v))) + 1"
    using filter_alive_update [OF lt, of s] na by (simp add: out(2) s_def)
  have "sv_shape v'" unfolding sv_shape_def out(3,4)
  proof (intro conjI allI ballI impI)
    fix j assume "j < length (sv_slots v')"
    then show "j \<in> set (butlast (sv_free_list v)) \<longleftrightarrow> \<not> slot_alive (sv_slots v' ! j)"
      using sh d(2) mem lt by (cases "j = ?k") (auto simp: sv_shape_def out(2) s_def)
  next
    fix j assume "j \<in> set (butlast (sv_free_list v))"
    then show "j < length (sv_slots v')" using sh mem by (auto simp: sv_shape_def out(2))
  next
    fix t assume "t \<in> set (sv_slots v')"
    then have "t = s \<or> t \<in> set (sv_slots v)" using set_update_subset_insert out(2) by fastforce
    then show "slot_alive t \<longleftrightarrow> slot_value t \<noteq> None" using sh by (auto simp: sv_shape_def s_def)
  qed (use sh d(1) sz in \<open>auto simp: sv_shape_def out(2)\<close>)
  then show ?thesis using lt na mx by (simp add: k new out(1,2))
qed


lemma sv_erase_cases:
  assumes sh: "sv_shape v" and er: "sv_erase i v = Some v'"
  defines "k \<equiv> unat (sid_index i)"
  shows "is_allocated v i \<and> k < length (sv_slots v) \<and> slot_generation (sv_slots v ! k) = sid_generation i \<and>
    sv_slots v' = (sv_slots v)[k := \<lparr>slot_value = None,
      slot_generation = (if sid_generation i + 1 = 0 then 1 else sid_generation i + 1), slot_alive = False\<rparr>] \<and> sv_shape v'"
proof -
  have al: "is_allocated v i" using er by (auto simp: sv_erase_def split: if_splits)
  then have k: "k < length (sv_slots v)" "slot_alive (sv_slots v ! k)" "slot_generation (sv_slots v ! k) = sid_generation i"
    using is_allocated_iff [OF sh] by (auto simp: k_def)
  define s where "s = (sv_slots v ! k)\<lparr>slot_alive := False,
    slot_generation := (if sid_generation i + 1 = 0 then 1 else sid_generation i + 1), slot_value := None\<rparr>"
  have out: "sv_slots v' = (sv_slots v)[k := s]" "sv_free_list v' = sv_free_list v @ [k]" "sv_size v' = sv_size v - 1"
    using er al k(3) by (auto simp: sv_erase_def Let_def k_def s_def)
  have fresh: "k \<notin> set (sv_free_list v)" using sh k unfolding sv_shape_def by blast
  have sz: "int (length (filter slot_alive (sv_slots v'))) = int (length (filter slot_alive (sv_slots v))) - 1"
    using filter_alive_update [OF k(1), of s] k(2) by (simp add: out(1) s_def)
  have "sv_shape v'" unfolding sv_shape_def out(2,3)
  proof (intro conjI allI ballI impI)
    fix j assume "j < length (sv_slots v')"
    then show "j \<in> set (sv_free_list v @ [k]) \<longleftrightarrow> \<not> slot_alive (sv_slots v' ! j)"
      using sh k(1) by (cases "j = k") (auto simp: sv_shape_def out(1) s_def)
  next
    fix j assume "j \<in> set (sv_free_list v @ [k])"
    then show "j < length (sv_slots v')" using sh k(1) by (auto simp: sv_shape_def out(1))
  next
    fix t assume "t \<in> set (sv_slots v')"
    then have "t = s \<or> t \<in> set (sv_slots v)" using set_update_subset_insert out(1) by fastforce
    then show "slot_alive t \<longleftrightarrow> slot_value t \<noteq> None" using sh by (auto simp: sv_shape_def s_def)
  qed (use sh fresh sz in \<open>auto simp: sv_shape_def out(1)\<close>)
  moreover have "s = \<lparr>slot_value = None, slot_generation = (if sid_generation i + 1 = 0 then 1 else sid_generation i + 1), slot_alive = False\<rparr>"
    by (simp add: s_def)
  ultimately show ?thesis using al k out(1) by simp
qed

lemma sv_issueD:
  assumes "sv_issue s" and "st_issued s i = Some x"
  shows "unat (sid_index i) < length (sv_slots (st_vector s))"
    "unat (sid_generation i) \<le> unat (slot_generation (sv_slots (st_vector s) ! unat (sid_index i)))"
    "i \<in> st_erased s \<Longrightarrow> sid_generation i \<noteq> slot_generation (sv_slots (st_vector s) ! unat (sid_index i))"
    "i \<notin> st_erased s \<Longrightarrow> is_allocated (st_vector s) i \<and> slot_value (sv_slots (st_vector s) ! unat (sid_index i)) = Some x"
  using assms unfolding sv_issue_def by blast+

text \<open>A slot that is not alive has a generation nobody holds.\<close>

lemma sv_insert_fresh:
  assumes sh: "sv_shape (st_vector s)" and iss: "sv_issue s" and ins: "sv_insert x (st_vector s) = Some (i, v')"
  shows "st_issued s i = None"
proof (rule ccontr)
  assume "st_issued s i \<noteq> None"
  then obtain y where y: "st_issued s i = Some y" by blast
  note c = sv_insert_cases [OF sh ins] and d = sv_issueD [OF iss y]
  have g: "sid_generation i = slot_generation (sv_slots (st_vector s) ! unat (sid_index i))"
    "\<not> slot_alive (sv_slots (st_vector s) ! unat (sid_index i))" using c d(1) by auto
  then show False using d(3,4) is_allocated_iff [OF sh, of i] by blast
qed

lemma slot_id_eq: "sid_index i = sid_index j \<Longrightarrow> sid_generation i = sid_generation j \<Longrightarrow> i = j"
  by (cases i; cases j) simp

lemma sv_issue_insert:
  assumes sh: "sv_shape (st_vector s)" and iss: "sv_issue s" and ins: "sv_insert x (st_vector s) = Some (i, v')"
  shows "sv_issue (s\<lparr>st_vector := v', st_issued := (st_issued s)(i \<mapsto> x)\<rparr>)"
proof -
  let ?v = "st_vector s" and ?k = "unat (sid_index i)"
  note c = sv_insert_cases [OF sh ins] and fresh = sv_insert_fresh [OF sh iss ins]
  have sh': "sv_shape v'" using c by blast
  note al = is_allocated_iff [OF sh] and al' = is_allocated_iff [OF sh']
  have er: "st_erased s \<subseteq> dom (st_issued s)" and gen: "\<forall>t\<in>set (sv_slots ?v). unat (slot_generation t) \<le> Suc (st_erases s)"
    using iss unfolding sv_issue_def by blast+
  have i: "i \<notin> st_erased s" "is_allocated v' i" using fresh er c unfolding al' by auto
  have same: "sv_slots v' ! unat (sid_index j) = sv_slots ?v ! unat (sid_index j)"
    if "unat (sid_index j) < length (sv_slots ?v)" "unat (sid_index j) \<noteq> ?k" for j
    using c that by auto
  have old: "unat (sid_index j) < length (sv_slots v') \<and>
      unat (sid_generation j) \<le> unat (slot_generation (sv_slots v' ! unat (sid_index j))) \<and>
      (j \<in> st_erased s \<longrightarrow> sid_generation j \<noteq> slot_generation (sv_slots v' ! unat (sid_index j))) \<and>
      (j \<notin> st_erased s \<longrightarrow> is_allocated v' j \<and> slot_value (sv_slots v' ! unat (sid_index j)) = Some y)"
    if y: "st_issued s j = Some y" for j y
  proof (cases "unat (sid_index j) = ?k")
    case False
    note d = sv_issueD [OF iss y]
    show ?thesis unfolding al' same [OF d(1) False] using d c unfolding al by auto
  next
    case True
    note d = sv_issueD [OF iss y]
    have k: "?k < length (sv_slots ?v)" using d(1) True by simp
    then have g: "slot_generation (sv_slots v' ! ?k) = slot_generation (sv_slots ?v ! ?k)" "\<not> slot_alive (sv_slots ?v ! ?k)"
      using c by auto
    then have "\<not> is_allocated ?v j" using True unfolding al by simp
    then show ?thesis using d True g(1) c by auto
  qed
  have known: "st_issued s j \<noteq> None" if "is_allocated v' j" "j \<noteq> i" for j
  proof -
    have ne: "unat (sid_index j) \<noteq> ?k"
    proof
      assume eq: "unat (sid_index j) = ?k"
      then have "sid_generation j = sid_generation i" using that(1) c unfolding al' by auto
      then show False using eq that(2) slot_id_eq [of j i] by (simp add: word_unat_eq_iff)
    qed
    then have "unat (sid_index j) < length (sv_slots ?v)" using that(1) c unfolding al' by blast
    then have "is_allocated ?v j" using that(1) same [OF _ ne] unfolding al al' by simp
    then show ?thesis using iss unfolding sv_issue_def by blast
  qed
  have gen': "\<forall>t\<in>set (sv_slots v'). unat (slot_generation t) \<le> Suc (st_erases s)"
  proof
    fix t assume "t \<in> set (sv_slots v')"
    then obtain j where j: "j < length (sv_slots v')" "t = sv_slots v' ! j" by (auto simp: in_set_conv_nth)
    show "unat (slot_generation t) \<le> Suc (st_erases s)"
      using c j gen nth_mem by (cases "j = ?k"; cases "?k < length (sv_slots ?v)") fastforce+
  qed
  define s' where "s' = s\<lparr>st_vector := v', st_issued := (st_issued s)(i \<mapsto> x)\<rparr>"
  have s': "st_vector s' = v'" "st_issued s' = (st_issued s)(i \<mapsto> x)" "st_erased s' = st_erased s" "st_erases s' = st_erases s"
    by (simp_all add: s'_def)
  have new: "?k < length (sv_slots v') \<and> unat (sid_generation i) \<le> unat (slot_generation (sv_slots v' ! ?k)) \<and>
      slot_value (sv_slots v' ! ?k) = Some x" using c by simp
  have all: "unat (sid_index j) < length (sv_slots v') \<and>
      unat (sid_generation j) \<le> unat (slot_generation (sv_slots v' ! unat (sid_index j))) \<and>
      (j \<in> st_erased s \<longrightarrow> sid_generation j \<noteq> slot_generation (sv_slots v' ! unat (sid_index j))) \<and>
      (j \<notin> st_erased s \<longrightarrow> is_allocated v' j \<and> slot_value (sv_slots v' ! unat (sid_index j)) = Some y)"
    if "((st_issued s)(i \<mapsto> x)) j = Some y" for j y
    using that old [of j y] new i by (cases "j = i") simp_all
  have dom: "((st_issued s)(i \<mapsto> x)) j \<noteq> None" if "is_allocated v' j" for j using known [OF that] by simp
  have "st_erased s \<subseteq> dom ((st_issued s)(i \<mapsto> x))" using er by auto
  then have "sv_issue s'" unfolding sv_issue_def s' using all dom gen' by blast
  then show ?thesis by (simp add: s'_def)
qed


lemma sv_issue_erase:
  assumes sh: "sv_shape (st_vector s)" and iss: "sv_issue s" and er: "sv_erase i (st_vector s) = Some v'"
    and small: "Suc (Suc (st_erases s)) < 4294967296"
  shows "sv_issue (s\<lparr>st_vector := v', st_erased := insert i (st_erased s), st_erases := Suc (st_erases s)\<rparr>)"
proof -
  let ?v = "st_vector s" and ?k = "unat (sid_index i)"
  note c = sv_erase_cases [OF sh er]
  have sh': "sv_shape v'" using c by blast
  note al = is_allocated_iff [OF sh] and al' = is_allocated_iff [OF sh']
  have k: "?k < length (sv_slots ?v)" "slot_generation (sv_slots ?v ! ?k) = sid_generation i" using c by auto
  have gen: "\<forall>t\<in>set (sv_slots ?v). unat (slot_generation t) \<le> Suc (st_erases s)" using iss unfolding sv_issue_def by blast
  have "unat (sid_generation i) \<le> Suc (st_erases s)" using gen k nth_mem by metis
  then have up: "unat (sid_generation i + 1) = Suc (unat (sid_generation i))"
    using small by (simp add: unat_word_ariths)
  define g where "g = sid_generation i + 1"
  define new :: "'a slot" where "new = \<lparr>slot_value = None, slot_generation = g, slot_alive = False\<rparr>"
  have g0: "g \<noteq> 0" using up by (metis g_def nat.distinct(1) unat_0)
  have v': "sv_slots v' = (sv_slots ?v)[?k := new]" using c g0 by (simp add: new_def g_def)
  have len: "length (sv_slots v') = length (sv_slots ?v)" by (simp add: v')
  have at_k: "sv_slots v' ! ?k = new" using k(1) by (simp add: v')
  have same: "sv_slots v' ! j = sv_slots ?v ! j" if "j \<noteq> ?k" for j using that by (simp add: v')
  have all: "unat (sid_index j) < length (sv_slots v') \<and>
      unat (sid_generation j) \<le> unat (slot_generation (sv_slots v' ! unat (sid_index j))) \<and>
      (j \<in> insert i (st_erased s) \<longrightarrow> sid_generation j \<noteq> slot_generation (sv_slots v' ! unat (sid_index j))) \<and>
      (j \<notin> insert i (st_erased s) \<longrightarrow> is_allocated v' j \<and> slot_value (sv_slots v' ! unat (sid_index j)) = Some y)"
    if y: "st_issued s j = Some y" for j y
  proof (cases "unat (sid_index j) = ?k")
    case False
    note d = sv_issueD [OF iss y]
    have "j \<noteq> i" using False by blast
    then show ?thesis using d unfolding al' same [OF False] len al by auto
  next
    case True
    note d = sv_issueD [OF iss y]
    have le: "unat (sid_generation j) \<le> unat (sid_generation i)" using d(2) True k(2) by simp
    have ne: "sid_generation j \<noteq> g"
    proof
      assume "sid_generation j = g"
      then show False using le up unfolding g_def by simp
    qed
    have "j \<in> insert i (st_erased s)"
    proof (rule ccontr)
      assume n: "j \<notin> insert i (st_erased s)"
      then have "sid_generation j = sid_generation i" using d(4) True k(2) unfolding al by simp
      then show False using n True slot_id_eq [of j i] by (simp add: word_unat_eq_iff)
    qed
    then show ?thesis using True k(1) le up ne unfolding len True at_k by (simp add: new_def g_def)
  qed
  have known: "st_issued s j \<noteq> None" if "is_allocated v' j" for j
  proof -
    have "unat (sid_index j) \<noteq> ?k" using that unfolding al' by (auto simp: at_k new_def)
    then have "is_allocated ?v j" using that same unfolding al al' len by simp
    then show ?thesis using iss unfolding sv_issue_def by blast
  qed
  have "i \<in> dom (st_issued s)" using c iss unfolding sv_issue_def by blast
  then have dom: "insert i (st_erased s) \<subseteq> dom (st_issued s)" using iss unfolding sv_issue_def by blast
  have gen': "\<forall>t\<in>set (sv_slots v'). unat (slot_generation t) \<le> Suc (Suc (st_erases s))"
  proof
    fix t assume "t \<in> set (sv_slots v')"
    then have "t = new \<or> t \<in> set (sv_slots ?v)" using set_update_subset_insert v' by fastforce
    then show "unat (slot_generation t) \<le> Suc (Suc (st_erases s))"
      using gen up \<open>unat (sid_generation i) \<le> Suc (st_erases s)\<close> by (auto simp: new_def g_def intro: le_SucI)
  qed
  define s' where "s' = s\<lparr>st_vector := v', st_erased := insert i (st_erased s), st_erases := Suc (st_erases s)\<rparr>"
  have s': "st_vector s' = v'" "st_issued s' = st_issued s" "st_erased s' = insert i (st_erased s)" "st_erases s' = Suc (st_erases s)"
    by (simp_all add: s'_def)
  have "sv_issue s'" unfolding sv_issue_def s' using all known dom gen' by blast
  then show ?thesis by (simp add: s'_def)
qed

definition sv_inv :: "'a sv_state \<Rightarrow> bool" where
  "sv_inv s \<longleftrightarrow> (st_erases s < 4294967295 \<longrightarrow> sv_shape (st_vector s) \<and> sv_issue s)"

lemma sv_inv_step:
  assumes inv: "sv_inv s" and ex: "sv_exec op s = Some s'"
  shows "sv_inv s'"
proof (cases op)
  case (SvInsert x)
  obtain i v where i: "sv_insert x (st_vector s) = Some (i, v)" and s': "s' = s\<lparr>st_vector := v, st_issued := (st_issued s)(i \<mapsto> x)\<rparr>"
    using ex unfolding SvInsert by (elim sv_exec_insertE) (auto split: option.splits)
  show ?thesis unfolding sv_inv_def
  proof
    assume "st_erases s' < 4294967295"
    then have "sv_shape (st_vector s)" "sv_issue s" using inv by (auto simp: sv_inv_def s')
    then show "sv_shape (st_vector s') \<and> sv_issue s'"
      using sv_insert_cases [OF _ i] sv_issue_insert [OF _ _ i] by (simp add: s')
  qed
next
  case (SvErase i)
  obtain v where v: "sv_erase i (st_vector s) = Some v"
    and s': "s' = s\<lparr>st_vector := v, st_erased := insert i (st_erased s), st_erases := Suc (st_erases s)\<rparr>"
    using ex unfolding SvErase by (elim sv_exec_eraseE) (auto split: option.splits)
  show ?thesis unfolding sv_inv_def
  proof
    assume "st_erases s' < 4294967295"
    then have "sv_shape (st_vector s)" "sv_issue s" "Suc (Suc (st_erases s)) < 4294967296" using inv by (auto simp: sv_inv_def s')
    then show "sv_shape (st_vector s') \<and> sv_issue s'"
      using sv_erase_cases [OF _ v] sv_issue_erase [OF _ _ v] by (simp add: s')
  qed
qed

interpretation slot_vectors: guarded_system sv_exec "\<lambda>_. True" sv_inv
  by unfold_locales (rule sv_inv_step)

definition sv_init :: "'a sv_state" where
  "sv_init = \<lparr>st_vector = SlotVector_init, st_issued = (\<lambda>_. None), st_erased = {}, st_erases = 0\<rparr>"

lemma sv_inv_init: "sv_inv sv_init"
  by (simp add: sv_inv_def sv_init_def SlotVector_init_def sv_shape_def sv_issue_def is_allocated_def)

lemma sv_erases_run: "run sv_exec ops s = Some s' \<Longrightarrow> st_erases s' \<le> st_erases s + length ops"
proof (induction ops arbitrary: s)
  case (Cons op ops)
  then obtain t where t: "sv_exec op s = Some t" "run sv_exec ops t = Some s'" by (auto split: option.splits)
  have "st_erases t \<le> Suc (st_erases s)" using t(1) by (cases op) (auto split: option.splits)
  then show ?case using Cons.IH [OF t(2)] by simp
qed simp

subsection \<open>Properties\<close>

text \<open>
  C39: In every run of insertions and erasures, an id handed out reads the object inserted under it
  until it is erased and nothing ever after, every other id reads nothing, the live objects are
  counted, and the next insertion hands out an id that was never handed out before.
\<close>

theorem SlotVector_ids_never_dangle:
  assumes "run sv_exec ops sv_init = Some s" and "length ops < 4294967295"
  shows "(\<forall>i. try_get (st_vector s) i = (if i \<in> st_erased s then None else st_issued s i)) \<and>
    sv_size (st_vector s) = int (length (filter slot_alive (sv_slots (st_vector s)))) \<and>
    (\<forall>x i v. sv_insert x (st_vector s) = Some (i, v) \<longrightarrow> st_issued s i = None \<and> i \<notin> st_erased s \<and> try_get v i = Some x)"
proof -
  have "sv_inv s" by (rule slot_vectors.run_inv [OF _ sv_inv_init assms(1)]) (simp add: list_all_iff)
  moreover have "st_erases s < 4294967295" using sv_erases_run [OF assms(1)] assms(2) by (simp add: sv_init_def)
  ultimately have sh: "sv_shape (st_vector s)" and iss: "sv_issue s" by (auto simp: sv_inv_def)
  have er: "st_erased s \<subseteq> dom (st_issued s)" using iss unfolding sv_issue_def by blast
  have get: "try_get (st_vector s) i = (if i \<in> st_erased s then None else st_issued s i)" for i
  proof (cases "st_issued s i")
    case None
    then have "\<not> is_allocated (st_vector s) i" using iss unfolding sv_issue_def by blast
    then show ?thesis using None by (simp add: try_get_def)
  next
    case (Some x)
    note d = sv_issueD [OF iss Some]
    show ?thesis
    proof (cases "i \<in> st_erased s")
      case True
      then have "\<not> is_allocated (st_vector s) i" using d(3) unfolding is_allocated_iff [OF sh] by auto
      then show ?thesis using True by (simp add: try_get_def)
    next
      case False
      then show ?thesis using d(4) Some by (simp add: try_get_def)
    qed
  qed
  have fresh: "st_issued s i = None \<and> i \<notin> st_erased s \<and> try_get v i = Some x" if ins: "sv_insert x (st_vector s) = Some (i, v)" for x i v
  proof -
    note c = sv_insert_cases [OF sh ins]
    then have "is_allocated v i" by (subst is_allocated_iff) auto
    then show ?thesis using sv_insert_fresh [OF sh iss ins] er c by (auto simp: try_get_def)
  qed
  have "sv_size (st_vector s) = int (length (filter slot_alive (sv_slots (st_vector s))))" using sh unfolding sv_shape_def by blast
  then show ?thesis using get fresh by blast
qed

definition demo_slots :: "nat sv_op list" where
  "demo_slots = [SvInsert 7, SvErase (SlotId 0 1), SvInsert 8]"

lemmas sv_run_simps = sv_init_def SlotVector_init_def sv_insert_def sv_erase_def is_allocated_def INVALID_INDEX_def MaxSlots_def

theorem SlotVector_ids_never_dangle_witness:
  "\<exists>s. run sv_exec demo_slots sv_init = Some s \<and> try_get (st_vector s) (SlotId 0 1) = None \<and> try_get (st_vector s) (SlotId 0 2) = Some 8"
proof -
  obtain s where s: "run sv_exec demo_slots sv_init = Some s" "SlotId 0 1 \<in> st_erased s" "SlotId 0 2 \<notin> st_erased s" "st_issued s (SlotId 0 2) = Some 8"
    by (simp add: demo_slots_def sv_run_simps)
  have "length demo_slots < 4294967295" by (simp add: demo_slots_def)
  then show ?thesis using SlotVector_ids_never_dangle [OF s(1)] s by auto
qed

end
