(* ===== verification/LruCache.thy ===== *)
theory LruCache
  imports Prelude Runs
begin

text \<open>
  \<open>class LeastRecentlyUsedCache\<close> of \<open>src/src/common/lruCache.h\<close>, which orders the images and buffers
  of the renderer for its garbage collector: a doubly linked list threaded through items that never
  move. A pointer to an item is its id, and the chunks are one store of items.
\<close>

record 'o lru_item =
  it_object :: 'o
  it_tick :: u64
  it_next :: "nat option"
  it_prev :: "nat option"

record 'o lru =
  lr_items :: "nat \<Rightarrow> 'o lru_item"
  lr_size :: nat
  lr_free :: "nat list"
  lr_first :: "nat option"
  lr_last :: "nat option"

text \<open>An item of a fresh chunk is \<open>Item {}\<close>; \<open>dflt\<close> is \<open>Object {}\<close>.\<close>

definition lru_new :: "'o \<Rightarrow> 'o lru" where
  "lru_new dflt =
     \<lparr>lr_items = (\<lambda>_. \<lparr>it_object = dflt, it_tick = 0, it_next = None, it_prev = None\<rparr>),
      lr_size = 0, lr_free = [], lr_first = None, lr_last = None\<rparr>"

definition set_item :: "nat \<Rightarrow> ('o lru_item \<Rightarrow> 'o lru_item) \<Rightarrow> 'o lru \<Rightarrow> 'o lru" where
  "set_item i f c = c\<lparr>lr_items := (lr_items c)(i := f (lr_items c i))\<rparr>"

definition lru_Build :: "'o lru \<Rightarrow> nat \<times> 'o lru" where
  "lru_Build c =
     (case lr_free c of
        [] \<Rightarrow> (lr_size c, c\<lparr>lr_size := lr_size c + 1\<rparr>)
      | i # is \<Rightarrow> (i, c\<lparr>lr_free := is\<rparr>))"

definition lru_Attach :: "nat \<Rightarrow> 'o lru \<Rightarrow> 'o lru" where
  "lru_Attach i c =
     (let c1 = (if lr_first c = None then c\<lparr>lr_first := Some i\<rparr> else c)
      in
        case lr_last c1 of
          None \<Rightarrow> c1\<lparr>lr_last := Some i\<rparr>
        | Some l \<Rightarrow>
            (let c2 = set_item i (\<lambda>x. x\<lparr>it_prev := Some l\<rparr>) c1;
                 c3 = set_item l (\<lambda>x. x\<lparr>it_next := Some i\<rparr>) c2;
                 c4 = set_item i (\<lambda>x. x\<lparr>it_next := None\<rparr>) c3
             in c4\<lparr>lr_last := Some i\<rparr>))"

definition lru_Detach :: "nat \<Rightarrow> 'o lru \<Rightarrow> 'o lru" where
  "lru_Detach i c =
     (let c1 = (case it_prev (lr_items c i) of
                  None \<Rightarrow> c
                | Some p \<Rightarrow> set_item p (\<lambda>x. x\<lparr>it_next := it_next (lr_items c i)\<rparr>) c);
          c2 = (case it_next (lr_items c1 i) of
                  None \<Rightarrow> c1
                | Some n \<Rightarrow> set_item n (\<lambda>x. x\<lparr>it_prev := it_prev (lr_items c1 i)\<rparr>) c1);
          c3 = (if lr_first c2 = Some i then c2\<lparr>lr_first := it_next (lr_items c2 i)\<rparr> else c2)
      in (if lr_last c3 = Some i then c3\<lparr>lr_last := it_prev (lr_items c3 i)\<rparr> else c3))"

definition lru_Insert :: "'o \<Rightarrow> u64 \<Rightarrow> 'o lru \<Rightarrow> nat \<times> 'o lru" where
  "lru_Insert obj tick c =
     (let (i, c1) = lru_Build c
      in (i, lru_Attach i (set_item i (\<lambda>x. x\<lparr>it_object := obj, it_tick := tick\<rparr>) c1)))"

definition lru_Touch :: "nat \<Rightarrow> u64 \<Rightarrow> 'o lru \<Rightarrow> 'o lru" where
  "lru_Touch i tick c =
     (if tick \<le> it_tick (lr_items c i) then c
      else
        let c1 = set_item i (\<lambda>x. x\<lparr>it_tick := tick\<rparr>) c
        in if lr_last c1 \<noteq> Some i then lru_Attach i (lru_Detach i c1) else c1)"

definition lru_Free :: "nat \<Rightarrow> 'o lru \<Rightarrow> 'o lru" where
  "lru_Free i c =
     (let c1 = set_item i (\<lambda>x. x\<lparr>it_next := None, it_prev := None\<rparr>) (lru_Detach i c)
      in c1\<lparr>lr_free := lr_free c1 @ [i]\<rparr>)"

text \<open>
  The traversal: the callback may change the cache and a state of its own, and stops the loop with
  \<open>True\<close> (a callback that returns nothing never does). The loop follows pointers, so that it may
  not end: the result is then \<open>None\<close>.
\<close>

partial_function (option) lru_loop ::
  "u64 \<Rightarrow> ('o \<Rightarrow> 'x \<times> 'o lru \<Rightarrow> bool \<times> 'x \<times> 'o lru) \<Rightarrow> nat option \<Rightarrow> 'x \<times> 'o lru \<Rightarrow> ('x \<times> 'o lru) option" where
  "lru_loop tick f item s =
     (case item of
        None \<Rightarrow> Some s
      | Some i \<Rightarrow>
          if tick < it_tick (lr_items (snd s) i) then Some s
          else
            let p = f (it_object (lr_items (snd s) i)) s
            in if fst p then Some (snd p) else lru_loop tick f (it_next (lr_items (snd s) i)) (snd p))"

definition ForEachItemBelow ::
  "u64 \<Rightarrow> ('o \<Rightarrow> 'x \<times> 'o lru \<Rightarrow> bool \<times> 'x \<times> 'o lru) \<Rightarrow> 'x \<times> 'o lru \<Rightarrow> ('x \<times> 'o lru) option" where
  "ForEachItemBelow tick f s = lru_loop tick f (lr_first (snd s)) s"

end
