(* ===== verification/LruCacheProps.thy ===== *)
theory LruCacheProps
  imports LruCache
begin

text \<open>
  The linked list of the least-recently-used cache holds its live items in the order they were
  inserted or last touched, in every run; the traversal below a tick ends and visits exactly the
  items an iteration over that order visits, also when the callback frees the item it is given.
\<close>

subsection \<open>The linked list\<close>

definition hd_opt :: "nat list \<Rightarrow> nat option" where
  "hd_opt xs = (case xs of [] \<Rightarrow> None | x # _ \<Rightarrow> Some x)"

definition last_opt :: "nat list \<Rightarrow> nat option" where
  "last_opt xs = (if xs = [] then None else Some (last xs))"

lemma hd_opt_simps [simp]: "hd_opt [] = None" "hd_opt (x # xs) = Some x"
  by (simp_all add: hd_opt_def)

lemma last_opt_simps [simp]: "last_opt [] = None" "last_opt (xs @ [x]) = Some x" "last_opt [x] = Some x"
  by (simp_all add: last_opt_def)

text \<open>The items \<open>xs\<close> are linked in this order, after \<open>p\<close> and before \<open>n\<close>.\<close>

fun links :: "(nat \<Rightarrow> 'o lru_item) \<Rightarrow> nat option \<Rightarrow> nat list \<Rightarrow> nat option \<Rightarrow> bool" where
  "links it p [] n = True"
| "links it p (a # xs) n =
     (it_prev (it a) = p \<and> it_next (it a) = (if xs = [] then n else hd_opt xs) \<and> links it (Some a) xs n)"

lemma links_append:
  "links it p (xs @ ys) n \<longleftrightarrow>
     links it p xs (if ys = [] then n else hd_opt ys) \<and> links it (if xs = [] then p else last_opt xs) ys n"
  by (induction xs arbitrary: p) (auto simp: hd_opt_def last_opt_def split: list.splits)

lemma links_cong:
  assumes "\<And>i. i \<in> set xs \<Longrightarrow> it_prev (it' i) = it_prev (it i) \<and> it_next (it' i) = it_next (it i)"
  shows "links it' p xs n \<longleftrightarrow> links it p xs n"
  using assms by (induction xs arbitrary: p) auto

lemma links_upd [simp]: "i \<notin> set xs \<Longrightarrow> links (it(i := x)) p xs n \<longleftrightarrow> links it p xs n"
  by (rule links_cong) auto

definition lru_wf :: "'o lru \<Rightarrow> nat list \<Rightarrow> bool" where
  "lru_wf c xs \<longleftrightarrow> distinct (xs @ lr_free c) \<and> set xs \<union> set (lr_free c) = {..<lr_size c} \<and>
     links (lr_items c) None xs None \<and> lr_first c = hd_opt xs \<and> lr_last c = last_opt xs \<and>
     (\<forall>i. i \<notin> set xs \<longrightarrow> it_next (lr_items c i) = None \<and> it_prev (lr_items c i) = None)"

text \<open>
  The same with an item \<open>a\<close> between lists: not in the list nor free; alone, its links are null.
\<close>

definition lru_open :: "'o lru \<Rightarrow> nat list \<Rightarrow> nat \<Rightarrow> bool" where
  "lru_open c xs a \<longleftrightarrow> distinct (a # xs @ lr_free c) \<and> insert a (set xs \<union> set (lr_free c)) = {..<lr_size c} \<and>
     links (lr_items c) None xs None \<and> lr_first c = hd_opt xs \<and> lr_last c = last_opt xs \<and>
     (\<forall>i. i \<notin> set xs \<and> i \<noteq> a \<longrightarrow> it_next (lr_items c i) = None \<and> it_prev (lr_items c i) = None) \<and>
     (xs = [] \<longrightarrow> it_next (lr_items c a) = None \<and> it_prev (lr_items c a) = None)"

lemma set_item_sel [simp]:
  "lr_size (set_item i f c) = lr_size c" "lr_free (set_item i f c) = lr_free c"
  "lr_first (set_item i f c) = lr_first c" "lr_last (set_item i f c) = lr_last c"
  "lr_items (set_item i f c) = (lr_items c)(i := f (lr_items c i))"
  by (simp_all add: set_item_def)

text \<open>Object and tick of an item, which linking does not change.\<close>

abbreviation payload :: "'o lru \<Rightarrow> nat \<Rightarrow> 'o \<times> u64" where
  "payload c i \<equiv> (it_object (lr_items c i), it_tick (lr_items c i))"

lemma Attach_payload: "payload (lru_Attach a c) i = payload c i"
  by (simp add: lru_Attach_def Let_def split: option.splits)

lemma Detach_payload: "payload (lru_Detach a c) i = payload c i"
  by (simp add: lru_Detach_def Let_def split: option.splits)

lemma lru_Attach_wf:
  assumes op: "lru_open c xs a"
  shows "lru_wf (lru_Attach a c) (xs @ [a])"
proof (cases xs rule: rev_cases)
  case Nil
  then have "lru_Attach a c = c\<lparr>lr_first := Some a, lr_last := Some a\<rparr>"
    using op by (simp add: lru_open_def lru_Attach_def)
  then show ?thesis using op Nil unfolding lru_wf_def lru_open_def by auto
next
  case (snoc ys l)
  define it where "it = (lr_items c)(a := (lr_items c a)\<lparr>it_prev := Some l, it_next := None\<rparr>,
                                     l := (lr_items c l)\<lparr>it_next := Some a\<rparr>)"
  have la: "l \<noteq> a" using op snoc unfolding lru_open_def by auto
  have first: "lr_first c = hd_opt xs" "lr_first c \<noteq> None" using op snoc unfolding lru_open_def by (auto simp: hd_opt_def split: list.splits)
  have e: "lru_Attach a c = c\<lparr>lr_items := it, lr_last := Some a\<rparr>"
    using op snoc first la unfolding lru_open_def lru_Attach_def it_def by (auto simp: set_item_def fun_upd_twist Let_def)
  have l1: "links (lr_items c) None (ys @ [l]) None" and fresh: "a \<notin> set ys" "l \<notin> set ys" "a \<noteq> l"
    using op snoc unfolding lru_open_def by auto
  have l2: "links it None (ys @ [l] @ [a]) None"
    using l1 fresh unfolding links_append it_def by (simp add: links_append)
  have h: "hd_opt (xs @ [a]) = hd_opt xs" using snoc by (cases ys) simp_all
  have out: "it_next (it i) = None \<and> it_prev (it i) = None" if "i \<notin> set (xs @ [a])" for i
    using that op snoc unfolding lru_open_def it_def by auto
  show ?thesis
    unfolding lru_wf_def e using op l2 h first(1) snoc out unfolding lru_open_def by (auto simp: last_opt_def)
qed


definition unlinked :: "'o lru \<Rightarrow> nat \<Rightarrow> nat list \<Rightarrow> nat list \<Rightarrow> nat \<Rightarrow> 'o lru_item" where
  "unlinked c a xs ys =
     (let it1 = (case last_opt xs of None \<Rightarrow> lr_items c
                 | Some p \<Rightarrow> (lr_items c)(p := (lr_items c p)\<lparr>it_next := hd_opt ys\<rparr>))
      in (case hd_opt ys of None \<Rightarrow> it1 | Some n \<Rightarrow> it1(n := (it1 n)\<lparr>it_prev := last_opt xs\<rparr>)))"

lemma lru_Detach_open:
  assumes wf: "lru_wf c (xs @ a # ys)"
  shows "lru_open (lru_Detach a c) (xs @ ys) a"
proof -
  have d: "distinct (xs @ a # ys @ lr_free c)" and r: "set (xs @ a # ys) \<union> set (lr_free c) = {..<lr_size c}"
    and l: "links (lr_items c) None (xs @ a # ys) None" and f: "lr_first c = hd_opt (xs @ a # ys)"
    and g: "lr_last c = last_opt (xs @ a # ys)"
    and o: "\<And>i. i \<notin> set (xs @ a # ys) \<Longrightarrow> it_next (lr_items c i) = None \<and> it_prev (lr_items c i) = None"
    using wf unfolding lru_wf_def by auto
  have prev: "it_prev (lr_items c a) = last_opt xs" and nxt: "it_next (lr_items c a) = hd_opt ys"
    and lx: "links (lr_items c) None xs (Some a)" and ly: "links (lr_items c) (Some a) ys None"
    using l unfolding links_append by (auto simp: last_opt_def hd_opt_def split: list.splits)
  define it where "it = unlinked c a xs ys"
  define fr where "fr = (if xs = [] then hd_opt ys else lr_first c)"
  define la where "la = (if ys = [] then last_opt xs else lr_last c)"
  have fa: "lr_first c = Some a \<longleftrightarrow> xs = []" using f d by (cases xs) auto
  have ga: "lr_last c = Some a \<longleftrightarrow> ys = []"
    using g d by (cases ys rule: rev_cases) (auto simp: last_opt_def split: if_splits)
  have ends: "last_opt xs \<noteq> Some a" "hd_opt ys \<noteq> Some a"
    using d by (auto simp: last_opt_def hd_opt_def split: list.splits if_splits)
  have ita: "it a = lr_items c a" using ends unfolding it_def unlinked_def by (auto simp: Let_def split: option.splits)
  have e: "lru_Detach a c = c\<lparr>lr_items := it, lr_first := fr, lr_last := la\<rparr>"
    using prev nxt fa ga ends unfolding lru_Detach_def it_def unlinked_def fr_def la_def
    by (cases c; cases "last_opt xs"; cases "hd_opt ys") (auto simp: Let_def set_item_def)
  have li: "links it None (xs @ ys) None"
  proof (cases xs rule: rev_cases)
    case Nil
    then show ?thesis using ly d unfolding it_def unlinked_def by (cases ys) (auto simp: Let_def)
  next
    case (snoc zs p)
    show ?thesis
    proof (cases ys)
      case Nil
      then show ?thesis using lx d snoc unfolding it_def unlinked_def by (auto simp: Let_def links_append)
    next
      case (Cons n ws)
      then have "p \<noteq> n" "p \<notin> set ws" "n \<notin> set ws" "n \<notin> set zs" "p \<notin> set zs" using d snoc by auto
      then show ?thesis
        using lx ly snoc Cons unfolding it_def unlinked_def by (auto simp: Let_def links_append)
    qed
  qed
  have out: "it_next (it i) = None \<and> it_prev (it i) = None" if "i \<notin> set (xs @ ys)" "i \<noteq> a" for i
  proof -
    have "last_opt xs \<noteq> Some i" "hd_opt ys \<noteq> Some i"
      using that by (auto simp: last_opt_def hd_opt_def split: list.splits if_splits)
    then have "it i = lr_items c i" unfolding it_def unlinked_def by (auto simp: Let_def split: option.splits)
    then show ?thesis using o [of i] that by auto
  qed
  have fr': "fr = hd_opt (xs @ ys)" using f unfolding fr_def by (cases xs) auto
  have la': "la = last_opt (xs @ ys)" using g unfolding la_def by (auto simp: last_opt_def)
  show ?thesis
    unfolding lru_open_def e using d r li fr' la' out ita prev nxt by auto
qed

lemma lru_Free_wf:
  assumes wf: "lru_wf c (xs @ a # ys)"
  shows "lru_wf (lru_Free a c) (xs @ ys)"
proof -
  have op: "lru_open (lru_Detach a c) (xs @ ys) a" by (rule lru_Detach_open [OF wf])
  define c1 where "c1 = lru_Detach a c"
  have e: "lru_Free a c = (set_item a (\<lambda>x. x\<lparr>it_next := None, it_prev := None\<rparr>) c1)\<lparr>lr_free := lr_free c1 @ [a]\<rparr>"
    by (simp add: lru_Free_def c1_def Let_def)
  define c2 where "c2 = (set_item a (\<lambda>x. x\<lparr>it_next := None, it_prev := None\<rparr>) c1)\<lparr>lr_free := lr_free c1 @ [a]\<rparr>"
  have d: "distinct (a # (xs @ ys) @ lr_free c1)" "insert a (set (xs @ ys) \<union> set (lr_free c1)) = {..<lr_size c1}"
    "links (lr_items c1) None (xs @ ys) None" "lr_first c1 = hd_opt (xs @ ys)" "lr_last c1 = last_opt (xs @ ys)"
    and o: "\<forall>i. i \<notin> set (xs @ ys) \<and> i \<noteq> a \<longrightarrow> it_next (lr_items c1 i) = None \<and> it_prev (lr_items c1 i) = None"
    using op unfolding lru_open_def c1_def [symmetric] by - (elim conjE, assumption)+
  have out: "it_next (lr_items c2 i) = None \<and> it_prev (lr_items c2 i) = None" if "i \<notin> set (xs @ ys)" for i
    using o that by (cases "i = a") (simp_all add: c2_def)
  have li: "links (lr_items c2) None (xs @ ys) None" using d(1,3) by (simp add: c2_def)
  have "set (xs @ ys) \<union> set (lr_free c2) = {..<lr_size c2}" 
  proof -
    have "set (lr_free c2) = insert a (set (lr_free c1))" "lr_size c2 = lr_size c1" by (simp_all add: c2_def)
    then show ?thesis using d(2) by (metis Un_insert_right)
  qed
  moreover have "distinct ((xs @ ys) @ lr_free c2)" using d(1) by (auto simp: c2_def)
  ultimately show ?thesis
    unfolding lru_wf_def e c2_def [symmetric] using d(4,5) li out by (simp add: c2_def)
qed

lemma lru_wf_tick:
  assumes "lru_wf c xs"
  shows "lru_wf (set_item a (\<lambda>x. x\<lparr>it_tick := tick\<rparr>) c) xs"
proof -
  have "links (lr_items (set_item a (\<lambda>x. x\<lparr>it_tick := tick\<rparr>) c)) p ys n \<longleftrightarrow> links (lr_items c) p ys n" for p ys n
    by (rule links_cong) simp
  then show ?thesis using assms unfolding lru_wf_def by simp
qed

lemma lru_Build_open:
  assumes wf: "lru_wf c xs" and b: "lru_Build c = (i, c')"
  shows "lru_open (set_item i (\<lambda>x. x\<lparr>it_object := obj, it_tick := tick\<rparr>) c') xs i" "i \<notin> set xs"
proof -
  have i: "i \<notin> set xs" "lr_items c' = lr_items c" "lr_first c' = lr_first c" "lr_last c' = lr_last c"
    and d: "distinct (i # xs @ lr_free c')" "insert i (set xs \<union> set (lr_free c')) = {..<lr_size c'}"
  proof -
    have w: "distinct (xs @ lr_free c)" "set xs \<union> set (lr_free c) = {..<lr_size c}" using wf unfolding lru_wf_def by blast+
    show "lr_items c' = lr_items c" "lr_first c' = lr_first c" "lr_last c' = lr_last c"
      using b unfolding lru_Build_def by (auto split: list.splits)
    show "i \<notin> set xs" "distinct (i # xs @ lr_free c')" "insert i (set xs \<union> set (lr_free c')) = {..<lr_size c'}"
    proof (atomize (full), cases "lr_free c")
      case Nil
      then have e: "i = lr_size c" "lr_free c' = []" "lr_size c' = Suc (lr_size c)" using b by (auto simp: lru_Build_def)
      have "set xs = {..<lr_size c}" using w Nil by simp
      then show "i \<notin> set xs \<and> distinct (i # xs @ lr_free c') \<and> insert i (set xs \<union> set (lr_free c')) = {..<lr_size c'}"
        using w(1) e by (simp add: lessThan_Suc)
    next
      case (Cons j js)
      then have e: "i = j" "lr_free c' = js" "lr_size c' = lr_size c" using b by (auto simp: lru_Build_def)
      then show "i \<notin> set xs \<and> distinct (i # xs @ lr_free c') \<and> insert i (set xs \<union> set (lr_free c')) = {..<lr_size c'}"
        using w Cons by simp
    qed
  qed
  show "i \<notin> set xs" by (rule i(1))
  have "links (lr_items (set_item i (\<lambda>x. x\<lparr>it_object := obj, it_tick := tick\<rparr>) c')) None xs None"
    using wf i unfolding lru_wf_def by simp
  then show "lru_open (set_item i (\<lambda>x. x\<lparr>it_object := obj, it_tick := tick\<rparr>) c') xs i"
    using wf i d unfolding lru_open_def lru_wf_def by auto
qed


subsection \<open>Runs against the order of use\<close>

text \<open>The cache beside the order of use it stands for: ids with objects and ticks.\<close>

record 'o lru_sys =
  ls_cache :: "'o lru"
  ls_order :: "(nat \<times> 'o \<times> u64) list"

datatype 'o lru_event = LruInsert 'o u64 | LruTouch nat u64 | LruFree nat

definition touch_order :: "nat \<Rightarrow> u64 \<Rightarrow> (nat \<times> 'o \<times> u64) list \<Rightarrow> (nat \<times> 'o \<times> u64) list" where
  "touch_order i tick order =
     (case map_of order i of
        None \<Rightarrow> order
      | Some (obj, old) \<Rightarrow> if tick \<le> old then order else filter (\<lambda>e. fst e \<noteq> i) order @ [(i, obj, tick)])"

text \<open>Only live ids are touched and freed.\<close>

fun lru_exec :: "'o lru_event \<Rightarrow> 'o lru_sys \<Rightarrow> 'o lru_sys option" where
  "lru_exec (LruInsert obj tick) y =
     (let (i, c) = lru_Insert obj tick (ls_cache y)
      in Some \<lparr>ls_cache = c, ls_order = ls_order y @ [(i, obj, tick)]\<rparr>)"
| "lru_exec (LruTouch i tick) y =
     (if i \<in> fst ` set (ls_order y)
      then Some \<lparr>ls_cache = lru_Touch i tick (ls_cache y), ls_order = touch_order i tick (ls_order y)\<rparr>
      else None)"
| "lru_exec (LruFree i) y =
     (if i \<in> fst ` set (ls_order y)
      then Some \<lparr>ls_cache = lru_Free i (ls_cache y), ls_order = filter (\<lambda>e. fst e \<noteq> i) (ls_order y)\<rparr>
      else None)"

definition lru_start :: "'o \<Rightarrow> 'o lru_sys" where
  "lru_start dflt = \<lparr>ls_cache = lru_new dflt, ls_order = []\<rparr>"

definition lru_rep :: "'o lru \<Rightarrow> (nat \<times> 'o \<times> u64) list \<Rightarrow> bool" where
  "lru_rep c order \<longleftrightarrow> lru_wf c (map fst order) \<and> (\<forall>(i, p) \<in> set order. payload c i = p)"

lemma lru_repD:
  assumes "lru_rep c order"
  shows "lru_wf c (map fst order)" "(i, p) \<in> set order \<Longrightarrow> payload c i = p" "distinct (map fst order)"
  using assms unfolding lru_rep_def lru_wf_def by auto

lemma filter_split:
  assumes "distinct (map fst (xs @ (i, p) # ys))"
  shows "filter (\<lambda>e. fst e \<noteq> i) (xs @ (i, p) # ys) = xs @ ys"
proof -
  have "filter (\<lambda>e. fst e \<noteq> i) xs = xs" "filter (\<lambda>e. fst e \<noteq> i) ys = ys"
    using assms by (auto simp: filter_id_conv image_iff)
  then show ?thesis by simp
qed

lemma Free_payload: "payload (lru_Free a c) i = payload c i"
  using Detach_payload [of a c i] by (auto simp: lru_Free_def Let_def)

lemma lru_Free_rep:
  assumes "lru_rep c (xs @ (i, p) # ys)"
  shows "lru_rep (lru_Free i c) (xs @ ys)"
  using lru_Free_wf [of c "map fst xs" i "map fst ys"] assms unfolding lru_rep_def Free_payload by auto

lemma lru_Insert_rep:
  assumes rep: "lru_rep c order" and ins: "lru_Insert obj tick c = (i, c')"
  shows "lru_rep c' (order @ [(i, obj, tick)])"
proof -
  obtain c1 where b: "lru_Build c = (i, c1)" and c': "c' = lru_Attach i (set_item i (\<lambda>x. x\<lparr>it_object := obj, it_tick := tick\<rparr>) c1)"
    using ins by (auto simp: lru_Insert_def split: prod.splits)
  note op = lru_Build_open(1) [OF lru_repD(1) [OF rep] b, where obj = obj and tick = tick]
    lru_Build_open(2) [OF lru_repD(1) [OF rep] b]
  have items: "lr_items c1 = lr_items c" using b by (auto simp: lru_Build_def split: list.splits)
  have "payload c' j = payload c j" if "j \<noteq> i" for j using that unfolding c' Attach_payload by (simp add: items)
  moreover have "j \<noteq> i" if "(j, p) \<in> set order" for j p using op(2) that by force
  moreover have "payload c' i = (obj, tick)" unfolding c' Attach_payload by simp
  ultimately show ?thesis
    using lru_Attach_wf [OF op(1)] lru_repD(2) [OF rep] unfolding lru_rep_def c' [symmetric] by auto
qed

lemma lru_Touch_rep:
  assumes rep: "lru_rep c order" and i: "i \<in> fst ` set order"
  shows "lru_rep (lru_Touch i tick c) (touch_order i tick order)"
proof -
  obtain obj old where e: "(i, obj, old) \<in> set order" using i by auto
  then obtain xs ys where o: "order = xs @ (i, obj, old) # ys" by (meson split_list)
  have d: "distinct (map fst order)" by (rule lru_repD(3) [OF rep])
  have m: "map_of order i = Some (obj, old)" using e d by (metis map_of_eq_Some_iff)
  have t: "it_tick (lr_items c i) = old" "it_object (lr_items c i) = obj" using lru_repD(2) [OF rep e] by simp_all
  show ?thesis
  proof (cases "tick \<le> old")
    case True
    then show ?thesis using rep m t by (simp add: lru_Touch_def touch_order_def)
  next
    case False
    define c1 where "c1 = set_item i (\<lambda>x. x\<lparr>it_tick := tick\<rparr>) c"
    have order': "touch_order i tick order = (xs @ ys) @ [(i, obj, tick)]"
      using False m filter_split [of xs i "(obj, old)" ys] d unfolding touch_order_def o by simp
    have wf1: "lru_wf c1 (map fst xs @ i # map fst ys)"
      using lru_wf_tick [OF lru_repD(1) [OF rep], of i tick] unfolding c1_def o by simp
    define c' where "c' = lru_Touch i tick c"
    have c': "c' = (if lr_last c1 \<noteq> Some i then lru_Attach i (lru_Detach i c1) else c1)"
      using False t by (simp add: c'_def lru_Touch_def c1_def Let_def)
    have pay: "payload c' j = payload c1 j" for j
      using Attach_payload [of i "lru_Detach i c1" j] Detach_payload [of i c1 j] unfolding c' by simp
    have wf': "lru_wf c' (map fst (touch_order i tick order))"
    proof (cases "lr_last c1 = Some i")
      case True
      have "last_opt (map fst xs @ i # map fst ys) = Some i" using wf1 True unfolding lru_wf_def by simp
      then have "ys = []"
        using d o by (cases ys rule: rev_cases) (auto simp: last_opt_def)
      then show ?thesis using wf1 True unfolding order' c' by simp
    next
      case False
      then show ?thesis
        using lru_Attach_wf [OF lru_Detach_open [OF wf1]] unfolding order' c' by simp
    qed
    have "payload c' j = q" if "(j, q) \<in> set (touch_order i tick order)" for j q
    proof (cases "j = i")
      case True
      have "i \<notin> fst ` set (xs @ ys)" using d o by auto
      then have "q = (obj, tick)" using that True unfolding order' by force
      then show ?thesis using True t unfolding pay c1_def by simp
    next
      case False
      have "(j, q) \<in> set ((xs @ ys) @ [(i, obj, tick)])" using that unfolding order' .
      then have "(j, q) \<in> set order" using False unfolding o by auto
      then show ?thesis using lru_repD(2) [OF rep] False unfolding pay c1_def by simp
    qed
    then show ?thesis using wf' unfolding lru_rep_def c'_def [symmetric] by auto
  qed
qed

definition lru_inv :: "'o lru_sys \<Rightarrow> bool" where
  "lru_inv y \<longleftrightarrow> lru_rep (ls_cache y) (ls_order y)"

lemma lru_step:
  assumes inv: "lru_inv y" and ex: "lru_exec e y = Some y'"
  shows "lru_inv y'"
proof (cases e)
  case (LruInsert obj tick)
  then show ?thesis using ex inv lru_Insert_rep by (auto simp: lru_inv_def split: prod.splits)
next
  case (LruTouch i tick)
  then have "i \<in> fst ` set (ls_order y)" "ls_cache y' = lru_Touch i tick (ls_cache y)"
    "ls_order y' = touch_order i tick (ls_order y)"
    using ex by (auto split: if_splits)
  then show ?thesis using inv lru_Touch_rep unfolding lru_inv_def by metis
next
  case (LruFree i)
  then obtain p where "(i, p) \<in> set (ls_order y)" and y': "ls_cache y' = lru_Free i (ls_cache y)" "ls_order y' = filter (\<lambda>e. fst e \<noteq> i) (ls_order y)"
    using ex by (auto split: if_splits)
  then obtain xs ys where o: "ls_order y = xs @ (i, p) # ys" by (meson split_list)
  then have "lru_rep (ls_cache y) (xs @ (i, p) # ys)" using inv by (simp add: lru_inv_def)
  then show ?thesis
    using filter_split lru_repD(3) lru_Free_rep unfolding lru_inv_def y' o by metis
qed

interpretation lru_runs: guarded_system lru_exec "\<lambda>_. True" lru_inv
  by unfold_locales (rule lru_step)

lemma lru_start_inv: "lru_inv (lru_start dflt)"
  unfolding lru_inv_def lru_rep_def lru_wf_def lru_start_def lru_new_def by simp


subsection \<open>The traversal\<close>

text \<open>What the traversal should do: go through the order of use until a tick is too high.\<close>

fun visit :: "u64 \<Rightarrow> ('o \<Rightarrow> 'x \<times> 'o lru \<Rightarrow> bool \<times> 'x \<times> 'o lru) \<Rightarrow> (nat \<times> 'o \<times> u64) list \<Rightarrow> 'x \<times> 'o lru \<Rightarrow> 'x \<times> 'o lru" where
  "visit tick f [] s = s"
| "visit tick f ((i, obj, t) # order) s =
     (if tick < t then s else let p = f obj s in if fst p then snd p else visit tick f order (snd p))"

text \<open>A callback leaves the cache alone or frees the item it was called for.\<close>

definition lru_callback :: "(nat \<times> 'o \<times> u64) list \<Rightarrow> ('o \<Rightarrow> 'x \<times> 'o lru \<Rightarrow> bool \<times> 'x \<times> 'o lru) \<Rightarrow> bool" where
  "lru_callback order f \<longleftrightarrow>
     (\<forall>(i, obj, t) \<in> set order. \<forall>x c. snd (snd (f obj (x, c))) = c \<or> snd (snd (f obj (x, c))) = lru_Free i c)"

lemma lru_callbackD:
  assumes "lru_callback order f" and "(i, obj, t) \<in> set order"
  shows "snd (snd (f obj s)) = snd s \<or> snd (snd (f obj s)) = lru_Free i (snd s)"
  using assms unfolding lru_callback_def by (cases s) fastforce

lemma lru_rep_next:
  assumes "lru_rep c (xs @ (i, p) # ys)"
  shows "it_next (lr_items c i) = hd_opt (map fst ys)"
  using lru_repD(1) [OF assms] unfolding lru_wf_def by (auto simp: links_append hd_opt_def split: list.splits)

lemma lru_loop_visits:
  assumes "lru_rep (snd s) (xs @ ys)" and "lru_callback ys f"
  shows "lru_loop tick f (hd_opt (map fst ys)) s = Some (visit tick f ys s)"
  using assms
proof (induction ys arbitrary: xs s)
  case Nil
  show ?case by (subst lru_loop.simps) simp
next
  case (Cons e ys)
  obtain i obj t where e: "e = (i, obj, t)" by (cases e)
  have rep: "lru_rep (snd s) (xs @ (i, obj, t) # ys)" using Cons.prems(1) e by simp
  have it: "it_tick (lr_items (snd s) i) = t" "it_object (lr_items (snd s) i) = obj"
    "it_next (lr_items (snd s) i) = hd_opt (map fst ys)"
    using lru_repD(2) [OF rep, of i "(obj, t)"] lru_rep_next [OF rep] by auto
  have cb: "lru_callback ys f" using Cons.prems(2) unfolding lru_callback_def by simp
  show ?case
  proof (cases "tick < t \<or> fst (f obj s)")
    case True
    then show ?thesis by (subst lru_loop.simps) (auto simp: e it Let_def)
  next
    case False
    define s' where "s' = snd (f obj s)"
    have "snd s' = snd s \<or> snd s' = lru_Free i (snd s)"
      unfolding s'_def by (rule lru_callbackD [OF Cons.prems(2), of i obj t]) (simp add: e)
    then have "\<exists>zs. lru_rep (snd s') (zs @ ys)"
    proof
      assume "snd s' = snd s"
      then show ?thesis using rep by (intro exI [of _ "xs @ [(i, obj, t)]"]) simp
    next
      assume "snd s' = lru_Free i (snd s)"
      then show ?thesis using lru_Free_rep [OF rep] by auto
    qed
    then have "lru_loop tick f (hd_opt (map fst ys)) s' = Some (visit tick f ys s')" using Cons.IH cb by blast
    then show ?thesis using False by (subst lru_loop.simps) (simp add: e it Let_def s'_def)
  qed
qed

text \<open>With ticks that never go down, the items below a tick are exactly those that come first.\<close>

lemma below_is_prefix:
  assumes "sorted (map (snd \<circ> snd) order)"
  shows "takeWhile (\<lambda>e. snd (snd e) \<le> tick) order = filter (\<lambda>e. snd (snd e) \<le> tick) order"
  using assms by (induction order) (fastforce simp: filter_empty_conv intro: sym)+

text \<open>
  C40: In every run of insertions, touches and frees of live ids, the traversal of the items below a
  tick terminates, whatever its callback does, as long as the callback changes the cache only by
  freeing the item it is called for; and it calls the callback exactly as an iteration over the
  items in their order of use, oldest first, that stops at the first item with a higher tick or when
  the callback asks for it.
\<close>

theorem ForEachItemBelow_terminates:
  assumes "run lru_exec es (lru_start dflt) = Some y" and "lru_callback (ls_order y) f"
  shows "ForEachItemBelow tick f (x, ls_cache y) = Some (visit tick f (ls_order y) (x, ls_cache y))"
proof -
  have "lru_inv y" by (rule lru_runs.run_inv [OF _ lru_start_inv assms(1)]) (simp add: list_all_iff)
  then have rep: "lru_rep (snd (x, ls_cache y)) ([] @ ls_order y)" by (simp add: lru_inv_def)
  have "lr_first (ls_cache y) = hd_opt (map fst (ls_order y))" using lru_repD(1) [OF rep] unfolding lru_wf_def by simp
  then show ?thesis using lru_loop_visits [OF rep assms(2)] by (simp add: ForEachItemBelow_def)
qed

text \<open>Three items; the oldest is touched, then the items below 7 are collected into a list and freed.\<close>

definition gc_callback :: "nat \<Rightarrow> nat list \<times> nat lru \<Rightarrow> bool \<times> nat list \<times> nat lru" where
  "gc_callback obj = (\<lambda>(seen, c). (False, seen @ [obj], lru_Free (obj - 10) c))"

definition gc_events :: "nat lru_event list" where
  "gc_events = [LruInsert 10 1, LruInsert 11 2, LruInsert 12 3, LruTouch 0 5, LruInsert 13 8, LruTouch 1 9]"

lemma gc_run:
  "\<exists>y. run lru_exec gc_events (lru_start (0 :: nat)) = Some y \<and>
     ls_order y = [(2, 12, 3), (0, 10, 5), (3, 13, 8), (1, 11, 9)]"
  by (simp add: gc_events_def lru_start_def lru_new_def lru_Insert_def lru_Build_def lru_Attach_def lru_Touch_def
      lru_Detach_def set_item_def touch_order_def Let_def le_u64)

lemma ForEachItemBelow_terminates_witness:
  "\<exists>y c'. run lru_exec gc_events (lru_start (0 :: nat)) = Some y \<and>
     ForEachItemBelow 7 gc_callback ([], ls_cache y) = Some ([12, 10], c')"
proof -
  obtain y where y: "run lru_exec gc_events (lru_start (0 :: nat)) = Some y"
    and o: "ls_order y = [(2, 12, 3), (0, 10, 5), (3, 13, 8), (1, 11, 9)]"
    using gc_run by blast
  have cb: "lru_callback (ls_order y) gc_callback" unfolding o lru_callback_def gc_callback_def by simp
  have "fst (visit 7 gc_callback (ls_order y) ([], ls_cache y)) = [12, 10]"
    unfolding o by (simp add: gc_callback_def Let_def)
  then show ?thesis using y ForEachItemBelow_terminates [OF y cb, of 7 "[]"] by (metis prod.collapse)
qed

end
