(* ===== verification/Spec2Isabelle.thy ===== *)
theory Spec2Isabelle
  imports VirtualRangesProps PhysicalMemoryProps FlexibleMemoryProps PooledMemoryProps SemaphoreProps PosixSemProps EventFlagProps
    EventQueueTimers BackingStoreProps BackingFenceProps GuestFreeRange KernelExamples MonitorCond RwLockProps PthreadObjectsProps PthreadKeysProps RangeSetProps SlotVectorProps LruCacheProps
begin

text \<open>
  KytyPS5 runs PlayStation 5 programs on a host: it loads the program, gives it the system libraries
  it expects, translates its GPU commands and shaders to Vulkan and presents the result. This
  development covers the part on which everything else stands: the guest's memory
  (\<open>src/src/kernel/memory.cpp\<close>, \<open>memoryAddressSpace.inc\<close>), the synchronisation objects of its kernel
  (\<open>semaphore.cpp\<close>, \<open>eventFlag.cpp\<close>, \<open>eventQueue.cpp\<close>, \<open>pthread.cpp\<close>), and the containers the renderer
  keeps its resources in (\<open>rangeSet.h\<close>, \<open>slotVector.h\<close>, \<open>lruCache.h\<close>). The definitions are executable
  and follow the code branch by branch; an \<open>EXIT\<close>, \<open>EXIT_IF\<close> or failed assertion is the value \<open>None\<close>
  of an outer option.

  \<^bold>\<open>Shared theories.\<close> \<open>Prelude\<close> names the machine integers (all arithmetic of the code is on words of
  its width) and has the arithmetic of address spans; \<open>OrderedMap\<close> is \<open>std::map\<close> as its entries in key
  order; \<open>FreeRanges\<close> states the contract of a free list as the locales \<open>byte_store\<close> and \<open>byte_pool\<close>;
  \<open>Segments\<close> is the meaning of blocks that back addresses by bytes; \<open>Runs\<close> executes lists of events and
  has the locale \<open>guarded_system\<close>, by which an invariant of each event holds in every run; \<open>Errno\<close> has
  the error numbers of \<open>src/src/libs/errno.h\<close> and \<open>KernelTime\<close> the time structure of the kernel.

  \<^bold>\<open>Guest memory.\<close> Five tables describe a guest address, each with a mutex that makes an operation one
  step.
  \<^item> \<open>VirtualRanges\<close> (\<open>class VirtualRanges\<close>): what the guest asked for, as a sorted vector of ranges with
    attributes. \<open>VirtualRangesMeaning\<close> reads it as a map \<open>vr_at\<close> from addresses to page attributes,
    \<open>VirtualRangesEdits\<close>, \<open>VirtualRangesOps\<close> and \<open>VirtualRangesQueries\<close> prove each helper, operation and
    query against that map, and \<open>VirtualRangesProps\<close> has the reachable states and the cached size clamp.
  \<^item> \<open>PhysicalMemory\<close> (direct memory), \<open>FlexibleMemory\<close> and \<open>PooledMemory\<close>: which bytes of the backing
    store are handed out, and the addresses they back. Their \<open>Props\<close> theories (with \<open>FreeList\<close> and
    \<open>PhysicalMemoryBlocks\<close>) show that free and owned bytes partition what each manages, and what every
    operation does to the addresses, failures of the host and their rollback included.
  \<^item> \<open>BackingStore\<close> (\<open>class GuestBackingStore\<close>): the views of the one memory object behind all guest
    memory. \<open>BackingViews\<close> and \<open>BackingProps\<close> prove mapping and unmapping against \<open>view_at\<close>, the byte an
    address shows; \<open>Coverage\<close>, \<open>CoverageProps\<close> and \<open>BackingLookups\<close> the test whether another address shows
    the same bytes, in both of its forms, and the epoch-stamped cache of host reads; \<open>BackingData\<close> and
    \<open>BackingStoreProps\<close> the bytes that reads and writes through the views carry. \<open>BackingFence\<close> and
    \<open>BackingFenceProps\<close> are its lock-free side: how host reads, transfers and mapping changes exclude one
    another, as an interleaving of single accesses to the atomics.
  \<^item> \<open>AddressSpace\<close> (\<open>class GuestAddressSpace\<close>, POSIX form): which addresses the process owns, and which of
    them are free or mapped. \<open>SpaceLists\<close>, \<open>SpaceRegions\<close>, \<open>AddressSpaceInv\<close> and \<open>AddressSpaceProps\<close> prove
    its operations from start-up on; \<open>GuestFreeRange\<close> is \<open>FindGuestFreeRange\<close>, which combines it with the
    virtual ranges.
  \<^bold>\<open>The kernel's memory functions.\<close> Every exported function of \<open>memory.cpp\<close> holds one mutex from start to
  end, so it is one step on the record \<open>kernel\<close>, the five tables side by side. The GPU resource manager
  and the registered callbacks are told of changes through the parameter \<open>ke_notify\<close>, which may act on
  the host.
  \<^item> \<open>KernelMemory\<close> has the state and the calls into the tables; \<open>KernelMapping\<close> start-up, the replacement
    of a fixed range with its rollback, and the mapping functions; \<open>KernelUnmapping\<close> unmapping, the release
    of direct memory with its rollback, program and stack memory, and protections; \<open>KernelPool\<close> the memory
    pool and the two batch functions; \<open>KernelQueries\<close> names, apertures and queries.
  \<^item> \<open>KernelExamples\<close> is a concrete machine for witnesses, and three behaviours that look unintended.

  \<^bold>\<open>Kernel objects.\<close> An operation that blocks is split where it releases the mutex; an event names one
  critical section with what the clock or the environment answers, and the properties hold of every
  sequence of events, so of every interleaving.
  \<^item> \<open>Semaphore\<close>, \<open>PosixSem\<close>, \<open>EventFlag\<close> with their \<open>Props\<close>: counts stay within bounds and are conserved,
    no satisfiable waiter sleeps, a cancellation drains the sleepers.
  \<^item> \<open>EventQueue\<close> (the class), \<open>EventQueueApi\<close> (the table of queues and the exported functions) with
    \<open>EventQueueProps\<close>, \<open>EventQueueFifo\<close> and \<open>EventQueueTimers\<close>: keys are unique, reports fit the buffer,
    queued triggers come out in order, a wait sleeps no longer than the next timer.
  \<^item> \<open>Mutex\<close>, \<open>Cond\<close> and \<open>RwLock\<close> are the locks of \<open>pthread.cpp\<close>; \<open>Monitor\<close> composes mutexes and condition
    variables for any number of threads, with \<open>MonitorProps\<close> (exclusion, at every wait and timeout) and
    \<open>MonitorCond\<close> (refinement of a first-in first-out queue); \<open>RwLockProps\<close> has the exclusion of
    read-write locks. \<open>PthreadObjects\<close> is the life of statically initialised objects, \<open>PthreadKeys\<close> the
    thread-specific values with their destructor rounds.

  \<^bold>\<open>Renderer containers.\<close> \<open>RangeSet\<close> refines sets of addresses, fast path included; \<open>SlotVector\<close> is a map
  whose ids never dangle; \<open>LruCache\<close> is a doubly linked list in a store of items, with its traversal
  under callbacks.

  \<^bold>\<open>Termination and bounds.\<close> No definition uses fuel. Loops are structural recursion or \<open>function\<close>s with
  a measure, mostly the distance to the end of the request. The traversal of the LRU cache follows
  pointers a callback may change, so it is a \<open>partial_function\<close> and its return is a theorem; so is the
  scan of a fixed range that is replaced. Words wrap
  as in the code; where a theorem needs a bound it is a hypothesis: \<open>fits\<close> says a request ends at an
  address of 64 bits, counts of views of one byte stay below \<open>2 ^ 31\<close>, versions and sequence numbers of
  64 bits and reader counts of 32 bits do not wrap. Mapping epochs wrap as in the code.

  \<^bold>\<open>Parameters.\<close> What is not under \<open>src\<close> or belongs to the host is an argument of the definitions: the
  calls \<open>mmap\<close>, \<open>munmap\<close> and \<open>mprotect\<close> (which may fail at any time), the ranges listed in
  \<open>/proc/self/maps\<close> at start-up, clocks and time-outs, \<open>FindProgramByAddr\<close>, thread-specific destructors
  the callbacks of the LRU cache, and the listeners of the kernel's memory. Every property with a hypothesis about them has a witness with a
  concrete instance.

  \<^bold>\<open>Findings.\<close> Behaviours that look unintended are lemmas next to the component: a \<open>Restore\<close> check that
  wraps, negative and overflowing semaphore signals, a wait that joins a cancelled event flag,
  level-triggered events that fill the buffer, pthread objects that end the emulator, keys of ended
  threads, absolute times that overflow, empty and wrapping requests to the address space, reservations
  that wrap or leak, and a renaming after which a release ends the emulator.

  \<^bold>\<open>Not modelled.\<close> The Windows and macOS branches of the address space and the system calls
  themselves; GPU watch state and counters, transient protections and the reads and writes for the GPU; threads, signals and clocks, which are calls of the host;
  the file system; the loader, which patches machine code; the system libraries, mostly argument checks
  around host libraries; the guest GPU, the renderer, the shader recompiler and presentation, whose
  behaviour is that of the Vulkan driver and a large compiler of their own; the launcher and the tools.
\<close>

end
